(* ===== verification/OxysPrelude.thy ===== *)
theory OxysPrelude
  imports Main "HOL-Library.Word"
begin

text \<open>
  What every component of the development shares: the machine integers of the
  kernel, the page geometry and the alignment helpers of
  \<open>kernel/include/oxys/mm/memory.h\<close>, the outcome of an operation that may end in
  \<open>KernelPanic\<close>, and the generic facts on words, lists and folds that the component
  proofs use through the collections \<open>geometry\<close> and \<open>unat_align\<close>.
\<close>

unbundle bit_operations_syntax

named_theorems geometry \<open>the constants of the page geometry, unfolded\<close>
named_theorems unat_align \<open>address arithmetic read as natural numbers\<close>

type_synonym u8 = "8 word"
type_synonym u16 = "16 word"
type_synonym u32 = "32 word"
type_synonym u64 = "64 word"

subsection \<open>The outcome of an operation that may panic\<close>

text \<open>
  \<open>KernelPanic\<close> does not return. An operation that may reach it yields \<open>Inl (Panic why)\<close>
  there and \<open>Inr\<close> of its result on every other path.
\<close>

datatype panic = Panic string

type_synonym 'a outcome = "panic + 'a"

definition KernelPanic :: "string \<Rightarrow> 'a outcome" where
  "KernelPanic message = Inl (Panic message)"

lemma KernelPanic_neq_Inr [simp]: "KernelPanic m \<noteq> Inr x" "Inr x \<noteq> KernelPanic m"
  by (simp_all add: KernelPanic_def)

definition bind_outcome :: "'a outcome \<Rightarrow> ('a \<Rightarrow> 'b outcome) \<Rightarrow> 'b outcome" where
  "bind_outcome m f = (case m of Inl p \<Rightarrow> Inl p | Inr x \<Rightarrow> f x)"

lemma bind_outcome_simps [simp]:
  "bind_outcome (Inr x) f = f x"
  "bind_outcome (Inl p) f = Inl p"
  "bind_outcome (KernelPanic m) f = KernelPanic m"
  by (simp_all add: bind_outcome_def KernelPanic_def)

lemma bind_outcome_Inr_iff:
  "bind_outcome m f = Inr y \<longleftrightarrow> (\<exists>x. m = Inr x \<and> f x = Inr y)"
  by (cases m) (simp_all add: bind_outcome_def)

subsection \<open>The page geometry and alignment\<close>

definition PAGE_SIZE :: u64 where "PAGE_SIZE = 4096"
definition PAGE_SHIFT :: nat where "PAGE_SHIFT = 12"
definition PAGE_SIZE_LARGE :: u64 where "PAGE_SIZE_LARGE = 0x200000"
definition LOW_MEMORY_LIMIT :: u64 where "LOW_MEMORY_LIMIT = 0x100000"

lemmas page_constants [geometry] =
  PAGE_SIZE_def PAGE_SHIFT_def PAGE_SIZE_LARGE_def LOW_MEMORY_LIMIT_def

definition AlignUp :: "u64 \<Rightarrow> u64 \<Rightarrow> u64" where
  "AlignUp value alignment = (value + (alignment - 1)) AND NOT (alignment - 1)"

definition AlignDown :: "u64 \<Rightarrow> u64 \<Rightarrow> u64" where
  "AlignDown value alignment = value AND NOT (alignment - 1)"

definition IsPageAligned :: "u64 \<Rightarrow> bool" where
  "IsPageAligned value \<longleftrightarrow> (value AND (PAGE_SIZE - 1)) = 0"

lemma unat_word_of_nat: "n < 2 ^ 64 \<Longrightarrow> unat (word_of_nat n :: u64) = n"
  by (simp add: unsigned_of_nat take_bit_eq_mod)

lemma unat_u64: "unat (a :: u64) < 2 ^ 64"
  using unsigned_less [of a] by simp

lemma unat_u16: "unat (a :: u16) < 65536"
  using unsigned_less [of a] by simp

lemma mask_12: "(4095 :: u64) = mask 12"
  by (simp add: mask_eq_exp_minus_1)

lemma unat_drop12 [unat_align]: "unat (drop_bit 12 (v :: u64)) = unat v div 4096"
  by (simp add: drop_bit_eq_div unat_div_distrib)

lemma unat_push12: "unat (push_bit 12 (v :: u64)) = (unat v * 4096) mod 2 ^ 64"
  by (simp add: push_bit_eq_mult unat_word_ariths)

lemma clear_low12: "(v :: u64) AND NOT (mask 12) = push_bit 12 (drop_bit 12 v)"
  by (rule bit_word_eqI) (auto simp: bit_simps)

lemma unat_clear_low12: "unat ((v :: u64) AND NOT (mask 12)) = unat v div 4096 * 4096"
proof -
  have "unat v < 2 ^ 64" using unsigned_less [of v] by simp
  then have "unat v div 4096 * 4096 < 2 ^ 64"
    by (meson div_times_less_eq_dividend le_less_trans)
  then show ?thesis
    by (simp add: clear_low12 unat_push12 unat_drop12)
qed

lemma unat_AlignDown [unat_align]: "unat (AlignDown v PAGE_SIZE) = unat v div 4096 * 4096"
  by (simp add: AlignDown_def PAGE_SIZE_def mask_12 unat_clear_low12)

lemma unat_AlignUp:
  assumes "unat v + 4095 < 2 ^ 64"
  shows "unat (AlignUp v PAGE_SIZE) = (unat v + 4095) div 4096 * 4096"
proof -
  have "unat (v + 4095) = unat v + 4095"
    using assms by (subst unat_add_lem [THEN iffD1]) simp_all
  moreover have "AlignUp v PAGE_SIZE = (v + 4095) AND NOT (mask 12)"
    by (simp add: AlignUp_def PAGE_SIZE_def mask_12 [symmetric])
  ultimately show ?thesis by (simp only: unat_clear_low12)
qed

lemma IsPageAligned_iff [unat_align]: "IsPageAligned v \<longleftrightarrow> 4096 dvd unat v"
proof -
  have "v AND mask 12 = 0 \<longleftrightarrow> unat (take_bit 12 v) = 0"
    by (simp add: take_bit_eq_mask unat_eq_0)
  also have "unat (take_bit 12 v) = unat v mod 4096"
    by (subst unsigned_take_bit_eq) (simp_all add: take_bit_eq_mod)
  finally show ?thesis
    by (simp add: IsPageAligned_def PAGE_SIZE_def mask_12 dvd_eq_mod_eq_0)
qed

text \<open>The frame holding an address, rounded either way.\<close>

lemma less_div_page: "j < f div 4096 \<longleftrightarrow> (j + 1) * 4096 \<le> (f :: nat)"
  using less_eq_div_iff_mult_less_eq [of 4096 "Suc j" f] by (simp add: Suc_le_eq)

lemma div_page_le: "f div 4096 \<le> j \<longleftrightarrow> (f :: nat) < (j + 1) * 4096"
  using less_div_page [of j f] by linarith

lemma ceil_page_le: "(f + 4095) div 4096 \<le> j \<longleftrightarrow> f \<le> j * (4096 :: nat)"
  using div_page_le [of "f + 4095" j] by auto

lemma pred_page_div: "0 < q \<Longrightarrow> (q * 4096 - 1) div 4096 = q - (1 :: nat)"
  by (cases q) simp_all

end
