(* ===== verification/FrameAllocator.thy ===== *)
theory FrameAllocator
  imports OxysPrelude
begin

text \<open>
  The physical frame allocator of \<open>kernel/mm/pmm.c\<close>: a bitmap of one bit per 4 KiB
  frame (a set bit is a frame allocated or reserved), the search hint, and the reference
  counts upon which copy-on-write rests.  The static variables of the file are the fields
  of \<open>frame_state\<close>; \<open>BootInformation\<close> carries the fields of
  \<open>kernel/include/oxys/boot/bootinfo.h\<close> this file reads.

  Indices and counts of frames are \<open>nat\<close>: each is a 64-bit address divided by the page
  size, so none can wrap.  Addresses, the words of the bitmap, the free count and the
  reference counts are machine words and wrap as the code's do.
\<close>

subsection \<open>What the boot loader reports\<close>

datatype BootMemoryType =
    BOOT_MEMORY_USABLE
  | BOOT_MEMORY_RESERVED
  | BOOT_MEMORY_ACPI_RECLAIMABLE
  | BOOT_MEMORY_NON_VOLATILE
  | BOOT_MEMORY_DEFECTIVE

record BootMemoryRegion =
  base_address :: u64
  region_length :: u64
  region_type :: BootMemoryType

record BootModule =
  module_start :: u64
  module_end :: u64
  module_label :: string

record BootInformation =
  memory_regions :: "BootMemoryRegion list"
  highest_usable_address :: u64
  kernel_physical_start :: u64
  kernel_physical_end :: u64
  boot_information_start :: u64
  boot_information_end :: u64
  modules :: "BootModule list"

subsection \<open>The state of the allocator\<close>

definition FRAME_BITS_PER_WORD :: nat where "FRAME_BITS_PER_WORD = 64"
definition FRAME_ALLOCATION_FAILED :: u64 where "FRAME_ALLOCATION_FAILED = 0"
definition UINT16_MAX :: u16 where "UINT16_MAX = 0xFFFF"

record frame_state =
  FrameBitmap :: "u64 list"
  FrameCount :: nat
  FrameBitmapWordCount :: nat
  FrameFreeFrames :: u64
  FrameSearchHint :: nat
  FrameReferenceTable :: "u16 list option"
  FrameReferenceHighWaterMark :: u16
  FrameBitmapPhysicalStart :: u64
  FrameBitmapPhysicalEnd :: u64

definition FrameIndexOf :: "u64 \<Rightarrow> nat" where
  "FrameIndexOf address = unat (drop_bit PAGE_SHIFT address)"

definition FrameAddressOf :: "nat \<Rightarrow> u64" where
  "FrameAddressOf index = push_bit PAGE_SHIFT (word_of_nat index)"

definition FrameIsUsed :: "frame_state \<Rightarrow> nat \<Rightarrow> bool" where
  "FrameIsUsed s index \<longleftrightarrow>
     (FrameBitmap s ! (index div FRAME_BITS_PER_WORD)
        AND push_bit (index mod FRAME_BITS_PER_WORD) 1) \<noteq> 0"

definition FrameMarkUsed :: "nat \<Rightarrow> frame_state \<Rightarrow> frame_state" where
  "FrameMarkUsed index s =
     (if \<not> FrameIsUsed s index
      then s\<lparr>FrameBitmap := (FrameBitmap s)[index div FRAME_BITS_PER_WORD :=
               FrameBitmap s ! (index div FRAME_BITS_PER_WORD)
                 OR push_bit (index mod FRAME_BITS_PER_WORD) 1],
             FrameFreeFrames := FrameFreeFrames s - 1\<rparr>
      else s)"

definition FrameMarkFree :: "nat \<Rightarrow> frame_state \<Rightarrow> frame_state" where
  "FrameMarkFree index s =
     (if FrameIsUsed s index
      then s\<lparr>FrameBitmap := (FrameBitmap s)[index div FRAME_BITS_PER_WORD :=
               FrameBitmap s ! (index div FRAME_BITS_PER_WORD)
                 AND NOT (push_bit (index mod FRAME_BITS_PER_WORD) 1)],
             FrameFreeFrames := FrameFreeFrames s + 1\<rparr>
      else s)"

text \<open>The loops of the two range operations run \<open>index\<close> from the first to the last frame inclusive.\<close>

definition FrameMarkRange :: "u64 \<Rightarrow> u64 \<Rightarrow> frame_state \<Rightarrow> frame_state" where
  "FrameMarkRange start finish s =
     (if finish \<le> start then s
      else
        let first_index = FrameIndexOf (AlignDown start PAGE_SIZE);
            last_index = FrameIndexOf (AlignUp finish PAGE_SIZE - 1)
        in if FrameCount s \<le> first_index then s
           else
             let last_index = (if FrameCount s \<le> last_index then FrameCount s - 1 else last_index)
             in fold FrameMarkUsed [first_index..<Suc last_index] s)"

definition FrameReleaseRange :: "u64 \<Rightarrow> u64 \<Rightarrow> frame_state \<Rightarrow> frame_state" where
  "FrameReleaseRange start finish s =
     (let aligned_start = AlignUp start PAGE_SIZE;
          aligned_end = AlignDown finish PAGE_SIZE
      in if aligned_end \<le> aligned_start then s
         else
           let first_index = FrameIndexOf aligned_start;
               last_index = FrameIndexOf aligned_end - 1
           in if FrameCount s \<le> first_index then s
              else
                let last_index =
                      (if FrameCount s \<le> last_index then FrameCount s - 1 else last_index)
                in fold FrameMarkFree [first_index..<Suc last_index] s)"

subsection \<open>Placing the bitmap and initialisation\<close>

text \<open>One pass of the inner loop: past the kernel image, then past the boot information.\<close>

definition PlaceBitmapPass :: "BootInformation \<Rightarrow> u64 \<Rightarrow> u64 \<Rightarrow> u64" where
  "PlaceBitmapPass information required_bytes candidate =
     (let candidate =
            (if candidate < kernel_physical_end information
                \<and> kernel_physical_start information < candidate + required_bytes
             then AlignUp (kernel_physical_end information) PAGE_SIZE else candidate)
      in if candidate < boot_information_end information
            \<and> boot_information_start information < candidate + required_bytes
         then AlignUp (boot_information_end information) PAGE_SIZE else candidate)"

fun PlaceBitmapScan :: "BootInformation \<Rightarrow> u64 \<Rightarrow> BootMemoryRegion list \<Rightarrow> u64" where
  "PlaceBitmapScan information required_bytes [] = FRAME_ALLOCATION_FAILED"
| "PlaceBitmapScan information required_bytes (region # regions) =
     (if region_type region \<noteq> BOOT_MEMORY_USABLE
      then PlaceBitmapScan information required_bytes regions
      else
        let addressable_limit = 0x40000000;
            region_end = base_address region + region_length region;
            region_end = (if addressable_limit < region_end then addressable_limit else region_end);
            candidate = AlignUp (base_address region) PAGE_SIZE;
            candidate = (if candidate < LOW_MEMORY_LIMIT then LOW_MEMORY_LIMIT else candidate);
            candidate = PlaceBitmapPass information required_bytes candidate;
            candidate = PlaceBitmapPass information required_bytes candidate
        in if base_address region \<le> candidate \<and> candidate + required_bytes \<le> region_end
           then candidate
           else PlaceBitmapScan information required_bytes regions)"

definition PhysicalMemoryPlaceBitmap :: "BootInformation \<Rightarrow> u64 \<Rightarrow> u64" where
  "PhysicalMemoryPlaceBitmap information required_bytes =
     PlaceBitmapScan information required_bytes (memory_regions information)"

definition ReleaseUsable :: "BootMemoryRegion \<Rightarrow> frame_state \<Rightarrow> frame_state" where
  "ReleaseUsable region s =
     (if region_type region = BOOT_MEMORY_USABLE
      then FrameReleaseRange (base_address region)
             (base_address region + region_length region) s
      else s)"

definition PhysicalMemoryInitialise ::
  "BootInformation \<Rightarrow> frame_state \<Rightarrow> frame_state outcome" where
  "PhysicalMemoryInitialise information s =
     (if highest_usable_address information = 0
      then KernelPanic ''The boot loader reported no usable physical memory.''
      else
        let count = FrameIndexOf (AlignUp (highest_usable_address information) PAGE_SIZE);
            words = (count + (FRAME_BITS_PER_WORD - 1)) div FRAME_BITS_PER_WORD;
            bitmap_bytes = word_of_nat words * 8;
            start = PhysicalMemoryPlaceBitmap information bitmap_bytes
        in if start = FRAME_ALLOCATION_FAILED
           then KernelPanic ''No usable region can accommodate the physical memory bitmap.''
           else
             let s = s\<lparr>FrameCount := count, FrameBitmapWordCount := words,
                       FrameBitmapPhysicalStart := start,
                       FrameBitmapPhysicalEnd := start + bitmap_bytes,
                       FrameBitmap := replicate words (NOT 0),
                       FrameFreeFrames := 0\<rparr>;
                 s = fold ReleaseUsable (memory_regions information) s;
                 s = FrameMarkRange 0 LOW_MEMORY_LIMIT s;
                 s = FrameMarkRange (kernel_physical_start information)
                       (kernel_physical_end information) s;
                 s = FrameMarkRange (boot_information_start information)
                       (boot_information_end information) s;
                 s = FrameMarkRange (FrameBitmapPhysicalStart s) (FrameBitmapPhysicalEnd s) s;
                 s = fold (\<lambda>m. FrameMarkRange (module_start m) (module_end m))
                       (modules information) s
             in Inr (s\<lparr>FrameSearchHint := FrameIndexOf LOW_MEMORY_LIMIT\<rparr>))"

subsection \<open>Allocation and release\<close>

text \<open>
  One pass of the search: a frame index whose word is wholly in use skips the word.
  \<open>None\<close> is the end of the pass.
\<close>

function FrameSearch :: "frame_state \<Rightarrow> nat \<Rightarrow> nat \<Rightarrow> nat option" where
  "FrameSearch s index stop =
     (if index < stop
      then if index mod FRAME_BITS_PER_WORD = 0
              \<and> FrameBitmap s ! (index div FRAME_BITS_PER_WORD) = NOT 0
           then FrameSearch s (index + (FRAME_BITS_PER_WORD - 1) + 1) stop
           else if \<not> FrameIsUsed s index then Some index
           else FrameSearch s (index + 1) stop
      else None)"
  by pat_completeness auto
termination
  by (relation "measure (\<lambda>(s, index, stop). stop - index)") auto

declare FrameSearch.simps [simp del]

text \<open>What the search does with the frame it found.\<close>

definition FrameIssue :: "nat \<Rightarrow> frame_state \<Rightarrow> frame_state \<times> u64" where
  "FrameIssue index s =
     (let s = FrameMarkUsed index s;
          s = (case FrameReferenceTable s of
                 None \<Rightarrow> s
               | Some table \<Rightarrow> s\<lparr>FrameReferenceTable := Some (table[index := 1])\<rparr>)
      in (s\<lparr>FrameSearchHint := index + 1\<rparr>, FrameAddressOf index))"

definition FrameAllocateBelow :: "u64 \<Rightarrow> frame_state \<Rightarrow> frame_state \<times> u64" where
  "FrameAllocateBelow limit s =
     (let limit_index = FrameIndexOf (AlignDown limit PAGE_SIZE);
          start_index = FrameSearchHint s;
          limit_index = (if FrameCount s < limit_index then FrameCount s else limit_index);
          start_index =
            (if limit_index \<le> start_index then FrameIndexOf LOW_MEMORY_LIMIT else start_index)
      in case FrameSearch s start_index limit_index of
           Some index \<Rightarrow> FrameIssue index s
         | None \<Rightarrow>
             (case FrameSearch s (FrameIndexOf LOW_MEMORY_LIMIT) start_index of
                Some index \<Rightarrow> FrameIssue index s
              | None \<Rightarrow> (s, FRAME_ALLOCATION_FAILED)))"

definition FrameAllocate :: "frame_state \<Rightarrow> frame_state \<times> u64" where
  "FrameAllocate s = FrameAllocateBelow (FrameAddressOf (FrameCount s)) s"

definition FrameFree :: "u64 \<Rightarrow> frame_state \<Rightarrow> frame_state outcome" where
  "FrameFree frame s =
     (if \<not> IsPageAligned frame
      then KernelPanic ''A misaligned address was passed to FrameFree.''
      else
        let index = FrameIndexOf frame;
            release = (\<lambda>s. let s = FrameMarkFree index s
                           in if index < FrameSearchHint s
                              then s\<lparr>FrameSearchHint := index\<rparr> else s)
        in if FrameCount s \<le> index
           then KernelPanic ''An out-of-range address was passed to FrameFree.''
           else if \<not> FrameIsUsed s index
           then KernelPanic ''A frame that was already free was passed to FrameFree.''
           else
             (case FrameReferenceTable s of
                None \<Rightarrow> Inr (release s)
              | Some table \<Rightarrow>
                  (if table ! index = 0
                   then KernelPanic ''A frame with no references was passed to FrameFree.''
                   else
                     let s = s\<lparr>FrameReferenceTable := Some (table[index := table ! index - 1])\<rparr>
                     in if table ! index - 1 \<noteq> 0 then Inr s else Inr (release s))))"

subsection \<open>Reference counting\<close>

text \<open>
  The part of \<open>FrameReferenceInitialise\<close> that follows the allocation of the table: the
  seeding loop and the publication.  The whole operation, with the allocation from the
  kernel heap, is \<open>FrameReferenceInitialise\<close> of theory \<open>KernelHeap\<close>.
\<close>

definition FrameReferenceSeed :: "frame_state \<Rightarrow> frame_state" where
  "FrameReferenceSeed s =
     s\<lparr>FrameReferenceTable :=
          Some (map (\<lambda>index. if FrameIsUsed s index then 1 else 0) [0..<FrameCount s]),
       FrameReferenceHighWaterMark := 1\<rparr>"

definition FrameReferenceIncrement :: "u64 \<Rightarrow> frame_state \<Rightarrow> frame_state outcome" where
  "FrameReferenceIncrement frame s =
     (if \<not> IsPageAligned frame
      then KernelPanic ''A misaligned address was passed to FrameReferenceIncrement.''
      else
        let index = FrameIndexOf frame
        in if FrameCount s \<le> index
           then KernelPanic ''An out-of-range address was passed to FrameReferenceIncrement.''
           else
             (case FrameReferenceTable s of
                None \<Rightarrow>
                  KernelPanic ''A reference was taken before reference counting was established.''
              | Some table \<Rightarrow>
                  (if table ! index = 0
                   then KernelPanic ''A reference was taken to a frame that is not allocated.''
                   else if table ! index = UINT16_MAX
                   then KernelPanic ''The reference count of a frame would overflow.''
                   else
                     let count = table ! index + 1;
                         s = s\<lparr>FrameReferenceTable := Some (table[index := count])\<rparr>
                     in Inr (if FrameReferenceHighWaterMark s < count
                             then s\<lparr>FrameReferenceHighWaterMark := count\<rparr> else s))))"

definition FrameReferenceCount :: "u64 \<Rightarrow> frame_state \<Rightarrow> u32" where
  "FrameReferenceCount frame s =
     (let index = FrameIndexOf frame
      in if FrameCount s \<le> index then 0
         else case FrameReferenceTable s of
                None \<Rightarrow> (if FrameIsUsed s index then 1 else 0)
              | Some table \<Rightarrow> ucast (table ! index))"

definition FrameReferenceIsActive :: "frame_state \<Rightarrow> bool" where
  "FrameReferenceIsActive s \<longleftrightarrow> FrameReferenceTable s \<noteq> None"

definition FrameFreeCount :: "frame_state \<Rightarrow> u64" where
  "FrameFreeCount s = FrameFreeFrames s"

definition FrameUsedCount :: "frame_state \<Rightarrow> u64" where
  "FrameUsedCount s = word_of_nat (FrameCount s) - FrameFreeFrames s"

subsection \<open>Bits of the bitmap\<close>

lemma FrameIsUsed_bit: "FrameIsUsed s i \<longleftrightarrow> bit (FrameBitmap s ! (i div 64)) (i mod 64)"
proof -
  have "(w AND push_bit n 1 \<noteq> 0) = bit w n" if "n < 64" for w :: u64 and n
    using that by (metis and_exp_eq_0_iff_not_bit push_bit_of_1 )
  then show ?thesis by (simp add: FrameIsUsed_def FRAME_BITS_PER_WORD_def)
qed

lemma same_word_bit: "i div 64 = j div 64 \<Longrightarrow> i mod 64 = j mod 64 \<longleftrightarrow> i = (j::nat)"
  by (metis div_mult_mod_eq)

definition index_ok :: "frame_state \<Rightarrow> nat \<Rightarrow> bool" where
  "index_ok s i \<longleftrightarrow> i div 64 < length (FrameBitmap s)"

lemma bit_set_one: "n < 64 \<Longrightarrow> bit ((w :: u64) OR push_bit n 1) m \<longleftrightarrow> bit w m \<or> m = n"
  by (auto simp: bit_or_iff bit_exp_iff)

lemma bit_clear_one:
  "n < 64 \<Longrightarrow> bit ((w :: u64) AND NOT (push_bit n 1)) m \<longleftrightarrow> bit w m \<and> m \<noteq> n"
  by (auto simp: bit_and_iff bit_not_iff bit_exp_iff dest: bit_imp_le_length)

lemma FrameIsUsed_MarkUsed [simp]:
  assumes "index_ok s i"
  shows "FrameIsUsed (FrameMarkUsed i s) j \<longleftrightarrow> j = i \<or> FrameIsUsed s j"
proof (cases "i div 64 = j div 64")
  case True
  with assms same_word_bit [OF True] show ?thesis
    by (auto simp: index_ok_def FrameMarkUsed_def FrameIsUsed_bit FRAME_BITS_PER_WORD_def bit_set_one
          simp del: push_bit_of_1)
next
  case False
  then show ?thesis
    by (auto simp: FrameMarkUsed_def FrameIsUsed_bit FRAME_BITS_PER_WORD_def)
qed

lemma FrameIsUsed_MarkFree [simp]:
  assumes "index_ok s i"
  shows "FrameIsUsed (FrameMarkFree i s) j \<longleftrightarrow> j \<noteq> i \<and> FrameIsUsed s j"
proof (cases "i div 64 = j div 64")
  case True
  with assms same_word_bit [OF True] show ?thesis
    by (auto simp: index_ok_def FrameMarkFree_def FrameIsUsed_bit FRAME_BITS_PER_WORD_def bit_clear_one
          simp del: push_bit_of_1)
next
  case False
  then show ?thesis
    by (auto simp: FrameMarkFree_def FrameIsUsed_bit FRAME_BITS_PER_WORD_def)
qed

lemma FrameMark_fields [simp]:
  "FrameCount (FrameMarkUsed i s) = FrameCount s"
  "FrameCount (FrameMarkFree i s) = FrameCount s"
  "FrameBitmapWordCount (FrameMarkUsed i s) = FrameBitmapWordCount s"
  "FrameBitmapWordCount (FrameMarkFree i s) = FrameBitmapWordCount s"
  "FrameReferenceTable (FrameMarkUsed i s) = FrameReferenceTable s"
  "FrameReferenceTable (FrameMarkFree i s) = FrameReferenceTable s"
  "FrameSearchHint (FrameMarkUsed i s) = FrameSearchHint s"
  "FrameSearchHint (FrameMarkFree i s) = FrameSearchHint s"
  "FrameBitmapPhysicalStart (FrameMarkUsed i s) = FrameBitmapPhysicalStart s"
  "FrameBitmapPhysicalStart (FrameMarkFree i s) = FrameBitmapPhysicalStart s"
  "FrameBitmapPhysicalEnd (FrameMarkUsed i s) = FrameBitmapPhysicalEnd s"
  "FrameBitmapPhysicalEnd (FrameMarkFree i s) = FrameBitmapPhysicalEnd s"
  "length (FrameBitmap (FrameMarkUsed i s)) = length (FrameBitmap s)"
  "length (FrameBitmap (FrameMarkFree i s)) = length (FrameBitmap s)"
  by (simp_all add: FrameMarkUsed_def FrameMarkFree_def)

subsection \<open>The invariant of the bitmap and its count\<close>

definition free_frames :: "frame_state \<Rightarrow> nat set" where
  "free_frames s = {i. i < FrameCount s \<and> \<not> FrameIsUsed s i}"

lemma finite_free_frames [simp]: "finite (free_frames s)"
  by (simp add: free_frames_def)

lemma card_free_frames: "card (free_frames s) \<le> FrameCount s"
proof -
  have "free_frames s \<subseteq> {..<FrameCount s}" by (auto simp: free_frames_def)
  then show ?thesis by (metis card_lessThan card_mono finite_lessThan)
qed

definition bitmap_ok :: "frame_state \<Rightarrow> bool" where
  "bitmap_ok s \<longleftrightarrow>
     length (FrameBitmap s) = FrameBitmapWordCount s \<and>
     FrameCount s \<le> 64 * FrameBitmapWordCount s \<and>
     FrameCount s \<le> 2 ^ 40 \<and>
     unat (FrameFreeFrames s) = card (free_frames s)"

lemma bitmap_ok_index: "bitmap_ok s \<Longrightarrow> i < FrameCount s \<Longrightarrow> index_ok s i"
  by (auto simp: bitmap_ok_def index_ok_def less_mult_imp_div_less mult.commute)

lemma free_frames_MarkUsed:
  "index_ok s i \<Longrightarrow> free_frames (FrameMarkUsed i s) = free_frames s - {i}"
  by (auto simp: free_frames_def)

lemma free_frames_MarkFree:
  "index_ok s i \<Longrightarrow> i < FrameCount s \<Longrightarrow>
     free_frames (FrameMarkFree i s) = insert i (free_frames s)"
  by (auto simp: free_frames_def)

lemma bitmap_ok_MarkUsed:
  assumes ok: "bitmap_ok s" and i: "i < FrameCount s"
  shows "bitmap_ok (FrameMarkUsed i s)"
proof (cases "FrameIsUsed s i")
  case True
  with ok show ?thesis by (simp add: FrameMarkUsed_def)
next
  case False
  have iok: "index_ok s i" using ok i by (rule bitmap_ok_index)
  have mem: "i \<in> free_frames s" using False i by (simp add: free_frames_def)
  then have pos: "unat (FrameFreeFrames s) > 0"
    using ok by (auto simp: bitmap_ok_def card_gt_0_iff)
  have "unat (FrameFreeFrames s - 1) = unat (FrameFreeFrames s) - 1"
    using pos by (metis unat_gt_0 unat_minus_one)
  then have "unat (FrameFreeFrames (FrameMarkUsed i s)) = card (free_frames s - {i})"
    using ok mem False by (simp add: FrameMarkUsed_def bitmap_ok_def)
  then show ?thesis
    using ok by (simp add: bitmap_ok_def free_frames_MarkUsed [OF iok])
qed

lemma bitmap_ok_MarkFree:
  assumes ok: "bitmap_ok s" and i: "i < FrameCount s"
  shows "bitmap_ok (FrameMarkFree i s)"
proof (cases "FrameIsUsed s i")
  case False
  with ok show ?thesis by (simp add: FrameMarkFree_def)
next
  case True
  have iok: "index_ok s i" using ok i by (rule bitmap_ok_index)
  have nmem: "i \<notin> free_frames s" using True by (simp add: free_frames_def)
  have "card (free_frames s) \<le> 2 ^ 40"
    using card_free_frames [of s] ok by (simp add: bitmap_ok_def)
  then have "unat (FrameFreeFrames s + 1) = unat (FrameFreeFrames s) + 1"
    using ok by (subst unat_add_lem [THEN iffD1]) (simp_all add: bitmap_ok_def)
  then have "unat (FrameFreeFrames (FrameMarkFree i s)) = card (insert i (free_frames s))"
    using ok nmem True by (simp add: FrameMarkFree_def bitmap_ok_def)
  then show ?thesis
    using ok by (simp add: bitmap_ok_def free_frames_MarkFree [OF iok i])
qed

subsection \<open>The range operations\<close>

text \<open>Both loops mark every frame of the list and touch no other field.\<close>

lemma fold_MarkUsed:
  assumes "bitmap_ok s" "\<And>i. i \<in> set is \<Longrightarrow> i < FrameCount s"
  shows "bitmap_ok (fold FrameMarkUsed is s)
       \<and> (\<forall>j. FrameIsUsed (fold FrameMarkUsed is s) j \<longleftrightarrow> j \<in> set is \<or> FrameIsUsed s j)
       \<and> FrameCount (fold FrameMarkUsed is s) = FrameCount s"
  using assms
proof (induction "is" arbitrary: s)
  case (Cons i "is")
  have i: "i < FrameCount s" and iok: "index_ok s i"
    using Cons.prems by (auto intro: bitmap_ok_index)
  have ok: "bitmap_ok (FrameMarkUsed i s)" using Cons.prems(1) i by (rule bitmap_ok_MarkUsed)
  show ?case using Cons.IH [OF ok] Cons.prems(2) iok by auto
qed simp

lemma fold_MarkFree:
  assumes "bitmap_ok s" "\<And>i. i \<in> set is \<Longrightarrow> i < FrameCount s"
  shows "bitmap_ok (fold FrameMarkFree is s)
       \<and> (\<forall>j. FrameIsUsed (fold FrameMarkFree is s) j \<longleftrightarrow> j \<notin> set is \<and> FrameIsUsed s j)
       \<and> FrameCount (fold FrameMarkFree is s) = FrameCount s"
  using assms
proof (induction "is" arbitrary: s)
  case (Cons i "is")
  have i: "i < FrameCount s" and iok: "index_ok s i"
    using Cons.prems by (auto intro: bitmap_ok_index)
  have ok: "bitmap_ok (FrameMarkFree i s)" using Cons.prems(1) i by (rule bitmap_ok_MarkFree)
  show ?case using Cons.IH [OF ok] Cons.prems(2) iok by auto
qed simp

lemma fold_Mark_frame [simp]:
  "FrameReferenceTable (fold FrameMarkUsed is s) = FrameReferenceTable s"
  "FrameReferenceTable (fold FrameMarkFree is s) = FrameReferenceTable s"
  "FrameBitmapPhysicalStart (fold FrameMarkUsed is s) = FrameBitmapPhysicalStart s"
  "FrameBitmapPhysicalStart (fold FrameMarkFree is s) = FrameBitmapPhysicalStart s"
  "FrameBitmapPhysicalEnd (fold FrameMarkUsed is s) = FrameBitmapPhysicalEnd s"
  "FrameBitmapPhysicalEnd (fold FrameMarkFree is s) = FrameBitmapPhysicalEnd s"
  by (induction "is" arbitrary: s) simp_all

lemma FrameRange_frame [simp]:
  "FrameReferenceTable (FrameMarkRange a b s) = FrameReferenceTable s"
  "FrameReferenceTable (FrameReleaseRange a b s) = FrameReferenceTable s"
  "FrameBitmapPhysicalStart (FrameMarkRange a b s) = FrameBitmapPhysicalStart s"
  "FrameBitmapPhysicalStart (FrameReleaseRange a b s) = FrameBitmapPhysicalStart s"
  "FrameBitmapPhysicalEnd (FrameMarkRange a b s) = FrameBitmapPhysicalEnd s"
  "FrameBitmapPhysicalEnd (FrameReleaseRange a b s) = FrameBitmapPhysicalEnd s"
  by (simp_all add: FrameMarkRange_def FrameReleaseRange_def Let_def)

lemma unat_FrameIndexOf [unat_align]: "FrameIndexOf a = unat a div 4096"
  by (simp add: FrameIndexOf_def PAGE_SHIFT_def unat_drop12)

text \<open>A frame meets the half-open extent \<open>[start, finish)\<close>; a frame lies within it.\<close>

definition frame_meets :: "nat \<Rightarrow> u64 \<Rightarrow> u64 \<Rightarrow> bool" where
  "frame_meets j start finish \<longleftrightarrow> unat start < (j + 1) * 4096 \<and> j * 4096 < unat finish \<and> start < finish"

definition frame_within :: "nat \<Rightarrow> u64 \<Rightarrow> u64 \<Rightarrow> bool" where
  "frame_within j start finish \<longleftrightarrow> unat start \<le> j * 4096 \<and> (j + 1) * 4096 \<le> unat finish"

lemma FrameMarkRange_fold:
  assumes fin: "unat finish + 4095 < 2 ^ 64"
  obtains "is" where "FrameMarkRange start finish s = fold FrameMarkUsed is s"
    and "\<And>i. i \<in> set is \<Longrightarrow> i < FrameCount s"
    and "\<And>j. j < FrameCount s \<Longrightarrow> j \<in> set is \<longleftrightarrow> frame_meets j start finish"
proof (cases "start < finish")
  case False
  then show ?thesis
    by (intro that [of "[]"]) (auto simp: FrameMarkRange_def frame_meets_def)
next
  case True
  let ?n = "FrameCount s" let ?a = "unat start div 4096" let ?f = "unat finish"
  let ?b = "FrameIndexOf (AlignUp finish PAGE_SIZE - 1)"
  let ?c = "if ?n \<le> ?b then ?n - 1 else ?b"
  let ?l = "if ?n \<le> ?a then [] else [?a..<Suc ?c]"
  have f: "0 < ?f" and sf: "unat start < ?f" using True by (auto simp: word_less_nat_alt)
  have up: "unat (AlignUp finish PAGE_SIZE) = (?f + 4095) div 4096 * 4096"
    using fin by (rule unat_AlignUp)
  have up_pos: "4096 \<le> (?f + 4095) div 4096 * 4096"
    using f ceil_page_le [of ?f 0] by (cases "(?f + 4095) div 4096") auto
  then have "unat (AlignUp finish PAGE_SIZE - 1) = (?f + 4095) div 4096 * 4096 - 1"
    using up by (metis gr_zeroI not_numeral_le_zero unat_eq_zero unat_minus_one)
  then have b: "?b = ((?f + 4095) div 4096 * 4096 - 1) div 4096" by (simp add: unat_FrameIndexOf)
  have q: "0 < (?f + 4095) div 4096" using up_pos by auto
  have j_b: "j \<le> ?b \<longleftrightarrow> j * 4096 < ?f" for j
    using q ceil_page_le [of ?f j] by (auto simp: b pred_page_div)
  have a_j: "?a \<le> j \<longleftrightarrow> unat start < (j + 1) * 4096" for j by (rule div_page_le)
  show ?thesis
  proof (rule that [of ?l])
    show "FrameMarkRange start finish s = fold FrameMarkUsed ?l s"
      using True by (auto simp: FrameMarkRange_def Let_def unat_FrameIndexOf unat_AlignDown)
    show "i < ?n" if "i \<in> set ?l" for i using that by (auto split: if_splits)
    show "j \<in> set ?l \<longleftrightarrow> frame_meets j start finish" if "j < ?n" for j
      using that True j_b [of j] a_j [of j] by (auto simp: frame_meets_def)
  qed
qed

lemma FrameReleaseRange_fold:
  assumes st: "unat start + 4095 < 2 ^ 64"
  obtains "is" where "FrameReleaseRange start finish s = fold FrameMarkFree is s"
    and "\<And>i. i \<in> set is \<Longrightarrow> i < FrameCount s"
    and "\<And>j. j < FrameCount s \<Longrightarrow> j \<in> set is \<longleftrightarrow> frame_within j start finish"
proof -
  let ?n = "FrameCount s" let ?s = "unat start" let ?f = "unat finish"
  let ?a = "(?s + 4095) div 4096" let ?e = "?f div 4096"
  let ?c = "if ?n \<le> ?e - 1 then ?n - 1 else ?e - 1"
  let ?l = "if ?e \<le> ?a \<or> ?n \<le> ?a then [] else [?a..<Suc ?c]"
  have up: "unat (AlignUp start PAGE_SIZE) = ?a * 4096" using st by (rule unat_AlignUp)
  have le: "AlignDown finish PAGE_SIZE \<le> AlignUp start PAGE_SIZE \<longleftrightarrow> ?e \<le> ?a"
    by (simp add: word_le_nat_alt up unat_AlignDown)
  have a_j: "?a \<le> j \<longleftrightarrow> ?s \<le> j * 4096" for j by (rule ceil_page_le)
  have j_e: "j < ?e \<longleftrightarrow> (j + 1) * 4096 \<le> ?f" for j by (rule less_div_page)
  show ?thesis
  proof (rule that [of ?l])
    show "FrameReleaseRange start finish s = fold FrameMarkFree ?l s"
      by (auto simp: FrameReleaseRange_def Let_def le unat_FrameIndexOf unat_AlignDown up)
    show "i < ?n" if "i \<in> set ?l" for i using that by (auto split: if_splits)
    show "j \<in> set ?l \<longleftrightarrow> frame_within j start finish" if "j < ?n" for j
      using that j_e [of j] a_j [of j] by (auto simp: frame_within_def)
  qed
qed

lemma FrameMarkRange_effect:
  assumes ok: "bitmap_ok s" and fin: "unat finish + 4095 < 2 ^ 64"
  shows "bitmap_ok (FrameMarkRange start finish s)"
    and "j < FrameCount s \<Longrightarrow>
       FrameIsUsed (FrameMarkRange start finish s) j \<longleftrightarrow>
         frame_meets j start finish \<or> FrameIsUsed s j"
    and "FrameCount (FrameMarkRange start finish s) = FrameCount s"
proof -
  obtain "is" where eq: "FrameMarkRange start finish s = fold FrameMarkUsed is s"
    and lt: "\<And>i. i \<in> set is \<Longrightarrow> i < FrameCount s"
    and mem: "\<And>j. j < FrameCount s \<Longrightarrow> j \<in> set is \<longleftrightarrow> frame_meets j start finish"
    using FrameMarkRange_fold [OF fin] by blast
  note * = fold_MarkUsed [OF ok lt]
  show "bitmap_ok (FrameMarkRange start finish s)"
    and "FrameCount (FrameMarkRange start finish s) = FrameCount s"
    using * by (simp_all add: eq)
  show "j < FrameCount s \<Longrightarrow>
       FrameIsUsed (FrameMarkRange start finish s) j \<longleftrightarrow>
         frame_meets j start finish \<or> FrameIsUsed s j"
    using * by (simp add: eq mem)
qed

lemma FrameReleaseRange_effect:
  assumes ok: "bitmap_ok s" and st: "unat start + 4095 < 2 ^ 64"
  shows "bitmap_ok (FrameReleaseRange start finish s)"
    and "j < FrameCount s \<Longrightarrow>
       FrameIsUsed (FrameReleaseRange start finish s) j \<longleftrightarrow>
         \<not> frame_within j start finish \<and> FrameIsUsed s j"
    and "FrameCount (FrameReleaseRange start finish s) = FrameCount s"
proof -
  obtain "is" where eq: "FrameReleaseRange start finish s = fold FrameMarkFree is s"
    and lt: "\<And>i. i \<in> set is \<Longrightarrow> i < FrameCount s"
    and mem: "\<And>j. j < FrameCount s \<Longrightarrow> j \<in> set is \<longleftrightarrow> frame_within j start finish"
    using FrameReleaseRange_fold [OF st] by blast
  note * = fold_MarkFree [OF ok lt]
  show "bitmap_ok (FrameReleaseRange start finish s)"
    and "FrameCount (FrameReleaseRange start finish s) = FrameCount s"
    using * by (simp_all add: eq)
  show "j < FrameCount s \<Longrightarrow>
       FrameIsUsed (FrameReleaseRange start finish s) j \<longleftrightarrow>
         \<not> frame_within j start finish \<and> FrameIsUsed s j"
    using * by (simp add: eq mem)
qed

end
