(* ===== verification/FramePool.thy ===== *)
theory FramePool
  imports FrameAllocator
begin

text \<open>
  Allocation, release and sharing of frames (\<open>FrameAllocateBelow\<close>, \<open>FrameFree\<close>,
  \<open>FrameReferenceIncrement\<close> of \<open>kernel/mm/pmm.c\<close>): the search finds the first free
  frame of the range or there is none, and the reference counts protect every frame a
  holder has.  The contract is the locale \<open>counted_pool\<close>, which the paging and arena
  components rest on.
\<close>

subsection \<open>The search\<close>

lemma full_word_used: "i mod 64 = 0 \<Longrightarrow> FrameBitmap s ! (i div 64) = NOT 0 \<Longrightarrow>
   i \<le> j \<Longrightarrow> j < i + 64 \<Longrightarrow> FrameIsUsed s j"
proof -
  assume *: "i mod 64 = 0" "FrameBitmap s ! (i div 64) = NOT 0" "i \<le> j" "j < i + 64"
  then have "i = 64 * (i div 64)" by (simp add: minus_mod_eq_mult_div [symmetric])
  with *(3,4) have "j div 64 = i div 64" by (intro div_nat_eqI) auto
  with *(2) show ?thesis by (simp add: FrameIsUsed_bit)
qed

lemma FrameSearch_Some:
  "FrameSearch s i stop = Some k \<Longrightarrow>
     i \<le> k \<and> k < stop \<and> \<not> FrameIsUsed s k \<and> (\<forall>j. i \<le> j \<longrightarrow> j < k \<longrightarrow> FrameIsUsed s j)"
proof (induction s i stop rule: FrameSearch.induct)
  case (1 s i stop)
  let ?full = "i mod 64 = 0 \<and> FrameBitmap s ! (i div 64) = NOT 0"
  have lt: "i < stop" using "1.prems" by (subst (asm) FrameSearch.simps) (auto split: if_splits)
  consider (full) ?full | (here) "\<not> ?full" "\<not> FrameIsUsed s i" | (used) "\<not> ?full" "FrameIsUsed s i"
    by blast
  then show ?case
  proof cases
    case full
    have "FrameSearch s (i + 64) stop = Some k"
      using "1.prems" lt full
      by (subst (asm) FrameSearch.simps) (simp add: FRAME_BITS_PER_WORD_def add.commute)
    with "1.IH"(1) lt full
    have IH: "i + 64 \<le> k \<and> k < stop \<and> \<not> FrameIsUsed s k
        \<and> (\<forall>j. i + 64 \<le> j \<longrightarrow> j < k \<longrightarrow> FrameIsUsed s j)"
      by (simp add: FRAME_BITS_PER_WORD_def add.commute)
    then show ?thesis using full_word_used [of i s] full
      by (metis add_leD1 not_le)
  next
    case here
    then show ?thesis
      using "1.prems" lt by (subst (asm) FrameSearch.simps) (auto simp: FRAME_BITS_PER_WORD_def)
  next
    case used
    have "FrameSearch s (i + 1) stop = Some k"
      using "1.prems" lt used by (subst (asm) FrameSearch.simps) (auto simp: FRAME_BITS_PER_WORD_def)
    with "1.IH"(2) lt used have "i + 1 \<le> k \<and> k < stop \<and> \<not> FrameIsUsed s k
        \<and> (\<forall>j. i + 1 \<le> j \<longrightarrow> j < k \<longrightarrow> FrameIsUsed s j)"
      by (auto simp: FRAME_BITS_PER_WORD_def)
    with used show ?thesis by (metis Suc_eq_plus1 Suc_leD le_antisym not_less_eq_eq)
  qed
qed

lemma FrameSearch_None:
  "FrameSearch s i stop = None \<Longrightarrow> i \<le> j \<Longrightarrow> j < stop \<Longrightarrow> FrameIsUsed s j"
proof (induction s i stop rule: FrameSearch.induct)
  case (1 s i stop)
  let ?full = "i mod 64 = 0 \<and> FrameBitmap s ! (i div 64) = NOT 0"
  have lt: "i < stop" using "1.prems" by simp
  consider (full) ?full | (here) "\<not> ?full" "\<not> FrameIsUsed s i" | (used) "\<not> ?full" "FrameIsUsed s i"
    by blast
  then show ?case
  proof cases
    case full
    have "FrameSearch s (i + 64) stop = None"
      using "1.prems" lt full
      by (subst (asm) FrameSearch.simps) (simp add: FRAME_BITS_PER_WORD_def add.commute)
    with "1.IH"(1) lt full "1.prems" have "i + 64 \<le> j \<Longrightarrow> FrameIsUsed s j"
      by (simp add: FRAME_BITS_PER_WORD_def add.commute)
    then show ?thesis using full_word_used [of i s j] full "1.prems"(2) by fastforce
  next
    case here
    then show ?thesis
      using "1.prems" lt by (subst (asm) FrameSearch.simps) (auto simp: FRAME_BITS_PER_WORD_def)
  next
    case used
    have "FrameSearch s (i + 1) stop = None"
      using "1.prems" lt used by (subst (asm) FrameSearch.simps) (auto simp: FRAME_BITS_PER_WORD_def)
    with "1.IH"(2) lt used "1.prems" have "i + 1 \<le> j \<Longrightarrow> FrameIsUsed s j"
      by (auto simp: FRAME_BITS_PER_WORD_def)
    with used "1.prems"(2) show ?thesis by (metis Suc_eq_plus1 Suc_leI le_neq_implies_less)
  qed
qed

subsection \<open>The pool invariant\<close>

text \<open>
  With reference counting established, a count is zero exactly where the frame is free.
\<close>

definition table_ok :: "frame_state \<Rightarrow> bool" where
  "table_ok s \<longleftrightarrow> (case FrameReferenceTable s of
      None \<Rightarrow> True
    | Some t \<Rightarrow> length t = FrameCount s \<and>
        (\<forall>i < FrameCount s. t ! i = 0 \<longleftrightarrow> \<not> FrameIsUsed s i))"

definition pool_ok :: "frame_state \<Rightarrow> bool" where
  "pool_ok s \<longleftrightarrow> bitmap_ok s \<and> table_ok s"

text \<open>The references a frame has: its table entry, or one per used frame before the table exists.\<close>

definition frame_refs :: "frame_state \<Rightarrow> nat \<Rightarrow> nat" where
  "frame_refs s i =
     (if i < FrameCount s
      then case FrameReferenceTable s of
             None \<Rightarrow> (if FrameIsUsed s i then 1 else 0)
           | Some t \<Rightarrow> unat (t ! i)
      else 0)"

lemma frame_refs_zero:
  "pool_ok s \<Longrightarrow> i < FrameCount s \<Longrightarrow> frame_refs s i = 0 \<longleftrightarrow> \<not> FrameIsUsed s i"
  by (auto simp: pool_ok_def table_ok_def frame_refs_def unat_eq_0 split: option.splits)

lemma FrameIndexOf_AddressOf [simp]: "i < 2 ^ 52 \<Longrightarrow> FrameIndexOf (FrameAddressOf i) = i"
  by (simp add: unat_FrameIndexOf FrameAddressOf_def PAGE_SHIFT_def unat_push12 unat_word_of_nat
      del: push_bit_of_nat)

lemma unat_FrameAddressOf: "i < 2 ^ 52 \<Longrightarrow> unat (FrameAddressOf i) = i * 4096"
  by (simp add: FrameAddressOf_def PAGE_SHIFT_def unat_push12 unat_word_of_nat)

lemma FrameAddressOf_aligned [simp]: "i < 2 ^ 52 \<Longrightarrow> IsPageAligned (FrameAddressOf i)"
  by (simp add: IsPageAligned_iff unat_FrameAddressOf)

lemma FrameAddressOf_IndexOf: "IsPageAligned a \<Longrightarrow> FrameAddressOf (FrameIndexOf a) = a"
proof -
  assume al: "IsPageAligned a"
  have "unat a div 4096 < 2 ^ 52" using unat_u64 [of a] by (simp add: less_mult_imp_div_less)
  then have "unat (FrameAddressOf (FrameIndexOf a)) = unat a"
    using al by (simp add: unat_FrameAddressOf unat_FrameIndexOf IsPageAligned_iff)
  then show ?thesis by (simp add: word_unat_eq_iff)
qed

subsection \<open>Allocation\<close>

lemma FrameIssue_effect:
  assumes ok: "pool_ok s" and i: "i < FrameCount s" and free: "\<not> FrameIsUsed s i"
    and res: "FrameIssue i s = (s', a)"
  shows "pool_ok s'" and "a = FrameAddressOf i" and "FrameCount s' = FrameCount s"
    and "frame_refs s' = (frame_refs s)(i := 1)"
    and "FrameReferenceTable s' = None \<longleftrightarrow> FrameReferenceTable s = None"
    and "\<And>j. FrameIsUsed s' j \<longleftrightarrow> j = i \<or> FrameIsUsed s j"
    and "unat (FrameFreeFrames s') + 1 = unat (FrameFreeFrames s)"
    and "FrameSearchHint s' = i + 1"
proof -
  let ?m = "FrameMarkUsed i s"
  have iok: "index_ok s i" using ok i by (auto simp: pool_ok_def intro: bitmap_ok_index)
  have bok: "bitmap_ok ?m" using ok i by (auto simp: pool_ok_def intro: bitmap_ok_MarkUsed)
  obtain t' where s': "s' = ?m\<lparr>FrameReferenceTable := t', FrameSearchHint := i + 1\<rparr>"
    and t': "t' = map_option (\<lambda>t. t[i := 1]) (FrameReferenceTable s)"
    and a: "a = FrameAddressOf i"
    using res by (cases "FrameReferenceTable s") (auto simp: FrameIssue_def Let_def)
  have used: "FrameIsUsed s' j \<longleftrightarrow> FrameIsUsed ?m j" for j by (simp add: s' FrameIsUsed_def)
  then show used': "\<And>j. FrameIsUsed s' j \<longleftrightarrow> j = i \<or> FrameIsUsed s j" using iok by simp
  have ff: "free_frames s' = free_frames ?m" by (simp add: free_frames_def used) (simp add: s')
  have bok': "bitmap_ok s'" using bok by (simp add: bitmap_ok_def ff) (simp add: s')
  have "table_ok s'"
    using ok i used' by (auto simp: pool_ok_def table_ok_def s' t' nth_list_update split: option.splits)
  with bok' show "pool_ok s'" by (simp add: pool_ok_def)
  show "a = FrameAddressOf i" by (rule a)
  show "FrameCount s' = FrameCount s" "FrameSearchHint s' = i + 1" by (simp_all add: s')
  show "FrameReferenceTable s' = None \<longleftrightarrow> FrameReferenceTable s = None" by (simp add: s' t')
  have len: "length t = FrameCount s" if "FrameReferenceTable s = Some t" for t
    using ok that by (simp add: pool_ok_def table_ok_def)
  have count: "FrameCount s' = FrameCount s" and tab: "FrameReferenceTable s' = t'"
    by (simp_all add: s')
  show "frame_refs s' = (frame_refs s)(i := 1)"
  proof
    fix j
    show "frame_refs s' j = ((frame_refs s)(i := 1)) j"
    proof (cases "FrameReferenceTable s")
      case None
      then show ?thesis using i by (simp add: frame_refs_def count tab t' used')
    next
      case (Some t)
      then show ?thesis
        using i len [OF Some] by (simp add: frame_refs_def count tab t' nth_list_update)
    qed
  qed
  have "i \<in> free_frames s" using i free by (simp add: free_frames_def)
  then have "card (free_frames s') + 1 = card (free_frames s)"
    unfolding ff free_frames_MarkUsed [OF iok]
    by (metis Suc_eq_plus1 card_Suc_Diff1 finite_free_frames)
  then show "unat (FrameFreeFrames s') + 1 = unat (FrameFreeFrames s)"
    using bok' ok by (simp add: bitmap_ok_def pool_ok_def)
qed

text \<open>The exact outcome of an allocation, in one statement.\<close>

lemma FrameAllocateBelow_cases:
  assumes ok: "pool_ok s"
  obtains (issued) i where "i < FrameCount s" "i < FrameIndexOf (AlignDown limit PAGE_SIZE)"
      "\<not> FrameIsUsed s i" "FrameAllocateBelow limit s = FrameIssue i s"
      "256 \<le> i \<or> FrameSearchHint s \<le> i"
  | (refused) "FrameAllocateBelow limit s = (s, FRAME_ALLOCATION_FAILED)"
      "\<And>j. 256 \<le> j \<Longrightarrow> j < FrameCount s \<Longrightarrow> j < FrameIndexOf (AlignDown limit PAGE_SIZE) \<Longrightarrow>
         FrameIsUsed s j"
proof -
  let ?L = "FrameIndexOf (AlignDown limit PAGE_SIZE)"
  let ?l = "if FrameCount s < ?L then FrameCount s else ?L"
  let ?i = "if ?l \<le> FrameSearchHint s then FrameIndexOf LOW_MEMORY_LIMIT else FrameSearchHint s"
  have low: "FrameIndexOf LOW_MEMORY_LIMIT = 256" by (simp add: unat_FrameIndexOf geometry)
  have eq: "FrameAllocateBelow limit s =
      (case FrameSearch s ?i ?l of Some index \<Rightarrow> FrameIssue index s
       | None \<Rightarrow> (case FrameSearch s 256 ?i of Some index \<Rightarrow> FrameIssue index s
                  | None \<Rightarrow> (s, FRAME_ALLOCATION_FAILED)))"
    unfolding FrameAllocateBelow_def Let_def low ..
  show thesis
  proof (cases "FrameSearch s ?i ?l")
    case (Some k)
    from FrameSearch_Some [OF this] have "?i \<le> k" "k < ?l" "\<not> FrameIsUsed s k" by blast+
    then show thesis using eq Some low
      by (intro issued [of k]) (auto split: if_splits)
  next
    case None
    note first = FrameSearch_None [OF this]
    show thesis
    proof (cases "FrameSearch s 256 ?i")
      case (Some k)
      from FrameSearch_Some [OF this] have "256 \<le> k" "k < ?i" "\<not> FrameIsUsed s k" by blast+
      then show thesis using eq None Some low
        by (intro issued [of k]) (auto split: if_splits)
    next
      case second: None
      show thesis
      proof (rule refused)
        show "FrameAllocateBelow limit s = (s, FRAME_ALLOCATION_FAILED)"
          using eq None second by simp
        show "FrameIsUsed s j" if "256 \<le> j" "j < FrameCount s" "j < ?L" for j
          using that first [of j] FrameSearch_None [OF second, of j] by (cases "?i \<le> j") auto
      qed
    qed
  qed
qed

subsection \<open>Release\<close>

lemma FrameIsUsed_frame [simp]:
  "FrameIsUsed (s\<lparr>FrameSearchHint := h\<rparr>) = FrameIsUsed s"
  "FrameIsUsed (s\<lparr>FrameReferenceTable := t\<rparr>) = FrameIsUsed s"
  "FrameIsUsed (s\<lparr>FrameReferenceHighWaterMark := m\<rparr>) = FrameIsUsed s"
  by (simp_all add: fun_eq_iff FrameIsUsed_def)

lemma bitmap_ok_frame [simp]:
  "bitmap_ok (s\<lparr>FrameSearchHint := h\<rparr>) = bitmap_ok s"
  "bitmap_ok (s\<lparr>FrameReferenceTable := t\<rparr>) = bitmap_ok s"
  "bitmap_ok (s\<lparr>FrameReferenceHighWaterMark := m\<rparr>) = bitmap_ok s"
  by (simp_all add: bitmap_ok_def free_frames_def)

lemma pool_ok_hint [simp]: "pool_ok (s\<lparr>FrameSearchHint := h\<rparr>) = pool_ok s"
  by (simp add: pool_ok_def table_ok_def split: option.split)

lemma frame_refs_hint [simp]: "frame_refs (s\<lparr>FrameSearchHint := h\<rparr>) = frame_refs s"
  by (simp add: fun_eq_iff frame_refs_def)

lemma FrameMark_table [simp]:
  "FrameMarkFree i (s\<lparr>FrameReferenceTable := t\<rparr>) = (FrameMarkFree i s)\<lparr>FrameReferenceTable := t\<rparr>"
  by (simp add: FrameMarkFree_def)

text \<open>
  Releasing a frame that has a reference succeeds and takes exactly one reference away;
  the frame is free afterwards exactly when that was its last one.
\<close>

lemma FrameFree_effect:
  assumes ok: "pool_ok s" and al: "IsPageAligned a"
    and held: "0 < frame_refs s (FrameIndexOf a)"
  obtains s' where "FrameFree a s = Inr s'" "pool_ok s'" "FrameCount s' = FrameCount s"
    "frame_refs s' = (frame_refs s)(FrameIndexOf a := frame_refs s (FrameIndexOf a) - 1)"
    "FrameReferenceTable s' = None \<longleftrightarrow> FrameReferenceTable s = None"
    "FrameSearchHint s' \<le> FrameSearchHint s"
    "FrameSearchHint s' = FrameSearchHint s \<or> FrameSearchHint s' = FrameIndexOf a"
proof -
  let ?i = "FrameIndexOf a"
  have i: "?i < FrameCount s" using held by (simp add: frame_refs_def split: if_splits)
  have used: "FrameIsUsed s ?i" using frame_refs_zero [OF ok i] held by simp
  have iok: "index_ok s ?i" using ok i by (auto simp: pool_ok_def intro: bitmap_ok_index)
  have bok: "bitmap_ok (FrameMarkFree ?i s)"
    using ok i by (auto simp: pool_ok_def intro: bitmap_ok_MarkFree)
  define rel where "rel = (\<lambda>s. let s = FrameMarkFree ?i s
      in if ?i < FrameSearchHint s then s\<lparr>FrameSearchHint := ?i\<rparr> else s)"
  have rel: "rel s' = (FrameMarkFree ?i s')\<lparr>FrameSearchHint :=
      (if ?i < FrameSearchHint s' then ?i else FrameSearchHint s')\<rparr>" for s'
    by (simp add: rel_def Let_def)
  show thesis
  proof (cases "FrameReferenceTable s")
    case None
    have "FrameFree a s = Inr (rel s)"
      using None al i used by (simp add: FrameFree_def Let_def rel_def)
    moreover have "frame_refs (rel s) = (frame_refs s)(?i := frame_refs s ?i - 1)"
      using None iok used i by (auto simp: fun_eq_iff frame_refs_def rel)
    moreover have "pool_ok (rel s)"
      using None bok by (simp add: rel pool_ok_def table_ok_def)
    ultimately show thesis by (intro that [of "rel s"]) (simp_all add: rel)
  next
    case (Some t)
    have len: "length t = FrameCount s"
      and zero: "\<And>j. j < FrameCount s \<Longrightarrow> t ! j = 0 \<longleftrightarrow> \<not> FrameIsUsed s j"
      using ok Some by (auto simp: pool_ok_def table_ok_def)
    have nz: "t ! ?i \<noteq> 0" using zero [OF i] used by simp
    then have dec: "unat (t ! ?i - 1) = unat (t ! ?i) - 1" by (rule unat_minus_one)
    let ?s1 = "s\<lparr>FrameReferenceTable := Some (t[?i := t ! ?i - 1])\<rparr>"
    let ?s2 = "if t ! ?i - 1 \<noteq> 0 then ?s1 else rel ?s1"
    have run: "FrameFree a s = Inr ?s2"
      using Some al i used nz by (simp add: FrameFree_def Let_def rel_def)
    have refs: "frame_refs ?s2 = (frame_refs s)(?i := frame_refs s ?i - 1)"
      using i len Some dec by (auto simp: fun_eq_iff frame_refs_def rel nth_list_update)
    have "pool_ok ?s2"
      using ok bok iok i len zero used
      by (auto simp: pool_ok_def table_ok_def rel nth_list_update)
    with run refs show thesis by (intro that [of ?s2]) (simp_all add: rel Some)
  qed
qed

text \<open>Every other release panics: nothing a caller passes corrupts the pool silently.\<close>

lemma FrameFree_panics:
  assumes ok: "pool_ok s" and bad: "\<not> IsPageAligned a \<or> frame_refs s (FrameIndexOf a) = 0"
  shows "\<exists>p. FrameFree a s = Inl p"
  using frame_refs_zero [OF ok, of "FrameIndexOf a"] bad
  by (auto simp: FrameFree_def KernelPanic_def Let_def frame_refs_def split: if_splits)

subsection \<open>Sharing\<close>

text \<open>Taking a reference to a frame that has one, below the bound of the table's width.\<close>

lemma FrameReferenceIncrement_effect:
  assumes ok: "pool_ok s" and al: "IsPageAligned a"
    and active: "FrameReferenceTable s \<noteq> None"
    and held: "0 < frame_refs s (FrameIndexOf a)" "frame_refs s (FrameIndexOf a) < 65535"
  obtains s' where "FrameReferenceIncrement a s = Inr s'" "pool_ok s'" "FrameCount s' = FrameCount s"
    "frame_refs s' = (frame_refs s)(FrameIndexOf a := frame_refs s (FrameIndexOf a) + 1)"
    "FrameReferenceTable s' \<noteq> None" "FrameSearchHint s' = FrameSearchHint s"
proof -
  let ?i = "FrameIndexOf a"
  obtain t where Some: "FrameReferenceTable s = Some t" using active by blast
  have i: "?i < FrameCount s" using held by (simp add: frame_refs_def split: if_splits)
  have len: "length t = FrameCount s"
    and zero: "\<And>j. j < FrameCount s \<Longrightarrow> t ! j = 0 \<longleftrightarrow> \<not> FrameIsUsed s j"
    using ok Some by (auto simp: pool_ok_def table_ok_def)
  have bounds: "0 < unat (t ! ?i)" "unat (t ! ?i) < 65535"
    using held i Some by (simp_all add: frame_refs_def)
  then have nz: "t ! ?i \<noteq> 0" and nmax: "t ! ?i \<noteq> UINT16_MAX" by (auto simp: UINT16_MAX_def)
  have inc: "unat (t ! ?i + 1) = unat (t ! ?i) + 1"
    using bounds by (subst unat_add_lem [THEN iffD1]) simp_all
  then have inc_nz: "t ! ?i + 1 \<noteq> 0" by (metis add_is_0 one_neq_zero unat_0)
  let ?s1 = "s\<lparr>FrameReferenceTable := Some (t[?i := t ! ?i + 1])\<rparr>"
  let ?s2 = "if FrameReferenceHighWaterMark s < t ! ?i + 1
    then ?s1\<lparr>FrameReferenceHighWaterMark := t ! ?i + 1\<rparr> else ?s1"
  have run: "FrameReferenceIncrement a s = Inr ?s2"
    using al i Some nz nmax by (simp add: FrameReferenceIncrement_def Let_def)
  have refs: "frame_refs ?s2 = (frame_refs s)(?i := frame_refs s ?i + 1)"
    using i len Some inc by (auto simp: fun_eq_iff frame_refs_def nth_list_update)
  have "pool_ok ?s2"
    using ok i len zero nz inc_nz by (auto simp: pool_ok_def table_ok_def nth_list_update)
  with run refs show thesis by (intro that [of ?s2]) simp_all
qed

lemma FrameReferenceCount_refs:
  "unat (FrameReferenceCount a s) = frame_refs s (FrameIndexOf a)"
proof -
  have "unat (ucast (w :: u16) :: u32) = unat w" for w
    using unat_u16 [of w] by (simp add: unsigned_ucast_eq take_bit_nat_eq_self_iff)
  then show ?thesis
    by (auto simp: FrameReferenceCount_def frame_refs_def Let_def split: option.split)
qed

subsection \<open>Establishing the counts\<close>

lemma FrameReferenceSeed_effect:
  assumes "pool_ok s" "FrameReferenceTable s = None"
  shows "pool_ok (FrameReferenceSeed s)"
    and "frame_refs (FrameReferenceSeed s) = frame_refs s"
    and "FrameReferenceTable (FrameReferenceSeed s) \<noteq> None"
  using assms
  by (auto simp: FrameReferenceSeed_def pool_ok_def table_ok_def frame_refs_def fun_eq_iff)

subsection \<open>The contract of a reference-counted pool\<close>

text \<open>
  What the holders of frames do, whatever the pool is: take one, share one they hold,
  release one they hold.  The second component counts the references outstanding.
\<close>

inductive holding_step ::
  "(u64 \<Rightarrow> nat) \<Rightarrow> u64 \<Rightarrow> (u64 \<Rightarrow> bool) \<Rightarrow> (u64 \<Rightarrow> 's \<Rightarrow> 's \<times> u64) \<Rightarrow> (u64 \<Rightarrow> 's \<Rightarrow> 's outcome) \<Rightarrow>
   (u64 \<Rightarrow> 's \<Rightarrow> 's outcome) \<Rightarrow> 's \<times> (nat \<Rightarrow> nat) \<Rightarrow> 's \<times> (nat \<Rightarrow> nat) \<Rightarrow> bool"
  for index failed valid allocate release share
  where
    take: "allocate limit s = (s', a) \<Longrightarrow> a \<noteq> failed \<Longrightarrow>
      holding_step index failed valid allocate release share (s, h) (s', h(index a := h (index a) + 1))"
  | refused: "allocate limit s = (s', failed) \<Longrightarrow>
      holding_step index failed valid allocate release share (s, h) (s', h)"
  | give_back: "valid a \<Longrightarrow> 0 < h (index a) \<Longrightarrow> release a s = Inr s' \<Longrightarrow>
      holding_step index failed valid allocate release share (s, h) (s', h(index a := h (index a) - 1))"
  | share: "valid a \<Longrightarrow> 0 < h (index a) \<Longrightarrow> share a s = Inr s' \<Longrightarrow>
      holding_step index failed valid allocate release share (s, h) (s', h(index a := h (index a) + 1))"

inductive_cases holding_stepE:
  "holding_step index failed valid allocate release share (s, h) (s', h')"

locale counted_pool =
  fixes index :: "u64 \<Rightarrow> nat" and failed :: u64 and valid :: "u64 \<Rightarrow> bool"
    and ok :: "'s \<Rightarrow> bool" and refs :: "'s \<Rightarrow> nat \<Rightarrow> nat"
    and allocate :: "u64 \<Rightarrow> 's \<Rightarrow> 's \<times> u64"
    and release :: "u64 \<Rightarrow> 's \<Rightarrow> 's outcome"
    and share :: "u64 \<Rightarrow> 's \<Rightarrow> 's outcome"
  assumes issued: "ok s \<Longrightarrow> allocate limit s = (s', a) \<Longrightarrow> a \<noteq> failed \<Longrightarrow>
      ok s' \<and> valid a \<and> refs s (index a) = 0 \<and> refs s' = (refs s)(index a := 1)"
    and exhausted: "ok s \<Longrightarrow> allocate limit s = (s', failed) \<Longrightarrow> s' = s"
    and released: "ok s \<Longrightarrow> valid a \<Longrightarrow> 0 < refs s (index a) \<Longrightarrow>
      \<exists>s'. release a s = Inr s' \<and> ok s' \<and> refs s' = (refs s)(index a := refs s (index a) - 1)"
    and shared: "ok s \<Longrightarrow> valid a \<Longrightarrow> 0 < refs s (index a) \<Longrightarrow> share a s = Inr s' \<Longrightarrow>
      ok s' \<and> refs s' = (refs s)(index a := refs s (index a) + 1)"
begin

definition held_inv :: "'s \<times> (nat \<Rightarrow> nat) \<Rightarrow> bool" where
  "held_inv c \<longleftrightarrow> ok (fst c) \<and> (\<forall>i. snd c i \<le> refs (fst c) i)"

lemma held_inv_step:
  assumes "holding_step index failed valid allocate release share c c'" "held_inv c"
  shows "held_inv c'"
  using assms
proof (induction rule: holding_step.induct)
  case (take limit s s' a h)
  then show ?case using issued [of s limit s' a]
    by (auto simp: held_inv_def) (metis le_zero_eq)
next
  case (refused limit s s' h)
  then show ?case using exhausted [of s limit s'] by (auto simp: held_inv_def)
next
  case (give_back a h s s')
  then have "0 < refs s (index a)" unfolding held_inv_def by (metis fst_conv le_zero_eq neq0_conv snd_conv)
  with give_back show ?case using released [of s a]
    by (auto simp: held_inv_def intro: diff_le_mono)
next
  case (share a h s s')
  then have "0 < refs s (index a)" unfolding held_inv_def by (metis fst_conv le_zero_eq neq0_conv snd_conv)
  with share show ?case using shared [of s a s'] by (auto simp: held_inv_def)
qed

lemma held_inv_reachable:
  assumes "(holding_step index failed valid allocate release share)\<^sup>*\<^sup>* (s0, \<lambda>_. 0) c" "ok s0"
  shows "held_inv c"
  using assms(1)
proof (induction rule: rtranclp_induct)
  case base
  with assms(2) show ?case by (simp add: held_inv_def)
next
  case (step c c')
  then show ?case by (blast intro: held_inv_step)
qed

lemma never_reissued:
  assumes "(holding_step index failed valid allocate release share)\<^sup>*\<^sup>* (s0, \<lambda>_. 0) (s, h)" "ok s0"
    and "allocate limit s = (s', a)" "a \<noteq> failed"
  shows "h (index a) = 0"
proof -
  have inv: "held_inv (s, h)" using assms(1,2) by (rule held_inv_reachable)
  then have "refs s (index a) = 0" using issued [OF _ assms(3,4)] by (simp add: held_inv_def)
  with inv show ?thesis unfolding held_inv_def by (metis fst_conv le_zero_eq snd_conv)
qed

lemma held_release_returns:
  assumes "(holding_step index failed valid allocate release share)\<^sup>*\<^sup>* (s0, \<lambda>_. 0) (s, h)" "ok s0"
    and "valid a" "0 < h (index a)"
  shows "\<exists>s'. release a s = Inr s'"
proof -
  have inv: "held_inv (s, h)" using assms(1,2) by (rule held_inv_reachable)
  then have "0 < refs s (index a)"
    using assms(4) unfolding held_inv_def by (metis fst_conv le_zero_eq neq0_conv snd_conv)
  with inv show ?thesis using released [OF _ assms(3)] by (auto simp: held_inv_def)
qed

lemma held_counted:
  assumes "(holding_step index failed valid allocate release share)\<^sup>*\<^sup>* (s0, \<lambda>_. 0) (s, h)" "ok s0"
  shows "h i \<le> refs s i"
  using held_inv_reachable [OF assms] by (simp add: held_inv_def)

end

subsection \<open>The frame allocator provides the contract\<close>

text \<open>
  Frame zero is never given back: its address is the value that means failure.  Reference
  counting is established and frame zero reserved, as initialisation leaves them.
\<close>

definition frame_valid :: "u64 \<Rightarrow> bool" where
  "frame_valid a \<longleftrightarrow>
     IsPageAligned a \<and> a \<noteq> FRAME_ALLOCATION_FAILED \<and> unat a < 2 ^ 52"

definition pool_ready :: "frame_state \<Rightarrow> bool" where
  "pool_ready s \<longleftrightarrow> pool_ok s \<and> FrameReferenceTable s \<noteq> None \<and> 0 < frame_refs s 0"

lemma frame_valid_index:
  assumes "frame_valid a"
  shows "FrameIndexOf a \<noteq> 0"
proof
  assume "FrameIndexOf a = 0"
  then have "FrameAddressOf 0 = a"
    using assms FrameAddressOf_IndexOf [of a] by (simp add: frame_valid_def)
  then show False using assms by (simp add: frame_valid_def FrameAddressOf_def FRAME_ALLOCATION_FAILED_def)
qed

lemma pool_ok_count: "pool_ok s \<Longrightarrow> i < FrameCount s \<Longrightarrow> i < 2 ^ 40"
  by (simp add: pool_ok_def bitmap_ok_def)

lemma frame_issued:
  assumes ready: "pool_ready s" and run: "FrameAllocateBelow limit s = (s', a)"
    and got: "a \<noteq> FRAME_ALLOCATION_FAILED"
  shows "pool_ready s' \<and> frame_valid a \<and> frame_refs s (FrameIndexOf a) = 0
     \<and> frame_refs s' = (frame_refs s)(FrameIndexOf a := 1)"
proof -
  have ok: "pool_ok s" using ready by (simp add: pool_ready_def)
  show ?thesis
  proof (cases rule: FrameAllocateBelow_cases [OF ok, of limit, case_names issued refused])
    case (issued i)
    then have "FrameIssue i s = (s', a)" using run by simp
    note eff = FrameIssue_effect [OF ok issued(1,3) this]
    have i: "i < 2 ^ 40" using ok issued(1) by (rule pool_ok_count)
    have "unat a < 2 ^ 52" using i by (simp add: eff(2) unat_FrameAddressOf)
    have idx: "FrameIndexOf a = i" using i by (simp add: eff(2))
    have z: "frame_refs s i = 0" using frame_refs_zero [OF ok issued(1)] issued(3) by simp
    have "i \<noteq> 0" using z ready by (cases "i = 0") (simp_all add: pool_ready_def)
    then show ?thesis
      using eff got ready i z \<open>unat a < 2 ^ 52\<close>
      by (simp add: pool_ready_def frame_valid_def idx)
  next
    case refused
    with run got show ?thesis by simp
  qed
qed

lemma frame_exhausted:
  assumes ready: "pool_ready s" and run: "FrameAllocateBelow limit s = (s', FRAME_ALLOCATION_FAILED)"
  shows "s' = s"
proof -
  have ok: "pool_ok s" using ready by (simp add: pool_ready_def)
  show ?thesis
  proof (cases rule: FrameAllocateBelow_cases [OF ok, of limit, case_names issued refused])
    case (issued i)
    then have "FrameIssue i s = (s', FRAME_ALLOCATION_FAILED)" using run by simp
    note eff = FrameIssue_effect [OF ok issued(1,3) this]
    have "FrameIndexOf FRAME_ALLOCATION_FAILED = i"
      using pool_ok_count [OF ok issued(1)] by (simp add: eff(2))
    then have "i = 0" by (simp add: unat_FrameIndexOf FRAME_ALLOCATION_FAILED_def)
    then have "FrameIsUsed s i"
      using ready frame_refs_zero [OF ok issued(1)] by (simp add: pool_ready_def)
    with issued(3) show ?thesis by simp
  next
    case refused
    with run show ?thesis by simp
  qed
qed

lemma frame_released:
  assumes ready: "pool_ready s" and v: "frame_valid a" and held: "0 < frame_refs s (FrameIndexOf a)"
  shows "\<exists>s'. FrameFree a s = Inr s' \<and> pool_ready s'
     \<and> frame_refs s' = (frame_refs s)(FrameIndexOf a := frame_refs s (FrameIndexOf a) - 1)"
proof -
  have ok: "pool_ok s" and al: "IsPageAligned a" using ready v by (simp_all add: pool_ready_def frame_valid_def)
  obtain s' where "FrameFree a s = Inr s'" "pool_ok s'"
    "frame_refs s' = (frame_refs s)(FrameIndexOf a := frame_refs s (FrameIndexOf a) - 1)"
    "FrameReferenceTable s' = None \<longleftrightarrow> FrameReferenceTable s = None"
    by (rule FrameFree_effect [OF ok al held])
  then show ?thesis using ready frame_valid_index [OF v] by (auto simp: pool_ready_def)
qed

lemma frame_shared:
  assumes ready: "pool_ready s" and v: "frame_valid a" and held: "0 < frame_refs s (FrameIndexOf a)"
    and run: "FrameReferenceIncrement a s = Inr s'"
  shows "pool_ready s'
     \<and> frame_refs s' = (frame_refs s)(FrameIndexOf a := frame_refs s (FrameIndexOf a) + 1)"
proof -
  let ?i = "FrameIndexOf a"
  have ok: "pool_ok s" and al: "IsPageAligned a" and active: "FrameReferenceTable s \<noteq> None"
    using ready v by (simp_all add: pool_ready_def frame_valid_def)
  have "frame_refs s ?i \<noteq> 65535"
  proof
    assume full: "frame_refs s ?i = 65535"
    obtain t where "FrameReferenceTable s = Some t" using active by blast
    then have "unat (t ! ?i) = unat UINT16_MAX" "?i < FrameCount s"
      using full by (auto simp: frame_refs_def UINT16_MAX_def split: if_splits)
    then have "t ! ?i = UINT16_MAX" by (simp add: word_unat_eq_iff)
    then show False
      using run \<open>FrameReferenceTable s = Some t\<close>
      by (auto simp: FrameReferenceIncrement_def Let_def split: if_splits)
  qed
  moreover have "frame_refs s ?i < 65536"
    using unat_u16 active by (auto simp: frame_refs_def)
  ultimately have "frame_refs s ?i < 65535" by simp
  then obtain s'' where "FrameReferenceIncrement a s = Inr s''" "pool_ok s''"
    "frame_refs s'' = (frame_refs s)(?i := frame_refs s ?i + 1)" "FrameReferenceTable s'' \<noteq> None"
    using FrameReferenceIncrement_effect [OF ok al active held] by metis
  then show ?thesis using run ready by (simp add: pool_ready_def)
qed

interpretation pmm: counted_pool FrameIndexOf FRAME_ALLOCATION_FAILED frame_valid pool_ready
  frame_refs FrameAllocateBelow FrameFree FrameReferenceIncrement
  by unfold_locales
    (blast dest: frame_issued frame_exhausted frame_released frame_shared)+

end
