(* ===== verification/FrameBoot.thy ===== *)
theory FrameBoot
  imports FrameAllocator
begin

text \<open>
  What \<open>PhysicalMemoryPlaceBitmap\<close> and \<open>PhysicalMemoryInitialise\<close> of
  \<open>kernel/mm/pmm.c\<close> establish: where the bitmap may stand, and exactly which frames
  are free once the memory map has been read.
\<close>

subsection \<open>What is assumed of the boot information\<close>

text \<open>
  Every extent the boot loader reports ends at or below \<open>2 ^ 52\<close>, the architectural limit
  of a physical address (Intel SDM, Volume 3A, Section 4.1.4); so no sum of a base and a
  length wraps.
\<close>

definition physical_limit :: nat where "physical_limit = 2 ^ 52"

definition region_bounded :: "BootMemoryRegion \<Rightarrow> bool" where
  "region_bounded r \<longleftrightarrow> unat (base_address r) + unat (region_length r) \<le> physical_limit"

definition info_bounded :: "BootInformation \<Rightarrow> bool" where
  "info_bounded info \<longleftrightarrow>
     (\<forall>r \<in> set (memory_regions info). region_bounded r) \<and>
     unat (highest_usable_address info) \<le> physical_limit \<and>
     unat (kernel_physical_end info) \<le> physical_limit \<and>
     unat (boot_information_end info) \<le> physical_limit \<and>
     (\<forall>m \<in> set (modules info). unat (module_end m) \<le> physical_limit)"

lemma region_end: "region_bounded r \<Longrightarrow>
   unat (base_address r + region_length r) = unat (base_address r) + unat (region_length r)"
  by (subst unat_add_lem [THEN iffD1]) (simp_all add: region_bounded_def physical_limit_def)

subsection \<open>The placement of the bitmap\<close>

text \<open>An extent \<open>[c, c + n)\<close> is clear of an obstruction \<open>[s, e)\<close>, as the code tests it.\<close>

definition clear_of :: "u64 \<Rightarrow> u64 \<Rightarrow> u64 \<Rightarrow> u64 \<Rightarrow> bool" where
  "clear_of c n s e \<longleftrightarrow> \<not> (c < e \<and> s < c + n)"

definition step_past :: "u64 \<Rightarrow> u64 \<Rightarrow> u64 \<Rightarrow> u64 \<Rightarrow> u64" where
  "step_past n s e c = (if clear_of c n s e then c else AlignUp e PAGE_SIZE)"

lemma PlaceBitmapPass_steps:
  "PlaceBitmapPass info n c =
     step_past n (boot_information_start info) (boot_information_end info)
       (step_past n (kernel_physical_start info) (kernel_physical_end info) c)"
  by (auto simp: PlaceBitmapPass_def step_past_def clear_of_def Let_def)

lemma AlignUp_ge: "unat e \<le> 2 ^ 52 \<Longrightarrow> e \<le> AlignUp e PAGE_SIZE"
  using ceil_page_le [of "unat e" "(unat e + 4095) div 4096"]
  by (simp add: word_le_nat_alt unat_AlignUp)

lemma AlignUp_bound: "unat e \<le> 2 ^ 52 \<Longrightarrow> unat (AlignUp e PAGE_SIZE) \<le> 2 ^ 52 + 4096"
  using div_times_less_eq_dividend [of "unat e + 4095" 4096] by (simp add: unat_AlignUp)

lemma AlignUp_aligned: "unat e \<le> 2 ^ 52 \<Longrightarrow> IsPageAligned (AlignUp e PAGE_SIZE)"
  by (simp add: IsPageAligned_iff unat_AlignUp)

lemma step_past_ge: "unat e \<le> 2 ^ 52 \<Longrightarrow> c \<le> step_past n s e c"
  using AlignUp_ge [of e] by (auto simp: step_past_def clear_of_def)

lemma step_past_clear: "unat e \<le> 2 ^ 52 \<Longrightarrow> clear_of (step_past n s e c) n s e"
  using AlignUp_ge [of e] by (auto simp: step_past_def clear_of_def)

lemma clear_beyond: "e \<le> c \<Longrightarrow> clear_of c n s e"
  by (auto simp: clear_of_def)

text \<open>
  Two passes over the two obstructions suffice, in whatever order they stand: stepping
  past one never brings the candidate back below the end of the other.
\<close>

lemma two_passes_clear:
  fixes s1 s2 e1 e2 n c :: u64
  assumes e1: "unat e1 \<le> 2 ^ 52" and e2: "unat e2 \<le> 2 ^ 52"
  defines "pass \<equiv> \<lambda>c. step_past n s2 e2 (step_past n s1 e1 c)"
  shows "clear_of (pass (pass c)) n s1 e1 \<and> clear_of (pass (pass c)) n s2 e2"
proof
  define c1 where "c1 = step_past n s1 e1 c"
  define c2 where "c2 = step_past n s2 e2 c1"
  define c3 where "c3 = step_past n s1 e1 c2"
  define c4 where "c4 = step_past n s2 e2 c3"
  have final: "pass (pass c) = c4" by (simp add: pass_def c1_def c2_def c3_def c4_def)
  show "clear_of (pass (pass c)) n s2 e2"
    unfolding final c4_def by (rule step_past_clear [OF e2])
  have k3: "clear_of c3 n s1 e1" unfolding c3_def by (rule step_past_clear [OF e1])
  have b2: "clear_of c2 n s2 e2" unfolding c2_def by (rule step_past_clear [OF e2])
  show "clear_of (pass (pass c)) n s1 e1"
  proof (cases "clear_of c3 n s2 e2")
    case True
    then have "c4 = c3" by (simp add: c4_def step_past_def)
    with k3 show ?thesis by (simp add: final)
  next
    case False
    then have "c3 \<noteq> c2" using b2 by auto
    then have "c3 = AlignUp e1 PAGE_SIZE" by (auto simp: c3_def step_past_def split: if_splits)
    then have "e1 \<le> c3" using AlignUp_ge [OF e1] by simp
    also have "c3 \<le> c4" unfolding c4_def by (rule step_past_ge [OF e2])
    finally show ?thesis unfolding final by (rule clear_beyond)
  qed
qed

text \<open>A candidate stays aligned and below the bound through every step.\<close>

definition candidate_ok :: "u64 \<Rightarrow> bool" where
  "candidate_ok c \<longleftrightarrow> IsPageAligned c \<and> unat c \<le> 2 ^ 52 + 4096 \<and> LOW_MEMORY_LIMIT \<le> c"

lemma candidate_ok_step:
  "unat e \<le> 2 ^ 52 \<Longrightarrow> candidate_ok c \<Longrightarrow> candidate_ok (step_past n s e c)"
  using step_past_ge [of e c n s] AlignUp_bound [of e] AlignUp_aligned [of e]
  by (auto simp: candidate_ok_def step_past_def)

lemma LOW_MEMORY_LIMIT_unat: "unat LOW_MEMORY_LIMIT = 0x100000"
  by (simp add: geometry)

text \<open>What a placement promises of the extent it returns.\<close>

definition placement_ok :: "BootInformation \<Rightarrow> u64 \<Rightarrow> u64 \<Rightarrow> bool" where
  "placement_ok info n c \<longleftrightarrow>
     candidate_ok c \<and> unat c + unat n \<le> 0x40000000 \<and>
     (\<exists>r \<in> set (memory_regions info). region_type r = BOOT_MEMORY_USABLE \<and>
        unat (base_address r) \<le> unat c \<and>
        unat c + unat n \<le> unat (base_address r) + unat (region_length r)) \<and>
     clear_of c n (kernel_physical_start info) (kernel_physical_end info) \<and>
     clear_of c n (boot_information_start info) (boot_information_end info)"

lemma PlaceBitmapScan_ok:
  assumes n: "unat n \<le> 2 ^ 50"
    and ks: "unat (kernel_physical_end info) \<le> 2 ^ 52"
    and bs: "unat (boot_information_end info) \<le> 2 ^ 52"
    and rs: "set rs \<subseteq> set (memory_regions info)" "\<forall>r \<in> set rs. region_bounded r"
    and res: "PlaceBitmapScan info n rs \<noteq> FRAME_ALLOCATION_FAILED"
  shows "placement_ok info n (PlaceBitmapScan info n rs)"
  using rs res
proof (induction rs)
  case Nil
  then show ?case by simp
next
  case (Cons r rs)
  let ?top = "base_address r + region_length r"
  let ?cap = "if 0x40000000 < ?top then 0x40000000 else ?top"
  let ?c0 = "AlignUp (base_address r) PAGE_SIZE"
  let ?c1 = "if ?c0 < LOW_MEMORY_LIMIT then LOW_MEMORY_LIMIT else ?c0"
  let ?c = "PlaceBitmapPass info n (PlaceBitmapPass info n ?c1)"
  show ?case
  proof (cases "region_type r = BOOT_MEMORY_USABLE \<and> base_address r \<le> ?c \<and> ?c + n \<le> ?cap")
    case False
    then have "PlaceBitmapScan info n (r # rs) = PlaceBitmapScan info n rs"
      by (auto simp: Let_def)
    with Cons show ?thesis by simp
  next
    case True
    have rb: "region_bounded r" using Cons.prems by simp
    then have base: "unat (base_address r) \<le> 2 ^ 52"
      by (simp add: region_bounded_def physical_limit_def)
    have eq: "PlaceBitmapScan info n (r # rs) = ?c" using True by (simp add: Let_def)
    have "candidate_ok ?c1"
      using AlignUp_bound [OF base] AlignUp_aligned [OF base]
      by (auto simp: candidate_ok_def IsPageAligned_iff LOW_MEMORY_LIMIT_unat)
    then have cok: "candidate_ok ?c"
      unfolding PlaceBitmapPass_steps using ks bs by (intro candidate_ok_step)
    have "unat (?c + n) = unat ?c + unat n"
      using cok n by (subst unat_add_lem [THEN iffD1]) (simp_all add: candidate_ok_def)
    then have sum: "unat ?c + unat n \<le> unat ?cap" using True by (simp add: word_le_nat_alt)
    have "unat ?cap \<le> 0x40000000" "unat ?cap \<le> unat ?top"
      by (auto simp: word_less_nat_alt not_less word_le_nat_alt)
    with sum have "unat ?c + unat n \<le> 0x40000000"
      "unat ?c + unat n \<le> unat (base_address r) + unat (region_length r)"
      by (simp_all add: region_end [OF rb])
    moreover have "clear_of ?c n (kernel_physical_start info) (kernel_physical_end info)"
      "clear_of ?c n (boot_information_start info) (boot_information_end info)"
      unfolding PlaceBitmapPass_steps using two_passes_clear [OF ks bs] by blast+
    ultimately show ?thesis
      using True cok Cons.prems(1) unfolding placement_ok_def eq
      by (auto simp: word_le_nat_alt)
  qed
qed

lemma PhysicalMemoryPlaceBitmap_ok:
  assumes "info_bounded info" "unat n \<le> 2 ^ 50"
    and "PhysicalMemoryPlaceBitmap info n \<noteq> FRAME_ALLOCATION_FAILED"
  shows "placement_ok info n (PhysicalMemoryPlaceBitmap info n)"
  using assms unfolding PhysicalMemoryPlaceBitmap_def
  by (intro PlaceBitmapScan_ok) (auto simp: info_bounded_def physical_limit_def)

subsection \<open>Initialisation: exactly which frames are free\<close>

lemma fold_ReleaseUsable_frame [simp]:
  "FrameReferenceTable (fold ReleaseUsable rs s) = FrameReferenceTable s"
  "FrameBitmapPhysicalStart (fold ReleaseUsable rs s) = FrameBitmapPhysicalStart s"
  "FrameBitmapPhysicalEnd (fold ReleaseUsable rs s) = FrameBitmapPhysicalEnd s"
  by (induction rs arbitrary: s) (simp_all add: ReleaseUsable_def)

lemma fold_ReleaseUsable:
  assumes "bitmap_ok s" "\<forall>r \<in> set rs. region_bounded r"
  shows "bitmap_ok (fold ReleaseUsable rs s)
     \<and> FrameCount (fold ReleaseUsable rs s) = FrameCount s
     \<and> (\<forall>j < FrameCount s. FrameIsUsed (fold ReleaseUsable rs s) j \<longleftrightarrow>
          FrameIsUsed s j \<and> \<not> (\<exists>r \<in> set rs. region_type r = BOOT_MEMORY_USABLE
             \<and> frame_within j (base_address r) (base_address r + region_length r)))"
  using assms
proof (induction rs arbitrary: s)
  case (Cons r rs)
  have st: "unat (base_address r) + 4095 < 2 ^ 64"
    using Cons.prems(2) by (simp add: region_bounded_def physical_limit_def)
  note eff = FrameReleaseRange_effect [OF Cons.prems(1) st]
  have ok: "bitmap_ok (ReleaseUsable r s)"
    using Cons.prems(1) eff(1) by (simp add: ReleaseUsable_def)
  from Cons.IH [OF ok] Cons.prems(2) show ?case
    by (auto simp: ReleaseUsable_def eff split: if_splits)
qed simp

definition MarkExtent :: "u64 \<times> u64 \<Rightarrow> frame_state \<Rightarrow> frame_state" where
  "MarkExtent e = FrameMarkRange (fst e) (snd e)"

lemma fold_MarkExtent_frame [simp]:
  "FrameReferenceTable (fold MarkExtent es s) = FrameReferenceTable s"
  by (induction es arbitrary: s) (simp_all add: MarkExtent_def)

lemma fold_MarkExtent:
  assumes "bitmap_ok s" "\<forall>e \<in> set es. unat (snd e) + 4095 < 2 ^ 64"
  shows "bitmap_ok (fold MarkExtent es s)
     \<and> FrameCount (fold MarkExtent es s) = FrameCount s
     \<and> (\<forall>j < FrameCount s. FrameIsUsed (fold MarkExtent es s) j \<longleftrightarrow>
          FrameIsUsed s j \<or> (\<exists>e \<in> set es. frame_meets j (fst e) (snd e)))"
  using assms
proof (induction es arbitrary: s)
  case (Cons e es)
  have fin: "unat (snd e) + 4095 < 2 ^ 64" using Cons.prems(2) by simp
  note eff = FrameMarkRange_effect [OF Cons.prems(1) fin]
  have ok: "bitmap_ok (MarkExtent e s)"
    using eff(1) by (simp add: MarkExtent_def)
  from Cons.IH [OF ok] Cons.prems(2) show ?case
    by (auto simp: MarkExtent_def eff)
qed simp

text \<open>The extents initialisation reserves, in the order it reserves them.\<close>

definition reserved_extents :: "BootInformation \<Rightarrow> u64 \<Rightarrow> u64 \<Rightarrow> (u64 \<times> u64) list" where
  "reserved_extents info bitmap_start bitmap_end =
     [(0, LOW_MEMORY_LIMIT),
      (kernel_physical_start info, kernel_physical_end info),
      (boot_information_start info, boot_information_end info),
      (bitmap_start, bitmap_end)]
     @ map (\<lambda>m. (module_start m, module_end m)) (modules info)"

definition blank_frames :: "nat \<Rightarrow> nat \<Rightarrow> u64 \<Rightarrow> u64 \<Rightarrow> frame_state \<Rightarrow> frame_state" where
  "blank_frames count words start finish s =
     s\<lparr>FrameCount := count, FrameBitmapWordCount := words,
       FrameBitmapPhysicalStart := start, FrameBitmapPhysicalEnd := finish,
       FrameBitmap := replicate words (NOT 0), FrameFreeFrames := 0\<rparr>"

lemma blank_frames_used: "j div 64 < words \<Longrightarrow> FrameIsUsed (blank_frames c words a b s) j"
  by (simp add: FrameIsUsed_bit blank_frames_def)

lemma blank_frames_ok:
  assumes "count \<le> 64 * words" "count \<le> 2 ^ 40"
  shows "bitmap_ok (blank_frames count words a b s)"
proof -
  have "free_frames (blank_frames count words a b s) = {}"
    using assms blank_frames_used [of _ words count a b s]
    by (auto simp: free_frames_def blank_frames_def less_mult_imp_div_less mult.commute)
  then show ?thesis using assms by (simp add: bitmap_ok_def blank_frames_def)
qed

definition governed_frames :: "BootInformation \<Rightarrow> nat" where
  "governed_frames info = (unat (highest_usable_address info) + 4095) div 4096"

definition bitmap_bytes :: "BootInformation \<Rightarrow> u64" where
  "bitmap_bytes info = word_of_nat ((governed_frames info + 63) div 64) * 8"

lemma governed_frames_bound: "info_bounded info \<Longrightarrow> governed_frames info \<le> 2 ^ 40"
  unfolding governed_frames_def
  by (subst ceil_page_le) (simp add: info_bounded_def physical_limit_def)

lemma bitmap_bytes_unat:
  assumes "info_bounded info"
  shows "unat (bitmap_bytes info) = (governed_frames info + 63) div 64 * 8"
    and "unat (bitmap_bytes info) \<le> 2 ^ 50"
proof -
  let ?w = "(governed_frames info + 63) div 64"
  have w: "?w \<le> 2 ^ 40" using governed_frames_bound [OF assms] by simp
  show eq: "unat (bitmap_bytes info) = ?w * 8"
    using w by (simp add: bitmap_bytes_def unat_word_ariths unat_word_of_nat)
  show "unat (bitmap_bytes info) \<le> 2 ^ 50" using w by (simp add: eq)
qed

text \<open>Initialisation as three stages: all reserved, the usable released, the extents marked.\<close>

definition initial_frames :: "BootInformation \<Rightarrow> frame_state \<Rightarrow> frame_state" where
  "initial_frames info s =
     (let n = bitmap_bytes info; a = PhysicalMemoryPlaceBitmap info n
      in fold MarkExtent (reserved_extents info a (a + n))
           (fold ReleaseUsable (memory_regions info)
              (blank_frames (governed_frames info) ((governed_frames info + 63) div 64)
                 a (a + n) s)))"

lemma PhysicalMemoryInitialise_stages:
  assumes info: "info_bounded info"
    and init: "PhysicalMemoryInitialise info s0 = Inr s"
  shows "PhysicalMemoryPlaceBitmap info (bitmap_bytes info) \<noteq> FRAME_ALLOCATION_FAILED"
    and "s = (initial_frames info s0)\<lparr>FrameSearchHint := 256\<rparr>"
proof -
  have count: "FrameIndexOf (AlignUp (highest_usable_address info) PAGE_SIZE) = governed_frames info"
    using info unfolding governed_frames_def
    by (simp add: unat_FrameIndexOf unat_AlignUp info_bounded_def physical_limit_def)
  have words: "(governed_frames info + (FRAME_BITS_PER_WORD - 1)) div FRAME_BITS_PER_WORD
      = (governed_frames info + 63) div 64"
    by (simp add: FRAME_BITS_PER_WORD_def)
  have bytes: "word_of_nat ((governed_frames info + 63) div 64) * 8 = bitmap_bytes info"
    by (simp add: bitmap_bytes_def)
  have hint: "FrameIndexOf LOW_MEMORY_LIMIT = 256"
    by (simp add: unat_FrameIndexOf LOW_MEMORY_LIMIT_unat)
  note unfolded = init [unfolded PhysicalMemoryInitialise_def Let_def count words bytes hint]
  show "PhysicalMemoryPlaceBitmap info (bitmap_bytes info) \<noteq> FRAME_ALLOCATION_FAILED"
    using unfolded by (auto split: if_splits)
  show "s = (initial_frames info s0)\<lparr>FrameSearchHint := 256\<rparr>"
    using unfolded
    by (auto simp: initial_frames_def Let_def reserved_extents_def blank_frames_def
        MarkExtent_def fold_map comp_def split: if_splits)
qed

lemma initial_frames_bitmap:
  assumes info: "info_bounded info"
  defines "a \<equiv> PhysicalMemoryPlaceBitmap info (bitmap_bytes info)"
  shows "FrameBitmapPhysicalStart (initial_frames info s) = a"
    and "FrameBitmapPhysicalEnd (initial_frames info s) = a + bitmap_bytes info"
proof -
  have "FrameBitmapPhysicalStart (fold MarkExtent es t) = FrameBitmapPhysicalStart t
      \<and> FrameBitmapPhysicalEnd (fold MarkExtent es t) = FrameBitmapPhysicalEnd t" for es t
    by (induction es arbitrary: t) (simp_all add: MarkExtent_def)
  then show "FrameBitmapPhysicalStart (initial_frames info s) = a"
    and "FrameBitmapPhysicalEnd (initial_frames info s) = a + bitmap_bytes info"
    by (simp_all add: initial_frames_def Let_def blank_frames_def a_def)
qed

lemma initial_frames_spec:
  fixes s0 :: frame_state
  assumes info: "info_bounded info"
    and placed: "PhysicalMemoryPlaceBitmap info (bitmap_bytes info) \<noteq> FRAME_ALLOCATION_FAILED"
  defines "s \<equiv> initial_frames info s0"
  shows "bitmap_ok s" and "FrameCount s = governed_frames info"
    and "j < FrameCount s \<Longrightarrow> FrameIsUsed s j \<longleftrightarrow>
       \<not> (\<exists>r \<in> set (memory_regions info). region_type r = BOOT_MEMORY_USABLE
            \<and> frame_within j (base_address r) (base_address r + region_length r))
       \<or> (\<exists>e \<in> set (reserved_extents info (FrameBitmapPhysicalStart s) (FrameBitmapPhysicalEnd s)).
            frame_meets j (fst e) (snd e))"
proof -
  let ?n = "bitmap_bytes info"
  let ?a = "PhysicalMemoryPlaceBitmap info ?n"
  let ?w = "(governed_frames info + 63) div 64"
  let ?b = "blank_frames (governed_frames info) ?w ?a (?a + ?n) s0"
  let ?r = "fold ReleaseUsable (memory_regions info) ?b"
  have n: "unat ?n \<le> 2 ^ 50" by (rule bitmap_bytes_unat(2) [OF info])
  have pl: "placement_ok info ?n ?a"
    using info n placed by (rule PhysicalMemoryPlaceBitmap_ok)
  have end_a: "unat (?a + ?n) = unat ?a + unat ?n"
    using pl n by (subst unat_add_lem [THEN iffD1]) (simp_all add: placement_ok_def candidate_ok_def)
  have w: "governed_frames info \<le> 64 * ?w" by presburger
  have bok: "bitmap_ok ?b"
    using governed_frames_bound [OF info] by (intro blank_frames_ok) auto
  have rb: "\<forall>r \<in> set (memory_regions info). region_bounded r"
    using info by (simp add: info_bounded_def)
  note rel = fold_ReleaseUsable [OF bok rb]
  have ext: "\<forall>e \<in> set (reserved_extents info ?a (?a + ?n)). unat (snd e) + 4095 < 2 ^ 64"
    using info pl n
    by (auto simp: reserved_extents_def info_bounded_def physical_limit_def LOW_MEMORY_LIMIT_unat
        end_a placement_ok_def)
  note mark = fold_MarkExtent [OF rel [THEN conjunct1] ext]
  have s: "s = fold MarkExtent (reserved_extents info ?a (?a + ?n)) ?r"
    by (simp add: s_def initial_frames_def Let_def)
  have count: "FrameCount ?b = governed_frames info" by (simp add: blank_frames_def)
  show "bitmap_ok s" and cs: "FrameCount s = governed_frames info"
    using mark rel count by (simp_all add: s)
  show "j < FrameCount s \<Longrightarrow> FrameIsUsed s j \<longleftrightarrow>
       \<not> (\<exists>r \<in> set (memory_regions info). region_type r = BOOT_MEMORY_USABLE
            \<and> frame_within j (base_address r) (base_address r + region_length r))
       \<or> (\<exists>e \<in> set (reserved_extents info (FrameBitmapPhysicalStart s) (FrameBitmapPhysicalEnd s)).
            frame_meets j (fst e) (snd e))"
  proof -
    assume j: "j < FrameCount s"
    then have jg: "j < governed_frames info" by (simp add: cs)
    then have "j div 64 < ?w" using w by (simp add: less_mult_imp_div_less mult.commute)
    then have "FrameIsUsed ?b j" by (rule blank_frames_used)
    then show ?thesis
      using mark rel jg count initial_frames_bitmap [OF info, of s0]
      by (simp add: s [symmetric] s_def [symmetric])
  qed
qed

end
