(* ===== verification/Paging.thy ===== *)
theory Paging
  imports FramePool FrameBoot
begin

text \<open>
  The four-level paging hierarchy of \<open>kernel/arch/x86_64/mm/paging.c\<close>: its entries, the
  table allocation, the walk that creates what is missing, mapping, unmapping, translation,
  the permission walk and the copy-on-write primitives.

  Physical memory is \<open>physical m frame word\<close>: the 64-bit words of the frame at a physical
  address.  \<open>PagingTableAt\<close> chooses between two windows onto the same memory, so a table
  is named here by its physical address alone; the choice the code makes with
  \<open>PagingDirectMapActive\<close> that is visible is the bound on where a table is allocated.
  The translation-lookaside buffer is the list of addresses whose invalidation was
  announced, newest first; whether the other processors acknowledge
  (\<open>ShootdownBroadcast\<close>, which waits on them) is the field \<open>shootdown_acknowledged\<close>,
  an environment.
\<close>

subsection \<open>Constants\<close>

definition PAGE_ENTRY_PRESENT :: u64 where "PAGE_ENTRY_PRESENT = 0x001"
definition PAGE_ENTRY_WRITABLE :: u64 where "PAGE_ENTRY_WRITABLE = 0x002"
definition PAGE_ENTRY_USER :: u64 where "PAGE_ENTRY_USER = 0x004"
definition PAGE_ENTRY_LARGE :: u64 where "PAGE_ENTRY_LARGE = 0x080"
definition PAGE_ENTRY_COPY_ON_WRITE :: u64 where "PAGE_ENTRY_COPY_ON_WRITE = 0x200"
definition PAGE_ENTRY_ADDRESS_MASK :: u64 where "PAGE_ENTRY_ADDRESS_MASK = 0x000FFFFFFFFFF000"
definition PAGE_TABLE_ENTRY_COUNT :: nat where "PAGE_TABLE_ENTRY_COUNT = 512"
definition KERNEL_PHYSICAL_MAP_LIMIT :: u64 where "KERNEL_PHYSICAL_MAP_LIMIT = 0x40000000"
definition KERNEL_FINE_MAP_LIMIT :: u64 where "KERNEL_FINE_MAP_LIMIT = PAGE_SIZE_LARGE"
definition KERNEL_VIRTUAL_BASE :: u64 where "KERNEL_VIRTUAL_BASE = 0xFFFFFFFF80000000"
definition DIRECT_MAP_BASE :: u64 where "DIRECT_MAP_BASE = 0xFFFF800000000000"

definition PhysicalToVirtual :: "u64 \<Rightarrow> u64" where
  "PhysicalToVirtual physical_address = physical_address + KERNEL_VIRTUAL_BASE"

definition PhysicalToDirect :: "u64 \<Rightarrow> u64" where
  "PhysicalToDirect physical_address = physical_address + DIRECT_MAP_BASE"

subsection \<open>The state\<close>

record paging_state =
  frames :: frame_state
  physical :: "u64 \<Rightarrow> nat \<Rightarrow> u64"
  PagingRootTable :: u64
  PagingActiveTable :: u64
  PagingTableFrameCount :: u64
  PagingDirectMapActive :: bool
  PagingDirectMapBytes :: u64
  PagingCopyOnWriteFaults :: u64
  PagingCopyOnWriteCopies :: u64
  PagingCopyOnWriteSoleOwners :: u64
  write_protected :: bool
  invalidated :: "u64 list"
  shootdown_acknowledged :: "u64 \<Rightarrow> bool"

definition store_entry :: "u64 \<Rightarrow> nat \<Rightarrow> u64 \<Rightarrow> paging_state \<Rightarrow> paging_state" where
  "store_entry table index entry m =
     m\<lparr>physical := (physical m)(table := (physical m table)(index := entry))\<rparr>"

subsection \<open>Indices and tables\<close>

definition PagingLevel4Index :: "u64 \<Rightarrow> nat" where
  "PagingLevel4Index address = unat (drop_bit 39 address AND 0x1FF)"

definition PagingLevel3Index :: "u64 \<Rightarrow> nat" where
  "PagingLevel3Index address = unat (drop_bit 30 address AND 0x1FF)"

definition PagingLevel2Index :: "u64 \<Rightarrow> nat" where
  "PagingLevel2Index address = unat (drop_bit 21 address AND 0x1FF)"

definition PagingLevel1Index :: "u64 \<Rightarrow> nat" where
  "PagingLevel1Index address = unat (drop_bit 12 address AND 0x1FF)"

text \<open>The clearing loop of the allocated frame is the update of its 512 words.\<close>

definition PagingAllocateTable :: "paging_state \<Rightarrow> (paging_state \<times> u64) outcome" where
  "PagingAllocateTable m =
     (let (pool, frame) =
            (if PagingDirectMapActive m then FrameAllocate (frames m)
             else FrameAllocateBelow KERNEL_PHYSICAL_MAP_LIMIT (frames m))
      in if frame = FRAME_ALLOCATION_FAILED
         then KernelPanic ''No frame is available for a kernel paging structure.''
         else Inr (m\<lparr>frames := pool,
                     physical := (physical m)(frame :=
                       (\<lambda>index. if index < PAGE_TABLE_ENTRY_COUNT then 0 else physical m frame index)),
                     PagingTableFrameCount := PagingTableFrameCount m + 1\<rparr>, frame))"

definition PagingObtainTable ::
  "u64 \<Rightarrow> nat \<Rightarrow> u64 \<Rightarrow> paging_state \<Rightarrow> (paging_state \<times> u64) outcome" where
  "PagingObtainTable table index flags m =
     (let inherited = PAGE_ENTRY_PRESENT OR PAGE_ENTRY_WRITABLE OR (flags AND PAGE_ENTRY_USER)
      in if (physical m table index AND PAGE_ENTRY_PRESENT) = 0
         then bind_outcome (PagingAllocateTable m) (\<lambda>(m, allocated).
                Inr (store_entry table index (allocated OR inherited) m, allocated))
         else let m = store_entry table index
                        (physical m table index OR (flags AND PAGE_ENTRY_USER)) m
              in Inr (m, physical m table index AND PAGE_ENTRY_ADDRESS_MASK))"

subsection \<open>Mapping\<close>

definition PagingMapPage ::
  "u64 \<Rightarrow> u64 \<Rightarrow> u64 \<Rightarrow> u64 \<Rightarrow> paging_state \<Rightarrow> paging_state outcome" where
  "PagingMapPage root virtual_address physical_address flags m =
     bind_outcome (PagingObtainTable root (PagingLevel4Index virtual_address) flags m)
       (\<lambda>(m, level3).
     bind_outcome (PagingObtainTable level3 (PagingLevel3Index virtual_address) flags m)
       (\<lambda>(m, level2).
     bind_outcome (PagingObtainTable level2 (PagingLevel2Index virtual_address) flags m)
       (\<lambda>(m, level1).
     Inr (store_entry level1 (PagingLevel1Index virtual_address)
            ((physical_address AND PAGE_ENTRY_ADDRESS_MASK) OR flags OR PAGE_ENTRY_PRESENT) m))))"

definition PagingMapLargePage ::
  "u64 \<Rightarrow> u64 \<Rightarrow> u64 \<Rightarrow> u64 \<Rightarrow> paging_state \<Rightarrow> paging_state outcome" where
  "PagingMapLargePage root virtual_address physical_address flags m =
     bind_outcome (PagingObtainTable root (PagingLevel4Index virtual_address) flags m)
       (\<lambda>(m, level3).
     bind_outcome (PagingObtainTable level3 (PagingLevel3Index virtual_address) flags m)
       (\<lambda>(m, level2).
     Inr (store_entry level2 (PagingLevel2Index virtual_address)
            ((physical_address AND PAGE_ENTRY_ADDRESS_MASK) OR flags
               OR PAGE_ENTRY_PRESENT OR PAGE_ENTRY_LARGE) m)))"

definition PagingInvalidateHere :: "u64 \<Rightarrow> paging_state \<Rightarrow> paging_state" where
  "PagingInvalidateHere address m = m\<lparr>invalidated := address # invalidated m\<rparr>"

definition PagingInvalidate :: "u64 \<Rightarrow> paging_state \<Rightarrow> paging_state outcome" where
  "PagingInvalidate address m =
     (let m = PagingInvalidateHere address m
      in if \<not> shootdown_acknowledged m address
         then KernelPanic ''A translation-lookaside-buffer shootdown was not acknowledged.''
         else Inr m)"

definition PagingMapKernelPage ::
  "u64 \<Rightarrow> u64 \<Rightarrow> u64 \<Rightarrow> paging_state \<Rightarrow> paging_state outcome" where
  "PagingMapKernelPage virtual_address physical_address flags m =
     bind_outcome (PagingMapPage (PagingRootTable m) virtual_address physical_address flags m)
       (PagingInvalidate virtual_address)"

definition PagingMapPageIn ::
  "u64 \<Rightarrow> u64 \<Rightarrow> u64 \<Rightarrow> u64 \<Rightarrow> paging_state \<Rightarrow> paging_state outcome" where
  "PagingMapPageIn root virtual_address physical_address flags m =
     bind_outcome (PagingMapPage root virtual_address physical_address flags m)
       (\<lambda>m. if root = PagingActiveTable m then PagingInvalidate virtual_address m else Inr m)"

subsection \<open>Unmapping\<close>

definition PagingUnmapKernelPage :: "u64 \<Rightarrow> paging_state \<Rightarrow> paging_state outcome" where
  "PagingUnmapKernelPage virtual_address m =
     (let entry4 = physical m (PagingRootTable m) (PagingLevel4Index virtual_address)
      in if (entry4 AND PAGE_ENTRY_PRESENT) = 0 then Inr m
         else
           let level3 = entry4 AND PAGE_ENTRY_ADDRESS_MASK;
               entry3 = physical m level3 (PagingLevel3Index virtual_address)
           in if (entry3 AND PAGE_ENTRY_PRESENT) = 0 then Inr m
              else
                let level2 = entry3 AND PAGE_ENTRY_ADDRESS_MASK;
                    entry2 = physical m level2 (PagingLevel2Index virtual_address)
                in if (entry2 AND PAGE_ENTRY_PRESENT) = 0 then Inr m
                   else if (entry2 AND PAGE_ENTRY_LARGE) \<noteq> 0
                   then KernelPanic ''An attempt was made to unmap a page within a large mapping.''
                   else
                     let level1 = entry2 AND PAGE_ENTRY_ADDRESS_MASK
                     in PagingInvalidate virtual_address
                          (store_entry level1 (PagingLevel1Index virtual_address) 0 m))"

definition PagingUnmapPageIn ::
  "u64 \<Rightarrow> u64 \<Rightarrow> paging_state \<Rightarrow> (paging_state \<times> u64) outcome" where
  "PagingUnmapPageIn root virtual_address m =
     (let entry4 = physical m root (PagingLevel4Index virtual_address)
      in if (entry4 AND PAGE_ENTRY_PRESENT) = 0 then Inr (m, FRAME_ALLOCATION_FAILED)
         else
           let level3 = entry4 AND PAGE_ENTRY_ADDRESS_MASK;
               entry3 = physical m level3 (PagingLevel3Index virtual_address)
           in if (entry3 AND PAGE_ENTRY_PRESENT) = 0 then Inr (m, FRAME_ALLOCATION_FAILED)
              else if (entry3 AND PAGE_ENTRY_LARGE) \<noteq> 0
              then KernelPanic ''An attempt was made to unmap a page within a large mapping.''
              else
                let level2 = entry3 AND PAGE_ENTRY_ADDRESS_MASK;
                    entry2 = physical m level2 (PagingLevel2Index virtual_address)
                in if (entry2 AND PAGE_ENTRY_PRESENT) = 0 then Inr (m, FRAME_ALLOCATION_FAILED)
                   else if (entry2 AND PAGE_ENTRY_LARGE) \<noteq> 0
                   then KernelPanic ''An attempt was made to unmap a page within a large mapping.''
                   else
                     let level1 = entry2 AND PAGE_ENTRY_ADDRESS_MASK;
                         index1 = PagingLevel1Index virtual_address;
                         entry1 = physical m level1 index1
                     in if (entry1 AND PAGE_ENTRY_PRESENT) = 0
                        then Inr (m, FRAME_ALLOCATION_FAILED)
                        else
                          let frame = entry1 AND PAGE_ENTRY_ADDRESS_MASK;
                              m = store_entry level1 index1 0 m
                          in if root = PagingActiveTable m
                             then bind_outcome (PagingInvalidate virtual_address m)
                                    (\<lambda>m. Inr (m, frame))
                             else Inr (m, frame))"

subsection \<open>Translation and permissions\<close>

definition PagingTranslate :: "u64 \<Rightarrow> paging_state \<Rightarrow> u64" where
  "PagingTranslate address m =
     (if PagingActiveTable m = 0 then 0
      else
        let entry4 = physical m (PagingActiveTable m) (PagingLevel4Index address)
        in if (entry4 AND PAGE_ENTRY_PRESENT) = 0 then 0
           else
             let entry3 = physical m (entry4 AND PAGE_ENTRY_ADDRESS_MASK) (PagingLevel3Index address)
             in if (entry3 AND PAGE_ENTRY_PRESENT) = 0 then 0
                else if (entry3 AND PAGE_ENTRY_LARGE) \<noteq> 0
                then (entry3 AND PAGE_ENTRY_ADDRESS_MASK) + (address AND 0x3FFFFFFF)
                else
                  let entry2 = physical m (entry3 AND PAGE_ENTRY_ADDRESS_MASK)
                                 (PagingLevel2Index address)
                  in if (entry2 AND PAGE_ENTRY_PRESENT) = 0 then 0
                     else if (entry2 AND PAGE_ENTRY_LARGE) \<noteq> 0
                     then (entry2 AND PAGE_ENTRY_ADDRESS_MASK) + (address AND (PAGE_SIZE_LARGE - 1))
                     else
                       let entry1 = physical m (entry2 AND PAGE_ENTRY_ADDRESS_MASK)
                                      (PagingLevel1Index address)
                       in if (entry1 AND PAGE_ENTRY_PRESENT) = 0 then 0
                          else (entry1 AND PAGE_ENTRY_ADDRESS_MASK) + (address AND (PAGE_SIZE - 1)))"

definition PagingAddressPermits :: "u64 \<Rightarrow> u64 \<Rightarrow> paging_state \<Rightarrow> bool" where
  "PagingAddressPermits address permission m =
     (let entry4 = physical m (PagingActiveTable m) (PagingLevel4Index address)
      in if (entry4 AND PAGE_ENTRY_PRESENT) = 0 then False
         else
           let accumulated = permission AND entry4;
               entry3 = physical m (entry4 AND PAGE_ENTRY_ADDRESS_MASK) (PagingLevel3Index address)
           in if (entry3 AND PAGE_ENTRY_PRESENT) = 0 then False
              else
                let accumulated = accumulated AND entry3;
                    entry2 = physical m (entry3 AND PAGE_ENTRY_ADDRESS_MASK)
                               (PagingLevel2Index address)
                in if (entry2 AND PAGE_ENTRY_PRESENT) = 0 then False
                   else
                     let accumulated = accumulated AND entry2
                     in if (entry2 AND PAGE_ENTRY_LARGE) \<noteq> 0 then (accumulated AND permission) \<noteq> 0
                        else
                          let entry1 = physical m (entry2 AND PAGE_ENTRY_ADDRESS_MASK)
                                         (PagingLevel1Index address)
                          in if (entry1 AND PAGE_ENTRY_PRESENT) = 0 then False
                             else ((accumulated AND entry1) AND permission) \<noteq> 0)"

definition PagingAddressIsWritable :: "u64 \<Rightarrow> paging_state \<Rightarrow> bool" where
  "PagingAddressIsWritable address = PagingAddressPermits address PAGE_ENTRY_WRITABLE"

definition PagingAddressIsUser :: "u64 \<Rightarrow> paging_state \<Rightarrow> bool" where
  "PagingAddressIsUser address = PagingAddressPermits address PAGE_ENTRY_USER"

subsection \<open>Copy-on-write\<close>

text \<open>The pointer to the leaf entry is the place of the entry: its table and its index.\<close>

definition PagingLeafEntry :: "u64 \<Rightarrow> paging_state \<Rightarrow> (u64 \<times> nat) option" where
  "PagingLeafEntry address m =
     (let entry4 = physical m (PagingActiveTable m) (PagingLevel4Index address)
      in if (entry4 AND PAGE_ENTRY_PRESENT) = 0 then None
         else
           let entry3 = physical m (entry4 AND PAGE_ENTRY_ADDRESS_MASK) (PagingLevel3Index address)
           in if (entry3 AND PAGE_ENTRY_PRESENT) = 0 \<or> (entry3 AND PAGE_ENTRY_LARGE) \<noteq> 0 then None
              else
                let entry2 = physical m (entry3 AND PAGE_ENTRY_ADDRESS_MASK)
                               (PagingLevel2Index address)
                in if (entry2 AND PAGE_ENTRY_PRESENT) = 0 \<or> (entry2 AND PAGE_ENTRY_LARGE) \<noteq> 0
                   then None
                   else Some (entry2 AND PAGE_ENTRY_ADDRESS_MASK, PagingLevel1Index address))"

definition PagingCopyFrame :: "u64 \<Rightarrow> u64 \<Rightarrow> paging_state \<Rightarrow> paging_state" where
  "PagingCopyFrame destination source m =
     m\<lparr>physical := (physical m)(destination :=
         (\<lambda>index. if index < 512 then physical m source index else physical m destination index))\<rparr>"

definition PagingMarkCopyOnWrite :: "u64 \<Rightarrow> paging_state \<Rightarrow> (paging_state \<times> bool) outcome" where
  "PagingMarkCopyOnWrite address m =
     (case PagingLeafEntry (AlignDown address PAGE_SIZE) m of
        None \<Rightarrow> Inr (m, False)
      | Some (table, index) \<Rightarrow>
          (let entry = physical m table index
           in if (entry AND PAGE_ENTRY_PRESENT) = 0 then Inr (m, False)
              else bind_outcome
                     (PagingInvalidate (AlignDown address PAGE_SIZE)
                        (store_entry table index
                           ((entry AND NOT PAGE_ENTRY_WRITABLE) OR PAGE_ENTRY_COPY_ON_WRITE) m))
                     (\<lambda>m. Inr (m, True))))"

definition PagingIsCopyOnWrite :: "u64 \<Rightarrow> paging_state \<Rightarrow> bool" where
  "PagingIsCopyOnWrite address m =
     (case PagingLeafEntry (AlignDown address PAGE_SIZE) m of
        None \<Rightarrow> False
      | Some (table, index) \<Rightarrow>
          (let entry = physical m table index
           in if (entry AND PAGE_ENTRY_PRESENT) = 0 then False
              else (entry AND PAGE_ENTRY_COPY_ON_WRITE) \<noteq> 0))"

definition PagingResolveCopyOnWriteFault ::
  "u64 \<Rightarrow> paging_state \<Rightarrow> (paging_state \<times> bool) outcome" where
  "PagingResolveCopyOnWriteFault address m =
     (let page = AlignDown address PAGE_SIZE
      in case PagingLeafEntry page m of
           None \<Rightarrow> Inr (m, False)
         | Some (table, index) \<Rightarrow>
             (let entry = physical m table index
              in if (entry AND PAGE_ENTRY_PRESENT) = 0
                    \<or> (entry AND PAGE_ENTRY_COPY_ON_WRITE) = 0
                    \<or> (entry AND PAGE_ENTRY_WRITABLE) \<noteq> 0
                 then Inr (m, False)
                 else
                   let m = m\<lparr>PagingCopyOnWriteFaults := PagingCopyOnWriteFaults m + 1\<rparr>;
                       old_frame = entry AND PAGE_ENTRY_ADDRESS_MASK
                   in if FrameReferenceCount old_frame (frames m) \<le> 1
                      then bind_outcome
                             (PagingInvalidate page
                                (store_entry table index
                                   ((entry AND NOT PAGE_ENTRY_COPY_ON_WRITE) OR PAGE_ENTRY_WRITABLE) m))
                             (\<lambda>m. Inr (m\<lparr>PagingCopyOnWriteSoleOwners :=
                                           PagingCopyOnWriteSoleOwners m + 1\<rparr>, True))
                      else
                        let (pool, new_frame) = FrameAllocate (frames m);
                            m = m\<lparr>frames := pool\<rparr>
                        in if new_frame = FRAME_ALLOCATION_FAILED then Inr (m, False)
                           else
                             let m = PagingCopyFrame new_frame old_frame m;
                                 entry = physical m table index;
                                 flags = entry AND NOT PAGE_ENTRY_ADDRESS_MASK
                                           AND NOT PAGE_ENTRY_COPY_ON_WRITE;
                                 m = store_entry table index
                                       (new_frame OR flags OR PAGE_ENTRY_WRITABLE) m
                             in bind_outcome (PagingInvalidate page m) (\<lambda>m.
                                bind_outcome (FrameFree old_frame (frames m)) (\<lambda>pool.
                                Inr (m\<lparr>frames := pool,
                                        PagingCopyOnWriteCopies := PagingCopyOnWriteCopies m + 1\<rparr>,
                                     True)))))"

subsection \<open>Structures for the address spaces, and activation\<close>

definition PagingActivate :: "u64 \<Rightarrow> paging_state \<Rightarrow> paging_state" where
  "PagingActivate root m = m\<lparr>PagingActiveTable := root\<rparr>"

definition PagingReleaseStructure :: "u64 \<Rightarrow> paging_state \<Rightarrow> paging_state outcome" where
  "PagingReleaseStructure table m =
     (let m = (if 0 < PagingTableFrameCount m
               then m\<lparr>PagingTableFrameCount := PagingTableFrameCount m - 1\<rparr> else m)
      in bind_outcome (FrameFree table (frames m)) (\<lambda>pool. Inr (m\<lparr>frames := pool\<rparr>)))"

text \<open>
  The section boundaries come from the linker script; they are the fields of a record
  the initialisation takes.
\<close>

record kernel_sections =
  KernelTextStart :: u64
  KernelTextEnd :: u64
  KernelRodataStart :: u64
  KernelRodataEnd :: u64

definition PagingAddressIsReadOnly :: "kernel_sections \<Rightarrow> u64 \<Rightarrow> bool" where
  "PagingAddressIsReadOnly sections address =
     (if KernelTextStart sections \<le> address \<and> address < KernelTextEnd sections then True
      else if KernelRodataStart sections \<le> address \<and> address < KernelRodataEnd sections then True
      else False)"

text \<open>The loops of initialisation: one step maps one page and the loop stops at a panic.\<close>

fun fold_outcome :: "('b \<Rightarrow> 's \<Rightarrow> 's outcome) \<Rightarrow> 'b list \<Rightarrow> 's \<Rightarrow> 's outcome" where
  "fold_outcome f [] s = Inr s"
| "fold_outcome f (x # xs) s = bind_outcome (f x s) (fold_outcome f xs)"

definition frames_from_to :: "u64 \<Rightarrow> u64 \<Rightarrow> u64 \<Rightarrow> u64 list" where
  "frames_from_to start stop step =
     map (\<lambda>k. start + word_of_nat k * step)
       [0..<(unat (stop - start) + unat step - 1) div unat step]"

definition PagingInitialise ::
  "kernel_sections \<Rightarrow> BootInformation \<Rightarrow> paging_state \<Rightarrow> paging_state outcome" where
  "PagingInitialise sections information m =
     (let m = m\<lparr>PagingTableFrameCount := 0, PagingDirectMapActive := False\<rparr>
      in bind_outcome (PagingAllocateTable m) (\<lambda>(m, root).
         bind_outcome
           (fold_outcome (\<lambda>frame m.
              let virtual_address = PhysicalToVirtual frame;
                  flags = (if PagingAddressIsReadOnly sections virtual_address then 0
                           else PAGE_ENTRY_WRITABLE)
              in PagingMapPage root virtual_address frame flags m)
              (frames_from_to 0 KERNEL_FINE_MAP_LIMIT PAGE_SIZE) m) (\<lambda>m.
         bind_outcome
           (fold_outcome (\<lambda>frame.
              PagingMapLargePage root (PhysicalToVirtual frame) frame PAGE_ENTRY_WRITABLE)
              (frames_from_to KERNEL_FINE_MAP_LIMIT KERNEL_PHYSICAL_MAP_LIMIT PAGE_SIZE_LARGE) m)
           (\<lambda>m.
         let direct_map_limit = AlignUp (highest_usable_address information) PAGE_SIZE_LARGE
         in bind_outcome
           (fold_outcome (\<lambda>frame.
              PagingMapLargePage root (PhysicalToDirect frame) frame PAGE_ENTRY_WRITABLE)
              (frames_from_to 0 direct_map_limit PAGE_SIZE_LARGE) m) (\<lambda>m.
         let m = m\<lparr>PagingDirectMapBytes := direct_map_limit, PagingRootTable := root\<rparr>;
             m = PagingActivate root m;
             m = m\<lparr>PagingDirectMapActive := True\<rparr>
         in Inr (m\<lparr>write_protected := True\<rparr>))))))"

end
