(* ===== verification/PagingTree.thy ===== *)
theory PagingTree
  imports Paging
begin

text \<open>
  What the paging operations of \<open>kernel/arch/x86_64/mm/paging.c\<close> do to a hierarchy.  A
  hierarchy is a tree of tables, described by a level for every table: 4 for the root, one
  less for each step, 0 for a frame that is no table.  The facts here say that obtaining a
  table keeps the tree and every translation, and that writing a leaf changes the
  translation of its own page alone.
\<close>

subsection \<open>Entries by their bits\<close>

named_theorems entry_bits \<open>tests of entry flags as bits\<close>

lemma and_mask_bit: "(e AND 2 ^ n) = 0 \<longleftrightarrow> \<not> bit (e :: u64) n"
  by (simp add: and_exp_eq_0_iff_not_bit)

lemma entry_flag_bit [entry_bits]:
  "(e AND PAGE_ENTRY_PRESENT) = 0 \<longleftrightarrow> \<not> bit e 0"
  "(e AND PAGE_ENTRY_WRITABLE) = 0 \<longleftrightarrow> \<not> bit e 1"
  "(e AND PAGE_ENTRY_USER) = 0 \<longleftrightarrow> \<not> bit e 2"
  "(e AND PAGE_ENTRY_LARGE) = 0 \<longleftrightarrow> \<not> bit e 7"
  "(e AND PAGE_ENTRY_COPY_ON_WRITE) = 0 \<longleftrightarrow> \<not> bit e 9"
  using and_mask_bit [of e 0] and_mask_bit [of e 1] and_mask_bit [of e 2]
    and_mask_bit [of e 7] and_mask_bit [of e 9]
  by (simp_all add: PAGE_ENTRY_PRESENT_def PAGE_ENTRY_WRITABLE_def PAGE_ENTRY_USER_def
      PAGE_ENTRY_LARGE_def PAGE_ENTRY_COPY_ON_WRITE_def)

lemma flag_bits [entry_bits]:
  "bit PAGE_ENTRY_PRESENT n \<longleftrightarrow> n = 0"
  "bit PAGE_ENTRY_WRITABLE n \<longleftrightarrow> n = 1"
  "bit PAGE_ENTRY_USER n \<longleftrightarrow> n = 2"
  "bit PAGE_ENTRY_LARGE n \<longleftrightarrow> n = 7"
  "bit PAGE_ENTRY_COPY_ON_WRITE n \<longleftrightarrow> n = 9"
proof -
  have *: "bit ((2 :: u64) ^ k) n \<longleftrightarrow> n = k" if "k < 64" for k
    using that by (auto simp: bit_exp_iff)
  show "bit PAGE_ENTRY_PRESENT n \<longleftrightarrow> n = 0" "bit PAGE_ENTRY_WRITABLE n \<longleftrightarrow> n = 1"
    "bit PAGE_ENTRY_USER n \<longleftrightarrow> n = 2" "bit PAGE_ENTRY_LARGE n \<longleftrightarrow> n = 7"
    "bit PAGE_ENTRY_COPY_ON_WRITE n \<longleftrightarrow> n = 9"
    using * [of 0] * [of 1] * [of 2] * [of 7] * [of 9]
    by (simp_all add: PAGE_ENTRY_PRESENT_def PAGE_ENTRY_WRITABLE_def PAGE_ENTRY_USER_def
      PAGE_ENTRY_LARGE_def PAGE_ENTRY_COPY_ON_WRITE_def)
qed

lemma ADDRESS_MASK_mask: "PAGE_ENTRY_ADDRESS_MASK = mask 52 AND NOT (mask 12)"
  by (simp add: PAGE_ENTRY_ADDRESS_MASK_def mask_eq_exp_minus_1)

lemma bit_ADDRESS_MASK [entry_bits]:
  "bit PAGE_ENTRY_ADDRESS_MASK n \<longleftrightarrow> 12 \<le> n \<and> n < 52"
  by (auto simp: ADDRESS_MASK_mask bit_simps)

text \<open>The address an entry holds.\<close>

definition entry_address :: "u64 \<Rightarrow> u64" where
  "entry_address e = e AND PAGE_ENTRY_ADDRESS_MASK"

lemma frame_address_bits:
  assumes "frame_valid a" "bit a n" shows "12 \<le> n \<and> n < 52"
proof -
  have al: "a AND mask 12 = 0"
    using assms by (simp add: frame_valid_def IsPageAligned_def PAGE_SIZE_def mask_12)
  have "\<not> n < 12"
  proof
    assume "n < 12"
    then have "bit (a AND mask 12) n" using assms(2) by (simp add: bit_simps)
    then show False by (simp add: al)
  qed
  have "take_bit 52 (unat a) = unat a"
    using assms(1) by (simp add: frame_valid_def take_bit_nat_eq_self)
  moreover have "bit (unat a) n" using assms(2) by (simp add: bit_unsigned_iff)
  ultimately have "bit (take_bit 52 (unat a)) n" by simp
  then have "n < 52" by (simp add: bit_take_bit_iff)
  with \<open>\<not> n < 12\<close> show ?thesis by simp
qed

lemma entry_address_valid: "frame_valid a \<Longrightarrow> entry_address a = a"
  unfolding entry_address_def
  by (rule bit_word_eqI) (auto simp: bit_and_iff entry_bits dest: frame_address_bits)

lemma entry_address_or:
  assumes "frame_valid a" "entry_address flags = 0"
  shows "entry_address (a OR flags) = a"
proof -
  have "\<not> bit flags n" if "12 \<le> n" "n < 52" for n
  proof
    assume "bit flags n"
    then have "bit (entry_address flags) n"
      using that by (simp add: entry_address_def bit_and_iff entry_bits)
    then show False using assms(2) by simp
  qed
  then show ?thesis
    unfolding entry_address_def
    by (intro bit_word_eqI) (auto simp: bit_and_iff bit_or_iff entry_bits
        dest: frame_address_bits [OF assms(1)])
qed

lemma entry_address_or_user [simp]:
  "entry_address (e OR (flags AND PAGE_ENTRY_USER)) = entry_address e"
  unfolding entry_address_def
  by (rule bit_word_eqI) (auto simp: bit_and_iff bit_or_iff entry_bits)

lemma bit_or_user [simp]:
  "bit (e OR (flags AND PAGE_ENTRY_USER)) n \<longleftrightarrow> bit e n \<or> n = 2 \<and> bit flags 2"
  by (auto simp: bit_and_iff bit_or_iff entry_bits)

subsection \<open>The walk\<close>

definition level_index :: "nat \<Rightarrow> u64 \<Rightarrow> nat" where
  "level_index k va =
     (if k = 4 then PagingLevel4Index va else if k = 3 then PagingLevel3Index va
      else if k = 2 then PagingLevel2Index va else PagingLevel1Index va)"

lemma level_index_less [simp]: "level_index k va < 512"
proof -
  have "unat (w AND 0x1FF) < 512" for w :: u64
  proof -
    have "w AND 0x1FF \<le> 0x1FF" by (rule word_and_le1)
    then have "unat (w AND 0x1FF) \<le> unat (0x1FF :: u64)" by (simp only: word_le_nat_alt)
    then show ?thesis by simp
  qed
  then show ?thesis
    by (simp add: level_index_def PagingLevel4Index_def PagingLevel3Index_def
        PagingLevel2Index_def PagingLevel1Index_def)
qed

lemma level_index_simps [simp]:
  "level_index 4 va = PagingLevel4Index va" "level_index 3 va = PagingLevel3Index va"
  "level_index 2 va = PagingLevel2Index va" "level_index 1 va = PagingLevel1Index va"
  "level_index (Suc 0) va = PagingLevel1Index va"
  by (simp_all add: level_index_def)

text \<open>An entry of a table at level \<open>k\<close> leads to a table of the level below.\<close>

definition links :: "nat \<Rightarrow> u64 \<Rightarrow> bool" where
  "links k e \<longleftrightarrow> bit e 0 \<and> (k = 4 \<or> \<not> bit e 7)"

text \<open>
  The leaf a walk ends at: its level (1 for a 4 KiB page, 2 and 3 for the large ones) and
  its entry.
\<close>

fun walk :: "(u64 \<Rightarrow> nat \<Rightarrow> u64) \<Rightarrow> u64 \<Rightarrow> nat \<Rightarrow> u64 \<Rightarrow> (nat \<times> u64) option" where
  "walk mem va 0 t = None"
| "walk mem va (Suc r) t =
     (let e = mem t (level_index (Suc r) va)
      in if \<not> bit e 0 then None
         else if r = 0 then Some (1, e)
         else if links (Suc r) e then walk mem va r (entry_address e)
         else Some (Suc r, e))"

definition page_offset :: "nat \<Rightarrow> u64 \<Rightarrow> u64" where
  "page_offset k va =
     (if k = 1 then va AND (PAGE_SIZE - 1) else if k = 2 then va AND (PAGE_SIZE_LARGE - 1)
      else va AND 0x3FFFFFFF)"

lemma walk_levels:
  "walk mem va 4 t = (let e = mem t (PagingLevel4Index va)
     in if bit e 0 then walk mem va 3 (entry_address e) else None)"
  "walk mem va 3 t = (let e = mem t (PagingLevel3Index va)
     in if bit e 0 then if bit e 7 then Some (3, e) else walk mem va 2 (entry_address e) else None)"
  "walk mem va 2 t = (let e = mem t (PagingLevel2Index va)
     in if bit e 0 then if bit e 7 then Some (2, e) else walk mem va 1 (entry_address e) else None)"
  "walk mem va 1 t = (let e = mem t (PagingLevel1Index va)
     in if bit e 0 then Some (1, e) else None)"
  using walk.simps(2) [of mem va 3 t] walk.simps(2) [of mem va 2 t]
    walk.simps(2) [of mem va 1 t] walk.simps(2) [of mem va 0 t]
  by (simp_all add: Let_def links_def numeral_2_eq_2 [symmetric])

lemma PagingTranslate_walk:
  "PagingTranslate va m =
     (if PagingActiveTable m = 0 then 0
      else case walk (physical m) va 4 (PagingActiveTable m) of
             None \<Rightarrow> 0
           | Some (k, e) \<Rightarrow> entry_address e + page_offset k va)"
  by (simp add: PagingTranslate_def walk_levels Let_def entry_bits page_offset_def
      flip: entry_address_def)

subsection \<open>The tree of tables\<close>

text \<open>
  \<open>tree mem lv root\<close>: \<open>lv\<close> levels the tables beneath the one root, every link leads one
  level down, and no two entries link to the same table.
\<close>

definition tree :: "(u64 \<Rightarrow> nat \<Rightarrow> u64) \<Rightarrow> (u64 \<Rightarrow> nat) \<Rightarrow> u64 \<Rightarrow> bool" where
  "tree mem lv root \<longleftrightarrow>
     lv root = 4 \<and> (\<forall>t. lv t \<le> 4) \<and>
     (\<forall>t i. 2 \<le> lv t \<longrightarrow> i < 512 \<longrightarrow> links (lv t) (mem t i) \<longrightarrow>
        lv (entry_address (mem t i)) = lv t - 1) \<and>
     (\<forall>t i t' i'. 2 \<le> lv t \<longrightarrow> 2 \<le> lv t' \<longrightarrow> i < 512 \<longrightarrow> i' < 512 \<longrightarrow>
        links (lv t) (mem t i) \<longrightarrow> links (lv t') (mem t' i') \<longrightarrow>
        entry_address (mem t i) = entry_address (mem t' i') \<longrightarrow> t = t' \<and> i = i')"

lemma treeD:
  assumes "tree mem lv root"
  shows tree_root: "lv root = 4" and tree_le: "lv t \<le> 4"
    and tree_link: "2 \<le> lv t \<Longrightarrow> i < 512 \<Longrightarrow> links (lv t) (mem t i) \<Longrightarrow>
      lv (entry_address (mem t i)) = lv t - 1"
    and tree_inj: "2 \<le> lv t \<Longrightarrow> 2 \<le> lv t' \<Longrightarrow> i < 512 \<Longrightarrow> i' < 512 \<Longrightarrow>
      links (lv t) (mem t i) \<Longrightarrow> links (lv t') (mem t' i') \<Longrightarrow>
      entry_address (mem t i) = entry_address (mem t' i') \<Longrightarrow> t = t' \<and> i = i'"
  using assms unfolding tree_def by blast+

text \<open>The level-1 table a walk reads, if it reaches one.\<close>

fun table1 :: "(u64 \<Rightarrow> nat \<Rightarrow> u64) \<Rightarrow> u64 \<Rightarrow> nat \<Rightarrow> u64 \<Rightarrow> u64 option" where
  "table1 mem va 0 t = None"
| "table1 mem va (Suc r) t =
     (if r = 0 then Some t
      else let e = mem t (level_index (Suc r) va)
           in if links (Suc r) e then table1 mem va r (entry_address e) else None)"

definition same_page :: "u64 \<Rightarrow> u64 \<Rightarrow> bool" where
  "same_page va va' \<longleftrightarrow> (\<forall>k \<in> {1, 2, 3, 4}. level_index k va = level_index k va')"

lemma table1_level:
  "tree mem lv root \<Longrightarrow> lv t = r \<Longrightarrow> table1 mem va r t = Some l \<Longrightarrow> lv l = 1"
proof (induction mem va r t rule: table1.induct)
  case (2 mem va r t)
  then show ?case using tree_link [OF "2.prems"(1), of t "level_index (Suc r) va"]
    by (auto simp: Let_def split: if_splits)
qed simp

lemma table1_inj:
  assumes "tree mem lv root" "lv t = r" "lv t' = r"
    "table1 mem va r t = Some l" "table1 mem va' r t' = Some l"
  shows "t = t' \<and> (\<forall>k. 2 \<le> k \<longrightarrow> k \<le> r \<longrightarrow> level_index k va = level_index k va')"
  using assms(2-)
proof (induction r arbitrary: t t')
  case (Suc r)
  show ?case
  proof (cases "r = 0")
    case True
    with Suc.prems show ?thesis by auto
  next
    case False
    let ?e = "mem t (level_index (Suc r) va)" and ?e' = "mem t' (level_index (Suc r) va')"
    have links: "links (lv t) ?e" "links (lv t') ?e'"
      and below: "table1 mem va r (entry_address ?e) = Some l"
        "table1 mem va' r (entry_address ?e') = Some l"
      using Suc.prems False by (auto simp: Let_def split: if_splits)
    have lvs: "lv (entry_address ?e) = r" "lv (entry_address ?e') = r"
      using tree_link [OF assms(1), of t] tree_link [OF assms(1), of t'] Suc.prems False links
      by auto
    have IH: "entry_address ?e = entry_address ?e'"
      "\<forall>k. 2 \<le> k \<longrightarrow> k \<le> r \<longrightarrow> level_index k va = level_index k va'"
      using Suc.IH [OF lvs below] by auto
    have "t = t' \<and> level_index (Suc r) va = level_index (Suc r) va'"
      using tree_inj [OF assms(1) _ _ level_index_less level_index_less links IH(1)] Suc.prems False
      by auto
    with IH(2) show ?thesis by (auto simp: le_Suc_eq)
  qed
qed simp

text \<open>Writing one entry of a level-1 table changes the walks of its own page alone.\<close>

lemma walk_leaf_write:
  assumes "tree mem lv root" "lv l = 1" "lv t = r"
  shows "walk (mem(l := (mem l)(i := e))) va r t =
    (if table1 mem va r t = Some l \<and> PagingLevel1Index va = i
     then if bit e 0 then Some (1, e) else None
     else walk mem va r t)"
  using assms(3)
proof (induction r arbitrary: t)
  case (Suc r)
  show ?case
  proof (cases "r = 0")
    case True
    then show ?thesis by (auto simp: Let_def)
  next
    case False
    then have t: "t \<noteq> l" using Suc.prems assms(2) by auto
    let ?e = "mem t (level_index (Suc r) va)"
    show ?thesis
    proof (cases "links (Suc r) ?e")
      case True
      then have "lv (entry_address ?e) = r"
        using tree_link [OF assms(1), of t] Suc.prems False by auto
      from Suc.IH [OF this] show ?thesis using t True False by (simp add: Let_def links_def)
    next
      case False
      then show ?thesis using t \<open>r \<noteq> 0\<close> by (simp add: Let_def)
    qed
  qed
qed simp

lemma tree_leaf_write:
  assumes "tree mem lv root" "lv l = 1"
  shows "tree (mem(l := (mem l)(i := e))) lv root"
proof -
  have "(mem(l := (mem l)(i := e))) t = mem t" if "2 \<le> lv t" for t
    using assms(2) that by auto
  then show ?thesis using assms(1) unfolding tree_def by metis
qed

lemma table1_other_page:
  assumes "tree mem lv root" "table1 mem va 4 root = Some l" "\<not> same_page va va'"
  shows "\<not> (table1 mem va' 4 root = Some l \<and> PagingLevel1Index va' = PagingLevel1Index va)"
proof
  assume *: "table1 mem va' 4 root = Some l \<and> PagingLevel1Index va' = PagingLevel1Index va"
  have r: "lv root = 4" using assms(1) by (rule tree_root)
  have P: "level_index k va = level_index k va'" if "2 \<le> k" "k \<le> 4" for k
    using table1_inj [OF assms(1) r r assms(2)] * that by blast
  have "level_index 2 va = level_index 2 va' \<and> level_index 3 va = level_index 3 va'
      \<and> level_index 4 va = level_index 4 va'"
    using P [of 2] P [of 3] P [of 4] by simp
  then have "same_page va va'" using * by (simp add: same_page_def)
  with assms(3) show False ..
qed

subsection \<open>Obtaining a table\<close>

text \<open>The tables are frames the pool has issued.\<close>

definition tables_held :: "paging_state \<Rightarrow> (u64 \<Rightarrow> nat) \<Rightarrow> bool" where
  "tables_held m lv \<longleftrightarrow>
     (\<forall>t. lv t \<noteq> 0 \<longrightarrow> frame_valid t \<and> 0 < frame_refs (frames m) (FrameIndexOf t))"

definition hierarchy :: "paging_state \<Rightarrow> (u64 \<Rightarrow> nat) \<Rightarrow> u64 \<Rightarrow> bool" where
  "hierarchy m lv root \<longleftrightarrow>
     pool_ready (frames m) \<and> tree (physical m) lv root \<and> tables_held m lv"

text \<open>The fields no mapping operation writes.\<close>

definition same_registers :: "paging_state \<Rightarrow> paging_state \<Rightarrow> bool" where
  "same_registers m m' \<longleftrightarrow>
     PagingRootTable m' = PagingRootTable m \<and> PagingActiveTable m' = PagingActiveTable m \<and>
     PagingDirectMapActive m' = PagingDirectMapActive m \<and>
     invalidated m' = invalidated m \<and> shootdown_acknowledged m' = shootdown_acknowledged m"

text \<open>A frame with a reference that is no table: the contents belong to somebody else.\<close>

definition data_frame :: "paging_state \<Rightarrow> (u64 \<Rightarrow> nat) \<Rightarrow> u64 \<Rightarrow> bool" where
  "data_frame m lv a \<longleftrightarrow> frame_valid a \<and> lv a = 0 \<and> 0 < frame_refs (frames m) (FrameIndexOf a)"

lemma PagingAllocateTable_effect:
  assumes ready: "pool_ready (frames m)" and run: "PagingAllocateTable m = Inr (m', t)"
  shows "pool_ready (frames m')" and "frame_valid t"
    and "frame_refs (frames m) (FrameIndexOf t) = 0"
    and "frame_refs (frames m') = (frame_refs (frames m))(FrameIndexOf t := 1)"
    and "\<And>i. i < 512 \<Longrightarrow> physical m' t i = 0"
    and "\<And>u. u \<noteq> t \<Longrightarrow> physical m' u = physical m u"
    and "same_registers m m'"
proof -
  let ?limit = "if PagingDirectMapActive m then FrameAddressOf (FrameCount (frames m))
    else KERNEL_PHYSICAL_MAP_LIMIT"
  obtain pool frame where alloc: "FrameAllocateBelow ?limit (frames m) = (pool, frame)"
    by (meson surj_pair)
  have eq: "PagingAllocateTable m =
      (if frame = FRAME_ALLOCATION_FAILED
       then KernelPanic ''No frame is available for a kernel paging structure.''
       else Inr (m\<lparr>frames := pool,
                   physical := (physical m)(frame :=
                     (\<lambda>index. if index < PAGE_TABLE_ENTRY_COUNT then 0 else physical m frame index)),
                   PagingTableFrameCount := PagingTableFrameCount m + 1\<rparr>, frame))"
    using alloc by (cases "PagingDirectMapActive m")
      (simp_all add: PagingAllocateTable_def FrameAllocate_def)
  then have got: "frame \<noteq> FRAME_ALLOCATION_FAILED" and t: "t = frame"
    and m': "m' = m\<lparr>frames := pool,
                   physical := (physical m)(frame :=
                     (\<lambda>index. if index < PAGE_TABLE_ENTRY_COUNT then 0 else physical m frame index)),
                   PagingTableFrameCount := PagingTableFrameCount m + 1\<rparr>"
    using run by (auto split: if_splits)
  from pmm.issued [OF ready alloc got]
  show "pool_ready (frames m')" and "frame_valid t"
    and "frame_refs (frames m) (FrameIndexOf t) = 0"
    and "frame_refs (frames m') = (frame_refs (frames m))(FrameIndexOf t := 1)"
    by (simp_all add: m' t)
  show "\<And>i. i < 512 \<Longrightarrow> physical m' t i = 0"
    and "\<And>u. u \<noteq> t \<Longrightarrow> physical m' u = physical m u" and "same_registers m m'"
    by (simp_all add: m' t PAGE_TABLE_ENTRY_COUNT_def same_registers_def)
qed

lemma frame_valid_eq:
  "frame_valid a \<Longrightarrow> frame_valid b \<Longrightarrow> FrameIndexOf a = FrameIndexOf b \<Longrightarrow> a = b"
  by (metis FrameAddressOf_IndexOf frame_valid_def)

text \<open>What obtaining the table behind one entry establishes.\<close>

definition obtained ::
  "paging_state \<Rightarrow> (u64 \<Rightarrow> nat) \<Rightarrow> u64 \<Rightarrow> u64 \<Rightarrow> nat \<Rightarrow> nat \<Rightarrow> u64 \<Rightarrow> paging_state \<Rightarrow> (u64 \<Rightarrow> nat) \<Rightarrow> u64 \<Rightarrow> bool"
  where
  "obtained m lv root t i k flags m' lv' t' \<longleftrightarrow>
     hierarchy m' lv' root \<and> lv' t' = k \<and>
     links (Suc k) (physical m' t i) \<and> entry_address (physical m' t i) = t' \<and>
     (bit flags 2 \<longrightarrow> bit (physical m' t i) 2) \<and>
     (\<forall>va. walk (physical m') va 4 root = walk (physical m) va 4 root) \<and>
     (\<forall>u. lv u \<noteq> 0 \<longrightarrow> lv' u = lv u) \<and>
     (\<forall>u j. lv u \<noteq> 0 \<longrightarrow> (u, j) \<noteq> (t, i) \<longrightarrow> physical m' u j = physical m u j) \<and>
     (\<forall>a. data_frame m lv a \<longrightarrow> data_frame m' lv' a \<and> physical m' a = physical m a) \<and>
     (\<forall>i. 0 < frame_refs (frames m) i \<longrightarrow> frame_refs (frames m') i = frame_refs (frames m) i) \<and>
     (\<forall>i. 0 < frame_refs (frames m') i \<longrightarrow>
        0 < frame_refs (frames m) i \<or> (\<exists>u. lv' u \<noteq> 0 \<and> FrameIndexOf u = i)) \<and>
     same_registers m m'"

text \<open>A present link: only the user bit of the entry can change.\<close>

lemma obtain_present:
  fixes flags :: u64
  assumes H: "hierarchy m lv root" and t: "lv t = Suc k" "1 \<le> k" and i: "i < 512"
    and e: "links (Suc k) (physical m t i)"
  defines "m' \<equiv> store_entry t i (physical m t i OR (flags AND PAGE_ENTRY_USER)) m"
  shows "obtained m lv root t i k flags m' lv (entry_address (physical m t i))"
proof -
  have T: "tree (physical m) lv root" using H by (simp add: hierarchy_def)
  have mem: "physical m' u j = (if u = t \<and> j = i
      then physical m t i OR (flags AND PAGE_ENTRY_USER) else physical m u j)" for u j
    by (simp add: m'_def store_entry_def)
  have addr: "entry_address (physical m' u j) = entry_address (physical m u j)" for u j
    by (simp add: mem)
  have bits: "n \<noteq> 2 \<Longrightarrow> bit (physical m' u j) n = bit (physical m u j) n" for u j n
    by (simp add: mem)
  have lk: "links n (physical m' u j) = links n (physical m u j)" for n u j
    by (simp add: links_def bits)
  have T': "tree (physical m') lv root" using T unfolding tree_def lk addr .
  have w: "walk (physical m') va r u = walk (physical m) va r u" if "lv u = r" for va r u
    using that
  proof (induction r arbitrary: u)
    case (Suc r)
    let ?j = "level_index (Suc r) va"
    show ?case
    proof (cases "r \<noteq> 0 \<and> links (Suc r) (physical m u ?j)")
      case True
      then have "lv (entry_address (physical m u ?j)) = r"
        using tree_link [OF T, of u ?j] Suc.prems by simp
      from Suc.IH [OF this] show ?thesis using True by (simp add: Let_def lk addr bits)
    next
      case False
      have "physical m' u ?j = physical m u ?j" if "\<not> (u = t \<and> ?j = i)"
        using that by (auto simp: mem)
      moreover have "\<not> (u = t \<and> ?j = i)"
        using False e t Suc.prems by auto
      ultimately show ?thesis using False by (auto simp: Let_def)
    qed
  qed simp
  have held: "tables_held m' lv" and ready: "pool_ready (frames m')"
    using H by (simp_all add: hierarchy_def tables_held_def m'_def store_entry_def)
  have "lv (entry_address (physical m t i)) = k"
    using tree_link [OF T, of t i] t i e by simp
  moreover have "data_frame m' lv a \<and> physical m' a = physical m a" if "data_frame m lv a" for a
    using that t by (auto simp: data_frame_def m'_def store_entry_def)
  moreover have "links (Suc k) (physical m' t i)" using e by (simp add: lk)
  moreover have "same_registers m m'" "frames m' = frames m"
    by (simp_all add: m'_def store_entry_def same_registers_def)
  ultimately show ?thesis
    using T' held ready w [OF tree_root [OF T]]
    unfolding obtained_def hierarchy_def by (auto simp: addr mem)
qed

text \<open>An absent entry: a cleared frame the pool has just issued becomes the table.\<close>

lemma inherited_bits:
  fixes flags :: u64
  defines "inherited \<equiv> PAGE_ENTRY_PRESENT OR PAGE_ENTRY_WRITABLE OR (flags AND PAGE_ENTRY_USER)"
  shows "entry_address inherited = 0" and "bit inherited 0" and "\<not> bit inherited 7"
    and "bit inherited 2 \<longleftrightarrow> bit flags 2"
proof -
  show "entry_address inherited = 0"
    unfolding inherited_def entry_address_def
    by (rule bit_word_eqI) (auto simp: bit_or_iff bit_and_iff entry_bits)
  show "bit inherited 0" and "\<not> bit inherited 7" and "bit inherited 2 \<longleftrightarrow> bit flags 2"
    by (simp_all add: inherited_def bit_or_iff bit_and_iff entry_bits)
qed

lemma frame_valid_bit:
  "frame_valid a \<Longrightarrow> n < 12 \<Longrightarrow> bit (a OR f) n \<longleftrightarrow> bit f n"
  using frame_address_bits [of a n] by (auto simp: bit_or_iff)

lemma obtain_absent:
  fixes flags :: u64
  assumes H: "hierarchy m lv root" and t: "lv t = Suc k" "1 \<le> k" and i: "i < 512"
    and e: "\<not> bit (physical m t i) 0"
    and alloc: "PagingAllocateTable m = Inr (m1, f)"
  defines "inherited \<equiv> PAGE_ENTRY_PRESENT OR PAGE_ENTRY_WRITABLE OR (flags AND PAGE_ENTRY_USER)"
  defines "m' \<equiv> store_entry t i (f OR inherited) m1"
  shows "obtained m lv root t i k flags m' (lv(f := k)) f"
proof -
  have T: "tree (physical m) lv root" and ready: "pool_ready (frames m)"
    and held: "tables_held m lv"
    using H by (simp_all add: hierarchy_def)
  note A = PagingAllocateTable_effect [OF ready alloc]
  have f0: "lv f = 0" using held A(3) by (metis less_irrefl tables_held_def)
  have ft: "f \<noteq> t" using f0 t by auto
  have lv': "(lv(f := k)) u = (if u = f then k else lv u)" for u by simp
  have memf: "physical m' f j = 0" if "j < 512" for j
    using A(5) [OF that] ft by (simp add: m'_def store_entry_def)
  have memt: "physical m' t i = f OR inherited" by (simp add: m'_def store_entry_def)
  have memo: "physical m' u j = physical m u j" if "u \<noteq> f" "(u, j) \<noteq> (t, i)" for u j
    using A(6) that by (auto simp: m'_def store_entry_def)
  have addr: "entry_address (f OR inherited) = f"
    using A(2) inherited_bits(1) [of flags] by (simp add: entry_address_or inherited_def)
  have bits: "bit (f OR inherited) 0" "\<not> bit (f OR inherited) 7"
    "bit (f OR inherited) 2 \<longleftrightarrow> bit flags 2"
    using frame_valid_bit [OF A(2)] inherited_bits(2-4) [of flags] by (simp_all add: inherited_def)
  have nolink_f: "\<not> links n (physical m' f j)" if "j < 512" for n j
    using memf [OF that] by (simp add: links_def)
  have nolink_e: "\<not> links n (physical m t i)" for n using e by (simp add: links_def)
  have k: "k \<le> 3" using tree_le [OF T, of t] t by simp
  have old: "lv u \<noteq> 0 \<Longrightarrow> 2 \<le> lv u \<Longrightarrow> j < 512 \<Longrightarrow> links (lv u) (physical m u j) \<Longrightarrow>
      entry_address (physical m u j) \<noteq> f" for u j
    using tree_link [OF T, of u j] f0 by auto
  have T': "tree (physical m') (lv(f := k)) root"
    unfolding tree_def
  proof (intro conjI allI impI)
    show "(lv(f := k)) root = 4" using tree_root [OF T] f0 by auto
    show "(lv(f := k)) u \<le> 4" for u using tree_le [OF T, of u] k by simp
  next
    fix u j
    assume u: "2 \<le> (lv(f := k)) u" and j: "j < 512" and l: "links ((lv(f := k)) u) (physical m' u j)"
    then have uf: "u \<noteq> f" using nolink_f by auto
    show "(lv(f := k)) (entry_address (physical m' u j)) = (lv(f := k)) u - 1"
    proof (cases "(u, j) = (t, i)")
      case True
      then show ?thesis using ft t by (simp add: memt addr)
    next
      case False
      with uf have "physical m' u j = physical m u j" by (intro memo)
      then show ?thesis using tree_link [OF T, of u j] old [of u j] u j l uf by auto
    qed
  next
    fix u j u' j'
    assume u: "2 \<le> (lv(f := k)) u" "2 \<le> (lv(f := k)) u'" and j: "j < 512" "j' < 512"
      and l: "links ((lv(f := k)) u) (physical m' u j)" "links ((lv(f := k)) u') (physical m' u' j')"
      and eq: "entry_address (physical m' u j) = entry_address (physical m' u' j')"
    have uf: "u \<noteq> f" "u' \<noteq> f" using nolink_f j l by auto
    have s: "physical m' u j = physical m u j" if "(u, j) \<noteq> (t, i)" using uf(1) that by (intro memo)
    have s': "physical m' u' j' = physical m u' j'" if "(u', j') \<noteq> (t, i)"
      using uf(2) that by (intro memo)
    have "u = u' \<and> j = j'"
    proof (cases "(u, j) = (t, i)")
      case True
      then have a: "entry_address (physical m' u j) = f" using memt addr by simp
      show ?thesis
      proof (cases "(u', j') = (t, i)")
        case False
        then have "entry_address (physical m u' j') = f" using a eq s' by simp
        then show ?thesis using old [of u' j'] u j l uf s' [OF False] by simp
      qed (use True in simp)
    next
      case False
      note same = s [OF False]
      show ?thesis
      proof (cases "(u', j') = (t, i)")
        case True
        then have "entry_address (physical m u j) = f" using memt addr eq same by simp
        then show ?thesis using old [of u j] u j l uf same by simp
      next
        case other: False
        show ?thesis
          using tree_inj [OF T, of u u' j j'] u j l uf eq same s' [OF other] by simp
      qed
    qed
    then show "u = u'" and "j = j'" by simp_all
  qed
  have w: "walk (physical m') va r u = walk (physical m) va r u" if "lv u = r" for va r u
    using that
  proof (induction r arbitrary: u)
    case (Suc r)
    let ?j = "level_index (Suc r) va"
    have uf: "u \<noteq> f" using Suc.prems f0 by auto
    show ?case
    proof (cases "(u, ?j) = (t, i)")
      case True
      then have "r = k" using Suc.prems t by simp
      obtain k' where "k = Suc k'" using t(2) by (cases k) auto
      then have "walk (physical m') va r f = None"
        using memf \<open>r = k\<close> by (simp add: Let_def)
      then show ?thesis
        using True e \<open>r = k\<close> t(2) by (auto simp: Let_def memt bits addr links_def)
    next
      case False
      with uf have same: "physical m' u ?j = physical m u ?j" by (intro memo)
      show ?thesis
      proof (cases "r \<noteq> 0 \<and> links (Suc r) (physical m u ?j)")
        case True
        then have "lv (entry_address (physical m u ?j)) = r"
          using tree_link [OF T, of u ?j] Suc.prems by simp
        from Suc.IH [OF this] show ?thesis using same by (simp add: Let_def)
      next
        case False
        then show ?thesis using same by (auto simp: Let_def)
      qed
    qed
  qed simp
  have refs: "frame_refs (frames m') = (frame_refs (frames m))(FrameIndexOf f := 1)"
    using A(4) by (simp add: m'_def store_entry_def)
  have held': "tables_held m' (lv(f := k))"
    using held A(2) by (auto simp: tables_held_def refs)
  have ready': "pool_ready (frames m')" using A(1) by (simp add: m'_def store_entry_def)
  have data: "data_frame m' (lv(f := k)) a \<and> physical m' a = physical m a" if "data_frame m lv a" for a
  proof -
    have "FrameIndexOf a \<noteq> FrameIndexOf f" using that A(3) by (auto simp: data_frame_def)
    then have "a \<noteq> f" by auto
    moreover have "a \<noteq> t" using that t by (auto simp: data_frame_def)
    ultimately show ?thesis
      using that A(4,6) \<open>FrameIndexOf a \<noteq> FrameIndexOf f\<close>
      by (auto simp: data_frame_def refs m'_def store_entry_def)
  qed
  have regs: "same_registers m m'" using A(7) by (simp add: same_registers_def m'_def store_entry_def)
  have fresh: "0 < frame_refs (frames m) n \<or> (\<exists>u. (lv(f := k)) u \<noteq> 0 \<and> FrameIndexOf u = n)"
    if "0 < frame_refs (frames m') n" for n
    using that t(2) by (auto simp: refs split: if_splits intro!: exI [of _ f])
  have other: "physical m' u j = physical m u j" if "lv u \<noteq> 0" "(u, j) \<noteq> (t, i)" for u j
    using that f0 by (intro memo) auto
  show ?thesis
    unfolding obtained_def hierarchy_def
    using T' held' ready' regs data w [OF tree_root [OF T]] f0 other A(3) fresh
    by (auto simp: memt addr bits links_def refs)
qed

lemma PagingObtainTable_effect:
  assumes H: "hierarchy m lv root" and t: "lv t = Suc k" "1 \<le> k" and i: "i < 512"
    and e: "bit (physical m t i) 0 \<Longrightarrow> links (Suc k) (physical m t i)"
    and run: "PagingObtainTable t i flags m = Inr (m', t')"
  obtains lv' where "obtained m lv root t i k flags m' lv' t'"
proof (cases "bit (physical m t i) 0")
  case True
  then have "m' = store_entry t i (physical m t i OR (flags AND PAGE_ENTRY_USER)) m"
    and "t' = entry_address (physical m t i)"
    using run entry_address_or_user [of "physical m t i" flags]
    by (auto simp: PagingObtainTable_def Let_def entry_bits entry_address_def store_entry_def)
  with obtain_present [OF H t i e [OF True], of flags] show thesis by (intro that [of lv]) simp
next
  case False
  then obtain m1 where "PagingAllocateTable m = Inr (m1, t')"
    and "m' = store_entry t i (t' OR (PAGE_ENTRY_PRESENT OR PAGE_ENTRY_WRITABLE
           OR (flags AND PAGE_ENTRY_USER))) m1"
    using run by (auto simp: PagingObtainTable_def Let_def entry_bits bind_outcome_Inr_iff)
  with obtain_absent [OF H t i False, of m1 t' flags] show thesis
    by (intro that [of "lv(t' := k)"]) simp
qed

end
