(* ===== verification/PagingMap.thy ===== *)
theory PagingMap
  imports PagingTree
begin

text \<open>
  The mapping, unmapping and copy-on-write operations of
  \<open>kernel/arch/x86_64/mm/paging.c\<close> on a hierarchy: each changes the walk of its own page
  and no other, keeps the tree of tables, and leaves the contents of every frame that is
  no table alone.
\<close>

subsection \<open>Mapping one page\<close>

text \<open>No large page covers the address.\<close>

definition small_path :: "paging_state \<Rightarrow> u64 \<Rightarrow> u64 \<Rightarrow> bool" where
  "small_path m root va \<longleftrightarrow>
     (case walk (physical m) va 4 root of None \<Rightarrow> True | Some (k, e) \<Rightarrow> k = 1)"

definition leaf_entry :: "u64 \<Rightarrow> u64 \<Rightarrow> u64" where
  "leaf_entry pa flags = (pa AND PAGE_ENTRY_ADDRESS_MASK) OR flags OR PAGE_ENTRY_PRESENT"

lemma bit_leaf_entry_present [simp]: "bit (leaf_entry pa flags) 0"
  by (simp add: leaf_entry_def bit_or_iff entry_bits)

lemma entry_address_leaf:
  assumes "entry_address flags = 0"
  shows "entry_address (leaf_entry pa flags) = entry_address pa"
proof -
  have "\<not> bit flags n" if "12 \<le> n" "n < 52" for n
  proof
    assume "bit flags n"
    then have "bit (entry_address flags) n"
      using that by (simp add: entry_address_def bit_and_iff entry_bits)
    then show False using assms by simp
  qed
  then show ?thesis
    unfolding entry_address_def leaf_entry_def
    by (intro bit_word_eqI) (auto simp: bit_and_iff bit_or_iff entry_bits)
qed

lemma same_page_refl [simp]: "same_page va va"
  by (simp add: same_page_def)

lemma walk_same_page:
  assumes "same_page va va'" "r \<le> 4"
  shows "walk mem va' r t = walk mem va r t"
  using assms(2)
proof (induction r arbitrary: t)
  case (Suc r)
  then have "Suc r \<in> {1, 2, 3, 4}" by auto
  then have eq: "level_index (Suc r) va' = level_index (Suc r) va"
    using assms(1) unfolding same_page_def by metis
  show ?case using Suc by (simp add: eq Let_def)
qed simp

lemma table1_same_page:
  assumes "same_page va va'" "r \<le> 4"
  shows "table1 mem va' r t = table1 mem va r t"
  using assms(2)
proof (induction r arbitrary: t)
  case (Suc r)
  then have "Suc r \<in> {1, 2, 3, 4}" by auto
  then have eq: "level_index (Suc r) va' = level_index (Suc r) va"
    using assms(1) unfolding same_page_def by metis
  show ?case using Suc by (simp add: eq Let_def)
qed simp

text \<open>Writing the leaf of the page \<open>va\<close>, whose level-1 table is \<open>l\<close>.\<close>

lemma leaf_write_walks:
  assumes T: "tree mem lv root" and l: "table1 mem va 4 root = Some l"
  shows "walk (mem(l := (mem l)(PagingLevel1Index va := e))) va' 4 root =
    (if same_page va va' then if bit e 0 then Some (1, e) else None
     else walk mem va' 4 root)"
proof -
  have r: "lv root = 4" using T by (rule tree_root)
  have l1: "lv l = 1" by (rule table1_level [OF T r l])
  note W = walk_leaf_write [OF T l1 r, of "PagingLevel1Index va" e va']
  show ?thesis
  proof (cases "same_page va va'")
    case True
    then have "PagingLevel1Index va' = PagingLevel1Index va"
      unfolding same_page_def by (simp add: level_index_def)
    with W True l table1_same_page [OF True, of 4 mem root] show ?thesis by simp
  next
    case False
    with W table1_other_page [OF T l False] show ?thesis by auto
  qed
qed

definition leaf_written :: "paging_state \<Rightarrow> (u64 \<Rightarrow> nat) \<Rightarrow> u64 \<Rightarrow> u64 \<Rightarrow> u64 \<Rightarrow> paging_state \<Rightarrow> bool" where
  "leaf_written m lv root va e m' \<longleftrightarrow>
     hierarchy m' lv root \<and>
     (\<forall>va'. walk (physical m') va' 4 root =
        (if same_page va va' then if bit e 0 then Some (1, e) else None
         else walk (physical m) va' 4 root)) \<and>
     (\<forall>a. lv a \<noteq> 1 \<longrightarrow> physical m' a = physical m a) \<and>
     frames m' = frames m \<and> same_registers m m'"

lemma hierarchy_invalidated [simp]:
  "hierarchy (m\<lparr>invalidated := x\<rparr>) lv root = hierarchy m lv root"
  by (simp add: hierarchy_def tables_held_def)

lemma store_leaf:
  assumes H: "hierarchy m lv root" and l: "table1 (physical m) va 4 root = Some l"
  shows "leaf_written m lv root va e (store_entry l (PagingLevel1Index va) e m)"
proof -
  have T: "tree (physical m) lv root" using H by (simp add: hierarchy_def)
  have l1: "lv l = 1" by (rule table1_level [OF T tree_root [OF T] l])
  show ?thesis
    unfolding leaf_written_def
    using leaf_write_walks [OF T l, of e] tree_leaf_write [OF T l1] l1 H
    by (auto simp: store_entry_def hierarchy_def tables_held_def same_registers_def)
qed

text \<open>What a mapping establishes; \<open>lv'\<close> levels the tables, the new ones included.\<close>

definition mapped :: "paging_state \<Rightarrow> (u64 \<Rightarrow> nat) \<Rightarrow> u64 \<Rightarrow> u64 \<Rightarrow> u64 \<Rightarrow> u64 \<Rightarrow> paging_state \<Rightarrow> (u64 \<Rightarrow> nat) \<Rightarrow> bool"
  where
  "mapped m lv root va pa flags m' lv' \<longleftrightarrow>
     hierarchy m' lv' root \<and>
     (\<forall>va'. walk (physical m') va' 4 root =
        (if same_page va va' then Some (1, leaf_entry pa flags) else walk (physical m) va' 4 root)) \<and>
     (\<forall>u. lv u \<noteq> 0 \<longrightarrow> lv' u = lv u) \<and>
     (\<forall>a. data_frame m lv a \<longrightarrow> data_frame m' lv' a \<and> physical m' a = physical m a) \<and>
     (\<forall>i. 0 < frame_refs (frames m) i \<longrightarrow> frame_refs (frames m') i = frame_refs (frames m) i) \<and>
     (\<forall>i. 0 < frame_refs (frames m') i \<longrightarrow>
        0 < frame_refs (frames m) i \<or> (\<exists>u. lv' u \<noteq> 0 \<and> FrameIndexOf u = i)) \<and>
     (bit flags 2 \<longrightarrow> root = PagingActiveTable m \<longrightarrow> PagingAddressIsUser va m') \<and>
     same_registers m m'"

lemma obtainedD:
  assumes "obtained m lv root t i k flags m' lv' t'"
  shows "hierarchy m' lv' root" "lv' t' = k" "links (Suc k) (physical m' t i)"
    "entry_address (physical m' t i) = t'" "bit flags 2 \<Longrightarrow> bit (physical m' t i) 2"
    "walk (physical m') va 4 root = walk (physical m) va 4 root"
    "lv u \<noteq> 0 \<Longrightarrow> lv' u = lv u"
    "lv u \<noteq> 0 \<Longrightarrow> (u, j) \<noteq> (t, i) \<Longrightarrow> physical m' u j = physical m u j"
    "data_frame m lv a \<Longrightarrow> data_frame m' lv' a \<and> physical m' a = physical m a"
    "0 < frame_refs (frames m) n \<Longrightarrow> frame_refs (frames m') n = frame_refs (frames m) n"
    "same_registers m m'"
    "0 < frame_refs (frames m') n \<Longrightarrow>
       0 < frame_refs (frames m) n \<or> (\<exists>u. lv' u \<noteq> 0 \<and> FrameIndexOf u = n)"
  using assms unfolding obtained_def by blast+

lemma PagingMapPage_effect:
  assumes H: "hierarchy m lv root" and small: "small_path m root va"
    and run: "PagingMapPage root va pa flags m = Inr m'"
  obtains lv' where "mapped m lv root va pa flags m' lv'"
proof -
  let ?i4 = "PagingLevel4Index va" and ?i3 = "PagingLevel3Index va"
    and ?i2 = "PagingLevel2Index va" and ?i1 = "PagingLevel1Index va"
  have idx: "?i4 < 512" "?i3 < 512" "?i2 < 512"
    using level_index_less [of 4 va] level_index_less [of 3 va] level_index_less [of 2 va] by simp_all
  obtain m1 t3 m2 t2 m3 t1 where
    r1: "PagingObtainTable root ?i4 flags m = Inr (m1, t3)"
    and r2: "PagingObtainTable t3 ?i3 flags m1 = Inr (m2, t2)"
    and r3: "PagingObtainTable t2 ?i2 flags m2 = Inr (m3, t1)"
    and m': "m' = store_entry t1 ?i1 (leaf_entry pa flags) m3"
    using run by (auto simp: PagingMapPage_def bind_outcome_Inr_iff leaf_entry_def or.assoc)
  have small': "(k :: nat) = 1" if "walk (physical m) va 4 root = Some (k, e)" for k e
    using small that by (simp add: small_path_def)
  have root4: "lv root = Suc 3"
    using H tree_root by (fastforce simp: hierarchy_def)
  obtain lv1 where o1: "obtained m lv root root ?i4 3 flags m1 lv1 t3"
    by (rule PagingObtainTable_effect [OF H root4 _ idx(1) _ r1]) (auto simp: links_def)
  note O1 = obtainedD [OF o1]
  have w1: "walk (physical m1) va 3 t3 = walk (physical m) va 4 root"
    using O1(3,4) O1(6) [of va] by (simp add: walk_levels(1) Let_def links_def)
  have t3: "lv1 t3 = Suc 2" using O1(2) by simp
  have l3: "links (Suc 2) (physical m1 t3 ?i3)" if "bit (physical m1 t3 ?i3) 0"
    using that small' [of 3 "physical m1 t3 ?i3"] w1 [symmetric] by (auto simp: walk_levels(2) Let_def links_def split: if_splits)
  obtain lv2 where o2: "obtained m1 lv1 root t3 ?i3 2 flags m2 lv2 t2"
    by (rule PagingObtainTable_effect [OF O1(1) t3 _ idx(2) l3 r2]) auto
  note O2 = obtainedD [OF o2]
  have lv1r: "lv1 root = 4" using O1(7) [of root] root4 by simp
  have e4_2: "physical m2 root ?i4 = physical m1 root ?i4"
    using O2(8) [of root ?i4] lv1r O1(2) by fastforce
  have w2: "walk (physical m2) va 2 t2 = walk (physical m) va 4 root"
    using O2(3,4) O2(6) [of va] O1(3,4) O1(6) [of va] e4_2 by (simp add: walk_levels(1,2) Let_def links_def)
  have t2: "lv2 t2 = Suc 1" using O2(2) by simp
  have l2: "links (Suc 1) (physical m2 t2 ?i2)" if "bit (physical m2 t2 ?i2) 0"
    using that small' [of 2 "physical m2 t2 ?i2"] w2 [symmetric] by (auto simp: walk_levels(3) Let_def links_def split: if_splits)
  obtain lv3 where o3: "obtained m2 lv2 root t2 ?i2 1 flags m3 lv3 t1"
    by (rule PagingObtainTable_effect [OF O2(1) t2 _ idx(3) l2 r3]) auto
  note O3 = obtainedD [OF o3]
  have lv2r: "lv2 root = 4" "lv2 t3 = 3" using O2(7) [of root] O2(7) [of t3] lv1r O1(2) by simp_all
  have lv3r: "lv3 root = 4" "lv3 t3 = 3" "lv3 t2 = 2"
    using O3(7) [of root] O3(7) [of t3] O3(7) [of t2] lv2r O2(2) by simp_all
  have e4_3: "physical m3 root ?i4 = physical m1 root ?i4"
    using O3(8) [of root ?i4] lv2r O2(2) e4_2 by fastforce
  have e3_3: "physical m3 t3 ?i3 = physical m2 t3 ?i3"
    using O3(8) [of t3 ?i3] lv2r O2(2) by fastforce
  have tab: "table1 (physical m3) va 4 root = Some t1"
    using O1(3,4) O2(3,4) O3(3,4) e4_3 e3_3
    by (simp add: eval_nat_numeral level_index_def Let_def)
  have L: "leaf_written m3 lv3 root va (leaf_entry pa flags) m'"
    unfolding m' by (rule store_leaf [OF O3(1) tab])
  have t1_other: "t1 \<noteq> root" "t1 \<noteq> t3" "t1 \<noteq> t2" using lv3r O3(2) by auto
  have user: "PagingAddressIsUser va m'" if "bit flags 2" "root = PagingActiveTable m"
  proof -
    have act: "PagingActiveTable m' = root"
      using that O1(11) O2(11) O3(11) by (simp add: m' store_entry_def same_registers_def)
    have mem: "physical m' root ?i4 = physical m1 root ?i4"
      "physical m' t3 ?i3 = physical m2 t3 ?i3" "physical m' t2 ?i2 = physical m3 t2 ?i2"
      "physical m' t1 ?i1 = leaf_entry pa flags"
      using t1_other e4_3 e3_3 by (simp_all add: m' store_entry_def)
    have "bit (leaf_entry pa flags) 2"
      using that by (simp add: leaf_entry_def bit_or_iff)
    moreover have "bit (x AND y) 2 = (bit x 2 \<and> bit y 2)" for x y :: u64 by (simp add: bit_and_iff)
    ultimately show ?thesis
      using O1(3,4,5) O2(3,4,5) O3(3,4,5) that(1) mem
      by (simp add: PagingAddressIsUser_def PagingAddressPermits_def act Let_def entry_bits
          links_def bit_and_iff flip: entry_address_def)
  qed
  show thesis
  proof (rule that [of lv3])
    have data: "data_frame m' lv3 a \<and> physical m' a = physical m a" if "data_frame m lv a" for a
    proof -
      have d3: "data_frame m3 lv3 a" "physical m3 a = physical m a"
        using O1(9) [OF that] O2(9) [of a] O3(9) [of a] by simp_all
      then show ?thesis using L by (simp add: leaf_written_def data_frame_def)
    qed
    have refs: "frame_refs (frames m') i = frame_refs (frames m) i" if "0 < frame_refs (frames m) i" for i
      using O1(10) [OF that] O2(10) [of i] O3(10) [of i] that L by (simp add: leaf_written_def)
    have lvs: "lv3 u = lv u" if "lv u \<noteq> 0" for u
      using O1(7) [OF that] O2(7) [of u] O3(7) [of u] that by simp
    have fresh: "0 < frame_refs (frames m) i \<or> (\<exists>u. lv3 u \<noteq> 0 \<and> FrameIndexOf u = i)"
      if "0 < frame_refs (frames m') i" for i
    proof -
      have "0 < frame_refs (frames m3) i" using that L by (simp add: leaf_written_def)
      then show ?thesis using O3(12) [of i] O2(12) [of i] O1(12) [of i] O2(7) O3(7) by metis
    qed
    have regs: "same_registers m m'"
      using O1(11) O2(11) O3(11) L by (simp add: leaf_written_def same_registers_def)
    show "mapped m lv root va pa flags m' lv3"
      unfolding mapped_def
    proof (intro conjI allI impI)
      show "hierarchy m' lv3 root" using L by (simp add: leaf_written_def)
      show "walk (physical m') va' 4 root =
        (if same_page va va' then Some (1, leaf_entry pa flags) else walk (physical m) va' 4 root)" for va'
        using L O1(6) O2(6) O3(6) by (simp add: leaf_written_def)
    qed (fact data [THEN conjunct1] data [THEN conjunct2] refs lvs regs user fresh)+
  qed
qed

subsection \<open>Unmapping one page\<close>

lemma walk_table1:
  "walk mem va (Suc r) t = Some (1, e) \<longleftrightarrow>
     (\<exists>l. table1 mem va (Suc r) t = Some l \<and> e = mem l (PagingLevel1Index va) \<and> bit e 0)"
proof (induction r arbitrary: t)
  case (Suc r)
  then show ?case by (auto simp: Let_def links_def)
qed (auto simp: Let_def)

lemmas walk_table1_root = walk_table1 [of _ _ 3, simplified eval_nat_numeral [symmetric]]

lemma PagingLeafEntry_table1:
  "PagingLeafEntry va m =
     (case table1 (physical m) va 4 (PagingActiveTable m) of
        None \<Rightarrow> None | Some l \<Rightarrow> Some (l, PagingLevel1Index va))"
  by (simp add: PagingLeafEntry_def Let_def entry_bits eval_nat_numeral level_index_def links_def
      flip: entry_address_def)

lemma PagingInvalidate_Inr:
  "PagingInvalidate va m = Inr m' \<longleftrightarrow>
     shootdown_acknowledged m va \<and> m' = m\<lparr>invalidated := va # invalidated m\<rparr>"
  by (auto simp: PagingInvalidate_def PagingInvalidateHere_def Let_def)

lemma table1_levels:
  "table1 mem va 4 t = (let e = mem t (PagingLevel4Index va)
     in if bit e 0 then table1 mem va 3 (entry_address e) else None)"
  "table1 mem va 3 t = (let e = mem t (PagingLevel3Index va)
     in if bit e 0 \<and> \<not> bit e 7 then table1 mem va 2 (entry_address e) else None)"
  "table1 mem va 2 t = (let e = mem t (PagingLevel2Index va)
     in if bit e 0 \<and> \<not> bit e 7 then Some (entry_address e) else None)"
  by (simp_all add: eval_nat_numeral level_index_def links_def Let_def)

lemma PagingUnmapPageIn_None:
  "walk (physical m) va 4 root = None \<Longrightarrow>
     PagingUnmapPageIn root va m = Inr (m, FRAME_ALLOCATION_FAILED)"
  by (auto simp: PagingUnmapPageIn_def walk_levels Let_def entry_bits
      simp flip: entry_address_def split: if_splits)

lemma table1_path:
  assumes "table1 mem va 4 root = Some l"
  obtains e4 e3 e2 where "mem root (PagingLevel4Index va) = e4" "bit e4 0"
    "mem (entry_address e4) (PagingLevel3Index va) = e3" "bit e3 0" "\<not> bit e3 7"
    "mem (entry_address e3) (PagingLevel2Index va) = e2" "bit e2 0" "\<not> bit e2 7"
    "l = entry_address e2"
  using assms by (auto simp: table1_levels Let_def split: if_splits)

lemma PagingUnmapPageIn_Some:
  assumes w: "walk (physical m) va 4 root = Some (1, e)" and l: "table1 (physical m) va 4 root = Some l"
  shows "PagingUnmapPageIn root va m =
     (let m' = store_entry l (PagingLevel1Index va) 0 m
      in if root = PagingActiveTable m
         then bind_outcome (PagingInvalidate va m') (\<lambda>m'. Inr (m', entry_address e))
         else Inr (m', entry_address e))"
proof -
  have leaf: "physical m l (PagingLevel1Index va) = e" "bit e 0"
    using w l walk_table1_root by fastforce+
  obtain e4 e3 e2 where "physical m root (PagingLevel4Index va) = e4" "bit e4 0"
    "physical m (entry_address e4) (PagingLevel3Index va) = e3" "bit e3 0" "\<not> bit e3 7"
    "physical m (entry_address e3) (PagingLevel2Index va) = e2" "bit e2 0" "\<not> bit e2 7"
    "l = entry_address e2"
    by (rule table1_path [OF l])
  with leaf show ?thesis
    by (simp add: PagingUnmapPageIn_def Let_def entry_bits store_entry_def flip: entry_address_def)
qed

lemma PagingUnmapPageIn_effect:
  assumes H: "hierarchy m lv root" and small: "small_path m root va"
    and run: "PagingUnmapPageIn root va m = Inr (m', frame)"
  shows "walk (physical m) va 4 root = None \<Longrightarrow> m' = m \<and> frame = FRAME_ALLOCATION_FAILED"
    and "walk (physical m) va 4 root = Some (k, e) \<Longrightarrow>
      frame = entry_address e \<and> leaf_written m lv root va 0 (m'\<lparr>invalidated := invalidated m\<rparr>) \<and>
      invalidated m' = (if root = PagingActiveTable m then [va] else []) @ invalidated m"
proof -
  show "walk (physical m) va 4 root = None \<Longrightarrow> m' = m \<and> frame = FRAME_ALLOCATION_FAILED"
    using run PagingUnmapPageIn_None by simp
next
  assume w: "walk (physical m) va 4 root = Some (k, e)"
  then have w1: "walk (physical m) va 4 root = Some (1, e)"
    using small by (simp add: small_path_def)
  from w1 obtain l where l: "table1 (physical m) va 4 root = Some l"
    using walk_table1_root by fastforce
  define m0 where "m0 = store_entry l (PagingLevel1Index va) 0 m"
  have L: "leaf_written m lv root va 0 m0" unfolding m0_def by (rule store_leaf [OF H l])
  then have m0: "PagingActiveTable m0 = PagingActiveTable m" "invalidated m0 = invalidated m"
    by (simp_all add: leaf_written_def same_registers_def)
  have "m0\<lparr>invalidated := invalidated m\<rparr> = m0" using m0(2) by (cases m0) simp
  then have L': "leaf_written m lv root va 0 (m0\<lparr>invalidated := invalidated m\<rparr>)"
    using L by (rule ssubst)
  have eq: "PagingUnmapPageIn root va m =
     (if root = PagingActiveTable m
      then bind_outcome (PagingInvalidate va m0) (\<lambda>m'. Inr (m', entry_address e))
      else Inr (m0, entry_address e))"
    using PagingUnmapPageIn_Some [OF w1 l] by (simp add: Let_def m0_def)
  show "frame = entry_address e \<and>
      leaf_written m lv root va 0 (m'\<lparr>invalidated := invalidated m\<rparr>) \<and>
      invalidated m' = (if root = PagingActiveTable m then [va] else []) @ invalidated m"
  proof (cases "root = PagingActiveTable m")
    case True
    then have "frame = entry_address e \<and> m' = m0\<lparr>invalidated := va # invalidated m\<rparr>"
      using run [unfolded eq] m0 by (simp add: bind_outcome_Inr_iff PagingInvalidate_Inr)
    then show ?thesis using L' True m0 by simp
  next
    case False
    then have "frame = entry_address e \<and> m' = m0"
      using run [unfolded eq] by simp
    then show ?thesis using L False L' m0 by simp
  qed
qed

end
