(* ===== verification/PagingCow.thy ===== *)
theory PagingCow
  imports PagingMap
begin

text \<open>
  The copy-on-write primitives of \<open>kernel/arch/x86_64/mm/paging.c\<close>: marking a page, and
  resolving the fault a write to it raises.  A frame with one holder is made writable where
  it is; a shared one is copied into a frame the pool issues, and the reference to it given
  up.
\<close>

subsection \<open>The page of an address\<close>

lemma bit_AlignDown_page:
  "bit (AlignDown a PAGE_SIZE) n \<longleftrightarrow> bit a n \<and> 12 \<le> n" for a :: u64
proof -
  have "AlignDown a PAGE_SIZE = a AND NOT (mask 12)"
    by (simp add: AlignDown_def PAGE_SIZE_def mask_12)
  then show ?thesis by (auto simp: bit_simps dest: bit_imp_le_length)
qed

lemma page_index_bits:
  assumes "12 \<le> k"
  shows "drop_bit k (AlignDown a PAGE_SIZE) AND 0x1FF = drop_bit k a AND (0x1FF :: u64)"
  using assms by (intro bit_word_eqI) (auto simp: bit_and_iff bit_drop_bit_eq bit_AlignDown_page)

lemma same_page_AlignDown: "same_page (AlignDown a PAGE_SIZE) a"
  by (simp add: same_page_def level_index_def PagingLevel4Index_def PagingLevel3Index_def
      PagingLevel2Index_def PagingLevel1Index_def page_index_bits)

lemma same_page_commute: "same_page va va' \<longleftrightarrow> same_page va' va"
  by (auto simp: same_page_def)

lemma same_page_AlignDown_iff: "same_page (AlignDown a PAGE_SIZE) va \<longleftrightarrow> same_page a va"
  using same_page_AlignDown [of a] by (auto simp: same_page_def)

lemma PagingLevel1Index_AlignDown: "PagingLevel1Index (AlignDown a PAGE_SIZE) = PagingLevel1Index a"
  by (simp add: PagingLevel1Index_def page_index_bits)

lemma PagingLeafEntry_page:
  assumes "walk (physical m) va 4 (PagingActiveTable m) = Some (1, e)"
  obtains l where "PagingLeafEntry (AlignDown va PAGE_SIZE) m = Some (l, PagingLevel1Index va)"
    "table1 (physical m) va 4 (PagingActiveTable m) = Some l"
    "physical m l (PagingLevel1Index va) = e" "bit e 0"
proof -
  obtain l where l: "table1 (physical m) va 4 (PagingActiveTable m) = Some l"
    "physical m l (PagingLevel1Index va) = e" "bit e 0"
    using assms walk_table1_root by fastforce
  have "table1 (physical m) (AlignDown va PAGE_SIZE) 4 (PagingActiveTable m) = Some l"
    using table1_same_page [of va "AlignDown va PAGE_SIZE" 4] same_page_AlignDown l(1)
    by (simp add: same_page_commute)
  with l show thesis
    by (intro that [of l]) (simp_all add: PagingLeafEntry_table1 PagingLevel1Index_AlignDown)
qed

text \<open>The walk reads tables alone.\<close>

lemma walk_tables_only:
  assumes "tree mem lv root" "\<And>u. lv u \<noteq> 0 \<Longrightarrow> mem' u = mem u"
  shows "lv t = r \<Longrightarrow> walk mem' va r t = walk mem va r t \<and> table1 mem' va r t = table1 mem va r t"
proof (induction r arbitrary: t)
  case (Suc r)
  have same: "mem' t = mem t" using assms(2) Suc.prems by simp
  have "lv (entry_address (mem t (level_index (Suc r) va))) = r"
    if "r \<noteq> 0" "links (Suc r) (mem t (level_index (Suc r) va))"
    using tree_link [OF assms(1), of t "level_index (Suc r) va"] Suc.prems that by simp
  then show ?case using Suc.IH by (auto simp: same Let_def)
qed simp

subsection \<open>The entries written\<close>

definition owned_entry :: "u64 \<Rightarrow> u64" where
  "owned_entry e = (e AND NOT PAGE_ENTRY_COPY_ON_WRITE) OR PAGE_ENTRY_WRITABLE"

definition copied_entry :: "u64 \<Rightarrow> u64 \<Rightarrow> u64" where
  "copied_entry a e =
     a OR (e AND NOT PAGE_ENTRY_ADDRESS_MASK AND NOT PAGE_ENTRY_COPY_ON_WRITE) OR PAGE_ENTRY_WRITABLE"

lemma owned_entry_bits:
  "entry_address (owned_entry e) = entry_address e" "bit (owned_entry e) 1" "\<not> bit (owned_entry e) 9"
  "bit (owned_entry e) 0 = bit e 0" "bit (owned_entry e) 2 = bit e 2"
proof -
  show "entry_address (owned_entry e) = entry_address e"
    unfolding entry_address_def owned_entry_def
    by (rule bit_word_eqI) (auto simp: bit_simps entry_bits)
qed (simp_all add: owned_entry_def bit_and_iff bit_or_iff bit_not_iff entry_bits)

lemma copied_entry_bits:
  assumes "frame_valid a"
  shows "entry_address (copied_entry a e) = a" "bit (copied_entry a e) 1"
    "\<not> bit (copied_entry a e) 9" "bit (copied_entry a e) 0 = bit e 0"
    "bit (copied_entry a e) 2 = bit e 2"
proof -
  show "entry_address (copied_entry a e) = a"
    unfolding entry_address_def copied_entry_def
    by (rule bit_word_eqI)
      (use frame_address_bits [OF assms] in \<open>auto simp: bit_simps entry_bits\<close>)
qed (use frame_address_bits [OF assms, of 9] frame_address_bits [OF assms, of 0]
      frame_address_bits [OF assms, of 2] in
    \<open>auto simp: copied_entry_def bit_and_iff bit_or_iff bit_not_iff entry_bits\<close>)

subsection \<open>Resolving the fault\<close>

text \<open>
  What a resolved fault establishes: the page's leaf is \<open>e'\<close>, every other page is as it
  was, the hierarchy stands, and the invalidation of the page has been announced.
\<close>

definition resolved :: "paging_state \<Rightarrow> (u64 \<Rightarrow> nat) \<Rightarrow> u64 \<Rightarrow> u64 \<Rightarrow> paging_state \<Rightarrow> bool" where
  "resolved m lv va e' m' \<longleftrightarrow>
     hierarchy m' lv (PagingActiveTable m) \<and> PagingActiveTable m' = PagingActiveTable m \<and>
     (\<forall>va'. walk (physical m') va' 4 (PagingActiveTable m) =
        (if same_page va va' then Some (1, e') else walk (physical m) va' 4 (PagingActiveTable m))) \<and>
     bit e' 1 \<and> \<not> bit e' 9 \<and>
     invalidated m' = AlignDown va PAGE_SIZE # invalidated m"

lemma resolve_sole_owner:
  assumes H: "hierarchy m lv (PagingActiveTable m)"
    and w: "walk (physical m) va 4 (PagingActiveTable m) = Some (1, e)"
    and e: "bit e 9" "\<not> bit e 1" and sole: "frame_refs (frames m) (FrameIndexOf (entry_address e)) \<le> 1"
    and ack: "shootdown_acknowledged m (AlignDown va PAGE_SIZE)"
  obtains m' where "PagingResolveCopyOnWriteFault va m = Inr (m', True)"
    "resolved m lv va (owned_entry e) m'" "frames m' = frames m"
    "\<And>a. lv a \<noteq> 1 \<Longrightarrow> physical m' a = physical m a"
proof -
  obtain l where leaf: "PagingLeafEntry (AlignDown va PAGE_SIZE) m = Some (l, PagingLevel1Index va)"
    and l: "table1 (physical m) va 4 (PagingActiveTable m) = Some l"
    and el: "physical m l (PagingLevel1Index va) = e" "bit e 0"
    by (rule PagingLeafEntry_page [OF w])
  define m0 where "m0 = store_entry l (PagingLevel1Index va) (owned_entry e) m"
  have L: "leaf_written m lv (PagingActiveTable m) va (owned_entry e) m0"
    unfolding m0_def by (rule store_leaf [OF H l])
  have "FrameReferenceCount (entry_address e) (frames m) \<le> 1"
    using sole by (simp add: word_le_nat_alt FrameReferenceCount_refs)
  then obtain m' where run: "PagingResolveCopyOnWriteFault va m = Inr (m', True)"
    and "frames m' = frames m0" "physical m' = physical m0"
    "PagingActiveTable m' = PagingActiveTable m0"
    "invalidated m' = AlignDown va PAGE_SIZE # invalidated m"
    using e el ack by (auto simp: PagingResolveCopyOnWriteFault_def leaf Let_def entry_bits
        PagingInvalidate_def PagingInvalidateHere_def store_entry_def m0_def owned_entry_def
        simp flip: entry_address_def)
  then show thesis
    using L owned_entry_bits [of e] el
    by (intro that [OF run]) (auto simp: resolved_def leaf_written_def hierarchy_def tables_held_def
        same_registers_def)
qed

lemma resolve_shared:
  assumes H: "hierarchy m lv (PagingActiveTable m)"
    and w: "walk (physical m) va 4 (PagingActiveTable m) = Some (1, e)"
    and e: "bit e 9" "\<not> bit e 1" and D: "data_frame m lv (entry_address e)"
    and shared: "1 < frame_refs (frames m) (FrameIndexOf (entry_address e))"
    and ack: "shootdown_acknowledged m (AlignDown va PAGE_SIZE)"
    and room: "snd (FrameAllocate (frames m)) \<noteq> FRAME_ALLOCATION_FAILED"
  obtains m' new where "PagingResolveCopyOnWriteFault va m = Inr (m', True)" "frame_valid new" "frame_refs (frames m) (FrameIndexOf new) = 0" "lv new = 0"
    "resolved m lv va (copied_entry new e) m'"
    "\<And>i. i < 512 \<Longrightarrow> physical m' new i = physical m (entry_address e) i"
    "\<And>a. lv a \<noteq> 1 \<Longrightarrow> a \<noteq> new \<Longrightarrow> physical m' a = physical m a"
    "frame_refs (frames m') = (frame_refs (frames m))
       (FrameIndexOf new := 1,
        FrameIndexOf (entry_address e) := frame_refs (frames m) (FrameIndexOf (entry_address e)) - 1)"
proof -
  let ?root = "PagingActiveTable m" and ?old = "entry_address e" and ?i = "PagingLevel1Index va"
    and ?page = "AlignDown va PAGE_SIZE"
  obtain l where leaf: "PagingLeafEntry ?page m = Some (l, ?i)"
    and l: "table1 (physical m) va 4 ?root = Some l" and el: "physical m l ?i = e" "bit e 0"
    by (rule PagingLeafEntry_page [OF w])
  have ready: "pool_ready (frames m)" and T: "tree (physical m) lv ?root"
    and held: "tables_held m lv"
    using H by (simp_all add: hierarchy_def)
  have l1: "lv l = 1" by (rule table1_level [OF T tree_root [OF T] l])
  have notsole: "\<not> FrameReferenceCount ?old (frames m) \<le> 1"
    using shared by (simp add: word_le_nat_alt FrameReferenceCount_refs)
  obtain pool new where alloc: "FrameAllocate (frames m) = (pool, new)" by (meson surj_pair)
  have got: "new \<noteq> FRAME_ALLOCATION_FAILED" using room alloc by simp
  from pmm.issued [OF ready alloc [unfolded FrameAllocate_def] got]
  have new: "pool_ready pool" "frame_valid new" "frame_refs (frames m) (FrameIndexOf new) = 0"
    "frame_refs pool = (frame_refs (frames m))(FrameIndexOf new := 1)" by simp_all
  have lvnew: "lv new = 0" using held new(3) by (metis less_irrefl tables_held_def)
  have neq: "new \<noteq> l" "FrameIndexOf new \<noteq> FrameIndexOf ?old" "new \<noteq> ?old"
    using lvnew l1 new(3) shared by auto
  define mc where "mc = PagingCopyFrame new ?old (m\<lparr>frames := pool\<rparr>)"
  have memc: "physical mc u = physical m u" if "u \<noteq> new" for u
    using that by (simp add: mc_def PagingCopyFrame_def)
  have copied: "physical mc new i = physical m ?old i" if "i < 512" for i
    using that by (simp add: mc_def PagingCopyFrame_def)
  have tabs: "physical mc u = physical m u" if "lv u \<noteq> 0" for u
    using that lvnew memc by metis
  have Tc: "tree (physical mc) lv ?root"
    using T tabs unfolding tree_def by (metis not_numeral_le_zero)
  have Hc: "hierarchy mc lv ?root"
    using Tc held new(1,3) unfolding hierarchy_def tables_held_def
    by (auto simp: mc_def PagingCopyFrame_def new(4))
  have walks: "walk (physical mc) va' 4 ?root = walk (physical m) va' 4 ?root
      \<and> table1 (physical mc) va' 4 ?root = table1 (physical m) va' 4 ?root" for va'
    by (rule walk_tables_only [OF T tabs tree_root [OF T]])
  define m0 where "m0 = store_entry l ?i (copied_entry new e) mc"
  have L: "leaf_written mc lv ?root va (copied_entry new e) m0"
    unfolding m0_def using store_leaf [OF Hc] walks l by simp
  have refs_old: "0 < frame_refs pool (FrameIndexOf ?old)" using new(4) neq(2) shared by simp
  have v_old: "frame_valid ?old" using D by (simp add: data_frame_def)
  obtain pool' where free: "FrameFree ?old pool = Inr pool'" and ready': "pool_ready pool'"
    and refs': "frame_refs pool' = (frame_refs pool)(FrameIndexOf ?old :=
        frame_refs pool (FrameIndexOf ?old) - 1)"
    using pmm.released [OF new(1) v_old refs_old] by blast
  obtain m' where run: "PagingResolveCopyOnWriteFault va m = Inr (m', True)"
    and fields: "frames m' = pool'" "physical m' = physical m0" "PagingActiveTable m' = ?root"
    "invalidated m' = ?page # invalidated m"
    using e el notsole alloc got free neq(1) ack
    by (auto simp: PagingResolveCopyOnWriteFault_def leaf Let_def entry_bits
        PagingInvalidate_def PagingInvalidateHere_def store_entry_def m0_def mc_def copied_entry_def
        PagingCopyFrame_def and.assoc or.assoc simp flip: entry_address_def
        cong: if_cong)
  show thesis
  proof (rule that [OF run new(2,3) lvnew])
    have pos: "0 < frame_refs pool' (FrameIndexOf t)" if "lv t \<noteq> 0" for t
    proof -
      have t: "frame_valid t" "0 < frame_refs (frames m) (FrameIndexOf t)"
        using held that by (simp_all add: tables_held_def)
      have "t \<noteq> ?old" using that D by (auto simp: data_frame_def)
      then have "FrameIndexOf t \<noteq> FrameIndexOf ?old" using frame_valid_eq [OF t(1) v_old] by blast
      then show ?thesis using t new(3,4) by (auto simp: refs')
    qed
    have "hierarchy m' lv ?root"
      using L pos ready' held by (simp add: hierarchy_def leaf_written_def fields tables_held_def)
    then show "resolved m lv va (copied_entry new e) m'"
      using L walks copied_entry_bits [OF new(2), of e] el
      by (auto simp: resolved_def fields leaf_written_def)
    show "physical m' new i = physical m ?old i" if "i < 512" for i
      using L copied [OF that] lvnew by (simp add: fields leaf_written_def)
    show "physical m' a = physical m a" if "lv a \<noteq> 1" "a \<noteq> new" for a
      using L memc [OF that(2)] that by (simp add: fields leaf_written_def)
    show "frame_refs (frames m') = (frame_refs (frames m)) (FrameIndexOf new := 1,
        FrameIndexOf ?old := frame_refs (frames m) (FrameIndexOf ?old) - 1)"
      using neq(2) by (simp add: fields refs' new(4))
  qed
qed

text \<open>Where no frame is left the fault is not resolved, and only its count has moved.\<close>

lemma resolve_exhausted:
  assumes H: "hierarchy m lv (PagingActiveTable m)"
    and w: "walk (physical m) va 4 (PagingActiveTable m) = Some (1, e)"
    and e: "bit e 9" "\<not> bit e 1"
    and shared: "1 < frame_refs (frames m) (FrameIndexOf (entry_address e))"
    and none: "snd (FrameAllocate (frames m)) = FRAME_ALLOCATION_FAILED"
  shows "PagingResolveCopyOnWriteFault va m =
    Inr (m\<lparr>PagingCopyOnWriteFaults := PagingCopyOnWriteFaults m + 1\<rparr>, False)"
proof -
  obtain l where leaf: "PagingLeafEntry (AlignDown va PAGE_SIZE) m = Some (l, PagingLevel1Index va)"
    and el: "physical m l (PagingLevel1Index va) = e" "bit e 0"
    by (rule PagingLeafEntry_page [OF w])
  have notsole: "\<not> FrameReferenceCount (entry_address e) (frames m) \<le> 1"
    using shared by (simp add: word_le_nat_alt FrameReferenceCount_refs)
  have ready: "pool_ready (frames m)" using H by (simp add: hierarchy_def)
  obtain pool where alloc: "FrameAllocate (frames m) = (pool, FRAME_ALLOCATION_FAILED)"
    using none by (metis prod.collapse)
  have "pool = frames m" using pmm.exhausted [OF ready alloc [unfolded FrameAllocate_def]] .
  then show ?thesis
    using e el notsole alloc
    by (auto simp: PagingResolveCopyOnWriteFault_def leaf Let_def entry_bits
        simp flip: entry_address_def)
qed

subsection \<open>Marking a page\<close>

definition marked_entry :: "u64 \<Rightarrow> u64" where
  "marked_entry e = (e AND NOT PAGE_ENTRY_WRITABLE) OR PAGE_ENTRY_COPY_ON_WRITE"

lemma marked_entry_bits:
  "entry_address (marked_entry e) = entry_address e" "\<not> bit (marked_entry e) 1"
  "bit (marked_entry e) 9" "bit (marked_entry e) 0 = bit e 0" "bit (marked_entry e) 2 = bit e 2"
proof -
  show "entry_address (marked_entry e) = entry_address e"
    unfolding entry_address_def marked_entry_def
    by (rule bit_word_eqI) (auto simp: bit_simps entry_bits)
qed (simp_all add: marked_entry_def bit_and_iff bit_or_iff bit_not_iff entry_bits)

lemma mark_effect:
  assumes H: "hierarchy m lv (PagingActiveTable m)"
    and w: "walk (physical m) va 4 (PagingActiveTable m) = Some (1, e)"
    and ack: "shootdown_acknowledged m (AlignDown va PAGE_SIZE)"
  obtains m' where "PagingMarkCopyOnWrite va m = Inr (m', True)"
    "leaf_written m lv (PagingActiveTable m) va (marked_entry e) (m'\<lparr>invalidated := invalidated m\<rparr>)"
    "invalidated m' = AlignDown va PAGE_SIZE # invalidated m"
proof -
  obtain l where leaf: "PagingLeafEntry (AlignDown va PAGE_SIZE) m = Some (l, PagingLevel1Index va)"
    and l: "table1 (physical m) va 4 (PagingActiveTable m) = Some l"
    and el: "physical m l (PagingLevel1Index va) = e" "bit e 0"
    by (rule PagingLeafEntry_page [OF w])
  define m0 where "m0 = store_entry l (PagingLevel1Index va) (marked_entry e) m"
  have L: "leaf_written m lv (PagingActiveTable m) va (marked_entry e) m0"
    unfolding m0_def by (rule store_leaf [OF H l])
  have run: "PagingMarkCopyOnWrite va m =
      Inr (m0\<lparr>invalidated := AlignDown va PAGE_SIZE # invalidated m\<rparr>, True)"
    using el ack by (auto simp: PagingMarkCopyOnWrite_def leaf Let_def entry_bits PagingInvalidate_def
        PagingInvalidateHere_def store_entry_def m0_def marked_entry_def)
  have "m0\<lparr>invalidated := invalidated m\<rparr> = m0" by (simp add: m0_def store_entry_def)
  then have L': "leaf_written m lv (PagingActiveTable m) va (marked_entry e)
      (m0\<lparr>invalidated := AlignDown va PAGE_SIZE # invalidated m, invalidated := invalidated m\<rparr>)"
    using L by simp
  show thesis by (rule that [OF run L']) simp
qed

text \<open>The permission walk ends at the leaf, so the leaf's bit is needed.\<close>

lemma PagingAddressPermits_leaf:
  assumes "walk (physical m) va 4 (PagingActiveTable m) = Some (1, e)"
    and "PagingAddressPermits va p m"
  shows "e AND p \<noteq> 0"
proof -
  obtain l where l: "table1 (physical m) va 4 (PagingActiveTable m) = Some l"
    "physical m l (PagingLevel1Index va) = e" "bit e 0"
    using assms(1) walk_table1_root by fastforce
  obtain e4 e3 e2 where "physical m (PagingActiveTable m) (PagingLevel4Index va) = e4" "bit e4 0"
    "physical m (entry_address e4) (PagingLevel3Index va) = e3" "bit e3 0" "\<not> bit e3 7"
    "physical m (entry_address e3) (PagingLevel2Index va) = e2" "bit e2 0" "\<not> bit e2 7"
    "l = entry_address e2"
    by (rule table1_path [OF l(1)])
  then have "p AND e4 AND e3 AND e2 AND e AND p \<noteq> 0"
    using assms(2) l by (simp add: PagingAddressPermits_def Let_def entry_bits and.assoc
        flip: entry_address_def)
  then show ?thesis by (metis and.assoc and.left_commute and_zero_eq zero_and_eq)
qed

end
