(* ===== verification/KernelArena.thy ===== *)
theory KernelArena
  imports PagingCow
begin

text \<open>
  The kernel virtual address allocator of \<open>kernel/mm/vmm.c\<close>: a bump pointer with a bounded,
  sorted and coalesced list of released ranges, the pages it backs with frames, and the
  mappings of device memory.  The live entries of the array \<open>ArenaFreeList\<close> are the list,
  so \<open>ArenaFreeListCount\<close> is its length; the shifting loops of the source are the removal
  and the insertion of one element.
\<close>

subsection \<open>The state\<close>

definition KERNEL_ARENA_BASE :: u64 where "KERNEL_ARENA_BASE = 0xFFFFC00000000000"
definition KERNEL_ARENA_SIZE :: u64 where "KERNEL_ARENA_SIZE = 0x0000200000000000"
definition ARENA_FREE_LIST_CAPACITY :: nat where "ARENA_FREE_LIST_CAPACITY = 128"
definition ARENA_PAGE_CAPACITY :: u64 where
  "ARENA_PAGE_CAPACITY = word_of_nat (unat KERNEL_ARENA_SIZE div unat PAGE_SIZE)"

record ArenaFreeRange =
  range_base :: u64
  range_pages :: u64

record arena_state =
  ArenaFreeList :: "ArenaFreeRange list"
  ArenaBumpPointer :: u64
  ArenaPagesInUse :: u64
  ArenaDevicePagesInUse :: u64
  ArenaPagesHighWaterMark :: u64
  ArenaRangesForfeited :: u64
  paging :: paging_state

definition KernelVirtualInitialise :: "arena_state \<Rightarrow> arena_state" where
  "KernelVirtualInitialise st =
     st\<lparr>ArenaBumpPointer := KERNEL_ARENA_BASE, ArenaFreeList := [], ArenaPagesInUse := 0,
        ArenaDevicePagesInUse := 0, ArenaPagesHighWaterMark := 0, ArenaRangesForfeited := 0\<rparr>"

subsection \<open>The free list\<close>

definition range_end :: "ArenaFreeRange \<Rightarrow> u64" where
  "range_end r = range_base r + range_pages r * PAGE_SIZE"

definition ArenaFreeListInsert :: "u64 \<Rightarrow> u64 \<Rightarrow> arena_state \<Rightarrow> arena_state" where
  "ArenaFreeListInsert start page_count st =
     (let ranges = ArenaFreeList st;
          position = length (takeWhile (\<lambda>r. range_base r < start) ranges);
          previous = ranges ! (position - 1);
          following = ranges ! position
      in if 0 < position \<and> range_end previous = start
         then
           let previous = previous\<lparr>range_pages := range_pages previous + page_count\<rparr>
           in if position < length ranges \<and> range_end previous = range_base following
              then st\<lparr>ArenaFreeList := take (position - 1) ranges @
                     previous\<lparr>range_pages := range_pages previous + range_pages following\<rparr>
                     # drop (position + 1) ranges\<rparr>
              else st\<lparr>ArenaFreeList := ranges[position - 1 := previous]\<rparr>
         else if position < length ranges \<and> start + page_count * PAGE_SIZE = range_base following
         then st\<lparr>ArenaFreeList := ranges[position :=
                \<lparr>range_base = start, range_pages = range_pages following + page_count\<rparr>]\<rparr>
         else if ARENA_FREE_LIST_CAPACITY \<le> length ranges
         then st\<lparr>ArenaRangesForfeited := ArenaRangesForfeited st + 1\<rparr>
         else st\<lparr>ArenaFreeList := take position ranges @
                \<lparr>range_base = start, range_pages = page_count\<rparr> # drop position ranges\<rparr>)"

text \<open>The first range large enough, and the list without what is taken from it.\<close>

fun take_first_fit :: "u64 \<Rightarrow> ArenaFreeRange list \<Rightarrow> (u64 \<times> ArenaFreeRange list) option" where
  "take_first_fit page_count [] = None"
| "take_first_fit page_count (r # ranges) =
     (if page_count \<le> range_pages r
      then if range_pages r = page_count then Some (range_base r, ranges)
           else Some (range_base r,
                  r\<lparr>range_base := range_base r + page_count * PAGE_SIZE,
                    range_pages := range_pages r - page_count\<rparr> # ranges)
      else case take_first_fit page_count ranges of
             None \<Rightarrow> None
           | Some (start, rest) \<Rightarrow> Some (start, r # rest))"

definition ArenaFreeListTake :: "u64 \<Rightarrow> arena_state \<Rightarrow> arena_state \<times> u64" where
  "ArenaFreeListTake page_count st =
     (case take_first_fit page_count (ArenaFreeList st) of
        None \<Rightarrow> (st, 0)
      | Some (start, ranges) \<Rightarrow> (st\<lparr>ArenaFreeList := ranges\<rparr>, start))"

text \<open>
  The free list first, the bump pointer where it has nothing: the step
  \<open>KernelPagesAllocate\<close> and \<open>KernelDeviceMap\<close> share.  \<open>None\<close> is their return of NULL
  where the arena has no such range.
\<close>

definition ArenaReserve :: "u64 \<Rightarrow> arena_state \<Rightarrow> arena_state \<times> u64 option" where
  "ArenaReserve page_count st =
     (let (st, start) = ArenaFreeListTake page_count st
      in if start = 0
         then if KERNEL_ARENA_BASE + KERNEL_ARENA_SIZE < ArenaBumpPointer st + page_count * PAGE_SIZE
              then (st, None)
              else (st\<lparr>ArenaBumpPointer := ArenaBumpPointer st + page_count * PAGE_SIZE\<rparr>,
                    Some (ArenaBumpPointer st))
         else (st, Some start))"

subsection \<open>Pages backed by frames\<close>

definition arena_page :: "u64 \<Rightarrow> nat \<Rightarrow> u64" where
  "arena_page start index = start + word_of_nat index * PAGE_SIZE"

definition on_paging :: "(paging_state \<Rightarrow> paging_state outcome) \<Rightarrow> arena_state \<Rightarrow> arena_state outcome" where
  "on_paging f st = bind_outcome (f (paging st)) (\<lambda>m. Inr (st\<lparr>paging := m\<rparr>))"

definition on_frames :: "(frame_state \<Rightarrow> frame_state outcome) \<Rightarrow> paging_state \<Rightarrow> paging_state outcome" where
  "on_frames f m = bind_outcome (f (frames m)) (\<lambda>pool. Inr (m\<lparr>frames := pool\<rparr>))"

text \<open>The unwinding of the pages mapped so far.\<close>

definition UndoPage :: "u64 \<Rightarrow> nat \<Rightarrow> paging_state \<Rightarrow> paging_state outcome" where
  "UndoPage start undo m =
     (let page = arena_page start undo;
          mapped_frame = PagingTranslate page m
      in bind_outcome (PagingUnmapKernelPage page m) (on_frames (FrameFree mapped_frame)))"

text \<open>
  The loop that backs the pages: \<open>mapped_count\<close> is also its index, since both count the
  iterations done.  The boolean tells whether every page was backed.
\<close>

fun BackPages :: "u64 \<Rightarrow> nat \<Rightarrow> nat \<Rightarrow> paging_state \<Rightarrow> (paging_state \<times> bool) outcome" where
  "BackPages start 0 mapped_count m = Inr (m, True)"
| "BackPages start (Suc remaining) mapped_count m =
     (let (pool, frame) = FrameAllocate (frames m);
          m = m\<lparr>frames := pool\<rparr>
      in if frame = FRAME_ALLOCATION_FAILED
         then bind_outcome (fold_outcome (UndoPage start) [0..<mapped_count] m)
                (\<lambda>m. Inr (m, False))
         else bind_outcome
                (PagingMapKernelPage (arena_page start mapped_count) frame PAGE_ENTRY_WRITABLE m)
                (BackPages start remaining (mapped_count + 1)))"

definition KernelPagesAllocate :: "u64 \<Rightarrow> arena_state \<Rightarrow> (arena_state \<times> u64) outcome" where
  "KernelPagesAllocate page_count st =
     (if page_count = 0 then Inr (st, 0)
      else if ARENA_PAGE_CAPACITY < page_count then Inr (st, 0)
      else
        case ArenaReserve page_count st of
          (st, None) \<Rightarrow> Inr (st, 0)
        | (st, Some start) \<Rightarrow>
            bind_outcome (BackPages start (unat page_count) 0 (paging st)) (\<lambda>(m, backed).
             let st = st\<lparr>paging := m\<rparr>
             in if \<not> backed then Inr (ArenaFreeListInsert start page_count st, 0)
                else
                  let in_use = ArenaPagesInUse st + page_count;
                      st = st\<lparr>ArenaPagesInUse := in_use\<rparr>;
                      st = (if ArenaPagesHighWaterMark st < in_use
                            then st\<lparr>ArenaPagesHighWaterMark := in_use\<rparr> else st)
                  in Inr (st, start)))"

definition FreePage :: "u64 \<Rightarrow> nat \<Rightarrow> paging_state \<Rightarrow> paging_state outcome" where
  "FreePage start index m =
     (let page = arena_page start index;
          frame = PagingTranslate page m
      in if frame = 0 then KernelPanic ''An unmapped page was passed to KernelPagesFree.''
         else bind_outcome (PagingUnmapKernelPage page m) (on_frames (FrameFree frame)))"

definition KernelPagesFree :: "u64 \<Rightarrow> u64 \<Rightarrow> arena_state \<Rightarrow> arena_state outcome" where
  "KernelPagesFree address page_count st =
     (if address = 0 \<or> page_count = 0 then Inr st
      else if address < KERNEL_ARENA_BASE \<or> KERNEL_ARENA_BASE + KERNEL_ARENA_SIZE \<le> address
      then KernelPanic ''An address outside the kernel arena was passed to KernelPagesFree.''
      else if (KERNEL_ARENA_BASE + KERNEL_ARENA_SIZE - address) div PAGE_SIZE < page_count
      then KernelPanic ''A range extending beyond the kernel arena was passed to KernelPagesFree.''
      else if \<not> IsPageAligned address
      then KernelPanic ''A misaligned address was passed to KernelPagesFree.''
      else bind_outcome
             (on_paging (fold_outcome (FreePage address) [0..<unat page_count]) st)
             (\<lambda>st. Inr (ArenaFreeListInsert address page_count
                (st\<lparr>ArenaPagesInUse := ArenaPagesInUse st - page_count\<rparr>))))"

subsection \<open>Device memory\<close>

definition KernelDeviceMap ::
  "u64 \<Rightarrow> u64 \<Rightarrow> u64 \<Rightarrow> arena_state \<Rightarrow> (arena_state \<times> u64) outcome" where
  "KernelDeviceMap physical_address byte_length flags st =
     (let page_offset = physical_address mod PAGE_SIZE
      in if byte_length = 0 then Inr (st, 0)
         else if KERNEL_ARENA_SIZE - PAGE_SIZE < byte_length then Inr (st, 0)
         else
           let first_page = physical_address - page_offset;
               span = byte_length + page_offset;
               page_count = (span + (PAGE_SIZE - 1)) div PAGE_SIZE
           in if page_count = 0 \<or> ARENA_PAGE_CAPACITY < page_count then Inr (st, 0)
              else
                case ArenaReserve page_count st of
                  (st, None) \<Rightarrow> Inr (st, 0)
                | (st, Some start) \<Rightarrow>
                    bind_outcome
                     (on_paging (fold_outcome
                        (\<lambda>index. PagingMapKernelPage (arena_page start index)
                                   (arena_page first_page index) flags)
                        [0..<unat page_count]) st)
                     (\<lambda>st. Inr (st\<lparr>ArenaDevicePagesInUse := ArenaDevicePagesInUse st + page_count\<rparr>,
                               start + page_offset)))"

definition KernelDeviceUnmap :: "u64 \<Rightarrow> u64 \<Rightarrow> arena_state \<Rightarrow> arena_state outcome" where
  "KernelDeviceUnmap supplied byte_length st =
     (let page_offset = supplied mod PAGE_SIZE;
          start = supplied - page_offset
      in if supplied = 0 \<or> byte_length = 0 then Inr st
         else
           let page_count = (byte_length + page_offset + (PAGE_SIZE - 1)) div PAGE_SIZE
           in bind_outcome
                (on_paging (fold_outcome (\<lambda>index. PagingUnmapKernelPage (arena_page start index))
                   [0..<unat page_count]) st)
                (\<lambda>st. let st = ArenaFreeListInsert start page_count st
                      in Inr (st\<lparr>ArenaDevicePagesInUse := ArenaDevicePagesInUse st - page_count\<rparr>)))"

subsection \<open>The invariant of the free list\<close>

text \<open>
  Ranges as intervals of natural numbers: each is not empty, ascends strictly past the one
  before it with a gap between (no two could be coalesced), and ends at or below a limit.
\<close>

definition range_start :: "ArenaFreeRange \<Rightarrow> nat" where
  "range_start r = unat (range_base r)"

definition range_stop :: "ArenaFreeRange \<Rightarrow> nat" where
  "range_stop r = unat (range_base r) + unat (range_pages r) * 4096"

fun spaced :: "nat \<Rightarrow> ArenaFreeRange list \<Rightarrow> nat \<Rightarrow> bool" where
  "spaced low [] high = True"
| "spaced low (r # ranges) high \<longleftrightarrow>
     low < range_start r \<and> range_pages r \<noteq> 0 \<and> range_stop r \<le> high \<and> IsPageAligned (range_base r) \<and>
     spaced (range_stop r) ranges high"

definition range_bytes :: "ArenaFreeRange list \<Rightarrow> nat set" where
  "range_bytes ranges = (\<Union>r\<in>set ranges. {range_start r..<range_stop r})"

lemma range_bytes_simps [simp]:
  "range_bytes [] = {}"
  "range_bytes (r # ranges) = {range_start r..<range_stop r} \<union> range_bytes ranges"
  "range_bytes (xs @ ys) = range_bytes xs \<union> range_bytes ys"
  by (auto simp: range_bytes_def)

lemma range_start_less_stop: "range_pages r \<noteq> 0 \<Longrightarrow> range_start r < range_stop r"
  by (simp add: range_start_def range_stop_def unat_gt_0)

fun last_stop :: "nat \<Rightarrow> ArenaFreeRange list \<Rightarrow> nat" where
  "last_stop low [] = low"
| "last_stop low (r # ranges) = last_stop (range_stop r) ranges"

lemma last_stop_append [simp]: "last_stop low (xs @ ys) = last_stop (last_stop low xs) ys"
  by (induction xs arbitrary: low) simp_all

lemma spaced_append [simp]:
  "spaced low (xs @ ys) high \<longleftrightarrow> spaced low xs high \<and> spaced (last_stop low xs) ys high"
  by (induction xs arbitrary: low) auto

lemma spaced_mono: "spaced low rs high \<Longrightarrow> low' \<le> low \<Longrightarrow> spaced low' rs high"
  by (cases rs) auto

lemma spaced_high: "spaced low rs high \<Longrightarrow> high \<le> high' \<Longrightarrow> spaced low rs high'"
  by (induction rs arbitrary: low) auto

lemma range_bytesI: "r \<in> set rs \<Longrightarrow> range_start r \<le> b \<Longrightarrow> b < range_stop r \<Longrightarrow> b \<in> range_bytes rs"
  by (auto simp: range_bytes_def)

lemma spaced_above: "spaced low rs high \<Longrightarrow> b \<in> range_bytes rs \<Longrightarrow> low < b \<and> b < high"
proof (induction rs arbitrary: low)
  case (Cons r rs)
  have "range_start r < range_stop r" using Cons.prems by (intro range_start_less_stop) simp
  then show ?case using Cons.IH [of "range_stop r"] Cons.prems by fastforce
qed simp

lemma spaced_last_stop: "spaced low rs high \<Longrightarrow> rs \<noteq> [] \<Longrightarrow> last_stop low rs \<le> high"
  by (induction rs arbitrary: low) (auto split: list.splits, metis last_stop.simps(1))

lemma spaced_member:
  "spaced low rs high \<Longrightarrow> r \<in> set rs \<Longrightarrow>
     low < range_start r \<and> range_start r < range_stop r \<and> range_stop r \<le> high \<and> IsPageAligned (range_base r)"
proof (induction rs arbitrary: low)
  case (Cons a rs)
  have "range_start a < range_stop a" using Cons.prems by (intro range_start_less_stop) simp
  then show ?case using Cons.IH [of "range_stop a"] Cons.prems by fastforce
qed simp

subsection \<open>Inserting a range\<close>

lemma unat_range_end: "range_stop r < 2 ^ 64 \<Longrightarrow> unat (range_end r) = range_stop r"
  unfolding range_end_def range_stop_def PAGE_SIZE_def
  by (subst unat_add_lem [THEN iffD1]; subst unat_mult_lem [THEN iffD1]) simp_all

lemma range_stop_grown:
  assumes "range_stop p + unat n * 4096 < 2 ^ 64"
  shows "range_stop (p\<lparr>range_pages := range_pages p + n\<rparr>) = range_stop p + unat n * 4096"
proof -
  have "unat (range_pages p) + unat n < 2 ^ 64" using assms by (simp add: range_stop_def)
  then have "unat (range_pages p + n) = unat (range_pages p) + unat n"
    by (subst unat_add_lem [THEN iffD1]) simp_all
  then show ?thesis by (simp add: range_stop_def)
qed

lemma range_start_grown [simp]: "range_start (p\<lparr>range_pages := n\<rparr>) = range_start p"
  by (simp add: range_start_def)

lemma grown_not_empty:
  assumes "range_stop p + unat n * 4096 < 2 ^ 64" "range_pages p \<noteq> 0"
  shows "range_pages p + n \<noteq> 0"
proof
  assume "range_pages p + n = 0"
  then have "range_stop (p\<lparr>range_pages := range_pages p + n\<rparr>) = unat (range_base p)"
    by (simp add: range_stop_def)
  moreover have "unat (range_base p) < range_stop p"
    using assms(2) range_start_less_stop [of p] by (simp add: range_start_def)
  ultimately show False using range_stop_grown [OF assms(1)] by simp
qed

definition arena_interval :: "u64 \<Rightarrow> u64 \<Rightarrow> nat set" where
  "arena_interval start n = {unat start..<unat start + unat n * 4096}"

text \<open>The place of a range among the others.\<close>

lemma insert_position:
  assumes sp: "spaced low rs high" and n: "n \<noteq> 0" and low: "low < unat start"
    and dis: "arena_interval start n \<inter> range_bytes rs = {}"
  obtains xs ys where "rs = xs @ ys" "takeWhile (\<lambda>r. range_base r < start) rs = xs"
    "xs = [] \<and> low < unat start \<or> (\<exists>xs' p. xs = xs' @ [p] \<and> range_stop p \<le> unat start)"
    "ys = [] \<or> (\<exists>q ys'. ys = q # ys' \<and> unat start + unat n * 4096 \<le> range_start q)"
proof -
  let ?P = "\<lambda>r. range_base r < start"
  define xs ys where "xs = takeWhile ?P rs" and "ys = dropWhile ?P rs"
  have rs: "rs = xs @ ys" by (simp add: xs_def ys_def)
  have mine: "unat start \<in> arena_interval start n"
    using n by (simp add: arena_interval_def unat_gt_0)
  have left: "xs = [] \<or> (\<exists>xs' p. xs = xs' @ [p] \<and> range_stop p \<le> unat start)"
  proof (cases xs rule: rev_cases)
    case (snoc xs' p)
    then have p: "p \<in> set xs" "p \<in> set rs" using rs by auto
    then have "range_base p < start" unfolding xs_def by (blast dest: set_takeWhileD)
    then have "unat (range_base p) < unat start" by (simp add: word_less_nat_alt)
    moreover have "\<not> (range_start p \<le> unat start \<and> unat start < range_stop p)"
      using dis mine p(2) by (blast intro: range_bytesI)
    ultimately show ?thesis using snoc by (auto simp: range_start_def)
  qed simp
  have right: "ys = [] \<or> (\<exists>q ys'. ys = q # ys' \<and> unat start + unat n * 4096 \<le> range_start q)"
  proof (cases ys)
    case (Cons q ys')
    then have "\<not> range_base q < start" using hd_dropWhile [of ?P rs] by (simp add: ys_def)
    then have le: "unat start \<le> range_start q" by (simp add: range_start_def word_less_nat_alt)
    have "q \<in> set rs" using rs Cons by simp
    then have "range_start q \<in> range_bytes rs" using spaced_member [OF sp] by (force simp: range_bytes_def)
    then have "range_start q \<notin> arena_interval start n" using dis by blast
    then show ?thesis using le Cons by (auto simp: arena_interval_def)
  qed simp
  show thesis by (rule that [OF rs _ _ right]) (use left low in \<open>auto simp: xs_def\<close>)
qed

definition arena_inserted :: "arena_state \<Rightarrow> u64 \<Rightarrow> u64 \<Rightarrow> nat \<Rightarrow> nat \<Rightarrow> arena_state \<Rightarrow> bool" where
  "arena_inserted st start n low high st' \<longleftrightarrow>
     spaced low (ArenaFreeList st') high \<and> length (ArenaFreeList st') \<le> ARENA_FREE_LIST_CAPACITY \<and>
     (range_bytes (ArenaFreeList st') = range_bytes (ArenaFreeList st) \<union> arena_interval start n \<and>
        st' = st\<lparr>ArenaFreeList := ArenaFreeList st'\<rparr>
      \<or> length (ArenaFreeList st) = ARENA_FREE_LIST_CAPACITY \<and>
        st' = st\<lparr>ArenaRangesForfeited := ArenaRangesForfeited st + 1\<rparr>)"

lemma arena_insertedI:
  assumes "ArenaFreeListInsert start n st = st\<lparr>ArenaFreeList := ranges\<rparr>"
    "spaced low ranges high" "length ranges \<le> ARENA_FREE_LIST_CAPACITY"
    "range_bytes ranges = range_bytes (ArenaFreeList st) \<union> arena_interval start n"
  shows "arena_inserted st start n low high (ArenaFreeListInsert start n st)"
  using assms by (simp add: arena_inserted_def)

lemma ArenaFreeListInsert_effect:
  assumes sp: "spaced low (ArenaFreeList st) high" and high: "high < 2 ^ 64"
    and len: "length (ArenaFreeList st) \<le> ARENA_FREE_LIST_CAPACITY"
    and n: "n \<noteq> 0" and low: "low < unat start" and top: "unat start + unat n * 4096 \<le> high"
    and al: "IsPageAligned start"
    and dis: "arena_interval start n \<inter> range_bytes (ArenaFreeList st) = {}"
  shows "arena_inserted st start n low high (ArenaFreeListInsert start n st)"
proof -
  let ?rs = "ArenaFreeList st"
  obtain xs ys where rs: "?rs = xs @ ys" and tw: "takeWhile (\<lambda>r. range_base r < start) ?rs = xs"
    and left: "xs = [] \<and> low < unat start \<or> (\<exists>xs' p. xs = xs' @ [p] \<and> range_stop p \<le> unat start)"
    and right: "ys = [] \<or> (\<exists>q ys'. ys = q # ys' \<and> unat start + unat n * 4096 \<le> range_start q)"
    by (rule insert_position [OF sp n low dis])
  define new where "new = \<lparr>range_base = start, range_pages = n\<rparr>"
  have newb: "range_start new = unat start" "range_stop new = unat start + unat n * 4096"
    by (simp_all add: new_def range_start_def range_stop_def)
  have endn: "unat (start + n * PAGE_SIZE) = unat start + unat n * 4096"
    using unat_range_end [of new] newb top high by (simp add: range_end_def new_def)
  have len': "length xs + length ys \<le> ARENA_FREE_LIST_CAPACITY" using len rs by simp
  have spx: "spaced low xs high" and spy: "spaced (last_stop low xs) ys high" using sp rs by simp_all
  have before: "last_stop low xs \<le> unat start" "xs \<noteq> [] \<or> last_stop low xs < unat start"
    using left by auto
  have following: "start + n * PAGE_SIZE = range_base q \<longleftrightarrow> range_stop new = range_start q" for q
    by (simp add: word_unat_eq_iff endn newb range_start_def)
  consider (grow) xs' p where "xs = xs' @ [p]" "range_stop p = unat start"
    | (apart) "last_stop low xs < unat start"
    using before left by force
  then show ?thesis
  proof cases
    case grow
    have p: "range_pages p \<noteq> 0" "last_stop low xs' < range_start p" "spaced low xs' high"
      "IsPageAligned (range_base p)"
      using spx grow by simp_all
    have ps: "range_start p < range_stop p" by (rule range_start_less_stop [OF p(1)])
    define p' where "p' = p\<lparr>range_pages := range_pages p + n\<rparr>"
    have stop: "range_stop p' = unat start + unat n * 4096"
      using range_stop_grown [of p n] grow(2) top high by (simp add: p'_def)
    have p': "range_start p' = range_start p" "range_pages p' \<noteq> 0" "range_base p' = range_base p"
      using grown_not_empty [of p n] grow(2) top high p(1) by (simp_all add: p'_def)
    have at_start: "range_end p = start"
      using grow(2) top high by (simp add: word_unat_eq_iff unat_range_end)
    have join: "range_end p' = range_base q \<longleftrightarrow> range_stop new = range_start q" for q
      using stop top high newb by (simp add: word_unat_eq_iff unat_range_end range_start_def)
    have iv: "{range_start p..<range_stop p} \<union> arena_interval start n = {range_start p..<range_stop p'}"
      using grow(2) ps by (auto simp: arena_interval_def stop)
    show ?thesis
    proof (cases "ys \<noteq> [] \<and> range_stop new = range_start (hd ys)")
      case True
      then obtain q ys' where ys: "ys = q # ys'" "range_stop p' = range_start q"
        using stop newb by (cases ys) auto
      have q: "range_pages q \<noteq> 0" "range_stop q \<le> high" "spaced (range_stop q) ys' high"
        using spy ys by simp_all
      define p'' where "p'' = p'\<lparr>range_pages := range_pages p' + range_pages q\<rparr>"
      have sum: "range_stop p' + unat (range_pages q) * 4096 = range_stop q"
        using ys by (simp add: range_stop_def range_start_def)
      then have stop'': "range_stop p'' = range_stop q"
        using range_stop_grown [of p' "range_pages q"] q high by (simp add: p''_def)
      have p'': "range_start p'' = range_start p" "range_pages p'' \<noteq> 0" "range_base p'' = range_base p"
        using grown_not_empty [of p' "range_pages q"] sum q high p' by (simp_all add: p''_def)
      have atq: "range_end p' = range_base q" using join ys(2) stop newb by simp
      have res: "ArenaFreeListInsert start n st = st\<lparr>ArenaFreeList := xs' @ p'' # ys'\<rparr>"
        unfolding ArenaFreeListInsert_def Let_def tw unfolding rs grow(1) ys(1)
        using at_start atq [unfolded p'_def]
        by (simp add: nth_append p''_def p'_def)
      have qs: "range_start q < range_stop q" by (rule range_start_less_stop [OF q(1)])
      have "{range_start p''..<range_stop p''} =
          {range_start p..<range_stop p} \<union> arena_interval start n \<union> {range_start q..<range_stop q}"
        using ivl_disj_un_two(3) [of "range_start p" "range_stop p'" "range_stop q"] iv ys(2) qs ps
          stop grow(2) by (simp add: p''(1) stop'')
      then have "range_bytes (xs' @ p'' # ys') = range_bytes (xs @ ys) \<union> arena_interval start n"
        by (simp add: grow(1) ys(1) Un_ac)
      moreover have "spaced low (xs' @ p'' # ys') high"
        using p p'' q stop'' by simp
      moreover have "length (xs' @ p'' # ys') \<le> ARENA_FREE_LIST_CAPACITY"
        using len' by (simp add: grow(1) ys(1))
      ultimately show ?thesis by (intro arena_insertedI [OF res]) (simp_all add: rs)
    next
      case False
      have no: "ys = q # ys' \<Longrightarrow> range_end p' \<noteq> range_base q" for q ys'
        using False join [of q] by simp
      have res: "ArenaFreeListInsert start n st = st\<lparr>ArenaFreeList := xs' @ p' # ys\<rparr>"
        unfolding ArenaFreeListInsert_def Let_def tw unfolding rs grow(1)
        using at_start no [unfolded p'_def]
        by (cases ys) (simp_all add: nth_append p'_def)
      have "spaced (range_stop p') ys high"
        using False right spy stop newb by (cases ys) auto
      then have "spaced low (xs' @ p' # ys) high" using p p' stop top by simp
      moreover have "range_bytes (xs' @ p' # ys) = range_bytes (xs @ ys) \<union> arena_interval start n"
        using iv by (simp add: grow(1) p'(1) Un_ac)
      moreover have "length (xs' @ p' # ys) \<le> ARENA_FREE_LIST_CAPACITY"
        using len' by (simp add: grow(1))
      ultimately show ?thesis by (intro arena_insertedI [OF res]) (simp_all add: rs)
    qed
  next
    case apart
    have no: "\<not> (0 < length xs \<and> range_end (xs ! (length xs - 1)) = start)"
    proof
      assume *: "0 < length xs \<and> range_end (xs ! (length xs - 1)) = start"
      then obtain xs' p where xs: "xs = xs' @ [p]" "range_end p = start"
        by (cases xs rule: rev_cases) (auto simp: nth_append)
      then have "range_stop p < unat start" "range_stop p \<le> high" using apart spx by auto
      then have "unat (range_end p) < unat start" using high by (simp add: unat_range_end)
      with xs show False by simp
    qed
    then have no': "\<not> (0 < length xs \<and> range_end ((xs @ ys) ! (length xs - 1)) = start)"
      by (auto simp: nth_append)
    show ?thesis
    proof (cases "ys \<noteq> [] \<and> range_stop new = range_start (hd ys)")
      case True
      then obtain q ys' where ys: "ys = q # ys'" "range_stop new = range_start q"
        by (cases ys) auto
      have q: "range_pages q \<noteq> 0" "range_stop q \<le> high" "spaced (range_stop q) ys' high"
        using spy ys by simp_all
      define q' where "q' = \<lparr>range_base = start, range_pages = range_pages q + n\<rparr>"
      have sum: "range_stop new + unat (range_pages q) * 4096 = range_stop q"
        using ys by (simp add: range_stop_def range_start_def)
      have q'new: "q' = new\<lparr>range_pages := range_pages new + range_pages q\<rparr>"
        by (simp add: q'_def new_def add.commute)
      have nn: "range_pages new \<noteq> 0" using n by (simp add: new_def)
      have q': "range_stop q' = range_stop q" "range_start q' = unat start" "range_pages q' \<noteq> 0"
        using range_stop_grown [of new "range_pages q"] grown_not_empty [of new "range_pages q"]
          sum q high nn newb unfolding q'new by simp_all
      have res: "ArenaFreeListInsert start n st = st\<lparr>ArenaFreeList := xs @ q' # ys'\<rparr>"
        unfolding ArenaFreeListInsert_def Let_def tw unfolding rs if_not_P [OF no']
        using following [of q] ys(2)
        by (simp add: ys(1) nth_append q'_def)
      have qs: "range_start q < range_stop q" by (rule range_start_less_stop [OF q(1)])
      have "{range_start q'..<range_stop q'} = arena_interval start n \<union> {range_start q..<range_stop q}"
        using ys(2) qs newb by (auto simp: q' arena_interval_def)
      then have "range_bytes (xs @ q' # ys') = range_bytes (xs @ ys) \<union> arena_interval start n"
        by (simp add: ys(1) Un_ac)
      moreover have "spaced low (xs @ q' # ys') high"
        using spx apart q q' al by (simp add: q'_def)
      moreover have "length (xs @ q' # ys') \<le> ARENA_FREE_LIST_CAPACITY"
        using len' by (simp add: ys(1))
      ultimately show ?thesis by (intro arena_insertedI [OF res]) (simp_all add: rs)
    next
      case False
      then have skip: "\<not> (length xs < length (xs @ ys) \<and> start + n * PAGE_SIZE = range_base ((xs @ ys) ! length xs))"
        using following by (cases ys) (auto simp: nth_append)
      show ?thesis
      proof (cases "ARENA_FREE_LIST_CAPACITY \<le> length ?rs")
        case True
        then have "ArenaFreeListInsert start n st = st\<lparr>ArenaRangesForfeited := ArenaRangesForfeited st + 1\<rparr>"
          unfolding ArenaFreeListInsert_def Let_def tw unfolding rs if_not_P [OF no'] if_not_P [OF skip]
          by (simp add: rs)
        then show ?thesis using True len sp by (simp add: arena_inserted_def)
      next
        case room: False
        then have res: "ArenaFreeListInsert start n st = st\<lparr>ArenaFreeList := xs @ new # ys\<rparr>"
          unfolding ArenaFreeListInsert_def Let_def tw unfolding rs if_not_P [OF no'] if_not_P [OF skip]
          by (simp add: rs new_def)
        have "spaced (range_stop new) ys high"
          using False right spy newb by (cases ys) auto
        moreover have "{range_start new..<range_stop new} = arena_interval start n"
          by (simp add: newb arena_interval_def)
        ultimately have "spaced low (xs @ new # ys) high"
          "range_bytes (xs @ new # ys) = range_bytes (xs @ ys) \<union> arena_interval start n"
          using spx apart n al top newb by (simp_all add: new_def Un_ac)
        then show ?thesis using room by (intro arena_insertedI [OF res]) (simp_all add: rs)
      qed
    qed
  qed
qed

end
