(* ===== verification/ArenaRegions.thy ===== *)
theory ArenaRegions
  imports KernelArena
begin

text \<open>
  The arena's address space as a source of regions (\<open>kernel/mm/vmm.c\<close>): what reserving and
  releasing do to the set of free bytes, the contract a holder of regions rests on as the
  locale \<open>region_source\<close>, and the arena as its provider.
\<close>

subsection \<open>Taking a range\<close>

lemma take_first_fit_None:
  "take_first_fit n rs = None \<longleftrightarrow> (\<forall>r\<in>set rs. range_pages r < n)"
  by (induction rs) (auto split: option.splits)

definition taken :: "nat \<Rightarrow> nat \<Rightarrow> u64 \<Rightarrow> ArenaFreeRange list \<Rightarrow> u64 \<Rightarrow> ArenaFreeRange list \<Rightarrow> bool" where
  "taken low high n rs start rs' \<longleftrightarrow>
     spaced low rs' high \<and> low < unat start \<and> unat start + unat n * 4096 \<le> high \<and>
     IsPageAligned start \<and> arena_interval start n \<subseteq> range_bytes rs \<and>
     range_bytes rs' = range_bytes rs - arena_interval start n \<and> length rs' \<le> length rs"

lemma interval_split:
  "a \<le> b \<Longrightarrow> b \<le> c \<Longrightarrow> A \<inter> {a..<c} = {} \<Longrightarrow> ({a..<c} \<union> A) - {a..<b} = {b..<c} \<union> (A :: nat set)"
  by fastforce

lemma take_first_fit_Some:
  assumes "spaced low rs high" "high < 2 ^ 64" "n \<noteq> 0" "take_first_fit n rs = Some (start, rs')"
  shows "taken low high n rs start rs'"
  using assms
proof (induction rs arbitrary: low rs')
  case (Cons r rs)
  have r: "low < range_start r" "range_pages r \<noteq> 0" "range_stop r \<le> high" "IsPageAligned (range_base r)"
    "spaced (range_stop r) rs high"
    using Cons.prems by simp_all
  have rr: "range_start r < range_stop r" using r(2) by (rule range_start_less_stop)
  have later: "range_bytes rs \<inter> {..<range_stop r} = {}"
    using spaced_above [OF r(5)] by fastforce
  have later': "range_bytes rs \<inter> {range_start r..<range_stop r} = {}"
    using spaced_above [OF r(5)] by fastforce
  consider (exact) "range_pages r = n" | (split) "n < range_pages r" | (skip) "range_pages r < n"
    by force
  then show ?case
  proof cases
    case exact
    then have res: "start = range_base r" "rs' = rs" using Cons.prems by simp_all
    have iv: "arena_interval start n = {range_start r..<range_stop r}"
      using exact by (simp add: res arena_interval_def range_start_def range_stop_def)
    have "spaced low rs high" using spaced_mono [OF r(5)] r(1) rr by simp
    then show ?thesis
      using r exact iv later' res
      by (auto simp: taken_def range_start_def range_stop_def)
  next
    case split
    then have "n \<le> range_pages r" "range_pages r \<noteq> n" by auto
    then have res: "start = range_base r" "rs' = r\<lparr>range_base := range_base r + n * PAGE_SIZE,
        range_pages := range_pages r - n\<rparr> # rs" using Cons.prems(4) by auto
    define r' where "r' = r\<lparr>range_base := range_base r + n * PAGE_SIZE, range_pages := range_pages r - n\<rparr>"
    have lt: "unat n < unat (range_pages r)" using split by (simp add: word_less_nat_alt)
    have b: "unat (range_base r) + unat n * 4096 < 2 ^ 64"
      using lt r(3) Cons.prems(2) by (simp add: range_stop_def)
    have base: "unat (range_base r + n * PAGE_SIZE) = unat (range_base r) + unat n * 4096"
      using unat_range_end [of "\<lparr>range_base = range_base r, range_pages = n\<rparr>"] b
      by (simp add: range_stop_def range_end_def)
    have r': "range_start r' = range_start r + unat n * 4096" "range_stop r' = range_stop r"
      "range_pages r' \<noteq> 0"
      using lt split base by (auto simp: r'_def range_start_def range_stop_def unat_sub algebra_simps)
    have al: "IsPageAligned (range_base r')"
      using r(4) base by (simp add: r'_def IsPageAligned_iff)
    have iv: "arena_interval start n = {range_start r..<range_start r'}"
      unfolding arena_interval_def r'(1) by (simp add: res(1) range_start_def)
    have le: "range_start r' \<le> range_stop r"
      using range_start_less_stop [OF r'(3)] r'(2) by simp
    have "range_bytes rs' = range_bytes (r # rs) - arena_interval start n"
      using interval_split [of "range_start r" "range_start r'" "range_stop r" "range_bytes rs"] later' le r'(1,2)
      by (simp add: res(2) iv flip: r'_def)
    moreover have "arena_interval start n \<subseteq> range_bytes (r # rs)" using le by (auto simp: iv)
    moreover have "spaced low rs' high" using r r' al by (simp add: res(2) flip: r'_def)
    ultimately show ?thesis
      using r b le r'(1) by (simp add: taken_def res(1) range_start_def) (simp add: res(2))
  next
    case skip
    then have "\<not> n \<le> range_pages r" by simp
    then obtain rest where rest: "take_first_fit n rs = Some (start, rest)" "rs' = r # rest"
      using Cons.prems by (auto split: option.splits)
    have IH: "taken (range_stop r) high n rs start rest"
      using Cons.IH [OF r(5) Cons.prems(2,3) rest(1)] .
    then have "arena_interval start n \<inter> {range_start r..<range_stop r} = {}"
      using later' unfolding taken_def by blast
    then show ?thesis using IH r rr rest(2) unfolding taken_def by auto
  qed
qed simp

subsection \<open>Reserving\<close>

definition arena_end :: nat where
  "arena_end = unat KERNEL_ARENA_BASE + unat KERNEL_ARENA_SIZE"

lemma arena_limits:
  "unat KERNEL_ARENA_BASE = 0xFFFFC00000000000" "arena_end = 0xFFFFE00000000000"
  "unat (KERNEL_ARENA_BASE + KERNEL_ARENA_SIZE) = arena_end"
  "unat ARENA_PAGE_CAPACITY = 2 ^ 33"
  by (simp_all add: KERNEL_ARENA_BASE_def KERNEL_ARENA_SIZE_def arena_end_def
      ARENA_PAGE_CAPACITY_def PAGE_SIZE_def)

definition arena_ok :: "arena_state \<Rightarrow> bool" where
  "arena_ok st \<longleftrightarrow>
     spaced (unat KERNEL_ARENA_BASE - 1) (ArenaFreeList st) (unat (ArenaBumpPointer st)) \<and>
     length (ArenaFreeList st) \<le> ARENA_FREE_LIST_CAPACITY \<and>
     unat KERNEL_ARENA_BASE \<le> unat (ArenaBumpPointer st) \<and>
     unat (ArenaBumpPointer st) \<le> arena_end \<and> IsPageAligned (ArenaBumpPointer st)"

definition arena_available :: "arena_state \<Rightarrow> nat set" where
  "arena_available st =
     range_bytes (ArenaFreeList st) \<union> {unat (ArenaBumpPointer st)..<arena_end}"

lemma KernelVirtualInitialise_ok: "arena_ok (KernelVirtualInitialise st)"
  by (simp add: arena_ok_def KernelVirtualInitialise_def arena_limits IsPageAligned_iff)

lemma KernelVirtualInitialise_available:
  "arena_available (KernelVirtualInitialise st) = {unat KERNEL_ARENA_BASE..<arena_end}"
  by (simp add: arena_available_def KernelVirtualInitialise_def)

text \<open>
  A request for the whole arena is the one the bound on the bump pointer cannot be trusted
  with: the arena ends one arena's length below the top of the address space, so the sum of
  its end and its length is zero.
\<close>

lemma ArenaReserve_effect:
  assumes ok: "arena_ok st" and n: "n \<noteq> 0" "n < ARENA_PAGE_CAPACITY"
    and run: "ArenaReserve n st = (st', res)"
  shows "arena_ok st'" and "paging st' = paging st" and "ArenaPagesInUse st' = ArenaPagesInUse st"
    and "res = None \<Longrightarrow> st' = st \<and> (\<forall>r\<in>set (ArenaFreeList st). range_pages r < n) \<and>
      arena_end < unat (ArenaBumpPointer st) + unat n * 4096"
    and "res = Some start \<Longrightarrow> arena_interval start n \<subseteq> arena_available st \<and> IsPageAligned start \<and>
      arena_available st' = arena_available st - arena_interval start n \<and>
      unat KERNEL_ARENA_BASE \<le> unat start \<and> unat start + unat n * 4096 \<le> arena_end"
proof -
  let ?bump = "ArenaBumpPointer st"
  have sp: "spaced (unat KERNEL_ARENA_BASE - 1) (ArenaFreeList st) (unat ?bump)"
    and len: "length (ArenaFreeList st) \<le> ARENA_FREE_LIST_CAPACITY"
    and bump: "unat KERNEL_ARENA_BASE \<le> unat ?bump" "unat ?bump \<le> arena_end" "IsPageAligned ?bump"
    using ok by (simp_all add: arena_ok_def)
  have high: "unat ?bump < 2 ^ 64" using bump(2) by (simp add: arena_limits)
  have nle: "unat n < 2 ^ 33" using n(2) by (simp add: word_less_nat_alt arena_limits)
  have sum: "unat (?bump + n * PAGE_SIZE) = unat ?bump + unat n * 4096"
    using unat_range_end [of "\<lparr>range_base = ?bump, range_pages = n\<rparr>"] bump(2) nle
    by (simp add: range_stop_def range_end_def arena_limits)
  show "paging st' = paging st" "ArenaPagesInUse st' = ArenaPagesInUse st"
    using run by (auto simp: ArenaReserve_def ArenaFreeListTake_def split: option.splits if_splits)
  consider (list) a rs' where "taken (unat KERNEL_ARENA_BASE - 1) (unat ?bump) n (ArenaFreeList st) a rs'"
      "res = Some a" "st' = st\<lparr>ArenaFreeList := rs'\<rparr>"
    | (full) "take_first_fit n (ArenaFreeList st) = None" "res = None" "st' = st"
      "arena_end < unat ?bump + unat n * 4096"
    | (grow) "res = Some ?bump" "st' = st\<lparr>ArenaBumpPointer := ?bump + n * PAGE_SIZE\<rparr>"
      "unat ?bump + unat n * 4096 \<le> arena_end"
  proof (cases "take_first_fit n (ArenaFreeList st)")
    case None
    then show thesis using run full grow
      by (auto simp: ArenaReserve_def ArenaFreeListTake_def word_less_nat_alt sum arena_limits
          split: if_splits)
  next
    case (Some p)
    obtain a rs' where p: "p = (a, rs')" by (cases p)
    then have T: "taken (unat KERNEL_ARENA_BASE - 1) (unat ?bump) n (ArenaFreeList st) a rs'"
      using take_first_fit_Some [OF sp high n(1)] Some by simp
    then have "a \<noteq> 0" by (auto simp: taken_def)
    then show thesis using run list [OF T] Some p
      by (auto simp: ArenaReserve_def ArenaFreeListTake_def)
  qed
  note choice = this
  show "res = None \<Longrightarrow> st' = st \<and> (\<forall>r\<in>set (ArenaFreeList st). range_pages r < n) \<and>
      arena_end < unat ?bump + unat n * 4096"
    by (cases rule: choice) (auto simp: take_first_fit_None)
  show "arena_ok st'"
    by (cases rule: choice)
      (use ok bump sum in \<open>auto simp: arena_ok_def taken_def IsPageAligned_iff intro: spaced_high\<close>)
  show "res = Some start \<Longrightarrow> arena_interval start n \<subseteq> arena_available st \<and> IsPageAligned start \<and>
      arena_available st' = arena_available st - arena_interval start n \<and>
      unat KERNEL_ARENA_BASE \<le> unat start \<and> unat start + unat n * 4096 \<le> arena_end"
  proof (cases rule: choice)
    case (list a rs')
    then have "arena_interval a n \<inter> {unat ?bump..<arena_end} = {}"
      by (auto simp: taken_def arena_interval_def)
    moreover assume "res = Some start"
    ultimately show ?thesis using list bump
      by (auto simp: taken_def arena_available_def arena_limits)
  next
    case grow
    have "{unat ?bump..<arena_end} - arena_interval ?bump n = {unat ?bump + unat n * 4096..<arena_end}"
      by (auto simp: arena_interval_def)
    moreover have "range_bytes (ArenaFreeList st) \<inter> arena_interval ?bump n = {}"
      using spaced_above [OF sp] by (fastforce simp: arena_interval_def)
    moreover assume "res = Some start"
    ultimately show ?thesis
      using grow bump by (auto simp: arena_available_def sum arena_interval_def)
  qed simp
qed

subsection \<open>Releasing\<close>

lemma ArenaFreeListInsert_ok:
  assumes ok: "arena_ok st" and n: "n \<noteq> 0" and low: "unat KERNEL_ARENA_BASE \<le> unat start"
    and top: "unat start + unat n * 4096 \<le> arena_end" and al: "IsPageAligned start"
    and dis: "arena_interval start n \<inter> arena_available st = {}"
  shows "arena_ok (ArenaFreeListInsert start n st)"
    and "arena_available (ArenaFreeListInsert start n st) = arena_available st \<union> arena_interval start n
      \<and> ArenaRangesForfeited (ArenaFreeListInsert start n st) = ArenaRangesForfeited st
     \<or> arena_available (ArenaFreeListInsert start n st) = arena_available st
      \<and> length (ArenaFreeList st) = ARENA_FREE_LIST_CAPACITY
      \<and> ArenaRangesForfeited (ArenaFreeListInsert start n st) = ArenaRangesForfeited st + 1"
    and "paging (ArenaFreeListInsert start n st) = paging st"
    and "ArenaPagesInUse (ArenaFreeListInsert start n st) = ArenaPagesInUse st"
proof -
  let ?st' = "ArenaFreeListInsert start n st" and ?bump = "ArenaBumpPointer st"
  have n0: "0 < unat n" using n by (simp add: unat_gt_0)
  have below: "unat start + unat n * 4096 \<le> unat ?bump"
  proof (rule ccontr)
    assume c: "\<not> ?thesis"
    then have "max (unat start) (unat ?bump) \<in> arena_interval start n \<inter> {unat ?bump..<arena_end}"
      using top n0 by (auto simp: arena_interval_def max_def)
    then show False using dis by (auto simp: arena_available_def)
  qed
  have "arena_inserted st start n (unat KERNEL_ARENA_BASE - 1) (unat ?bump) ?st'"
    using ok low below n al dis
    by (intro ArenaFreeListInsert_effect)
      (auto simp: arena_ok_def arena_limits arena_available_def)
  then have I: "spaced (unat KERNEL_ARENA_BASE - 1) (ArenaFreeList ?st') (unat ?bump)"
    "length (ArenaFreeList ?st') \<le> ARENA_FREE_LIST_CAPACITY"
    "range_bytes (ArenaFreeList ?st') = range_bytes (ArenaFreeList st) \<union> arena_interval start n \<and>
        ?st' = st\<lparr>ArenaFreeList := ArenaFreeList ?st'\<rparr>
      \<or> length (ArenaFreeList st) = ARENA_FREE_LIST_CAPACITY \<and>
        ?st' = st\<lparr>ArenaRangesForfeited := ArenaRangesForfeited st + 1\<rparr>"
    by (simp_all add: arena_inserted_def)
  from I(3) have same: "ArenaBumpPointer ?st' = ?bump \<and> paging ?st' = paging st
      \<and> ArenaPagesInUse ?st' = ArenaPagesInUse st"
  proof (elim disjE conjE)
    assume "?st' = st\<lparr>ArenaFreeList := ArenaFreeList ?st'\<rparr>"
    then show ?thesis by (metis arena_state.select_convs(2,3,7) arena_state.surjective arena_state.update_convs(1))
  qed simp
  then show "arena_ok ?st'" "paging ?st' = paging st" "ArenaPagesInUse ?st' = ArenaPagesInUse st"
    using ok I(1,2) by (simp_all add: arena_ok_def)
  from I(3) show "arena_available ?st' = arena_available st \<union> arena_interval start n
      \<and> ArenaRangesForfeited ?st' = ArenaRangesForfeited st
     \<or> arena_available ?st' = arena_available st
      \<and> length (ArenaFreeList st) = ARENA_FREE_LIST_CAPACITY
      \<and> ArenaRangesForfeited ?st' = ArenaRangesForfeited st + 1"
  proof (elim disjE conjE)
    assume a: "?st' = st\<lparr>ArenaFreeList := ArenaFreeList ?st'\<rparr>"
      and b: "range_bytes (ArenaFreeList ?st') = range_bytes (ArenaFreeList st) \<union> arena_interval start n"
    from a have "ArenaRangesForfeited ?st' = ArenaRangesForfeited st"
      by (metis arena_state.select_convs(6) arena_state.surjective arena_state.update_convs(1))
    then show ?thesis using b same by (auto simp: arena_available_def)
  qed (use same in \<open>simp add: arena_available_def\<close>)
qed

subsection \<open>The contract of a source of regions\<close>

text \<open>
  What holders of regions do: reserve one, give one they hold back.  The live regions are
  pairs of an address and a page count.
\<close>

inductive region_step ::
  "(u64 \<Rightarrow> u64 \<Rightarrow> nat set) \<Rightarrow> (u64 \<Rightarrow> bool) \<Rightarrow> (u64 \<Rightarrow> 's \<Rightarrow> 's \<times> u64 option) \<Rightarrow> (u64 \<Rightarrow> u64 \<Rightarrow> 's \<Rightarrow> 's) \<Rightarrow>
   's \<times> (u64 \<times> u64) set \<Rightarrow> 's \<times> (u64 \<times> u64) set \<Rightarrow> bool"
  for region admissible reserve give_back
  where
    take: "admissible n \<Longrightarrow> reserve n s = (s', Some a) \<Longrightarrow>
      region_step region admissible reserve give_back (s, live) (s', insert (a, n) live)"
  | refused: "admissible n \<Longrightarrow> reserve n s = (s', None) \<Longrightarrow>
      region_step region admissible reserve give_back (s, live) (s', live)"
  | give: "(a, n) \<in> live \<Longrightarrow>
      region_step region admissible reserve give_back (s, live) (give_back a n s, live - {(a, n)})"

locale region_source =
  fixes region :: "u64 \<Rightarrow> u64 \<Rightarrow> nat set" and admissible :: "u64 \<Rightarrow> bool" and proper :: "u64 \<Rightarrow> u64 \<Rightarrow> bool"
    and ok :: "'s \<Rightarrow> bool" and available :: "'s \<Rightarrow> nat set"
    and reserve :: "u64 \<Rightarrow> 's \<Rightarrow> 's \<times> u64 option"
    and give_back :: "u64 \<Rightarrow> u64 \<Rightarrow> 's \<Rightarrow> 's"
  assumes reserved: "ok s \<Longrightarrow> admissible n \<Longrightarrow> reserve n s = (s', Some a) \<Longrightarrow>
      ok s' \<and> proper a n \<and> region a n \<subseteq> available s \<and> available s' = available s - region a n"
    and unchanged: "ok s \<Longrightarrow> admissible n \<Longrightarrow> reserve n s = (s', None) \<Longrightarrow> s' = s"
    and returned: "ok s \<Longrightarrow> proper a n \<Longrightarrow> region a n \<inter> available s = {} \<Longrightarrow>
      ok (give_back a n s) \<and> available s \<subseteq> available (give_back a n s) \<and>
      available (give_back a n s) \<subseteq> available s \<union> region a n"
begin

definition region_inv :: "'s \<times> (u64 \<times> u64) set \<Rightarrow> bool" where
  "region_inv c \<longleftrightarrow> ok (fst c) \<and>
     (\<forall>(a, n) \<in> snd c. proper a n \<and> region a n \<inter> available (fst c) = {}) \<and>
     pairwise (\<lambda>x y. region (fst x) (snd x) \<inter> region (fst y) (snd y) = {}) (snd c)"

lemma region_inv_disjoint:
  assumes "region_inv (s, live)" "(a, n) \<in> live" "(b, k) \<in> live" "(a, n) \<noteq> (b, k)"
  shows "region a n \<inter> region b k = {}"
proof -
  have "pairwise (\<lambda>x y. region (fst x) (snd x) \<inter> region (fst y) (snd y) = {}) live"
    using assms(1) by (simp add: region_inv_def)
  then show ?thesis using assms(2-) by (fastforce dest: pairwiseD)
qed

lemma region_inv_step:
  assumes "region_step region admissible reserve give_back c c'" "region_inv c"
  shows "region_inv c'"
  using assms
proof (induction rule: region_step.induct)
  case (take n s s' a live)
  then have R: "ok s'" "proper a n" "region a n \<subseteq> available s" "available s' = available s - region a n"
    using reserved [of s n s' a] by (auto simp: region_inv_def)
  have old: "region b k \<inter> available s = {}" if "(b, k) \<in> live" for b k
    using that take.prems by (auto simp: region_inv_def)
  have "region b k \<inter> region a n = {}" if "(b, k) \<in> live" for b k
    using old [OF that] R(3) by blast
  then show ?case using take.prems R by (fastforce simp: region_inv_def pairwise_insert)
next
  case (refused n s s' live)
  then show ?case using unchanged [of s n s'] by (auto simp: region_inv_def)
next
  case (give a n live s)
  then have mine: "proper a n" "region a n \<inter> available s = {}" "ok s" by (auto simp: region_inv_def)
  note G = returned [OF mine(3,1,2)]
  have dis: "region b k \<inter> available (give_back a n s) = {}" if "(b, k) \<in> live - {(a, n)}" for b k
  proof -
    have "region b k \<inter> region a n = {}"
      using region_inv_disjoint [OF give.prems, of b k a n] give.hyps that by auto
    moreover have "region b k \<inter> available s = {}" using give that by (auto simp: region_inv_def)
    ultimately show ?thesis using G by blast
  qed
  show ?case using give dis G by (auto simp: region_inv_def intro: pairwise_subset)
qed

lemma region_inv_reachable:
  assumes "(region_step region admissible reserve give_back)\<^sup>*\<^sup>* (s0, {}) c" "ok s0"
  shows "region_inv c"
  using assms(1)
proof (induction rule: rtranclp_induct)
  case base
  with assms(2) show ?case by (simp add: region_inv_def)
next
  case (step c c')
  then show ?case by (blast intro: region_inv_step)
qed

lemma live_disjoint:
  assumes "(region_step region admissible reserve give_back)\<^sup>*\<^sup>* (s0, {}) (s, live)" "ok s0"
    and "(a, n) \<in> live" "(b, k) \<in> live" "(a, n) \<noteq> (b, k)"
  shows "region a n \<inter> region b k = {}"
  using region_inv_disjoint region_inv_reachable [OF assms(1,2)] assms(3-) .

lemma live_unavailable:
  assumes "(region_step region admissible reserve give_back)\<^sup>*\<^sup>* (s0, {}) (s, live)" "ok s0"
    and "(a, n) \<in> live"
  shows "region a n \<inter> available s = {}"
  using region_inv_reachable [OF assms(1,2)] assms(3) by (auto simp: region_inv_def)

end

definition arena_admissible :: "u64 \<Rightarrow> bool" where
  "arena_admissible n \<longleftrightarrow> n \<noteq> 0 \<and> n < ARENA_PAGE_CAPACITY"

definition arena_proper :: "u64 \<Rightarrow> u64 \<Rightarrow> bool" where
  "arena_proper start n \<longleftrightarrow> n \<noteq> 0 \<and> IsPageAligned start \<and>
     unat KERNEL_ARENA_BASE \<le> unat start \<and> unat start + unat n * 4096 \<le> arena_end"

interpretation arena: region_source arena_interval arena_admissible arena_proper arena_ok
  arena_available ArenaReserve ArenaFreeListInsert
proof (unfold_locales, goal_cases)
  case (1 s n s' a)
  then show ?case
    using ArenaReserve_effect [of s n s' "Some a"] by (auto simp: arena_admissible_def arena_proper_def)
next
  case (2 s n s')
  then show ?case
    using ArenaReserve_effect(4) [of s n s' None] by (simp add: arena_admissible_def)
next
  case (3 s a n)
  then show ?case
    using ArenaFreeListInsert_ok(1,2) [of s n a] by (auto simp: arena_proper_def)
qed

end
