(* ===== verification/ArenaBacking.thy ===== *)
theory ArenaBacking
  imports ArenaRegions
begin

text \<open>
  The pages of the arena and the frames behind them (\<open>kernel/mm/vmm.c\<close>): backing a region
  page by page, unwinding where the frames run out, and giving the pages back.  Every page
  obtains a frame of its own that nobody held, and what is unmapped is free again.
\<close>

subsection \<open>Pages of the arena are distinct pages\<close>

lemma level_index_bits:
  assumes "drop_bit k a AND 0x1FF = drop_bit k b AND (0x1FF :: u64)" "k \<le> n" "n < k + 9"
  shows "bit a n = bit b n"
proof -
  have "bit (drop_bit k a AND 0x1FF) (n - k) = bit (drop_bit k b AND 0x1FF) (n - k)"
    using assms(1) by simp
  moreover have "(0x1FF :: u64) = mask 9" by (simp add: mask_eq_exp_minus_1)
  moreover have "n - k < 9" "n - k < 64" using assms(2,3) by simp_all
  ultimately show ?thesis using assms(2) by (simp add: bit_and_iff bit_drop_bit_eq bit_mask_iff)
qed

lemma same_page_bits:
  assumes "same_page a b" "12 \<le> n" "n < 48"
  shows "bit a n = bit b n"
proof -
  have "PagingLevel4Index a = PagingLevel4Index b" "PagingLevel3Index a = PagingLevel3Index b"
    "PagingLevel2Index a = PagingLevel2Index b" "PagingLevel1Index a = PagingLevel1Index b"
    using assms(1) by (simp_all add: same_page_def level_index_def)
  then have E: "drop_bit 39 a AND 0x1FF = drop_bit 39 b AND 0x1FF"
    "drop_bit 30 a AND 0x1FF = drop_bit 30 b AND 0x1FF"
    "drop_bit 21 a AND 0x1FF = drop_bit 21 b AND 0x1FF"
    "drop_bit 12 a AND 0x1FF = drop_bit 12 b AND 0x1FF"
    by (simp_all add: PagingLevel4Index_def PagingLevel3Index_def PagingLevel2Index_def
        PagingLevel1Index_def word_unat_eq_iff)
  consider "39 \<le> n" | "30 \<le> n" "n < 39" | "21 \<le> n" "n < 30" | "n < 21" by linarith
  then show ?thesis
    by cases (use level_index_bits [OF E(1), of n] level_index_bits [OF E(2), of n]
      level_index_bits [OF E(3), of n] level_index_bits [OF E(4), of n] assms in auto)
qed

text \<open>The high bits of every arena address are those of the base.\<close>

lemma arena_high_bits:
  assumes "unat KERNEL_ARENA_BASE \<le> unat a" "46 \<le> n" "n < 64"
  shows "bit (a :: u64) n"
proof -
  have le: "(2 ^ 18 - 1) * 2 ^ 46 \<le> unat a" using assms(1) by (simp add: arena_limits)
  have "unat a < 2 ^ 64" by (rule unat_u64)
  then have "unat a div 2 ^ 46 < 2 ^ 18" by (simp add: less_mult_imp_div_less)
  moreover have "2 ^ 18 - 1 \<le> unat a div 2 ^ 46" using le by (simp add: less_eq_div_iff_mult_less_eq)
  ultimately have "unat a div 2 ^ 46 = 2 ^ 18 - 1" by simp
  then have "drop_bit 46 (unat a) = mask 18" by (simp add: drop_bit_eq_div mask_eq_exp_minus_1)
  then have "bit (drop_bit 46 (unat a)) (n - 46)" using assms(2,3) by (simp add: bit_mask_iff)
  then have "bit (unat a) n" using assms(2) by (simp add: bit_drop_bit_eq)
  then show ?thesis by (simp add: bit_unsigned_iff)
qed

lemma aligned_low_bits: "IsPageAligned a \<Longrightarrow> n < 12 \<Longrightarrow> \<not> bit a n"
proof
  assume al: "IsPageAligned a" and n: "n < 12" and b: "bit a n"
  have "bit (a AND mask 12) n" using n b by (simp add: bit_and_iff bit_mask_iff)
  then show False using al by (simp add: IsPageAligned_def PAGE_SIZE_def mask_12)
qed

lemma arena_page_unique:
  assumes "unat KERNEL_ARENA_BASE \<le> unat a" "unat KERNEL_ARENA_BASE \<le> unat b"
    "IsPageAligned a" "IsPageAligned b" "same_page a b"
  shows "a = b"
proof (rule bit_word_eqI)
  fix n :: nat
  assume "n < LENGTH(64)"
  then consider "n < 12" | "12 \<le> n" "n < 48" | "46 \<le> n" "n < 64" by fastforce
  then show "bit a n = bit b n"
    by cases (use aligned_low_bits assms arena_high_bits same_page_bits in auto)
qed

lemma unat_arena_page:
  assumes "unat start + i * 4096 < 2 ^ 64"
  shows "unat (arena_page start i) = unat start + i * 4096"
proof -
  have "unat (word_of_nat i * PAGE_SIZE) = i * 4096"
    using assms by (simp add: PAGE_SIZE_def unat_word_ariths unat_word_of_nat)
  then show ?thesis
    unfolding arena_page_def using assms by (subst unat_add_lem [THEN iffD1]) simp_all
qed

lemma arena_page_in:
  assumes "arena_proper start n" "i < unat n"
  shows "unat (arena_page start i) = unat start + i * 4096" "IsPageAligned (arena_page start i)"
    "unat (arena_page start i) \<in> arena_interval start n" "unat KERNEL_ARENA_BASE \<le> unat (arena_page start i)"
proof -
  have b: "unat start + i * 4096 < 2 ^ 64"
    using assms by (simp add: arena_proper_def arena_limits)
  show u: "unat (arena_page start i) = unat start + i * 4096" by (rule unat_arena_page [OF b])
  show "IsPageAligned (arena_page start i)" using assms(1) by (simp add: IsPageAligned_iff u arena_proper_def)
  show "unat (arena_page start i) \<in> arena_interval start n" using assms(2) by (simp add: u arena_interval_def)
  show "unat KERNEL_ARENA_BASE \<le> unat (arena_page start i)" using assms(1) by (simp add: u arena_proper_def)
qed

lemma arena_pages_apart:
  assumes "arena_proper start n" "i < unat n" "j < unat n" "i \<noteq> j"
  shows "\<not> same_page (arena_page start i) (arena_page start j)"
proof
  assume "same_page (arena_page start i) (arena_page start j)"
  then have "arena_page start i = arena_page start j"
    using assms by (intro arena_page_unique) (auto dest: arena_page_in)
  then show False using arena_page_in(1) [OF assms(1,2)] arena_page_in(1) [OF assms(1,3)] assms(4) by simp
qed

subsection \<open>Backing pages\<close>

definition backed_entry :: "u64 \<Rightarrow> u64" where
  "backed_entry frame = leaf_entry frame PAGE_ENTRY_WRITABLE"

lemma entry_address_backed: "frame_valid a \<Longrightarrow> entry_address (backed_entry a) = a"
proof -
  have "entry_address PAGE_ENTRY_WRITABLE = 0"
    by (simp add: entry_address_def PAGE_ENTRY_WRITABLE_def PAGE_ENTRY_ADDRESS_MASK_def)
  moreover assume "frame_valid a"
  ultimately show ?thesis by (simp add: backed_entry_def entry_address_leaf entry_address_valid)
qed

definition same_tables :: "paging_state \<Rightarrow> paging_state \<Rightarrow> bool" where
  "same_tables m m' \<longleftrightarrow>
     PagingRootTable m' = PagingRootTable m \<and> PagingActiveTable m' = PagingActiveTable m \<and>
     PagingDirectMapActive m' = PagingDirectMapActive m \<and>
     shootdown_acknowledged m' = shootdown_acknowledged m"

text \<open>
  From \<open>m0\<close>, the first \<open>c\<close> pages of a region are backed by the frames \<open>f\<close>, none of which
  had a holder, and nothing else has changed.
\<close>

definition backing ::
  "paging_state \<Rightarrow> (u64 \<Rightarrow> nat) \<Rightarrow> u64 \<Rightarrow> u64 \<Rightarrow> nat \<Rightarrow> paging_state \<Rightarrow> (u64 \<Rightarrow> nat) \<Rightarrow> (nat \<Rightarrow> u64) \<Rightarrow> bool"
  where
  "backing m0 lv0 root start c m lv f \<longleftrightarrow>
     hierarchy m lv root \<and>
     (\<forall>k<c. walk (physical m) (arena_page start k) 4 root = Some (1, backed_entry (f k)) \<and>
        frame_refs (frames m0) (FrameIndexOf (f k)) = 0 \<and> data_frame m lv (f k) \<and>
        frame_refs (frames m) (FrameIndexOf (f k)) = 1) \<and>
     inj_on f {..<c} \<and>
     (\<forall>va. (\<forall>k<c. \<not> same_page (arena_page start k) va) \<longrightarrow>
        walk (physical m) va 4 root = walk (physical m0) va 4 root) \<and>
     (\<forall>u. lv0 u \<noteq> 0 \<longrightarrow> lv u = lv0 u) \<and>
     (\<forall>a. data_frame m0 lv0 a \<longrightarrow> data_frame m lv a \<and> physical m a = physical m0 a) \<and>
     (\<forall>i. 0 < frame_refs (frames m0) i \<longrightarrow> frame_refs (frames m) i = frame_refs (frames m0) i) \<and>
     (\<forall>i. 0 < frame_refs (frames m) i \<longrightarrow> 0 < frame_refs (frames m0) i \<or>
        (\<exists>u. lv u \<noteq> 0 \<and> FrameIndexOf u = i) \<or> (\<exists>k<c. i = FrameIndexOf (f k))) \<and>
     same_tables m0 m"

lemma backing_start: "hierarchy m lv root \<Longrightarrow> backing m lv root start 0 m lv f"
  by (simp add: backing_def same_tables_def)

lemma PagingMapKernelPage_Inr:
  "PagingMapKernelPage va pa flags m = Inr m' \<longleftrightarrow>
     (\<exists>m1. PagingMapPage (PagingRootTable m) va pa flags m = Inr m1 \<and> shootdown_acknowledged m1 va \<and>
        m' = m1\<lparr>invalidated := va # invalidated m1\<rparr>)"
  by (auto simp: PagingMapKernelPage_def bind_outcome_Inr_iff PagingInvalidate_Inr)

lemma backing_step:
  assumes B: "backing m0 lv0 root start c m lv f" and root: "PagingRootTable m0 = root"
    and small: "small_path m0 root (arena_page start c)"
    and apart: "\<And>k. k < c \<Longrightarrow> \<not> same_page (arena_page start k) (arena_page start c)"
    and alloc: "FrameAllocate (frames m) = (pool, frame)" "frame \<noteq> FRAME_ALLOCATION_FAILED"
    and run: "PagingMapKernelPage (arena_page start c) frame PAGE_ENTRY_WRITABLE (m\<lparr>frames := pool\<rparr>) = Inr m2"
  obtains lv2 where "backing m0 lv0 root start (c + 1) m2 lv2 (f(c := frame))"
proof -
  let ?page = "arena_page start" and ?m1 = "m\<lparr>frames := pool\<rparr>" and ?idx = FrameIndexOf
  have H: "hierarchy m lv root" and ready: "pool_ready (frames m)" and held: "tables_held m lv"
    and tabs: "same_tables m0 m"
    using B by (simp_all add: backing_def hierarchy_def)
  have mapped_c: "\<And>k. k < c \<Longrightarrow> walk (physical m) (?page k) 4 root = Some (1, backed_entry (f k)) \<and>
        frame_refs (frames m0) (?idx (f k)) = 0 \<and> data_frame m lv (f k) \<and>
        frame_refs (frames m) (?idx (f k)) = 1" and inj: "inj_on f {..<c}"
    using B unfolding backing_def by blast+
  from pmm.issued [OF ready alloc(1) [unfolded FrameAllocate_def] alloc(2)]
  have P: "pool_ready pool" "frame_valid frame" "frame_refs (frames m) (?idx frame) = 0"
    "frame_refs pool = (frame_refs (frames m))(?idx frame := 1)" by simp_all
  have keep: "frame_refs pool i = frame_refs (frames m) i" if "0 < frame_refs (frames m) i" for i
    using P(3,4) that by auto
  have H1: "hierarchy ?m1 lv root"
    using H P keep by (auto simp: hierarchy_def tables_held_def)
  have lv0: "lv frame = 0" using held P(3) by (metis less_irrefl tables_held_def)
  have D1: "data_frame ?m1 lv frame" using P lv0 by (simp add: data_frame_def)
  have same_walk: "walk (physical m) (?page c) 4 root = walk (physical m0) (?page c) 4 root"
    using B apart unfolding backing_def by blast
  have small1: "small_path ?m1 root (?page c)" using small same_walk by (simp add: small_path_def)
  obtain m1' where map: "PagingMapPage root (?page c) frame PAGE_ENTRY_WRITABLE ?m1 = Inr m1'"
    and m2: "m2 = m1'\<lparr>invalidated := ?page c # invalidated m1'\<rparr>"
    using run tabs root by (auto simp: PagingMapKernelPage_Inr same_tables_def)
  obtain lv2 where M: "mapped ?m1 lv root (?page c) frame PAGE_ENTRY_WRITABLE m1' lv2"
    by (rule PagingMapPage_effect [OF H1 small1 map])
  have M': "hierarchy m1' lv2 root"
    "\<And>va. walk (physical m1') va 4 root =
        (if same_page (?page c) va then Some (1, backed_entry frame) else walk (physical m) va 4 root)"
    "\<And>u. lv u \<noteq> 0 \<Longrightarrow> lv2 u = lv u"
    "\<And>a. data_frame ?m1 lv a \<Longrightarrow> data_frame m1' lv2 a \<and> physical m1' a = physical m a"
    "\<And>i. 0 < frame_refs pool i \<Longrightarrow> frame_refs (frames m1') i = frame_refs pool i"
    "same_registers ?m1 m1'"
    "\<And>i. 0 < frame_refs (frames m1') i \<Longrightarrow>
       0 < frame_refs pool i \<or> (\<exists>u. lv2 u \<noteq> 0 \<and> FrameIndexOf u = i)"
    using M by (auto simp: mapped_def backed_entry_def)
  have d1: "data_frame ?m1 lv a" if "data_frame m lv a" for a
    using that keep by (simp add: data_frame_def)
  have old: "walk (physical m2) (?page k) 4 root = Some (1, backed_entry (f k)) \<and>
      frame_refs (frames m0) (?idx (f k)) = 0 \<and> data_frame m2 lv2 (f k) \<and>
      frame_refs (frames m2) (?idx (f k)) = 1 \<and> f k \<noteq> frame" if k: "k < c" for k
  proof -
    note mk = mapped_c [OF k]
    have "\<not> same_page (?page c) (?page k)" using apart [OF k] by (simp add: same_page_commute)
    moreover have "data_frame m1' lv2 (f k)" using M'(4) d1 mk by blast
    moreover have "frame_refs (frames m1') (?idx (f k)) = 1" using M'(5) keep mk by simp
    ultimately show ?thesis using mk M'(2) P(3) by (auto simp: m2 data_frame_def)
  qed
  have zero: "frame_refs (frames m0) (?idx frame) = 0"
  proof (rule ccontr)
    assume "frame_refs (frames m0) (?idx frame) \<noteq> 0"
    then have "frame_refs (frames m) (?idx frame) \<noteq> 0" using B unfolding backing_def by (metis neq0_conv)
    then show False using P(3) by simp
  qed
  have new: "walk (physical m2) (?page c) 4 root = Some (1, backed_entry frame) \<and>
      data_frame m2 lv2 frame \<and> frame_refs (frames m2) (?idx frame) = 1"
    using M'(2) [of "?page c"] M'(4) [OF D1] M'(5) [of "?idx frame"] P(4) by (simp add: m2 data_frame_def)
  show thesis
  proof (rule that [of lv2])
    have "frame \<notin> f ` {..<c}" using old by blast
    then have "inj_on (f(c := frame)) {..<c + 1}"
      using inj by (auto simp: lessThan_Suc intro!: inj_on_fun_updI)
    moreover have "hierarchy m2 lv2 root" using M'(1) by (simp add: m2 hierarchy_def tables_held_def)
    moreover have "data_frame m2 lv2 a \<and> physical m2 a = physical m0 a" if "data_frame m0 lv0 a" for a
    proof -
      have "data_frame m lv a" "physical m a = physical m0 a" using B that unfolding backing_def by blast+
      then show ?thesis using M'(4) [OF d1] by (simp add: m2 data_frame_def)
    qed
    moreover have "frame_refs (frames m2) i = frame_refs (frames m0) i" if "0 < frame_refs (frames m0) i" for i
    proof -
      have "frame_refs (frames m) i = frame_refs (frames m0) i" using B that unfolding backing_def by blast
      then show ?thesis using M'(5) [of i] keep [of i] that by (simp add: m2)
    qed
    moreover have "0 < frame_refs (frames m0) i \<or> (\<exists>u. lv2 u \<noteq> 0 \<and> ?idx u = i) \<or>
        (\<exists>k<c + 1. i = ?idx ((f(c := frame)) k))" if pos: "0 < frame_refs (frames m2) i" for i
    proof -
      consider "0 < frame_refs (frames m) i" | "i = ?idx frame" | "\<exists>u. lv2 u \<noteq> 0 \<and> ?idx u = i"
        using pos M'(7) [of i] P(4) by (auto simp: m2 split: if_splits)
      then show ?thesis
      proof cases
        case 1
        then have "0 < frame_refs (frames m0) i \<or> (\<exists>u. lv u \<noteq> 0 \<and> ?idx u = i) \<or> (\<exists>k<c. i = ?idx (f k))"
          using B unfolding backing_def by blast
        then show ?thesis using M'(3) by (metis fun_upd_apply less_add_one less_irrefl less_trans)
      qed auto
    qed
    moreover have "walk (physical m2) va 4 root = walk (physical m0) va 4 root"
      if "\<forall>k<c + 1. \<not> same_page (?page k) va" for va
    proof -
      have "walk (physical m) va 4 root = walk (physical m0) va 4 root"
        using B that unfolding backing_def by simp
      then show ?thesis using M'(2) [of va] that by (simp add: m2)
    qed
    moreover have "lv2 u = lv0 u" if "lv0 u \<noteq> 0" for u
    proof -
      have "lv u = lv0 u" using B that unfolding backing_def by blast
      then show ?thesis using M'(3) [of u] that by simp
    qed
    moreover have "same_tables m0 m2"
      using tabs M'(6) by (simp add: same_tables_def same_registers_def m2)
    ultimately show "backing m0 lv0 root start (c + 1) m2 lv2 (f(c := frame))"
      using old new zero by (auto simp: backing_def less_Suc_eq)
  qed
qed

lemma BackPages_backing:
  assumes "backing m0 lv0 root start c m lv f" and root: "PagingRootTable m0 = root"
    and small: "\<And>k. k < c + r \<Longrightarrow> small_path m0 root (arena_page start k)"
    and apart: "\<And>j k. j < k \<Longrightarrow> k < c + r \<Longrightarrow> \<not> same_page (arena_page start j) (arena_page start k)"
    and "BackPages start r c m = Inr (m', backed)"
  shows "if backed then \<exists>lv' f'. backing m0 lv0 root start (c + r) m' lv' f'
    else \<exists>k m1 lv1 f1. k < c + r \<and> backing m0 lv0 root start k m1 lv1 f1 \<and>
      fold_outcome (UndoPage start) [0..<k] m1 = Inr m'"
  using assms(1) small apart assms(5)
proof (induction r arbitrary: c m lv f)
  case (Suc r)
  obtain pool frame where alloc: "FrameAllocate (frames m) = (pool, frame)" by (meson surj_pair)
  show ?case
  proof (cases "frame = FRAME_ALLOCATION_FAILED")
    case True
    have "pool_ready (frames m)" using Suc.prems(1) by (simp add: backing_def hierarchy_def)
    then have "pool = frames m"
      using pmm.exhausted alloc True by (simp add: FrameAllocate_def)
    then have "fold_outcome (UndoPage start) [0..<c] m = Inr m'" "\<not> backed"
      using Suc.prems(4) alloc True by (auto simp: bind_outcome_Inr_iff)
    with Suc.prems(1) show ?thesis by (auto intro!: exI [of _ c])
  next
    case False
    then obtain m2 where map: "PagingMapKernelPage (arena_page start c) frame PAGE_ENTRY_WRITABLE
        (m\<lparr>frames := pool\<rparr>) = Inr m2"
      and rest: "BackPages start r (c + 1) m2 = Inr (m', backed)"
      using Suc.prems(4) alloc by (auto simp: bind_outcome_Inr_iff)
    obtain lv2 where "backing m0 lv0 root start (c + 1) m2 lv2 (f(c := frame))"
      by (rule backing_step [OF Suc.prems(1) root _ _ alloc False map])
        (use Suc.prems(2) [of c] Suc.prems(3) [of _ c] in auto)
    from Suc.IH [OF this Suc.prems(2) Suc.prems(3) rest] show ?thesis by (simp cong: if_cong)
  qed
qed (use assms(2) in auto)

subsection \<open>Giving pages back\<close>

lemma PagingUnmapKernelPage_Some:
  assumes w: "walk (physical m) va 4 (PagingRootTable m) = Some (1, e)"
    and l: "table1 (physical m) va 4 (PagingRootTable m) = Some l"
  shows "PagingUnmapKernelPage va m = PagingInvalidate va (store_entry l (PagingLevel1Index va) 0 m)"
proof -
  obtain e4 e3 e2 where "physical m (PagingRootTable m) (PagingLevel4Index va) = e4" "bit e4 0"
    "physical m (entry_address e4) (PagingLevel3Index va) = e3" "bit e3 0" "\<not> bit e3 7"
    "physical m (entry_address e3) (PagingLevel2Index va) = e2" "bit e2 0" "\<not> bit e2 7"
    "l = entry_address e2"
    by (rule table1_path [OF l])
  then show ?thesis
    by (simp add: PagingUnmapKernelPage_def Let_def entry_bits flip: entry_address_def)
qed

lemma page_offset_aligned: "IsPageAligned va \<Longrightarrow> page_offset (Suc 0) va = 0"
  by (simp add: page_offset_def IsPageAligned_def)

text \<open>What one page given back leaves.\<close>

definition given_back :: "paging_state \<Rightarrow> (u64 \<Rightarrow> nat) \<Rightarrow> u64 \<Rightarrow> (u64 \<Rightarrow> bool) \<Rightarrow> (nat \<Rightarrow> nat) \<Rightarrow> paging_state \<Rightarrow> bool" where
  "given_back m lv root pages released m' \<longleftrightarrow>
     hierarchy m' lv root \<and> same_tables m m' \<and>
     (\<forall>va. walk (physical m') va 4 root = (if pages va then None else walk (physical m) va 4 root)) \<and>
     (\<forall>i. frame_refs (frames m') i = frame_refs (frames m) i - released i) \<and>
     (\<forall>a. lv a \<noteq> 1 \<longrightarrow> physical m' a = physical m a)"

lemma UndoPage_effect:
  assumes H: "hierarchy m lv root" and roots: "PagingRootTable m = root" "PagingActiveTable m = root"
    and ack: "\<And>a. shootdown_acknowledged m a" and al: "IsPageAligned (arena_page start k)"
    and w: "walk (physical m) (arena_page start k) 4 root = Some (1, e)"
    and D: "data_frame m lv (entry_address e)"
  obtains m' where "UndoPage start k m = Inr m'" "FreePage start k m = Inr m'"
    "given_back m lv root (same_page (arena_page start k))
      (\<lambda>i. if i = FrameIndexOf (entry_address e) then 1 else 0) m'"
proof -
  let ?page = "arena_page start k" and ?a = "entry_address e"
  have T: "tree (physical m) lv root" and held: "tables_held m lv"
    using H by (simp_all add: hierarchy_def)
  obtain l where l: "table1 (physical m) ?page 4 root = Some l"
    using w walk_table1_root by fastforce
  have "frame_valid root" using held tree_root [OF T] by (simp add: tables_held_def)
  then have "PagingActiveTable m \<noteq> 0" using roots by (auto simp: frame_valid_def FRAME_ALLOCATION_FAILED_def)
  then have tr: "PagingTranslate ?page m = ?a"
    using w by (simp add: PagingTranslate_walk roots page_offset_aligned [OF al])
  have va: "frame_valid ?a" "0 < frame_refs (frames m) (FrameIndexOf ?a)" "lv ?a = 0"
    using D by (simp_all add: data_frame_def)
  define m1 where "m1 = store_entry l (PagingLevel1Index ?page) 0 m"
  have L: "leaf_written m lv root ?page 0 m1" unfolding m1_def by (rule store_leaf [OF H l])
  have m1: "frames m1 = frames m" "shootdown_acknowledged m1 = shootdown_acknowledged m"
    by (simp_all add: m1_def store_entry_def)
  have unmap: "PagingUnmapKernelPage ?page m = Inr (m1\<lparr>invalidated := ?page # invalidated m1\<rparr>)"
    using PagingUnmapKernelPage_Some [of m ?page e l] w l ack roots m1
    by (simp add: PagingInvalidate_Inr m1_def)
  have ready: "pool_ready (frames m)" using H by (simp add: hierarchy_def)
  obtain pool where free: "FrameFree ?a (frames m) = Inr pool" "pool_ready pool"
    "frame_refs pool = (frame_refs (frames m))(FrameIndexOf ?a := frame_refs (frames m) (FrameIndexOf ?a) - 1)"
    using pmm.released [OF ready va(1,2)] by blast
  define m' where "m' = m1\<lparr>invalidated := ?page # invalidated m1, frames := pool\<rparr>"
  have run: "UndoPage start k m = Inr m'"
    by (simp add: UndoPage_def Let_def tr unmap on_frames_def m1 free m'_def)
  moreover have "FreePage start k m = Inr m'"
    using run va(1) by (simp add: FreePage_def UndoPage_def tr frame_valid_def FRAME_ALLOCATION_FAILED_def)
  moreover have "tables_held m' lv"
    unfolding tables_held_def
  proof (intro allI impI)
    fix t assume t: "lv t \<noteq> 0"
    then have "frame_valid t" "0 < frame_refs (frames m) (FrameIndexOf t)"
      using held by (simp_all add: tables_held_def)
    moreover have "t \<noteq> ?a" using t va(3) by auto
    ultimately show "frame_valid t \<and> 0 < frame_refs (frames m') (FrameIndexOf t)"
      using frame_valid_eq [OF _ va(1), of t] by (auto simp: m'_def free(3))
  qed
  then have "given_back m lv root (same_page ?page) (\<lambda>i. if i = FrameIndexOf ?a then 1 else 0) m'"
    using L free by (auto simp: given_back_def leaf_written_def hierarchy_def m'_def same_tables_def
        same_registers_def)
  ultimately show thesis by (rule that)
qed

text \<open>The pages of a list, each mapped to a frame of its own that is no table.\<close>

definition owned_pages :: "paging_state \<Rightarrow> (u64 \<Rightarrow> nat) \<Rightarrow> u64 \<Rightarrow> u64 \<Rightarrow> nat list \<Rightarrow> (nat \<Rightarrow> u64) \<Rightarrow> bool" where
  "owned_pages m lv root start ks f \<longleftrightarrow>
     distinct ks \<and> inj_on f (set ks) \<and>
     (\<forall>k\<in>set ks. IsPageAligned (arena_page start k) \<and> data_frame m lv (f k) \<and>
        (\<exists>e. walk (physical m) (arena_page start k) 4 root = Some (1, e) \<and> entry_address e = f k)) \<and>
     (\<forall>j\<in>set ks. \<forall>k\<in>set ks. j \<noteq> k \<longrightarrow> \<not> same_page (arena_page start j) (arena_page start k))"

lemma give_back_pages:
  assumes "hierarchy m lv root" "PagingRootTable m = root" "PagingActiveTable m = root"
    and "\<And>a. shootdown_acknowledged m a" and "owned_pages m lv root start ks f"
  shows "\<exists>m'. fold_outcome (UndoPage start) ks m = Inr m' \<and> fold_outcome (FreePage start) ks m = Inr m' \<and>
    given_back m lv root (\<lambda>va. \<exists>k\<in>set ks. same_page (arena_page start k) va)
      (\<lambda>i. if \<exists>k\<in>set ks. i = FrameIndexOf (f k) then 1 else 0) m'"
  using assms
proof (induction ks arbitrary: m)
  case Nil
  then show ?case by (simp add: given_back_def same_tables_def)
next
  case (Cons k ks)
  obtain e where w: "walk (physical m) (arena_page start k) 4 root = Some (1, e)" "entry_address e = f k"
    and D: "data_frame m lv (entry_address e)" and al: "IsPageAligned (arena_page start k)"
    using Cons.prems(5) by (auto simp: owned_pages_def)
  obtain m1 where run: "UndoPage start k m = Inr m1" "FreePage start k m = Inr m1"
    and G: "given_back m lv root (same_page (arena_page start k))
      (\<lambda>i. if i = FrameIndexOf (f k) then 1 else 0) m1"
    using UndoPage_effect [OF Cons.prems(1-4) al w(1) D] w(2) by metis
  have other: "FrameIndexOf (f j) \<noteq> FrameIndexOf (f k)" if "j \<in> set ks" for j
  proof
    assume "FrameIndexOf (f j) = FrameIndexOf (f k)"
    then have "f j = f k" using Cons.prems(5) that
      by (intro frame_valid_eq) (auto simp: owned_pages_def data_frame_def)
    then show False using Cons.prems(5) that by (auto simp: owned_pages_def inj_on_def)
  qed
  have own: "owned_pages m1 lv root start ks f"
    unfolding owned_pages_def
  proof (intro conjI ballI impI)
    show "distinct ks" "inj_on f (set ks)" using Cons.prems(5) by (auto simp: owned_pages_def)
    show "\<not> same_page (arena_page start i) (arena_page start j)" if "i \<in> set ks" "j \<in> set ks" "i \<noteq> j" for i j
      using Cons.prems(5) that by (auto simp: owned_pages_def)
    fix j assume j: "j \<in> set ks"
    then have "j \<noteq> k" and "IsPageAligned (arena_page start j)" and Dj: "data_frame m lv (f j)"
      and e: "\<exists>e. walk (physical m) (arena_page start j) 4 root = Some (1, e) \<and> entry_address e = f j"
      using Cons.prems(5) by (auto simp: owned_pages_def)
    moreover have "\<not> same_page (arena_page start k) (arena_page start j)"
      using Cons.prems(5) j \<open>j \<noteq> k\<close> by (auto simp: owned_pages_def)
    ultimately show "IsPageAligned (arena_page start j)" "data_frame m1 lv (f j)"
      "\<exists>e. walk (physical m1) (arena_page start j) 4 root = Some (1, e) \<and> entry_address e = f j"
      using G other [OF j] by (simp_all add: given_back_def data_frame_def)
  qed
  have regs: "PagingRootTable m1 = root" "PagingActiveTable m1 = root" "\<And>a. shootdown_acknowledged m1 a"
    using G Cons.prems(2-4) by (simp_all add: given_back_def same_tables_def)
  have H1: "hierarchy m1 lv root" using G by (simp add: given_back_def)
  obtain m' where rest: "fold_outcome (UndoPage start) ks m1 = Inr m'" "fold_outcome (FreePage start) ks m1 = Inr m'"
    and G': "given_back m1 lv root (\<lambda>va. \<exists>k\<in>set ks. same_page (arena_page start k) va)
      (\<lambda>i. if \<exists>k\<in>set ks. i = FrameIndexOf (f k) then 1 else 0) m'"
    using Cons.IH [OF H1 regs own] by blast
  have "given_back m lv root (\<lambda>va. \<exists>k\<in>set (k # ks). same_page (arena_page start k) va)
      (\<lambda>i. if \<exists>k\<in>set (k # ks). i = FrameIndexOf (f k) then 1 else 0) m'"
    unfolding given_back_def
  proof (intro conjI allI impI)
    fix i
    have r: "frame_refs (frames m1) i = frame_refs (frames m) i - (if i = FrameIndexOf (f k) then 1 else 0)"
      "frame_refs (frames m') i = frame_refs (frames m1) i -
        (if \<exists>k\<in>set ks. i = FrameIndexOf (f k) then 1 else 0)"
      using G G' by (simp_all add: given_back_def)
    show "frame_refs (frames m') i = frame_refs (frames m) i -
        (if \<exists>k\<in>set (k # ks). i = FrameIndexOf (f k) then 1 else 0)"
    proof (cases "i = FrameIndexOf (f k)")
      case True
      then have "\<not> (\<exists>k\<in>set ks. i = FrameIndexOf (f k))" using other by metis
      with True r show ?thesis by simp
    qed (use r in simp)
  qed (use G G' in \<open>auto simp: given_back_def same_tables_def\<close>)
  then show ?case using run rest by simp
qed

subsection \<open>Allocating and freeing pages\<close>

text \<open>
  The arena in use: its free list stands, the kernel's hierarchy is the active one, and no
  page of the free address space is mapped.
\<close>

definition arena_backed :: "arena_state \<Rightarrow> (u64 \<Rightarrow> nat) \<Rightarrow> u64 \<Rightarrow> bool" where
  "arena_backed st lv root \<longleftrightarrow>
     arena_ok st \<and> hierarchy (paging st) lv root \<and>
     PagingRootTable (paging st) = root \<and> PagingActiveTable (paging st) = root \<and>
     (\<forall>a. shootdown_acknowledged (paging st) a) \<and>
     (\<forall>page. IsPageAligned page \<longrightarrow> unat page \<in> arena_available st \<longrightarrow>
        walk (physical (paging st)) page 4 root = None)"

lemma available_above: "arena_ok st \<Longrightarrow> b \<in> arena_available st \<Longrightarrow> unat KERNEL_ARENA_BASE \<le> b"
proof -
  assume ok: "arena_ok st" and b: "b \<in> arena_available st"
  have "unat KERNEL_ARENA_BASE - 1 < b" if "b \<in> range_bytes (ArenaFreeList st)"
    using ok that spaced_above by (fastforce simp: arena_ok_def)
  then show ?thesis using ok b by (auto simp: arena_ok_def arena_available_def)
qed

lemma page_in_region:
  assumes P: "arena_proper start n" and va: "unat KERNEL_ARENA_BASE \<le> unat va" "IsPageAligned va"
  shows "(\<exists>k<unat n. same_page (arena_page start k) va) \<longleftrightarrow> unat va \<in> arena_interval start n"
proof
  assume "\<exists>k<unat n. same_page (arena_page start k) va"
  then obtain k where k: "k < unat n" "same_page (arena_page start k) va" by blast
  then have "arena_page start k = va"
    using arena_page_in [OF P k(1)] va by (intro arena_page_unique)
  then show "unat va \<in> arena_interval start n" using arena_page_in(3) [OF P k(1)] by simp
next
  assume i: "unat va \<in> arena_interval start n"
  obtain a b where ab: "unat start = a * 4096" "unat va = b * 4096"
    using P va by (auto simp: arena_proper_def IsPageAligned_iff elim!: dvdE)
  then have k: "b - a < unat n" "a \<le> b" using i by (auto simp: arena_interval_def)
  have "unat (arena_page start (b - a)) = unat va"
    using arena_page_in(1) [OF P k(1)] k(2) ab by (simp add: diff_mult_distrib)
  then have "arena_page start (b - a) = va" by (simp add: word_unat_eq_iff)
  then show "\<exists>k<unat n. same_page (arena_page start k) va" using k(1) same_page_refl by metis
qed

lemma ArenaReserve_forfeited:
  "ArenaReserve n st = (st', r) \<Longrightarrow> ArenaRangesForfeited st' = ArenaRangesForfeited st"
  by (auto simp: ArenaReserve_def ArenaFreeListTake_def split: option.splits if_splits)

lemma reserve_backed:
  assumes I: "arena_backed st lv root" and n: "arena_admissible n"
    and res: "ArenaReserve n st = (st1, Some start)"
  shows "arena_ok st1" "arena_proper start n" "paging st1 = paging st"
    "arena_interval start n \<subseteq> arena_available st"
    "arena_available st1 = arena_available st - arena_interval start n"
    "k < unat n \<Longrightarrow> walk (physical (paging st)) (arena_page start k) 4 root = None"
proof -
  have ok: "arena_ok st" using I by (simp add: arena_backed_def)
  from arena.reserved [OF ok n res]
  show R: "arena_ok st1" "arena_proper start n" "arena_interval start n \<subseteq> arena_available st"
    "arena_available st1 = arena_available st - arena_interval start n" by simp_all
  show "paging st1 = paging st"
    using ArenaReserve_effect(2) [OF ok _ _ res] n by (simp add: arena_admissible_def)
  show "walk (physical (paging st)) (arena_page start k) 4 root = None" if "k < unat n"
    using I arena_page_in [OF R(2) that] R(3) by (auto simp: arena_backed_def)
qed

lemma KernelPagesAllocate_success:
  assumes I: "arena_backed st lv root" and n: "arena_admissible n"
    and run: "KernelPagesAllocate n st = Inr (st', start)" and got: "start \<noteq> 0"
  obtains lv' f where "arena_backed st' lv' root" "arena_proper start n"
    "arena_interval start n \<subseteq> arena_available st"
    "arena_available st' = arena_available st - arena_interval start n"
    "backing (paging st) lv root start (unat n) (paging st') lv' f"
    "ArenaPagesInUse st' = ArenaPagesInUse st + n"
proof -
  have n': "n \<noteq> 0" "\<not> ARENA_PAGE_CAPACITY < n" "n < ARENA_PAGE_CAPACITY"
    using n by (auto simp: arena_admissible_def)
  have H: "hierarchy (paging st) lv root" and roots: "PagingRootTable (paging st) = root"
    and ok: "arena_ok st"
    using I by (simp_all add: arena_backed_def)
  obtain st1 r where res0: "ArenaReserve n st = (st1, r)" by (cases "ArenaReserve n st")
  then obtain a where "r = Some a"
    using run n' got by (cases r) (auto simp: KernelPagesAllocate_def)
  with res0 have res: "ArenaReserve n st = (st1, Some a)" by simp
  note R = reserve_backed [OF I n res]
  obtain m' b where mapping0: "BackPages a (unat n) 0 (paging st) = Inr (m', b)"
    using run n' by (cases "BackPages a (unat n) 0 (paging st)")
      (auto simp: KernelPagesAllocate_def res R(3))
  have b: "b = True" using run n' got by (cases b) (simp_all add: KernelPagesAllocate_def res R(3) mapping0 Let_def)
  note mapping = mapping0 [unfolded b]
  have st': "start = a" "ArenaFreeList st' = ArenaFreeList st1"
      "ArenaBumpPointer st' = ArenaBumpPointer st1" "paging st' = m'"
      "ArenaPagesInUse st' = ArenaPagesInUse st1 + n"
    using run n' by (auto simp: KernelPagesAllocate_def res R(3) Let_def mapping)
  have "if True then \<exists>lv' f. backing (paging st) lv root a (0 + unat n) m' lv' f
    else \<exists>k m1 lv1 f1. k < 0 + unat n \<and> backing (paging st) lv root a k m1 lv1 f1 \<and>
      fold_outcome (UndoPage a) [0..<k] m1 = Inr m'"
    by (rule BackPages_backing [OF backing_start [OF H] roots _ _ mapping])
      (use R(6) arena_pages_apart [OF R(2)] in \<open>auto simp: small_path_def\<close>)
  then obtain lv' f where B: "backing (paging st) lv root a (unat n) m' lv' f" by auto
  have walks: "walk (physical m') page 4 root = None"
    if "IsPageAligned page" "unat page \<in> arena_available st1" for page
  proof -
    have "unat page \<in> arena_available st" "unat page \<notin> arena_interval a n" using that R(5) by auto
    moreover have "unat KERNEL_ARENA_BASE \<le> unat page"
      using available_above [OF ok] \<open>unat page \<in> arena_available st\<close> .
    ultimately have "\<forall>k<unat n. \<not> same_page (arena_page a k) page"
      using page_in_region [OF R(2) _ that(1)] by blast
    then have "walk (physical m') page 4 root = walk (physical (paging st)) page 4 root"
      using B unfolding backing_def by blast
    then show ?thesis using I that(1) \<open>unat page \<in> arena_available st\<close> by (simp add: arena_backed_def)
  qed
  have tabs: "same_tables (paging st) m'" "hierarchy m' lv' root" using B by (simp_all add: backing_def)
  have st'': "arena_ok st' = arena_ok st1" "arena_available st' = arena_available st1" "paging st' = m'"
    "ArenaPagesInUse st' = ArenaPagesInUse st1 + n"
    using st' by (simp_all add: arena_ok_def arena_available_def)
  have "arena_backed st' lv' root"
    using I R(1) tabs walks by (auto simp: arena_backed_def st'' same_tables_def)
  moreover have "ArenaPagesInUse st1 = ArenaPagesInUse st"
    using ArenaReserve_effect(3) [OF ok n'(1,3) res] .
  ultimately show thesis using that R B st'(1) by (simp add: st'')
qed

lemma backing_owned:
  assumes B: "backing m0 lv0 root start c m lv f" and P: "arena_proper start n" and c: "c \<le> unat n"
  shows "owned_pages m lv root start [0..<c] f"
  unfolding owned_pages_def
proof (intro conjI ballI impI)
  show "inj_on f (set [0..<c])" using B by (simp add: backing_def atLeast0LessThan)
  show "\<not> same_page (arena_page start i) (arena_page start j)"
    if "i \<in> set [0..<c]" "j \<in> set [0..<c]" "i \<noteq> j" for i j
    using arena_pages_apart [OF P] that c by simp
  fix k assume "k \<in> set [0..<c]"
  then have k: "k < c" by simp
  then have "walk (physical m) (arena_page start k) 4 root = Some (1, backed_entry (f k))"
    and D: "data_frame m lv (f k)"
    using B unfolding backing_def by blast+
  moreover have "entry_address (backed_entry (f k)) = f k"
    using D by (simp add: entry_address_backed data_frame_def)
  ultimately show "data_frame m lv (f k)"
    "\<exists>e. walk (physical m) (arena_page start k) 4 root = Some (1, e) \<and> entry_address e = f k" by auto
  show "IsPageAligned (arena_page start k)" using arena_page_in(2) [OF P] k c by simp
qed simp

text \<open>Backing some pages and giving them back leaves only new tables behind.\<close>

definition unwound :: "paging_state \<Rightarrow> (u64 \<Rightarrow> nat) \<Rightarrow> u64 \<Rightarrow> paging_state \<Rightarrow> (u64 \<Rightarrow> nat) \<Rightarrow> bool" where
  "unwound m lv root m' lv' \<longleftrightarrow>
     hierarchy m' lv' root \<and> same_tables m m' \<and>
     (\<forall>va. walk (physical m') va 4 root = walk (physical m) va 4 root) \<and>
     (\<forall>a. data_frame m lv a \<longrightarrow> data_frame m' lv' a \<and> physical m' a = physical m a) \<and>
     (\<forall>i. 0 < frame_refs (frames m) i \<longrightarrow> frame_refs (frames m') i = frame_refs (frames m) i) \<and>
     (\<forall>i. 0 < frame_refs (frames m') i \<longrightarrow>
        0 < frame_refs (frames m) i \<or> (\<exists>u. lv' u \<noteq> 0 \<and> FrameIndexOf u = i))"

lemma backing_unwound:
  assumes B: "backing m0 lv0 root start c m lv f" and P: "arena_proper start n" and c: "c \<le> unat n"
    and roots: "PagingRootTable m0 = root" "PagingActiveTable m0 = root"
    and ack: "\<And>a. shootdown_acknowledged m0 a"
    and free: "\<And>k. k < c \<Longrightarrow> walk (physical m0) (arena_page start k) 4 root = None"
    and run: "fold_outcome (UndoPage start) [0..<c] m = Inr m'"
  shows "unwound m0 lv0 root m' lv"
proof -
  have tabs: "same_tables m0 m" and H: "hierarchy m lv root" using B by (simp_all add: backing_def)
  have R: "PagingRootTable m = root" "PagingActiveTable m = root" "\<And>a. shootdown_acknowledged m a"
    using tabs roots ack by (simp_all add: same_tables_def)
  have G: "given_back m lv root (\<lambda>va. \<exists>k<c. same_page (arena_page start k) va)
      (\<lambda>i. if \<exists>k<c. i = FrameIndexOf (f k) then 1 else 0) m'"
    using give_back_pages [OF H R backing_owned [OF B P c]] run
    by (simp add: atLeast0LessThan Ball_def Bex_def)
  have pages: "\<And>k. k < c \<Longrightarrow> frame_refs (frames m0) (FrameIndexOf (f k)) = 0 \<and>
      data_frame m lv (f k) \<and> frame_refs (frames m) (FrameIndexOf (f k)) = 1"
    using B unfolding backing_def by blast
  have keep: "frame_refs (frames m') i = frame_refs (frames m0) i" if "0 < frame_refs (frames m0) i" for i
  proof -
    have "frame_refs (frames m) i = frame_refs (frames m0) i" using B that unfolding backing_def by blast
    moreover have "\<not> (\<exists>k<c. i = FrameIndexOf (f k))" using pages that by auto
    ultimately show ?thesis using G by (auto simp: given_back_def)
  qed
  have new: "0 < frame_refs (frames m0) i \<or> (\<exists>u. lv u \<noteq> 0 \<and> FrameIndexOf u = i)"
    if pos: "0 < frame_refs (frames m') i" for i
  proof (cases "\<exists>k<c. i = FrameIndexOf (f k)")
    case True
    then have "frame_refs (frames m') i = 0" using G pages by (auto simp: given_back_def)
    with pos show ?thesis by simp
  next
    case False
    then have "0 < frame_refs (frames m) i" using G pos by (simp add: given_back_def)
    with B False show ?thesis unfolding backing_def by blast
  qed
  have data: "data_frame m' lv a \<and> physical m' a = physical m0 a" if "data_frame m0 lv0 a" for a
  proof -
    have "data_frame m lv a" "physical m a = physical m0 a" using B that unfolding backing_def by blast+
    moreover have "0 < frame_refs (frames m') (FrameIndexOf a)"
      using keep [of "FrameIndexOf a"] that by (simp add: data_frame_def)
    ultimately show ?thesis using G by (simp add: given_back_def data_frame_def)
  qed
  have walks: "walk (physical m') va 4 root = walk (physical m0) va 4 root" for va
  proof (cases "\<exists>k<c. same_page (arena_page start k) va")
    case True
    then show ?thesis using G free walk_same_page [of _ va 4] by (auto simp: given_back_def)
  next
    case False
    then have "walk (physical m) va 4 root = walk (physical m0) va 4 root"
      using B unfolding backing_def by blast
    then show ?thesis using G False by (auto simp: given_back_def)
  qed
  show ?thesis
    using G tabs walks data keep new by (simp add: unwound_def given_back_def same_tables_def)
qed

text \<open>An allocation that fails for want of frames gives everything back but the tables it added.\<close>

lemma KernelPagesAllocate_failure:
  assumes I: "arena_backed st lv root" and n: "arena_admissible n"
    and run: "KernelPagesAllocate n st = Inr (st', 0)"
  obtains lv' where "arena_backed st' lv' root" "unwound (paging st) lv root (paging st') lv'"
    "ArenaPagesInUse st' = ArenaPagesInUse st"
    "arena_available st' = arena_available st \<or>
     ArenaRangesForfeited st' = ArenaRangesForfeited st + 1 \<and> arena_available st' \<subseteq> arena_available st"
proof -
  have n': "n \<noteq> 0" "\<not> ARENA_PAGE_CAPACITY < n" "n < ARENA_PAGE_CAPACITY"
    using n by (auto simp: arena_admissible_def)
  have H: "hierarchy (paging st) lv root" and roots: "PagingRootTable (paging st) = root"
    "PagingActiveTable (paging st) = root" and ok: "arena_ok st"
    and ack: "\<And>a. shootdown_acknowledged (paging st) a"
    using I by (simp_all add: arena_backed_def)
  obtain st1 r where res0: "ArenaReserve n st = (st1, r)" by (cases "ArenaReserve n st")
  show thesis
  proof (cases r)
    case None
    then have "st' = st"
      using run n' res0 arena.unchanged [OF ok n] by (simp add: KernelPagesAllocate_def)
    then show thesis
      using that [of lv] I H by (simp add: unwound_def same_tables_def)
  next
    case (Some a)
    then have res: "ArenaReserve n st = (st1, Some a)" using res0 by simp
    note R = reserve_backed [OF I n res]
    obtain m' b where mapping0: "BackPages a (unat n) 0 (paging st) = Inr (m', b)"
      using run n' by (cases "BackPages a (unat n) 0 (paging st)")
        (auto simp: KernelPagesAllocate_def res R(3))
    have "a \<noteq> 0" using R(2) by (auto simp: arena_proper_def arena_limits)
    then have b: "b = False"
      using run n' by (cases b) (simp_all add: KernelPagesAllocate_def res R(3) mapping0 Let_def)
    note mapping = mapping0 [unfolded b]
    define st2 where "st2 = st1\<lparr>paging := m'\<rparr>"
    have st': "st' = ArenaFreeListInsert a n st2"
      using run n' by (simp add: KernelPagesAllocate_def res R(3) mapping Let_def st2_def)
    have "if False then \<exists>lv' f. backing (paging st) lv root a (0 + unat n) m' lv' f
      else \<exists>k m1 lv1 f1. k < 0 + unat n \<and> backing (paging st) lv root a k m1 lv1 f1 \<and>
        fold_outcome (UndoPage a) [0..<k] m1 = Inr m'"
      by (rule BackPages_backing [OF backing_start [OF H] roots(1) _ _ mapping])
        (use R(6) arena_pages_apart [OF R(2)] in \<open>auto simp: small_path_def\<close>)
    then obtain k m1 lv1 f1 where k: "k < unat n" "backing (paging st) lv root a k m1 lv1 f1"
      "fold_outcome (UndoPage a) [0..<k] m1 = Inr m'" by auto
    have U: "unwound (paging st) lv root m' lv1"
      by (rule backing_unwound [OF k(2) R(2) _ roots ack _ k(3)]) (use k(1) R(6) in auto)
    have ok2: "arena_ok st2" and av2: "arena_available st2 = arena_available st1"
      and pg2: "paging st2 = m'" "ArenaPagesInUse st2 = ArenaPagesInUse st1"
      using R(1) by (simp_all add: st2_def arena_ok_def arena_available_def)
    have dis: "arena_interval a n \<inter> arena_available st2 = {}" using av2 R(5) by auto
    have forf: "ArenaRangesForfeited st2 = ArenaRangesForfeited st"
      using ArenaReserve_forfeited [OF res] by (simp add: st2_def)
    have low: "unat KERNEL_ARENA_BASE \<le> unat a" and top: "unat a + unat n * 4096 \<le> arena_end"
      and al: "IsPageAligned a" using R(2) by (simp_all add: arena_proper_def)
    note ins = ArenaFreeListInsert_ok [OF ok2 n'(1) low top al dis, folded st']
    have same: "arena_available st' = arena_available st \<or>
       ArenaRangesForfeited st' = ArenaRangesForfeited st + 1 \<and> arena_available st' \<subseteq> arena_available st"
      using ins(2) av2 R(4,5) forf by auto
    then have "arena_available st' \<subseteq> arena_available st" by auto
    then have "arena_backed st' lv1 root"
      using I U ins(1,3) pg2 by (auto simp: arena_backed_def unwound_def same_tables_def)
    moreover have "ArenaPagesInUse st' = ArenaPagesInUse st"
      using ins(4) pg2 ArenaReserve_effect(3) [OF ok n'(1,3) res] by simp
    ultimately show thesis using that U same ins(3) pg2 by simp
  qed
qed

lemma KernelPagesFree_returns:
  assumes I: "arena_backed st lv root" and P: "arena_proper start n"
    and held: "arena_interval start n \<inter> arena_available st = {}"
    and own: "owned_pages (paging st) lv root start [0..<unat n] f"
  obtains st' where "KernelPagesFree start n st = Inr st'" "arena_backed st' lv root"
    "given_back (paging st) lv root (\<lambda>va. \<exists>k<unat n. same_page (arena_page start k) va)
       (\<lambda>i. if \<exists>k<unat n. i = FrameIndexOf (f k) then 1 else 0) (paging st')"
    "ArenaPagesInUse st' = ArenaPagesInUse st - n"
    "arena_available st' = arena_available st \<union> arena_interval start n \<or>
     arena_available st' = arena_available st \<and>
     ArenaRangesForfeited st' = ArenaRangesForfeited st + 1"
proof -
  have low: "unat KERNEL_ARENA_BASE \<le> unat start" and top: "unat start + unat n * 4096 \<le> arena_end"
    and al: "IsPageAligned start" and n: "n \<noteq> 0" using P by (simp_all add: arena_proper_def)
  have ok: "arena_ok st" and H: "hierarchy (paging st) lv root"
    and R: "PagingRootTable (paging st) = root" "PagingActiveTable (paging st) = root"
      "\<And>a. shootdown_acknowledged (paging st) a"
    using I by (simp_all add: arena_backed_def)
  have n0: "0 < unat n" using n by (simp add: unat_gt_0)
  obtain m' where run: "fold_outcome (FreePage start) [0..<unat n] (paging st) = Inr m'"
    and G: "given_back (paging st) lv root (\<lambda>va. \<exists>k<unat n. same_page (arena_page start k) va)
       (\<lambda>i. if \<exists>k<unat n. i = FrameIndexOf (f k) then 1 else 0) m'"
    using give_back_pages [OF H R own] by (auto simp: atLeast0LessThan Ball_def Bex_def)
  define st2 where "st2 = st\<lparr>paging := m', ArenaPagesInUse := ArenaPagesInUse st - n\<rparr>"
  have "start \<noteq> 0" using low by (auto simp: arena_limits)
  moreover have "\<not> start < KERNEL_ARENA_BASE" using low by (simp add: word_less_nat_alt)
  moreover have "\<not> KERNEL_ARENA_BASE + KERNEL_ARENA_SIZE \<le> start"
    using top n0 by (simp add: word_le_nat_alt arena_limits)
  moreover have "\<not> (KERNEL_ARENA_BASE + KERNEL_ARENA_SIZE - start) div PAGE_SIZE < n"
  proof -
    have "unat (KERNEL_ARENA_BASE + KERNEL_ARENA_SIZE - start) = arena_end - unat start"
      using top by (subst unat_sub) (simp_all add: word_le_nat_alt arena_limits)
    then have "unat ((KERNEL_ARENA_BASE + KERNEL_ARENA_SIZE - start) div PAGE_SIZE) =
        (arena_end - unat start) div 4096"
      by (simp add: unat_div_distrib PAGE_SIZE_def)
    moreover have "unat n \<le> (arena_end - unat start) div 4096"
      using top by (simp add: less_eq_div_iff_mult_less_eq)
    ultimately show ?thesis by (simp add: word_less_nat_alt)
  qed
  ultimately have free: "KernelPagesFree start n st = Inr (ArenaFreeListInsert start n st2)"
    using n al run by (simp add: KernelPagesFree_def on_paging_def st2_def)
  have ok2: "arena_ok st2" and av2: "arena_available st2 = arena_available st"
    and st2: "paging st2 = m'" "ArenaPagesInUse st2 = ArenaPagesInUse st - n"
      "ArenaRangesForfeited st2 = ArenaRangesForfeited st"
    using ok by (simp_all add: st2_def arena_ok_def arena_available_def)
  note ins = ArenaFreeListInsert_ok [OF ok2 n low top al held [folded av2]]
  let ?st' = "ArenaFreeListInsert start n st2"
  have walks: "walk (physical m') page 4 root = None"
    if "IsPageAligned page" "unat page \<in> arena_available ?st'" for page
  proof (cases "unat page \<in> arena_available st")
    case True
    then show ?thesis using I that(1) G by (simp add: arena_backed_def given_back_def)
  next
    case False
    then have i: "unat page \<in> arena_interval start n" using that(2) ins(2) av2 by auto
    then have "\<exists>k<unat n. same_page (arena_page start k) page"
      using page_in_region [OF P _ that(1)] low by (simp add: arena_interval_def)
    then show ?thesis using G by (simp add: given_back_def)
  qed
  have "arena_backed ?st' lv root"
    using ins(1,3) st2(1) G R walks by (auto simp: arena_backed_def given_back_def same_tables_def)
  moreover have "arena_available ?st' = arena_available st \<union> arena_interval start n \<or>
     arena_available ?st' = arena_available st \<and> ArenaRangesForfeited ?st' = ArenaRangesForfeited st + 1"
    using ins(2) av2 st2(3) by auto
  ultimately show thesis using that free G ins(3,4) st2 by simp
qed

end
