(* ===== verification/Specimen.thy ===== *)
theory Specimen
  imports ArenaBacking
begin

text \<open>
  A small machine: concrete states on which the properties of the memory components are
  applied.  It has 320 frames of memory, of which the first 261 are in use: the low
  megabyte, four page tables from 0x100000 upwards and one frame of data at 0x104000, mapped
  at 0x400000.
\<close>

subsection \<open>Boot information\<close>

definition specimen_information :: BootInformation where
  "specimen_information =
     \<lparr>memory_regions =
        [\<lparr>base_address = 0, region_length = 0x9F000, region_type = BOOT_MEMORY_USABLE\<rparr>,
         \<lparr>base_address = 0x100000, region_length = 0x700000, region_type = BOOT_MEMORY_USABLE\<rparr>],
      highest_usable_address = 0x800000,
      kernel_physical_start = 0x100000, kernel_physical_end = 0x180000,
      boot_information_start = 0x180000, boot_information_end = 0x180400,
      modules = [\<lparr>module_start = 0x181000, module_end = 0x191000, module_label = ''initrd''\<rparr>]\<rparr>"

lemma specimen_bounded: "info_bounded specimen_information"
  by (simp add: info_bounded_def specimen_information_def region_bounded_def physical_limit_def)

lemma specimen_placed: "PhysicalMemoryPlaceBitmap specimen_information 256 = 0x181000"
  by (simp add: specimen_information_def PhysicalMemoryPlaceBitmap_def PlaceBitmapPass_def Let_def
      AlignUp_def PAGE_SIZE_def LOW_MEMORY_LIMIT_def)

subsection \<open>The frame pool\<close>

definition specimen_pool :: "u16 \<Rightarrow> frame_state" where
  "specimen_pool shares =
     \<lparr>FrameBitmap = replicate 4 (NOT 0) @ [0x1F], FrameCount = 320, FrameBitmapWordCount = 5,
      FrameFreeFrames = 59, FrameSearchHint = 261,
      FrameReferenceTable = Some (replicate 260 1 @ [shares] @ replicate 59 0),
      FrameReferenceHighWaterMark = 1, FrameBitmapPhysicalStart = 0x0, FrameBitmapPhysicalEnd = 0x0\<rparr>"

lemma specimen_fields [simp]:
  "FrameCount (specimen_pool k) = 320" "FrameSearchHint (specimen_pool k) = 261"
  by (simp_all add: specimen_pool_def)

lemma specimen_used: "i < 320 \<Longrightarrow> FrameIsUsed (specimen_pool k) i \<longleftrightarrow> i < 261"
proof -
  assume i: "i < 320"
  have m: "(0x1F :: u64) = mask 5" by (simp add: mask_eq_exp_minus_1)
  have split: "64 * (i div 64) + i mod 64 = i" by simp
  show ?thesis
  proof (cases "i div 64 < 4")
    case True
    then show ?thesis using split by (auto simp: FrameIsUsed_bit specimen_pool_def nth_append bit_not_iff)
  next
    case False
    with i have "i div 64 = 4" by simp
    then show ?thesis using split
      by (auto simp: FrameIsUsed_bit specimen_pool_def nth_append m bit_mask_iff)
  qed
qed

lemma specimen_pool_ok: "k \<noteq> 0 \<Longrightarrow> pool_ok (specimen_pool k)"
proof -
  assume k: "k \<noteq> 0"
  have "free_frames (specimen_pool k) = {261..<320}"
    using specimen_used [of _ k] by (auto simp: free_frames_def)
  then have "bitmap_ok (specimen_pool k)"
    by (simp add: bitmap_ok_def) (simp add: specimen_pool_def)
  moreover have "table_ok (specimen_pool k)"
  proof -
    have "((replicate 260 1 @ [k] @ replicate 59 0) ! i = 0) = (\<not> FrameIsUsed (specimen_pool k) i)"
      if "i < 320" for i
      using that k specimen_used [OF that] by (auto simp: nth_append nth_Cons split: nat.split)
    then show ?thesis by (simp add: table_ok_def) (simp add: specimen_pool_def)
  qed
  ultimately show ?thesis by (simp add: pool_ok_def)
qed

lemma specimen_refs:
  "frame_refs (specimen_pool k) i =
     (if i < 260 then 1 else if i = 260 then unat k else 0)"
  by (auto simp: frame_refs_def specimen_pool_def nth_append nth_Cons split: nat.split)

lemma specimen_pool_ready: "k \<noteq> 0 \<Longrightarrow> pool_ready (specimen_pool k)"
  using specimen_pool_ok by (simp add: pool_ready_def specimen_refs) (simp add: specimen_pool_def)

subsection \<open>The hierarchy\<close>

definition specimen_memory :: "u64 \<Rightarrow> u64 \<Rightarrow> nat \<Rightarrow> u64" where
  "specimen_memory leaf t i =
     (if t = 0x100000 \<and> i = 0 then 0x101007 else if t = 0x101000 \<and> i = 0 then 0x102007
      else if t = 0x102000 \<and> i = 2 then 0x103007 else if t = 0x103000 \<and> i = 0 then leaf
      else if t = 0x104000 then word_of_nat i else 0)"

definition specimen_levels :: "u64 \<Rightarrow> nat" where
  "specimen_levels t =
     (if t = 0x100000 then 4 else if t = 0x101000 then 3 else if t = 0x102000 then 2
      else if t = 0x103000 then 1 else 0)"

definition specimen_paging :: "u16 \<Rightarrow> u64 \<Rightarrow> paging_state" where
  "specimen_paging shares leaf =
     \<lparr>frames = specimen_pool shares, physical = specimen_memory leaf,
      PagingRootTable = 0x100000, PagingActiveTable = 0x100000, PagingTableFrameCount = 4,
      PagingDirectMapActive = True, PagingDirectMapBytes = 0x200000, PagingCopyOnWriteFaults = 0,
      PagingCopyOnWriteCopies = 0, PagingCopyOnWriteSoleOwners = 0, write_protected = True,
      invalidated = [], shootdown_acknowledged = (\<lambda>_. True)\<rparr>"

lemma specimen_links:
  "2 \<le> specimen_levels t \<Longrightarrow> links (specimen_levels t) (specimen_memory leaf t i) \<Longrightarrow>
     (t = 0x100000 \<and> i = 0 \<or> t = 0x101000 \<and> i = 0 \<or> t = 0x102000 \<and> i = 2)"
  by (auto simp: specimen_levels_def specimen_memory_def links_def split: if_splits)

lemma specimen_addresses:
  "entry_address (specimen_memory leaf 0x100000 0) = 0x101000"
  "entry_address (specimen_memory leaf 0x101000 0) = 0x102000"
  "entry_address (specimen_memory leaf 0x102000 2) = 0x103000"
  by (simp_all add: specimen_memory_def entry_address_def PAGE_ENTRY_ADDRESS_MASK_def)

lemma specimen_tree: "tree (specimen_memory leaf) specimen_levels 0x100000"
proof -
  have down: "specimen_levels (entry_address (specimen_memory leaf t i)) = specimen_levels t - 1"
    if "2 \<le> specimen_levels t" "links (specimen_levels t) (specimen_memory leaf t i)" for t i
    using specimen_links [OF that] specimen_addresses [of leaf] by (auto simp: specimen_levels_def)
  have one: "t = t' \<and> i = i'"
    if "2 \<le> specimen_levels t" "2 \<le> specimen_levels t'"
      "links (specimen_levels t) (specimen_memory leaf t i)"
      "links (specimen_levels t') (specimen_memory leaf t' i')"
      "entry_address (specimen_memory leaf t i) = entry_address (specimen_memory leaf t' i')" for t i t' i'
    using specimen_links [OF that(1,3)] specimen_links [OF that(2,4)] specimen_addresses [of leaf] that(5)
    by auto
  have "specimen_levels 0x100000 = 4" "specimen_levels t \<le> 4" for t by (simp_all add: specimen_levels_def)
  with down one show ?thesis unfolding tree_def by blast
qed

lemma specimen_hierarchy:
  assumes "k \<noteq> 0"
  shows "hierarchy (specimen_paging k leaf) specimen_levels 0x100000"
proof -
  have "frame_valid t \<and> 0 < frame_refs (specimen_pool k) (FrameIndexOf t)" if "specimen_levels t \<noteq> 0" for t
    using that
    by (auto simp: specimen_levels_def frame_valid_def IsPageAligned_def PAGE_SIZE_def
        FRAME_ALLOCATION_FAILED_def unat_FrameIndexOf specimen_refs split: if_splits)
  then show ?thesis
    using specimen_pool_ready [OF assms] specimen_tree [of leaf]
    by (simp add: hierarchy_def tables_held_def specimen_paging_def)
qed

lemma specimen_walk:
  "bit leaf 0 \<Longrightarrow>
     walk (physical (specimen_paging k leaf)) 0x400000 4 0x100000 = Some (1, leaf)"
  by (simp add: walk_levels Let_def specimen_paging_def specimen_memory_def PagingLevel4Index_def
      PagingLevel3Index_def PagingLevel2Index_def PagingLevel1Index_def entry_address_def
      PAGE_ENTRY_ADDRESS_MASK_def)

lemma specimen_data:
  "k \<noteq> 0 \<Longrightarrow> data_frame (specimen_paging k leaf) specimen_levels 0x104000"
  by (simp add: data_frame_def specimen_paging_def specimen_levels_def frame_valid_def IsPageAligned_def
      PAGE_SIZE_def FRAME_ALLOCATION_FAILED_def unat_FrameIndexOf specimen_refs unat_gt_0)

end
