(* ===== verification/FrameProperties.thy ===== *)
theory FrameProperties
  imports Specimen
begin

text \<open>
  The properties of the physical frame allocator (\<open>kernel/mm/pmm.c\<close>), each with the machine
  on which its hypotheses hold.
\<close>

subsection \<open>Initialisation\<close>

text \<open>C1: After initialisation a frame is free exactly when it lies wholly within a region
  the loader called usable and meets no reserved extent (the low megabyte, the kernel image, the
  boot information, the bitmap itself, the boot modules); and the free count the allocator reports
  is the number of those frames.\<close>

theorem initialise_frees_exactly:
  assumes info: "info_bounded info" and init: "PhysicalMemoryInitialise info s0 = Inr s"
  shows "(\<forall>j < FrameCount s. \<not> FrameIsUsed s j \<longleftrightarrow>
      (\<exists>r \<in> set (memory_regions info). region_type r = BOOT_MEMORY_USABLE
          \<and> frame_within j (base_address r) (base_address r + region_length r)) \<and>
      (\<forall>e \<in> set (reserved_extents info (FrameBitmapPhysicalStart s) (FrameBitmapPhysicalEnd s)).
          \<not> frame_meets j (fst e) (snd e)))
    \<and> unat (FrameFreeCount s) = card {j. j < FrameCount s \<and> \<not> FrameIsUsed s j}"
proof -
  note st = PhysicalMemoryInitialise_stages [OF info init]
  note spec = initial_frames_spec [OF info st(1), where ?s0.0 = s0]
  have "unat (FrameFreeFrames (initial_frames info s0)) =
      card {j. j < FrameCount (initial_frames info s0) \<and> \<not> FrameIsUsed (initial_frames info s0) j}"
    using spec(1) by (simp add: bitmap_ok_def free_frames_def)
  then show ?thesis using spec(3) by (auto simp: st(2) FrameFreeCount_def)
qed

lemma specimen_initialises:
  "\<exists>s. PhysicalMemoryInitialise specimen_information s0 = Inr s"
proof -
  have "highest_usable_address specimen_information = 0x800000" by (simp add: specimen_information_def)
  then show ?thesis
    by (simp add: PhysicalMemoryInitialise_def Let_def FRAME_BITS_PER_WORD_def unat_FrameIndexOf
        AlignUp_def PAGE_SIZE_def specimen_placed FRAME_ALLOCATION_FAILED_def)
qed

theorem initialise_frees_exactly_witness:
  "\<exists>s. PhysicalMemoryInitialise specimen_information (specimen_pool 1) = Inr s
    \<and> unat (FrameFreeCount s) = card {j. j < FrameCount s \<and> \<not> FrameIsUsed s j}"
  using specimen_initialises [of "specimen_pool 1"] initialise_frees_exactly [OF specimen_bounded] by blast

text \<open>Where the bitmap is placed: page aligned, above the low megabyte and below the
  gigabyte the boot mapping reaches, wholly inside one usable region, and clear of the kernel image
  and of the boot information, for every memory map the loader can report.\<close>

theorem bitmap_placed_safely:
  assumes "info_bounded info" "unat n \<le> 2 ^ 50"
    and "PhysicalMemoryPlaceBitmap info n \<noteq> FRAME_ALLOCATION_FAILED"
  shows "IsPageAligned (PhysicalMemoryPlaceBitmap info n)
    \<and> LOW_MEMORY_LIMIT \<le> PhysicalMemoryPlaceBitmap info n
    \<and> unat (PhysicalMemoryPlaceBitmap info n) + unat n \<le> 0x40000000
    \<and> (\<exists>r \<in> set (memory_regions info). region_type r = BOOT_MEMORY_USABLE \<and>
         unat (base_address r) \<le> unat (PhysicalMemoryPlaceBitmap info n) \<and>
         unat (PhysicalMemoryPlaceBitmap info n) + unat n
           \<le> unat (base_address r) + unat (region_length r))
    \<and> clear_of (PhysicalMemoryPlaceBitmap info n) n (kernel_physical_start info) (kernel_physical_end info)
    \<and> clear_of (PhysicalMemoryPlaceBitmap info n) n
         (boot_information_start info) (boot_information_end info)"
  using PhysicalMemoryPlaceBitmap_ok [OF assms] by (simp add: placement_ok_def candidate_ok_def)

theorem bitmap_placed_safely_witness:
  "IsPageAligned (PhysicalMemoryPlaceBitmap specimen_information 256)
    \<and> clear_of (PhysicalMemoryPlaceBitmap specimen_information 256) 256
        (boot_information_start specimen_information) (boot_information_end specimen_information)"
  using bitmap_placed_safely [OF specimen_bounded, of 256]
  by (simp add: specimen_placed FRAME_ALLOCATION_FAILED_def)

text \<open>The placement does not look at the boot modules at all: with any other list of
  modules it chooses the same place.  So the bitmap, which initialisation writes before it reserves
  the modules, can be put over one: on the specimen machine it is put over the initial ramdisk.\<close>

theorem bitmap_ignores_modules:
  "PhysicalMemoryPlaceBitmap (info\<lparr>modules := ms\<rparr>) n = PhysicalMemoryPlaceBitmap info n
   \<and> (\<exists>m \<in> set (modules specimen_information).
        \<not> clear_of (PhysicalMemoryPlaceBitmap specimen_information (bitmap_bytes specimen_information))
             (bitmap_bytes specimen_information) (module_start m) (module_end m))"
proof -
  have "PlaceBitmapPass (info\<lparr>modules := ms\<rparr>) n c = PlaceBitmapPass info n c" for c
    by (simp add: PlaceBitmapPass_steps)
  then have "PlaceBitmapScan (info\<lparr>modules := ms\<rparr>) n rs = PlaceBitmapScan info n rs" for rs
    by (induction rs) (simp_all add: Let_def)
  moreover have "bitmap_bytes specimen_information = 256"
    by (simp add: bitmap_bytes_def governed_frames_def specimen_information_def)
  ultimately show ?thesis
    by (simp add: PhysicalMemoryPlaceBitmap_def [of "info\<lparr>modules := ms\<rparr>"]
        PhysicalMemoryPlaceBitmap_def [of info] specimen_placed clear_of_def)
      (simp add: specimen_information_def)
qed

subsection \<open>Allocation and release\<close>

text \<open>An allocation below a limit returns a free frame below it, marks that frame alone
  and lowers the free count by one; and it fails only where no frame from the first megabyte up to
  the limit is free, leaving the state as it was.\<close>

theorem allocate_below_complete:
  assumes ok: "pool_ok s" and run: "FrameAllocateBelow limit s = (s', a)"
  shows "(\<exists>i < FrameCount s. i < FrameIndexOf (AlignDown limit PAGE_SIZE) \<and> \<not> FrameIsUsed s i \<and>
        a = FrameAddressOf i \<and> pool_ok s' \<and>
        (\<forall>j. FrameIsUsed s' j \<longleftrightarrow> j = i \<or> FrameIsUsed s j) \<and>
        unat (FrameFreeCount s') + 1 = unat (FrameFreeCount s))
    \<or> a = FRAME_ALLOCATION_FAILED \<and> s' = s \<and>
      (\<forall>j. 256 \<le> j \<longrightarrow> j < FrameCount s \<longrightarrow> j < FrameIndexOf (AlignDown limit PAGE_SIZE) \<longrightarrow>
         FrameIsUsed s j)"
proof (cases rule: FrameAllocateBelow_cases [OF ok, of limit, case_names issued refused])
  case (issued i)
  then have "FrameIssue i s = (s', a)" using run by simp
  note eff = FrameIssue_effect [OF ok issued(1,3) this]
  then show ?thesis using issued by (auto simp: FrameFreeCount_def)
next
  case refused
  then show ?thesis using run by auto
qed

theorem allocate_below_complete_witness:
  "\<exists>s' a. FrameAllocateBelow 0x140000 (specimen_pool 1) = (s', a) \<and>
     (a = FRAME_ALLOCATION_FAILED \<longrightarrow> (\<forall>j. 256 \<le> j \<longrightarrow> j < 320 \<longrightarrow> FrameIsUsed (specimen_pool 1) j))"
proof -
  obtain s' a where run: "FrameAllocateBelow 0x140000 (specimen_pool 1) = (s', a)" by (meson surj_pair)
  have "FrameIndexOf (AlignDown 0x140000 PAGE_SIZE) = 320" "FrameCount (specimen_pool 1) = 320"
    by (simp_all add: unat_FrameIndexOf unat_AlignDown specimen_pool_def)
  moreover have "FrameAddressOf i \<noteq> FRAME_ALLOCATION_FAILED" if "i < 320" "\<not> FrameIsUsed (specimen_pool 1) i" for i
  proof
    assume "FrameAddressOf i = FRAME_ALLOCATION_FAILED"
    then have "i * 4096 = 0" using unat_FrameAddressOf [of i] that by (simp add: FRAME_ALLOCATION_FAILED_def)
    then show False using that specimen_used [of i 1] by simp
  qed
  ultimately show ?thesis
    using allocate_below_complete [OF specimen_pool_ok run] run by (metis one_neq_zero)
qed

text \<open>C2: However frames have been taken, shared and given back, a frame the allocator
  issues is one nobody holds: no two holders are ever given the same frame.\<close>

theorem frame_never_reissued:
  assumes "(holding_step FrameIndexOf FRAME_ALLOCATION_FAILED frame_valid FrameAllocateBelow FrameFree
      FrameReferenceIncrement)\<^sup>*\<^sup>* (s0, \<lambda>_. 0) (s, h)"
    and "pool_ready s0" and "FrameAllocateBelow limit s = (s', a)" and "a \<noteq> FRAME_ALLOCATION_FAILED"
  shows "h (FrameIndexOf a) = 0"
  using assms by (rule pmm.never_reissued)

lemma specimen_allocates:
  "FrameAllocateBelow 0x140000 (specimen_pool 1) = FrameIssue 261 (specimen_pool 1)"
proof -
  have lim: "FrameIndexOf (AlignDown 0x140000 PAGE_SIZE) = 320"
    by (simp add: unat_FrameIndexOf unat_AlignDown)
  have "FrameSearch (specimen_pool 1) 261 320 = Some 261"
    using specimen_used [of 261 1] by (subst FrameSearch.simps) (simp add: FRAME_BITS_PER_WORD_def)
  then show ?thesis
    by (simp add: FrameAllocateBelow_def lim)
qed

theorem frame_never_reissued_witness:
  "\<exists>s h s' a. (holding_step FrameIndexOf FRAME_ALLOCATION_FAILED frame_valid FrameAllocateBelow FrameFree
      FrameReferenceIncrement)\<^sup>*\<^sup>* (specimen_pool 1, \<lambda>_. 0) (s, h) \<and> h 261 = 1 \<and>
      FrameAllocateBelow 0x140000 s = (s', a) \<and> (a \<noteq> FRAME_ALLOCATION_FAILED \<longrightarrow> FrameIndexOf a \<noteq> 261)"
proof -
  obtain s a where run: "FrameAllocateBelow 0x140000 (specimen_pool 1) = (s, a)" by (meson surj_pair)
  have a: "a = FrameAddressOf 261"
    using run by (simp add: specimen_allocates FrameIssue_def Let_def split: option.splits)
  then have "a \<noteq> FRAME_ALLOCATION_FAILED"
    by (simp add: FrameAddressOf_def PAGE_SHIFT_def FRAME_ALLOCATION_FAILED_def)
  then have "holding_step FrameIndexOf FRAME_ALLOCATION_FAILED frame_valid FrameAllocateBelow FrameFree
      FrameReferenceIncrement (specimen_pool 1, \<lambda>_. 0) (s, (\<lambda>_. 0)(FrameIndexOf a := 0 + 1))"
    using run by (metis holding_step.take)
  moreover have "FrameIndexOf a = 261" by (simp add: a)
  ultimately have step: "(holding_step FrameIndexOf FRAME_ALLOCATION_FAILED frame_valid FrameAllocateBelow
      FrameFree FrameReferenceIncrement)\<^sup>*\<^sup>* (specimen_pool 1, \<lambda>_. 0) (s, (\<lambda>_. 0)(261 := 1))" by simp
  obtain s' b where again: "FrameAllocateBelow 0x140000 s = (s', b)" by (meson surj_pair)
  have "FrameIndexOf b \<noteq> 261" if "b \<noteq> FRAME_ALLOCATION_FAILED"
    using frame_never_reissued [OF step specimen_pool_ready again that] by auto
  with step again show ?thesis by (intro exI) auto
qed

text \<open>Every holder can give back what it holds: after any sequence of takes, shares and
  releases, releasing a held frame returns and does not panic.\<close>

theorem held_frame_releases:
  assumes "(holding_step FrameIndexOf FRAME_ALLOCATION_FAILED frame_valid FrameAllocateBelow FrameFree
      FrameReferenceIncrement)\<^sup>*\<^sup>* (s0, \<lambda>_. 0) (s, h)"
    and "pool_ready s0" and "frame_valid a" and "0 < h (FrameIndexOf a)"
  shows "\<exists>s'. FrameFree a s = Inr s'"
  using assms by (rule pmm.held_release_returns)

theorem held_frame_releases_witness:
  "\<exists>s s'. FrameAllocateBelow 0x140000 (specimen_pool 1) = (s, FrameAddressOf 261)
     \<and> FrameFree (FrameAddressOf 261) s = Inr s'"
proof -
  let ?a = "FrameAddressOf 261"
  obtain s where run: "FrameAllocateBelow 0x140000 (specimen_pool 1) = (s, ?a)"
    by (simp add: specimen_allocates FrameIssue_def Let_def)
  have v: "frame_valid ?a"
    by (simp add: frame_valid_def unat_FrameAddressOf)
      (simp add: FrameAddressOf_def PAGE_SHIFT_def FRAME_ALLOCATION_FAILED_def)
  then have "holding_step FrameIndexOf FRAME_ALLOCATION_FAILED frame_valid FrameAllocateBelow FrameFree
      FrameReferenceIncrement (specimen_pool 1, \<lambda>_. 0) (s, (\<lambda>_. 0)(FrameIndexOf ?a := 0 + 1))"
    using run by (metis holding_step.take frame_valid_def)
  then have reach: "(holding_step FrameIndexOf FRAME_ALLOCATION_FAILED frame_valid FrameAllocateBelow
      FrameFree FrameReferenceIncrement)\<^sup>*\<^sup>* (specimen_pool 1, \<lambda>_. 0)
      (s, (\<lambda>_. 0)(FrameIndexOf ?a := 0 + 1))" by (rule r_into_rtranclp)
  have "\<exists>s'. FrameFree ?a s = Inr s'"
    by (rule held_frame_releases [OF reach _ v]) (simp_all add: specimen_pool_ready)
  with run show ?thesis by blast
qed

text \<open>A release is accepted exactly for an aligned frame that has a reference; it takes
  that one reference away, and the frame becomes free when it was the last.  Every other release
  panics.\<close>

theorem free_exactly_referenced:
  assumes ok: "pool_ok s"
  shows "((\<exists>s'. FrameFree a s = Inr s') \<longleftrightarrow> IsPageAligned a \<and> 0 < frame_refs s (FrameIndexOf a)) \<and>
    (\<forall>s'. FrameFree a s = Inr s' \<longrightarrow> pool_ok s' \<and>
      frame_refs s' = (frame_refs s)(FrameIndexOf a := frame_refs s (FrameIndexOf a) - 1) \<and>
      (FrameIsUsed s' (FrameIndexOf a) \<longleftrightarrow> 1 < frame_refs s (FrameIndexOf a)))"
proof (cases "IsPageAligned a \<and> 0 < frame_refs s (FrameIndexOf a)")
  case True
  then have i: "FrameIndexOf a < FrameCount s" by (simp add: frame_refs_def split: if_splits)
  obtain t where t: "FrameFree a s = Inr t" "pool_ok t" "FrameCount t = FrameCount s"
    "frame_refs t = (frame_refs s)(FrameIndexOf a := frame_refs s (FrameIndexOf a) - 1)"
    using FrameFree_effect [OF ok] True by metis
  then have "FrameIsUsed t (FrameIndexOf a) \<longleftrightarrow> 1 < frame_refs s (FrameIndexOf a)"
    using frame_refs_zero [OF t(2), of "FrameIndexOf a"] i by auto
  then show ?thesis using t True by auto
next
  case False
  then show ?thesis using FrameFree_panics [OF ok, of a] by auto
qed

theorem free_exactly_referenced_witness:
  "(\<exists>s'. FrameFree 0x104000 (specimen_pool 2) = Inr s') \<and> \<not> (\<exists>s'. FrameFree 0x105000 (specimen_pool 2) = Inr s')"
proof -
  have "pool_ok (specimen_pool 2)" by (rule specimen_pool_ok) simp
  note F = free_exactly_referenced [OF this, THEN conjunct1]
  show ?thesis unfolding F by (simp add: IsPageAligned_def PAGE_SIZE_def unat_FrameIndexOf specimen_refs)
qed

end
