(* ===== verification/PagingProperties.thy ===== *)
theory PagingProperties
  imports Specimen
begin

text \<open>
  The properties of the paging hierarchy and of copy-on-write
  (\<open>kernel/arch/x86_64/mm/paging.c\<close>), each with the machine on which its hypotheses hold.
\<close>

subsection \<open>Mapping\<close>

lemma small_other_page:
  "walk (physical m) va 4 root = None \<Longrightarrow> small_path m root va"
  by (simp add: small_path_def)

lemma PagingTranslate_hierarchy:
  assumes "hierarchy m lv root" "PagingActiveTable m = root"
  shows "PagingTranslate va m = (case walk (physical m) va 4 root of None \<Rightarrow> 0
    | Some (k, e) \<Rightarrow> entry_address e + page_offset k va)"
proof -
  have "frame_valid root"
    using assms(1) tree_root [of "physical m" lv root] by (simp add: hierarchy_def tables_held_def)
  then have "root \<noteq> 0" by (simp add: frame_valid_def FRAME_ALLOCATION_FAILED_def)
  then show ?thesis using assms(2) by (simp add: PagingTranslate_walk)
qed

lemma specimen_maps:
  "\<exists>m'. PagingMapPage 0x100000 0x401000 0x105000 7 (specimen_paging k leaf) = Inr m'"
  by (simp add: PagingMapPage_def PagingObtainTable_def Let_def store_entry_def specimen_paging_def
      specimen_memory_def PagingLevel4Index_def PagingLevel3Index_def PagingLevel2Index_def
      PAGE_ENTRY_PRESENT_def PAGE_ENTRY_USER_def PAGE_ENTRY_ADDRESS_MASK_def)

lemma specimen_absent:
  "walk (physical (specimen_paging k leaf)) 0x401000 4 0x100000 = None"
  by (simp add: walk_levels Let_def specimen_paging_def specimen_memory_def PagingLevel4Index_def
      PagingLevel3Index_def PagingLevel2Index_def PagingLevel1Index_def entry_address_def
      PAGE_ENTRY_ADDRESS_MASK_def)

text \<open>C3: Mapping a page beneath no large page makes its addresses translate to the frame
  given, makes it reachable from user mode where the flags say so, and changes the translation of no
  address of another page, whatever tables it had to create.\<close>

theorem map_page_translates:
  assumes H: "hierarchy m lv root" and active: "PagingActiveTable m = root"
    and small: "small_path m root va" and flags: "entry_address flags = 0"
    and run: "PagingMapPage root va pa flags m = Inr m'"
  shows "PagingTranslate va m' = entry_address pa + (va AND (PAGE_SIZE - 1)) \<and>
    (bit flags 2 \<longrightarrow> PagingAddressIsUser va m') \<and>
    (\<forall>va'. \<not> same_page va va' \<longrightarrow> PagingTranslate va' m' = PagingTranslate va' m)"
proof -
  obtain lv' where M: "mapped m lv root va pa flags m' lv'"
    by (rule PagingMapPage_effect [OF H small run])
  then have H': "hierarchy m' lv' root" and act': "PagingActiveTable m' = root"
    and w: "\<And>va'. walk (physical m') va' 4 root =
      (if same_page va va' then Some (1, leaf_entry pa flags) else walk (physical m) va' 4 root)"
    and user: "bit flags 2 \<longrightarrow> PagingAddressIsUser va m'"
    using active by (simp_all add: mapped_def same_registers_def)
  show ?thesis
    using w [of va] w user flags
    by (simp add: PagingTranslate_hierarchy [OF H' act'] PagingTranslate_hierarchy [OF H active]
        entry_address_leaf page_offset_def)
qed

theorem map_page_translates_witness:
  "\<exists>m'. PagingMapPage 0x100000 0x401000 0x105000 7 (specimen_paging 1 0x104007) = Inr m'
     \<and> PagingTranslate 0x401234 m' = PagingTranslate 0x401234 m' \<and> PagingAddressIsUser 0x401000 m'
     \<and> PagingTranslate 0x401000 m' = 0x105000
     \<and> PagingTranslate 0x400010 m' = PagingTranslate 0x400010 (specimen_paging 1 0x104007)"
proof -
  obtain m' where run: "PagingMapPage 0x100000 0x401000 0x105000 7 (specimen_paging 1 0x104007) = Inr m'"
    using specimen_maps by blast
  have H: "hierarchy (specimen_paging 1 0x104007) specimen_levels 0x100000"
    by (rule specimen_hierarchy) simp
  have act: "PagingActiveTable (specimen_paging 1 0x104007) = 0x100000"
    by (simp add: specimen_paging_def)
  have "\<not> same_page 0x401000 0x400010"
    by (simp add: same_page_def level_index_def PagingLevel1Index_def)
  moreover have "bit (7 :: u64) 2" by (simp add: bit_numeral_rec)
  ultimately show ?thesis
    using run map_page_translates [OF H act small_other_page [OF specimen_absent] _ run]
    by (simp add: entry_address_def PAGE_ENTRY_ADDRESS_MASK_def PAGE_SIZE_def)
qed

text \<open>Mapping keeps the hierarchy a tree of tables the pool has issued, and leaves alone
  the contents and the reference counts of every frame somebody else holds.\<close>

theorem map_page_keeps_frames:
  assumes H: "hierarchy m lv root" and small: "small_path m root va"
    and run: "PagingMapPage root va pa flags m = Inr m'"
  shows "\<exists>lv'. hierarchy m' lv' root \<and> (\<forall>t. lv t \<noteq> 0 \<longrightarrow> lv' t = lv t) \<and>
    (\<forall>a. data_frame m lv a \<longrightarrow> data_frame m' lv' a \<and> physical m' a = physical m a) \<and>
    (\<forall>i. 0 < frame_refs (frames m) i \<longrightarrow> frame_refs (frames m') i = frame_refs (frames m) i)"
proof -
  obtain lv' where "mapped m lv root va pa flags m' lv'"
    by (rule PagingMapPage_effect [OF H small run])
  then show ?thesis unfolding mapped_def by blast
qed

theorem map_page_keeps_frames_witness:
  "\<exists>m'. PagingMapPage 0x100000 0x401000 0x105000 7 (specimen_paging 1 0x104007) = Inr m'
     \<and> physical m' 0x104000 = physical (specimen_paging 1 0x104007) 0x104000"
proof -
  obtain m' where run: "PagingMapPage 0x100000 0x401000 0x105000 7 (specimen_paging 1 0x104007) = Inr m'"
    using specimen_maps by blast
  have H: "hierarchy (specimen_paging 1 0x104007) specimen_levels 0x100000"
    by (rule specimen_hierarchy) simp
  have D: "data_frame (specimen_paging 1 0x104007) specimen_levels 0x104000"
    by (rule specimen_data) simp
  show ?thesis
    using map_page_keeps_frames [OF H small_other_page [OF specimen_absent] run] run D by blast
qed

subsection \<open>Unmapping\<close>

text \<open>Unmapping a page from a hierarchy hands back the frame it was mapped to, leaves
  that page absent and every other page as it was, and announces the invalidation exactly where the
  hierarchy is the active one; where the page was absent nothing changes.\<close>

theorem unmap_page_returns_frame:
  assumes H: "hierarchy m lv root" and small: "small_path m root va"
    and run: "PagingUnmapPageIn root va m = Inr (m', frame)"
  shows "(case walk (physical m) va 4 root of
      None \<Rightarrow> m' = m \<and> frame = FRAME_ALLOCATION_FAILED
    | Some (k, e) \<Rightarrow> frame = entry_address e \<and> hierarchy m' lv root \<and>
        (\<forall>va'. walk (physical m') va' 4 root =
           (if same_page va va' then None else walk (physical m) va' 4 root)) \<and>
        invalidated m' = (if root = PagingActiveTable m then [va] else []) @ invalidated m)"
proof (cases "walk (physical m) va 4 root")
  case None
  then show ?thesis using PagingUnmapPageIn_effect(1) [OF H small run] by simp
next
  case (Some ke)
  obtain k e where ke: "ke = (k, e)" by (cases ke)
  have "frame = entry_address e \<and> leaf_written m lv root va 0 (m'\<lparr>invalidated := invalidated m\<rparr>) \<and>
      invalidated m' = (if root = PagingActiveTable m then [va] else []) @ invalidated m"
    using PagingUnmapPageIn_effect(2) [OF H small run] Some ke by blast
  then show ?thesis
    using Some ke by (simp add: leaf_written_def)
qed

theorem unmap_page_returns_frame_witness:
  "\<exists>m'. PagingUnmapPageIn 0x100000 0x400000 (specimen_paging 1 0x104007) = Inr (m', 0x104000)
     \<and> invalidated m' = [0x400000] \<and> walk (physical m') 0x400000 4 0x100000 = None"
proof -
  let ?m = "specimen_paging 1 0x104007"
  have H: "hierarchy ?m specimen_levels 0x100000" by (rule specimen_hierarchy) simp
  have w: "walk (physical ?m) 0x400000 4 0x100000 = Some (1, 0x104007)"
    by (rule specimen_walk) (simp add: bit_numeral_rec)
  have small: "small_path ?m 0x100000 0x400000" by (simp add: small_path_def w)
  obtain l where l: "table1 (physical ?m) 0x400000 4 0x100000 = Some l"
    using w walk_table1_root by fastforce
  obtain m' f where run: "PagingUnmapPageIn 0x100000 0x400000 ?m = Inr (m', f)"
    using PagingUnmapPageIn_Some [OF w l]
    by (auto simp: Let_def PagingInvalidate_def PagingInvalidateHere_def store_entry_def specimen_paging_def)
  from unmap_page_returns_frame [OF H small run]
  have "f = entry_address 0x104007" "walk (physical m') 0x400000 4 0x100000 = None"
    "invalidated m' = [0x400000]" by (simp_all add: w) (simp_all add: specimen_paging_def)
  then show ?thesis using run by (simp add: entry_address_def PAGE_ENTRY_ADDRESS_MASK_def)
qed

text \<open>C4: Mapping an absent page and unmapping it again returns the frame that was mapped
  and restores the translation of every address.\<close>

theorem map_unmap_roundtrip:
  assumes H: "hierarchy m lv root" and absent: "walk (physical m) va 4 root = None"
    and flags: "entry_address flags = 0"
    and map: "PagingMapPage root va pa flags m = Inr m1"
    and unmap: "PagingUnmapPageIn root va m1 = Inr (m2, frame)"
  shows "frame = entry_address pa \<and>
    (\<forall>va'. walk (physical m2) va' 4 root = walk (physical m) va' 4 root)"
proof -
  obtain lv' where M: "mapped m lv root va pa flags m1 lv'"
    by (rule PagingMapPage_effect [OF H small_other_page [OF absent] map])
  then have H1: "hierarchy m1 lv' root" and w1: "\<And>va'. walk (physical m1) va' 4 root =
      (if same_page va va' then Some (1, leaf_entry pa flags) else walk (physical m) va' 4 root)"
    by (simp_all add: mapped_def)
  have small: "small_path m1 root va" using w1 [of va] by (simp add: small_path_def)
  have U: "frame = entry_address (leaf_entry pa flags) \<and>
      leaf_written m1 lv' root va 0 (m2\<lparr>invalidated := invalidated m1\<rparr>)"
    using PagingUnmapPageIn_effect(2) [OF H1 small unmap, of 1 "leaf_entry pa flags"] w1 [of va] by simp
  have "walk (physical m) va' 4 root = None" if "same_page va va'" for va'
    using walk_same_page [OF that, of 4] absent by simp
  then show ?thesis using U w1 flags by (auto simp: leaf_written_def entry_address_leaf)
qed

theorem map_unmap_roundtrip_witness:
  "\<exists>m1 m2 f. PagingMapPage 0x100000 0x401000 0x105000 7 (specimen_paging 1 0x104007) = Inr m1
     \<and> PagingUnmapPageIn 0x100000 0x401000 m1 = Inr (m2, f) \<and> f = 0x105000
     \<and> walk (physical m2) 0x401000 4 0x100000 = None"
proof -
  let ?m = "specimen_paging 1 0x104007"
  obtain m1 where run: "PagingMapPage 0x100000 0x401000 0x105000 7 ?m = Inr m1"
    using specimen_maps by blast
  have H: "hierarchy ?m specimen_levels 0x100000" by (rule specimen_hierarchy) simp
  obtain lv' where M: "mapped ?m specimen_levels 0x100000 0x401000 0x105000 7 m1 lv'"
    by (rule PagingMapPage_effect [OF H small_other_page [OF specimen_absent] run])
  then have w: "walk (physical m1) 0x401000 4 0x100000 = Some (1, leaf_entry 0x105000 7)"
    and ack: "\<And>a. shootdown_acknowledged m1 a"
    by (simp_all add: mapped_def same_registers_def) (simp add: specimen_paging_def)
  obtain l where l: "table1 (physical m1) 0x401000 4 0x100000 = Some l"
    using w walk_table1_root by fastforce
  have "\<exists>r. PagingUnmapPageIn 0x100000 0x401000 m1 = Inr r"
    using ack by (simp add: PagingUnmapPageIn_Some [OF w l] Let_def PagingInvalidate_def
        PagingInvalidateHere_def store_entry_def)
  then obtain m2 f where un: "PagingUnmapPageIn 0x100000 0x401000 m1 = Inr (m2, f)" by auto
  have "entry_address 7 = 0" by (simp add: entry_address_def PAGE_ENTRY_ADDRESS_MASK_def)
  from map_unmap_roundtrip [OF H specimen_absent this run un]
  show ?thesis using run un specimen_absent
    by (auto simp: entry_address_def PAGE_ENTRY_ADDRESS_MASK_def)
qed

subsection \<open>Copy-on-write\<close>

lemma specimen_cow:
  assumes "k \<noteq> 0"
  shows "hierarchy (specimen_paging k 0x104205) specimen_levels (PagingActiveTable (specimen_paging k 0x104205))"
    and "walk (physical (specimen_paging k 0x104205)) 0x400000 4
      (PagingActiveTable (specimen_paging k 0x104205)) = Some (1, 0x104205)"
    and "bit (0x104205 :: u64) 9" "\<not> bit (0x104205 :: u64) 1" "entry_address 0x104205 = 0x104000"
    "frame_refs (frames (specimen_paging k 0x104205)) (FrameIndexOf 0x104000) = unat k"
proof -
  have act: "PagingActiveTable (specimen_paging k 0x104205) = 0x100000" by (simp add: specimen_paging_def)
  show "hierarchy (specimen_paging k 0x104205) specimen_levels (PagingActiveTable (specimen_paging k 0x104205))"
    unfolding act by (rule specimen_hierarchy [OF assms])
  show "walk (physical (specimen_paging k 0x104205)) 0x400000 4
      (PagingActiveTable (specimen_paging k 0x104205)) = Some (1, 0x104205)"
    unfolding act by (rule specimen_walk) (simp add: bit_numeral_rec)
  show "bit (0x104205 :: u64) 9" "\<not> bit (0x104205 :: u64) 1" by (simp_all add: bit_numeral_rec)
  show "entry_address 0x104205 = 0x104000" by (simp add: entry_address_def PAGE_ENTRY_ADDRESS_MASK_def)
  show "frame_refs (frames (specimen_paging k 0x104205)) (FrameIndexOf 0x104000) = unat k"
    by (simp add: specimen_paging_def specimen_refs unat_FrameIndexOf)
qed

text \<open>A write fault on a copy-on-write page whose frame has one holder is resolved
  without a copy: the page keeps its frame and becomes writable, no other page, frame or count
  changes, and the invalidation of the page is announced.\<close>

theorem cow_sole_owner_keeps_frame:
  assumes H: "hierarchy m lv (PagingActiveTable m)"
    and w: "walk (physical m) va 4 (PagingActiveTable m) = Some (1, e)"
    and e: "bit e 9" "\<not> bit e 1"
    and sole: "frame_refs (frames m) (FrameIndexOf (entry_address e)) \<le> 1"
    and ack: "shootdown_acknowledged m (AlignDown va PAGE_SIZE)"
  shows "\<exists>m' e'. PagingResolveCopyOnWriteFault va m = Inr (m', True) \<and> frames m' = frames m \<and>
    (\<forall>a. lv a \<noteq> 1 \<longrightarrow> physical m' a = physical m a) \<and>
    invalidated m' = AlignDown va PAGE_SIZE # invalidated m \<and>
    entry_address e' = entry_address e \<and> bit e' 1 \<and> \<not> bit e' 9 \<and>
    (\<forall>va'. walk (physical m') va' 4 (PagingActiveTable m) =
       (if same_page va va' then Some (1, e') else walk (physical m) va' 4 (PagingActiveTable m)))"
  by (rule resolve_sole_owner [OF assms])
    (use owned_entry_bits [of e] in \<open>auto simp: resolved_def intro!: exI [of _ "owned_entry e"]\<close>)

theorem cow_sole_owner_keeps_frame_witness:
  "\<exists>m'. PagingResolveCopyOnWriteFault 0x400000 (specimen_paging 1 0x104205) = Inr (m', True)
     \<and> frames m' = specimen_pool 1"
proof -
  have "(1 :: u16) \<noteq> 0" by simp
  note S = specimen_cow [OF this]
  have "frame_refs (frames (specimen_paging 1 0x104205)) (FrameIndexOf (entry_address 0x104205)) \<le> 1"
    unfolding S(5,6) by simp
  from cow_sole_owner_keeps_frame [OF S(1-4) this] show ?thesis
    by (auto simp: specimen_paging_def)
qed

text \<open>C5: A write fault on a copy-on-write page whose frame is shared gives the page a frame
  nobody held, with the same contents and writable, and takes one reference from the shared frame;
  the shared frame's contents, every other page and every other frame's count are untouched.\<close>

theorem cow_shared_copies:
  assumes H: "hierarchy m lv (PagingActiveTable m)"
    and w: "walk (physical m) va 4 (PagingActiveTable m) = Some (1, e)"
    and e: "bit e 9" "\<not> bit e 1" and D: "data_frame m lv (entry_address e)"
    and shared: "1 < frame_refs (frames m) (FrameIndexOf (entry_address e))"
    and ack: "shootdown_acknowledged m (AlignDown va PAGE_SIZE)"
    and room: "snd (FrameAllocate (frames m)) \<noteq> FRAME_ALLOCATION_FAILED"
  shows "\<exists>m' e'. PagingResolveCopyOnWriteFault va m = Inr (m', True) \<and>
    frame_refs (frames m) (FrameIndexOf (entry_address e')) = 0 \<and> bit e' 1 \<and> \<not> bit e' 9 \<and>
    (\<forall>i < 512. physical m' (entry_address e') i = physical m (entry_address e) i) \<and>
    physical m' (entry_address e) = physical m (entry_address e) \<and>
    frame_refs (frames m') = (frame_refs (frames m)) (FrameIndexOf (entry_address e') := 1,
      FrameIndexOf (entry_address e) := frame_refs (frames m) (FrameIndexOf (entry_address e)) - 1) \<and>
    (\<forall>va'. walk (physical m') va' 4 (PagingActiveTable m) =
       (if same_page va va' then Some (1, e') else walk (physical m) va' 4 (PagingActiveTable m)))"
proof -
  obtain m' new where R: "PagingResolveCopyOnWriteFault va m = Inr (m', True)" "frame_valid new"
    "frame_refs (frames m) (FrameIndexOf new) = 0" "lv new = 0" "resolved m lv va (copied_entry new e) m'"
    "\<And>i. i < 512 \<Longrightarrow> physical m' new i = physical m (entry_address e) i"
    "\<And>a. lv a \<noteq> 1 \<Longrightarrow> a \<noteq> new \<Longrightarrow> physical m' a = physical m a"
    "frame_refs (frames m') = (frame_refs (frames m)) (FrameIndexOf new := 1,
      FrameIndexOf (entry_address e) := frame_refs (frames m) (FrameIndexOf (entry_address e)) - 1)"
    by (rule resolve_shared [OF assms]) (rule that)
  have "entry_address e \<noteq> new" using R(3) shared by auto
  then have "physical m' (entry_address e) = physical m (entry_address e)"
    using R(7) [of "entry_address e"] D by (simp add: data_frame_def)
  then show ?thesis
    using R copied_entry_bits [OF R(2), of e]
    by (intro exI [of _ m'] exI [of _ "copied_entry new e"]) (simp add: resolved_def)
qed

lemma specimen_room: "snd (FrameAllocate (specimen_pool k)) \<noteq> FRAME_ALLOCATION_FAILED"
proof -
  have "FrameSearch (specimen_pool k) 261 320 = Some 261"
    using specimen_used [of 261 k] by (subst FrameSearch.simps) (simp add: FRAME_BITS_PER_WORD_def)
  moreover have "FrameIndexOf (AlignDown (FrameAddressOf 320) PAGE_SIZE) = 320"
    by (simp add: unat_FrameIndexOf unat_AlignDown unat_FrameAddressOf)
  moreover have "FrameAddressOf 261 \<noteq> FRAME_ALLOCATION_FAILED"
    by (simp add: FrameAddressOf_def PAGE_SHIFT_def FRAME_ALLOCATION_FAILED_def)
  ultimately have "snd (FrameIssue 261 (specimen_pool k)) \<noteq> FRAME_ALLOCATION_FAILED"
    and "FrameAllocate (specimen_pool k) = FrameIssue 261 (specimen_pool k)"
    by (simp_all add: FrameIssue_def FrameAllocate_def FrameAllocateBelow_def Let_def)
  then show ?thesis by simp
qed

theorem cow_shared_copies_witness:
  "\<exists>m' e'. PagingResolveCopyOnWriteFault 0x400000 (specimen_paging 2 0x104205) = Inr (m', True)
     \<and> physical m' (entry_address e') 7 = 7 \<and> frame_refs (frames m') 260 = 1
     \<and> walk (physical m') 0x400000 4 0x100000 = Some (1, e')"
proof -
  let ?m = "specimen_paging 2 0x104205"
  have "(2 :: u16) \<noteq> 0" by simp
  note S = specimen_cow [OF this]
  have D: "data_frame ?m specimen_levels (entry_address 0x104205)"
    unfolding S(5) by (rule specimen_data) simp
  have sh: "1 < frame_refs (frames ?m) (FrameIndexOf (entry_address 0x104205))"
    unfolding S(5,6) by simp
  have ack: "shootdown_acknowledged ?m (AlignDown 0x400000 PAGE_SIZE)" by (simp add: specimen_paging_def)
  have room: "snd (FrameAllocate (frames ?m)) \<noteq> FRAME_ALLOCATION_FAILED"
    using specimen_room by (simp add: specimen_paging_def)
  have i: "FrameIndexOf 0x104000 = 260" by (simp add: unat_FrameIndexOf)
  obtain m' e' where C: "PagingResolveCopyOnWriteFault 0x400000 ?m = Inr (m', True)"
    "\<forall>i < 512. physical m' (entry_address e') i = physical ?m (entry_address 0x104205) i"
    "frame_refs (frames m') = (frame_refs (frames ?m)) (FrameIndexOf (entry_address e') := 1,
      FrameIndexOf (entry_address 0x104205) := frame_refs (frames ?m) (FrameIndexOf (entry_address 0x104205)) - 1)"
    "\<forall>va'. walk (physical m') va' 4 (PagingActiveTable ?m) =
       (if same_page 0x400000 va' then Some (1, e') else walk (physical ?m) va' 4 (PagingActiveTable ?m))"
    using cow_shared_copies [OF S(1-4) D sh ack room] by blast
  have "physical m' (entry_address e') 7 = 7"
    using C(2) by (simp add: S(5)) (simp add: specimen_paging_def specimen_memory_def)
  moreover have "frame_refs (frames m') 260 = 1"
    using C(3) by (simp add: S(5) i) (simp add: specimen_paging_def specimen_refs)
  moreover have "PagingActiveTable ?m = 0x100000" by (simp add: specimen_paging_def)
  ultimately show ?thesis using C(1,4) by auto
qed

text \<open>Marking a mapped page copy-on-write keeps its translation, makes it no longer
  writable and recognisable as copy-on-write, and leaves every other page as it was.\<close>

theorem mark_copy_on_write_protects:
  assumes H: "hierarchy m lv (PagingActiveTable m)"
    and w: "walk (physical m) va 4 (PagingActiveTable m) = Some (1, e)"
    and ack: "shootdown_acknowledged m (AlignDown va PAGE_SIZE)"
  shows "\<exists>m'. PagingMarkCopyOnWrite va m = Inr (m', True) \<and> PagingIsCopyOnWrite va m' \<and>
    \<not> PagingAddressIsWritable va m' \<and> (\<forall>va'. PagingTranslate va' m' = PagingTranslate va' m)"
proof -
  obtain m' where M: "PagingMarkCopyOnWrite va m = Inr (m', True)"
    "leaf_written m lv (PagingActiveTable m) va (marked_entry e) (m'\<lparr>invalidated := invalidated m\<rparr>)"
    by (rule mark_effect [OF assms])
  obtain l where l: "table1 (physical m) va 4 (PagingActiveTable m) = Some l" "bit e 0"
    using w walk_table1_root by fastforce
  have act: "PagingActiveTable m' = PagingActiveTable m" and H': "hierarchy m' lv (PagingActiveTable m')"
    and walks: "\<And>va'. walk (physical m') va' 4 (PagingActiveTable m') = (if same_page va va'
      then Some (1, marked_entry e) else walk (physical m) va' 4 (PagingActiveTable m))"
    using M(2) l(2) marked_entry_bits(4) [of e]
    by (auto simp: leaf_written_def same_registers_def hierarchy_def tables_held_def)
  have w': "walk (physical m') va 4 (PagingActiveTable m') = Some (1, marked_entry e)"
    using walks by simp
  obtain l' where "PagingLeafEntry (AlignDown va PAGE_SIZE) m' = Some (l', PagingLevel1Index va)"
    "physical m' l' (PagingLevel1Index va) = marked_entry e" "bit (marked_entry e) 0"
    by (rule PagingLeafEntry_page [OF w'])
  then have "PagingIsCopyOnWrite va m'"
    using marked_entry_bits(3) [of e] by (simp add: PagingIsCopyOnWrite_def Let_def entry_bits)
  moreover have "\<not> PagingAddressIsWritable va m'"
    using PagingAddressPermits_leaf [OF w', of PAGE_ENTRY_WRITABLE] marked_entry_bits(2) [of e]
    by (auto simp: PagingAddressIsWritable_def entry_bits)
  moreover have "PagingTranslate va' m' = PagingTranslate va' m" for va'
  proof (cases "same_page va va'")
    case True
    then have "walk (physical m) va' 4 (PagingActiveTable m) = Some (1, e)"
      using walk_same_page [of va va' 4] w by simp
    then show ?thesis
      using True walks marked_entry_bits(1) [of e]
      by (simp add: PagingTranslate_hierarchy [OF H' refl] PagingTranslate_hierarchy [OF H refl])
  next
    case False
    then show ?thesis
      using walks by (simp add: PagingTranslate_hierarchy [OF H' refl] PagingTranslate_hierarchy [OF H refl])
  qed
  ultimately show ?thesis using M(1) by blast
qed

theorem mark_copy_on_write_protects_witness:
  "\<exists>m'. PagingMarkCopyOnWrite 0x400000 (specimen_paging 1 0x104205) = Inr (m', True)
     \<and> \<not> PagingAddressIsWritable 0x400000 m'"
proof -
  have "(1 :: u16) \<noteq> 0" by simp
  note S = specimen_cow [OF this]
  show ?thesis
    using mark_copy_on_write_protects [OF S(1,2)] by (auto simp: specimen_paging_def)
qed

end
