(* ===== verification/FrameRoom.thy ===== *)
theory FrameRoom
  imports ArenaBacking
begin

text \<open>
  What enough free frames guarantee: an allocation finds one, a mapping creates the tables it
  needs and does not panic, and the pages of a region are all backed
  (\<open>kernel/mm/pmm.c\<close>, \<open>kernel/arch/x86_64/mm/paging.c\<close>, \<open>kernel/mm/vmm.c\<close>).
\<close>

subsection \<open>Frames an allocation can find\<close>

definition room :: "frame_state \<Rightarrow> nat" where
  "room s = card {j. 256 \<le> j \<and> j < FrameCount s \<and> \<not> FrameIsUsed s j}"

lemma room_issue:
  assumes "FrameCount s' = FrameCount s" "\<And>j. FrameIsUsed s' j \<longleftrightarrow> j = i \<or> FrameIsUsed s j"
  shows "room s \<le> room s' + 1"
proof -
  let ?F = "\<lambda>s. {j. 256 \<le> j \<and> j < FrameCount s \<and> \<not> FrameIsUsed s j}"
  have "?F s \<subseteq> insert i (?F s')" using assms by auto
  then have "card (?F s) \<le> card (insert i (?F s'))" by (rule card_mono [rotated]) simp
  also have "\<dots> \<le> Suc (card (?F s'))" by (rule card_insert_le_m1) simp_all
  finally show ?thesis by (simp add: room_def)
qed

lemma FrameAllocate_finds:
  assumes ready: "pool_ready s" and some: "0 < room s"
  obtains s' a where "FrameAllocate s = (s', a)" "a \<noteq> FRAME_ALLOCATION_FAILED" "pool_ready s'"
    "room s \<le> room s' + 1"
proof -
  have ok: "pool_ok s" using ready by (simp add: pool_ready_def)
  have count: "FrameCount s \<le> 2 ^ 40" using ok by (simp add: pool_ok_def bitmap_ok_def)
  have lim: "FrameIndexOf (AlignDown (FrameAddressOf (FrameCount s)) PAGE_SIZE) = FrameCount s"
    using count by (simp add: unat_FrameIndexOf unat_AlignDown unat_FrameAddressOf)
  obtain j where j: "256 \<le> j" "j < FrameCount s" "\<not> FrameIsUsed s j"
    using some unfolding room_def by (metis (mono_tags, lifting) card.empty empty_Collect_eq less_irrefl)
  obtain s' a where run: "FrameAllocateBelow (FrameAddressOf (FrameCount s)) s = (s', a)" by (meson surj_pair)
  show thesis
  proof (cases rule: FrameAllocateBelow_cases [OF ok, of "FrameAddressOf (FrameCount s)", case_names issued refused])
    case (issued i)
    then have "FrameIssue i s = (s', a)" using run by simp
    note eff = FrameIssue_effect [OF ok issued(1,3) this]
    have "i \<noteq> 0" using issued(3) ready frame_refs_zero [OF ok issued(1)]
      by (cases "i = 0") (simp_all add: pool_ready_def)
    then have "unat a \<noteq> 0" using eff(2) issued(1) count by (simp add: unat_FrameAddressOf)
    then have got: "a \<noteq> FRAME_ALLOCATION_FAILED" by (auto simp: FRAME_ALLOCATION_FAILED_def)
    show thesis
      using that [of s' a] run got pmm.issued [OF ready run got] room_issue [of s' s i] eff(3,6)
      by (simp add: FrameAllocate_def)
  next
    case refused
    then show thesis using j lim by auto
  qed
qed

subsection \<open>Mappings that do not panic\<close>

definition mappable :: "nat \<Rightarrow> paging_state \<Rightarrow> bool" where
  "mappable n m \<longleftrightarrow> pool_ready (frames m) \<and> PagingDirectMapActive m \<and> n \<le> room (frames m) \<and>
     (\<forall>a. shootdown_acknowledged m a)"

lemma mappable_frames [simp]:
  "mappable n (m\<lparr>physical := p\<rparr>) = mappable n m"
  "mappable n (m\<lparr>invalidated := l\<rparr>) = mappable n m"
  "mappable n (store_entry t i e m) = mappable n m"
  by (simp_all add: mappable_def store_entry_def)

lemma mappable_le: "mappable n m \<Longrightarrow> k \<le> n \<Longrightarrow> mappable k m"
  by (simp add: mappable_def)

lemma PagingObtainTable_returns:
  assumes "mappable (Suc n) m"
  obtains m' t where "PagingObtainTable table i flags m = Inr (m', t)" "mappable n m'"
proof (cases "(physical m table i AND PAGE_ENTRY_PRESENT) = 0")
  case True
  obtain s' a where A: "FrameAllocate (frames m) = (s', a)" "a \<noteq> FRAME_ALLOCATION_FAILED" "pool_ready s'"
    "room (frames m) \<le> room s' + 1"
    using FrameAllocate_finds [of "frames m"] assms by (auto simp: mappable_def)
  then have "PagingAllocateTable m = Inr (m\<lparr>frames := s', physical := (physical m)(a := (\<lambda>index.
      if index < PAGE_TABLE_ENTRY_COUNT then 0 else physical m a index)),
      PagingTableFrameCount := PagingTableFrameCount m + 1\<rparr>, a)"
    using assms by (simp add: PagingAllocateTable_def mappable_def)
  then show thesis
    using that True A assms by (simp add: PagingObtainTable_def Let_def) (auto simp: mappable_def)
next
  case False
  have "mappable n m" by (rule mappable_le [OF assms]) simp
  then show thesis using that False by (simp add: PagingObtainTable_def Let_def)
qed

lemma PagingMapPage_returns:
  assumes "mappable (n + 3) m"
  obtains m' where "PagingMapPage root va pa flags m = Inr m'" "mappable n m'"
proof -
  have "mappable (Suc (n + 2)) m" using assms by (simp add: eval_nat_numeral)
  then obtain m1 t1 where 1: "PagingObtainTable root (PagingLevel4Index va) flags m = Inr (m1, t1)"
    "mappable (n + 2) m1" by (rule PagingObtainTable_returns)
  have "mappable (Suc (n + 1)) m1" using 1(2) by (simp add: eval_nat_numeral)
  then obtain m2 t2 where 2: "PagingObtainTable t1 (PagingLevel3Index va) flags m1 = Inr (m2, t2)"
    "mappable (n + 1) m2" by (rule PagingObtainTable_returns)
  have "mappable (Suc n) m2" using 2(2) by simp
  then obtain m3 t3 where 3: "PagingObtainTable t2 (PagingLevel2Index va) flags m2 = Inr (m3, t3)"
    "mappable n m3" by (rule PagingObtainTable_returns)
  show thesis using that 1 2 3 by (simp add: PagingMapPage_def)
qed

text \<open>One frame for the page and three for its tables are enough for every page of a region.\<close>

lemma BackPages_returns:
  "mappable (4 * r + n) m \<Longrightarrow> \<exists>m'. BackPages start r c m = Inr (m', True) \<and> mappable n m'"
proof (induction r arbitrary: c m)
  case (Suc r)
  obtain s' a where A: "FrameAllocate (frames m) = (s', a)" "a \<noteq> FRAME_ALLOCATION_FAILED" "pool_ready s'"
    "room (frames m) \<le> room s' + 1"
    using FrameAllocate_finds [of "frames m"] Suc.prems by (auto simp: mappable_def)
  then have "mappable ((4 * r + n) + 3) (m\<lparr>frames := s'\<rparr>)"
    using Suc.prems by (simp add: mappable_def)
  then obtain m1 where 1: "PagingMapPage (PagingRootTable m) (arena_page start c) a PAGE_ENTRY_WRITABLE
      (m\<lparr>frames := s'\<rparr>) = Inr m1" "mappable (4 * r + n) m1"
    by (rule PagingMapPage_returns)
  then have "PagingMapKernelPage (arena_page start c) a PAGE_ENTRY_WRITABLE (m\<lparr>frames := s'\<rparr>)
      = Inr (m1\<lparr>invalidated := arena_page start c # invalidated m1\<rparr>)"
    by (simp add: PagingMapKernelPage_Inr mappable_def)
  moreover obtain m' where "BackPages start r (c + 1) (m1\<lparr>invalidated := arena_page start c # invalidated m1\<rparr>)
      = Inr (m', True)" "mappable n m'"
    using Suc.IH [of "m1\<lparr>invalidated := arena_page start c # invalidated m1\<rparr>" "c + 1"] 1(2) by auto
  ultimately show ?case using A by simp
qed simp

lemma KernelPagesAllocate_returns:
  assumes I: "arena_backed st lv root" and n: "arena_admissible n"
    and room: "mappable (4 * unat n) (paging st)" and space: "snd (ArenaReserve n st) \<noteq> None"
  obtains st' start where "KernelPagesAllocate n st = Inr (st', start)" "start \<noteq> 0"
proof -
  have n': "n \<noteq> 0" "\<not> ARENA_PAGE_CAPACITY < n" using n by (auto simp: arena_admissible_def)
  obtain st1 a where res: "ArenaReserve n st = (st1, Some a)" using space by (cases "ArenaReserve n st") auto
  note R = reserve_backed [OF I n res]
  obtain m' where "BackPages a (unat n) 0 (paging st) = Inr (m', True)"
    using BackPages_returns [of "unat n" 0 "paging st" a 0] room by auto
  then obtain st' where "KernelPagesAllocate n st = Inr (st', a)"
    using n' by (simp add: KernelPagesAllocate_def res R(3) Let_def)
  moreover have "a \<noteq> 0" using R(2) by (auto simp: arena_proper_def arena_limits)
  ultimately show thesis by (rule that)
qed

end
