(* ===== verification/ArenaProperties.thy ===== *)
theory ArenaProperties
  imports Specimen FrameRoom
begin

text \<open>
  The properties of the kernel virtual address allocator (\<open>kernel/mm/vmm.c\<close>), each with the
  machine on which its hypotheses hold.
\<close>

subsection \<open>A small arena\<close>

definition fresh_arena :: "paging_state \<Rightarrow> arena_state" where
  "fresh_arena m = KernelVirtualInitialise
     \<lparr>ArenaFreeList = [], ArenaBumpPointer = 0, ArenaPagesInUse = 0, ArenaDevicePagesInUse = 0,
      ArenaPagesHighWaterMark = 0, ArenaRangesForfeited = 0, paging = m\<rparr>"

definition specimen_arena :: arena_state where
  "specimen_arena = fresh_arena (specimen_paging 1 0x104007)"

lemma fresh_arena_backed:
  assumes H: "hierarchy m lv root" and roots: "PagingRootTable m = root" "PagingActiveTable m = root"
    and ack: "\<And>a. shootdown_acknowledged m a" and none: "\<And>i. 384 \<le> i \<Longrightarrow> physical m root i = 0"
  shows "arena_backed (fresh_arena m) lv root"
proof -
  have walks: "walk (physical m) page 4 root = None" if "unat KERNEL_ARENA_BASE \<le> unat page" for page
  proof -
    have "bit page 46" "bit page 47" using arena_high_bits [OF that] by simp_all
    then have b: "bit (drop_bit 39 page AND 0x1FF) 7" "bit (drop_bit 39 page AND 0x1FF) 8"
      by (simp_all add: bit_and_iff bit_drop_bit_eq bit_numeral_rec)
    let ?w = "drop_bit 39 page AND 0x1FF :: u64"
    have "(0x180 :: u64) AND ?w = 0x180"
    proof (rule bit_word_eqI)
      fix n :: nat
      have "(0x180 :: u64) = push_bit 7 (mask 2)" by (simp add: mask_eq_exp_minus_1 push_bit_eq_mult)
      then have "bit (0x180 :: u64) n \<longleftrightarrow> bit (push_bit 7 (mask 2) :: u64) n" by simp
      also have "\<dots> \<longleftrightarrow> n = 7 \<or> n = 8" by (auto simp: bit_push_bit_iff bit_mask_iff)
      finally have "bit (0x180 :: u64) n \<longleftrightarrow> n = 7 \<or> n = 8" .
      then show "bit (0x180 AND ?w) n = bit (0x180 :: u64) n" using b by (auto simp: bit_and_iff)
    qed
    then have "0x180 \<le> ?w" by (metis and.commute word_and_le2)
    then have "384 \<le> PagingLevel4Index page" by (simp add: PagingLevel4Index_def word_le_nat_alt)
    then show ?thesis using none by (simp add: walk_levels Let_def)
  qed
  have ok: "arena_ok (fresh_arena m)" unfolding fresh_arena_def by (rule KernelVirtualInitialise_ok)
  have pg: "paging (fresh_arena m) = m" by (simp add: fresh_arena_def KernelVirtualInitialise_def)
  show ?thesis
    using H roots ack ok walks available_above [OF ok] by (simp add: arena_backed_def pg)
qed

lemma specimen_backed: "arena_backed specimen_arena specimen_levels 0x100000"
  unfolding specimen_arena_def
  by (rule fresh_arena_backed [OF specimen_hierarchy])
    (simp_all add: specimen_paging_def specimen_memory_def)

lemma specimen_mappable: "n \<le> 59 \<Longrightarrow> mappable n (paging specimen_arena)"
proof -
  assume n: "n \<le> 59"
  have "{j. 256 \<le> j \<and> j < 320 \<and> \<not> FrameIsUsed (specimen_pool 1) j} = {261..<320}"
    using specimen_used [of _ 1] by auto
  then have "room (specimen_pool 1) = 59" by (simp add: room_def)
  then show ?thesis
    using n specimen_pool_ready [of 1]
    by (simp add: mappable_def specimen_arena_def fresh_arena_def KernelVirtualInitialise_def specimen_paging_def)
qed

lemma arena_admissible_one: "arena_admissible 1" "arena_admissible 2"
  by (simp_all add: arena_admissible_def word_less_nat_alt arena_limits)

lemma fresh_reserves:
  "n < ARENA_PAGE_CAPACITY \<Longrightarrow> \<exists>s. ArenaReserve n (fresh_arena m) = (s, Some KERNEL_ARENA_BASE)"
proof -
  assume n: "n < ARENA_PAGE_CAPACITY"
  then have "unat n < 2 ^ 33" by (simp add: word_less_nat_alt arena_limits)
  then have "unat (KERNEL_ARENA_BASE + n * PAGE_SIZE) = unat KERNEL_ARENA_BASE + unat n * 4096"
    using unat_range_end [of "\<lparr>range_base = KERNEL_ARENA_BASE, range_pages = n\<rparr>"]
    by (simp add: range_stop_def range_end_def arena_limits)
  then have "\<not> KERNEL_ARENA_BASE + KERNEL_ARENA_SIZE < KERNEL_ARENA_BASE + n * PAGE_SIZE"
    using \<open>unat n < 2 ^ 33\<close> by (simp add: word_less_nat_alt arena_limits)
  then show ?thesis
    by (simp add: ArenaReserve_def ArenaFreeListTake_def fresh_arena_def KernelVirtualInitialise_def)
qed

subsection \<open>Allocating and freeing pages\<close>

text \<open>C6: With four free frames for every page asked for, an allocation the arena has room
  for succeeds: it takes a region out of the free address space, backs every page of it with a frame of
  its own that nobody held, and leaves the arena and the kernel's page tables in order.\<close>

theorem pages_allocated_backed:
  assumes I: "arena_backed st lv root" and n: "arena_admissible n"
    and frames: "mappable (4 * unat n) (paging st)" and space: "snd (ArenaReserve n st) \<noteq> None"
  shows "\<exists>st' start lv' f. KernelPagesAllocate n st = Inr (st', start) \<and> start \<noteq> 0 \<and>
    arena_backed st' lv' root \<and> arena_interval start n \<subseteq> arena_available st \<and>
    arena_available st' = arena_available st - arena_interval start n \<and>
    ArenaPagesInUse st' = ArenaPagesInUse st + n \<and> inj_on f {..<unat n} \<and>
    (\<forall>k < unat n. PagingTranslate (arena_page start k) (paging st') = f k \<and>
       frame_refs (frames (paging st)) (FrameIndexOf (f k)) = 0 \<and>
       frame_refs (frames (paging st')) (FrameIndexOf (f k)) = 1)"
proof -
  obtain st' start where run: "KernelPagesAllocate n st = Inr (st', start)" and got: "start \<noteq> 0"
    by (rule KernelPagesAllocate_returns [OF I n frames space])
  obtain lv' f where S: "arena_backed st' lv' root" "arena_proper start n"
    "arena_interval start n \<subseteq> arena_available st"
    "arena_available st' = arena_available st - arena_interval start n"
    and B: "backing (paging st) lv root start (unat n) (paging st') lv' f"
    and use: "ArenaPagesInUse st' = ArenaPagesInUse st + n"
    by (rule KernelPagesAllocate_success [OF I n run got])
  have H: "hierarchy (paging st') lv' root" and act: "PagingActiveTable (paging st') = root"
    using S(1) by (simp_all add: arena_backed_def)
  have "frame_valid root"
    using H tree_root by (fastforce simp: hierarchy_def tables_held_def)
  then have r0: "root \<noteq> 0" by (simp add: frame_valid_def FRAME_ALLOCATION_FAILED_def)
  have "PagingTranslate (arena_page start k) (paging st') = f k \<and>
       frame_refs (frames (paging st)) (FrameIndexOf (f k)) = 0 \<and>
       frame_refs (frames (paging st')) (FrameIndexOf (f k)) = 1" if k: "k < unat n" for k
  proof -
    have w: "walk (physical (paging st')) (arena_page start k) 4 root = Some (1, backed_entry (f k))"
      and refs: "frame_refs (frames (paging st)) (FrameIndexOf (f k)) = 0"
        "frame_refs (frames (paging st')) (FrameIndexOf (f k)) = 1"
      and D: "data_frame (paging st') lv' (f k)"
      using B k unfolding backing_def by blast+
    have "page_offset (Suc 0) (arena_page start k) = 0"
      by (rule page_offset_aligned [OF arena_page_in(2) [OF S(2) k]])
    moreover have "entry_address (backed_entry (f k)) = f k"
      using D by (simp add: entry_address_backed data_frame_def)
    ultimately have "PagingTranslate (arena_page start k) (paging st') = f k"
      using w r0 by (simp add: PagingTranslate_walk act)
    then show ?thesis using refs by simp
  qed
  moreover have "inj_on f {..<unat n}" using B unfolding backing_def by blast
  ultimately show ?thesis using run got S use by blast
qed

theorem pages_allocated_backed_witness:
  "\<exists>st' start. KernelPagesAllocate 2 specimen_arena = Inr (st', start) \<and> start \<noteq> 0 \<and> ArenaPagesInUse st' = 2"
proof -
  have "snd (ArenaReserve 2 specimen_arena) \<noteq> None"
    using fresh_reserves [of 2 "specimen_paging 1 0x104007"] arena_admissible_one(2)
    by (auto simp: specimen_arena_def arena_admissible_def)
  moreover have "mappable (4 * unat (2 :: u64)) (paging specimen_arena)" by (rule specimen_mappable) simp
  moreover have "ArenaPagesInUse specimen_arena = 0"
    by (simp add: specimen_arena_def fresh_arena_def KernelVirtualInitialise_def)
  ultimately show ?thesis
    using pages_allocated_backed [OF specimen_backed arena_admissible_one(2)] by fastforce
qed

text \<open>C7: An allocation that finds no frame returns NULL and unwinds: every translation is as
  before, no frame that was held has changed its contents or its count, the only frames newly in use are
  page tables, the pages in use are unchanged, and the address space is free again (or, where the free
  list was full, counted as forfeit).\<close>

theorem failed_allocation_unwinds:
  assumes I: "arena_backed st lv root" and n: "arena_admissible n"
    and run: "KernelPagesAllocate n st = Inr (st', 0)"
  shows "\<exists>lv'. arena_backed st' lv' root \<and> ArenaPagesInUse st' = ArenaPagesInUse st \<and>
    (\<forall>va. walk (physical (paging st')) va 4 root = walk (physical (paging st)) va 4 root) \<and>
    (\<forall>a. data_frame (paging st) lv a \<longrightarrow> physical (paging st') a = physical (paging st) a) \<and>
    (\<forall>i. 0 < frame_refs (frames (paging st)) i \<longrightarrow>
       frame_refs (frames (paging st')) i = frame_refs (frames (paging st)) i) \<and>
    (\<forall>i. 0 < frame_refs (frames (paging st')) i \<longrightarrow> 0 < frame_refs (frames (paging st)) i \<or>
       (\<exists>u. lv' u \<noteq> 0 \<and> FrameIndexOf u = i)) \<and>
    (arena_available st' = arena_available st \<or>
     ArenaRangesForfeited st' = ArenaRangesForfeited st + 1 \<and> arena_available st' \<subseteq> arena_available st)"
proof -
  obtain lv' where "arena_backed st' lv' root" "unwound (paging st) lv root (paging st') lv'"
    "ArenaPagesInUse st' = ArenaPagesInUse st"
    "arena_available st' = arena_available st \<or>
     ArenaRangesForfeited st' = ArenaRangesForfeited st + 1 \<and> arena_available st' \<subseteq> arena_available st"
    by (rule KernelPagesAllocate_failure [OF I n run])
  then show ?thesis unfolding unwound_def by blast
qed

text \<open>A machine with every frame in use.\<close>

definition full_pool :: frame_state where
  "full_pool = (specimen_pool 1)\<lparr>FrameBitmap := replicate 5 (NOT 0), FrameFreeFrames := 0,
     FrameReferenceTable := Some (replicate 320 1)\<rparr>"

lemma full_pool_used: "i < 320 \<Longrightarrow> FrameIsUsed full_pool i"
  by (simp add: FrameIsUsed_bit full_pool_def specimen_pool_def bit_not_iff less_mult_imp_div_less)

lemma full_pool_ready: "pool_ready full_pool"
proof -
  have "free_frames full_pool = {}" using full_pool_used by (auto simp: free_frames_def full_pool_def)
  then show ?thesis
    using full_pool_used
    by (simp add: pool_ready_def pool_ok_def bitmap_ok_def table_ok_def frame_refs_def)
      (simp add: full_pool_def specimen_pool_def)
qed

lemma full_pool_refuses: "FrameAllocate full_pool = (full_pool, FRAME_ALLOCATION_FAILED)"
proof -
  have ok: "pool_ok full_pool" using full_pool_ready by (simp add: pool_ready_def)
  show ?thesis
    unfolding FrameAllocate_def
    by (cases rule: FrameAllocateBelow_cases [OF ok, of "FrameAddressOf (FrameCount full_pool)"])
      (use full_pool_used in \<open>auto simp: full_pool_def\<close>)
qed

definition full_paging :: paging_state where
  "full_paging = (specimen_paging 1 0x104007)\<lparr>frames := full_pool\<rparr>"

lemma full_backed: "arena_backed (fresh_arena full_paging) specimen_levels 0x100000"
proof (rule fresh_arena_backed)
  have "0 < frame_refs full_pool i" if "i < 320" for i
    using that by (simp add: frame_refs_def full_pool_def)
  moreover have "specimen_levels t \<noteq> 0 \<Longrightarrow> frame_valid t \<and> FrameIndexOf t < 320" for t
    by (auto simp: specimen_levels_def frame_valid_def IsPageAligned_def PAGE_SIZE_def
        FRAME_ALLOCATION_FAILED_def unat_FrameIndexOf split: if_splits)
  ultimately show "hierarchy full_paging specimen_levels 0x100000"
    using full_pool_ready specimen_tree [of "0x104007"]
    by (simp add: hierarchy_def tables_held_def full_paging_def specimen_paging_def)
qed (simp_all add: full_paging_def specimen_paging_def specimen_memory_def)

theorem failed_allocation_unwinds_witness:
  "\<exists>st'. KernelPagesAllocate 1 (fresh_arena full_paging) = Inr (st', 0) \<and> ArenaPagesInUse st' = 0"
proof -
  have n: "(1 :: u64) \<noteq> 0" "\<not> ARENA_PAGE_CAPACITY < 1" "1 < ARENA_PAGE_CAPACITY"
    using arena_admissible_one(1) by (auto simp: arena_admissible_def)
  obtain s where res: "ArenaReserve 1 (fresh_arena full_paging) = (s, Some KERNEL_ARENA_BASE)"
    using fresh_reserves [OF n(3)] by blast
  then have pg: "paging s = full_paging"
    using ArenaReserve_effect(2) [of "fresh_arena full_paging" 1 s] n full_backed
    by (auto simp: arena_backed_def) (simp add: fresh_arena_def KernelVirtualInitialise_def)
  have "FrameAllocate (frames full_paging) = (full_pool, FRAME_ALLOCATION_FAILED)"
    by (simp add: full_paging_def full_pool_refuses)
  then obtain m where "BackPages KERNEL_ARENA_BASE (unat (1 :: u64)) 0 full_paging = Inr (m, False)" by auto
  then obtain st' where run: "KernelPagesAllocate 1 (fresh_arena full_paging) = Inr (st', 0)"
    using n by (simp add: KernelPagesAllocate_def res pg Let_def del: BackPages.simps unat_1)
  have "ArenaPagesInUse (fresh_arena full_paging) = 0"
    by (simp add: fresh_arena_def KernelVirtualInitialise_def)
  then show ?thesis
    using run failed_allocation_unwinds [OF full_backed arena_admissible_one(1) run] by auto
qed

text \<open>Freeing a region whose pages are mapped to frames of its own does not panic: every
  page is unmapped, every frame gives up one reference, and the region is free address space again (or
  forfeit, where the free list is full).\<close>

theorem pages_freed:
  assumes I: "arena_backed st lv root" and P: "arena_proper start n"
    and held: "arena_interval start n \<inter> arena_available st = {}"
    and own: "owned_pages (paging st) lv root start [0..<unat n] f"
  shows "\<exists>st'. KernelPagesFree start n st = Inr st' \<and> arena_backed st' lv root \<and>
    (\<forall>va. walk (physical (paging st')) va 4 root =
       (if \<exists>k < unat n. same_page (arena_page start k) va then None
        else walk (physical (paging st)) va 4 root)) \<and>
    (\<forall>i. frame_refs (frames (paging st')) i = frame_refs (frames (paging st)) i -
       (if \<exists>k < unat n. i = FrameIndexOf (f k) then 1 else 0)) \<and>
    ArenaPagesInUse st' = ArenaPagesInUse st - n \<and>
    (arena_available st' = arena_available st \<union> arena_interval start n \<or>
     arena_available st' = arena_available st \<and> ArenaRangesForfeited st' = ArenaRangesForfeited st + 1)"
  by (rule KernelPagesFree_returns [OF assms]) (auto simp: given_back_def)

theorem pages_freed_witness:
  "\<exists>st st' start. KernelPagesAllocate 2 specimen_arena = Inr (st, start) \<and> KernelPagesFree start 2 st = Inr st' \<and>
     ArenaPagesInUse st' = 0"
proof -
  have space: "snd (ArenaReserve 2 specimen_arena) \<noteq> None"
    using fresh_reserves [of 2 "specimen_paging 1 0x104007"] arena_admissible_one(2)
    by (auto simp: specimen_arena_def arena_admissible_def)
  have m: "mappable (4 * unat (2 :: u64)) (paging specimen_arena)" by (rule specimen_mappable) simp
  obtain st start where run: "KernelPagesAllocate 2 specimen_arena = Inr (st, start)" "start \<noteq> 0"
    by (rule KernelPagesAllocate_returns [OF specimen_backed arena_admissible_one(2) m space])
  obtain lv' f where S: "arena_backed st lv' 0x100000" "arena_proper start 2"
    "arena_available st = arena_available specimen_arena - arena_interval start 2"
    and B: "backing (paging specimen_arena) specimen_levels 0x100000 start (unat (2 :: u64)) (paging st) lv' f"
    and use: "ArenaPagesInUse st = ArenaPagesInUse specimen_arena + 2"
    by (rule KernelPagesAllocate_success [OF specimen_backed arena_admissible_one(2) run])
  have "arena_interval start 2 \<inter> arena_available st = {}" using S(3) by blast
  from pages_freed [OF S(1,2) this backing_owned [OF B S(2) order_refl]] run use
  show ?thesis
    by (auto simp: specimen_arena_def fresh_arena_def KernelVirtualInitialise_def)
qed

subsection \<open>Address space\<close>

text \<open>C8: However regions have been reserved and given back, two regions held at the same
  time never overlap.\<close>

theorem live_regions_disjoint:
  assumes "(region_step arena_interval arena_admissible ArenaReserve ArenaFreeListInsert)\<^sup>*\<^sup>* (s0, {}) (s, live)"
    and "arena_ok s0" and "(a, n) \<in> live" and "(b, k) \<in> live" and "(a, n) \<noteq> (b, k)"
  shows "arena_interval a n \<inter> arena_interval b k = {}"
  using assms by (rule arena.live_disjoint)

theorem live_regions_disjoint_witness:
  "\<exists>s live. (region_step arena_interval arena_admissible ArenaReserve ArenaFreeListInsert)\<^sup>*\<^sup>*
      (specimen_arena, {}) (s, live) \<and> (0xFFFFC00000000000, 1) \<in> live \<and> (0xFFFFC00000001000, 2) \<in> live \<and>
      arena_interval 0xFFFFC00000000000 1 \<inter> arena_interval 0xFFFFC00000001000 2 = {}"
proof -
  let ?step = "region_step arena_interval arena_admissible ArenaReserve ArenaFreeListInsert"
  define s1 where "s1 = specimen_arena\<lparr>ArenaBumpPointer := 0xFFFFC00000001000\<rparr>"
  define s2 where "s2 = specimen_arena\<lparr>ArenaBumpPointer := 0xFFFFC00000003000\<rparr>"
  have "ArenaReserve 1 specimen_arena = (s1, Some 0xFFFFC00000000000)"
    by (simp add: ArenaReserve_def ArenaFreeListTake_def specimen_arena_def fresh_arena_def
        KernelVirtualInitialise_def KERNEL_ARENA_BASE_def KERNEL_ARENA_SIZE_def PAGE_SIZE_def s1_def)
  then have "?step (specimen_arena, {}) (s1, {(0xFFFFC00000000000, 1)})"
    by (intro region_step.take arena_admissible_one)
  moreover have "ArenaReserve 2 s1 = (s2, Some 0xFFFFC00000001000)"
    by (simp add: ArenaReserve_def ArenaFreeListTake_def specimen_arena_def fresh_arena_def
        KernelVirtualInitialise_def KERNEL_ARENA_BASE_def KERNEL_ARENA_SIZE_def PAGE_SIZE_def s1_def s2_def)
  then have "?step (s1, {(0xFFFFC00000000000, 1)})
      (s2, {(0xFFFFC00000001000, 2), (0xFFFFC00000000000, 1)})"
    by (intro region_step.take arena_admissible_one)
  ultimately have reach: "?step\<^sup>*\<^sup>* (specimen_arena, {})
      (s2, {(0xFFFFC00000001000, 2), (0xFFFFC00000000000, 1)})" by (rule converse_rtranclp_into_rtranclp
      [OF _ r_into_rtranclp])
  have ok: "arena_ok specimen_arena" using specimen_backed by (simp add: arena_backed_def)
  have "arena_interval 0xFFFFC00000000000 1 \<inter> arena_interval 0xFFFFC00000001000 2 = {}"
    by (rule live_regions_disjoint [OF reach ok]) simp_all
  with reach show ?thesis by blast
qed

text \<open>C9: Giving a region back keeps the free list sorted, disjoint, coalesced (no two ranges
  touch), within its capacity and below the bump pointer; and it adds exactly the bytes of the region,
  unless the list was full, when the region is counted as forfeit and nothing else changes.\<close>

theorem free_list_insert_exact:
  assumes ok: "arena_ok st" and P: "arena_proper start n"
    and dis: "arena_interval start n \<inter> arena_available st = {}"
  shows "arena_ok (ArenaFreeListInsert start n st) \<and>
    (arena_available (ArenaFreeListInsert start n st) = arena_available st \<union> arena_interval start n \<and>
       ArenaRangesForfeited (ArenaFreeListInsert start n st) = ArenaRangesForfeited st
     \<or> arena_available (ArenaFreeListInsert start n st) = arena_available st \<and>
       length (ArenaFreeList st) = ARENA_FREE_LIST_CAPACITY \<and>
       ArenaRangesForfeited (ArenaFreeListInsert start n st) = ArenaRangesForfeited st + 1)"
  using ArenaFreeListInsert_ok(1,2) [OF ok _ _ _ _ dis] P by (simp add: arena_proper_def)

theorem free_list_insert_exact_witness:
  "arena_ok (ArenaFreeListInsert 0xFFFFC00000001000 2
     (specimen_arena\<lparr>ArenaBumpPointer := 0xFFFFC00000003000\<rparr>))"
proof -
  let ?s = "specimen_arena\<lparr>ArenaBumpPointer := 0xFFFFC00000003000\<rparr>"
  have "ArenaFreeList ?s = []" by (simp add: specimen_arena_def fresh_arena_def KernelVirtualInitialise_def)
  then have "arena_ok ?s" "arena_interval 0xFFFFC00000001000 2 \<inter> arena_available ?s = {}"
    "arena_proper 0xFFFFC00000001000 2"
    by (simp_all add: arena_ok_def arena_limits arena_interval_def arena_available_def arena_proper_def
        IsPageAligned_def PAGE_SIZE_def)
  then show ?thesis using free_list_insert_exact by blast
qed

text \<open>The bound on the bump pointer does wrap, for one request: the whole arena.  A request
  for it that fails for want of frames moves the bump pointer to the arena's end and puts the arena on the
  free list; once one page has been allocated from there, the same request again passes the bound (the sum
  is zero), reserves addresses beyond the arena and leaves the bump pointer at zero.\<close>

lemma whole_arena_request_wraps:
  "let st1 = fst (ArenaReserve ARENA_PAGE_CAPACITY (fresh_arena m));
       st2 = ArenaFreeListInsert KERNEL_ARENA_BASE ARENA_PAGE_CAPACITY st1;
       st3 = fst (ArenaReserve 1 st2)
   in snd (ArenaReserve ARENA_PAGE_CAPACITY (fresh_arena m)) = Some KERNEL_ARENA_BASE \<and>
      snd (ArenaReserve 1 st2) = Some KERNEL_ARENA_BASE \<and>
      ArenaReserve ARENA_PAGE_CAPACITY st3 =
        (st3\<lparr>ArenaBumpPointer := 0\<rparr>, Some (KERNEL_ARENA_BASE + KERNEL_ARENA_SIZE))"
  by (simp add: ArenaReserve_def ArenaFreeListTake_def ArenaFreeListInsert_def fresh_arena_def Let_def
      KernelVirtualInitialise_def KERNEL_ARENA_BASE_def KERNEL_ARENA_SIZE_def PAGE_SIZE_def
      ARENA_PAGE_CAPACITY_def ARENA_FREE_LIST_CAPACITY_def)

end
