(* ===== verification/PageSource.thy ===== *)
theory PageSource
  imports FrameRoom
begin

text \<open>
  The contract between the arena (\<open>kernel/mm/vmm.c\<close>) and those who take pages from it, the
  heap first of all: a locale \<open>block_source\<close> whose state carries the regions outstanding, and
  the arena as its provider.  A region allocated overlaps none outstanding, and every region
  outstanding can be given back.
\<close>

subsection \<open>The contract\<close>

inductive block_step ::
  "(u64 \<Rightarrow> 's \<Rightarrow> ('s \<times> u64) outcome) \<Rightarrow> (u64 \<Rightarrow> u64 \<Rightarrow> 's \<Rightarrow> 's outcome) \<Rightarrow> (u64 \<Rightarrow> bool) \<Rightarrow>
   's \<times> (u64 \<times> u64) set \<Rightarrow> 's \<times> (u64 \<times> u64) set \<Rightarrow> bool"
  for allocate release admissible
  where
    obtain_pages: "admissible n \<Longrightarrow> allocate n s = Inr (s', a) \<Longrightarrow> a \<noteq> 0 \<Longrightarrow>
      block_step allocate release admissible (s, live) (s', insert (a, n) live)"
  | refuse_pages: "admissible n \<Longrightarrow> allocate n s = Inr (s', 0) \<Longrightarrow>
      block_step allocate release admissible (s, live) (s', live)"
  | return_pages: "(a, n) \<in> live \<Longrightarrow> release a n s = Inr s' \<Longrightarrow>
      block_step allocate release admissible (s, live) (s', live - {(a, n)})"

locale block_source =
  fixes allocate :: "u64 \<Rightarrow> 's \<Rightarrow> ('s \<times> u64) outcome"
    and release :: "u64 \<Rightarrow> u64 \<Rightarrow> 's \<Rightarrow> 's outcome"
    and admissible :: "u64 \<Rightarrow> bool" and region :: "u64 \<Rightarrow> u64 \<Rightarrow> nat set"
    and proper :: "u64 \<Rightarrow> u64 \<Rightarrow> bool"
    and ok :: "'s \<Rightarrow> (u64 \<times> u64) set \<Rightarrow> bool"
  assumes obtained: "ok s live \<Longrightarrow> admissible n \<Longrightarrow> allocate n s = Inr (s', a) \<Longrightarrow> a \<noteq> 0 \<Longrightarrow>
      ok s' (insert (a, n) live) \<and> proper a n \<and> (\<forall>(b, k) \<in> live. region a n \<inter> region b k = {})"
    and refused: "ok s live \<Longrightarrow> admissible n \<Longrightarrow> allocate n s = Inr (s', 0) \<Longrightarrow> ok s' live"
    and returned: "ok s live \<Longrightarrow> (a, n) \<in> live \<Longrightarrow>
      \<exists>s'. release a n s = Inr s' \<and> ok s' (live - {(a, n)})"
begin

lemma ok_step:
  assumes "block_step allocate release admissible c c'" "ok (fst c) (snd c)"
  shows "ok (fst c') (snd c')"
  using assms
proof (induction rule: block_step.induct)
  case (obtain_pages n s s' a live)
  then show ?case using obtained [of s live n s' a] by simp
next
  case (refuse_pages n s s' live)
  then show ?case using refused [of s live n s'] by simp
next
  case (return_pages a n live s s')
  then show ?case using returned [of s live a n] by auto
qed

lemma ok_reachable:
  assumes "(block_step allocate release admissible)\<^sup>*\<^sup>* c c'" "ok (fst c) (snd c)"
  shows "ok (fst c') (snd c')"
  using assms by (induction rule: rtranclp_induct) (auto intro: ok_step)

lemma outstanding_returns:
  assumes "(block_step allocate release admissible)\<^sup>*\<^sup>* (s0, {}) (s, live)" "ok s0 {}" "(a, n) \<in> live"
  shows "\<exists>s'. release a n s = Inr s'"
  using ok_reachable [OF assms(1)] assms(2) returned [OF _ assms(3)] by auto

end

subsection \<open>The arena provides it\<close>

text \<open>The pages of an outstanding region are mapped to frames no other region has.\<close>

definition region_owned ::
  "arena_state \<Rightarrow> (u64 \<Rightarrow> nat) \<Rightarrow> u64 \<Rightarrow> (u64 \<Rightarrow> nat \<Rightarrow> u64) \<Rightarrow> u64 \<times> u64 \<Rightarrow> bool" where
  "region_owned st lv root f r \<longleftrightarrow> arena_proper (fst r) (snd r) \<and>
     arena_interval (fst r) (snd r) \<inter> arena_available st = {} \<and>
     owned_pages (paging st) lv root (fst r) [0..<unat (snd r)] (f (fst r))"

definition regions_apart :: "(u64 \<Rightarrow> nat \<Rightarrow> u64) \<Rightarrow> u64 \<times> u64 \<Rightarrow> u64 \<times> u64 \<Rightarrow> bool" where
  "regions_apart f r q \<longleftrightarrow>
     arena_interval (fst r) (snd r) \<inter> arena_interval (fst q) (snd q) = {} \<and>
     (\<forall>i < unat (snd r). \<forall>j < unat (snd q). f (fst r) i \<noteq> f (fst q) j)"

definition pages_ok :: "arena_state \<Rightarrow> (u64 \<times> u64) set \<Rightarrow> bool" where
  "pages_ok st live \<longleftrightarrow> (\<exists>lv root f. arena_backed st lv root \<and>
     (\<forall>r \<in> live. region_owned st lv root f r) \<and>
     (\<forall>r \<in> live. \<forall>q \<in> live. r \<noteq> q \<longrightarrow> regions_apart f r q))"

lemma regions_apart_commute: "regions_apart f r q \<longleftrightarrow> regions_apart f q r"
  unfolding regions_apart_def by (metis inf_commute)

lemma region_page_not_same:
  assumes P: "arena_proper a n" "arena_proper b k" and dis: "arena_interval a n \<inter> arena_interval b k = {}"
    and i: "i < unat n" "j < unat k"
  shows "\<not> same_page (arena_page a i) (arena_page b j)"
proof
  assume "same_page (arena_page a i) (arena_page b j)"
  then have "arena_page a i = arena_page b j"
    using arena_page_in [OF P(1) i(1)] arena_page_in [OF P(2) i(2)] by (intro arena_page_unique)
  then show False
    using arena_page_in(3) [OF P(1) i(1)] arena_page_in(3) [OF P(2) i(2)] dis by auto
qed

text \<open>What is unchanged behind a region's pages leaves it owned.\<close>

lemma owned_pages_kept:
  assumes "owned_pages m lv root start ks f"
    and "\<And>k. k \<in> set ks \<Longrightarrow> walk (physical m') (arena_page start k) 4 root = walk (physical m) (arena_page start k) 4 root"
    and "\<And>k. k \<in> set ks \<Longrightarrow> data_frame m lv (f k) \<Longrightarrow> data_frame m' lv' (f k)"
  shows "owned_pages m' lv' root start ks f"
  using assms unfolding owned_pages_def by simp

lemma pages_obtained:
  assumes ok: "pages_ok st live" and n: "arena_admissible n"
    and run: "KernelPagesAllocate n st = Inr (st', a)" and got: "a \<noteq> 0"
  shows "pages_ok st' (insert (a, n) live) \<and> arena_proper a n \<and>
    (\<forall>(b, k) \<in> live. arena_interval a n \<inter> arena_interval b k = {})"
proof -
  obtain lv root f where I: "arena_backed st lv root" and own: "\<And>r. r \<in> live \<Longrightarrow> region_owned st lv root f r"
    and apart: "\<And>r q. r \<in> live \<Longrightarrow> q \<in> live \<Longrightarrow> r \<noteq> q \<Longrightarrow> regions_apart f r q"
    using ok unfolding pages_ok_def by blast
  obtain lv' g where S: "arena_backed st' lv' root" "arena_proper a n" "arena_interval a n \<subseteq> arena_available st"
    "arena_available st' = arena_available st - arena_interval a n"
    and B: "backing (paging st) lv root a (unat n) (paging st') lv' g"
    by (rule KernelPagesAllocate_success [OF I n run got])
  have dis: "arena_interval a n \<inter> arena_interval b k = {}" if "(b, k) \<in> live" for b k
    using own [OF that] S(3) by (auto simp: region_owned_def)
  have a0: "a \<noteq> b" if "(b, k) \<in> live" for b k
  proof
    assume "a = b"
    moreover have "0 < unat n" "0 < unat k"
      using S(2) own [OF that] by (auto simp: arena_proper_def region_owned_def unat_gt_0)
    ultimately have "unat a \<in> arena_interval a n \<inter> arena_interval b k" by (simp add: arena_interval_def)
    then show False using dis [OF that] by simp
  qed
  define h where "h = f(a := g)"
  have hb: "h b = f b" if "(b, k) \<in> live" for b k using a0 [OF that] by (auto simp: h_def)
  have kept: "region_owned st' lv' root h (b, k)" if r: "(b, k) \<in> live" for b k
  proof -
    have O: "arena_proper b k" "arena_interval b k \<inter> arena_available st = {}"
      "owned_pages (paging st) lv root b [0..<unat k] (f b)"
      using own [OF r] by (simp_all add: region_owned_def)
    have "owned_pages (paging st') lv' root b [0..<unat k] (f b)"
    proof (rule owned_pages_kept [OF O(3)])
      fix j assume "j \<in> set [0..<unat k]"
      then have "\<forall>i<unat n. \<not> same_page (arena_page a i) (arena_page b j)"
        using region_page_not_same [OF S(2) O(1) dis [OF r]] by simp
      then show "walk (physical (paging st')) (arena_page b j) 4 root =
          walk (physical (paging st)) (arena_page b j) 4 root"
        using B unfolding backing_def by blast
    next
      fix j assume "data_frame (paging st) lv (f b j)"
      then show "data_frame (paging st') lv' (f b j)" using B unfolding backing_def by blast
    qed
    then show ?thesis using O S(4) hb [OF r] by (auto simp: region_owned_def)
  qed
  have new: "region_owned st' lv' root h (a, n)"
    using S backing_owned [OF B S(2) order_refl] by (auto simp: region_owned_def h_def)
  have fresh: "regions_apart h (a, n) (b, k)" if r: "(b, k) \<in> live" for b k
  proof -
    have "g i \<noteq> f b j" if "i < unat n" "j < unat k" for i j
    proof
      assume "g i = f b j"
      moreover have "data_frame (paging st) lv (f b j)"
        using own [OF r] that by (auto simp: region_owned_def owned_pages_def)
      moreover have "frame_refs (frames (paging st)) (FrameIndexOf (g i)) = 0"
        using B that unfolding backing_def by blast
      ultimately show False by (simp add: data_frame_def)
    qed
    then show ?thesis using dis [OF r] hb [OF r] by (simp add: regions_apart_def h_def)
  qed
  have old: "regions_apart h r q" if "r \<in> live" "q \<in> live" "r \<noteq> q" for r q
    using apart [OF that] hb [of "fst r" "snd r"] hb [of "fst q" "snd q"] that by (simp add: regions_apart_def)
  have "pages_ok st' (insert (a, n) live)"
    unfolding pages_ok_def
  proof (intro exI conjI ballI impI)
    show "region_owned st' lv' root h r" if "r \<in> insert (a, n) live" for r
      using that new kept by (cases r) auto
    show "regions_apart h r q" if "r \<in> insert (a, n) live" "q \<in> insert (a, n) live" "r \<noteq> q" for r q
      using that old fresh regions_apart_commute by (cases r; cases q) auto
  qed (fact S(1))
  then show ?thesis using S(2) dis by auto
qed

lemma pages_refused:
  assumes ok: "pages_ok st live" and n: "arena_admissible n"
    and run: "KernelPagesAllocate n st = Inr (st', 0)"
  shows "pages_ok st' live"
proof -
  obtain lv root f where I: "arena_backed st lv root" and own: "\<And>r. r \<in> live \<Longrightarrow> region_owned st lv root f r"
    and apart: "\<And>r q. r \<in> live \<Longrightarrow> q \<in> live \<Longrightarrow> r \<noteq> q \<Longrightarrow> regions_apart f r q"
    using ok unfolding pages_ok_def by blast
  obtain lv' where S: "arena_backed st' lv' root" "unwound (paging st) lv root (paging st') lv'"
    "arena_available st' = arena_available st \<or>
     ArenaRangesForfeited st' = ArenaRangesForfeited st + 1 \<and> arena_available st' \<subseteq> arena_available st"
    by (rule KernelPagesAllocate_failure [OF I n run])
  have "region_owned st' lv' root f r" if "r \<in> live" for r
  proof -
    have O: "arena_proper (fst r) (snd r)" "arena_interval (fst r) (snd r) \<inter> arena_available st = {}"
      "owned_pages (paging st) lv root (fst r) [0..<unat (snd r)] (f (fst r))"
      using own [OF that] by (simp_all add: region_owned_def)
    have "owned_pages (paging st') lv' root (fst r) [0..<unat (snd r)] (f (fst r))"
      by (rule owned_pages_kept [OF O(3)]) (use S(2) in \<open>auto simp: unwound_def\<close>)
    then show ?thesis using O S(3) by (auto simp: region_owned_def)
  qed
  then show ?thesis using S(1) apart unfolding pages_ok_def by blast
qed

lemma pages_returned:
  assumes ok: "pages_ok st live" and r: "(a, n) \<in> live"
  shows "\<exists>st'. KernelPagesFree a n st = Inr st' \<and> pages_ok st' (live - {(a, n)})"
proof -
  obtain lv root f where I: "arena_backed st lv root" and own: "\<And>r. r \<in> live \<Longrightarrow> region_owned st lv root f r"
    and apart: "\<And>r q. r \<in> live \<Longrightarrow> q \<in> live \<Longrightarrow> r \<noteq> q \<Longrightarrow> regions_apart f r q"
    using ok unfolding pages_ok_def by blast
  have O: "arena_proper a n" "arena_interval a n \<inter> arena_available st = {}"
    "owned_pages (paging st) lv root a [0..<unat n] (f a)"
    using own [OF r] by (simp_all add: region_owned_def)
  obtain st' where S: "KernelPagesFree a n st = Inr st'" "arena_backed st' lv root"
    "given_back (paging st) lv root (\<lambda>va. \<exists>k<unat n. same_page (arena_page a k) va)
       (\<lambda>i. if \<exists>k<unat n. i = FrameIndexOf (f a k) then 1 else 0) (paging st')"
    "arena_available st' = arena_available st \<union> arena_interval a n \<or>
     arena_available st' = arena_available st \<and>
     ArenaRangesForfeited st' = ArenaRangesForfeited st + 1"
    by (rule KernelPagesFree_returns [OF I O])
  have kept: "region_owned st' lv root f (b, k)" if q: "(b, k) \<in> live - {(a, n)}" for b k
  proof -
    have A: "regions_apart f (a, n) (b, k)" using apart [OF r, of "(b, k)"] q by auto
    have Q: "arena_proper b k" "arena_interval b k \<inter> arena_available st = {}"
      "owned_pages (paging st) lv root b [0..<unat k] (f b)"
      using own [of "(b, k)"] q by (simp_all add: region_owned_def)
    have "owned_pages (paging st') lv root b [0..<unat k] (f b)"
    proof (rule owned_pages_kept [OF Q(3)])
      fix j assume j: "j \<in> set [0..<unat k]"
      then have "\<not> (\<exists>i<unat n. same_page (arena_page a i) (arena_page b j))"
        using region_page_not_same [OF O(1) Q(1)] A by (auto simp: regions_apart_def)
      then show "walk (physical (paging st')) (arena_page b j) 4 root =
          walk (physical (paging st)) (arena_page b j) 4 root"
        using S(3) by (auto simp: given_back_def)
      assume D: "data_frame (paging st) lv (f b j)"
      have "FrameIndexOf (f b j) \<noteq> FrameIndexOf (f a i)" if "i < unat n" for i
      proof
        assume "FrameIndexOf (f b j) = FrameIndexOf (f a i)"
        moreover have "data_frame (paging st) lv (f a i)" using O(3) that by (auto simp: owned_pages_def)
        ultimately have "f b j = f a i" using D frame_valid_eq by (simp add: data_frame_def)
        then have "f a i = f b j" ..
        then show False using A that j by (simp add: regions_apart_def)
      qed
      then show "data_frame (paging st') lv (f b j)" using D S(3) by (auto simp: given_back_def data_frame_def)
    qed
    then show ?thesis using Q S(4) A by (auto simp: region_owned_def regions_apart_def)
  qed
  have "pages_ok st' (live - {(a, n)})"
    unfolding pages_ok_def
  proof (intro exI conjI ballI impI)
    show "region_owned st' lv root f q" if "q \<in> live - {(a, n)}" for q
      using kept that by (cases q) auto
  qed (use S(2) apart in auto)
  with S(1) show ?thesis by blast
qed

interpretation pages: block_source KernelPagesAllocate KernelPagesFree arena_admissible arena_interval
  arena_proper pages_ok
proof (unfold_locales, goal_cases)
  case (1 s live n s' a)
  then show ?case by (rule pages_obtained)
next
  case (2 s live n s')
  then show ?case by (rule pages_refused)
next
  case (3 s live a n)
  then show ?case by (rule pages_returned)
qed

end
