(* ===== verification/ByteMemory.thy ===== *)
theory ByteMemory
  imports OxysPrelude
begin

text \<open>
  Memory as bytes, with the little-endian loads and stores of the processor: what the heap's
  headers and links, which share a page with the objects, are read and written through.
\<close>

type_synonym memory = "u64 \<Rightarrow> u8"

fun load_le :: "memory \<Rightarrow> u64 \<Rightarrow> nat \<Rightarrow> u64" where
  "load_le m a 0 = 0"
| "load_le m a (Suc n) = (ucast (m a) OR push_bit 8 (load_le m (a + 1) n))"

definition store_le :: "u64 \<Rightarrow> nat \<Rightarrow> u64 \<Rightarrow> memory \<Rightarrow> memory" where
  "store_le a n v m =
     (\<lambda>x. if unat (x - a) < n then ucast (drop_bit (8 * unat (x - a)) v) else m x)"

definition byte_range :: "u64 \<Rightarrow> nat \<Rightarrow> nat set" where
  "byte_range a n = {unat a..<unat a + n}"

lemma unat_offset: "unat a + i < 2 ^ 64 \<Longrightarrow> unat (a + word_of_nat i :: u64) = unat a + i"
  by (subst unat_add_lem [THEN iffD1]) (simp_all add: unat_word_of_nat)

lemma offset_in_range:
  assumes "unat a + n \<le> 2 ^ 64"
  shows "unat (x - a) < n \<longleftrightarrow> unat x \<in> byte_range a n"
proof (cases "a \<le> x")
  case True
  then have "unat (x - a) = unat x - unat a" by (simp add: unat_sub)
  then show ?thesis using True by (auto simp: byte_range_def word_le_nat_alt)
next
  case False
  then have lt: "unat x < unat a" by (simp add: word_le_nat_alt)
  have "unat (x - a) = unat x + 2 ^ 64 - unat a"
    using lt unat_u64 [of a] by (simp add: unat_sub_if_size word_size)
  then show ?thesis using lt assms unat_u64 [of x] by (auto simp: byte_range_def)
qed

lemma store_le_other:
  "unat a + n \<le> 2 ^ 64 \<Longrightarrow> unat x \<notin> byte_range a n \<Longrightarrow> store_le a n v m x = m x"
  using offset_in_range [of a n x] by (simp add: store_le_def)

lemma load_le_cong:
  assumes "unat a + n < 2 ^ 64" "\<And>x. unat x \<in> byte_range a n \<Longrightarrow> m x = m' x"
  shows "load_le m a n = load_le m' a n"
  using assms
proof (induction n arbitrary: a)
  case (Suc n)
  have a: "unat (a + 1) = unat a + 1" using unat_offset [of a 1] Suc.prems(1) by simp
  have "load_le m (a + 1) n = load_le m' (a + 1) n"
    by (rule Suc.IH) (use Suc.prems a in \<open>auto simp: byte_range_def\<close>)
  moreover have "m a = m' a" by (rule Suc.prems(2)) (simp add: byte_range_def)
  ultimately show ?case by simp
qed simp

text \<open>A load that overlaps no byte of a store reads what was there.\<close>

lemma load_store_other:
  assumes "unat a + n \<le> 2 ^ 64" "unat b + k < 2 ^ 64" "byte_range a n \<inter> byte_range b k = {}"
  shows "load_le (store_le a n v m) b k = load_le m b k"
  by (rule load_le_cong [OF assms(2)]) (use assms store_le_other in \<open>blast\<close>)

lemma load_le_bits:
  "unat a + n < 2 ^ 64 \<Longrightarrow> n \<le> 8 \<Longrightarrow>
     bit (load_le m a n) i \<longleftrightarrow> i < 8 * n \<and> bit (m (a + word_of_nat (i div 8))) (i mod 8)"
proof (induction n arbitrary: a i)
  case (Suc n)
  have a1: "unat (a + 1) + n < 2 ^ 64" using unat_offset [of a 1] Suc.prems(1) by simp
  show ?case
  proof (cases "i < 8")
    case True
    then show ?thesis by (simp add: bit_or_iff bit_push_bit_iff bit_ucast_iff)
  next
    case False
    then obtain k where k: "i = k + 8" by (metis add.commute le_Suc_ex not_less)
    have "\<not> bit (ucast (m a) :: u64) i"
      using False by (auto simp: bit_ucast_iff dest: bit_imp_le_length)
    moreover have "(k + 8) div 8 = k div 8 + 1" "(k + 8) mod 8 = k mod 8" by simp_all
    ultimately show ?thesis
      using Suc.IH [OF a1, of k] Suc.prems(2) k
      by (auto simp: bit_or_iff bit_push_bit_iff add.assoc dest: bit_imp_le_length)
  qed
qed simp

lemma load_store_same:
  assumes "unat a + n < 2 ^ 64" "n \<le> 8"
  shows "load_le (store_le a n v m) a n = take_bit (8 * n) v"
proof (rule bit_word_eqI)
  fix i :: nat
  assume "i < LENGTH(64)"
  have "unat (word_of_nat (i div 8) :: u64) = i div 8"
    using \<open>i < LENGTH(64)\<close> by (simp add: unat_word_of_nat)
  then have "bit (store_le a n v m (a + word_of_nat (i div 8))) (i mod 8) \<longleftrightarrow> bit v i"
    if "i < 8 * n"
    using that by (simp add: store_le_def bit_ucast_iff bit_drop_bit_eq less_mult_imp_div_less mult.commute)
  then show "bit (load_le (store_le a n v m) a n) i = bit (take_bit (8 * n) v) i"
    using load_le_bits [OF assms] by (auto simp: bit_take_bit_iff)
qed

end
