(* ===== verification/KernelHeap.thy ===== *)
theory KernelHeap
  imports PageSource ByteMemory
begin

text \<open>
  The kernel heap of \<open>kernel/mm/heap.c\<close>: a slab allocator over pages of the arena.  The
  memory of its pages is \<open>heap_memory\<close>, bytes at virtual addresses, in which the page headers
  and the links of the free lists are stored beside the objects.
\<close>

subsection \<open>Constants and state\<close>

definition HEAP_SLAB_MAGIC :: u64 where "HEAP_SLAB_MAGIC = 0x4F5859534845415A"
definition HEAP_CLASS_COUNT :: nat where "HEAP_CLASS_COUNT = 8"
definition HEAP_ALIGNMENT :: nat where "HEAP_ALIGNMENT = 16"

definition HeapSizeClasses :: "u64 list" where
  "HeapSizeClasses = [16, 32, 64, 128, 256, 512, 1024, 2048]"

text \<open>
  The header at the base of a page: the offsets and widths of its fields in bytes.  The size of
  the structure, 32, is asserted by the source.
\<close>

definition HEAP_HEADER_SIZE :: u64 where "HEAP_HEADER_SIZE = 32"

record HeapPageHeader =
  magic :: u64
  object_size :: u64
  page_count :: u64
  objects_in_use :: u64
  reserved :: u64
  padding :: u64

definition header_at :: "memory \<Rightarrow> u64 \<Rightarrow> HeapPageHeader" where
  "header_at m page =
     \<lparr>magic = load_le m page 8, object_size = load_le m (page + 8) 4,
      page_count = load_le m (page + 12) 4, objects_in_use = load_le m (page + 16) 4,
      reserved = load_le m (page + 20) 4, padding = load_le m (page + 24) 8\<rparr>"

definition write_header :: "u64 \<Rightarrow> HeapPageHeader \<Rightarrow> memory \<Rightarrow> memory" where
  "write_header page header m =
     store_le (page + 24) 8 (padding header)
       (store_le (page + 20) 4 (reserved header)
         (store_le (page + 16) 4 (objects_in_use header)
           (store_le (page + 12) 4 (page_count header)
             (store_le (page + 8) 4 (object_size header)
               (store_le page 8 (magic header) m)))))"

record heap_state =
  HeapClassFreeList :: "u64 list"
  HeapSlabPageCount :: u64
  HeapLargePageCount :: u64
  HeapLiveAllocationCount :: u64
  heap_memory :: memory
  arena :: arena_state

definition KernelHeapInitialise :: "heap_state \<Rightarrow> heap_state" where
  "KernelHeapInitialise h =
     h\<lparr>HeapClassFreeList := replicate HEAP_CLASS_COUNT 0, HeapSlabPageCount := 0,
       HeapLargePageCount := 0, HeapLiveAllocationCount := 0\<rparr>"

definition HeapZero :: "u64 \<Rightarrow> u64 \<Rightarrow> memory \<Rightarrow> memory" where
  "HeapZero address bytes m =
     fold (\<lambda>index m. m(address + word_of_nat index := 0)) [0..<unat bytes] m"

subsection \<open>Size classes\<close>

fun class_from :: "u64 \<Rightarrow> u64 list \<Rightarrow> nat \<Rightarrow> nat" where
  "class_from bytes [] index = HEAP_CLASS_COUNT"
| "class_from bytes (bound # bounds) index =
     (if bytes \<le> bound then index else class_from bytes bounds (index + 1))"

definition HeapSizeClassFor :: "u64 \<Rightarrow> nat" where
  "HeapSizeClassFor bytes = class_from bytes HeapSizeClasses 0"

subsection \<open>Slabs\<close>

text \<open>One iteration of the loop that threads the objects, lowest address last.\<close>

definition ThreadObject :: "nat \<Rightarrow> u64 \<Rightarrow> u64 \<Rightarrow> nat \<Rightarrow> heap_state \<Rightarrow> heap_state" where
  "ThreadObject class_index first_object bytes index h =
     (let object = first_object + word_of_nat (index - 1) * bytes
      in h\<lparr>heap_memory := store_le object 8 (HeapClassFreeList h ! class_index) (heap_memory h),
          HeapClassFreeList := (HeapClassFreeList h)[class_index := object]\<rparr>)"

definition CarveSlab :: "nat \<Rightarrow> u64 \<Rightarrow> heap_state \<Rightarrow> heap_state" where
  "CarveSlab class_index page h =
     (let bytes = HeapSizeClasses ! class_index;
          h = h\<lparr>heap_memory := write_header page
                 \<lparr>magic = HEAP_SLAB_MAGIC, object_size = bytes, page_count = 1,
                  objects_in_use = 0, reserved = 0, padding = 0\<rparr> (heap_memory h)\<rparr>;
          first_object = page + HEAP_HEADER_SIZE;
          object_count = (PAGE_SIZE - HEAP_HEADER_SIZE) div bytes;
          h = fold (ThreadObject class_index first_object bytes)
                (rev [1..<unat object_count + 1]) h
      in h\<lparr>HeapSlabPageCount := HeapSlabPageCount h + 1\<rparr>)"

definition HeapRefillClass :: "nat \<Rightarrow> heap_state \<Rightarrow> (heap_state \<times> bool) outcome" where
  "HeapRefillClass class_index h =
     bind_outcome (KernelPagesAllocate 1 (arena h)) (\<lambda>(pages, page).
       let h = h\<lparr>arena := pages\<rparr>
       in if page = 0 then Inr (h, False) else Inr (CarveSlab class_index page h, True))"

subsection \<open>Allocation\<close>

definition SIZE_MAX :: u64 where "SIZE_MAX = 0xFFFFFFFFFFFFFFFF"

definition KernelAllocateLarge :: "u64 \<Rightarrow> heap_state \<Rightarrow> (heap_state \<times> u64) outcome" where
  "KernelAllocateLarge bytes h =
     (if SIZE_MAX - HEAP_HEADER_SIZE - (PAGE_SIZE - 1) < bytes then Inr (h, 0)
      else
        let count = AlignUp (bytes + HEAP_HEADER_SIZE) PAGE_SIZE div PAGE_SIZE
        in bind_outcome (KernelPagesAllocate count (arena h)) (\<lambda>(st, pages).
             let h = h\<lparr>arena := st\<rparr>
             in if pages = 0 then Inr (h, 0)
                else Inr (h\<lparr>heap_memory := write_header pages
                              \<lparr>magic = HEAP_SLAB_MAGIC, object_size = 0, page_count = count,
                               objects_in_use = 1, reserved = 0, padding = 0\<rparr> (heap_memory h),
                            HeapLargePageCount := HeapLargePageCount h + count,
                            HeapLiveAllocationCount := HeapLiveAllocationCount h + 1\<rparr>,
                          pages + HEAP_HEADER_SIZE)))"

text \<open>Taking the object at the head of a class's free list.\<close>

definition TakeObject :: "nat \<Rightarrow> heap_state \<Rightarrow> heap_state \<times> u64" where
  "TakeObject class_index h =
     (let object = HeapClassFreeList h ! class_index;
          header = AlignDown object PAGE_SIZE;
          m = heap_memory h
      in (h\<lparr>HeapClassFreeList := (HeapClassFreeList h)[class_index := load_le m object 8],
            heap_memory := store_le (header + 16) 4 (load_le m (header + 16) 4 + 1) m,
            HeapLiveAllocationCount := HeapLiveAllocationCount h + 1\<rparr>, object))"

definition KernelAllocate :: "u64 \<Rightarrow> heap_state \<Rightarrow> (heap_state \<times> u64) outcome" where
  "KernelAllocate bytes h =
     (if bytes = 0 then Inr (h, 0)
      else
        let class_index = HeapSizeClassFor bytes
        in if class_index = HEAP_CLASS_COUNT then KernelAllocateLarge bytes h
           else if HeapClassFreeList h ! class_index = 0
           then bind_outcome (HeapRefillClass class_index h) (\<lambda>(h, refilled).
                  if \<not> refilled then Inr (h, 0) else Inr (TakeObject class_index h))
           else Inr (TakeObject class_index h))"

definition KernelAllocateZeroed :: "u64 \<Rightarrow> heap_state \<Rightarrow> (heap_state \<times> u64) outcome" where
  "KernelAllocateZeroed bytes h =
     bind_outcome (KernelAllocate bytes h) (\<lambda>(h, address).
       Inr (if address \<noteq> 0 then h\<lparr>heap_memory := HeapZero address bytes (heap_memory h)\<rparr> else h,
            address))"

subsection \<open>Release\<close>

definition KernelFree :: "u64 \<Rightarrow> heap_state \<Rightarrow> heap_state outcome" where
  "KernelFree address h =
     (if address = 0 then Inr h
      else
        let page = AlignDown address PAGE_SIZE;
            header = header_at (heap_memory h) page
        in if magic header \<noteq> HEAP_SLAB_MAGIC
           then KernelPanic ''A pointer not obtained from the kernel heap was passed to KernelFree.''
           else if object_size header = 0
           then
             let count = page_count header;
                 h = h\<lparr>heap_memory := store_le page 8 0 (heap_memory h),
                       HeapLargePageCount := HeapLargePageCount h - count,
                       HeapLiveAllocationCount := HeapLiveAllocationCount h - 1\<rparr>
             in bind_outcome (KernelPagesFree page count (arena h)) (\<lambda>st. Inr (h\<lparr>arena := st\<rparr>))
           else if objects_in_use header = 0
           then KernelPanic ''An object was released from a slab that holds none.''
           else
             let class_index = HeapSizeClassFor (object_size header);
                 m = store_le address 8 (HeapClassFreeList h ! class_index) (heap_memory h);
                 m = store_le (page + 16) 4 (load_le m (page + 16) 4 - 1) m
             in Inr (h\<lparr>heap_memory := m,
                       HeapClassFreeList := (HeapClassFreeList h)[class_index := address],
                       HeapLiveAllocationCount := HeapLiveAllocationCount h - 1\<rparr>))"

end
