(* ===== verification/HeapSlabs.thy ===== *)
theory HeapSlabs
  imports KernelHeap
begin

text \<open>
  The shape of the kernel heap (\<open>kernel/mm/heap.c\<close>): its slabs and large blocks, the free
  list of each class as a chain through the free objects, and the facts the operations rest on:
  which bytes the shape reads, and that a write to any other byte keeps it.
\<close>

subsection \<open>Classes and slots\<close>

definition class_size :: "nat \<Rightarrow> nat" where "class_size c = 16 * 2 ^ c"
definition slot_count :: "nat \<Rightarrow> nat" where "slot_count c = 4064 div class_size c"
definition slot :: "u64 \<Rightarrow> nat \<Rightarrow> nat \<Rightarrow> u64" where
  "slot page c j = page + word_of_nat (32 + j * class_size c)"

lemma less_8_cases: "c < 8 \<longleftrightarrow> c = 0 \<or> c = 1 \<or> c = 2 \<or> c = 3 \<or> c = 4 \<or> c = 5 \<or> c = 6 \<or> (c :: nat) = 7"
  by auto

lemma class_size_bytes: "c < 8 \<Longrightarrow> unat (HeapSizeClasses ! c) = class_size c"
  by (auto simp: less_8_cases HeapSizeClasses_def class_size_def nth_Cons')

lemma HeapSizeClasses_word: "c < 8 \<Longrightarrow> HeapSizeClasses ! c = word_of_nat (class_size c)"
  by (drule class_size_bytes) (metis word_unat_eq_iff unat_word_of_nat unat_u64 mod_less)

lemma class_size_pos [simp]: "0 < class_size c" by (simp add: class_size_def)

lemma class_size_le: "c < 8 \<Longrightarrow> 16 \<le> class_size c \<and> class_size c \<le> 2048"
  by (auto simp: less_8_cases class_size_def)

lemma slot_end: "j < slot_count c \<Longrightarrow> 32 + j * class_size c + class_size c \<le> 4096"
proof -
  assume "j < slot_count c"
  then have "(j + 1) * class_size c \<le> slot_count c * class_size c" by (intro mult_le_mono1) simp
  also have "\<dots> \<le> 4064" unfolding slot_count_def by simp
  finally show ?thesis by (simp add: algebra_simps)
qed

lemma slot_count_less: "c < 8 \<Longrightarrow> 0 < slot_count c \<and> slot_count c \<le> 254"
  by (auto simp: less_8_cases slot_count_def class_size_def)

lemma HeapSizeClassFor_class: "c < 8 \<Longrightarrow> HeapSizeClassFor (HeapSizeClasses ! c) = c"
  by (auto simp: less_8_cases HeapSizeClassFor_def HeapSizeClasses_def nth_Cons')

text \<open>The class chosen is the smallest that holds the request.\<close>

lemma class_from_bound:
  "class_from b bs i = k \<Longrightarrow> k \<noteq> HEAP_CLASS_COUNT \<Longrightarrow>
     i \<le> k \<and> k < i + length bs \<and> b \<le> bs ! (k - i) \<and> (\<forall>j. i \<le> j \<longrightarrow> j < k \<longrightarrow> bs ! (j - i) < b)"
proof (induction b bs i rule: class_from.induct)
  case (2 b bound bs i)
  show ?case
  proof (cases "b \<le> bound")
    case True
    then show ?thesis using 2 by simp
  next
    case False
    then have IH: "i + 1 \<le> k \<and> k < i + 1 + length bs \<and> b \<le> bs ! (k - (i + 1)) \<and>
        (\<forall>j. i + 1 \<le> j \<longrightarrow> j < k \<longrightarrow> bs ! (j - (i + 1)) < b)"
      using 2 by simp
    have "(bound # bs) ! (j - i) < b" if "i \<le> j" "j < k" for j
      using IH that False by (cases "j = i") (auto simp: nth_Cons' not_le)
    then show ?thesis using IH by (auto simp: nth_Cons')
  qed
qed simp

lemma HeapSizeClassFor_fits:
  assumes "HeapSizeClassFor b = c" "c \<noteq> HEAP_CLASS_COUNT"
  shows "c < 8" "unat b \<le> class_size c"
proof -
  note B = class_from_bound [OF assms(1) [unfolded HeapSizeClassFor_def] assms(2)]
  show c: "c < 8" using B by (simp add: HeapSizeClasses_def)
  show "unat b \<le> class_size c" using B class_size_bytes [OF c] by (simp add: word_le_nat_alt)
qed

subsection \<open>Addresses within a page\<close>

definition page_ok :: "u64 \<Rightarrow> bool" where
  "page_ok p \<longleftrightarrow> IsPageAligned p \<and> p \<noteq> 0 \<and> unat p + 4096 < 2 ^ 64"

lemma page_ok_offset: "page_ok p \<Longrightarrow> k \<le> 4096 \<Longrightarrow> unat (p + word_of_nat k) = unat p + k"
  by (rule unat_offset) (simp add: page_ok_def)

lemma unat_slot:
  assumes "page_ok p" "j < slot_count c"
  shows "unat (slot p c j) = unat p + 32 + j * class_size c"
proof -
  have "32 + j * class_size c \<le> 4096" using slot_end [OF assms(2)] by linarith
  from page_ok_offset [OF assms(1) this] show ?thesis by (simp add: slot_def)
qed

lemma slot_inj:
  assumes "page_ok p" "j < slot_count c" "k < slot_count c" "slot p c j = slot p c k"
  shows "j = k"
  using unat_slot [OF assms(1,2)] unat_slot [OF assms(1,3)] assms(4) class_size_pos [of c]
  by (metis add_left_cancel mult_right_cancel neq0_conv)

lemma slot_page:
  assumes p: "page_ok p" and j: "j < slot_count c"
  shows "AlignDown (slot p c j) PAGE_SIZE = p"
proof -
  have "unat (slot p c j) div 4096 * 4096 = unat p"
  proof -
    obtain q where q: "unat p = q * 4096" using p by (auto simp: page_ok_def IsPageAligned_iff)
    have "32 + j * class_size c < 4096" using slot_end [OF j] class_size_pos [of c] by linarith
    then have "(q * 4096 + (32 + j * class_size c)) div 4096 = q" by (intro div_nat_eqI) auto
    then show ?thesis using unat_slot [OF p j] q by (simp add: add.assoc)
  qed
  then show ?thesis by (simp add: word_unat_eq_iff unat_AlignDown)
qed

lemma slot_range:
  assumes "page_ok p" "j < slot_count c"
  shows "byte_range (slot p c j) (class_size c) \<subseteq> {unat p + 32..<unat p + 4096}"
  using unat_slot [OF assms] slot_end [OF assms(2)] by (auto simp: byte_range_def)

lemma slots_apart:
  assumes "page_ok p" "j < slot_count c" "k < slot_count c" "j \<noteq> k"
  shows "byte_range (slot p c j) (class_size c) \<inter> byte_range (slot p c k) (class_size c) = {}"
proof -
  consider "j + 1 \<le> k" | "k + 1 \<le> j" using assms(4) by linarith
  then have "(j + 1) * class_size c \<le> k * class_size c \<or> (k + 1) * class_size c \<le> j * class_size c"
    using mult_le_mono1 [of "j + 1" k "class_size c"] mult_le_mono1 [of "k + 1" j "class_size c"] by cases blast+
  then show ?thesis
    using unat_slot [OF assms(1,2)] unat_slot [OF assms(1,3)] by (auto simp: byte_range_def algebra_simps)
qed

subsection \<open>Headers\<close>

lemma header_cong:
  assumes p: "page_ok p" and same: "\<And>x. unat x \<in> byte_range p 32 \<Longrightarrow> m' x = m x"
  shows "header_at m' p = header_at m p"
proof -
  have L: "load_le m' (p + word_of_nat k) n = load_le m (p + word_of_nat k) n" if "k + n \<le> 32" for k n
  proof (rule load_le_cong)
    have u: "unat (p + word_of_nat k) = unat p + k" using page_ok_offset [OF p] that by simp
    show "unat (p + word_of_nat k) + n < 2 ^ 64" using u that p by (simp add: page_ok_def)
    show "m' x = m x" if "unat x \<in> byte_range (p + word_of_nat k) n" for x
      using that \<open>k + n \<le> 32\<close> by (intro same) (auto simp: byte_range_def u)
  qed
  show ?thesis
    using L [of 0 8] L [of 8 4] L [of 12 4] L [of 16 4] L [of 20 4] L [of 24 8] by (simp add: header_at_def)
qed

lemma header_store:
  assumes p: "page_ok p" and k: "k + n \<le> 32" "n \<le> 8" and j: "j + i \<le> 32"
  shows "load_le (store_le (p + word_of_nat k) n v m) (p + word_of_nat j) i =
    (if j = k \<and> i = n then take_bit (8 * n) v
     else if j + i \<le> k \<or> k + n \<le> j then load_le m (p + word_of_nat j) i
     else load_le (store_le (p + word_of_nat k) n v m) (p + word_of_nat j) i)"
proof -
  have u: "unat (p + word_of_nat k) = unat p + k" "unat (p + word_of_nat j) = unat p + j"
    using page_ok_offset [OF p] k j by simp_all
  have b: "unat (p + word_of_nat k) + n < 2 ^ 64" "unat (p + word_of_nat j) + i < 2 ^ 64"
    using u p k j by (simp_all add: page_ok_def)
  have "load_le (store_le (p + word_of_nat k) n v m) (p + word_of_nat j) i = load_le m (p + word_of_nat j) i"
    if "j + i \<le> k \<or> k + n \<le> j"
    by (rule load_store_other) (use b that in \<open>auto simp: byte_range_def u\<close>)
  then show ?thesis using load_store_same [OF b(1) k(2)] by auto
qed

lemmas header_stores = header_store [where k = 0 and n = 8, simplified] header_store [where k = 8 and n = 4, simplified]
  header_store [where k = 12 and n = 4, simplified] header_store [where k = 16 and n = 4, simplified]
  header_store [where k = 20 and n = 4, simplified] header_store [where k = 24 and n = 8, simplified]

lemma header_at_in_use:
  assumes "page_ok p"
  shows "header_at (store_le (p + 16) 4 v m) p = (header_at m p)\<lparr>objects_in_use := take_bit 32 v\<rparr>"
  using header_stores(4) [OF assms, where j = 0 and i = 8 and v = v and m = m]
    header_stores(4) [OF assms, where j = 8 and i = 4 and v = v and m = m]
    header_stores(4) [OF assms, where j = 12 and i = 4 and v = v and m = m]
    header_stores(4) [OF assms, where j = 16 and i = 4 and v = v and m = m]
    header_stores(4) [OF assms, where j = 20 and i = 4 and v = v and m = m]
    header_stores(4) [OF assms, where j = 24 and i = 8 and v = v and m = m]
  by (simp add: header_at_def)

end
