(* ===== verification/HeapShape.thy ===== *)
theory HeapShape
  imports HeapSlabs
begin

text \<open>
  What the memory of the kernel heap holds (\<open>kernel/mm/heap.c\<close>): a header on every slab and
  large block, and for each class a chain of links through its free objects.  Each elementary
  write of the code (a header, a count, a link) is shown to keep that shape.
\<close>

subsection \<open>The shape\<close>

fun chain :: "memory \<Rightarrow> u64 \<Rightarrow> u64 list \<Rightarrow> bool" where
  "chain m head [] \<longleftrightarrow> head = 0"
| "chain m head (x # xs) \<longleftrightarrow> head = x \<and> x \<noteq> 0 \<and> chain m (load_le m x 8) xs"

type_synonym slab_map = "u64 \<Rightarrow> nat option"
type_synonym block_map = "u64 \<Rightarrow> u64 option"

definition is_slot :: "slab_map \<Rightarrow> nat \<Rightarrow> u64 \<Rightarrow> bool" where
  "is_slot slabs c x \<longleftrightarrow> (\<exists>p j. slabs p = Some c \<and> j < slot_count c \<and> x = slot p c j)"

definition slab_header :: "nat \<Rightarrow> u64 \<Rightarrow> HeapPageHeader" where
  "slab_header c used = \<lparr>magic = HEAP_SLAB_MAGIC, object_size = HeapSizeClasses ! c, page_count = 1,
     objects_in_use = used, reserved = 0, padding = 0\<rparr>"

definition block_header :: "u64 \<Rightarrow> HeapPageHeader" where
  "block_header n = \<lparr>magic = HEAP_SLAB_MAGIC, object_size = 0, page_count = n,
     objects_in_use = 1, reserved = 0, padding = 0\<rparr>"

definition headers_ok :: "memory \<Rightarrow> slab_map \<Rightarrow> block_map \<Rightarrow> (u64 \<Rightarrow> u64) \<Rightarrow> bool" where
  "headers_ok m slabs large used \<longleftrightarrow>
     (\<forall>p c. slabs p = Some c \<longrightarrow> c < 8 \<and> page_ok p \<and> header_at m p = slab_header c (used p)) \<and>
     (\<forall>p n. large p = Some n \<longrightarrow> page_ok p \<and> header_at m p = block_header n)"

definition chains_ok :: "memory \<Rightarrow> u64 list \<Rightarrow> slab_map \<Rightarrow> (nat \<Rightarrow> u64 list) \<Rightarrow> bool" where
  "chains_ok m heads slabs fl \<longleftrightarrow> length heads = 8 \<and>
     (\<forall>c < 8. chain m (heads ! c) (fl c) \<and> distinct (fl c) \<and> (\<forall>x \<in> set (fl c). is_slot slabs c x))"

definition header_bytes :: "slab_map \<Rightarrow> block_map \<Rightarrow> nat set" where
  "header_bytes slabs large = (\<Union>p \<in> dom slabs \<union> dom large. byte_range p 32)"

definition link_bytes :: "(nat \<Rightarrow> u64 list) \<Rightarrow> nat set" where
  "link_bytes fl = (\<Union>c \<in> {..<8}. \<Union>x \<in> set (fl c). byte_range x 8)"

definition slot_bytes :: "slab_map \<Rightarrow> nat set" where
  "slot_bytes slabs = \<Union> {byte_range (slot p c j) (class_size c) |p c j. slabs p = Some c \<and> j < slot_count c}"

lemma header_pages:
  assumes "headers_ok m slabs large used"
  shows "slabs p = Some c \<Longrightarrow> c < 8 \<and> page_ok p" "large p = Some n \<Longrightarrow> page_ok p"
  using assms unfolding headers_ok_def by blast+

lemma free_slot:
  assumes "chains_ok m heads slabs fl" "c < 8" "x \<in> set (fl c)"
  obtains p j where "slabs p = Some c" "j < slot_count c" "x = slot p c j"
  using assms unfolding chains_ok_def is_slot_def by metis

subsection \<open>Separation\<close>

lemma pages_separate:
  assumes "page_ok p" "page_ok q" "p \<noteq> q" "x \<in> {unat p..<unat p + 4096}"
  shows "x \<notin> {unat q..<unat q + 4096}"
proof
  assume "x \<in> {unat q..<unat q + 4096}"
  moreover obtain i j where "unat p = i * 4096" "unat q = j * 4096"
    using assms(1,2) unfolding page_ok_def IsPageAligned_iff by (metis dvd_def mult.commute)
  ultimately have "x div 4096 = i" "x div 4096 = j"
    using assms(4) by (auto intro!: div_nat_eqI)
  then show False using \<open>unat p = i * 4096\<close> \<open>unat q = j * 4096\<close> assms(3) by (simp add: word_unat_eq_iff)
qed

lemma slot_not_header:
  assumes "page_ok p" "j < slot_count c" "page_ok q" "x \<in> byte_range (slot p c j) (class_size c)"
  shows "x \<notin> byte_range q 32"
proof -
  have x: "x \<in> {unat p + 32..<unat p + 4096}" using slot_range [OF assms(1,2)] assms(4) by blast
  show ?thesis
  proof (cases "p = q")
    case True
    then show ?thesis using x by (auto simp: byte_range_def)
  next
    case False
    then show ?thesis using pages_separate [OF assms(1,3) False, of x] x by (auto simp: byte_range_def)
  qed
qed

lemma slot_pages_inj:
  assumes "page_ok p" "j < slot_count c" "page_ok q" "k < slot_count d" "slot p c j = slot q d k"
  shows "p = q"
  using slot_page [OF assms(1,2)] slot_page [OF assms(3,4)] assms(5) by simp

lemma slots_separate:
  assumes "page_ok p" "j < slot_count c" "page_ok q" "k < slot_count d" "slot p c j \<noteq> slot q d k" "p = q \<Longrightarrow> c = d"
  shows "byte_range (slot p c j) (class_size c) \<inter> byte_range (slot q d k) (class_size d) = {}"
proof (cases "p = q")
  case True
  then show ?thesis using slots_apart [of p j c k] assms by auto
next
  case False
  have "x \<notin> byte_range (slot q d k) (class_size d)" if "x \<in> byte_range (slot p c j) (class_size c)" for x
  proof -
    have "x \<in> {unat p..<unat p + 4096}" using slot_range [OF assms(1,2)] that by auto
    then show ?thesis using pages_separate [OF assms(1,3) False] slot_range [OF assms(3,4)] by force
  qed
  then show ?thesis by blast
qed

lemma link_in_slot: "c < 8 \<Longrightarrow> byte_range x 8 \<subseteq> byte_range x (class_size c)"
  using class_size_le [of c] by (auto simp: byte_range_def)

lemma slot_bound: "page_ok p \<Longrightarrow> j < slot_count c \<Longrightarrow> c < 8 \<Longrightarrow> unat (slot p c j) + 8 < 2 ^ 64"
  using unat_slot [of p j c] slot_end [of j c] class_size_le [of c] by (simp add: page_ok_def)

lemma slot_nonzero: "page_ok p \<Longrightarrow> j < slot_count c \<Longrightarrow> slot p c j \<noteq> 0"
  using unat_slot [of p j c] by (auto simp: unat_eq_zero)

subsection \<open>Writes elsewhere\<close>

lemma headers_cong:
  assumes "headers_ok m slabs large used" "\<And>x. unat x \<in> header_bytes slabs large \<Longrightarrow> m' x = m x"
  shows "headers_ok m' slabs large used"
proof -
  have "header_at m' p = header_at m p" if "page_ok p" "p \<in> dom slabs \<union> dom large" for p
    by (rule header_cong [OF that(1)]) (use assms(2) that(2) in \<open>unfold header_bytes_def, blast\<close>)
  then show ?thesis using assms(1) unfolding headers_ok_def by (metis UnCI domI)
qed

lemma chain_cong:
  assumes "chain m head xs" "\<And>x. x \<in> set xs \<Longrightarrow> unat x + 8 < 2 ^ 64"
    "\<And>x y. x \<in> set xs \<Longrightarrow> unat y \<in> byte_range x 8 \<Longrightarrow> m' y = m y"
  shows "chain m' head xs"
  using assms
proof (induction xs arbitrary: head)
  case (Cons x xs)
  have "load_le m' x 8 = load_le m x 8"
    by (rule load_le_cong) (use Cons.prems(2,3) in \<open>auto simp: byte_range_def\<close>)
  moreover have "chain m' (load_le m x 8) xs"
    using Cons.prems by (intro Cons.IH) auto
  ultimately show ?case using Cons.prems(1) by simp
qed simp

lemma chains_cong:
  assumes H: "headers_ok n slabs large used" and C: "chains_ok m heads slabs fl"
    and same: "\<And>x. unat x \<in> link_bytes fl \<Longrightarrow> m' x = m x"
  shows "chains_ok m' heads slabs fl"
proof -
  have "chain m' (heads ! c) (fl c)" if c: "c < 8" for c
  proof (rule chain_cong)
    show "chain m (heads ! c) (fl c)" using C c by (simp add: chains_ok_def)
    show "unat x + 8 < 2 ^ 64" if x: "x \<in> set (fl c)" for x
    proof -
      obtain p j where "slabs p = Some c" "j < slot_count c" "x = slot p c j"
        by (rule free_slot [OF C c x])
      then show ?thesis using slot_bound header_pages(1) [OF H] c by metis
    qed
    show "m' y = m y" if "x \<in> set (fl c)" "unat y \<in> byte_range x 8" for x y
      using that c by (intro same) (auto simp: link_bytes_def)
  qed
  then show ?thesis using C by (simp add: chains_ok_def)
qed

text \<open>Links lie in slots, and slots hold no byte of a header.\<close>

lemma link_bytes_slots:
  assumes "chains_ok m heads slabs fl"
  shows "link_bytes fl \<subseteq> slot_bytes slabs"
proof
  fix b assume "b \<in> link_bytes fl"
  then obtain c x where c: "c < 8" "x \<in> set (fl c)" "b \<in> byte_range x 8" by (auto simp: link_bytes_def)
  obtain p j where "slabs p = Some c" "j < slot_count c" "x = slot p c j"
    by (rule free_slot [OF assms c(1,2)])
  then show "b \<in> slot_bytes slabs" using link_in_slot [OF c(1)] c(3) unfolding slot_bytes_def by blast
qed

lemma slot_bytes_headers:
  assumes "headers_ok m slabs large used" "b \<in> slot_bytes slabs" "page_ok q"
  shows "b \<notin> byte_range q 32"
proof -
  obtain p c j where "slabs p = Some c" "j < slot_count c" "b \<in> byte_range (slot p c j) (class_size c)"
    using assms(2) by (auto simp: slot_bytes_def)
  then show ?thesis using slot_not_header header_pages(1) [OF assms(1)] assms(3) by metis
qed

text \<open>The bytes of another slot hold no link of the free objects.\<close>

lemma slot_bytes_links:
  assumes H: "headers_ok m slabs large used" and C: "chains_ok n heads slabs fl"
    and p: "slabs p = Some c" "j < slot_count c" and free: "slot p c j \<notin> set (fl c)"
    and b: "b \<in> byte_range (slot p c j) (class_size c)"
  shows "b \<notin> link_bytes fl"
proof
  assume "b \<in> link_bytes fl"
  then obtain d y where d: "d < 8" "y \<in> set (fl d)" "b \<in> byte_range y 8" by (auto simp: link_bytes_def)
  obtain q k where q: "slabs q = Some d" "k < slot_count d" "y = slot q d k"
    by (rule free_slot [OF C d(1,2)])
  have P: "page_ok p" "page_ok q" using header_pages(1) [OF H] p q by metis+
  have "slot p c j \<noteq> slot q d k"
  proof
    assume e: "slot p c j = slot q d k"
    then have "p = q" by (rule slot_pages_inj [OF P(1) p(2) P(2) q(2)])
    then show False using p q e d free by auto
  qed
  then have "byte_range (slot p c j) (class_size c) \<inter> byte_range (slot q d k) (class_size d) = {}"
    by (rule slots_separate [OF P(1) p(2) P(2) q(2)]) (use p q in auto)
  then show False using b d(3) link_in_slot [OF d(1)] q(3) by blast
qed

subsection \<open>The elementary writes\<close>

definition shape ::
  "memory \<Rightarrow> u64 list \<Rightarrow> slab_map \<Rightarrow> block_map \<Rightarrow> (nat \<Rightarrow> u64 list) \<Rightarrow> (u64 \<Rightarrow> u64) \<Rightarrow> bool" where
  "shape m heads slabs large fl used \<longleftrightarrow> headers_ok m slabs large used \<and> chains_ok m heads slabs fl"

lemma shape_elsewhere:
  assumes "shape m heads slabs large fl used"
    and "\<And>x. unat x \<in> header_bytes slabs large \<Longrightarrow> m' x = m x" "\<And>x. unat x \<in> link_bytes fl \<Longrightarrow> m' x = m x"
  shows "shape m' heads slabs large fl used"
  using assms headers_cong [of m slabs large used m'] chains_cong [of m slabs large used m heads fl m']
  unfolding shape_def by blast

lemma header_range_separate:
  "page_ok p \<Longrightarrow> page_ok q \<Longrightarrow> p \<noteq> q \<Longrightarrow> b \<in> byte_range p 32 \<Longrightarrow> b \<notin> byte_range q 32"
  using pages_separate [of p q b] by (auto simp: byte_range_def)

lemma slab_not_block:
  assumes "headers_ok m slabs large used" "slabs p = Some c"
  shows "large p = None"
proof (rule ccontr)
  assume "large p \<noteq> None"
  then obtain n where "large p = Some n" by blast
  then have "slab_header c (used p) = block_header n" "c < 8"
    using assms unfolding headers_ok_def by (metis, metis)
  then have "HeapSizeClasses ! c = 0" by (simp add: slab_header_def block_header_def)
  then show False using class_size_bytes [OF \<open>c < 8\<close>] class_size_pos [of c] by simp
qed

lemma header_field_range:
  assumes "page_ok p" "k + n \<le> 32"
  shows "unat (p + word_of_nat k) + n < 2 ^ 64" "byte_range (p + word_of_nat k) n \<subseteq> byte_range p 32"
  using page_ok_offset [OF assms(1), of k] assms by (auto simp: page_ok_def byte_range_def)

lemma store_header_other:
  assumes "page_ok p" "k + n \<le> 32" "unat x \<notin> byte_range p 32"
  shows "store_le (p + word_of_nat k) n v m x = m x"
  by (rule store_le_other) (use header_field_range [OF assms(1,2)] assms(3) in auto)

lemma header_not_link:
  assumes "shape m heads slabs large fl used" "page_ok p" "b \<in> link_bytes fl"
  shows "b \<notin> byte_range p 32"
  using assms link_bytes_slots slot_bytes_headers unfolding shape_def by blast

text \<open>Every write within the header of one page keeps the headers of the others and every link.\<close>

lemma headers_after:
  assumes S: "shape m heads slabs large fl used" and p: "page_ok p"
    and other: "\<And>x. unat x \<notin> byte_range p 32 \<Longrightarrow> m' x = m x"
  shows "q \<noteq> p \<Longrightarrow> page_ok q \<Longrightarrow> header_at m' q = header_at m q"
    and "chains_ok m' heads slabs fl"
proof -
  show "header_at m' q = header_at m q" if "q \<noteq> p" "page_ok q"
    by (rule header_cong [OF that(2)], rule other) (use header_range_separate p that in blast)
  show "chains_ok m' heads slabs fl"
    using S other header_not_link [OF S p] unfolding shape_def by (blast intro: chains_cong)
qed

lemma headers_update:
  assumes H: "headers_ok m slabs large used"
    and kept: "\<And>q. q \<noteq> p \<Longrightarrow> page_ok q \<Longrightarrow> header_at m' q = header_at m q"
    and maps: "\<And>q. q \<noteq> p \<Longrightarrow> slabs' q = slabs q \<and> large' q = large q \<and> used' q = used q"
    and slab: "\<And>c. slabs' p = Some c \<Longrightarrow> c < 8 \<and> page_ok p \<and> header_at m' p = slab_header c (used' p)"
    and block: "\<And>n. large' p = Some n \<Longrightarrow> page_ok p \<and> header_at m' p = block_header n"
  shows "headers_ok m' slabs' large' used'"
  unfolding headers_ok_def
proof (intro conjI allI impI)
  fix q c assume q: "slabs' q = Some c"
  have "c < 8 \<and> page_ok q \<and> header_at m' q = slab_header c (used' q)"
  proof (cases "q = p")
    case False
    then have "slabs q = Some c" "used' q = used q" using maps q by auto
    then show ?thesis using H kept [OF False] unfolding headers_ok_def by auto
  qed (use slab q in simp)
  then show "c < 8" "page_ok q" "header_at m' q = slab_header c (used' q)" by simp_all
next
  fix q n assume q: "large' q = Some n"
  have "page_ok q \<and> header_at m' q = block_header n"
  proof (cases "q = p")
    case False
    then have "large q = Some n" using maps q by auto
    then show ?thesis using H kept [OF False] unfolding headers_ok_def by auto
  qed (use block q in simp)
  then show "page_ok q" "header_at m' q = block_header n" by simp_all
qed

lemma shape_count:
  assumes S: "shape m heads slabs large fl used" and p: "slabs p = Some c" and v: "take_bit 32 v = v"
  shows "shape (store_le (p + 16) 4 v m) heads slabs large fl (used(p := v))"
proof -
  let ?m = "store_le (p + 16) 4 v m"
  have H: "headers_ok m slabs large used" using S by (simp add: shape_def)
  have P: "page_ok p" using header_pages(1) [OF H p] by simp
  have other: "?m x = m x" if "unat x \<notin> byte_range p 32" for x
    using store_header_other [OF P, of 16 4 x v m] that by simp
  note A = headers_after [OF S P other]
  have "header_at ?m p = slab_header c v"
    using header_at_in_use [OF P, of v m] H p v by (auto simp: headers_ok_def slab_header_def)
  then have "headers_ok ?m slabs large (used(p := v))"
    by (intro headers_update [OF H A(1)]) (use p slab_not_block [OF H p] header_pages(1) [OF H] in auto)
  then show ?thesis using A(2) by (simp add: shape_def)
qed

lemma shape_pop:
  assumes S: "shape m heads slabs large fl used" and c: "c < 8" and f: "fl c = x # xs"
  shows "shape m (heads[c := load_le m x 8]) slabs large (fl(c := xs)) used"
proof -
  have C: "chains_ok m heads slabs fl" using S by (simp add: shape_def)
  have "chain m (heads[c := load_le m x 8] ! d) ((fl(c := xs)) d) \<and> distinct ((fl(c := xs)) d) \<and>
      (\<forall>y \<in> set ((fl(c := xs)) d). is_slot slabs d y)" if d: "d < 8" for d
    using C d f unfolding chains_ok_def by (cases "d = c") auto
  then show ?thesis using S C by (simp add: shape_def chains_ok_def)
qed

lemma shape_push:
  assumes S: "shape m heads slabs large fl used" and p: "slabs p = Some c" "j < slot_count c"
    and free: "slot p c j \<notin> set (fl c)"
  shows "shape (store_le (slot p c j) 8 (heads ! c) m) (heads[c := slot p c j]) slabs large
    (fl(c := slot p c j # fl c)) used"
proof -
  let ?x = "slot p c j"
  let ?m = "store_le ?x 8 (heads ! c) m"
  have H: "headers_ok m slabs large used" and C: "chains_ok m heads slabs fl" using S by (simp_all add: shape_def)
  have P: "page_ok p" "c < 8" using header_pages(1) [OF H p(1)] by simp_all
  have b: "unat ?x + 8 < 2 ^ 64" by (rule slot_bound [OF P(1) p(2) P(2)])
  have other: "?m x = m x" if "unat x \<notin> byte_range ?x 8" for x
    by (rule store_le_other) (use b that in auto)
  have r: "byte_range ?x 8 \<subseteq> byte_range ?x (class_size c)" by (rule link_in_slot [OF P(2)])
  have "headers_ok ?m slabs large used"
  proof (rule headers_cong [OF H], rule other)
    fix x assume "unat x \<in> header_bytes slabs large"
    then obtain q where "page_ok q" "unat x \<in> byte_range q 32"
      using header_pages [OF H] unfolding header_bytes_def by blast
    then show "unat x \<notin> byte_range ?x 8" using slot_not_header [OF P(1) p(2)] r by blast
  qed
  moreover have C': "chains_ok ?m heads slabs fl"
    by (rule chains_cong [OF H C], rule other) (use slot_bytes_links [OF H C p free] r in blast)
  moreover have "chain ?m (heads[c := ?x] ! d) ((fl(c := ?x # fl c)) d) \<and> distinct ((fl(c := ?x # fl c)) d) \<and>
      (\<forall>y \<in> set ((fl(c := ?x # fl c)) d). is_slot slabs d y)" if d: "d < 8" for d
  proof (cases "d = c")
    case True
    have "load_le ?m ?x 8 = heads ! c"
      using load_store_same [OF b, of "heads ! c" m] by (simp add: take_bit_word_eq_self)
    moreover have "is_slot slabs c ?x" using p by (auto simp: is_slot_def)
    ultimately show ?thesis
      using C' d True free slot_nonzero [OF P(1) p(2)] unfolding chains_ok_def by simp
  next
    case False
    then show ?thesis using C' d unfolding chains_ok_def by simp
  qed
  ultimately show ?thesis using C by (simp add: shape_def chains_ok_def)
qed

text \<open>A whole header written on a page, and the magic of one cleared.\<close>

lemma header_at_fields:
  assumes "load_le m p 8 = a" "load_le m (p + 8) 4 = b" "load_le m (p + 12) 4 = c" "load_le m (p + 16) 4 = d"
    "load_le m (p + 20) 4 = e" "load_le m (p + 24) 8 = f"
  shows "header_at m p = \<lparr>magic = a, object_size = b, page_count = c, objects_in_use = d, reserved = e, padding = f\<rparr>"
  using assms by (simp add: header_at_def)

lemma header_skip:
  assumes p: "page_ok p" and k: "k + n \<le> 32" and j: "j + i \<le> 32" and apart: "j + i \<le> k \<or> k + n \<le> j"
  shows "load_le (store_le (p + word_of_nat k) n v m) (p + word_of_nat j) i = load_le m (p + word_of_nat j) i"
  by (rule load_store_other)
    (use header_field_range [OF p k] header_field_range [OF p j] page_ok_offset [OF p, of k]
      page_ok_offset [OF p, of j] k j apart in \<open>auto simp: byte_range_def\<close>)

lemmas skips = header_skip [where k = "numeral a" and j = 0 for a, simplified]
  header_skip [where k = 0 and j = "numeral b" for b, simplified]
  header_skip [where k = "numeral a" and j = "numeral b" for a b, simplified]

lemma header_hit:
  assumes p: "page_ok p" and k: "k + n \<le> 32" and n: "n \<le> 8"
  shows "load_le (store_le (p + word_of_nat k) n v m) (p + word_of_nat k) n = take_bit (8 * n) v"
  by (rule load_store_same) (use header_field_range [OF p k] n in auto)

lemmas hits = header_hit [where k = 0, simplified] header_hit [where k = "numeral a" for a, simplified]

lemma header_at_write:
  assumes p: "page_ok p"
  shows "header_at (write_header p hdr m) p =
    \<lparr>magic = magic hdr, object_size = take_bit 32 (object_size hdr), page_count = take_bit 32 (page_count hdr),
     objects_in_use = take_bit 32 (objects_in_use hdr), reserved = take_bit 32 (reserved hdr), padding = padding hdr\<rparr>"
  unfolding write_header_def
  by (rule header_at_fields) (simp_all add: skips [OF p] hits [OF p] take_bit_word_eq_self)

lemma write_header_other:
  assumes "page_ok p" "unat x \<notin> byte_range p 32"
  shows "write_header p hdr m x = m x"
  using store_header_other [OF assms(1) _ assms(2), of 0 8] store_header_other [OF assms(1) _ assms(2), of 8 4]
    store_header_other [OF assms(1) _ assms(2), of 12 4] store_header_other [OF assms(1) _ assms(2), of 16 4]
    store_header_other [OF assms(1) _ assms(2), of 20 4] store_header_other [OF assms(1) _ assms(2), of 24 8]
  by (simp add: write_header_def)

lemma shape_slab:
  assumes S: "shape m heads slabs large fl used" and p: "page_ok p" "large p = None" "slabs p = None" and c: "c < 8"
  shows "shape (write_header p (slab_header c 0) m) heads (slabs(p \<mapsto> c)) large fl (used(p := 0))"
proof -
  have H: "headers_ok m slabs large used" using S by (simp add: shape_def)
  let ?m = "write_header p (slab_header c 0) m"
  have other: "?m x = m x" if "unat x \<notin> byte_range p 32" for x by (rule write_header_other [OF p(1) that])
  note A = headers_after [OF S p(1) other]
  have "take_bit 32 (HeapSizeClasses ! c) = HeapSizeClasses ! c"
    using c by (auto simp: less_8_cases HeapSizeClasses_def)
  then have "header_at (write_header p (slab_header c 0) m) p = slab_header c 0"
    using header_at_write [OF p(1)] by (simp add: slab_header_def)
  then have "headers_ok (write_header p (slab_header c 0) m) (slabs(p \<mapsto> c)) large (used(p := 0))"
    by (intro headers_update [OF H A(1)]) (use p c in auto)
  moreover have "is_slot (slabs(p \<mapsto> c)) d x" if "is_slot slabs d x" for d x
    using that p(3) unfolding is_slot_def by (metis fun_upd_other option.simps(3))
  ultimately show ?thesis using A(2) by (simp add: shape_def chains_ok_def)
qed

lemma shape_block:
  assumes S: "shape m heads slabs large fl used" and p: "page_ok p" "large p = None" "slabs p = None"
    and n: "take_bit 32 n = n"
  shows "shape (write_header p (block_header n) m) heads slabs (large(p \<mapsto> n)) fl used"
proof -
  have H: "headers_ok m slabs large used" using S by (simp add: shape_def)
  let ?m = "write_header p (block_header n) m"
  have other: "?m x = m x" if "unat x \<notin> byte_range p 32" for x by (rule write_header_other [OF p(1) that])
  note A = headers_after [OF S p(1) other]
  have "header_at (write_header p (block_header n) m) p = block_header n"
    using header_at_write [OF p(1)] n by (simp add: block_header_def)
  then have "headers_ok (write_header p (block_header n) m) slabs (large(p \<mapsto> n)) used"
    by (intro headers_update [OF H A(1)]) (use p in auto)
  then show ?thesis using A(2) by (simp add: shape_def)
qed

lemma shape_unblock:
  assumes S: "shape m heads slabs large fl used" and p: "large p = Some n"
  shows "shape (store_le p 8 0 m) heads slabs (large(p := None)) fl used"
proof -
  have H: "headers_ok m slabs large used" using S by (simp add: shape_def)
  have P: "page_ok p" using header_pages(2) [OF H p] .
  have other: "store_le p 8 0 m x = m x" if "unat x \<notin> byte_range p 32" for x
    using store_header_other [OF P, of 0 8 x 0 m] that by simp
  note A = headers_after [OF S P other]
  have "slabs p = None" using slab_not_block [OF H, of p] p by (cases "slabs p") auto
  then have "headers_ok (store_le p 8 0 m) slabs (large(p := None)) used"
    by (intro headers_update [OF H A(1)]) auto
  then show ?thesis using A(2) by (simp add: shape_def)
qed

end
