(* ===== verification/HeapBlocks.thy ===== *)
theory HeapBlocks
  imports HeapShape
begin

text \<open>
  The blocks of the kernel heap (\<open>kernel/mm/heap.c\<close>): what its invariant says of the arena, the
  slabs and the blocks handed out, and how each operation moves it.  The heap asks of the arena
  only what the locale \<open>block_source\<close> promises, and provides that contract itself.
\<close>

subsection \<open>The invariant\<close>

definition heap_regions :: "slab_map \<Rightarrow> block_map \<Rightarrow> (u64 \<times> u64) set" where
  "heap_regions slabs large = {(p, 1) |p. p \<in> dom slabs} \<union> {(p, n) |p n. large p = Some n}"

definition free_slots :: "(nat \<Rightarrow> u64 list) \<Rightarrow> u64 \<Rightarrow> nat \<Rightarrow> nat set" where
  "free_slots fl p c = {j. j < slot_count c \<and> slot p c j \<in> set (fl c)}"

definition balanced :: "slab_map \<Rightarrow> (nat \<Rightarrow> u64 list) \<Rightarrow> (u64 \<Rightarrow> u64) \<Rightarrow> bool" where
  "balanced slabs fl used \<longleftrightarrow>
     (\<forall>p c. slabs p = Some c \<longrightarrow> unat (used p) + card (free_slots fl p c) = slot_count c)"

definition heap_view ::
  "heap_state \<Rightarrow> slab_map \<Rightarrow> block_map \<Rightarrow> (nat \<Rightarrow> u64 list) \<Rightarrow> (u64 \<Rightarrow> u64) \<Rightarrow> bool" where
  "heap_view h slabs large fl used \<longleftrightarrow>
     shape (heap_memory h) (HeapClassFreeList h) slabs large fl used \<and> balanced slabs fl used \<and>
     pages_ok (arena h) (heap_regions slabs large)"

definition held_slot :: "slab_map \<Rightarrow> (nat \<Rightarrow> u64 list) \<Rightarrow> u64 \<Rightarrow> nat \<Rightarrow> bool" where
  "held_slot slabs fl a n \<longleftrightarrow> 0 < n \<and>
     (\<exists>p c j. slabs p = Some c \<and> j < slot_count c \<and> a = slot p c j \<and> a \<notin> set (fl c) \<and> n \<le> class_size c)"

definition held_pages :: "block_map \<Rightarrow> u64 \<Rightarrow> nat \<Rightarrow> bool" where
  "held_pages large a n \<longleftrightarrow> 0 < n \<and>
     (\<exists>p k. large p = Some k \<and> a = p + HEAP_HEADER_SIZE \<and> n + 32 \<le> unat k * 4096)"

definition heap_ok :: "heap_state \<Rightarrow> (u64 \<times> u64) set \<Rightarrow> bool" where
  "heap_ok h live \<longleftrightarrow> (\<exists>slabs large fl used. heap_view h slabs large fl used \<and>
     (\<forall>r \<in> live. held_slot slabs fl (fst r) (unat (snd r)) \<or> held_pages large (fst r) (unat (snd r))) \<and>
     inj_on fst live \<and> finite live \<and> HeapLiveAllocationCount h = word_of_nat (card live))"

subsection \<open>Regions of the arena\<close>

lemma pages_proper: "pages_ok st live \<Longrightarrow> (p, n) \<in> live \<Longrightarrow> arena_proper p n"
  unfolding pages_ok_def region_owned_def by force

lemma pages_disjoint:
  assumes "pages_ok st live" "(p, n) \<in> live" "(q, k) \<in> live" "(p, n) \<noteq> (q, k)"
  shows "arena_interval p n \<inter> arena_interval q k = {}"
proof -
  obtain f where "\<forall>r \<in> live. \<forall>q \<in> live. r \<noteq> q \<longrightarrow> regions_apart f r q"
    using assms(1) unfolding pages_ok_def by blast
  then have "regions_apart f (p, n) (q, k)" using assms(2-4) by blast
  then show ?thesis by (simp add: regions_apart_def)
qed

lemma arena_end_less: "arena_end + 4096 < 2 ^ 64"
  by (simp add: arena_end_def KERNEL_ARENA_BASE_def KERNEL_ARENA_SIZE_def)

lemma proper_page_ok: "arena_proper p n \<Longrightarrow> page_ok p"
proof -
  assume A: "arena_proper p n"
  have "p \<noteq> 0" using A by (auto simp: arena_proper_def KERNEL_ARENA_BASE_def)
  moreover have "unat p \<le> arena_end" using A by (simp add: arena_proper_def)
  ultimately show ?thesis using A arena_end_less by (simp add: page_ok_def arena_proper_def)
qed

lemma proper_nonempty: "arena_proper p n \<Longrightarrow> 0 < unat n"
  by (simp add: arena_proper_def unat_gt_0)

lemma new_region_fresh:
  assumes P: "arena_proper a n" and dis: "\<forall>(b, k) \<in> heap_regions slabs large. arena_interval a n \<inter> arena_interval b k = {}"
    and pr: "\<And>b k. (b, k) \<in> heap_regions slabs large \<Longrightarrow> arena_proper b k"
  shows "slabs a = None" "large a = None"
proof -
  have *: "(a, k) \<notin> heap_regions slabs large" for k
  proof
    assume r: "(a, k) \<in> heap_regions slabs large"
    have "unat a \<in> arena_interval a n \<inter> arena_interval a k"
      using proper_nonempty [OF P] proper_nonempty [OF pr [OF r]] by (simp add: arena_interval_def)
    then show False using dis r by auto
  qed
  show "slabs a = None" using * [of 1] by (auto simp: heap_regions_def domIff)
  show "large a = None" using * unfolding heap_regions_def by (cases "large a") auto
qed

subsection \<open>Taking an object\<close>

lemma balancedD: "balanced slabs fl used \<Longrightarrow> slabs p = Some c \<Longrightarrow>
  unat (used p) + card (free_slots fl p c) = slot_count c"
  by (simp add: balanced_def)

lemma free_slots_pop:
  assumes p: "page_ok p" "j < slot_count c" and f: "fl c = slot p c j # xs" "distinct (fl c)"
  shows "card (free_slots fl p c) = card (free_slots (fl(c := xs)) p c) + 1"
proof -
  have "free_slots fl p c = insert j (free_slots (fl(c := xs)) p c)"
    using f p slot_inj [OF p(1)] by (auto simp: free_slots_def)
  moreover have "j \<notin> free_slots (fl(c := xs)) p c" using f by (auto simp: free_slots_def)
  moreover have "finite (free_slots (fl(c := xs)) p c)" by (simp add: free_slots_def)
  ultimately show ?thesis by simp
qed

lemma free_slots_other:
  assumes "page_ok p" "page_ok q" "j < slot_count c" "q \<noteq> p" "set ys = insert (slot p c j) (set xs)"
  shows "free_slots (fl(c := ys)) q d = free_slots (fl(c := xs)) q d"
  using slot_pages_inj [OF assms(2) _ assms(1,3)] assms(4,5) by (auto simp: free_slots_def)

lemma take_bit_small: "unat (v :: u64) < 2 ^ k \<Longrightarrow> take_bit k v = v"
  by (simp add: word_unat_eq_iff unsigned_take_bit_eq take_bit_nat_eq_self)

lemma used_small: "balanced slabs fl used \<Longrightarrow> slabs p = Some c \<Longrightarrow> c < 8 \<Longrightarrow> unat (used p) \<le> 254"
  using slot_count_less [of c] by (fastforce simp: balanced_def)

lemma header_used:
  assumes "headers_ok m slabs large used" "slabs p = Some c"
  shows "load_le m (p + 16) 4 = used p"
  using assms arg_cong [of "header_at m p" "slab_header c (used p)" objects_in_use]
  by (auto simp: headers_ok_def header_at_def slab_header_def)

lemma TakeObject_view:
  assumes V: "heap_view h slabs large fl used" and c: "c < 8" and f: "fl c = x # xs"
  obtains p j where "slabs p = Some c" "j < slot_count c" "x = slot p c j"
    "snd (TakeObject c h) = x"
    "heap_view (fst (TakeObject c h)) slabs large (fl(c := xs)) (used(p := used p + 1))"
    "HeapLiveAllocationCount (fst (TakeObject c h)) = HeapLiveAllocationCount h + 1"
    "\<And>y. unat y \<notin> byte_range p 32 \<Longrightarrow> heap_memory (fst (TakeObject c h)) y = heap_memory h y"
proof -
  let ?m = "heap_memory h" and ?heads = "HeapClassFreeList h"
  have S: "shape ?m ?heads slabs large fl used" and B: "balanced slabs fl used"
    and A: "pages_ok (arena h) (heap_regions slabs large)" using V by (simp_all add: heap_view_def)
  have H: "headers_ok ?m slabs large used" and C: "chains_ok ?m ?heads slabs fl" using S by (simp_all add: shape_def)
  have hd: "?heads ! c = x" "distinct (fl c)" using C c f by (auto simp: chains_ok_def)
  obtain p j where p: "slabs p = Some c" "j < slot_count c" "x = slot p c j"
    using f by (auto intro: free_slot [OF C c, of x])
  have P: "page_ok p" using header_pages(1) [OF H p(1)] by simp
  have page: "AlignDown x PAGE_SIZE = p" using slot_page [OF P p(2)] p(3) by simp
  have u: "load_le ?m (p + 16) 4 = used p" by (rule header_used [OF H p(1)])
  have small: "unat (used p) \<le> 254" by (rule used_small [OF B p(1) c])
  then have inc: "unat (used p + 1) = unat (used p) + 1" using unat_offset [of "used p" 1] by simp
  have count: "shape (store_le (p + 16) 4 (used p + 1) ?m) ?heads slabs large fl (used(p := used p + 1))"
    by (rule shape_count [OF S p(1)]) (use inc small in \<open>simp add: take_bit_small\<close>)
  have "load_le (store_le (p + 16) 4 (used p + 1) ?m) x 8 = load_le ?m x 8"
  proof (rule load_store_other)
    show "unat (p + 16) + 4 \<le> 2 ^ 64" using header_field_range(1) [OF P, of 16 4] by simp
    show "unat x + 8 < 2 ^ 64" using slot_bound [OF P p(2) c] p(3) by simp
    show "byte_range (p + 16) 4 \<inter> byte_range x 8 = {}"
      using header_field_range(2) [OF P, of 16 4] slot_not_header [OF P p(2) P] link_in_slot [OF c, of x] p(3)
      by auto
  qed
  then have S': "shape (store_le (p + 16) 4 (used p + 1) ?m) (?heads[c := load_le ?m x 8]) slabs large
      (fl(c := xs)) (used(p := used p + 1))"
    using shape_pop [OF count c f] by simp
  have "balanced slabs (fl(c := xs)) (used(p := used p + 1))"
    unfolding balanced_def
  proof (intro allI impI)
    fix q d assume q: "slabs q = Some d"
    show "unat ((used(p := used p + 1)) q) + card (free_slots (fl(c := xs)) q d) = slot_count d"
    proof (cases "q = p")
      case True
      then have d: "d = c" using q p(1) by simp
      note b = balancedD [OF B p(1)]
      then show ?thesis
        using b True d inc free_slots_pop [OF P p(2), of fl xs] f hd(2) p(3) by simp
    next
      case False
      have "free_slots (fl(c := x # xs)) q d = free_slots (fl(c := xs)) q d"
        by (rule free_slots_other [OF P _ p(2) False]) (use header_pages(1) [OF H q] p(3) in auto)
      then show ?thesis using balancedD [OF B q] False f by (simp add: fun_upd_idem)
    qed
  qed
  then show ?thesis
    using that [OF p] S' A hd(1) page u store_header_other [OF P, of 16 4]
    by (simp add: TakeObject_def Let_def heap_view_def)
qed

subsection \<open>Returning an object\<close>

lemma held_slot_used:
  assumes B: "balanced slabs fl used" and p: "slabs p = Some c" "j < slot_count c" "slot p c j \<notin> set (fl c)"
  shows "used p \<noteq> 0"
proof -
  have "card (free_slots fl p c) < card {..<slot_count c}"
    by (rule psubset_card_mono) (use p in \<open>auto simp: free_slots_def\<close>)
  then show ?thesis using balancedD [OF B p(1)] by auto
qed

lemma free_object_view:
  assumes V: "heap_view h slabs large fl used" and p: "slabs p = Some c" "j < slot_count c"
    and x: "x = slot p c j" "x \<notin> set (fl c)"
  obtains h' where "KernelFree x h = Inr h'"
    "heap_view h' slabs large (fl(c := x # fl c)) (used(p := used p - 1))"
    "HeapLiveAllocationCount h' = HeapLiveAllocationCount h - 1"
    "\<And>y. unat y \<notin> byte_range p 32 \<Longrightarrow> unat y \<notin> byte_range x (class_size c) \<Longrightarrow> heap_memory h' y = heap_memory h y"
proof -
  let ?m = "heap_memory h" and ?heads = "HeapClassFreeList h"
  let ?m1 = "store_le x 8 (?heads ! c) ?m"
  have S: "shape ?m ?heads slabs large fl used" and B: "balanced slabs fl used"
    and A: "pages_ok (arena h) (heap_regions slabs large)" using V by (simp_all add: heap_view_def)
  have H: "headers_ok ?m slabs large used" using S by (simp add: shape_def)
  have P: "page_ok p" "c < 8" using header_pages(1) [OF H p(1)] by simp_all
  have hdr: "header_at ?m (AlignDown x PAGE_SIZE) = slab_header c (used p)"
    using H p(1) slot_page [OF P(1) p(2)] x(1) by (simp add: headers_ok_def)
  have u0: "used p \<noteq> 0" by (rule held_slot_used [OF B p]) (use x in simp)
  have push: "shape ?m1 (?heads[c := x]) slabs large (fl(c := x # fl c)) used"
    using shape_push [OF S p] x by simp
  then have u: "load_le ?m1 (p + 16) 4 = used p" using p(1) by (auto simp: shape_def dest: header_used)
  have dec: "unat (used p - 1) + 1 = unat (used p)" using u0 by (simp add: unat_minus_one unat_gt_0)
  have count: "shape (store_le (p + 16) 4 (used p - 1) ?m1) (?heads[c := x]) slabs large (fl(c := x # fl c))
      (used(p := used p - 1))"
    by (rule shape_count [OF push p(1)]) (use dec used_small [OF B p(1) P(2)] in \<open>simp add: take_bit_small\<close>)
  have C: "distinct (x # fl c)" using push P(2) by (auto simp: shape_def chains_ok_def)
  have "balanced slabs (fl(c := x # fl c)) (used(p := used p - 1))"
    unfolding balanced_def
  proof (intro allI impI)
    fix q d assume q: "slabs q = Some d"
    show "unat ((used(p := used p - 1)) q) + card (free_slots (fl(c := x # fl c)) q d) = slot_count d"
    proof (cases "q = p")
      case True
      then have d: "d = c" using q p(1) by simp
      note b = balancedD [OF B p(1)]
      then show ?thesis
        using b True d dec free_slots_pop [OF P(1) p(2), of "fl(c := x # fl c)" "fl c"] C x(1) by simp
    next
      case False
      have "free_slots (fl(c := x # fl c)) q d = free_slots (fl(c := fl c)) q d"
        by (rule free_slots_other [OF P(1) _ p(2) False]) (use header_pages(1) [OF H q] x(1) in auto)
      then show ?thesis using balancedD [OF B q] False by simp
    qed
  qed
  moreover have "store_le (p + 16) 4 v ?m1 y = ?m y" if "unat y \<notin> byte_range p 32" "unat y \<notin> byte_range x (class_size c)" for v y
    using store_header_other [OF P(1), of 16 4 y v ?m1] that link_in_slot [OF P(2), of x]
      store_le_other [of x 8 y "?heads ! c" ?m] slot_bound [OF P(1) p(2) P(2)] x(1) by auto
  moreover have "x \<noteq> 0" "HeapSizeClasses ! c \<noteq> 0" "HeapSizeClassFor (HeapSizeClasses ! c) = c"
    using slot_nonzero [OF P(1) p(2)] x(1) class_size_bytes [OF P(2)] class_size_le [OF P(2)]
      HeapSizeClassFor_class [OF P(2)] by (simp_all, auto)
  ultimately show ?thesis
    using that count A hdr u0 u slot_page [OF P(1) p(2)] x(1)
    by (simp add: KernelFree_def slab_header_def Let_def heap_view_def)
qed

subsection \<open>Carving a slab\<close>

lemma slot_address: "c < 8 \<Longrightarrow> p + 32 + word_of_nat j * HeapSizeClasses ! c = slot p c j"
  by (simp add: slot_def HeapSizeClasses_word algebra_simps)

lemma thread_objects:
  assumes S: "shape (heap_memory h) (HeapClassFreeList h) slabs large fl used" and p: "slabs p = Some c"
    and new: "\<And>j. j < slot_count c \<Longrightarrow> slot p c j \<notin> set (fl c)" and k: "k \<le> slot_count c"
  shows "let h' = fold (ThreadObject c (p + 32) (HeapSizeClasses ! c))
        (rev [slot_count c - k + 1..<slot_count c + 1]) h
    in shape (heap_memory h') (HeapClassFreeList h') slabs large
        (fl(c := map (slot p c) [slot_count c - k..<slot_count c] @ fl c)) used \<and>
      arena h' = arena h \<and> HeapLiveAllocationCount h' = HeapLiveAllocationCount h \<and>
      (\<forall>x. unat x \<notin> {unat p..<unat p + 4096} \<longrightarrow> heap_memory h' x = heap_memory h x)"
  using k
proof (induction k)
  case 0
  then show ?case using S by (simp add: fun_upd_idem)
next
  case (Suc k)
  let ?N = "slot_count c" and ?size = "HeapSizeClasses ! c"
  define g where "g = fold (ThreadObject c (p + 32) ?size) (rev [?N - k + 1..<?N + 1]) h"
  let ?j = "?N - Suc k"
  let ?fl = "fl(c := map (slot p c) [?N - k..<?N] @ fl c)"
  have r: "shape (heap_memory g) (HeapClassFreeList g) slabs large ?fl used" "arena g = arena h"
    "HeapLiveAllocationCount g = HeapLiveAllocationCount h"
    "\<And>x. unat x \<notin> {unat p..<unat p + 4096} \<Longrightarrow> heap_memory g x = heap_memory h x"
    using Suc.IH [OF Suc_leD [OF Suc.prems], folded g_def] unfolding Let_def by blast+
  have P: "page_ok p" "c < 8" using S p header_pages(1) by (auto simp: shape_def)
  have "[?N - Suc k + 1..<?N + 1] = (?j + 1) # [?N - k + 1..<?N + 1]"
  proof (subst upt_conv_Cons)
    show "?N - Suc k + 1 < ?N + 1" using Suc.prems by simp
    have "?N - Suc k + 1 + 1 = ?N - k + 1" using Suc.prems by simp
    then show "(?N - Suc k + 1) # [Suc (?N - Suc k + 1)..<?N + 1] = (?j + 1) # [?N - k + 1..<?N + 1]" by simp
  qed
  then have step: "fold (ThreadObject c (p + 32) ?size) (rev [?N - Suc k + 1..<?N + 1]) h =
      ThreadObject c (p + 32) ?size (?j + 1) g"
    unfolding g_def by simp
  have object: "p + 32 + word_of_nat ?j * ?size = slot p c ?j"
    by (rule slot_address [OF P(2)])
  have fresh: "slot p c ?j \<notin> set (?fl c)"
  proof -
    have "slot p c ?j \<notin> set (map (slot p c) [?N - k..<?N])"
    proof
      assume "slot p c ?j \<in> set (map (slot p c) [?N - k..<?N])"
      then obtain i where "?N - k \<le> i" "i < ?N" "slot p c ?j = slot p c i" by auto
      then show False using slot_inj [OF P(1), of ?j c i] Suc.prems by simp
    qed
    then show ?thesis using new [of ?j] Suc.prems by auto
  qed
  have push: "shape (store_le (slot p c ?j) 8 (HeapClassFreeList g ! c) (heap_memory g))
      ((HeapClassFreeList g)[c := slot p c ?j]) slabs large (?fl(c := slot p c ?j # ?fl c)) used"
    by (rule shape_push [OF r(1) p _ fresh]) (use Suc.prems in auto)
  have list: "map (slot p c) [?j..<?N] @ fl c = slot p c ?j # ?fl c"
    using Suc.prems by (simp add: upt_conv_Cons Suc_diff_Suc)
  have "store_le (slot p c ?j) 8 (HeapClassFreeList g ! c) (heap_memory g) x = heap_memory g x"
    if "unat x \<notin> {unat p..<unat p + 4096}" for x
  proof (rule store_le_other)
    show "unat (slot p c ?j) + 8 \<le> 2 ^ 64" using slot_bound [OF P(1) _ P(2), of ?j] Suc.prems by simp
    show "unat x \<notin> byte_range (slot p c ?j) 8"
      using slot_range [OF P(1), of ?j c] link_in_slot [OF P(2), of "slot p c ?j"] that Suc.prems by force
  qed
  moreover have "fl(c := map (slot p c) [?j..<?N] @ fl c) = ?fl(c := slot p c ?j # ?fl c)"
    by (simp only: list fun_upd_upd)
  ultimately show ?case
    unfolding step using push r(2-4) by (simp only: Let_def) (simp add: ThreadObject_def object Let_def)
qed

lemma object_count: "c < 8 \<Longrightarrow> unat ((PAGE_SIZE - HEAP_HEADER_SIZE) div HeapSizeClasses ! c) = slot_count c"
  by (simp add: unat_div class_size_bytes slot_count_def HEAP_HEADER_SIZE_def PAGE_SIZE_def)

lemma one_admissible: "arena_admissible 1"
  by (simp add: arena_admissible_def ARENA_PAGE_CAPACITY_def KERNEL_ARENA_SIZE_def PAGE_SIZE_def)

text \<open>The pages a view of the heap holds, under a new region.\<close>

lemma view_regions:
  assumes "heap_view h slabs large fl used"
  shows "pages_ok (arena h) (heap_regions slabs large)"
    "slabs p = Some c \<Longrightarrow> (p, 1) \<in> heap_regions slabs large" "large p = Some n \<Longrightarrow> (p, n) \<in> heap_regions slabs large"
  using assms by (auto simp: heap_view_def heap_regions_def)

lemma view_refused:
  assumes V: "heap_view h slabs large fl used" and n: "arena_admissible n"
    and run: "KernelPagesAllocate n (arena h) = Inr (st, 0)"
  shows "heap_view (h\<lparr>arena := st\<rparr>) slabs large fl used"
  using V pages.refused [OF view_regions(1) [OF V] n run] by (simp add: heap_view_def)

lemma view_obtained:
  assumes V: "heap_view h slabs large fl used" and n: "arena_admissible n"
    and run: "KernelPagesAllocate n (arena h) = Inr (st, p)" and p: "p \<noteq> 0"
  shows "pages_ok st (insert (p, n) (heap_regions slabs large))" "arena_proper p n" "page_ok p"
    "slabs p = None" "large p = None"
    "\<And>q k. (q, k) \<in> heap_regions slabs large \<Longrightarrow> arena_interval p n \<inter> arena_interval q k = {}"
proof -
  note O = pages.obtained [OF view_regions(1) [OF V] n run p]
  show "pages_ok st (insert (p, n) (heap_regions slabs large))" "arena_proper p n" using O by simp_all
  then show "page_ok p" using proper_page_ok by simp
  show "arena_interval p n \<inter> arena_interval q k = {}" if "(q, k) \<in> heap_regions slabs large" for q k
    using O that by blast
  have pr: "arena_proper b k" if "(b, k) \<in> heap_regions slabs large" for b k
    by (rule pages_proper [OF view_regions(1) [OF V] that])
  show "slabs p = None" "large p = None" using O by (auto intro: new_region_fresh [of p n slabs large] pr)
qed

lemma new_slots_fresh:
  assumes S: "shape m heads slabs large fl used" and p: "page_ok p" "slabs p = None" and j: "j < slot_count c" and d: "d < 8"
  shows "slot p c j \<notin> set (fl d)"
proof
  assume x: "slot p c j \<in> set (fl d)"
  have H: "headers_ok m slabs large used" and C: "chains_ok m heads slabs fl" using S by (simp_all add: shape_def)
  obtain q k where q: "slabs q = Some d" "k < slot_count d" "slot p c j = slot q d k"
    by (rule free_slot [OF C d x])
  have "p = q" by (rule slot_pages_inj [OF p(1) j _ q(2,3)]) (use header_pages(1) [OF H q(1)] in simp)
  then show False using p(2) q(1) by simp
qed

lemma CarveSlab_view:
  assumes V: "heap_view h slabs large fl used" and c: "c < 8"
    and run: "KernelPagesAllocate 1 (arena h) = Inr (st, p)" and p: "p \<noteq> 0"
  shows "heap_view (CarveSlab c p (h\<lparr>arena := st\<rparr>)) (slabs(p \<mapsto> c)) large
      (fl(c := map (slot p c) [0..<slot_count c] @ fl c)) (used(p := 0))"
    "HeapLiveAllocationCount (CarveSlab c p (h\<lparr>arena := st\<rparr>)) = HeapLiveAllocationCount h"
    "unat x \<notin> arena_interval p 1 \<Longrightarrow> heap_memory (CarveSlab c p (h\<lparr>arena := st\<rparr>)) x = heap_memory h x"
proof -
  note O = view_obtained [OF V one_admissible run p]
  have S: "shape (heap_memory h) (HeapClassFreeList h) slabs large fl used" and B: "balanced slabs fl used"
    using V by (simp_all add: heap_view_def)
  let ?k = "h\<lparr>arena := st, heap_memory := write_header p (slab_header c 0) (heap_memory h)\<rparr>"
  let ?new = "map (slot p c) [0..<slot_count c]"
  have S1: "shape (heap_memory ?k) (HeapClassFreeList ?k) (slabs(p \<mapsto> c)) large fl (used(p := 0))"
    using shape_slab [OF S O(3,5,4) c] by simp
  have fresh: "slot p c j \<notin> set (fl d)" if "j < slot_count c" "d < 8" for j d
    by (rule new_slots_fresh [OF S O(3,4) that])
  define g where "g = fold (ThreadObject c (p + 32) (HeapSizeClasses ! c)) (rev [1..<slot_count c + 1]) ?k"
  have T: "shape (heap_memory g) (HeapClassFreeList g) (slabs(p \<mapsto> c)) large (fl(c := ?new @ fl c)) (used(p := 0))"
    "arena g = st" "HeapLiveAllocationCount g = HeapLiveAllocationCount h"
    "\<And>x. unat x \<notin> {unat p..<unat p + 4096} \<Longrightarrow>
       heap_memory g x = write_header p (slab_header c 0) (heap_memory h) x"
    using thread_objects [OF S1, of p c "slot_count c", unfolded diff_self_eq_0 add_0, folded g_def] fresh [OF _ c]
    by (simp_all add: Let_def)
  have carve: "CarveSlab c p (h\<lparr>arena := st\<rparr>) = g\<lparr>HeapSlabPageCount := HeapSlabPageCount g + 1\<rparr>"
    unfolding CarveSlab_def g_def Let_def
    by (simp add: object_count [OF c, unfolded HEAP_HEADER_SIZE_def] HEAP_HEADER_SIZE_def slab_header_def del: upt_Suc)
  have "balanced (slabs(p \<mapsto> c)) (fl(c := ?new @ fl c)) (used(p := 0))"
    unfolding balanced_def
  proof (intro allI impI)
    fix q d assume q: "(slabs(p \<mapsto> c)) q = Some d"
    show "unat ((used(p := 0)) q) + card (free_slots (fl(c := ?new @ fl c)) q d) = slot_count d"
    proof (cases "q = p")
      case True
      then have "free_slots (fl(c := ?new @ fl c)) q d = {..<slot_count c}" using q by (auto simp: free_slots_def)
      then show ?thesis using True q by simp
    next
      case False
      then have q': "slabs q = Some d" using q by simp
      have "page_ok q" using header_pages(1) S q' by (auto simp: shape_def)
      then have "slot q d j \<notin> set ?new" if "j < slot_count d" for j
        using slot_pages_inj [OF _ that O(3)] False by auto
      then have "free_slots (fl(c := ?new @ fl c)) q d = free_slots fl q d" by (auto simp: free_slots_def)
      then show ?thesis using balancedD [OF B q'] False by simp
    qed
  qed
  moreover have "heap_regions (slabs(p \<mapsto> c)) large = insert (p, 1) (heap_regions slabs large)"
    by (auto simp: heap_regions_def)
  ultimately show "heap_view (CarveSlab c p (h\<lparr>arena := st\<rparr>)) (slabs(p \<mapsto> c)) large
      (fl(c := ?new @ fl c)) (used(p := 0))"
    using T(1,2) O(1) by (simp add: carve heap_view_def)
  show "HeapLiveAllocationCount (CarveSlab c p (h\<lparr>arena := st\<rparr>)) = HeapLiveAllocationCount h"
    using T(3) by (simp add: carve)
  show "heap_memory (CarveSlab c p (h\<lparr>arena := st\<rparr>)) x = heap_memory h x" if "unat x \<notin> arena_interval p 1"
  proof -
    have "unat x \<notin> byte_range p 32" using that by (auto simp: arena_interval_def byte_range_def)
    then show ?thesis using T(4) [of x] write_header_other [OF O(3)] that by (simp add: carve arena_interval_def)
  qed
qed

subsection \<open>Large blocks\<close>

definition heap_pages :: "u64 \<Rightarrow> nat" where
  "heap_pages bytes = (unat bytes + 32 + 4095) div 4096"

definition heap_admissible :: "u64 \<Rightarrow> bool" where
  "heap_admissible bytes \<longleftrightarrow> heap_pages bytes < 2 ^ 32"

lemma large_count:
  assumes "\<not> SIZE_MAX - HEAP_HEADER_SIZE - (PAGE_SIZE - 1) < bytes"
  shows "unat (AlignUp (bytes + HEAP_HEADER_SIZE) PAGE_SIZE div PAGE_SIZE) = heap_pages bytes"
proof -
  have "unat bytes \<le> 2 ^ 64 - 1 - 32 - 4095"
    using assms by (simp add: not_less word_le_nat_alt SIZE_MAX_def HEAP_HEADER_SIZE_def PAGE_SIZE_def)
  then have "unat (bytes + 32) = unat bytes + 32" "unat (bytes + 32) + 4095 < 2 ^ 64"
    using unat_offset [of bytes 32] by simp_all
  then show ?thesis
    by (simp add: unat_div unat_AlignUp heap_pages_def HEAP_HEADER_SIZE_def) (simp add: PAGE_SIZE_def)
qed

lemma large_admissible:
  assumes "heap_admissible bytes" "\<not> SIZE_MAX - HEAP_HEADER_SIZE - (PAGE_SIZE - 1) < bytes"
  defines "n \<equiv> AlignUp (bytes + HEAP_HEADER_SIZE) PAGE_SIZE div PAGE_SIZE"
  shows "arena_admissible n" "take_bit 32 n = n" "unat bytes + 32 \<le> unat n * 4096"
proof -
  have n: "unat n = heap_pages bytes" unfolding n_def by (rule large_count [OF assms(2)])
  have b: "heap_pages bytes < 2 ^ 32" using assms(1) by (simp add: heap_admissible_def)
  have "unat bytes + 32 + 4095 < (heap_pages bytes + 1) * 4096"
    unfolding heap_pages_def by (metis add.commute dividend_less_times_div mult.commute mult_Suc_right plus_1_eq_Suc zero_less_numeral)
  then show le: "unat bytes + 32 \<le> unat n * 4096" using n by simp
  then have "n \<noteq> 0" by auto
  moreover have "unat n < unat ARENA_PAGE_CAPACITY"
    using n b by (simp add: ARENA_PAGE_CAPACITY_def KERNEL_ARENA_SIZE_def PAGE_SIZE_def)
  ultimately show "arena_admissible n" by (simp add: arena_admissible_def word_less_nat_alt)
  show "take_bit 32 n = n" using n b by (simp add: take_bit_small)
qed

lemma KernelAllocateLarge_view:
  assumes V: "heap_view h slabs large fl used" and adm: "heap_admissible bytes"
    and run: "KernelAllocateLarge bytes h = Inr (h', a)"
  shows "a = 0 \<Longrightarrow> heap_view h' slabs large fl used \<and> HeapLiveAllocationCount h' = HeapLiveAllocationCount h \<and>
      heap_memory h' = heap_memory h"
    and "a \<noteq> 0 \<Longrightarrow> \<exists>p n. slabs p = None \<and> large p = None \<and> a = p + HEAP_HEADER_SIZE \<and>
      unat bytes + 32 \<le> unat n * 4096 \<and> heap_view h' slabs (large(p \<mapsto> n)) fl used \<and>
      HeapLiveAllocationCount h' = HeapLiveAllocationCount h + 1 \<and>
      (\<forall>x. unat x \<notin> byte_range p 32 \<longrightarrow> heap_memory h' x = heap_memory h x) \<and>
      (\<forall>q k. (q, k) \<in> heap_regions slabs large \<longrightarrow> arena_interval p n \<inter> arena_interval q k = {})"
proof -
  let ?n = "AlignUp (bytes + HEAP_HEADER_SIZE) PAGE_SIZE div PAGE_SIZE"
  show "heap_view h' slabs large fl used \<and> HeapLiveAllocationCount h' = HeapLiveAllocationCount h \<and>
      heap_memory h' = heap_memory h" if a: "a = 0"
  proof (cases "SIZE_MAX - HEAP_HEADER_SIZE - (PAGE_SIZE - 1) < bytes")
    case True
    then show ?thesis using V run by (simp add: KernelAllocateLarge_def)
  next
    case False
    obtain st p where alloc: "KernelPagesAllocate ?n (arena h) = Inr (st, p)"
      using run False by (auto simp: KernelAllocateLarge_def bind_outcome_Inr_iff Let_def)
    have "p = 0"
    proof (rule ccontr)
      assume p: "p \<noteq> 0"
      then have "page_ok p" by (rule view_obtained(3) [OF V large_admissible(1) [OF adm False] alloc])
      then have "unat (p + 32) = unat p + 32" using page_ok_offset [of p 32] by simp
      moreover have "p + 32 = 0" using run False alloc p a by (simp add: KernelAllocateLarge_def HEAP_HEADER_SIZE_def Let_def)
      ultimately show False by simp
    qed
    then show ?thesis
      using view_refused [OF V large_admissible(1) [OF adm False]] alloc run False
      by (auto simp: KernelAllocateLarge_def Let_def)
  qed
  assume a: "a \<noteq> 0"
  then have False_: "\<not> SIZE_MAX - HEAP_HEADER_SIZE - (PAGE_SIZE - 1) < bytes"
    using run by (auto simp: KernelAllocateLarge_def)
  note L = large_admissible [OF adm False_]
  obtain st p where alloc: "KernelPagesAllocate ?n (arena h) = Inr (st, p)"
    using run False_ by (auto simp: KernelAllocateLarge_def bind_outcome_Inr_iff Let_def)
  have p: "p \<noteq> 0" using run alloc False_ a by (auto simp: KernelAllocateLarge_def Let_def)
  note O = view_obtained [OF V L(1) alloc p]
  have h': "h' = h\<lparr>arena := st, heap_memory := write_header p (block_header ?n) (heap_memory h),
      HeapLargePageCount := HeapLargePageCount h + ?n, HeapLiveAllocationCount := HeapLiveAllocationCount h + 1\<rparr>"
    "a = p + HEAP_HEADER_SIZE"
    using run alloc False_ p by (simp_all add: KernelAllocateLarge_def Let_def block_header_def)
  have "shape (heap_memory h) (HeapClassFreeList h) slabs large fl used" "balanced slabs fl used"
    using V by (simp_all add: heap_view_def)
  moreover have "heap_regions slabs (large(p \<mapsto> ?n)) = insert (p, ?n) (heap_regions slabs large)"
    using O(5) by (auto simp: heap_regions_def split: if_splits)
  ultimately have view: "heap_view h' slabs (large(p \<mapsto> ?n)) fl used"
    using shape_block [of "heap_memory h" _ slabs large fl used p ?n] O(1,3-5) L(2) by (simp add: h' heap_view_def)
  show "\<exists>p n. slabs p = None \<and> large p = None \<and> a = p + HEAP_HEADER_SIZE \<and>
      unat bytes + 32 \<le> unat n * 4096 \<and> heap_view h' slabs (large(p \<mapsto> n)) fl used \<and>
      HeapLiveAllocationCount h' = HeapLiveAllocationCount h + 1 \<and>
      (\<forall>x. unat x \<notin> byte_range p 32 \<longrightarrow> heap_memory h' x = heap_memory h x) \<and>
      (\<forall>q k. (q, k) \<in> heap_regions slabs large \<longrightarrow> arena_interval p n \<inter> arena_interval q k = {})"
    using O(4-6) h'(2) L(3) view write_header_other [OF O(3)]
    by (intro exI [of _ p] exI [of _ ?n]) (auto simp: h'(1))
qed

lemma free_block_view:
  assumes V: "heap_view h slabs large fl used" and p: "large p = Some n" and a: "a = p + HEAP_HEADER_SIZE"
  obtains h' where "KernelFree a h = Inr h'" "heap_view h' slabs (large(p := None)) fl used"
    "HeapLiveAllocationCount h' = HeapLiveAllocationCount h - 1"
    "\<And>y. unat y \<notin> byte_range p 32 \<Longrightarrow> heap_memory h' y = heap_memory h y"
proof -
  have S: "shape (heap_memory h) (HeapClassFreeList h) slabs large fl used" and B: "balanced slabs fl used"
    using V by (simp_all add: heap_view_def)
  have H: "headers_ok (heap_memory h) slabs large used" using S by (simp add: shape_def)
  have P: "page_ok p" by (rule header_pages(2) [OF H p])
  have a': "a = slot p 0 0" by (simp add: a slot_def HEAP_HEADER_SIZE_def)
  have "0 < slot_count 0" by (simp add: slot_count_def class_size_def)
  then have page: "AlignDown a PAGE_SIZE = p" "a \<noteq> 0" using slot_page [OF P] slot_nonzero [OF P] a' by simp_all
  have hdr: "header_at (heap_memory h) p = block_header n" using H p by (simp add: headers_ok_def)
  have r: "(p, n) \<in> heap_regions slabs large" by (rule view_regions(3) [OF V p])
  obtain st where st: "KernelPagesFree p n (arena h) = Inr st" "pages_ok st (heap_regions slabs large - {(p, n)})"
    using pages.returned [OF view_regions(1) [OF V] r] by blast
  have "slabs p = None" using slab_not_block [OF H, of p] p by (cases "slabs p") auto
  then have "heap_regions slabs (large(p := None)) = heap_regions slabs large - {(p, n)}"
    using p by (auto simp: heap_regions_def split: if_splits)
  then show ?thesis
    using that [of "h\<lparr>arena := st, heap_memory := store_le p 8 0 (heap_memory h),
        HeapLargePageCount := HeapLargePageCount h - n, HeapLiveAllocationCount := HeapLiveAllocationCount h - 1\<rparr>"]
      shape_unblock [OF S p] B st page hdr store_header_other [OF P, of 0 8]
    by (simp add: KernelFree_def Let_def block_header_def heap_view_def)
qed

end
