(* ===== verification/HeapContract.thy ===== *)
theory HeapContract
  imports HeapBlocks
begin

text \<open>
  The kernel heap (\<open>kernel/mm/heap.c\<close>) as a provider of the contract \<open>block_source\<close>: a block
  handed out is aligned and overlaps no other, every block outstanding can be given back, and
  what the holders of blocks have written there survives the operations of others.
\<close>

subsection \<open>Blocks held\<close>

definition block_bytes :: "u64 \<Rightarrow> u64 \<Rightarrow> nat set" where
  "block_bytes a n = byte_range a (unat n)"

definition block_proper :: "u64 \<Rightarrow> u64 \<Rightarrow> bool" where
  "block_proper a n \<longleftrightarrow> 16 dvd unat a \<and> n \<noteq> 0 \<and> unat KERNEL_ARENA_BASE \<le> unat a \<and>
     unat a + unat n \<le> arena_end"

definition held :: "slab_map \<Rightarrow> block_map \<Rightarrow> (nat \<Rightarrow> u64 list) \<Rightarrow> u64 \<times> u64 \<Rightarrow> bool" where
  "held slabs large fl r \<longleftrightarrow>
     held_slot slabs fl (fst r) (unat (snd r)) \<or> held_pages large (fst r) (unat (snd r))"

lemma page_multiple: "page_ok p \<Longrightarrow> 16 dvd unat p"
  by (auto simp: page_ok_def IsPageAligned_iff intro: dvd_trans [of 16 4096])

lemma block_page: "page_ok p \<Longrightarrow> AlignDown (p + HEAP_HEADER_SIZE) PAGE_SIZE = p"
  using slot_page [of p 0 0] by (simp add: slot_def HEAP_HEADER_SIZE_def slot_count_def class_size_def)

lemma held_cases:
  assumes V: "heap_view h0 slabs large fl used" and h: "held slabs large fl (a, n)"
  obtains (slot) p c j where "slabs p = Some c" "c < 8" "j < slot_count c" "a = slot p c j" "a \<notin> set (fl c)"
      "unat n \<le> class_size c" "n \<noteq> 0" "page_ok p" "AlignDown a PAGE_SIZE = p" "large p = None"
  | (pages) p k where "large p = Some k" "a = p + HEAP_HEADER_SIZE" "unat n + 32 \<le> unat k * 4096" "n \<noteq> 0"
      "page_ok p" "AlignDown a PAGE_SIZE = p" "slabs p = None" "unat a = unat p + 32"
proof -
  have H: "headers_ok (heap_memory h0) slabs large used" using V by (simp add: heap_view_def shape_def)
  have n: "n \<noteq> 0" using h by (auto simp: held_def held_slot_def held_pages_def)
  from h consider (s) "held_slot slabs fl a (unat n)" | (p) "held_pages large a (unat n)" by (auto simp: held_def)
  then show thesis
  proof cases
    case s
    then obtain p c j where *: "slabs p = Some c" "j < slot_count c" "a = slot p c j" "a \<notin> set (fl c)"
      "unat n \<le> class_size c" unfolding held_slot_def by blast
    show thesis
      using header_pages(1) [OF H *(1)] slot_page [of p j c] *(2,3)
      by (intro slot(1) [OF *(1) _ *(2-5) n _ _ slab_not_block [OF H *(1)]]) simp_all
  next
    case p
    then obtain p k where *: "large p = Some k" "a = p + HEAP_HEADER_SIZE" "unat n + 32 \<le> unat k * 4096"
      unfolding held_pages_def by blast
    have P: "page_ok p" by (rule header_pages(2) [OF H *(1)])
    have "slabs p = None" using slab_not_block [OF H, of p] *(1) by (cases "slabs p") auto
    moreover have "a = slot p 0 0" "0 < slot_count 0"
      using *(2) by (simp_all add: slot_def HEAP_HEADER_SIZE_def slot_count_def class_size_def)
    ultimately show thesis
      using slot_page [OF P] page_ok_offset [OF P, of 32] *(2)
      by (intro pages(1) [OF * n P]) (simp_all add: HEAP_HEADER_SIZE_def)
  qed
qed

text \<open>A block held lies in one region of the heap, past its header.\<close>

lemma held_within:
  assumes V: "heap_view h0 slabs large fl used" and h: "held slabs large fl (a, n)"
  obtains p k where "(p, k) \<in> heap_regions slabs large" "AlignDown a PAGE_SIZE = p"
    "block_bytes a n \<subseteq> arena_interval p k" "block_bytes a n \<inter> byte_range p 32 = {}"
    "16 dvd unat a" "n \<noteq> 0"
  using V h
proof (cases rule: held_cases)
  case (slot p c j)
  have u: "unat a = unat p + 32 + j * class_size c" using unat_slot [OF slot(8,3)] slot(4) by simp
  have "16 dvd j * class_size c" by (simp add: class_size_def)
  then have "16 dvd unat a" unfolding u using page_multiple [OF slot(8)] by (intro dvd_add) simp_all
  moreover have B: "block_bytes a n \<subseteq> {unat p + 32..<unat p + 4096}"
    using slot(6) slot_range [OF slot(8,3)] slot(4) by (auto simp: block_bytes_def byte_range_def)
  moreover from B have "block_bytes a n \<inter> byte_range p 32 = {}" by (auto simp: byte_range_def)
  moreover from B have "block_bytes a n \<subseteq> arena_interval p 1" by (auto simp: arena_interval_def)
  ultimately show ?thesis
    using that [OF view_regions(2) [OF V slot(1)]] slot(7,9) by simp
next
  case (pages p k)
  have "16 dvd unat a" unfolding pages(8) using page_multiple [OF pages(5)] by (intro dvd_add) simp_all
  moreover have "block_bytes a n \<subseteq> arena_interval p k" "block_bytes a n \<inter> byte_range p 32 = {}"
    using pages(3,8) by (auto simp: block_bytes_def byte_range_def arena_interval_def)
  ultimately show ?thesis using that [OF view_regions(3) [OF V pages(1)]] pages(4,6) by simp
qed

lemma held_proper:
  assumes V: "heap_view h0 slabs large fl used" and h: "held slabs large fl (a, n)"
  shows "block_proper a n"
proof -
  obtain p k where W: "(p, k) \<in> heap_regions slabs large" "AlignDown a PAGE_SIZE = p"
    "block_bytes a n \<subseteq> arena_interval p k" "block_bytes a n \<inter> byte_range p 32 = {}" "16 dvd unat a" "n \<noteq> 0"
    by (rule held_within [OF V h])
  have A: "arena_proper p k" by (rule pages_proper [OF view_regions(1) [OF V] W(1)])
  have n: "0 < unat n" using W(6) by (simp add: unat_gt_0)
  then have "unat a \<in> arena_interval p k" "unat a + unat n - 1 \<in> arena_interval p k"
    using W(3) by (auto simp: block_bytes_def byte_range_def)
  then show ?thesis using A W(5,6) n by (auto simp: block_proper_def arena_proper_def arena_interval_def)
qed

lemma held_apart:
  assumes V: "heap_view h0 slabs large fl used" and h: "held slabs large fl (a, n)" "held slabs large fl (b, k)"
    and ne: "a \<noteq> b"
  shows "block_bytes a n \<inter> block_bytes b k = {}"
proof (cases "AlignDown a PAGE_SIZE = AlignDown b PAGE_SIZE")
  case False
  obtain p i where P: "(p, i) \<in> heap_regions slabs large" "AlignDown a PAGE_SIZE = p" "block_bytes a n \<subseteq> arena_interval p i"
    by (rule held_within [OF V h(1)])
  obtain q l where Q: "(q, l) \<in> heap_regions slabs large" "AlignDown b PAGE_SIZE = q" "block_bytes b k \<subseteq> arena_interval q l"
    by (rule held_within [OF V h(2)])
  have "arena_interval p i \<inter> arena_interval q l = {}"
    by (rule pages_disjoint [OF view_regions(1) [OF V] P(1) Q(1)]) (use False P(2) Q(2) in simp)
  then show ?thesis using P(3) Q(3) by blast
next
  case True
  from V h(1) show ?thesis
  proof (cases rule: held_cases)
    case A: (slot p c j)
    from V h(2) show ?thesis
    proof (cases rule: held_cases)
      case B: (slot q d i)
      have e: "q = p" "d = c" using A(1,9) B(1,9) True by simp_all
      then have "byte_range a (class_size c) \<inter> byte_range b (class_size c) = {}"
        using slots_apart [OF A(8,3), of i] B(3,4) A(4) ne by auto
      then show ?thesis using A(6) B(6) e by (auto simp: block_bytes_def byte_range_def)
    qed (use A True in simp)
  next
    case A: (pages p m)
    from V h(2) show ?thesis by (cases rule: held_cases) (use A True ne in simp_all)
  qed
qed

subsection \<open>Blocks that stay held\<close>

lemma held_free:
  assumes "held slabs large fl r" "\<And>d. fst r \<in> set (fl' d) \<Longrightarrow> fst r \<in> set (fl d)"
  shows "held slabs large fl' r"
  using assms unfolding held_def held_slot_def by blast

lemma held_pop:
  assumes V: "heap_view h0 slabs large fl used" and p: "slabs p = Some c" "j < slot_count c"
    and f: "fl c = slot p c j # xs" and r: "held slabs large fl r"
  shows "held slabs large (fl(c := xs)) r" "fst r \<noteq> slot p c j"
proof -
  show "held slabs large (fl(c := xs)) r"
    by (rule held_free [OF r]) (use f in \<open>auto split: if_splits\<close>)
  have H: "headers_ok (heap_memory h0) slabs large used" using V by (simp add: heap_view_def shape_def)
  have page: "AlignDown (slot p c j) PAGE_SIZE = p" using slot_page [OF _ p(2)] header_pages(1) [OF H p(1)] by simp
  have r': "held slabs large fl (fst r, snd r)" using r by simp
  from V r' show "fst r \<noteq> slot p c j"
    by (cases rule: held_cases) (use p page f in auto)
qed

lemma held_push: "held slabs large fl r \<Longrightarrow> fst r \<noteq> x \<Longrightarrow> held slabs large (fl(c := x # fl c)) r"
  by (erule held_free) (auto split: if_splits)

lemma held_unblock: "held slabs large fl r \<Longrightarrow> fst r \<noteq> p + HEAP_HEADER_SIZE \<Longrightarrow> held slabs (large(p := None)) fl r"
  unfolding held_def held_pages_def by (metis fun_upd_other)

lemma held_block:
  assumes "held slabs large fl r" "large p = None"
  shows "held slabs (large(p \<mapsto> n)) fl r"
  using assms unfolding held_def held_pages_def by (metis fun_upd_other option.distinct(1))

lemma held_carve:
  assumes V: "heap_view h0 slabs large fl used" and p: "page_ok p" "slabs p = None" and r: "held slabs large fl r"
  shows "held (slabs(p \<mapsto> c)) large (fl(c := map (slot p c) [0..<slot_count c] @ fl c)) r"
proof -
  have H: "headers_ok (heap_memory h0) slabs large used" using V by (simp add: heap_view_def shape_def)
  have "held_slot (slabs(p \<mapsto> c)) (fl(c := map (slot p c) [0..<slot_count c] @ fl c)) a n"
    if h: "held_slot slabs fl a n" for a n
  proof -
    obtain q d j where q: "slabs q = Some d" "j < slot_count d" "a = slot q d j" "a \<notin> set (fl d)" "n \<le> class_size d" "0 < n"
      using h unfolding held_slot_def by blast
    have qp: "q \<noteq> p" using q(1) p(2) by auto
    have "page_ok q" using header_pages(1) [OF H q(1)] by simp
    then have "slot p c i \<noteq> a" if "i < slot_count c" for i
      using slot_pages_inj [OF p(1) that _ q(2)] q(3) qp by metis
    then have "a \<notin> set (map (slot p c) [0..<slot_count c])" by fastforce
    then have "a \<notin> set ((fl(c := map (slot p c) [0..<slot_count c] @ fl c)) d)" using q(4) by (cases "d = c") simp_all
    then show ?thesis
      unfolding held_slot_def using q qp by (intro conjI exI [of _ q] exI [of _ d] exI [of _ j]) auto
  qed
  then show ?thesis using r by (auto simp: held_def)
qed

text \<open>The bytes of a block hold no byte of any header.\<close>

lemma held_not_header:
  assumes V: "heap_view h0 slabs large fl used" and r: "held slabs large fl (a, n)"
    and p: "slabs p = Some c \<or> large p = Some k"
  shows "block_bytes a n \<inter> byte_range p 32 = {}"
proof (cases "AlignDown a PAGE_SIZE = p")
  case True
  then show ?thesis by (rule_tac held_within [OF V r]) simp
next
  case False
  obtain q l where Q: "(q, l) \<in> heap_regions slabs large" "AlignDown a PAGE_SIZE = q" "block_bytes a n \<subseteq> arena_interval q l"
    by (rule held_within [OF V r])
  obtain m where m: "(p, m) \<in> heap_regions slabs large" using p view_regions(2,3) [OF V] by metis
  have "arena_interval q l \<inter> arena_interval p m = {}"
    by (rule pages_disjoint [OF view_regions(1) [OF V] Q(1) m]) (use False Q(2) in simp)
  moreover have "byte_range p 32 \<subseteq> arena_interval p m"
    using proper_nonempty [OF pages_proper [OF view_regions(1) [OF V] m]] by (auto simp: byte_range_def arena_interval_def)
  ultimately show ?thesis using Q(3) by blast
qed

subsection \<open>The contract\<close>

definition holds ::
  "heap_state \<Rightarrow> (u64 \<times> u64) set \<Rightarrow> slab_map \<Rightarrow> block_map \<Rightarrow> (nat \<Rightarrow> u64 list) \<Rightarrow> (u64 \<Rightarrow> u64) \<Rightarrow> bool" where
  "holds h live slabs large fl used \<longleftrightarrow> heap_view h slabs large fl used \<and>
     (\<forall>r \<in> live. held slabs large fl r) \<and> inj_on fst live \<and> finite live \<and>
     HeapLiveAllocationCount h = word_of_nat (card live)"

definition kept :: "heap_state \<Rightarrow> heap_state \<Rightarrow> (u64 \<times> u64) set \<Rightarrow> bool" where
  "kept h h' live \<longleftrightarrow>
     (\<forall>(b, k) \<in> live. \<forall>x. unat x \<in> block_bytes b k \<longrightarrow> heap_memory h' x = heap_memory h x)"

lemma heap_ok_holds: "heap_ok h live \<longleftrightarrow> (\<exists>slabs large fl used. holds h live slabs large fl used)"
  by (simp add: heap_ok_def holds_def held_def)

lemma kept_refl: "kept h h live" by (simp add: kept_def)

lemma keptI:
  "(\<And>b k y. (b, k) \<in> live \<Longrightarrow> unat y \<in> block_bytes b k \<Longrightarrow> heap_memory h' y = heap_memory h y) \<Longrightarrow> kept h h' live"
  by (auto simp: kept_def)

lemma kept_trans: "kept h g live \<Longrightarrow> kept g h' live \<Longrightarrow> kept h h' live"
  unfolding kept_def by fastforce

lemma holds_insert:
  assumes V: "heap_view h' slabs large fl used" and old: "\<And>r. r \<in> live \<Longrightarrow> held slabs large fl r \<and> fst r \<noteq> a"
    and new: "held slabs large fl (a, n)" and L: "inj_on fst live" "finite live"
    and count: "HeapLiveAllocationCount h' = word_of_nat (card live) + 1"
  shows "holds h' (insert (a, n) live) slabs large fl used \<and> block_proper a n \<and>
    (\<forall>(b, k) \<in> live. block_bytes a n \<inter> block_bytes b k = {})"
proof -
  have "(a, n) \<notin> live" using old by force
  moreover have "inj_on fst (insert (a, n) live)" using L(1) old by (auto simp: inj_on_insert)
  moreover have "block_bytes a n \<inter> block_bytes b k = {}" if "(b, k) \<in> live" for b k
    using held_apart [OF V new, of b k] old [OF that] by auto
  ultimately show ?thesis
    using V old new L count held_proper [OF V new] by (auto simp: holds_def add.commute)
qed

lemma holds_remove:
  assumes V: "heap_view h' slabs large fl used" and old: "\<And>r. r \<in> live - {(a, n)} \<Longrightarrow> held slabs large fl r"
    and L: "(a, n) \<in> live" "inj_on fst live" "finite live"
    and count: "HeapLiveAllocationCount h' = word_of_nat (card live) - 1"
  shows "holds h' (live - {(a, n)}) slabs large fl used"
proof -
  have "0 < card live" using L by (auto simp: card_gt_0_iff)
  then have "word_of_nat (card (live - {(a, n)})) = (word_of_nat (card live) - 1 :: u64)"
    using L by (simp add: of_nat_diff)
  then show ?thesis using V old L count by (auto simp: holds_def intro: inj_on_diff)
qed

definition gained :: "heap_state \<Rightarrow> heap_state \<Rightarrow> (u64 \<times> u64) set \<Rightarrow> u64 \<Rightarrow> u64 \<Rightarrow> bool" where
  "gained h h' live a n \<longleftrightarrow> heap_ok h' (insert (a, n) live) \<and> block_proper a n \<and>
     (\<forall>(b, k) \<in> live. block_bytes a n \<inter> block_bytes b k = {}) \<and> kept h h' live"

lemma holds_view:
  assumes "holds h live slabs large fl used"
  shows "heap_view h slabs large fl used" "r \<in> live \<Longrightarrow> held slabs large fl r" "inj_on fst live" "finite live"
    "HeapLiveAllocationCount h = word_of_nat (card live)"
  using assms by (simp_all add: holds_def)

lemma take_gains:
  assumes K: "holds h live slabs large fl used" and c: "c < 8" and f: "fl c \<noteq> []"
    and b: "unat n \<le> class_size c" "n \<noteq> 0" and run: "TakeObject c h = (h', a)"
  shows "gained h h' live a n \<and> a \<noteq> 0"
proof -
  obtain x xs where f': "fl c = x # xs" using f by (cases "fl c") auto
  note V = holds_view(1) [OF K]
  obtain p j where T: "slabs p = Some c" "j < slot_count c" "x = slot p c j" "a = x"
    "heap_view h' slabs large (fl(c := xs)) (used(p := used p + 1))"
    "HeapLiveAllocationCount h' = HeapLiveAllocationCount h + 1"
    "\<And>y. unat y \<notin> byte_range p 32 \<Longrightarrow> heap_memory h' y = heap_memory h y"
    by (rule TakeObject_view [OF V c f']) (use run in auto)
  have H: "headers_ok (heap_memory h) slabs large used" "chains_ok (heap_memory h) (HeapClassFreeList h) slabs fl"
    using V by (simp_all add: heap_view_def shape_def)
  have old: "held slabs large (fl(c := xs)) r \<and> fst r \<noteq> a" if "r \<in> live" for r
    using held_pop [OF V T(1,2) _ holds_view(2) [OF K that]] f' T(3,4) by simp
  have d: "distinct (x # xs)" using H(2) c f' by (auto simp: chains_ok_def)
  have new: "held slabs large (fl(c := xs)) (a, n)"
    unfolding held_def held_slot_def using T(1-4) d b
    by (intro disjI1 conjI exI [of _ p] exI [of _ c] exI [of _ j]) (auto simp: unat_gt_0)
  have "kept h h' live"
  proof (rule keptI)
    fix b k and y :: u64 assume "(b, k) \<in> live" "unat y \<in> block_bytes b k"
    then show "heap_memory h' y = heap_memory h y"
      using held_not_header [OF V holds_view(2) [OF K], of b k p] T(1) by (intro T(7)) auto
  qed
  moreover have "holds h' (insert (a, n) live) slabs large (fl(c := xs)) (used(p := used p + 1)) \<and>
      block_proper a n \<and> (\<forall>(b, k) \<in> live. block_bytes a n \<inter> block_bytes b k = {})"
    by (rule holds_insert [OF T(5) old new holds_view(3,4) [OF K]]) (use T(6) holds_view(5) [OF K] in simp_all)
  moreover have "a \<noteq> 0" using slot_nonzero [OF _ T(2)] header_pages(1) [OF H(1) T(1)] T(3,4) by simp
  ultimately show ?thesis unfolding gained_def heap_ok_holds by blast
qed

lemma carve_holds:
  assumes K: "holds h live slabs large fl used" and c: "c < 8"
    and run: "KernelPagesAllocate 1 (arena h) = Inr (st, p)" "p \<noteq> 0"
  defines "h' \<equiv> CarveSlab c p (h\<lparr>arena := st\<rparr>)"
  shows "holds h' live (slabs(p \<mapsto> c)) large (fl(c := map (slot p c) [0..<slot_count c] @ fl c)) (used(p := 0))"
    and "kept h h' live"
proof -
  note V = holds_view(1) [OF K]
  note O = view_obtained [OF V one_admissible run]
  note C = CarveSlab_view [OF V c run, folded h'_def]
  have "held (slabs(p \<mapsto> c)) large (fl(c := map (slot p c) [0..<slot_count c] @ fl c)) r" if "r \<in> live" for r
    by (rule held_carve [OF V O(3,4) holds_view(2) [OF K that]])
  then show "holds h' live (slabs(p \<mapsto> c)) large (fl(c := map (slot p c) [0..<slot_count c] @ fl c)) (used(p := 0))"
    using C(1,2) holds_view(3-5) [OF K] by (simp add: holds_def)
  show "kept h h' live"
  proof (rule keptI)
    fix b k and y :: u64 assume r: "(b, k) \<in> live" "unat y \<in> block_bytes b k"
    obtain q l where Q: "(q, l) \<in> heap_regions slabs large" "block_bytes b k \<subseteq> arena_interval q l"
      by (rule held_within [OF V holds_view(2) [OF K r(1)]])
    then have "unat y \<notin> arena_interval p 1" using O(6) [OF Q(1)] r(2) by blast
    then show "heap_memory h' y = heap_memory h y" by (rule C(3))
  qed
qed

lemma large_gains:
  assumes K: "holds h live slabs large fl used" and adm: "heap_admissible n" and n: "n \<noteq> 0"
    and run: "KernelAllocateLarge n h = Inr (h', a)" and a: "a \<noteq> 0"
  shows "gained h h' live a n"
proof -
  note V = holds_view(1) [OF K]
  obtain p m where L: "slabs p = None" "large p = None" "a = p + HEAP_HEADER_SIZE" "unat n + 32 \<le> unat m * 4096"
    "heap_view h' slabs (large(p \<mapsto> m)) fl used" "HeapLiveAllocationCount h' = HeapLiveAllocationCount h + 1"
    "\<And>x. unat x \<notin> byte_range p 32 \<Longrightarrow> heap_memory h' x = heap_memory h x"
    "\<And>q k. (q, k) \<in> heap_regions slabs large \<Longrightarrow> arena_interval p m \<inter> arena_interval q k = {}"
    using KernelAllocateLarge_view(2) [OF V adm run a] by blast
  have new: "held slabs (large(p \<mapsto> m)) fl (a, n)"
    using L(3,4) n by (auto simp: held_def held_pages_def unat_gt_0)
  have apart: "block_bytes b k \<inter> arena_interval p m = {} \<and> b \<noteq> a" if r: "(b, k) \<in> live" for b k
  proof -
    obtain q l where Q: "(q, l) \<in> heap_regions slabs large" "AlignDown b PAGE_SIZE = q" "block_bytes b k \<subseteq> arena_interval q l"
      by (rule held_within [OF V holds_view(2) [OF K r]])
    have "q \<noteq> p" using Q(1) L(1,2) by (auto simp: heap_regions_def)
    moreover have "AlignDown a PAGE_SIZE = p"
      using L(3) block_page [OF header_pages(2)] L(5) by (metis fun_upd_same heap_view_def shape_def)
    ultimately show ?thesis using Q(2,3) L(8) [OF Q(1)] by blast
  qed
  have old: "held slabs (large(p \<mapsto> m)) fl r \<and> fst r \<noteq> a" if "r \<in> live" for r
    using held_block [OF holds_view(2) [OF K that] L(2)] apart [of "fst r" "snd r"] that by simp
  have H: "byte_range p 32 \<subseteq> arena_interval p m"
    using L(4) n by (auto simp: byte_range_def arena_interval_def)
  have "kept h h' live"
  proof (rule keptI)
    fix b k and y :: u64 assume "(b, k) \<in> live" "unat y \<in> block_bytes b k"
    then show "heap_memory h' y = heap_memory h y" using apart [of b k] H by (intro L(7)) blast
  qed
  moreover have "holds h' (insert (a, n) live) slabs (large(p \<mapsto> m)) fl used \<and>
      block_proper a n \<and> (\<forall>(b, k) \<in> live. block_bytes a n \<inter> block_bytes b k = {})"
    by (rule holds_insert [OF L(5) old new holds_view(3,4) [OF K]]) (use L(6) holds_view(5) [OF K] in simp_all)
  ultimately show ?thesis unfolding gained_def heap_ok_holds by blast
qed

lemma list_head_empty:
  assumes "holds h live slabs large fl used" "c < 8"
  shows "HeapClassFreeList h ! c = 0 \<longleftrightarrow> fl c = []"
  using assms by (cases "fl c") (auto simp: holds_def heap_view_def shape_def chains_ok_def)

lemma slots_nonempty: "c < 8 \<Longrightarrow> map (slot p c) [0..<slot_count c] @ xs \<noteq> []"
  using slot_count_less [of c] by simp

text \<open>An allocation gains a block or leaves all as it was.\<close>

lemma KernelAllocate_gains:
  assumes ok: "heap_ok h live" and adm: "heap_admissible n" and run: "KernelAllocate n h = Inr (h', a)"
  shows "if a = 0 then heap_ok h' live \<and> kept h h' live else gained h h' live a n"
proof (cases "n = 0")
  case True
  then show ?thesis using run ok by (simp add: KernelAllocate_def kept_refl)
next
  case n: False
  obtain slabs large fl used where K: "holds h live slabs large fl used" using ok by (auto simp: heap_ok_holds)
  note V = holds_view(1) [OF K]
  let ?c = "HeapSizeClassFor n"
  show ?thesis
  proof (cases "?c = HEAP_CLASS_COUNT")
    case True
    then have L: "KernelAllocateLarge n h = Inr (h', a)" using run n by (simp add: KernelAllocate_def Let_def)
    show ?thesis
    proof (cases "a = 0")
      case True
      note R = KernelAllocateLarge_view(1) [OF V adm L True]
      then have "holds h' live slabs large fl used" using holds_view(2-5) [OF K] by (simp add: holds_def)
      then show ?thesis using R True by (auto simp: heap_ok_holds kept_def)
    qed (use large_gains [OF K adm n L] in simp)
  next
    case cls: False
    note c = HeapSizeClassFor_fits [OF refl cls]
    show ?thesis
    proof (cases "fl ?c = []")
      case False
      then have "TakeObject ?c h = (h', a)"
        using run n cls list_head_empty [OF K c(1)] by (simp add: KernelAllocate_def Let_def)
      then show ?thesis using take_gains [OF K c(1) False c(2) n] by simp
    next
      case True
      then obtain g refilled where g: "HeapRefillClass ?c h = Inr (g, refilled)"
        "(if \<not> refilled then (g, 0) else TakeObject ?c g) = (h', a)"
        using run n cls list_head_empty [OF K c(1)]
        by (auto simp: KernelAllocate_def Let_def bind_outcome_Inr_iff split: if_splits)
      then obtain st p where alloc: "KernelPagesAllocate 1 (arena h) = Inr (st, p)"
        "(g, refilled) = (if p = 0 then (h\<lparr>arena := st\<rparr>, False) else (CarveSlab ?c p (h\<lparr>arena := st\<rparr>), True))"
        by (auto simp: HeapRefillClass_def bind_outcome_Inr_iff Let_def split: if_splits)
      show ?thesis
      proof (cases "p = 0")
        case True
        then have h': "h' = h\<lparr>arena := st\<rparr>" "a = 0" using alloc(2) g(2) by auto
        have "holds h' live slabs large fl used"
          using view_refused [OF V one_admissible] alloc(1) True holds_view(2-5) [OF K] by (simp add: h' holds_def)
        then show ?thesis using h' by (auto simp: heap_ok_holds kept_def)
      next
        case False
        note C = carve_holds [OF K c(1) alloc(1) False]
        have "TakeObject ?c (CarveSlab ?c p (h\<lparr>arena := st\<rparr>)) = (h', a)" using alloc(2) g(2) False by auto
        then have "gained (CarveSlab ?c p (h\<lparr>arena := st\<rparr>)) h' live a n \<and> a \<noteq> 0"
          by (intro take_gains [OF C(1) c(1) _ c(2) n]) (use slots_nonempty [OF c(1)] in auto)
        then show ?thesis using kept_trans [OF C(2)] by (simp add: gained_def)
      qed
    qed
  qed
qed

text \<open>Giving a block back.\<close>

lemma KernelFree_returns:
  assumes ok: "heap_ok h live" and r: "(a, n) \<in> live"
  shows "\<exists>h'. KernelFree a h = Inr h' \<and> heap_ok h' (live - {(a, n)}) \<and> kept h h' (live - {(a, n)})"
proof -
  obtain slabs large fl used where K: "holds h live slabs large fl used" using ok by (auto simp: heap_ok_holds)
  note V = holds_view(1) [OF K] and L = holds_view(3,4) [OF K]
  have other: "held slabs large fl (b, k) \<and> b \<noteq> a" if "(b, k) \<in> live - {(a, n)}" for b k
    using holds_view(2) [OF K, of "(b, k)"] inj_onD [OF L(1), of "(a, n)" "(b, k)"] r that by auto
  have count: "word_of_nat (card live) - 1 = HeapLiveAllocationCount h - 1" using holds_view(5) [OF K] by simp
  from V holds_view(2) [OF K r] show ?thesis
  proof (cases rule: held_cases)
    case (slot p c j)
    obtain h' where F: "KernelFree a h = Inr h'" "heap_view h' slabs large (fl(c := a # fl c)) (used(p := used p - 1))"
      "HeapLiveAllocationCount h' = HeapLiveAllocationCount h - 1"
      "\<And>y. unat y \<notin> byte_range p 32 \<Longrightarrow> unat y \<notin> byte_range a (class_size c) \<Longrightarrow> heap_memory h' y = heap_memory h y"
      by (rule free_object_view [OF V slot(1,3,4,5)]) blast
    have "holds h' (live - {(a, n)}) slabs large (fl(c := a # fl c)) (used(p := used p - 1))"
    proof (rule holds_remove [OF F(2) _ r L])
      show "held slabs large (fl(c := a # fl c)) q" if "q \<in> live - {(a, n)}" for q
        using other [of "fst q" "snd q"] that by (intro held_push) auto
    qed (use F(3) count in simp)
    moreover have "kept h h' (live - {(a, n)})"
    proof (rule keptI)
      fix b k and y :: u64 assume q: "(b, k) \<in> live - {(a, n)}" "unat y \<in> block_bytes b k"
      have w: "unat (word_of_nat (class_size c) :: u64) = class_size c"
        using class_size_le [OF slot(2)] by (simp add: unat_word_of_nat)
      then have whole: "held slabs large fl (a, word_of_nat (class_size c))"
        unfolding held_def held_slot_def using slot(1-5) by auto
      have "block_bytes a (word_of_nat (class_size c)) \<inter> block_bytes b k = {}"
        using other [OF q(1)] by (intro held_apart [OF V whole]) auto
      then have "unat y \<notin> byte_range a (class_size c)" using q(2) w by (auto simp: block_bytes_def)
      moreover have "unat y \<notin> byte_range p 32"
        using held_not_header [OF V, of b k p] other [OF q(1)] slot(1) q(2) by blast
      ultimately show "heap_memory h' y = heap_memory h y" by (intro F(4))
    qed
    ultimately show ?thesis using F(1) by (auto simp: heap_ok_holds)
  next
    case (pages p k)
    obtain h' where F: "KernelFree a h = Inr h'" "heap_view h' slabs (large(p := None)) fl used"
      "HeapLiveAllocationCount h' = HeapLiveAllocationCount h - 1"
      "\<And>y. unat y \<notin> byte_range p 32 \<Longrightarrow> heap_memory h' y = heap_memory h y"
      by (rule free_block_view [OF V pages(1,2)]) blast
    have "holds h' (live - {(a, n)}) slabs (large(p := None)) fl used"
    proof (rule holds_remove [OF F(2) _ r L])
      show "held slabs (large(p := None)) fl q" if "q \<in> live - {(a, n)}" for q
        using other [of "fst q" "snd q"] that pages(2) by (intro held_unblock) auto
    qed (use F(3) count in simp)
    moreover have "kept h h' (live - {(a, n)})"
    proof (rule keptI)
      fix b l and y :: u64 assume q: "(b, l) \<in> live - {(a, n)}" "unat y \<in> block_bytes b l"
      then have "unat y \<notin> byte_range p 32"
        using held_not_header [OF V, of b l p] other [OF q(1)] pages(1) by blast
      then show "heap_memory h' y = heap_memory h y" by (rule F(4))
    qed
    ultimately show ?thesis using F(1) by (auto simp: heap_ok_holds)
  qed
qed

interpretation heap: block_source KernelAllocate "\<lambda>a n. KernelFree a" heap_admissible block_bytes block_proper heap_ok
proof (unfold_locales, goal_cases)
  case (1 s live n s' a)
  then show ?case using KernelAllocate_gains [OF 1(1-3)] by (simp add: gained_def)
next
  case (2 s live n s')
  then show ?case using KernelAllocate_gains [OF 2(1-3)] by simp
next
  case (3 s live a n)
  then show ?case using KernelFree_returns [OF 3] by blast
qed

text \<open>The heap as initialised, over an arena in order.\<close>

lemma KernelHeapInitialise_ok:
  assumes "pages_ok (arena h) {}"
  shows "heap_ok (KernelHeapInitialise h) {}"
proof -
  have "shape (heap_memory h) (replicate 8 0) Map.empty Map.empty (\<lambda>_. []) (\<lambda>_. 0)"
    by (simp add: shape_def headers_ok_def chains_ok_def)
  moreover have "heap_regions Map.empty Map.empty = {}" by (simp add: heap_regions_def)
  ultimately have "heap_view (KernelHeapInitialise h) Map.empty Map.empty (\<lambda>_. []) (\<lambda>_. 0)"
    using assms by (simp add: heap_view_def KernelHeapInitialise_def HEAP_CLASS_COUNT_def balanced_def)
  then show ?thesis unfolding heap_ok_holds holds_def
    by (intro exI conjI) (auto simp: KernelHeapInitialise_def)
qed

end
