(* ===== verification/KernelTables.thy ===== *)
theory KernelTables
  imports HeapContract
begin

text \<open>
  The first clients of the kernel heap: zeroed blocks (\<open>KernelAllocateZeroed\<close>), the growing
  tables of \<open>kernel/mm/table.c\<close> and \<open>table.h\<close>, whose chunks are blocks of the heap that are
  never given back, and the frame reference table, established by \<open>FrameReferenceInitialise\<close>
  of \<open>kernel/mm/pmm.c\<close>.
\<close>

subsection \<open>Writing within a block\<close>

lemma held_not_link:
  assumes V: "heap_view h slabs large fl used" and r: "held slabs large fl (a, n)"
  shows "block_bytes a n \<inter> link_bytes fl = {}"
proof -
  have H: "headers_ok (heap_memory h) slabs large used" and C: "chains_ok (heap_memory h) (HeapClassFreeList h) slabs fl"
    using V by (simp_all add: heap_view_def shape_def)
  from V r show ?thesis
  proof (cases rule: held_cases)
    case (slot p c j)
    have "b \<notin> link_bytes fl" if "b \<in> block_bytes a n" for b
      using slot_bytes_links [OF H C slot(1,3)] slot(4-6) that by (auto simp: block_bytes_def byte_range_def)
    then show ?thesis by blast
  next
    case (pages p k)
    have "b \<notin> link_bytes fl" if b: "b \<in> block_bytes a n" for b
    proof
      assume "b \<in> link_bytes fl"
      then obtain q c j where q: "slabs q = Some c" "j < slot_count c" "b \<in> byte_range (slot q c j) (class_size c)"
        using link_bytes_slots [OF C] unfolding slot_bytes_def by blast
      have "b \<in> arena_interval q 1"
        using slot_range [OF _ q(2)] header_pages(1) [OF H q(1)] q(3) by (force simp: arena_interval_def)
      moreover have "b \<in> arena_interval p k"
        using b pages(3,8) by (auto simp: block_bytes_def byte_range_def arena_interval_def)
      moreover have "arena_interval q 1 \<inter> arena_interval p k = {}"
        by (rule pages_disjoint [OF view_regions(1) [OF V] view_regions(2) [OF V q(1)] view_regions(3) [OF V pages(1)]])
          (use q(1) pages(7) in auto)
      ultimately show False by blast
    qed
    then show ?thesis by blast
  qed
qed

text \<open>The holder of a block may write what it likes there.\<close>

lemma heap_ok_write:
  assumes ok: "heap_ok h live" and r: "(a, n) \<in> live"
    and same: "\<And>x. unat x \<notin> block_bytes a n \<Longrightarrow> m x = heap_memory h x"
  shows "heap_ok (h\<lparr>heap_memory := m\<rparr>) live"
proof -
  obtain slabs large fl used where K: "holds h live slabs large fl used" using ok by (auto simp: heap_ok_holds)
  note V = holds_view(1) [OF K] and R = holds_view(2) [OF K r]
  have "shape (heap_memory h) (HeapClassFreeList h) slabs large fl used" using V by (simp add: heap_view_def)
  then have "shape m (HeapClassFreeList h) slabs large fl used"
  proof (rule shape_elsewhere)
    fix x :: u64 assume "unat x \<in> header_bytes slabs large"
    then obtain p where "p \<in> dom slabs \<union> dom large" "unat x \<in> byte_range p 32" by (auto simp: header_bytes_def)
    then show "m x = heap_memory h x" using held_not_header [OF V R, of p] by (intro same) blast
  next
    fix x :: u64 assume "unat x \<in> link_bytes fl"
    then show "m x = heap_memory h x" using held_not_link [OF V R] by (intro same) blast
  qed
  then show ?thesis using K by (auto simp: heap_ok_holds holds_def heap_view_def)
qed

lemma HeapZero_effect:
  assumes "unat a + unat n < 2 ^ 64"
  shows "HeapZero a n m x = (if unat x \<in> block_bytes a n then 0 else m x)"
proof -
  have "fold (\<lambda>i m. m(a + word_of_nat i := 0)) [0..<k] m x = (if unat x \<in> byte_range a k then 0 else m x)"
    if "unat a + k < 2 ^ 64" for k
    using that
  proof (induction k)
    case (Suc k)
    have "x = a + word_of_nat k \<longleftrightarrow> unat x = unat a + k"
      using unat_offset [of a k] Suc.prems by (auto simp: word_unat_eq_iff)
    then show ?case using Suc by (auto simp: byte_range_def)
  qed (simp add: byte_range_def)
  then show ?thesis using assms by (simp add: HeapZero_def block_bytes_def)
qed

definition zeroed :: "heap_state \<Rightarrow> u64 \<Rightarrow> u64 \<Rightarrow> bool" where
  "zeroed h a n \<longleftrightarrow> (\<forall>x. unat x \<in> block_bytes a n \<longrightarrow> heap_memory h x = 0)"

lemma KernelAllocateZeroed_gains:
  assumes ok: "heap_ok h live" and adm: "heap_admissible n" and run: "KernelAllocateZeroed n h = Inr (h', a)"
  shows "if a = 0 then heap_ok h' live \<and> kept h h' live else gained h h' live a n \<and> zeroed h' a n"
proof -
  obtain g where g: "KernelAllocate n h = Inr (g, a)"
    "h' = (if a \<noteq> 0 then g\<lparr>heap_memory := HeapZero a n (heap_memory g)\<rparr> else g)"
    using run by (auto simp: KernelAllocateZeroed_def bind_outcome_Inr_iff)
  note G = KernelAllocate_gains [OF ok adm g(1)]
  show ?thesis
  proof (cases "a = 0")
    case True
    then show ?thesis using G g(2) by simp
  next
    case False
    then have A: "gained h g live a n" using G by simp
    then have "unat a + unat n < 2 ^ 64" using arena_end_less by (simp add: gained_def block_proper_def)
    note Z = HeapZero_effect [OF this, of "heap_memory g"]
    have h': "h' = g\<lparr>heap_memory := HeapZero a n (heap_memory g)\<rparr>" using g(2) False by simp
    have "heap_ok h' (insert (a, n) live)"
      unfolding h' using A Z by (intro heap_ok_write) (auto simp: gained_def)
    moreover have "kept g h' live"
      using A Z by (intro keptI) (auto simp: h' gained_def)
    ultimately show ?thesis
      using A False kept_trans [of h g live h'] Z by (simp add: gained_def zeroed_def h')
  qed
qed

subsection \<open>Growing tables\<close>

definition GROWING_TABLE_DIRECTORY_CAPACITY :: u64 where
  "GROWING_TABLE_DIRECTORY_CAPACITY = 256"

record GrowingTable =
  name :: string
  entry_size :: u64
  chunk_entries :: u64
  chunk_count :: u64
  chunks :: "u64 list"
  growths :: u64
  refusals :: u64

definition GROWING_TABLE_INITIALISER :: "string \<Rightarrow> u64 \<Rightarrow> u64 \<Rightarrow> u64 \<Rightarrow> GrowingTable" where
  "GROWING_TABLE_INITIALISER label bytes first count =
     \<lparr>name = label, entry_size = bytes, chunk_entries = count, chunk_count = 1,
      chunks = first # replicate 255 0, growths = 0, refusals = 0\<rparr>"

definition GrowingTableCapacity :: "GrowingTable \<Rightarrow> u64" where
  "GrowingTableCapacity table = chunk_count table * chunk_entries table"

definition GrowingTableAt :: "GrowingTable \<Rightarrow> u64 \<Rightarrow> u64" where
  "GrowingTableAt table index =
     (if GrowingTableCapacity table \<le> index then 0
      else chunks table ! unat (index div chunk_entries table)
           + (index mod chunk_entries table) * entry_size table)"

text \<open>
  \<open>secondary\<close> is the test of the source that a processor other than the first is asking
  (\<open>PerCpuIsEstablished\<close> and \<open>PerCpuIndex\<close>).
\<close>

definition GrowingTableGrow ::
  "bool \<Rightarrow> GrowingTable \<Rightarrow> heap_state \<Rightarrow> (heap_state \<times> GrowingTable \<times> bool) outcome" where
  "GrowingTableGrow secondary table h =
     (let count = chunk_count table
      in if GROWING_TABLE_DIRECTORY_CAPACITY \<le> count \<or> secondary
         then Inr (h, table\<lparr>refusals := refusals table + 1\<rparr>, False)
         else bind_outcome (KernelAllocateZeroed (entry_size table * chunk_entries table) h) (\<lambda>(h, chunk).
                if chunk = 0 then Inr (h, table\<lparr>refusals := refusals table + 1\<rparr>, False)
                else Inr (h, table\<lparr>chunks := (chunks table)[unat count := chunk], chunk_count := count + 1,
                                growths := growths table + 1\<rparr>, True)))"

subsubsection \<open>Entries that never move\<close>

definition chunk_bytes :: "GrowingTable \<Rightarrow> nat" where
  "chunk_bytes t = unat (entry_size t) * unat (chunk_entries t)"

definition table_well :: "GrowingTable \<Rightarrow> (u64 \<times> u64) set \<Rightarrow> bool" where
  "table_well t live \<longleftrightarrow> length (chunks t) = 256 \<and> 1 \<le> chunk_count t \<and> chunk_count t \<le> 256 \<and>
     entry_size t \<noteq> 0 \<and> chunk_entries t \<noteq> 0 \<and> chunk_bytes t < 2 ^ 32 \<and>
     chunks t ! 0 \<noteq> 0 \<and> unat (chunks t ! 0) + chunk_bytes t < 2 ^ 64 \<and>
     byte_range (chunks t ! 0) (chunk_bytes t) \<inter> {unat KERNEL_ARENA_BASE..<arena_end} = {} \<and>
     (\<forall>i. 1 \<le> i \<longrightarrow> i < unat (chunk_count t) \<longrightarrow> (chunks t ! i, entry_size t * chunk_entries t) \<in> live) \<and>
     distinct (take (unat (chunk_count t)) (chunks t))"

definition entry_bytes :: "GrowingTable \<Rightarrow> u64 \<Rightarrow> nat set" where
  "entry_bytes t index = byte_range (GrowingTableAt t index) (unat (entry_size t))"

lemma table_limits:
  assumes "table_well t live"
  shows "unat (chunk_count t) \<le> 256" "0 < unat (chunk_count t)" "0 < unat (chunk_entries t)" "0 < unat (entry_size t)"
    "unat (entry_size t * chunk_entries t) = chunk_bytes t" "unat (chunk_entries t) \<le> chunk_bytes t"
    "unat (GrowingTableCapacity t) = unat (chunk_count t) * unat (chunk_entries t)"
proof -
  show c: "unat (chunk_count t) \<le> 256" "0 < unat (chunk_count t)"
    using assms by (simp_all add: table_well_def word_le_nat_alt)
  show p: "0 < unat (chunk_entries t)" "0 < unat (entry_size t)" using assms by (auto simp: table_well_def unat_gt_0)
  have b: "chunk_bytes t < 2 ^ 32" using assms by (simp add: table_well_def)
  then show "unat (entry_size t * chunk_entries t) = chunk_bytes t"
    by (simp add: unat_word_ariths chunk_bytes_def)
  show le: "unat (chunk_entries t) \<le> chunk_bytes t" using p(2) by (simp add: chunk_bytes_def)
  have "unat (chunk_count t) * unat (chunk_entries t) \<le> 256 * 2 ^ 32"
    using c(1) le b by (intro mult_le_mono) auto
  then show "unat (GrowingTableCapacity t) = unat (chunk_count t) * unat (chunk_entries t)"
    by (simp add: GrowingTableCapacity_def unat_word_ariths)
qed

text \<open>Chunks lie apart: the first outside the arena, the others live blocks of the heap.\<close>

lemma chunk_room:
  assumes T: "table_well t live" and ok: "heap_ok h live" and i: "i < unat (chunk_count t)"
  shows "unat (chunks t ! i) + chunk_bytes t < 2 ^ 64" "chunks t ! i \<noteq> 0"
    "i \<noteq> 0 \<Longrightarrow> byte_range (chunks t ! i) (chunk_bytes t) \<subseteq> {unat KERNEL_ARENA_BASE..<arena_end}"
proof -
  have P: "block_proper (chunks t ! i) (entry_size t * chunk_entries t)" if "i \<noteq> 0"
  proof -
    have "(chunks t ! i, entry_size t * chunk_entries t) \<in> live" using T i that by (simp add: table_well_def)
    then show ?thesis
      using ok holds_view(1,2) held_proper unfolding heap_ok_holds by metis
  qed
  show "i \<noteq> 0 \<Longrightarrow> byte_range (chunks t ! i) (chunk_bytes t) \<subseteq> {unat KERNEL_ARENA_BASE..<arena_end}"
    using P table_limits(5) [OF T] by (auto simp: block_proper_def byte_range_def)
  show "unat (chunks t ! i) + chunk_bytes t < 2 ^ 64"
    using T P table_limits(5) [OF T] arena_end_less by (cases "i = 0") (auto simp: table_well_def block_proper_def)
  show "chunks t ! i \<noteq> 0"
    using T P by (cases "i = 0") (auto simp: table_well_def block_proper_def KERNEL_ARENA_BASE_def)
qed

lemma chunks_apart:
  assumes T: "table_well t live" and ok: "heap_ok h live"
    and i: "i < unat (chunk_count t)" "j < unat (chunk_count t)" "i \<noteq> j"
  shows "byte_range (chunks t ! i) (chunk_bytes t) \<inter> byte_range (chunks t ! j) (chunk_bytes t) = {}"
proof (cases "i = 0 \<or> j = 0")
  case True
  have first: "byte_range (chunks t ! 0) (chunk_bytes t) \<inter> {unat KERNEL_ARENA_BASE..<arena_end} = {}"
    using T by (simp add: table_well_def)
  have "byte_range (chunks t ! 0) (chunk_bytes t) \<inter> byte_range (chunks t ! k) (chunk_bytes t) = {}"
    if "k \<noteq> 0" "k < unat (chunk_count t)" for k
    using chunk_room(3) [OF T ok that(2,1)] first by blast
  then show ?thesis using True i by (metis inf_commute)
next
  case False
  obtain slabs large fl used where K: "holds h live slabs large fl used" using ok by (auto simp: heap_ok_holds)
  have "distinct (take (unat (chunk_count t)) (chunks t))" using T by (simp add: table_well_def)
  then have "chunks t ! i \<noteq> chunks t ! j"
    using i T table_limits(1) [OF T] by (auto simp: table_well_def distinct_conv_nth)
  moreover have "(chunks t ! k, entry_size t * chunk_entries t) \<in> live" if "k \<noteq> 0" "k < unat (chunk_count t)" for k
    using T that by (simp add: table_well_def)
  ultimately have "block_bytes (chunks t ! i) (entry_size t * chunk_entries t) \<inter>
      block_bytes (chunks t ! j) (entry_size t * chunk_entries t) = {}"
    using held_apart [OF holds_view(1) [OF K] holds_view(2) [OF K] holds_view(2) [OF K]] False i by blast
  then show ?thesis by (simp add: block_bytes_def table_limits(5) [OF T])
qed

lemma entry_place:
  assumes T: "table_well t live" and ok: "heap_ok h live" and i: "index < GrowingTableCapacity t"
  defines "c \<equiv> unat index div unat (chunk_entries t)" and "k \<equiv> unat index mod unat (chunk_entries t)"
  shows "c < unat (chunk_count t)" "(k + 1) * unat (entry_size t) \<le> chunk_bytes t"
    "unat (GrowingTableAt t index) = unat (chunks t ! c) + k * unat (entry_size t)"
proof -
  note L = table_limits [OF T]
  have "unat index < unat (chunk_count t) * unat (chunk_entries t)" using i L(7) by (simp add: word_less_nat_alt)
  then show c: "c < unat (chunk_count t)" using L(3) by (simp add: c_def less_mult_imp_div_less)
  have "k < unat (chunk_entries t)" using L(3) by (simp add: k_def)
  then have "(k + 1) * unat (entry_size t) \<le> unat (chunk_entries t) * unat (entry_size t)"
    by (intro mult_le_mono1) simp
  then show b: "(k + 1) * unat (entry_size t) \<le> chunk_bytes t" by (simp add: chunk_bytes_def mult.commute)
  have "(index mod chunk_entries t) * entry_size t = word_of_nat (k * unat (entry_size t))"
    by (simp add: k_def flip: unat_mod)
  moreover have "unat (chunks t ! c + word_of_nat (k * unat (entry_size t))) = unat (chunks t ! c) + k * unat (entry_size t)"
    by (rule unat_offset) (use b chunk_room(1) [OF T ok c] in simp)
  ultimately show "unat (GrowingTableAt t index) = unat (chunks t ! c) + k * unat (entry_size t)"
    using i by (simp add: GrowingTableAt_def c_def unat_div flip: not_less)
qed

lemma entries_apart:
  assumes T: "table_well t live" and ok: "heap_ok h live"
    and i: "i < GrowingTableCapacity t" and j: "j < GrowingTableCapacity t" and ne: "i \<noteq> j"
  shows "entry_bytes t i \<inter> entry_bytes t j = {}"
proof (cases "unat i div unat (chunk_entries t) = unat j div unat (chunk_entries t)")
  case True
  have "unat i \<noteq> unat j" using ne by (simp add: word_unat_eq_iff)
  then have "unat i mod unat (chunk_entries t) \<noteq> unat j mod unat (chunk_entries t)"
    using True by (metis mult_div_mod_eq)
  then consider "unat i mod unat (chunk_entries t) + 1 \<le> unat j mod unat (chunk_entries t)"
    | "unat j mod unat (chunk_entries t) + 1 \<le> unat i mod unat (chunk_entries t)" by linarith
  then have "(unat i mod unat (chunk_entries t) + 1) * unat (entry_size t) \<le> unat j mod unat (chunk_entries t) * unat (entry_size t) \<or>
      (unat j mod unat (chunk_entries t) + 1) * unat (entry_size t) \<le> unat i mod unat (chunk_entries t) * unat (entry_size t)"
    by cases (blast intro: mult_le_mono1)+
  then show ?thesis
    using entry_place(3) [OF T ok i] entry_place(3) [OF T ok j] True
    by (auto simp: entry_bytes_def byte_range_def algebra_simps)
next
  case False
  have inside: "entry_bytes t x \<subseteq> byte_range (chunks t ! (unat x div unat (chunk_entries t))) (chunk_bytes t)"
    if "x < GrowingTableCapacity t" for x
    using entry_place(2,3) [OF T ok that] by (auto simp: entry_bytes_def byte_range_def algebra_simps)
  show ?thesis
    using chunks_apart [OF T ok entry_place(1) [OF T ok i] entry_place(1) [OF T ok j] False] inside [OF i] inside [OF j]
    by blast
qed

subsubsection \<open>Growth\<close>

definition grown_table :: "GrowingTable \<Rightarrow> u64 \<Rightarrow> GrowingTable" where
  "grown_table t c =
     t\<lparr>chunks := (chunks t)[unat (chunk_count t) := c], chunk_count := chunk_count t + 1, growths := growths t + 1\<rparr>"

lemma grown_table_well:
  assumes T: "table_well t live" and ok: "heap_ok h live" and room: "chunk_count t < 256"
    and c: "c \<notin> fst ` live" "block_proper c (entry_size t * chunk_entries t)"
  shows "table_well (grown_table t c) (insert (c, entry_size t * chunk_entries t) live)"
proof -
  let ?k = "unat (chunk_count t)"
  have k: "?k < 256" "unat (chunk_count t + 1) = ?k + 1"
    using room unat_offset [of "chunk_count t" 1] by (simp_all add: word_less_nat_alt)
  have len: "length (chunks t) = 256" using T by (simp add: table_well_def)
  have old: "chunks t ! i \<noteq> c" if "i < ?k" for i
  proof (cases "i = 0")
    case True
    have first: "byte_range (chunks t ! 0) (chunk_bytes t) \<inter> {unat KERNEL_ARENA_BASE..<arena_end} = {}"
      using T by (simp add: table_well_def)
    have "0 < chunk_bytes t" using table_limits(3,6) [OF T] by linarith
    then have "unat (chunks t ! 0) \<in> byte_range (chunks t ! 0) (chunk_bytes t)" by (simp add: byte_range_def)
    moreover have "unat c \<in> {unat KERNEL_ARENA_BASE..<arena_end}"
      using c(2) table_limits(5) [OF T] \<open>0 < chunk_bytes t\<close> by (simp add: block_proper_def)
    ultimately show ?thesis using True first by auto
  next
    case False
    then have "(chunks t ! i, entry_size t * chunk_entries t) \<in> live" using T that by (simp add: table_well_def)
    then show ?thesis using c(1) by force
  qed
  have "take (?k + 1) ((chunks t)[?k := c]) = take ?k (chunks t) @ [c]"
    using k(1) len by (simp add: take_Suc_conv_app_nth)
  moreover have "distinct (take ?k (chunks t))" using T by (simp add: table_well_def)
  moreover have "c \<notin> set (take ?k (chunks t))" using old k(1) len by (auto simp: in_set_conv_nth)
  ultimately have d: "distinct (take (?k + 1) ((chunks t)[?k := c]))" by simp
  have c0: "(chunks t)[?k := c] ! 0 = chunks t ! 0" using table_limits(2) [OF T] by simp
  have b: "chunk_bytes (grown_table t c) = chunk_bytes t" by (simp add: chunk_bytes_def grown_table_def)
  have new: "((chunks t)[?k := c] ! i, entry_size t * chunk_entries t) \<in> insert (c, entry_size t * chunk_entries t) live"
    if "1 \<le> i" "i < ?k + 1" for i
    using T that k(1) len by (cases "i = ?k") (auto simp: table_well_def)
  have n: "1 \<le> chunk_count t + 1" "chunk_count t + 1 \<le> 256" using k by (simp_all add: word_le_nat_alt)
  show ?thesis
    unfolding table_well_def b
    using T len c0 d new n k(2) by (simp add: table_well_def grown_table_def)
qed

lemma grown_capacity:
  assumes T: "table_well t live" and room: "chunk_count t < 256"
  shows "unat (GrowingTableCapacity (grown_table t c)) = unat (GrowingTableCapacity t) + unat (chunk_entries t)"
proof -
  have k: "unat (chunk_count t + 1) = unat (chunk_count t) + 1"
    using room unat_offset [of "chunk_count t" 1] by (simp add: word_less_nat_alt)
  have "unat (chunk_count t + 1) * unat (chunk_entries t) \<le> 256 * 2 ^ 32"
    using k room table_limits(6) [OF T] T by (intro mult_le_mono) (auto simp: word_less_nat_alt table_well_def)
  then show ?thesis
    using k table_limits(7) [OF T] by (simp add: GrowingTableCapacity_def grown_table_def unat_word_ariths)
qed

lemma grown_entries:
  assumes T: "table_well t live" and ok: "heap_ok h live" and i: "i < GrowingTableCapacity t" and room: "chunk_count t < 256"
  shows "GrowingTableAt (grown_table t c) i = GrowingTableAt t i"
proof -
  have "i < GrowingTableCapacity (grown_table t c)"
    using i grown_capacity [OF T room] by (simp add: word_less_nat_alt)
  then show ?thesis
    using i entry_place(1) [OF T ok i]
    by (simp add: GrowingTableAt_def grown_table_def unat_div flip: not_less)
qed

lemma chunk_admissible: "table_well t live \<Longrightarrow> heap_admissible (entry_size t * chunk_entries t)"
proof -
  assume T: "table_well t live"
  have "heap_pages (entry_size t * chunk_entries t) \<le> (2 ^ 32 + 32 + 4095) div 4096"
    unfolding heap_pages_def table_limits(5) [OF T] using T by (intro div_le_mono) (simp add: table_well_def)
  then show ?thesis by (simp add: heap_admissible_def)
qed

lemma GrowingTableGrow_effect:
  assumes T: "table_well t live" and ok: "heap_ok h live"
    and run: "GrowingTableGrow secondary t h = Inr (h', t', grown)"
  shows "\<not> grown \<Longrightarrow> heap_ok h' live \<and> kept h h' live \<and> t' = t\<lparr>refusals := refusals t + 1\<rparr>"
    and "grown \<Longrightarrow> \<exists>c. chunk_count t < 256 \<and> t' = grown_table t c \<and>
      gained h h' live c (entry_size t * chunk_entries t) \<and> zeroed h' c (entry_size t * chunk_entries t) \<and>
      table_well t' (insert (c, entry_size t * chunk_entries t) live) \<and>
      (\<forall>i < GrowingTableCapacity t. GrowingTableAt t' i = GrowingTableAt t i)"
proof -
  let ?n = "entry_size t * chunk_entries t"
  have adm: "heap_admissible ?n" by (rule chunk_admissible [OF T])
  show "heap_ok h' live \<and> kept h h' live \<and> t' = t\<lparr>refusals := refusals t + 1\<rparr>" if "\<not> grown"
    using run that ok KernelAllocateZeroed_gains [OF ok adm]
    by (fastforce simp: GrowingTableGrow_def Let_def bind_outcome_Inr_iff kept_refl split: if_splits)
  assume grown
  then obtain c where c: "KernelAllocateZeroed ?n h = Inr (h', c)" "c \<noteq> 0" "t' = grown_table t c" "chunk_count t < 256"
    using run by (auto simp: GrowingTableGrow_def Let_def bind_outcome_Inr_iff grown_table_def not_le
        GROWING_TABLE_DIRECTORY_CAPACITY_def split: if_splits)
  have G: "gained h h' live c ?n" "zeroed h' c ?n" using KernelAllocateZeroed_gains [OF ok adm c(1)] c(2) by simp_all
  have P: "block_proper c ?n" using G(1) by (simp add: gained_def)
  have "c \<notin> fst ` live"
  proof
    assume "c \<in> fst ` live"
    then obtain k where k: "(c, k) \<in> live" by auto
    have "block_proper c k" using ok k holds_view(1,2) held_proper unfolding heap_ok_holds by metis
    then have "unat c \<in> block_bytes c ?n \<inter> block_bytes c k"
      using P by (auto simp: block_bytes_def byte_range_def block_proper_def unat_gt_0)
    then show False using G(1) k by (auto simp: gained_def)
  qed
  then have "table_well t' (insert (c, ?n) live)" using grown_table_well [OF T ok c(4) _ P] c(3) by simp
  then show "\<exists>c. chunk_count t < 256 \<and> t' = grown_table t c \<and> gained h h' live c ?n \<and> zeroed h' c ?n \<and>
      table_well t' (insert (c, ?n) live) \<and> (\<forall>i < GrowingTableCapacity t. GrowingTableAt t' i = GrowingTableAt t i)"
    using c(3,4) G grown_entries [OF T ok _ c(4)] by auto
qed

subsection \<open>The frame reference table\<close>

text \<open>The table of 16-bit counts is the list \<open>FrameReferenceTable\<close>; its block is what is obtained.\<close>

definition FrameReferenceInitialise :: "heap_state \<Rightarrow> heap_state outcome" where
  "FrameReferenceInitialise h =
     (if FrameReferenceTable (frames (paging (arena h))) \<noteq> None then Inr h
      else bind_outcome
        (KernelAllocateZeroed (word_of_nat (FrameCount (frames (paging (arena h)))) * 2) h) (\<lambda>(h, table).
          if table = 0 then KernelPanic ''The frame reference table could not be allocated.''
          else
            let st = arena h; pages = paging st
            in Inr (h\<lparr>arena := st\<lparr>paging := pages\<lparr>frames := FrameReferenceSeed (frames pages)\<rparr>\<rparr>\<rparr>)))"

lemma FrameReferenceInitialise_effect:
  assumes run: "FrameReferenceInitialise h = Inr h'" and none: "FrameReferenceTable (frames (paging (arena h))) = None"
  obtains g a where "KernelAllocateZeroed (word_of_nat (FrameCount (frames (paging (arena h)))) * 2) h = Inr (g, a)"
    "a \<noteq> 0" "frames (paging (arena h')) = FrameReferenceSeed (frames (paging (arena g)))"
    "FrameReferenceInitialise h' = Inr h'"
  using run none by (auto simp: FrameReferenceInitialise_def bind_outcome_Inr_iff Let_def FrameReferenceSeed_def split: if_splits)

end
