(* ===== verification/HeapProperties.thy ===== *)
theory HeapProperties
  imports KernelTables ArenaProperties
begin

text \<open>
  The properties of the kernel heap (\<open>kernel/mm/heap.c\<close>) and of the growing tables
  (\<open>kernel/mm/table.c\<close>), each with a heap on which its hypotheses hold.
\<close>

subsection \<open>Allocations that succeed\<close>

text \<open>What an allocation of so many bytes may need of the arena.\<close>

definition heap_provided :: "u64 \<Rightarrow> heap_state \<Rightarrow> bool" where
  "heap_provided n h \<longleftrightarrow> mappable (4 * heap_pages n) (paging (arena h)) \<and>
     snd (ArenaReserve (word_of_nat (heap_pages n)) (arena h)) \<noteq> None"

lemma small_pages: "n \<noteq> 0 \<Longrightarrow> HeapSizeClassFor n \<noteq> HEAP_CLASS_COUNT \<Longrightarrow> heap_pages n = 1"
proof -
  assume n: "n \<noteq> 0" "HeapSizeClassFor n \<noteq> HEAP_CLASS_COUNT"
  have "unat n \<le> 2048" "0 < unat n"
    using HeapSizeClassFor_fits [OF refl n(2)] class_size_le n(1) by (auto simp: unat_gt_0 intro: le_trans)
  then show ?thesis unfolding heap_pages_def by (intro div_nat_eqI) simp_all
qed

lemma KernelAllocate_returns:
  assumes ok: "heap_ok h live" and adm: "heap_admissible n" and n: "n \<noteq> 0" and room: "heap_provided n h"
  obtains h' a where "KernelAllocate n h = Inr (h', a)" "a \<noteq> 0"
proof -
  obtain slabs large fl used where K: "holds h live slabs large fl used" using ok by (auto simp: heap_ok_holds)
  obtain lv root where B: "arena_backed (arena h) lv root"
    using view_regions(1) [OF holds_view(1) [OF K]] by (auto simp: pages_ok_def)
  let ?c = "HeapSizeClassFor n"
  show thesis
  proof (cases "?c = HEAP_CLASS_COUNT")
    case True
    have fits: "\<not> SIZE_MAX - HEAP_HEADER_SIZE - (PAGE_SIZE - 1) < n"
    proof -
      have "unat n + 32 + 4095 < 2 ^ 32 * 4096"
        using adm unfolding heap_admissible_def heap_pages_def by (simp add: div_less_iff_less_mult)
      then show ?thesis by (simp add: not_less word_le_nat_alt SIZE_MAX_def HEAP_HEADER_SIZE_def PAGE_SIZE_def)
    qed
    let ?k = "AlignUp (n + HEAP_HEADER_SIZE) PAGE_SIZE div PAGE_SIZE"
    have k: "unat ?k = heap_pages n" by (rule large_count [OF fits])
    then have "?k = word_of_nat (heap_pages n)" by (metis word_unat_eq_iff unat_u64 unat_word_of_nat mod_less)
    then obtain st p where "KernelPagesAllocate ?k (arena h) = Inr (st, p)" "p \<noteq> 0"
      using KernelPagesAllocate_returns [OF B large_admissible(1) [OF adm fits]] room k by (metis heap_provided_def)
    moreover from this have "page_ok p"
      by (rule view_obtained(3) [OF holds_view(1) [OF K] large_admissible(1) [OF adm fits]])
    then have "unat (p + HEAP_HEADER_SIZE) = unat p + 32"
      using page_ok_offset [of p 32] by (simp add: HEAP_HEADER_SIZE_def)
    then have "p + HEAP_HEADER_SIZE \<noteq> 0" by auto
    ultimately show thesis
      using that True n fits by (simp add: KernelAllocate_def KernelAllocateLarge_def Let_def)
  next
    case False
    note c = HeapSizeClassFor_fits [OF refl False]
    have pages: "heap_pages n = 1" by (rule small_pages [OF n False])
    show thesis
    proof (cases "fl ?c = []")
      case True
      obtain st p where alloc: "KernelPagesAllocate 1 (arena h) = Inr (st, p)" "p \<noteq> 0"
        by (rule KernelPagesAllocate_returns [OF B one_admissible]) (use room pages in \<open>simp_all add: heap_provided_def\<close>)
      note C = carve_holds [OF K c(1) alloc]
      obtain h' a where T: "TakeObject ?c (CarveSlab ?c p (h\<lparr>arena := st\<rparr>)) = (h', a)" by fastforce
      have "a \<noteq> 0" using take_gains [OF C(1) c(1) _ c(2) n T] slots_nonempty [OF c(1)] by simp
      then show thesis
        using that T alloc n False True list_head_empty [OF K c(1)]
        by (simp add: KernelAllocate_def HeapRefillClass_def Let_def)
    next
      case fl: False
      obtain h' a where T: "TakeObject ?c h = (h', a)" by fastforce
      then have "a \<noteq> 0" using take_gains [OF K c(1) fl c(2) n T] by simp
      then show thesis
        using that T n False fl list_head_empty [OF K c(1)] by (simp add: KernelAllocate_def Let_def)
    qed
  qed
qed

lemma KernelAllocateZeroed_returns:
  assumes "heap_ok h live" "heap_admissible n" "n \<noteq> 0" "heap_provided n h"
  obtains h' a where "KernelAllocateZeroed n h = Inr (h', a)" "a \<noteq> 0"
proof -
  obtain g a where "KernelAllocate n h = Inr (g, a)" "a \<noteq> 0" by (rule KernelAllocate_returns [OF assms])
  then show thesis using that by (simp add: KernelAllocateZeroed_def)
qed

text \<open>A heap over the small machine.\<close>

definition specimen_heap :: heap_state where
  "specimen_heap = KernelHeapInitialise
     \<lparr>HeapClassFreeList = [], HeapSlabPageCount = 0, HeapLargePageCount = 0, HeapLiveAllocationCount = 0,
      heap_memory = (\<lambda>_. 0), arena = specimen_arena\<rparr>"

lemma specimen_heap_arena [simp]: "arena specimen_heap = specimen_arena"
  by (simp add: specimen_heap_def KernelHeapInitialise_def)

lemma specimen_pages_ok: "pages_ok specimen_arena {}"
  unfolding pages_ok_def using specimen_backed by blast

lemma specimen_heap_ok: "heap_ok specimen_heap {}"
  unfolding specimen_heap_def by (rule KernelHeapInitialise_ok) (simp add: specimen_pages_ok)

lemma specimen_heap_provided:
  assumes "heap_pages n = 1 \<or> heap_pages n = 2"
  shows "heap_provided n specimen_heap"
  unfolding heap_provided_def specimen_heap_arena
proof
  show "mappable (4 * heap_pages n) (paging specimen_arena)" using assms by (auto intro: specimen_mappable)
  have "(word_of_nat (heap_pages n) :: u64) < ARENA_PAGE_CAPACITY" using assms by (auto simp: arena_limits word_less_nat_alt)
  from fresh_reserves [OF this, of "specimen_paging 1 0x104007"]
  show "snd (ArenaReserve (word_of_nat (heap_pages n)) specimen_arena) \<noteq> None"
    by (auto simp: specimen_arena_def)
qed

text \<open>C10: With a few free frames and address space in the arena, an allocation of any size the
  header can record returns a block: aligned to 16 bytes, inside the arena, clear of every block
  outstanding, whose contents it leaves as they were; and the heap stays in order, its count of
  live allocations the number of blocks outstanding.\<close>

theorem heap_allocation_returns:
  assumes ok: "heap_ok h live" and adm: "heap_admissible n" and n: "n \<noteq> 0" and room: "heap_provided n h"
  shows "\<exists>h' a. KernelAllocate n h = Inr (h', a) \<and> a \<noteq> 0 \<and> heap_ok h' (insert (a, n) live) \<and>
    16 dvd unat a \<and> block_bytes a n \<subseteq> {unat KERNEL_ARENA_BASE..<arena_end} \<and>
    (\<forall>(b, k) \<in> live. block_bytes a n \<inter> block_bytes b k = {} \<and>
       (\<forall>x. unat x \<in> block_bytes b k \<longrightarrow> heap_memory h' x = heap_memory h x))"
proof -
  obtain h' a where run: "KernelAllocate n h = Inr (h', a)" "a \<noteq> 0"
    by (rule KernelAllocate_returns [OF ok adm n room])
  have G: "gained h h' live a n" using KernelAllocate_gains [OF ok adm run(1)] run(2) by simp
  then have "block_proper a n" by (simp add: gained_def)
  then have "16 dvd unat a" "block_bytes a n \<subseteq> {unat KERNEL_ARENA_BASE..<arena_end}"
    by (auto simp: block_proper_def block_bytes_def byte_range_def)
  with run G show ?thesis unfolding gained_def kept_def by blast
qed

theorem heap_allocation_returns_witness:
  "\<exists>h' a. KernelAllocate 100 specimen_heap = Inr (h', a) \<and> a \<noteq> 0 \<and> heap_ok h' {(a, 100)}"
proof -
  have "heap_pages 100 = 1" by (simp add: heap_pages_def)
  then show ?thesis
    using heap_allocation_returns [OF specimen_heap_ok, of 100] specimen_heap_provided [of 100]
    by (fastforce simp: heap_admissible_def)
qed

text \<open>C11: Along any history of allocations and releases from an initialised heap, the blocks
  outstanding overlap nowhere, each can be released without panicking, its release leaves the
  contents of the others as they were, and the heap counts exactly the blocks outstanding.\<close>

theorem heap_history:
  assumes start: "pages_ok (arena h) {}"
    and history: "(block_step KernelAllocate (\<lambda>a n. KernelFree a) heap_admissible)\<^sup>*\<^sup>*
      (KernelHeapInitialise h, {}) (s, live)"
  shows "(\<forall>(a, n) \<in> live. \<exists>s'. KernelFree a s = Inr s' \<and>
      (\<forall>(b, k) \<in> live. b \<noteq> a \<longrightarrow> block_bytes a n \<inter> block_bytes b k = {} \<and>
         (\<forall>x. unat x \<in> block_bytes b k \<longrightarrow> heap_memory s' x = heap_memory s x))) \<and>
    inj_on fst live \<and> HeapLiveAllocationCount s = word_of_nat (card live)"
proof -
  have ok: "heap_ok s live"
    using heap.ok_reachable [OF history] KernelHeapInitialise_ok [OF start] by simp
  then obtain slabs large fl used where K: "holds s live slabs large fl used" by (auto simp: heap_ok_holds)
  have "\<exists>s'. KernelFree a s = Inr s' \<and> (\<forall>(b, k) \<in> live. b \<noteq> a \<longrightarrow> block_bytes a n \<inter> block_bytes b k = {} \<and>
      (\<forall>x. unat x \<in> block_bytes b k \<longrightarrow> heap_memory s' x = heap_memory s x))" if r: "(a, n) \<in> live" for a n
  proof -
    obtain s' where F: "KernelFree a s = Inr s'" "kept s s' (live - {(a, n)})" using KernelFree_returns [OF ok r] by blast
    have "block_bytes a n \<inter> block_bytes b k = {}" if "(b, k) \<in> live" "b \<noteq> a" for b k
      by (rule held_apart [OF holds_view(1) [OF K] holds_view(2) [OF K r] holds_view(2) [OF K that(1)]]) (use that in simp)
    then show ?thesis using F unfolding kept_def by blast
  qed
  then show ?thesis using holds_view(3,5) [OF K] by auto
qed

theorem heap_history_witness:
  "\<exists>s a s'. KernelAllocate 5000 specimen_heap = Inr (s, a) \<and> KernelFree a s = Inr s'"
proof -
  have p: "heap_pages 5000 = 2" by (simp add: heap_pages_def)
  then have adm: "heap_admissible 5000" by (simp add: heap_admissible_def)
  obtain s a where run: "KernelAllocate 5000 specimen_heap = Inr (s, a)" "a \<noteq> 0"
    by (rule KernelAllocate_returns [OF specimen_heap_ok adm]) (use specimen_heap_provided [of 5000] p in simp_all)
  have "(block_step KernelAllocate (\<lambda>a n. KernelFree a) heap_admissible)\<^sup>*\<^sup>* (specimen_heap, {}) (s, {(a, 5000)})"
    by (rule r_into_rtranclp, rule block_step.obtain_pages) (use adm run in simp_all)
  then have "\<exists>s'. KernelFree a s = Inr s'"
    using heap_history [of "\<lparr>HeapClassFreeList = [], HeapSlabPageCount = 0, HeapLargePageCount = 0,
      HeapLiveAllocationCount = 0, heap_memory = (\<lambda>_. 0), arena = specimen_arena\<rparr>" s "{(a, 5000)}"]
    by (simp add: specimen_heap_def specimen_pages_ok)
  then show ?thesis using run(1) by blast
qed

text \<open>A size that the header and the rounding to pages would carry past the top of a 64-bit
  quantity is refused, by either entry point, and the heap is left untouched.\<close>

theorem heap_refuses_unrepresentable:
  assumes big: "2 ^ 64 \<le> unat n + 32 + 4095"
  shows "KernelAllocate n h = Inr (h, 0) \<and> KernelAllocateZeroed n h = Inr (h, 0)"
proof -
  have n: "unat n \<ge> 2 ^ 64 - 4127" using big by simp
  have "\<not> n \<le> 16" "\<not> n \<le> 32" "\<not> n \<le> 64" "\<not> n \<le> 128" "\<not> n \<le> 256" "\<not> n \<le> 512" "\<not> n \<le> 1024" "\<not> n \<le> 2048"
    using n by (simp_all add: word_le_nat_alt)
  then have "HeapSizeClassFor n = HEAP_CLASS_COUNT" by (simp add: HeapSizeClassFor_def HeapSizeClasses_def)
  moreover have "SIZE_MAX - HEAP_HEADER_SIZE - (PAGE_SIZE - 1) < n"
    using n by (simp add: word_less_nat_alt SIZE_MAX_def HEAP_HEADER_SIZE_def PAGE_SIZE_def)
  moreover have "n \<noteq> 0" using n by auto
  ultimately show ?thesis
    by (simp add: KernelAllocate_def KernelAllocateLarge_def KernelAllocateZeroed_def Let_def)
qed

theorem heap_refuses_unrepresentable_witness:
  "KernelAllocate (- 100) specimen_heap = Inr (specimen_heap, 0)"
  using heap_refuses_unrepresentable [of "- 100"] by simp

text \<open>A zeroed allocation that succeeds returns a block every byte of which reads zero, and
  still changes nothing in the blocks others hold.\<close>

theorem zeroed_allocation_is_zero:
  assumes ok: "heap_ok h live" and adm: "heap_admissible n" and n: "n \<noteq> 0" and room: "heap_provided n h"
  shows "\<exists>h' a. KernelAllocateZeroed n h = Inr (h', a) \<and> a \<noteq> 0 \<and> heap_ok h' (insert (a, n) live) \<and>
    (\<forall>x. unat x \<in> block_bytes a n \<longrightarrow> heap_memory h' x = 0) \<and>
    (\<forall>(b, k) \<in> live. \<forall>x. unat x \<in> block_bytes b k \<longrightarrow> heap_memory h' x = heap_memory h x)"
proof -
  obtain h' a where run: "KernelAllocateZeroed n h = Inr (h', a)" "a \<noteq> 0"
    by (rule KernelAllocateZeroed_returns [OF ok adm n room])
  then have "gained h h' live a n" "zeroed h' a n" using KernelAllocateZeroed_gains [OF ok adm run(1)] by simp_all
  with run show ?thesis unfolding gained_def zeroed_def kept_def by blast
qed

theorem zeroed_allocation_is_zero_witness:
  "\<exists>h' a. KernelAllocateZeroed 3000 specimen_heap = Inr (h', a) \<and> a \<noteq> 0 \<and>
     (\<forall>x. unat x \<in> block_bytes a 3000 \<longrightarrow> heap_memory h' x = 0)"
proof -
  have "heap_pages 3000 = 1" by (simp add: heap_pages_def)
  then show ?thesis
    using zeroed_allocation_is_zero [OF specimen_heap_ok, of 3000] specimen_heap_provided [of 3000]
    by (fastforce simp: heap_admissible_def)
qed

subsection \<open>Growing tables\<close>

text \<open>C12: While the directory has room and the heap can supply a chunk, a growing table gains one
  chunk: every entry keeps its address, no two entries of the grown table overlap, and each new
  entry reads as zeros.\<close>

theorem growing_table_grows:
  assumes T: "table_well t live" and ok: "heap_ok h live" and room: "chunk_count t < 256"
    and provided: "heap_provided (entry_size t * chunk_entries t) h"
  shows "\<exists>h' t'. GrowingTableGrow False t h = Inr (h', t', True) \<and>
    unat (GrowingTableCapacity t') = unat (GrowingTableCapacity t) + unat (chunk_entries t) \<and>
    (\<forall>i < GrowingTableCapacity t. GrowingTableAt t' i = GrowingTableAt t i) \<and>
    (\<forall>i < GrowingTableCapacity t'. \<forall>j < GrowingTableCapacity t'. i \<noteq> j \<longrightarrow>
       entry_bytes t' i \<inter> entry_bytes t' j = {}) \<and>
    (\<forall>i < GrowingTableCapacity t'. GrowingTableCapacity t \<le> i \<longrightarrow>
       (\<forall>x. unat x \<in> entry_bytes t' i \<longrightarrow> heap_memory h' x = 0))"
proof -
  let ?n = "entry_size t * chunk_entries t"
  have n: "?n \<noteq> 0" using table_limits(3,5,6) [OF T] by (metis le_zero_eq not_gr_zero unat_0)
  obtain h' c where Z: "KernelAllocateZeroed ?n h = Inr (h', c)" "c \<noteq> 0"
    by (rule KernelAllocateZeroed_returns [OF ok chunk_admissible [OF T] n provided])
  have "\<not> GROWING_TABLE_DIRECTORY_CAPACITY \<le> chunk_count t"
    using room by (simp add: GROWING_TABLE_DIRECTORY_CAPACITY_def not_le)
  then have run: "GrowingTableGrow False t h = Inr (h', grown_table t c, True)"
    using Z by (simp add: GrowingTableGrow_def grown_table_def Let_def)
  let ?t = "grown_table t c"
  obtain d where d: "?t = grown_table t d" "gained h h' live d ?n" "zeroed h' d ?n" "table_well ?t (insert (d, ?n) live)"
    using GrowingTableGrow_effect(2) [OF T ok run] by blast
  have len: "unat (chunk_count t) < length (chunks t)" using T room by (simp add: table_well_def word_less_nat_alt)
  have "chunks ?t ! unat (chunk_count t) = chunks (grown_table t d) ! unat (chunk_count t)" using d(1) by simp
  then have dc: "d = c" using len by (simp add: grown_table_def)
  have ok': "heap_ok h' (insert (d, ?n) live)" using d(2) by (simp add: gained_def)
  note cap = grown_capacity [OF T room, of c]
  have zero: "heap_memory h' x = 0"
    if i: "i < GrowingTableCapacity ?t" "GrowingTableCapacity t \<le> i" and x: "unat x \<in> entry_bytes ?t i" for i x
  proof -
    have e: "chunk_entries ?t = chunk_entries t" "entry_size ?t = entry_size t" by (simp_all add: grown_table_def)
    have "unat i div unat (chunk_entries t) = unat (chunk_count t)"
      using i cap table_limits(7) [OF T] by (intro div_nat_eqI) (simp_all add: word_less_nat_alt word_le_nat_alt algebra_simps)
    then have "chunks ?t ! (unat i div unat (chunk_entries ?t)) = c" using len by (simp add: e) (simp add: grown_table_def)
    then have "entry_bytes ?t i \<subseteq> byte_range c (chunk_bytes ?t)"
      using entry_place(2,3) [OF d(4) ok' i(1)] by (auto simp: entry_bytes_def byte_range_def algebra_simps)
    then have "unat x \<in> block_bytes c ?n"
      using x table_limits(5) [OF T] by (auto simp: block_bytes_def chunk_bytes_def e)
    then show ?thesis using d(3) dc by (simp add: zeroed_def)
  qed
  show ?thesis
    using run cap grown_entries [OF T ok _ room] entries_apart [OF d(4) ok'] zero by blast
qed

definition specimen_table :: GrowingTable where
  "specimen_table = GROWING_TABLE_INITIALISER ''pipe table'' 64 0xFFFFFFFF80100000 4"

lemma specimen_table_well: "table_well specimen_table {}"
  by (simp add: table_well_def specimen_table_def GROWING_TABLE_INITIALISER_def chunk_bytes_def byte_range_def
      arena_limits)

theorem growing_table_grows_witness:
  "\<exists>h' t'. GrowingTableGrow False specimen_table specimen_heap = Inr (h', t', True) \<and>
     GrowingTableAt t' 3 = 0xFFFFFFFF801000C0"
proof -
  have s: "entry_size specimen_table * chunk_entries specimen_table = 256" "chunk_count specimen_table < 256"
    "3 < GrowingTableCapacity specimen_table" "GrowingTableAt specimen_table 3 = 0xFFFFFFFF801000C0"
    by (simp_all add: specimen_table_def GROWING_TABLE_INITIALISER_def GrowingTableCapacity_def GrowingTableAt_def)
  have "heap_pages 256 = 1" by (simp add: heap_pages_def)
  then show ?thesis
    using growing_table_grows [OF specimen_table_well specimen_heap_ok s(2)] s specimen_heap_provided [of 256] by auto
qed

end
