(* ===== verification/Fifo.thy ===== *)
theory Fifo
  imports OxysPrelude
begin

text \<open>
  First in, first out: the contract that the run queues of \<open>kernel/proc/sched.c\<close> and the
  pipes of \<open>kernel/fs/vfs/pipe.c\<close> share.  What has been taken, followed by what is still
  held, is what was held and has been put, in order, whatever the interleaving.
\<close>

inductive fifo_step ::
  "('b \<Rightarrow> 's \<Rightarrow> 's) \<Rightarrow> ('c \<Rightarrow> 's \<Rightarrow> 's \<times> 'a list) \<Rightarrow> ('b \<Rightarrow> 's \<Rightarrow> bool) \<Rightarrow> ('b \<Rightarrow> 'a list) \<Rightarrow>
   's \<times> 'a list \<times> 'a list \<Rightarrow> 's \<times> 'a list \<times> 'a list \<Rightarrow> bool"
  for put take_from admits items
  where
    put_step: "admits b s \<Longrightarrow>
      fifo_step put take_from admits items (s, given, taken) (put b s, given @ items b, taken)"
  | take_step: "take_from c s = (s', xs) \<Longrightarrow>
      fifo_step put take_from admits items (s, given, taken) (s', given, taken @ xs)"

locale fifo =
  fixes put :: "'b \<Rightarrow> 's \<Rightarrow> 's" and take_from :: "'c \<Rightarrow> 's \<Rightarrow> 's \<times> 'a list"
    and admits :: "'b \<Rightarrow> 's \<Rightarrow> bool" and items :: "'b \<Rightarrow> 'a list"
    and held :: "'s \<Rightarrow> 'a list" and ok :: "'s \<Rightarrow> bool"
  assumes put_ok: "ok s \<Longrightarrow> admits b s \<Longrightarrow> ok (put b s)"
    and put_held: "ok s \<Longrightarrow> admits b s \<Longrightarrow> held (put b s) = held s @ items b"
    and take_ok: "ok s \<Longrightarrow> take_from c s = (s', xs) \<Longrightarrow> ok s'"
    and take_held: "ok s \<Longrightarrow> take_from c s = (s', xs) \<Longrightarrow> held s = xs @ held s'"
begin

lemma step_keeps:
  assumes "fifo_step put take_from admits items c c'"
    and "ok (fst c)" "snd (snd c) @ held (fst c) = start @ fst (snd c)"
  shows "ok (fst c') \<and> snd (snd c') @ held (fst c') = start @ fst (snd c')"
  using assms
proof (induction rule: fifo_step.induct)
  case (put_step b s given taken)
  then show ?case using put_ok put_held by simp
next
  case (take_step c s s' xs given taken)
  then show ?case using take_ok take_held by fastforce
qed

lemma history:
  assumes "(fifo_step put take_from admits items)\<^sup>*\<^sup>* (s0, [], []) (s, given, taken)" "ok s0"
  shows "ok s \<and> taken @ held s = held s0 @ given"
proof -
  have "ok (fst c) \<and> snd (snd c) @ held (fst c) = held s0 @ fst (snd c)"
    if "(fifo_step put take_from admits items)\<^sup>*\<^sup>* (s0, [], []) c" for c
    using that
  proof (induction rule: rtranclp_induct)
    case base
    then show ?case using assms(2) by simp
  next
    case (step y z)
    then show ?case using step_keeps by blast
  qed
  from this [OF assms(1)] show ?thesis by simp
qed

text \<open>So what is taken is a prefix of what was held and put.\<close>

lemma taken_prefix:
  assumes "(fifo_step put take_from admits items)\<^sup>*\<^sup>* (s0, [], []) (s, given, taken)" "ok s0"
  shows "\<exists>rest. held s0 @ given = taken @ rest"
  using history [OF assms] by metis

end

end
