(* ===== verification/Scheduler.thy ===== *)
theory Scheduler
  imports Fifo
begin

text \<open>
  The scheduler of \<open>kernel/proc/sched.c\<close>: the run queue of each processor, linked through the
  threads; the choice of a queue; rescheduling; and the wait channels threads sleep upon.
  Threads are named by their slot in the thread table, which stands for their address.  What
  runs is a step at a time: a reschedule changes which thread is current, and the thread left
  continues in the step that finds it current again.

  The interrupt flag is left out, and so is the lock of a run queue, which the source holds
  throughout \<open>SchedulerEnqueue\<close>, \<open>SchedulerDequeue\<close> and \<open>SchedulerWithdraw\<close> and nowhere else: each
  of those is one step.  A reschedule, a sleep and a wake are no critical section against other
  processors.  Each is here the composition of the parts between which others may act
  (\<open>SchedulerDequeue\<close>, \<open>RescheduleJudge\<close> and \<open>SchedulerSwitchTo\<close>; \<open>SleepMark\<close> and \<open>SleepResume\<close>;
  \<open>WakeOne\<close>), that is the operation with no other processor in between; the interleaving of the
  parts upon several processors is the step relation of \<open>SchedulerInterleaving\<close>.
\<close>

subsection \<open>Threads and queues\<close>

datatype ThreadState = THREAD_UNUSED | THREAD_CREATED | THREAD_READY | THREAD_RUNNING | THREAD_BLOCKED | THREAD_EXITED

text \<open>The fields of a thread that scheduling uses; a channel is an address, 0 where there is none.\<close>

record Thread =
  thread_used :: bool
  thread_state :: ThreadState
  queue_next :: "nat option"
  affinity :: u64
  processor :: nat
  queued :: bool
  wait_channel :: u64
  slices :: u64
  preemptions :: u64
  has_owner :: bool
  adopted :: bool

record SchedulerQueue =
  queue_head :: "nat option"
  queue_tail :: "nat option"
  queue_count :: u32

definition PER_CPU_MAXIMUM :: nat where "PER_CPU_MAXIMUM = 64"

record sched_state =
  threads :: "Thread list"
  SchedulerQueues :: "SchedulerQueue list"
  SchedulerIdleThreads :: "nat option list"
  ProcessCurrentThreads :: "nat option list"
  SchedulerPrepared :: bool
  SchedulerAdmissions :: u64
  SchedulerSwitches :: u64
  SchedulerPreemptions :: u64
  SchedulerIdles :: u64
  PerCpuOnlineCount :: nat
  SchedulerTimerStarted :: "bool list"

definition set_thread :: "nat \<Rightarrow> (Thread \<Rightarrow> Thread) \<Rightarrow> sched_state \<Rightarrow> sched_state" where
  "set_thread t f s = s\<lparr>threads := (threads s)[t := f (threads s ! t)]\<rparr>"

definition set_queue :: "nat \<Rightarrow> (SchedulerQueue \<Rightarrow> SchedulerQueue) \<Rightarrow> sched_state \<Rightarrow> sched_state" where
  "set_queue p f s = s\<lparr>SchedulerQueues := (SchedulerQueues s)[p := f (SchedulerQueues s ! p)]\<rparr>"

definition SchedulerEnqueue :: "nat \<Rightarrow> nat \<Rightarrow> sched_state \<Rightarrow> sched_state" where
  "SchedulerEnqueue p t s =
     (let s = set_thread t (\<lambda>th. th\<lparr>queue_next := None, processor := p, queued := True,
                thread_state := THREAD_READY\<rparr>) s;
          s = (case queue_tail (SchedulerQueues s ! p) of
                 None \<Rightarrow> set_queue p (\<lambda>q. q\<lparr>queue_head := Some t\<rparr>) s
               | Some rear \<Rightarrow> set_thread rear (\<lambda>th. th\<lparr>queue_next := Some t\<rparr>) s)
      in set_queue p (\<lambda>q. q\<lparr>queue_tail := Some t, queue_count := queue_count q + 1\<rparr>) s)"

definition SchedulerDequeue :: "nat \<Rightarrow> sched_state \<Rightarrow> sched_state \<times> nat option" where
  "SchedulerDequeue p s =
     (case queue_head (SchedulerQueues s ! p) of
        None \<Rightarrow> (s, None)
      | Some t \<Rightarrow>
          let next = queue_next (threads s ! t);
              s = set_queue p (\<lambda>q. q\<lparr>queue_head := next,
                    queue_tail := (if next = None then None else queue_tail q),
                    queue_count := queue_count q - 1\<rparr>) s
          in (set_thread t (\<lambda>th. th\<lparr>queue_next := None, queued := False\<rparr>) s, Some t))"

definition SCHED_AFFINITY_OF :: "nat \<Rightarrow> u64" where
  "SCHED_AFFINITY_OF index = push_bit index 1"

fun ChooseFrom :: "nat list \<Rightarrow> u64 \<Rightarrow> sched_state \<Rightarrow> nat \<times> u32 \<Rightarrow> nat \<times> u32" where
  "ChooseFrom [] allowed s (chosen, shortest) = (chosen, shortest)"
| "ChooseFrom (index # indexes) allowed s (chosen, shortest) =
     ChooseFrom indexes allowed s
       (if allowed AND SCHED_AFFINITY_OF index = 0 then (chosen, shortest)
        else
          let count = queue_count (SchedulerQueues s ! index)
          in if count < shortest then (index, count) else (chosen, shortest))"

definition SchedulerChooseProcessor :: "u64 \<Rightarrow> sched_state \<Rightarrow> nat" where
  "SchedulerChooseProcessor allowed s =
     fst (ChooseFrom [0..<min (PerCpuOnlineCount s) PER_CPU_MAXIMUM] allowed s (PER_CPU_MAXIMUM, 0xFFFFFFFF))"

subsection \<open>Rescheduling\<close>

text \<open>
  The change of thread of \<open>ThreadSwitchTo\<close>: the states and the current thread.  The address
  space, the registers and the interrupt state that change with it are not modelled.
\<close>

definition ThreadSwitchTo :: "nat \<Rightarrow> nat \<Rightarrow> nat \<Rightarrow> sched_state \<Rightarrow> sched_state" where
  "ThreadSwitchTo cpu from_thread to_thread s =
     (if from_thread = to_thread then s
      else
        let s = set_thread from_thread (\<lambda>th. th\<lparr>thread_state :=
                  (if thread_state th = THREAD_RUNNING then THREAD_READY else thread_state th)\<rparr>) s;
            s = set_thread to_thread (\<lambda>th. th\<lparr>thread_state := THREAD_RUNNING\<rparr>) s
        in s\<lparr>ProcessCurrentThreads := (ProcessCurrentThreads s)[cpu := Some to_thread]\<rparr>)"

definition SchedulerSwitchTo :: "nat \<Rightarrow> nat \<Rightarrow> nat option \<Rightarrow> sched_state \<Rightarrow> sched_state" where
  "SchedulerSwitchTo cpu current next s =
     (case next of
        None \<Rightarrow> s
      | Some t \<Rightarrow>
          if t = current then s
          else ThreadSwitchTo cpu current t
                 (set_thread t (\<lambda>th. th\<lparr>slices := slices th + 1\<rparr>)
                   (s\<lparr>SchedulerSwitches := SchedulerSwitches s + 1\<rparr>)))"

text \<open>
  \<open>SchedulerRescheduleLocked\<close> takes a thread from the queue of its processor, judges whether to
  give way to it, and switches.  The three are definitions of their own because other processors
  may act between them: only the queue is locked, and interrupts are masked upon this processor
  alone.  \<open>RescheduleJudge\<close> answers \<open>None\<close> where the source returns without a switch.
\<close>

definition RescheduleJudge :: "nat \<Rightarrow> bool \<Rightarrow> nat \<Rightarrow> nat option \<Rightarrow> sched_state \<Rightarrow> sched_state \<times> nat option option" where
  "RescheduleJudge cpu preempted current next s =
     (let idle = SchedulerIdleThreads s ! cpu
      in if next = None \<and> Some current = idle then (s\<lparr>SchedulerIdles := SchedulerIdles s + 1\<rparr>, None)
         else if next = None \<and> thread_state (threads s ! current) = THREAD_RUNNING then (s, None)
         else
           let next = (if next = None then idle else next);
               s = (if preempted
                    then set_thread current (\<lambda>th. th\<lparr>preemptions := preemptions th + 1\<rparr>)
                           (s\<lparr>SchedulerPreemptions := SchedulerPreemptions s + 1\<rparr>)
                    else s);
               s = (if Some current \<noteq> idle \<and> thread_state (threads s ! current) = THREAD_RUNNING
                    then SchedulerEnqueue cpu current s else s)
           in (s, Some next))"

definition SchedulerRescheduleLocked :: "nat \<Rightarrow> bool \<Rightarrow> sched_state \<Rightarrow> sched_state" where
  "SchedulerRescheduleLocked cpu preempted s =
     (case ProcessCurrentThreads s ! cpu of
        None \<Rightarrow> s
      | Some current \<Rightarrow>
          case SchedulerDequeue cpu s of (s, next) \<Rightarrow>
          case RescheduleJudge cpu preempted current next s of
            (s, None) \<Rightarrow> s
          | (s, Some next) \<Rightarrow> SchedulerSwitchTo cpu current next s)"

subsection \<open>The interface\<close>

definition SchedulerAdmit :: "nat option \<Rightarrow> sched_state \<Rightarrow> sched_state \<times> bool" where
  "SchedulerAdmit thread s =
     (case thread of
        None \<Rightarrow> (s, False)
      | Some t \<Rightarrow>
          let th = threads s ! t
          in if \<not> thread_used th \<or> queued th then (s, False)
             else if thread_state th = THREAD_EXITED \<or> thread_state th = THREAD_UNUSED then (s, False)
             else
               let p = SchedulerChooseProcessor (affinity th) s
               in if PER_CPU_MAXIMUM \<le> p then (s, False)
                  else
                    let s = SchedulerEnqueue p t s
                    in (s\<lparr>SchedulerAdmissions := SchedulerAdmissions s + 1\<rparr>, True))"

definition SchedulerYield :: "nat \<Rightarrow> sched_state \<Rightarrow> sched_state" where
  "SchedulerYield cpu s =
     (if \<not> SchedulerPrepared s then s else SchedulerRescheduleLocked cpu False s)"

definition SchedulerBlockCurrent :: "nat \<Rightarrow> sched_state \<Rightarrow> sched_state" where
  "SchedulerBlockCurrent cpu s =
     (if \<not> SchedulerPrepared s then s
      else case ProcessCurrentThreads s ! cpu of
             None \<Rightarrow> s
           | Some current \<Rightarrow>
               if Some current = SchedulerIdleThreads s ! cpu then s
               else SchedulerRescheduleLocked cpu False
                      (set_thread current (\<lambda>th. th\<lparr>thread_state := THREAD_BLOCKED\<rparr>) s))"

definition SchedulerExitCurrent :: "nat \<Rightarrow> sched_state \<Rightarrow> sched_state outcome" where
  "SchedulerExitCurrent cpu s =
     (let s' = SchedulerRescheduleLocked cpu False s
      in if ProcessCurrentThreads s' ! cpu = ProcessCurrentThreads s ! cpu
         then KernelPanic ''A thread ended with nothing to give the processor to.''
         else Inr s')"

text \<open>
  The walk that unlinks a thread: \<open>previous\<close> is the thread before the one reached.  It follows
  links, so that it ends is a theorem and not a matter of its form.
\<close>

definition Unlink :: "nat \<Rightarrow> nat option \<Rightarrow> nat \<Rightarrow> sched_state \<Rightarrow> sched_state" where
  "Unlink p previous w s =
     (let next = queue_next (threads s ! w);
          s = (case previous of
                 None \<Rightarrow> set_queue p (\<lambda>q. q\<lparr>queue_head := next\<rparr>) s
               | Some before \<Rightarrow> set_thread before (\<lambda>th. th\<lparr>queue_next := next\<rparr>) s);
          s = set_queue p (\<lambda>q. q\<lparr>queue_tail := (if queue_tail q = Some w then previous else queue_tail q),
                queue_count := queue_count q - 1\<rparr>) s
      in set_thread w (\<lambda>th. th\<lparr>queue_next := None, queued := False\<rparr>) s)"

partial_function (option) WithdrawWalk ::
  "nat \<Rightarrow> nat \<Rightarrow> nat option \<Rightarrow> nat option \<Rightarrow> sched_state \<Rightarrow> (sched_state \<times> bool) option" where
  "WithdrawWalk p t previous walk s =
     (case walk of
        None \<Rightarrow> Some (s, False)
      | Some w \<Rightarrow>
          if w \<noteq> t then WithdrawWalk p t (Some w) (queue_next (threads s ! w)) s
          else Some (Unlink p previous w s, True))"

definition SchedulerWithdraw :: "nat option \<Rightarrow> sched_state \<Rightarrow> (sched_state \<times> bool) option" where
  "SchedulerWithdraw thread s =
     (case thread of
        None \<Rightarrow> Some (s, False)
      | Some t \<Rightarrow>
          if \<not> queued (threads s ! t) \<or> PER_CPU_MAXIMUM \<le> processor (threads s ! t) then Some (s, False)
          else
            let p = processor (threads s ! t)
            in WithdrawWalk p t None (queue_head (SchedulerQueues s ! p)) s)"

subsection \<open>Wait channels\<close>

definition SchedulerCanSleep :: "nat \<Rightarrow> sched_state \<Rightarrow> bool" where
  "SchedulerCanSleep cpu s \<longleftrightarrow> SchedulerPrepared s \<and> ProcessCurrentThreads s ! cpu \<noteq> None \<and>
     ProcessCurrentThreads s ! cpu \<noteq> SchedulerIdleThreads s ! cpu"

text \<open>
  \<open>SchedulerSleep\<close> in its parts: the marks, the reschedule, and what the thread does where it runs
  again, which is a later step (\<open>SleepResume\<close>) unless there was nothing to switch to.
\<close>

definition SleepMark :: "nat \<Rightarrow> u64 \<Rightarrow> sched_state \<Rightarrow> sched_state" where
  "SleepMark cpu channel s =
     (case ProcessCurrentThreads s ! cpu of
        None \<Rightarrow> s
      | Some current \<Rightarrow>
          set_thread current (\<lambda>th. th\<lparr>wait_channel := channel, thread_state := THREAD_BLOCKED\<rparr>) s)"

definition SleepBegin :: "nat \<Rightarrow> u64 \<Rightarrow> sched_state \<Rightarrow> sched_state" where
  "SleepBegin cpu channel s = SchedulerRescheduleLocked cpu False (SleepMark cpu channel s)"

definition SleepResume :: "nat \<Rightarrow> sched_state \<Rightarrow> sched_state" where
  "SleepResume cpu s =
     (case ProcessCurrentThreads s ! cpu of
        None \<Rightarrow> s
      | Some current \<Rightarrow>
          set_thread current (\<lambda>th. th\<lparr>wait_channel := 0, thread_state := THREAD_RUNNING\<rparr>) s)"

definition SchedulerSleep :: "nat \<Rightarrow> u64 \<Rightarrow> sched_state \<Rightarrow> sched_state" where
  "SchedulerSleep cpu channel s =
     (if \<not> SchedulerCanSleep cpu s then s
      else
        let s' = SleepBegin cpu channel s
        in if ProcessCurrentThreads s' ! cpu = ProcessCurrentThreads s ! cpu then SleepResume cpu s' else s')"

definition WakeOne :: "u64 \<Rightarrow> nat \<Rightarrow> sched_state \<times> nat \<Rightarrow> sched_state \<times> nat" where
  "WakeOne channel t c =
     (let (s, woken) = c; th = threads s ! t
      in if \<not> thread_used th \<or> thread_state th \<noteq> THREAD_BLOCKED \<or> wait_channel th \<noteq> channel then c
         else
           let (s, admitted) = SchedulerAdmit (Some t) (set_thread t (\<lambda>th. th\<lparr>wait_channel := 0\<rparr>) s)
           in (s, if admitted then woken + 1 else woken))"

definition SchedulerWake :: "u64 \<Rightarrow> sched_state \<Rightarrow> sched_state \<times> nat" where
  "SchedulerWake channel s =
     (if channel = 0 then (s, 0) else fold (WakeOne channel) [0..<length (threads s)] (s, 0))"

text \<open>The address of the channel every poller sleeps upon.\<close>

definition SchedulerWakePollers :: "u64 \<Rightarrow> sched_state \<Rightarrow> sched_state \<times> nat" where
  "SchedulerWakePollers SchedulerPollChannel s = SchedulerWake SchedulerPollChannel s"

definition SchedulerSleepAsPoller :: "u64 \<Rightarrow> nat \<Rightarrow> sched_state \<Rightarrow> sched_state \<times> bool" where
  "SchedulerSleepAsPoller SchedulerPollChannel cpu s =
     (if \<not> SchedulerCanSleep cpu s then (s, False) else (SchedulerSleep cpu SchedulerPollChannel s, True))"

definition SchedulerWakeThread :: "nat option \<Rightarrow> sched_state \<Rightarrow> sched_state \<times> bool" where
  "SchedulerWakeThread thread s =
     (case thread of
        None \<Rightarrow> (s, False)
      | Some t \<Rightarrow>
          if \<not> thread_used (threads s ! t) then (s, False)
          else if thread_state (threads s ! t) = THREAD_BLOCKED \<and> wait_channel (threads s ! t) \<noteq> 0
          then SchedulerAdmit (Some t) (set_thread t (\<lambda>th. th\<lparr>wait_channel := 0\<rparr>) s)
          else (s, False))"

subsection \<open>Affinity and initialisation\<close>

definition SchedulerSetAffinity :: "nat option \<Rightarrow> u64 \<Rightarrow> sched_state \<Rightarrow> sched_state \<times> bool" where
  "SchedulerSetAffinity thread allowed s =
     (case thread of
        None \<Rightarrow> (s, False)
      | Some t \<Rightarrow>
          if \<not> thread_used (threads s ! t) then (s, False)
          else if PER_CPU_MAXIMUM \<le> SchedulerChooseProcessor allowed s then (s, False)
          else (set_thread t (\<lambda>th. th\<lparr>affinity := allowed\<rparr>) s, True))"

definition SchedulerQueueLength :: "nat \<Rightarrow> sched_state \<Rightarrow> u32" where
  "SchedulerQueueLength p s = (if PER_CPU_MAXIMUM \<le> p then 0 else queue_count (SchedulerQueues s ! p))"

text \<open>\<open>calibrated\<close> is what \<open>LocalApicCalibrateTimer\<close> reports of the hardware.\<close>

definition SchedulerInitialise :: "bool \<Rightarrow> sched_state \<Rightarrow> sched_state \<times> bool" where
  "SchedulerInitialise calibrated s =
     (let s = s\<lparr>SchedulerPrepared := False,
            SchedulerQueues := replicate PER_CPU_MAXIMUM \<lparr>queue_head = None, queue_tail = None, queue_count = 0\<rparr>,
            SchedulerIdleThreads := replicate PER_CPU_MAXIMUM None,
            SchedulerTimerStarted := replicate PER_CPU_MAXIMUM False\<rparr>
      in if \<not> calibrated then (s, False) else (s\<lparr>SchedulerPrepared := True\<rparr>, True))"

text \<open>
  The tick.  \<open>locks\<close> is the number of locks the processor holds, \<open>level\<close> the privilege level
  interrupted, and \<open>services\<close> what the bootstrap processor does besides (the terminal, the
  alarms and the display, which are other components).
\<close>

definition SchedulerHandleTick :: "(sched_state \<Rightarrow> sched_state) \<Rightarrow> nat \<Rightarrow> nat \<Rightarrow> nat \<Rightarrow> sched_state \<Rightarrow> sched_state" where
  "SchedulerHandleTick services cpu locks level s =
     (if \<not> SchedulerPrepared s then s
      else if locks \<noteq> 0 then s
      else
        let s = (if cpu = 0 then services s else s)
        in case ProcessCurrentThreads s ! cpu of
             None \<Rightarrow> SchedulerRescheduleLocked cpu True s
           | Some current \<Rightarrow>
               if level = 0 \<and> (has_owner (threads s ! current) \<or> adopted (threads s ! current)) then s
               else SchedulerRescheduleLocked cpu True s)"

text \<open>
  \<open>create\<close> is \<open>ThreadCreateScheduled\<close> of the idle loop, and \<open>started\<close> what
  \<open>LocalApicStartTimer\<close> reports of the hardware.
\<close>

definition SchedulerStartOnThisProcessor ::
  "(sched_state \<Rightarrow> sched_state \<times> nat option) \<Rightarrow> bool \<Rightarrow> nat \<Rightarrow> sched_state \<Rightarrow> sched_state \<times> bool" where
  "SchedulerStartOnThisProcessor create started index s =
     (if \<not> SchedulerPrepared s then (s, False)
      else
        let s = (if SchedulerIdleThreads s ! index = None
                 then case (case ProcessCurrentThreads s ! index of
                              None \<Rightarrow> create s
                            | Some current \<Rightarrow> (s, Some current)) of
                        (s, None) \<Rightarrow> s
                      | (s, Some idle) \<Rightarrow>
                          let s = set_thread idle (\<lambda>th. th\<lparr>affinity := SCHED_AFFINITY_OF index, processor := index\<rparr>) s
                          in s\<lparr>SchedulerIdleThreads := (SchedulerIdleThreads s)[index := Some idle]\<rparr>
                 else s)
        in if \<not> started then (s, False)
           else (s\<lparr>SchedulerTimerStarted := (SchedulerTimerStarted s)[index := True]\<rparr>, True))"

definition SchedulerDetachThisProcessor :: "nat \<Rightarrow> sched_state \<Rightarrow> sched_state" where
  "SchedulerDetachThisProcessor cpu s =
     (if SchedulerIdleThreads s ! cpu = ProcessCurrentThreads s ! cpu
      then s\<lparr>SchedulerIdleThreads := (SchedulerIdleThreads s)[cpu := None]\<rparr> else s)"

text \<open>What the scheduler tells others.\<close>

definition SchedulerAffinity :: "nat option \<Rightarrow> sched_state \<Rightarrow> u64" where
  "SchedulerAffinity thread s = (case thread of None \<Rightarrow> 0 | Some t \<Rightarrow> affinity (threads s ! t))"

definition SchedulerRunningOn :: "nat \<Rightarrow> sched_state \<Rightarrow> nat option" where
  "SchedulerRunningOn p s = (if PER_CPU_MAXIMUM \<le> p then None else ProcessCurrentThreads s ! p)"

end
