(* ===== verification/RunQueues.thy ===== *)
theory RunQueues
  imports Scheduler
begin

text \<open>
  The run queues of \<open>kernel/proc/sched.c\<close> as lists: the links from a queue's head run through
  exactly the threads it holds, its tail and count agree, and a thread marked queued is on the
  queue of its processor and on no other.  Each operation on the links is an operation on those
  lists, and the run queue is an instance of the locale \<open>fifo\<close>.
\<close>

subsection \<open>Reading what was written\<close>

lemma set_thread_at [simp]:
  "threads (set_thread t f s) ! u = (if u = t \<and> t < length (threads s) then f (threads s ! t) else threads s ! u)"
  by (cases "t < length (threads s)") (auto simp: set_thread_def list_update_beyond)

lemma set_thread_fields [simp]:
  "length (threads (set_thread t f s)) = length (threads s)" "SchedulerQueues (set_thread t f s) = SchedulerQueues s"
  "SchedulerIdleThreads (set_thread t f s) = SchedulerIdleThreads s"
  "ProcessCurrentThreads (set_thread t f s) = ProcessCurrentThreads s"
  "SchedulerPrepared (set_thread t f s) = SchedulerPrepared s" "PerCpuOnlineCount (set_thread t f s) = PerCpuOnlineCount s"
  by (simp_all add: set_thread_def)

lemma set_queue_at [simp]:
  "SchedulerQueues (set_queue p f s) ! q =
     (if q = p \<and> p < length (SchedulerQueues s) then f (SchedulerQueues s ! p) else SchedulerQueues s ! q)"
  by (cases "p < length (SchedulerQueues s)") (auto simp: set_queue_def list_update_beyond)

lemma set_queue_fields [simp]:
  "length (SchedulerQueues (set_queue p f s)) = length (SchedulerQueues s)" "threads (set_queue p f s) = threads s"
  "SchedulerIdleThreads (set_queue p f s) = SchedulerIdleThreads s"
  "ProcessCurrentThreads (set_queue p f s) = ProcessCurrentThreads s"
  "SchedulerPrepared (set_queue p f s) = SchedulerPrepared s" "PerCpuOnlineCount (set_queue p f s) = PerCpuOnlineCount s"
  by (simp_all add: set_queue_def)

subsection \<open>Linked segments\<close>

fun seg :: "Thread list \<Rightarrow> nat option \<Rightarrow> nat list \<Rightarrow> nat option \<Rightarrow> bool" where
  "seg ths h [] m \<longleftrightarrow> h = m"
| "seg ths h (x # xs) m \<longleftrightarrow> h = Some x \<and> seg ths (queue_next (ths ! x)) xs m"

lemma seg_append: "seg ths h (xs @ ys) m \<longleftrightarrow> (\<exists>k. seg ths h xs k \<and> seg ths k ys m)"
  by (induction xs arbitrary: h) auto

lemma seg_cong:
  "seg ths h xs m \<Longrightarrow> (\<And>t. t \<in> set xs \<Longrightarrow> queue_next (ths' ! t) = queue_next (ths ! t)) \<Longrightarrow> seg ths' h xs m"
  by (induction xs arbitrary: h) auto

definition queue_is :: "sched_state \<Rightarrow> nat \<Rightarrow> nat list \<Rightarrow> bool" where
  "queue_is s p xs \<longleftrightarrow>
     seg (threads s) (queue_head (SchedulerQueues s ! p)) xs None \<and>
     queue_tail (SchedulerQueues s ! p) = (if xs = [] then None else Some (last xs)) \<and>
     queue_count (SchedulerQueues s ! p) = word_of_nat (length xs) \<and> distinct xs \<and>
     (\<forall>t \<in> set xs. t < length (threads s) \<and> queued (threads s ! t) \<and> processor (threads s ! t) = p)"

definition queues_ok :: "sched_state \<Rightarrow> (nat \<Rightarrow> nat list) \<Rightarrow> bool" where
  "queues_ok s ls \<longleftrightarrow> length (SchedulerQueues s) = PER_CPU_MAXIMUM \<and>
     (\<forall>p < PER_CPU_MAXIMUM. queue_is s p (ls p)) \<and>
     (\<forall>t < length (threads s). queued (threads s ! t) \<longrightarrow>
        processor (threads s ! t) < PER_CPU_MAXIMUM \<and> t \<in> set (ls (processor (threads s ! t))))"

lemma queue_cong:
  assumes "queue_is s p xs" "SchedulerQueues s' ! p = SchedulerQueues s ! p" "length (threads s') = length (threads s)"
    and "\<And>t. t \<in> set xs \<Longrightarrow> queue_next (threads s' ! t) = queue_next (threads s ! t) \<and>
      queued (threads s' ! t) = queued (threads s ! t) \<and> processor (threads s' ! t) = processor (threads s ! t)"
  shows "queue_is s' p xs"
  using assms seg_cong [of "threads s" _ xs None "threads s'"] unfolding queue_is_def by simp

text \<open>What leaves the links, the marks and the queues alone leaves the lists.\<close>

definition same_links :: "sched_state \<Rightarrow> sched_state \<Rightarrow> bool" where
  "same_links s s' \<longleftrightarrow> SchedulerQueues s' = SchedulerQueues s \<and> length (threads s') = length (threads s) \<and>
     (\<forall>t < length (threads s). queue_next (threads s' ! t) = queue_next (threads s ! t) \<and>
        queued (threads s' ! t) = queued (threads s ! t) \<and> processor (threads s' ! t) = processor (threads s ! t))"

lemma same_links_refl [simp]: "same_links s s"
  by (simp add: same_links_def)

lemma same_links_trans: "same_links s r \<Longrightarrow> same_links r u \<Longrightarrow> same_links s u"
  by (simp add: same_links_def)

lemma set_thread_links:
  "queue_next (f (threads s ! t)) = queue_next (threads s ! t) \<Longrightarrow> queued (f (threads s ! t)) = queued (threads s ! t) \<Longrightarrow>
   processor (f (threads s ! t)) = processor (threads s ! t) \<Longrightarrow> same_links s (set_thread t f s)"
  by (simp add: same_links_def)

lemma queues_ok_links:
  assumes Q: "queues_ok s ls" and L: "same_links s s'"
  shows "queues_ok s' ls"
proof -
  have "queue_is s' p (ls p)" if "p < PER_CPU_MAXIMUM" for p
    by (rule queue_cong [of s]) (use Q L that in \<open>auto simp: queues_ok_def same_links_def queue_is_def\<close>)
  then show ?thesis using Q L by (simp add: queues_ok_def same_links_def)
qed

lemma queue_at:
  assumes "queues_ok s ls" "p < PER_CPU_MAXIMUM"
  shows "seg (threads s) (queue_head (SchedulerQueues s ! p)) (ls p) None"
    "queue_tail (SchedulerQueues s ! p) = (if ls p = [] then None else Some (last (ls p)))"
    "queue_count (SchedulerQueues s ! p) = word_of_nat (length (ls p))" "distinct (ls p)"
    "t \<in> set (ls p) \<Longrightarrow> t < length (threads s) \<and> queued (threads s ! t) \<and> processor (threads s ! t) = p"
  using assms unfolding queues_ok_def queue_is_def by blast+

text \<open>A change to one queue: what it must establish of that queue and leave of the others.\<close>

lemma queues_ok_update:
  assumes Q: "queues_ok s ls" and p: "p < PER_CPU_MAXIMUM" and new: "queue_is s' p xs"
    and sizes: "length (SchedulerQueues s') = PER_CPU_MAXIMUM" "length (threads s') = length (threads s)"
    and others: "\<And>q. q \<noteq> p \<Longrightarrow> q < PER_CPU_MAXIMUM \<Longrightarrow> SchedulerQueues s' ! q = SchedulerQueues s ! q"
    and kept: "\<And>t. t < length (threads s) \<Longrightarrow> t \<notin> set xs \<union> set (ls p) \<Longrightarrow>
      queue_next (threads s' ! t) = queue_next (threads s ! t) \<and>
      queued (threads s' ! t) = queued (threads s ! t) \<and> processor (threads s' ! t) = processor (threads s ! t)"
    and gone: "\<And>t. t \<in> set (ls p) - set xs \<Longrightarrow> \<not> queued (threads s' ! t)"
    and came: "\<And>t. t \<in> set xs - set (ls p) \<Longrightarrow> \<not> queued (threads s ! t)"
  shows "queues_ok s' (ls(p := xs))"
proof -
  have "queue_is s' q (ls q)" if q: "q < PER_CPU_MAXIMUM" "q \<noteq> p" for q
  proof (rule queue_cong [of s])
    show "queue_is s q (ls q)" using Q q by (simp add: queues_ok_def)
    fix t assume t: "t \<in> set (ls q)"
    have "t \<notin> set (ls p)" using queue_at(5) [OF Q p, of t] queue_at(5) [OF Q q(1) t] q(2) by auto
    moreover have "t \<notin> set xs" using came [of t] calculation queue_at(5) [OF Q q(1) t] by blast
    ultimately show "queue_next (threads s' ! t) = queue_next (threads s ! t) \<and>
        queued (threads s' ! t) = queued (threads s ! t) \<and> processor (threads s' ! t) = processor (threads s ! t)"
      using kept [of t] queue_at(5) [OF Q q(1) t] by simp
  qed (use others [OF q(2,1)] sizes(2) in simp_all)
  moreover have "processor (threads s' ! t) < PER_CPU_MAXIMUM \<and> t \<in> set ((ls(p := xs)) (processor (threads s' ! t)))"
    if t: "t < length (threads s)" "queued (threads s' ! t)" for t
  proof (cases "t \<in> set xs")
    case True
    then show ?thesis using new p by (simp add: queue_is_def)
  next
    case False
    then have n: "t \<notin> set (ls p)" using gone t(2) by blast
    have q: "queued (threads s ! t)" "processor (threads s' ! t) = processor (threads s ! t)"
      using kept [of t] t False n by simp_all
    then have "processor (threads s ! t) < PER_CPU_MAXIMUM" "t \<in> set (ls (processor (threads s ! t)))"
      using Q t(1) by (simp_all add: queues_ok_def)
    then show ?thesis using q n by auto
  qed
  ultimately show ?thesis using new sizes by (simp add: queues_ok_def)
qed

subsection \<open>Enqueue, dequeue, withdraw\<close>

lemma SchedulerEnqueue_effect:
  assumes Q: "queues_ok s ls" and p: "p < PER_CPU_MAXIMUM" and t: "t < length (threads s)" "\<not> queued (threads s ! t)"
  shows "queues_ok (SchedulerEnqueue p t s) (ls(p := ls p @ [t]))"
    and "\<And>u. u \<noteq> t \<Longrightarrow> threads (SchedulerEnqueue p t s) ! u =
      (threads s ! u)\<lparr>queue_next := queue_next (threads (SchedulerEnqueue p t s) ! u)\<rparr>"
    and "threads (SchedulerEnqueue p t s) ! t =
      (threads s ! t)\<lparr>queue_next := None, processor := p, queued := True, thread_state := THREAD_READY\<rparr>"
proof -
  let ?s = "SchedulerEnqueue p t s"
  have len: "length (SchedulerQueues s) = PER_CPU_MAXIMUM" using Q by (simp add: queues_ok_def)
  note A = queue_at [OF Q p]
  have new: "t \<notin> set (ls p)" using A(5) t(2) by blast
  have rear: "queue_tail (SchedulerQueues s ! p) = Some b \<Longrightarrow> b \<noteq> t \<and> b < length (threads s) \<and> b \<in> set (ls p)" for b
    using A(2) A(5) [of b] new by (auto split: if_splits)
  have th: "threads ?s ! u = (if u = t then (threads s ! t)\<lparr>queue_next := None, processor := p, queued := True, thread_state := THREAD_READY\<rparr>
      else if Some u = queue_tail (SchedulerQueues s ! p) then (threads s ! u)\<lparr>queue_next := Some t\<rparr> else threads s ! u)" for u
    using t rear by (auto simp: SchedulerEnqueue_def Let_def split: option.splits)
  then show "\<And>u. u \<noteq> t \<Longrightarrow> threads ?s ! u = (threads s ! u)\<lparr>queue_next := queue_next (threads ?s ! u)\<rparr>"
    "threads ?s ! t = (threads s ! t)\<lparr>queue_next := None, processor := p, queued := True, thread_state := THREAD_READY\<rparr>"
    by simp_all
  have q: "SchedulerQueues ?s ! p = \<lparr>queue_head = (if ls p = [] then Some t else queue_head (SchedulerQueues s ! p)),
      queue_tail = Some t, queue_count = queue_count (SchedulerQueues s ! p) + 1\<rparr>"
    "\<And>r. r \<noteq> p \<Longrightarrow> SchedulerQueues ?s ! r = SchedulerQueues s ! r" "length (SchedulerQueues ?s) = PER_CPU_MAXIMUM"
    "length (threads ?s) = length (threads s)"
    using A(2) len p by (auto simp: SchedulerEnqueue_def Let_def split: option.splits if_splits)
  have "seg (threads ?s) (queue_head (SchedulerQueues ?s ! p)) (ls p @ [t]) None"
  proof (cases "ls p" rule: rev_cases)
    case Nil
    then show ?thesis using q(1) th by simp
  next
    case (snoc xs b)
    have tail: "queue_tail (SchedulerQueues s ! p) = Some b" using A(2) snoc by simp
    have "seg (threads s) (queue_head (SchedulerQueues s ! p)) xs (Some b)"
      using A(1) snoc by (auto simp: seg_append)
    then have "seg (threads ?s) (queue_head (SchedulerQueues s ! p)) xs (Some b)"
      by (rule seg_cong) (use th tail new A(4) snoc in auto)
    then show ?thesis using q(1) th [of b] th [of t] tail snoc new by (auto simp: seg_append)
  qed
  then have "queue_is ?s p (ls p @ [t])"
    unfolding queue_is_def using q A(3-5) th t new by (auto simp: add.commute)
  then show "queues_ok ?s (ls(p := ls p @ [t]))"
    by (rule queues_ok_update [OF Q p]) (use q t th A(2) in \<open>auto split: if_splits\<close>)
qed

lemma SchedulerDequeue_empty:
  "queues_ok s ls \<Longrightarrow> p < PER_CPU_MAXIMUM \<Longrightarrow> ls p = [] \<Longrightarrow> SchedulerDequeue p s = (s, None)"
  using queue_at(1) [of s ls p] by (simp add: SchedulerDequeue_def)

lemma Unlink_effect:
  assumes Q: "queues_ok s ls" and p: "p < PER_CPU_MAXIMUM" and xs: "ls p = xs @ t # ys"
  defines "s' \<equiv> Unlink p (if xs = [] then None else Some (last xs)) t s"
  shows "queues_ok s' (ls(p := xs @ ys))" and "\<not> queued (threads s' ! t)"
    and "\<And>u. u \<noteq> t \<Longrightarrow> threads s' ! u = (threads s ! u)\<lparr>queue_next := queue_next (threads s' ! u)\<rparr>"
    and "threads s' ! t = (threads s ! t)\<lparr>queue_next := None, queued := False\<rparr>"
proof -
  have len: "length (SchedulerQueues s) = PER_CPU_MAXIMUM" using Q by (simp add: queues_ok_def)
  note A = queue_at [OF Q p, unfolded xs]
  have d: "t \<notin> set xs" "t \<notin> set ys" "distinct xs" "distinct ys" "set xs \<inter> set ys = {}" "t < length (threads s)"
    using A(4,5) by auto
  have l: "xs \<noteq> [] \<Longrightarrow> last xs < length (threads s) \<and> last xs \<noteq> t \<and> last xs \<notin> set ys"
    using A(5) [of "last xs"] d(1,5) last_in_set [of xs] by (auto simp: disjoint_iff)
  have th: "threads s' ! u = (if u = t then (threads s ! t)\<lparr>queue_next := None, queued := False\<rparr>
      else if xs \<noteq> [] \<and> u = last xs then (threads s ! u)\<lparr>queue_next := queue_next (threads s ! t)\<rparr> else threads s ! u)" for u
    using l d(6) by (auto simp: s'_def Unlink_def Let_def)
  then show "\<not> queued (threads s' ! t)" "\<And>u. u \<noteq> t \<Longrightarrow> threads s' ! u = (threads s ! u)\<lparr>queue_next := queue_next (threads s' ! u)\<rparr>"
    "threads s' ! t = (threads s ! t)\<lparr>queue_next := None, queued := False\<rparr>" by simp_all
  have q: "SchedulerQueues s' ! p = \<lparr>queue_head = (if xs = [] then queue_next (threads s ! t) else queue_head (SchedulerQueues s ! p)),
      queue_tail = (if ys = [] then if xs = [] then None else Some (last xs) else queue_tail (SchedulerQueues s ! p)),
      queue_count = queue_count (SchedulerQueues s ! p) - 1\<rparr>"
    "\<And>r. r \<noteq> p \<Longrightarrow> SchedulerQueues s' ! r = SchedulerQueues s ! r" "length (SchedulerQueues s') = PER_CPU_MAXIMUM"
    "length (threads s') = length (threads s)"
    using A(2) d(2) len p by (auto simp: s'_def Unlink_def Let_def)
  have s1: "seg (threads s) (queue_head (SchedulerQueues s ! p)) xs (Some t)" "seg (threads s) (queue_next (threads s ! t)) ys None"
    using A(1) by (auto simp: seg_append)
  have s2: "seg (threads s') (queue_next (threads s ! t)) ys None"
    by (rule seg_cong [OF s1(2)]) (use th d l in auto)
  have "seg (threads s') (queue_head (SchedulerQueues s' ! p)) (xs @ ys) None"
  proof (cases xs rule: rev_cases)
    case Nil
    then show ?thesis using s2 q(1) by simp
  next
    case (snoc zs b)
    then have "seg (threads s) (queue_head (SchedulerQueues s ! p)) zs (Some b)" using s1(1) by (auto simp: seg_append)
    then have "seg (threads s') (queue_head (SchedulerQueues s ! p)) zs (Some b)"
      by (rule seg_cong) (use th d snoc in auto)
    then show ?thesis using q(1) th [of b] s2 snoc d(1) by (auto simp: seg_append)
  qed
  then have "queue_is s' p (xs @ ys)"
    unfolding queue_is_def using q A(2,3,5) th d by auto
  then show "queues_ok s' (ls(p := xs @ ys))"
    by (rule queues_ok_update [OF Q p]) (use q th xs d in auto)
qed

lemma SchedulerDequeue_unlinks:
  assumes Q: "queues_ok s ls" and p: "p < PER_CPU_MAXIMUM" and xs: "ls p = t # ts"
  shows "SchedulerDequeue p s = (Unlink p None t s, Some t)"
proof -
  note A = queue_at [OF Q p, unfolded xs]
  have "queue_next (threads s ! t) = None \<longleftrightarrow> ts = []" using A(1) by (cases ts) auto
  moreover have "queue_tail (SchedulerQueues s ! p) = Some t \<longleftrightarrow> ts = []" using A(2,4) by (auto split: if_splits)
  moreover have "p < length (SchedulerQueues s)" using Q p by (simp add: queues_ok_def)
  ultimately show ?thesis using A(1)
    by (auto simp: SchedulerDequeue_def Unlink_def Let_def set_queue_def)
qed

lemma SchedulerDequeue_effect:
  assumes Q: "queues_ok s ls" and p: "p < PER_CPU_MAXIMUM" and xs: "ls p = t # ts"
  obtains s' where "SchedulerDequeue p s = (s', Some t)" "queues_ok s' (ls(p := ts))" "\<not> queued (threads s' ! t)"
    "\<And>u. u \<noteq> t \<Longrightarrow> threads s' ! u = (threads s ! u)\<lparr>queue_next := queue_next (threads s' ! u)\<rparr>"
    "threads s' ! t = (threads s ! t)\<lparr>queue_next := None, queued := False\<rparr>" "t < length (threads s)"
  using that [OF SchedulerDequeue_unlinks [OF assms]] Unlink_effect [OF Q p, of "[]" t ts] xs
    queue_at(5) [OF Q p, of t] by simp

text \<open>The walk of a withdrawal reaches the thread and returns.\<close>

lemma WithdrawWalk_reaches:
  assumes Q: "queues_ok s ls" and p: "p < PER_CPU_MAXIMUM" and xs: "ls p = xs @ zs @ t # ys" and t: "t \<notin> set xs"
    and h: "seg (threads s) walk (zs @ t # ys) None" and prev: "previous = (if xs = [] then None else Some (last xs))"
  shows "WithdrawWalk p t previous walk s =
    Some (Unlink p (if xs @ zs = [] then None else Some (last (xs @ zs))) t s, True)"
  using xs t h prev
proof (induction zs arbitrary: xs walk previous)
  case Nil
  then show ?case by (subst WithdrawWalk.simps) simp
next
  case (Cons z zs)
  have "distinct (xs @ (z # zs) @ t # ys)" using queue_at(4) [OF Q p] Cons.prems(1) by simp
  then have "z \<noteq> t" by auto
  moreover have "WithdrawWalk p t (Some z) (queue_next (threads s ! z)) s =
      Some (Unlink p (if (xs @ [z]) @ zs = [] then None else Some (last ((xs @ [z]) @ zs))) t s, True)"
    by (rule Cons.IH) (use Cons.prems \<open>z \<noteq> t\<close> in auto)
  ultimately show ?case using Cons.prems(3) by (subst WithdrawWalk.simps) simp
qed

lemma SchedulerWithdraw_effect:
  assumes Q: "queues_ok s ls" and t: "t < length (threads s)" "queued (threads s ! t)"
  obtains s' where "SchedulerWithdraw (Some t) s = Some (s', True)"
    "queues_ok s' (ls(processor (threads s ! t) := remove1 t (ls (processor (threads s ! t)))))"
    "\<not> queued (threads s' ! t)"
proof -
  let ?p = "processor (threads s ! t)"
  have p: "?p < PER_CPU_MAXIMUM" "t \<in> set (ls ?p)" using Q t by (simp_all add: queues_ok_def)
  then obtain xs ys where xs: "ls ?p = xs @ t # ys" by (meson split_list)
  have d: "t \<notin> set xs" using queue_at(4) [OF Q p(1)] xs by auto
  have "SchedulerWithdraw (Some t) s = Some (Unlink ?p (if xs = [] then None else Some (last xs)) t s, True)"
    using WithdrawWalk_reaches [OF Q p(1), of "[]" xs t ys "queue_head (SchedulerQueues s ! ?p)" None]
      queue_at(1) [OF Q p(1)] xs t p(1)
    by (simp add: SchedulerWithdraw_def Let_def)
  moreover have "remove1 t (ls ?p) = xs @ ys" using xs d by (simp add: remove1_append)
  ultimately show thesis using that Unlink_effect(1,2) [OF Q p(1) xs] by simp
qed

subsection \<open>The run queue is first in, first out\<close>

fun follow :: "nat \<Rightarrow> Thread list \<Rightarrow> nat option \<Rightarrow> nat list" where
  "follow 0 ths h = []"
| "follow (Suc n) ths h = (case h of None \<Rightarrow> [] | Some t \<Rightarrow> t # follow n ths (queue_next (ths ! t)))"

lemma follow_seg: "seg ths h xs None \<Longrightarrow> length xs \<le> n \<Longrightarrow> follow n ths h = xs"
proof (induction n arbitrary: h xs)
  case (Suc n)
  then show ?case by (cases xs) auto
qed simp

definition queue_list :: "nat \<Rightarrow> sched_state \<Rightarrow> nat list" where
  "queue_list p s = follow (length (threads s)) (threads s) (queue_head (SchedulerQueues s ! p))"

lemma queue_list_eq:
  assumes Q: "queues_ok s ls" and p: "p < PER_CPU_MAXIMUM"
  shows "queue_list p s = ls p"
proof -
  have "set (ls p) \<subseteq> {..<length (threads s)}" using queue_at(5) [OF Q p] by auto
  then have "length (ls p) \<le> length (threads s)"
    using queue_at(4) [OF Q p] by (metis card_lessThan card_mono distinct_card finite_lessThan)
  then show ?thesis using queue_at(1) [OF Q p] by (simp add: queue_list_def follow_seg)
qed

definition dequeued :: "nat \<Rightarrow> unit \<Rightarrow> sched_state \<Rightarrow> sched_state \<times> nat list" where
  "dequeued p u s = (case SchedulerDequeue p s of (s', r) \<Rightarrow> (s', case r of None \<Rightarrow> [] | Some t \<Rightarrow> [t]))"

definition queueable :: "nat \<Rightarrow> sched_state \<Rightarrow> bool" where
  "queueable t s \<longleftrightarrow> t < length (threads s) \<and> \<not> queued (threads s ! t)"

lemma dequeued_list:
  assumes Q: "queues_ok s ls" and p: "p < PER_CPU_MAXIMUM" and run: "dequeued p u s = (s', xs)"
  shows "\<exists>ls'. queues_ok s' ls' \<and> ls p = xs @ ls' p"
proof (cases "ls p")
  case Nil
  then show ?thesis using run SchedulerDequeue_empty [OF Q p] Q by (auto simp: dequeued_def)
next
  case (Cons t ts)
  obtain r where "SchedulerDequeue p s = (r, Some t)" "queues_ok r (ls(p := ts))"
    by (rule SchedulerDequeue_effect [OF Q p Cons])
  then show ?thesis using run Cons by (auto simp: dequeued_def intro!: exI [of _ "ls(p := ts)"])
qed

interpretation run_queue: fifo "SchedulerEnqueue p" "dequeued p" queueable "\<lambda>t. [t]" "queue_list p"
    "\<lambda>s. p < PER_CPU_MAXIMUM \<and> (\<exists>ls. queues_ok s ls)" for p
proof (unfold_locales, goal_cases)
  case (1 s b)
  then obtain ls where Q: "queues_ok s ls" "p < PER_CPU_MAXIMUM" by blast
  then have "queues_ok (SchedulerEnqueue p b s) (ls(p := ls p @ [b]))"
    using 1(2) by (intro SchedulerEnqueue_effect(1)) (simp_all add: queueable_def)
  then show ?case using Q(2) by blast
next
  case (2 s b)
  then obtain ls where Q: "queues_ok s ls" "p < PER_CPU_MAXIMUM" by blast
  then have "queues_ok (SchedulerEnqueue p b s) (ls(p := ls p @ [b]))"
    using 2(2) by (intro SchedulerEnqueue_effect(1)) (simp_all add: queueable_def)
  then show ?case using queue_list_eq [OF Q] queue_list_eq [of _ "ls(p := ls p @ [b])" p] Q(2) by simp
next
  case (3 s c s' xs)
  then show ?case using dequeued_list by blast
next
  case (4 s c s' xs)
  then obtain ls where Q: "queues_ok s ls" "p < PER_CPU_MAXIMUM" by blast
  obtain ls' where "queues_ok s' ls'" "ls p = xs @ ls' p" using dequeued_list [OF Q 4(2)] by blast
  then show ?case using queue_list_eq [OF Q] queue_list_eq [of s' ls' p] Q(2) by simp
qed

subsection \<open>The choice of a processor\<close>

lemma ChooseFrom_result:
  assumes "ChooseFrom indexes allowed s (c, n) = (c', n')"
  shows "n' \<le> n \<and> ((c', n') = (c, n) \<or> c' \<in> set indexes \<and> allowed AND SCHED_AFFINITY_OF c' \<noteq> 0 \<and>
      n' = queue_count (SchedulerQueues s ! c')) \<and>
    (\<forall>i \<in> set indexes. allowed AND SCHED_AFFINITY_OF i \<noteq> 0 \<longrightarrow> n' \<le> queue_count (SchedulerQueues s ! i))"
  using assms
proof (induction indexes arbitrary: c n)
  case (Cons index indexes)
  define c1 where "c1 = (if allowed AND SCHED_AFFINITY_OF index = 0 then (c, n)
      else if queue_count (SchedulerQueues s ! index) < n then (index, queue_count (SchedulerQueues s ! index)) else (c, n))"
  obtain c2 n2 where c2: "c1 = (c2, n2)" by fastforce
  have le: "n2 \<le> n" "allowed AND SCHED_AFFINITY_OF index \<noteq> 0 \<longrightarrow> n2 \<le> queue_count (SchedulerQueues s ! index)"
    using c2 by (auto simp: c1_def not_less split: if_splits)
  have "ChooseFrom indexes allowed s (c2, n2) = (c', n')"
    using Cons.prems by (simp add: c2 [symmetric] c1_def Let_def split: if_splits)
  from Cons.IH [OF this] le c2 show ?case
    by (auto simp: c1_def split: if_splits intro: order_trans)
qed simp

text \<open>The queue chosen is one the mask permits, online, and none permitted is shorter.\<close>

lemma SchedulerChooseProcessor_effect:
  assumes "SchedulerChooseProcessor allowed s = p" "p < PER_CPU_MAXIMUM"
  shows "p < PerCpuOnlineCount s" "allowed AND SCHED_AFFINITY_OF p \<noteq> 0"
    "q < PER_CPU_MAXIMUM \<Longrightarrow> q < PerCpuOnlineCount s \<Longrightarrow> allowed AND SCHED_AFFINITY_OF q \<noteq> 0 \<Longrightarrow>
      queue_count (SchedulerQueues s ! p) \<le> queue_count (SchedulerQueues s ! q)"
proof -
  obtain n where run: "ChooseFrom [0..<min (PerCpuOnlineCount s) PER_CPU_MAXIMUM] allowed s (PER_CPU_MAXIMUM, 0xFFFFFFFF) = (p, n)"
    using assms(1) unfolding SchedulerChooseProcessor_def by (metis prod.collapse)
  from ChooseFrom_result [OF run] assms(2) show "p < PerCpuOnlineCount s" "allowed AND SCHED_AFFINITY_OF p \<noteq> 0"
    "q < PER_CPU_MAXIMUM \<Longrightarrow> q < PerCpuOnlineCount s \<Longrightarrow> allowed AND SCHED_AFFINITY_OF q \<noteq> 0 \<Longrightarrow>
      queue_count (SchedulerQueues s ! p) \<le> queue_count (SchedulerQueues s ! q)"
    by auto
qed

text \<open>Where the mask permits an online processor whose queue is not at the limit of its count, one is chosen.\<close>

lemma SchedulerChooseProcessor_finds:
  assumes "q < PER_CPU_MAXIMUM" "q < PerCpuOnlineCount s" "allowed AND SCHED_AFFINITY_OF q \<noteq> 0"
    "queue_count (SchedulerQueues s ! q) < 0xFFFFFFFF"
  shows "SchedulerChooseProcessor allowed s < PER_CPU_MAXIMUM"
proof -
  obtain c n where run: "ChooseFrom [0..<min (PerCpuOnlineCount s) PER_CPU_MAXIMUM] allowed s (PER_CPU_MAXIMUM, 0xFFFFFFFF) = (c, n)"
    by fastforce
  have "n \<le> queue_count (SchedulerQueues s ! q)" using ChooseFrom_result [OF run] assms(1-3) by simp
  then have "n \<noteq> 0xFFFFFFFF" using assms(4) by auto
  then have "c \<in> set [0..<min (PerCpuOnlineCount s) PER_CPU_MAXIMUM]" using ChooseFrom_result [OF run] by simp
  then show ?thesis using run by (simp add: SchedulerChooseProcessor_def)
qed

end
