(* ===== verification/SchedulerSteps.thy ===== *)
theory SchedulerSteps
  imports RunQueues
begin

text \<open>
  What holds of the scheduler between its operations (\<open>kernel/proc/sched.c\<close>): a queued thread
  is ready, a thread that runs or idles is on no queue, no thread runs on two processors, and
  none of these waits upon a channel.  Rescheduling, sleeping and waking, each with no other
  processor in between, keep it.
\<close>

definition at_large :: "sched_state \<Rightarrow> nat \<Rightarrow> bool" where
  "at_large s t \<longleftrightarrow> t < length (threads s) \<and> \<not> queued (threads s ! t) \<and> wait_channel (threads s ! t) = 0"

definition sched_ok :: "sched_state \<Rightarrow> bool" where
  "sched_ok s \<longleftrightarrow> (\<exists>ls. queues_ok s ls) \<and> length (threads s) < 0xFFFFFFFF \<and>
     length (SchedulerIdleThreads s) = PER_CPU_MAXIMUM \<and> length (ProcessCurrentThreads s) = PER_CPU_MAXIMUM \<and>
     (\<forall>t < length (threads s). queued (threads s ! t) \<longrightarrow>
        thread_state (threads s ! t) = THREAD_READY \<and> wait_channel (threads s ! t) = 0) \<and>
     (\<forall>p < PER_CPU_MAXIMUM. \<forall>i. SchedulerIdleThreads s ! p = Some i \<longrightarrow> at_large s i) \<and>
     (\<forall>p < PER_CPU_MAXIMUM. \<forall>q < PER_CPU_MAXIMUM. p \<noteq> q \<longrightarrow> SchedulerIdleThreads s ! p \<noteq> None \<longrightarrow>
        SchedulerIdleThreads s ! p \<noteq> SchedulerIdleThreads s ! q) \<and>
     (\<forall>p < PER_CPU_MAXIMUM. \<forall>c. ProcessCurrentThreads s ! p = Some c \<longrightarrow> at_large s c) \<and>
     (\<forall>p < PER_CPU_MAXIMUM. \<forall>q < PER_CPU_MAXIMUM. p \<noteq> q \<longrightarrow> ProcessCurrentThreads s ! p \<noteq> None \<longrightarrow>
        ProcessCurrentThreads s ! p \<noteq> ProcessCurrentThreads s ! q \<and>
        ProcessCurrentThreads s ! p \<noteq> SchedulerIdleThreads s ! q)"

lemma queue_count_bound:
  assumes Q: "queues_ok s ls" and p: "p < PER_CPU_MAXIMUM" and len: "length (threads s) < 0xFFFFFFFF"
  shows "queue_count (SchedulerQueues s ! p) < 0xFFFFFFFF"
proof -
  have "set (ls p) \<subseteq> {..<length (threads s)}" using queue_at(5) [OF Q p] by auto
  then have "length (ls p) \<le> length (threads s)"
    using queue_at(4) [OF Q p] by (metis card_lessThan card_mono distinct_card finite_lessThan)
  then have "length (ls p) < 0xFFFFFFFF" using len by simp
  then show ?thesis using queue_at(3) [OF Q p] by (simp add: word_less_nat_alt unsigned_of_nat take_bit_nat_eq_self)
qed

definition placeable :: "sched_state \<Rightarrow> nat \<Rightarrow> bool" where
  "placeable s t \<longleftrightarrow> (\<exists>q < PER_CPU_MAXIMUM. q < PerCpuOnlineCount s \<and> affinity (threads s ! t) AND SCHED_AFFINITY_OF q \<noteq> 0)"

text \<open>All of a thread but its links.\<close>

definition same_thread :: "Thread \<Rightarrow> Thread \<Rightarrow> bool" where
  "same_thread th th' \<longleftrightarrow> th' = th\<lparr>queue_next := queue_next th'\<rparr>"

lemma same_thread_fields:
  assumes "same_thread th th'"
  shows "thread_used th' = thread_used th" "thread_state th' = thread_state th" "affinity th' = affinity th"
    "processor th' = processor th" "queued th' = queued th" "wait_channel th' = wait_channel th"
    "slices th' = slices th" "preemptions th' = preemptions th"
  using arg_cong [OF assms [unfolded same_thread_def], of thread_used]
    arg_cong [OF assms [unfolded same_thread_def], of thread_state]
    arg_cong [OF assms [unfolded same_thread_def], of affinity]
    arg_cong [OF assms [unfolded same_thread_def], of processor]
    arg_cong [OF assms [unfolded same_thread_def], of queued]
    arg_cong [OF assms [unfolded same_thread_def], of wait_channel]
    arg_cong [OF assms [unfolded same_thread_def], of slices]
    arg_cong [OF assms [unfolded same_thread_def], of preemptions]
  by simp_all

lemma same_thread_refl [simp]: "same_thread th th"
  by (simp add: same_thread_def)

lemma same_thread_trans: "same_thread a b \<Longrightarrow> same_thread b c \<Longrightarrow> same_thread a c"
  by (cases a; cases b; cases c) (simp add: same_thread_def)

definition same_machine :: "sched_state \<Rightarrow> sched_state \<Rightarrow> bool" where
  "same_machine s s' \<longleftrightarrow> length (threads s') = length (threads s) \<and>
     SchedulerIdleThreads s' = SchedulerIdleThreads s \<and> ProcessCurrentThreads s' = ProcessCurrentThreads s \<and>
     PerCpuOnlineCount s' = PerCpuOnlineCount s \<and> SchedulerPrepared s' = SchedulerPrepared s"

lemma same_machine_refl [simp]: "same_machine s s"
  by (simp add: same_machine_def)

lemma same_machine_trans: "same_machine s r \<Longrightarrow> same_machine r u \<Longrightarrow> same_machine s u"
  by (simp add: same_machine_def)

lemma SchedulerEnqueue_machine: "same_machine s (SchedulerEnqueue p t s)"
  by (auto simp: same_machine_def SchedulerEnqueue_def Let_def split: option.splits)

text \<open>Enqueueing a thread at large that neither runs nor idles.\<close>

lemma enqueue_ok:
  assumes ok: "sched_ok s" and p: "p < PER_CPU_MAXIMUM" and t: "at_large s t"
    and free: "\<And>q. q < PER_CPU_MAXIMUM \<Longrightarrow> ProcessCurrentThreads s ! q \<noteq> Some t \<and> SchedulerIdleThreads s ! q \<noteq> Some t"
  shows "sched_ok (SchedulerEnqueue p t s)"
    and "u \<noteq> t \<Longrightarrow> same_thread (threads s ! u) (threads (SchedulerEnqueue p t s) ! u)"
    and "queued (threads (SchedulerEnqueue p t s) ! t)"
    and "thread_state (threads (SchedulerEnqueue p t s) ! t) = THREAD_READY"
    and "wait_channel (threads (SchedulerEnqueue p t s) ! t) = 0"
proof -
  let ?s = "SchedulerEnqueue p t s"
  obtain ls where Q: "queues_ok s ls" using ok by (auto simp: sched_ok_def)
  have t': "t < length (threads s)" "\<not> queued (threads s ! t)" "wait_channel (threads s ! t) = 0"
    using t by (simp_all add: at_large_def)
  note E = SchedulerEnqueue_effect [OF Q p t'(1,2)]
  have M: "same_machine s ?s" by (rule SchedulerEnqueue_machine)
  show other: "u \<noteq> t \<Longrightarrow> same_thread (threads s ! u) (threads ?s ! u)" for u
    using E(2) by (simp add: same_thread_def)
  show self: "queued (threads ?s ! t)" "thread_state (threads ?s ! t) = THREAD_READY" "wait_channel (threads ?s ! t) = 0"
    using E(3) t'(3) by simp_all
  have large: "at_large ?s u" if "at_large s u" "u \<noteq> t" for u
    using that same_thread_fields [OF other [OF that(2)]] M by (simp add: at_large_def same_machine_def)
  have ready: "thread_state (threads ?s ! u) = THREAD_READY \<and> wait_channel (threads ?s ! u) = 0"
    if "u < length (threads s)" "queued (threads ?s ! u)" for u
    using that self same_thread_fields [OF other [of u]] ok unfolding sched_ok_def by (cases "u = t") auto
  show "sched_ok ?s"
    unfolding sched_ok_def
  proof (intro conjI allI impI)
    show "\<exists>ls. queues_ok ?s ls" using E(1) by blast
    show "at_large ?s i" if "q < PER_CPU_MAXIMUM" "SchedulerIdleThreads ?s ! q = Some i" for q i
      using that free [OF that(1)] M ok by (intro large) (auto simp: sched_ok_def same_machine_def)
    show "at_large ?s i" if "q < PER_CPU_MAXIMUM" "ProcessCurrentThreads ?s ! q = Some i" for q i
      using that free [OF that(1)] M ok by (intro large) (auto simp: sched_ok_def same_machine_def)
  qed (use ready M ok in \<open>simp_all add: sched_ok_def same_machine_def\<close>)
qed

subsection \<open>Waking\<close>

definition sleeping :: "sched_state \<Rightarrow> u64 \<Rightarrow> nat \<Rightarrow> bool" where
  "sleeping s channel t \<longleftrightarrow> thread_used (threads s ! t) \<and> thread_state (threads s ! t) = THREAD_BLOCKED \<and>
     wait_channel (threads s ! t) = channel"

lemma sleeper_free:
  assumes ok: "sched_ok s" and t: "t < length (threads s)" "sleeping s channel t" "channel \<noteq> 0"
  shows "\<not> queued (threads s ! t)"
    and "q < PER_CPU_MAXIMUM \<Longrightarrow> ProcessCurrentThreads s ! q \<noteq> Some t \<and> SchedulerIdleThreads s ! q \<noteq> Some t"
  using assms by (auto simp: sched_ok_def sleeping_def at_large_def)

lemma clear_channel_ok:
  assumes ok: "sched_ok s"
  shows "sched_ok (set_thread t (\<lambda>th. th\<lparr>wait_channel := 0\<rparr>) s)"
proof -
  let ?s = "set_thread t (\<lambda>th. th\<lparr>wait_channel := 0\<rparr>) s"
  obtain ls where "queues_ok s ls" using ok by (auto simp: sched_ok_def)
  then have "queues_ok ?s ls" by (rule queues_ok_links) (simp add: set_thread_links)
  moreover have "at_large ?s u \<longleftrightarrow> u < length (threads s) \<and> \<not> queued (threads s ! u) \<and> (u = t \<or> wait_channel (threads s ! u) = 0)" for u
    by (auto simp: at_large_def)
  ultimately show ?thesis using ok unfolding sched_ok_def by (auto simp: at_large_def)
qed

text \<open>Admitting a thread at large: it is queued where a processor of its mask is online.\<close>

lemma SchedulerAdmit_effect:
  assumes ok: "sched_ok s" and t: "at_large s t" "thread_used (threads s ! t)"
    "thread_state (threads s ! t) \<noteq> THREAD_EXITED" "thread_state (threads s ! t) \<noteq> THREAD_UNUSED"
    and free: "\<And>q. q < PER_CPU_MAXIMUM \<Longrightarrow> ProcessCurrentThreads s ! q \<noteq> Some t \<and> SchedulerIdleThreads s ! q \<noteq> Some t"
    and run: "SchedulerAdmit (Some t) s = (s', admitted)"
  shows "sched_ok s'" "same_machine s s'" "u \<noteq> t \<Longrightarrow> same_thread (threads s ! u) (threads s' ! u)"
    "admitted \<longleftrightarrow> placeable s t"
    "if admitted then queued (threads s' ! t) \<and> thread_state (threads s' ! t) = THREAD_READY \<and> wait_channel (threads s' ! t) = 0
     else s' = s"
    "affinity (threads s' ! t) = affinity (threads s ! t)"
proof -
  let ?p = "SchedulerChooseProcessor (affinity (threads s ! t)) s"
  obtain ls where Q: "queues_ok s ls" and len: "length (threads s) < 0xFFFFFFFF" using ok by (auto simp: sched_ok_def)
  have place: "?p < PER_CPU_MAXIMUM \<longleftrightarrow> placeable s t"
  proof
    assume "placeable s t"
    then show "?p < PER_CPU_MAXIMUM"
      unfolding placeable_def using SchedulerChooseProcessor_finds queue_count_bound [OF Q _ len] by blast
  next
    assume "?p < PER_CPU_MAXIMUM"
    then show "placeable s t"
      using SchedulerChooseProcessor_effect(1,2) [OF refl] unfolding placeable_def by blast
  qed
  have s': "(s', admitted) = (if ?p < PER_CPU_MAXIMUM
      then (SchedulerEnqueue ?p t s\<lparr>SchedulerAdmissions := SchedulerAdmissions (SchedulerEnqueue ?p t s) + 1\<rparr>, True) else (s, False))"
    using run t by (auto simp: SchedulerAdmit_def Let_def at_large_def split: if_splits)
  show "admitted \<longleftrightarrow> placeable s t" using s' place by (simp split: if_splits)
  have adm: "sched_ok (r\<lparr>SchedulerAdmissions := k\<rparr>) \<longleftrightarrow> sched_ok r" for r k
    by (simp add: sched_ok_def queues_ok_def queue_is_def at_large_def)
  have mach: "same_machine a (r\<lparr>SchedulerAdmissions := k\<rparr>) \<longleftrightarrow> same_machine a r" for a r k
    by (simp add: same_machine_def)
  note E = enqueue_ok [OF ok _ t(1) free]
  show "sched_ok s'" "same_machine s s'" "u \<noteq> t \<Longrightarrow> same_thread (threads s ! u) (threads s' ! u)"
    "if admitted then queued (threads s' ! t) \<and> thread_state (threads s' ! t) = THREAD_READY \<and> wait_channel (threads s' ! t) = 0
     else s' = s"
    using s' ok E [of ?p] SchedulerEnqueue_machine by (simp_all add: adm mach split: if_splits)
  show "affinity (threads s' ! t) = affinity (threads s ! t)"
    using s' SchedulerEnqueue_effect(3) [OF Q, of ?p t] t(1) by (simp add: at_large_def split: if_splits)
qed

lemma WakeOne_effect:
  assumes ok: "sched_ok s" and t: "t < length (threads s)" and channel: "channel \<noteq> 0"
    and run: "WakeOne channel t (s, w) = (s', w')"
  shows "sched_ok s'" "same_machine s s'" "u \<noteq> t \<Longrightarrow> same_thread (threads s ! u) (threads s' ! u)"
    "\<not> sleeping s channel t \<Longrightarrow> s' = s"
    "sleeping s channel t \<Longrightarrow> wait_channel (threads s' ! t) = 0 \<and>
       (placeable s t \<longrightarrow> queued (threads s' ! t) \<and> thread_state (threads s' ! t) = THREAD_READY)"
    "affinity (threads s' ! t) = affinity (threads s ! t)"
    "w' = (if sleeping s channel t \<and> placeable s t then w + 1 else w)"
proof -
  let ?r = "set_thread t (\<lambda>th. th\<lparr>wait_channel := 0\<rparr>) s"
  have all: "sched_ok s' \<and> same_machine s s' \<and> (\<forall>u. u \<noteq> t \<longrightarrow> same_thread (threads s ! u) (threads s' ! u)) \<and>
    (\<not> sleeping s channel t \<longrightarrow> s' = s) \<and>
    (sleeping s channel t \<longrightarrow> wait_channel (threads s' ! t) = 0 \<and>
       (placeable s t \<longrightarrow> queued (threads s' ! t) \<and> thread_state (threads s' ! t) = THREAD_READY)) \<and>
    affinity (threads s' ! t) = affinity (threads s ! t) \<and>
    w' = (if sleeping s channel t \<and> placeable s t then w + 1 else w)"
  proof (cases "sleeping s channel t")
    case False
    then have "s' = s" "w' = w" using run by (auto simp: WakeOne_def sleeping_def Let_def)
    then show ?thesis using ok False by simp
  next
    case True
    obtain admitted where A: "SchedulerAdmit (Some t) ?r = (s', admitted)" "w' = (if admitted then w + 1 else w)"
      using run True by (auto simp: WakeOne_def sleeping_def Let_def split: prod.splits)
    note F = sleeper_free [OF ok t True channel]
    have r: "at_large ?r t" "thread_used (threads ?r ! t)" "thread_state (threads ?r ! t) = THREAD_BLOCKED"
      using True F(1) t by (simp_all add: sleeping_def at_large_def)
    have free: "ProcessCurrentThreads ?r ! q \<noteq> Some t \<and> SchedulerIdleThreads ?r ! q \<noteq> Some t" if "q < PER_CPU_MAXIMUM" for q
      using F(2) [OF that] by simp
    have pl: "placeable ?r t \<longleftrightarrow> placeable s t" using t by (simp add: placeable_def)
    have m: "same_machine s ?r" by (simp add: same_machine_def)
    note E = SchedulerAdmit_effect [OF clear_channel_ok [OF ok] r(1,2) _ _ free A(1)]
    have "same_thread (threads s ! u) (threads s' ! u)" if "u \<noteq> t" for u
      using E(3) [of u] r(3) that by simp
    moreover have "wait_channel (threads s' ! t) = 0" using E(5) r(1,3) by (auto simp: at_large_def split: if_splits)
    ultimately show ?thesis
      using E(1,2,4,5,6) r(3) True A(2) pl m t by (auto intro: same_machine_trans split: if_splits)
  qed
  then show "sched_ok s'" "same_machine s s'" "u \<noteq> t \<Longrightarrow> same_thread (threads s ! u) (threads s' ! u)"
    "\<not> sleeping s channel t \<Longrightarrow> s' = s"
    "sleeping s channel t \<Longrightarrow> wait_channel (threads s' ! t) = 0 \<and>
       (placeable s t \<longrightarrow> queued (threads s' ! t) \<and> thread_state (threads s' ! t) = THREAD_READY)"
    "affinity (threads s' ! t) = affinity (threads s ! t)"
    "w' = (if sleeping s channel t \<and> placeable s t then w + 1 else w)" by blast+
qed

text \<open>Waking one thread is waking it from whatever channel it sleeps upon.\<close>

lemma SchedulerWakeThread_WakeOne:
  assumes "thread_used (threads s ! t)" "thread_state (threads s ! t) = THREAD_BLOCKED" "wait_channel (threads s ! t) \<noteq> 0"
  shows "fst (SchedulerWakeThread (Some t) s) = fst (WakeOne (wait_channel (threads s ! t)) t (s, 0))"
  using assms by (simp add: SchedulerWakeThread_def WakeOne_def Let_def split: prod.split)

text \<open>What a wake has done once it has passed the slots below \<open>k\<close>.\<close>

definition woken_below :: "sched_state \<Rightarrow> u64 \<Rightarrow> nat \<Rightarrow> sched_state \<times> nat \<Rightarrow> bool" where
  "woken_below s channel k c \<longleftrightarrow> sched_ok (fst c) \<and> same_machine s (fst c) \<and>
     snd c = card {t. t < k \<and> sleeping s channel t \<and> placeable s t} \<and>
     (\<forall>t < length (threads s). affinity (threads (fst c) ! t) = affinity (threads s ! t) \<and>
        (if t < k \<and> sleeping s channel t
         then wait_channel (threads (fst c) ! t) = 0 \<and>
           (placeable s t \<longrightarrow> queued (threads (fst c) ! t) \<and> thread_state (threads (fst c) ! t) = THREAD_READY)
         else same_thread (threads s ! t) (threads (fst c) ! t)))"

lemma wake_prefix:
  assumes ok: "sched_ok s" and channel: "channel \<noteq> 0" and k: "k \<le> length (threads s)"
  shows "woken_below s channel k (fold (WakeOne channel) [0..<k] (s, 0))"
  using k
proof (induction k)
  case 0
  then show ?case using ok by (simp add: woken_below_def)
next
  case (Suc k)
  obtain r w where r: "fold (WakeOne channel) [0..<k] (s, 0) = (r, w)" by fastforce
  obtain s' w' where s': "WakeOne channel k (r, w) = (s', w')" by fastforce
  have I: "woken_below s channel k (r, w)" using Suc r by simp
  have before: "affinity (threads r ! t) = affinity (threads s ! t) \<and>
      (if t < k \<and> sleeping s channel t
       then wait_channel (threads r ! t) = 0 \<and>
         (placeable s t \<longrightarrow> queued (threads r ! t) \<and> thread_state (threads r ! t) = THREAD_READY)
       else same_thread (threads s ! t) (threads r ! t))" if "t < length (threads s)" for t
    using I that unfolding woken_below_def fst_conv snd_conv by blast
  have kk: "sched_ok r" "same_machine s r" using I by (simp_all add: woken_below_def)
  then have kk: "k < length (threads r)" "sched_ok r" "same_thread (threads s ! k) (threads r ! k)" "same_machine s r"
    "affinity (threads r ! k) = affinity (threads s ! k)"
    using before [of k] Suc.prems by (simp_all add: same_machine_def)
  note E = WakeOne_effect [OF kk(2,1) channel s']
  have same: "sleeping r channel k \<longleftrightarrow> sleeping s channel k" "placeable r k \<longleftrightarrow> placeable s k"
    using same_thread_fields [OF kk(3)] kk(4,5) by (simp_all add: sleeping_def placeable_def same_machine_def)
  have "{t. t < Suc k \<and> sleeping s channel t \<and> placeable s t} =
      (if sleeping s channel k \<and> placeable s k then insert k {t. t < k \<and> sleeping s channel t \<and> placeable s t}
       else {t. t < k \<and> sleeping s channel t \<and> placeable s t})"
    by (auto simp: less_Suc_eq)
  then have count: "w' = card {t. t < Suc k \<and> sleeping s channel t \<and> placeable s t}"
    using E(7) same I by (simp add: woken_below_def)
  have each: "affinity (threads s' ! t) = affinity (threads s ! t) \<and>
      (if t < Suc k \<and> sleeping s channel t
       then wait_channel (threads s' ! t) = 0 \<and>
         (placeable s t \<longrightarrow> queued (threads s' ! t) \<and> thread_state (threads s' ! t) = THREAD_READY)
       else same_thread (threads s ! t) (threads s' ! t))" if t: "t < length (threads s)" for t
  proof (cases "t = k")
    case True
    then show ?thesis using E(4,5,6) same kk(3,5) by auto
  next
    case False
    note T = E(3) [OF False]
    show ?thesis
      using before [OF t] False same_thread_fields [OF T] same_thread_trans [OF _ T]
      by (auto split: if_splits)
  qed
  show ?case
    using r s' E(1) same_machine_trans [OF kk(4) E(2)] count each by (simp add: woken_below_def)
qed

lemma SchedulerWake_effect:
  assumes ok: "sched_ok s" and channel: "channel \<noteq> 0" and run: "SchedulerWake channel s = (s', n)"
  shows "woken_below s channel (length (threads s)) (s', n)"
  using wake_prefix [OF ok channel order_refl] run channel by (simp add: SchedulerWake_def)

subsection \<open>Rescheduling\<close>

text \<open>Fields and counters that the invariant does not read.\<close>

lemma sched_ok_counters [simp]:
  "sched_ok (s\<lparr>SchedulerSwitches := k\<rparr>) = sched_ok s" "sched_ok (s\<lparr>SchedulerPreemptions := k\<rparr>) = sched_ok s"
  "sched_ok (s\<lparr>SchedulerIdles := k\<rparr>) = sched_ok s" "sched_ok (s\<lparr>SchedulerAdmissions := k\<rparr>) = sched_ok s"
  by (simp_all add: sched_ok_def queues_ok_def queue_is_def at_large_def)

lemma set_thread_ok:
  assumes ok: "sched_ok s"
    and f: "queue_next (f (threads s ! t)) = queue_next (threads s ! t)" "queued (f (threads s ! t)) = queued (threads s ! t)"
      "processor (f (threads s ! t)) = processor (threads s ! t)" "wait_channel (f (threads s ! t)) = wait_channel (threads s ! t)"
    and state: "queued (threads s ! t) \<Longrightarrow> thread_state (f (threads s ! t)) = thread_state (threads s ! t)"
  shows "sched_ok (set_thread t f s)"
proof -
  obtain ls where "queues_ok s ls" using ok by (auto simp: sched_ok_def)
  then have "queues_ok (set_thread t f s) ls" by (rule queues_ok_links) (rule set_thread_links; use f in simp)
  moreover have "at_large (set_thread t f s) u \<longleftrightarrow> at_large s u" for u using f by (auto simp: at_large_def)
  ultimately show ?thesis using ok f state unfolding sched_ok_def by auto
qed

text \<open>Making a thread at large current, where no other processor runs it.\<close>

lemma set_current_ok:
  assumes ok: "sched_ok s" and n: "at_large s n" and cpu: "cpu < PER_CPU_MAXIMUM"
    and free: "\<And>q. q < PER_CPU_MAXIMUM \<Longrightarrow> q \<noteq> cpu \<Longrightarrow>
      ProcessCurrentThreads s ! q \<noteq> Some n \<and> SchedulerIdleThreads s ! q \<noteq> Some n"
    and idle: "\<And>q. q < PER_CPU_MAXIMUM \<Longrightarrow> q \<noteq> cpu \<Longrightarrow> ProcessCurrentThreads s ! q \<noteq> None \<Longrightarrow>
      ProcessCurrentThreads s ! q \<noteq> SchedulerIdleThreads s ! cpu"
  shows "sched_ok (s\<lparr>ProcessCurrentThreads := (ProcessCurrentThreads s)[cpu := Some n]\<rparr>)"
proof -
  let ?s = "s\<lparr>ProcessCurrentThreads := (ProcessCurrentThreads s)[cpu := Some n]\<rparr>"
  have Q: "queues_ok ?s ls \<longleftrightarrow> queues_ok s ls" for ls by (simp add: queues_ok_def queue_is_def)
  have L: "at_large ?s u \<longleftrightarrow> at_large s u" for u by (simp add: at_large_def)
  have D: "ProcessCurrentThreads ?s ! p \<noteq> ProcessCurrentThreads ?s ! q \<and>
      ProcessCurrentThreads ?s ! p \<noteq> SchedulerIdleThreads s ! q"
    if pq: "p < PER_CPU_MAXIMUM" "q < PER_CPU_MAXIMUM" "p \<noteq> q" "ProcessCurrentThreads ?s ! p \<noteq> None" for p q
  proof -
    have len: "length (ProcessCurrentThreads s) = PER_CPU_MAXIMUM" using ok by (simp add: sched_ok_def)
    have at: "ProcessCurrentThreads ?s ! r = (if r = cpu then Some n else ProcessCurrentThreads s ! r)" for r
      using cpu len by simp
    have old: "ProcessCurrentThreads s ! p \<noteq> None \<Longrightarrow> ProcessCurrentThreads s ! p \<noteq> ProcessCurrentThreads s ! q \<and>
        ProcessCurrentThreads s ! p \<noteq> SchedulerIdleThreads s ! q"
      using ok pq(1-3) unfolding sched_ok_def by blast
    consider "p = cpu" "q \<noteq> cpu" | "q = cpu" "p \<noteq> cpu" | "p \<noteq> cpu" "q \<noteq> cpu" using pq(3) by auto
    then show ?thesis
    proof cases
      case 1
      then show ?thesis using free [OF pq(2)] unfolding at by auto
    next
      case 2
      then show ?thesis using free [OF pq(1)] idle [OF pq(1)] pq(4) unfolding at by auto
    next
      case 3
      then show ?thesis using old pq(4) unfolding at by simp
    qed
  qed
  have C: "at_large s c" if c: "p < PER_CPU_MAXIMUM" "ProcessCurrentThreads ?s ! p = Some c" for p c
  proof (cases "p = cpu")
    case True
    then show ?thesis using c n ok cpu by (simp add: sched_ok_def)
  next
    case False
    then have "ProcessCurrentThreads s ! p = Some c" using c(2) by simp
    then show ?thesis using ok c(1) unfolding sched_ok_def by blast
  qed
  show ?thesis
    unfolding sched_ok_def
  proof (intro conjI allI impI)
    show "\<exists>ls. queues_ok ?s ls" using ok unfolding sched_ok_def Q by simp
  next
    fix p c assume "p < PER_CPU_MAXIMUM" "ProcessCurrentThreads ?s ! p = Some c"
    then show "at_large ?s c" by (simp only: L C)
  next
    fix p q assume "p < PER_CPU_MAXIMUM" "q < PER_CPU_MAXIMUM" "p \<noteq> q" "ProcessCurrentThreads ?s ! p \<noteq> None"
    from D [OF this] show "ProcessCurrentThreads ?s ! p \<noteq> ProcessCurrentThreads ?s ! q"
      "ProcessCurrentThreads ?s ! p \<noteq> SchedulerIdleThreads ?s ! q" by simp_all
  qed (use ok in \<open>simp_all add: sched_ok_def Q L\<close>)
qed

text \<open>
  While a processor changes threads, the one it leaves is current no more but may already be
  queued or asleep: \<open>without cpu\<close> is the machine with that processor's thread taken off.
\<close>

definition without :: "nat \<Rightarrow> sched_state \<Rightarrow> sched_state" where
  "without cpu s = s\<lparr>ProcessCurrentThreads := (ProcessCurrentThreads s)[cpu := None]\<rparr>"

lemma without_fields [simp]:
  "threads (without cpu s) = threads s" "SchedulerQueues (without cpu s) = SchedulerQueues s"
  "SchedulerIdleThreads (without cpu s) = SchedulerIdleThreads s"
  "ProcessCurrentThreads (without cpu s) = (ProcessCurrentThreads s)[cpu := None]"
  "PerCpuOnlineCount (without cpu s) = PerCpuOnlineCount s"
  by (simp_all add: without_def)

lemma without_operations:
  "set_thread t f (without cpu s) = without cpu (set_thread t f s)"
  "set_queue p g (without cpu s) = without cpu (set_queue p g s)"
  by (simp_all add: without_def set_thread_def set_queue_def)

lemma without_counters [simp]:
  "sched_ok (without cpu (s\<lparr>SchedulerSwitches := k\<rparr>)) = sched_ok (without cpu s)"
  "sched_ok (without cpu (s\<lparr>SchedulerPreemptions := k\<rparr>)) = sched_ok (without cpu s)"
  "sched_ok (without cpu (s\<lparr>SchedulerIdles := k\<rparr>)) = sched_ok (without cpu s)"
  by (simp_all add: sched_ok_def queues_ok_def queue_is_def at_large_def without_def)

lemma without_enqueue: "SchedulerEnqueue p t (without cpu s) = without cpu (SchedulerEnqueue p t s)"
  by (simp add: SchedulerEnqueue_def Let_def without_operations split: option.splits)

lemma without_dequeue:
  "SchedulerDequeue p (without cpu s) = (case SchedulerDequeue p s of (r, t) \<Rightarrow> (without cpu r, t))"
  by (simp add: SchedulerDequeue_def Let_def without_operations split: option.splits)

definition parted :: "sched_state \<Rightarrow> nat \<Rightarrow> nat \<Rightarrow> bool" where
  "parted s cpu c \<longleftrightarrow> sched_ok (without cpu s) \<and> cpu < PER_CPU_MAXIMUM \<and>
     length (ProcessCurrentThreads s) = PER_CPU_MAXIMUM \<and>
     ProcessCurrentThreads s ! cpu = Some c \<and> c < length (threads s) \<and> \<not> queued (threads s ! c) \<and>
     (\<forall>q < PER_CPU_MAXIMUM. q \<noteq> cpu \<longrightarrow> ProcessCurrentThreads s ! q \<noteq> Some c \<and> SchedulerIdleThreads s ! q \<noteq> Some c \<and>
        (ProcessCurrentThreads s ! q \<noteq> None \<longrightarrow> ProcessCurrentThreads s ! q \<noteq> SchedulerIdleThreads s ! cpu))"

lemma without_queues [simp]: "queues_ok (without cpu s) ls = queues_ok s ls"
  by (simp add: queues_ok_def queue_is_def)

lemma without_large [simp]: "at_large (without cpu s) t = at_large s t"
  by (simp add: at_large_def)

lemma sched_ok_parted:
  assumes ok: "sched_ok s" and c: "cpu < PER_CPU_MAXIMUM" "ProcessCurrentThreads s ! cpu = Some c"
  shows "parted s cpu c"
proof -
  have idle: "ProcessCurrentThreads s ! q \<noteq> Some c \<and> SchedulerIdleThreads s ! q \<noteq> Some c \<and>
      (ProcessCurrentThreads s ! q \<noteq> None \<longrightarrow> ProcessCurrentThreads s ! q \<noteq> SchedulerIdleThreads s ! cpu)"
    if "q < PER_CPU_MAXIMUM" "q \<noteq> cpu" for q
    using ok that c unfolding sched_ok_def by (metis option.distinct(1))
  have at: "(ProcessCurrentThreads s)[cpu := None] ! q = (if q = cpu then None else ProcessCurrentThreads s ! q)" for q
    using ok c by (simp add: sched_ok_def)
  have "sched_ok (without cpu s)"
    using ok unfolding sched_ok_def without_fields without_queues without_large length_list_update at by auto
  moreover have "at_large s c" using ok c unfolding sched_ok_def by blast
  ultimately show ?thesis using ok c idle by (simp add: parted_def at_large_def sched_ok_def)
qed

lemma parted_sched_ok:
  assumes P: "parted s cpu c" and channel: "wait_channel (threads s ! c) = 0"
  shows "sched_ok s"
proof -
  have "sched_ok ((without cpu s)\<lparr>ProcessCurrentThreads := (ProcessCurrentThreads (without cpu s))[cpu := Some c]\<rparr>)"
    by (rule set_current_ok) (use P channel in \<open>auto simp: parted_def at_large_def\<close>)
  moreover have "(without cpu s)\<lparr>ProcessCurrentThreads := (ProcessCurrentThreads (without cpu s))[cpu := Some c]\<rparr> = s"
    using P by (simp add: without_def parted_def) (metis list_update_id sched_state.surjective sched_state.update_convs(4))
  ultimately show ?thesis by simp
qed

text \<open>What a dequeue leaves, and the thread it yields, which nobody runs.\<close>

lemma dequeue_ok:
  assumes ok: "sched_ok s" and p: "p < PER_CPU_MAXIMUM" and run: "SchedulerDequeue p s = (s', r)"
  shows "sched_ok s'" "same_machine s s'" "r = None \<Longrightarrow> s' = s"
    "r = Some t \<Longrightarrow> at_large s' t \<and> queued (threads s ! t)"
    "u \<notin> set_option r \<Longrightarrow> same_thread (threads s ! u) (threads s' ! u)"
proof -
  obtain ls where Q: "queues_ok s ls" using ok by (auto simp: sched_ok_def)
  have all: "sched_ok s' \<and> same_machine s s' \<and> (r = None \<longrightarrow> s' = s) \<and>
    (\<forall>t. r = Some t \<longrightarrow> at_large s' t \<and> queued (threads s ! t)) \<and>
    (\<forall>u. u \<notin> set_option r \<longrightarrow> same_thread (threads s ! u) (threads s' ! u))"
  proof (cases "ls p")
    case Nil
    then show ?thesis using run SchedulerDequeue_empty [OF Q p] ok by auto
  next
    case (Cons t ts)
    define r' where "r' = Unlink p None t s"
    have E: "SchedulerDequeue p s = (r', Some t)" "queues_ok r' (ls(p := ts))" "\<not> queued (threads r' ! t)"
        "\<And>u. u \<noteq> t \<Longrightarrow> threads r' ! u = (threads s ! u)\<lparr>queue_next := queue_next (threads r' ! u)\<rparr>"
        "threads r' ! t = (threads s ! t)\<lparr>queue_next := None, queued := False\<rparr>" "t < length (threads s)"
      using SchedulerDequeue_unlinks [OF Q p Cons] Unlink_effect [OF Q p, of "[]" t ts] Cons
        queue_at(5) [OF Q p, of t] by (simp_all add: r'_def)
    have s': "s' = r'" "r = Some t" using run E(1) by simp_all
    have M: "same_machine s s'"
      using run by (auto simp: same_machine_def SchedulerDequeue_def Let_def split: option.splits)
    have q: "queued (threads s ! t)" using queue_at(5) [OF Q p, of t] Cons by simp
    then have w: "wait_channel (threads s ! t) = 0" using ok E(6) by (simp add: sched_ok_def)
    have other: "same_thread (threads s ! u) (threads s' ! u)" if "u \<noteq> t" for u
      using E(4) [OF that] s' by (simp add: same_thread_def)
    have here: "at_large s' t" using E(3,5,6) M s' w by (simp add: at_large_def same_machine_def)
    have large: "at_large s' u" if "at_large s u" for u
      using that q same_thread_fields [OF other [of u]] M here by (cases "u = t") (simp_all add: at_large_def same_machine_def)
    have ready: "thread_state (threads s' ! u) = THREAD_READY \<and> wait_channel (threads s' ! u) = 0"
      if "u < length (threads s)" "queued (threads s' ! u)" for u
      using that ok same_thread_fields [OF other [of u]] here unfolding sched_ok_def at_large_def by (cases "u = t") auto
    have "sched_ok s'"
      unfolding sched_ok_def
    proof (intro conjI allI impI)
      show "\<exists>ls. queues_ok s' ls" using E(2) s' by blast
      show "at_large s' i" if "q < PER_CPU_MAXIMUM" "SchedulerIdleThreads s' ! q = Some i" for q i
        using that M ok by (intro large) (auto simp: sched_ok_def same_machine_def)
      show "at_large s' i" if "q < PER_CPU_MAXIMUM" "ProcessCurrentThreads s' ! q = Some i" for q i
        using that M ok by (intro large) (auto simp: sched_ok_def same_machine_def)
    qed (use ready M ok in \<open>simp_all add: sched_ok_def same_machine_def\<close>)
    then show ?thesis using M q here other s' by simp
  qed
  then show "sched_ok s'" "same_machine s s'" "r = None \<Longrightarrow> s' = s"
    "r = Some t \<Longrightarrow> at_large s' t \<and> queued (threads s ! t)"
    "u \<notin> set_option r \<Longrightarrow> same_thread (threads s ! u) (threads s' ! u)" by blast+
qed

lemma same_machine_without:
  assumes "same_machine s s'"
  shows "same_machine (without cpu s) (without cpu s')"
  using assms by (simp add: same_machine_def) (simp add: without_def)

text \<open>The end of a reschedule: another thread, at large, takes the processor.\<close>

lemma switch_ok:
  assumes P: "parted s cpu c" and n: "at_large s n" "n \<noteq> c"
    and free: "\<And>q. q < PER_CPU_MAXIMUM \<Longrightarrow> q \<noteq> cpu \<Longrightarrow>
      ProcessCurrentThreads s ! q \<noteq> Some n \<and> SchedulerIdleThreads s ! q \<noteq> Some n"
    and s': "s' = SchedulerSwitchTo cpu c (Some n) (if again then SchedulerEnqueue cpu c s else s)"
    and again: "again \<Longrightarrow> SchedulerIdleThreads s ! cpu \<noteq> Some c \<and> wait_channel (threads s ! c) = 0"
  shows "sched_ok s'" "ProcessCurrentThreads s' = (ProcessCurrentThreads s)[cpu := Some n]"
    "thread_state (threads s' ! n) = THREAD_RUNNING"
    "same_machine (without cpu s) (without cpu s')"
    "queued (threads s' ! c) \<longleftrightarrow> again"
    "\<not> again \<Longrightarrow> thread_state (threads s ! c) \<noteq> THREAD_RUNNING \<Longrightarrow> threads s' ! c = threads s ! c"
proof -
  define v where "v = (if again then SchedulerEnqueue cpu c s else s)"
  define y where "y = (set_thread n (\<lambda>th. th\<lparr>slices := slices th + 1\<rparr>)
      (v\<lparr>SchedulerSwitches := SchedulerSwitches v + 1\<rparr>))"
  define z where "z = set_thread c (\<lambda>th. th\<lparr>thread_state :=
      (if thread_state th = THREAD_RUNNING then THREAD_READY else thread_state th)\<rparr>) y"
  define x where "x = set_thread n (\<lambda>th. th\<lparr>thread_state := THREAD_RUNNING\<rparr>) z"
  have U: "sched_ok (without cpu s)" "cpu < PER_CPU_MAXIMUM" "length (ProcessCurrentThreads s) = PER_CPU_MAXIMUM"
    "c < length (threads s)" "\<not> queued (threads s ! c)"
    using P by (simp_all add: parted_def)
  have c: "again \<Longrightarrow> at_large (without cpu s) c" using U again by (simp add: at_large_def)
  have cfree: "ProcessCurrentThreads (without cpu s) ! q \<noteq> Some c \<and> SchedulerIdleThreads (without cpu s) ! q \<noteq> Some c"
    if "q < PER_CPU_MAXIMUM" "again" for q
    using P again that by (cases "q = cpu") (auto simp: parted_def)
  have V: "sched_ok (without cpu v)" "at_large v n" "same_machine s v" "queued (threads v ! c) \<longleftrightarrow> again"
    "again \<Longrightarrow> thread_state (threads v ! c) = THREAD_READY" "\<not> again \<Longrightarrow> v = s"
    using enqueue_ok [OF U(1,2) c cfree] U n same_thread_fields [of "threads s ! n" "threads v ! n"] SchedulerEnqueue_machine
    by (auto simp: v_def without_enqueue at_large_def same_machine_def split: if_splits)
  have Y: "sched_ok (without cpu y)"
    unfolding y_def without_operations [symmetric] by (rule set_thread_ok) (use V(1) in simp_all)
  have Z: "sched_ok (without cpu z)"
    unfolding z_def without_operations [symmetric]
    by (rule set_thread_ok [OF Y]) (use V(4,5) n in \<open>auto simp: y_def\<close>)
  have X: "sched_ok (without cpu x)"
    unfolding x_def without_operations [symmetric]
    by (rule set_thread_ok [OF Z]) (use V(2) n in \<open>auto simp: z_def y_def at_large_def\<close>)
  have M: "same_machine s x" using V(3) by (simp add: x_def z_def y_def same_machine_def)
  have n': "at_large (without cpu x) n" using V(2) n(2) by (simp add: x_def z_def y_def at_large_def)
  have s'_eq: "s' = (without cpu x)\<lparr>ProcessCurrentThreads := (ProcessCurrentThreads (without cpu x))[cpu := Some n]\<rparr>"
    using n(2) by (simp add: s' SchedulerSwitchTo_def ThreadSwitchTo_def Let_def v_def [symmetric] y_def [symmetric]
      z_def [symmetric] x_def [symmetric]) (simp add: without_def x_def)
  show "sched_ok s'"
    unfolding s'_eq
    by (rule set_current_ok [OF X n' U(2)]) (use P M free in \<open>auto simp: parted_def same_machine_def\<close>)
  show "ProcessCurrentThreads s' = (ProcessCurrentThreads s)[cpu := Some n]"
    using M by (simp add: s'_eq same_machine_def)
  have th: "threads s' = threads x" by (simp add: s'_eq)
  show "thread_state (threads s' ! n) = THREAD_RUNNING"
    using V(2) by (simp add: th) (simp add: x_def z_def y_def at_large_def)
  show "same_machine (without cpu s) (without cpu s')"
    using M by (simp add: same_machine_def s'_eq) (simp add: without_def)
  show "queued (threads s' ! c) \<longleftrightarrow> again" using V(4) n(2) by (simp add: th x_def z_def y_def)
  show "\<not> again \<Longrightarrow> thread_state (threads s ! c) \<noteq> THREAD_RUNNING \<Longrightarrow> threads s' ! c = threads s ! c"
    using V(6) n(2) by (simp add: th x_def z_def y_def)
qed

text \<open>
  A reschedule either leaves the thread current, with nothing but counters changed, or gives the
  processor to another; and it gives it to another where the thread cannot go on and there is an
  idle thread.
\<close>

lemma dequeue_parted:
  assumes P: "parted s cpu c" and run: "SchedulerDequeue cpu s = (s1, r)"
  shows "parted s1 cpu c" "same_machine s s1" "r = None \<Longrightarrow> s1 = s"
    "same_thread (threads s ! c) (threads s1 ! c)"
    "r = Some t \<Longrightarrow> at_large s1 t \<and> t \<noteq> c \<and> (\<forall>q < PER_CPU_MAXIMUM. q \<noteq> cpu \<longrightarrow>
       ProcessCurrentThreads s1 ! q \<noteq> Some t \<and> SchedulerIdleThreads s1 ! q \<noteq> Some t)"
proof -
  have cpu: "cpu < PER_CPU_MAXIMUM" "sched_ok (without cpu s)" "\<not> queued (threads s ! c)"
    using P by (simp_all add: parted_def)
  have run': "SchedulerDequeue cpu (without cpu s) = (without cpu s1, r)" using run by (simp add: without_dequeue)
  note D = dequeue_ok [OF cpu(2,1) run']
  show M: "same_machine s s1"
    using run by (auto simp: same_machine_def SchedulerDequeue_def Let_def split: option.splits)
  show "r = None \<Longrightarrow> s1 = s"
    using run by (auto simp: SchedulerDequeue_def Let_def split: option.splits)
  have ne: "r = Some t \<Longrightarrow> t \<noteq> c" for t using D(4) [of t] cpu(3) by auto
  then have "c \<notin> set_option r" by auto
  then show same: "same_thread (threads s ! c) (threads s1 ! c)" using D(5) by simp
  show "parted s1 cpu c"
    using P D(1) M same_thread_fields [OF same] by (simp add: parted_def same_machine_def)
  show "at_large s1 t \<and> t \<noteq> c \<and> (\<forall>q < PER_CPU_MAXIMUM. q \<noteq> cpu \<longrightarrow>
       ProcessCurrentThreads s1 ! q \<noteq> Some t \<and> SchedulerIdleThreads s1 ! q \<noteq> Some t)" if r: "r = Some t"
  proof (intro conjI allI impI notI)
    fix q assume q: "q < PER_CPU_MAXIMUM" "q \<noteq> cpu"
    have old: "queued (threads (without cpu s) ! t)" using D(4) [OF r] by blast
    { assume "ProcessCurrentThreads s1 ! q = Some t"
      then have "ProcessCurrentThreads (without cpu s) ! q = Some t"
        using M q by (simp add: same_machine_def)
      then show False using cpu(2) q old unfolding sched_ok_def at_large_def by blast }
    { assume "SchedulerIdleThreads s1 ! q = Some t"
      then have "SchedulerIdleThreads (without cpu s) ! q = Some t" using M by (simp add: same_machine_def)
      then show False using cpu(2) q old unfolding sched_ok_def at_large_def by blast }
  qed (use D(4) [OF r] ne [OF r] in simp_all)
qed

definition kept_running :: "sched_state \<Rightarrow> sched_state \<Rightarrow> nat \<Rightarrow> nat \<Rightarrow> bool" where
  "kept_running s s' cpu c \<longleftrightarrow> parted s' cpu c \<and> same_machine s s' \<and>
     wait_channel (threads s' ! c) = wait_channel (threads s ! c)"

definition gave_way :: "sched_state \<Rightarrow> sched_state \<Rightarrow> nat \<Rightarrow> nat \<Rightarrow> bool" where
  "gave_way s s' cpu c \<longleftrightarrow> sched_ok s' \<and> same_machine (without cpu s) (without cpu s') \<and>
     (\<exists>n. n \<noteq> c \<and> ProcessCurrentThreads s' = (ProcessCurrentThreads s)[cpu := Some n] \<and>
        thread_state (threads s' ! n) = THREAD_RUNNING) \<and>
     (queued (threads s' ! c) \<longleftrightarrow> thread_state (threads s ! c) = THREAD_RUNNING \<and> SchedulerIdleThreads s ! cpu \<noteq> Some c) \<and>
     (thread_state (threads s ! c) \<noteq> THREAD_RUNNING \<longrightarrow> thread_used (threads s' ! c) = thread_used (threads s ! c) \<and>
        thread_state (threads s' ! c) = thread_state (threads s ! c) \<and>
        wait_channel (threads s' ! c) = wait_channel (threads s ! c) \<and> affinity (threads s' ! c) = affinity (threads s ! c))"

lemma reschedule_effect:
  assumes P: "parted s cpu c" and running: "thread_state (threads s ! c) = THREAD_RUNNING \<Longrightarrow> wait_channel (threads s ! c) = 0"
    and def: "s' = SchedulerRescheduleLocked cpu preempted s"
  shows "kept_running s s' cpu c \<or> gave_way s s' cpu c"
    and "thread_state (threads s ! c) \<noteq> THREAD_RUNNING \<Longrightarrow> SchedulerIdleThreads s ! cpu = Some i \<Longrightarrow> i \<noteq> c \<Longrightarrow> gave_way s s' cpu c"
proof -
  obtain s1 r where run: "SchedulerDequeue cpu s = (s1, r)" by fastforce
  note D = dequeue_parted [OF P run]
  note F = same_thread_fields [OF D(4)]
  have cur: "ProcessCurrentThreads s ! cpu = Some c" "cpu < PER_CPU_MAXIMUM" using P by (simp_all add: parted_def)
  have idle1: "SchedulerIdleThreads s1 = SchedulerIdleThreads s" using D(2) by (simp add: same_machine_def)
  let ?next = "if r = None then SchedulerIdleThreads s ! cpu else r"
  let ?again = "Some c \<noteq> SchedulerIdleThreads s ! cpu \<and> thread_state (threads s ! c) = THREAD_RUNNING"
  define s2 where "s2 = (if preempted
      then set_thread c (\<lambda>th. th\<lparr>preemptions := preemptions th + 1\<rparr>)
             (s1\<lparr>SchedulerPreemptions := SchedulerPreemptions s1 + 1\<rparr>) else s1)"
  have P2: "parted s2 cpu c"
  proof -
    have "sched_ok (without cpu s2)"
      unfolding s2_def using D(1) by (auto simp: parted_def without_operations [symmetric] intro!: set_thread_ok)
    then show ?thesis using D(1) by (simp add: parted_def s2_def)
  qed
  have M2: "same_machine s s2" using D(2) by (simp add: s2_def same_machine_def)
  have F2: "thread_state (threads s2 ! c) = thread_state (threads s ! c)" "wait_channel (threads s2 ! c) = wait_channel (threads s ! c)"
    "affinity (threads s2 ! c) = affinity (threads s ! c)" "thread_used (threads s2 ! c) = thread_used (threads s ! c)"
    using F by (simp_all add: s2_def)
  have s': "s' = (if r = None \<and> Some c = SchedulerIdleThreads s ! cpu then s\<lparr>SchedulerIdles := SchedulerIdles s + 1\<rparr>
      else if r = None \<and> thread_state (threads s ! c) = THREAD_RUNNING then s
      else SchedulerSwitchTo cpu c ?next (if ?again then SchedulerEnqueue cpu c s2 else s2))"
    using cur run D(3) F2 F idle1 by (auto simp: def SchedulerRescheduleLocked_def RescheduleJudge_def Let_def s2_def)
  have idles: "kept_running s (s\<lparr>SchedulerIdles := k\<rparr>) cpu c" for k
    using P by (simp add: kept_running_def parted_def same_machine_def)
  have given: "gave_way s s' cpu c"
    if n: "?next = Some n" and go: "\<not> (r = None \<and> (Some c = SchedulerIdleThreads s ! cpu \<or> thread_state (threads s ! c) = THREAD_RUNNING))" for n
  proof -
    have free: "at_large s2 n \<and> n \<noteq> c \<and> (\<forall>q < PER_CPU_MAXIMUM. q \<noteq> cpu \<longrightarrow>
        ProcessCurrentThreads s2 ! q \<noteq> Some n \<and> SchedulerIdleThreads s2 ! q \<noteq> Some n)"
    proof (cases r)
      case None
      then have i: "SchedulerIdleThreads s ! cpu = Some n" "n \<noteq> c" using n go by auto
      have ok: "sched_ok (without cpu s2)" using P2 by (simp add: parted_def)
      have idle2: "SchedulerIdleThreads s2 = SchedulerIdleThreads s" using M2 by (simp add: same_machine_def)
      have "SchedulerIdleThreads s ! q \<noteq> Some n" if "q < PER_CPU_MAXIMUM" "q \<noteq> cpu" for q
        using ok i(1) that cur(2) idle2 unfolding sched_ok_def without_fields by (metis option.distinct(1))
      moreover have "ProcessCurrentThreads s2 ! q \<noteq> Some n" if "q < PER_CPU_MAXIMUM" "q \<noteq> cpu" for q
        using P2 i(1) that idle2 unfolding parted_def by (metis option.distinct(1))
      moreover have "at_large (without cpu s2) n" using ok i(1) cur(2) idle2 unfolding sched_ok_def without_fields by metis
      ultimately show ?thesis using i(2) idle2 by simp
    next
      case (Some t)
      then have "n = t" using n by simp
      then show ?thesis using D(5) [OF Some] M2 D(2) by (auto simp: s2_def at_large_def same_machine_def)
    qed
    have e: "s' = SchedulerSwitchTo cpu c (Some n) (if ?again then SchedulerEnqueue cpu c s2 else s2)"
      using s' n go by auto
    have again: "SchedulerIdleThreads s2 ! cpu \<noteq> Some c \<and> wait_channel (threads s2 ! c) = 0" if "?again"
      using that running F2(2) M2 by (auto simp: same_machine_def)
    have large: "at_large s2 n" "n \<noteq> c" using free by simp_all
    have apart: "ProcessCurrentThreads s2 ! q \<noteq> Some n \<and> SchedulerIdleThreads s2 ! q \<noteq> Some n"
      if "q < PER_CPU_MAXIMUM" "q \<noteq> cpu" for q using free that by blast
    note W = switch_ok [OF P2 large apart e again]
    have "ProcessCurrentThreads s2 = ProcessCurrentThreads s" using M2 by (simp add: same_machine_def)
    then show ?thesis
      unfolding gave_way_def
      using W F2 same_machine_trans [OF same_machine_without [OF M2] W(4)] free by auto
  qed
  show "kept_running s s' cpu c \<or> gave_way s s' cpu c"
  proof (cases "?next")
    case None
    then have "s' = (if r = None \<and> thread_state (threads s ! c) = THREAD_RUNNING then s
      else if ?again then SchedulerEnqueue cpu c s2 else s2)" "r = None"
      using s' by (auto simp: SchedulerSwitchTo_def split: if_splits)
    then have "s' = s \<or> s' = s2" by auto
    then show ?thesis using P P2 M2 F2 by (auto simp: kept_running_def)
  next
    case (Some n)
    then show ?thesis using given s' idles P by (auto simp: kept_running_def split: if_splits)
  qed
  show "gave_way s s' cpu c"
    if "thread_state (threads s ! c) \<noteq> THREAD_RUNNING" "SchedulerIdleThreads s ! cpu = Some i" "i \<noteq> c"
    using given that by (cases r) auto
qed

lemma reschedule_ok:
  assumes ok: "sched_ok s" and cpu: "cpu < PER_CPU_MAXIMUM"
  shows "sched_ok (SchedulerRescheduleLocked cpu preempted s)"
proof (cases "ProcessCurrentThreads s ! cpu")
  case None
  then show ?thesis using ok by (simp add: SchedulerRescheduleLocked_def)
next
  case (Some c)
  have P: "parted s cpu c" by (rule sched_ok_parted [OF ok cpu Some])
  have "at_large s c" using ok cpu Some unfolding sched_ok_def by blast
  then have w: "wait_channel (threads s ! c) = 0" by (simp add: at_large_def)
  show ?thesis
    using reschedule_effect(1) [OF P w refl, of preempted] w parted_sched_ok
    unfolding kept_running_def gave_way_def by metis
qed

lemma SchedulerYield_ok: "sched_ok s \<Longrightarrow> cpu < PER_CPU_MAXIMUM \<Longrightarrow> sched_ok (SchedulerYield cpu s)"
  by (simp add: SchedulerYield_def reschedule_ok)

lemma SchedulerTick_ok:
  "sched_ok s \<Longrightarrow> cpu < PER_CPU_MAXIMUM \<Longrightarrow> sched_ok (SchedulerHandleTick (\<lambda>s. s) cpu locks level s)"
  by (simp add: SchedulerHandleTick_def Let_def reschedule_ok split: option.split)

subsection \<open>Sleeping\<close>

text \<open>A thread off every queue and processor may be changed freely, its links apart.\<close>

lemma set_apart_ok:
  assumes ok: "sched_ok s" and t: "\<not> queued (threads s ! t)"
    and apart: "\<And>q. q < PER_CPU_MAXIMUM \<Longrightarrow> ProcessCurrentThreads s ! q \<noteq> Some t \<and> SchedulerIdleThreads s ! q \<noteq> Some t"
    and f: "queue_next (f (threads s ! t)) = queue_next (threads s ! t)" "queued (f (threads s ! t)) = queued (threads s ! t)"
      "processor (f (threads s ! t)) = processor (threads s ! t)"
  shows "sched_ok (set_thread t f s)"
proof -
  let ?s = "set_thread t f s"
  obtain ls where "queues_ok s ls" using ok by (auto simp: sched_ok_def)
  then have Q: "queues_ok ?s ls" by (rule queues_ok_links) (rule set_thread_links; use f in simp)
  have large: "at_large ?s u" if "at_large s u" "u \<noteq> t" for u using that by (simp add: at_large_def)
  show ?thesis
    unfolding sched_ok_def
  proof (intro conjI allI impI)
    show "\<exists>ls. queues_ok ?s ls" using Q by blast
    show "at_large ?s i" if "q < PER_CPU_MAXIMUM" "SchedulerIdleThreads ?s ! q = Some i" for q i
      using that ok apart [OF that(1)] by (intro large) (auto simp: sched_ok_def)
    show "at_large ?s i" if "q < PER_CPU_MAXIMUM" "ProcessCurrentThreads ?s ! q = Some i" for q i
      using that ok apart [OF that(1)] by (intro large) (auto simp: sched_ok_def)
    show "thread_state (threads ?s ! u) = THREAD_READY" "wait_channel (threads ?s ! u) = 0"
      if "u < length (threads ?s)" "queued (threads ?s ! u)" for u
      using that ok t f by (auto simp: sched_ok_def split: if_splits)
  qed (use ok in \<open>simp_all add: sched_ok_def\<close>)
qed

lemma SchedulerSleep_effect:
  assumes ok: "sched_ok s" and cpu: "cpu < PER_CPU_MAXIMUM" and can: "SchedulerCanSleep cpu s"
    and c: "ProcessCurrentThreads s ! cpu = Some c"
  shows "sched_ok (SchedulerSleep cpu channel s)"
    and "SchedulerIdleThreads s ! cpu \<noteq> None \<Longrightarrow> thread_used (threads s ! c) \<Longrightarrow>
      sleeping (SchedulerSleep cpu channel s) channel c \<and> (\<exists>n. n \<noteq> c \<and>
        ProcessCurrentThreads (SchedulerSleep cpu channel s) = (ProcessCurrentThreads s)[cpu := Some n]) \<and>
      affinity (threads (SchedulerSleep cpu channel s) ! c) = affinity (threads s ! c) \<and>
      same_machine (without cpu s) (without cpu (SchedulerSleep cpu channel s))"
proof -
  define s1 where "s1 = set_thread c (\<lambda>th. th\<lparr>wait_channel := channel, thread_state := THREAD_BLOCKED\<rparr>) s"
  define s2 where "s2 = SchedulerRescheduleLocked cpu False s1"
  have P: "parted s cpu c" by (rule sched_ok_parted [OF ok cpu c])
  have len: "cpu < length (ProcessCurrentThreads s)" "c < length (threads s)" using P cpu by (simp_all add: parted_def)
  have notidle: "SchedulerIdleThreads s ! cpu \<noteq> Some c" using can c by (auto simp: SchedulerCanSleep_def)
  have "sched_ok (without cpu s1)"
    unfolding s1_def without_operations [symmetric]
  proof (rule set_apart_ok)
    show "ProcessCurrentThreads (without cpu s) ! q \<noteq> Some c \<and> SchedulerIdleThreads (without cpu s) ! q \<noteq> Some c"
      if "q < PER_CPU_MAXIMUM" for q
      using P notidle that by (cases "q = cpu") (auto simp: parted_def)
  qed (use P in \<open>simp_all add: parted_def\<close>)
  then have P1: "parted s1 cpu c" using P by (simp add: parted_def s1_def)
  have st: "thread_state (threads s1 ! c) = THREAD_BLOCKED" "wait_channel (threads s1 ! c) = channel"
    "affinity (threads s1 ! c) = affinity (threads s ! c)" "thread_used (threads s1 ! c) = thread_used (threads s ! c)"
    using len by (simp_all add: s1_def)
  have same: "SchedulerIdleThreads s1 = SchedulerIdleThreads s" "ProcessCurrentThreads s1 = ProcessCurrentThreads s"
    "same_machine (without cpu s) (without cpu s1)"
    by (simp_all add: s1_def same_machine_def) (simp add: without_def)
  have run: "SchedulerSleep cpu channel s =
      (if ProcessCurrentThreads s2 ! cpu = Some c then SleepResume cpu s2 else s2)"
    using can c by (simp add: SchedulerSleep_def SleepBegin_def SleepMark_def Let_def s1_def s2_def)
  have pre: "thread_state (threads s1 ! c) = THREAD_RUNNING \<Longrightarrow> wait_channel (threads s1 ! c) = 0" using st(1) by simp
  note R = reschedule_effect [OF P1 pre s2_def]
  have away: "ProcessCurrentThreads s2 ! cpu \<noteq> Some c \<and> sched_ok s2" if "gave_way s1 s2 cpu c"
    using that len(1) same(2) unfolding gave_way_def by auto
  show "sched_ok (SchedulerSleep cpu channel s)"
  proof (cases "gave_way s1 s2 cpu c")
    case True
    then show ?thesis using away run by simp
  next
    case False
    then have K: "parted s2 cpu c" using R(1) by (simp add: kept_running_def)
    then have cur: "ProcessCurrentThreads s2 ! cpu = Some c" "c < length (threads s2)" by (simp_all add: parted_def)
    let ?s = "set_thread c (\<lambda>th. th\<lparr>wait_channel := 0, thread_state := THREAD_RUNNING\<rparr>) s2"
    have "sched_ok (without cpu ?s)"
      unfolding without_operations [symmetric]
    proof (rule set_apart_ok)
      have "SchedulerIdleThreads s2 = SchedulerIdleThreads s1" using R(1) False by (simp add: kept_running_def same_machine_def)
      then show "ProcessCurrentThreads (without cpu s2) ! q \<noteq> Some c \<and> SchedulerIdleThreads (without cpu s2) ! q \<noteq> Some c"
        if "q < PER_CPU_MAXIMUM" for q
        using K notidle that same(1) by (cases "q = cpu") (auto simp: parted_def)
    qed (use K in \<open>simp_all add: parted_def\<close>)
    then have "parted ?s cpu c" using K by (simp add: parted_def)
    then have "sched_ok ?s" by (rule parted_sched_ok) (use cur in simp)
    then show ?thesis using run cur by (simp add: SleepResume_def)
  qed
  assume idle: "SchedulerIdleThreads s ! cpu \<noteq> None" and used: "thread_used (threads s ! c)"
  then have G: "gave_way s1 s2 cpu c" using R(2) st(1) notidle same(1) by auto
  then have "SchedulerSleep cpu channel s = s2" using away run by simp
  then show "sleeping (SchedulerSleep cpu channel s) channel c \<and> (\<exists>n. n \<noteq> c \<and>
        ProcessCurrentThreads (SchedulerSleep cpu channel s) = (ProcessCurrentThreads s)[cpu := Some n]) \<and>
      affinity (threads (SchedulerSleep cpu channel s) ! c) = affinity (threads s ! c) \<and>
      same_machine (without cpu s) (without cpu (SchedulerSleep cpu channel s))"
    using G st same used same_machine_trans [OF same(3)] unfolding gave_way_def by (auto simp: sleeping_def)
qed

end
