(* ===== verification/SchedulerInterleaving.thy ===== *)
theory SchedulerInterleaving
  imports SchedulerSteps
begin

text \<open>
  The scheduler (\<open>kernel/proc/sched.c\<close>) upon several processors at once.  The source takes no
  lock across a reschedule, a sleep or a wake: only a run queue is locked, while it is changed.
  Each processor therefore has a phase, which says how far it is through such an operation, and
  any processor may take the next step.  Within a processor the steps are in the order of the
  code, interrupts being masked there for the length of the operation.

  Two assumptions are guards of the steps.  A thread sleeps only where its affinity names its
  own processor alone and that processor has an idle thread
  (\<open>docs/design/SCHEDULER.md\<close>, section 3: a user thread is confined to the bootstrap processor,
  which is why its calls may use what is not locked).  And no two processors have found the same
  sleeper at the same moment.  What happens without the first is \<open>unconfined_sleeper_runs_twice\<close>.
\<close>

subsection \<open>Phases\<close>

text \<open>Why a processor reschedules.\<close>

datatype Errand = Yielding | Ticking | Sleeping

text \<open>
  How far it has come: outside the scheduler; in \<open>SchedulerSleep\<close>, the channel and the state
  written; in the reschedule, the queue asked, or about to switch; back in \<open>SchedulerSleep\<close> without
  a switch; in \<open>SchedulerWake\<close>, a sleeper having passed the test.
\<close>

datatype Phase = Running | Marked | Taken Errand "nat option" | Leaving Errand "nat option" | Resuming | Found nat

definition returned :: "Errand \<Rightarrow> Phase" where
  "returned e = (if e = Sleeping then Resuming else Running)"

text \<open>The thread a processor has taken from its queue, or means to switch to.\<close>

fun hand :: "Phase \<Rightarrow> nat option" where
  "hand (Taken e n) = n"
| "hand (Leaving e n) = n"
| "hand f = None"

fun asleep :: "Phase \<Rightarrow> bool" where
  "asleep Marked = True"
| "asleep (Taken e n) = (e = Sleeping)"
| "asleep (Leaving e n) = (e = Sleeping)"
| "asleep f = False"

text \<open>The phases in which the thread still current may stand in a queue.\<close>

fun departing :: "Phase \<Rightarrow> bool" where
  "departing (Leaving e n) = True"
| "departing f = asleep f"

definition fresh_thread :: "sched_state \<Rightarrow> (nat \<Rightarrow> Phase) \<Rightarrow> nat \<Rightarrow> bool" where
  "fresh_thread s ph t \<longleftrightarrow> t < length (threads s) \<and> thread_state (threads s ! t) = THREAD_CREATED \<and>
     wait_channel (threads s ! t) = 0 \<and> (\<forall>q < PER_CPU_MAXIMUM. ProcessCurrentThreads s ! q \<noteq> Some t \<and>
       SchedulerIdleThreads s ! q \<noteq> Some t \<and> hand (ph q) \<noteq> Some t)"

inductive cpu_step :: "sched_state \<times> (nat \<Rightarrow> Phase) \<Rightarrow> sched_state \<times> (nat \<Rightarrow> Phase) \<Rightarrow> bool" where
  takes: "p < PER_CPU_MAXIMUM \<Longrightarrow> ph p = Running \<and> e \<noteq> Sleeping \<or> ph p = Marked \<and> e = Sleeping \<Longrightarrow>
    SchedulerDequeue p s = (s', n) \<Longrightarrow> cpu_step (s, ph) (s', ph(p := Taken e n))"
| judges: "p < PER_CPU_MAXIMUM \<Longrightarrow> ph p = Taken e n \<Longrightarrow> ProcessCurrentThreads s ! p = Some c \<Longrightarrow>
    RescheduleJudge p (e = Ticking) c n s = (s', verdict) \<Longrightarrow>
    cpu_step (s, ph) (s', ph(p := (case verdict of None \<Rightarrow> returned e | Some n \<Rightarrow> Leaving e n)))"
| switches: "p < PER_CPU_MAXIMUM \<Longrightarrow> ph p = Leaving e n \<Longrightarrow> ProcessCurrentThreads s ! p = Some c \<Longrightarrow>
    cpu_step (s, ph) (SchedulerSwitchTo p c n s, ph(p := (if n = None \<or> n = Some c then returned e else Running)))"
| marks: "p < PER_CPU_MAXIMUM \<Longrightarrow> ph p = Running \<Longrightarrow> SchedulerCanSleep p s \<Longrightarrow> channel \<noteq> 0 \<Longrightarrow>
    ProcessCurrentThreads s ! p = Some c \<Longrightarrow> affinity (threads s ! c) = SCHED_AFFINITY_OF p \<Longrightarrow>
    p < PerCpuOnlineCount s \<Longrightarrow> SchedulerIdleThreads s ! p \<noteq> None \<Longrightarrow>
    cpu_step (s, ph) (SleepMark p channel s, ph(p := Marked))"
| resumes: "p < PER_CPU_MAXIMUM \<Longrightarrow> ph p \<in> {Running, Resuming} \<Longrightarrow>
    cpu_step (s, ph) (SleepResume p s, ph(p := Running))"
| finds: "p < PER_CPU_MAXIMUM \<Longrightarrow> ph p = Running \<Longrightarrow> t < length (threads s) \<Longrightarrow> sleeping s channel t \<Longrightarrow> channel \<noteq> 0 \<Longrightarrow>
    (\<forall>q < PER_CPU_MAXIMUM. ph q \<noteq> Found t) \<Longrightarrow> cpu_step (s, ph) (s, ph(p := Found t))"
| wakes: "p < PER_CPU_MAXIMUM \<Longrightarrow> ph p = Found t \<Longrightarrow>
    SchedulerAdmit (Some t) (set_thread t (\<lambda>th. th\<lparr>wait_channel := 0\<rparr>) s) = (s', admitted) \<Longrightarrow>
    cpu_step (s, ph) (s', ph(p := Running))"
| admits: "p < PER_CPU_MAXIMUM \<Longrightarrow> ph p = Running \<Longrightarrow> fresh_thread s ph t \<Longrightarrow>
    SchedulerAdmit (Some t) s = (s', admitted) \<Longrightarrow> cpu_step (s, ph) (s', ph)"

subsection \<open>What holds between the steps\<close>

text \<open>A sleeper is confined: its mask is that of one processor, and it is current upon no other.\<close>

definition confined :: "sched_state \<Rightarrow> nat \<Rightarrow> bool" where
  "confined s t \<longleftrightarrow> (\<exists>h < PER_CPU_MAXIMUM. h < PerCpuOnlineCount s \<and> affinity (threads s ! t) = SCHED_AFFINITY_OF h \<and>
     (\<forall>q < PER_CPU_MAXIMUM. ProcessCurrentThreads s ! q = Some t \<longrightarrow> q = h))"

definition thread_ok :: "sched_state \<Rightarrow> nat \<Rightarrow> bool" where
  "thread_ok s t \<longleftrightarrow> (queued (threads s ! t) \<longrightarrow> thread_state (threads s ! t) = THREAD_READY \<and> wait_channel (threads s ! t) = 0) \<and>
     (wait_channel (threads s ! t) \<noteq> 0 \<longrightarrow> confined s t)"

definition current_ok :: "sched_state \<Rightarrow> Phase \<Rightarrow> nat \<Rightarrow> nat \<Rightarrow> bool" where
  "current_ok s f p c \<longleftrightarrow> c < length (threads s) \<and>
     (queued (threads s ! c) \<longrightarrow> processor (threads s ! c) = p \<and> departing f \<and> f \<noteq> Leaving Yielding None \<and> f \<noteq> Leaving Ticking None) \<and>
     (wait_channel (threads s ! c) \<noteq> 0 \<longrightarrow> asleep f) \<and>
     (asleep f \<longrightarrow> thread_state (threads s ! c) \<noteq> THREAD_RUNNING)"

definition lane_ok :: "sched_state \<Rightarrow> Phase \<Rightarrow> nat \<Rightarrow> bool" where
  "lane_ok s f p \<longleftrightarrow> (\<forall>i. SchedulerIdleThreads s ! p = Some i \<longrightarrow> at_large s i) \<and>
     (\<forall>n. hand f = Some n \<longrightarrow> at_large s n) \<and>
     (\<forall>c. ProcessCurrentThreads s ! p = Some c \<longrightarrow> current_ok s f p c) \<and>
     (asleep f \<longrightarrow> SchedulerIdleThreads s ! p \<noteq> None \<and> ProcessCurrentThreads s ! p \<noteq> None \<and>
        SchedulerIdleThreads s ! p \<noteq> ProcessCurrentThreads s ! p \<and> f \<noteq> Leaving Sleeping None) \<and>
     (\<not> asleep f \<longrightarrow> hand f \<noteq> None \<longrightarrow> hand f \<noteq> ProcessCurrentThreads s ! p) \<and>
     (\<forall>t. f = Found t \<longrightarrow> t < length (threads s) \<and> thread_used (threads s ! t) \<and>
        thread_state (threads s ! t) = THREAD_BLOCKED \<and> wait_channel (threads s ! t) \<noteq> 0)"

definition apart :: "sched_state \<Rightarrow> Phase \<Rightarrow> Phase \<Rightarrow> nat \<Rightarrow> nat \<Rightarrow> bool" where
  "apart s f g p q \<longleftrightarrow>
     (ProcessCurrentThreads s ! p \<noteq> None \<longrightarrow> ProcessCurrentThreads s ! p \<noteq> ProcessCurrentThreads s ! q \<and>
        ProcessCurrentThreads s ! p \<noteq> SchedulerIdleThreads s ! q) \<and>
     (SchedulerIdleThreads s ! p \<noteq> None \<longrightarrow> SchedulerIdleThreads s ! p \<noteq> SchedulerIdleThreads s ! q) \<and>
     (hand f \<noteq> None \<longrightarrow> hand f \<noteq> hand g \<and> hand f \<noteq> ProcessCurrentThreads s ! q \<and> hand f \<noteq> SchedulerIdleThreads s ! q) \<and>
     (\<forall>t. f = Found t \<longrightarrow> g \<noteq> Found t)"

definition machine_ok :: "sched_state \<Rightarrow> (nat \<Rightarrow> Phase) \<Rightarrow> bool" where
  "machine_ok s ph \<longleftrightarrow> (\<exists>ls. queues_ok s ls) \<and> length (threads s) < 0xFFFFFFFF \<and>
     length (SchedulerIdleThreads s) = PER_CPU_MAXIMUM \<and> length (ProcessCurrentThreads s) = PER_CPU_MAXIMUM \<and>
     (\<forall>t < length (threads s). thread_ok s t) \<and> (\<forall>p < PER_CPU_MAXIMUM. lane_ok s (ph p) p) \<and>
     (\<forall>p < PER_CPU_MAXIMUM. \<forall>q < PER_CPU_MAXIMUM. p \<noteq> q \<longrightarrow> apart s (ph p) (ph q) p q)"

text \<open>Between operations it is \<open>sched_ok\<close>, with every sleeper confined.\<close>

lemma machine_ok_running:
  assumes "sched_ok s" "\<And>t. t < length (threads s) \<Longrightarrow> wait_channel (threads s ! t) \<noteq> 0 \<Longrightarrow> confined s t"
  shows "machine_ok s (\<lambda>p. Running)"
proof -
  have "lane_ok s Running p" if "p < PER_CPU_MAXIMUM" for p
    using assms(1) that unfolding lane_ok_def sched_ok_def current_ok_def at_large_def by auto
  moreover have "apart s Running Running p q" if "p < PER_CPU_MAXIMUM" "q < PER_CPU_MAXIMUM" "p \<noteq> q" for p q
    using assms(1) that unfolding apart_def sched_ok_def by simp
  moreover have "thread_ok s t" if "t < length (threads s)" for t
    using assms that unfolding thread_ok_def sched_ok_def by simp
  ultimately show ?thesis using assms(1) unfolding machine_ok_def sched_ok_def by simp
qed

lemma machine_okI:
  assumes ok: "machine_ok s ph" and p: "p < PER_CPU_MAXIMUM" and Q: "queues_ok s' ls"
    and m: "length (threads s') = length (threads s)" "length (SchedulerIdleThreads s') = length (SchedulerIdleThreads s)"
      "length (ProcessCurrentThreads s') = length (ProcessCurrentThreads s)"
    and T: "\<And>t. t < length (threads s) \<Longrightarrow> thread_ok s' t"
    and L: "lane_ok s' f p" "\<And>q. q < PER_CPU_MAXIMUM \<Longrightarrow> q \<noteq> p \<Longrightarrow> lane_ok s' (ph q) q"
    and A: "\<And>q. q < PER_CPU_MAXIMUM \<Longrightarrow> q \<noteq> p \<Longrightarrow> apart s' f (ph q) p q \<and> apart s' (ph q) f q p"
      "\<And>q r. q < PER_CPU_MAXIMUM \<Longrightarrow> r < PER_CPU_MAXIMUM \<Longrightarrow> q \<noteq> p \<Longrightarrow> r \<noteq> p \<Longrightarrow> q \<noteq> r \<Longrightarrow>
        apart s (ph q) (ph r) q r \<Longrightarrow> apart s' (ph q) (ph r) q r"
  shows "machine_ok s' (ph(p := f))"
proof -
  have "apart s' ((ph(p := f)) q) ((ph(p := f)) r) q r"
    if "q < PER_CPU_MAXIMUM" "r < PER_CPU_MAXIMUM" "q \<noteq> r" for q r
    using that A(1) [of q] A(1) [of r] A(2) [of q r] ok p unfolding machine_ok_def by auto
  moreover have "lane_ok s' ((ph(p := f)) q) q" if "q < PER_CPU_MAXIMUM" for q using that L by auto
  ultimately show ?thesis using ok Q m T unfolding machine_ok_def by auto
qed

text \<open>What of a thread the invariant reads.\<close>

definition alike :: "Thread \<Rightarrow> Thread \<Rightarrow> bool" where
  "alike th th' \<longleftrightarrow> thread_used th' = thread_used th \<and> thread_state th' = thread_state th \<and> affinity th' = affinity th \<and>
     processor th' = processor th \<and> queued th' = queued th \<and> wait_channel th' = wait_channel th"

lemma alike_refl [simp]: "alike th th"
  by (simp add: alike_def)

lemma alike_trans: "alike a b \<Longrightarrow> alike b c \<Longrightarrow> alike a c"
  by (simp add: alike_def)

lemma same_thread_alike: "same_thread th th' \<Longrightarrow> alike th th'"
  by (simp add: alike_def same_thread_fields)

lemma apart_cong: "same_machine s s' \<Longrightarrow> apart s' f g p q = apart s f g p q"
  by (simp add: apart_def same_machine_def)

lemma apart_running: "apart s f g p q \<Longrightarrow> apart s Running g p q" "apart s g f q p \<Longrightarrow> apart s g Running q p"
  by (auto simp: apart_def)

text \<open>A thread a processor has to do with; the rest may change without it.\<close>

definition holds :: "sched_state \<Rightarrow> Phase \<Rightarrow> nat \<Rightarrow> nat \<Rightarrow> bool" where
  "holds s f p t \<longleftrightarrow> ProcessCurrentThreads s ! p = Some t \<or> SchedulerIdleThreads s ! p = Some t \<or> hand f = Some t \<or> f = Found t"

lemma at_large_cong:
  "alike (threads s ! t) (threads s' ! t) \<Longrightarrow> length (threads s') = length (threads s) \<Longrightarrow> at_large s' t = at_large s t"
  by (simp add: at_large_def alike_def)

lemma lane_ok_cong:
  assumes L: "lane_ok s f p" and m: "length (threads s') = length (threads s)"
      "SchedulerIdleThreads s' ! p = SchedulerIdleThreads s ! p" "ProcessCurrentThreads s' ! p = ProcessCurrentThreads s ! p"
    and same: "\<And>t. holds s f p t \<Longrightarrow> alike (threads s ! t) (threads s' ! t)"
  shows "lane_ok s' f p"
proof -
  have large: "at_large s' t" if "at_large s t" "holds s f p t" for t
    using that same [OF that(2)] m by (simp add: at_large_cong)
  have cur: "current_ok s' f p c" if "current_ok s f p c" "holds s f p c" for c
    using that same [OF that(2)] m by (simp add: current_ok_def alike_def)
  have found: "alike (threads s ! t) (threads s' ! t)" if "f = Found t" for t
    using same [of t] that by (simp add: holds_def)
  show ?thesis
    using L m large cur found unfolding lane_ok_def holds_def by (auto simp: alike_def)
qed

lemma thread_ok_cong:
  assumes "thread_ok s t" "alike (threads s ! t) (threads s' ! t)" "same_machine s s'"
  shows "thread_ok s' t"
  using assms by (simp add: thread_ok_def confined_def same_machine_def alike_def)

lemma machine_ok_lane:
  assumes "machine_ok s ph" "p < PER_CPU_MAXIMUM"
  shows "lane_ok s (ph p) p"
  using assms by (simp add: machine_ok_def)

lemma machine_ok_apart:
  assumes "machine_ok s ph" "p < PER_CPU_MAXIMUM" "q < PER_CPU_MAXIMUM" "q \<noteq> p"
  shows "apart s (ph p) (ph q) p q" "apart s (ph q) (ph p) q p"
  using assms by (auto simp: machine_ok_def)

text \<open>A step of processor \<open>p\<close> that changes the threads satisfying \<open>C\<close> only, none of them another's.\<close>

lemma machine_ok_step:
  assumes ok: "machine_ok s ph" and p: "p < PER_CPU_MAXIMUM" and Q: "queues_ok s' ls" and m: "same_machine s s'"
    and U: "\<And>u. \<not> C u \<Longrightarrow> alike (threads s ! u) (threads s' ! u)"
    and H: "\<And>q u. q < PER_CPU_MAXIMUM \<Longrightarrow> q \<noteq> p \<Longrightarrow> holds s (ph q) q u \<Longrightarrow> \<not> C u"
    and T: "\<And>t. t < length (threads s) \<Longrightarrow> C t \<Longrightarrow> thread_ok s' t"
    and L: "lane_ok s' f p"
    and A: "\<And>q. q < PER_CPU_MAXIMUM \<Longrightarrow> q \<noteq> p \<Longrightarrow> apart s f (ph q) p q \<and> apart s (ph q) f q p"
  shows "machine_ok s' (ph(p := f))"
proof (rule machine_okI [OF ok p Q])
  show "thread_ok s' t" if "t < length (threads s)" for t
    using that T U thread_ok_cong [OF _ _ m] ok unfolding machine_ok_def by blast
  show "lane_ok s' (ph q) q" if "q < PER_CPU_MAXIMUM" "q \<noteq> p" for q
    using m by (intro lane_ok_cong [OF machine_ok_lane [OF ok that(1)]] U H [OF that]) (simp_all add: same_machine_def)
  show "apart s' f (ph q) p q \<and> apart s' (ph q) f q p" if "q < PER_CPU_MAXIMUM" "q \<noteq> p" for q
    using A [OF that] by (simp add: apart_cong [OF m])
qed (use m L in \<open>simp_all add: same_machine_def apart_cong [OF m]\<close>)

subsection \<open>Taking a thread from the queue\<close>

lemma SchedulerDequeue_machine: "SchedulerDequeue p s = (s', n) \<Longrightarrow> same_machine s s'"
  by (auto simp: same_machine_def SchedulerDequeue_def Let_def split: option.splits)

lemma queued_free:
  assumes ok: "machine_ok s ph" and q: "q < PER_CPU_MAXIMUM" and t: "t < length (threads s)" "queued (threads s ! t)"
  shows "SchedulerIdleThreads s ! q \<noteq> Some t" "hand (ph q) \<noteq> Some t" "ph q \<noteq> Found t"
    "ProcessCurrentThreads s ! q = Some t \<Longrightarrow> processor (threads s ! t) = q \<and> departing (ph q)"
proof -
  have L: "lane_ok s (ph q) q" by (rule machine_ok_lane [OF ok q])
  have "thread_ok s t" using ok t by (simp add: machine_ok_def)
  then show "SchedulerIdleThreads s ! q \<noteq> Some t" "hand (ph q) \<noteq> Some t" "ph q \<noteq> Found t"
    "ProcessCurrentThreads s ! q = Some t \<Longrightarrow> processor (threads s ! t) = q \<and> departing (ph q)"
    using L t(2) unfolding lane_ok_def thread_ok_def at_large_def current_ok_def by auto
qed

lemma takes_ok:
  assumes ok: "machine_ok s ph" and p: "p < PER_CPU_MAXIMUM"
    and e: "ph p = Running \<and> e \<noteq> Sleeping \<or> ph p = Marked \<and> e = Sleeping" and run: "SchedulerDequeue p s = (s', n)"
  shows "machine_ok s' (ph(p := Taken e n))"
proof -
  obtain ls where Q: "queues_ok s ls" using ok by (auto simp: machine_ok_def)
  note L = machine_ok_lane [OF ok p]
  note A = machine_ok_apart [OF ok p]
  have m: "same_machine s s'" by (rule SchedulerDequeue_machine [OF run])
  show ?thesis
  proof (cases "ls p")
    case Nil
    then have s': "s' = s" "n = None" using SchedulerDequeue_empty [OF Q p] run by auto
    show ?thesis
      unfolding s'
    proof (rule machine_ok_step [where C = "\<lambda>u. False", OF ok p Q])
      show "lane_ok s (Taken e None) p" using L e unfolding lane_ok_def current_ok_def by auto
      show "apart s (Taken e None) (ph q) p q \<and> apart s (ph q) (Taken e None) q p" if "q < PER_CPU_MAXIMUM" "q \<noteq> p" for q
        using A [OF that] unfolding apart_def by auto
    qed simp_all
  next
    case (Cons t ts)
    obtain D: "n = Some t" "queues_ok s' (ls(p := ts))" "\<not> queued (threads s' ! t)"
        "\<And>u. u \<noteq> t \<Longrightarrow> threads s' ! u = (threads s ! u)\<lparr>queue_next := queue_next (threads s' ! u)\<rparr>"
        "threads s' ! t = (threads s ! t)\<lparr>queue_next := None, queued := False\<rparr>" "t < length (threads s)"
      by (rule SchedulerDequeue_effect [OF Q p Cons]) (use run in auto)
    have t: "queued (threads s ! t)" "processor (threads s ! t) = p" using queue_at(5) [OF Q p, of t] Cons by auto
    have tok: "thread_ok s t" using ok D(6) by (simp add: machine_ok_def)
    have st: "thread_state (threads s' ! t) = THREAD_READY" "wait_channel (threads s' ! t) = 0"
      using tok t(1) D(5) by (simp_all add: thread_ok_def)
    have U: "alike (threads s ! u) (threads s' ! u)" if "u \<noteq> t" for u
      using D(4) [OF that] same_thread_alike unfolding same_thread_def by blast
    note F = queued_free [OF ok _ D(6) t(1)]
    have tn: "ProcessCurrentThreads s ! p = Some t \<Longrightarrow> e = Sleeping" using F(4) [OF p] e by auto
    show ?thesis
    proof (rule machine_ok_step [where C = "\<lambda>u. u = t", OF ok p D(2) m])
      show "u \<noteq> t" if "q < PER_CPU_MAXIMUM" "q \<noteq> p" "holds s (ph q) q u" for q u
        using F [OF that(1)] that t(2) unfolding holds_def by auto
      show "thread_ok s' u" if "u = t" for u using st D(3) that by (simp add: thread_ok_def)
      have "at_large s' t" using D(3,6) st m by (simp add: at_large_def same_machine_def)
      moreover have "at_large s' i" if "SchedulerIdleThreads s' ! p = Some i" for i
        using that F(1) [OF p] L m U [of i] at_large_cong [of s i s'] unfolding lane_ok_def same_machine_def by auto
      moreover have "current_ok s' (Taken e n) p c" if "ProcessCurrentThreads s' ! p = Some c" for c
      proof (cases "c = t")
        case True
        then show ?thesis using D(3,6) st m by (simp add: current_ok_def same_machine_def)
      next
        case False
        have "current_ok s (ph p) p c" using L that m by (simp add: lane_ok_def same_machine_def)
        then show ?thesis using U [OF False] e m by (auto simp: current_ok_def alike_def same_machine_def)
      qed
      ultimately show "lane_ok s' (Taken e n) p"
        using L e D(1) tn m unfolding lane_ok_def same_machine_def by auto
      show "apart s (Taken e n) (ph q) p q \<and> apart s (ph q) (Taken e n) q p" if "q < PER_CPU_MAXIMUM" "q \<noteq> p" for q
        using A [OF that] F [OF that(1)] that(2) t(2) D(1) unfolding apart_def by auto
    qed (use U in auto)
  qed
qed

subsection \<open>Judging and switching\<close>

lemma enqueue_alike:
  assumes Q: "queues_ok s ls" and p: "p < PER_CPU_MAXIMUM" and t: "t < length (threads s)" "\<not> queued (threads s ! t)"
  shows "\<exists>ls'. queues_ok (SchedulerEnqueue p t s) ls'"
    and "u \<noteq> t \<Longrightarrow> alike (threads s ! u) (threads (SchedulerEnqueue p t s) ! u)"
    and "queued (threads (SchedulerEnqueue p t s) ! t)" "processor (threads (SchedulerEnqueue p t s) ! t) = p"
      "thread_state (threads (SchedulerEnqueue p t s) ! t) = THREAD_READY"
      "wait_channel (threads (SchedulerEnqueue p t s) ! t) = wait_channel (threads s ! t)"
  using SchedulerEnqueue_effect [OF assms] same_thread_alike unfolding same_thread_def by auto

lemma judges_ok:
  assumes ok: "machine_ok s ph" and p: "p < PER_CPU_MAXIMUM" and f: "ph p = Taken e n"
    and c: "ProcessCurrentThreads s ! p = Some c" and run: "RescheduleJudge p (e = Ticking) c n s = (s', verdict)"
  shows "machine_ok s' (ph(p := (case verdict of None \<Rightarrow> returned e | Some n \<Rightarrow> Leaving e n)))"
proof -
  obtain ls where Q: "queues_ok s ls" using ok by (auto simp: machine_ok_def)
  note L = machine_ok_lane [OF ok p, unfolded f]
  note A = machine_ok_apart [OF ok p, unfolded f]
  have cok: "current_ok s (Taken e n) p c" using L c by (simp add: lane_ok_def)
  define s2 where "s2 = (if e = Ticking
      then set_thread c (\<lambda>th. th\<lparr>preemptions := preemptions th + 1\<rparr>)
             (s\<lparr>SchedulerPreemptions := SchedulerPreemptions s + 1\<rparr>) else s)"
  have U2: "alike (threads s ! u) (threads s2 ! u)" for u
    using cok by (cases "u = c") (auto simp: s2_def alike_def current_ok_def)
  have m2: "same_machine s s2" by (simp add: s2_def same_machine_def)
  have Q2: "queues_ok s2 ls"
  proof -
    have "same_links s (s\<lparr>SchedulerPreemptions := k\<rparr>)" for k by (simp add: same_links_def)
    then have "same_links s s2" unfolding s2_def by (auto intro!: same_links_trans [OF _ set_thread_links])
    then show ?thesis by (rule queues_ok_links [OF Q])
  qed
  consider (stays) "n = None" "Some c = SchedulerIdleThreads s ! p \<or> thread_state (threads s ! c) = THREAD_RUNNING"
      "verdict = None" "s' = s \<or> (\<exists>k. s' = s\<lparr>SchedulerIdles := k\<rparr>)"
    | (goes) n' where "\<not> (n = None \<and> (Some c = SchedulerIdleThreads s ! p \<or> thread_state (threads s ! c) = THREAD_RUNNING))"
      "n' = (if n = None then SchedulerIdleThreads s ! p else n)" "verdict = Some n'"
      "s' = (if Some c \<noteq> SchedulerIdleThreads s ! p \<and> thread_state (threads s ! c) = THREAD_RUNNING
             then SchedulerEnqueue p c s2 else s2)"
    using run U2 [of c] m2 unfolding RescheduleJudge_def Let_def s2_def [symmetric]
    by (auto simp: alike_def same_machine_def split: if_splits)
  then show ?thesis
  proof cases
    case stays
    have "\<not> asleep (Taken e n)" using L stays(2) c cok unfolding lane_ok_def current_ok_def by (auto simp del: asleep.simps)
    then have e: "returned e = Running" "e \<noteq> Sleeping" by (simp_all add: returned_def)
    have "machine_ok s' (ph(p := Running))"
    proof (rule machine_ok_step [where C = "\<lambda>u. False", OF ok p, of s' ls])
      show "queues_ok s' ls" using Q stays(4) by (auto simp: queues_ok_def queue_is_def)
      show m: "same_machine s s'" using stays(4) by (auto simp: same_machine_def)
      have "lane_ok s Running p" using L e unfolding lane_ok_def current_ok_def by auto
      then show "lane_ok s' Running p" by (rule lane_ok_cong) (use m stays(4) in \<open>auto simp: same_machine_def\<close>)
      show "apart s Running (ph q) p q \<and> apart s (ph q) Running q p" if "q < PER_CPU_MAXIMUM" "q \<noteq> p" for q
        using A [OF that] unfolding apart_def by auto
      show "alike (threads s ! u) (threads s' ! u)" for u using stays(4) by auto
    qed simp_all
    then show ?thesis using stays(3) e by simp
  next
    case goes
    let ?again = "Some c \<noteq> SchedulerIdleThreads s ! p \<and> thread_state (threads s ! c) = THREAD_RUNNING"
    have c2: "c < length (threads s2)" using cok m2 by (simp add: current_ok_def same_machine_def)
    have calm: "\<not> queued (threads s ! c) \<and> wait_channel (threads s ! c) = 0 \<and> e \<noteq> Sleeping" if ?again
      using cok that unfolding current_ok_def by auto
    then have calm2: "\<not> queued (threads s2 ! c)" if ?again using that U2 [of c] by (simp add: alike_def)
    note E = enqueue_alike [OF Q2 p c2 calm2]
    have Q': "\<exists>ls. queues_ok s' ls" using goes(4) E(1) Q2 by (auto split: if_splits)
    then obtain ls' where Q': "queues_ok s' ls'" by blast
    have m: "same_machine s s'" using goes(4) m2 same_machine_trans [OF m2 SchedulerEnqueue_machine] by simp
    have U: "alike (threads s ! u) (threads s' ! u)" if "\<not> (?again \<and> u = c)" for u
      using goes(4) alike_trans [OF U2 E(2)] U2 that by (cases ?again) auto
    have self: "queued (threads s' ! c) \<and> processor (threads s' ! c) = p \<and> thread_state (threads s' ! c) = THREAD_READY \<and>
        wait_channel (threads s' ! c) = 0" if ?again
      using E(3-6) that goes(4) calm U2 [of c] by (simp add: alike_def)
    have "machine_ok s' (ph(p := Leaving e n'))"
    proof (rule machine_ok_step [where C = "\<lambda>u. ?again \<and> u = c", OF ok p Q' m U])
      show "\<not> (?again \<and> u = c)" if "q < PER_CPU_MAXIMUM" "q \<noteq> p" "holds s (ph q) q u" for q u
      proof
        assume u: "?again \<and> u = c"
        then have w: "wait_channel (threads s ! c) = 0" using calm by blast
        have "ph q \<noteq> Found c" using machine_ok_lane [OF ok that(1)] w unfolding lane_ok_def by auto
        then show False using A [OF that(1,2)] c that(3) u unfolding holds_def apart_def by auto
      qed
      show "thread_ok s' t" if "?again \<and> t = c" for t using self that by (simp add: thread_ok_def)
      have keep: "at_large s' t" if "at_large s t" "\<not> (?again \<and> t = c)" for t
        using that(1) U [OF that(2)] m by (simp add: at_large_cong same_machine_def)
      have idle: "SchedulerIdleThreads s' = SchedulerIdleThreads s" "ProcessCurrentThreads s' = ProcessCurrentThreads s"
        "length (threads s') = length (threads s)" using m by (simp_all add: same_machine_def)
      have "at_large s' i" if "SchedulerIdleThreads s' ! p = Some i" for i
        using that L idle by (intro keep) (auto simp: lane_ok_def)
      moreover have "at_large s' m" if "hand (Leaving e n') = Some m" for m
      proof (rule keep)
        show "at_large s m" using that L goes(2) unfolding lane_ok_def by (auto split: if_splits)
        show "\<not> (?again \<and> m = c)" using that L goes(1,2) c calm unfolding lane_ok_def by (auto split: if_splits)
      qed
      moreover have "current_ok s' (Leaving e n') p c"
      proof (cases ?again)
        case True
        moreover have "n' \<noteq> None" using goes(1,2) True by auto
        ultimately show ?thesis using self [OF True] calm cok idle(3) by (auto simp: current_ok_def)
      next
        case False
        then show ?thesis using U [of c] cok idle(3) by (auto simp: current_ok_def alike_def)
      qed
      moreover have "\<not> asleep (Leaving e n') \<longrightarrow> n' \<noteq> None \<longrightarrow> n' \<noteq> Some c"
        using L goes(1,2) c unfolding lane_ok_def by (auto split: if_splits)
      moreover have "asleep (Leaving e n') \<longrightarrow> n' \<noteq> None" using L goes(2) unfolding lane_ok_def by auto
      ultimately show "lane_ok s' (Leaving e n') p"
        using L c idle unfolding lane_ok_def by auto
      show "apart s (Leaving e n') (ph q) p q \<and> apart s (ph q) (Leaving e n') q p" if "q < PER_CPU_MAXIMUM" "q \<noteq> p" for q
        using A [OF that] goes(2) unfolding apart_def by (auto split: if_splits)
    qed
    then show ?thesis using goes(3) by simp
  qed
qed

lemma switches_ok:
  assumes ok: "machine_ok s ph" and p: "p < PER_CPU_MAXIMUM" and f: "ph p = Leaving e n"
    and c: "ProcessCurrentThreads s ! p = Some c"
  shows "machine_ok (SchedulerSwitchTo p c n s) (ph(p := (if n = None \<or> n = Some c then returned e else Running)))"
proof -
  obtain ls where Q: "queues_ok s ls" using ok by (auto simp: machine_ok_def)
  note L = machine_ok_lane [OF ok p, unfolded f]
  note A = machine_ok_apart [OF ok p, unfolded f]
  have cok: "current_ok s (Leaving e n) p c" using L c by (simp add: lane_ok_def)
  show ?thesis
  proof (cases "n = None \<or> n = Some c")
    case True
    then have s': "SchedulerSwitchTo p c n s = s" by (auto simp: SchedulerSwitchTo_def)
    have "machine_ok s (ph(p := returned e))"
    proof (rule machine_ok_step [where C = "\<lambda>u. False", OF ok p Q])
      have "current_ok s (returned e) p c"
        using True cok L c unfolding lane_ok_def current_ok_def at_large_def returned_def
        by (cases e) auto
      then show "lane_ok s (returned e) p" using L c unfolding lane_ok_def returned_def by auto
      show "apart s (returned e) (ph q) p q \<and> apart s (ph q) (returned e) q p" if "q < PER_CPU_MAXIMUM" "q \<noteq> p" for q
        using A [OF that] unfolding apart_def returned_def by auto
    qed simp_all
    then show ?thesis using s' True by simp
  next
    case False
    then obtain m where n: "n = Some m" "m \<noteq> c" by auto
    let ?s = "SchedulerSwitchTo p c n s"
    have large: "at_large s m" using L n by (simp add: lane_ok_def)
    have len: "m < length (threads s)" "c < length (threads s)" using large cok by (simp_all add: at_large_def current_ok_def)
    have th: "threads ?s ! m = (threads s ! m)\<lparr>slices := slices (threads s ! m) + 1, thread_state := THREAD_RUNNING\<rparr>"
      "threads ?s ! c = (threads s ! c)\<lparr>thread_state :=
         (if thread_state (threads s ! c) = THREAD_RUNNING then THREAD_READY else thread_state (threads s ! c))\<rparr>"
      "\<And>u. u \<noteq> m \<Longrightarrow> u \<noteq> c \<Longrightarrow> threads ?s ! u = threads s ! u"
      "ProcessCurrentThreads ?s = (ProcessCurrentThreads s)[p := Some m]"
      "SchedulerIdleThreads ?s = SchedulerIdleThreads s" "length (threads ?s) = length (threads s)"
      "PerCpuOnlineCount ?s = PerCpuOnlineCount s"
      using n len by (simp_all add: SchedulerSwitchTo_def ThreadSwitchTo_def Let_def)
    have plen: "p < length (ProcessCurrentThreads s)" using ok p by (simp add: machine_ok_def)
    have same: "queued (threads ?s ! u) = queued (threads s ! u)" "wait_channel (threads ?s ! u) = wait_channel (threads s ! u)"
      "affinity (threads ?s ! u) = affinity (threads s ! u)" for u
      using th(1,2) th(3) [of u] by (cases "u = m"; cases "u = c"; simp)+
    have U: "alike (threads s ! u) (threads ?s ! u)" if "u \<noteq> m" "u = c \<Longrightarrow> thread_state (threads s ! c) \<noteq> THREAD_RUNNING" for u
      using th(2,3) that by (cases "u = c") (auto simp: alike_def)
    have links: "queue_next (threads ?s ! u) = queue_next (threads s ! u)" "processor (threads ?s ! u) = processor (threads s ! u)" for u
      using th(1,2) th(3) [of u] by (cases "u = m"; cases "u = c"; simp)+
    have queues: "SchedulerQueues ?s = SchedulerQueues s" using n by (simp add: SchedulerSwitchTo_def ThreadSwitchTo_def Let_def)
    have Q': "queues_ok ?s ls"
      by (rule queues_ok_links [OF Q]) (simp add: same_links_def links queues same th(6))
    have conf: "confined ?s t" if "confined s t" "t \<noteq> m" for t
      using that th(4,5,7) same(3) plen by (auto simp: confined_def nth_list_update split: if_splits)
    have "machine_ok ?s (ph(p := Running))"
    proof (rule machine_okI [OF ok p Q'])
      show "thread_ok ?s t" if "t < length (threads s)" for t
      proof -
        have t: "thread_ok s t" using ok that by (simp add: machine_ok_def)
        have "t = m \<Longrightarrow> \<not> queued (threads s ! t) \<and> wait_channel (threads s ! t) = 0" using large by (auto simp: at_large_def)
        moreover have "t \<noteq> m \<Longrightarrow> thread_state (threads s ! t) = THREAD_READY \<Longrightarrow> thread_state (threads ?s ! t) = THREAD_READY"
          using th(2,3) by (cases "t = c") auto
        ultimately show ?thesis using t conf [of t] same by (auto simp: thread_ok_def)
      qed
      show "lane_ok ?s (ph q) q" if q: "q < PER_CPU_MAXIMUM" "q \<noteq> p" for q
      proof (rule lane_ok_cong [OF machine_ok_lane [OF ok q(1)]])
        fix u assume h: "holds s (ph q) q u"
        have f: "ph q = Found v \<Longrightarrow> wait_channel (threads s ! v) \<noteq> 0 \<and> thread_state (threads s ! v) = THREAD_BLOCKED" for v
          using machine_ok_lane [OF ok q(1)] by (simp add: lane_ok_def)
        show "alike (threads s ! u) (threads ?s ! u)"
          using h A [OF q] n c large f [of u] by (intro U) (auto simp: holds_def apart_def at_large_def)
      qed (use th q in simp_all)
      have "at_large ?s t \<longleftrightarrow> at_large s t" for t using same th(6) by (simp add: at_large_def)
      then show "lane_ok ?s Running p"
        using L large th(4-6) same plen unfolding lane_ok_def current_ok_def at_large_def by auto
      show "apart ?s Running (ph q) p q \<and> apart ?s (ph q) Running q p" if "q < PER_CPU_MAXIMUM" "q \<noteq> p" for q
        using A [OF that] n(1) th(4,5) that plen unfolding apart_def by auto
    qed (use th plen in \<open>simp_all add: apart_def\<close>)
    then show ?thesis using n by simp
  qed
qed

subsection \<open>Sleeping, waking and admitting\<close>

text \<open>A change to one thread's state and channel, off the queues and held by no other processor.\<close>

lemma set_state_ok:
  assumes ok: "machine_ok s ph" and p: "p < PER_CPU_MAXIMUM" and t: "t < length (threads s)"
    and g: "g = (\<lambda>th. th\<lparr>wait_channel := w, thread_state := st\<rparr>)"
    and H: "\<And>q. q < PER_CPU_MAXIMUM \<Longrightarrow> q \<noteq> p \<Longrightarrow> \<not> holds s (ph q) q t"
    and T: "thread_ok (set_thread t g s) t" and L: "lane_ok (set_thread t g s) f p"
    and A: "hand f = None" "\<And>v. f \<noteq> Found v"
  shows "machine_ok (set_thread t g s) (ph(p := f))"
proof -
  obtain ls where Q: "queues_ok s ls" using ok by (auto simp: machine_ok_def)
  have Q': "queues_ok (set_thread t g s) ls"
    by (rule queues_ok_links [OF Q]) (rule set_thread_links; simp add: g)
  show ?thesis
  proof (rule machine_ok_step [where C = "\<lambda>u. u = t", OF ok p Q'])
    show "same_machine s (set_thread t g s)" by (simp add: same_machine_def)
    show "alike (threads s ! u) (threads (set_thread t g s) ! u)" if "u \<noteq> t" for u using that by simp
    show "apart s f (ph q) p q \<and> apart s (ph q) f q p" if "q < PER_CPU_MAXIMUM" "q \<noteq> p" for q
      using machine_ok_apart [OF ok p that] A unfolding apart_def by auto
  qed (use H T L in auto)
qed

lemma current_alone:
  assumes ok: "machine_ok s ph" and p: "p < PER_CPU_MAXIMUM" and c: "ProcessCurrentThreads s ! p = Some c"
    and w: "wait_channel (threads s ! c) = 0" and q: "q < PER_CPU_MAXIMUM" "q \<noteq> p"
  shows "\<not> holds s (ph q) q c"
proof -
  have "ph q \<noteq> Found c" using machine_ok_lane [OF ok q(1)] w by (auto simp: lane_ok_def)
  then show ?thesis using machine_ok_apart [OF ok p q] c unfolding apart_def holds_def by auto
qed

lemma marks_ok:
  assumes ok: "machine_ok s ph" and p: "p < PER_CPU_MAXIMUM" and f: "ph p = Running" and can: "SchedulerCanSleep p s"
    and channel: "channel \<noteq> 0" and c: "ProcessCurrentThreads s ! p = Some c"
    and aff: "affinity (threads s ! c) = SCHED_AFFINITY_OF p" "p < PerCpuOnlineCount s" and idle: "SchedulerIdleThreads s ! p \<noteq> None"
  shows "machine_ok (SleepMark p channel s) (ph(p := Marked))"
proof -
  note L = machine_ok_lane [OF ok p, unfolded f]
  have calm: "c < length (threads s)" "\<not> queued (threads s ! c)" "wait_channel (threads s ! c) = 0"
    using L c unfolding lane_ok_def current_ok_def by auto
  have notidle: "SchedulerIdleThreads s ! p \<noteq> Some c" using can c by (auto simp: SchedulerCanSleep_def)
  let ?g = "\<lambda>th. th\<lparr>wait_channel := channel, thread_state := THREAD_BLOCKED\<rparr>"
  have "machine_ok (set_thread c ?g s) (ph(p := Marked))"
  proof (rule set_state_ok [OF ok p calm(1) refl current_alone [OF ok p c calm(3)]])
    have "q = p" if "q < PER_CPU_MAXIMUM" "ProcessCurrentThreads s ! q = Some c" for q
      using machine_ok_apart [OF ok p that(1)] c that(2) unfolding apart_def by auto
    then have "confined (set_thread c ?g s) c" using aff calm(1) p unfolding confined_def by auto
    then show "thread_ok (set_thread c ?g s) c" using calm by (simp add: thread_ok_def)
    show "lane_ok (set_thread c ?g s) Marked p"
      using L c calm idle notidle unfolding lane_ok_def current_ok_def at_large_def by auto
  qed simp_all
  then show ?thesis using c by (simp add: SleepMark_def)
qed

lemma resumes_ok:
  assumes ok: "machine_ok s ph" and p: "p < PER_CPU_MAXIMUM" and f: "ph p \<in> {Running, Resuming}"
  shows "machine_ok (SleepResume p s) (ph(p := Running))"
proof -
  note L = machine_ok_lane [OF ok p]
  have f': "\<not> asleep (ph p)" "\<not> departing (ph p)" "hand (ph p) = None" using f by auto
  show ?thesis
  proof (cases "ProcessCurrentThreads s ! p")
    case None
    obtain ls where Q: "queues_ok s ls" using ok by (auto simp: machine_ok_def)
    have "machine_ok s (ph(p := Running))"
    proof (rule machine_ok_step [where C = "\<lambda>u. False", OF ok p Q])
      show "lane_ok s Running p" using L None unfolding lane_ok_def by auto
      show "apart s Running (ph q) p q \<and> apart s (ph q) Running q p" if "q < PER_CPU_MAXIMUM" "q \<noteq> p" for q
        using machine_ok_apart [OF ok p that] unfolding apart_def by auto
    qed simp_all
    then show ?thesis using None by (simp add: SleepResume_def)
  next
    case (Some c)
    have calm: "c < length (threads s)" "\<not> queued (threads s ! c)" "wait_channel (threads s ! c) = 0"
      using L Some f' unfolding lane_ok_def current_ok_def by auto
    let ?g = "\<lambda>th. th\<lparr>wait_channel := 0, thread_state := THREAD_RUNNING\<rparr>"
    have "machine_ok (set_thread c ?g s) (ph(p := Running))"
    proof (rule set_state_ok [OF ok p calm(1) refl current_alone [OF ok p Some calm(3)]])
      show "thread_ok (set_thread c ?g s) c" using calm by (simp add: thread_ok_def)
      have "at_large (set_thread c ?g s) u = at_large s u" for u
        using calm by (cases "u = c") (auto simp: at_large_def)
      then show "lane_ok (set_thread c ?g s) Running p" using L Some calm unfolding lane_ok_def current_ok_def by auto
    qed simp_all
    then show ?thesis using Some by (simp add: SleepResume_def)
  qed
qed

lemma finds_ok:
  assumes ok: "machine_ok s ph" and p: "p < PER_CPU_MAXIMUM" and f: "ph p = Running"
    and t: "t < length (threads s)" "sleeping s channel t" "channel \<noteq> 0" "\<forall>q < PER_CPU_MAXIMUM. ph q \<noteq> Found t"
  shows "machine_ok s (ph(p := Found t))"
proof -
  obtain ls where Q: "queues_ok s ls" using ok by (auto simp: machine_ok_def)
  note L = machine_ok_lane [OF ok p, unfolded f]
  show ?thesis
  proof (rule machine_ok_step [where C = "\<lambda>u. False", OF ok p Q])
    show "lane_ok s (Found t) p" using L t unfolding lane_ok_def sleeping_def current_ok_def by auto
    show "apart s (Found t) (ph q) p q \<and> apart s (ph q) (Found t) q p" if "q < PER_CPU_MAXIMUM" "q \<noteq> p" for q
      using machine_ok_apart [OF ok p that] t(4) that unfolding apart_def f by auto
  qed simp_all
qed

lemma affinity_names_one:
  assumes "SCHED_AFFINITY_OF h AND SCHED_AFFINITY_OF r \<noteq> 0"
  shows "r = h"
proof (rule ccontr)
  assume "r \<noteq> h"
  then have "SCHED_AFFINITY_OF h AND SCHED_AFFINITY_OF r = 0"
    by (intro bit_eqI) (auto simp: SCHED_AFFINITY_OF_def bit_simps)
  then show False using assms by simp
qed

lemma affinity_nonzero: "h < PER_CPU_MAXIMUM \<Longrightarrow> SCHED_AFFINITY_OF h \<noteq> 0"
  by (simp add: SCHED_AFFINITY_OF_def PER_CPU_MAXIMUM_def push_bit_eq_mult)

text \<open>What an admission does: nothing, or the thread goes upon the queue of a processor its mask names.\<close>

lemma admit_alike:
  assumes Q: "queues_ok s ls" and t: "t < length (threads s)" and run: "SchedulerAdmit (Some t) s = (s', admitted)"
  shows "\<exists>ls'. queues_ok s' ls'" "same_machine s s'" "u \<noteq> t \<Longrightarrow> alike (threads s ! u) (threads s' ! u)"
    "if admitted then \<not> queued (threads s ! t) \<and> queued (threads s' ! t) \<and> thread_state (threads s' ! t) = THREAD_READY \<and>
       wait_channel (threads s' ! t) = wait_channel (threads s ! t) \<and> processor (threads s' ! t) < PER_CPU_MAXIMUM \<and>
       affinity (threads s ! t) AND SCHED_AFFINITY_OF (processor (threads s' ! t)) \<noteq> 0
     else s' = s"
proof -
  let ?p = "SchedulerChooseProcessor (affinity (threads s ! t)) s"
  have adm: "queues_ok (r\<lparr>SchedulerAdmissions := k\<rparr>) l \<longleftrightarrow> queues_ok r l" for r k l
    by (simp add: queues_ok_def queue_is_def)
  have mach: "same_machine a (r\<lparr>SchedulerAdmissions := k\<rparr>) \<longleftrightarrow> same_machine a r" for a r k
    by (simp add: same_machine_def)
  have all: "(\<exists>ls'. queues_ok s' ls') \<and> same_machine s s' \<and> (\<forall>u. u \<noteq> t \<longrightarrow> alike (threads s ! u) (threads s' ! u)) \<and>
    (if admitted then \<not> queued (threads s ! t) \<and> queued (threads s' ! t) \<and> thread_state (threads s' ! t) = THREAD_READY \<and>
       wait_channel (threads s' ! t) = wait_channel (threads s ! t) \<and> processor (threads s' ! t) < PER_CPU_MAXIMUM \<and>
       affinity (threads s ! t) AND SCHED_AFFINITY_OF (processor (threads s' ! t)) \<noteq> 0
     else s' = s)"
  proof (cases admitted)
    case False
    then have "s' = s" using run by (auto simp: SchedulerAdmit_def Let_def split: if_splits)
    then show ?thesis using Q False by auto
  next
    case True
    then have c: "?p < PER_CPU_MAXIMUM" "\<not> queued (threads s ! t)"
      "s' = SchedulerEnqueue ?p t s\<lparr>SchedulerAdmissions := SchedulerAdmissions (SchedulerEnqueue ?p t s) + 1\<rparr>"
      using run by (auto simp: SchedulerAdmit_def Let_def split: if_splits)
    note E = enqueue_alike [OF Q c(1) t c(2)]
    have "affinity (threads s ! t) AND SCHED_AFFINITY_OF ?p \<noteq> 0" by (rule SchedulerChooseProcessor_effect(2) [OF refl c(1)])
    moreover have "\<exists>ls'. queues_ok s' ls'" using E(1) by (simp add: adm c(3))
    moreover have "same_machine s s'" using SchedulerEnqueue_machine by (simp add: mach c(3))
    ultimately show ?thesis using E(2-6) c True by simp
  qed
  show "\<exists>ls'. queues_ok s' ls'" "same_machine s s'" "u \<noteq> t \<Longrightarrow> alike (threads s ! u) (threads s' ! u)"
    "if admitted then \<not> queued (threads s ! t) \<and> queued (threads s' ! t) \<and> thread_state (threads s' ! t) = THREAD_READY \<and>
       wait_channel (threads s' ! t) = wait_channel (threads s ! t) \<and> processor (threads s' ! t) < PER_CPU_MAXIMUM \<and>
       affinity (threads s ! t) AND SCHED_AFFINITY_OF (processor (threads s' ! t)) \<noteq> 0
     else s' = s" using all by blast+
qed

lemma admits_ok:
  assumes ok: "machine_ok s ph" and p: "p < PER_CPU_MAXIMUM" and t: "fresh_thread s ph t"
    and run: "SchedulerAdmit (Some t) s = (s', admitted)"
  shows "machine_ok s' ph"
proof -
  obtain ls where Q: "queues_ok s ls" using ok by (auto simp: machine_ok_def)
  have len: "t < length (threads s)" using t by (simp add: fresh_thread_def)
  note E = admit_alike [OF Q len run]
  obtain ls' where Q': "queues_ok s' ls'" using E(1) by blast
  have free: "\<not> holds s (ph q) q t" if "q < PER_CPU_MAXIMUM" for q
    using t that machine_ok_lane [OF ok that] unfolding fresh_thread_def holds_def lane_ok_def by auto
  have "machine_ok s' (ph(p := ph p))"
  proof (rule machine_ok_step [where C = "\<lambda>u. u = t", OF ok p Q' E(2)])
    show "thread_ok s' u" if "u < length (threads s)" "u = t" for u
      using E(4) t that ok by (auto simp: thread_ok_def fresh_thread_def machine_ok_def split: if_splits)
    show "lane_ok s' (ph p) p"
      using E(2) by (intro lane_ok_cong [OF machine_ok_lane [OF ok p]] E(3)) (use free [OF p] in \<open>auto simp: same_machine_def\<close>)
    show "apart s (ph p) (ph q) p q \<and> apart s (ph q) (ph p) q p" if "q < PER_CPU_MAXIMUM" "q \<noteq> p" for q
      using machine_ok_apart [OF ok p that] by simp
  qed (use E(3) free in auto)
  then show ?thesis by simp
qed

text \<open>
  The case the source leaves open to other processors: the sleeper found is still current upon
  its own, which has marked it and not yet switched.
\<close>

lemma woken_lane_ok:
  assumes L: "lane_ok s f q" and m: "same_machine s s'" and t: "ProcessCurrentThreads s ! q = Some t" "wait_channel (threads s ! t) \<noteq> 0"
    and new: "queued (threads s' ! t)" "processor (threads s' ! t) = q" "thread_state (threads s' ! t) = THREAD_READY"
      "wait_channel (threads s' ! t) = 0"
    and U: "\<And>u. u \<noteq> t \<Longrightarrow> alike (threads s ! u) (threads s' ! u)"
  shows "lane_ok s' f q"
proof -
  have cur: "current_ok s f q t" using L t by (simp add: lane_ok_def)
  then have sl: "asleep f" "t < length (threads s)" using t(2) by (simp_all add: current_ok_def)
  then have "departing f" by (cases f) auto
  moreover have "f \<noteq> Leaving Yielding None" "f \<noteq> Leaving Ticking None" using sl(1) by auto
  ultimately have "current_ok s' f q t" using new m sl by (simp add: current_ok_def same_machine_def)
  moreover have "at_large s' u" if "at_large s u" for u
  proof -
    have "u \<noteq> t" using that t(2) by (auto simp: at_large_def)
    from at_large_cong [OF U [OF this]] that m show ?thesis by (simp add: same_machine_def)
  qed
  moreover have "f \<noteq> Found u" for u using sl(1) by auto
  ultimately show ?thesis using L sl(1) t(1) m unfolding lane_ok_def same_machine_def by auto
qed

lemma wakes_ok:
  assumes ok: "machine_ok s ph" and p: "p < PER_CPU_MAXIMUM" and f: "ph p = Found t"
    and run: "SchedulerAdmit (Some t) (set_thread t (\<lambda>th. th\<lparr>wait_channel := 0\<rparr>) s) = (s', admitted)"
  shows "machine_ok s' (ph(p := Running))"
proof -
  obtain ls where Q: "queues_ok s ls" using ok by (auto simp: machine_ok_def)
  note L = machine_ok_lane [OF ok p, unfolded f]
  have t: "t < length (threads s)" "thread_used (threads s ! t)" "thread_state (threads s ! t) = THREAD_BLOCKED"
    "wait_channel (threads s ! t) \<noteq> 0" using L by (simp_all add: lane_ok_def)
  have "thread_ok s t" using ok t(1) by (simp add: machine_ok_def)
  then have "\<not> queued (threads s ! t)" "confined s t" using t by (auto simp: thread_ok_def)
  then obtain h where nq: "\<not> queued (threads s ! t)" and h: "h < PER_CPU_MAXIMUM" "h < PerCpuOnlineCount s"
      "affinity (threads s ! t) = SCHED_AFFINITY_OF h"
      "\<And>q. q < PER_CPU_MAXIMUM \<Longrightarrow> ProcessCurrentThreads s ! q = Some t \<Longrightarrow> q = h"
    unfolding confined_def by blast
  let ?r = "set_thread t (\<lambda>th. th\<lparr>wait_channel := 0\<rparr>) s"
  have Qr: "queues_ok ?r ls" by (rule queues_ok_links [OF Q]) (rule set_thread_links; simp)
  have lr: "t < length (threads ?r)" using t by simp
  note E = admit_alike [OF Qr lr run]
  have "SchedulerChooseProcessor (affinity (threads s ! t)) ?r < PER_CPU_MAXIMUM"
    by (rule SchedulerChooseProcessor_finds [OF h(1)])
      (use h affinity_nonzero queue_count_bound [OF Qr h(1)] ok in \<open>simp_all add: machine_ok_def\<close>)
  then have admitted: admitted using run t nq by (auto simp: SchedulerAdmit_def Let_def split: if_splits)
  have m: "same_machine s s'" using E(2) by (simp add: same_machine_def)
  have U: "alike (threads s ! u) (threads s' ! u)" if "u \<noteq> t" for u using E(3) [OF that] that by simp
  have new: "queued (threads s' ! t)" "thread_state (threads s' ! t) = THREAD_READY" "wait_channel (threads s' ! t) = 0"
    "processor (threads s' ! t) = h"
    using E(4) admitted t(1) h(3) affinity_names_one [of h] by auto
  obtain ls' where Q': "queues_ok s' ls'" using E(1) by blast
  have large: "\<not> at_large s t" using t by (simp add: at_large_def)
  have free: "SchedulerIdleThreads s ! q \<noteq> Some t" "hand (ph q) \<noteq> Some t" "q \<noteq> p \<Longrightarrow> ph q \<noteq> Found t" if "q < PER_CPU_MAXIMUM" for q
    using large machine_ok_lane [OF ok that] machine_ok_apart [OF ok p that] f unfolding lane_ok_def apart_def by auto
  show ?thesis
  proof (rule machine_okI [OF ok p Q'])
    show "thread_ok s' u" if "u < length (threads s)" for u
      using that ok new thread_ok_cong [OF _ U m] by (cases "u = t") (auto simp: machine_ok_def thread_ok_def)
    show "lane_ok s' (ph q) q" if q: "q < PER_CPU_MAXIMUM" "q \<noteq> p" for q
    proof (cases "ProcessCurrentThreads s ! q = Some t")
      case True
      then show ?thesis
        using h(4) [OF q(1) True] new by (intro woken_lane_ok [OF machine_ok_lane [OF ok q(1)] m True t(4) _ _ _ _ U]) simp_all
    next
      case False
      then have "\<not> holds s (ph q) q t" using free [OF q(1)] q(2) by (simp add: holds_def)
      then have "alike (threads s ! u) (threads s' ! u)" if "holds s (ph q) q u" for u using U that by metis
      then show ?thesis using m by (intro lane_ok_cong [OF machine_ok_lane [OF ok q(1)]]) (simp_all add: same_machine_def)
    qed
    have R: "lane_ok s Running p" using L unfolding lane_ok_def current_ok_def by auto
    have "ProcessCurrentThreads s ! p \<noteq> Some t" using L t(4) unfolding lane_ok_def current_ok_def by auto
    then have "\<not> holds s Running p t" using free(1) [OF p] by (simp add: holds_def)
    then have "alike (threads s ! u) (threads s' ! u)" if "holds s Running p u" for u using U that by metis
    then show "lane_ok s' Running p" using m by (intro lane_ok_cong [OF R]) (simp_all add: same_machine_def)
    show "apart s' Running (ph q) p q \<and> apart s' (ph q) Running q p" if "q < PER_CPU_MAXIMUM" "q \<noteq> p" for q
      using machine_ok_apart [OF ok p that] by (simp add: apart_cong [OF m] apart_running)
  qed (use m in \<open>simp_all add: same_machine_def apart_cong [OF m]\<close>)
qed

subsection \<open>Every step\<close>

lemma cpu_step_ok:
  assumes "cpu_step m m'" "machine_ok (fst m) (snd m)"
  shows "machine_ok (fst m') (snd m')"
  using assms
proof (induction rule: cpu_step.induct)
  case (takes p ph e s s' n)
  then show ?case unfolding fst_conv snd_conv by (blast intro: takes_ok)
next
  case (judges p ph e n s c s' verdict)
  then show ?case unfolding fst_conv snd_conv by (blast intro: judges_ok)
next
  case (switches p ph e n s c)
  then show ?case unfolding fst_conv snd_conv by (blast intro: switches_ok)
next
  case (marks p ph s channel c)
  then show ?case unfolding fst_conv snd_conv by (blast intro: marks_ok)
next
  case (resumes p ph s)
  then show ?case unfolding fst_conv snd_conv by (blast intro: resumes_ok)
next
  case (finds p ph t s channel)
  then show ?case unfolding fst_conv snd_conv by (blast intro: finds_ok)
next
  case (wakes p ph t s s' admitted)
  then show ?case unfolding fst_conv snd_conv by (blast intro: wakes_ok)
next
  case (admits p ph s t s' admitted)
  then show ?case using admits_ok by simp
qed

lemma cpu_steps_ok: "cpu_step\<^sup>*\<^sup>* m m' \<Longrightarrow> machine_ok (fst m) (snd m) \<Longrightarrow> machine_ok (fst m') (snd m')"
  by (induction rule: rtranclp_induct) (auto intro: cpu_step_ok)

subsection \<open>The operations of one processor, uninterrupted\<close>

text \<open>
  Taken together without another processor in between, the steps are the operations of
  \<open>Scheduler\<close>: those are among the runs.
\<close>

lemma judge_machine: "RescheduleJudge p preempted c n s = (s', v) \<Longrightarrow> same_machine s s'"
  by (auto simp: RescheduleJudge_def Let_def same_machine_def SchedulerEnqueue_machine [unfolded same_machine_def] split: if_splits)

lemma returned_simps: "returned Yielding = Running" "returned Ticking = Running" "returned Sleeping = Resuming"
  by (simp_all add: returned_def)

lemma reschedule_run:
  assumes p: "p < PER_CPU_MAXIMUM" "p < length (ProcessCurrentThreads s)" and c: "ProcessCurrentThreads s ! p = Some c"
    and f: "ph p = Running \<and> e \<noteq> Sleeping \<or> ph p = Marked \<and> e = Sleeping"
    and s': "s' = SchedulerRescheduleLocked p (e = Ticking) s"
  shows "cpu_step\<^sup>*\<^sup>* (s, ph) (s', ph(p := (if ProcessCurrentThreads s' ! p = Some c then returned e else Running)))"
proof -
  obtain s1 n where D: "SchedulerDequeue p s = (s1, n)" by fastforce
  obtain s2 v where J: "RescheduleJudge p (e = Ticking) c n s1 = (s2, v)" by fastforce
  have m: "same_machine s s1" "same_machine s1 s2"
    using SchedulerDequeue_machine [OF D] judge_machine [OF J] by simp_all
  have cur: "ProcessCurrentThreads s1 ! p = Some c" "ProcessCurrentThreads s2 ! p = Some c"
    "p < length (ProcessCurrentThreads s2)" using m c p by (simp_all add: same_machine_def)
  have 1: "cpu_step (s, ph) (s1, ph(p := Taken e n))" by (rule takes; fact)
  have 2: "cpu_step (s1, ph(p := Taken e n)) (s2, ph(p := (case v of None \<Rightarrow> returned e | Some n \<Rightarrow> Leaving e n)))"
    using judges [where ph = "ph(p := Taken e n)", OF p(1) _ cur(1) J] by simp
  show ?thesis
  proof (cases v)
    case None
    then have "s' = s2" using s' c D J by (simp add: SchedulerRescheduleLocked_def)
    then show ?thesis using 1 2 None cur(2) by (simp add: converse_rtranclp_into_rtranclp)
  next
    case (Some n')
    have s2': "s' = SchedulerSwitchTo p c n' s2" using s' c D J Some by (simp add: SchedulerRescheduleLocked_def)
    have stay: "ProcessCurrentThreads s' ! p = Some c \<longleftrightarrow> n' = None \<or> n' = Some c"
      using cur by (auto simp: s2' SchedulerSwitchTo_def ThreadSwitchTo_def Let_def split: option.splits)
    have "cpu_step (s2, ph(p := Leaving e n')) (s', ph(p := (if n' = None \<or> n' = Some c then returned e else Running)))"
      using switches [where ph = "ph(p := Leaving e n')" and e = e and n = n', OF p(1) _ cur(2)] by (simp add: s2')
    then show ?thesis using 1 2 Some unfolding stay by (auto intro: converse_rtranclp_into_rtranclp)
  qed
qed

lemma yield_run:
  assumes p: "p < PER_CPU_MAXIMUM" "p < length (ProcessCurrentThreads s)" and f: "ph p = Running"
  shows "cpu_step\<^sup>*\<^sup>* (s, ph) (SchedulerYield p s, ph)"
proof (cases "ProcessCurrentThreads s ! p")
  case None
  then show ?thesis by (simp add: SchedulerYield_def SchedulerRescheduleLocked_def)
next
  case (Some c)
  have "ph(p := Running) = ph" using f by auto
  then show ?thesis
    using reschedule_run [OF p Some, of ph Yielding, unfolded returned_simps if_cancel] f by (simp add: SchedulerYield_def)
qed

lemma sleep_run:
  assumes p: "p < PER_CPU_MAXIMUM" "p < length (ProcessCurrentThreads s)" and f: "ph p = Running"
    and c: "ProcessCurrentThreads s ! p = Some c" "affinity (threads s ! c) = SCHED_AFFINITY_OF p"
    and idle: "SchedulerIdleThreads s ! p \<noteq> None" and on: "p < PerCpuOnlineCount s" and channel: "channel \<noteq> 0"
  shows "cpu_step\<^sup>*\<^sup>* (s, ph) (SchedulerSleep p channel s, ph)"
proof (cases "SchedulerCanSleep p s")
  case False
  then show ?thesis by (simp add: SchedulerSleep_def)
next
  case True
  let ?s = "SleepMark p channel s" and ?ph = "ph(p := Marked)"
  have cur: "ProcessCurrentThreads ?s = ProcessCurrentThreads s" using c by (simp add: SleepMark_def)
  have 1: "cpu_step (s, ph) (?s, ?ph)" by (rule marks; fact)
  have same: "ph(p := Running) = ph" using f by auto
  have 2: "cpu_step\<^sup>*\<^sup>* (?s, ?ph) (SleepBegin p channel s,
      ph(p := (if ProcessCurrentThreads (SleepBegin p channel s) ! p = Some c then Resuming else Running)))"
    using reschedule_run [of p ?s c ?ph Sleeping, OF p(1) _ _ _ refl, unfolded returned_simps] c p cur by (simp add: SleepBegin_def)
  have 3: "cpu_step (r, ph(p := Resuming)) (SleepResume p r, ph)" for r
    using resumes [where ph = "ph(p := Resuming)" and s = r, OF p(1)] same by simp
  show ?thesis
  proof (cases "ProcessCurrentThreads (SleepBegin p channel s) ! p = Some c")
    case True
    then show ?thesis
      using 1 2 3 [of "SleepBegin p channel s"] c \<open>SchedulerCanSleep p s\<close>
      by (simp add: SchedulerSleep_def converse_rtranclp_into_rtranclp rtranclp.rtrancl_into_rtrancl)
  next
    case False
    then show ?thesis
      using 1 2 c \<open>SchedulerCanSleep p s\<close> same by (simp add: SchedulerSleep_def converse_rtranclp_into_rtranclp)
  qed
qed

lemma wake_one_run:
  assumes p: "p < PER_CPU_MAXIMUM" and f: "ph p = Running" and t: "t < length (threads s)" and channel: "channel \<noteq> 0"
    and alone: "\<forall>q < PER_CPU_MAXIMUM. ph q \<noteq> Found t" and run: "WakeOne channel t (s, w) = (s', w')"
  shows "cpu_step\<^sup>*\<^sup>* (s, ph) (s', ph)"
proof (cases "sleeping s channel t")
  case False
  then show ?thesis using run by (auto simp: WakeOne_def sleeping_def Let_def)
next
  case True
  obtain a where A: "SchedulerAdmit (Some t) (set_thread t (\<lambda>th. th\<lparr>wait_channel := 0\<rparr>) s) = (s', a)"
    using run True by (auto simp: WakeOne_def sleeping_def Let_def split: prod.splits)
  have same: "ph(p := Running) = ph" using f by auto
  have "cpu_step (s, ph) (s, ph(p := Found t))" by (rule finds; fact)
  moreover have "cpu_step (s, ph(p := Found t)) (s', ph)"
    using wakes [where ph = "ph(p := Found t)", OF p _ A] same by simp
  ultimately show ?thesis by (simp add: converse_rtranclp_into_rtranclp)
qed

end
