(* ===== verification/SchedulerProperties.thy ===== *)
theory SchedulerProperties
  imports SchedulerInterleaving
begin

text \<open>
  The properties of the scheduler (\<open>kernel/proc/sched.c\<close>), each applied to a small machine:
  two processors, an idle thread each, one thread running, one asleep, one ready.
\<close>

subsection \<open>A small machine\<close>

definition some_thread :: Thread where
  "some_thread = \<lparr>thread_used = True, thread_state = THREAD_READY, queue_next = None, affinity = 3, processor = 0,
     queued = False, wait_channel = 0, slices = 0, preemptions = 0, has_owner = False, adopted = False\<rparr>"

definition bare_machine :: sched_state where
  "bare_machine = \<lparr>threads = [some_thread, some_thread, some_thread\<lparr>thread_state := THREAD_RUNNING, affinity := 1\<rparr>, some_thread,
       some_thread\<lparr>thread_state := THREAD_BLOCKED, wait_channel := 0x1000, affinity := 2\<rparr>],
     SchedulerQueues = replicate PER_CPU_MAXIMUM \<lparr>queue_head = None, queue_tail = None, queue_count = 0\<rparr>,
     SchedulerIdleThreads = [Some 0, Some 1] @ replicate 62 None,
     ProcessCurrentThreads = [Some 2, Some 1] @ replicate 62 None,
     SchedulerPrepared = True, SchedulerAdmissions = 0, SchedulerSwitches = 0, SchedulerPreemptions = 0,
     SchedulerIdles = 0, PerCpuOnlineCount = 2, SchedulerTimerStarted = replicate PER_CPU_MAXIMUM False\<rparr>"

definition small_machine :: sched_state where
  "small_machine = SchedulerEnqueue 0 3 bare_machine"

lemma bare_threads [simp]: "length (threads bare_machine) = 5"
  by (simp add: bare_machine_def)

lemma bare_processors:
  "ProcessCurrentThreads bare_machine ! q = Some t \<Longrightarrow> q < PER_CPU_MAXIMUM \<Longrightarrow> (q, t) \<in> {(0, 2), (1, 1)}"
  "SchedulerIdleThreads bare_machine ! q = Some t \<Longrightarrow> q < PER_CPU_MAXIMUM \<Longrightarrow> (q, t) \<in> {(0, 0), (1, 1)}"
  by (auto simp: bare_machine_def PER_CPU_MAXIMUM_def nth_append nth_Cons' split: if_splits)

lemma bare_machine_ok: "sched_ok bare_machine"
proof -
  have th: "\<not> queued (threads bare_machine ! t)" if "t < 5" for t
    using that by (auto simp: bare_machine_def some_thread_def less_Suc_eq numeral_nat)
  have Q: "queues_ok bare_machine (\<lambda>p. [])"
    using th by (auto simp: queues_ok_def queue_is_def) (auto simp: bare_machine_def)
  have large: "at_large bare_machine t" if "t < 3" for t
    using that by (auto simp: at_large_def) (auto simp: bare_machine_def some_thread_def less_Suc_eq numeral_nat)
  show ?thesis
    unfolding sched_ok_def
  proof (intro conjI allI impI)
    show "\<exists>ls. queues_ok bare_machine ls" using Q by blast
    fix q assume q: "q < PER_CPU_MAXIMUM"
    show "at_large bare_machine i" if "SchedulerIdleThreads bare_machine ! q = Some i" for i
      using bare_processors(2) [OF that q] by (intro large) auto
    show "at_large bare_machine i" if "ProcessCurrentThreads bare_machine ! q = Some i" for i
      using bare_processors(1) [OF that q] by (intro large) auto
    fix r assume r: "r < PER_CPU_MAXIMUM" "q \<noteq> r"
    show "SchedulerIdleThreads bare_machine ! q \<noteq> SchedulerIdleThreads bare_machine ! r"
      if some: "SchedulerIdleThreads bare_machine ! q \<noteq> None"
    proof -
      obtain t where t: "SchedulerIdleThreads bare_machine ! q = Some t" using some by blast
      then have "(q, t) \<in> {(0, 0), (1, 1)}" by (rule bare_processors(2) [OF _ q])
      then show ?thesis using t bare_processors(2) [OF _ r(1), of t] r(2) by auto
    qed
  next
    fix q r assume q: "q < PER_CPU_MAXIMUM" and r: "r < PER_CPU_MAXIMUM" "q \<noteq> r"
      and c: "ProcessCurrentThreads bare_machine ! q \<noteq> None"
    then obtain t where t: "ProcessCurrentThreads bare_machine ! q = Some t" by blast
    then have "(q, t) \<in> {(0, 2), (1, 1)}" by (rule bare_processors(1) [OF _ q])
    then show "ProcessCurrentThreads bare_machine ! q \<noteq> ProcessCurrentThreads bare_machine ! r"
      "ProcessCurrentThreads bare_machine ! q \<noteq> SchedulerIdleThreads bare_machine ! r"
      using t bare_processors [OF _ r(1), of t] r(2) by auto
  qed (use th in \<open>auto simp: bare_machine_def PER_CPU_MAXIMUM_def\<close>)
qed

lemma small_machine_ok: "sched_ok small_machine"
  unfolding small_machine_def
proof (rule enqueue_ok(1) [OF bare_machine_ok])
  show "at_large bare_machine 3" by (simp add: at_large_def) (simp add: bare_machine_def some_thread_def)
  show "ProcessCurrentThreads bare_machine ! q \<noteq> Some 3 \<and> SchedulerIdleThreads bare_machine ! q \<noteq> Some 3"
    if "q < PER_CPU_MAXIMUM" for q
    using bare_processors [OF _ that, of 3] by auto
qed (simp add: PER_CPU_MAXIMUM_def)

lemmas small_machine_eval = small_machine_def bare_machine_def some_thread_def PER_CPU_MAXIMUM_def SchedulerEnqueue_def Let_def


subsection \<open>Properties\<close>

text \<open>C13: A run queue is first in, first out.  Whatever the interleaving of threads put upon the queue
  of a processor and threads taken from it, the threads it has given, followed by those it still
  holds, are the threads it held at first followed by those it was given, in that order: none is
  lost, doubled or overtaken.
\<close>

theorem run_queue_is_fifo:
  assumes ok: "sched_ok s0" and p: "p < PER_CPU_MAXIMUM"
    and run: "(fifo_step (SchedulerEnqueue p) (dequeued p) queueable (\<lambda>t. [t]))\<^sup>*\<^sup>* (s0, [], []) (s, given, taken)"
  shows "taken @ queue_list p s = queue_list p s0 @ given"
proof -
  have "p < PER_CPU_MAXIMUM \<and> (\<exists>ls. queues_ok s0 ls)" using ok p by (simp add: sched_ok_def)
  from run_queue.history [OF run this] show ?thesis by simp
qed

lemma run_queue_is_fifo_witness:
  "snd (snd (fst (dequeued 0 () small_machine), [] :: nat list, snd (dequeued 0 () small_machine))) = [3 :: nat] \<and>
   [3] @ queue_list 0 (fst (dequeued 0 () small_machine)) = queue_list 0 small_machine @ []"
proof -
  have d: "snd (dequeued 0 () small_machine) = [3]"
    by (simp add: dequeued_def SchedulerDequeue_def small_machine_eval set_thread_def set_queue_def)
  have p: "(0 :: nat) < PER_CPU_MAXIMUM" by (simp add: PER_CPU_MAXIMUM_def)
  have "(fifo_step (SchedulerEnqueue 0) (dequeued 0) queueable (\<lambda>t. [t]))\<^sup>*\<^sup>* (small_machine, [], [])
      (fst (dequeued 0 () small_machine), [], [] @ snd (dequeued 0 () small_machine))"
    by (intro r_into_rtranclp take_step) simp
  from run_queue_is_fifo [OF small_machine_ok p this] d show ?thesis by simp
qed

text \<open>admission.\<close>

theorem admission_respects_affinity:
  assumes ok: "sched_ok s" and t: "t < length (threads s)" and run: "SchedulerAdmit (Some t) s = (s', True)"
  defines "p \<equiv> processor (threads s' ! t)"
  shows "p < PER_CPU_MAXIMUM \<and> p < PerCpuOnlineCount s \<and> affinity (threads s ! t) AND SCHED_AFFINITY_OF p \<noteq> 0 \<and>
    queue_list p s' = queue_list p s @ [t] \<and> thread_state (threads s' ! t) = THREAD_READY \<and>
    (\<forall>q < PER_CPU_MAXIMUM. q < PerCpuOnlineCount s \<longrightarrow> affinity (threads s ! t) AND SCHED_AFFINITY_OF q \<noteq> 0 \<longrightarrow>
       SchedulerQueueLength p s \<le> SchedulerQueueLength q s)"
proof -
  obtain ls where Q: "queues_ok s ls" using ok by (auto simp: sched_ok_def)
  define c where "c = SchedulerChooseProcessor (affinity (threads s ! t)) s"
  have c: "c < PER_CPU_MAXIMUM" "\<not> queued (threads s ! t)"
    "s' = SchedulerEnqueue c t s\<lparr>SchedulerAdmissions := SchedulerAdmissions (SchedulerEnqueue c t s) + 1\<rparr>"
    using run by (auto simp: SchedulerAdmit_def c_def Let_def split: if_splits)
  note E = SchedulerEnqueue_effect [OF Q c(1) t c(2)]
  have th: "threads s' ! t = threads (SchedulerEnqueue c t s) ! t" using c(3) by simp
  have p: "p = c" "thread_state (threads s' ! t) = THREAD_READY" using th E(3) by (simp_all add: p_def)
  have "queue_list c s' = queue_list c (SchedulerEnqueue c t s)" using c(3) by (simp add: queue_list_def)
  then have "queue_list c s' = queue_list c s @ [t]"
    using queue_list_eq [OF Q c(1)] queue_list_eq [OF E(1) c(1)] by simp
  then show ?thesis
    using p c(1) SchedulerChooseProcessor_effect [OF c_def [symmetric] c(1)] by (auto simp: SchedulerQueueLength_def)
qed

lemma admission_respects_affinity_witness:
  "sched_ok small_machine \<and> snd (SchedulerAdmit (Some 4) small_machine) \<and>
   (let p = processor (threads (fst (SchedulerAdmit (Some 4) small_machine)) ! 4)
    in p < PER_CPU_MAXIMUM \<and> queue_list p (fst (SchedulerAdmit (Some 4) small_machine)) = queue_list p small_machine @ [4])"
proof -
  have a: "snd (SchedulerAdmit (Some 4) small_machine)"
    by (simp add: SchedulerAdmit_def SchedulerChooseProcessor_def small_machine_eval set_thread_def set_queue_def
      SCHED_AFFINITY_OF_def upt_rec)
  then obtain s' where s': "SchedulerAdmit (Some 4) small_machine = (s', True)" by (metis prod.collapse)
  have "4 < length (threads small_machine)"
    using SchedulerEnqueue_machine [of bare_machine 0 3] by (simp add: small_machine_def same_machine_def)
  from admission_respects_affinity [OF small_machine_ok this s'] show ?thesis
    using s' small_machine_ok by (simp add: Let_def)
qed

text \<open>C14: Withdrawing a queued thread returns and succeeds.  The walk along the links of its queue ends,
  the thread is afterwards marked as queued nowhere, its queue is the one before without that
  thread and in the same order, and the queue of no other processor changes.
\<close>

theorem withdrawal_returns:
  assumes ok: "sched_ok s" and t: "t < length (threads s)" "queued (threads s ! t)"
  defines "p \<equiv> processor (threads s ! t)"
  shows "\<exists>s'. SchedulerWithdraw (Some t) s = Some (s', True) \<and> \<not> queued (threads s' ! t) \<and>
    queue_list p s' = remove1 t (queue_list p s) \<and> t \<notin> set (queue_list p s') \<and>
    (\<forall>q < PER_CPU_MAXIMUM. q \<noteq> p \<longrightarrow> queue_list q s' = queue_list q s)"
proof -
  obtain ls where Q: "queues_ok s ls" using ok by (auto simp: sched_ok_def)
  then have p: "p < PER_CPU_MAXIMUM" using t by (simp add: queues_ok_def p_def)
  obtain s' where s': "SchedulerWithdraw (Some t) s = Some (s', True)" "queues_ok s' (ls(p := remove1 t (ls p)))"
      "\<not> queued (threads s' ! t)"
    using SchedulerWithdraw_effect [OF Q t] unfolding p_def by blast
  have "distinct (ls p)" using queue_at(4) [OF Q p] .
  then show ?thesis
    using s' queue_list_eq [OF s'(2)] queue_list_eq [OF Q] p by (intro exI [of _ s']) simp
qed

lemma withdrawal_returns_witness:
  "\<exists>s'. SchedulerWithdraw (Some 3) small_machine = Some (s', True) \<and> \<not> queued (threads s' ! 3)"
proof -
  have "3 < length (threads small_machine)" "queued (threads small_machine ! 3)"
    by (simp_all add: small_machine_eval set_thread_def set_queue_def)
  from withdrawal_returns [OF small_machine_ok this] show ?thesis by blast
qed

text \<open>A wake of a channel wakes all of its sleepers and nobody else.  Every thread asleep upon the
  channel no longer waits for it, and is ready and upon a queue if some processor may run it; the
  count reported is the number of those; every other thread is as before, but for its link.
\<close>

theorem wake_wakes_the_sleepers:
  assumes ok: "sched_ok s" and channel: "channel \<noteq> 0" and run: "SchedulerWake channel s = (s', n)"
  shows "sched_ok s' \<and> n = card {t. t < length (threads s) \<and> sleeping s channel t \<and> placeable s t} \<and>
    (\<forall>t < length (threads s).
      (if sleeping s channel t
       then wait_channel (threads s' ! t) = 0 \<and>
         (placeable s t \<longrightarrow> queued (threads s' ! t) \<and> thread_state (threads s' ! t) = THREAD_READY)
       else same_thread (threads s ! t) (threads s' ! t)))"
  using SchedulerWake_effect [OF assms] unfolding woken_below_def fst_conv snd_conv by (metis (no_types, lifting))

lemma wake_wakes_the_sleepers_witness:
  "sched_ok small_machine \<and> sleeping small_machine 0x1000 4 \<and>
   queued (threads (fst (SchedulerWake 0x1000 small_machine)) ! 4)"
proof -
  obtain s' n where s': "SchedulerWake 0x1000 small_machine = (s', n)" by fastforce
  have s: "sleeping small_machine 0x1000 4" "4 < length (threads small_machine)"
    by (simp_all add: sleeping_def small_machine_eval set_thread_def set_queue_def)
  have "placeable small_machine 4"
    unfolding placeable_def
    by (rule exI [of _ 1]) (simp add: small_machine_eval set_thread_def set_queue_def SCHED_AFFINITY_OF_def)
  then show ?thesis
    using wake_wakes_the_sleepers [OF small_machine_ok _ s'] s s' small_machine_ok by auto
qed



text \<open>
  Without the confinement it fails: thread 2, permitted both processors, is marked asleep upon
  processor 0; before the switch, processor 1 wakes it, puts it upon its own shorter queue, and
  runs it while it is current upon processor 0.
\<close>

lemma unconfined_sleeper_runs_twice:
  "let s = SleepMark 0 0x2000 (fst (SchedulerSetAffinity (Some 2) 3 small_machine));
       s = SchedulerYield 1 (fst (WakeOne 0x2000 2 (s, 0)))
   in ProcessCurrentThreads s ! 0 = Some 2 \<and> ProcessCurrentThreads s ! 1 = Some 2"
  by (simp add: SchedulerSetAffinity_def SleepMark_def WakeOne_def SchedulerAdmit_def SchedulerChooseProcessor_def
    SchedulerYield_def SchedulerRescheduleLocked_def RescheduleJudge_def SchedulerDequeue_def SchedulerSwitchTo_def ThreadSwitchTo_def
    small_machine_eval set_thread_def set_queue_def SCHED_AFFINITY_OF_def upt_rec)

text \<open>C16: A sleeper is woken.  A thread that goes to sleep upon a channel, where sleeping is possible,
  gives its processor up and is recorded as waiting for that channel; a later wake of the channel
  finds it, counts it, and leaves it ready in the queue of a processor.
\<close>

theorem sleep_then_wake:
  assumes ok: "sched_ok s" and cpu: "cpu < PER_CPU_MAXIMUM" and channel: "channel \<noteq> 0"
    and can: "SchedulerCanSleep cpu s" and c: "ProcessCurrentThreads s ! cpu = Some c" "thread_used (threads s ! c)"
    and idle: "SchedulerIdleThreads s ! cpu \<noteq> None" and place: "placeable s c"
    and run: "SchedulerWake channel (SchedulerSleep cpu channel s) = (s', n)"
  shows "sleeping (SchedulerSleep cpu channel s) channel c \<and>
    ProcessCurrentThreads (SchedulerSleep cpu channel s) ! cpu \<noteq> Some c \<and>
    0 < n \<and> thread_state (threads s' ! c) = THREAD_READY \<and> c \<in> set (queue_list (processor (threads s' ! c)) s')"
proof -
  note S = SchedulerSleep_effect [OF ok cpu can c(1), of channel]
  have sl: "sleeping (SchedulerSleep cpu channel s) channel c" using S(2) idle c(2) by blast
  have len: "cpu < length (ProcessCurrentThreads s)" "c < length (threads (SchedulerSleep cpu channel s))"
    using ok cpu c S(2) [OF idle c(2)] unfolding sched_ok_def at_large_def same_machine_def by auto
  have pl: "placeable (SchedulerSleep cpu channel s) c"
    using place S(2) [OF idle c(2)] by (simp add: placeable_def same_machine_def)
  note W = SchedulerWake_effect [OF S(1) channel run]
  then have w: "sched_ok s'" "queued (threads s' ! c)" "thread_state (threads s' ! c) = THREAD_READY" "c < length (threads s')"
    "n = card {t. t < length (threads (SchedulerSleep cpu channel s)) \<and> sleeping (SchedulerSleep cpu channel s) channel t \<and>
       placeable (SchedulerSleep cpu channel s) t}"
    using len(2) sl pl unfolding woken_below_def same_machine_def by auto
  have "0 < n" using w(5) sl pl len(2) by (auto simp: card_gt_0_iff)
  obtain ls where Q: "queues_ok s' ls" using w(1) by (auto simp: sched_ok_def)
  then have "processor (threads s' ! c) < PER_CPU_MAXIMUM" "c \<in> set (ls (processor (threads s' ! c)))"
    using w by (simp_all add: queues_ok_def)
  then have "c \<in> set (queue_list (processor (threads s' ! c)) s')" using queue_list_eq [OF Q] by simp
  then show ?thesis using sl w(3) \<open>0 < n\<close> S(2) [OF idle c(2)] len(1) by auto
qed

lemma sleep_then_wake_witness:
  "thread_state (threads (fst (SchedulerWake 0x2000 (SchedulerSleep 0 0x2000 small_machine))) ! 2) = THREAD_READY"
proof -
  have "(0 :: nat) < PER_CPU_MAXIMUM" "SchedulerCanSleep 0 small_machine" "ProcessCurrentThreads small_machine ! 0 = Some 2"
    "thread_used (threads small_machine ! 2)" "SchedulerIdleThreads small_machine ! 0 \<noteq> None"
    by (simp_all add: small_machine_eval set_thread_def set_queue_def SchedulerCanSleep_def)
  moreover have "placeable small_machine 2"
    unfolding placeable_def
    by (rule exI [of _ 0]) (simp add: small_machine_eval set_thread_def set_queue_def SCHED_AFFINITY_OF_def)
  ultimately show ?thesis
    using sleep_then_wake [OF small_machine_ok, of 0 "0x2000" 2 "fst (SchedulerWake 0x2000 (SchedulerSleep 0 0x2000 small_machine))"
      "snd (SchedulerWake 0x2000 (SchedulerSleep 0 0x2000 small_machine))"] by simp
qed

end
