(* ===== verification/Signals.thy ===== *)
theory Signals
  imports Scheduler
begin

text \<open>
  Signals (\<open>kernel/proc/signal.c\<close>): the pending set and the dispositions of a process, sending
  to a process and to a group, taking the next one, the stop and the continue.  A process is
  named by its slot in the process table; the addresses of its structure and of its stop
  channel, which threads sleep upon, are given by two injections of the state.
\<close>

datatype ProcessState = PROCESS_UNUSED | PROCESS_CREATED | PROCESS_READY | PROCESS_RUNNING | PROCESS_BLOCKED
  | PROCESS_STOPPED | PROCESS_EXITED

datatype SignalAction = SIGNAL_ACTION_TERMINATE | SIGNAL_ACTION_IGNORE | SIGNAL_ACTION_STOP | SIGNAL_ACTION_CONTINUE

text \<open>The fields of a process that signals use; \<open>first_thread\<close> is \<open>threads[0]\<close>, where there is one.\<close>

record Process =
  process_used :: bool
  process_id :: u64
  parent_id :: u64
  process_state :: ProcessState
  group :: u64
  pending :: u32
  handlers :: "u64 list"
  restorer :: u64
  stop_signal :: u32
  stop_reported :: bool
  wait_status :: u64
  first_thread :: "nat option"

record signal_state =
  processes :: "Process list"
  process_channel :: "nat \<Rightarrow> u64"
  stop_channel :: "nat \<Rightarrow> u64"
  scheduler :: sched_state
  SignalSent :: u64
  SignalHandled :: u64
  SignalStops :: u64
  SignalContinues :: u64

definition SYSCALL_SIGNAL_MAXIMUM :: u32 where "SYSCALL_SIGNAL_MAXIMUM = 31"
definition SYSCALL_SIGNAL_DEFAULT :: u64 where "SYSCALL_SIGNAL_DEFAULT = 0"
definition SYSCALL_SIGNAL_IGNORE :: u64 where "SYSCALL_SIGNAL_IGNORE = 1"
definition SYSCALL_SIGILL :: u32 where "SYSCALL_SIGILL = 4"
definition SYSCALL_SIGTRAP :: u32 where "SYSCALL_SIGTRAP = 5"
definition SYSCALL_SIGBUS :: u32 where "SYSCALL_SIGBUS = 7"
definition SYSCALL_SIGFPE :: u32 where "SYSCALL_SIGFPE = 8"
definition SYSCALL_SIGKILL :: u32 where "SYSCALL_SIGKILL = 9"
definition SYSCALL_SIGSEGV :: u32 where "SYSCALL_SIGSEGV = 11"
definition SYSCALL_SIGCHLD :: u32 where "SYSCALL_SIGCHLD = 17"
definition SYSCALL_SIGCONT :: u32 where "SYSCALL_SIGCONT = 18"
definition SYSCALL_SIGSTOP :: u32 where "SYSCALL_SIGSTOP = 19"
definition SYSCALL_SIGTSTP :: u32 where "SYSCALL_SIGTSTP = 20"
definition SYSCALL_SIGTTIN :: u32 where "SYSCALL_SIGTTIN = 21"
definition SYSCALL_SIGTTOU :: u32 where "SYSCALL_SIGTTOU = 22"

definition SYSCALL_STATUS_KIND_STOPPED :: u64 where "SYSCALL_STATUS_KIND_STOPPED = 2"

definition SYSCALL_STATUS_MAKE :: "u64 \<Rightarrow> u32 \<Rightarrow> u64" where
  "SYSCALL_STATUS_MAKE kind number = push_bit 8 kind OR (ucast number AND 0xFF)"

lemmas signal_numbers = SYSCALL_SIGNAL_MAXIMUM_def SYSCALL_SIGNAL_DEFAULT_def SYSCALL_SIGNAL_IGNORE_def
  SYSCALL_SIGKILL_def SYSCALL_SIGCHLD_def SYSCALL_SIGCONT_def SYSCALL_SIGSTOP_def SYSCALL_SIGTSTP_def
  SYSCALL_SIGTTIN_def SYSCALL_SIGTTOU_def

definition SignalNumberIsValid :: "u32 \<Rightarrow> bool" where
  "SignalNumberIsValid n \<longleftrightarrow> 1 \<le> n \<and> n \<le> SYSCALL_SIGNAL_MAXIMUM"

definition SignalBit :: "u32 \<Rightarrow> u32" where
  "SignalBit n = push_bit (unat n) 1"

definition SignalIsStop :: "u32 \<Rightarrow> bool" where
  "SignalIsStop n \<longleftrightarrow> n = SYSCALL_SIGSTOP \<or> n = SYSCALL_SIGTSTP \<or> n = SYSCALL_SIGTTIN \<or> n = SYSCALL_SIGTTOU"

definition SignalStopMask :: u32 where
  "SignalStopMask = SignalBit SYSCALL_SIGSTOP OR SignalBit SYSCALL_SIGTSTP OR SignalBit SYSCALL_SIGTTIN OR
     SignalBit SYSCALL_SIGTTOU"

definition SignalDefaultAction :: "u32 \<Rightarrow> SignalAction" where
  "SignalDefaultAction n =
     (if n = SYSCALL_SIGCHLD then SIGNAL_ACTION_IGNORE
      else if n = SYSCALL_SIGCONT then SIGNAL_ACTION_CONTINUE
      else if n = SYSCALL_SIGSTOP \<or> n = SYSCALL_SIGTSTP \<or> n = SYSCALL_SIGTTIN \<or> n = SYSCALL_SIGTTOU then SIGNAL_ACTION_STOP
      else SIGNAL_ACTION_TERMINATE)"

definition SignalFromVector :: "u64 \<Rightarrow> u32" where
  "SignalFromVector vector =
     (if vector = 0 \<or> vector = 19 then SYSCALL_SIGFPE
      else if vector = 1 \<or> vector = 3 then SYSCALL_SIGTRAP
      else if vector = 4 \<or> vector = 6 then SYSCALL_SIGILL
      else if vector = 17 then SYSCALL_SIGBUS
      else SYSCALL_SIGSEGV)"

definition set_process :: "nat \<Rightarrow> (Process \<Rightarrow> Process) \<Rightarrow> signal_state \<Rightarrow> signal_state" where
  "set_process i f m = m\<lparr>processes := (processes m)[i := f (processes m ! i)]\<rparr>"

subsection \<open>Dispositions\<close>

definition SignalDisposition :: "nat option \<Rightarrow> u32 \<Rightarrow> signal_state \<Rightarrow> u64" where
  "SignalDisposition process n m =
     (case process of
        None \<Rightarrow> SYSCALL_SIGNAL_DEFAULT
      | Some i \<Rightarrow> if \<not> SignalNumberIsValid n then SYSCALL_SIGNAL_DEFAULT else handlers (processes m ! i) ! unat n)"

text \<open>The previous disposition is returned beside the answer, where there is one to return.\<close>

definition SignalSetDisposition ::
  "nat option \<Rightarrow> u32 \<Rightarrow> u64 \<Rightarrow> u64 \<Rightarrow> signal_state \<Rightarrow> signal_state \<times> bool \<times> u64 option" where
  "SignalSetDisposition process n disposition return_address m =
     (case process of
        None \<Rightarrow> (m, False, None)
      | Some i \<Rightarrow>
          if \<not> process_used (processes m ! i) \<or> \<not> SignalNumberIsValid n then (m, False, None)
          else if n = SYSCALL_SIGKILL \<or> n = SYSCALL_SIGSTOP then (m, False, None)
          else
            let previous = handlers (processes m ! i) ! unat n;
                m = set_process i (\<lambda>p. p\<lparr>handlers := (handlers p)[unat n := disposition]\<rparr>) m;
                m = (if disposition \<noteq> SYSCALL_SIGNAL_DEFAULT
                     then set_process i (\<lambda>p. p\<lparr>restorer := return_address\<rparr>) m else m);
                m = (if disposition = SYSCALL_SIGNAL_IGNORE
                     then set_process i (\<lambda>p. p\<lparr>pending := pending p AND NOT (SignalBit n)\<rparr>) m else m)
            in (m, True, Some previous))"

definition ResetHandlers :: "u64 list \<Rightarrow> u64 list" where
  "ResetHandlers hs =
     fold (\<lambda>n hs. if hs ! n \<noteq> SYSCALL_SIGNAL_IGNORE then hs[n := SYSCALL_SIGNAL_DEFAULT] else hs)
       [1..<Suc (unat SYSCALL_SIGNAL_MAXIMUM)] hs"

definition SignalResetForExecute :: "nat option \<Rightarrow> signal_state \<Rightarrow> signal_state" where
  "SignalResetForExecute process m =
     (case process of
        None \<Rightarrow> m
      | Some i \<Rightarrow> set_process i (\<lambda>p. p\<lparr>handlers := ResetHandlers (handlers p), restorer := 0\<rparr>) m)"

subsection \<open>Sending\<close>

definition SignalContinue :: "nat option \<Rightarrow> signal_state \<Rightarrow> signal_state" where
  "SignalContinue process m =
     (case process of
        None \<Rightarrow> m
      | Some i \<Rightarrow>
          if \<not> process_used (processes m ! i) \<or> process_state (processes m ! i) \<noteq> PROCESS_STOPPED then m
          else
            let m = m\<lparr>SignalContinues := SignalContinues m + 1\<rparr>;
                m = set_process i (\<lambda>p. p\<lparr>process_state := PROCESS_READY, stop_signal := 0, stop_reported := False\<rparr>) m
            in m\<lparr>scheduler := fst (SchedulerWake (stop_channel m i) (scheduler m))\<rparr>)"

definition SignalSend :: "nat option \<Rightarrow> u32 \<Rightarrow> signal_state \<Rightarrow> signal_state \<times> bool" where
  "SignalSend process n m =
     (case process of
        None \<Rightarrow> (m, False)
      | Some i \<Rightarrow>
          if \<not> process_used (processes m ! i) \<or> process_state (processes m ! i) = PROCESS_EXITED
             \<or> process_state (processes m ! i) = PROCESS_UNUSED then (m, False)
          else if n = 0 then (m, True)
          else if \<not> SignalNumberIsValid n then (m, False)
          else
            let m = m\<lparr>SignalSent := SignalSent m + 1\<rparr>;
                handler = handlers (processes m ! i) ! unat n
            in if handler = SYSCALL_SIGNAL_IGNORE then (m, True)
               else if handler = SYSCALL_SIGNAL_DEFAULT \<and> SignalDefaultAction n = SIGNAL_ACTION_IGNORE then (m, True)
               else
                 let m = (if n = SYSCALL_SIGCONT
                          then set_process i (\<lambda>p. p\<lparr>pending := pending p AND NOT SignalStopMask\<rparr>) m else m)
                 in if n = SYSCALL_SIGCONT \<and> process_state (processes m ! i) = PROCESS_STOPPED
                    then let m = SignalContinue (Some i) m
                         in (if handler \<noteq> SYSCALL_SIGNAL_DEFAULT
                             then set_process i (\<lambda>p. p\<lparr>pending := pending p OR SignalBit n\<rparr>) m else m, True)
                    else if n = SYSCALL_SIGCONT \<and> handler = SYSCALL_SIGNAL_DEFAULT then (m, True)
                    else
                      let m = (if SignalIsStop n
                               then set_process i (\<lambda>p. p\<lparr>pending := pending p AND NOT (SignalBit SYSCALL_SIGCONT)\<rparr>) m
                               else m);
                          m = set_process i (\<lambda>p. p\<lparr>pending := pending p OR SignalBit n\<rparr>) m
                      in if process_state (processes m ! i) = PROCESS_STOPPED
                         then (if n = SYSCALL_SIGKILL then SignalContinue (Some i) m else m, True)
                         else case first_thread (processes m ! i) of
                                None \<Rightarrow> (m, True)
                              | Some t \<Rightarrow> (m\<lparr>scheduler := fst (SchedulerWakeThread (Some t) (scheduler m))\<rparr>, True))"

definition SendToMember :: "u64 \<Rightarrow> u32 \<Rightarrow> nat \<Rightarrow> signal_state \<times> nat \<Rightarrow> signal_state \<times> nat" where
  "SendToMember g n i c =
     (let (m, reached) = c; p = processes m ! i
      in if \<not> process_used p \<or> group p \<noteq> g \<or> process_state p = PROCESS_EXITED then c
         else case SignalSend (Some i) n m of (m, sent) \<Rightarrow> (m, if sent then reached + 1 else reached))"

definition SignalSendGroup :: "u64 \<Rightarrow> u32 \<Rightarrow> signal_state \<Rightarrow> signal_state \<times> nat" where
  "SignalSendGroup g n m =
     (if g = 0 then (m, 0) else fold (SendToMember g n) [0..<length (processes m)] (m, 0))"

definition SignalIsPending :: "nat option \<Rightarrow> signal_state \<Rightarrow> bool" where
  "SignalIsPending process m =
     (case process of None \<Rightarrow> False | Some i \<Rightarrow> pending (processes m ! i) \<noteq> 0)"

fun TakeFrom :: "nat list \<Rightarrow> u32 \<Rightarrow> u32 \<times> u32" where
  "TakeFrom [] waiting = (waiting, 0)"
| "TakeFrom (n # ns) waiting =
     (if waiting AND SignalBit (word_of_nat n) \<noteq> 0 then (waiting AND NOT (SignalBit (word_of_nat n)), word_of_nat n)
      else TakeFrom ns waiting)"

definition SignalTake :: "nat option \<Rightarrow> signal_state \<Rightarrow> signal_state \<times> u32" where
  "SignalTake process m =
     (case process of
        None \<Rightarrow> (m, 0)
      | Some i \<Rightarrow>
          if pending (processes m ! i) = 0 then (m, 0)
          else
            let (waiting, taken) = TakeFrom [1..<Suc (unat SYSCALL_SIGNAL_MAXIMUM)] (pending (processes m ! i));
                m = set_process i (\<lambda>p. p\<lparr>pending := waiting\<rparr>) m;
                handler = handlers (processes m ! i) ! unat taken
            in if taken \<noteq> 0 \<and> handler \<noteq> SYSCALL_SIGNAL_DEFAULT \<and> handler \<noteq> SYSCALL_SIGNAL_IGNORE
               then (m\<lparr>SignalHandled := SignalHandled m + 1\<rparr>, taken) else (m, taken))"

subsection \<open>The stop\<close>

fun ProcessFrom :: "nat list \<Rightarrow> u64 \<Rightarrow> signal_state \<Rightarrow> nat option" where
  "ProcessFrom [] pid m = None"
| "ProcessFrom (i # is) pid m =
     (if process_used (processes m ! i) \<and> process_id (processes m ! i) = pid then Some i else ProcessFrom is pid m)"

definition ProcessById :: "u64 \<Rightarrow> signal_state \<Rightarrow> nat option" where
  "ProcessById pid m = (if pid = 0 then None else ProcessFrom [0..<length (processes m)] pid m)"

definition ProcessAt :: "nat \<Rightarrow> signal_state \<Rightarrow> nat option" where
  "ProcessAt index m = (if index < length (processes m) then Some index else None)"

text \<open>
  One turn of the loop a stopped process waits in: it sleeps upon its stop channel, or leaves the
  loop.  The turns after the first are steps of their own, taken when the thread runs again.
\<close>

definition StopLoop :: "nat \<Rightarrow> nat \<Rightarrow> signal_state \<Rightarrow> signal_state" where
  "StopLoop cpu i m =
     (if process_state (processes m ! i) = PROCESS_STOPPED
      then m\<lparr>scheduler := SchedulerSleep cpu (stop_channel m i) (scheduler m)\<rparr> else m)"

definition SignalStopCurrent :: "nat \<Rightarrow> nat option \<Rightarrow> u32 \<Rightarrow> signal_state \<Rightarrow> signal_state" where
  "SignalStopCurrent cpu process n m =
     (case process of
        None \<Rightarrow> m
      | Some i \<Rightarrow>
          if \<not> process_used (processes m ! i) then m
          else
            let m = m\<lparr>SignalStops := SignalStops m + 1\<rparr>;
                m = set_process i (\<lambda>p. p\<lparr>process_state := PROCESS_STOPPED, stop_signal := n, stop_reported := False,
                      wait_status := SYSCALL_STATUS_MAKE SYSCALL_STATUS_KIND_STOPPED n\<rparr>) m;
                m = (case ProcessById (parent_id (processes m ! i)) m of
                       None \<Rightarrow> m
                     | Some parent \<Rightarrow>
                         fst (SignalSend (Some parent) SYSCALL_SIGCHLD
                           (m\<lparr>scheduler := fst (SchedulerWake (process_channel m parent) (scheduler m))\<rparr>)))
            in StopLoop cpu i m)"

end
