(* ===== verification/SignalFacts.thy ===== *)
theory SignalFacts
  imports Signals SchedulerSteps
begin

text \<open>
  What the operations of \<open>kernel/proc/signal.c\<close> do to a process, apart from the scheduler:
  each is a function on the process alone (\<open>signal_sent\<close> and its like), and keeps the
  invariant \<open>signal_well\<close>.
\<close>

subsection \<open>Sets of signals as bits\<close>

lemma bit_SignalBit: "bit (SignalBit n) k \<longleftrightarrow> k = unat n \<and> k < 32"
  by (auto simp: SignalBit_def bit_exp_iff possible_bit_word)

lemma bit_StopMask: "bit SignalStopMask k \<longleftrightarrow> k \<in> {19, 20, 21, 22}"
  by (auto simp: SignalStopMask_def bit_or_iff bit_SignalBit signal_numbers)

lemma bit_added: "bit (x OR SignalBit n) k \<longleftrightarrow> bit x k \<or> k = unat n \<and> k < 32"
  by (simp add: bit_or_iff bit_SignalBit)

lemma bit_dropped: "bit (x AND NOT (SignalBit n)) k \<longleftrightarrow> bit x k \<and> k \<noteq> unat n"
  by (auto simp: bit_and_iff bit_not_iff bit_SignalBit dest: bit_imp_le_length)

lemma bit_unstopped: "bit (x AND NOT SignalStopMask) k \<longleftrightarrow> bit x k \<and> k \<notin> {19, 20, 21, 22}"
  by (auto simp: bit_and_iff bit_not_iff bit_StopMask dest: bit_imp_le_length)

lemmas signal_bits = bit_added bit_dropped bit_unstopped

lemma and_SignalBit: "x AND SignalBit n = 0 \<longleftrightarrow> \<not> (unat n < 32 \<and> bit x (unat n))"
proof
  assume "x AND SignalBit n = 0"
  then have "\<not> bit (x AND SignalBit n) (unat n)" by simp
  then show "\<not> (unat n < 32 \<and> bit x (unat n))" by (auto simp: bit_and_iff bit_SignalBit)
next
  assume "\<not> (unat n < 32 \<and> bit x (unat n))"
  then show "x AND SignalBit n = 0" by (intro bit_word_eqI) (auto simp: bit_and_iff bit_SignalBit)
qed

lemma valid_unat: "SignalNumberIsValid n \<longleftrightarrow> 1 \<le> unat n \<and> unat n < 32"
  by (auto simp: SignalNumberIsValid_def SYSCALL_SIGNAL_MAXIMUM_def word_le_nat_alt)

lemma stop_unat: "SignalIsStop n \<longleftrightarrow> unat n \<in> {19, 20, 21, 22}"
  by (auto simp: SignalIsStop_def signal_numbers word_unat_eq_iff)

subsection \<open>The invariant of a process\<close>

definition signal_well :: "Process \<Rightarrow> bool" where
  "signal_well p \<longleftrightarrow> length (handlers p) = 32 \<and>
     handlers p ! 9 = SYSCALL_SIGNAL_DEFAULT \<and> handlers p ! 19 = SYSCALL_SIGNAL_DEFAULT \<and>
     (\<forall>n < 32. handlers p ! n = SYSCALL_SIGNAL_IGNORE \<longrightarrow> \<not> bit (pending p) n) \<and> \<not> bit (pending p) 0 \<and>
     (bit (pending p) 18 \<longrightarrow> \<not> bit (pending p) 19 \<and> \<not> bit (pending p) 20 \<and> \<not> bit (pending p) 21 \<and> \<not> bit (pending p) 22) \<and>
     (process_state p = PROCESS_STOPPED \<longrightarrow> \<not> bit (pending p) 9)"

lemma set_process_at [simp]:
  "processes (set_process i f m) ! j = (if j = i \<and> i < length (processes m) then f (processes m ! i) else processes m ! j)"
  by (cases "i < length (processes m)") (auto simp: set_process_def list_update_beyond)

lemma set_process_fields [simp]:
  "length (processes (set_process i f m)) = length (processes m)" "scheduler (set_process i f m) = scheduler m"
  "stop_channel (set_process i f m) = stop_channel m" "process_channel (set_process i f m) = process_channel m"
  by (simp_all add: set_process_def)

definition continued :: "Process \<Rightarrow> Process" where
  "continued p = (if process_state p = PROCESS_STOPPED
     then p\<lparr>process_state := PROCESS_READY, stop_signal := 0, stop_reported := False\<rparr> else p)"

definition signal_sent :: "u32 \<Rightarrow> Process \<Rightarrow> Process" where
  "signal_sent n p =
     (let handler = handlers p ! unat n
      in if handler = SYSCALL_SIGNAL_IGNORE \<or> handler = SYSCALL_SIGNAL_DEFAULT \<and> SignalDefaultAction n = SIGNAL_ACTION_IGNORE
         then p
         else if n = SYSCALL_SIGCONT
         then (let q = continued (p\<lparr>pending := pending p AND NOT SignalStopMask\<rparr>)
               in if handler = SYSCALL_SIGNAL_DEFAULT then q else q\<lparr>pending := pending q OR SignalBit n\<rparr>)
         else (let q = (if SignalIsStop n then p\<lparr>pending := pending p AND NOT (SignalBit SYSCALL_SIGCONT)\<rparr> else p);
                   q = q\<lparr>pending := pending q OR SignalBit n\<rparr>
               in if n = SYSCALL_SIGKILL then continued q else q))"

lemma signal_sent_other:
  assumes "\<not> (handlers p ! unat n = SYSCALL_SIGNAL_IGNORE \<or> handlers p ! unat n = SYSCALL_SIGNAL_DEFAULT \<and>
    SignalDefaultAction n = SIGNAL_ACTION_IGNORE)" "n \<noteq> SYSCALL_SIGCONT"
  shows "signal_sent n p = (let q = (if SignalIsStop n then p\<lparr>pending := pending p AND NOT (SignalBit SYSCALL_SIGCONT)\<rparr> else p);
      q = q\<lparr>pending := pending q OR SignalBit n\<rparr> in if n = SYSCALL_SIGKILL then continued q else q)"
  unfolding signal_sent_def by (simp only: Let_def assms if_False)

definition alive :: "Process \<Rightarrow> bool" where
  "alive p \<longleftrightarrow> process_used p \<and> process_state p \<noteq> PROCESS_EXITED \<and> process_state p \<noteq> PROCESS_UNUSED"

lemma SignalContinue_processes:
  assumes i: "i < length (processes m)" and used: "process_used (processes m ! i)"
  shows "processes (SignalContinue (Some i) m) = (processes m)[i := continued (processes m ! i)]"
    and "stop_channel (SignalContinue (Some i) m) = stop_channel m"
    and "process_channel (SignalContinue (Some i) m) = process_channel m"
    and "scheduler (SignalContinue (Some i) m) =
      (if process_state (processes m ! i) = PROCESS_STOPPED then fst (SchedulerWake (stop_channel m i) (scheduler m))
       else scheduler m)"
  using used by (simp_all add: SignalContinue_def continued_def Let_def set_process_def)

lemma SignalSend_processes:
  assumes i: "i < length (processes m)"
  shows "processes (fst (SignalSend (Some i) n m)) =
      (processes m)[i := if alive (processes m ! i) \<and> SignalNumberIsValid n then signal_sent n (processes m ! i) else processes m ! i]"
    and "snd (SignalSend (Some i) n m) \<longleftrightarrow> alive (processes m ! i) \<and> (n = 0 \<or> SignalNumberIsValid n)"
    and "stop_channel (fst (SignalSend (Some i) n m)) = stop_channel m"
    and "process_channel (fst (SignalSend (Some i) n m)) = process_channel m"
proof -
  let ?p = "processes m ! i"
  have set_set: "set_process i f (set_process i g r) = set_process i (\<lambda>p. f (g p)) r" if "i < length (processes r)" for f g r
    using that by (simp add: set_process_def)
  have "processes (fst (SignalSend (Some i) n m)) = (processes m)[i := signal_sent n ?p] \<and> snd (SignalSend (Some i) n m) \<and>
      stop_channel (fst (SignalSend (Some i) n m)) = stop_channel m \<and>
      process_channel (fst (SignalSend (Some i) n m)) = process_channel m"
    if a: "alive ?p" and v: "SignalNumberIsValid n"
  proof -
    have n0: "n \<noteq> 0" using v by (auto simp: SignalNumberIsValid_def)
    have a': "process_used ?p" "process_state ?p \<noteq> PROCESS_EXITED" "process_state ?p \<noteq> PROCESS_UNUSED"
      using a by (simp_all add: alive_def)
    let ?m = "m\<lparr>SignalSent := SignalSent m + 1\<rparr>"
    consider (skip) "handlers ?p ! unat n = SYSCALL_SIGNAL_IGNORE \<or> handlers ?p ! unat n = SYSCALL_SIGNAL_DEFAULT \<and>
           SignalDefaultAction n = SIGNAL_ACTION_IGNORE"
      | (continue) "n = SYSCALL_SIGCONT"
        "\<not> (handlers ?p ! unat n = SYSCALL_SIGNAL_IGNORE \<or> handlers ?p ! unat n = SYSCALL_SIGNAL_DEFAULT \<and>
           SignalDefaultAction n = SIGNAL_ACTION_IGNORE)"
      | (other) "n \<noteq> SYSCALL_SIGCONT"
        "\<not> (handlers ?p ! unat n = SYSCALL_SIGNAL_IGNORE \<or> handlers ?p ! unat n = SYSCALL_SIGNAL_DEFAULT \<and>
           SignalDefaultAction n = SIGNAL_ACTION_IGNORE)"
      by blast
    then show ?thesis
    proof cases
      case skip
      then have "signal_sent n ?p = ?p" by (simp add: signal_sent_def Let_def)
      moreover have "SignalSend (Some i) n m = (?m, True)"
        using skip a' v n0 by (auto simp: SignalSend_def Let_def)
      ultimately show ?thesis by simp
    next
      case continue
      show ?thesis
      proof (cases "process_state ?p = PROCESS_STOPPED")
        case True
        then show ?thesis using continue a' v n0 i
          by (simp add: SignalSend_def signal_sent_def Let_def continued_def SignalContinue_def set_process_def)
      next
        case False
        then show ?thesis using continue a' v n0 i
          by (simp add: SignalSend_def signal_sent_def Let_def continued_def set_process_def SignalIsStop_def signal_numbers
            split: option.split)
      qed
    next
      case other
      define q where "q = (if SignalIsStop n then ?p\<lparr>pending := pending ?p AND NOT (SignalBit SYSCALL_SIGCONT)\<rparr> else ?p)"
      define r where "r = q\<lparr>pending := pending q OR SignalBit n\<rparr>"
      have r: "process_state r = process_state ?p" "first_thread r = first_thread ?p" "process_used r = process_used ?p"
        by (simp_all add: r_def q_def)
      have "set_process i (\<lambda>p. p\<lparr>pending := pending p OR SignalBit n\<rparr>)
          (if SignalIsStop n then set_process i (\<lambda>p. p\<lparr>pending := pending p AND NOT (SignalBit SYSCALL_SIGCONT)\<rparr>) ?m else ?m) =
          ?m\<lparr>processes := (processes m)[i := r]\<rparr>"
        using i by (simp add: set_process_def r_def q_def)
      then have "SignalSend (Some i) n m = (let m = ?m\<lparr>processes := (processes m)[i := r]\<rparr> in
          if process_state ?p = PROCESS_STOPPED then (if n = SYSCALL_SIGKILL then SignalContinue (Some i) m else m, True)
          else case first_thread ?p of None \<Rightarrow> (m, True)
             | Some t \<Rightarrow> (m\<lparr>scheduler := fst (SchedulerWakeThread (Some t) (scheduler m))\<rparr>, True))"
        using other a' v n0 i r unfolding SignalSend_def by (auto simp: Let_def split: option.split)
      moreover have "signal_sent n ?p = (if n = SYSCALL_SIGKILL then continued r else r)"
        unfolding signal_sent_other [OF other(2,1)] Let_def q_def r_def by (rule refl)
      ultimately show ?thesis
        using i r a' by (auto simp: Let_def continued_def SignalContinue_def set_process_def split: option.split)
    qed
  qed
  moreover have "processes (fst (SignalSend (Some i) n m)) = processes m \<and>
      (snd (SignalSend (Some i) n m) \<longleftrightarrow> alive ?p \<and> n = 0) \<and>
      stop_channel (fst (SignalSend (Some i) n m)) = stop_channel m \<and>
      process_channel (fst (SignalSend (Some i) n m)) = process_channel m"
    if "\<not> (alive ?p \<and> SignalNumberIsValid n)"
    using that by (auto simp: SignalSend_def alive_def Let_def)
  ultimately show "processes (fst (SignalSend (Some i) n m)) =
      (processes m)[i := if alive (processes m ! i) \<and> SignalNumberIsValid n then signal_sent n (processes m ! i) else processes m ! i]"
    "snd (SignalSend (Some i) n m) \<longleftrightarrow> alive (processes m ! i) \<and> (n = 0 \<or> SignalNumberIsValid n)"
    "stop_channel (fst (SignalSend (Some i) n m)) = stop_channel m"
    "process_channel (fst (SignalSend (Some i) n m)) = process_channel m"
    by (cases "alive ?p \<and> SignalNumberIsValid n"; force)+
qed

subsection \<open>The invariant is kept\<close>

lemma continued_well: "signal_well p \<Longrightarrow> signal_well (continued p)"
  by (simp add: signal_well_def continued_def)

lemma signal_sent_well:
  assumes W: "signal_well p" and v: "SignalNumberIsValid n"
  shows "signal_well (signal_sent n p)"
proof (cases "handlers p ! unat n = SYSCALL_SIGNAL_IGNORE \<or> handlers p ! unat n = SYSCALL_SIGNAL_DEFAULT \<and>
    SignalDefaultAction n = SIGNAL_ACTION_IGNORE")
  case True
  then show ?thesis using W by (simp add: signal_sent_def Let_def)
next
  case False
  note w = W [unfolded signal_well_def]
  have n: "1 \<le> unat n" "unat n < 32" using v by (simp_all add: valid_unat)
  show ?thesis
  proof (cases "n = SYSCALL_SIGCONT")
    case True
    then have "signal_well (p\<lparr>pending := pending p AND NOT SignalStopMask\<rparr>)"
      using w by (simp add: signal_well_def bit_unstopped)
    then have C: "signal_well (continued (p\<lparr>pending := pending p AND NOT SignalStopMask\<rparr>))" by (rule continued_well)
    have "\<not> bit (pending (continued (p\<lparr>pending := pending p AND NOT SignalStopMask\<rparr>))) k" if "k \<in> {19, 20, 21, 22}" for k
      using that by (simp add: continued_def bit_unstopped)
    then show ?thesis
      using True False C by (simp add: signal_sent_def Let_def) (auto simp: signal_well_def bit_added signal_numbers continued_def)
  next
    case other: False
    define q where "q = (if SignalIsStop n then p\<lparr>pending := pending p AND NOT (SignalBit SYSCALL_SIGCONT)\<rparr> else p)"
    have q: "signal_well q" "handlers q = handlers p" "process_state q = process_state p"
      "SignalIsStop n \<Longrightarrow> \<not> bit (pending q) 18"
      using w by (auto simp: q_def signal_well_def bit_dropped signal_numbers)
    have not18: "unat n \<noteq> 18" using other by (simp add: SYSCALL_SIGCONT_def word_unat_eq_iff)
    have kill: "n = SYSCALL_SIGKILL \<longleftrightarrow> unat n = 9" by (simp add: SYSCALL_SIGKILL_def word_unat_eq_iff)
    let ?r = "q\<lparr>pending := pending q OR SignalBit n\<rparr>"
    have "signal_well (if n = SYSCALL_SIGKILL then continued ?r else ?r)"
      using q False not18 n unfolding signal_well_def stop_unat kill
      by (auto simp: bit_added continued_def)
    moreover have "signal_sent n p = (if n = SYSCALL_SIGKILL then continued ?r else ?r)"
      unfolding signal_sent_other [OF False other] Let_def q_def by (rule refl)
    ultimately show ?thesis by (simp only:)
  qed
qed

definition signals_well :: "signal_state \<Rightarrow> bool" where
  "signals_well m \<longleftrightarrow> (\<forall>i < length (processes m). signal_well (processes m ! i))"

lemma signals_well_update:
  assumes "signals_well m" "processes m' = (processes m)[i := p]" "i < length (processes m) \<Longrightarrow> signal_well p"
  shows "signals_well m'"
  using assms by (cases "i < length (processes m)") (auto simp: signals_well_def nth_list_update list_update_beyond)

lemma signals_well_same: "processes m' = processes m \<Longrightarrow> signals_well m' = signals_well m"
  by (simp add: signals_well_def)

lemma SignalSend_well:
  assumes W: "signals_well m" and i: "i < length (processes m)"
  shows "signals_well (fst (SignalSend (Some i) n m))" "length (processes (fst (SignalSend (Some i) n m))) = length (processes m)"
proof -
  show "signals_well (fst (SignalSend (Some i) n m))"
    by (rule signals_well_update [OF W SignalSend_processes(1) [OF i]])
      (use W i signal_sent_well in \<open>auto simp: signals_well_def\<close>)
  show "length (processes (fst (SignalSend (Some i) n m))) = length (processes m)"
    using SignalSend_processes(1) [OF i] by simp
qed

lemma SignalSendGroup_well:
  assumes W: "signals_well m"
  shows "signals_well (fst (SignalSendGroup g n m))"
proof -
  have "signals_well (fst (fold (SendToMember g n) [0..<k] (m, 0))) \<and>
      length (processes (fst (fold (SendToMember g n) [0..<k] (m, 0)))) = length (processes m)"
    if "k \<le> length (processes m)" for k
    using that
  proof (induction k)
    case (Suc k)
    obtain r c where r: "fold (SendToMember g n) [0..<k] (m, 0) = (r, c)" by fastforce
    then have I: "signals_well r" "length (processes r) = length (processes m)" using Suc by simp_all
    have "fold (SendToMember g n) [0..<Suc k] (m, 0) = SendToMember g n k (r, c)" by (simp add: r)
    moreover have "signals_well (fst (SendToMember g n k (r, c))) \<and>
        length (processes (fst (SendToMember g n k (r, c)))) = length (processes m)"
      using I Suc.prems SignalSend_well [OF I(1), of k n]
      by (cases "SignalSend (Some k) n r") (simp add: SendToMember_def Let_def)
    ultimately show ?case by simp
  qed (use W in simp)
  from this [of "length (processes m)"] W show ?thesis by (simp add: SignalSendGroup_def)
qed

lemma SignalSetDisposition_well:
  assumes W: "signals_well m" and i: "i < length (processes m)"
  shows "signals_well (fst (SignalSetDisposition (Some i) n d a m))"
proof (cases "process_used (processes m ! i) \<and> SignalNumberIsValid n \<and> n \<noteq> SYSCALL_SIGKILL \<and> n \<noteq> SYSCALL_SIGSTOP")
  case True
  then have n: "1 \<le> unat n" "unat n < 32" "unat n \<noteq> 9" "unat n \<noteq> 19"
    by (simp_all add: valid_unat SYSCALL_SIGKILL_def SYSCALL_SIGSTOP_def word_unat_eq_iff)
  let ?p = "processes m ! i"
  define q where "q = (let p = ?p\<lparr>handlers := (handlers ?p)[unat n := d]\<rparr>;
      p = (if d \<noteq> SYSCALL_SIGNAL_DEFAULT then p\<lparr>restorer := a\<rparr> else p)
      in if d = SYSCALL_SIGNAL_IGNORE then p\<lparr>pending := pending p AND NOT (SignalBit n)\<rparr> else p)"
  have q: "handlers q = (handlers ?p)[unat n := d]" "process_state q = process_state ?p"
    "pending q = (if d = SYSCALL_SIGNAL_IGNORE then pending ?p AND NOT (SignalBit n) else pending ?p)"
    by (simp_all add: q_def Let_def)
  have w: "signal_well ?p" using W i by (simp add: signals_well_def)
  have "signal_well q"
    using w n unfolding signal_well_def q by (auto simp: bit_dropped nth_list_update)
  moreover have "processes (fst (SignalSetDisposition (Some i) n d a m)) = (processes m)[i := q]"
    using True i by (simp add: SignalSetDisposition_def Let_def set_process_def q_def)
  ultimately show ?thesis using signals_well_update [OF W] by blast
next
  case False
  then have "fst (SignalSetDisposition (Some i) n d a m) = m" by (auto simp: SignalSetDisposition_def)
  then show ?thesis using W by simp
qed

text \<open>Every handler set to be called is reset, and every other left.\<close>

lemma ResetHandlers_effect:
  assumes "length hs = 32"
  shows "length (ResetHandlers hs) = 32"
    and "n < 32 \<Longrightarrow> ResetHandlers hs ! n =
      (if 1 \<le> n \<and> hs ! n \<noteq> SYSCALL_SIGNAL_IGNORE then SYSCALL_SIGNAL_DEFAULT else hs ! n)"
proof -
  let ?f = "\<lambda>n hs. if hs ! n \<noteq> SYSCALL_SIGNAL_IGNORE then hs[n := SYSCALL_SIGNAL_DEFAULT] else hs"
  have all: "length (fold ?f [1..<k] hs) = 32 \<and> (\<forall>n < 32. fold ?f [1..<k] hs ! n =
      (if 1 \<le> n \<and> n < k \<and> hs ! n \<noteq> SYSCALL_SIGNAL_IGNORE then SYSCALL_SIGNAL_DEFAULT else hs ! n))"
    if "k \<le> 32" for k
    using that
  proof (induction k)
    case (Suc k)
    show ?case
    proof (cases "1 \<le> k")
      case True
      then have "fold ?f [1..<Suc k] hs = ?f k (fold ?f [1..<k] hs)" by simp
      then show ?thesis using Suc True by (auto simp: nth_list_update less_Suc_eq simp del: fold_simps)
    qed (use assms in auto)
  qed (use assms in simp)
  have "ResetHandlers hs = fold ?f [1..<32] hs" by (simp add: ResetHandlers_def SYSCALL_SIGNAL_MAXIMUM_def)
  with all [of 32] show "length (ResetHandlers hs) = 32" "n < 32 \<Longrightarrow> ResetHandlers hs ! n =
      (if 1 \<le> n \<and> hs ! n \<noteq> SYSCALL_SIGNAL_IGNORE then SYSCALL_SIGNAL_DEFAULT else hs ! n)" by simp_all
qed

lemma SignalResetForExecute_well:
  assumes W: "signals_well m" and i: "i < length (processes m)"
  shows "signals_well (SignalResetForExecute (Some i) m)"
proof -
  let ?p = "processes m ! i"
  have w: "signal_well ?p" using W i by (simp add: signals_well_def)
  then have len: "length (handlers ?p) = 32" by (simp add: signal_well_def)
  note R = ResetHandlers_effect [OF len]
  have ne: "SYSCALL_SIGNAL_IGNORE \<noteq> SYSCALL_SIGNAL_DEFAULT" by (simp add: signal_numbers)
  have "signal_well (?p\<lparr>handlers := ResetHandlers (handlers ?p), restorer := 0\<rparr>)"
    using w R ne unfolding signal_well_def by auto
  then show ?thesis
    by (intro signals_well_update [OF W, of _ i "?p\<lparr>handlers := ResetHandlers (handlers ?p), restorer := 0\<rparr>"])
      (simp_all add: SignalResetForExecute_def set_process_def)
qed

subsection \<open>Taking the lowest\<close>

lemma unat_u32_of_nat: "n < 2 ^ 32 \<Longrightarrow> unat (word_of_nat n :: u32) = n"
  by (simp add: unsigned_of_nat take_bit_nat_eq_self)

lemma TakeFrom_effect:
  assumes "\<forall>n \<in> set ns. 1 \<le> n \<and> n < 32" "sorted ns" "TakeFrom ns w = (w', t)"
  shows "(t = 0 \<longleftrightarrow> (\<forall>n \<in> set ns. \<not> bit w n)) \<and> (t = 0 \<longrightarrow> w' = w) \<and>
    (t \<noteq> 0 \<longrightarrow> unat t \<in> set ns \<and> bit w (unat t) \<and> w' = w AND NOT (SignalBit t) \<and>
       (\<forall>n \<in> set ns. bit w n \<longrightarrow> unat t \<le> n))"
  using assms
proof (induction ns)
  case (Cons n ns)
  have u: "unat (word_of_nat n :: u32) = n" using Cons.prems(1) by (simp add: unat_u32_of_nat)
  show ?case
  proof (cases "bit w n")
    case True
    then have "w AND SignalBit (word_of_nat n) \<noteq> 0" using Cons.prems(1) by (simp add: and_SignalBit u)
    then have "t = word_of_nat n" "w' = w AND NOT (SignalBit t)" using Cons.prems(3) by auto
    moreover have "t \<noteq> 0" using calculation u Cons.prems(1) by (metis list.set_intros(1) not_one_le_zero unsigned_0)
    ultimately show ?thesis using True u Cons.prems(2) by auto
  next
    case False
    then have "w AND SignalBit (word_of_nat n) = 0" by (simp add: and_SignalBit u)
    then show ?thesis using Cons False by simp
  qed
qed simp

lemma SignalTake_effect:
  assumes W: "signals_well m" and i: "i < length (processes m)" and run: "SignalTake (Some i) m = (m', t)"
  shows "t = 0 \<longleftrightarrow> pending (processes m ! i) = 0"
    and "t = 0 \<Longrightarrow> m' = m"
    and "t \<noteq> 0 \<Longrightarrow> SignalNumberIsValid t \<and> bit (pending (processes m ! i)) (unat t) \<and>
      (\<forall>n. bit (pending (processes m ! i)) n \<longrightarrow> unat t \<le> n) \<and>
      processes m' = (processes m)[i := (processes m ! i)\<lparr>pending := pending (processes m ! i) AND NOT (SignalBit t)\<rparr>]"
proof -
  let ?w = "pending (processes m ! i)"
  define ns where "ns = [1..<(32 :: nat)]"
  have ns: "n \<in> set ns \<longleftrightarrow> 1 \<le> n \<and> n < 32" "sorted ns" for n
    by (simp_all only: ns_def set_upt atLeastLessThan_iff sorted_upt)
  obtain w' t' where T: "TakeFrom ns ?w = (w', t')" by fastforce
  have zero: "\<not> bit ?w 0" using W i by (simp add: signals_well_def signal_well_def)
  have range: "1 \<le> n \<and> n < 32" if "bit ?w n" for n
  proof -
    have "n < 32" using bit_imp_le_length [OF that] by simp
    moreover have "n \<noteq> 0" using that zero by metis
    ultimately show ?thesis by simp
  qed
  have empty: "?w = 0 \<longleftrightarrow> (\<forall>n \<in> set ns. \<not> bit ?w n)"
  proof
    assume "\<forall>n \<in> set ns. \<not> bit ?w n"
    then have "\<not> bit ?w n" for n using range [of n] ns(1) [of n] by metis
    then show "?w = 0" by (intro bit_word_eqI) simp
  qed (simp add: ns)
  have E: "(t' = 0 \<longleftrightarrow> (\<forall>n \<in> set ns. \<not> bit ?w n)) \<and> (t' = 0 \<longrightarrow> w' = ?w) \<and>
    (t' \<noteq> 0 \<longrightarrow> unat t' \<in> set ns \<and> bit ?w (unat t') \<and> w' = ?w AND NOT (SignalBit t') \<and>
       (\<forall>n \<in> set ns. bit ?w n \<longrightarrow> unat t' \<le> n))"
    by (rule TakeFrom_effect [OF _ ns(2) T]) (simp add: ns)
  have T': "TakeFrom [1..<Suc (unat SYSCALL_SIGNAL_MAXIMUM)] ?w = (w', t')"
    using T by (simp add: SYSCALL_SIGNAL_MAXIMUM_def ns_def)
  have R: "t = (if ?w = 0 then 0 else t') \<and> (?w = 0 \<longrightarrow> m' = m) \<and>
      (?w \<noteq> 0 \<longrightarrow> processes m' = (processes m)[i := (processes m ! i)\<lparr>pending := w'\<rparr>])"
    using run unfolding SignalTake_def T' option.case prod.case Let_def
    by (auto simp: set_process_def split: if_splits)
  have t': "?w \<noteq> 0 \<Longrightarrow> t' \<noteq> 0" using E empty by blast
  then show zero: "t = 0 \<longleftrightarrow> ?w = 0" using R by simp
  then show "t = 0 \<Longrightarrow> m' = m" using R by simp
  show "SignalNumberIsValid t \<and> bit ?w (unat t) \<and> (\<forall>n. bit ?w n \<longrightarrow> unat t \<le> n) \<and>
      processes m' = (processes m)[i := (processes m ! i)\<lparr>pending := ?w AND NOT (SignalBit t)\<rparr>]" if "t \<noteq> 0"
  proof -
    have w: "?w \<noteq> 0" using that zero by simp
    then have "t = t'" "t' \<noteq> 0" using R t' by simp_all
    then show ?thesis using E R w range ns by (metis valid_unat)
  qed
qed

subsection \<open>Stopping\<close>

lemma SignalStopCurrent_well:
  assumes W: "signals_well m" and i: "i < length (processes m)" and kill: "\<not> bit (pending (processes m ! i)) 9"
  shows "signals_well (SignalStopCurrent cpu (Some i) n m)"
proof (cases "process_used (processes m ! i)")
  case True
  define m1 where "m1 = set_process i (\<lambda>p. p\<lparr>process_state := PROCESS_STOPPED, stop_signal := n, stop_reported := False,
      wait_status := SYSCALL_STATUS_MAKE SYSCALL_STATUS_KIND_STOPPED n\<rparr>) (m\<lparr>SignalStops := SignalStops m + 1\<rparr>)"
  have W1: "signals_well m1" "length (processes m1) = length (processes m)"
    using W i kill by (auto simp: signals_well_def m1_def signal_well_def)
  have found: "ProcessFrom is pid r = Some j \<Longrightarrow> j \<in> set is" for "is" pid r j
    by (induction "is") (auto split: if_splits)
  have parent: "j < length (processes m1)" if "ProcessById pid m1 = Some j" for pid j
    using that found [of "[0..<length (processes m1)]"] by (auto simp: ProcessById_def split: if_splits)
  define m2 where "m2 = (case ProcessById (parent_id (processes m1 ! i)) m1 of None \<Rightarrow> m1
      | Some j \<Rightarrow> fst (SignalSend (Some j) SYSCALL_SIGCHLD
          (m1\<lparr>scheduler := fst (SchedulerWake (process_channel m1 j) (scheduler m1))\<rparr>)))"
  have sched: "signals_well (r\<lparr>scheduler := k\<rparr>) = signals_well r" for r k by (simp add: signals_well_def)
  have W2: "signals_well m2"
  proof (cases "ProcessById (parent_id (processes m1 ! i)) m1")
    case None
    then show ?thesis using W1 by (simp add: m2_def)
  next
    case (Some j)
    then show ?thesis
      using SignalSend_well(1) [of "m1\<lparr>scheduler := fst (SchedulerWake (process_channel m1 j) (scheduler m1))\<rparr>" j] W1(1) parent
      by (simp add: m2_def sched)
  qed
  have "SignalStopCurrent cpu (Some i) n m = StopLoop cpu i m2"
    using True unfolding SignalStopCurrent_def option.case Let_def m2_def m1_def by (simp only: simp_thms if_False)
  then show ?thesis using W2 by (simp add: StopLoop_def sched)
qed (use W in \<open>simp add: SignalStopCurrent_def\<close>)

lemma SignalContinue_well:
  assumes W: "signals_well m" and i: "i < length (processes m)"
  shows "signals_well (SignalContinue (Some i) m)"
proof (cases "process_used (processes m ! i)")
  case True
  show ?thesis
    by (rule signals_well_update [OF W SignalContinue_processes(1) [OF i True]])
      (use W i continued_well in \<open>auto simp: signals_well_def\<close>)
qed (use W in \<open>simp add: SignalContinue_def\<close>)

lemma SignalTake_well:
  assumes W: "signals_well m" and i: "i < length (processes m)" and run: "SignalTake (Some i) m = (m', t)"
  shows "signals_well m'"
proof (cases "t = 0")
  case True
  then show ?thesis using SignalTake_effect(2) [OF assms] W by simp
next
  case False
  let ?p = "processes m ! i"
  have "signal_well (?p\<lparr>pending := pending ?p AND NOT (SignalBit t)\<rparr>)"
    using W i by (auto simp: signals_well_def signal_well_def bit_dropped)
  then show ?thesis using signals_well_update [OF W] SignalTake_effect(3) [OF assms False] by blast
qed

text \<open>A signal that stops, taken as the lowest, leaves no kill behind it.\<close>

lemma stop_taken:
  assumes W: "signals_well m" and i: "i < length (processes m)" and run: "SignalTake (Some i) m = (m', t)" and stop: "SignalIsStop t"
  shows "\<not> bit (pending (processes m' ! i)) 9"
proof -
  have t: "unat t \<in> {19, 20, 21, 22}" using stop by (simp add: stop_unat)
  then have "t \<noteq> 0" by auto
  from SignalTake_effect(3) [OF W i run this] t i show ?thesis by (auto simp: bit_dropped)
qed

end
