(* ===== verification/SignalProperties.thy ===== *)
theory SignalProperties
  imports SignalFacts SchedulerProperties
begin

text \<open>
  The properties of signals (\<open>kernel/proc/signal.c\<close>), applied to two processes of the small
  machine: one running, and its child asleep in a call.
\<close>

text \<open>
  The steps between which the invariant holds.  A stop is taken by the process itself on its way
  out of the kernel, as \<open>SignalDeliver\<close> of \<open>kernel/arch/x86_64/syscall/sigframe.c\<close> takes it.
\<close>

inductive signal_step :: "signal_state \<Rightarrow> signal_state \<Rightarrow> bool" where
  sends: "i < length (processes m) \<Longrightarrow> signal_step m (fst (SignalSend (Some i) n m))"
| sends_group: "signal_step m (fst (SignalSendGroup g n m))"
| disposes: "i < length (processes m) \<Longrightarrow> signal_step m (fst (SignalSetDisposition (Some i) n d a m))"
| executes: "i < length (processes m) \<Longrightarrow> signal_step m (SignalResetForExecute (Some i) m)"
| takes: "i < length (processes m) \<Longrightarrow> SignalTake (Some i) m = (m', t) \<Longrightarrow> signal_step m m'"
| stops: "i < length (processes m) \<Longrightarrow> SignalTake (Some i) m = (m', t) \<Longrightarrow> SignalIsStop t \<Longrightarrow>
    signal_step m (SignalStopCurrent cpu (Some i) t m')"
| continues: "i < length (processes m) \<Longrightarrow> signal_step m (SignalContinue (Some i) m)"

lemma signal_step_well: "signal_step m m' \<Longrightarrow> signals_well m \<Longrightarrow> signals_well m'"
proof (induction rule: signal_step.induct)
  case (stops i m m' t cpu)
  have "signals_well m'" by (rule SignalTake_well [OF stops(4,1,2)])
  moreover have "i < length (processes m')"
    using SignalTake_effect(2,3) [OF stops(4,1,2)] stops(1) by (cases "t = 0") simp_all
  ultimately show ?case using stop_taken [OF stops(4,1,2,3)] by (intro SignalStopCurrent_well)
qed (simp_all add: SignalSend_well SignalSendGroup_well SignalSetDisposition_well SignalResetForExecute_well
  SignalContinue_well SignalTake_well)

lemma signal_steps_well: "signal_step\<^sup>*\<^sup>* m m' \<Longrightarrow> signals_well m \<Longrightarrow> signals_well m'"
  by (induction rule: rtranclp_induct) (auto intro: signal_step_well)

subsection \<open>Two processes\<close>

definition some_process :: Process where
  "some_process = \<lparr>process_used = True, process_id = 1, parent_id = 0, process_state = PROCESS_RUNNING, group = 1, pending = 0,
     handlers = replicate 32 0, restorer = 0, stop_signal = 0, stop_reported = False, wait_status = 0, first_thread = Some 2\<rparr>"

definition two_processes :: signal_state where
  "two_processes = \<lparr>processes = [some_process,
       some_process\<lparr>process_id := 2, parent_id := 1, process_state := PROCESS_READY, first_thread := Some 4\<rparr>],
     process_channel = (\<lambda>i. 0xFFFF900000000000 + word_of_nat (4096 * i)),
     stop_channel = (\<lambda>i. 0xFFFF900000000800 + word_of_nat (4096 * i)),
     scheduler = small_machine, SignalSent = 0, SignalHandled = 0, SignalStops = 0, SignalContinues = 0\<rparr>"

lemma two_processes_well: "signals_well two_processes"
  by (auto simp: signals_well_def two_processes_def signal_well_def some_process_def signal_numbers less_Suc_eq)

text \<open>The child with a stop pending.\<close>

lemma stopping_child:
  shows "1 < length (processes two_processes)"
    and "processes (fst (SignalSend (Some 1) SYSCALL_SIGTSTP two_processes)) ! 1 = signal_sent SYSCALL_SIGTSTP (processes two_processes ! 1)"
    and "bit (pending (processes (fst (SignalSend (Some 1) SYSCALL_SIGTSTP two_processes)) ! 1)) n \<longleftrightarrow> n = 20"
proof -
  show len: "1 < length (processes two_processes)" by (simp add: two_processes_def)
  have a: "alive (processes two_processes ! 1)" by (simp add: alive_def two_processes_def some_process_def)
  have v: "SignalNumberIsValid SYSCALL_SIGTSTP" by (simp add: SignalNumberIsValid_def signal_numbers)
  show p: "processes (fst (SignalSend (Some 1) SYSCALL_SIGTSTP two_processes)) ! 1 = signal_sent SYSCALL_SIGTSTP (processes two_processes ! 1)"
    using SignalSend_processes(1) [OF len, of SYSCALL_SIGTSTP] len a v by simp
  show "bit (pending (processes (fst (SignalSend (Some 1) SYSCALL_SIGTSTP two_processes)) ! 1)) n \<longleftrightarrow> n = 20"
    unfolding p
    by (simp add: signal_sent_def two_processes_def some_process_def signal_numbers SignalDefaultAction_def Let_def bit_added
      SignalIsStop_def bit_dropped) (auto simp: bit_SignalBit)
qed

subsection \<open>Properties\<close>

text \<open>C17: What is pending and what is to be done with it agree.  Whatever is sent, set, reset, taken,
  stopped and continued, the two signals that cannot be caught keep the default disposition, no
  signal that is ignored is pending, a stopped process has no kill pending, and a continue never
  waits beside a stop.
\<close>

theorem signals_stay_consistent:
  assumes "signals_well m" "signal_step\<^sup>*\<^sup>* m m'" "i < length (processes m')"
  shows "handlers (processes m' ! i) ! 9 = SYSCALL_SIGNAL_DEFAULT \<and> handlers (processes m' ! i) ! 19 = SYSCALL_SIGNAL_DEFAULT \<and>
    (\<forall>n < 32. bit (pending (processes m' ! i)) n \<longrightarrow> n \<noteq> 0 \<and> handlers (processes m' ! i) ! n \<noteq> SYSCALL_SIGNAL_IGNORE) \<and>
    (process_state (processes m' ! i) = PROCESS_STOPPED \<longrightarrow> \<not> bit (pending (processes m' ! i)) 9) \<and>
    (bit (pending (processes m' ! i)) 18 \<longrightarrow> (\<forall>n \<in> {19, 20, 21, 22}. \<not> bit (pending (processes m' ! i)) n))"
proof -
  have "signal_well (processes m' ! i)"
    using signal_steps_well [OF assms(2,1)] assms(3) by (simp add: signals_well_def)
  then show ?thesis unfolding signal_well_def by (metis insertE singletonD)
qed

theorem signals_stay_consistent_witness:
  "let m = fst (SignalSend (Some 1) SYSCALL_SIGTSTP two_processes)
   in bit (pending (processes m ! 1)) 20 \<and> handlers (processes m ! 1) ! 20 \<noteq> SYSCALL_SIGNAL_IGNORE"
proof -
  let ?m = "fst (SignalSend (Some 1) SYSCALL_SIGTSTP two_processes)"
  note len = stopping_child(1)
  have steps: "signal_step\<^sup>*\<^sup>* two_processes ?m" by (intro r_into_rtranclp sends len)
  have "bit (pending (processes ?m ! 1)) 20" using stopping_child(3) by blast
  then show ?thesis
    using signals_stay_consistent [OF two_processes_well steps, of 1] SignalSend_well(2) [OF two_processes_well len] len
    by (simp add: Let_def)
qed

text \<open>C18: A kill reaches a process whatever state it is in.  Sent to a live process it is pending, the
  process is no longer stopped, and the thread that slept in the stop, or in a call that waits, is
  ready and in a run queue if some processor may run it.
\<close>

theorem kill_reaches_a_stopped_process:
  assumes W: "signals_well m" and i: "i < length (processes m)" and live: "alive (processes m ! i)"
    and ok: "sched_ok (scheduler m)" and channel: "stop_channel m i \<noteq> 0"
    and run: "SignalSend (Some i) SYSCALL_SIGKILL m = (m', sent)"
  shows "sent \<and> bit (pending (processes m' ! i)) 9 \<and> process_state (processes m' ! i) \<noteq> PROCESS_STOPPED \<and>
    (\<forall>t < length (threads (scheduler m)). placeable (scheduler m) t \<longrightarrow>
       (if process_state (processes m ! i) = PROCESS_STOPPED then sleeping (scheduler m) (stop_channel m i) t
        else first_thread (processes m ! i) = Some t \<and> thread_used (threads (scheduler m) ! t) \<and>
          thread_state (threads (scheduler m) ! t) = THREAD_BLOCKED \<and> wait_channel (threads (scheduler m) ! t) \<noteq> 0) \<longrightarrow>
       queued (threads (scheduler m') ! t) \<and> thread_state (threads (scheduler m') ! t) = THREAD_READY)"
proof -
  let ?p = "processes m ! i" and ?s = "scheduler m"
  have w: "signal_well ?p" using W i by (simp add: signals_well_def)
  have v: "SignalNumberIsValid SYSCALL_SIGKILL" by (simp add: SignalNumberIsValid_def signal_numbers)
  have k: "unat SYSCALL_SIGKILL = 9" "\<not> SignalIsStop SYSCALL_SIGKILL" "SYSCALL_SIGKILL \<noteq> SYSCALL_SIGCONT" "SYSCALL_SIGKILL \<noteq> 0"
    "SignalDefaultAction SYSCALL_SIGKILL \<noteq> SIGNAL_ACTION_IGNORE" "SYSCALL_SIGNAL_DEFAULT \<noteq> SYSCALL_SIGNAL_IGNORE"
    by (simp_all add: signal_numbers SignalIsStop_def SignalDefaultAction_def)
  have h: "handlers ?p ! 9 = SYSCALL_SIGNAL_DEFAULT" using w by (simp add: signal_well_def)
  have "processes m' ! i = signal_sent SYSCALL_SIGKILL ?p" "sent"
    using SignalSend_processes(1,2) [OF i, of SYSCALL_SIGKILL] live v run i by simp_all
  moreover have "signal_sent SYSCALL_SIGKILL ?p = continued (?p\<lparr>pending := pending ?p OR SignalBit SYSCALL_SIGKILL\<rparr>)"
    using h k by (simp add: signal_sent_def Let_def)
  ultimately have first: "sent" "bit (pending (processes m' ! i)) 9" "process_state (processes m' ! i) \<noteq> PROCESS_STOPPED"
    by (simp_all add: continued_def bit_added k(1))
  have sched: "scheduler m' = (if process_state ?p = PROCESS_STOPPED then fst (SchedulerWake (stop_channel m i) ?s)
      else case first_thread ?p of None \<Rightarrow> ?s | Some t \<Rightarrow> fst (SchedulerWakeThread (Some t) ?s))"
    using run live v k h i by (auto simp: SignalSend_def alive_def Let_def SignalContinue_def split: option.splits if_splits)
  have "queued (threads (scheduler m') ! t) \<and> thread_state (threads (scheduler m') ! t) = THREAD_READY"
    if t: "t < length (threads ?s)" "placeable ?s t"
      "if process_state ?p = PROCESS_STOPPED then sleeping ?s (stop_channel m i) t
        else first_thread ?p = Some t \<and> thread_used (threads ?s ! t) \<and> thread_state (threads ?s ! t) = THREAD_BLOCKED \<and>
          wait_channel (threads ?s ! t) \<noteq> 0" for t
  proof (cases "process_state ?p = PROCESS_STOPPED")
    case True
    obtain s' n where s': "SchedulerWake (stop_channel m i) ?s = (s', n)" by fastforce
    have "scheduler m' = s'" using sched True s' by simp
    then show ?thesis using SchedulerWake_effect [OF ok channel s'] t True unfolding woken_below_def fst_conv snd_conv by simp
  next
    case False
    obtain s' n where s': "WakeOne (wait_channel (threads ?s ! t)) t (?s, 0) = (s', n)" by fastforce
    have a: "thread_used (threads ?s ! t)" "thread_state (threads ?s ! t) = THREAD_BLOCKED" "wait_channel (threads ?s ! t) \<noteq> 0"
      "first_thread ?p = Some t" using t(3) False by simp_all
    have "scheduler m' = s'" using sched False a(4) SchedulerWakeThread_WakeOne [OF a(1-3)] s' by simp
    moreover have "sleeping ?s (wait_channel (threads ?s ! t)) t" using a by (simp add: sleeping_def)
    ultimately show ?thesis using WakeOne_effect(5) [OF ok t(1) a(3) s'] t(2) by blast
  qed
  then show ?thesis using first by blast
qed

theorem kill_reaches_a_stopped_process_witness:
  "let m = fst (SignalSend (Some 1) SYSCALL_SIGKILL two_processes)
   in bit (pending (processes m ! 1)) 9 \<and> thread_state (threads (scheduler m) ! 4) = THREAD_READY"
proof -
  obtain m' sent where m': "SignalSend (Some 1) SYSCALL_SIGKILL two_processes = (m', sent)" by fastforce
  have s: "scheduler two_processes = small_machine" by (simp add: two_processes_def)
  have a: "1 < length (processes two_processes)" "alive (processes two_processes ! 1)" "stop_channel two_processes 1 \<noteq> 0"
    "process_state (processes two_processes ! 1) \<noteq> PROCESS_STOPPED" "first_thread (processes two_processes ! 1) = Some 4"
    by (simp_all add: two_processes_def some_process_def alive_def)
  have t: "4 < length (threads small_machine)" "thread_used (threads small_machine ! 4)"
    "thread_state (threads small_machine ! 4) = THREAD_BLOCKED" "wait_channel (threads small_machine ! 4) \<noteq> 0"
    by (simp_all add: small_machine_eval set_thread_def set_queue_def)
  have "placeable small_machine 4"
    unfolding placeable_def
    by (rule exI [of _ 1]) (simp add: small_machine_eval set_thread_def set_queue_def SCHED_AFFINITY_OF_def)
  then show ?thesis
    using kill_reaches_a_stopped_process [OF two_processes_well a(1,2) _ a(3) m'] small_machine_ok a t m' by (simp add: s)
qed

text \<open>A take yields the lowest signal pending, and takes that one alone.\<close>

theorem take_is_the_lowest:
  assumes "signals_well m" "i < length (processes m)" "SignalTake (Some i) m = (m', t)"
  shows "(t = 0 \<longleftrightarrow> \<not> SignalIsPending (Some i) m) \<and>
    (t \<noteq> 0 \<longrightarrow> bit (pending (processes m ! i)) (unat t) \<and> (\<forall>n. bit (pending (processes m ! i)) n \<longrightarrow> unat t \<le> n) \<and>
       (\<forall>n. bit (pending (processes m' ! i)) n \<longleftrightarrow> bit (pending (processes m ! i)) n \<and> n \<noteq> unat t))"
  using SignalTake_effect [OF assms] assms(2) by (auto simp: SignalIsPending_def bit_dropped)

theorem take_is_the_lowest_witness:
  "let m = fst (SignalSend (Some 1) SYSCALL_SIGTSTP two_processes)
   in snd (SignalTake (Some 1) m) = SYSCALL_SIGTSTP \<and> \<not> bit (pending (processes (fst (SignalTake (Some 1) m)) ! 1)) 20"
proof -
  let ?m = "fst (SignalSend (Some 1) SYSCALL_SIGTSTP two_processes)"
  note len = stopping_child(1) and w = stopping_child(3)
  obtain m' t where t: "SignalTake (Some 1) ?m = (m', t)" by fastforce
  note T = take_is_the_lowest [OF SignalSend_well(1) [OF two_processes_well len] _ t]
  have "1 < length (processes ?m)" using SignalSend_well(2) [OF two_processes_well len] len by simp
  note T = T [OF this]
  have "SignalIsPending (Some 1) ?m" using w [of 20] by (auto simp: SignalIsPending_def)
  then have "t \<noteq> 0" "unat t = 20" "\<not> bit (pending (processes m' ! 1)) 20" using T w by auto
  then show ?thesis using t by (simp add: Let_def SYSCALL_SIGTSTP_def word_unat_eq_iff)
qed

text \<open>ignored continue.\<close>

theorem ignored_continue_leaves_stopped:
  assumes "i < length (processes m)" "alive (processes m ! i)" "process_state (processes m ! i) = PROCESS_STOPPED"
    and "handlers (processes m ! i) ! unat SYSCALL_SIGCONT = SYSCALL_SIGNAL_IGNORE"
  shows "snd (SignalSend (Some i) SYSCALL_SIGCONT m) \<and> processes (fst (SignalSend (Some i) SYSCALL_SIGCONT m)) = processes m \<and>
    scheduler (fst (SignalSend (Some i) SYSCALL_SIGCONT m)) = scheduler m"
  using assms by (simp add: SignalSend_def alive_def Let_def SignalNumberIsValid_def signal_numbers)

theorem ignored_continue_leaves_stopped_witness:
  "let m = set_process 1 (\<lambda>p. p\<lparr>process_state := PROCESS_STOPPED, handlers := (handlers p)[18 := 1]\<rparr>) two_processes
   in process_state (processes (fst (SignalSend (Some 1) SYSCALL_SIGCONT m)) ! 1) = PROCESS_STOPPED"
proof -
  let ?m = "set_process 1 (\<lambda>p. p\<lparr>process_state := PROCESS_STOPPED, handlers := (handlers p)[18 := 1]\<rparr>) two_processes"
  have "1 < length (processes ?m)" "alive (processes ?m ! 1)" "process_state (processes ?m ! 1) = PROCESS_STOPPED"
    "handlers (processes ?m ! 1) ! unat SYSCALL_SIGCONT = SYSCALL_SIGNAL_IGNORE"
    by (simp_all add: two_processes_def some_process_def alive_def signal_numbers)
  from ignored_continue_leaves_stopped [OF this] this(3) show ?thesis by (simp add: Let_def)
qed

end
