(* ===== verification/UserMemory.thy ===== *)
theory UserMemory
  imports PagingCow ByteMemory
begin

text \<open>
  What the kernel checks of a pointer a program hands it
  (\<open>kernel/arch/x86_64/syscall/syscall.c\<close>): that the range lies below the limit of user
  space, and that every page of it is the program's; and the copy of a string of unknown
  length.  The walk over the pages advances an address that could wrap, so it is a partial
  function, and that it returns is proved.
\<close>

definition SYSCALL_USER_LIMIT :: u64 where "SYSCALL_USER_LIMIT = 0x800000000000"

definition SyscallRangeIsWithinUserSpace :: "u64 \<Rightarrow> u64 \<Rightarrow> bool" where
  "SyscallRangeIsWithinUserSpace address n =
     (if n = 0 \<or> address = 0 then False
      else if SYSCALL_USER_LIMIT \<le> address then False
      else n \<le> SYSCALL_USER_LIMIT - address)"

partial_function (option) PagesLoop ::
  "bool \<Rightarrow> u64 \<Rightarrow> u64 \<Rightarrow> paging_state \<Rightarrow> (paging_state \<times> bool) outcome option" where
  "PagesLoop writing page final m =
     (if \<not> page \<le> final then Some (Inr (m, True))
      else if \<not> PagingAddressIsUser page m then Some (Inr (m, False))
      else if writing \<and> \<not> PagingAddressIsWritable page m
      then case PagingResolveCopyOnWriteFault page m of
             Inl p \<Rightarrow> Some (Inl p)
           | Inr r \<Rightarrow> if snd r then PagesLoop writing (page + PAGE_SIZE) final (fst r)
                      else Some (Inr (fst r, False))
      else PagesLoop writing (page + PAGE_SIZE) final m)"

definition SyscallPagesArePermitted ::
  "u64 \<Rightarrow> u64 \<Rightarrow> bool \<Rightarrow> paging_state \<Rightarrow> (paging_state \<times> bool) outcome option" where
  "SyscallPagesArePermitted address n writing m =
     PagesLoop writing (AlignDown address PAGE_SIZE) (AlignDown (address + (n - 1)) PAGE_SIZE) m"

definition SyscallUserRangeIsReadable :: "u64 \<Rightarrow> u64 \<Rightarrow> paging_state \<Rightarrow> (paging_state \<times> bool) outcome option" where
  "SyscallUserRangeIsReadable address n m =
     (if SyscallRangeIsWithinUserSpace address n then SyscallPagesArePermitted address n False m
      else Some (Inr (m, False)))"

definition SyscallUserRangeIsWritable :: "u64 \<Rightarrow> u64 \<Rightarrow> paging_state \<Rightarrow> (paging_state \<times> bool) outcome option" where
  "SyscallUserRangeIsWritable address n m =
     (if SyscallRangeIsWithinUserSpace address n then SyscallPagesArePermitted address n True m
      else Some (Inr (m, False)))"

text \<open>
  The copy of a string, from the index reached; \<open>user\<close> is the program's memory as its address
  space maps it.  A panic is impossible here, the check being of a read.
\<close>

function CopyStringFrom ::
  "memory \<Rightarrow> u64 \<Rightarrow> nat \<Rightarrow> nat \<Rightarrow> u8 list \<Rightarrow> paging_state \<Rightarrow> (u8 list \<times> bool) option" where
  "CopyStringFrom user address index capacity destination m =
     (if \<not> index < capacity then Some (destination[0 := 0], False)
      else case SyscallUserRangeIsReadable (address + word_of_nat index) 1 m of
             Some (Inr (m, True)) \<Rightarrow>
               let byte = user (address + word_of_nat index);
                   destination = destination[index := byte]
               in if byte = 0 then Some (destination, True)
                  else CopyStringFrom user address (index + 1) capacity destination m
           | Some (Inr (m, False)) \<Rightarrow> Some (destination, False)
           | _ \<Rightarrow> None)"
  by pat_completeness auto
termination by (relation "measure (\<lambda>(user, address, index, capacity, destination, m). capacity - index)") auto

declare CopyStringFrom.simps [simp del]

definition SyscallCopyUserString ::
  "memory \<Rightarrow> u64 \<Rightarrow> u8 list option \<Rightarrow> nat \<Rightarrow> paging_state \<Rightarrow> (u8 list option \<times> bool) option" where
  "SyscallCopyUserString user address destination capacity m =
     (case destination of
        None \<Rightarrow> Some (None, False)
      | Some bytes \<Rightarrow>
          if capacity = 0 then Some (Some bytes, False)
          else map_option (map_prod Some id) (CopyStringFrom user address 0 capacity (bytes[0 := 0]) m))"

subsection \<open>Pages and bytes\<close>

lemma PagingAddressIsUser_page: "PagingAddressIsUser (AlignDown a PAGE_SIZE) m = PagingAddressIsUser a m"
  by (simp add: PagingAddressIsUser_def PagingAddressPermits_def PagingLevel4Index_def PagingLevel3Index_def
    PagingLevel2Index_def PagingLevel1Index_def page_index_bits)

text \<open>The address of a page by its number.\<close>

definition page_address :: "nat \<Rightarrow> u64" where
  "page_address j = word_of_nat (j * 4096)"

lemma unat_page_address: "j < 2 ^ 52 \<Longrightarrow> unat (page_address j) = j * 4096"
  unfolding page_address_def by (rule unat_word_of_nat) simp

lemma page_address_Suc: "page_address j + PAGE_SIZE = page_address (Suc j)"
  by (simp add: page_address_def PAGE_SIZE_def add.commute)

lemma AlignDown_page_address: "AlignDown a PAGE_SIZE = page_address (unat a div 4096)"
proof -
  have "unat a div 4096 < 2 ^ 52" using unat_u64 [of a] by (simp add: div_less_iff_less_mult)
  then show ?thesis by (intro word_unat_eq_iff [THEN iffD2]) (simp add: unat_AlignDown unat_page_address)
qed

definition user_page :: "paging_state \<Rightarrow> nat \<Rightarrow> bool" where
  "user_page m j = PagingAddressIsUser (page_address j) m"

lemma user_page_of: "PagingAddressIsUser a m = user_page m (unat a div 4096)"
  using PagingAddressIsUser_page [of a m] by (simp add: user_page_def AlignDown_page_address)

text \<open>The walk of a read returns, with the pages looked at and nothing changed.\<close>

lemma PagesLoop_reads:
  assumes "b < 2 ^ 51" and "a \<le> b + 1"
  shows "PagesLoop False (page_address a) (page_address b) m = Some (Inr (m, \<forall>j. a \<le> j \<and> j \<le> b \<longrightarrow> user_page m j))"
  using assms(2)
proof (induction "b + 1 - a" arbitrary: a)
  case 0
  then have a: "a = b + 1" by simp
  have "\<not> page_address a \<le> page_address b"
    using assms(1) a by (simp add: word_le_nat_alt unat_page_address not_le)
  then show ?case using a by (subst PagesLoop.simps) auto
next
  case (Suc d)
  have le: "a \<le> b" using Suc.hyps(2) by simp
  then have w: "page_address a \<le> page_address b"
    using assms by (simp add: word_le_nat_alt unat_page_address)
  have IH: "PagesLoop False (page_address (Suc a)) (page_address b) m =
      Some (Inr (m, \<forall>j. Suc a \<le> j \<and> j \<le> b \<longrightarrow> user_page m j))"
    using Suc.hyps le by (intro Suc.hyps(1)) simp_all
  have split: "(\<forall>j. a \<le> j \<and> j \<le> b \<longrightarrow> user_page m j) \<longleftrightarrow>
      user_page m a \<and> (\<forall>j. Suc a \<le> j \<and> j \<le> b \<longrightarrow> user_page m j)"
    using le by (metis Suc_leD le_refl not_less_eq_eq order_antisym)
  show ?case
    using w IH split by (subst PagesLoop.simps) (simp add: page_address_Suc user_page_def)
qed

lemma readable_pages:
  assumes "0 < unat n" "unat a + unat n \<le> 2 ^ 47"
  shows "SyscallPagesArePermitted a n False m =
    Some (Inr (m, \<forall>i < unat n. PagingAddressIsUser (a + word_of_nat i) m))"
proof -
  let ?first = "unat a div 4096" and ?final = "(unat a + unat n - 1) div 4096"
  have n1: "unat (n - 1) = unat n - 1" using assms(1) by (subst unat_sub) (simp_all add: word_le_nat_alt)
  have "unat (a + (n - 1)) = unat a + unat n - 1"
    using assms n1 by (subst unat_add_lem [THEN iffD1]) simp_all
  then have "SyscallPagesArePermitted a n False m = PagesLoop False (page_address ?first) (page_address ?final) m"
    by (simp add: SyscallPagesArePermitted_def AlignDown_page_address)
  also have "\<dots> = Some (Inr (m, \<forall>j. ?first \<le> j \<and> j \<le> ?final \<longrightarrow> user_page m j))"
    using assms by (intro PagesLoop_reads) (auto intro!: le_SucI div_le_mono)
  also have "(\<forall>j. ?first \<le> j \<and> j \<le> ?final \<longrightarrow> user_page m j) \<longleftrightarrow> (\<forall>i < unat n. PagingAddressIsUser (a + word_of_nat i) m)"
  proof -
    have at: "PagingAddressIsUser (a + word_of_nat i) m = user_page m ((unat a + i) div 4096)" if "i < unat n" for i
      using unat_offset [of a i] that assms by (simp add: user_page_of)
    have "\<exists>i < unat n. (unat a + i) div 4096 = j" if j: "?first \<le> j" "j \<le> ?final" for j
    proof (cases "j = ?first")
      case True
      then show ?thesis using assms by (intro exI [of _ 0]) simp
    next
      case False
      then have "unat a < j * 4096" using j(1) by (simp add: div_less_iff_less_mult le_less)
      moreover have "j * 4096 \<le> unat a + unat n - 1" using j(2) by (simp add: less_eq_div_iff_mult_less_eq)
      ultimately show ?thesis using assms by (intro exI [of _ "j * 4096 - unat a"]) auto
    qed
    moreover have "?first \<le> (unat a + i) div 4096 \<and> (unat a + i) div 4096 \<le> ?final" if "i < unat n" for i
      using that by (auto intro!: div_le_mono)
    ultimately show ?thesis using at by metis
  qed
  finally show ?thesis .
qed

lemma range_within_iff:
  "SyscallRangeIsWithinUserSpace a n \<longleftrightarrow> 0 < unat n \<and> 0 < unat a \<and> unat a + unat n \<le> 2 ^ 47"
proof -
  have l: "unat SYSCALL_USER_LIMIT = 2 ^ 47" by (simp add: SYSCALL_USER_LIMIT_def)
  have z: "unat x = 0 \<longleftrightarrow> x = 0" for x :: u64 by (simp add: unat_eq_0)
  show ?thesis
  proof (cases "a < SYSCALL_USER_LIMIT")
    case True
    then show ?thesis
      by (auto simp: SyscallRangeIsWithinUserSpace_def word_less_nat_alt word_le_nat_alt unat_sub l unat_gt_0)
  next
    case False
    then have "2 ^ 47 \<le> unat a" by (simp add: word_less_nat_alt l)
    then show ?thesis using False z [of n] by (auto simp: SyscallRangeIsWithinUserSpace_def)
  qed
qed

lemma readable_range:
  "SyscallUserRangeIsReadable a n m = Some (Inr (m, 0 < unat n \<and> 0 < unat a \<and> unat a + unat n \<le> 2 ^ 47 \<and>
     (\<forall>i < unat n. PagingAddressIsUser (a + word_of_nat i) m)))"
  using readable_pages [of n a m] range_within_iff [of a n] by (auto simp: SyscallUserRangeIsReadable_def)

subsection \<open>The copy of a string\<close>

definition user_byte :: "paging_state \<Rightarrow> u64 \<Rightarrow> bool" where
  "user_byte m x \<longleftrightarrow> 0 < unat x \<and> unat x < 2 ^ 47 \<and> PagingAddressIsUser x m"

lemma readable_byte: "SyscallUserRangeIsReadable x 1 m = Some (Inr (m, user_byte m x))"
  by (auto simp: readable_range user_byte_def)

definition string_ends :: "memory \<Rightarrow> paging_state \<Rightarrow> u64 \<Rightarrow> nat \<Rightarrow> bool" where
  "string_ends user m a k \<longleftrightarrow> user (a + word_of_nat k) = 0 \<and> (\<forall>i < k. user (a + word_of_nat i) \<noteq> 0) \<and>
     (\<forall>i \<le> k. user_byte m (a + word_of_nat i))"

lemma CopyStringFrom_effect:
  assumes "capacity \<le> length bytes" "\<forall>i < index. user (a + word_of_nat i) \<noteq> 0 \<and> user_byte m (a + word_of_nat i)"
    "take index bytes = map (\<lambda>i. user (a + word_of_nat i)) [0..<index]" "index \<le> capacity"
  shows "\<exists>bytes' copied. CopyStringFrom user a index capacity bytes m = Some (bytes', copied) \<and>
    length bytes' = length bytes \<and> (copied \<longleftrightarrow> (\<exists>k < capacity. string_ends user m a k)) \<and>
    (\<forall>k < capacity. string_ends user m a k \<longrightarrow> take (k + 1) bytes' = map (\<lambda>i. user (a + word_of_nat i)) [0..<k + 1])"
  using assms
proof (induction "capacity - index" arbitrary: index bytes)
  case 0
  then have "index = capacity" by simp
  then have "\<not> string_ends user m a k" if "k < capacity" for k using that 0 by (auto simp: string_ends_def)
  then show ?case using 0 by (subst CopyStringFrom.simps) auto
next
  case (Suc d)
  have lt: "index < capacity" using Suc.hyps(2) by simp
  let ?x = "a + word_of_nat index"
  let ?bytes = "bytes[index := user ?x]"
  have past: "string_ends user m a k \<Longrightarrow> index \<le> k" for k
    using Suc.prems(2) by (auto simp: string_ends_def not_less [symmetric])
  have written: "take (index + 1) ?bytes = map (\<lambda>i. user (a + word_of_nat i)) [0..<index + 1]"
    using Suc.prems lt by (simp add: take_Suc_conv_app_nth)
  show ?case
  proof (cases "user_byte m ?x")
    case False
    then have "\<not> string_ends user m a k" for k using past [of k] by (auto simp: string_ends_def)
    then show ?thesis using False lt by (subst CopyStringFrom.simps) (auto simp: readable_byte)
  next
    case True
    show ?thesis
    proof (cases "user ?x = 0")
      case zero: True
      have "string_ends user m a index"
        using zero Suc.prems(2) True by (auto simp: string_ends_def le_less)
      moreover have "k = index" if "string_ends user m a k" for k
        using past [OF that] that zero by (auto simp: string_ends_def le_less)
      ultimately have only: "string_ends user m a k \<longleftrightarrow> k = index" for k by blast
      have "CopyStringFrom user a index capacity bytes m = Some (?bytes, True)"
        using True lt zero by (subst CopyStringFrom.simps) (simp add: readable_byte)
      then show ?thesis using lt written unfolding only by auto
    next
      case False
      have "\<exists>bytes' copied. CopyStringFrom user a (index + 1) capacity ?bytes m = Some (bytes', copied) \<and>
        length bytes' = length ?bytes \<and> (copied \<longleftrightarrow> (\<exists>k < capacity. string_ends user m a k)) \<and>
        (\<forall>k < capacity. string_ends user m a k \<longrightarrow> take (k + 1) bytes' = map (\<lambda>i. user (a + word_of_nat i)) [0..<k + 1])"
        by (rule Suc.hyps(1)) (use Suc.hyps(2) Suc.prems False True lt written in \<open>auto simp: less_Suc_eq simp del: upt_Suc\<close>)
      then show ?thesis
        using True lt False by (subst CopyStringFrom.simps) (simp add: readable_byte del: upt_Suc)
    qed
  qed
qed

end
