(* ===== verification/SignalFrames.thy ===== *)
theory SignalFrames
  imports Signals UserMemory
begin

text \<open>
  Delivery of signals to a program (\<open>kernel/arch/x86_64/syscall/sigframe.c\<close>): the two frames a
  program's registers stand in, the context saved upon its stack when a handler is entered, the
  loop that takes each pending signal, and \<open>sigreturn\<close>, which puts the context back.
\<close>

subsection \<open>Registers and frames\<close>

record SignalRegisters =
  rip :: u64
  rsp :: u64
  rflags :: u64
  rax :: u64
  rbx :: u64
  rcx :: u64
  rdx :: u64
  rsi :: u64
  rdi :: u64
  rbp :: u64
  r8 :: u64
  r9 :: u64
  r10 :: u64
  r11 :: u64
  r12 :: u64
  r13 :: u64
  r14 :: u64
  r15 :: u64

record SyscallFrame =
  frame_r15 :: u64
  frame_r14 :: u64
  frame_r13 :: u64
  frame_r12 :: u64
  frame_r11 :: u64
  frame_r10 :: u64
  frame_r9 :: u64
  frame_r8 :: u64
  frame_rbp :: u64
  frame_rdi :: u64
  frame_rsi :: u64
  frame_rdx :: u64
  frame_rcx :: u64
  frame_rbx :: u64
  frame_rax :: u64
  frame_user_stack :: u64

record TrapFrame =
  trap_r15 :: u64
  trap_r14 :: u64
  trap_r13 :: u64
  trap_r12 :: u64
  trap_r11 :: u64
  trap_r10 :: u64
  trap_r9 :: u64
  trap_r8 :: u64
  trap_rbp :: u64
  trap_rdi :: u64
  trap_rsi :: u64
  trap_rdx :: u64
  trap_rcx :: u64
  trap_rbx :: u64
  trap_rax :: u64
  trap_vector :: u64
  trap_error_code :: u64
  trap_rip :: u64
  trap_cs :: u64
  trap_rflags :: u64
  trap_rsp :: u64
  trap_ss :: u64

definition SignalRegistersFromSyscallFrame :: "SyscallFrame \<Rightarrow> SignalRegisters" where
  "SignalRegistersFromSyscallFrame frame =
    \<lparr>rip = frame_rcx frame, rsp = frame_user_stack frame, rflags = frame_r11 frame, rax = frame_rax frame,
     rbx = frame_rbx frame, rcx = frame_rcx frame, rdx = frame_rdx frame, rsi = frame_rsi frame,
     rdi = frame_rdi frame, rbp = frame_rbp frame, r8 = frame_r8 frame, r9 = frame_r9 frame,
     r10 = frame_r10 frame, r11 = frame_r11 frame, r12 = frame_r12 frame, r13 = frame_r13 frame,
     r14 = frame_r14 frame, r15 = frame_r15 frame\<rparr>"

definition SignalRegistersToSyscallFrame :: "SignalRegisters \<Rightarrow> SyscallFrame \<Rightarrow> SyscallFrame" where
  "SignalRegistersToSyscallFrame r frame = frame
    \<lparr>frame_rcx := rip r, frame_user_stack := rsp r, frame_r11 := rflags r, frame_rax := rax r,
     frame_rbx := rbx r, frame_rdx := rdx r, frame_rsi := rsi r, frame_rdi := rdi r, frame_rbp := rbp r,
     frame_r8 := r8 r, frame_r9 := r9 r, frame_r10 := r10 r, frame_r12 := r12 r, frame_r13 := r13 r,
     frame_r14 := r14 r, frame_r15 := r15 r\<rparr>"

definition SignalRegistersFromTrapFrame :: "TrapFrame \<Rightarrow> SignalRegisters" where
  "SignalRegistersFromTrapFrame frame =
    \<lparr>rip = trap_rip frame, rsp = trap_rsp frame, rflags = trap_rflags frame, rax = trap_rax frame,
     rbx = trap_rbx frame, rcx = trap_rcx frame, rdx = trap_rdx frame, rsi = trap_rsi frame,
     rdi = trap_rdi frame, rbp = trap_rbp frame, r8 = trap_r8 frame, r9 = trap_r9 frame, r10 = trap_r10 frame,
     r11 = trap_r11 frame, r12 = trap_r12 frame, r13 = trap_r13 frame, r14 = trap_r14 frame,
     r15 = trap_r15 frame\<rparr>"

definition SignalRegistersToTrapFrame :: "SignalRegisters \<Rightarrow> TrapFrame \<Rightarrow> TrapFrame" where
  "SignalRegistersToTrapFrame r frame = frame
    \<lparr>trap_rip := rip r, trap_rsp := rsp r, trap_rflags := rflags r, trap_rax := rax r, trap_rbx := rbx r,
     trap_rcx := rcx r, trap_rdx := rdx r, trap_rsi := rsi r, trap_rdi := rdi r, trap_rbp := rbp r,
     trap_r8 := r8 r, trap_r9 := r9 r, trap_r10 := r10 r, trap_r11 := r11 r, trap_r12 := r12 r,
     trap_r13 := r13 r, trap_r14 := r14 r, trap_r15 := r15 r\<rparr>"

definition SIGNAL_RED_ZONE_BYTES :: u64 where "SIGNAL_RED_ZONE_BYTES = 128"
definition SIGNAL_STACK_ALIGNMENT :: u64 where "SIGNAL_STACK_ALIGNMENT = 16"
definition SIGNAL_CONTEXT_SIZE :: u64 where "SIGNAL_CONTEXT_SIZE = 160"
definition RFLAGS_DIRECTION :: u64 where "RFLAGS_DIRECTION = 0x400"
definition RFLAGS_INTERRUPT_ENABLE :: u64 where "RFLAGS_INTERRUPT_ENABLE = 0x200"

text \<open>CF, PF, AF, ZF, SF, TF, DF and OF.\<close>

definition SIGNAL_USER_FLAGS :: u64 where
  "SIGNAL_USER_FLAGS = 0x1 OR 0x4 OR 0x10 OR 0x40 OR 0x80 OR 0x100 OR RFLAGS_DIRECTION OR 0x800"

definition SYSCALL_EFAULT :: u64 where "SYSCALL_EFAULT = -2"
definition SYSCALL_EINVAL :: u64 where "SYSCALL_EINVAL = -3"
definition SYSCALL_EINTR :: u64 where "SYSCALL_EINTR = -22"
definition SYSCALL_SIGRETURN :: u64 where "SYSCALL_SIGRETURN = 22"

record delivery_state =
  signals :: signal_state
  address_space :: paging_state
  user_memory :: memory
  SignalFramesBuilt :: u64
  SignalFramesRestored :: u64
  SignalFramesRefused :: u64
  SignalCallsRestarted :: u64

text \<open>Consecutive quadwords, as the fields of a structure of them.\<close>

fun store_quads :: "u64 \<Rightarrow> u64 list \<Rightarrow> memory \<Rightarrow> memory" where
  "store_quads a [] m = m"
| "store_quads a (v # vs) m = store_quads (a + 8) vs (store_le a 8 v m)"

subsection \<open>Entering a handler\<close>

text \<open>The fields of \<open>SignalContext\<close>, in order.\<close>

definition SignalContext :: "nat \<Rightarrow> u32 \<Rightarrow> SignalRegisters \<Rightarrow> delivery_state \<Rightarrow> u64 list" where
  "SignalContext i n r st =
    [restorer (processes (signals st) ! i), ucast n, rip r, rsp r, rflags r, rax r, rbx r, rcx r, rdx r, rsi r,
     rdi r, rbp r, r8 r, r9 r, r10 r, r11 r, r12 r, r13 r, r14 r, r15 r]"

definition SignalEnterHandler ::
  "nat \<Rightarrow> u32 \<Rightarrow> u64 \<Rightarrow> SignalRegisters \<Rightarrow> delivery_state \<Rightarrow> (delivery_state \<times> SignalRegisters \<times> bool) outcome option" where
  "SignalEnterHandler i n handler r st =
     (let base = rsp r - SIGNAL_RED_ZONE_BYTES - SIGNAL_CONTEXT_SIZE;
          base = base AND NOT (SIGNAL_STACK_ALIGNMENT - 1);
          base = base - 8
      in case SyscallUserRangeIsWritable base SIGNAL_CONTEXT_SIZE (address_space st) of
           None \<Rightarrow> None
         | Some (Inl p) \<Rightarrow> Some (Inl p)
         | Some (Inr (m, permitted)) \<Rightarrow>
             let st = st\<lparr>address_space := m\<rparr>
             in if \<not> permitted then Some (Inr (st\<lparr>SignalFramesRefused := SignalFramesRefused st + 1\<rparr>, r, False))
                else
                  let st = st\<lparr>user_memory := store_quads base (SignalContext i n r st) (user_memory st)\<rparr>;
                      r = r\<lparr>rip := handler, rsp := base, rdi := ucast n, rflags := rflags r AND NOT RFLAGS_DIRECTION\<rparr>
                  in Some (Inr (st\<lparr>SignalFramesBuilt := SignalFramesBuilt st + 1\<rparr>, r, True)))"

subsection \<open>The delivery\<close>

text \<open>
  How a delivery ends: the program resumes through its frame; it is stopped, and the loop is
  taken up again from its head once it has been continued; or it is terminated by a signal,
  which does not return (\<open>SignalTerminate\<close> ends in \<open>ProcessExit\<close>).
\<close>

datatype delivery_end = Resumes | Stopped | Terminated u32

partial_function (option) SignalDeliver ::
  "nat \<Rightarrow> nat \<Rightarrow> SignalRegisters \<Rightarrow> delivery_state \<Rightarrow> (delivery_state \<times> SignalRegisters \<times> delivery_end) outcome option" where
  "SignalDeliver cpu i r st =
     (let (m, n) = SignalTake (Some i) (signals st);
          st = st\<lparr>signals := m\<rparr>
      in if n = 0 then Some (Inr (st, r, Resumes))
         else
           let disposition = SignalDisposition (Some i) n m
           in if disposition = SYSCALL_SIGNAL_IGNORE then SignalDeliver cpu i r st
              else if disposition = SYSCALL_SIGNAL_DEFAULT
              then if SignalDefaultAction n = SIGNAL_ACTION_IGNORE \<or> SignalDefaultAction n = SIGNAL_ACTION_CONTINUE
                   then SignalDeliver cpu i r st
                   else if SignalDefaultAction n = SIGNAL_ACTION_STOP
                   then Some (Inr (st\<lparr>signals := SignalStopCurrent cpu (Some i) n m\<rparr>, r, Stopped))
                   else Some (Inr (st, r, Terminated n))
              else
                case SignalEnterHandler i n disposition r st of
                  None \<Rightarrow> None
                | Some (Inl p) \<Rightarrow> Some (Inl p)
                | Some (Inr (st, r, entered)) \<Rightarrow>
                    Some (Inr (st, r, if entered then Resumes else Terminated SYSCALL_SIGSEGV)))"

text \<open>\<open>current\<close> is \<open>ProcessCurrent\<close>; without one there is nothing to deliver to.\<close>

definition SignalDeliverToSyscallFrame ::
  "nat \<Rightarrow> nat option \<Rightarrow> SyscallFrame option \<Rightarrow> u64 \<Rightarrow> delivery_state \<Rightarrow>
   (delivery_state \<times> SyscallFrame option \<times> delivery_end) outcome option" where
  "SignalDeliverToSyscallFrame cpu current frame number st =
     (case frame of
        None \<Rightarrow> Some (Inr (st, None, Resumes))
      | Some f \<Rightarrow>
          (case current of
             None \<Rightarrow> Some (Inr (st, Some f, Resumes))
           | Some i \<Rightarrow>
               if \<not> SignalIsPending (Some i) (signals st) then Some (Inr (st, Some f, Resumes))
               else
                 let interrupted = (frame_rax f = SYSCALL_EINTR \<and> number \<noteq> SYSCALL_SIGRETURN);
                     r = SignalRegistersFromSyscallFrame f;
                     resumed_at = rip r
                 in case SignalDeliver cpu i r st of
                      None \<Rightarrow> None
                    | Some (Inl p) \<Rightarrow> Some (Inl p)
                    | Some (Inr (st, r, how)) \<Rightarrow>
                        let f = SignalRegistersToSyscallFrame r f
                        in if interrupted \<and> rip r = resumed_at
                           then Some (Inr (st\<lparr>SignalCallsRestarted := SignalCallsRestarted st + 1\<rparr>,
                                  Some (f\<lparr>frame_rax := number, frame_rcx := frame_rcx f - 2\<rparr>), how))
                           else Some (Inr (st, Some f, how))))"

definition SignalDeliverToTrapFrame ::
  "nat \<Rightarrow> nat option \<Rightarrow> TrapFrame option \<Rightarrow> delivery_state \<Rightarrow> (delivery_state \<times> TrapFrame option \<times> delivery_end) outcome option" where
  "SignalDeliverToTrapFrame cpu current frame st =
     (case frame of
        None \<Rightarrow> Some (Inr (st, None, Resumes))
      | Some f \<Rightarrow>
          (case current of
             None \<Rightarrow> Some (Inr (st, Some f, Resumes))
           | Some i \<Rightarrow>
               if trap_cs f AND 3 = 0 \<or> \<not> SignalIsPending (Some i) (signals st) then Some (Inr (st, Some f, Resumes))
               else
                 case SignalDeliver cpu i (SignalRegistersFromTrapFrame f) st of
                   None \<Rightarrow> None
                 | Some (Inl p) \<Rightarrow> Some (Inl p)
                 | Some (Inr (st, r, how)) \<Rightarrow> Some (Inr (st, Some (SignalRegistersToTrapFrame r f), how))))"

subsection \<open>The return\<close>

definition SignalReturn ::
  "SyscallFrame option \<Rightarrow> delivery_state \<Rightarrow> (delivery_state \<times> SyscallFrame option \<times> u64) outcome option" where
  "SignalReturn frame st =
     (case frame of
        None \<Rightarrow> Some (Inr (st, None, SYSCALL_EINVAL))
      | Some f \<Rightarrow>
          let address = frame_user_stack f - 8
          in case SyscallUserRangeIsReadable address SIGNAL_CONTEXT_SIZE (address_space st) of
               None \<Rightarrow> None
             | Some (Inl p) \<Rightarrow> Some (Inl p)
             | Some (Inr (m, permitted)) \<Rightarrow>
                 let st = st\<lparr>address_space := m\<rparr>;
                     refused = Some (Inr (st\<lparr>SignalFramesRefused := SignalFramesRefused st + 1\<rparr>, Some f, SYSCALL_EFAULT));
                     context = (\<lambda>offset. load_le (user_memory st) (address + offset) 8)
                 in if \<not> permitted then refused
                    else if SYSCALL_USER_LIMIT \<le> context 16 then refused
                    else
                      let f = f\<lparr>frame_rcx := context 16, frame_user_stack := context 24,
                         frame_r11 := (context 32 AND SIGNAL_USER_FLAGS) OR RFLAGS_INTERRUPT_ENABLE OR 2,
                         frame_rax := context 40, frame_rbx := context 48, frame_rdx := context 64,
                         frame_rsi := context 72, frame_rdi := context 80, frame_rbp := context 88,
                         frame_r8 := context 96, frame_r9 := context 104, frame_r10 := context 112,
                         frame_r12 := context 128, frame_r13 := context 136, frame_r14 := context 144,
                         frame_r15 := context 152\<rparr>
                      in Some (Inr (st\<lparr>SignalFramesRestored := SignalFramesRestored st + 1\<rparr>, Some f, context 40)))"

subsection \<open>Quadwords read back\<close>

lemma store_quads_other:
  "unat a + 8 * length vs \<le> 2 ^ 64 \<Longrightarrow> unat x \<notin> byte_range a (8 * length vs) \<Longrightarrow> store_quads a vs m x = m x"
proof (induction vs arbitrary: a m)
  case (Cons v vs)
  have a: "unat (a + 8) = unat a + 8" if "vs \<noteq> []"
  proof -
    have "unat a + 8 < 2 ^ 64" using that Cons.prems(1) by (cases vs) simp_all
    then show ?thesis by (subst unat_add_lem [THEN iffD1]) simp_all
  qed
  show ?case
  proof (cases vs)
    case Nil
    then show ?thesis using Cons.prems store_le_other [of a 8 x] by simp
  next
    case (Cons w ws)
    have "store_quads (a + 8) vs (store_le a 8 v m) x = store_le a 8 v m x"
      by (rule Cons.IH) (use Cons Cons.prems a in \<open>auto simp: byte_range_def\<close>)
    moreover have "store_le a 8 v m x = m x"
      using Cons.prems by (intro store_le_other) (auto simp: byte_range_def)
    ultimately show ?thesis by simp
  qed
qed simp

lemma load_store_quads:
  "unat a + 8 * length vs < 2 ^ 64 \<Longrightarrow> k < length vs \<Longrightarrow> load_le (store_quads a vs m) (a + word_of_nat (8 * k)) 8 = vs ! k"
proof (induction vs arbitrary: a m k)
  case (Cons v vs)
  have a: "unat (a + 8) = unat a + 8" using Cons.prems(1) by (subst unat_add_lem [THEN iffD1]) simp_all
  show ?case
  proof (cases k)
    case 0
    have "load_le (store_quads (a + 8) vs (store_le a 8 v m)) a 8 = load_le (store_le a 8 v m) a 8"
      by (rule load_le_cong) (use Cons.prems a in \<open>auto simp: byte_range_def intro!: store_quads_other\<close>)
    also have "\<dots> = v" using Cons.prems(1) by (subst load_store_same) (simp_all add: take_bit_word_eq_self)
    finally show ?thesis using 0 by simp
  next
    case (Suc j)
    have "load_le (store_quads (a + 8) vs (store_le a 8 v m)) (a + 8 + word_of_nat (8 * j)) 8 = vs ! j"
      by (rule Cons.IH) (use Cons.prems a Suc in simp_all)
    then show ?thesis using Suc by (simp add: algebra_simps)
  qed
qed simp

subsection \<open>Where a frame is put\<close>

lemma unat_clear_low4: "unat ((v :: u64) AND NOT 15) = unat v div 16 * 16"
proof -
  have m: "(15 :: u64) = mask 4" by (simp add: mask_eq_exp_minus_1)
  have "v AND NOT (mask 4) = push_bit 4 (drop_bit 4 v)"
    by (rule bit_word_eqI) (auto simp: bit_simps)
  moreover have "unat (push_bit 4 (drop_bit 4 v)) = (unat (drop_bit 4 v) * 16) mod 2 ^ 64"
    by (simp add: push_bit_eq_mult unat_word_ariths)
  moreover have "unat (drop_bit 4 v) = unat v div 16" by (simp add: drop_bit_eq_div unat_div_distrib)
  moreover have "unat v div 16 * 16 < 2 ^ 64" using unat_u64 [of v] by (meson div_times_less_eq_dividend le_less_trans)
  ultimately show ?thesis unfolding m by simp
qed

text \<open>A frame within user space lies below the red zone, aligned as a function is entered.\<close>

lemma frame_below:
  assumes base: "base = (sp - SIGNAL_RED_ZONE_BYTES - SIGNAL_CONTEXT_SIZE AND NOT (SIGNAL_STACK_ALIGNMENT - 1)) - 8"
    and within: "0 < unat base" "unat base + 160 \<le> 2 ^ 47"
  shows "unat base + 160 + 128 \<le> unat sp \<and> unat base mod 16 = 8"
proof -
  define y where "y = sp - 288"
  have "base = (y AND NOT 15) - 8"
    by (simp add: base y_def SIGNAL_RED_ZONE_BYTES_def SIGNAL_CONTEXT_SIZE_def SIGNAL_STACK_ALIGNMENT_def diff_diff_eq)
  moreover define z where "z = unat y div 16 * 16"
  moreover have "unat (y AND NOT 15) = z" unfolding z_def by (rule unat_clear_low4)
  ultimately have bz: "unat base = (if 8 \<le> z then z - 8 else z + 2 ^ 64 - 8)"
    using unat_sub_if_size [of "y AND NOT 15" 8] by (simp add: word_size)
  then have z: "8 \<le> z" "unat base = z - 8" using within by (auto split: if_splits)
  have "unat y = (if 288 \<le> unat sp then unat sp - 288 else unat sp + 2 ^ 64 - 288)"
    using unat_sub_if_size [of sp 288] by (simp add: word_size y_def)
  moreover have "z \<le> unat y" "unat y < z + 16"
    unfolding z_def by (simp_all add: div_times_less_eq_dividend)
  ultimately have "unat base + 160 + 128 \<le> unat sp"
    using z within unat_u64 [of sp] by (auto split: if_splits)
  moreover obtain q where "z = 16 * Suc q"
    using z(1) unfolding z_def by (metis mult.commute mult_0 not_numeral_le_zero not0_implies_Suc)
  then have "z - 8 = 16 * q + 8" by simp
  then have "unat base mod 16 = 8" unfolding z(2) by (simp only: mod_mult_self4) simp
  ultimately show ?thesis by blast
qed

end
