(* ===== verification/DeliveryProperties.thy ===== *)
theory DeliveryProperties
  imports SignalFrames SignalProperties Specimen
begin

text \<open>
  The properties of the checks on user memory (\<open>kernel/arch/x86_64/syscall/syscall.c\<close>) and of the
  delivery of signals (\<open>kernel/arch/x86_64/syscall/sigframe.c\<close>), applied to a program with one
  page mapped at \<open>0x400000\<close>.
\<close>

subsection \<open>The walk of a write returns\<close>

lemma PagesLoop_returns:
  assumes "b < 2 ^ 51" "a \<le> b + 1"
  shows "\<exists>res. PagesLoop w (page_address a) (page_address b) m = Some res"
  using assms(2)
proof (induction "b + 1 - a" arbitrary: a m)
  case 0
  then have "\<not> page_address a \<le> page_address b"
    using assms(1) by (simp add: word_le_nat_alt unat_page_address not_le)
  then show ?case by (subst PagesLoop.simps) simp
next
  case (Suc d)
  have "\<exists>res. PagesLoop w (page_address (Suc a)) (page_address b) m' = Some res" for m'
    using Suc.hyps(2) by (intro Suc.hyps(1)) simp_all
  then show ?case
    by (subst PagesLoop.simps) (auto simp: page_address_Suc split: sum.split)
qed

lemma writable_returns: "\<exists>res. SyscallUserRangeIsWritable a n m = Some res"
proof (cases "SyscallRangeIsWithinUserSpace a n")
  case True
  then have b: "0 < unat n" "unat a + unat n \<le> 2 ^ 47" by (simp_all add: range_within_iff)
  have "unat (n - 1) = unat n - 1" using b(1) by (subst unat_sub) (simp_all add: word_le_nat_alt)
  then have s: "unat (a + (n - 1)) = unat a + unat n - 1"
    using b by (subst unat_add_lem [THEN iffD1]) simp_all
  have "\<exists>res. PagesLoop True (page_address (unat a div 4096)) (page_address ((unat a + unat n - 1) div 4096)) m = Some res"
    using b by (intro PagesLoop_returns) (auto intro!: le_SucI div_le_mono)
  then show ?thesis using True s by (simp add: SyscallUserRangeIsWritable_def SyscallPagesArePermitted_def AlignDown_page_address)
qed (simp add: SyscallUserRangeIsWritable_def)

lemma enter_handler_returns: "\<exists>res. SignalEnterHandler i n h r st = Some res"
proof -
  obtain res where "SyscallUserRangeIsWritable ((rsp r - SIGNAL_RED_ZONE_BYTES - SIGNAL_CONTEXT_SIZE AND
      NOT (SIGNAL_STACK_ALIGNMENT - 1)) - 8) SIGNAL_CONTEXT_SIZE (address_space st) = Some res"
    using writable_returns by blast
  then show ?thesis by (auto simp: SignalEnterHandler_def Let_def split: sum.split)
qed

subsection \<open>A program with one page\<close>

definition one_page :: paging_state where
  "one_page = specimen_paging 1 0x104007"

lemma one_page_permits:
  assumes "x AND NOT 0xFFF = 0x400000"
  shows "PagingAddressIsUser x one_page" "PagingAddressIsWritable x one_page"
proof -
  have "PagingLevel4Index x = PagingLevel4Index 0x400000" "PagingLevel3Index x = PagingLevel3Index 0x400000"
    "PagingLevel2Index x = PagingLevel2Index 0x400000" "PagingLevel1Index x = PagingLevel1Index 0x400000"
    using same_page_AlignDown [of x] assms
    by (simp_all add: same_page_def AlignDown_def PAGE_SIZE_def level_index_def)
  then have i: "PagingLevel4Index x = 0" "PagingLevel3Index x = 0" "PagingLevel2Index x = 2" "PagingLevel1Index x = 0"
    by (simp_all add: PagingLevel4Index_def PagingLevel3Index_def PagingLevel2Index_def PagingLevel1Index_def)
  show "PagingAddressIsUser x one_page" "PagingAddressIsWritable x one_page"
    by (simp_all add: PagingAddressIsUser_def PagingAddressIsWritable_def PagingAddressPermits_def i one_page_def specimen_paging_def
      specimen_memory_def
      PAGE_ENTRY_PRESENT_def PAGE_ENTRY_USER_def PAGE_ENTRY_WRITABLE_def PAGE_ENTRY_LARGE_def PAGE_ENTRY_ADDRESS_MASK_def Let_def)
qed

definition one_program :: delivery_state where
  "one_program = \<lparr>signals = two_processes, address_space = one_page, user_memory = (\<lambda>_. 0), SignalFramesBuilt = 0,
     SignalFramesRestored = 0, SignalFramesRefused = 0, SignalCallsRestarted = 0\<rparr>"

definition some_registers :: SignalRegisters where
  "some_registers = \<lparr>rip = 0x400100, rsp = 0x400F00, rflags = 0x246, rax = 1, rbx = 2, rcx = 3, rdx = 4, rsi = 5, rdi = 6,
     rbp = 7, r8 = 8, r9 = 9, r10 = 10, r11 = 11, r12 = 12, r13 = 13, r14 = 14, r15 = 15\<rparr>"

lemma one_page_writable: "SyscallUserRangeIsWritable 0x400DD8 160 one_page = Some (Inr (one_page, True))"
proof -
  have p: "AlignDown 0x400DD8 PAGE_SIZE = 0x400000" "AlignDown (0x400DD8 + (160 - 1)) PAGE_SIZE = 0x400000"
    by (simp_all add: AlignDown_def PAGE_SIZE_def)
  have u: "PagingAddressIsUser 0x400000 one_page" "PagingAddressIsWritable 0x400000 one_page"
    by (rule one_page_permits; simp)+
  have "PagesLoop True (0x400000 + PAGE_SIZE) 0x400000 one_page = Some (Inr (one_page, True))"
    by (subst PagesLoop.simps) (simp add: PAGE_SIZE_def)
  then have "PagesLoop True 0x400000 0x400000 one_page = Some (Inr (one_page, True))"
    using u by (subst PagesLoop.simps) simp
  then show ?thesis
    by (simp only: SyscallUserRangeIsWritable_def SyscallPagesArePermitted_def p)
      (simp add: SyscallRangeIsWithinUserSpace_def SYSCALL_USER_LIMIT_def)
qed

subsection \<open>Properties\<close>

text \<open>C19: The check of a range of user memory, which goes by pages and guards its sums against
  wrapping, says the same as a check of every byte: it returns for every argument, without a
  change to the tables, and accepts exactly the ranges of at least one byte of which each lies
  above zero, below the limit of user memory and on a page a program may read.
\<close>

theorem readable_range_is_bytewise:
  "SyscallUserRangeIsReadable a n m = Some (Inr (m, 0 < unat n \<and> (\<forall>i < unat n.
     0 < unat a \<and> unat a + i < unat SYSCALL_USER_LIMIT \<and> PagingAddressIsUser (a + word_of_nat i) m)))"
proof -
  have "unat SYSCALL_USER_LIMIT = 2 ^ 47" by (simp add: SYSCALL_USER_LIMIT_def)
  moreover have "(0 < unat n \<and> (\<forall>i < unat n. 0 < unat a \<and> unat a + i < 2 ^ 47 \<and> PagingAddressIsUser (a + word_of_nat i) m))
      \<longleftrightarrow> (0 < unat n \<and> 0 < unat a \<and> unat a + unat n \<le> 2 ^ 47 \<and> (\<forall>i < unat n. PagingAddressIsUser (a + word_of_nat i) m))"
    (is "?bytes \<longleftrightarrow> ?range")
  proof
    assume b: ?bytes
    then have "unat a + (unat n - 1) < 2 ^ 47" by (metis One_nat_def diff_less zero_less_one)
    then show ?range using b by auto
  qed auto
  ultimately show ?thesis by (simp only: readable_range)
qed

theorem readable_range_is_bytewise_witness:
  "SyscallUserRangeIsReadable 0x400FFF 1 one_page = Some (Inr (one_page, True)) \<and>
   SyscallUserRangeIsReadable 0x800000000000 1 one_page = Some (Inr (one_page, False))"
  using readable_range_is_bytewise [of "0x400FFF" 1 one_page] readable_range_is_bytewise [of "0x800000000000" 1 one_page]
    one_page_permits(1) [of "0x400FFF"] by (simp add: SYSCALL_USER_LIMIT_def)

text \<open>C20: The copy of a string from a program returns, keeps the length of the destination, and
  succeeds exactly when the string ends within the capacity with every byte up to its end
  readable; the bytes copied are then the program's, the terminator included.
\<close>

theorem copied_string_is_the_users:
  assumes "0 < capacity" "capacity \<le> length bytes"
  shows "\<exists>bytes' copied. SyscallCopyUserString user a (Some bytes) capacity m = Some (Some bytes', copied) \<and>
    length bytes' = length bytes \<and> (copied \<longleftrightarrow> (\<exists>k < capacity. string_ends user m a k)) \<and>
    (\<forall>k < capacity. string_ends user m a k \<longrightarrow> take (k + 1) bytes' = map (\<lambda>i. user (a + word_of_nat i)) [0..<k + 1])"
proof -
  obtain bytes' copied where "CopyStringFrom user a 0 capacity (bytes[0 := 0]) m = Some (bytes', copied)"
    "length bytes' = length (bytes[0 := 0])" "copied \<longleftrightarrow> (\<exists>k < capacity. string_ends user m a k)"
    "\<forall>k < capacity. string_ends user m a k \<longrightarrow> take (k + 1) bytes' = map (\<lambda>i. user (a + word_of_nat i)) [0..<k + 1]"
    using CopyStringFrom_effect [of capacity "bytes[0 := 0]" 0 user a m] assms by auto
  then show ?thesis using assms by (simp add: SyscallCopyUserString_def)
qed

theorem copied_string_is_the_users_witness:
  "\<exists>bytes'. SyscallCopyUserString (\<lambda>x. if x = 0x400010 then 0x2F else 0) 0x400010 (Some [1, 1, 1]) 3 one_page
     = Some (Some bytes', True) \<and> take 2 bytes' = [0x2F, 0]"
proof -
  let ?user = "\<lambda>x :: u64. if x = 0x400010 then 0x2F else 0 :: u8"
  have b: "user_byte one_page 0x400010" "user_byte one_page 0x400011"
    using one_page_permits(1) by (simp_all add: user_byte_def)
  have e: "string_ends ?user one_page 0x400010 1"
    unfolding string_ends_def using b by (auto simp: le_Suc_eq)
  obtain bytes' copied where c: "SyscallCopyUserString ?user 0x400010 (Some [1, 1, 1]) 3 one_page = Some (Some bytes', copied)"
    "copied \<longleftrightarrow> (\<exists>k < 3. string_ends ?user one_page 0x400010 k)"
    "\<forall>k < 3. string_ends ?user one_page 0x400010 k \<longrightarrow> take (k + 1) bytes' = map (\<lambda>i. ?user (0x400010 + word_of_nat i)) [0..<k + 1]"
    using copied_string_is_the_users [of 3 "[1, 1, 1]" ?user "0x400010" one_page] by auto
  then have "copied" using e by force
  moreover have "take (1 + 1) bytes' = map (\<lambda>i. ?user (0x400010 + word_of_nat i)) [0..<1 + 1]" using c(3) e by force
  then have "take 2 bytes' = [0x2F, 0]" by (simp add: numeral_2_eq_2)
  ultimately show ?thesis using c(1) by metis
qed

text \<open>
  Entering a handler and returning, for any context: RCX and R11 come back as the return address
  and the flags, which is what the return instruction leaves in them.
\<close>

lemma signal_frame_restores:
  assumes enter: "SignalEnterHandler i n h r st = Some (Inr (st1, r1, True))"
    and stack: "frame_user_stack f = rsp r1 + 8" and target: "rip r < SYSCALL_USER_LIMIT"
    and mapped: "\<forall>k < 160. PagingAddressIsUser (rsp r1 + word_of_nat k) (address_space st2)"
    and intact: "\<forall>k < 160. user_memory st2 (rsp r1 + word_of_nat k) = user_memory st1 (rsp r1 + word_of_nat k)"
  shows "rip r1 = h \<and> rdi r1 = ucast n \<and> unat (rsp r1) + 160 + 128 \<le> unat (rsp r) \<and> unat (rsp r1) mod 16 = 8 \<and>
    (\<exists>st3 f'. SignalReturn (Some f) st2 = Some (Inr (st3, Some f', rax r)) \<and>
      SignalRegistersFromSyscallFrame f' =
        r\<lparr>rflags := (rflags r AND SIGNAL_USER_FLAGS) OR RFLAGS_INTERRUPT_ENABLE OR 2, rcx := rip r,
          r11 := (rflags r AND SIGNAL_USER_FLAGS) OR RFLAGS_INTERRUPT_ENABLE OR 2\<rparr>)"
proof -
  define base where "base = (rsp r - SIGNAL_RED_ZONE_BYTES - SIGNAL_CONTEXT_SIZE AND NOT (SIGNAL_STACK_ALIGNMENT - 1)) - 8"
  obtain m where w: "SyscallUserRangeIsWritable base SIGNAL_CONTEXT_SIZE (address_space st) = Some (Inr (m, True))"
    and st1: "user_memory st1 = store_quads base (SignalContext i n r st) (user_memory st)"
    and r1: "r1 = r\<lparr>rip := h, rsp := base, rdi := ucast n, rflags := rflags r AND NOT RFLAGS_DIRECTION\<rparr>"
    using enter unfolding SignalEnterHandler_def Let_def base_def [symmetric]
    by (auto simp: SignalContext_def split: option.splits sum.splits if_splits)
  have b: "0 < unat base" "unat base + 160 \<le> 2 ^ 47"
    using w range_within_iff [of base SIGNAL_CONTEXT_SIZE]
    by (auto simp: SyscallUserRangeIsWritable_def SIGNAL_CONTEXT_SIZE_def split: if_splits)
  have place: "unat base + 160 + 128 \<le> unat (rsp r) \<and> unat base mod 16 = 8"
    by (rule frame_below [OF base_def b])
  have len: "length (SignalContext i n r st) = 20" by (simp add: SignalContext_def)
  have r1': "rsp r1 = base" by (simp add: r1)
  have quad: "load_le (user_memory st2) (base + word_of_nat (8 * k)) 8 = SignalContext i n r st ! k" if k: "k < 20" for k
  proof -
    have u: "unat (base + word_of_nat (8 * k)) = unat base + 8 * k" using b k by (intro unat_offset) simp
    have "load_le (user_memory st2) (base + word_of_nat (8 * k)) 8 = load_le (user_memory st1) (base + word_of_nat (8 * k)) 8"
    proof (rule load_le_cong)
      fix x :: u64 assume x: "unat x \<in> byte_range (base + word_of_nat (8 * k)) 8"
      define j where "j = unat x - unat base"
      have j: "unat x = unat base + j" "j < 160" using x u k by (auto simp: byte_range_def j_def)
      then have "x = base + word_of_nat j" using b unat_offset [of base j] by (intro word_unat_eq_iff [THEN iffD2]) simp
      then show "user_memory st2 x = user_memory st1 x" using intact j(2) r1' by simp
    qed (use b k u in simp)
    also have "\<dots> = SignalContext i n r st ! k"
      unfolding st1 by (rule load_store_quads) (use b k len in simp_all)
    finally show ?thesis .
  qed
  have c: "load_le (user_memory st2) (base + 16) 8 = rip r" "load_le (user_memory st2) (base + 24) 8 = rsp r"
    "load_le (user_memory st2) (base + 32) 8 = rflags r" "load_le (user_memory st2) (base + 40) 8 = rax r"
    "load_le (user_memory st2) (base + 48) 8 = rbx r" "load_le (user_memory st2) (base + 64) 8 = rdx r"
    "load_le (user_memory st2) (base + 72) 8 = rsi r" "load_le (user_memory st2) (base + 80) 8 = rdi r"
    "load_le (user_memory st2) (base + 88) 8 = rbp r" "load_le (user_memory st2) (base + 96) 8 = r8 r"
    "load_le (user_memory st2) (base + 104) 8 = r9 r" "load_le (user_memory st2) (base + 112) 8 = r10 r"
    "load_le (user_memory st2) (base + 128) 8 = r12 r" "load_le (user_memory st2) (base + 136) 8 = r13 r"
    "load_le (user_memory st2) (base + 144) 8 = r14 r" "load_le (user_memory st2) (base + 152) 8 = r15 r"
    using quad [of 2] quad [of 3] quad [of 4] quad [of 5] quad [of 6] quad [of 8] quad [of 9] quad [of 10] quad [of 11]
      quad [of 12] quad [of 13] quad [of 14] quad [of 16] quad [of 17] quad [of 18] quad [of 19]
    by (simp_all add: SignalContext_def)
  have "SyscallUserRangeIsReadable base SIGNAL_CONTEXT_SIZE (address_space st2) = Some (Inr (address_space st2, True))"
    using mapped b r1' by (simp add: readable_range SIGNAL_CONTEXT_SIZE_def)
  moreover have low: "(SYSCALL_USER_LIMIT \<le> rip r) = False" using target by (simp add: not_le)
  moreover have "frame_user_stack f - 8 = base" using stack r1' by simp
  ultimately have "\<exists>st3 f'. SignalReturn (Some f) st2 = Some (Inr (st3, Some f', rax r)) \<and>
      SignalRegistersFromSyscallFrame f' =
        r\<lparr>rflags := (rflags r AND SIGNAL_USER_FLAGS) OR RFLAGS_INTERRUPT_ENABLE OR 2, rcx := rip r,
          r11 := (rflags r AND SIGNAL_USER_FLAGS) OR RFLAGS_INTERRUPT_ENABLE OR 2\<rparr>"
    using low by (simp add: SignalReturn_def Let_def c SignalRegistersFromSyscallFrame_def)
  then show ?thesis using place r1 by simp
qed

text \<open>One program, one page: its handler entered at a context and returned from.\<close>

lemma one_program_handler:
  assumes r: "rsp r = 0x400F00" "rip r = 0x400100"
  obtains st1 r1 and f :: SyscallFrame where "SignalEnterHandler 0 10 0x400200 r one_program = Some (Inr (st1, r1, True))" "rsp r1 = 0x400DD8"
    "frame_user_stack f = rsp r1 + 8" "rip r < SYSCALL_USER_LIMIT"
    "\<forall>k < 160. PagingAddressIsUser (rsp r1 + word_of_nat k) (address_space st1)"
proof -
  have base: "(rsp r - SIGNAL_RED_ZONE_BYTES - SIGNAL_CONTEXT_SIZE AND NOT (SIGNAL_STACK_ALIGNMENT - 1)) - 8 = 0x400DD8"
    by (simp add: r SIGNAL_RED_ZONE_BYTES_def SIGNAL_CONTEXT_SIZE_def SIGNAL_STACK_ALIGNMENT_def)
  have a: "address_space one_program = one_page" by (simp add: one_program_def)
  obtain st1 r1 where e: "SignalEnterHandler 0 10 0x400200 r one_program = Some (Inr (st1, r1, True))"
    and s: "rsp r1 = 0x400DD8" "address_space st1 = one_page"
    using one_page_writable unfolding SignalEnterHandler_def Let_def base a
    by (simp add: SIGNAL_CONTEXT_SIZE_def)
  have mapped: "\<forall>k < 160. PagingAddressIsUser (rsp r1 + word_of_nat k) (address_space st1)"
  proof (intro allI impI)
    fix k :: nat assume k: "k < 160"
    have "unat (0x400DD8 + word_of_nat k :: u64) = 0x400DD8 + k" using k by (subst unat_offset) simp_all
    then have "unat ((0x400DD8 + word_of_nat k :: u64) AND NOT (mask 12)) = unat (0x400000 :: u64)"
      using k unfolding unat_clear_low12 by simp
    then have "(0x400DD8 + word_of_nat k :: u64) AND NOT (mask 12) = 0x400000" by (rule word_unat_eq_iff [THEN iffD2])
    then show "PagingAddressIsUser (rsp r1 + word_of_nat k) (address_space st1)"
      unfolding s by (intro one_page_permits(1)) (simp only: mask_12)
  qed
  let ?f = "SignalRegistersToSyscallFrame (r1\<lparr>rsp := rsp r1 + 8\<rparr>)
       \<lparr>frame_r15 = 0, frame_r14 = 0, frame_r13 = 0, frame_r12 = 0, frame_r11 = 0, frame_r10 = 0, frame_r9 = 0, frame_r8 = 0,
         frame_rbp = 0, frame_rdi = 0, frame_rsi = 0, frame_rdx = 0, frame_rcx = 0, frame_rbx = 0, frame_rax = 0,
         frame_user_stack = 0\<rparr>"
  have "frame_user_stack ?f = rsp r1 + 8" by (simp add: SignalRegistersToSyscallFrame_def)
  moreover have "rip r < SYSCALL_USER_LIMIT" by (simp add: r SYSCALL_USER_LIMIT_def)
  ultimately show thesis by (rule that [OF e s(1) _ _ mapped])
qed

text \<open>A context saved from an interrupt is not put back whole: RCX is the return address instead.\<close>

lemma interrupted_context_loses_rcx:
  "\<exists>st1 r1 f st3 f'. SignalEnterHandler 0 10 0x400200 some_registers one_program = Some (Inr (st1, r1, True)) \<and>
     SignalReturn (Some f) st1 = Some (Inr (st3, Some f', 1)) \<and>
     rcx (SignalRegistersFromSyscallFrame f') \<noteq> rcx some_registers"
proof -
  have r: "rsp some_registers = 0x400F00" "rip some_registers = 0x400100" by (simp_all add: some_registers_def)
  obtain st1 r1 and f :: SyscallFrame where e: "SignalEnterHandler 0 10 0x400200 some_registers one_program = Some (Inr (st1, r1, True))"
    and s: "rsp r1 = 0x400DD8" and f: "frame_user_stack f = rsp r1 + 8" "rip some_registers < SYSCALL_USER_LIMIT"
    "\<forall>k < 160. PagingAddressIsUser (rsp r1 + word_of_nat k) (address_space st1)"
    by (rule one_program_handler [OF r], rule that)
  from signal_frame_restores [OF e f] obtain st3 f' where "SignalReturn (Some f) st1 = Some (Inr (st3, Some f', rax some_registers))"
    "rcx (SignalRegistersFromSyscallFrame f') = rip some_registers"
    by auto
  then show ?thesis
    using e by (intro exI [of _ st1] exI [of _ r1] exI [of _ f] exI [of _ st3] exI [of _ f']) (simp add: some_registers_def)
qed

text \<open>C21: Entering a handler on the way out of a system call and returning from it restores the
  program.  The handler starts with the signal as its argument, upon a frame below the red zone
  and aligned as the calling convention has it.  The context is one of a system call, RCX holding
  the return address and R11 the flags.  If the frame is still as it was written when the program
  returns, every register is put back, but that of the flags, and of R11 with them, only those a
  program may set are taken; where the flags were a program's own, the whole context is as it was.
\<close>

theorem signal_frame_roundtrip:
  assumes enter: "SignalEnterHandler i n h r st = Some (Inr (st1, r1, True))"
    and syscall: "rcx r = rip r" "r11 r = rflags r"
    and stack: "frame_user_stack f = rsp r1 + 8" and target: "rip r < SYSCALL_USER_LIMIT"
    and mapped: "\<forall>k < 160. PagingAddressIsUser (rsp r1 + word_of_nat k) (address_space st2)"
    and intact: "\<forall>k < 160. user_memory st2 (rsp r1 + word_of_nat k) = user_memory st1 (rsp r1 + word_of_nat k)"
  defines "flags \<equiv> (rflags r AND SIGNAL_USER_FLAGS) OR RFLAGS_INTERRUPT_ENABLE OR 2"
  shows "rip r1 = h \<and> rdi r1 = ucast n \<and> unat (rsp r1) + 160 + 128 \<le> unat (rsp r) \<and> unat (rsp r1) mod 16 = 8 \<and>
    (\<exists>st3 f'. SignalReturn (Some f) st2 = Some (Inr (st3, Some f', rax r)) \<and>
      SignalRegistersFromSyscallFrame f' = r\<lparr>rflags := flags, r11 := flags\<rparr> \<and>
      (flags = rflags r \<longrightarrow> SignalRegistersFromSyscallFrame f' = r))"
proof -
  note R = signal_frame_restores [OF enter stack target mapped intact, folded flags_def]
  have same: "r\<lparr>rflags := flags, rcx := rip r, r11 := flags\<rparr> = r\<lparr>rflags := flags, r11 := flags\<rparr>"
    using syscall(1) by (cases r) simp
  have own: "flags = rflags r \<Longrightarrow> r\<lparr>rflags := flags, r11 := flags\<rparr> = r"
    using syscall(2) by (cases r) simp
  obtain st3 f' where "SignalReturn (Some f) st2 = Some (Inr (st3, Some f', rax r))"
    "SignalRegistersFromSyscallFrame f' = r\<lparr>rflags := flags, r11 := flags\<rparr>"
    using R unfolding same by blast
  then show ?thesis using R own by metis
qed

theorem signal_frame_roundtrip_witness:
  "\<exists>st1 r1 f st3 f'. SignalEnterHandler 0 10 0x400200 (some_registers\<lparr>rcx := 0x400100, r11 := 0x246\<rparr>) one_program =
       Some (Inr (st1, r1, True)) \<and> rsp r1 = 0x400DD8 \<and>
     SignalReturn (Some f) st1 = Some (Inr (st3, Some f', 1)) \<and>
     SignalRegistersFromSyscallFrame f' = some_registers\<lparr>rcx := 0x400100, r11 := 0x246\<rparr>"
proof -
  let ?r = "some_registers\<lparr>rcx := 0x400100, r11 := 0x246\<rparr>"
  have at: "rsp ?r = 0x400F00" "rip ?r = 0x400100" by (simp_all add: some_registers_def)
  obtain st1 r1 and f :: SyscallFrame where e: "SignalEnterHandler 0 10 0x400200 ?r one_program = Some (Inr (st1, r1, True))" and s: "rsp r1 = 0x400DD8"
    and f: "frame_user_stack f = rsp r1 + 8" "rip ?r < SYSCALL_USER_LIMIT"
    "\<forall>k < 160. PagingAddressIsUser (rsp r1 + word_of_nat k) (address_space st1)"
    by (rule one_program_handler [OF at], rule that)
  have regs: "rcx ?r = rip ?r" "r11 ?r = rflags ?r" "rax ?r = 1" by (simp_all add: some_registers_def)
  have flags: "(rflags ?r AND SIGNAL_USER_FLAGS) OR RFLAGS_INTERRUPT_ENABLE OR 2 = rflags ?r"
    by (simp add: some_registers_def SIGNAL_USER_FLAGS_def RFLAGS_INTERRUPT_ENABLE_def RFLAGS_DIRECTION_def)
  from signal_frame_roundtrip [OF e regs(1,2) f] obtain st3 f' where
    "SignalReturn (Some f) st1 = Some (Inr (st3, Some f', rax ?r))" "SignalRegistersFromSyscallFrame f' = ?r"
    unfolding flags by blast
  then show ?thesis
    using e s regs(3) by (intro exI [of _ st1] exI [of _ r1] exI [of _ f] exI [of _ st3] exI [of _ f']) simp
qed

subsection \<open>The delivery returns\<close>

text \<open>The signals pending, of which every turn of the loop takes one.\<close>

definition pending_count :: "Process \<Rightarrow> nat" where
  "pending_count p = card {n. n < 32 \<and> bit (pending p) n}"

lemma pending_count_dropped:
  assumes "bit (pending p) (unat n)" "unat n < 32"
  shows "pending_count (p\<lparr>pending := pending p AND NOT (SignalBit n)\<rparr>) < pending_count p"
proof -
  have "{k. k < 32 \<and> bit (pending p AND NOT (SignalBit n)) k} \<subset> {k. k < 32 \<and> bit (pending p) k}"
    using assms by (auto simp: bit_dropped)
  then show ?thesis unfolding pending_count_def by (intro psubset_card_mono) simp_all
qed

text \<open>C22: The loop that delivers signals returns, or ends the process, from every state whose
  signals are consistent: each turn takes one of the pending signals, of which there are finitely
  many.
\<close>

theorem delivery_returns:
  assumes "signals_well (signals st)" "i < length (processes (signals st))"
  shows "\<exists>res. SignalDeliver cpu i r st = Some res"
  using assms
proof (induction "pending_count (processes (signals st) ! i)" arbitrary: st rule: less_induct)
  case less
  obtain m n where take: "SignalTake (Some i) (signals st) = (m, n)" by fastforce
  note E = SignalTake_effect [OF less.prems take]
  have again: "\<exists>res. SignalDeliver cpu i r (st\<lparr>signals := m\<rparr>) = Some res" if n: "n \<noteq> 0"
  proof (rule less.hyps)
    have v: "unat n < 32" using E(3) [OF n] by (simp add: valid_unat)
    show "pending_count (processes (signals (st\<lparr>signals := m\<rparr>)) ! i) < pending_count (processes (signals st) ! i)"
      using E(3) [OF n] less.prems(2) pending_count_dropped [of "processes (signals st) ! i" n] v by simp
    show "signals_well (signals (st\<lparr>signals := m\<rparr>))" using SignalTake_well [OF less.prems take] by simp
    show "i < length (processes (signals (st\<lparr>signals := m\<rparr>)))" using E(3) [OF n] less.prems(2) by simp
  qed
  obtain res where "SignalEnterHandler i n (SignalDisposition (Some i) n m) r (st\<lparr>signals := m\<rparr>) = Some res"
    using enter_handler_returns by blast
  then show ?case
    using again take by (subst SignalDeliver.simps) (auto simp: Let_def split: sum.splits)
qed

theorem delivery_returns_witness:
  "\<exists>res. SignalDeliver 0 1 some_registers (one_program\<lparr>signals := fst (SignalSend (Some 1) SYSCALL_SIGTSTP two_processes)\<rparr>) = Some res"
proof -
  have "signals_well (fst (SignalSend (Some 1) SYSCALL_SIGTSTP two_processes))"
    "1 < length (processes (fst (SignalSend (Some 1) SYSCALL_SIGTSTP two_processes)))"
    using SignalSend_well [OF two_processes_well stopping_child(1)] stopping_child(1) by simp_all
  then show ?thesis by (intro delivery_returns) simp_all
qed

end
