(* ===== verification/SlotSearch.thy ===== *)
theory SlotSearch
  imports OxysPrelude
begin

text \<open>
  The search for a slot that the registries in growing tables share: the pipes and the open
  files of \<open>kernel/fs/vfs/pipe.c\<close> and the devices of \<open>kernel/block/block.c\<close>.
\<close>

text \<open>
  The search of a growing table for a slot.  \<open>grow\<close> is \<open>GrowingTableGrow\<close> of the table, which
  yields the table with more zeroed slots, or nothing where the heap has none to give.
\<close>

partial_function (option) FreeSlot ::
  "('a \<Rightarrow> bool) \<Rightarrow> ('a list \<Rightarrow> 'a list option) \<Rightarrow> nat \<Rightarrow> 'a list \<Rightarrow> ('a list \<times> nat option) option" where
  "FreeSlot used grow index slots =
     (if index < length slots
      then if \<not> used (slots ! index) then Some (slots, Some index) else FreeSlot used grow (index + 1) slots
      else case grow slots of
             None \<Rightarrow> Some (slots, None)
           | Some slots' \<Rightarrow>
               if \<not> used (slots' ! index) then Some (slots', Some index) else FreeSlot used grow (index + 1) slots')"

text \<open>What a growing table promises of its growth: the entries stay, and zeroed ones follow them.\<close>

definition grows_with :: "'a \<Rightarrow> ('a list \<Rightarrow> 'a list option) \<Rightarrow> bool" where
  "grows_with zeroed grow \<longleftrightarrow> (\<forall>slots slots'. grow slots = Some slots' \<longrightarrow> (\<exists>m > 0. slots' = slots @ replicate m zeroed))"

lemma FreeSlot_search:
  assumes "FreeSlot used grow index slots = Some r" "grows_with zeroed grow" "index \<le> length slots"
  shows "(\<exists>m. fst r = slots @ replicate m zeroed) \<and> (\<forall>j. snd r = Some j \<longrightarrow> j < length (fst r) \<and> \<not> used (fst r ! j))"
  using assms
proof (induction used grow index slots r rule: FreeSlot.raw_induct [rotated, consumes 1, case_names turn])
  case (turn search used grow index slots r)
  show ?case
  proof (cases "index < length slots")
    case True
    show ?thesis
    proof (cases "used (slots ! index)")
      case u: True
      then have "search used grow (index + 1) slots = Some r" using turn(2) True by simp
      from turn(1) [OF this turn(3)] True show ?thesis by simp
    next
      case False
      then show ?thesis using turn(2) True by (auto intro: exI [of _ 0])
    qed
  next
    case False
    show ?thesis
    proof (cases "grow slots")
      case None
      then show ?thesis using turn(2) False by (auto intro: exI [of _ 0])
    next
      case (Some slots')
      then obtain m where m: "0 < m" "slots' = slots @ replicate m zeroed" using turn(3) unfolding grows_with_def by blast
      show ?thesis
      proof (cases "used (slots' ! index)")
        case True
        then have "search used grow (index + 1) slots' = Some r" using turn(2) False Some by simp
        from turn(1) [OF this turn(3)] False m turn(4) obtain m' where "fst r = slots' @ replicate m' zeroed"
          "\<forall>j. snd r = Some j \<longrightarrow> j < length (fst r) \<and> \<not> used (fst r ! j)" by fastforce
        then show ?thesis using m(2) by (auto simp: replicate_add [symmetric] intro: exI [of _ "m + m'"])
      next
        case u: False
        then have "r = (slots', Some index)" using turn(2) False Some by simp
        then show ?thesis using u m False turn(4) by auto
      qed
    qed
  qed
qed

lemma FreeSlot_returns:
  assumes "grows_with zeroed grow" "\<not> used zeroed" "index \<le> length slots"
  shows "\<exists>r. FreeSlot used grow index slots = Some r"
  using assms(3)
proof (induction "length slots - index" arbitrary: index)
  case 0
  then have "index = length slots" by simp
  show ?case
  proof (cases "grow slots")
    case None
    then show ?thesis using \<open>index = length slots\<close> by (simp add: FreeSlot.simps)
  next
    case (Some slots')
    then obtain m where "0 < m" "slots' = slots @ replicate m zeroed" using assms(1) unfolding grows_with_def by blast
    then have "\<not> used (slots' ! index)" using assms(2) \<open>index = length slots\<close> by (simp add: nth_append)
    then show ?thesis using Some \<open>index = length slots\<close> by (simp add: FreeSlot.simps)
  qed
next
  case (Suc n)
  then have "index < length slots" by simp
  then show ?case using Suc(1) [of "index + 1"] Suc(2) by (cases "used (slots ! index)") (simp_all add: FreeSlot.simps [of used grow index])
qed

end
