(* ===== verification/Pipes.thy ===== *)
theory Pipes
  imports SignalFacts SlotSearch
begin

text \<open>
  Pipes (\<open>kernel/fs/vfs/pipe.c\<close>): the ring of bytes between two open files.  Pipes and open
  files are named by their slots.  A read or a write that must wait sleeps in the scheduler and
  goes on in a later step, so each is a turn of its loop up to the sleep, and what it does when
  it runs again.
\<close>

definition VFS_PIPE_BUFFER_SIZE :: u64 where "VFS_PIPE_BUFFER_SIZE = 4096"
definition VFS_OPEN_READ :: u32 where "VFS_OPEN_READ = 1"
definition VFS_OPEN_WRITE :: u32 where "VFS_OPEN_WRITE = 2"
definition SYSCALL_SIGPIPE :: u32 where "SYSCALL_SIGPIPE = 13"

datatype VfsError = VFS_ERROR_NONE | VFS_ERROR_NOT_FOUND | VFS_ERROR_EXISTS | VFS_ERROR_NOT_DIRECTORY
  | VFS_ERROR_IS_DIRECTORY | VFS_ERROR_NOT_EMPTY | VFS_ERROR_READ_ONLY | VFS_ERROR_INVALID | VFS_ERROR_TOO_LONG
  | VFS_ERROR_TOO_MANY_LINKS | VFS_ERROR_NO_SPACE | VFS_ERROR_NO_RESOURCE | VFS_ERROR_BUSY | VFS_ERROR_CROSSES_MOUNT
  | VFS_ERROR_UNSUPPORTED | VFS_ERROR_MEDIUM | VFS_ERROR_BROKEN_PIPE | VFS_ERROR_INTERRUPTED

record VfsPipe =
  pipe_buffer :: "u8 list"
  read_index :: u64
  write_index :: u64
  readers :: u32
  writers :: u32
  in_use :: bool

text \<open>A node is another component's and is held here by its number only.\<close>

record VfsFile =
  file_node :: "nat option"
  file_position :: u64
  file_flags :: u32
  file_holders :: u32
  file_open :: bool
  file_pipe :: "nat option"

record pipe_state =
  VfsPipeSlots :: "VfsPipe list"
  VfsFileSlots :: "VfsFile list"
  kernel :: signal_state
  ProcessCurrent :: "nat option"
  this_cpu :: nat
  pipe_channel :: "nat \<Rightarrow> u64"
  SchedulerPollChannel :: u64
  VfsRefusalCode :: VfsError
  VfsPipesCreated :: u64
  VfsPipeBytes :: u64
  VfsPipeReaderSleeps :: u64
  VfsPipeWriterSleeps :: u64
  VfsFilesOpenedCount :: u64

definition empty_pipe :: VfsPipe where
  "empty_pipe = \<lparr>pipe_buffer = replicate 4096 0, read_index = 0, write_index = 0, readers = 0, writers = 0, in_use = False\<rparr>"

definition empty_file :: VfsFile where
  "empty_file = \<lparr>file_node = None, file_position = 0, file_flags = 0, file_holders = 0, file_open = False, file_pipe = None\<rparr>"

definition VfsRefuse :: "VfsError \<Rightarrow> pipe_state \<Rightarrow> pipe_state" where
  "VfsRefuse code st = st\<lparr>VfsRefusalCode := code\<rparr>"

definition VfsSucceed :: "pipe_state \<Rightarrow> pipe_state" where
  "VfsSucceed st = st\<lparr>VfsRefusalCode := VFS_ERROR_NONE\<rparr>"

definition set_pipe :: "nat \<Rightarrow> (VfsPipe \<Rightarrow> VfsPipe) \<Rightarrow> pipe_state \<Rightarrow> pipe_state" where
  "set_pipe k f st = st\<lparr>VfsPipeSlots := (VfsPipeSlots st)[k := f (VfsPipeSlots st ! k)]\<rparr>"

definition set_file :: "nat \<Rightarrow> (VfsFile \<Rightarrow> VfsFile) \<Rightarrow> pipe_state \<Rightarrow> pipe_state" where
  "set_file i f st = st\<lparr>VfsFileSlots := (VfsFileSlots st)[i := f (VfsFileSlots st ! i)]\<rparr>"

definition on_scheduler :: "(sched_state \<Rightarrow> sched_state) \<Rightarrow> pipe_state \<Rightarrow> pipe_state" where
  "on_scheduler g st = st\<lparr>kernel := (kernel st)\<lparr>scheduler := g (scheduler (kernel st))\<rparr>\<rparr>"

definition VfsPipeHeld :: "VfsPipe \<Rightarrow> u64" where
  "VfsPipeHeld p = write_index p - read_index p"

definition VfsPipeRoom :: "VfsPipe \<Rightarrow> u64" where
  "VfsPipeRoom p = VFS_PIPE_BUFFER_SIZE - VfsPipeHeld p"

subsection \<open>Creation\<close>

definition VfsPipeFreeFile :: "(VfsFile list \<Rightarrow> VfsFile list option) \<Rightarrow> VfsFile list \<Rightarrow> (VfsFile list \<times> nat option) option" where
  "VfsPipeFreeFile grow_files slots = FreeSlot file_open grow_files 0 slots"

text \<open>\<open>told\<close> says that the caller gave both places to report the descriptors in.\<close>

definition VfsPipeCreate ::
  "(VfsPipe list \<Rightarrow> VfsPipe list option) \<Rightarrow> (VfsFile list \<Rightarrow> VfsFile list option) \<Rightarrow> bool \<Rightarrow> pipe_state \<Rightarrow>
   (pipe_state \<times> (nat \<times> nat) option) option" where
  "VfsPipeCreate grow_pipes grow_files told st =
     (if \<not> told then Some (VfsRefuse VFS_ERROR_INVALID st, None)
      else
      case FreeSlot in_use grow_pipes 0 (VfsPipeSlots st) of
        None \<Rightarrow> None
      | Some (pipes, None) \<Rightarrow> Some (VfsRefuse VFS_ERROR_NO_RESOURCE (st\<lparr>VfsPipeSlots := pipes\<rparr>), None)
      | Some (pipes, Some k) \<Rightarrow>
          let st = st\<lparr>VfsPipeSlots := pipes\<rparr>
          in case VfsPipeFreeFile grow_files (VfsFileSlots st) of
               None \<Rightarrow> None
             | Some (files, None) \<Rightarrow> Some (VfsRefuse VFS_ERROR_NO_RESOURCE (st\<lparr>VfsFileSlots := files\<rparr>), None)
             | Some (files, Some reader) \<Rightarrow>
                 let st = set_file reader (\<lambda>f. f\<lparr>file_open := True\<rparr>) (st\<lparr>VfsFileSlots := files\<rparr>)
                 in case VfsPipeFreeFile grow_files (VfsFileSlots st) of
                      None \<Rightarrow> None
                    | Some (files, found) \<Rightarrow>
                        let st = set_file reader (\<lambda>f. f\<lparr>file_open := False\<rparr>) (st\<lparr>VfsFileSlots := files\<rparr>)
                        in case found of
                             None \<Rightarrow> Some (VfsRefuse VFS_ERROR_NO_RESOURCE st, None)
                           | Some writer \<Rightarrow>
                               let st = set_pipe k (\<lambda>_. empty_pipe\<lparr>readers := 1, writers := 1, in_use := True\<rparr>) st;
                                   st = set_file reader (\<lambda>_. empty_file\<lparr>file_flags := VFS_OPEN_READ, file_holders := 1,
                                          file_pipe := Some k, file_open := True\<rparr>) st;
                                   st = set_file writer (\<lambda>_. empty_file\<lparr>file_flags := VFS_OPEN_WRITE, file_holders := 1,
                                          file_pipe := Some k, file_open := True\<rparr>) st;
                                   st = st\<lparr>VfsPipesCreated := VfsPipesCreated st + 1,
                                          VfsFilesOpenedCount := VfsFilesOpenedCount st + 2\<rparr>
                               in Some (VfsSucceed st, Some (reader, writer)))"

subsection \<open>Reading\<close>

definition VfsPipeIsReadable :: "nat option \<Rightarrow> pipe_state \<Rightarrow> bool" where
  "VfsPipeIsReadable file st =
     (case file of
        None \<Rightarrow> False
      | Some i \<Rightarrow>
          (case file_pipe (VfsFileSlots st ! i) of
             None \<Rightarrow> False
           | Some k \<Rightarrow>
               if file_flags (VfsFileSlots st ! i) AND VFS_OPEN_READ = 0 then False
               else 0 < VfsPipeHeld (VfsPipeSlots st ! k) \<or> writers (VfsPipeSlots st ! k) = 0))"

text \<open>The bytes copied out, and the pipe with the read index past them.\<close>

definition PipeTake :: "u64 \<Rightarrow> VfsPipe \<Rightarrow> VfsPipe \<times> u8 list" where
  "PipeTake n p =
     (let count = min (VfsPipeHeld p) n
      in (p\<lparr>read_index := read_index p + count\<rparr>,
          map (\<lambda>index. pipe_buffer p ! unat ((read_index p + word_of_nat index) AND (VFS_PIPE_BUFFER_SIZE - 1)))
            [0..<unat count]))"

text \<open>
  A turn of the read: \<open>None\<close> where it sleeps, and otherwise whether the read succeeded and the
  bytes it yields.
\<close>

definition ReadTurn :: "nat \<Rightarrow> u64 \<Rightarrow> pipe_state \<Rightarrow> pipe_state \<times> (bool \<times> u8 list) option" where
  "ReadTurn i n st =
     (let k = the (file_pipe (VfsFileSlots st ! i)); p = VfsPipeSlots st ! k
      in if 0 < VfsPipeHeld p
         then
           let (p, bytes) = PipeTake n p;
               st = set_pipe k (\<lambda>_. p) st;
               st = st\<lparr>VfsPipeBytes := VfsPipeBytes st + word_of_nat (length bytes)\<rparr>;
               st = on_scheduler (\<lambda>s. fst (SchedulerWake (pipe_channel st k) s)) st
           in (VfsSucceed st, Some (True, bytes))
         else if writers p = 0 then (VfsSucceed st, Some (True, []))
         else if \<not> SchedulerCanSleep (this_cpu st) (scheduler (kernel st))
         then (VfsRefuse VFS_ERROR_BUSY st, Some (False, []))
         else
           let st = st\<lparr>VfsPipeReaderSleeps := VfsPipeReaderSleeps st + 1\<rparr>
           in (on_scheduler (SchedulerSleep (this_cpu st) (pipe_channel st k)) st, None))"

definition VfsPipeRead :: "nat \<Rightarrow> u64 \<Rightarrow> pipe_state \<Rightarrow> pipe_state \<times> (bool \<times> u8 list) option" where
  "VfsPipeRead i n st =
     (if file_flags (VfsFileSlots st ! i) AND VFS_OPEN_READ = 0 then (VfsRefuse VFS_ERROR_INVALID st, Some (False, []))
      else ReadTurn i n st)"

definition ReadResume :: "nat \<Rightarrow> u64 \<Rightarrow> pipe_state \<Rightarrow> pipe_state \<times> (bool \<times> u8 list) option" where
  "ReadResume i n st =
     (if SignalIsPending (ProcessCurrent st) (kernel st) then (VfsRefuse VFS_ERROR_INTERRUPTED st, Some (False, []))
      else ReadTurn i n st)"

subsection \<open>Writing\<close>

definition PipePut :: "u8 list \<Rightarrow> VfsPipe \<Rightarrow> VfsPipe" where
  "PipePut bytes p =
     p\<lparr>pipe_buffer := fold (\<lambda>index b. b[unat ((write_index p + word_of_nat index) AND (VFS_PIPE_BUFFER_SIZE - 1)) := bytes ! index])
          [0..<length bytes] (pipe_buffer p),
       write_index := write_index p + word_of_nat (length bytes)\<rparr>"

text \<open>
  A run of the write's loop up to a sleep or to its end: the count written so far, and \<open>None\<close>
  where it sleeps.
\<close>

function WriteFrom :: "nat \<Rightarrow> u8 list \<Rightarrow> nat \<Rightarrow> pipe_state \<Rightarrow> pipe_state \<times> nat \<times> bool option" where
  "WriteFrom i source written st =
     (if \<not> written < length source then (VfsSucceed st, written, Some True)
      else
        let k = the (file_pipe (VfsFileSlots st ! i)); p = VfsPipeSlots st ! k;
            remaining = length source - written;
            needed = (if remaining \<le> unat VFS_PIPE_BUFFER_SIZE then remaining else 1)
        in if readers p = 0
           then
             let st = st\<lparr>kernel := fst (SignalSend (ProcessCurrent st) SYSCALL_SIGPIPE (kernel st))\<rparr>
             in (VfsRefuse VFS_ERROR_BROKEN_PIPE st, written, Some False)
           else
             let room = unat (VfsPipeRoom p)
             in if needed \<le> room
                then
                  let count = min room remaining;
                      st = set_pipe k (PipePut (take count (drop written source))) st;
                      st = on_scheduler (\<lambda>s. fst (SchedulerWake (pipe_channel st k) s)) st;
                      st = on_scheduler (\<lambda>s. fst (SchedulerWakePollers (SchedulerPollChannel st) s)) st
                  in WriteFrom i source (written + count) st
                else if \<not> SchedulerCanSleep (this_cpu st) (scheduler (kernel st))
                then if 0 < written then (VfsSucceed st, written, Some True)
                     else (VfsRefuse VFS_ERROR_BUSY st, written, Some False)
                else
                  let st = st\<lparr>VfsPipeWriterSleeps := VfsPipeWriterSleeps st + 1\<rparr>
                  in (on_scheduler (SchedulerSleep (this_cpu st) (pipe_channel st k)) st, written, None))"
  by pat_completeness auto
termination by (relation "measure (\<lambda>(i, source, written, st). length source - written)") (auto split: if_splits)

declare WriteFrom.simps [simp del]

definition VfsPipeWrite :: "nat \<Rightarrow> u8 list \<Rightarrow> nat \<Rightarrow> pipe_state \<Rightarrow> pipe_state \<times> nat \<times> bool option" where
  "VfsPipeWrite i source written st =
     (if file_flags (VfsFileSlots st ! i) AND VFS_OPEN_WRITE = 0 then (VfsRefuse VFS_ERROR_INVALID st, written, Some False)
      else WriteFrom i source written st)"

definition WriteResume :: "nat \<Rightarrow> u8 list \<Rightarrow> nat \<Rightarrow> pipe_state \<Rightarrow> pipe_state \<times> nat \<times> bool option" where
  "WriteResume i source written st =
     (if SignalIsPending (ProcessCurrent st) (kernel st) then (VfsRefuse VFS_ERROR_INTERRUPTED st, written, Some False)
      else WriteFrom i source written st)"

subsection \<open>Release\<close>

definition VfsPipeReleaseEnd :: "nat \<Rightarrow> pipe_state \<Rightarrow> pipe_state" where
  "VfsPipeReleaseEnd i st =
     (case file_pipe (VfsFileSlots st ! i) of
        None \<Rightarrow> st
      | Some k \<Rightarrow>
          let st = (if file_flags (VfsFileSlots st ! i) AND VFS_OPEN_READ \<noteq> 0
                    then set_pipe k (\<lambda>p. if 0 < readers p then p\<lparr>readers := readers p - 1\<rparr> else p) st
                    else set_pipe k (\<lambda>p. if 0 < writers p then p\<lparr>writers := writers p - 1\<rparr> else p) st);
              st = on_scheduler (\<lambda>s. fst (SchedulerWake (pipe_channel st k) s)) st;
              st = on_scheduler (\<lambda>s. fst (SchedulerWakePollers (SchedulerPollChannel st) s)) st
          in set_pipe k (\<lambda>p. if readers p = 0 \<and> writers p = 0 then p\<lparr>in_use := False\<rparr> else p) st)"

definition VfsPipeCount :: "pipe_state \<Rightarrow> nat" where
  "VfsPipeCount st = length (filter in_use (VfsPipeSlots st))"

end
