(* ===== verification/PipeRing.thy ===== *)
theory PipeRing
  imports Pipes Fifo ByteMemory
begin

text \<open>
  The ring of a pipe as the list of bytes it holds: the indices are never reduced, and each
  names a byte of the buffer by its remainder.  A take and a put are operations on that list, so
  that a pipe is an instance of the locale \<open>fifo\<close>; the turns of a read and a write, with the
  wakes between, are takes and puts.
\<close>

lemma ring_index: "unat ((x + word_of_nat j :: u64) AND (VFS_PIPE_BUFFER_SIZE - 1)) = (unat x + j) mod 4096"
proof -
  have "unat (y AND 4095 :: u64) = unat y mod 4096" for y
  proof -
    have "y AND 4095 = take_bit 12 y" by (simp only: mask_12 take_bit_eq_mask)
    moreover have "unat (take_bit 12 y) = unat y mod 4096"
      by (subst unsigned_take_bit_eq) (simp_all add: take_bit_eq_mod)
    ultimately show ?thesis by (simp only:)
  qed
  then have "unat ((x + word_of_nat j) AND 4095) = unat (x + word_of_nat j) mod 4096" .
  also have "\<dots> = ((unat x + unat (word_of_nat j :: u64)) mod 2 ^ 64) mod 4096" by (simp add: unat_word_ariths)
  also have "\<dots> = (unat x + unat (word_of_nat j :: u64)) mod 4096" by (rule mod_mod_cancel) simp
  also have "unat (word_of_nat j :: u64) = j mod 2 ^ 64" by (simp add: unsigned_of_nat take_bit_eq_mod)
  also have "(unat x + j mod 2 ^ 64) mod 4096 = (unat x + j mod 2 ^ 64 mod 4096) mod 4096" by (simp only: mod_add_right_eq)
  also have "j mod 2 ^ 64 mod 4096 = j mod 4096" by (rule mod_mod_cancel) simp
  finally show ?thesis by (simp add: VFS_PIPE_BUFFER_SIZE_def mod_add_right_eq)
qed

lemma ring_apart:
  assumes "a < 4096" "b < 4096" "a \<noteq> b"
  shows "(r + a) mod 4096 \<noteq> (r + b) mod (4096 :: nat)"
proof -
  have no: "(r + c) mod 4096 \<noteq> (r + d) mod (4096 :: nat)" if "c < d" "d < 4096" for c d
  proof
    assume "(r + c) mod 4096 = (r + d) mod (4096 :: nat)"
    then have "4096 dvd (r + d) - (r + c)" using mod_eq_dvd_iff_nat [of "r + c" "r + d" 4096] that by simp
    then have "4096 dvd d - c" by simp
    then show False using that by (auto dest: dvd_imp_le)
  qed
  show ?thesis using no [of a b] no [of b a] assms by (cases "a < b") auto
qed

definition pipe_ok :: "VfsPipe \<Rightarrow> bool" where
  "pipe_ok p \<longleftrightarrow> length (pipe_buffer p) = 4096 \<and> unat (VfsPipeHeld p) \<le> 4096"

definition pipe_bytes :: "VfsPipe \<Rightarrow> u8 list" where
  "pipe_bytes p = map (\<lambda>j. pipe_buffer p ! ((unat (read_index p) + j) mod 4096)) [0..<unat (VfsPipeHeld p)]"

lemma pipe_bytes_length [simp]: "length (pipe_bytes p) = unat (VfsPipeHeld p)"
  by (simp add: pipe_bytes_def)

lemma room_held: "pipe_ok p \<Longrightarrow> unat (VfsPipeRoom p) = 4096 - unat (VfsPipeHeld p)"
  by (simp add: VfsPipeRoom_def VFS_PIPE_BUFFER_SIZE_def pipe_ok_def unat_sub word_le_nat_alt)

subsection \<open>Taking\<close>

lemma PipeTake_effect:
  assumes ok: "pipe_ok p" and run: "PipeTake n p = (p', bytes)"
  shows "pipe_ok p'" "pipe_bytes p = bytes @ pipe_bytes p'" "length bytes = min (unat (VfsPipeHeld p)) (unat n)"
    "writers p' = writers p" "readers p' = readers p" "in_use p' = in_use p"
proof -
  define c where "c = min (VfsPipeHeld p) n"
  have c: "unat c = min (unat (VfsPipeHeld p)) (unat n)"
    by (simp add: c_def min_def word_le_nat_alt)
  have p': "p' = p\<lparr>read_index := read_index p + c\<rparr>"
    and bytes: "bytes = map (\<lambda>j. pipe_buffer p ! ((unat (read_index p) + j) mod 4096)) [0..<unat c]"
    using run by (simp_all add: PipeTake_def Let_def ring_index flip: c_def)
  have held: "unat (VfsPipeHeld p') = unat (VfsPipeHeld p) - unat c"
  proof -
    have "VfsPipeHeld p' = VfsPipeHeld p - c" by (simp add: p' VfsPipeHeld_def)
    then show ?thesis using c by (simp add: unat_sub word_le_nat_alt)
  qed
  have "length (pipe_buffer p') = length (pipe_buffer p)" by (simp add: p')
  then show "pipe_ok p'" using ok held unfolding pipe_ok_def by linarith
  show "length bytes = min (unat (VfsPipeHeld p)) (unat n)" by (simp add: bytes c)
  show "writers p' = writers p" "readers p' = readers p" "in_use p' = in_use p" by (simp_all add: p')
  have at: "pipe_buffer p' ! ((unat (read_index p') + j) mod 4096) = pipe_buffer p ! ((unat (read_index p) + (unat c + j)) mod 4096)" for j
  proof -
    have "(unat (read_index p + c) + j) mod 4096 = (unat (read_index p) + (unat c + j)) mod 4096"
      using ring_index [of "read_index p + c" j] ring_index [of "read_index p" "unat c + j"] by (simp add: add.assoc)
    then show ?thesis by (simp add: p')
  qed
  have split: "[0..<unat (VfsPipeHeld p)] = [0..<unat c] @ map (\<lambda>j. unat c + j) [0..<unat (VfsPipeHeld p')]"
    using held c by (simp add: map_add_upt upt_add_eq_append [symmetric] add.commute)
      (metis le_add_diff_inverse min.cobounded1 upt_add_eq_append zero_le)
  show "pipe_bytes p = bytes @ pipe_bytes p'"
    unfolding pipe_bytes_def split by (simp add: bytes at)
qed

subsection \<open>Putting\<close>

lemma ring_fold:
  assumes "length b = 4096" "m \<le> length bytes" "length bytes \<le> 4096"
  shows "length (fold (\<lambda>index b. b[(w + index) mod 4096 := bytes ! index]) [0..<m] b) = 4096"
    and "j < m \<Longrightarrow> fold (\<lambda>index b. b[(w + index) mod 4096 := bytes ! index]) [0..<m] b ! ((w + j) mod 4096) = bytes ! j"
    and "(\<And>j. j < m \<Longrightarrow> i \<noteq> (w + j) mod 4096) \<Longrightarrow>
      fold (\<lambda>index b. b[(w + index) mod 4096 := bytes ! index]) [0..<m] b ! i = b ! i"
proof -
  let ?f = "\<lambda>index b. b[(w + index) mod 4096 := bytes ! index]"
  have all: "length (fold ?f [0..<m] b) = 4096 \<and>
      (\<forall>j < m. fold ?f [0..<m] b ! ((w + j) mod 4096) = bytes ! j) \<and>
      (\<forall>i. (\<forall>j < m. i \<noteq> (w + j) mod 4096) \<longrightarrow> fold ?f [0..<m] b ! i = b ! i)"
    using assms(2)
  proof (induction m)
    case (Suc m)
    have apart: "(w + j) mod 4096 \<noteq> (w + m) mod 4096" "(w + m) mod 4096 \<noteq> (w + j) mod 4096" if "j < m" for j
      using that Suc.prems assms(3) by (intro ring_apart; simp)+
    show ?case using Suc apart by (auto simp: less_Suc_eq nth_list_update)
  qed (use assms(1) in simp)
  then show "length (fold ?f [0..<m] b) = 4096"
    "j < m \<Longrightarrow> fold ?f [0..<m] b ! ((w + j) mod 4096) = bytes ! j"
    "(\<And>j. j < m \<Longrightarrow> i \<noteq> (w + j) mod 4096) \<Longrightarrow> fold ?f [0..<m] b ! i = b ! i" by blast+
qed

lemma PipePut_effect:
  assumes ok: "pipe_ok p" and room: "length bytes \<le> unat (VfsPipeRoom p)"
  shows "pipe_ok (PipePut bytes p)" "pipe_bytes (PipePut bytes p) = pipe_bytes p @ bytes"
    "writers (PipePut bytes p) = writers p" "readers (PipePut bytes p) = readers p" "in_use (PipePut bytes p) = in_use p"
proof -
  let ?h = "unat (VfsPipeHeld p)" and ?r = "unat (read_index p)" and ?w = "unat (write_index p)" and ?p = "PipePut bytes p"
  have len: "?h + length bytes \<le> 4096" using ok room room_held [OF ok] unfolding pipe_ok_def by linarith
  have held: "unat (VfsPipeHeld ?p) = ?h + length bytes"
  proof -
    have "VfsPipeHeld ?p = VfsPipeHeld p + word_of_nat (length bytes)" by (simp add: PipePut_def VfsPipeHeld_def)
    then show ?thesis using len unat_offset [of "VfsPipeHeld p" "length bytes"] by simp
  qed
  have b: "length (pipe_buffer p) = 4096" using ok by (simp add: pipe_ok_def)
  have buf: "pipe_buffer ?p = fold (\<lambda>index b. b[(?w + index) mod 4096 := bytes ! index]) [0..<length bytes] (pipe_buffer p)"
    by (simp add: PipePut_def ring_index)
  have "length bytes \<le> 4096" using len by simp
  note F = ring_fold [OF b order_refl this, where w = ?w, folded buf]
  show "pipe_ok ?p" using F(1) held len by (simp add: pipe_ok_def)
  show "writers ?p = writers p" "readers ?p = readers p" "in_use ?p = in_use p" by (simp_all add: PipePut_def)
  have w: "(?w + j) mod 4096 = (?r + (?h + j)) mod 4096" for j
  proof -
    have "write_index p = read_index p + VfsPipeHeld p" by (simp add: VfsPipeHeld_def)
    then have e: "write_index p + word_of_nat j = read_index p + word_of_nat (?h + j)" by (simp add: add.assoc)
    show ?thesis using ring_index [of "write_index p" j, unfolded e] ring_index [of "read_index p" "?h + j"] by (simp only:)
  qed
  have "read_index ?p = read_index p" by (simp add: PipePut_def)
  moreover have "pipe_buffer ?p ! ((?r + j) mod 4096) = pipe_buffer p ! ((?r + j) mod 4096)" if "j < ?h" for j
    by (rule F(3)) (use that len ring_apart [of j _ ?r] in \<open>auto simp: w\<close>)
  moreover have "pipe_buffer ?p ! ((?r + (?h + j)) mod 4096) = bytes ! j" if "j < length bytes" for j
    using F(2) [of j] that by (simp add: w)
  moreover have "[0..<?h + length bytes] = [0..<?h] @ map (\<lambda>j. ?h + j) [0..<length bytes]"
    by (simp add: map_add_upt upt_add_eq_append [symmetric] add.commute)
      (metis add.commute upt_add_eq_append zero_le)
  ultimately show "pipe_bytes ?p = pipe_bytes p @ bytes"
    unfolding pipe_bytes_def held by (auto intro!: nth_equalityI)
qed

definition pipe_admits :: "u8 list \<Rightarrow> VfsPipe \<Rightarrow> bool" where
  "pipe_admits bytes p \<longleftrightarrow> length bytes \<le> unat (VfsPipeRoom p)"

interpretation pipe_ring: fifo PipePut PipeTake pipe_admits "\<lambda>bytes. bytes" pipe_bytes pipe_ok
proof unfold_locales
  show "pipe_ok (PipePut bytes p)" "pipe_bytes (PipePut bytes p) = pipe_bytes p @ bytes"
    if "pipe_ok p" "pipe_admits bytes p" for bytes p
    using PipePut_effect that unfolding pipe_admits_def by blast+
  show "pipe_ok p'" "pipe_bytes p = bytes @ pipe_bytes p'" if "pipe_ok p" "PipeTake n p = (p', bytes)" for n p p' bytes
    using PipeTake_effect that by blast+
qed

subsection \<open>The turns of a read and a write\<close>

lemma set_pipe_at [simp]:
  "VfsPipeSlots (set_pipe k f st) ! j =
     (if j = k \<and> k < length (VfsPipeSlots st) then f (VfsPipeSlots st ! k) else VfsPipeSlots st ! j)"
  by (cases "k < length (VfsPipeSlots st)") (auto simp: set_pipe_def list_update_beyond)

lemma set_pipe_fields [simp]:
  "length (VfsPipeSlots (set_pipe k f st)) = length (VfsPipeSlots st)" "VfsFileSlots (set_pipe k f st) = VfsFileSlots st"
  "kernel (set_pipe k f st) = kernel st" "pipe_channel (set_pipe k f st) = pipe_channel st"
  "SchedulerPollChannel (set_pipe k f st) = SchedulerPollChannel st" "this_cpu (set_pipe k f st) = this_cpu st"
  by (simp_all add: set_pipe_def)

lemma on_scheduler_fields [simp]:
  "VfsPipeSlots (on_scheduler g st) = VfsPipeSlots st" "VfsFileSlots (on_scheduler g st) = VfsFileSlots st"
  "scheduler (kernel (on_scheduler g st)) = g (scheduler (kernel st))" "pipe_channel (on_scheduler g st) = pipe_channel st"
  "SchedulerPollChannel (on_scheduler g st) = SchedulerPollChannel st" "this_cpu (on_scheduler g st) = this_cpu st"
  by (simp_all add: on_scheduler_def)

lemma answer_fields [simp]:
  "VfsPipeSlots (VfsRefuse c st) = VfsPipeSlots st" "VfsFileSlots (VfsRefuse c st) = VfsFileSlots st" "kernel (VfsRefuse c st) = kernel st"
  "VfsPipeSlots (VfsSucceed st) = VfsPipeSlots st" "VfsFileSlots (VfsSucceed st) = VfsFileSlots st" "kernel (VfsSucceed st) = kernel st"
  "VfsRefusalCode (VfsRefuse c st) = c" "VfsRefusalCode (VfsSucceed st) = VFS_ERROR_NONE"
  by (simp_all add: VfsRefuse_def VfsSucceed_def)

definition pipes_ok :: "pipe_state \<Rightarrow> bool" where
  "pipes_ok st \<longleftrightarrow> (\<forall>k < length (VfsPipeSlots st). pipe_ok (VfsPipeSlots st ! k)) \<and>
     (\<forall>i < length (VfsFileSlots st). case file_pipe (VfsFileSlots st ! i) of None \<Rightarrow> True | Some k \<Rightarrow> k < length (VfsPipeSlots st))"

text \<open>What a turn may do to the pipes: change one, by taking or putting these bytes.\<close>

definition only_pipe :: "nat \<Rightarrow> VfsPipe \<Rightarrow> pipe_state \<Rightarrow> pipe_state \<Rightarrow> bool" where
  "only_pipe k p st st' \<longleftrightarrow> VfsPipeSlots st' = (VfsPipeSlots st)[k := p] \<and> VfsFileSlots st' = VfsFileSlots st"

lemma only_pipe_ok: "pipes_ok st \<Longrightarrow> only_pipe k p st st' \<Longrightarrow> pipe_ok p \<Longrightarrow> pipes_ok st'"
  by (cases "k < length (VfsPipeSlots st)")
    (auto simp: pipes_ok_def only_pipe_def nth_list_update list_update_beyond split: option.splits)

lemma ReadTurn_effect:
  assumes ok: "pipe_ok (VfsPipeSlots st ! k)" and f: "file_pipe (VfsFileSlots st ! i) = Some k"
    and run: "ReadTurn i n st = (st', r)"
  shows "\<exists>p bytes. only_pipe k p st st' \<and> pipe_ok p \<and> pipe_bytes (VfsPipeSlots st ! k) = bytes @ pipe_bytes p \<and>
    readers p = readers (VfsPipeSlots st ! k) \<and> writers p = writers (VfsPipeSlots st ! k) \<and>
    (case r of None \<Rightarrow> bytes = [] | Some (success, out) \<Rightarrow> out = bytes)"
    and "r = Some (True, []) \<Longrightarrow> 0 < unat n \<Longrightarrow> pipe_bytes (VfsPipeSlots st ! k) = [] \<and> writers (VfsPipeSlots st ! k) = 0"
    and "r = None \<Longrightarrow> pipe_bytes (VfsPipeSlots st ! k) = [] \<and> writers (VfsPipeSlots st ! k) \<noteq> 0"
proof -
  let ?p = "VfsPipeSlots st ! k"
  have empty: "pipe_bytes ?p = [] \<longleftrightarrow> \<not> 0 < VfsPipeHeld ?p"
    by (metis length_0_conv pipe_bytes_length unat_eq_0 word_neq_0_conv)
  have all: "(\<exists>p bytes. only_pipe k p st st' \<and> pipe_ok p \<and> pipe_bytes ?p = bytes @ pipe_bytes p \<and>
    readers p = readers ?p \<and> writers p = writers ?p \<and>
    (case r of None \<Rightarrow> bytes = [] | Some (success, out) \<Rightarrow> out = bytes)) \<and>
    (r = Some (True, []) \<longrightarrow> 0 < unat n \<longrightarrow> pipe_bytes ?p = [] \<and> writers ?p = 0) \<and>
    (r = None \<longrightarrow> pipe_bytes ?p = [] \<and> writers ?p \<noteq> 0)"
  proof (cases "0 < VfsPipeHeld ?p")
    case True
    obtain p bytes where t: "PipeTake n ?p = (p, bytes)" by fastforce
    note T = PipeTake_effect [OF ok t]
    have r: "r = Some (True, bytes)" "VfsPipeSlots st' = (VfsPipeSlots st)[k := p]" "VfsFileSlots st' = VfsFileSlots st"
      using run True f t by (auto simp: ReadTurn_def Let_def set_pipe_def)
    have "bytes = [] \<Longrightarrow> 0 < unat n \<Longrightarrow> False" using T(3) True by (auto simp: min_def word_less_nat_alt split: if_splits)
    then show ?thesis using T r by (auto simp: only_pipe_def)
  next
    case False
    then have st': "VfsPipeSlots st' = VfsPipeSlots st" "VfsFileSlots st' = VfsFileSlots st"
      using run f by (auto simp: ReadTurn_def Let_def split: if_splits)
    then have "only_pipe k ?p st st'" by (simp add: only_pipe_def)
    moreover have "(case r of None \<Rightarrow> True | Some (success, out) \<Rightarrow> out = [])"
      "r = Some (True, []) \<Longrightarrow> writers ?p = 0" "r = None \<Longrightarrow> writers ?p \<noteq> 0"
      using run f False by (auto simp: ReadTurn_def Let_def split: if_splits)
    ultimately show ?thesis using empty False ok by (intro conjI exI [of _ ?p] exI [of _ "[]"]) (auto split: option.splits)
  qed
  then show "\<exists>p bytes. only_pipe k p st st' \<and> pipe_ok p \<and> pipe_bytes ?p = bytes @ pipe_bytes p \<and>
    readers p = readers ?p \<and> writers p = writers ?p \<and>
    (case r of None \<Rightarrow> bytes = [] | Some (success, out) \<Rightarrow> out = bytes)"
    "r = Some (True, []) \<Longrightarrow> 0 < unat n \<Longrightarrow> pipe_bytes ?p = [] \<and> writers ?p = 0"
    "r = None \<Longrightarrow> pipe_bytes ?p = [] \<and> writers ?p \<noteq> 0" by blast+
qed

lemma WriteFrom_effect:
  assumes "pipe_ok (VfsPipeSlots st ! k)" "k < length (VfsPipeSlots st)" "file_pipe (VfsFileSlots st ! i) = Some k"
    "written \<le> length source" "WriteFrom i source written st = (st', written', r)"
  shows "\<exists>p. only_pipe k p st st' \<and> pipe_ok p \<and> written \<le> written' \<and> written' \<le> length source \<and>
    pipe_bytes p = pipe_bytes (VfsPipeSlots st ! k) @ take (written' - written) (drop written source) \<and>
    readers p = readers (VfsPipeSlots st ! k) \<and> writers p = writers (VfsPipeSlots st ! k)"
  using assms
proof (induction "length source - written" arbitrary: st written st' written' r rule: less_induct)
  case less
  let ?p = "VfsPipeSlots st ! k" and ?rem = "length source - written"
  have same: ?case if "VfsPipeSlots st' = VfsPipeSlots st" "VfsFileSlots st' = VfsFileSlots st" "written' = written"
    using that less.prems(1,4) by (intro exI [of _ ?p]) (simp add: only_pipe_def)
  show ?case
  proof (cases "written < length source \<and> readers ?p \<noteq> 0 \<and>
      (if ?rem \<le> unat VFS_PIPE_BUFFER_SIZE then ?rem else 1) \<le> unat (VfsPipeRoom ?p)")
    case False
    then show ?thesis
      using less.prems(5) less.prems(3) by (intro same) (auto simp: WriteFrom.simps [of i source written st] Let_def split: if_splits)
  next
    case True
    define c where "c = min (unat (VfsPipeRoom ?p)) ?rem"
    define bytes where "bytes = take c (drop written source)"
    define st1 where "st1 = on_scheduler (\<lambda>s. fst (SchedulerWakePollers (SchedulerPollChannel st) s))
        (on_scheduler (\<lambda>s. fst (SchedulerWake (pipe_channel st k) s)) (set_pipe k (PipePut bytes) st))"
    have run: "WriteFrom i source (written + c) st1 = (st', written', r)"
      using less.prems(5) less.prems(3) True by (simp add: WriteFrom.simps [of i source written st] Let_def st1_def c_def bytes_def)
    have len: "length bytes = c" by (simp add: bytes_def c_def)
    have P: "pipe_ok (PipePut bytes ?p)" "pipe_bytes (PipePut bytes ?p) = pipe_bytes ?p @ bytes"
        "writers (PipePut bytes ?p) = writers ?p" "readers (PipePut bytes ?p) = readers ?p"
      using PipePut_effect [OF less.prems(1), of bytes] len by (simp_all add: c_def)
    have st1: "VfsPipeSlots st1 = (VfsPipeSlots st)[k := PipePut bytes ?p]" "VfsFileSlots st1 = VfsFileSlots st"
      by (simp_all add: st1_def) (simp add: set_pipe_def)
    have "\<exists>p. only_pipe k p st1 st' \<and> pipe_ok p \<and> written + c \<le> written' \<and> written' \<le> length source \<and>
        pipe_bytes p = pipe_bytes (VfsPipeSlots st1 ! k) @ take (written' - (written + c)) (drop (written + c) source) \<and>
        readers p = readers (VfsPipeSlots st1 ! k) \<and> writers p = writers (VfsPipeSlots st1 ! k)"
    proof (rule less.hyps)
      have "0 < c" using True by (auto simp: c_def split: if_splits)
      then show "length source - (written + c) < length source - written" using True by linarith
    qed (use P st1 run less.prems(2,3,4) in \<open>simp_all add: c_def\<close>)
    then obtain p where p: "only_pipe k p st1 st'" "pipe_ok p" "written + c \<le> written'" "written' \<le> length source"
        "pipe_bytes p = pipe_bytes (VfsPipeSlots st1 ! k) @ take (written' - (written + c)) (drop (written + c) source)"
        "readers p = readers (VfsPipeSlots st1 ! k)" "writers p = writers (VfsPipeSlots st1 ! k)" by blast
    have "take (written' - written) (drop written source) = bytes @ take (written' - (written + c)) (drop (written + c) source)"
    proof -
      have "take (c + (written' - (written + c))) (drop written source) = bytes @ take (written' - (written + c)) (drop c (drop written source))"
        by (simp add: bytes_def take_add)
      moreover have "c + (written' - (written + c)) = written' - written" using p(3) by simp
      ultimately show ?thesis by (simp add: add.commute)
    qed
    then show ?thesis
      using p P st1 less.prems(2) by (intro exI [of _ p]) (simp add: only_pipe_def)
  qed
qed

subsection \<open>Creation\<close>

lemma file_pipe_kept: "map file_pipe (files[i := (files ! i)\<lparr>file_open := b\<rparr>]) = map file_pipe files"
  by (cases "i < length files") (simp_all add: map_update list_update_beyond list_update_same_conv)

lemma pipes_ok_files:
  "pipes_ok st \<longleftrightarrow> (\<forall>p \<in> set (VfsPipeSlots st). pipe_ok p) \<and>
     (\<forall>k. Some k \<in> set (map file_pipe (VfsFileSlots st)) \<longrightarrow> k < length (VfsPipeSlots st))"
proof -
  have "(\<forall>k. Some k \<in> set (map file_pipe (VfsFileSlots st)) \<longrightarrow> k < length (VfsPipeSlots st)) \<longleftrightarrow>
     (\<forall>f \<in> set (VfsFileSlots st). case file_pipe f of None \<Rightarrow> True | Some k \<Rightarrow> k < length (VfsPipeSlots st))"
    by (force split: option.splits)
  then show ?thesis unfolding pipes_ok_def all_set_conv_all_nth by (simp only:)
qed

lemma VfsPipeCreate_files:
  assumes run: "VfsPipeCreate grow_pipes grow_files told st = Some (st', ends)"
    and grow: "grows_with empty_pipe grow_pipes" "grows_with empty_file grow_files"
  shows "\<exists>m. set (map file_pipe (VfsFileSlots st')) \<subseteq> set (map file_pipe (VfsFileSlots st)) \<union> {None} \<and>
       (VfsPipeSlots st' = VfsPipeSlots st @ replicate m empty_pipe) \<or>
     (\<exists>c. c < length (VfsPipeSlots st @ replicate m empty_pipe) \<and> \<not> in_use ((VfsPipeSlots st @ replicate m empty_pipe) ! c) \<and>
       VfsPipeSlots st' = (VfsPipeSlots st @ replicate m empty_pipe)[c := empty_pipe\<lparr>readers := 1, writers := 1, in_use := True\<rparr>] \<and>
       set (map file_pipe (VfsFileSlots st')) \<subseteq> set (map file_pipe (VfsFileSlots st)) \<union> {None, Some c})"
proof (cases told)
  case False
  then show ?thesis using run by (auto simp: VfsPipeCreate_def VfsRefuse_def intro: exI [of _ 0])
next
  case told: True
  obtain pipes p where P: "FreeSlot in_use grow_pipes 0 (VfsPipeSlots st) = Some (pipes, p)"
    using run told by (auto simp: VfsPipeCreate_def split: option.splits prod.splits)
  from FreeSlot_search [OF P grow(1)] obtain m where m: "pipes = VfsPipeSlots st @ replicate m empty_pipe"
    "\<And>j. p = Some j \<Longrightarrow> j < length pipes \<and> \<not> in_use (pipes ! j)" by auto
  have none: "file_pipe empty_file = None" by (simp add: empty_file_def)
  show ?thesis
  proof (cases p)
    case None
    then have "VfsPipeSlots st' = pipes" "VfsFileSlots st' = VfsFileSlots st"
      using run told P by (auto simp: VfsPipeCreate_def VfsRefuse_def)
    then have "set (map file_pipe (VfsFileSlots st')) \<subseteq> set (map file_pipe (VfsFileSlots st)) \<union> {None} \<and>
      VfsPipeSlots st' = VfsPipeSlots st @ replicate m empty_pipe" using m(1) by auto
    then show ?thesis by blast
  next
    case (Some c)
    note c = m(2) [OF Some]
    obtain files r where F: "VfsPipeFreeFile grow_files (VfsFileSlots st) = Some (files, r)"
      using run told P Some by (auto simp: VfsPipeCreate_def Let_def split: option.splits prod.splits)
    from FreeSlot_search [OF F [unfolded VfsPipeFreeFile_def] grow(2)] obtain n where n: "files = VfsFileSlots st @ replicate n empty_file"
      by auto
    show ?thesis
    proof (cases r)
      case None
      then have "VfsPipeSlots st' = pipes" "VfsFileSlots st' = files"
        using run told P Some F by (auto simp: VfsPipeCreate_def VfsRefuse_def Let_def)
      moreover have "set (map file_pipe files) \<subseteq> set (map file_pipe (VfsFileSlots st)) \<union> {None}" using n none by auto
      ultimately show ?thesis using m(1) by (metis (no_types))
    next
      case r: (Some reader)
      let ?files = "files[reader := (files ! reader)\<lparr>file_open := True\<rparr>]"
      obtain files2 w where G: "VfsPipeFreeFile grow_files ?files = Some (files2, w)"
        using run told P Some F r by (auto simp: VfsPipeCreate_def Let_def set_file_def split: option.splits prod.splits)
      from FreeSlot_search [OF G [unfolded VfsPipeFreeFile_def] grow(2)] obtain n2 where n2: "files2 = ?files @ replicate n2 empty_file"
        by auto
      let ?files3 = "files2[reader := (files2 ! reader)\<lparr>file_open := False\<rparr>]"
      have files3: "set (map file_pipe ?files3) \<subseteq> set (map file_pipe (VfsFileSlots st)) \<union> {None}"
        unfolding file_pipe_kept n2 map_append unfolding n using none by auto
      show ?thesis
      proof (cases w)
        case None
        then have "VfsPipeSlots st' = pipes" "VfsFileSlots st' = ?files3"
          using run told P Some F r G by (auto simp: VfsPipeCreate_def Let_def set_file_def VfsRefuse_def)
        then show ?thesis using m(1) files3 by (metis (no_types))
      next
        case w: (Some writer)
        then have slots: "VfsPipeSlots st' = pipes[c := empty_pipe\<lparr>readers := 1, writers := 1, in_use := True\<rparr>]"
          and ab: "VfsFileSlots st' = files2[reader := empty_file\<lparr>file_flags := VFS_OPEN_READ, file_holders := 1,
              file_pipe := Some c, file_open := True\<rparr>, writer := empty_file\<lparr>file_flags := VFS_OPEN_WRITE, file_holders := 1,
              file_pipe := Some c, file_open := True\<rparr>]"
          using run told P Some F r G by (auto simp: VfsPipeCreate_def Let_def set_file_def set_pipe_def VfsSucceed_def)
        have "set (map file_pipe (VfsFileSlots st')) \<subseteq> insert (Some c) (insert (Some c) (set (map file_pipe files2)))"
          unfolding ab map_update
          by (intro subset_trans [OF set_update_subset_insert] subset_trans [OF insert_mono [OF set_update_subset_insert]]) simp
        then have "set (map file_pipe (VfsFileSlots st')) \<subseteq> set (map file_pipe (VfsFileSlots st)) \<union> {None, Some c}"
          using files3 unfolding file_pipe_kept by blast
        then show ?thesis using c slots(1) unfolding m(1) by blast
      qed
    qed
  qed
qed

text \<open>A pipe in use is as it was, whatever is created beside it.\<close>

lemma VfsPipeCreate_effect:
  assumes run: "VfsPipeCreate grow_pipes grow_files told st = Some (st', ends)"
    and grow: "grows_with empty_pipe grow_pipes" "grows_with empty_file grow_files"
    and ok: "pipes_ok st"
  shows "pipes_ok st'" "length (VfsPipeSlots st) \<le> length (VfsPipeSlots st')"
    "k < length (VfsPipeSlots st) \<Longrightarrow> in_use (VfsPipeSlots st ! k) \<Longrightarrow> VfsPipeSlots st' ! k = VfsPipeSlots st ! k"
proof -
  have base: "pipe_ok empty_pipe" "pipe_ok (empty_pipe\<lparr>readers := 1, writers := 1, in_use := True\<rparr>)"
    by (simp_all add: pipe_ok_def empty_pipe_def VfsPipeHeld_def)
  let ?S = "VfsPipeSlots st" and ?new = "empty_pipe\<lparr>readers := 1, writers := 1, in_use := True\<rparr>"
  from VfsPipeCreate_files [OF run grow] obtain m c where
    "set (map file_pipe (VfsFileSlots st')) \<subseteq> set (map file_pipe (VfsFileSlots st)) \<union> {None} \<and>
       VfsPipeSlots st' = ?S @ replicate m empty_pipe \<or>
     c < length (?S @ replicate m empty_pipe) \<and> \<not> in_use ((?S @ replicate m empty_pipe) ! c) \<and>
       VfsPipeSlots st' = (?S @ replicate m empty_pipe)[c := ?new] \<and>
       set (map file_pipe (VfsFileSlots st')) \<subseteq> set (map file_pipe (VfsFileSlots st)) \<union> {None, Some c}" by blast
  then have "pipes_ok st' \<and> length ?S \<le> length (VfsPipeSlots st') \<and>
     (k < length ?S \<longrightarrow> in_use (?S ! k) \<longrightarrow> VfsPipeSlots st' ! k = ?S ! k)"
  proof
    assume A: "set (map file_pipe (VfsFileSlots st')) \<subseteq> set (map file_pipe (VfsFileSlots st)) \<union> {None} \<and>
       VfsPipeSlots st' = ?S @ replicate m empty_pipe"
    then have "\<forall>k. Some k \<in> set (map file_pipe (VfsFileSlots st')) \<longrightarrow> k < length ?S" using ok unfolding pipes_ok_files by blast
    then show ?thesis using A ok base unfolding pipes_ok_files by (auto simp: nth_append intro: trans_less_add1)
  next
    assume A: "c < length (?S @ replicate m empty_pipe) \<and> \<not> in_use ((?S @ replicate m empty_pipe) ! c) \<and>
       VfsPipeSlots st' = (?S @ replicate m empty_pipe)[c := ?new] \<and>
       set (map file_pipe (VfsFileSlots st')) \<subseteq> set (map file_pipe (VfsFileSlots st)) \<union> {None, Some c}"
    then have f: "\<forall>k. Some k \<in> set (map file_pipe (VfsFileSlots st')) \<longrightarrow> k < length ?S + m"
      using ok unfolding pipes_ok_files by fastforce
    have "set (VfsPipeSlots st') \<subseteq> insert ?new (set (?S @ replicate m empty_pipe))"
      by (simp only: conjunct1 [OF conjunct2 [OF conjunct2 [OF A]]] set_update_subset_insert)
    then have "\<forall>p \<in> set (VfsPipeSlots st'). pipe_ok p" using ok base unfolding pipes_ok_files by auto
    then show ?thesis using A f unfolding pipes_ok_files by (auto simp: nth_append nth_list_update)
  qed
  then show "pipes_ok st'" "length (VfsPipeSlots st) \<le> length (VfsPipeSlots st')"
    "k < length (VfsPipeSlots st) \<Longrightarrow> in_use (VfsPipeSlots st ! k) \<Longrightarrow> VfsPipeSlots st' ! k = VfsPipeSlots st ! k" by blast+
qed

end
