(* ===== verification/PipeProperties.thy ===== *)
theory PipeProperties
  imports PipeRing SignalProperties
begin

text \<open>
  The properties of pipes (\<open>kernel/fs/vfs/pipe.c\<close>), applied to one pipe between the two
  processes of the small machine, the child asleep upon it.
\<close>

text \<open>
  A run of the kernel's operations upon pipes, with the bytes that pipe \<open>k\<close> has been given and
  the bytes that have been read from it.  Other pipes come and go; pipe \<open>k\<close> is not made anew
  while it is in use.  Elsewhere the kernel may open and close files, but only the steps here make
  a file the end of a pipe.
\<close>

definition for_pipe :: "nat \<Rightarrow> pipe_state \<Rightarrow> nat \<Rightarrow> 'a list \<Rightarrow> 'a list" where
  "for_pipe k st i bytes = (if file_pipe (VfsFileSlots st ! i) = Some k then bytes else [])"

inductive pipe_step :: "nat \<Rightarrow> pipe_state \<times> u8 list \<times> u8 list \<Rightarrow> pipe_state \<times> u8 list \<times> u8 list \<Rightarrow> bool" for k where
  reads: "i < length (VfsFileSlots st) \<Longrightarrow> file_pipe (VfsFileSlots st ! i) \<noteq> None \<Longrightarrow>
    VfsPipeRead i n st = (st', r) \<or> ReadResume i n st = (st', r) \<Longrightarrow>
    pipe_step k (st, given, taken) (st', given, taken @ for_pipe k st i (case r of None \<Rightarrow> [] | Some (success, bytes) \<Rightarrow> bytes))"
| writes: "i < length (VfsFileSlots st) \<Longrightarrow> file_pipe (VfsFileSlots st ! i) \<noteq> None \<Longrightarrow> written \<le> length source \<Longrightarrow>
    VfsPipeWrite i source written st = (st', written', r) \<or> WriteResume i source written st = (st', written', r) \<Longrightarrow>
    pipe_step k (st, given, taken) (st', given @ for_pipe k st i (take (written' - written) (drop written source)), taken)"
| releases: "i < length (VfsFileSlots st) \<Longrightarrow> pipe_step k (st, given, taken) (VfsPipeReleaseEnd i st, given, taken)"
| creates: "VfsPipeCreate grow_pipes grow_files told st = Some (st', ends) \<Longrightarrow>
    grows_with empty_pipe grow_pipes \<Longrightarrow> grows_with empty_file grow_files \<Longrightarrow> in_use (VfsPipeSlots st ! k) \<Longrightarrow>
    pipe_step k (st, given, taken) (st', given, taken)"
| elsewhere: "VfsPipeSlots st' = VfsPipeSlots st \<Longrightarrow>
    set (map file_pipe (VfsFileSlots st')) \<subseteq> insert None (set (map file_pipe (VfsFileSlots st))) \<Longrightarrow>
    pipe_step k (st, given, taken) (st', given, taken)"

definition pipe_balance :: "nat \<Rightarrow> u8 list \<Rightarrow> pipe_state \<times> u8 list \<times> u8 list \<Rightarrow> bool" where
  "pipe_balance k start c \<longleftrightarrow> pipes_ok (fst c) \<and> k < length (VfsPipeSlots (fst c)) \<and>
     snd (snd c) @ pipe_bytes (VfsPipeSlots (fst c) ! k) = start @ fst (snd c)"

lemma pipes_ok_file:
  "pipes_ok st \<Longrightarrow> i < length (VfsFileSlots st) \<Longrightarrow> file_pipe (VfsFileSlots st ! i) = Some j \<Longrightarrow>
    j < length (VfsPipeSlots st) \<and> pipe_ok (VfsPipeSlots st ! j)"
  unfolding pipes_ok_def by (auto split: option.splits)

lemma pipes_ok_same: "VfsPipeSlots st' = VfsPipeSlots st \<Longrightarrow> VfsFileSlots st' = VfsFileSlots st \<Longrightarrow> pipes_ok st' = pipes_ok st"
  unfolding pipes_ok_def by (simp only:)

lemma release_bytes:
  assumes "pipes_ok st" "i < length (VfsFileSlots st)"
  shows "pipes_ok (VfsPipeReleaseEnd i st)" "length (VfsPipeSlots (VfsPipeReleaseEnd i st)) = length (VfsPipeSlots st)"
    "pipe_bytes (VfsPipeSlots (VfsPipeReleaseEnd i st) ! k) = pipe_bytes (VfsPipeSlots st ! k)"
proof -
  have "pipes_ok (VfsPipeReleaseEnd i st) \<and> length (VfsPipeSlots (VfsPipeReleaseEnd i st)) = length (VfsPipeSlots st) \<and>
    pipe_bytes (VfsPipeSlots (VfsPipeReleaseEnd i st) ! k) = pipe_bytes (VfsPipeSlots st ! k)"
  proof (cases "file_pipe (VfsFileSlots st ! i)")
    case None
    then show ?thesis using assms by (simp add: VfsPipeReleaseEnd_def)
  next
    case (Some j)
    let ?p = "VfsPipeSlots st ! j"
    have j: "j < length (VfsPipeSlots st)" "pipe_ok ?p" using pipes_ok_file [OF assms Some] by simp_all
    define g where "g p = (if file_flags (VfsFileSlots st ! i) AND VFS_OPEN_READ \<noteq> 0
        then if 0 < readers p then p\<lparr>readers := readers p - 1\<rparr> else p
        else if 0 < writers p then p\<lparr>writers := writers p - 1\<rparr> else p)" for p :: VfsPipe
    define h where "h p = (if readers p = 0 \<and> writers p = 0 then p\<lparr>in_use := False\<rparr> else p)" for p :: VfsPipe
    let ?p' = "h (g ?p)"
    have slots: "VfsPipeSlots (VfsPipeReleaseEnd i st) = (VfsPipeSlots st)[j := ?p']" "VfsFileSlots (VfsPipeReleaseEnd i st) = VfsFileSlots st"
      using Some j(1) by (simp_all add: VfsPipeReleaseEnd_def Let_def set_pipe_def on_scheduler_def g_def h_def)
    have kept: "pipe_buffer ?p' = pipe_buffer ?p" "read_index ?p' = read_index ?p" "write_index ?p' = write_index ?p"
      by (simp_all add: g_def h_def)
    then have ok: "pipe_ok ?p'" "pipe_bytes ?p' = pipe_bytes ?p"
      using j(2) by (simp_all add: pipe_ok_def pipe_bytes_def VfsPipeHeld_def)
    have "pipes_ok (VfsPipeReleaseEnd i st)"
      using only_pipe_ok [OF assms(1), of j ?p'] ok slots by (simp add: only_pipe_def)
    then show ?thesis using slots ok(2) j(1) by (cases "j = k") auto
  qed
  then show "pipes_ok (VfsPipeReleaseEnd i st)" "length (VfsPipeSlots (VfsPipeReleaseEnd i st)) = length (VfsPipeSlots st)"
    "pipe_bytes (VfsPipeSlots (VfsPipeReleaseEnd i st) ! k) = pipe_bytes (VfsPipeSlots st ! k)" by blast+
qed

lemma refused_read:
  "VfsPipeRead i n st = (st', r) \<or> ReadResume i n st = (st', r) \<Longrightarrow>
    ReadTurn i n st = (st', r) \<or> VfsPipeSlots st' = VfsPipeSlots st \<and> VfsFileSlots st' = VfsFileSlots st \<and> r = Some (False, [])"
  by (auto simp: VfsPipeRead_def ReadResume_def split: if_splits)

lemma refused_write:
  "VfsPipeWrite i source written st = (st', written', r) \<or> WriteResume i source written st = (st', written', r) \<Longrightarrow>
    WriteFrom i source written st = (st', written', r) \<or>
    VfsPipeSlots st' = VfsPipeSlots st \<and> VfsFileSlots st' = VfsFileSlots st \<and> written' = written"
  by (auto simp: VfsPipeWrite_def WriteResume_def split: if_splits)

lemma pipe_step_balance:
  assumes "pipe_step k c c'" "pipe_balance k start c"
  shows "pipe_balance k start c'"
  using assms
proof (induction rule: pipe_step.induct)
  case (reads i st n st' r given taken)
  obtain j where j: "file_pipe (VfsFileSlots st ! i) = Some j" using reads(2) by blast
  have B: "pipes_ok st" "k < length (VfsPipeSlots st)" "taken @ pipe_bytes (VfsPipeSlots st ! k) = start @ given"
    using reads(4) by (simp_all add: pipe_balance_def)
  note J = pipes_ok_file [OF B(1) reads(1) j]
  from refused_read [OF reads(3)] show ?case
  proof
    assume "ReadTurn i n st = (st', r)"
    from ReadTurn_effect(1) [OF conjunct2 [OF J] j this] obtain p bytes where p: "only_pipe j p st st'" "pipe_ok p"
      "pipe_bytes (VfsPipeSlots st ! j) = bytes @ pipe_bytes p"
      "case r of None \<Rightarrow> bytes = [] | Some (success, out) \<Rightarrow> out = bytes" by blast
    have b: "(case r of None \<Rightarrow> [] | Some (success, out) \<Rightarrow> out) = bytes" using p(4) by (auto split: option.splits)
    show ?thesis
      using B J p only_pipe_ok [OF B(1) p(1,2)] j unfolding b
      by (cases "j = k") (auto simp: pipe_balance_def for_pipe_def only_pipe_def)
  next
    assume "VfsPipeSlots st' = VfsPipeSlots st \<and> VfsFileSlots st' = VfsFileSlots st \<and> r = Some (False, [])"
    then show ?thesis using B pipes_ok_same [of st' st] by (simp add: pipe_balance_def for_pipe_def)
  qed
next
  case (writes i st written source st' written' r given taken)
  obtain j where j: "file_pipe (VfsFileSlots st ! i) = Some j" using writes(2) by blast
  have B: "pipes_ok st" "k < length (VfsPipeSlots st)" "taken @ pipe_bytes (VfsPipeSlots st ! k) = start @ given"
    using writes(5) by (simp_all add: pipe_balance_def)
  note J = pipes_ok_file [OF B(1) writes(1) j]
  from refused_write [OF writes(4)] show ?case
  proof
    assume "WriteFrom i source written st = (st', written', r)"
    from WriteFrom_effect [OF conjunct2 [OF J] conjunct1 [OF J] j writes(3) this] obtain p where p: "only_pipe j p st st'" "pipe_ok p"
      "pipe_bytes p = pipe_bytes (VfsPipeSlots st ! j) @ take (written' - written) (drop written source)" by blast
    show ?thesis
      using B J p only_pipe_ok [OF B(1) p(1,2)] j
      by (cases "j = k") (auto simp: pipe_balance_def for_pipe_def only_pipe_def)
  next
    assume "VfsPipeSlots st' = VfsPipeSlots st \<and> VfsFileSlots st' = VfsFileSlots st \<and> written' = written"
    then show ?thesis using B pipes_ok_same [of st' st] by (simp add: pipe_balance_def for_pipe_def)
  qed
next
  case (releases i st given taken)
  then show ?case using release_bytes(1,2) [of st i] release_bytes(3) [of st i k] by (simp add: pipe_balance_def)
next
  case (creates grow_pipes grow_files told st st' ends given taken)
  then have B: "pipes_ok st" "k < length (VfsPipeSlots st)" by (simp_all add: pipe_balance_def)
  note E = VfsPipeCreate_effect [OF creates(1-3) B(1)]
  show ?case using creates(5) E(1,2) E(3) [OF B(2) creates(4)] B(2) by (simp add: pipe_balance_def)
next
  case (elsewhere st' st given taken)
  then have "pipes_ok st'" unfolding pipe_balance_def pipes_ok_files by fastforce
  then show ?case using elsewhere by (simp add: pipe_balance_def)
qed

subsection \<open>A pipe\<close>

definition one_pipe :: pipe_state where
  "one_pipe = \<lparr>VfsPipeSlots = [empty_pipe\<lparr>readers := 1, writers := 1, in_use := True\<rparr>],
     VfsFileSlots = [empty_file\<lparr>file_flags := VFS_OPEN_READ, file_holders := 1, file_open := True, file_pipe := Some 0\<rparr>,
       empty_file\<lparr>file_flags := VFS_OPEN_WRITE, file_holders := 1, file_open := True, file_pipe := Some 0\<rparr>],
     kernel = two_processes, ProcessCurrent = Some 0, this_cpu = 0, pipe_channel = (\<lambda>k. 0x1000 + word_of_nat (8192 * k)),
     SchedulerPollChannel = 0x800, VfsRefusalCode = VFS_ERROR_NONE, VfsPipesCreated = 1, VfsPipeBytes = 0,
     VfsPipeReaderSleeps = 1, VfsPipeWriterSleeps = 0, VfsFilesOpenedCount = 2\<rparr>"

lemma one_pipe_ok: "pipes_ok one_pipe"
  by (auto simp: pipes_ok_def one_pipe_def empty_pipe_def empty_file_def pipe_ok_def VfsPipeHeld_def less_Suc_eq)

lemma one_pipe_write:
  "snd (VfsPipeWrite 1 [7, 8] 0 one_pipe) = (2, Some True)"
proof -
  have e: "WriteFrom (Suc 0) [7, 8] (Suc (Suc 0)) st = (VfsSucceed st, 2, Some True)" for st by (simp add: WriteFrom.simps)
  have room: "unat (VfsPipeRoom (VfsPipeSlots one_pipe ! 0)) = 4096" "readers (VfsPipeSlots one_pipe ! 0) \<noteq> 0"
    "file_pipe (VfsFileSlots one_pipe ! Suc 0) = Some 0" "file_flags (VfsFileSlots one_pipe ! Suc 0) AND VFS_OPEN_WRITE \<noteq> 0"
    by (simp_all add: one_pipe_def empty_pipe_def VfsPipeRoom_def VfsPipeHeld_def VFS_PIPE_BUFFER_SIZE_def VFS_OPEN_WRITE_def)
  have "\<exists>st1. WriteFrom (Suc 0) [7, 8] 0 one_pipe = WriteFrom (Suc 0) [7, 8] (Suc (Suc 0)) st1"
    using room(1,2) by (subst WriteFrom.simps) (auto simp: Let_def VFS_PIPE_BUFFER_SIZE_def room(3))
  then show ?thesis using e room(4) by (auto simp: VfsPipeWrite_def)
qed

subsection \<open>Properties\<close>

text \<open>C24: Whatever reads, writes, closes and creations of other pipes the kernel makes, in any
  order and broken off anywhere by sleeps, signals and refusals, the bytes read from a pipe
  followed by the bytes it holds are the bytes it held at first followed by the bytes it has
  accepted: none is lost, doubled, reordered or taken from another pipe, and it never holds more
  than its buffer.\<close>

theorem pipe_carries_bytes_in_order:
  assumes "pipes_ok st0" "k < length (VfsPipeSlots st0)"
    and "(pipe_step k)\<^sup>*\<^sup>* (st0, [], []) (st, given, taken)"
  shows "taken @ pipe_bytes (VfsPipeSlots st ! k) = pipe_bytes (VfsPipeSlots st0 ! k) @ given \<and>
    length (pipe_bytes (VfsPipeSlots st ! k)) \<le> 4096"
proof -
  have "pipe_balance k (pipe_bytes (VfsPipeSlots st0 ! k)) c" if "(pipe_step k)\<^sup>*\<^sup>* (st0, [], []) c" for c
    using that by (induction rule: rtranclp_induct) (use assms(1,2) pipe_step_balance in \<open>auto simp: pipe_balance_def\<close>)
  from this [OF assms(3)] show ?thesis by (auto simp: pipe_balance_def pipes_ok_def pipe_ok_def)
qed

theorem pipe_carries_bytes_in_order_witness:
  "pipe_bytes (VfsPipeSlots (fst (VfsPipeWrite 1 [7, 8] 0 one_pipe)) ! 0) = [7, 8]"
proof -
  obtain st' where w: "VfsPipeWrite 1 [7, 8] 0 one_pipe = (st', 2, Some True)" using one_pipe_write by (metis prod.collapse)
  have l: "1 < length (VfsFileSlots one_pipe)" "0 < length (VfsPipeSlots one_pipe)" "file_pipe (VfsFileSlots one_pipe ! 1) = Some 0"
    by (simp_all add: one_pipe_def)
  have "pipe_step 0 (one_pipe, [], []) (st', [] @ for_pipe 0 one_pipe 1 (take (2 - 0) (drop 0 [7, 8])), [])"
    by (rule writes) (use l w in auto)
  then have "(pipe_step 0)\<^sup>*\<^sup>* (one_pipe, [], []) (st', [7, 8], [])" using l(3) by (simp add: for_pipe_def)
  from pipe_carries_bytes_in_order [OF one_pipe_ok l(2) this] show ?thesis
    using w by (simp add: one_pipe_def empty_pipe_def pipe_bytes_def VfsPipeHeld_def)
qed

text \<open>C25: A write no longer than the buffer goes into the pipe in one piece or not at all:
  however it ends, what it has put there by then is nothing or everything, and everything where it
  succeeds, behind what the pipe held.\<close>

theorem small_write_is_one_piece:
  assumes "pipe_ok (VfsPipeSlots st ! k)" "k < length (VfsPipeSlots st)" "file_pipe (VfsFileSlots st ! i) = Some k"
    and "length source \<le> 4096" "VfsPipeWrite i source 0 st = (st', written, r)"
  shows "(written = 0 \<or> written = length source) \<and> (r = Some True \<longrightarrow> written = length source) \<and>
    pipe_bytes (VfsPipeSlots st' ! k) = pipe_bytes (VfsPipeSlots st ! k) @ take written source"
proof -
  let ?p = "VfsPipeSlots st ! k"
  have fin: "WriteFrom i source (length source) st1 = (VfsSucceed st1, length source, Some True)" for st1
    by (simp add: WriteFrom.simps)
  show ?thesis
  proof (cases "file_flags (VfsFileSlots st ! i) AND VFS_OPEN_WRITE = 0")
    case True
    then show ?thesis using assms(5) by (auto simp: VfsPipeWrite_def)
  next
    case False
    then have run: "WriteFrom i source 0 st = (st', written, r)" using assms(5) by (simp add: VfsPipeWrite_def)
    have one: "(written = 0 \<or> written = length source) \<and> (r = Some True \<longrightarrow> written = length source)"
      using run assms(3,4)
      by (auto simp: WriteFrom.simps [of i source 0 st] Let_def VFS_PIPE_BUFFER_SIZE_def fin min_absorb2 split: if_splits)
    obtain p where "only_pipe k p st st'" "pipe_bytes p = pipe_bytes ?p @ take (written - 0) (drop 0 source)"
      using WriteFrom_effect [OF assms(1,2,3) _ run] by auto
    then show ?thesis using one assms(2) by (simp add: only_pipe_def)
  qed
qed

theorem small_write_is_one_piece_witness:
  "pipe_bytes (VfsPipeSlots (fst (VfsPipeWrite 1 [7, 8, 9] 0 one_pipe)) ! 0) \<in> {[], [7, 8, 9]}"
proof -
  obtain st' w r where w: "VfsPipeWrite 1 [7, 8, 9] 0 one_pipe = (st', w, r)" by (metis prod.collapse)
  have l: "0 < length (VfsPipeSlots one_pipe)" "file_pipe (VfsFileSlots one_pipe ! 1) = Some 0" "length [7, 8, 9 :: u8] \<le> 4096"
    "pipe_bytes (VfsPipeSlots one_pipe ! 0) = []"
    by (simp_all add: one_pipe_def empty_pipe_def pipe_bytes_def VfsPipeHeld_def)
  have "pipe_ok (VfsPipeSlots one_pipe ! 0)" using one_pipe_ok l(1) by (simp add: pipes_ok_def)
  from small_write_is_one_piece [OF this l(1-3) w] w l(4) show ?thesis by auto
qed

text \<open>C26: A read of a pipe for at least one byte reports the end of the file, success with
  no bytes, exactly when the pipe is empty and no writer is left.\<close>

theorem end_of_file_exactly_when_closed:
  assumes "pipe_ok (VfsPipeSlots st ! k)" "file_pipe (VfsFileSlots st ! i) = Some k"
    and "file_flags (VfsFileSlots st ! i) AND VFS_OPEN_READ \<noteq> 0" "0 < unat n"
  shows "snd (VfsPipeRead i n st) = Some (True, []) \<longleftrightarrow>
      pipe_bytes (VfsPipeSlots st ! k) = [] \<and> writers (VfsPipeSlots st ! k) = 0"
    (is "?zero \<longleftrightarrow> ?closed")
proof
  obtain st' r where run: "VfsPipeRead i n st = (st', r)" by fastforce
  then have turn: "ReadTurn i n st = (st', r)" using assms(3) by (simp add: VfsPipeRead_def)
  { assume ?zero
    then show ?closed using ReadTurn_effect(2) [OF assms(1,2) turn] assms(4) run by simp }
  { assume c: ?closed
    then have "\<not> 0 < VfsPipeHeld (VfsPipeSlots st ! k)"
      using pipe_bytes_length [of "VfsPipeSlots st ! k"] by (simp add: unat_eq_0 [symmetric] word_less_nat_alt)
    then show ?zero using c assms(2,3) by (simp add: VfsPipeRead_def ReadTurn_def Let_def) }
qed

theorem end_of_file_exactly_when_closed_witness:
  "snd (VfsPipeRead 0 10 (VfsPipeReleaseEnd 1 one_pipe)) = Some (True, [])"
proof -
  let ?st = "VfsPipeReleaseEnd 1 one_pipe"
  have l: "1 < length (VfsFileSlots one_pipe)" by (simp add: one_pipe_def)
  have p: "pipe_ok (VfsPipeSlots ?st ! 0)"
    using release_bytes(1,2) [OF one_pipe_ok l] by (simp add: pipes_ok_def) (simp add: one_pipe_def)
  have f: "file_pipe (VfsFileSlots ?st ! 0) = Some 0" "file_flags (VfsFileSlots ?st ! 0) AND VFS_OPEN_READ \<noteq> 0"
    by (simp_all add: VfsPipeReleaseEnd_def Let_def one_pipe_def VFS_OPEN_READ_def VFS_OPEN_WRITE_def set_pipe_def on_scheduler_def)
  have "pipe_bytes (VfsPipeSlots ?st ! 0) = [] \<and> writers (VfsPipeSlots ?st ! 0) = 0"
    using release_bytes(3) [OF one_pipe_ok l, of 0]
    by (simp add: VfsPipeReleaseEnd_def Let_def one_pipe_def VFS_OPEN_READ_def VFS_OPEN_WRITE_def set_pipe_def on_scheduler_def
      empty_pipe_def pipe_bytes_def VfsPipeHeld_def)
  then show ?thesis using end_of_file_exactly_when_closed [OF p f, of 10] by simp
qed

end
