(* ===== verification/AddressSpaces.thy ===== *)
theory AddressSpaces
  imports PagingCow
begin

text \<open>
  Address spaces (\<open>kernel/arch/x86_64/mm/addrspace.c\<close>): creation with the kernel's half
  shared, cloning by copy-on-write, destruction, and the mapping of a page.  The recursion on
  structures follows the level; an address space is the physical address of its root.
\<close>

definition PAGE_TABLE_USER_ENTRY_COUNT :: nat where "PAGE_TABLE_USER_ENTRY_COUNT = 256"
definition ADDRESS_SPACE_LEAF_LEVEL :: nat where "ADDRESS_SPACE_LEAF_LEVEL = 1"
definition ADDRESS_SPACE_ROOT_LEVEL :: nat where "ADDRESS_SPACE_ROOT_LEVEL = 4"

record AddressSpace =
  space_root :: u64

record addrspace_state =
  tables :: paging_state
  AddressSpaceClones :: u64
  AddressSpaceSharedPages :: u64
  AddressSpaceProtectedPages :: u64

definition PagingAllocateStructure :: "paging_state \<Rightarrow> (paging_state \<times> u64) outcome" where
  "PagingAllocateStructure = PagingAllocateTable"

definition PagingActivateRoot :: "u64 \<Rightarrow> paging_state \<Rightarrow> paging_state" where
  "PagingActivateRoot root = PagingActivate root"

subsection \<open>Cloning a structure\<close>

text \<open>
  The entry of a page table: it is protected in the source where it is writable, written into
  the destination, and the frame given a further reference.
\<close>

definition CloneLeaf :: "u64 \<Rightarrow> u64 \<Rightarrow> nat \<Rightarrow> addrspace_state \<Rightarrow> addrspace_state outcome" where
  "CloneLeaf destination source index st =
     (let entry = physical (tables st) source index;
          flags = entry AND NOT PAGE_ENTRY_ADDRESS_MASK;
          target = entry AND PAGE_ENTRY_ADDRESS_MASK;
          writable = flags AND PAGE_ENTRY_WRITABLE \<noteq> 0;
          flags = (if writable then (flags AND NOT PAGE_ENTRY_WRITABLE) OR PAGE_ENTRY_COPY_ON_WRITE else flags);
          st = (if writable then st\<lparr>tables := store_entry source index (target OR flags) (tables st),
                                   AddressSpaceProtectedPages := AddressSpaceProtectedPages st + 1\<rparr> else st);
          m = store_entry destination index (target OR flags) (tables st)
      in bind_outcome (FrameReferenceIncrement target (frames m)) (\<lambda>pool.
           Inr (st\<lparr>tables := m\<lparr>frames := pool\<rparr>, AddressSpaceSharedPages := AddressSpaceSharedPages st + 1\<rparr>)))"

text \<open>The entries from one index on.  The code's level is \<open>Suc r\<close>; it is never 0.\<close>

fun CloneEntries ::
  "nat \<Rightarrow> nat list \<Rightarrow> u64 \<Rightarrow> u64 \<Rightarrow> addrspace_state \<Rightarrow> (addrspace_state \<times> bool) outcome" where
  "CloneEntries 0 indices destination source st = Inr (st, True)"
| "CloneEntries (Suc r) [] destination source st = Inr (st, True)"
| "CloneEntries (Suc r) (index # indices) destination source st =
     (let entry = physical (tables st) source index
      in if entry AND PAGE_ENTRY_PRESENT = 0 then CloneEntries (Suc r) indices destination source st
         else if Suc r \<noteq> ADDRESS_SPACE_LEAF_LEVEL \<and> entry AND PAGE_ENTRY_LARGE \<noteq> 0 then Inr (st, False)
         else if Suc r = ADDRESS_SPACE_LEAF_LEVEL
         then bind_outcome (CloneLeaf destination source index st)
                (CloneEntries (Suc r) indices destination source)
         else
           let flags = entry AND NOT PAGE_ENTRY_ADDRESS_MASK;
               target = entry AND PAGE_ENTRY_ADDRESS_MASK
           in bind_outcome (PagingAllocateStructure (tables st)) (\<lambda>(m, copy).
                if copy = FRAME_ALLOCATION_FAILED then Inr (st\<lparr>tables := m\<rparr>, False)
                else
                  let m = store_entry destination index (copy OR flags) m
                  in bind_outcome (CloneEntries r [0..<PAGE_TABLE_ENTRY_COUNT] copy target (st\<lparr>tables := m\<rparr>))
                       (\<lambda>(st, cloned). if \<not> cloned then Inr (st, False)
                          else CloneEntries (Suc r) indices destination source st)))"

definition AddressSpaceCloneStructure ::
  "u64 \<Rightarrow> u64 \<Rightarrow> nat \<Rightarrow> nat \<Rightarrow> addrspace_state \<Rightarrow> (addrspace_state \<times> bool) outcome" where
  "AddressSpaceCloneStructure destination source level entry_count =
     CloneEntries level [0..<entry_count] destination source"

subsection \<open>Releasing a structure\<close>

fun ReleaseEntries :: "nat \<Rightarrow> nat list \<Rightarrow> u64 \<Rightarrow> paging_state \<Rightarrow> paging_state outcome" where
  "ReleaseEntries 0 indices table m = PagingReleaseStructure table m"
| "ReleaseEntries (Suc r) [] table m = PagingReleaseStructure table m"
| "ReleaseEntries (Suc r) (index # indices) table m =
     (let entry = physical m table index
      in if entry AND PAGE_ENTRY_PRESENT = 0 then ReleaseEntries (Suc r) indices table m
         else
           let m = store_entry table index 0 m
           in if Suc r = ADDRESS_SPACE_LEAF_LEVEL
              then bind_outcome (FrameFree (entry AND PAGE_ENTRY_ADDRESS_MASK) (frames m))
                     (\<lambda>pool. ReleaseEntries (Suc r) indices table (m\<lparr>frames := pool\<rparr>))
              else if entry AND PAGE_ENTRY_LARGE \<noteq> 0 then ReleaseEntries (Suc r) indices table m
              else bind_outcome
                     (ReleaseEntries r [0..<PAGE_TABLE_ENTRY_COUNT] (entry AND PAGE_ENTRY_ADDRESS_MASK) m)
                     (ReleaseEntries (Suc r) indices table))"

definition AddressSpaceReleaseStructure :: "u64 \<Rightarrow> nat \<Rightarrow> nat \<Rightarrow> paging_state \<Rightarrow> paging_state outcome" where
  "AddressSpaceReleaseStructure table level entry_count = ReleaseEntries level [0..<entry_count] table"

subsection \<open>Address spaces\<close>

text \<open>The loop that copies the kernel's half is the update of the entries it writes.\<close>

definition AddressSpaceCreate :: "AddressSpace \<Rightarrow> addrspace_state \<Rightarrow> (addrspace_state \<times> AddressSpace \<times> bool) outcome" where
  "AddressSpaceCreate space st =
     bind_outcome (PagingAllocateStructure (tables st)) (\<lambda>(m, root).
       if root = FRAME_ALLOCATION_FAILED then Inr (st\<lparr>tables := m\<rparr>, space, False)
       else
         let kernel = PagingRootTable m;
             m = m\<lparr>physical := (physical m)(root :=
                   (\<lambda>index. if PAGE_TABLE_USER_ENTRY_COUNT \<le> index \<and> index < PAGE_TABLE_ENTRY_COUNT
                            then physical m kernel index else physical m root index))\<rparr>
         in Inr (st\<lparr>tables := m\<rparr>, space\<lparr>space_root := root\<rparr>, True))"

definition AddressSpaceDestroy :: "AddressSpace \<Rightarrow> addrspace_state \<Rightarrow> (addrspace_state \<times> AddressSpace) outcome" where
  "AddressSpaceDestroy space st =
     (if space_root space = FRAME_ALLOCATION_FAILED then Inr (st, space)
      else if space_root space = PagingActiveTable (tables st)
      then KernelPanic ''An attempt was made to destroy the active address space.''
      else bind_outcome
             (AddressSpaceReleaseStructure (space_root space) ADDRESS_SPACE_ROOT_LEVEL
                PAGE_TABLE_USER_ENTRY_COUNT (tables st))
             (\<lambda>m. Inr (st\<lparr>tables := m\<rparr>, space\<lparr>space_root := FRAME_ALLOCATION_FAILED\<rparr>)))"

definition AddressSpaceClone ::
  "AddressSpace \<Rightarrow> AddressSpace \<Rightarrow> addrspace_state \<Rightarrow> (addrspace_state \<times> AddressSpace \<times> bool) outcome" where
  "AddressSpaceClone destination source st =
     bind_outcome (AddressSpaceCreate destination st) (\<lambda>(st, destination, created).
       if \<not> created then Inr (st, destination, False)
       else bind_outcome
         (AddressSpaceCloneStructure (space_root destination) (space_root source)
            ADDRESS_SPACE_ROOT_LEVEL PAGE_TABLE_USER_ENTRY_COUNT st) (\<lambda>(st, cloned).
       if \<not> cloned
       then bind_outcome (AddressSpaceDestroy destination st) (\<lambda>(st, destination). Inr (st, destination, False))
       else
         let m = tables st;
             m = (if space_root source = PagingActiveTable m then PagingActivateRoot (space_root source) m else m)
         in Inr (st\<lparr>tables := m, AddressSpaceClones := AddressSpaceClones st + 1\<rparr>, destination, True)))"

definition AddressSpaceSwitch :: "AddressSpace \<Rightarrow> addrspace_state \<Rightarrow> addrspace_state" where
  "AddressSpaceSwitch space st = st\<lparr>tables := PagingActivateRoot (space_root space) (tables st)\<rparr>"

definition AddressSpaceMapPage ::
  "AddressSpace \<Rightarrow> u64 \<Rightarrow> u64 \<Rightarrow> u64 \<Rightarrow> paging_state \<Rightarrow> paging_state outcome" where
  "AddressSpaceMapPage space virtual_address physical_address flags =
     PagingMapPageIn (space_root space) virtual_address physical_address flags"

definition AddressSpaceUnmapPage ::
  "AddressSpace option \<Rightarrow> u64 \<Rightarrow> paging_state \<Rightarrow> (paging_state \<times> u64) outcome" where
  "AddressSpaceUnmapPage space virtual_address m =
     (case space of
        None \<Rightarrow> Inr (m, FRAME_ALLOCATION_FAILED)
      | Some s \<Rightarrow> if space_root s = FRAME_ALLOCATION_FAILED then Inr (m, FRAME_ALLOCATION_FAILED)
                  else PagingUnmapPageIn (space_root s) virtual_address m)"

definition AddressSpaceKernel :: "paging_state \<Rightarrow> AddressSpace" where
  "AddressSpaceKernel m = \<lparr>space_root = PagingRootTable m\<rparr>"

end
