(* ===== verification/ElfLoader.thy ===== *)
theory ElfLoader
  imports AddressSpaces UserMemory
begin

text \<open>
  The loader of executables (\<open>kernel/exec/elf.c\<close>): the decoding of the headers, the judgement
  of an image, and the placing of its segments into an address space.  An image is the bytes a
  pointer and a length describe.  A page is filled through the direct map, that is in the words
  of its frame; the loops that clear and fill it are written as in the code.
\<close>

subsection \<open>The format\<close>

definition ELF_HEADER_BYTES :: u64 where "ELF_HEADER_BYTES = 64"
definition ELF_PROGRAM_HEADER_BYTES :: u64 where "ELF_PROGRAM_HEADER_BYTES = 56"
definition ELF_CLASS_64 :: u8 where "ELF_CLASS_64 = 2"
definition ELF_DATA_LITTLE_ENDIAN :: u8 where "ELF_DATA_LITTLE_ENDIAN = 1"
definition ELF_VERSION_CURRENT :: u32 where "ELF_VERSION_CURRENT = 1"
definition ELF_TYPE_EXECUTABLE :: u16 where "ELF_TYPE_EXECUTABLE = 2"
definition ELF_MACHINE_X86_64 :: u16 where "ELF_MACHINE_X86_64 = 62"
definition ELF_SEGMENT_LOAD :: u32 where "ELF_SEGMENT_LOAD = 1"
definition ELF_SEGMENT_INTERPRETER :: u32 where "ELF_SEGMENT_INTERPRETER = 3"
definition ELF_SEGMENT_WRITE :: u32 where "ELF_SEGMENT_WRITE = 2"
definition ELF_SEGMENT_MAXIMUM :: u16 where "ELF_SEGMENT_MAXIMUM = 16"

record ElfHeader =
  class_code :: u8
  data_encoding :: u8
  identification_version :: u8
  header_type :: u16
  header_machine :: u16
  header_version :: u32
  header_entry :: u64
  program_header_offset :: u64
  header_size :: u16
  program_header_size :: u16
  program_header_count :: u16

record ElfProgramHeader =
  segment_type :: u32
  segment_flags :: u32
  file_offset :: u64
  segment_address :: u64
  segment_file_size :: u64
  memory_size :: u64
  segment_alignment :: u64

record ElfImage =
  image_entry :: u64
  lowest :: u64
  highest :: u64
  segments_loaded :: u32
  pages_loaded :: u64

datatype ElfResult =
    ELF_OK | ELF_NOT_ELF | ELF_WRONG_CLASS | ELF_WRONG_ENCODING | ELF_WRONG_VERSION | ELF_WRONG_MACHINE
  | ELF_WRONG_TYPE | ELF_MALFORMED | ELF_BAD_ADDRESS | ELF_NO_SEGMENTS | ELF_NO_MEMORY | ELF_UNREADABLE

text \<open>The first \<open>ElfSegmentsRead\<close> entries of the array are the list.\<close>

record elf_state =
  ElfSegments :: "ElfProgramHeader list"
  ElfLastHeader :: ElfHeader
  ElfHaveHeader :: bool
  ElfLoads :: u64
  ElfRefusals :: u64

subsection \<open>Decoding\<close>

definition ElfRead16 :: "u8 list \<Rightarrow> nat \<Rightarrow> u16" where
  "ElfRead16 bytes at = ucast (bytes ! at) OR push_bit 8 (ucast (bytes ! (at + 1)))"

definition ElfRead32 :: "u8 list \<Rightarrow> nat \<Rightarrow> u32" where
  "ElfRead32 bytes at = ucast (bytes ! at) OR push_bit 8 (ucast (bytes ! (at + 1))) OR
     push_bit 16 (ucast (bytes ! (at + 2))) OR push_bit 24 (ucast (bytes ! (at + 3)))"

definition ElfRead64 :: "u8 list \<Rightarrow> nat \<Rightarrow> u64" where
  "ElfRead64 bytes at = ucast (ElfRead32 bytes at) OR push_bit 32 (ucast (ElfRead32 bytes (at + 4)))"

text \<open>The header is written only for the caller's use after success, so it is the result then.\<close>

definition ElfDecode :: "u8 list option \<Rightarrow> u64 \<Rightarrow> ElfResult + ElfHeader" where
  "ElfDecode source n =
     (case source of
        None \<Rightarrow> Inl ELF_NOT_ELF
      | Some bytes \<Rightarrow>
          if n < ELF_HEADER_BYTES then Inl ELF_NOT_ELF
          else if bytes ! 0 \<noteq> 0x7F \<or> bytes ! 1 \<noteq> 0x45 \<or> bytes ! 2 \<noteq> 0x4C \<or> bytes ! 3 \<noteq> 0x46 then Inl ELF_NOT_ELF
          else
            let h = \<lparr>class_code = bytes ! 4, data_encoding = bytes ! 5, identification_version = bytes ! 6,
                     header_type = ElfRead16 bytes 16, header_machine = ElfRead16 bytes 18,
                     header_version = ElfRead32 bytes 20, header_entry = ElfRead64 bytes 24,
                     program_header_offset = ElfRead64 bytes 32, header_size = ElfRead16 bytes 52,
                     program_header_size = ElfRead16 bytes 54, program_header_count = ElfRead16 bytes 56\<rparr>
            in if class_code h \<noteq> ELF_CLASS_64 then Inl ELF_WRONG_CLASS
               else if data_encoding h \<noteq> ELF_DATA_LITTLE_ENDIAN then Inl ELF_WRONG_ENCODING
               else if ucast (identification_version h) \<noteq> ELF_VERSION_CURRENT then Inl ELF_WRONG_VERSION
               else if header_version h \<noteq> ELF_VERSION_CURRENT then Inl ELF_WRONG_VERSION
               else if header_machine h \<noteq> ELF_MACHINE_X86_64 then Inl ELF_WRONG_MACHINE
               else if header_type h \<noteq> ELF_TYPE_EXECUTABLE then Inl ELF_WRONG_TYPE
               else Inr h)"

subsection \<open>Judging an image\<close>

definition ElfRangeIsWithinFile :: "u64 \<Rightarrow> u64 \<Rightarrow> u64 \<Rightarrow> bool" where
  "ElfRangeIsWithinFile offset size_of n \<longleftrightarrow> offset \<le> n \<and> size_of \<le> n - offset"

definition ElfRangeIsWithinUserSpace :: "u64 \<Rightarrow> u64 \<Rightarrow> bool" where
  "ElfRangeIsWithinUserSpace address size_of =
     (if SYSCALL_USER_LIMIT \<le> address then False
      else if size_of = 0 then True
      else size_of \<le> SYSCALL_USER_LIMIT - address)"

definition ElfReadProgramHeader :: "u8 list \<Rightarrow> nat \<Rightarrow> ElfProgramHeader" where
  "ElfReadProgramHeader bytes at =
     \<lparr>segment_type = ElfRead32 bytes at, segment_flags = ElfRead32 bytes (at + 4),
      file_offset = ElfRead64 bytes (at + 8), segment_address = ElfRead64 bytes (at + 16),
      segment_file_size = ElfRead64 bytes (at + 32), memory_size = ElfRead64 bytes (at + 40),
      segment_alignment = ElfRead64 bytes (at + 48)\<rparr>"

text \<open>
  The walk over the program headers, each recorded as it is judged.  \<open>previous\<close> is the end of
  the last segment with a memory image, where there has been one.
\<close>

fun ReadSegmentsFrom ::
  "u8 list \<Rightarrow> u64 \<Rightarrow> ElfHeader \<Rightarrow> u64 option \<Rightarrow> nat list \<Rightarrow> ElfProgramHeader list \<times> ElfResult" where
  "ReadSegmentsFrom bytes n h previous [] = ([], if previous = None then ELF_NO_SEGMENTS else ELF_OK)"
| "ReadSegmentsFrom bytes n h previous (index # indices) =
     (let entry = program_header_offset h + word_of_nat index * ucast (program_header_size h);
          v = ElfReadProgramHeader bytes (unat entry);
          stop = (\<lambda>r. ([v], r));
          go_on = (\<lambda>previous. apfst (Cons v) (ReadSegmentsFrom bytes n h previous indices))
      in if segment_type v \<noteq> ELF_SEGMENT_LOAD
         then if segment_type v = ELF_SEGMENT_INTERPRETER then stop ELF_WRONG_TYPE else go_on previous
         else if \<not> ElfRangeIsWithinFile (file_offset v) (segment_file_size v) n then stop ELF_MALFORMED
         else if memory_size v < segment_file_size v then stop ELF_MALFORMED
         else if \<not> ElfRangeIsWithinUserSpace (segment_address v) (memory_size v) then stop ELF_BAD_ADDRESS
         else if segment_address v < PAGE_SIZE then stop ELF_BAD_ADDRESS
         else if memory_size v = 0 then go_on previous
         else if (case previous of None \<Rightarrow> False | Some e \<Rightarrow> segment_address v < e) then stop ELF_MALFORMED
         else go_on (Some (segment_address v + memory_size v)))"

definition ElfReadSegments :: "u8 list \<Rightarrow> u64 \<Rightarrow> ElfHeader \<Rightarrow> elf_state \<Rightarrow> elf_state \<times> ElfResult" where
  "ElfReadSegments bytes n h e =
     (let e = e\<lparr>ElfSegments := []\<rparr>
      in if ucast (header_size h) \<noteq> ELF_HEADER_BYTES then (e, ELF_MALFORMED)
         else if ucast (program_header_size h) \<noteq> ELF_PROGRAM_HEADER_BYTES then (e, ELF_MALFORMED)
         else if program_header_count h = 0 then (e, ELF_NO_SEGMENTS)
         else if ELF_SEGMENT_MAXIMUM < program_header_count h then (e, ELF_MALFORMED)
         else if \<not> ElfRangeIsWithinFile (program_header_offset h)
                    (ucast (program_header_count h) * ucast (program_header_size h)) n then (e, ELF_MALFORMED)
         else let (vs, r) = ReadSegmentsFrom bytes n h None [0..<unat (program_header_count h)]
              in (e\<lparr>ElfSegments := vs\<rparr>, r))"

definition ElfValidate :: "u8 list option \<Rightarrow> u64 \<Rightarrow> elf_state \<Rightarrow> elf_state \<times> ElfResult" where
  "ElfValidate source n e =
     (case ElfDecode source n of
        Inl r \<Rightarrow> (e\<lparr>ElfHaveHeader := False\<rparr>, r)
      | Inr h \<Rightarrow> ElfReadSegments (the source) n h (e\<lparr>ElfLastHeader := h, ElfHaveHeader := True\<rparr>))"

subsection \<open>Placing a segment\<close>

definition frame_byte :: "(nat \<Rightarrow> u64) \<Rightarrow> nat \<Rightarrow> u8" where
  "frame_byte frame_words k = ucast (drop_bit (8 * (k mod 8)) (frame_words (k div 8)))"

definition StoreByte :: "u64 \<Rightarrow> nat \<Rightarrow> u8 \<Rightarrow> paging_state \<Rightarrow> paging_state" where
  "StoreByte frame k byte m =
     store_entry frame (k div 8)
       ((physical m frame (k div 8) AND NOT (push_bit (8 * (k mod 8)) 0xFF)) OR push_bit (8 * (k mod 8)) (ucast byte)) m"

definition ClearFrame :: "u64 \<Rightarrow> paging_state \<Rightarrow> paging_state" where
  "ClearFrame frame m = fold (\<lambda>offset. StoreByte frame offset 0) [0..<unat PAGE_SIZE] m"

record placing_state =
  space_tables :: paging_state
  shared_page :: u64
  shared_frame :: u64
  loaded :: ElfImage

text \<open>A frame taken and cleared; 0 where there is none.\<close>

definition FreshFrame :: "paging_state \<Rightarrow> paging_state \<times> u64" where
  "FreshFrame m =
     (let (pool, frame) = FrameAllocate (frames m);
          m = m\<lparr>frames := pool\<rparr>
      in (if frame = 0 then m else ClearFrame frame m, frame))"

text \<open>The file's contents that fall upon a page, copied into its frame.\<close>

definition FillPage :: "u8 list \<Rightarrow> ElfProgramHeader \<Rightarrow> u64 \<Rightarrow> u64 \<Rightarrow> paging_state \<Rightarrow> paging_state" where
  "FillPage bytes v page frame m =
     (let within = (if segment_address v < page then page - segment_address v else 0)
      in if within < segment_file_size v
         then let start = (if segment_address v < page then 0 else segment_address v - page);
                  copy = segment_file_size v - within;
                  copy = (if PAGE_SIZE - start < copy then PAGE_SIZE - start else copy)
              in fold (\<lambda>offset. StoreByte frame (unat (start + word_of_nat offset))
                          (bytes ! unat (file_offset v + within + word_of_nat offset))) [0..<unat copy] m
         else m)"

text \<open>One turn of the loop over the pages of a segment; false where no frame was to be had.\<close>

definition PlacePage ::
  "AddressSpace \<Rightarrow> u8 list \<Rightarrow> ElfProgramHeader \<Rightarrow> u64 \<Rightarrow> u64 \<Rightarrow> placing_state \<Rightarrow> (placing_state \<times> bool) outcome" where
  "PlacePage space bytes v flags page st =
     (let reused = (shared_frame st \<noteq> 0 \<and> page = shared_page st);
          (m, frame) = (if reused then (space_tables st, shared_frame st) else FreshFrame (space_tables st))
      in if frame = 0 then Inr (st\<lparr>space_tables := m\<rparr>, False)
         else
           let m = FillPage bytes v page frame m
           in bind_outcome
                (if \<not> reused \<or> flags AND PAGE_ENTRY_WRITABLE \<noteq> 0 then AddressSpaceMapPage space page frame flags m
                 else Inr m)
                (\<lambda>m. Inr (st\<lparr>space_tables := m, shared_page := page, shared_frame := frame,
                            loaded := (if reused then loaded st
                              else (loaded st)\<lparr>pages_loaded := pages_loaded (loaded st) + 1\<rparr>)\<rparr>, True)))"

partial_function (option) PlacePages ::
  "AddressSpace \<Rightarrow> u8 list \<Rightarrow> ElfProgramHeader \<Rightarrow> u64 \<Rightarrow> u64 \<Rightarrow> u64 \<Rightarrow> placing_state \<Rightarrow>
   (placing_state \<times> bool) outcome option" where
  "PlacePages space bytes v flags page final st =
     (if \<not> page \<le> final then Some (Inr (st, True))
      else case PlacePage space bytes v flags page st of
             Inl p \<Rightarrow> Some (Inl p)
           | Inr r \<Rightarrow> if snd r then PlacePages space bytes v flags (page + PAGE_SIZE) final (fst r)
                      else Some (Inr r))"

definition ElfLoadSegment ::
  "AddressSpace \<Rightarrow> u8 list \<Rightarrow> ElfProgramHeader \<Rightarrow> placing_state \<Rightarrow> (placing_state \<times> ElfResult) outcome option" where
  "ElfLoadSegment space bytes v st =
     (let page = AlignDown (segment_address v) PAGE_SIZE;
          final = AlignDown (segment_address v + (memory_size v - 1)) PAGE_SIZE;
          flags = PAGE_ENTRY_USER;
          flags = (if segment_flags v AND ELF_SEGMENT_WRITE \<noteq> 0 then flags OR PAGE_ENTRY_WRITABLE else flags)
      in map_option (\<lambda>r. bind_outcome r (\<lambda>(st, placed).
           if \<not> placed then Inr (st, ELF_NO_MEMORY)
           else
             let im = loaded st;
                 im = (if lowest im = 0 \<or> segment_address v < lowest im then im\<lparr>lowest := segment_address v\<rparr> else im);
                 im = (if highest im < segment_address v + memory_size v
                       then im\<lparr>highest := segment_address v + memory_size v\<rparr> else im)
             in Inr (st\<lparr>loaded := im\<lparr>segments_loaded := segments_loaded im + 1\<rparr>\<rparr>, ELF_OK)))
         (PlacePages space bytes v flags page final st))"

subsection \<open>Loading\<close>

fun LoadSegmentsFrom ::
  "AddressSpace \<Rightarrow> u8 list \<Rightarrow> ElfProgramHeader list \<Rightarrow> placing_state \<Rightarrow> (placing_state \<times> ElfResult) outcome option" where
  "LoadSegmentsFrom space bytes [] st = Some (Inr (st, ELF_OK))"
| "LoadSegmentsFrom space bytes (v # vs) st =
     (if segment_type v \<noteq> ELF_SEGMENT_LOAD then LoadSegmentsFrom space bytes vs st
      else if memory_size v = 0 then LoadSegmentsFrom space bytes vs st
      else case ElfLoadSegment space bytes v st of
             Some (Inr (st, ELF_OK)) \<Rightarrow> LoadSegmentsFrom space bytes vs st
           | r \<Rightarrow> r)"

definition elf_refused :: "elf_state \<Rightarrow> elf_state" where
  "elf_refused e = e\<lparr>ElfRefusals := ElfRefusals e + 1\<rparr>"

definition ElfLoad ::
  "AddressSpace option \<Rightarrow> u8 list option \<Rightarrow> u64 \<Rightarrow> ElfImage option \<Rightarrow> elf_state \<Rightarrow> paging_state \<Rightarrow>
   (elf_state \<times> paging_state \<times> ElfImage option \<times> ElfResult) outcome option" where
  "ElfLoad space source n im e m =
     (case (space, im) of
        (Some s, Some i) \<Rightarrow>
          (let i = \<lparr>image_entry = 0, lowest = 0, highest = 0, segments_loaded = 0, pages_loaded = 0\<rparr>;
               (e, r) = ElfValidate source n e
           in if r \<noteq> ELF_OK then Some (Inr (elf_refused e, m, Some i, r))
              else map_option (\<lambda>r. bind_outcome r (\<lambda>(st, r).
                let i = loaded st; m = space_tables st
                in if r \<noteq> ELF_OK then Inr (elf_refused e, m, Some i, r)
                   else if header_entry (ElfLastHeader e) < lowest i \<or> highest i \<le> header_entry (ElfLastHeader e)
                   then Inr (elf_refused e, m, Some i, ELF_BAD_ADDRESS)
                   else Inr (e\<lparr>ElfLoads := ElfLoads e + 1\<rparr>, m,
                             Some (i\<lparr>image_entry := header_entry (ElfLastHeader e)\<rparr>), ELF_OK)))
                (LoadSegmentsFrom s (the source) (ElfSegments e)
                   \<lparr>space_tables = m, shared_page = 0, shared_frame = 0, loaded = i\<rparr>))
      | _ \<Rightarrow> Some (Inr (elf_refused e, m, im, ELF_MALFORMED)))"

end
