(* ===== verification/ElfJudgement.thy ===== *)
theory ElfJudgement
  imports ElfLoader
begin

text \<open>
  What an image has to be for \<open>ElfValidate\<close> of \<open>kernel/exec/elf.c\<close> to accept it, read as natural
  numbers, and the bytes its segments describe.
\<close>

definition loadable :: "ElfProgramHeader \<Rightarrow> bool" where
  "loadable v \<longleftrightarrow> segment_type v = ELF_SEGMENT_LOAD \<and> memory_size v \<noteq> 0"

definition first_byte :: "ElfProgramHeader \<Rightarrow> nat" where "first_byte v = unat (segment_address v)"
definition filled_to :: "ElfProgramHeader \<Rightarrow> nat" where "filled_to v = unat (segment_address v) + unat (segment_file_size v)"
definition end_byte :: "ElfProgramHeader \<Rightarrow> nat" where "end_byte v = unat (segment_address v) + unat (memory_size v)"

text \<open>The judgement of one segment against a file of \<open>n\<close> bytes.\<close>

definition sound_segment :: "nat \<Rightarrow> ElfProgramHeader \<Rightarrow> bool" where
  "sound_segment n v \<longleftrightarrow> unat (file_offset v) + unat (segment_file_size v) \<le> n \<and>
     filled_to v \<le> end_byte v \<and> 4096 \<le> first_byte v \<and> first_byte v < 2 ^ 47 \<and> end_byte v \<le> 2 ^ 47"

definition sound_segments :: "nat \<Rightarrow> ElfProgramHeader list \<Rightarrow> bool" where
  "sound_segments n vs \<longleftrightarrow> (\<forall>v \<in> set vs. segment_type v = ELF_SEGMENT_LOAD \<longrightarrow> sound_segment n v) \<and>
     sorted_wrt (\<lambda>v w. end_byte v \<le> first_byte w) (filter loadable vs)"

lemma sound_loadable: "sound_segments n vs \<Longrightarrow> v \<in> set vs \<Longrightarrow> loadable v \<Longrightarrow> sound_segment n v"
  by (simp add: sound_segments_def loadable_def)

lemma within_file_iff: "ElfRangeIsWithinFile a b n \<longleftrightarrow> unat a + unat b \<le> unat n"
  by (auto simp: ElfRangeIsWithinFile_def word_le_nat_alt unat_sub)

lemma within_user_space_iff:
  "ElfRangeIsWithinUserSpace a b \<longleftrightarrow> unat a < 2 ^ 47 \<and> unat a + unat b \<le> 2 ^ 47"
proof -
  have l: "unat SYSCALL_USER_LIMIT = 2 ^ 47" by (simp add: SYSCALL_USER_LIMIT_def)
  show ?thesis
  proof (cases "a < SYSCALL_USER_LIMIT")
    case True
    then have "unat (SYSCALL_USER_LIMIT - a) = 2 ^ 47 - unat a" "unat a < 2 ^ 47"
      using l by (simp_all add: word_less_nat_alt unat_sub word_le_nat_alt)
    moreover have "\<not> SYSCALL_USER_LIMIT \<le> a" using True by simp
    ultimately show ?thesis
      by (auto simp: ElfRangeIsWithinUserSpace_def word_le_nat_alt unat_eq_0)
  next
    case False
    then show ?thesis using l by (simp add: ElfRangeIsWithinUserSpace_def word_le_nat_alt not_less)
  qed
qed

lemma judged_iff:
  "ElfRangeIsWithinFile (file_offset v) (segment_file_size v) n \<and> \<not> memory_size v < segment_file_size v \<and>
   ElfRangeIsWithinUserSpace (segment_address v) (memory_size v) \<and> \<not> segment_address v < PAGE_SIZE \<longleftrightarrow> sound_segment (unat n) v"
  by (auto simp: sound_segment_def within_file_iff within_user_space_iff filled_to_def end_byte_def first_byte_def
    PAGE_SIZE_def word_less_nat_alt)

lemma judged_end: "sound_segment n v \<Longrightarrow> unat (segment_address v + memory_size v) = end_byte v"
  by (subst unat_add_lem [THEN iffD1]) (simp_all add: sound_segment_def end_byte_def)

lemma judged_segment:
  assumes "ElfRangeIsWithinFile (file_offset v) (segment_file_size v) n" "\<not> memory_size v < segment_file_size v"
    "ElfRangeIsWithinUserSpace (segment_address v) (memory_size v)" "\<not> segment_address v < PAGE_SIZE"
  shows "sound_segment (unat n) v" "unat (segment_address v + memory_size v) = end_byte v"
  using assms judged_iff [of v n] judged_end [of "unat n" v] by simp_all

text \<open>The program headers a walk reads, and what it asks of them.\<close>

definition header_at :: "u8 list \<Rightarrow> ElfHeader \<Rightarrow> nat \<Rightarrow> ElfProgramHeader" where
  "header_at bytes h index = ElfReadProgramHeader bytes
     (unat (program_header_offset h + word_of_nat index * ucast (program_header_size h)))"

definition admitted :: "nat \<Rightarrow> u64 option \<Rightarrow> ElfProgramHeader list \<Rightarrow> bool" where
  "admitted n previous vs \<longleftrightarrow> sound_segments n vs \<and> (\<forall>v \<in> set vs. segment_type v \<noteq> ELF_SEGMENT_INTERPRETER) \<and>
     (\<forall>e. previous = Some e \<longrightarrow> (\<forall>v \<in> set (filter loadable vs). unat e \<le> first_byte v)) \<and>
     (previous = None \<longrightarrow> filter loadable vs \<noteq> [])"

lemma ReadSegmentsFrom_admits:
  "admitted (unat n) previous (map (header_at bytes h) indices) \<Longrightarrow>
     ReadSegmentsFrom bytes n h previous indices = (map (header_at bytes h) indices, ELF_OK)"
proof (induction indices arbitrary: previous)
  case Nil
  then show ?case by (auto simp: admitted_def)
next
  case (Cons index indices)
  let ?v = "header_at bytes h index" and ?vs = "map (header_at bytes h) indices"
  have A: "admitted (unat n) previous (?v # ?vs)" using Cons.prems by simp
  note eq = ReadSegmentsFrom.simps(2) [of bytes n h previous index indices, unfolded Let_def, folded header_at_def]
  have I: "segment_type ?v \<noteq> ELF_SEGMENT_INTERPRETER" using A by (simp add: admitted_def)
  show ?case
  proof (cases "segment_type ?v = ELF_SEGMENT_LOAD")
    case False
    then have "admitted (unat n) previous ?vs" using A by (simp add: admitted_def sound_segments_def loadable_def)
    then show ?thesis using Cons.IH I False unfolding eq by simp
  next
    case type: True
    then have S: "sound_segment (unat n) ?v" using A by (simp add: admitted_def sound_segments_def)
    note J = S [folded judged_iff]
    show ?thesis
    proof (cases "memory_size ?v = 0")
      case True
      then have "admitted (unat n) previous ?vs" using A by (simp add: admitted_def sound_segments_def loadable_def)
      then show ?thesis using Cons.IH J True type unfolding eq by simp
    next
      case False
      then have l: "loadable ?v" using type by (simp add: loadable_def)
      then have "admitted (unat n) (Some (segment_address ?v + memory_size ?v)) ?vs"
        using A judged_end [OF S] by (simp add: admitted_def sound_segments_def)
      moreover have "\<not> (case previous of None \<Rightarrow> False | Some e \<Rightarrow> segment_address ?v < e)"
        using A l by (auto simp: admitted_def word_less_nat_alt first_byte_def split: option.splits)
      ultimately show ?thesis using Cons.IH J False type unfolding eq by simp
    qed
  qed
qed

lemma ReadSegmentsFrom_accepts:
  assumes "ReadSegmentsFrom bytes n h previous indices = (vs, ELF_OK)"
  shows "vs = map (header_at bytes h) indices \<and> admitted (unat n) previous vs"
  using assms
proof (induction indices arbitrary: previous vs)
  case Nil
  then show ?case by (auto simp: admitted_def sound_segments_def split: if_splits)
next
  case (Cons index indices)
  define v where "v = header_at bytes h index"
  note eq = ReadSegmentsFrom.simps(2) [of bytes n h previous index indices, unfolded Let_def, folded header_at_def v_def]
  obtain previous' ws where ws: "vs = v # ws" "ReadSegmentsFrom bytes n h previous' indices = (ws, ELF_OK)"
    "segment_type v \<noteq> ELF_SEGMENT_INTERPRETER" "segment_type v = ELF_SEGMENT_LOAD \<longrightarrow> sound_segment (unat n) v"
    "if loadable v then (\<forall>e. previous = Some e \<longrightarrow> unat e \<le> first_byte v) \<and>
       previous' = Some (segment_address v + memory_size v) \<and> unat (segment_address v + memory_size v) = end_byte v
     else previous' = previous"
    using Cons.prems judged_segment [of v n] unfolding eq
    by (auto simp: first_byte_def loadable_def word_less_nat_alt not_less ELF_SEGMENT_LOAD_def ELF_SEGMENT_INTERPRETER_def
        apfst_def map_prod_def split: if_splits option.splits prod.splits)
  note IH = Cons.IH [OF ws(2)]
  have "unat e \<le> first_byte w" if "loadable v" "previous = Some e" "w \<in> set ws" "loadable w" for e w
    using IH ws(4,5) that by (fastforce simp: admitted_def sound_segment_def first_byte_def end_byte_def filled_to_def loadable_def)
  then show ?case
    using IH ws(1,3-) by (cases "loadable v") (auto simp: admitted_def sound_segments_def loadable_def v_def)
qed

text \<open>The image that is accepted.\<close>

definition program_headers :: "u8 list \<Rightarrow> ElfHeader \<Rightarrow> ElfProgramHeader list" where
  "program_headers bytes h = map (\<lambda>i. ElfReadProgramHeader bytes (unat (program_header_offset h) + 56 * i))
     [0..<unat (program_header_count h)]"

definition well_formed_image :: "u8 list \<Rightarrow> nat \<Rightarrow> ElfHeader \<Rightarrow> bool" where
  "well_formed_image bytes n h \<longleftrightarrow> header_size h = 64 \<and> program_header_size h = 56 \<and>
     1 \<le> program_header_count h \<and> program_header_count h \<le> 16 \<and>
     unat (program_header_offset h) + 56 * unat (program_header_count h) \<le> n \<and>
     sound_segments n (program_headers bytes h) \<and> (\<exists>v \<in> set (program_headers bytes h). loadable v) \<and>
     (\<forall>v \<in> set (program_headers bytes h). segment_type v \<noteq> ELF_SEGMENT_INTERPRETER)"

lemma ElfDecode_accepts: "ElfDecode source n \<noteq> Inl ELF_OK" "ElfDecode source n = Inr h \<Longrightarrow> 64 \<le> unat n"
  by (auto simp: ElfDecode_def Let_def ELF_HEADER_BYTES_def word_less_nat_alt split: option.splits if_splits)

lemma unat_u16_u64: "unat (ucast (a :: u16) :: u64) = unat a"
  using unat_u16 [of a] by (simp add: unsigned_ucast_eq take_bit_nat_eq_self)

lemma u16_is: "ucast (a :: u16) = (word_of_nat k :: u64) \<longleftrightarrow> a = word_of_nat k" if "k < 65536"
proof -
  have "unat (word_of_nat k :: u64) = k" "unat (word_of_nat k :: u16) = k"
    using that by (simp_all add: unat_word_of_nat unsigned_of_nat take_bit_nat_eq_self)
  then show ?thesis by (metis unat_u16_u64 word_unat_eq_iff)
qed

lemma ElfReadSegments_accepts:
  "snd (ElfReadSegments bytes n h e) = ELF_OK \<longleftrightarrow> well_formed_image bytes (unat n) h"
  "snd (ElfReadSegments bytes n h e) = ELF_OK \<Longrightarrow>
     fst (ElfReadSegments bytes n h e) = e\<lparr>ElfSegments := program_headers bytes h\<rparr>"
proof -
  let ?range = "ElfRangeIsWithinFile (program_header_offset h) (ucast (program_header_count h) * ucast (program_header_size h)) n"
  let ?pre = "ucast (header_size h) = ELF_HEADER_BYTES \<and> ucast (program_header_size h) = ELF_PROGRAM_HEADER_BYTES \<and>
    program_header_count h \<noteq> 0 \<and> \<not> ELF_SEGMENT_MAXIMUM < program_header_count h \<and> ?range"
  have pre: "?pre \<longleftrightarrow> header_size h = 64 \<and> program_header_size h = 56 \<and> 1 \<le> program_header_count h \<and>
      program_header_count h \<le> 16 \<and> unat (program_header_offset h) + 56 * unat (program_header_count h) \<le> unat n" (is "_ \<longleftrightarrow> ?P")
  proof -
    have sizes: "ucast (header_size h) = ELF_HEADER_BYTES \<longleftrightarrow> header_size h = 64"
      "ucast (program_header_size h) = ELF_PROGRAM_HEADER_BYTES \<longleftrightarrow> program_header_size h = 56"
      using u16_is [of 64 "header_size h"] u16_is [of 56 "program_header_size h"]
      by (simp_all add: ELF_HEADER_BYTES_def ELF_PROGRAM_HEADER_BYTES_def)
    have count: "program_header_count h \<noteq> 0 \<and> \<not> ELF_SEGMENT_MAXIMUM < program_header_count h \<longleftrightarrow>
        1 \<le> program_header_count h \<and> program_header_count h \<le> 16"
      by (auto simp: ELF_SEGMENT_MAXIMUM_def not_less word_le_nat_alt unat_eq_0 [symmetric])
    have "unat (ucast (program_header_count h) * 56 :: u64) = 56 * unat (program_header_count h)"
      using unat_u16 [of "program_header_count h"]
      by (subst unat_mult_lem [THEN iffD1]) (simp_all add: unat_u16_u64)
    then have "?range \<longleftrightarrow> unat (program_header_offset h) + 56 * unat (program_header_count h) \<le> unat n"
      if "ucast (program_header_size h) = ELF_PROGRAM_HEADER_BYTES"
      unfolding that by (simp add: within_file_iff ELF_PROGRAM_HEADER_BYTES_def)
    then show ?thesis using sizes count by blast
  qed
  have heads: "map (header_at bytes h) [0..<unat (program_header_count h)] = program_headers bytes h" if ?P
  proof -
    have "unat (program_header_offset h + word_of_nat i * ucast (program_header_size h)) = unat (program_header_offset h) + 56 * i"
      if i: "i < unat (program_header_count h)" for i
    proof -
      have "ucast (program_header_size h) = (56 :: u64)"
        using \<open>?P\<close> u16_is [of 56 "program_header_size h"] by simp
      moreover have "unat (program_header_offset h) + 56 * i < 2 ^ 64"
        using \<open>?P\<close> i unat_u64 [of n] by linarith
      ultimately show ?thesis by (simp add: unat_word_ariths unat_word_of_nat mult.commute)
    qed
    then show ?thesis by (simp add: program_headers_def header_at_def)
  qed
  have run: "?pre \<Longrightarrow> ElfReadSegments bytes n h e =
      (e\<lparr>ElfSegments := fst (ReadSegmentsFrom bytes n h None [0..<unat (program_header_count h)])\<rparr>,
       snd (ReadSegmentsFrom bytes n h None [0..<unat (program_header_count h)]))"
    "\<not> ?pre \<Longrightarrow> snd (ElfReadSegments bytes n h e) \<noteq> ELF_OK"
    by (auto simp: ElfReadSegments_def Let_def split: prod.split)
  have wf: "well_formed_image bytes (unat n) h \<longleftrightarrow> ?P \<and> admitted (unat n) None (program_headers bytes h)"
    by (auto simp: well_formed_image_def admitted_def filter_empty_conv)
  have result: "ElfReadSegments bytes n h e = (e\<lparr>ElfSegments := program_headers bytes h\<rparr>, ELF_OK)"
    if "well_formed_image bytes (unat n) h"
  proof -
    have P: ?P using that wf by blast
    have "ReadSegmentsFrom bytes n h None [0..<unat (program_header_count h)] = (program_headers bytes h, ELF_OK)"
      using ReadSegmentsFrom_admits [of n None bytes h "[0..<unat (program_header_count h)]"] that wf heads [OF P] by simp
    then show ?thesis using run(1) [OF pre [THEN iffD2, OF P]] by simp
  qed
  have conv: "well_formed_image bytes (unat n) h" if ok: "snd (ElfReadSegments bytes n h e) = ELF_OK"
  proof -
    have P: ?P using ok run(2) pre by blast
    obtain vs where "ReadSegmentsFrom bytes n h None [0..<unat (program_header_count h)] = (vs, ELF_OK)"
      using ok run(1) [OF pre [THEN iffD2, OF P]] by (metis prod.collapse snd_conv)
    from ReadSegmentsFrom_accepts [OF this] show ?thesis using P heads [OF P] wf by metis
  qed
  show "snd (ElfReadSegments bytes n h e) = ELF_OK \<longleftrightarrow> well_formed_image bytes (unat n) h"
    using result conv by auto
  show "snd (ElfReadSegments bytes n h e) = ELF_OK \<Longrightarrow>
     fst (ElfReadSegments bytes n h e) = e\<lparr>ElfSegments := program_headers bytes h\<rparr>"
    using result conv by simp
qed

lemma ElfValidate_accepts:
  assumes "ElfValidate (Some bytes) n e = (e', ELF_OK)"
  shows "ElfDecode (Some bytes) n = Inr (ElfLastHeader e')" "well_formed_image bytes (unat n) (ElfLastHeader e')"
    "ElfSegments e' = program_headers bytes (ElfLastHeader e')" "sound_segments (unat n) (ElfSegments e')"
proof -
  obtain h where h: "ElfDecode (Some bytes) n = Inr h"
    "ElfReadSegments bytes n h (e\<lparr>ElfLastHeader := h, ElfHaveHeader := True\<rparr>) = (e', ELF_OK)"
    using assms ElfDecode_accepts(1) [of "Some bytes" n] by (cases "ElfDecode (Some bytes) n") (auto simp: ElfValidate_def)
  have "well_formed_image bytes (unat n) h" "e' = e\<lparr>ElfLastHeader := h, ElfHaveHeader := True, ElfSegments := program_headers bytes h\<rparr>"
    using ElfReadSegments_accepts [of bytes n h "e\<lparr>ElfLastHeader := h, ElfHaveHeader := True\<rparr>"] h(2) by simp_all
  then show "ElfDecode (Some bytes) n = Inr (ElfLastHeader e')" "well_formed_image bytes (unat n) (ElfLastHeader e')"
    "ElfSegments e' = program_headers bytes (ElfLastHeader e')" "sound_segments (unat n) (ElfSegments e')"
    using h(1) by (simp_all add: well_formed_image_def)
qed

subsection \<open>The bytes an image describes\<close>

definition holds_byte :: "ElfProgramHeader \<Rightarrow> nat \<Rightarrow> bool" where
  "holds_byte v x \<longleftrightarrow> loadable v \<and> first_byte v \<le> x \<and> x < filled_to v"

text \<open>The byte of the image at the address \<open>x\<close>: the file's where a segment has contents there, otherwise zero.\<close>

definition image_byte :: "u8 list \<Rightarrow> ElfProgramHeader list \<Rightarrow> nat \<Rightarrow> u8" where
  "image_byte bytes vs x =
     (case find (\<lambda>v. holds_byte v x) vs of
        None \<Rightarrow> 0
      | Some v \<Rightarrow> bytes ! (unat (file_offset v) + (x - first_byte v)))"

definition on_page :: "ElfProgramHeader \<Rightarrow> nat \<Rightarrow> bool" where
  "on_page v p \<longleftrightarrow> loadable v \<and> first_byte v div 4096 \<le> p \<and> p * 4096 < end_byte v"

definition page_writable :: "ElfProgramHeader list \<Rightarrow> nat \<Rightarrow> bool" where
  "page_writable vs p \<longleftrightarrow> (\<exists>v \<in> set vs. on_page v p \<and> segment_flags v AND ELF_SEGMENT_WRITE \<noteq> 0)"

lemma image_byte_none: "(\<And>v. v \<in> set vs \<Longrightarrow> \<not> holds_byte v x) \<Longrightarrow> image_byte bytes vs x = 0"
  by (auto simp: image_byte_def find_Some_iff split: option.split)

lemma segments_apart:
  assumes "sorted_wrt (\<lambda>v w. end_byte v \<le> first_byte w) (filter loadable (us @ v # ws))" "loadable v"
  shows "\<And>u. u \<in> set us \<Longrightarrow> loadable u \<Longrightarrow> end_byte u \<le> first_byte v"
    "\<And>w. w \<in> set ws \<Longrightarrow> loadable w \<Longrightarrow> end_byte v \<le> first_byte w"
  using assms by (auto simp: sorted_wrt_append)

lemma loadable_size: "loadable v \<Longrightarrow> first_byte v < end_byte v"
  by (simp add: loadable_def first_byte_def end_byte_def unat_gt_0)

text \<open>A segment determines the image from its first byte to its end, and up to the next.\<close>

lemma image_byte_segment:
  assumes S: "sound_segments n (us @ v # ws)" and v: "loadable v" and x: "first_byte v \<le> x" "x < end_byte v"
  shows "image_byte bytes (us @ v # ws) x =
    (if x < filled_to v then bytes ! (unat (file_offset v) + (x - first_byte v)) else 0)"
proof -
  note apart = segments_apart [OF S [unfolded sound_segments_def, THEN conjunct2] v]
  note sound = sound_loadable [OF S]
  have others: "\<not> holds_byte w x" if "w \<in> set us \<union> set ws" for w
    using apart [of w] that sound [of w] x loadable_size [OF v] by (auto simp: holds_byte_def sound_segment_def)
  show ?thesis
  proof (cases "x < filled_to v")
    case True
    have "find (\<lambda>v. holds_byte v x) (us @ v # ws) = Some v"
      using others True v x by (induction us) (auto simp: holds_byte_def)
    with True show ?thesis by (simp add: image_byte_def)
  next
    case False
    then have "image_byte bytes (us @ v # ws) x = 0"
      using others by (intro image_byte_none) (auto simp: holds_byte_def)
    with False show ?thesis by simp
  qed
qed

lemma image_byte_gap:
  assumes S: "sound_segments n (us @ v # ws)" and v: "loadable v"
    and x: "x < first_byte v" "\<And>u. u \<in> set us \<Longrightarrow> loadable u \<Longrightarrow> end_byte u \<le> x"
  shows "image_byte bytes (us @ v # ws) x = 0"
proof (rule image_byte_none)
  note apart = segments_apart [OF S [unfolded sound_segments_def, THEN conjunct2] v]
  fix w assume w: "w \<in> set (us @ v # ws)"
  show "\<not> holds_byte w x"
    using w x apart(2) [of w] loadable_size [OF v] sound_loadable [OF S w] by (fastforce simp: holds_byte_def sound_segment_def)
qed

end
