(* ===== verification/ElfPages.thy ===== *)
theory ElfPages
  imports ElfJudgement
begin

text \<open>
  The pages the loader (\<open>kernel/exec/elf.c\<close>) gives to a space: the bytes written into a frame, and
  an invariant over the state before the load, namely which frames are the load's own, what they
  hold, and what the space's walk finds.
\<close>

subsection \<open>The bytes of a frame\<close>

lemma drop_bit_byte:
  fixes w :: u64
  assumes "i < 8" "j < 8"
  shows "ucast (drop_bit (8 * i) ((w AND NOT (push_bit (8 * j) 0xFF)) OR push_bit (8 * j) (ucast (b :: u8)))) =
    (if i = j then b else ucast (drop_bit (8 * i) w) :: u8)"
proof (rule bit_word_eqI)
  fix n :: nat assume "n < LENGTH(8)"
  then have n: "n < 8" by simp
  have m: "(0xFF :: u64) = mask 8" by (simp add: mask_eq_exp_minus_1)
  have lt: "8 * i + n < 64" "8 * j \<le> 8 * i + n \<and> 8 * i + n - 8 * j < 8 \<longleftrightarrow> i = j" using n assms by auto
  have "\<not> bit b k" if "8 \<le> k" for k using that by (auto dest: bit_imp_le_length)
  then show "bit (ucast (drop_bit (8 * i) ((w AND NOT (push_bit (8 * j) 0xFF)) OR push_bit (8 * j) (ucast b))) :: u8) n =
      bit (if i = j then b else ucast (drop_bit (8 * i) w)) n"
    using n lt unfolding m
    by (auto simp: bit_ucast_iff bit_drop_bit_eq bit_or_iff bit_and_iff bit_not_iff bit_push_bit_iff bit_mask_iff)
qed

lemma frame_byte_StoreByte:
  "frame_byte (physical (StoreByte f k b m) f) j = (if j = k then b else frame_byte (physical m f) j)"
proof (cases "j div 8 = k div 8")
  case True
  then have "j mod 8 = k mod 8 \<longleftrightarrow> j = k" by (metis div_mult_mod_eq)
  then show ?thesis
    using True drop_bit_byte [of "j mod 8" "k mod 8" "physical m f (k div 8)" b]
    by (simp add: frame_byte_def StoreByte_def store_entry_def)
next
  case False
  then show ?thesis by (auto simp: frame_byte_def StoreByte_def store_entry_def)
qed

lemma StoreBytes:
  "\<exists>w. fold (\<lambda>i. StoreByte f (s i) (g i)) is m = m\<lparr>physical := (physical m)(f := w)\<rparr>"
proof (induction "is" arbitrary: m)
  case Nil
  then show ?case by (intro exI [of _ "physical m f"]) simp
next
  case (Cons i "is")
  obtain w where w: "StoreByte f (s i) (g i) m = m\<lparr>physical := (physical m)(f := w)\<rparr>"
    by (auto simp: StoreByte_def store_entry_def)
  let ?m = "m\<lparr>physical := (physical m)(f := w)\<rparr>"
  obtain w' where "fold (\<lambda>i. StoreByte f (s i) (g i)) is ?m = ?m\<lparr>physical := (physical ?m)(f := w')\<rparr>"
    using Cons.IH by blast
  moreover have "?m\<lparr>physical := (physical ?m)(f := w')\<rparr> = m\<lparr>physical := (physical m)(f := w')\<rparr>"
    by (cases m) (simp add: fun_eq_iff)
  ultimately show ?case by (intro exI [of _ w']) (simp only: fold_simps w)
qed

lemma StoreBytes_bytes:
  assumes "\<And>i. i < c \<Longrightarrow> s i = a + i"
  shows "\<exists>w. fold (\<lambda>i. StoreByte f (s i) (g i)) [0..<c] m = m\<lparr>physical := (physical m)(f := w)\<rparr> \<and>
    (\<forall>j. frame_byte w j = (if a \<le> j \<and> j < a + c then g (j - a) else frame_byte (physical m f) j))"
proof -
  have "frame_byte (physical (fold (\<lambda>i. StoreByte f (s i) (g i)) [0..<c] m) f) j =
      (if a \<le> j \<and> j < a + c then g (j - a) else frame_byte (physical m f) j)" for j
    using assms
  proof (induction c)
    case (Suc c)
    then have "s c = a + c" by simp
    with Suc show ?case by (auto simp: frame_byte_StoreByte)
  qed auto
  then show ?thesis using StoreBytes [of f s g "[0..<c]" m] by fastforce
qed

lemma ClearFrame_bytes:
  "\<exists>w. ClearFrame f m = m\<lparr>physical := (physical m)(f := w)\<rparr> \<and> (\<forall>j < 4096. frame_byte w j = 0)"
proof -
  obtain w where "ClearFrame f m = m\<lparr>physical := (physical m)(f := w)\<rparr>"
    "\<forall>j. frame_byte w j = (if 0 \<le> j \<and> j < 0 + unat PAGE_SIZE then 0 else frame_byte (physical m f) j)"
    using StoreBytes_bytes [of "unat PAGE_SIZE" "\<lambda>i. i" 0 f "\<lambda>_. 0" m] by (auto simp: ClearFrame_def)
  then show ?thesis by (intro exI [of _ w]) (simp add: PAGE_SIZE_def)
qed

subsection \<open>Pages by their number\<close>

definition page_number :: "u64 \<Rightarrow> nat" where
  "page_number va = unat (take_bit 36 (drop_bit 12 va))"

lemma level_index_take_bits:
  "k \<in> {1, 2, 3, 4} \<Longrightarrow> level_index k va = unat (take_bit 9 (drop_bit (12 + 9 * (k - 1)) va))"
proof -
  have m: "(0x1FF :: u64) = mask 9" by (simp add: mask_eq_exp_minus_1)
  assume "k \<in> {1, 2, 3, 4}"
  then show ?thesis
    by (auto simp: level_index_def PagingLevel4Index_def PagingLevel3Index_def PagingLevel2Index_def
        PagingLevel1Index_def m take_bit_eq_mask)
qed

lemma same_page_number: "same_page va va' \<longleftrightarrow> page_number va = page_number va'"
proof
  assume S: "same_page va va'"
  have "take_bit 36 (drop_bit 12 va) = take_bit 36 (drop_bit 12 va')"
  proof (rule bit_word_eqI)
    fix n :: nat
    show "bit (take_bit 36 (drop_bit 12 va)) n = bit (take_bit 36 (drop_bit 12 va')) n"
    proof (cases "n < 36")
      case True
      define k where "k = n div 9 + 1"
      have k: "k \<in> {1, 2, 3, 4}" using True by (auto simp: k_def)
      then have "take_bit 9 (drop_bit (12 + 9 * (k - 1)) va) = take_bit 9 (drop_bit (12 + 9 * (k - 1)) va')"
        using S level_index_take_bits [OF k] unfolding same_page_def by (metis word_unat_eq_iff)
      then have "bit (take_bit 9 (drop_bit (12 + 9 * (k - 1)) va)) (n mod 9) =
          bit (take_bit 9 (drop_bit (12 + 9 * (k - 1)) va')) (n mod 9)" by simp
      moreover have "9 * (k - Suc 0) + n mod 9 = n" by (simp add: k_def)
      ultimately show ?thesis using True by (simp add: bit_take_bit_iff bit_drop_bit_eq add.assoc)
    qed (simp add: bit_take_bit_iff)
  qed
  then show "page_number va = page_number va'" by (simp add: page_number_def)
next
  assume "page_number va = page_number va'"
  then have E: "take_bit 36 (drop_bit 12 va) = take_bit 36 (drop_bit 12 va')"
    by (simp add: page_number_def word_unat_eq_iff)
  show "same_page va va'"
    unfolding same_page_def
  proof
    fix k :: nat assume k: "k \<in> {1, 2, 3, 4}"
    have "bit (take_bit 9 (drop_bit (12 + 9 * (k - 1)) va)) n = bit (take_bit 9 (drop_bit (12 + 9 * (k - 1)) va')) n" for n
    proof (cases "n < 9")
      case True
      then have "9 * (k - 1) + n < 36" using k by auto
      moreover have "bit (take_bit 36 (drop_bit 12 va)) (9 * (k - 1) + n) = bit (take_bit 36 (drop_bit 12 va')) (9 * (k - 1) + n)"
        by (simp only: E)
      ultimately show ?thesis by (simp add: bit_take_bit_iff bit_drop_bit_eq add.assoc)
    qed (simp add: bit_take_bit_iff)
    then have "take_bit 9 (drop_bit (12 + 9 * (k - 1)) va) = take_bit 9 (drop_bit (12 + 9 * (k - 1)) va')"
      by (blast intro: bit_word_eqI)
    then show "level_index k va = level_index k va'" using level_index_take_bits [OF k] by simp
  qed
qed

lemma page_number_user:
  assumes "unat va < 2 ^ 48"
  shows "page_number va = unat va div 4096"
proof -
  have "unat (drop_bit 12 va) < 2 ^ 36" using assms by (simp add: unat_drop12 div_less_iff_less_mult)
  then have "unat (take_bit 36 (drop_bit 12 va)) = unat (drop_bit 12 va)"
    by (subst unsigned_take_bit_eq) (simp_all add: take_bit_nat_eq_self)
  then show ?thesis by (simp add: page_number_def unat_drop12)
qed

lemma page_number_page: "p < 2 ^ 35 \<Longrightarrow> page_number (page_address p) = p"
  by (subst page_number_user) (simp_all add: unat_page_address)

subsection \<open>Frames of the load\<close>

text \<open>A frame that was free at the start and has one holder now.\<close>

definition owned :: "paging_state \<Rightarrow> paging_state \<Rightarrow> (u64 \<Rightarrow> nat) \<Rightarrow> u64 \<Rightarrow> bool" where
  "owned m0 m lv f \<longleftrightarrow> data_frame m lv f \<and> frame_refs (frames m0) (FrameIndexOf f) = 0 \<and>
     frame_refs (frames m) (FrameIndexOf f) = 1"

text \<open>The hierarchy grows, \<open>W\<close> is what its walk finds, and everybody else's frames are as they were.\<close>

definition keeps ::
  "paging_state \<Rightarrow> (u64 \<Rightarrow> nat) \<Rightarrow> u64 \<Rightarrow> (u64 \<Rightarrow> (nat \<times> u64) option) \<Rightarrow> paging_state \<Rightarrow> (u64 \<Rightarrow> nat) \<Rightarrow> bool" where
  "keeps m0 lv0 root W m lv \<longleftrightarrow> hierarchy m lv root \<and> (\<forall>u. lv0 u \<noteq> 0 \<longrightarrow> lv u = lv0 u) \<and>
     (\<forall>va. walk (physical m) va 4 root = W va) \<and>
     (\<forall>a. data_frame m0 lv0 a \<longrightarrow> data_frame m lv a \<and> physical m a = physical m0 a) \<and>
     (\<forall>i. 0 < frame_refs (frames m0) i \<longrightarrow> frame_refs (frames m) i = frame_refs (frames m0) i)"

lemma keeps_start: "hierarchy m lv root \<Longrightarrow> keeps m lv root (\<lambda>va. walk (physical m) va 4 root) m lv"
  by (simp add: keeps_def)

lemma keeps_write:
  assumes K: "keeps m0 lv0 root W m lv" and f: "owned m0 m lv f"
  shows "keeps m0 lv0 root W (m\<lparr>physical := (physical m)(f := w)\<rparr>) lv"
    "owned m0 (m\<lparr>physical := (physical m)(f := w)\<rparr>) lv g = owned m0 m lv g"
proof -
  let ?m = "m\<lparr>physical := (physical m)(f := w)\<rparr>"
  have lf: "lv f = 0" using f by (simp add: owned_def data_frame_def)
  have same: "physical ?m u = physical m u" if "lv u \<noteq> 0" for u using that lf by auto
  have T: "tree (physical m) lv root" using K by (simp add: keeps_def hierarchy_def)
  have "tree (physical ?m) lv root"
    using T same unfolding tree_def by (metis not_numeral_le_zero)
  moreover have "walk (physical ?m) va 4 root = walk (physical m) va 4 root" for va
    using walk_tables_only [OF T, of "physical ?m" root 4 va] same tree_root [OF T] by simp
  moreover have "f \<noteq> a" if "data_frame m0 lv0 a" for a
    using that f by (auto simp: owned_def data_frame_def)
  ultimately show "keeps m0 lv0 root W ?m lv"
    using K by (auto simp: keeps_def hierarchy_def tables_held_def data_frame_def)
  show "owned m0 ?m lv g = owned m0 m lv g" by (simp add: owned_def data_frame_def)
qed

lemma keeps_allocate:
  assumes K: "keeps m0 lv0 root W m lv" and run: "FrameAllocate (frames m) = (pool, f)" and got: "f \<noteq> 0"
  shows "keeps m0 lv0 root W (m\<lparr>frames := pool\<rparr>) lv" "owned m0 (m\<lparr>frames := pool\<rparr>) lv f"
    "owned m0 m lv g \<Longrightarrow> owned m0 (m\<lparr>frames := pool\<rparr>) lv g \<and> g \<noteq> f"
proof -
  have H: "hierarchy m lv root" using K by (simp add: keeps_def)
  have I: "pool_ready pool \<and> frame_valid f \<and> frame_refs (frames m) (FrameIndexOf f) = 0 \<and>
      frame_refs pool = (frame_refs (frames m))(FrameIndexOf f := 1)"
    using pmm.issued [of "frames m" "FrameAddressOf (FrameCount (frames m))" pool f] H run got
    by (simp add: hierarchy_def FrameAllocate_def FRAME_ALLOCATION_FAILED_def)
  have "lv f = 0" using H I by (auto simp: hierarchy_def tables_held_def)
  moreover have "frame_refs (frames m0) (FrameIndexOf f) = 0"
    using K I unfolding keeps_def by (metis neq0_conv)
  ultimately show "owned m0 (m\<lparr>frames := pool\<rparr>) lv f" using I by (simp add: owned_def data_frame_def)
  show "keeps m0 lv0 root W (m\<lparr>frames := pool\<rparr>) lv"
    using K I by (auto simp: keeps_def hierarchy_def tables_held_def data_frame_def)
  show "owned m0 m lv g \<Longrightarrow> owned m0 (m\<lparr>frames := pool\<rparr>) lv g \<and> g \<noteq> f"
    using I by (auto simp: owned_def data_frame_def)
qed

lemma keeps_map:
  assumes K: "keeps m0 lv0 root W m lv" and small: "small_path m root va" and s: "space_root s = root"
    and run: "AddressSpaceMapPage s va f flags m = Inr m'"
  obtains lv' where
    "keeps m0 lv0 root (\<lambda>a. if same_page va a then Some (1, leaf_entry f flags) else W a) m' lv'"
    "\<And>g. owned m0 m lv g \<Longrightarrow> owned m0 m' lv' g \<and> physical m' g = physical m g"
proof -
  have H: "hierarchy m lv root" using K by (simp add: keeps_def)
  obtain m1 where 1: "PagingMapPage root va f flags m = Inr m1"
    "m' = m1 \<or> m' = m1\<lparr>invalidated := va # invalidated m1\<rparr>"
    using run s by (auto simp: AddressSpaceMapPage_def PagingMapPageIn_def bind_outcome_Inr_iff PagingInvalidate_Inr
        split: if_splits)
  obtain lv' where M: "mapped m lv root va f flags m1 lv'" by (rule PagingMapPage_effect [OF H small 1(1)])
  have refs: "frame_refs (frames m1) i = frame_refs (frames m) i" if "0 < frame_refs (frames m) i" for i
    using M that by (simp add: mapped_def)
  have "keeps m0 lv0 root (\<lambda>a. if same_page va a then Some (1, leaf_entry f flags) else W a) m1 lv'"
    using M K refs unfolding keeps_def mapped_def by (smt (verit))
  moreover have "owned m0 m1 lv' g \<and> physical m1 g = physical m g" if "owned m0 m lv g" for g
    using M that refs by (auto simp: mapped_def owned_def)
  ultimately show thesis
    using 1(2) by (intro that [of lv']) (auto simp: keeps_def owned_def data_frame_def)
qed

subsection \<open>A turn of the loop over the pages\<close>

text \<open>What the walk finds where \<open>F\<close> gives pages their frames and \<open>fl\<close> their flags.\<close>

definition walks :: "paging_state \<Rightarrow> u64 \<Rightarrow> (nat \<Rightarrow> u64 option) \<Rightarrow> (nat \<Rightarrow> u64) \<Rightarrow> u64 \<Rightarrow> (nat \<times> u64) option" where
  "walks m0 root F fl va =
     (case F (page_number va) of
        Some f \<Rightarrow> Some (1, leaf_entry f (fl (page_number va)))
      | None \<Rightarrow> walk (physical m0) va 4 root)"

definition filled ::
  "paging_state \<Rightarrow> (nat \<Rightarrow> u64 option) \<Rightarrow> (nat \<Rightarrow> nat \<Rightarrow> u8) \<Rightarrow> paging_state \<Rightarrow> (u64 \<Rightarrow> nat) \<Rightarrow> bool" where
  "filled m0 F K m lv \<longleftrightarrow> inj_on F (dom F) \<and>
     (\<forall>p f. F p = Some f \<longrightarrow> owned m0 m lv f \<and> (\<forall>k < 4096. frame_byte (physical m f) k = K p k))"

text \<open>Every user address is beneath no large page.\<close>

definition small_user :: "paging_state \<Rightarrow> u64 \<Rightarrow> bool" where
  "small_user m root \<longleftrightarrow> (\<forall>va. va < SYSCALL_USER_LIMIT \<longrightarrow> small_path m root va)"

lemma keeps_small:
  assumes "keeps m0 lv0 root (walks m0 root F fl) m lv" "small_user m0 root" "va < SYSCALL_USER_LIMIT"
  shows "small_path m root va"
  using assms by (auto simp: keeps_def walks_def small_path_def small_user_def split: option.splits)

text \<open>The bytes of the file that fall upon the page \<open>p\<close>.\<close>

definition file_part :: "u8 list \<Rightarrow> ElfProgramHeader \<Rightarrow> nat \<Rightarrow> (nat \<Rightarrow> u8) \<Rightarrow> nat \<Rightarrow> u8" where
  "file_part bytes v p old k =
     (if first_byte v \<le> p * 4096 + k \<and> p * 4096 + k < filled_to v
      then bytes ! (unat (file_offset v) + (p * 4096 + k - first_byte v)) else old k)"

lemma unat_monus: "unat (if b < a then a - b else 0) = unat a - unat b" for a b :: u64
  by (auto simp: unat_sub word_less_nat_alt word_le_nat_alt)

lemma unat_page_within:
  assumes "a \<le> 4096"
  shows "unat (PAGE_SIZE - a) = 4096 - unat a"
  using assms by (simp add: PAGE_SIZE_def unat_sub)

lemma part_range:
  fixes a z p k :: nat
  assumes "a < (p + 1) * 4096" "k < 4096"
  shows "a - p * 4096 \<le> k \<and> k < a - p * 4096 + min (z - (p * 4096 - a)) (4096 - (a - p * 4096)) \<longleftrightarrow>
    a \<le> p * 4096 + k \<and> p * 4096 + k < a + z"
proof (cases "a \<le> p * 4096")
  case True
  then obtain d where "p * 4096 = a + d" by (metis le_Suc_ex)
  then show ?thesis using assms by auto
next
  case False
  then obtain d where "a = p * 4096 + d" by (metis le_Suc_ex nat_le_linear)
  then show ?thesis using assms by auto
qed

lemma fill_page:
  assumes v: "sound_segment n v" "n < 2 ^ 64" and p: "first_byte v div 4096 \<le> p" "p < 2 ^ 35"
  shows "\<exists>w. FillPage bytes v (page_address p) f m = m\<lparr>physical := (physical m)(f := w)\<rparr> \<and>
    (\<forall>k < 4096. frame_byte w k = file_part bytes v p (frame_byte (physical m f)) k)"
proof -
  define page where "page = page_address p"
  have page: "unat page = p * 4096" using p(2) by (simp add: page_def unat_page_address)
  define within where "within = (if segment_address v < page then page - segment_address v else 0)"
  define start where "start = (if segment_address v < page then 0 else segment_address v - page)"
  define copy where "copy = (let c = segment_file_size v - within in if PAGE_SIZE - start < c then PAGE_SIZE - start else c)"
  have lt: "first_byte v < (p + 1) * 4096" using p(1) by (simp add: div_page_le)
  have W: "unat within = p * 4096 - first_byte v"
    unfolding within_def unat_monus by (simp add: page first_byte_def)
  have "start = (if page < segment_address v then segment_address v - page else 0)"
    by (auto simp: start_def)
  then have S: "unat start = first_byte v - p * 4096"
    using unat_monus [of page "segment_address v"] by (simp add: page first_byte_def)
  have S4: "unat (PAGE_SIZE - start) = 4096 - unat start"
    by (rule unat_page_within) (use S lt in \<open>simp add: word_le_nat_alt\<close>)
  show ?thesis
  proof (cases "within < segment_file_size v")
    case True
    then have "unat (segment_file_size v - within) = unat (segment_file_size v) - unat within"
      by (simp add: unat_sub word_less_nat_alt word_le_nat_alt)
    then have C: "unat copy = min (unat (segment_file_size v) - unat within) (4096 - unat start)"
      using S4 by (auto simp: copy_def Let_def word_less_nat_alt)
    have at: "unat (start + word_of_nat i) = unat start + i" if "i < unat copy" for i
    proof (rule unat_offset)
      have "i < 4096 - unat start" using that C by simp
      then have "unat start + i < 4096" by linarith
      then show "unat start + i < 2 ^ 64" by simp
    qed
    have off: "unat (file_offset v + within + word_of_nat i) = unat (file_offset v) + unat within + i" if "i < unat copy" for i
    proof -
      have "unat (file_offset v) + unat within + i < 2 ^ 64" using that C v by (auto simp: sound_segment_def)
      then show ?thesis by (simp add: unat_word_ariths unat_word_of_nat)
    qed
    obtain w where w: "fold (\<lambda>i. StoreByte f (unat (start + word_of_nat i))
        (bytes ! unat (file_offset v + within + word_of_nat i))) [0..<unat copy] m = m\<lparr>physical := (physical m)(f := w)\<rparr>"
      "\<forall>j. frame_byte w j = (if unat start \<le> j \<and> j < unat start + unat copy
         then bytes ! unat (file_offset v + within + word_of_nat (j - unat start)) else frame_byte (physical m f) j)"
      using StoreBytes_bytes [of "unat copy" "\<lambda>i. unat (start + word_of_nat i)" "unat start" f
        "\<lambda>i. bytes ! unat (file_offset v + within + word_of_nat i)" m] at by blast
    have "frame_byte w k = file_part bytes v p (frame_byte (physical m f)) k" if "k < 4096" for k
    proof -
      have iff: "unat start \<le> k \<and> k < unat start + unat copy \<longleftrightarrow> first_byte v \<le> p * 4096 + k \<and> p * 4096 + k < filled_to v"
        unfolding C S W filled_to_def first_byte_def [symmetric] using lt that by (intro part_range) simp_all
      show ?thesis
      proof (cases "first_byte v \<le> p * 4096 + k \<and> p * 4096 + k < filled_to v")
        case True
        then have k: "unat start \<le> k" "k < unat start + unat copy" using iff by blast+
        then have "frame_byte w k = bytes ! unat (file_offset v + within + word_of_nat (k - unat start))"
          using w(2) by simp
        also have "unat (file_offset v + within + word_of_nat (k - unat start)) = unat (file_offset v) + unat within + (k - unat start)"
          using k by (intro off) simp
        also have "\<dots> = unat (file_offset v) + (p * 4096 + k - first_byte v)" using k S W True by auto
        finally show ?thesis using True by (simp add: file_part_def)
      next
        case False
        then show ?thesis using w(2) iff by (simp only: file_part_def if_False)
      qed
    qed
    moreover have "FillPage bytes v page f m = fold (\<lambda>i. StoreByte f (unat (start + word_of_nat i))
        (bytes ! unat (file_offset v + within + word_of_nat i))) [0..<unat copy] m"
      using True by (simp add: FillPage_def Let_def within_def start_def copy_def)
    ultimately show ?thesis using w(1) unfolding page_def [symmetric] by auto
  next
    case False
    then have "\<not> p * 4096 + k < filled_to v" if "first_byte v \<le> p * 4096 + k" for k
      using that W by (auto simp: word_less_nat_alt filled_to_def first_byte_def)
    then have "FillPage bytes v page f m = m\<lparr>physical := (physical m)(f := physical m f)\<rparr>"
      "\<forall>k < 4096. frame_byte (physical m f) k = file_part bytes v p (frame_byte (physical m f)) k"
      using False by (auto simp: FillPage_def Let_def within_def file_part_def)
    then show ?thesis unfolding page_def [symmetric] by blast
  qed
qed

text \<open>The page the loop is at belongs to the load already exactly where it is the shared one.\<close>

definition shared_ok :: "(nat \<Rightarrow> u64 option) \<Rightarrow> nat \<Rightarrow> placing_state \<Rightarrow> bool" where
  "shared_ok F p st \<longleftrightarrow> dom F = {} \<and> shared_frame st = 0 \<or>
     (\<exists>q. q \<le> p \<and> shared_page st = page_address q \<and> F q = Some (shared_frame st) \<and> (\<forall>r \<in> dom F. r \<le> q))"

lemma shared_ok_reused:
  assumes "shared_ok F p st" "p < 2 ^ 35" "filled m0 F K m lv"
  shows "shared_frame st \<noteq> 0 \<and> page_address p = shared_page st \<longleftrightarrow> p \<in> dom F"
    "p \<in> dom F \<Longrightarrow> F p = Some (shared_frame st)"
proof -
  have inj: "q = p" if "q \<le> p" "page_address q = page_address p" for q
  proof -
    have "q < 2 ^ 52" "p < 2 ^ 52" using that(1) assms(2) by simp_all
    then have "q * 4096 = p * 4096" using that(2) unat_page_address by metis
    then show ?thesis by simp
  qed
  have nz: "f \<noteq> 0" if "F q = Some f" for q f
    using assms(3) that by (auto simp: filled_def owned_def data_frame_def frame_valid_def FRAME_ALLOCATION_FAILED_def)
  consider (none) "dom F = {}" "shared_frame st = 0"
    | (some) q where "q \<le> p" "shared_page st = page_address q" "F q = Some (shared_frame st)" "\<forall>r \<in> dom F. r \<le> q"
    using assms(1) by (auto simp: shared_ok_def)
  then have "(shared_frame st \<noteq> 0 \<and> page_address p = shared_page st \<longleftrightarrow> p \<in> dom F) \<and>
      (p \<in> dom F \<longrightarrow> F p = Some (shared_frame st))"
  proof cases
    case none
    then show ?thesis by simp
  next
    case some
    show ?thesis
    proof (cases "q = p")
      case True
      then show ?thesis using some nz [OF some(3)] by (simp add: domI)
    next
      case False
      then have "p \<notin> dom F" using some(1,4) False le_antisym by blast
      then show ?thesis using inj [of q] some(1,2) False by auto
    qed
  qed
  then show "shared_frame st \<noteq> 0 \<and> page_address p = shared_page st \<longleftrightarrow> p \<in> dom F"
    "p \<in> dom F \<Longrightarrow> F p = Some (shared_frame st)" by blast+
qed

text \<open>What a turn does: the page has a frame, with the bytes that fall upon it, and its flags.\<close>

definition placed_page ::
  "paging_state \<Rightarrow> (u64 \<Rightarrow> nat) \<Rightarrow> u64 \<Rightarrow> u8 list \<Rightarrow> ElfProgramHeader \<Rightarrow> nat \<Rightarrow> u64 \<Rightarrow>
   (nat \<Rightarrow> u64 option) \<Rightarrow> (nat \<Rightarrow> u64) \<Rightarrow> (nat \<Rightarrow> nat \<Rightarrow> u8) \<Rightarrow> placing_state \<Rightarrow> bool" where
  "placed_page m0 lv0 root bytes v p flags F fl K st \<longleftrightarrow>
     (\<exists>lv f. keeps m0 lv0 root (walks m0 root (F(p \<mapsto> f))
              (fl(p := if p \<in> dom F \<and> flags AND PAGE_ENTRY_WRITABLE = 0 then fl p else flags))) (space_tables st) lv \<and>
        filled m0 (F(p \<mapsto> f)) (K(p := file_part bytes v p (if p \<in> dom F then K p else (\<lambda>_. 0)))) (space_tables st) lv \<and>
        shared_page st = page_address p \<and> shared_frame st = f)"

lemma PlacePage_effect:
  assumes K: "keeps m0 lv0 root (walks m0 root F fl) (space_tables st) lv" and D: "filled m0 F C (space_tables st) lv"
    and sh: "shared_ok F p st" and v: "sound_segment n v" "n < 2 ^ 64" and p: "first_byte v div 4096 \<le> p" "p < 2 ^ 35"
    and small: "small_user m0 root" and s: "space_root s = root"
    and run: "PlacePage s bytes v flags (page_address p) st = Inr (st', True)"
  shows "placed_page m0 lv0 root bytes v p flags F fl C st'"
proof -
  let ?m = "space_tables st" and ?reused = "p \<in> dom F"
  note R = shared_ok_reused [OF sh p(2) D]
  obtain m1 f where 1: "keeps m0 lv0 root (walks m0 root F fl) m1 lv" "owned m0 m1 lv f"
    "\<And>q g. F q = Some g \<Longrightarrow> q \<noteq> p \<Longrightarrow> owned m0 m1 lv g \<and> g \<noteq> f \<and> physical m1 g = physical ?m g"
    "\<forall>k < 4096. frame_byte (physical m1 f) k = (if ?reused then C p else (\<lambda>_. 0)) k"
    "?reused \<Longrightarrow> F p = Some f"
    "(if ?reused then (?m, shared_frame st) else FreshFrame ?m) = (m1, f)"
  proof (cases ?reused)
    case True
    then obtain f where f: "F p = Some f" by blast
    show thesis
    proof (rule that [of ?m f])
      show "\<And>q g. F q = Some g \<Longrightarrow> q \<noteq> p \<Longrightarrow> owned m0 ?m lv g \<and> g \<noteq> f \<and> physical ?m g = physical ?m g"
        using D f unfolding filled_def inj_on_def by (metis domI)
      show "(if ?reused then (?m, shared_frame st) else FreshFrame ?m) = (?m, f)" using R(2) True f by simp
    qed (use K D f True in \<open>simp_all add: filled_def\<close>)
  next
    case False
    obtain pool f where A: "FrameAllocate (frames ?m) = (pool, f)" by (cases "FrameAllocate (frames ?m)")
    have got: "f \<noteq> 0" using run R(1) False A by (auto simp: PlacePage_def FreshFrame_def Let_def)
    note L = keeps_allocate [OF K A got]
    obtain w where w: "ClearFrame f (?m\<lparr>frames := pool\<rparr>) = ?m\<lparr>frames := pool\<rparr>\<lparr>physical := (physical (?m\<lparr>frames := pool\<rparr>))(f := w)\<rparr>"
      "\<forall>k < 4096. frame_byte w k = 0" using ClearFrame_bytes by blast
    note X = keeps_write [OF L(1,2), of w, folded w(1)]
    show thesis
    proof (rule that [of "ClearFrame f (?m\<lparr>frames := pool\<rparr>)" f])
      show "\<And>q g. F q = Some g \<Longrightarrow> q \<noteq> p \<Longrightarrow> owned m0 (ClearFrame f (?m\<lparr>frames := pool\<rparr>)) lv g \<and> g \<noteq> f \<and>
          physical (ClearFrame f (?m\<lparr>frames := pool\<rparr>)) g = physical ?m g"
        using D L(3) X(2) by (simp add: filled_def) (simp add: w(1))
      show "\<forall>k < 4096. frame_byte (physical (ClearFrame f (?m\<lparr>frames := pool\<rparr>)) f) k = (if ?reused then C p else (\<lambda>_. 0)) k"
        using w False by simp
    qed (use X L(2) A got False in \<open>simp_all add: FreshFrame_def\<close>)
  qed
  obtain w where w: "FillPage bytes v (page_address p) f m1 = m1\<lparr>physical := (physical m1)(f := w)\<rparr>"
    "\<forall>k < 4096. frame_byte w k = file_part bytes v p (frame_byte (physical m1 f)) k"
    using fill_page [OF v p, of bytes f m1] by blast
  define m2 where "m2 = m1\<lparr>physical := (physical m1)(f := w)\<rparr>"
  note X = keeps_write [OF 1(1,2), of w, folded m2_def]
  have got: "f \<noteq> 0" using 1(2) by (auto simp: owned_def data_frame_def frame_valid_def FRAME_ALLOCATION_FAILED_def)
  define r where "r \<longleftrightarrow> ?reused"
  have m: "(if \<not> r \<or> flags AND PAGE_ENTRY_WRITABLE \<noteq> 0 then AddressSpaceMapPage s (page_address p) f flags m2 else Inr m2)
      = Inr (space_tables st')" and st': "shared_page st' = page_address p" "shared_frame st' = f"
    using run 1(6) unfolding PlacePage_def R(1) r_def [symmetric] Let_def [of r]
    by (auto simp: got bind_outcome_Inr_iff w(1) [folded m2_def])
  let ?fl = "fl(p := if ?reused \<and> flags AND PAGE_ENTRY_WRITABLE = 0 then fl p else flags)"
    and ?C = "C(p := file_part bytes v p (if ?reused then C p else (\<lambda>_. 0)))"
  have bytes: "frame_byte (physical m2 f) k = ?C p k" if "k < 4096" for k
    using w(2) 1(4) that by (simp add: m2_def file_part_def)
  have others: "owned m0 m2 lv g \<and> (\<forall>k < 4096. frame_byte (physical m2 g) k = C q k) \<and> g \<noteq> f" if "F q = Some g" "q \<noteq> p" for q g
    using 1(3) [OF that] X(2) D that by (simp add: filled_def m2_def)
  have own: "owned m0 m2 lv f" using 1(2) X(2) by simp
  have inj: "inj_on (F(p \<mapsto> f)) (dom (F(p \<mapsto> f)))"
    using D others unfolding filled_def inj_on_def by (auto split: if_splits) (metis domI)+
  obtain lv' where lv': "keeps m0 lv0 root (walks m0 root (F(p \<mapsto> f)) ?fl) (space_tables st') lv'"
    "\<And>g. owned m0 m2 lv g \<Longrightarrow> owned m0 (space_tables st') lv' g \<and> physical (space_tables st') g = physical m2 g"
  proof (cases "r \<and> flags AND PAGE_ENTRY_WRITABLE = 0")
    case True
    then have "space_tables st' = m2" "F(p \<mapsto> f) = F" "?fl = fl"
      using m 1(5) by (auto simp: r_def)
    then show thesis using X(1) by (intro that [of lv]) simp_all
  next
    case False
    have "page_address p < SYSCALL_USER_LIMIT"
      using p(2) by (simp add: word_less_nat_alt unat_page_address SYSCALL_USER_LIMIT_def)
    then have sm: "small_path m2 root (page_address p)" by (rule keeps_small [OF X(1) small])
    have run': "AddressSpaceMapPage s (page_address p) f flags m2 = Inr (space_tables st')"
      using m False by (simp split: if_splits)
    have "(if same_page (page_address p) a then Some (1, leaf_entry f flags) else walks m0 root F fl a) =
        walks m0 root (F(p \<mapsto> f)) ?fl a" for a
      using False by (cases "page_number a = p") (auto simp: walks_def same_page_number page_number_page [OF p(2)] r_def split: option.split)
    then have W: "(\<lambda>a. if same_page (page_address p) a then Some (1, leaf_entry f flags) else walks m0 root F fl a) =
        walks m0 root (F(p \<mapsto> f)) ?fl" by (rule ext)
    show thesis
      by (rule keeps_map [OF X(1) sm s run', unfolded W]) (rule that)
  qed
  have "filled m0 (F(p \<mapsto> f)) ?C (space_tables st') lv'"
    using inj bytes others own lv'(2) by (auto simp: filled_def)
  then show ?thesis using lv'(1) st' unfolding placed_page_def by blast
qed

end
