(* ===== verification/ElfSegments.thy ===== *)
theory ElfSegments
  imports ElfPages
begin

text \<open>
  The loops of the loader (\<open>kernel/exec/elf.c\<close>) over the pages of a segment and over the segments:
  what the space holds after any part of the image, and that the loops return.
\<close>

subsection \<open>After a part of an image\<close>

definition writable_segment :: "ElfProgramHeader \<Rightarrow> bool" where
  "writable_segment v \<longleftrightarrow> segment_flags v AND ELF_SEGMENT_WRITE \<noteq> 0"

definition segment_entry_flags :: "bool \<Rightarrow> u64" where
  "segment_entry_flags w = (if w then PAGE_ENTRY_USER OR PAGE_ENTRY_WRITABLE else PAGE_ENTRY_USER)"

text \<open>The image as far as the address \<open>b\<close>, and zero beyond.\<close>

definition image_upto :: "u8 list \<Rightarrow> ElfProgramHeader list \<Rightarrow> nat \<Rightarrow> nat \<Rightarrow> nat \<Rightarrow> u8" where
  "image_upto bytes vs b p k = (if p * 4096 + k < b then image_byte bytes vs (p * 4096 + k) else 0)"

text \<open>
  The pages \<open>D\<close> are placed, those of \<open>W\<close> writable, with the image as far as \<open>b\<close>; the loop is at the
  page \<open>p\<close>.
\<close>

definition placing ::
  "paging_state \<Rightarrow> (u64 \<Rightarrow> nat) \<Rightarrow> u64 \<Rightarrow> u8 list \<Rightarrow> ElfProgramHeader list \<Rightarrow> nat set \<Rightarrow> nat set \<Rightarrow> nat \<Rightarrow> nat \<Rightarrow>
   placing_state \<Rightarrow> bool" where
  "placing m0 lv0 root bytes vs D W b p st \<longleftrightarrow>
     (\<exists>F fl lv. keeps m0 lv0 root (walks m0 root F fl) (space_tables st) lv \<and>
        filled m0 F (image_upto bytes vs b) (space_tables st) lv \<and> dom F = D \<and> W \<subseteq> D \<and>
        (\<forall>q \<in> D. fl q = segment_entry_flags (q \<in> W)) \<and> shared_ok F p st)"

lemma filled_cong:
  assumes "filled m0 F K m lv" "\<And>p k. p \<in> dom F \<Longrightarrow> k < 4096 \<Longrightarrow> K p k = K' p k"
  shows "filled m0 F K' m lv"
  using assms by (fastforce simp: filled_def)

definition bound_at :: "ElfProgramHeader \<Rightarrow> nat \<Rightarrow> nat" where
  "bound_at v p = max (first_byte v) (min (end_byte v) (p * 4096))"

lemma segment_flags_test: "segment_entry_flags w AND PAGE_ENTRY_WRITABLE = 0 \<longleftrightarrow> \<not> w"
  by (simp add: segment_entry_flags_def PAGE_ENTRY_USER_def PAGE_ENTRY_WRITABLE_def)

lemma placing_turn:
  assumes P: "placing m0 lv0 root bytes (us @ v # ws) D W (bound_at v p) p st"
    and S: "sound_segments n (us @ v # ws)" "n < 2 ^ 64" and v: "loadable v" "on_page v p"
    and D: "D \<subseteq> {..p}" "{q. \<exists>u \<in> set us. on_page u q} \<subseteq> D"
    and small: "small_user m0 root" and s: "space_root s = root"
    and run: "PlacePage s bytes v (segment_entry_flags (writable_segment v)) (page_address p) st = Inr (st', True)"
  shows "placing m0 lv0 root bytes (us @ v # ws) (insert p D) (if writable_segment v then insert p W else W)
    (bound_at v (p + 1)) (p + 1) st'"
proof -
  obtain F fl lv where P: "keeps m0 lv0 root (walks m0 root F fl) (space_tables st) lv"
    "filled m0 F (image_upto bytes (us @ v # ws) (bound_at v p)) (space_tables st) lv" "dom F = D" "W \<subseteq> D"
    "\<forall>q \<in> D. fl q = segment_entry_flags (q \<in> W)" "shared_ok F p st"
    using P by (auto simp: placing_def)
  have sv: "sound_segment n v" by (rule sound_loadable [OF S(1) _ v(1)]) simp
  have on: "first_byte v div 4096 \<le> p" "p * 4096 < end_byte v" using v(2) by (simp_all add: on_page_def)
  have p35: "p < 2 ^ 35" using on(2) sv by (simp add: sound_segment_def)
  obtain lv' f where Q: "keeps m0 lv0 root (walks m0 root (F(p \<mapsto> f)) (fl(p := if p \<in> dom F \<and>
      segment_entry_flags (writable_segment v) AND PAGE_ENTRY_WRITABLE = 0 then fl p else segment_entry_flags (writable_segment v))))
      (space_tables st') lv'"
    "filled m0 (F(p \<mapsto> f)) ((image_upto bytes (us @ v # ws) (bound_at v p))(p := file_part bytes v p
      (if p \<in> dom F then image_upto bytes (us @ v # ws) (bound_at v p) p else (\<lambda>_. 0)))) (space_tables st') lv'"
    "shared_page st' = page_address p" "shared_frame st' = f"
    using PlacePage_effect [OF P(1,2,6) sv S(2) on(1) p35 small s run] by (auto simp: placed_page_def)
  have "first_byte v < (p + 1) * 4096" using on(1) by (simp add: div_page_le)
  then have bounds: "bound_at v p = max (first_byte v) (p * 4096)" "bound_at v (p + 1) = min (end_byte v) ((p + 1) * 4096)"
    using on(2) loadable_size [OF v(1)] by (simp_all add: bound_at_def)
  have page: "file_part bytes v p (if p \<in> D then image_upto bytes (us @ v # ws) (bound_at v p) p else (\<lambda>_. 0)) k =
      image_upto bytes (us @ v # ws) (bound_at v (p + 1)) p k" if k: "k < 4096" for k
  proof (cases "p * 4096 + k < first_byte v")
    case True
    have "image_byte bytes (us @ v # ws) (p * 4096 + k) = 0" if "p \<notin> D"
    proof (rule image_byte_gap [OF S(1) v(1) True])
      fix u assume u: "u \<in> set us" "loadable u"
      have "first_byte u < first_byte v"
        using segments_apart(1) [OF S(1) [unfolded sound_segments_def, THEN conjunct2] v(1) u] loadable_size [OF u(2)] by simp
      then have "first_byte u div 4096 \<le> p" using on(1) div_le_mono [of "first_byte u" "first_byte v" 4096] by simp
      moreover have "\<not> on_page u p" using D(2) u(1) that by blast
      ultimately show "end_byte u \<le> p * 4096 + k" using u(2) by (simp add: on_page_def)
    qed
    moreover have "p * 4096 + k < bound_at v (p + 1)" using True k loadable_size [OF v(1)] unfolding bounds by simp
    ultimately show ?thesis using True by (simp add: file_part_def image_upto_def bounds)
  next
    case False
    moreover have "filled_to v \<le> end_byte v" using sv by (simp add: sound_segment_def)
    ultimately show ?thesis
      using image_byte_segment [OF S(1) v(1), of "p * 4096 + k" bytes] k
      unfolding file_part_def image_upto_def bounds by auto
  qed
  have early: "image_upto bytes (us @ v # ws) (bound_at v p) q k = image_upto bytes (us @ v # ws) (bound_at v (p + 1)) q k"
    if "q \<in> D" "q \<noteq> p" "k < 4096" for q k
  proof -
    have "q \<le> p" using that(1) D(1) by blast
    then have "q < p" using that(2) by simp
    then have "q * 4096 + 4096 \<le> p * 4096" by simp
    then have "q * 4096 + k < p * 4096" using that(3) by simp
    then show ?thesis using on(2) unfolding image_upto_def bounds by auto
  qed
  have "filled m0 (F(p \<mapsto> f)) (image_upto bytes (us @ v # ws) (bound_at v (p + 1))) (space_tables st') lv'"
    by (rule filled_cong [OF Q(2)]) (use page early P(3) in auto)
  moreover have "shared_ok (F(p \<mapsto> f)) (p + 1) st'"
    using Q(3,4) D(1) P(3) by (auto simp: shared_ok_def intro!: exI [of _ p])
  moreover have "dom (F(p \<mapsto> f)) = insert p D" using P(3) by simp
  moreover have "\<forall>q \<in> insert p D. (fl(p := if p \<in> dom F \<and>
      segment_entry_flags (writable_segment v) AND PAGE_ENTRY_WRITABLE = 0 then fl p else segment_entry_flags (writable_segment v))) q =
      segment_entry_flags (q \<in> (if writable_segment v then insert p W else W))"
    unfolding P(3) using P(5) subsetD [OF P(4), of p] by (cases "p \<in> W") (auto simp: segment_flags_test)
  moreover have "(if writable_segment v then insert p W else W) \<subseteq> insert p D" using P(4) by auto
  ultimately show ?thesis using Q(1) unfolding placing_def by blast
qed

subsection \<open>The pages of a segment\<close>

definition last_page :: "ElfProgramHeader \<Rightarrow> nat" where "last_page v = (end_byte v - 1) div 4096"

lemma on_page_iff: "loadable v \<Longrightarrow> on_page v p \<longleftrightarrow> first_byte v div 4096 \<le> p \<and> p \<le> last_page v"
  using loadable_size [of v] by (auto simp: on_page_def last_page_def less_eq_div_iff_mult_less_eq)

lemma sound_pages:
  assumes "sound_segment n v" "loadable v"
  shows "last_page v < 2 ^ 35" "first_byte v div 4096 \<le> last_page v"
    "AlignDown (segment_address v) PAGE_SIZE = page_address (first_byte v div 4096)"
    "AlignDown (segment_address v + (memory_size v - 1)) PAGE_SIZE = page_address (last_page v)"
    "unat (segment_address v + memory_size v) = end_byte v"
proof -
  have e: "end_byte v \<le> 2 ^ 47" "first_byte v < end_byte v" using assms loadable_size by (auto simp: sound_segment_def)
  then show "last_page v < 2 ^ 35" by (simp add: last_page_def div_less_iff_less_mult)
  show "first_byte v div 4096 \<le> last_page v" unfolding last_page_def using e(2) by (intro div_le_mono) simp
  show "AlignDown (segment_address v) PAGE_SIZE = page_address (first_byte v div 4096)"
    by (simp add: AlignDown_page_address first_byte_def)
  have "memory_size v \<noteq> 0" using assms(2) by (simp add: loadable_def)
  then have m: "unat (memory_size v - 1) = unat (memory_size v) - 1" "0 < unat (memory_size v)"
    by (simp_all add: unat_sub word_le_nat_alt unat_gt_0 Suc_leI)
  then have "unat (segment_address v + (memory_size v - 1)) = end_byte v - 1"
    using e by (subst unat_add_lem [THEN iffD1]) (simp_all add: end_byte_def)
  then show "AlignDown (segment_address v + (memory_size v - 1)) PAGE_SIZE = page_address (last_page v)"
    by (simp add: AlignDown_page_address last_page_def)
  show "unat (segment_address v + memory_size v) = end_byte v"
    using e by (subst unat_add_lem [THEN iffD1]) (simp_all add: end_byte_def)
qed

text \<open>The loop over the pages returns, whatever the allocator does.\<close>

lemma PlacePages_returns:
  assumes "e < 2 ^ 51" "p \<le> e + 1"
  shows "PlacePages s bytes v flags (page_address p) (page_address e) st \<noteq> None"
  using assms(2)
proof (induction "e + 1 - p" arbitrary: p st)
  case 0
  then have "\<not> page_address p \<le> page_address e"
    using assms(1) by (simp add: word_le_nat_alt unat_page_address not_le)
  then show ?case by (subst PlacePages.simps) simp
next
  case (Suc d)
  then have "PlacePages s bytes v flags (page_address (Suc p)) (page_address e) st' \<noteq> None" for st'
    by (intro Suc.hyps(1)) simp_all
  then show ?case by (subst PlacePages.simps) (auto simp: page_address_Suc split: sum.splits)
qed

lemma PlacePages_places:
  assumes S: "sound_segments n (us @ v # ws)" "n < 2 ^ 64" and v: "loadable v"
    and small: "small_user m0 root" and s: "space_root s = root"
    and P: "placing m0 lv0 root bytes (us @ v # ws) D W (bound_at v p) p st"
    and D: "D \<subseteq> {..p}" "{q. \<exists>u \<in> set us. on_page u q} \<subseteq> D"
    and p: "first_byte v div 4096 \<le> p" "p \<le> last_page v + 1"
    and run: "PlacePages s bytes v (segment_entry_flags (writable_segment v)) (page_address p) (page_address (last_page v)) st =
      Some (Inr (st', True))"
  shows "placing m0 lv0 root bytes (us @ v # ws) (D \<union> {p..last_page v})
    (if writable_segment v then W \<union> {p..last_page v} else W) (end_byte v) (last_page v + 1) st'"
  using P D p run
proof (induction "last_page v + 1 - p" arbitrary: p st D W)
  case 0
  have sv: "sound_segment n v" by (rule sound_loadable [OF S(1) _ v]) simp
  have p: "p = last_page v + 1" using "0.hyps" "0.prems"(5) by simp
  have "end_byte v \<le> p * 4096" using p div_page_le [of "end_byte v - 1" "last_page v"] by (simp add: last_page_def)
  then have "bound_at v p = end_byte v" using loadable_size [OF v] by (simp add: bound_at_def)
  moreover have "\<not> page_address p \<le> page_address (last_page v)"
    using sound_pages(1) [OF sv v] p by (simp add: word_le_nat_alt unat_page_address)
  then have "st' = st" using "0.prems"(6) by (subst (asm) PlacePages.simps) simp
  ultimately show ?case using "0.prems"(1) p by simp
next
  case (Suc d)
  have sv: "sound_segment n v" by (rule sound_loadable [OF S(1) _ v]) simp
  have p: "p \<le> last_page v" using Suc.hyps(2) by simp
  then have le: "page_address p \<le> page_address (last_page v)"
    using sound_pages(1) [OF sv v] by (simp add: word_le_nat_alt unat_page_address)
  obtain st1 where 1: "PlacePage s bytes v (segment_entry_flags (writable_segment v)) (page_address p) st = Inr (st1, True)"
    "PlacePages s bytes v (segment_entry_flags (writable_segment v)) (page_address (p + 1)) (page_address (last_page v)) st1 =
      Some (Inr (st', True))"
    using Suc.prems(6) le by (subst (asm) PlacePages.simps) (auto simp: page_address_Suc split: sum.splits if_splits)
  have on: "on_page v p" using p Suc.prems(4) v by (simp add: on_page_iff)
  have T: "placing m0 lv0 root bytes (us @ v # ws) (insert p D) (if writable_segment v then insert p W else W)
      (bound_at v (p + 1)) (p + 1) st1"
    by (rule placing_turn [OF Suc.prems(1) S v on Suc.prems(2,3) small s 1(1)])
  have "placing m0 lv0 root bytes (us @ v # ws) (insert p D \<union> {p + 1..last_page v})
      (if writable_segment v then (if writable_segment v then insert p W else W) \<union> {p + 1..last_page v}
       else if writable_segment v then insert p W else W) (end_byte v) (last_page v + 1) st'"
    by (rule Suc.hyps(1) [OF _ T _ _ _ _ 1(2)]) (use Suc.hyps(2) Suc.prems p in auto)
  moreover have "insert p D \<union> {p + 1..last_page v} = D \<union> {p..last_page v}" "insert p W \<union> {p + 1..last_page v} = W \<union> {p..last_page v}"
    using p by auto
  ultimately show ?case by (cases "writable_segment v") simp_all
qed

subsection \<open>The segments of an image\<close>

definition image_pages :: "ElfProgramHeader list \<Rightarrow> nat set" where
  "image_pages us = {q. \<exists>u \<in> set us. on_page u q}"

definition written_pages :: "ElfProgramHeader list \<Rightarrow> nat set" where
  "written_pages us = {q. \<exists>u \<in> set us. on_page u q \<and> writable_segment u}"

text \<open>The segments \<open>us\<close>, the first of \<open>vs\<close>, have been loaded.\<close>

definition loaded_upto ::
  "paging_state \<Rightarrow> (u64 \<Rightarrow> nat) \<Rightarrow> u64 \<Rightarrow> u8 list \<Rightarrow> ElfProgramHeader list \<Rightarrow> ElfProgramHeader list \<Rightarrow> placing_state \<Rightarrow> bool" where
  "loaded_upto m0 lv0 root bytes vs us st \<longleftrightarrow>
     (\<exists>b p. placing m0 lv0 root bytes vs (image_pages us) (written_pages us) b p st \<and>
        (\<forall>u \<in> set us. loadable u \<longrightarrow> end_byte u \<le> b) \<and>
        (\<forall>ws v. vs = us @ ws \<longrightarrow> v \<in> set ws \<longrightarrow> loadable v \<longrightarrow> b \<le> first_byte v))"

text \<open>The lowest and highest address so far.\<close>

definition hull :: "ElfProgramHeader list \<Rightarrow> ElfImage \<Rightarrow> bool" where
  "hull us im \<longleftrightarrow> (case filter loadable us of [] \<Rightarrow> lowest im = 0 \<and> highest im = 0
     | u # _ \<Rightarrow> unat (lowest im) = first_byte u \<and> unat (highest im) = end_byte (last (filter loadable us)))"

lemma ElfLoadSegment_run:
  assumes sv: "sound_segment n v" and v: "loadable v"
  shows "ElfLoadSegment s bytes v st \<noteq> None"
    "ElfLoadSegment s bytes v st = Some (Inr (st', ELF_OK)) \<Longrightarrow>
       (\<exists>st1. PlacePages s bytes v (segment_entry_flags (writable_segment v)) (page_address (first_byte v div 4096))
          (page_address (last_page v)) st = Some (Inr (st1, True)) \<and>
        space_tables st' = space_tables st1 \<and> shared_page st' = shared_page st1 \<and> shared_frame st' = shared_frame st1)"
proof -
  note pages = sound_pages [OF sv v]
  have eq: "ElfLoadSegment s bytes v st = map_option (\<lambda>r. bind_outcome r (\<lambda>(st, placed).
           if \<not> placed then Inr (st, ELF_NO_MEMORY)
           else
             let im = loaded st;
                 im = (if lowest im = 0 \<or> segment_address v < lowest im then im\<lparr>lowest := segment_address v\<rparr> else im);
                 im = (if highest im < segment_address v + memory_size v
                       then im\<lparr>highest := segment_address v + memory_size v\<rparr> else im)
             in Inr (st\<lparr>loaded := im\<lparr>segments_loaded := segments_loaded im + 1\<rparr>\<rparr>, ELF_OK)))
      (PlacePages s bytes v (segment_entry_flags (writable_segment v)) (page_address (first_byte v div 4096))
        (page_address (last_page v)) st)"
    by (simp add: ElfLoadSegment_def pages(3,4) segment_entry_flags_def writable_segment_def Let_def)
  have "last_page v < 2 ^ 51" using pages(1) by simp
  then show "ElfLoadSegment s bytes v st \<noteq> None"
    using PlacePages_returns [of "last_page v" "first_byte v div 4096" s bytes v "segment_entry_flags (writable_segment v)" st] pages(2)
    unfolding eq by simp
  show "ElfLoadSegment s bytes v st = Some (Inr (st', ELF_OK)) \<Longrightarrow>
       (\<exists>st1. PlacePages s bytes v (segment_entry_flags (writable_segment v)) (page_address (first_byte v div 4096))
          (page_address (last_page v)) st = Some (Inr (st1, True)) \<and>
        space_tables st' = space_tables st1 \<and> shared_page st' = shared_page st1 \<and> shared_frame st' = shared_frame st1)"
    unfolding eq by (auto simp: bind_outcome_Inr_iff Let_def split: if_splits)
qed

lemma LoadSegmentsFrom_returns:
  "(\<And>v. v \<in> set vs \<Longrightarrow> loadable v \<Longrightarrow> sound_segment n v) \<Longrightarrow> LoadSegmentsFrom s bytes vs st \<noteq> None"
proof (induction vs arbitrary: st)
  case (Cons v vs)
  then show ?case
    using ElfLoadSegment_run(1) [of n v s bytes st]
    by (auto simp: loadable_def split: option.splits sum.splits ElfResult.splits)
qed simp

lemma loaded_skip:
  assumes "loaded_upto m0 lv0 root bytes (us @ v # ws) us st" "\<not> loadable v"
  shows "loaded_upto m0 lv0 root bytes (us @ v # ws) (us @ [v]) st"
proof -
  have "image_pages (us @ [v]) = image_pages us" "written_pages (us @ [v]) = written_pages us"
    using assms(2) by (auto simp: image_pages_def written_pages_def on_page_def)
  then show ?thesis using assms by (auto simp: loaded_upto_def)
qed

lemma loaded_segment:
  assumes L: "loaded_upto m0 lv0 root bytes (us @ v # ws) us st" and v: "loadable v"
    and S: "sound_segments n (us @ v # ws)" "n < 2 ^ 64" and small: "small_user m0 root" and s: "space_root s = root"
    and run: "ElfLoadSegment s bytes v st = Some (Inr (st', ELF_OK))"
  shows "loaded_upto m0 lv0 root bytes (us @ v # ws) (us @ [v]) st'"
proof -
  let ?vs = "us @ v # ws" and ?p = "first_byte v div 4096"
  have sv: "sound_segment n v" by (rule sound_loadable [OF S(1) _ v]) simp
  note apart = segments_apart [OF S(1) [unfolded sound_segments_def, THEN conjunct2] v]
  obtain b p where P: "placing m0 lv0 root bytes ?vs (image_pages us) (written_pages us) b p st"
    "\<forall>u \<in> set us. loadable u \<longrightarrow> end_byte u \<le> b" "b \<le> first_byte v"
    using L v unfolding loaded_upto_def by (metis list.set_intros(1))
  have le: "q \<le> ?p" if "q \<in> image_pages us" for q
  proof -
    have "q * 4096 \<le> first_byte v" using that apart(1) by (fastforce simp: image_pages_def on_page_def)
    then show ?thesis by (simp add: less_eq_div_iff_mult_less_eq)
  qed
  have same: "image_upto bytes ?vs b q k = image_upto bytes ?vs (bound_at v ?p) q k" for q k
  proof -
    have "bound_at v ?p = first_byte v" by (auto simp: bound_at_def intro!: max_absorb1 min.coboundedI2)
    moreover have "image_byte bytes ?vs (q * 4096 + k) = 0" if "b \<le> q * 4096 + k" "q * 4096 + k < first_byte v"
      by (rule image_byte_gap [OF S(1) v that(2)]) (use that(1) P(2) le_trans in blast)
    ultimately show ?thesis using P(3) by (auto simp: image_upto_def)
  qed
  then have "image_upto bytes ?vs b = image_upto bytes ?vs (bound_at v ?p)" by blast
  then have "placing m0 lv0 root bytes ?vs (image_pages us) (written_pages us) (bound_at v ?p) ?p st"
    using P(1) le unfolding placing_def by (fastforce simp: shared_ok_def)
  moreover obtain st1 where 1: "PlacePages s bytes v (segment_entry_flags (writable_segment v)) (page_address ?p)
      (page_address (last_page v)) st = Some (Inr (st1, True))"
    "space_tables st' = space_tables st1" "shared_page st' = shared_page st1" "shared_frame st' = shared_frame st1"
    using ElfLoadSegment_run(2) [OF sv v run] by blast
  ultimately have Q: "placing m0 lv0 root bytes ?vs (image_pages us \<union> {?p..last_page v})
      (if writable_segment v then written_pages us \<union> {?p..last_page v} else written_pages us) (end_byte v) (last_page v + 1) st1"
    using le sound_pages(2) [OF sv v]
    by (intro PlacePages_places [OF S v small s _ _ _ _ _ 1(1)]) (auto simp: image_pages_def)
  have "image_pages us \<union> {?p..last_page v} = image_pages (us @ [v])"
    "(if writable_segment v then written_pages us \<union> {?p..last_page v} else written_pages us) = written_pages (us @ [v])"
    using v by (auto simp: image_pages_def written_pages_def on_page_iff)
  then have "placing m0 lv0 root bytes ?vs (image_pages (us @ [v])) (written_pages (us @ [v])) (end_byte v) (last_page v + 1) st'"
    using Q 1(2-4) by (simp add: placing_def shared_ok_def)
  moreover have "\<forall>u \<in> set (us @ [v]). loadable u \<longrightarrow> end_byte u \<le> end_byte v"
    using apart(1) loadable_size [OF v] by fastforce
  ultimately show ?thesis using apart(2) unfolding loaded_upto_def by fastforce
qed

lemma LoadSegmentsFrom_loads:
  assumes "loaded_upto m0 lv0 root bytes (us @ ws) us st"
    and S: "sound_segments n (us @ ws)" "n < 2 ^ 64" and small: "small_user m0 root" and s: "space_root s = root"
    and run: "LoadSegmentsFrom s bytes ws st = Some (Inr (st', ELF_OK))"
  shows "loaded_upto m0 lv0 root bytes (us @ ws) (us @ ws) st'"
  using assms(1) S(1) run
proof (induction ws arbitrary: us st)
  case (Cons v ws)
  show ?case
  proof (cases "loadable v")
    case True
    then obtain st1 where "ElfLoadSegment s bytes v st = Some (Inr (st1, ELF_OK))"
      "LoadSegmentsFrom s bytes ws st1 = Some (Inr (st', ELF_OK))"
      using Cons.prems(3) by (auto simp: loadable_def split: option.splits sum.splits ElfResult.splits)
    then show ?thesis
      using Cons.IH [of "us @ [v]" st1] loaded_segment [OF Cons.prems(1) True Cons.prems(2) S(2) small s] Cons.prems(2) by simp
  next
    case False
    then have "LoadSegmentsFrom s bytes ws st = Some (Inr (st', ELF_OK))"
      using Cons.prems(3) by (auto simp: loadable_def split: if_splits)
    then show ?thesis
      using Cons.IH [of "us @ [v]" st] loaded_skip [OF Cons.prems(1) False] Cons.prems(2) by simp
  qed
qed simp

subsection \<open>The lowest and the highest address\<close>

lemma PlacePage_hull:
  "PlacePage s bytes v flags page st = Inr (st', b) \<Longrightarrow> lowest (loaded st') = lowest (loaded st) \<and> highest (loaded st') = highest (loaded st)"
  by (auto simp: PlacePage_def Let_def bind_outcome_Inr_iff split: if_splits prod.splits)

lemma PlacePages_hull:
  assumes "e < 2 ^ 51" "p \<le> e + 1" "PlacePages s bytes v flags (page_address p) (page_address e) st = Some (Inr (st', b))"
  shows "lowest (loaded st') = lowest (loaded st) \<and> highest (loaded st') = highest (loaded st)"
  using assms(2,3)
proof (induction "e + 1 - p" arbitrary: p st)
  case 0
  then have "\<not> page_address p \<le> page_address e"
    using assms(1) by (simp add: word_le_nat_alt unat_page_address not_le)
  then show ?case using 0 by (subst (asm) PlacePages.simps) simp
next
  case (Suc d)
  then have le: "page_address p \<le> page_address e"
    using assms(1) by (simp add: word_le_nat_alt unat_page_address)
  obtain st1 c where 1: "PlacePage s bytes v flags (page_address p) st = Inr (st1, c)"
    "(if c then PlacePages s bytes v flags (page_address (Suc p)) (page_address e) st1 else Some (Inr (st1, c))) = Some (Inr (st', b))"
    using Suc.prems(2) le PlacePages.simps [of s bytes v flags "page_address p" "page_address e" st, unfolded page_address_Suc]
    by (auto split: sum.splits if_splits)
  then show ?case
    using PlacePage_hull [OF 1(1)] Suc.hyps(1) [of "Suc p" st1] Suc.hyps(2) by (auto split: if_splits)
qed

lemma ElfLoadSegment_hull:
  assumes sv: "sound_segment n v" and v: "loadable v" and run: "ElfLoadSegment s bytes v st = Some (Inr (st', ELF_OK))"
    and S: "sound_segments n (us @ v # ws)" and H: "hull us (loaded st)"
  shows "hull (us @ [v]) (loaded st')"
proof -
  note pages = sound_pages [OF sv v]
  have e: "last_page v < 2 ^ 51" using pages(1) by simp
  obtain st1 where 1: "PlacePages s bytes v (segment_entry_flags (writable_segment v)) (page_address (first_byte v div 4096))
      (page_address (last_page v)) st = Some (Inr (st1, True))"
    "lowest (loaded st') = (if lowest (loaded st1) = 0 \<or> segment_address v < lowest (loaded st1) then segment_address v else lowest (loaded st1))"
    "highest (loaded st') = (if highest (loaded st1) < segment_address v + memory_size v then segment_address v + memory_size v
      else highest (loaded st1))"
    using run unfolding ElfLoadSegment_def pages(3,4)
    by (auto simp: Let_def bind_outcome_Inr_iff segment_entry_flags_def writable_segment_def split: if_splits prod.splits)
  have st1: "lowest (loaded st1) = lowest (loaded st)" "highest (loaded st1) = highest (loaded st)"
    using PlacePages_hull [OF e _ 1(1)] pages(2) by simp_all
  note apart = segments_apart [OF S [unfolded sound_segments_def, THEN conjunct2] v]
  show ?thesis
  proof (cases "filter loadable us")
    case Nil
    then show ?thesis
      using H v 1(2,3) st1 pages(5) loadable_size [OF v] by (simp add: hull_def word_less_nat_alt first_byte_def)
  next
    case (Cons u rest)
    have mem: "w \<in> set us \<and> loadable w" if "w \<in> set (u # rest)" for w
      using that unfolding Cons [symmetric] by simp
    have u: "u \<in> set us" "loadable u" and l: "last (u # rest) \<in> set us" "loadable (last (u # rest))"
      using mem [of u] mem [OF last_in_set] by simp_all
    have "unat (lowest (loaded st)) = first_byte u" "unat (highest (loaded st)) = end_byte (last (u # rest))"
      using H Cons by (simp_all add: hull_def)
    moreover have "end_byte u \<le> first_byte v" "end_byte (last (u # rest)) \<le> first_byte v" using apart(1) u l by blast+
    moreover have "4096 \<le> first_byte u" using sound_loadable [OF S _ u(2)] u(1) by (simp add: sound_segment_def)
    ultimately have "unat (lowest (loaded st')) = first_byte u" "unat (highest (loaded st')) = end_byte v"
      using 1(2,3) st1 pages(5) loadable_size [OF v] loadable_size [OF u(2)]
      by (auto simp: word_less_nat_alt first_byte_def unat_eq_0)
    then show ?thesis using Cons v by (simp add: hull_def)
  qed
qed

lemma LoadSegmentsFrom_hull:
  assumes "hull us (loaded st)" and "sound_segments n (us @ ws)" and "LoadSegmentsFrom s bytes ws st = Some (Inr (st', ELF_OK))"
  shows "hull (us @ ws) (loaded st')"
  using assms
proof (induction ws arbitrary: us st)
  case (Cons v ws)
  show ?case
  proof (cases "loadable v")
    case True
    then obtain st1 where 1: "ElfLoadSegment s bytes v st = Some (Inr (st1, ELF_OK))"
      "LoadSegmentsFrom s bytes ws st1 = Some (Inr (st', ELF_OK))"
      using Cons.prems(3) by (auto simp: loadable_def split: option.splits sum.splits ElfResult.splits)
    have "sound_segment n v" by (rule sound_loadable [OF Cons.prems(2) _ True]) simp
    then show ?thesis
      using Cons.IH [of "us @ [v]" st1] ElfLoadSegment_hull [OF _ True 1(1) Cons.prems(2,1)] 1(2) Cons.prems(2) by simp
  next
    case False
    then have "LoadSegmentsFrom s bytes ws st = Some (Inr (st', ELF_OK))" "filter loadable (us @ [v]) = filter loadable us"
      using Cons.prems(3) by (auto simp: loadable_def split: if_splits)
    moreover from this(2) have "hull (us @ [v]) (loaded st)" using Cons.prems(1) by (simp only: hull_def)
    ultimately show ?thesis using Cons.IH [of "us @ [v]" st] Cons.prems(2) by simp
  qed
qed simp

end
