(* ===== verification/ElfService.thy ===== *)
theory ElfService
  imports ElfSegments FrameRoom
begin

text \<open>
  That the loader (\<open>kernel/exec/elf.c\<close>) succeeds where there are frames enough, and the whole of
  \<open>ElfLoad\<close>: what is in the space when it reports success.
\<close>

subsection \<open>Frames enough\<close>

lemma mappable_pool: "mappable n (m\<lparr>physical := x\<rparr>) = mappable n m" by simp

lemma FreshFrame_succeeds:
  assumes "mappable (Suc n) m"
  obtains m' f where "FreshFrame m = (m', f)" "f \<noteq> 0" "mappable n m'"
proof -
  obtain pool f where A: "FrameAllocate (frames m) = (pool, f)" "f \<noteq> FRAME_ALLOCATION_FAILED" "pool_ready pool"
    "room (frames m) \<le> room pool + 1"
    using FrameAllocate_finds [of "frames m"] assms by (auto simp: mappable_def)
  obtain w where w: "ClearFrame f (m\<lparr>frames := pool\<rparr>) = m\<lparr>frames := pool\<rparr>\<lparr>physical := (physical (m\<lparr>frames := pool\<rparr>))(f := w)\<rparr>"
    using ClearFrame_bytes by blast
  have "mappable n (m\<lparr>frames := pool\<rparr>)" using assms A by (simp add: mappable_def)
  then show thesis
    using A(1,2) by (intro that [of "ClearFrame f (m\<lparr>frames := pool\<rparr>)" f])
      (simp_all add: FreshFrame_def FRAME_ALLOCATION_FAILED_def w)
qed

lemma FillPage_physical: "\<exists>x. FillPage bytes v page f m = m\<lparr>physical := x\<rparr>"
proof -
  have "\<exists>x. fold (\<lambda>i. StoreByte f (s i) (g i)) is m = m\<lparr>physical := x\<rparr>" for s g and "is" :: "nat list"
    using StoreBytes by blast
  then show ?thesis
    unfolding FillPage_def Let_def by (cases m) (auto split: if_split)
qed

lemma AddressSpaceMapPage_succeeds:
  assumes "mappable (n + 3) m"
  obtains m' where "AddressSpaceMapPage s va pa flags m = Inr m'" "mappable n m'"
proof -
  obtain m1 where 1: "PagingMapPage (space_root s) va pa flags m = Inr m1" "mappable n m1"
    using PagingMapPage_returns [OF assms] by blast
  then show thesis
    by (intro that [of "if space_root s = PagingActiveTable m1 then m1\<lparr>invalidated := va # invalidated m1\<rparr> else m1"])
      (simp_all add: AddressSpaceMapPage_def PagingMapPageIn_def PagingInvalidate_Inr mappable_def)
qed

lemma PlacePage_succeeds:
  assumes "mappable (n + 4) (space_tables st)"
  obtains st' where "PlacePage s bytes v flags page st = Inr (st', True)" "mappable n (space_tables st')"
proof -
  define r where "r \<longleftrightarrow> shared_frame st \<noteq> 0 \<and> page = shared_page st"
  obtain m1 f where 1: "(if r then (space_tables st, shared_frame st) else FreshFrame (space_tables st)) = (m1, f)"
    "f \<noteq> 0" "mappable (n + 3) m1"
  proof (cases r)
    case True
    then show thesis using assms by (intro that [of "space_tables st" "shared_frame st"]) (simp_all add: r_def mappable_def)
  next
    case False
    have "mappable (Suc (n + 3)) (space_tables st)" using assms by (simp add: eval_nat_numeral)
    then obtain m1 f where "FreshFrame (space_tables st) = (m1, f)" "f \<noteq> 0" "mappable (n + 3) m1"
      by (rule FreshFrame_succeeds)
    then show thesis using False by (intro that) simp_all
  qed
  obtain x where x: "FillPage bytes v page f m1 = m1\<lparr>physical := x\<rparr>" using FillPage_physical by blast
  have "mappable (n + 3) (m1\<lparr>physical := x\<rparr>)" using 1(3) by simp
  then obtain m2 where m2: "AddressSpaceMapPage s page f flags (m1\<lparr>physical := x\<rparr>) = Inr m2" "mappable n m2"
    by (rule AddressSpaceMapPage_succeeds)
  obtain m3 where m3: "(if \<not> r \<or> flags AND PAGE_ENTRY_WRITABLE \<noteq> 0 then AddressSpaceMapPage s page f flags (m1\<lparr>physical := x\<rparr>)
      else Inr (m1\<lparr>physical := x\<rparr>)) = Inr m3" "mappable n m3"
  proof (cases "\<not> r \<or> flags AND PAGE_ENTRY_WRITABLE \<noteq> 0")
    case True
    then show thesis using m2 by (intro that [of m2]) simp_all
  next
    case False
    then show thesis using 1(3) by (intro that [of "m1\<lparr>physical := x\<rparr>"]) (simp_all add: mappable_def)
  qed
  have run: "PlacePage s bytes v flags page st = Inr (st\<lparr>space_tables := m3, shared_page := page, shared_frame := f,
      loaded := (if r then loaded st else (loaded st)\<lparr>pages_loaded := pages_loaded (loaded st) + 1\<rparr>)\<rparr>, True)"
    using 1(1,2) m3(1) by (simp add: PlacePage_def r_def [symmetric] Let_def [of r] x)
  have tables: "space_tables (st\<lparr>space_tables := m3, shared_page := a, shared_frame := b, loaded := c\<rparr>) = m3" for a b c
    by simp
  show thesis by (rule that [OF run]) (unfold tables, rule m3(2))
qed

lemma PlacePages_succeeds:
  assumes "e < 2 ^ 51" "p \<le> e + 1" "mappable (n + 4 * (e + 1 - p)) (space_tables st)"
  shows "\<exists>st'. PlacePages s bytes v flags (page_address p) (page_address e) st = Some (Inr (st', True)) \<and>
    mappable n (space_tables st')"
  using assms(2,3)
proof (induction "e + 1 - p" arbitrary: p st)
  case 0
  then have "\<not> page_address p \<le> page_address e"
    using assms(1) by (simp add: word_le_nat_alt unat_page_address not_le)
  then show ?case using 0 PlacePages.simps [of s bytes v flags "page_address p" "page_address e" st] by simp
next
  case (Suc d)
  then have le: "page_address p \<le> page_address e"
    using assms(1) by (simp add: word_le_nat_alt unat_page_address)
  have "mappable ((n + 4 * d) + 4) (space_tables st)" using Suc.prems(2) Suc.hyps(2) [symmetric] by (simp add: ac_simps)
  then obtain st1 where 1: "PlacePage s bytes v flags (page_address p) st = Inr (st1, True)" "mappable (n + 4 * d) (space_tables st1)"
    by (rule PlacePage_succeeds)
  have "\<exists>st'. PlacePages s bytes v flags (page_address (Suc p)) (page_address e) st1 = Some (Inr (st', True)) \<and>
      mappable n (space_tables st')"
  proof (rule Suc.hyps(1))
    show "d = e + 1 - Suc p" using Suc.hyps(2) by simp
    then show "mappable (n + 4 * (e + 1 - Suc p)) (space_tables st1)" using 1(2) by metis
    show "Suc p \<le> e + 1" using Suc.hyps(2) by simp
  qed
  then show ?case
    using le 1(1) PlacePages.simps [of s bytes v flags "page_address p" "page_address e" st, unfolded page_address_Suc] by simp
qed

text \<open>The pages of the segments with a memory image, one counted for each segment upon it.\<close>

definition page_count :: "ElfProgramHeader \<Rightarrow> nat" where
  "page_count v = last_page v + 1 - first_byte v div 4096"

definition image_page_count :: "ElfProgramHeader list \<Rightarrow> nat" where
  "image_page_count vs = sum_list (map page_count (filter loadable vs))"

lemma ElfLoadSegment_succeeds:
  assumes sv: "sound_segment m v" and v: "loadable v" and room: "mappable (n + 4 * page_count v) (space_tables st)"
  shows "\<exists>st'. ElfLoadSegment s bytes v st = Some (Inr (st', ELF_OK)) \<and> mappable n (space_tables st')"
proof -
  note pages = sound_pages [OF sv v]
  have "last_page v < 2 ^ 51" using pages(1) by simp
  then obtain st1 where 1: "PlacePages s bytes v (segment_entry_flags (writable_segment v)) (page_address (first_byte v div 4096))
      (page_address (last_page v)) st = Some (Inr (st1, True))" "mappable n (space_tables st1)"
    using PlacePages_succeeds [of "last_page v" "first_byte v div 4096" n st s bytes v] pages(2) room
    by (auto simp: page_count_def)
  have "\<exists>im. ElfLoadSegment s bytes v st = Some (Inr (st1\<lparr>loaded := im\<rparr>, ELF_OK))"
    using 1(1) unfolding ElfLoadSegment_def pages(3,4) Let_def segment_entry_flags_def writable_segment_def
    by (simp split: if_splits) auto
  then obtain im where "ElfLoadSegment s bytes v st = Some (Inr (st1\<lparr>loaded := im\<rparr>, ELF_OK))" by blast
  then show ?thesis using 1(2) by (intro exI [of _ "st1\<lparr>loaded := im\<rparr>"]) simp
qed

lemma LoadSegmentsFrom_succeeds:
  assumes "\<And>v. v \<in> set vs \<Longrightarrow> loadable v \<Longrightarrow> sound_segment m v" "mappable (4 * image_page_count vs) (space_tables st)"
  shows "\<exists>st'. LoadSegmentsFrom s bytes vs st = Some (Inr (st', ELF_OK))"
  using assms
proof (induction vs arbitrary: st)
  case (Cons v vs)
  show ?case
  proof (cases "loadable v")
    case True
    then have "mappable (4 * image_page_count vs + 4 * page_count v) (space_tables st)"
      using Cons.prems(2) by (simp add: image_page_count_def algebra_simps)
    then obtain st1 where 1: "ElfLoadSegment s bytes v st = Some (Inr (st1, ELF_OK))" "mappable (4 * image_page_count vs) (space_tables st1)"
      using ElfLoadSegment_succeeds [OF _ True] Cons.prems(1) [of v] True by fastforce
    then obtain st2 where "LoadSegmentsFrom s bytes vs st1 = Some (Inr (st2, ELF_OK))"
      using Cons.IH [of st1] Cons.prems(1) by fastforce
    then show ?thesis using 1(1) True by (simp add: loadable_def)
  next
    case False
    then show ?thesis using Cons.IH [of st] Cons.prems by (auto simp: loadable_def image_page_count_def)
  qed
qed simp

subsection \<open>The whole of a load\<close>

definition entry_within :: "ElfProgramHeader list \<Rightarrow> u64 \<Rightarrow> bool" where
  "entry_within vs va \<longleftrightarrow> first_byte (hd (filter loadable vs)) \<le> unat va \<and> unat va < end_byte (last (filter loadable vs))"

lemma hull_entry:
  assumes "hull vs i" "filter loadable vs \<noteq> []"
  shows "entry_within vs va \<longleftrightarrow> lowest i \<le> va \<and> va < highest i"
  using assms by (auto simp: hull_def entry_within_def word_le_nat_alt word_less_nat_alt split: list.splits)

lemma ElfLoad_accepted:
  assumes V: "ElfValidate (Some bytes) n e = (e', ELF_OK)"
  shows "ElfLoad (Some s) (Some bytes) n (Some i) e m =
     map_option (\<lambda>r. bind_outcome r (\<lambda>(st, r).
                let i = loaded st; m = space_tables st
                in if r \<noteq> ELF_OK then Inr (elf_refused e', m, Some i, r)
                   else if header_entry (ElfLastHeader e') < lowest i \<or> highest i \<le> header_entry (ElfLastHeader e')
                   then Inr (elf_refused e', m, Some i, ELF_BAD_ADDRESS)
                   else Inr (e'\<lparr>ElfLoads := ElfLoads e' + 1\<rparr>, m,
                             Some (i\<lparr>image_entry := header_entry (ElfLastHeader e')\<rparr>), ELF_OK)))
                (LoadSegmentsFrom s bytes (ElfSegments e')
                   \<lparr>space_tables = m, shared_page = 0, shared_frame = 0,
                    loaded = \<lparr>image_entry = 0, lowest = 0, highest = 0, segments_loaded = 0, pages_loaded = 0\<rparr>\<rparr>)"
  using V by (simp add: ElfLoad_def Let_def)

lemma walks_none: "walks m root (\<lambda>_. None) fl = (\<lambda>va. walk (physical m) va 4 root)"
  by (simp add: walks_def fun_eq_iff)

lemma loaded_upto_start:
  assumes H: "hierarchy m lv root"
  shows "loaded_upto m lv root bytes vs [] \<lparr>space_tables = m, shared_page = 0, shared_frame = 0, loaded = im\<rparr>"
proof -
  have "placing m lv root bytes vs {} {} 0 0 \<lparr>space_tables = m, shared_page = 0, shared_frame = 0, loaded = im\<rparr>"
    unfolding placing_def
    using keeps_start [OF H]
    by (intro exI [of _ "\<lambda>_. None"] exI [of _ "\<lambda>_. 0 :: u64"] exI [of _ lv]) (auto simp: walks_none filled_def shared_ok_def)
  then show ?thesis unfolding loaded_upto_def image_pages_def written_pages_def by fastforce
qed

lemma ElfLoad_returns: "ElfLoad space source n im e m \<noteq> None"
proof (cases "\<exists>s i. space = Some s \<and> im = Some i")
  case True
  then obtain s i where si: "space = Some s" "im = Some i" by blast
  show ?thesis
  proof (cases "\<exists>bytes. source = Some bytes \<and> snd (ElfValidate source n e) = ELF_OK")
    case True
    then obtain bytes e' where V: "source = Some bytes" "ElfValidate (Some bytes) n e = (e', ELF_OK)"
      by (metis prod.collapse)
    have "LoadSegmentsFrom s bytes (ElfSegments e') st \<noteq> None" for st
      by (rule LoadSegmentsFrom_returns) (rule sound_loadable [OF ElfValidate_accepts(4) [OF V(2)]])
    then show ?thesis using V si ElfLoad_accepted [OF V(2)] by simp
  next
    case False
    then have "snd (ElfValidate source n e) \<noteq> ELF_OK"
      by (cases source) (auto simp: ElfValidate_def ElfDecode_def)
    then show ?thesis using si by (cases "ElfValidate source n e") (simp add: ElfLoad_def Let_def)
  qed
next
  case False
  then show ?thesis by (auto simp: ElfLoad_def split: option.splits)
qed

lemma ElfLoad_loads:
  assumes H: "hierarchy m lv root" and small: "small_user m root"
    and run: "ElfLoad (Some s) (Some bytes) n (Some i) e m = Some (Inr (e', m', Some i', ELF_OK))" and s: "space_root s = root"
  obtains st e1 where "ElfValidate (Some bytes) n e = (e1, ELF_OK)" "ElfSegments e' = ElfSegments e1"
    "ElfLastHeader e' = ElfLastHeader e1" "space_tables st = m'"
    "loaded_upto m lv root bytes (ElfSegments e') (ElfSegments e') st" "hull (ElfSegments e') i'"
    "image_entry i' = header_entry (ElfLastHeader e')" "lowest i' \<le> image_entry i'" "image_entry i' < highest i'"
proof -
  obtain e1 r where V: "ElfValidate (Some bytes) n e = (e1, r)" by (cases "ElfValidate (Some bytes) n e")
  have r: "r = ELF_OK" using run V by (auto simp: ElfLoad_def Let_def split: if_splits)
  note V = V [unfolded r]
  note A = ElfValidate_accepts [OF V]
  let ?st = "\<lparr>space_tables = m, shared_page = 0, shared_frame = 0,
    loaded = \<lparr>image_entry = 0, lowest = 0, highest = 0, segments_loaded = 0, pages_loaded = 0\<rparr>\<rparr> :: placing_state"
  obtain st where st: "LoadSegmentsFrom s bytes (ElfSegments e1) ?st = Some (Inr (st, ELF_OK))" "space_tables st = m'"
    "i' = (loaded st)\<lparr>image_entry := header_entry (ElfLastHeader e1)\<rparr>" "e' = e1\<lparr>ElfLoads := ElfLoads e1 + 1\<rparr>"
    "\<not> header_entry (ElfLastHeader e1) < lowest (loaded st)" "\<not> highest (loaded st) \<le> header_entry (ElfLastHeader e1)"
    using run unfolding ElfLoad_accepted [OF V] by (auto simp: Let_def bind_outcome_Inr_iff split: if_splits)
  have L: "loaded_upto m lv root bytes (ElfSegments e1) (ElfSegments e1) st"
    using LoadSegmentsFrom_loads [of m lv root bytes "[]" "ElfSegments e1" ?st "unat n" s st]
      loaded_upto_start [OF H] A(4) unat_u64 [of n] small s st(1) by simp
  have "hull (ElfSegments e1) (loaded st)"
    using LoadSegmentsFrom_hull [of "[]" ?st "unat n" "ElfSegments e1" s bytes st] A(4) st(1) by (simp add: hull_def)
  then have "hull (ElfSegments e1) i'" using st(3) by (simp add: hull_def split: list.splits)
  then show thesis
    using V st L by (intro that [of e1 st]) simp_all
qed

text \<open>A well-formed image with its entry within it loads wherever frames suffice.\<close>

lemma ElfLoad_succeeds:
  assumes h: "ElfDecode (Some bytes) n = Inr h" "well_formed_image bytes (unat n) h"
    and entry: "entry_within (program_headers bytes h) (header_entry h)"
    and room: "mappable (4 * image_page_count (program_headers bytes h)) m"
  shows "\<exists>e' m' i'. ElfLoad (Some s) (Some bytes) n (Some i) e m = Some (Inr (e', m', Some i', ELF_OK))"
proof -
  let ?vs = "program_headers bytes h" and ?e = "e\<lparr>ElfLastHeader := h, ElfHaveHeader := True\<rparr>"
  let ?st = "\<lparr>space_tables = m, shared_page = 0, shared_frame = 0,
    loaded = \<lparr>image_entry = 0, lowest = 0, highest = 0, segments_loaded = 0, pages_loaded = 0\<rparr>\<rparr> :: placing_state"
  define e1 where "e1 = ?e\<lparr>ElfSegments := ?vs\<rparr>"
  have e1: "ElfSegments e1 = ?vs" "header_entry (ElfLastHeader e1) = header_entry h" by (simp_all add: e1_def)
  have "snd (ElfReadSegments bytes n h ?e) = ELF_OK" using ElfReadSegments_accepts(1) h(2) by blast
  then have V: "ElfValidate (Some bytes) n e = (e1, ELF_OK)"
    using h(1) ElfReadSegments_accepts(2) [of bytes n h ?e] by (auto simp: ElfValidate_def e1_def prod_eq_iff)
  have S: "sound_segments (unat n) ?vs" and some: "filter loadable ?vs \<noteq> []"
    using h(2) by (auto simp: well_formed_image_def filter_empty_conv)
  obtain st where st: "LoadSegmentsFrom s bytes ?vs ?st = Some (Inr (st, ELF_OK))"
    using LoadSegmentsFrom_succeeds [of ?vs "unat n" ?st s bytes] sound_loadable [OF S] room by auto
  have "hull ([] @ ?vs) (loaded st)"
    by (rule LoadSegmentsFrom_hull [of "[]" ?st "unat n" ?vs s bytes st]) (use S st in \<open>simp_all add: hull_def\<close>)
  then have "lowest (loaded st) \<le> header_entry h \<and> header_entry h < highest (loaded st)"
    using hull_entry some entry by simp
  then show ?thesis unfolding ElfLoad_accepted [OF V] e1 st by (simp add: Let_def not_less not_le)
qed

end
