(* ===== verification/ElfProperties.thy ===== *)
theory ElfProperties
  imports ElfService ArenaProperties
begin

text \<open>
  The properties of the loader of executables (\<open>kernel/exec/elf.c\<close>), each with an image of 124
  bytes, one segment of four bytes of contents and 64 of memory, upon the small machine.
\<close>

subsection \<open>A small image\<close>











subsection \<open>The judgement\<close>

text \<open>An image is accepted exactly when it is well formed.  Its headers decode and have the sizes of
  the format, one to sixteen program headers lie within the file, none names an interpreter, and some
  segment has a memory image; the contents of every loadable segment lie within the file and are no
  longer than its memory, which lies between the first page and the limit of user space; and the
  segments ascend without overlapping.  Whatever the numbers in the file, no sum taken in the
  judgement wraps to make it otherwise.
\<close>

lemma accepted_images_are_well_formed:
  "snd (ElfValidate source n e) = ELF_OK \<longleftrightarrow>
     (\<exists>bytes h. source = Some bytes \<and> ElfDecode source n = Inr h \<and> well_formed_image bytes (unat n) h)"
proof (cases source)
  case None
  then show ?thesis by (simp add: ElfValidate_def ElfDecode_def)
next
  case (Some bytes)
  show ?thesis
  proof (cases "ElfDecode source n")
    case (Inl r)
    then show ?thesis using ElfDecode_accepts(1) [of source n] by (auto simp: ElfValidate_def)
  next
    case (Inr h)
    then show ?thesis using Some ElfReadSegments_accepts(1) by (simp add: ElfValidate_def)
  qed
qed

subsection \<open>What is loaded\<close>









end
