(* ===== verification/BlockLayer.thy ===== *)
theory BlockLayer
  imports SlotSearch
begin

text \<open>
  The block layer (\<open>kernel/block/block.c\<close>): the registry of devices and the checks every
  transfer passes before a driver sees it.  A driver is its two operations on a world of its own,
  the type \<open>'w\<close>; a device is named by its slot in the registry.  A name is its bytes with the
  terminator, and a buffer is the bytes at the address a caller gives.
\<close>

definition BLOCK_NAME_MAXIMUM :: nat where "BLOCK_NAME_MAXIMUM = 15"
definition BLOCK_SIZE_DEFAULT :: u32 where "BLOCK_SIZE_DEFAULT = 512"

record 'w BlockOperations =
  operation_read :: "(u64 \<Rightarrow> u64 \<Rightarrow> u32 \<Rightarrow> u8 list \<Rightarrow> 'w \<Rightarrow> 'w \<times> u8 list \<times> bool) option"
  operation_write :: "(u64 \<Rightarrow> u64 \<Rightarrow> u32 \<Rightarrow> u8 list \<Rightarrow> 'w \<Rightarrow> 'w \<times> bool) option"

record 'w BlockDevice =
  device_name :: "u8 list"
  operations :: "'w BlockOperations option"
  device_context :: u64
  block_size :: u32
  block_count :: u64
  read_only :: bool
  registered :: bool
  device_reads :: u64
  device_writes :: u64
  blocks_read :: u64
  blocks_written :: u64
  device_errors :: u64
  device_refusals :: u64

record 'w block_state =
  BlockDevices :: "'w BlockDevice list"
  BlockReads :: u64
  BlockWrites :: u64
  BlockRefusals :: u64
  BlockErrors :: u64
  world :: 'w

definition empty_device :: "'w BlockDevice" where
  "empty_device = \<lparr>device_name = replicate 16 0, operations = None, device_context = 0, block_size = 0, block_count = 0,
     read_only = False, registered = False, device_reads = 0, device_writes = 0, blocks_read = 0, blocks_written = 0,
     device_errors = 0, device_refusals = 0\<rparr>"

definition set_device :: "nat \<Rightarrow> ('w BlockDevice \<Rightarrow> 'w BlockDevice) \<Rightarrow> 'w block_state \<Rightarrow> 'w block_state" where
  "set_device d f s = s\<lparr>BlockDevices := (BlockDevices s)[d := f (BlockDevices s ! d)]\<rparr>"

definition BlockRefuse :: "nat option \<Rightarrow> 'w block_state \<Rightarrow> 'w block_state" where
  "BlockRefuse device s =
     (let s = s\<lparr>BlockRefusals := BlockRefusals s + 1\<rparr>
      in case device of
           None \<Rightarrow> s
         | Some d \<Rightarrow> set_device d (\<lambda>v. v\<lparr>device_refusals := device_refusals v + 1\<rparr>) s)"

subsection \<open>Names\<close>

fun BlockNamesMatch :: "u8 list \<Rightarrow> u8 list \<Rightarrow> bool" where
  "BlockNamesMatch (l # left) (r # right) = (if l \<noteq> 0 \<and> l = r then BlockNamesMatch left right else l = r)"
| "BlockNamesMatch left right = (left = right)"

text \<open>The copy of a name into the field, with the length it found, or nothing for one too long.\<close>

fun CopyNameFrom :: "u8 list \<Rightarrow> nat \<Rightarrow> u8 list \<Rightarrow> u8 list \<times> nat option" where
  "CopyNameFrom [] n field = (field, None)"
| "CopyNameFrom (c # name) n field =
     (if c = 0 then (field, Some n)
      else if BLOCK_NAME_MAXIMUM \<le> n then (field, None)
      else CopyNameFrom name (n + 1) (field[n := c]))"

definition BlockCopyName :: "nat \<Rightarrow> u8 list \<Rightarrow> 'w block_state \<Rightarrow> 'w block_state \<times> bool" where
  "BlockCopyName d name s =
     (let (field, found) = CopyNameFrom name 0 (device_name (BlockDevices s ! d));
          s = set_device d (\<lambda>v. v\<lparr>device_name := field\<rparr>) s
      in case found of
           None \<Rightarrow> (s, False)
         | Some n \<Rightarrow>
             if n = 0 then (s, False)
             else (set_device d (\<lambda>v. v\<lparr>device_name := (device_name v)[n := 0]\<rparr>) s, True))"

definition BlockFindByName :: "u8 list option \<Rightarrow> 'w block_state \<Rightarrow> nat option" where
  "BlockFindByName name s =
     (case name of
        None \<Rightarrow> None
      | Some n \<Rightarrow>
          find (\<lambda>d. registered (BlockDevices s ! d) \<and> BlockNamesMatch (device_name (BlockDevices s ! d)) n)
            [0..<length (BlockDevices s)])"

definition BlockDeviceCount :: "'w block_state \<Rightarrow> nat" where
  "BlockDeviceCount s = length (filter registered (BlockDevices s))"

fun DeviceAtFrom :: "'w BlockDevice list \<Rightarrow> nat \<Rightarrow> nat \<Rightarrow> nat option" where
  "DeviceAtFrom [] position index = None"
| "DeviceAtFrom (v # devices) position index =
     (if \<not> registered v then DeviceAtFrom devices (position + 1) index
      else if index = 0 then Some position
      else DeviceAtFrom devices (position + 1) (index - 1))"

definition BlockDeviceAt :: "nat \<Rightarrow> 'w block_state \<Rightarrow> nat option" where
  "BlockDeviceAt index s = DeviceAtFrom (BlockDevices s) 0 index"

subsection \<open>The registry\<close>

text \<open>\<open>grow\<close> is the growth of the registry's table.\<close>

definition BlockRegister ::
  "('w BlockDevice list \<Rightarrow> 'w BlockDevice list option) \<Rightarrow> u8 list option \<Rightarrow> 'w BlockOperations option \<Rightarrow> u64 \<Rightarrow> u32 \<Rightarrow> u64 \<Rightarrow>
   bool \<Rightarrow> 'w block_state \<Rightarrow> ('w block_state \<times> nat option) option" where
  "BlockRegister grow name ops driver bytes_each blocks only_read s =
     (case (name, ops) of
        (Some n, Some os) \<Rightarrow>
          if operation_read os = None \<or> bytes_each = 0 \<or> blocks = 0 then Some (BlockRefuse None s, None)
          else if only_read \<noteq> (operation_write os = None) then Some (BlockRefuse None s, None)
          else if BlockFindByName (Some n) s \<noteq> None then Some (BlockRefuse None s, None)
          else
            case FreeSlot registered grow 0 (BlockDevices s) of
               None \<Rightarrow> None
             | Some (devices, None) \<Rightarrow> Some (BlockRefuse None (s\<lparr>BlockDevices := devices\<rparr>), None)
             | Some (devices, Some d) \<Rightarrow>
                 let (s, copied) = BlockCopyName d n (s\<lparr>BlockDevices := devices\<rparr>)
                 in if \<not> copied then Some (BlockRefuse None s, None)
                    else Some (set_device d (\<lambda>v. v\<lparr>operations := Some os, device_context := driver, block_size := bytes_each,
                           block_count := blocks, read_only := only_read, device_reads := 0, device_writes := 0,
                           blocks_read := 0, blocks_written := 0, device_errors := 0, device_refusals := 0,
                           registered := True\<rparr>) s, Some d)
      | _ \<Rightarrow> Some (BlockRefuse None s, None))"

definition BlockUnregister :: "nat option \<Rightarrow> 'w block_state \<Rightarrow> 'w block_state \<times> bool" where
  "BlockUnregister device s =
     (case device of
        None \<Rightarrow> (BlockRefuse device s, False)
      | Some d \<Rightarrow>
          if \<not> registered (BlockDevices s ! d) then (BlockRefuse device s, False)
          else (set_device d (\<lambda>v. v\<lparr>registered := False, operations := None, device_context := 0,
                  device_name := (device_name v)[0 := 0]\<rparr>) s, True))"

subsection \<open>Transfers\<close>

text \<open>
  A transfer yields the bytes of the buffer as it leaves them.  A registered device has its
  operations, as \<open>BlockRegister\<close> sees to; the case without them stands for the null call.
\<close>

definition BlockTransfer ::
  "nat option \<Rightarrow> u64 \<Rightarrow> u32 \<Rightarrow> u8 list option \<Rightarrow> bool \<Rightarrow> 'w block_state \<Rightarrow> 'w block_state \<times> u8 list option \<times> bool" where
  "BlockTransfer device block count buffer writing s =
     (case device of
        None \<Rightarrow> (BlockRefuse device s, buffer, False)
      | Some d \<Rightarrow>
          let v = BlockDevices s ! d
          in if \<not> registered v then (BlockRefuse device s, buffer, False)
             else if writing \<and> read_only v then (BlockRefuse device s, buffer, False)
             else if count = 0 then (s, buffer, True)
             else
               case buffer of
                  None \<Rightarrow> (BlockRefuse device s, buffer, False)
                | Some bytes \<Rightarrow>
                    if block_count v \<le> block \<or> block_count v - block < ucast count
                    then (BlockRefuse device s, buffer, False)
                    else
                      let ops = the (operations v);
                          (w, bytes, succeeded) =
                            (if writing
                             then let (w, ok) = the (operation_write ops) (device_context v) block count bytes (world s)
                                  in (w, bytes, ok)
                             else the (operation_read ops) (device_context v) block count bytes (world s));
                          s = s\<lparr>world := w\<rparr>
                      in if \<not> succeeded
                         then (set_device d (\<lambda>v. v\<lparr>device_errors := device_errors v + 1\<rparr>) s\<lparr>BlockErrors := BlockErrors s + 1\<rparr>,
                               Some bytes, False)
                         else if writing
                         then (set_device d (\<lambda>v. v\<lparr>device_writes := device_writes v + 1,
                                 blocks_written := blocks_written v + ucast count\<rparr>) s\<lparr>BlockWrites := BlockWrites s + 1\<rparr>,
                               Some bytes, True)
                         else (set_device d (\<lambda>v. v\<lparr>device_reads := device_reads v + 1,
                                 blocks_read := blocks_read v + ucast count\<rparr>) s\<lparr>BlockReads := BlockReads s + 1\<rparr>,
                               Some bytes, True))"

definition BlockRead :: "nat option \<Rightarrow> u64 \<Rightarrow> u32 \<Rightarrow> u8 list option \<Rightarrow> 'w block_state \<Rightarrow> 'w block_state \<times> u8 list option \<times> bool" where
  "BlockRead device block count buffer s = BlockTransfer device block count buffer False s"

definition BlockWrite :: "nat option \<Rightarrow> u64 \<Rightarrow> u32 \<Rightarrow> u8 list option \<Rightarrow> 'w block_state \<Rightarrow> 'w block_state \<times> bool" where
  "BlockWrite device block count buffer s =
     (let (s, _, succeeded) = BlockTransfer device block count buffer True s in (s, succeeded))"

end
