(* ===== verification/BufferCache.thy ===== *)
theory BufferCache
  imports BlockLayer
begin

text \<open>
  The buffer cache (\<open>kernel/block/buffer.c\<close>): blocks of devices held in memory, found through
  the chains of a hash table and reused in the order of a doubly linked recency list.  Buffers
  and their entries are named by their index, \<open>None\<close> where the source has \<open>BUFFER_NONE\<close>; the
  storage of a buffer is the bytes it holds.  A walk along links that a ring would keep from
  ending is a partial function.
\<close>

definition BUFFER_CAPACITY :: nat where "BUFFER_CAPACITY = 64"
definition BUFFER_BLOCK_SIZE :: u32 where "BUFFER_BLOCK_SIZE = BLOCK_SIZE_DEFAULT"
definition BUFFER_BUCKET_COUNT :: nat where "BUFFER_BUCKET_COUNT = 128"

record Buffer =
  buffer_device :: "nat option"
  buffer_block :: u64
  buffer_data :: "u8 list"
  buffer_references :: u32
  buffer_valid :: bool
  buffer_dirty :: bool

record BufferEntry =
  hash_next :: "nat option"
  older :: "nat option"
  newer :: "nat option"
  linked :: bool
  listed :: bool

record 'w buffer_state =
  BufferTable :: "Buffer list"
  BufferEntries :: "BufferEntry list"
  BufferBuckets :: "nat option list"
  BufferNewest :: "nat option"
  BufferOldest :: "nat option"
  BufferReady :: bool
  BufferHitCount :: u64
  BufferMissCount :: u64
  BufferEvictionCount :: u64
  BufferWriteBackCount :: u64
  BufferFailureCount :: u64
  block_layer :: "'w block_state"
  device_address :: "nat \<Rightarrow> u64"

definition set_buffer :: "nat \<Rightarrow> (Buffer \<Rightarrow> Buffer) \<Rightarrow> 'w buffer_state \<Rightarrow> 'w buffer_state" where
  "set_buffer i f c = c\<lparr>BufferTable := (BufferTable c)[i := f (BufferTable c ! i)]\<rparr>"

definition set_entry :: "nat \<Rightarrow> (BufferEntry \<Rightarrow> BufferEntry) \<Rightarrow> 'w buffer_state \<Rightarrow> 'w buffer_state" where
  "set_entry i f c = c\<lparr>BufferEntries := (BufferEntries c)[i := f (BufferEntries c ! i)]\<rparr>"

subsection \<open>The chains\<close>

text \<open>\<open>address\<close> is where the device stands in memory, or zero for none.\<close>

definition BufferBucketOf :: "u64 \<Rightarrow> u64 \<Rightarrow> nat" where
  "BufferBucketOf address block = unat ((block XOR drop_bit 4 address) AND (word_of_nat BUFFER_BUCKET_COUNT - 1))"

definition address_of :: "nat option \<Rightarrow> 'w buffer_state \<Rightarrow> u64" where
  "address_of device c = (case device of None \<Rightarrow> 0 | Some d \<Rightarrow> device_address c d)"

definition bucket_of :: "nat \<Rightarrow> 'w buffer_state \<Rightarrow> nat" where
  "bucket_of i c = BufferBucketOf (address_of (buffer_device (BufferTable c ! i)) c) (buffer_block (BufferTable c ! i))"

definition BufferLink :: "nat \<Rightarrow> 'w buffer_state \<Rightarrow> 'w buffer_state" where
  "BufferLink index c =
     (let bucket = bucket_of index c;
          c = set_entry index (\<lambda>e. e\<lparr>hash_next := BufferBuckets c ! bucket\<rparr>) c;
          c = c\<lparr>BufferBuckets := (BufferBuckets c)[bucket := Some index]\<rparr>
      in set_entry index (\<lambda>e. e\<lparr>linked := True\<rparr>) c)"

text \<open>The entry of a chain that stands before another.\<close>

partial_function (option) EntryBefore :: "BufferEntry list \<Rightarrow> nat \<Rightarrow> nat option \<Rightarrow> nat option option" where
  "EntryBefore entries index current =
     (case current of
        None \<Rightarrow> Some None
      | Some e \<Rightarrow> if hash_next (entries ! e) = Some index then Some (Some e)
                  else EntryBefore entries index (hash_next (entries ! e)))"

definition BufferUnlink :: "nat \<Rightarrow> 'w buffer_state \<Rightarrow> 'w buffer_state option" where
  "BufferUnlink index c =
     (if \<not> linked (BufferEntries c ! index) then Some c
      else
        let bucket = bucket_of index c;
            current = BufferBuckets c ! bucket;
            next = hash_next (BufferEntries c ! index);
            cleared = set_entry index (\<lambda>e. e\<lparr>hash_next := None, linked := False\<rparr>)
        in if current = Some index
           then Some (cleared (c\<lparr>BufferBuckets := (BufferBuckets c)[bucket := next]\<rparr>))
           else case EntryBefore (BufferEntries c) index current of
                  None \<Rightarrow> None
                | Some None \<Rightarrow> Some (cleared c)
                | Some (Some before) \<Rightarrow> Some (cleared (set_entry before (\<lambda>e. e\<lparr>hash_next := next\<rparr>) c)))"

subsection \<open>The recency list\<close>

definition BufferDetach :: "nat \<Rightarrow> 'w buffer_state \<Rightarrow> 'w buffer_state" where
  "BufferDetach index c =
     (let to_older = older (BufferEntries c ! index); to_newer = newer (BufferEntries c ! index)
      in if \<not> listed (BufferEntries c ! index) then c
         else
           let c = (case to_newer of
                      Some e \<Rightarrow> set_entry e (\<lambda>v. v\<lparr>older := to_older\<rparr>) c
                    | None \<Rightarrow> c\<lparr>BufferNewest := to_older\<rparr>);
               c = (case to_older of
                      Some e \<Rightarrow> set_entry e (\<lambda>v. v\<lparr>newer := to_newer\<rparr>) c
                    | None \<Rightarrow> c\<lparr>BufferOldest := to_newer\<rparr>)
           in set_entry index (\<lambda>v. v\<lparr>older := None, newer := None, listed := False\<rparr>) c)"

definition BufferTouch :: "nat \<Rightarrow> 'w buffer_state \<Rightarrow> 'w buffer_state" where
  "BufferTouch index c =
     (let c = BufferDetach index c;
          c = set_entry index (\<lambda>v. v\<lparr>older := BufferNewest c, newer := None\<rparr>) c;
          c = (case BufferNewest c of
                 Some e \<Rightarrow> set_entry e (\<lambda>v. v\<lparr>newer := Some index\<rparr>) c
               | None \<Rightarrow> c);
          c = c\<lparr>BufferNewest := Some index\<rparr>;
          c = set_entry index (\<lambda>v. v\<lparr>listed := True\<rparr>) c
      in if BufferOldest c = None then c\<lparr>BufferOldest := Some index\<rparr> else c)"

subsection \<open>Finding and writing back\<close>

definition holds :: "Buffer \<Rightarrow> nat \<Rightarrow> u64 \<Rightarrow> bool" where
  "holds b device block \<longleftrightarrow> buffer_valid b \<and> buffer_device b = Some device \<and> buffer_block b = block"

partial_function (option) FindFrom :: "'w buffer_state \<Rightarrow> nat \<Rightarrow> u64 \<Rightarrow> nat option \<Rightarrow> nat option option" where
  "FindFrom c device block index =
     (case index of
        None \<Rightarrow> Some None
      | Some e \<Rightarrow> if holds (BufferTable c ! e) device block then Some (Some e)
                  else FindFrom c device block (hash_next (BufferEntries c ! e)))"

definition BufferFind :: "nat \<Rightarrow> u64 \<Rightarrow> 'w buffer_state \<Rightarrow> nat option option" where
  "BufferFind device block c =
     FindFrom c device block (BufferBuckets c ! BufferBucketOf (device_address c device) block)"

definition BufferWriteBack :: "nat \<Rightarrow> 'w buffer_state \<Rightarrow> 'w buffer_state \<times> bool" where
  "BufferWriteBack index c =
     (let b = BufferTable c ! index
      in if \<not> buffer_valid b \<or> \<not> buffer_dirty b then (c, True)
         else
           let (s, written) = BlockWrite (buffer_device b) (buffer_block b) 1 (Some (buffer_data b)) (block_layer c);
               c = c\<lparr>block_layer := s\<rparr>
           in if \<not> written then (c\<lparr>BufferFailureCount := BufferFailureCount c + 1\<rparr>, False)
              else ((set_buffer index (\<lambda>b. b\<lparr>buffer_dirty := False\<rparr>) c)\<lparr>BufferWriteBackCount := BufferWriteBackCount c + 1\<rparr>, True))"

partial_function (option) ClaimFrom :: "'w buffer_state \<Rightarrow> nat option \<Rightarrow> nat option option" where
  "ClaimFrom c index =
     (case index of
        None \<Rightarrow> Some None
      | Some e \<Rightarrow> if buffer_references (BufferTable c ! e) = 0 then Some (Some e)
                  else ClaimFrom c (newer (BufferEntries c ! e)))"

definition forget :: "Buffer \<Rightarrow> Buffer" where
  "forget b = b\<lparr>buffer_valid := False, buffer_dirty := False, buffer_device := None, buffer_block := 0\<rparr>"

definition BufferClaim :: "'w buffer_state \<Rightarrow> ('w buffer_state \<times> nat option) option" where
  "BufferClaim c =
     (case ClaimFrom c (BufferOldest c) of
        None \<Rightarrow> None
      | Some None \<Rightarrow> Some (c, None)
      | Some (Some index) \<Rightarrow>
          if \<not> buffer_valid (BufferTable c ! index) then Some (set_buffer index forget c, Some index)
          else
            let (c, written) = BufferWriteBack index c
            in if \<not> written then Some (c, None)
               else case BufferUnlink index c of
                      None \<Rightarrow> None
                    | Some c \<Rightarrow>
                        Some (set_buffer index forget (c\<lparr>BufferEvictionCount := BufferEvictionCount c + 1\<rparr>), Some index))"

subsection \<open>The operations\<close>

text \<open>\<open>storage\<close> is what \<open>KernelAllocate\<close> gave, or nothing.\<close>

definition BufferPrepare :: "u8 list \<Rightarrow> nat \<Rightarrow> 'w buffer_state \<Rightarrow> 'w buffer_state" where
  "BufferPrepare storage index c =
     (let size = unat BUFFER_BLOCK_SIZE;
          c = set_buffer index (\<lambda>b. \<lparr>buffer_device = None, buffer_block = 0, buffer_data = take size (drop (index * size) storage),
                buffer_references = 0, buffer_valid = False, buffer_dirty = False\<rparr>) c;
          c = set_entry index (\<lambda>e. \<lparr>hash_next = None, older = None, newer = None, linked = False, listed = False\<rparr>) c
      in BufferTouch index c)"

definition BufferInitialise :: "u8 list option \<Rightarrow> 'w buffer_state \<Rightarrow> 'w buffer_state \<times> bool" where
  "BufferInitialise storage c =
     (case storage of
        None \<Rightarrow> (c\<lparr>BufferReady := False\<rparr>, False)
      | Some bytes \<Rightarrow>
          let c = c\<lparr>BufferBuckets := replicate BUFFER_BUCKET_COUNT None, BufferNewest := None, BufferOldest := None\<rparr>;
              c = fold (BufferPrepare bytes) [0..<BUFFER_CAPACITY] c
          in (c\<lparr>BufferHitCount := 0, BufferMissCount := 0, BufferEvictionCount := 0, BufferWriteBackCount := 0,
                BufferFailureCount := 0, BufferReady := True\<rparr>, True))"

text \<open>A claimed buffer filled with its block, or given up again.\<close>

definition BufferFill :: "nat \<Rightarrow> u64 \<Rightarrow> nat \<Rightarrow> 'w buffer_state \<Rightarrow> 'w buffer_state \<times> nat option" where
  "BufferFill device block index c =
     (let c = set_buffer index (\<lambda>b. b\<lparr>buffer_device := Some device, buffer_block := block\<rparr>) c;
          (s, bytes, succeeded) = BlockRead (Some device) block 1 (Some (buffer_data (BufferTable c ! index))) (block_layer c);
          c = set_buffer index (\<lambda>b. b\<lparr>buffer_data := the bytes\<rparr>) (c\<lparr>block_layer := s\<rparr>)
      in if \<not> succeeded
         then ((set_buffer index (\<lambda>b. b\<lparr>buffer_device := None, buffer_block := 0\<rparr>) c)
                 \<lparr>BufferFailureCount := BufferFailureCount c + 1\<rparr>, None)
         else (BufferTouch index (BufferLink index (set_buffer index
                 (\<lambda>b. b\<lparr>buffer_valid := True, buffer_dirty := False, buffer_references := 1\<rparr>) c)), Some index))"

definition BufferGet :: "nat option \<Rightarrow> u64 \<Rightarrow> 'w buffer_state \<Rightarrow> ('w buffer_state \<times> nat option) option" where
  "BufferGet device block c =
     (case device of
        None \<Rightarrow> Some (c, None)
      | Some d \<Rightarrow>
          if \<not> BufferReady c then Some (c, None)
          else if block_size (BlockDevices (block_layer c) ! d) \<noteq> BUFFER_BLOCK_SIZE then Some (c, None)
          else case BufferFind d block c of
                 None \<Rightarrow> None
               | Some (Some index) \<Rightarrow>
                   let c = BufferTouch index (c\<lparr>BufferHitCount := BufferHitCount c + 1\<rparr>)
                   in Some (set_buffer index (\<lambda>b. b\<lparr>buffer_references := buffer_references b + 1\<rparr>) c, Some index)
               | Some None \<Rightarrow>
                   (case BufferClaim (c\<lparr>BufferMissCount := BufferMissCount c + 1\<rparr>) of
                      None \<Rightarrow> None
                    | Some (c, None) \<Rightarrow> Some (c, None)
                    | Some (c, Some index) \<Rightarrow> Some (BufferFill d block index c)))"

definition BufferRelease :: "nat option \<Rightarrow> 'w buffer_state \<Rightarrow> 'w buffer_state" where
  "BufferRelease buffer c =
     (case buffer of
        None \<Rightarrow> c
      | Some i \<Rightarrow>
          if buffer_references (BufferTable c ! i) = 0 then c
          else set_buffer i (\<lambda>b. b\<lparr>buffer_references := buffer_references b - 1\<rparr>) c)"

definition BufferMarkDirty :: "nat option \<Rightarrow> 'w buffer_state \<Rightarrow> 'w buffer_state" where
  "BufferMarkDirty buffer c =
     (case buffer of
        None \<Rightarrow> c
      | Some i \<Rightarrow>
          if \<not> buffer_valid (BufferTable c ! i) then c
          else set_buffer i (\<lambda>b. b\<lparr>buffer_dirty := True\<rparr>) c)"

definition BufferFlush :: "nat option \<Rightarrow> 'w buffer_state \<Rightarrow> 'w buffer_state \<times> bool" where
  "BufferFlush buffer c =
     (case buffer of
        None \<Rightarrow> (c, False)
      | Some i \<Rightarrow> if BUFFER_CAPACITY \<le> i then (c, False) else BufferWriteBack i c)"

definition BufferSync :: "'w buffer_state \<Rightarrow> 'w buffer_state \<times> bool" where
  "BufferSync c =
     fold (\<lambda>index (c, succeeded). let (c, written) = BufferWriteBack index c in (c, succeeded \<and> written))
       [0..<BUFFER_CAPACITY] (c, True)"

text \<open>The least recently used end, where the next entry to be claimed stands.\<close>

definition PutOldest :: "nat \<Rightarrow> 'w buffer_state \<Rightarrow> 'w buffer_state" where
  "PutOldest index c =
     (let c = set_entry index (\<lambda>e. e\<lparr>newer := BufferOldest c, older := None\<rparr>) c;
          c = (case BufferOldest c of
                 Some e \<Rightarrow> set_entry e (\<lambda>v. v\<lparr>older := Some index\<rparr>) c
               | None \<Rightarrow> c);
          c = c\<lparr>BufferOldest := Some index\<rparr>;
          c = set_entry index (\<lambda>e. e\<lparr>listed := True\<rparr>) c
      in if BufferNewest c = None then c\<lparr>BufferNewest := Some index\<rparr> else c)"

text \<open>One entry of the device: written back, unlinked, emptied and put first in line to be claimed.\<close>

definition BufferDiscard :: "nat \<Rightarrow> nat \<Rightarrow> 'w buffer_state \<times> bool \<Rightarrow> ('w buffer_state \<times> bool) option" where
  "BufferDiscard device index r =
     (let (c, succeeded) = r
      in if buffer_device (BufferTable c ! index) \<noteq> Some device then Some (c, succeeded)
         else
           let (c, written) = BufferWriteBack index c
           in if \<not> written then Some (c, False)
              else case BufferUnlink index c of
                     None \<Rightarrow> None
                   | Some c \<Rightarrow>
                       Some (PutOldest index (BufferDetach index (set_buffer index forget c)), succeeded))"

fun DiscardFrom :: "nat \<Rightarrow> nat list \<Rightarrow> 'w buffer_state \<times> bool \<Rightarrow> ('w buffer_state \<times> bool) option" where
  "DiscardFrom device [] r = Some r"
| "DiscardFrom device (index # indices) r =
     (case BufferDiscard device index r of None \<Rightarrow> None | Some r \<Rightarrow> DiscardFrom device indices r)"

definition BufferInvalidateDevice :: "nat option \<Rightarrow> 'w buffer_state \<Rightarrow> ('w buffer_state \<times> bool) option" where
  "BufferInvalidateDevice device c =
     (case device of
        None \<Rightarrow> Some (c, False)
      | Some d \<Rightarrow>
          if list_ex (\<lambda>index. buffer_device (BufferTable c ! index) = device \<and> buffer_references (BufferTable c ! index) \<noteq> 0)
               [0..<BUFFER_CAPACITY]
          then Some (c, False)
          else DiscardFrom d [0..<BUFFER_CAPACITY] (c, True))"

definition BufferCount :: "'w buffer_state \<Rightarrow> nat" where
  "BufferCount c = (if BufferReady c then BUFFER_CAPACITY else 0)"

definition BufferValidCount :: "'w buffer_state \<Rightarrow> nat" where
  "BufferValidCount c = length (filter (\<lambda>i. buffer_valid (BufferTable c ! i)) [0..<BUFFER_CAPACITY])"

definition BufferDirtyCount :: "'w buffer_state \<Rightarrow> nat" where
  "BufferDirtyCount c =
     length (filter (\<lambda>i. buffer_valid (BufferTable c ! i) \<and> buffer_dirty (BufferTable c ! i)) [0..<BUFFER_CAPACITY])"

definition BufferHeldCount :: "'w buffer_state \<Rightarrow> nat" where
  "BufferHeldCount c = length (filter (\<lambda>i. buffer_references (BufferTable c ! i) \<noteq> 0) [0..<BUFFER_CAPACITY])"

end
