(* ===== verification/BufferLists.thy ===== *)
theory BufferLists
  imports BufferCache SlotSearch
begin

text \<open>
  The two structures of the buffer cache as lists: the recency list, whose entries name their
  neighbours both ways, and the chains of the hash table.  Each operation upon one is shown as
  the operation upon the list, and leaves the other alone.
\<close>

subsection \<open>Lanes\<close>

definition first :: "nat list \<Rightarrow> nat option \<Rightarrow> nat option" where
  "first xs n = (case xs of [] \<Rightarrow> n | x # _ \<Rightarrow> Some x)"

definition final :: "nat option \<Rightarrow> nat list \<Rightarrow> nat option" where
  "final p xs = (if xs = [] then p else Some (last xs))"

lemma first_simps [simp]: "first [] n = n" "first (x # xs) n = Some x" "xs \<noteq> [] \<Longrightarrow> first xs n = Some (hd xs)"
  by (simp_all add: first_def split: list.split)

lemma final_simps [simp]: "final p [] = p" "final p (xs @ [x]) = Some x" "xs \<noteq> [] \<Longrightarrow> final p xs = Some (last xs)"
  by (simp_all add: final_def)

fun lane :: "BufferEntry list \<Rightarrow> nat option \<Rightarrow> nat list \<Rightarrow> nat option \<Rightarrow> bool" where
  "lane es p [] n = True"
| "lane es p (x # xs) n = (older (es ! x) = p \<and> newer (es ! x) = first xs n \<and> lane es (Some x) xs n)"

lemma first_append: "first (xs @ ys) n = first xs (first ys n)"
  by (cases xs) simp_all

lemma final_append: "final p (xs @ ys) = final (final p xs) ys"
  by (simp add: final_def)

lemma lane_append: "lane es p (xs @ ys) n \<longleftrightarrow> lane es p xs (first ys n) \<and> lane es (final p xs) ys n"
  by (induction xs arbitrary: p) (auto simp: first_append final_def)

lemma lane_hd: "lane es p xs n \<Longrightarrow> x \<in> set xs \<Longrightarrow> older (es ! hd xs) = p"
  by (cases xs) simp_all

lemma lane_last: 
  assumes "lane es p xs n" "x \<in> set xs"
  shows "newer (es ! last xs) = n"
proof -
  obtain ys y where xs: "xs = ys @ [y]" using assms(2) by (cases xs rule: rev_cases) auto
  then show ?thesis using assms(1) by (simp add: lane_append)
qed

text \<open>A lane whose ends are tied elsewhere.\<close>

lemma lane_ends:
  assumes "lane es p xs n" "distinct xs"
    and "\<And>x. x \<in> set xs \<Longrightarrow> older (es' ! x) = (if x = hd xs then p' else older (es ! x))"
    and "\<And>x. x \<in> set xs \<Longrightarrow> newer (es' ! x) = (if x = last xs then n' else newer (es ! x))"
  shows "lane es' p' xs n'"
  using assms
proof (induction xs arbitrary: p p')
  case (Cons x xs)
  have "lane es' (Some x) xs n'"
  proof (rule Cons.IH)
    show "lane es (Some x) xs n" "distinct xs" using Cons.prems by simp_all
    show "older (es' ! y) = (if y = hd xs then Some x else older (es ! y))" if "y \<in> set xs" for y
    proof -
      have "y \<noteq> x" using that Cons.prems(2) by auto
      moreover have "older (es ! hd xs) = Some x" using Cons.prems(1) that by (cases xs) auto
      ultimately show ?thesis using Cons.prems(3) [of y] that by simp
    qed
    show "newer (es' ! y) = (if y = last xs then n' else newer (es ! y))" if "y \<in> set xs" for y
      using Cons.prems(4) [of y] that by (cases xs) auto
  qed
  moreover have "older (es' ! x) = p'" using Cons.prems(3) by simp
  moreover have "newer (es' ! x) = first xs n'"
  proof (cases xs)
    case Nil
    then show ?thesis using Cons.prems(4) [of x] by simp
  next
    case (Cons y ys)
    then have "last (x # xs) \<in> set xs" "x \<notin> set xs" using Cons.prems(2) by auto
    then have "x \<noteq> last (x # xs)" by metis
    then show ?thesis using Cons.prems(1) Cons.prems(4) [of x] Cons by simp
  qed
  ultimately show ?case by simp
qed simp

subsection \<open>The recency list\<close>

definition shape :: "'w buffer_state \<Rightarrow> bool" where
  "shape c \<longleftrightarrow> length (BufferTable c) = 64 \<and> length (BufferEntries c) = 64 \<and> length (BufferBuckets c) = 128"

definition recency :: "'w buffer_state \<Rightarrow> nat list \<Rightarrow> bool" where
  "recency c xs \<longleftrightarrow> distinct xs \<and> set xs \<subseteq> {..<64} \<and> lane (BufferEntries c) None xs None \<and>
     BufferOldest c = first xs None \<and> BufferNewest c = final None xs \<and>
     (\<forall>i < 64. listed (BufferEntries c ! i) \<longleftrightarrow> i \<in> set xs)"

text \<open>What the operations upon the recency list leave alone.\<close>

definition recency_only :: "'w buffer_state \<Rightarrow> 'w buffer_state \<Rightarrow> bool" where
  "recency_only c c' \<longleftrightarrow> (\<exists>es n old. c' = c\<lparr>BufferEntries := es, BufferNewest := n, BufferOldest := old\<rparr> \<and>
     map (\<lambda>e. (hash_next e, linked e)) es = map (\<lambda>e. (hash_next e, linked e)) (BufferEntries c))"

lemma recency_only_refl [simp]: "recency_only c c"
  unfolding recency_only_def by (intro exI [of _ "BufferEntries c"] exI [of _ "BufferNewest c"] exI [of _ "BufferOldest c"]) simp

lemma recency_only_trans:
  assumes "recency_only a b" "recency_only b c"
  shows "recency_only a c"
proof -
  obtain es n old where c: "c = b\<lparr>BufferEntries := es, BufferNewest := n, BufferOldest := old\<rparr>"
    "map (\<lambda>e. (hash_next e, linked e)) es = map (\<lambda>e. (hash_next e, linked e)) (BufferEntries b)"
    using assms(2) unfolding recency_only_def by blast
  with assms(1) have "c = a\<lparr>BufferEntries := es, BufferNewest := n, BufferOldest := old\<rparr>"
    "map (\<lambda>e. (hash_next e, linked e)) es = map (\<lambda>e. (hash_next e, linked e)) (BufferEntries a)"
    unfolding recency_only_def by auto
  then show ?thesis unfolding recency_only_def by blast
qed

lemma recency_only_fields:
  assumes "recency_only c c'"
  shows "BufferTable c' = BufferTable c" "BufferBuckets c' = BufferBuckets c" "block_layer c' = block_layer c"
    "device_address c' = device_address c" "BufferReady c' = BufferReady c"
    "length (BufferEntries c') = length (BufferEntries c)" "shape c' = shape c"
    "i < length (BufferEntries c) \<Longrightarrow> hash_next (BufferEntries c' ! i) = hash_next (BufferEntries c ! i)"
    "i < length (BufferEntries c) \<Longrightarrow> linked (BufferEntries c' ! i) = linked (BufferEntries c ! i)"
proof -
  obtain es n old where c': "c' = c\<lparr>BufferEntries := es, BufferNewest := n, BufferOldest := old\<rparr>"
    and es: "map (\<lambda>e. (hash_next e, linked e)) es = map (\<lambda>e. (hash_next e, linked e)) (BufferEntries c)"
    using assms unfolding recency_only_def by blast
  show "BufferTable c' = BufferTable c" "BufferBuckets c' = BufferBuckets c" "block_layer c' = block_layer c"
    "device_address c' = device_address c" "BufferReady c' = BufferReady c" by (simp_all add: c')
  show len: "length (BufferEntries c') = length (BufferEntries c)" using map_eq_imp_length_eq [OF es] by (simp add: c')
  then show "shape c' = shape c" by (simp add: shape_def c')
  show "hash_next (BufferEntries c' ! i) = hash_next (BufferEntries c ! i)" "linked (BufferEntries c' ! i) = linked (BufferEntries c ! i)"
    if "i < length (BufferEntries c)"
    using arg_cong [OF es, of "\<lambda>l. l ! i"] that len by (simp_all add: c')
qed

lemma recency_only_entry:
  assumes "\<And>e. hash_next (f e) = hash_next e" "\<And>e. linked (f e) = linked e"
  shows "recency_only c (set_entry i f c)"
proof -
  have "map (\<lambda>e. (hash_next e, linked e)) ((BufferEntries c)[i := f (BufferEntries c ! i)]) = map (\<lambda>e. (hash_next e, linked e)) (BufferEntries c)"
    using assms by (cases "i < length (BufferEntries c)") (simp_all add: map_update list_update_beyond list_update_same_conv)
  then show ?thesis unfolding recency_only_def set_entry_def
    by (intro exI [of _ "(BufferEntries c)[i := f (BufferEntries c ! i)]"] exI [of _ "BufferNewest c"] exI [of _ "BufferOldest c"]) simp
qed

lemma recency_only_ends:
  "recency_only c (c\<lparr>BufferNewest := n\<rparr>)" "recency_only c (c\<lparr>BufferOldest := n\<rparr>)"
  unfolding recency_only_def
  by (intro exI [of _ "BufferEntries c"] exI [of _ n] exI [of _ "BufferOldest c"]; simp)
    (intro exI [of _ "BufferEntries c"] exI [of _ "BufferNewest c"] exI [of _ n]; simp)

lemma entry_at:
  "j < length (BufferEntries c) \<Longrightarrow> BufferEntries (set_entry i f c) ! j = (if j = i then f (BufferEntries c ! i) else BufferEntries c ! j)"
  by (simp add: set_entry_def nth_list_update)

lemma entry_other [simp]:
  "BufferTable (set_entry i f c) = BufferTable c" "BufferBuckets (set_entry i f c) = BufferBuckets c"
  "BufferNewest (set_entry i f c) = BufferNewest c" "BufferOldest (set_entry i f c) = BufferOldest c"
  "length (BufferEntries (set_entry i f c)) = length (BufferEntries c)"
  "block_layer (set_entry i f c) = block_layer c" "device_address (set_entry i f c) = device_address c"
  by (simp_all add: set_entry_def)

text \<open>Taking an entry out of the list.\<close>

definition opened :: "nat list \<Rightarrow> nat list \<Rightarrow> 'w buffer_state \<Rightarrow> 'w buffer_state" where
  "opened as bs c =
     (let c = (case first bs None of Some e \<Rightarrow> set_entry e (\<lambda>v. v\<lparr>older := final None as\<rparr>) c | None \<Rightarrow> c\<lparr>BufferNewest := final None as\<rparr>)
      in case final None as of Some e \<Rightarrow> set_entry e (\<lambda>v. v\<lparr>newer := first bs None\<rparr>) c | None \<Rightarrow> c\<lparr>BufferOldest := first bs None\<rparr>)"

lemma BufferDetach_recency:
  assumes "shape c" "recency c (as @ i # bs)"
  shows "recency (BufferDetach i c) (as @ bs)"
proof -
  let ?E = "BufferEntries c"
  have R: "distinct (as @ i # bs)" "set (as @ i # bs) \<subseteq> {..<64}" "lane ?E None (as @ i # bs) None"
    "BufferOldest c = first (as @ i # bs) None" "BufferNewest c = final None (as @ i # bs)"
    "\<And>j. j < 64 \<Longrightarrow> listed (?E ! j) \<longleftrightarrow> j \<in> set (as @ i # bs)"
    using assms(2) by (simp_all add: recency_def)
  have len: "length ?E = 64" using assms(1) by (simp add: shape_def)
  have L: "lane ?E None as (Some i)" "older (?E ! i) = final None as" "newer (?E ! i) = first bs None" "lane ?E (Some i) bs None"
    using R(3) by (simp_all add: lane_append)
  let ?c = "opened as bs c"
  have D: "BufferDetach i c = set_entry i (\<lambda>v. v\<lparr>older := None, newer := None, listed := False\<rparr>) ?c"
    using R(6) [of i] R(2) by (simp add: BufferDetach_def opened_def Let_def L)
  have lenc: "length (BufferEntries ?c) = 64" using len by (simp add: opened_def Let_def split: option.split)
  have at: "older (BufferEntries ?c ! j) = (if bs \<noteq> [] \<and> j = hd bs then final None as else older (?E ! j))"
    "newer (BufferEntries ?c ! j) = (if as \<noteq> [] \<and> j = last as then first bs None else newer (?E ! j))"
    "listed (BufferEntries ?c ! j) = listed (?E ! j)" if "j < 64" for j
    using that len by (auto simp: opened_def Let_def entry_at first_def final_def split: list.split)
  have in64: "j < 64" if "j \<in> set as \<union> set bs" for j using that R(2) by auto
  have "lane (BufferEntries (BufferDetach i c)) None as (first bs None)"
    by (rule lane_ends [OF L(1)])
      (use R(1) in64 lane_hd [OF L(1)] at in \<open>auto simp: D entry_at lenc dest: hd_in_set\<close>)
  moreover have "lane (BufferEntries (BufferDetach i c)) (final None as) bs None"
    by (rule lane_ends [OF L(4)])
      (use R(1) in64 lane_last [OF L(4)] at in \<open>auto simp: D entry_at lenc dest: last_in_set\<close>)
  moreover have "BufferOldest (BufferDetach i c) = first (as @ bs) None" "BufferNewest (BufferDetach i c) = final None (as @ bs)"
    using R(4,5) by (cases as; cases bs; simp add: D opened_def Let_def final_def)+
  moreover have "listed (BufferEntries (BufferDetach i c) ! j) \<longleftrightarrow> j \<in> set (as @ bs)" if "j < 64" for j
    using R(1,6) that by (auto simp: D entry_at lenc at)
  ultimately show ?thesis using R(1,2) by (simp add: recency_def lane_append)
qed

lemma recency_only_tie:
  "recency_only c (case x of Some e \<Rightarrow> set_entry e (\<lambda>v. v\<lparr>older := y\<rparr>) c | None \<Rightarrow> c\<lparr>BufferNewest := y\<rparr>)"
  "recency_only c (case x of Some e \<Rightarrow> set_entry e (\<lambda>v. v\<lparr>newer := y\<rparr>) c | None \<Rightarrow> c\<lparr>BufferOldest := y\<rparr>)"
  by (cases x; simp add: recency_only_entry recency_only_ends)+

lemma BufferDetach_only: "recency_only c (BufferDetach i c)"
proof (cases "listed (BufferEntries c ! i)")
  case True
  let ?o = "older (BufferEntries c ! i)" and ?n = "newer (BufferEntries c ! i)"
  let ?c1 = "case ?n of Some e \<Rightarrow> set_entry e (\<lambda>v. v\<lparr>older := ?o\<rparr>) c | None \<Rightarrow> c\<lparr>BufferNewest := ?o\<rparr>"
  let ?c2 = "case ?o of Some e \<Rightarrow> set_entry e (\<lambda>v. v\<lparr>newer := ?n\<rparr>) ?c1 | None \<Rightarrow> ?c1\<lparr>BufferOldest := ?n\<rparr>"
  have "recency_only ?c2 (set_entry i (\<lambda>v. v\<lparr>older := None, newer := None, listed := False\<rparr>) ?c2)"
    by (rule recency_only_entry) simp_all
  moreover have "BufferDetach i c = set_entry i (\<lambda>v. v\<lparr>older := None, newer := None, listed := False\<rparr>) ?c2"
    using True by (simp only: BufferDetach_def Let_def not_True_eq_False if_False)
  ultimately show ?thesis
    using recency_only_trans [OF recency_only_trans [OF recency_only_tie(1) recency_only_tie(2)]] by metis
qed (simp add: BufferDetach_def Let_def)

lemma BufferDetach_removes:
  assumes "shape c" "recency c xs" "i < 64"
  shows "recency (BufferDetach i c) (remove1 i xs)"
proof (cases "i \<in> set xs")
  case True
  then obtain as bs where xs: "xs = as @ i # bs" "i \<notin> set as" by (meson split_list_first)
  then show ?thesis using BufferDetach_recency [OF assms(1)] assms(2) by (simp add: remove1_append)
next
  case False
  then have "\<not> listed (BufferEntries c ! i)" using assms by (simp add: recency_def)
  then show ?thesis using False assms(2) by (simp add: BufferDetach_def Let_def remove1_idem)
qed

text \<open>Putting an entry at either end.\<close>

lemma recency_append:
  assumes "shape c" "recency c xs" "i < 64" "i \<notin> set xs"
    and "BufferNewest c' = Some i" "BufferOldest c' = first (xs @ [i]) None"
    and "\<And>j. j < 64 \<Longrightarrow> older (BufferEntries c' ! j) = (if j = i then final None xs else older (BufferEntries c ! j))"
    and "\<And>j. j < 64 \<Longrightarrow> newer (BufferEntries c' ! j) = (if j = i then None else if final None xs = Some j then Some i else newer (BufferEntries c ! j))"
    and "\<And>j. j < 64 \<Longrightarrow> listed (BufferEntries c' ! j) \<longleftrightarrow> j = i \<or> listed (BufferEntries c ! j)"
  shows "recency c' (xs @ [i])"
proof -
  have R: "distinct xs" "set xs \<subseteq> {..<64}" "lane (BufferEntries c) None xs None" "\<And>j. j < 64 \<Longrightarrow> listed (BufferEntries c ! j) \<longleftrightarrow> j \<in> set xs"
    using assms(2) by (simp_all add: recency_def)
  have in64: "j < 64" "j \<noteq> i" if "j \<in> set xs" for j using that R(2) assms(4) by auto
  have "lane (BufferEntries c') None xs (Some i)"
    by (rule lane_ends [OF R(3,1)]) (use assms(7,8) in64 lane_hd [OF R(3)] in \<open>auto simp: final_def\<close>)
  then have "lane (BufferEntries c') None (xs @ [i]) None" using assms(3,7,8) by (simp add: lane_append)
  then show ?thesis using assms(3-6,9) R by (auto simp: recency_def)
qed

lemma recency_cons:
  assumes "shape c" "recency c xs" "i < 64" "i \<notin> set xs"
    and "BufferOldest c' = Some i" "BufferNewest c' = final None (i # xs)"
    and "\<And>j. j < 64 \<Longrightarrow> newer (BufferEntries c' ! j) = (if j = i then first xs None else newer (BufferEntries c ! j))"
    and "\<And>j. j < 64 \<Longrightarrow> older (BufferEntries c' ! j) = (if j = i then None else if first xs None = Some j then Some i else older (BufferEntries c ! j))"
    and "\<And>j. j < 64 \<Longrightarrow> listed (BufferEntries c' ! j) \<longleftrightarrow> j = i \<or> listed (BufferEntries c ! j)"
  shows "recency c' (i # xs)"
proof -
  have R: "distinct xs" "set xs \<subseteq> {..<64}" "lane (BufferEntries c) None xs None" "\<And>j. j < 64 \<Longrightarrow> listed (BufferEntries c ! j) \<longleftrightarrow> j \<in> set xs"
    using assms(2) by (simp_all add: recency_def)
  have in64: "j < 64" "j \<noteq> i" if "j \<in> set xs" for j using that R(2) assms(4) by auto
  have "lane (BufferEntries c') (Some i) xs None"
    by (rule lane_ends [OF R(3,1)]) (use assms(7,8) in64 lane_last [OF R(3)] in \<open>auto simp: first_def split: list.splits\<close>)
  then have "lane (BufferEntries c') None (i # xs) None" using assms(3,7,8) by simp
  then show ?thesis using assms(3-6,9) R by (auto simp: recency_def)
qed

lemma BufferTouch_recency:
  assumes "shape c" "recency c xs" "i < 64"
  shows "recency (BufferTouch i c) (remove1 i xs @ [i])"
proof -
  let ?d = "BufferDetach i c" and ?ys = "remove1 i xs"
  note D = BufferDetach_removes [OF assms]
  have d: "distinct xs" using assms(2) by (simp add: recency_def)
  have shape: "shape ?d" using recency_only_fields(7) [OF BufferDetach_only] assms(1) by metis
  then have len: "length (BufferEntries ?d) = 64" by (simp add: shape_def)
  have ends: "BufferNewest ?d = final None ?ys" "BufferOldest ?d = first ?ys None" "set ?ys \<subseteq> {..<64}" using D by (simp_all add: recency_def)
  have notin: "i \<notin> set ?ys" using d by simp
  have lt: "k < 64" "k \<noteq> i" if "final None ?ys = Some k" for k
    using that ends(3) notin by (auto simp: final_def split: if_splits dest!: last_in_set)
  show ?thesis
  proof (rule recency_append [OF shape D assms(3) notin])
    show "BufferNewest (BufferTouch i c) = Some i" "BufferOldest (BufferTouch i c) = first (?ys @ [i]) None"
      by (cases ?ys; simp add: BufferTouch_def Let_def ends first_append split: option.split)+
  qed (use lt assms(3) in \<open>auto simp: BufferTouch_def Let_def entry_at len ends split: option.splits\<close>)
qed

lemma PutOldest_recency:
  assumes "shape c" "recency c xs" "i < 64" "i \<notin> set xs"
  shows "recency (PutOldest i c) (i # xs)"
proof -
  have len: "length (BufferEntries c) = 64" using assms(1) by (simp add: shape_def)
  have ends: "BufferNewest c = final None xs" "BufferOldest c = first xs None" "set xs \<subseteq> {..<64}"
    using assms(2) by (simp_all add: recency_def)
  have lt: "k < 64" "k \<noteq> i" if "first xs None = Some k" for k
    using that ends(3) assms(4) by (auto simp: first_def split: list.splits)
  show ?thesis
  proof (rule recency_cons [OF assms])
    show "BufferOldest (PutOldest i c) = Some i" "BufferNewest (PutOldest i c) = final None (i # xs)"
      by (simp_all add: PutOldest_def Let_def ends final_def split: option.split)
  qed (use lt assms(3) in \<open>auto simp: PutOldest_def Let_def entry_at len ends split: option.splits\<close>)
qed

lemma recency_only_tie':
  "recency_only c (case x of Some e \<Rightarrow> set_entry e (\<lambda>v. v\<lparr>newer := y\<rparr>) c | None \<Rightarrow> c)"
  "recency_only c (case x of Some e \<Rightarrow> set_entry e (\<lambda>v. v\<lparr>older := y\<rparr>) c | None \<Rightarrow> c)"
  "recency_only c (if b then c\<lparr>BufferOldest := y\<rparr> else c)" "recency_only c (if b then c\<lparr>BufferNewest := y\<rparr> else c)"
  by (cases x; simp add: recency_only_entry recency_only_ends)+

lemmas recency_only_before = recency_only_trans [OF _ recency_only_entry] recency_only_trans [OF _ recency_only_ends(1)]
  recency_only_trans [OF _ recency_only_ends(2)] recency_only_trans [OF _ recency_only_tie'(1)]
  recency_only_trans [OF _ recency_only_tie'(2)] recency_only_trans [OF _ recency_only_tie'(3)]
  recency_only_trans [OF _ recency_only_tie'(4)]

lemma BufferTouch_only: "recency_only c (BufferTouch i c)"
  unfolding BufferTouch_def Let_def
  by (rule recency_only_before(6), rule recency_only_before(1), rule recency_only_before(2), rule recency_only_before(4),
    rule recency_only_before(1), rule BufferDetach_only) simp_all

lemma PutOldest_only: "recency_only c (PutOldest i c)"
  unfolding PutOldest_def Let_def
  by (rule recency_only_before(7), rule recency_only_before(1), rule recency_only_before(3), rule recency_only_before(5),
    rule recency_only_before(1), rule recency_only_refl) simp_all

subsection \<open>Claiming\<close>

lemma ClaimFrom_lane:
  "lane (BufferEntries c) p xs None \<Longrightarrow>
    ClaimFrom c (first xs None) = Some (find (\<lambda>i. buffer_references (BufferTable c ! i) = 0) xs)"
proof (induction xs arbitrary: p)
  case Nil
  then show ?case by (simp add: ClaimFrom.simps [of c None])
next
  case (Cons x xs)
  then have "ClaimFrom c (first xs None) = Some (find (\<lambda>i. buffer_references (BufferTable c ! i) = 0) xs)"
    "newer (BufferEntries c ! x) = first xs None" by auto
  then show ?case by (simp add: ClaimFrom.simps [of c "Some x"])
qed

end
