(* ===== verification/BufferChains.thy ===== *)
theory BufferChains
  imports BufferLists
begin

text \<open>
  The chains of the hash table: every linked entry is in the chain of its block's bucket and in
  no other, once, so that a walk along a chain ends, finding searches every candidate, and
  linking and unlinking are a cons and a removal.
\<close>

fun chain :: "BufferEntry list \<Rightarrow> nat list \<Rightarrow> nat option \<Rightarrow> bool" where
  "chain es [] n = True"
| "chain es (x # xs) n = (hash_next (es ! x) = first xs n \<and> chain es xs n)"

lemma chain_append: "chain es (xs @ ys) n \<longleftrightarrow> chain es xs (first ys n) \<and> chain es ys n"
  by (induction xs) (auto simp: first_append)

lemma chain_end:
  assumes "chain es xs n" "distinct xs"
    and "\<And>x. x \<in> set xs \<Longrightarrow> hash_next (es' ! x) = (if x = last xs then n' else hash_next (es ! x))"
  shows "chain es' xs n'"
  using assms
proof (induction xs)
  case (Cons x xs)
  show ?case
  proof (cases xs)
    case Nil
    then show ?thesis using Cons.prems(3) [of x] by simp
  next
    case (Cons y ys)
    have "x \<noteq> last xs" using Cons.prems(2) \<open>xs = y # ys\<close> last_in_set [of xs] by auto
    then have "hash_next (es' ! x) = first xs n'" using Cons.prems(1) Cons.prems(3) [of x] \<open>xs = y # ys\<close> by simp
    moreover have "chain es' xs n'" using Cons.IH Cons.prems \<open>xs = y # ys\<close> by auto
    ultimately show ?thesis by simp
  qed
qed simp

lemma hash_chain_cong: "chain es xs n \<Longrightarrow> (\<And>x. x \<in> set xs \<Longrightarrow> hash_next (es' ! x) = hash_next (es ! x)) \<Longrightarrow> chain es' xs n"
  by (induction xs) auto

definition chains :: "'w buffer_state \<Rightarrow> (nat \<Rightarrow> nat list) \<Rightarrow> bool" where
  "chains c cs \<longleftrightarrow> (\<forall>k < 128. chain (BufferEntries c) (cs k) None \<and> BufferBuckets c ! k = first (cs k) None \<and>
     distinct (cs k) \<and> (\<forall>i. i \<in> set (cs k) \<longleftrightarrow> i < 64 \<and> linked (BufferEntries c ! i) \<and> bucket_of i c = k))"

lemma bucket_less: "BufferBucketOf address block < 128"
proof -
  have "unat (x AND 127 :: u64) \<le> 127" for x using word_and_le1 [of x 127] by (simp add: word_le_nat_alt)
  from this [of "block XOR drop_bit 4 address"] show ?thesis by (simp add: BufferBucketOf_def BUFFER_BUCKET_COUNT_def)
qed

lemma bucket_of_cong:
  "buffer_device (BufferTable c' ! i) = buffer_device (BufferTable c ! i) \<Longrightarrow>
    buffer_block (BufferTable c' ! i) = buffer_block (BufferTable c ! i) \<Longrightarrow> device_address c' = device_address c \<Longrightarrow> bucket_of i c' = bucket_of i c"
  by (simp only: bucket_of_def address_of_def)

subsection \<open>Finding\<close>

lemma FindFrom_chain:
  "chain (BufferEntries c) xs None \<Longrightarrow>
    FindFrom c d b (first xs None) = Some (find (\<lambda>i. holds (BufferTable c ! i) d b) xs)"
  by (induction xs) (simp_all add: FindFrom.simps [of c d b])

lemma BufferFind_effect:
  assumes "chains c cs"
  shows "BufferFind d b c = Some (find (\<lambda>i. holds (BufferTable c ! i) d b) (cs (BufferBucketOf (device_address c d) b)))"
proof -
  let ?k = "BufferBucketOf (device_address c d) b"
  have "chain (BufferEntries c) (cs ?k) None" "BufferBuckets c ! ?k = first (cs ?k) None"
    using assms bucket_less unfolding chains_def by blast+
  then show ?thesis by (simp add: BufferFind_def FindFrom_chain)
qed

subsection \<open>Unlinking\<close>

text \<open>What the operations upon the chains leave alone.\<close>

definition chains_only :: "'w buffer_state \<Rightarrow> 'w buffer_state \<Rightarrow> bool" where
  "chains_only c c' \<longleftrightarrow> (\<exists>es bs. c' = c\<lparr>BufferEntries := es, BufferBuckets := bs\<rparr> \<and> length bs = length (BufferBuckets c) \<and>
     map (\<lambda>e. (older e, newer e, listed e)) es = map (\<lambda>e. (older e, newer e, listed e)) (BufferEntries c))"

lemma chains_only_fields:
  assumes "chains_only c c'"
  shows "BufferTable c' = BufferTable c" "BufferNewest c' = BufferNewest c" "BufferOldest c' = BufferOldest c"
    "block_layer c' = block_layer c" "device_address c' = device_address c" "BufferReady c' = BufferReady c"
    "length (BufferEntries c') = length (BufferEntries c)" "shape c' = shape c"
    "i < length (BufferEntries c) \<Longrightarrow> older (BufferEntries c' ! i) = older (BufferEntries c ! i)"
    "i < length (BufferEntries c) \<Longrightarrow> newer (BufferEntries c' ! i) = newer (BufferEntries c ! i)"
    "i < length (BufferEntries c) \<Longrightarrow> listed (BufferEntries c' ! i) = listed (BufferEntries c ! i)"
proof -
  obtain es bs where c': "c' = c\<lparr>BufferEntries := es, BufferBuckets := bs\<rparr>" "length bs = length (BufferBuckets c)"
    and es: "map (\<lambda>e. (older e, newer e, listed e)) es = map (\<lambda>e. (older e, newer e, listed e)) (BufferEntries c)"
    using assms unfolding chains_only_def by blast
  show "BufferTable c' = BufferTable c" "BufferNewest c' = BufferNewest c" "BufferOldest c' = BufferOldest c"
    "block_layer c' = block_layer c" "device_address c' = device_address c" "BufferReady c' = BufferReady c" by (simp_all add: c')
  show len: "length (BufferEntries c') = length (BufferEntries c)" using map_eq_imp_length_eq [OF es] by (simp add: c')
  then show "shape c' = shape c" by (simp add: shape_def c')
  show "older (BufferEntries c' ! i) = older (BufferEntries c ! i)" "newer (BufferEntries c' ! i) = newer (BufferEntries c ! i)"
    "listed (BufferEntries c' ! i) = listed (BufferEntries c ! i)" if "i < length (BufferEntries c)"
    using arg_cong [OF es, of "\<lambda>l. l ! i"] that len by (simp_all add: c')
qed

lemma lane_cong:
  "lane es p xs n \<Longrightarrow> (\<And>x. x \<in> set xs \<Longrightarrow> older (es' ! x) = older (es ! x) \<and> newer (es' ! x) = newer (es ! x)) \<Longrightarrow> lane es' p xs n"
  by (induction xs arbitrary: p) auto

lemma chains_only_recency:
  assumes "chains_only c c'" "shape c" "recency c xs"
  shows "recency c' xs"
proof -
  note F = chains_only_fields [OF assms(1)]
  have len: "length (BufferEntries c) = 64" using assms(2) by (simp add: shape_def)
  have "lane (BufferEntries c') None xs None"
    by (rule lane_cong [of "BufferEntries c"]) (use assms(3) F(9,10) len in \<open>auto simp: recency_def\<close>)
  then show ?thesis using assms(3) F(2,3,11) len by (simp add: recency_def)
qed

lemma recency_only_chains:
  assumes "recency_only c c'" "shape c" "chains c cs"
  shows "chains c' cs"
proof -
  note F = recency_only_fields [OF assms(1)]
  have len: "length (BufferEntries c) = 64" using assms(2) by (simp add: shape_def)
  have b: "bucket_of i c' = bucket_of i c" for i using F(1,4) by (intro bucket_of_cong) simp_all
  have "chain (BufferEntries c') (cs k) None" if "k < 128" for k
    by (rule hash_chain_cong [of "BufferEntries c"]) (use assms(3) that F(8) len in \<open>auto simp: chains_def\<close>)
  then show ?thesis using assms(3) F(2,9) len by (auto simp: chains_def b)
qed

lemma EntryBefore_chain:
  "chain es (as @ x # i # bs) None \<Longrightarrow> i \<notin> set as \<Longrightarrow> i \<noteq> x \<Longrightarrow> distinct (as @ [x]) \<Longrightarrow>
    EntryBefore es i (first (as @ [x]) None) = Some (Some x)"
proof (induction as)
  case Nil
  then show ?case by (simp add: EntryBefore.simps [of es i "Some x"])
next
  case (Cons a as)
  have "hash_next (es ! a) = first (as @ [x]) None" using Cons.prems(1) by (cases as) simp_all
  moreover have "first (as @ [x]) None \<noteq> Some i" using Cons.prems(2,3) by (cases as) auto
  ultimately show ?case using Cons by (simp add: EntryBefore.simps [of es i "Some a"])
qed

lemma chains_only_intro:
  assumes "length bs = length (BufferBuckets c)" "length es = length (BufferEntries c)"
    and "\<And>j. j < length (BufferEntries c) \<Longrightarrow> older (es ! j) = older (BufferEntries c ! j) \<and> newer (es ! j) = newer (BufferEntries c ! j) \<and>
      listed (es ! j) = listed (BufferEntries c ! j)"
  shows "chains_only c (c\<lparr>BufferEntries := es, BufferBuckets := bs\<rparr>)"
proof -
  have "map (\<lambda>e. (older e, newer e, listed e)) es = map (\<lambda>e. (older e, newer e, listed e)) (BufferEntries c)"
    using assms(2,3) by (intro nth_equalityI) simp_all
  then show ?thesis unfolding chains_only_def using assms(1) by blast
qed

lemma BufferUnlink_effect:
  assumes "shape c" "chains c cs" "i < 64"
  shows "\<exists>c'. BufferUnlink i c = Some c' \<and> chains_only c c' \<and> chains c' (\<lambda>k. remove1 i (cs k)) \<and> \<not> linked (BufferEntries c' ! i) \<and>
    (\<forall>j < 64. j \<noteq> i \<longrightarrow> linked (BufferEntries c' ! j) = linked (BufferEntries c ! j))"
proof (cases "linked (BufferEntries c ! i)")
  case False
  then have "i \<notin> set (cs k)" if "k < 128" for k using assms(2) that unfolding chains_def by blast
  then have "chains c (\<lambda>k. remove1 i (cs k))" using assms(2) by (simp add: chains_def remove1_idem)
  moreover have "chains_only c c" using chains_only_intro [of "BufferBuckets c" c "BufferEntries c"] by simp
  ultimately show ?thesis using False by (simp add: BufferUnlink_def)
next
  case True
  let ?E = "BufferEntries c" and ?k = "bucket_of i c"
  have len: "length ?E = 64" "length (BufferBuckets c) = 128" using assms(1) by (simp_all add: shape_def)
  have k: "?k < 128" by (simp add: bucket_of_def bucket_less)
  have C: "chain ?E (cs ?k) None" "BufferBuckets c ! ?k = first (cs ?k) None" "distinct (cs ?k)"
    "set (cs ?k) = {j. j < 64 \<and> linked (?E ! j) \<and> bucket_of j c = ?k}"
    using assms(2) k unfolding chains_def by blast+
  then have "i \<in> set (cs ?k)" using True assms(3) by blast
  then obtain as bs where cs: "cs ?k = as @ i # bs" "i \<notin> set as" by (meson split_list_first)
  let ?n = "hash_next (?E ! i)"
  have n: "?n = first bs None" using C(1) cs(1) by (simp add: chain_append)
  define es where "es = (if as = [] then ?E else ?E[last as := (?E ! last as)\<lparr>hash_next := ?n\<rparr>])[i := (?E ! i)\<lparr>hash_next := None, linked := False\<rparr>]"
  define bk where "bk = (if as = [] then (BufferBuckets c)[?k := ?n] else BufferBuckets c)"
  let ?c' = "c\<lparr>BufferEntries := es, BufferBuckets := bk\<rparr>"
  have last: "last as \<in> set as" "last as < 64" "last as \<noteq> i" if "as \<noteq> []"
  proof -
    show "last as \<in> set as" using that by simp
    then have "last as \<in> set (cs ?k)" by (simp add: cs(1))
    then show "last as < 64" using C(4) by blast
    show "last as \<noteq> i" using that cs(2) last_in_set by metis
  qed
  have run: "BufferUnlink i c = Some ?c'"
  proof (cases as rule: rev_cases)
    case Nil
    then show ?thesis using True C(2) cs(1) by (simp add: BufferUnlink_def Let_def es_def bk_def set_entry_def)
  next
    case (snoc ys x)
    have "first (cs ?k) None \<noteq> Some i" using cs snoc by (cases ys) auto
    moreover have "first (cs ?k) None = first (ys @ [x]) None" using cs(1) snoc by (cases ys) simp_all
    moreover have "EntryBefore ?E i (first (ys @ [x]) None) = Some (Some x)"
      by (rule EntryBefore_chain [of _ _ _ _ bs]) (use C cs snoc in auto)
    ultimately show ?thesis using True C(2) snoc last
      by (simp add: BufferUnlink_def Let_def es_def bk_def set_entry_def)
  qed
  have at: "es ! j = (if j = i then (?E ! i)\<lparr>hash_next := None, linked := False\<rparr>
      else if as \<noteq> [] \<and> j = last as then (?E ! j)\<lparr>hash_next := ?n\<rparr> else ?E ! j)" if "j < 64" for j
    using that last len by (auto simp: es_def nth_list_update)
  have lens: "length es = 64" "length bk = 128" using len by (simp_all add: es_def bk_def)
  have only: "chains_only c ?c'" by (rule chains_only_intro) (use len lens at in auto)
  have bucket: "bucket_of j ?c' = bucket_of j c" for j by (intro bucket_of_cong) simp_all
  have "chain es (remove1 i (cs q)) None \<and> bk ! q = first (remove1 i (cs q)) None \<and>
     distinct (remove1 i (cs q)) \<and> (\<forall>j. j \<in> set (remove1 i (cs q)) \<longleftrightarrow> j < 64 \<and> linked (es ! j) \<and> bucket_of j c = q)" if q: "q < 128" for q
  proof -
    have Q: "chain ?E (cs q) None" "BufferBuckets c ! q = first (cs q) None" "distinct (cs q)"
      "\<And>j. j \<in> set (cs q) \<longleftrightarrow> j < 64 \<and> linked (?E ! j) \<and> bucket_of j c = q"
      using assms(2) q unfolding chains_def by blast+
    have members: "j \<in> set (remove1 i (cs q)) \<longleftrightarrow> j < 64 \<and> linked (es ! j) \<and> bucket_of j c = q" for j
      using Q(3,4) at [of j] by (cases "j < 64") auto
    show ?thesis
    proof (cases "q = ?k")
      case True
      have r: "remove1 i (cs q) = as @ bs" using cs True by (simp add: remove1_append)
      have D: "distinct (as @ i # bs)" using C(3) cs(1) by simp
      have in64: "j < 64" if "j \<in> set as \<union> set bs" for j using that C(4) cs(1) by auto
      have "chain ?E as (Some i)" "chain ?E bs None" using C(1) cs(1) by (simp_all add: chain_append)
      moreover have "hash_next (es ! j) = (if j = last as then first bs None else hash_next (?E ! j))" if "j \<in> set as" for j
        using at [of j] in64 [of j] that D n by auto
      moreover have "hash_next (es ! j) = hash_next (?E ! j)" if j: "j \<in> set bs" for j
      proof -
        have "set as \<inter> set bs = {}" using D by auto
        then have "\<not> (as \<noteq> [] \<and> j = last as)" using last(1) j by blast
        then show ?thesis using at [of j] in64 [of j] j D by auto
      qed
      ultimately have "chain es as (first bs None)" "chain es bs None"
        using chain_end [of ?E as "Some i" es "first bs None"] hash_chain_cong [of ?E bs None es] D by auto
      then have "chain es (remove1 i (cs q)) None" by (simp add: r chain_append)
      moreover have "bk ! q = first (remove1 i (cs q)) None"
        using Q(2) cs(1) True n k len unfolding r by (cases as) (auto simp: bk_def)
      ultimately show ?thesis using members distinct_remove1 [OF Q(3)] by blast
    next
      case False
      then have "i \<notin> set (cs q)" using Q(4) [of i] by simp
      then have r: "remove1 i (cs q) = cs q" by (rule remove1_idem)
      have apart: "last as \<notin> set (cs q)" if "as \<noteq> []"
      proof -
        have "last as \<in> set (cs ?k)" using last(1) [OF that] by (simp add: cs(1))
        then have "bucket_of (last as) c = ?k" unfolding C(4) by simp
        then show ?thesis using Q(4) [of "last as"] False by simp
      qed
      have "chain es (cs q) None"
      proof (rule hash_chain_cong [OF Q(1)])
        fix x assume x: "x \<in> set (cs q)"
        then have "x < 64" "x \<noteq> i" "\<not> (as \<noteq> [] \<and> x = last as)"
          using Q(4) [of x] \<open>i \<notin> set (cs q)\<close> apart by blast+
        then show "hash_next (es ! x) = hash_next (?E ! x)" using at [of x] by auto
      qed
      moreover have "bk ! q = first (cs q) None" using False Q(2) by (simp add: bk_def)
      ultimately show ?thesis using members Q(3) unfolding r by blast
    qed
  qed
  then have "chains ?c' (\<lambda>k. remove1 i (cs k))" by (simp add: chains_def bucket)
  moreover have "\<not> linked (es ! i)" "\<forall>j < 64. j \<noteq> i \<longrightarrow> linked (es ! j) = linked (?E ! j)" using at assms(3) by auto
  ultimately show ?thesis using run only by (intro exI [of _ ?c']) simp
qed

subsection \<open>Linking\<close>

lemma BufferLink_effect:
  assumes "shape c" "chains c cs" "i < 64" "\<not> linked (BufferEntries c ! i)"
  shows "chains_only c (BufferLink i c)" "chains (BufferLink i c) (cs(bucket_of i c := i # cs (bucket_of i c)))"
    "linked (BufferEntries (BufferLink i c) ! i)"
    "\<And>j. j < 64 \<Longrightarrow> j \<noteq> i \<Longrightarrow> linked (BufferEntries (BufferLink i c) ! j) = linked (BufferEntries c ! j)"
proof -
  let ?E = "BufferEntries c" and ?k = "bucket_of i c"
  have len: "length ?E = 64" "length (BufferBuckets c) = 128" using assms(1) by (simp_all add: shape_def)
  have k: "?k < 128" by (simp add: bucket_of_def bucket_less)
  define es where "es = ?E[i := (?E ! i)\<lparr>hash_next := BufferBuckets c ! ?k, linked := True\<rparr>]"
  define bk where "bk = (BufferBuckets c)[?k := Some i]"
  have run: "BufferLink i c = c\<lparr>BufferEntries := es, BufferBuckets := bk\<rparr>"
    using assms(3) len by (simp add: BufferLink_def Let_def es_def bk_def set_entry_def)
  have at: "es ! j = (if j = i then (?E ! i)\<lparr>hash_next := BufferBuckets c ! ?k, linked := True\<rparr> else ?E ! j)" if "j < 64" for j
    using that len by (simp add: es_def nth_list_update)
  show "chains_only c (BufferLink i c)" unfolding run by (rule chains_only_intro) (use len assms(3) in \<open>auto simp: es_def bk_def nth_list_update\<close>)
  show "linked (BufferEntries (BufferLink i c) ! i)" using at assms(3) by (simp add: run)
  show "linked (BufferEntries (BufferLink i c) ! j) = linked (?E ! j)" if "j < 64" "j \<noteq> i" for j using at [of j] that by (simp add: run)
  have bucket: "bucket_of j (BufferLink i c) = bucket_of j c" for j unfolding run by (intro bucket_of_cong) simp_all
  let ?cs = "cs(?k := i # cs ?k)"
  have "chain es (?cs q) None \<and> bk ! q = first (?cs q) None \<and> distinct (?cs q) \<and>
     (\<forall>j. j \<in> set (?cs q) \<longleftrightarrow> j < 64 \<and> linked (es ! j) \<and> bucket_of j c = q)" if q: "q < 128" for q
  proof -
    have Q: "chain ?E (cs q) None" "BufferBuckets c ! q = first (cs q) None" "distinct (cs q)"
      "\<And>j. j \<in> set (cs q) \<longleftrightarrow> j < 64 \<and> linked (?E ! j) \<and> bucket_of j c = q"
      using assms(2) q unfolding chains_def by blast+
    have notin: "i \<notin> set (cs q)" using Q(4) assms(4) by blast
    have "chain es (cs q) None" by (rule hash_chain_cong [OF Q(1)]) (use Q(4) at notin in auto)
    moreover have "j \<in> set (?cs q) \<longleftrightarrow> j < 64 \<and> linked (es ! j) \<and> bucket_of j c = q" for j
      using Q(4) at [of j] assms(3,4) by (cases "j < 64") auto
    ultimately show ?thesis using Q(2,3) notin at assms(3) len q k by (auto simp: bk_def nth_list_update)
  qed
  moreover have "BufferEntries (BufferLink i c) = es" "BufferBuckets (BufferLink i c) = bk" by (simp_all add: run)
  ultimately show "chains (BufferLink i c) ?cs" unfolding chains_def bucket by (simp only:) blast
qed

text \<open>A change of an entry that is in no chain, or of what the buckets do not look at.\<close>

lemma set_buffer_at:
  "j < length (BufferTable c) \<Longrightarrow> BufferTable (set_buffer i f c) ! j = (if j = i then f (BufferTable c ! i) else BufferTable c ! j)"
  by (simp add: set_buffer_def nth_list_update)

lemma set_buffer_other [simp]:
  "BufferEntries (set_buffer i f c) = BufferEntries c" "BufferBuckets (set_buffer i f c) = BufferBuckets c"
  "BufferNewest (set_buffer i f c) = BufferNewest c" "BufferOldest (set_buffer i f c) = BufferOldest c"
  "BufferReady (set_buffer i f c) = BufferReady c"
  "length (BufferTable (set_buffer i f c)) = length (BufferTable c)"
  "block_layer (set_buffer i f c) = block_layer c" "device_address (set_buffer i f c) = device_address c"
  "shape (set_buffer i f c) = shape c" "recency (set_buffer i f c) xs = recency c xs"
  by (simp_all add: set_buffer_def shape_def recency_def)

lemma set_buffer_chains:
  assumes "shape c" "chains c cs"
    and "\<not> linked (BufferEntries c ! i) \<or> (\<forall>b. buffer_device (f b) = buffer_device b \<and> buffer_block (f b) = buffer_block b)"
  shows "chains (set_buffer i f c) cs"
proof -
  have "bucket_of j (set_buffer i f c) = bucket_of j c" if "j < 64" "linked (BufferEntries c ! j)" for j
    by (intro bucket_of_cong; cases "j = i"; use that assms(1,3) in \<open>auto simp: set_buffer_at shape_def\<close>)
  then show ?thesis using assms(2) unfolding chains_def by auto
qed

end
