(* ===== verification/BlockRegistry.thy ===== *)
theory BlockRegistry
  imports BlockLayer
begin

text \<open>
  What the operations of the block layer do: a transfer is refused, or empty, or the driver's
  operation on a range within the device, and changes of the registry no more than the
  accounting; a name is copied whole or not at all; and the registry keeps its devices complete
  and their names apart.
\<close>

subsection \<open>Transfers\<close>

definition same_device :: "'w BlockDevice \<Rightarrow> 'w BlockDevice \<Rightarrow> bool" where
  "same_device v v' \<longleftrightarrow> device_name v' = device_name v \<and> operations v' = operations v \<and>
     device_context v' = device_context v \<and> block_size v' = block_size v \<and> block_count v' = block_count v \<and>
     read_only v' = read_only v \<and> registered v' = registered v"

definition same_devices :: "'w block_state \<Rightarrow> 'w block_state \<Rightarrow> bool" where
  "same_devices s s' \<longleftrightarrow> list_all2 same_device (BlockDevices s) (BlockDevices s')"

lemma same_device_refl [simp]: "same_device v v"
  by (simp add: same_device_def)

lemma same_devices_refl [simp]: "same_devices s s"
  by (simp add: same_devices_def list_all2_refl)

lemma same_devices_trans: "same_devices s t \<Longrightarrow> same_devices t u \<Longrightarrow> same_devices s u"
  unfolding same_devices_def by (rule list_all2_trans) (auto simp: same_device_def)

lemma same_devices_at:
  "same_devices s s' \<Longrightarrow> d < length (BlockDevices s) \<Longrightarrow> same_device (BlockDevices s ! d) (BlockDevices s' ! d)"
  unfolding same_devices_def by (rule list_all2_nthD)

lemma same_devices_length: "same_devices s s' \<Longrightarrow> length (BlockDevices s') = length (BlockDevices s)"
  unfolding same_devices_def by (simp add: list_all2_lengthD)

lemma same_devices_set [intro]:
  assumes "\<And>v. same_device v (f v)"
  shows "same_devices s (set_device d f s)"
proof -
  have "same_device (BlockDevices s ! i) ((BlockDevices s)[d := f (BlockDevices s ! d)] ! i)"
    if "i < length (BlockDevices s)" for i
    using assms that by (cases "i = d") simp_all
  then show ?thesis by (simp add: same_devices_def set_device_def list_all2_conv_all_nth)
qed

lemma BlockRefuse_same [simp]: "world (BlockRefuse device s) = world s" "same_devices s (BlockRefuse device s)"
proof -
  show "world (BlockRefuse device s) = world s"
    by (simp add: BlockRefuse_def Let_def set_device_def split: option.splits)
  show "same_devices s (BlockRefuse device s)"
  proof (cases device)
    case None
    then show ?thesis by (simp add: BlockRefuse_def same_devices_def list_all2_refl)
  next
    case (Some d)
    have "same_devices s (set_device d (\<lambda>v. v\<lparr>device_refusals := device_refusals v + 1\<rparr>) s)"
      by (rule same_devices_set) (simp add: same_device_def)
    then show ?thesis using Some by (simp add: BlockRefuse_def same_devices_def set_device_def)
  qed
qed

text \<open>The three ways a transfer goes.\<close>

definition driver_call ::
  "'w BlockDevice \<Rightarrow> bool \<Rightarrow> u64 \<Rightarrow> u32 \<Rightarrow> u8 list \<Rightarrow> 'w \<Rightarrow> 'w \<times> u8 list \<times> bool" where
  "driver_call v writing block count bytes w =
     (if writing then let (w, ok) = the (operation_write (the (operations v))) (device_context v) block count bytes w in (w, bytes, ok)
      else the (operation_read (the (operations v))) (device_context v) block count bytes w)"

definition transfer_admitted :: "nat \<Rightarrow> u64 \<Rightarrow> u32 \<Rightarrow> bool \<Rightarrow> 'w block_state \<Rightarrow> bool" where
  "transfer_admitted d block count writing s \<longleftrightarrow>
     registered (BlockDevices s ! d) \<and> \<not> (writing \<and> read_only (BlockDevices s ! d)) \<and> 0 < unat count \<and>
     unat block + unat count \<le> unat (block_count (BlockDevices s ! d))"

lemma range_check:
  "\<not> (n \<le> block \<or> n - block < (ucast (count :: u32) :: u64)) \<and> count \<noteq> 0 \<longleftrightarrow>
     0 < unat count \<and> unat (block :: u64) + unat count \<le> unat n"
proof -
  have c: "unat (ucast count :: u64) = unat count"
    using unsigned_less [of count, where 'a = nat] by (simp add: unsigned_ucast_eq take_bit_nat_eq_self_iff)
  show ?thesis
  proof (cases "n \<le> block")
    case True
    then show ?thesis using unat_eq_0 [of count] by (auto simp: word_le_nat_alt)
  next
    case False
    then have "unat (n - block) = unat n - unat block" by (simp add: unat_sub word_le_nat_alt)
    then show ?thesis using False by (auto simp: word_less_nat_alt word_le_nat_alt c unat_gt_0 unat_eq_0)
  qed
qed

definition transfer_refused :: "nat option \<Rightarrow> u64 \<Rightarrow> u32 \<Rightarrow> u8 list option \<Rightarrow> bool \<Rightarrow> 'w block_state \<Rightarrow> bool" where
  "transfer_refused device block count buffer writing s \<longleftrightarrow>
     (\<forall>d bytes. device = Some d \<longrightarrow> buffer = Some bytes \<longrightarrow> \<not> transfer_admitted d block count writing s)"

lemma BlockTransfer_ways:
  assumes run: "BlockTransfer device block count buffer writing s = (s', buffer', ok)"
  shows "\<not> ok \<and> s' = BlockRefuse device s \<and> buffer' = buffer \<and> transfer_refused device block count buffer writing s \<or>
    (\<exists>d. device = Some d \<and> count = 0 \<and> s' = s \<and> buffer' = buffer \<and> ok) \<or>
    (\<exists>d bytes bytes'. device = Some d \<and> buffer = Some bytes \<and> buffer' = Some bytes' \<and>
       transfer_admitted d block count writing s \<and>
       driver_call (BlockDevices s ! d) writing block count bytes (world s) = (world s', bytes', ok) \<and> same_devices s s')"
    (is "?refused \<or> ?empty \<or> ?called")
proof (cases device)
  case None
  then show ?thesis using run by (auto simp: BlockTransfer_def transfer_refused_def)
next
  case (Some d)
  let ?v = "BlockDevices s ! d"
  consider (refuse) "\<not> registered ?v \<or> writing \<and> read_only ?v" | (zero) "registered ?v" "\<not> (writing \<and> read_only ?v)" "count = 0"
    | (null) "registered ?v" "\<not> (writing \<and> read_only ?v)" "count \<noteq> 0" "buffer = None"
    | (range) bytes where "registered ?v" "\<not> (writing \<and> read_only ?v)" "count \<noteq> 0" "buffer = Some bytes"
        "block_count ?v \<le> block \<or> block_count ?v - block < ucast count"
    | (call) bytes where "registered ?v" "\<not> (writing \<and> read_only ?v)" "count \<noteq> 0" "buffer = Some bytes"
        "\<not> (block_count ?v \<le> block \<or> block_count ?v - block < ucast count)"
    by (cases buffer) blast+
  then show ?thesis
  proof cases
    case refuse
    then have ?refused
      using run Some by (cases "registered ?v"; auto simp: BlockTransfer_def transfer_admitted_def transfer_refused_def Let_def)+
    then show ?thesis by blast
  next
    case zero
    then have ?empty using run Some by (auto simp: BlockTransfer_def Let_def)
    then show ?thesis by blast
  next
    case null
    then have ?refused using run Some by (auto simp: BlockTransfer_def transfer_refused_def Let_def)
    then show ?thesis by blast
  next
    case range
    then have "\<not> transfer_admitted d block count writing s"
      using range_check [of "block_count ?v" block count] by (simp add: transfer_admitted_def)
    then have ?refused using range run Some by (auto simp: BlockTransfer_def transfer_refused_def Let_def)
    then show ?thesis by blast
  next
    case call
    then have adm: "transfer_admitted d block count writing s"
      using range_check [of "block_count ?v" block count] by (simp add: transfer_admitted_def)
    obtain w bytes' succeeded where c: "driver_call ?v writing block count bytes (world s) = (w, bytes', succeeded)"
      by (metis prod.collapse)
    have same: "list_all2 same_device (BlockDevices s) ((BlockDevices s)[d := f ?v])" if "\<And>v. same_device v (f v)" for f
      using same_devices_set [of f s d] that by (simp add: same_devices_def set_device_def)
    have "buffer' = Some bytes'" "ok = succeeded" "world s' = w" "same_devices s s'"
      using run Some call c
      by (auto simp: BlockTransfer_def Let_def driver_call_def set_device_def same_devices_def
          intro!: same split: if_splits prod.splits) (auto simp: same_device_def)
    then show ?thesis using Some call(4) adm c by blast
  qed
qed

subsection \<open>Names\<close>

definition cstr :: "u8 list \<Rightarrow> u8 list" where
  "cstr name = takeWhile (\<lambda>c. c \<noteq> 0) name"

lemma BlockNamesMatch_cstr:
  "0 \<in> set left \<Longrightarrow> 0 \<in> set right \<Longrightarrow> BlockNamesMatch left right \<longleftrightarrow> cstr left = cstr right"
  unfolding cstr_def by (induction left right rule: BlockNamesMatch.induct) auto

lemma CopyNameFrom_effect:
  "0 \<in> set name \<Longrightarrow> n \<le> 15 \<Longrightarrow> length field = 16 \<Longrightarrow> CopyNameFrom name n field = (field', found) \<Longrightarrow>
    length field' = 16 \<and>
    (case found of None \<Rightarrow> 15 < n + length (cstr name)
     | Some m \<Rightarrow> m = n + length (cstr name) \<and> m \<le> 15 \<and> take m field' = take n field @ cstr name)"
proof (induction name n field rule: CopyNameFrom.induct)
  case (2 c name n field)
  show ?case
  proof (cases "c = 0")
    case True
    then show ?thesis using 2(3-5) by (auto simp: cstr_def)
  next
    case False
    show ?thesis
    proof (cases "15 \<le> n")
      case True
      then show ?thesis using 2(3-5) False by (auto simp: cstr_def BLOCK_NAME_MAXIMUM_def)
    next
      case small: False
      then have "CopyNameFrom name (n + 1) (field[n := c]) = (field', found)" "0 \<in> set name"
        using 2(2,5) False by (simp_all add: BLOCK_NAME_MAXIMUM_def)
      from 2(1) [OF False _ this(2) _ _ this(1)] small 2(4)
      have IH: "length field' = 16 \<and> (case found of None \<Rightarrow> 15 < n + 1 + length (cstr name)
         | Some m \<Rightarrow> m = n + 1 + length (cstr name) \<and> m \<le> 15 \<and> take m field' = take (n + 1) (field[n := c]) @ cstr name)"
        by (simp add: BLOCK_NAME_MAXIMUM_def)
      have "take (n + 1) (field[n := c]) = take n field @ [c]" using small 2(4) by (simp add: take_Suc_conv_app_nth)
      moreover have "cstr (c # name) = c # cstr name" using False by (simp add: cstr_def)
      ultimately show ?thesis using IH by (auto split: option.splits)
    qed
  qed
qed simp

text \<open>A name goes into its field whole, or the copy reports that it does not.\<close>

lemma BlockCopyName_effect:
  assumes "0 \<in> set name" "length (device_name (BlockDevices s ! d)) = 16" "d < length (BlockDevices s)"
    and run: "BlockCopyName d name s = (s', copied)"
  shows "\<exists>field. s' = set_device d (\<lambda>v. v\<lparr>device_name := field\<rparr>) s \<and> length field = 16 \<and>
    (copied \<longleftrightarrow> cstr name \<noteq> [] \<and> length (cstr name) \<le> 15) \<and> (copied \<longrightarrow> 0 \<in> set field \<and> cstr field = cstr name)"
proof -
  obtain field found where c: "CopyNameFrom name 0 (device_name (BlockDevices s ! d)) = (field, found)" by fastforce
  from CopyNameFrom_effect [OF assms(1) _ assms(2) c]
  have E: "length field = 16" "case found of None \<Rightarrow> 15 < length (cstr name)
     | Some m \<Rightarrow> m = length (cstr name) \<and> m \<le> 15 \<and> take m field = cstr name" by (auto split: option.splits)
  have twice: "set_device d f (set_device d g s) = set_device d (\<lambda>v. f (g v)) s" for f g :: "'a BlockDevice \<Rightarrow> 'a BlockDevice"
    using assms(3) by (simp add: set_device_def)
  show ?thesis
  proof (cases found)
    case None
    then have "s' = set_device d (\<lambda>v. v\<lparr>device_name := field\<rparr>) s" "\<not> copied" using run c by (auto simp: BlockCopyName_def Let_def)
    then show ?thesis using E None by auto
  next
    case (Some m)
    note m = E(2) [unfolded Some option.case]
    show ?thesis
    proof (cases "m = 0")
      case True
      then have "s' = set_device d (\<lambda>v. v\<lparr>device_name := field\<rparr>) s" "\<not> copied"
        using run c Some by (auto simp: BlockCopyName_def Let_def)
      moreover have "cstr name = []" using m True by simp
      ultimately show ?thesis using E(1) by auto
    next
      case False
      then have s': "s' = set_device d (\<lambda>v. v\<lparr>device_name := field[m := 0]\<rparr>) s" "copied"
        using run c Some by (auto simp: BlockCopyName_def Let_def twice)
      have m16: "m < length field" using m E(1) by simp
      then have "field[m := 0] = cstr name @ 0 # drop (m + 1) field" using m m16 by (metis Suc_eq_plus1 upd_conv_take_nth_drop)
      moreover have "0 \<notin> set (cstr name)" by (auto simp: cstr_def dest: set_takeWhileD)
      ultimately have "cstr (field[m := 0]) = cstr name" "0 \<in> set (field[m := 0])"
        by (simp_all add: cstr_def takeWhile_append)
      then show ?thesis using s' m E(1) False by (intro exI [of _ "field[m := 0]"]) auto
    qed
  qed
qed

subsection \<open>The registry\<close>

definition device_ok :: "'w BlockDevice \<Rightarrow> bool" where
  "device_ok v \<longleftrightarrow> length (device_name v) = 16 \<and>
     (registered v \<longrightarrow> 0 \<in> set (device_name v) \<and> cstr (device_name v) \<noteq> [] \<and> block_size v \<noteq> 0 \<and> block_count v \<noteq> 0 \<and>
        (\<exists>ops. operations v = Some ops \<and> operation_read ops \<noteq> None \<and> (read_only v \<longleftrightarrow> operation_write ops = None)))"

definition registry_ok :: "'w block_state \<Rightarrow> bool" where
  "registry_ok s \<longleftrightarrow> (\<forall>d < length (BlockDevices s). device_ok (BlockDevices s ! d)) \<and>
     (\<forall>d < length (BlockDevices s). \<forall>e < length (BlockDevices s).
        registered (BlockDevices s ! d) \<longrightarrow> registered (BlockDevices s ! e) \<longrightarrow>
        cstr (device_name (BlockDevices s ! d)) = cstr (device_name (BlockDevices s ! e)) \<longrightarrow> d = e)"

lemma same_device_ok: "same_device v v' \<Longrightarrow> device_ok v' = device_ok v"
  by (simp add: device_ok_def same_device_def)

lemma same_devices_registry:
  assumes "same_devices s s'" "registry_ok s"
  shows "registry_ok s'"
proof -
  have "device_ok (BlockDevices s' ! d) = device_ok (BlockDevices s ! d)" "registered (BlockDevices s' ! d) = registered (BlockDevices s ! d)"
    "device_name (BlockDevices s' ! d) = device_name (BlockDevices s ! d)" if "d < length (BlockDevices s)" for d
    using same_devices_at [OF assms(1) that] by (simp_all add: same_device_ok) (simp_all add: same_device_def)
  then show ?thesis using assms(2) by (simp add: registry_ok_def same_devices_length [OF assms(1)])
qed

lemma BlockTransfer_same:
  "BlockTransfer device block count buffer writing s = (s', buffer', ok) \<Longrightarrow> same_devices s s'"
  by (drule BlockTransfer_ways) auto

lemma find_upt: "find P [0..<n] = Some d \<longleftrightarrow> d < n \<and> P d \<and> (\<forall>e < d. \<not> P e)"
  by (auto simp: find_Some_iff)

lemma BlockFindByName_iff:
  assumes "registry_ok s" "0 \<in> set n"
  shows "BlockFindByName (Some n) s = Some d \<longleftrightarrow>
    d < length (BlockDevices s) \<and> registered (BlockDevices s ! d) \<and> cstr (device_name (BlockDevices s ! d)) = cstr n"
proof -
  let ?P = "\<lambda>d. registered (BlockDevices s ! d) \<and> BlockNamesMatch (device_name (BlockDevices s ! d)) n"
  have P: "?P e \<longleftrightarrow> registered (BlockDevices s ! e) \<and> cstr (device_name (BlockDevices s ! e)) = cstr n"
    if "e < length (BlockDevices s)" for e
    using assms that BlockNamesMatch_cstr [of "device_name (BlockDevices s ! e)" n]
    by (auto simp: registry_ok_def device_ok_def)
  have "find ?P [0..<length (BlockDevices s)] = Some d \<longleftrightarrow> d < length (BlockDevices s) \<and> ?P d \<and> (\<forall>e < d. \<not> ?P e)"
    by (rule find_upt)
  moreover have "\<not> ?P e" if "e < d" "d < length (BlockDevices s)" "?P d" for e
  proof
    assume "?P e"
    moreover have e: "e < length (BlockDevices s)" using that by simp
    ultimately have "cstr (device_name (BlockDevices s ! e)) = cstr (device_name (BlockDevices s ! d))"
      using P [OF e] P [OF that(2)] that(3) by simp
    then have "e = d" using assms(1) e that \<open>?P e\<close> unfolding registry_ok_def by blast
    then show False using that(1) by simp
  qed
  ultimately show ?thesis unfolding BlockFindByName_def option.case using P [of d] by blast
qed

lemma BlockFindByName_none:
  assumes "registry_ok s" "0 \<in> set n"
  shows "BlockFindByName (Some n) s = None \<longleftrightarrow>
    (\<forall>d < length (BlockDevices s). registered (BlockDevices s ! d) \<longrightarrow> cstr (device_name (BlockDevices s ! d)) \<noteq> cstr n)"
  using BlockFindByName_iff [OF assms] by (metis not_None_eq)

lemma registry_grown:
  "registry_ok s \<Longrightarrow> registry_ok (s\<lparr>BlockDevices := BlockDevices s @ replicate m empty_device\<rparr>)"
  unfolding registry_ok_def by (auto simp: nth_append device_ok_def empty_device_def)

lemma registry_changed:
  assumes "registry_ok s" "\<not> registered (BlockDevices s ! d)" "device_ok v"
    and "registered v \<Longrightarrow> \<forall>e < length (BlockDevices s). registered (BlockDevices s ! e) \<longrightarrow>
      cstr (device_name (BlockDevices s ! e)) \<noteq> cstr (device_name v)"
    and "BlockDevices s' = (BlockDevices s)[d := v]"
  shows "registry_ok s'"
proof (cases "d < length (BlockDevices s)")
  case True
  then show ?thesis using assms(1-4) by (auto simp: registry_ok_def assms(5) nth_list_update)
next
  case False
  then show ?thesis using assms(1) by (simp add: registry_ok_def assms(5) list_update_beyond)
qed

lemma registered_device:
  "v\<lparr>device_name := field, operations := Some os, device_context := driver, block_size := bytes_each, block_count := blocks,
     read_only := only_read, device_reads := 0, device_writes := 0, blocks_read := 0, blocks_written := 0, device_errors := 0,
     device_refusals := 0, registered := True\<rparr> =
   \<lparr>device_name = field, operations = Some os, device_context = driver, block_size = bytes_each, block_count = blocks,
     read_only = only_read, registered = True, device_reads = 0, device_writes = 0, blocks_read = 0, blocks_written = 0,
     device_errors = 0, device_refusals = 0\<rparr>"
  by (cases v) simp

text \<open>What a registration does where it is made.\<close>

lemma BlockRegister_effect:
  assumes run: "BlockRegister grow name ops driver bytes_each blocks only_read s = Some (s', found)"
    and grow: "grows_with empty_device grow" and ok: "registry_ok s"
    and n: "\<And>n. name = Some n \<Longrightarrow> 0 \<in> set n"
  shows "registry_ok s' \<and> world s' = world s \<and> length (BlockDevices s) \<le> length (BlockDevices s') \<and>
    (\<forall>d < length (BlockDevices s). registered (BlockDevices s ! d) \<longrightarrow> BlockDevices s' ! d = BlockDevices s ! d) \<and>
    (\<forall>d. found = Some d \<longrightarrow> (\<exists>nm os field. name = Some nm \<and> ops = Some os \<and> d < length (BlockDevices s') \<and>
       BlockFindByName (Some nm) s = None \<and> cstr field = cstr nm \<and>
       (d < length (BlockDevices s) \<longrightarrow> \<not> registered (BlockDevices s ! d)) \<and>
       BlockDevices s' ! d = \<lparr>device_name = field, operations = Some os, device_context = driver,
         block_size = bytes_each, block_count = blocks, read_only = only_read, registered = True, device_reads = 0,
         device_writes = 0, blocks_read = 0, blocks_written = 0, device_errors = 0, device_refusals = 0\<rparr>))"
    (is "?ok s' \<and> _ \<and> _ \<and> ?kept s' \<and> ?made")
proof -
  have refused: ?thesis if "s' = BlockRefuse None t" "found = None" "registry_ok t" "world t = world s"
      "length (BlockDevices s) \<le> length (BlockDevices t)" "?kept t" for t
    using that same_devices_registry [OF BlockRefuse_same(2) that(3), of None]
    by (simp add: BlockRefuse_def Let_def)
  show ?thesis
  proof (cases "\<exists>nm os. name = Some nm \<and> ops = Some os \<and> operation_read os \<noteq> None \<and> bytes_each \<noteq> 0 \<and> blocks \<noteq> 0 \<and>
      only_read = (operation_write os = None) \<and> BlockFindByName (Some nm) s = None")
    case False
    then have "s' = BlockRefuse None s" "found = None"
      using run by (auto simp: BlockRegister_def split: option.splits if_splits)
    then show ?thesis using refused [of s] ok by simp
  next
    case True
    then obtain nm os where asked: "name = Some nm" "ops = Some os" "operation_read os \<noteq> None" "bytes_each \<noteq> 0" "blocks \<noteq> 0"
      "only_read = (operation_write os = None)" "BlockFindByName (Some nm) s = None" by blast
    obtain devices slot where F: "FreeSlot registered grow 0 (BlockDevices s) = Some (devices, slot)"
      using run asked by (auto simp: BlockRegister_def split: option.splits prod.splits)
    from FreeSlot_search [OF F grow] obtain m where m: "devices = BlockDevices s @ replicate m empty_device"
      "\<And>d. slot = Some d \<Longrightarrow> d < length devices \<and> \<not> registered (devices ! d)" by auto
    let ?g = "s\<lparr>BlockDevices := devices\<rparr>"
    have g: "registry_ok ?g" using registry_grown [OF ok] by (simp add: m(1))
    have kept_g: "?kept ?g" by (simp add: m(1) nth_append)
    show ?thesis
    proof (cases slot)
      case None
      then have "s' = BlockRefuse None ?g" "found = None"
        using run asked F by (auto simp: BlockRegister_def)
      then show ?thesis using refused [of ?g] g kept_g by (simp add: m(1))
    next
      case (Some d)
      note d = m(2) [OF Some]
      have "length (device_name (BlockDevices ?g ! d)) = 16" using g d by (simp add: registry_ok_def device_ok_def)
      moreover obtain t copied where copy: "BlockCopyName d nm ?g = (t, copied)" by fastforce
      ultimately obtain field where t: "t = set_device d (\<lambda>v. v\<lparr>device_name := field\<rparr>) ?g" "length field = 16"
        "copied \<longleftrightarrow> cstr nm \<noteq> [] \<and> length (cstr nm) \<le> 15" "copied \<longrightarrow> 0 \<in> set field \<and> cstr field = cstr nm"
        using BlockCopyName_effect [OF n [OF asked(1)], of ?g d t copied] d by auto
      have tdev: "BlockDevices t = devices[d := (devices ! d)\<lparr>device_name := field\<rparr>]" "world t = world s"
        by (simp_all add: t(1) set_device_def)
      show ?thesis
      proof (cases copied)
        case False
        then have "s' = BlockRefuse None t" "found = None"
          using run asked F Some copy by (auto simp: BlockRegister_def)
        moreover have "registry_ok t"
          by (rule registry_changed [OF g, of d "(devices ! d)\<lparr>device_name := field\<rparr>"])
            (use d t(2) tdev in \<open>simp_all add: device_ok_def\<close>)
        moreover have "?kept t" using kept_g d by (auto simp: tdev nth_list_update)
        ultimately show ?thesis using refused [of t] by (simp add: tdev m(1))
      next
        case True
        let ?v = "\<lparr>device_name = field, operations = Some os, device_context = driver,
         block_size = bytes_each, block_count = blocks, read_only = only_read, registered = True, device_reads = 0,
         device_writes = 0, blocks_read = 0, blocks_written = 0, device_errors = 0, device_refusals = 0\<rparr> :: 'a BlockDevice"
        have s': "BlockDevices s' = devices[d := ?v]" "world s' = world s" "found = Some d"
          using run asked F Some copy True d by (auto simp: BlockRegister_def tdev set_device_def registered_device)
        have fresh: "\<forall>e < length devices. registered (devices ! e) \<longrightarrow> cstr (device_name (devices ! e)) \<noteq> cstr field"
          using BlockFindByName_none [OF ok n [OF asked(1)]] asked(7) t(4) True
          by (auto simp: m(1) nth_append empty_device_def)
        have "registry_ok s'"
          by (rule registry_changed [OF g, of d ?v]) (use d s' t True asked fresh in \<open>auto simp: device_ok_def\<close>)
        moreover have "?kept s'" using kept_g d by (auto simp: s' nth_list_update)
        moreover have "d < length (BlockDevices s) \<longrightarrow> \<not> registered (BlockDevices s ! d)" using d by (auto simp: m(1) nth_append)
        ultimately show ?thesis using s' asked d t(4) True by (auto simp: m(1))
      qed
    qed
  qed
qed

lemma BlockRegister_returns:
  assumes "grows_with empty_device grow"
  shows "\<exists>r. BlockRegister grow name ops driver bytes_each blocks only_read s = Some r"
proof -
  have "\<exists>r. FreeSlot registered grow 0 (BlockDevices s) = Some r"
    by (rule FreeSlot_returns [OF assms]) (simp_all add: empty_device_def)
  then show ?thesis by (auto simp: BlockRegister_def Let_def split: option.splits prod.splits)
qed

lemma BlockUnregister_registry:
  assumes "registry_ok s"
  shows "registry_ok (fst (BlockUnregister device s))" "world (fst (BlockUnregister device s)) = world s"
proof -
  have "registry_ok (fst (BlockUnregister (Some d) s))" if "registered (BlockDevices s ! d)" "d < length (BlockDevices s)" for d
  proof -
    have "BlockDevices (fst (BlockUnregister (Some d) s)) = (BlockDevices s)[d := (BlockDevices s ! d)\<lparr>registered := False, operations := None,
        device_context := 0, device_name := (device_name (BlockDevices s ! d))[0 := 0]\<rparr>]"
      using that by (simp add: BlockUnregister_def set_device_def)
    then show ?thesis using assms that(2)
      by (auto simp: registry_ok_def nth_list_update device_ok_def)
  qed
  moreover have "registry_ok (set_device d f s)" if "\<not> d < length (BlockDevices s)" for d f
    using assms that by (simp add: set_device_def list_update_beyond registry_ok_def)
  ultimately show "registry_ok (fst (BlockUnregister device s))"
    using same_devices_registry [OF BlockRefuse_same(2) assms] by (auto simp: BlockUnregister_def split: option.splits)
  show "world (fst (BlockUnregister device s)) = world s"
    by (auto simp: BlockUnregister_def set_device_def split: option.splits)
qed

end
