(* ===== verification/BlockContract.thy ===== *)
theory BlockContract
  imports BlockRegistry
begin

text \<open>
  What the block layer relies upon in a driver, as a locale, and what the layer promises the
  caches and filesystems above it in turn: a transfer reads and writes the blocks asked for and
  no others.  \<open>stored\<close> is what a device holds in a block, \<open>extent\<close> how many blocks it has,
  \<open>sound\<close> the driver's own invariant; a device is its context to the driver.
\<close>

definition blocks_at :: "(u64 \<Rightarrow> u8 list) \<Rightarrow> u64 \<Rightarrow> nat \<Rightarrow> u8 list" where
  "blocks_at content block n = concat (map (\<lambda>i. content (block + word_of_nat i)) [0..<n])"

definition in_blocks :: "u64 \<Rightarrow> nat \<Rightarrow> u64 \<Rightarrow> bool" where
  "in_blocks block n b \<longleftrightarrow> unat block \<le> unat b \<and> unat b < unat block + n"

text \<open>A registry whose devices of 512 bytes are one driver's, each with a context of its own.\<close>

definition driven :: "'w BlockDevice \<Rightarrow> bool" where
  "driven v \<longleftrightarrow> registered v \<and> block_size v = 512"

definition devices_ok_for ::
  "'w BlockOperations \<Rightarrow> ('w \<Rightarrow> u64 \<Rightarrow> nat) \<Rightarrow> ('w \<Rightarrow> bool) \<Rightarrow> 'w block_state \<Rightarrow> bool" where
  "devices_ok_for ops extent sound s \<longleftrightarrow> sound (world s) \<and>
     (\<forall>d < length (BlockDevices s). driven (BlockDevices s ! d) \<longrightarrow>
        operations (BlockDevices s ! d) = Some ops \<and> operation_read ops \<noteq> None \<and>
        (\<not> read_only (BlockDevices s ! d) \<longrightarrow> operation_write ops \<noteq> None) \<and>
        unat (block_count (BlockDevices s ! d)) \<le> extent (world s) (device_context (BlockDevices s ! d))) \<and>
     (\<forall>d < length (BlockDevices s). \<forall>e < length (BlockDevices s). driven (BlockDevices s ! d) \<longrightarrow> driven (BlockDevices s ! e) \<longrightarrow>
        device_context (BlockDevices s ! d) = device_context (BlockDevices s ! e) \<longrightarrow> d = e)"

definition on_device :: "'w block_state \<Rightarrow> nat \<Rightarrow> u64 \<Rightarrow> bool" where
  "on_device s d b \<longleftrightarrow> d < length (BlockDevices s) \<and> driven (BlockDevices s ! d) \<and> b < block_count (BlockDevices s ! d)"

lemma on_device_same: "same_devices s s' \<Longrightarrow> on_device s' d b \<longleftrightarrow> on_device s d b"
  unfolding on_device_def driven_def using same_devices_length [of s s'] same_devices_at [of s s' d]
  by (auto simp: same_device_def)

definition content_of :: "('w \<Rightarrow> u64 \<Rightarrow> u64 \<Rightarrow> u8 list) \<Rightarrow> 'w block_state \<Rightarrow> nat \<Rightarrow> u64 \<Rightarrow> u8 list" where
  "content_of stored s d = stored (world s) (device_context (BlockDevices s ! d))"

locale block_driver =
  fixes ops :: "'w BlockOperations"
    and stored :: "'w \<Rightarrow> u64 \<Rightarrow> u64 \<Rightarrow> u8 list"
    and extent :: "'w \<Rightarrow> u64 \<Rightarrow> nat"
    and sound :: "'w \<Rightarrow> bool"
  assumes reads: "operation_read ops = Some rd \<Longrightarrow> sound w \<Longrightarrow> 0 < unat count \<Longrightarrow> unat block + unat count \<le> extent w c \<Longrightarrow>
      length buffer = unat count * 512 \<Longrightarrow> rd c block count buffer w = (w', bytes, ok) \<Longrightarrow>
      sound w' \<and> extent w' = extent w \<and> (\<forall>c' b. unat b < extent w c' \<longrightarrow> stored w' c' b = stored w c' b) \<and>
      length bytes = length buffer \<and> (ok \<longrightarrow> bytes = blocks_at (stored w c) block (unat count))"
    and writes: "operation_write ops = Some wr \<Longrightarrow> sound w \<Longrightarrow> 0 < unat count \<Longrightarrow> unat block + unat count \<le> extent w c \<Longrightarrow>
      length buffer = unat count * 512 \<Longrightarrow> wr c block count buffer w = (w', ok) \<Longrightarrow>
      sound w' \<and> extent w' = extent w \<and>
      (\<forall>c' b. unat b < extent w c' \<longrightarrow> c' \<noteq> c \<or> \<not> in_blocks block (unat count) b \<longrightarrow> stored w' c' b = stored w c' b) \<and>
      (ok \<longrightarrow> blocks_at (stored w' c) block (unat count) = buffer)"
    and stored_length: "sound w \<Longrightarrow> unat b < extent w c \<Longrightarrow> length (stored w c b) = 512"
begin

abbreviation devices_ok :: "'w block_state \<Rightarrow> bool" where
  "devices_ok \<equiv> devices_ok_for ops extent sound"

abbreviation content :: "'w block_state \<Rightarrow> nat \<Rightarrow> u64 \<Rightarrow> u8 list" where
  "content \<equiv> content_of stored"

lemma devices_ok_same:
  assumes "devices_ok s" "same_devices s s'" "sound (world s')" "extent (world s') = extent (world s)"
  shows "devices_ok s'"
proof -
  note L = same_devices_length [OF assms(2)] and D = same_devices_at [OF assms(2), unfolded same_device_def]
  show ?thesis using assms(1,3,4) D unfolding devices_ok_for_def L driven_def by (simp add: D)
qed

lemma content_same:
  "same_devices s s' \<Longrightarrow> d < length (BlockDevices s) \<Longrightarrow>
    content s' d = stored (world s') (device_context (BlockDevices s ! d))"
  unfolding content_of_def using same_devices_at [of s s' d] by (simp add: same_device_def)

lemma admitted_call:
  assumes "devices_ok s" "transfer_admitted d block count writing s" "driven (BlockDevices s ! d)" "d < length (BlockDevices s)"
  shows "operations (BlockDevices s ! d) = Some ops" "writing \<Longrightarrow> operation_write ops \<noteq> None" "operation_read ops \<noteq> None"
    "0 < unat count" "unat block + unat count \<le> extent (world s) (device_context (BlockDevices s ! d))"
  using assms unfolding devices_ok_for_def transfer_admitted_def by fastforce+

text \<open>A read changes nothing that any device holds, and a successful one yields what its device does.\<close>

lemma read_effect:
  assumes ok: "devices_ok s" and d: "d < length (BlockDevices s)" "block_size (BlockDevices s ! d) = 512"
    and run: "BlockTransfer (Some d) block count (Some buffer) False s = (s', bytes, good)"
    and len: "length buffer = unat count * 512"
  shows "devices_ok s' \<and> same_devices s s' \<and>
    (\<forall>e b. on_device s e b \<longrightarrow> content s' e b = content s e b) \<and>
    (good \<longrightarrow> bytes = Some (blocks_at (content s d) block (unat count))) \<and>
    (\<exists>bs. bytes = Some bs \<and> length bs = length buffer)"
proof -
  note same = BlockTransfer_same [OF run]
  from BlockTransfer_ways [OF run] show ?thesis
  proof (elim disjE exE conjE)
    assume "\<not> good" "s' = BlockRefuse (Some d) s" "bytes = Some buffer"
    then show ?thesis using devices_ok_same [OF ok same] ok same content_same [OF same]
      by (auto simp: devices_ok_for_def on_device_def content_of_def)
  next
    fix e assume "Some d = Some e" "count = 0" "s' = s" "bytes = Some buffer" good
    then show ?thesis using ok len by (simp add: blocks_at_def)
  next
    fix e bs bs' assume c: "Some d = Some e" "Some buffer = Some bs" "bytes = Some bs'"
      "transfer_admitted e block count False s"
      "driver_call (BlockDevices s ! e) False block count bs (world s) = (world s', bs', good)"
    then have v: "driven (BlockDevices s ! d)" using d by (simp add: driven_def transfer_admitted_def)
    have A: "transfer_admitted d block count False s" using c by simp
    note C = admitted_call [OF ok A v d(1)]
    obtain rd where rd: "operation_read ops = Some rd" using C(3) by blast
    have call: "rd (device_context (BlockDevices s ! d)) block count buffer (world s) = (world s', bs', good)"
      using c C(1) rd by (simp add: driver_call_def)
    have snd: "sound (world s)" using ok by (simp add: devices_ok_for_def)
    note R = reads [OF rd snd C(4,5) len call]
    have kept: "content s' e b = content s e b" if "on_device s e b" for e b
    proof -
      have "unat b < extent (world s) (device_context (BlockDevices s ! e))"
        using that ok unfolding on_device_def devices_ok_for_def word_less_nat_alt by fastforce
      then show ?thesis using R content_same [OF same, of e] that unfolding on_device_def by (simp add: content_of_def)
    qed
    show ?thesis using R devices_ok_same [OF ok same] same kept c(3) by (auto simp: content_of_def)
  qed
qed

text \<open>A write changes what its device holds in its range and nothing else.\<close>

lemma write_effect:
  assumes ok: "devices_ok s" and d: "d < length (BlockDevices s)" "block_size (BlockDevices s ! d) = 512"
    and run: "BlockTransfer (Some d) block count (Some buffer) True s = (s', bytes, good)"
    and len: "length buffer = unat count * 512"
  shows "devices_ok s' \<and> same_devices s s' \<and>
    (\<forall>e b. on_device s e b \<longrightarrow> e \<noteq> d \<or> \<not> in_blocks block (unat count) b \<longrightarrow> content s' e b = content s e b) \<and>
    (good \<longrightarrow> blocks_at (content s' d) block (unat count) = buffer)"
proof -
  note same = BlockTransfer_same [OF run]
  from BlockTransfer_ways [OF run] show ?thesis
  proof (elim disjE exE conjE)
    assume "\<not> good" "s' = BlockRefuse (Some d) s" "bytes = Some buffer"
    then show ?thesis using devices_ok_same [OF ok same] ok same content_same [OF same]
      by (auto simp: devices_ok_for_def on_device_def content_of_def)
  next
    fix e assume "Some d = Some e" "count = 0" "s' = s" "bytes = Some buffer" good
    then show ?thesis using ok len by (simp add: blocks_at_def)
  next
    fix e bs bs' assume c: "Some d = Some e" "Some buffer = Some bs" "bytes = Some bs'"
      "transfer_admitted e block count True s"
      "driver_call (BlockDevices s ! e) True block count bs (world s) = (world s', bs', good)"
    then have v: "driven (BlockDevices s ! d)" using d by (simp add: driven_def transfer_admitted_def)
    have A: "transfer_admitted d block count True s" using c by simp
    note C = admitted_call [OF ok A v d(1)]
    obtain wr where wr: "operation_write ops = Some wr" using C(2) by blast
    have call: "wr (device_context (BlockDevices s ! d)) block count buffer (world s) = (world s', good)"
      using c C(1) wr by (simp add: driver_call_def split: prod.splits)
    have snd: "sound (world s)" using ok by (simp add: devices_ok_for_def)
    note W = writes [OF wr snd C(4,5) len call]
    have kept: "content s' e b = content s e b" if e: "on_device s e b" "e \<noteq> d \<or> \<not> in_blocks block (unat count) b" for e b
    proof -
      have "unat b < extent (world s) (device_context (BlockDevices s ! e))"
        using e(1) ok unfolding on_device_def devices_ok_for_def word_less_nat_alt by fastforce
      moreover have "device_context (BlockDevices s ! e) \<noteq> device_context (BlockDevices s ! d)" if "e \<noteq> d"
        using that e(1) ok v d(1) unfolding on_device_def devices_ok_for_def by blast
      ultimately show ?thesis using W content_same [OF same, of e] e unfolding on_device_def content_of_def by metis
    qed
    show ?thesis using W devices_ok_same [OF ok same] same kept content_same [OF same d(1)] by (auto simp: content_of_def)
  qed
qed

end

text \<open>The contract lets a driver fail; this is one that does not.\<close>

locale prompt_driver = block_driver ops stored extent sound
  for ops :: "'w BlockOperations" and stored :: "'w \<Rightarrow> u64 \<Rightarrow> u64 \<Rightarrow> u8 list" and extent :: "'w \<Rightarrow> u64 \<Rightarrow> nat" and sound :: "'w \<Rightarrow> bool" +
  assumes reads_answer: "operation_read ops = Some rd \<Longrightarrow> sound w \<Longrightarrow> 0 < unat count \<Longrightarrow> unat block + unat count \<le> extent w c \<Longrightarrow>
      length buffer = unat count * 512 \<Longrightarrow> snd (snd (rd c block count buffer w))"
    and writes_answer: "operation_write ops = Some wr \<Longrightarrow> sound w \<Longrightarrow> 0 < unat count \<Longrightarrow> unat block + unat count \<le> extent w c \<Longrightarrow>
      length buffer = unat count * 512 \<Longrightarrow> snd (wr c block count buffer w)"
begin

lemma transfer_answers:
  assumes "devices_ok s" "on_device s d b" "writing \<Longrightarrow> \<not> read_only (BlockDevices s ! d)" "length buffer = 512"
    and run: "BlockTransfer (Some d) b 1 (Some buffer) writing s = (s', bytes, good)"
  shows good
proof -
  have d: "d < length (BlockDevices s)" "driven (BlockDevices s ! d)" "b < block_count (BlockDevices s ! d)"
    using assms(2) by (simp_all add: on_device_def)
  have A: "transfer_admitted d b 1 writing s" using d assms(3) by (auto simp: transfer_admitted_def driven_def word_less_nat_alt)
  note C = admitted_call [OF assms(1) A d(2,1)]
  have snd: "sound (world s)" using assms(1) by (simp add: devices_ok_for_def)
  have len: "length buffer = unat (1 :: u32) * 512" using assms(4) by simp
  from BlockTransfer_ways [OF run] A have "good \<or> driver_call (BlockDevices s ! d) writing b 1 buffer (world s) = (world s', the bytes, good)"
    by (auto simp: transfer_refused_def)
  then show good
    using C reads_answer [OF _ snd C(4,5) len] writes_answer [OF _ snd C(4,5) len]
    by (cases writing) (fastforce simp: driver_call_def split: prod.splits)+
qed

end

end
