(* ===== verification/BufferCoherence.thy ===== *)
theory BufferCoherence
  imports BufferChains BlockContract
begin

text \<open>
  The buffer cache is transparent.  The view of a block is what a valid buffer holds of it and
  otherwise what its device does; every operation keeps the invariant of the cache and the view
  of every block, whatever it evicts, writes back, discards or is refused on the way.
\<close>

subsection \<open>The table of buffers\<close>

definition view :: "('w \<Rightarrow> u64 \<Rightarrow> u64 \<Rightarrow> u8 list) \<Rightarrow> Buffer list \<Rightarrow> 'w block_state \<Rightarrow> nat \<Rightarrow> u64 \<Rightarrow> u8 list" where
  "view stored T s d b =
     (case find (\<lambda>i. holds (T ! i) d b) [0..<64] of Some i \<Rightarrow> buffer_data (T ! i) | None \<Rightarrow> content_of stored s d b)"

definition unique_holder :: "Buffer list \<Rightarrow> bool" where
  "unique_holder T \<longleftrightarrow> (\<forall>i < 64. \<forall>j < 64. \<forall>d b. holds (T ! i) d b \<longrightarrow> holds (T ! j) d b \<longrightarrow> i = j)"

definition data_ok :: "('w \<Rightarrow> u64 \<Rightarrow> u64 \<Rightarrow> u8 list) \<Rightarrow> Buffer list \<Rightarrow> 'w block_state \<Rightarrow> bool" where
  "data_ok stored T s \<longleftrightarrow> length T = 64 \<and> unique_holder T \<and>
     (\<forall>i < 64. length (buffer_data (T ! i)) = 512) \<and>
     (\<forall>i < 64. buffer_valid (T ! i) \<longrightarrow>
        (\<exists>d. buffer_device (T ! i) = Some d \<and> on_device s d (buffer_block (T ! i)) \<and>
           (\<not> buffer_dirty (T ! i) \<longrightarrow> buffer_data (T ! i) = content_of stored s d (buffer_block (T ! i)))))"

lemma view_held: "unique_holder T \<Longrightarrow> i < 64 \<Longrightarrow> holds (T ! i) d b \<Longrightarrow> view stored T s d b = buffer_data (T ! i)"
proof -
  assume A: "unique_holder T" "i < 64" "holds (T ! i) d b"
  then have "find (\<lambda>i. holds (T ! i) d b) [0..<64] = Some i"
    unfolding find_upt unique_holder_def by (metis less_imp_neq less_trans)
  then show ?thesis by (simp only: view_def option.case)
qed

lemma view_absent: "(\<And>i. i < 64 \<Longrightarrow> \<not> holds (T ! i) d b) \<Longrightarrow> view stored T s d b = content_of stored s d b"
proof -
  assume "\<And>i. i < 64 \<Longrightarrow> \<not> holds (T ! i) d b"
  then have "find (\<lambda>i. holds (T ! i) d b) [0..<64] = None" unfolding find_None_iff by auto
  then show ?thesis by (simp only: view_def option.case)
qed

lemma data_okD:
  assumes "data_ok stored T s" "i < 64"
  shows "length T = 64" "length (buffer_data (T ! i)) = 512"
    "holds (T ! i) d b \<Longrightarrow> on_device s d b"
    "holds (T ! i) d b \<Longrightarrow> \<not> buffer_dirty (T ! i) \<Longrightarrow> buffer_data (T ! i) = content_of stored s d b"
    "buffer_valid (T ! i) \<Longrightarrow> \<exists>d. holds (T ! i) d (buffer_block (T ! i))"
    "holds (T ! i) d b \<Longrightarrow> j < 64 \<Longrightarrow> holds (T ! j) d b \<Longrightarrow> i = j"
proof -
  have V: "buffer_valid (T ! i) \<Longrightarrow> \<exists>d. buffer_device (T ! i) = Some d \<and> on_device s d (buffer_block (T ! i)) \<and>
      (\<not> buffer_dirty (T ! i) \<longrightarrow> buffer_data (T ! i) = content_of stored s d (buffer_block (T ! i)))"
    and U: "unique_holder T" and L: "length T = 64" "length (buffer_data (T ! i)) = 512"
    using assms unfolding data_ok_def by simp_all
  show "length T = 64" "length (buffer_data (T ! i)) = 512" by (fact L)+
  show "holds (T ! i) d b \<Longrightarrow> on_device s d b"
    and "holds (T ! i) d b \<Longrightarrow> \<not> buffer_dirty (T ! i) \<Longrightarrow> buffer_data (T ! i) = content_of stored s d b"
    using V unfolding holds_def by auto
  show "buffer_valid (T ! i) \<Longrightarrow> \<exists>d. holds (T ! i) d (buffer_block (T ! i))" using V unfolding holds_def by auto
  show "holds (T ! i) d b \<Longrightarrow> j < 64 \<Longrightarrow> holds (T ! j) d b \<Longrightarrow> i = j"
    using U assms(2) unfolding unique_holder_def by blast
qed

text \<open>
  A buffer changed in a way that others cannot see: each block keeps its holders, and a holder
  its bytes, or the bytes become what the device has.
\<close>

lemma data_ok_cong:
  assumes "data_ok stored T s" "length T' = 64"
    and "\<And>j. j < 64 \<Longrightarrow> length (buffer_data (T' ! j)) = 512"
    and "\<And>j d b. j < 64 \<Longrightarrow> holds (T' ! j) d b \<Longrightarrow> holds (T ! j) d b \<and> buffer_data (T' ! j) = buffer_data (T ! j)"
    and "\<And>j d b. j < 64 \<Longrightarrow> holds (T' ! j) d b \<Longrightarrow> on_device s' d b \<and>
      (\<not> buffer_dirty (T' ! j) \<longrightarrow> buffer_data (T' ! j) = content_of stored s' d b)"
    and "\<And>j. j < 64 \<Longrightarrow> buffer_valid (T' ! j) \<Longrightarrow> buffer_device (T' ! j) \<noteq> None"
  shows "data_ok stored T' s'"
proof -
  have U: "unique_holder T" using assms(1) unfolding data_ok_def by blast
  have "unique_holder T'" unfolding unique_holder_def
  proof (intro allI impI)
    fix i j d b assume "i < (64 :: nat)" "j < (64 :: nat)" "holds (T' ! i) d b" "holds (T' ! j) d b"
    then show "i = j" using assms(4) [of i d b] assms(4) [of j d b] U unfolding unique_holder_def by blast
  qed
  moreover have "\<exists>d. buffer_device (T' ! i) = Some d \<and> on_device s' d (buffer_block (T' ! i)) \<and>
      (\<not> buffer_dirty (T' ! i) \<longrightarrow> buffer_data (T' ! i) = content_of stored s' d (buffer_block (T' ! i)))"
    if i: "i < 64" "buffer_valid (T' ! i)" for i
  proof -
    obtain d where "buffer_device (T' ! i) = Some d" using assms(6) [OF i] by blast
    moreover then have "holds (T' ! i) d (buffer_block (T' ! i))" using i(2) by (simp add: holds_def)
    ultimately show ?thesis using assms(5) [OF i(1)] by blast
  qed
  ultimately show ?thesis using assms(2,3) unfolding data_ok_def by blast
qed

lemma view_cong:
  assumes "unique_holder T" "unique_holder T'"
    and "\<And>j. j < 64 \<Longrightarrow> holds (T' ! j) d b \<Longrightarrow> holds (T ! j) d b \<and> buffer_data (T' ! j) = buffer_data (T ! j)"
    and "\<And>j. j < 64 \<Longrightarrow> holds (T ! j) d b \<Longrightarrow> holds (T' ! j) d b \<or> content_of stored s' d b = buffer_data (T ! j)"
    and "(\<And>j. j < 64 \<Longrightarrow> \<not> holds (T ! j) d b) \<Longrightarrow> content_of stored s' d b = content_of stored s d b"
  shows "view stored T' s' d b = view stored T s d b"
proof (cases "\<exists>j < 64. holds (T ! j) d b")
  case True
  then obtain j where j: "j < 64" "holds (T ! j) d b" by blast
  show ?thesis
  proof (cases "holds (T' ! j) d b")
    case True
    then show ?thesis using j assms(1-3) view_held by metis
  next
    case False
    then have "\<not> holds (T' ! k) d b" if "k < 64" for k
      using assms(1,3) j that unfolding unique_holder_def by metis
    then have "view stored T' s' d b = content_of stored s' d b" by (rule view_absent)
    then show ?thesis using assms(1,4) j False view_held by metis
  qed
next
  case False
  then have "\<And>j. j < 64 \<Longrightarrow> \<not> holds (T ! j) d b" "\<And>j. j < 64 \<Longrightarrow> \<not> holds (T' ! j) d b" using assms(3) by blast+
  then show ?thesis using assms(5) by (simp add: view_absent)
qed

subsection \<open>The invariant of the cache\<close>

definition index_ok :: "'w buffer_state \<Rightarrow> bool" where
  "index_ok c \<longleftrightarrow> shape c \<and> (\<exists>xs. recency c xs \<and> set xs = {..<64}) \<and> (\<exists>cs. chains c cs) \<and>
     (\<forall>i < 64. linked (BufferEntries c ! i) \<longleftrightarrow> buffer_valid (BufferTable c ! i))"

definition cache_ok_for ::
  "'w BlockOperations \<Rightarrow> ('w \<Rightarrow> u64 \<Rightarrow> u64 \<Rightarrow> u8 list) \<Rightarrow> ('w \<Rightarrow> u64 \<Rightarrow> nat) \<Rightarrow> ('w \<Rightarrow> bool) \<Rightarrow> 'w buffer_state \<Rightarrow> bool" where
  "cache_ok_for ops stored extent sound c \<longleftrightarrow>
     index_ok c \<and> data_ok stored (BufferTable c) (block_layer c) \<and> devices_ok_for ops extent sound (block_layer c)"

definition cached_view :: "('w \<Rightarrow> u64 \<Rightarrow> u64 \<Rightarrow> u8 list) \<Rightarrow> 'w buffer_state \<Rightarrow> nat \<Rightarrow> u64 \<Rightarrow> u8 list" where
  "cached_view stored c = view stored (BufferTable c) (block_layer c)"

text \<open>What a part of an operation keeps: the view of every block, and every buffer that is held.\<close>

definition same_buffer :: "Buffer \<Rightarrow> Buffer \<Rightarrow> bool" where
  "same_buffer b b' \<longleftrightarrow> buffer_device b' = buffer_device b \<and> buffer_block b' = buffer_block b \<and> buffer_data b' = buffer_data b \<and>
     buffer_valid b' = buffer_valid b"

definition keeps :: "('w \<Rightarrow> u64 \<Rightarrow> u64 \<Rightarrow> u8 list) \<Rightarrow> 'w buffer_state \<Rightarrow> 'w buffer_state \<Rightarrow> bool" where
  "keeps stored c c' \<longleftrightarrow> same_devices (block_layer c) (block_layer c') \<and>
     (\<forall>d b. on_device (block_layer c) d b \<longrightarrow> cached_view stored c' d b = cached_view stored c d b) \<and>
     (\<forall>i < 64. buffer_references (BufferTable c ! i) \<noteq> 0 \<longrightarrow>
        same_buffer (BufferTable c ! i) (BufferTable c' ! i) \<and>
        buffer_references (BufferTable c' ! i) = buffer_references (BufferTable c ! i))"

lemma keeps_refl [simp]: "keeps stored c c"
  by (simp add: keeps_def same_buffer_def)

lemma keeps_trans:
  assumes "keeps stored a b" "keeps stored b c"
  shows "keeps stored a c"
  unfolding keeps_def
proof (intro conjI allI impI)
  show "same_devices (block_layer a) (block_layer c)" using assms same_devices_trans unfolding keeps_def by blast
  show "cached_view stored c d k = cached_view stored a d k" if "on_device (block_layer a) d k" for d k
    using assms that on_device_same unfolding keeps_def by metis
  fix i :: nat assume "i < 64" "buffer_references (BufferTable a ! i) \<noteq> 0"
  then show "same_buffer (BufferTable a ! i) (BufferTable c ! i)"
    "buffer_references (BufferTable c ! i) = buffer_references (BufferTable a ! i)"
    using assms unfolding keeps_def same_buffer_def by metis+
qed

text \<open>The index looks at the table only for the keys of valid buffers.\<close>

lemma index_ok_table:
  assumes "index_ok c" "length (BufferTable c') = 64" "BufferEntries c' = BufferEntries c" "BufferBuckets c' = BufferBuckets c"
    "BufferNewest c' = BufferNewest c" "BufferOldest c' = BufferOldest c" "device_address c' = device_address c"
    and "\<And>i. i < 64 \<Longrightarrow> buffer_valid (BufferTable c' ! i) = buffer_valid (BufferTable c ! i)"
    and "\<And>i. i < 64 \<Longrightarrow> buffer_valid (BufferTable c ! i) \<Longrightarrow>
      buffer_device (BufferTable c' ! i) = buffer_device (BufferTable c ! i) \<and>
      buffer_block (BufferTable c' ! i) = buffer_block (BufferTable c ! i)"
  shows "index_ok c'"
proof -
  obtain cs xs where I: "shape c" "recency c xs" "set xs = {..<64}" "chains c cs"
    "\<And>i. i < 64 \<Longrightarrow> linked (BufferEntries c ! i) \<longleftrightarrow> buffer_valid (BufferTable c ! i)"
    using assms(1) unfolding index_ok_def by blast
  have "shape c'" using I(1) assms(2-4) by (simp add: shape_def)
  moreover have "recency c' xs" using I(2) assms(3,5,6) by (simp add: recency_def)
  moreover have "bucket_of i c' = bucket_of i c" if "i < 64" "linked (BufferEntries c ! i)" for i
    using that I(5) assms(7,9) by (intro bucket_of_cong) auto
  then have "chains c' cs" using I(4) assms(3,4) unfolding chains_def by auto
  ultimately show ?thesis using I(3,5) assms(3,8) unfolding index_ok_def by auto
qed

lemma index_ok_recency:
  assumes "index_ok c" "recency_only c c'" "recency c' xs" "set xs = {..<64}"
  shows "index_ok c'"
proof -
  have "shape c'" "chains c' cs" if "chains c cs" for cs
    using that assms(1) recency_only_fields(7) [OF assms(2)] recency_only_chains [OF assms(2)] unfolding index_ok_def by auto
  moreover have "linked (BufferEntries c' ! i) \<longleftrightarrow> buffer_valid (BufferTable c' ! i)" if "i < 64" for i
    using assms(1) that recency_only_fields(1,9) [OF assms(2)] unfolding index_ok_def shape_def by auto
  ultimately show ?thesis using assms unfolding index_ok_def by blast
qed

lemma BufferTouch_index:
  assumes "index_ok c" "i < 64"
  shows "index_ok (BufferTouch i c)"
proof -
  obtain xs where xs: "shape c" "recency c xs" "set xs = {..<64}" using assms(1) unfolding index_ok_def by blast
  then have "set (remove1 i xs @ [i]) = {..<64}" using assms(2) by (auto simp: recency_def set_remove1_eq)
  then show ?thesis
    using index_ok_recency [OF assms(1) BufferTouch_only] BufferTouch_recency [OF xs(1,2) assms(2)] by blast
qed

text \<open>The table after one dirty buffer has gone to its device, or has failed to and stayed dirty.\<close>

lemma written_back_table:
  assumes D: "data_ok stored T s" and i: "i < 64" and held: "holds (T ! i) d b0"
    and W: "same_devices s s'" "\<And>e b. on_device s e b \<Longrightarrow> e \<noteq> d \<or> b \<noteq> b0 \<Longrightarrow> content_of stored s' e b = content_of stored s e b"
      "\<not> dirt \<Longrightarrow> content_of stored s' d b0 = buffer_data (T ! i)"
    and T': "T' = T[i := (T ! i)\<lparr>buffer_dirty := dirt\<rparr>]"
  shows "data_ok stored T' s'" "\<And>e b. on_device s e b \<Longrightarrow> view stored T' s' e b = view stored T s e b"
proof -
  have len64: "length T = 64" using data_okD(1) [OF D i] .
  have at: "T' ! j = (if j = i then (T ! i)\<lparr>buffer_dirty := dirt\<rparr> else T ! j)" if "j < 64" for j
    using that len64 by (simp add: T' nth_list_update)
  have holds: "holds (T' ! j) e b = holds (T ! j) e b" "buffer_data (T' ! j) = buffer_data (T ! j)" if "j < 64" for j e b
    using at [OF that] by (simp_all add: holds_def)
  show data: "data_ok stored T' s'"
  proof (rule data_ok_cong [OF D])
    show "length T' = 64" using len64 by (simp add: T')
    show "length (buffer_data (T' ! j)) = 512" if "j < 64" for j
      using holds(2) [OF that] data_okD(2) [OF D that] by simp
    show "holds (T ! j) e b \<and> buffer_data (T' ! j) = buffer_data (T ! j)"
      if "j < 64" "holds (T' ! j) e b" for j e b using holds [OF that(1)] that(2) by simp
    show "buffer_device (T' ! j) \<noteq> None" if "j < 64" "buffer_valid (T' ! j)" for j
      using at [OF that(1)] that data_okD(5) [OF D that(1)] held by (auto simp: holds_def split: if_splits)
    fix j e b assume j: "j < 64" "holds (T' ! j) e b"
    then have h: "holds (T ! j) e b" using holds by simp
    have on: "on_device s e b" using data_okD(3) [OF D j(1) h] .
    have "\<not> buffer_dirty (T' ! j) \<longrightarrow> buffer_data (T' ! j) = content_of stored s' e b"
    proof (cases "j = i")
      case True
      then have "e = d" "b = b0" using h held by (auto simp: holds_def)
      then show ?thesis using W(3) at [OF j(1)] True by simp
    next
      case False
      then have "e \<noteq> d \<or> b \<noteq> b0" using data_okD(6) [OF D j(1) h i] held by blast
      then show ?thesis using W(2) [OF on] at [OF j(1)] False data_okD(4) [OF D j(1) h] by simp
    qed
    then show "on_device s' e b \<and> (\<not> buffer_dirty (T' ! j) \<longrightarrow> buffer_data (T' ! j) = content_of stored s' e b)"
      using on on_device_same [OF W(1)] by blast
  qed
  show "view stored T' s' e b = view stored T s e b" if on: "on_device s e b" for e b
  proof (rule view_cong)
    show "unique_holder T" "unique_holder T'" using D data unfolding data_ok_def by blast+
    show "content_of stored s' e b = content_of stored s e b" if "\<And>j. j < 64 \<Longrightarrow> \<not> holds (T ! j) e b"
      using W(2) [OF on] that [OF i] held by blast
  qed (use holds in auto)
qed

context block_driver
begin

abbreviation cache_ok :: "'w buffer_state \<Rightarrow> bool" where
  "cache_ok \<equiv> cache_ok_for ops stored extent sound"

subsection \<open>Writing back\<close>

lemma in_one_block: "in_blocks block 1 b \<longleftrightarrow> b = block"
  by (auto simp: in_blocks_def le_less_Suc_eq word_unat_eq_iff)

lemma one_block: "blocks_at f block 1 = f block"
  by (simp add: blocks_at_def)

lemma BufferWriteBack_effect:
  assumes ok: "cache_ok c" and i: "i < 64" and run: "BufferWriteBack i c = (c', written)"
  shows "cache_ok c'" "keeps stored c c'"
    "\<exists>dirt. BufferTable c' = (BufferTable c)[i := (BufferTable c ! i)\<lparr>buffer_dirty := dirt\<rparr>]"
    "written \<Longrightarrow> \<not> (buffer_valid (BufferTable c' ! i) \<and> buffer_dirty (BufferTable c' ! i))"
    "BufferEntries c' = BufferEntries c \<and> BufferBuckets c' = BufferBuckets c \<and> BufferNewest c' = BufferNewest c \<and>
     BufferOldest c' = BufferOldest c \<and> device_address c' = device_address c"
proof -
  let ?T = "BufferTable c" and ?s = "block_layer c"
  have D: "data_ok stored ?T ?s" "devices_ok ?s" "index_ok c" using ok unfolding cache_ok_for_def by blast+
  have "cache_ok c' \<and> keeps stored c c' \<and> (\<exists>dirt. BufferTable c' = ?T[i := (?T ! i)\<lparr>buffer_dirty := dirt\<rparr>]) \<and>
    (written \<longrightarrow> \<not> (buffer_valid (BufferTable c' ! i) \<and> buffer_dirty (BufferTable c' ! i))) \<and>
    BufferEntries c' = BufferEntries c \<and> BufferBuckets c' = BufferBuckets c \<and> BufferNewest c' = BufferNewest c \<and>
     BufferOldest c' = BufferOldest c \<and> device_address c' = device_address c"
  proof (cases "buffer_valid (?T ! i) \<and> buffer_dirty (?T ! i)")
    case False
    then have "c' = c" "written \<longrightarrow> True" using run by (auto simp: BufferWriteBack_def Let_def split: if_splits)
    moreover have "?T = ?T[i := (?T ! i)\<lparr>buffer_dirty := buffer_dirty (?T ! i)\<rparr>]" by simp
    ultimately show ?thesis using ok False by (metis keeps_refl)
  next
    case True
    then obtain d where held: "holds (?T ! i) d (buffer_block (?T ! i))" using data_okD(5) [OF D(1) i] by blast
    let ?b = "buffer_block (?T ! i)"
    have dev: "buffer_device (?T ! i) = Some d" using held by (simp add: holds_def)
    have on: "on_device ?s d ?b" using data_okD(3) [OF D(1) i held] .
    then have dl: "d < length (BlockDevices ?s)" "block_size (BlockDevices ?s ! d) = 512" by (simp_all add: on_device_def driven_def)
    obtain s' bytes where T: "BlockTransfer (Some d) ?b 1 (Some (buffer_data (?T ! i))) True ?s = (s', bytes, written)"
      and c': "block_layer c' = s'" "BufferTable c' = ?T[i := (?T ! i)\<lparr>buffer_dirty := \<not> written\<rparr>]"
        "BufferEntries c' = BufferEntries c \<and> BufferBuckets c' = BufferBuckets c \<and> BufferNewest c' = BufferNewest c \<and>
         BufferOldest c' = BufferOldest c \<and> device_address c' = device_address c"
    proof -
      obtain s' bytes w where T: "BlockTransfer (Some d) ?b 1 (Some (buffer_data (?T ! i))) True ?s = (s', bytes, w)" by (metis prod.collapse)
      have "?T[i := (?T ! i)\<lparr>buffer_dirty := True\<rparr>] = ?T"
      proof -
        have "(?T ! i)\<lparr>buffer_dirty := True\<rparr> = ?T ! i" using True by (cases "?T ! i") simp
        then show ?thesis by simp
      qed
      then show ?thesis using that [of s' bytes] T run True
        by (auto simp: BufferWriteBack_def Let_def BlockWrite_def dev set_buffer_def split: if_splits)
    qed
    have len: "length (buffer_data (?T ! i)) = unat (1 :: u32) * 512" using data_okD(2) [OF D(1) i] by simp
    from write_effect [OF D(2) dl T len]
    have W: "devices_ok s'" "same_devices ?s s'"
      "\<And>e b. on_device ?s e b \<Longrightarrow> e \<noteq> d \<or> b \<noteq> ?b \<Longrightarrow> content s' e b = content ?s e b"
      "written \<Longrightarrow> content s' d ?b = buffer_data (?T ! i)"
      by (simp_all add: in_one_block [simplified] one_block [simplified])
    have len64: "length ?T = 64" using data_okD(1) [OF D(1) i] .
    have at: "BufferTable c' ! j = (if j = i then (?T ! i)\<lparr>buffer_dirty := \<not> written\<rparr> else ?T ! j)" if "j < 64" for j
      using that len64 by (simp add: c'(2) nth_list_update)
    have data: "data_ok stored (BufferTable c') s'"
      "\<And>e b. on_device ?s e b \<Longrightarrow> view stored (BufferTable c') s' e b = view stored ?T ?s e b"
      using written_back_table [OF D(1) i held W(2,3) _ c'(2)] W(4) by blast+
    have "keeps stored c c'" using W(2) data(2) at c'(1) by (simp add: keeps_def cached_view_def same_buffer_def)
    moreover have "index_ok c'"
    proof (rule index_ok_table [OF D(3)])
      show "length (BufferTable c') = 64" by (simp add: c'(2) len64)
    qed (simp_all add: at c'(3))
    ultimately show ?thesis using data(1) W(1) c' at [OF i] unfolding cache_ok_for_def by auto
  qed
  then show "cache_ok c'" "keeps stored c c'"
    "\<exists>dirt. BufferTable c' = ?T[i := (?T ! i)\<lparr>buffer_dirty := dirt\<rparr>]"
    "written \<Longrightarrow> \<not> (buffer_valid (BufferTable c' ! i) \<and> buffer_dirty (BufferTable c' ! i))"
    "BufferEntries c' = BufferEntries c \<and> BufferBuckets c' = BufferBuckets c \<and> BufferNewest c' = BufferNewest c \<and>
     BufferOldest c' = BufferOldest c \<and> device_address c' = device_address c" by blast+
qed

end

subsection \<open>Emptying a buffer\<close>

lemma forget_table:
  assumes D: "data_ok stored T s" and i: "i < 64" and clean: "buffer_valid (T ! i) \<Longrightarrow> \<not> buffer_dirty (T ! i)"
  shows "data_ok stored (T[i := forget (T ! i)]) s" "view stored (T[i := forget (T ! i)]) s d b = view stored T s d b"
proof -
  let ?T = "T[i := forget (T ! i)]"
  have len: "length T = 64" using data_okD(1) [OF D i] .
  have at: "?T ! j = (if j = i then forget (T ! i) else T ! j)" if "j < 64" for j using that len by (simp add: nth_list_update)
  have holds: "holds (?T ! j) e k \<longleftrightarrow> j \<noteq> i \<and> holds (T ! j) e k" "buffer_data (?T ! j) = buffer_data (T ! j)" if "j < 64" for j e k
    using at [OF that] by (auto simp: holds_def forget_def)
  show data: "data_ok stored ?T s"
  proof (rule data_ok_cong [OF D])
    show "length (buffer_data (?T ! j)) = 512" if "j < 64" for j using holds(2) [OF that] data_okD(2) [OF D that] by simp
    show "holds (T ! j) e k \<and> buffer_data (?T ! j) = buffer_data (T ! j)" if "j < 64" "holds (?T ! j) e k" for j e k
      using holds [OF that(1)] that(2) by simp
    show "on_device s e k \<and> (\<not> buffer_dirty (?T ! j) \<longrightarrow> buffer_data (?T ! j) = content_of stored s e k)"
      if "j < 64" "holds (?T ! j) e k" for j e k
      using that holds(1) [OF that(1)] at [OF that(1)] data_okD(3,4) [OF D that(1)] by auto
    show "buffer_device (?T ! j) \<noteq> None" if "j < 64" "buffer_valid (?T ! j)" for j
      using that at [OF that(1)] data_okD(5) [OF D that(1)] by (auto simp: forget_def holds_def split: if_splits)
  qed (simp add: len)
  show "view stored ?T s d b = view stored T s d b"
  proof (rule view_cong)
    show "unique_holder T" "unique_holder ?T" using D data unfolding data_ok_def by blast+
    show "holds (?T ! j) d b \<or> content_of stored s d b = buffer_data (T ! j)" if "j < 64" "holds (T ! j) d b" for j
    proof (cases "j = i")
      case True
      then have "\<not> buffer_dirty (T ! j)" using clean that(2) by (simp add: holds_def)
      then show ?thesis using data_okD(4) [OF D that] by simp
    next
      case False
      then show ?thesis using holds(1) that by simp
    qed
  qed (use holds in auto)
qed

lemma unlink_forget:
  assumes "index_ok c" "i < 64"
  obtains c' where "BufferUnlink i c = Some c'" "chains_only c c'"
    "\<And>c''. BufferTable c'' = (BufferTable c)[i := forget (BufferTable c ! i)] \<Longrightarrow> BufferEntries c'' = BufferEntries c' \<Longrightarrow>
      BufferBuckets c'' = BufferBuckets c' \<Longrightarrow> BufferNewest c'' = BufferNewest c \<Longrightarrow> BufferOldest c'' = BufferOldest c \<Longrightarrow>
      device_address c'' = device_address c \<Longrightarrow> index_ok c''"
proof -
  obtain cs xs where I: "shape c" "recency c xs" "set xs = {..<64}" "chains c cs"
    "\<And>j. j < 64 \<Longrightarrow> linked (BufferEntries c ! j) \<longleftrightarrow> buffer_valid (BufferTable c ! j)"
    using assms(1) unfolding index_ok_def by blast
  from BufferUnlink_effect [OF I(1,4) assms(2)] obtain c' where U: "BufferUnlink i c = Some c'" "chains_only c c'"
    "chains c' (\<lambda>k. remove1 i (cs k))" "\<not> linked (BufferEntries c' ! i)"
    "\<And>j. j < 64 \<Longrightarrow> j \<noteq> i \<Longrightarrow> linked (BufferEntries c' ! j) = linked (BufferEntries c ! j)" by blast
  note F = chains_only_fields [OF U(2)]
  have "index_ok c''" if c'': "BufferTable c'' = (BufferTable c)[i := forget (BufferTable c ! i)]" "BufferEntries c'' = BufferEntries c'"
      "BufferBuckets c'' = BufferBuckets c'" "BufferNewest c'' = BufferNewest c" "BufferOldest c'' = BufferOldest c"
      "device_address c'' = device_address c" for c''
  proof -
    let ?g = "set_buffer i forget c'"
    have same: "BufferTable c'' = BufferTable ?g" using c''(1) F(1) by (simp add: set_buffer_def)
    have "shape c'" using I(1) F(8) by simp
    then have "shape c''" using c'' F(1) by (simp add: shape_def)
    moreover have "recency c'' xs" using chains_only_recency [OF U(2) I(1,2)] c'' F(2,3) by (simp add: recency_def)
    moreover have "chains ?g (\<lambda>k. remove1 i (cs k))" using set_buffer_chains [OF \<open>shape c'\<close> U(3)] U(4) by blast
    then have "chains c'' (\<lambda>k. remove1 i (cs k))"
    proof -
      have "bucket_of j c'' = bucket_of j ?g" for j by (rule bucket_of_cong) (simp_all add: same c''(6) F(5))
      then show ?thesis using \<open>chains ?g _\<close> c''(2,3) unfolding chains_def by simp
    qed
    moreover have "linked (BufferEntries c'' ! j) \<longleftrightarrow> buffer_valid (BufferTable c'' ! j)" if "j < 64" for j
      using that I(1,5) U(4,5) assms(2) by (cases "j = i") (simp_all add: c''(1,2) shape_def forget_def)
    ultimately show ?thesis using I(3) unfolding index_ok_def by blast
  qed
  then show ?thesis using that U(1,2) by blast
qed

lemma keepsI:
  assumes "block_layer c' = block_layer c" "\<And>d b. view stored (BufferTable c') (block_layer c) d b = view stored (BufferTable c) (block_layer c) d b"
    and "\<And>i. i < 64 \<Longrightarrow> buffer_references (BufferTable c ! i) \<noteq> 0 \<Longrightarrow> BufferTable c' ! i = BufferTable c ! i"
  shows "keeps stored c c'"
  using assms by (simp add: keeps_def cached_view_def same_buffer_def)

end
