(* ===== verification/BufferOperations.thy ===== *)
theory BufferOperations
  imports BufferCoherence
begin

text \<open>
  The operations of the buffer cache under its invariant: each returns, keeps the invariant and
  the view of every block, and leaves the buffers that are held where they are.
\<close>

subsection \<open>Tables and devices\<close>

text \<open>A read of the devices changes nothing the table depends on.\<close>

lemma data_ok_devices:
  assumes "data_ok stored T s" "same_devices s s'" "\<And>d b. on_device s d b \<Longrightarrow> content_of stored s' d b = content_of stored s d b"
  shows "data_ok stored T s'" "on_device s d b \<Longrightarrow> view stored T s' d b = view stored T s d b"
proof -
  show ok: "data_ok stored T s'"
  proof (rule data_ok_cong [OF assms(1)])
    show "length T = 64" using assms(1) unfolding data_ok_def by blast
    show "length (buffer_data (T ! j)) = 512" if "j < 64" for j using data_okD(2) [OF assms(1) that] .
    show "buffer_device (T ! j) \<noteq> None" if "j < 64" "buffer_valid (T ! j)" for j
      using data_okD(5) [OF assms(1) that] by (auto simp: holds_def)
    show "on_device s' e k \<and> (\<not> buffer_dirty (T ! j) \<longrightarrow> buffer_data (T ! j) = content_of stored s' e k)"
      if "j < 64" "holds (T ! j) e k" for j e k
      using data_okD(3,4) [OF assms(1) that(1), of e k] that(2) assms(3) on_device_same [OF assms(2)] by auto
  qed simp
  show "view stored T s' d b = view stored T s d b" if "on_device s d b"
    by (rule view_cong) (use assms(1,3) that in \<open>auto simp: data_ok_def\<close>)
qed

text \<open>Nor does a change of who holds a buffer.\<close>

lemma data_ok_refs:
  assumes D: "data_ok stored T s" and len: "length T' = 64"
    and same: "\<And>j. j < 64 \<Longrightarrow> same_buffer (T ! j) (T' ! j) \<and> buffer_dirty (T' ! j) = buffer_dirty (T ! j)"
  shows "data_ok stored T' s" "view stored T' s d b = view stored T s d b"
proof -
  have holds: "holds (T' ! j) e k = holds (T ! j) e k" "buffer_data (T' ! j) = buffer_data (T ! j)"
    "buffer_dirty (T' ! j) = buffer_dirty (T ! j)" "buffer_valid (T' ! j) = buffer_valid (T ! j)"
    "buffer_device (T' ! j) = buffer_device (T ! j)" if "j < 64" for j e k
    using same [OF that] by (simp_all add: same_buffer_def holds_def)
  show ok: "data_ok stored T' s"
  proof (rule data_ok_cong [OF D len])
    show "buffer_device (T' ! j) \<noteq> None" if "j < 64" "buffer_valid (T' ! j)" for j
      using that holds(4,5) [OF that(1)] data_okD(5) [OF D that(1)] by (auto simp: holds_def)
    show "on_device s e k \<and> (\<not> buffer_dirty (T' ! j) \<longrightarrow> buffer_data (T' ! j) = content_of stored s e k)"
      if "j < 64" "holds (T' ! j) e k" for j e k
      using that holds [OF that(1)] data_okD(3,4) [OF D that(1)] by auto
  qed (use holds data_okD(2) [OF D] in auto)
  show "view stored T' s d b = view stored T s d b"
    by (rule view_cong) (use D ok holds in \<open>auto simp: data_ok_def\<close>)
qed

text \<open>An invalid buffer may hold anything of the right length.\<close>

lemma data_ok_invalid:
  assumes D: "data_ok stored T s" and i: "i < 64" "\<not> buffer_valid (T ! i)" "\<not> buffer_valid b" "length (buffer_data b) = 512"
  shows "data_ok stored (T[i := b]) s" "view stored (T[i := b]) s d k = view stored T s d k"
proof -
  have len: "length T = 64" using data_okD(1) [OF D i(1)] .
  have at: "T[i := b] ! j = (if j = i then b else T ! j)" if "j < 64" for j using that len by (simp add: nth_list_update)
  have holds: "holds (T[i := b] ! j) e k = holds (T ! j) e k" if "j < 64" for j e k
    using at [OF that] i(2,3) by (simp add: holds_def)
  have bytes: "buffer_data (T[i := b] ! j) = buffer_data (T ! j)" if "j < 64" "holds (T ! j) e k" for j e k
    using at [OF that(1)] that(2) i(2) by (auto simp: holds_def)
  show ok: "data_ok stored (T[i := b]) s"
  proof (rule data_ok_cong [OF D])
    show "length (buffer_data (T[i := b] ! j)) = 512" if "j < 64" for j using at [OF that] i(4) data_okD(2) [OF D that] by simp
    show "buffer_device (T[i := b] ! j) \<noteq> None" if "j < 64" "buffer_valid (T[i := b] ! j)" for j
      using at [OF that(1)] that i(3) data_okD(5) [OF D that(1)] by (auto simp: holds_def split: if_splits)
    show "holds (T ! j) e k \<and> buffer_data (T[i := b] ! j) = buffer_data (T ! j)" if "j < 64" "holds (T[i := b] ! j) e k" for j e k
      using holds [OF that(1)] bytes [OF that(1)] that(2) by simp
    show "on_device s e k \<and> (\<not> buffer_dirty (T[i := b] ! j) \<longrightarrow> buffer_data (T[i := b] ! j) = content_of stored s e k)"
      if "j < 64" "holds (T[i := b] ! j) e k" for j e k
      using that holds [OF that(1)] at [OF that(1)] i(3) data_okD(3,4) [OF D that(1)] by (auto simp: holds_def)
  qed (simp add: len)
  show "view stored (T[i := b]) s d k = view stored T s d k"
    by (rule view_cong) (use D ok holds bytes in \<open>auto simp: data_ok_def\<close>)
qed

text \<open>A buffer filled with a block no other holds.\<close>

lemma data_ok_filled:
  assumes D: "data_ok stored T s" and i: "i < 64" "\<not> buffer_valid (T ! i)"
    and b: "holds b d k" "\<not> buffer_dirty b" "length (buffer_data b) = 512" "buffer_data b = content_of stored s d k" "on_device s d k"
    and free: "\<And>j. j < 64 \<Longrightarrow> \<not> holds (T ! j) d k"
  shows "data_ok stored (T[i := b]) s" "view stored (T[i := b]) s e q = view stored T s e q"
proof -
  have len: "length T = 64" using data_okD(1) [OF D i(1)] .
  have at: "T[i := b] ! j = (if j = i then b else T ! j)" if "j < 64" for j using that len by (simp add: nth_list_update)
  have key: "holds b e q \<longleftrightarrow> e = d \<and> q = k" for e q using b(1) by (auto simp: holds_def)
  have U: "unique_holder T" using D unfolding data_ok_def by blast
  have U': "unique_holder (T[i := b])"
    unfolding unique_holder_def
  proof (intro allI impI)
    fix x y e q assume xy: "x < (64 :: nat)" "y < (64 :: nat)" "holds (T[i := b] ! x) e q" "holds (T[i := b] ! y) e q"
    have "x = i \<longleftrightarrow> y = i" using xy at [OF xy(1)] at [OF xy(2)] key free by (auto split: if_splits)
    moreover have "x = y" if "x \<noteq> i" "y \<noteq> i"
      using that xy at [OF xy(1)] at [OF xy(2)] U unfolding unique_holder_def by auto
    ultimately show "x = y" by auto
  qed
  have V: "\<exists>d. buffer_device (T[i := b] ! j) = Some d \<and> on_device s d (buffer_block (T[i := b] ! j)) \<and>
      (\<not> buffer_dirty (T[i := b] ! j) \<longrightarrow> buffer_data (T[i := b] ! j) = content_of stored s d (buffer_block (T[i := b] ! j)))"
    if "j < 64" "buffer_valid (T[i := b] ! j)" for j
    using that D b at [OF that(1)] unfolding data_ok_def by (cases "j = i") (auto simp: holds_def)
  have L: "length (buffer_data (T[i := b] ! j)) = 512" if "j < 64" for j
    using at [OF that] b(3) data_okD(2) [OF D that] by simp
  have len': "length (T[i := b]) = 64" using len by simp
  show "data_ok stored (T[i := b]) s" using U' V L len' unfolding data_ok_def by blast
  show "view stored (T[i := b]) s e q = view stored T s e q"
  proof (cases "e = d \<and> q = k")
    case True
    then have "view stored (T[i := b]) s e q = buffer_data b" using view_held [OF U' i(1)] at [OF i(1)] b(1) by simp
    then show ?thesis using True b(4) view_absent [of T d k stored s] free by simp
  next
    case False
    have h: "holds (T[i := b] ! j) e q = holds (T ! j) e q" "holds (T ! j) e q \<Longrightarrow> T[i := b] ! j = T ! j" if "j < 64" for j
      using at [OF that] False key [of e q] i(2) by (auto simp: holds_def split: if_splits)
    show ?thesis by (rule view_cong [OF U U']) (use h in auto)
  qed
qed

text \<open>Linking the buffer just filled.\<close>

lemma link_index:
  assumes "shape c" "recency c xs" "set xs = {..<64}" "chains c cs" "i < 64" "\<not> linked (BufferEntries c ! i)" "buffer_valid (BufferTable c ! i)"
    and "\<And>j. j < 64 \<Longrightarrow> j \<noteq> i \<Longrightarrow> linked (BufferEntries c ! j) \<longleftrightarrow> buffer_valid (BufferTable c ! j)"
  shows "index_ok (BufferLink i c)"
proof -
  note L = BufferLink_effect [OF assms(1,4,5,6)] and F = chains_only_fields [OF BufferLink_effect(1) [OF assms(1,4,5,6)]]
  have "linked (BufferEntries (BufferLink i c) ! j) \<longleftrightarrow> buffer_valid (BufferTable (BufferLink i c) ! j)" if "j < 64" for j
    using that L(3,4) assms(7,8) F(1) by (cases "j = i") simp_all
  moreover have "recency (BufferLink i c) xs" by (rule chains_only_recency [OF L(1) assms(1,2)])
  ultimately show ?thesis using L(2) F(8) assms(1,3) unfolding index_ok_def by blast
qed

context block_driver
begin

text \<open>A clean buffer nobody holds leaves its chain and forgets its block.\<close>

lemma evict:
  assumes ok: "cache_ok c" and i: "i < 64" and refs: "buffer_references (BufferTable c ! i) = 0"
    and clean: "buffer_valid (BufferTable c ! i) \<Longrightarrow> \<not> buffer_dirty (BufferTable c ! i)"
  obtains c2 where "BufferUnlink i c = Some c2"
    "\<And>n. cache_ok (set_buffer i forget (c2\<lparr>BufferEvictionCount := n\<rparr>))"
    "\<And>n. keeps stored c (set_buffer i forget (c2\<lparr>BufferEvictionCount := n\<rparr>))"
    "\<And>n. BufferTable (set_buffer i forget (c2\<lparr>BufferEvictionCount := n\<rparr>)) = (BufferTable c)[i := forget (BufferTable c ! i)]"
    "block_layer c2 = block_layer c" "device_address c2 = device_address c"
proof -
  have I: "index_ok c" and D: "data_ok stored (BufferTable c) (block_layer c)" and V: "devices_ok (block_layer c)"
    using ok unfolding cache_ok_for_def by blast+
  from unlink_forget [OF I i] obtain c2 where U: "BufferUnlink i c = Some c2" "chains_only c c2"
    "\<And>c'' :: 'w buffer_state. BufferTable c'' = (BufferTable c)[i := forget (BufferTable c ! i)] \<Longrightarrow> BufferEntries c'' = BufferEntries c2 \<Longrightarrow>
      BufferBuckets c'' = BufferBuckets c2 \<Longrightarrow> BufferNewest c'' = BufferNewest c \<Longrightarrow> BufferOldest c'' = BufferOldest c \<Longrightarrow>
      device_address c'' = device_address c \<Longrightarrow> index_ok c''" by blast
  note F = chains_only_fields [OF U(2)]
  let ?c = "\<lambda>n. set_buffer i forget (c2\<lparr>BufferEvictionCount := n\<rparr>)"
  have T: "BufferTable (?c n) = (BufferTable c)[i := forget (BufferTable c ! i)]" "block_layer (?c n) = block_layer c" for n
    by (simp_all add: set_buffer_def F)
  have len: "length (BufferTable c) = 64" using D unfolding data_ok_def by blast
  have "cache_ok (?c n)" for n
    using U(3) [of "?c n"] forget_table(1) [OF D i clean] V T F by (simp add: cache_ok_for_def)
  moreover have "keeps stored c (?c n)" for n
  proof (rule keepsI)
    show "BufferTable (?c n) ! j = BufferTable c ! j" if "j < 64" "buffer_references (BufferTable c ! j) \<noteq> 0" for j
      using that refs len unfolding T by (cases "j = i") simp_all
  qed (simp_all add: T F(4) forget_table(2) [OF D i clean])
  ultimately show ?thesis using that U(1) T F by blast
qed

subsection \<open>Claiming\<close>

text \<open>A claim empties a buffer nobody holds, or fails, every buffer held or the write-back failed.\<close>

lemma BufferClaim_effect:
  assumes ok: "cache_ok c"
  obtains c' r where "BufferClaim c = Some (c', r)" "cache_ok c'" "keeps stored c c'" "device_address c' = device_address c"
    "\<And>j d b. j < 64 \<Longrightarrow> holds (BufferTable c' ! j) d b \<Longrightarrow> holds (BufferTable c ! j) d b"
    "\<And>i. r = Some i \<Longrightarrow> i < 64 \<and> buffer_references (BufferTable c' ! i) = 0 \<and> \<not> buffer_valid (BufferTable c' ! i)"
    "r = None \<Longrightarrow> (\<forall>i < 64. buffer_references (BufferTable c ! i) \<noteq> 0) \<or>
       (\<exists>i < 64. buffer_references (BufferTable c ! i) = 0 \<and> \<not> snd (BufferWriteBack i c))"
proof -
  have I: "index_ok c" and D: "data_ok stored (BufferTable c) (block_layer c)" and V: "devices_ok (block_layer c)"
    using ok unfolding cache_ok_for_def by blast+
  obtain xs where xs: "recency c xs" "set xs = {..<64}" using I unfolding index_ok_def by blast
  then have walk: "ClaimFrom c (BufferOldest c) = Some (find (\<lambda>i. buffer_references (BufferTable c ! i) = 0) xs)"
    using ClaimFrom_lane unfolding recency_def by metis
  have len: "length (BufferTable c) = 64" using D unfolding data_ok_def by blast
  show ?thesis
  proof (cases "find (\<lambda>i. buffer_references (BufferTable c ! i) = 0) xs")
    case None
    then have "\<forall>i < 64. buffer_references (BufferTable c ! i) \<noteq> 0" using xs(2) unfolding find_None_iff by blast
    then show ?thesis using that [of c None] walk None ok by (simp add: BufferClaim_def)
  next
    case (Some i)
    then have i: "i < 64" "buffer_references (BufferTable c ! i) = 0"
      using xs(2) by (auto simp: find_Some_iff)
    show ?thesis
    proof (cases "buffer_valid (BufferTable c ! i)")
      case False
      let ?c = "set_buffer i forget c"
      have T: "BufferTable ?c = (BufferTable c)[i := forget (BufferTable c ! i)]" by (simp add: set_buffer_def)
      have at: "BufferTable ?c ! j = (if j = i then forget (BufferTable c ! i) else BufferTable c ! j)" if "j < 64" for j
        using that len by (simp add: T nth_list_update)
      have "index_ok ?c"
        by (rule index_ok_table [OF I]) (use False len i(1) in \<open>auto simp: at forget_def\<close>)
      moreover have "data_ok stored (BufferTable ?c) (block_layer ?c)"
        using forget_table(1) [OF D i(1)] False by (simp add: T)
      moreover have "keeps stored c ?c"
        by (rule keepsI) (use forget_table(2) [OF D i(1)] False at i(2) in \<open>auto simp: T\<close>)
      ultimately have ok': "cache_ok ?c" "keeps stored c ?c" using V by (simp_all add: cache_ok_for_def)
      have run: "BufferClaim c = Some (?c, Some i)" using walk Some False by (simp add: BufferClaim_def)
      show ?thesis
      proof (rule that [OF run ok'])
        show "holds (BufferTable c ! j) d b" if "j < 64" "holds (BufferTable ?c ! j) d b" for j d b
          using that(2) at [OF that(1)] by (auto simp: holds_def forget_def split: if_splits)
      qed (use i at [OF i(1)] in \<open>auto simp: forget_def\<close>)
    next
      case valid: True
      obtain c1 written where wb: "BufferWriteBack i c = (c1, written)" by fastforce
      note W = BufferWriteBack_effect [OF ok i(1) wb]
      obtain dirt where T1: "BufferTable c1 = (BufferTable c)[i := (BufferTable c ! i)\<lparr>buffer_dirty := dirt\<rparr>]" using W(3) by blast
      have at1: "BufferTable c1 ! j = (if j = i then (BufferTable c ! i)\<lparr>buffer_dirty := dirt\<rparr> else BufferTable c ! j)" if "j < 64" for j
        using that len by (simp add: T1 nth_list_update)
      have h1: "holds (BufferTable c1 ! j) d b = holds (BufferTable c ! j) d b" if "j < 64" for j d b
        using at1 [OF that] by (simp add: holds_def)
      show ?thesis
      proof (cases written)
        case False
        then have "BufferClaim c = Some (c1, None)" using walk Some valid wb by (simp add: BufferClaim_def)
        then show ?thesis using W(5) h1 i wb False by (intro that [of c1 None, OF _ W(1,2)]) auto
      next
        case True
        have clean: "\<not> buffer_dirty (BufferTable c1 ! i)" if "buffer_valid (BufferTable c1 ! i)" using W(4) True that by blast
        have refs: "buffer_references (BufferTable c1 ! i) = 0" using at1 [OF i(1)] i(2) by simp
        from evict [OF W(1) i(1) refs clean] obtain c2 where E: "BufferUnlink i c1 = Some c2"
          "\<And>n. cache_ok (set_buffer i forget (c2\<lparr>BufferEvictionCount := n\<rparr>))"
          "\<And>n. keeps stored c1 (set_buffer i forget (c2\<lparr>BufferEvictionCount := n\<rparr>))"
          "\<And>n. BufferTable (set_buffer i forget (c2\<lparr>BufferEvictionCount := n\<rparr>)) = (BufferTable c1)[i := forget (BufferTable c1 ! i)]"
          "block_layer c2 = block_layer c1" "device_address c2 = device_address c1" by blast
        let ?c = "set_buffer i forget (c2\<lparr>BufferEvictionCount := BufferEvictionCount c2 + 1\<rparr>)"
        have at: "BufferTable ?c ! j = (if j = i then forget (BufferTable c1 ! i) else BufferTable c1 ! j)" if "j < 64" for j
          using that len by (simp add: E(4) T1 nth_list_update)
        have run: "BufferClaim c = Some (?c, Some i)" using walk Some valid wb True E(1) by (simp add: BufferClaim_def)
        show ?thesis
        proof (rule that [OF run E(2) keeps_trans [OF W(2) E(3)]])
          show "device_address ?c = device_address c" using E(6) W(5) by simp
          show "holds (BufferTable c ! j) d b" if "j < 64" "holds (BufferTable ?c ! j) d b" for j d b
            using that at [OF that(1)] h1 [OF that(1)] by (auto simp: holds_def forget_def split: if_splits)
        qed (use i at [OF i(1)] refs in \<open>auto simp: forget_def\<close>)
      qed
    qed
  qed
qed

subsection \<open>Getting\<close>

text \<open>What a block obtained is: held, valid, of that block, and with the bytes of its view.\<close>

definition obtained :: "'w buffer_state \<Rightarrow> 'w buffer_state \<Rightarrow> nat \<Rightarrow> u64 \<Rightarrow> nat \<Rightarrow> bool" where
  "obtained c c' d b i \<longleftrightarrow> i < 64 \<and> on_device (block_layer c) d b \<and> holds (BufferTable c' ! i) d b \<and>
     buffer_data (BufferTable c' ! i) = cached_view stored c d b \<and>
     (\<forall>j < 64. j \<noteq> i \<longrightarrow> buffer_references (BufferTable c ! j) \<noteq> 0 \<longrightarrow>
        same_buffer (BufferTable c ! j) (BufferTable c' ! j) \<and>
        buffer_references (BufferTable c' ! j) = buffer_references (BufferTable c ! j))"

lemma find_holder:
  assumes "index_ok c" "data_ok stored (BufferTable c) s"
  shows "(\<exists>i < 64. holds (BufferTable c ! i) d b \<and> BufferFind d b c = Some (Some i)) \<or>
    (\<forall>i < 64. \<not> holds (BufferTable c ! i) d b) \<and> BufferFind d b c = Some None"
proof -
  obtain cs where cs: "chains c cs" and lv: "\<And>i. i < 64 \<Longrightarrow> linked (BufferEntries c ! i) \<longleftrightarrow> buffer_valid (BufferTable c ! i)"
    using assms(1) unfolding index_ok_def by blast
  let ?k = "BufferBucketOf (device_address c d) b"
  have "set (cs ?k) = {i. i < 64 \<and> linked (BufferEntries c ! i) \<and> bucket_of i c = ?k}" using cs bucket_less unfolding chains_def by blast
  moreover have "bucket_of i c = ?k" if "holds (BufferTable c ! i) d b" for i
    using that by (simp add: bucket_of_def address_of_def holds_def)
  ultimately have in_chain: "i \<in> set (cs ?k)" if "i < 64" "holds (BufferTable c ! i) d b" for i
    using that lv by (auto simp: holds_def)
  note F = BufferFind_effect [OF cs, of d b]
  show ?thesis
  proof (cases "find (\<lambda>i. holds (BufferTable c ! i) d b) (cs ?k)")
    case None
    then have "\<forall>i < 64. \<not> holds (BufferTable c ! i) d b" using in_chain unfolding find_None_iff by blast
    then show ?thesis using F None by simp
  next
    case (Some i)
    then have "i \<in> set (cs ?k)" "holds (BufferTable c ! i) d b" by (auto simp: find_Some_iff)
    then show ?thesis using F Some cs bucket_less unfolding chains_def by auto
  qed
qed

text \<open>A buffer found is touched and held once more.\<close>

lemma get_hit:
  assumes ok: "cache_ok c" and i: "i < 64" "holds (BufferTable c ! i) d b"
    and c': "c' = set_buffer i (\<lambda>v. v\<lparr>buffer_references := buffer_references v + 1\<rparr>) (BufferTouch i (c\<lparr>BufferHitCount := n\<rparr>))"
  shows "cache_ok c'" "obtained c c' d b i" "same_devices (block_layer c) (block_layer c')"
    "on_device (block_layer c) e k \<Longrightarrow> cached_view stored c' e k = cached_view stored c e k" "device_address c' = device_address c"
proof -
  have I: "index_ok c" and D: "data_ok stored (BufferTable c) (block_layer c)" and V: "devices_ok (block_layer c)"
    using ok unfolding cache_ok_for_def by blast+
  let ?c = "c\<lparr>BufferHitCount := n\<rparr>"
  note F = recency_only_fields(1,3,4) [OF BufferTouch_only, of i ?c]
  have len: "length (BufferTable c) = 64" using D unfolding data_ok_def by blast
  have T: "BufferTable c' = (BufferTable c)[i := (BufferTable c ! i)\<lparr>buffer_references := buffer_references (BufferTable c ! i) + 1\<rparr>]"
    by (simp add: c' set_buffer_def F)
  have at: "BufferTable c' ! j = (if j = i then (BufferTable c ! i)\<lparr>buffer_references := buffer_references (BufferTable c ! i) + 1\<rparr> else BufferTable c ! j)"
    if "j < 64" for j using that len by (simp add: T nth_list_update)
  have s: "block_layer c' = block_layer c" "device_address c' = device_address c" by (simp_all add: c' F)
  have lenc: "length (BufferTable c') = 64" using len by (simp add: T)
  note R = data_ok_refs [OF D lenc]
  have R': "data_ok stored (BufferTable c') (block_layer c)"
    "\<And>e k. view stored (BufferTable c') (block_layer c) e k = view stored (BufferTable c) (block_layer c) e k"
    using R at by (auto simp: same_buffer_def)
  have "index_ok ?c" by (rule index_ok_table [OF I]) (simp_all add: len)
  then have "index_ok (BufferTouch i ?c)" by (rule BufferTouch_index) (rule i)
  then have "index_ok c'"
    by (rule index_ok_table) (use lenc at F in \<open>simp_all add: c'\<close>)
  then show "cache_ok c'" using R'(1) V s by (simp add: cache_ok_for_def)
  show "same_devices (block_layer c) (block_layer c')" "device_address c' = device_address c" by (simp_all add: s)
  show "on_device (block_layer c) e k \<Longrightarrow> cached_view stored c' e k = cached_view stored c e k"
    by (simp add: cached_view_def s R'(2))
  have "on_device (block_layer c) d b" using data_okD(3) [OF D i] .
  moreover have "buffer_data (BufferTable c ! i) = cached_view stored c d b"
    using view_held [OF _ i] D unfolding cached_view_def data_ok_def by metis
  ultimately show "obtained c c' d b i" using i at by (simp add: obtained_def holds_def same_buffer_def)
qed

text \<open>A claimed buffer, its block read into it, is given up again or linked and touched.\<close>

lemma set_buffer_twice: "i < length (BufferTable c) \<Longrightarrow> set_buffer i f (set_buffer i g c) = set_buffer i (\<lambda>b. f (g b)) c"
  by (simp add: set_buffer_def)

lemma get_miss:
  assumes ok: "cache_ok c" and i: "i < 64" "\<not> buffer_valid (BufferTable c ! i)"
    and d: "d < length (BlockDevices (block_layer c))" "block_size (BlockDevices (block_layer c) ! d) = 512"
    and free: "\<And>j. j < 64 \<Longrightarrow> \<not> holds (BufferTable c ! j) d b"
    and run: "BlockRead (Some d) b 1 (Some (buffer_data (BufferTable c ! i))) (block_layer c) = (s', bytes, good)"
  shows "\<exists>bs. bytes = Some bs \<and> length bs = 512 \<and> same_devices (block_layer c) s' \<and> devices_ok s' \<and>
     data_ok stored (BufferTable c) s' \<and> (\<forall>e k. on_device (block_layer c) e k \<longrightarrow> content s' e k = content (block_layer c) e k) \<and>
     (\<forall>e k. on_device (block_layer c) e k \<longrightarrow> view stored (BufferTable c) s' e k = cached_view stored c e k) \<and>
     (good \<longrightarrow> on_device (block_layer c) d b \<and> bs = content (block_layer c) d b)"
proof -
  have D: "data_ok stored (BufferTable c) (block_layer c)" and V: "devices_ok (block_layer c)"
    using ok unfolding cache_ok_for_def by blast+
  have T: "BlockTransfer (Some d) b 1 (Some (buffer_data (BufferTable c ! i))) False (block_layer c) = (s', bytes, good)"
    using run by (simp add: BlockRead_def)
  have len: "length (buffer_data (BufferTable c ! i)) = unat (1 :: u32) * 512" using data_okD(2) [OF D i(1)] by simp
  from read_effect [OF V d T len] obtain bs where R: "devices_ok s'" "same_devices (block_layer c) s'"
    "\<And>e k. on_device (block_layer c) e k \<Longrightarrow> content s' e k = content (block_layer c) e k"
    "good \<Longrightarrow> bytes = Some (blocks_at (content (block_layer c) d) b (unat (1 :: u32)))" "bytes = Some bs" "length bs = 512"
    using len by auto
  have "on_device (block_layer c) d b" if good
  proof -
    have "registered (BlockDevices (block_layer c) ! d)" "unat b + 1 \<le> unat (block_count (BlockDevices (block_layer c) ! d))"
      using BlockTransfer_ways [OF T] that by (auto simp: transfer_admitted_def)
    then show ?thesis using d by (simp add: on_device_def driven_def word_less_nat_alt)
  qed
  moreover have "bs = content (block_layer c) d b" if good using R(4) [OF that] R(5) one_block by simp
  moreover note data_ok_devices [OF D R(2) R(3)]
  ultimately show ?thesis using R by (auto simp: cached_view_def)
qed

lemma get_given_up:
  assumes ok: "cache_ok c" and i: "i < 64" "\<not> buffer_valid (BufferTable c ! i)" "buffer_references (BufferTable c ! i) = 0"
    and s': "same_devices (block_layer c) s'" "devices_ok s'" "data_ok stored (BufferTable c) s'" "length bs = 512"
      "\<And>e k. on_device (block_layer c) e k \<Longrightarrow> view stored (BufferTable c) s' e k = cached_view stored c e k"
    and c': "BufferTable c' = (BufferTable c)[i := (BufferTable c ! i)\<lparr>buffer_data := bs, buffer_device := None, buffer_block := 0\<rparr>]"
      "block_layer c' = s'" "BufferEntries c' = BufferEntries c" "BufferBuckets c' = BufferBuckets c"
      "BufferNewest c' = BufferNewest c" "BufferOldest c' = BufferOldest c" "device_address c' = device_address c"
  shows "cache_ok c'" "keeps stored c c'"
proof -
  have I: "index_ok c" and len: "length (BufferTable c) = 64" using ok unfolding cache_ok_for_def data_ok_def by blast+
  let ?b = "(BufferTable c ! i)\<lparr>buffer_data := bs, buffer_device := None, buffer_block := 0\<rparr>"
  have at: "BufferTable c' ! j = (if j = i then ?b else BufferTable c ! j)" if "j < 64" for j
    using that len by (simp add: c'(1) nth_list_update)
  have b: "\<not> buffer_valid ?b" "length (buffer_data ?b) = 512" using i(2) s'(4) by simp_all
  note N = data_ok_invalid [OF s'(3) i(1,2) b]
  have "index_ok c'"
  proof (rule index_ok_table [OF I])
    show "length (BufferTable c') = 64" by (simp add: c'(1) len)
  qed (use i(1,2) in \<open>auto simp: at c'(3-7)\<close>)
  then show "cache_ok c'" using N(1) s'(2) by (simp add: cache_ok_for_def c'(1,2))
  show "keeps stored c c'" unfolding keeps_def
    using s'(1,5) N(2) at i(3) by (auto simp: c'(2) cached_view_def same_buffer_def) (simp add: c'(1))
qed

lemma get_filled:
  assumes ok: "cache_ok c" and i: "i < 64" "\<not> buffer_valid (BufferTable c ! i)" "buffer_references (BufferTable c ! i) = 0"
    and s': "same_devices (block_layer c) s'" "devices_ok s'" "data_ok stored (BufferTable c) s'" "length bs = 512"
      "\<And>e k. on_device (block_layer c) e k \<Longrightarrow> view stored (BufferTable c) s' e k = cached_view stored c e k"
    and d: "on_device (block_layer c) d b" "bs = content (block_layer c) d b" "content s' d b = content (block_layer c) d b"
    and free: "\<And>j. j < 64 \<Longrightarrow> \<not> holds (BufferTable c ! j) d b"
    and c1: "BufferTable c1 = (BufferTable c)[i := \<lparr>buffer_device = Some d, buffer_block = b, buffer_data = bs,
        buffer_references = 1, buffer_valid = True, buffer_dirty = False\<rparr>]"
      "block_layer c1 = s'" "BufferEntries c1 = BufferEntries c" "BufferBuckets c1 = BufferBuckets c"
      "BufferNewest c1 = BufferNewest c" "BufferOldest c1 = BufferOldest c" "device_address c1 = device_address c"
    and c': "c' = BufferTouch i (BufferLink i c1)"
  shows "cache_ok c'" "keeps stored c c'" "obtained c c' d b i" "device_address c' = device_address c"
proof -
  have I: "index_ok c" and D: "data_ok stored (BufferTable c) (block_layer c)" using ok unfolding cache_ok_for_def by blast+
  have len: "length (BufferTable c) = 64" using D unfolding data_ok_def by blast
  obtain xs cs where X: "shape c" "recency c xs" "set xs = {..<64}" "chains c cs"
    "\<And>j. j < 64 \<Longrightarrow> linked (BufferEntries c ! j) \<longleftrightarrow> buffer_valid (BufferTable c ! j)"
    using I unfolding index_ok_def by blast
  let ?b = "\<lparr>buffer_device = Some d, buffer_block = b, buffer_data = bs, buffer_references = 1, buffer_valid = True, buffer_dirty = False\<rparr>"
  have at: "BufferTable c1 ! j = (if j = i then ?b else BufferTable c ! j)" if "j < 64" for j
    using that len by (simp add: c1(1) nth_list_update)
  have un: "\<not> linked (BufferEntries c ! i)" using X(5) i(1,2) by simp
  have "shape c1" "recency c1 xs" using X(1,2) c1 by (simp_all add: shape_def recency_def)
  moreover have "chains c1 cs"
  proof -
    have "bucket_of j c1 = bucket_of j c" if "j < 64" "linked (BufferEntries c ! j)" for j
      using that un at [OF that(1)] by (intro bucket_of_cong) (auto simp: c1(7))
    then show ?thesis using X(4) unfolding chains_def c1(3,4) by auto
  qed
  ultimately have "index_ok (BufferLink i c1)"
    by (intro link_index [OF _ _ X(3) _ i(1)]) (use un at i(1) X(5) c1(3) in auto)
  then have "index_ok c'" unfolding c' by (rule BufferTouch_index) (rule i)
  have L: "chains_only c1 (BufferLink i c1)" by (rule BufferLink_effect(1) [OF \<open>shape c1\<close> \<open>chains c1 cs\<close> i(1)]) (use un c1(3) in simp)
  have T: "BufferTable c' = BufferTable c1" "block_layer c' = s'" "device_address c' = device_address c"
    unfolding c' by (simp_all add: recency_only_fields(1,3,4) [OF BufferTouch_only] chains_only_fields(1,4,5) [OF L] c1(2,7))
  have on': "on_device s' d b" using d(1) on_device_same [OF s'(1)] by blast
  have "holds ?b d b" "\<not> buffer_dirty ?b" "length (buffer_data ?b) = 512" "buffer_data ?b = content s' d b"
    using s'(4) d(2,3) by (simp_all add: holds_def)
  note N = data_ok_filled [OF s'(3) i(1,2) this on' free]
  show "cache_ok c'" using \<open>index_ok c'\<close> N(1) s'(2) by (simp add: cache_ok_for_def T c1(1))
  have V: "cached_view stored c' e k = cached_view stored c e k" if "on_device (block_layer c) e k" for e k
    using N(2) s'(5) [OF that] by (simp add: cached_view_def T c1(1))
  show "keeps stored c c'" using V s'(1) at i(3) by (auto simp: keeps_def T same_buffer_def)
  have "cached_view stored c d b = bs" using view_absent [of "BufferTable c" d b] free d(2) by (simp add: cached_view_def)
  then show "obtained c c' d b i" using i d(1) at by (simp add: obtained_def T holds_def same_buffer_def)
  show "device_address c' = device_address c" by (rule T)
qed

text \<open>The whole operation.\<close>

lemma cache_ok_counts:
  "cache_ok (c\<lparr>BufferMissCount := n\<rparr>) = cache_ok c" "cache_ok (c\<lparr>BufferFailureCount := n\<rparr>) = cache_ok c"
  "keeps stored (c\<lparr>BufferMissCount := n\<rparr>) c' = keeps stored c c'" "keeps stored c (c'\<lparr>BufferFailureCount := n\<rparr>) = keeps stored c c'"
proof -
  have "index_ok (c\<lparr>BufferMissCount := n\<rparr>) = index_ok c" "index_ok (c\<lparr>BufferFailureCount := n\<rparr>) = index_ok c" for c :: "'w buffer_state" and n
    by (auto simp: index_ok_def shape_def recency_def chains_def bucket_of_def address_of_def cong: option.case_cong)
  then show "cache_ok (c\<lparr>BufferMissCount := n\<rparr>) = cache_ok c" "cache_ok (c\<lparr>BufferFailureCount := n\<rparr>) = cache_ok c"
    by (simp_all add: cache_ok_for_def)
qed (simp_all add: keeps_def cached_view_def)

lemma BufferFill_effect:
  assumes ok: "cache_ok c" and i: "i < 64" "\<not> buffer_valid (BufferTable c ! i)" "buffer_references (BufferTable c ! i) = 0"
    and d: "d < length (BlockDevices (block_layer c))" "block_size (BlockDevices (block_layer c) ! d) = 512"
    and free: "\<And>j. j < 64 \<Longrightarrow> \<not> holds (BufferTable c ! j) d b"
    and F: "BufferFill d b i c = (c', r)"
  shows "cache_ok c' \<and> keeps stored c c' \<and> device_address c' = device_address c \<and> (r = None \<or> r = Some i \<and> obtained c c' d b i)"
proof -
  have len: "length (BufferTable c) = 64" using ok unfolding cache_ok_for_def data_ok_def by blast
  obtain s' bytes good where run: "BlockRead (Some d) b 1 (Some (buffer_data (BufferTable c ! i))) (block_layer c) = (s', bytes, good)"
    by (metis prod.collapse)
  from get_miss [OF ok i(1,2) d free run] obtain bs where M: "bytes = Some bs" "length bs = 512"
    "same_devices (block_layer c) s'" "devices_ok s'" "data_ok stored (BufferTable c) s'"
    "\<And>e k. on_device (block_layer c) e k \<Longrightarrow> content s' e k = content (block_layer c) e k"
    "\<And>e k. on_device (block_layer c) e k \<Longrightarrow> view stored (BufferTable c) s' e k = cached_view stored c e k"
    "good \<Longrightarrow> on_device (block_layer c) d b \<and> bs = content (block_layer c) d b" by blast
  let ?set = "\<lambda>b'. (c\<lparr>block_layer := s'\<rparr>)\<lparr>BufferTable := (BufferTable c)[i := b']\<rparr>"
  have same: "same_devices (block_layer c) s'" by (rule M(3))
  show ?thesis
  proof (cases good)
    case False
    let ?c = "?set ((BufferTable c ! i)\<lparr>buffer_data := bs, buffer_device := None, buffer_block := 0\<rparr>)"
    have "c' = ?c\<lparr>BufferFailureCount := BufferFailureCount c + 1\<rparr>" "r = None"
      using F run False len i(1) by (auto simp: BufferFill_def set_buffer_def M(1))
    then show ?thesis
      using get_given_up [OF ok i M(3,4,5,2,7), where c' = ?c] by (simp add: cache_ok_counts)
  next
    case True
    let ?c = "?set \<lparr>buffer_device = Some d, buffer_block = b, buffer_data = bs, buffer_references = 1, buffer_valid = True, buffer_dirty = False\<rparr>"
    have eq: "(BufferTable c ! i)\<lparr>buffer_device := Some d, buffer_block := b, buffer_data := bs, buffer_valid := True,
        buffer_dirty := False, buffer_references := 1\<rparr> = \<lparr>buffer_device = Some d, buffer_block = b, buffer_data = bs,
        buffer_references = 1, buffer_valid = True, buffer_dirty = False\<rparr>" by (cases "BufferTable c ! i") simp
    have "c' = BufferTouch i (BufferLink i ?c)" "r = Some i"
      using F run True len i(1) eq by (auto simp: BufferFill_def set_buffer_def M(1))
    then show ?thesis
      using get_filled [OF ok i M(3,4,5,2,7) _ _ _ free, where ?c1.0 = ?c and c' = c'] M(6) M(8) [OF True] by auto
  qed
qed

lemma obtained_keeps:
  assumes "keeps stored c c1" "obtained c1 c' d b i"
  shows "obtained c c' d b i"
proof -
  have "on_device (block_layer c1) d b" using assms(2) unfolding obtained_def by blast
  then have on: "on_device (block_layer c) d b" using assms(1) on_device_same unfolding keeps_def by blast
  moreover have "same_buffer (BufferTable c ! j) (BufferTable c' ! j) \<and>
      buffer_references (BufferTable c' ! j) = buffer_references (BufferTable c ! j)"
    if j: "j < 64" "j \<noteq> i" "buffer_references (BufferTable c ! j) \<noteq> 0" for j
  proof -
    have "same_buffer (BufferTable c ! j) (BufferTable c1 ! j)"
      "buffer_references (BufferTable c1 ! j) = buffer_references (BufferTable c ! j)"
      using assms(1) j unfolding keeps_def by blast+
    then show ?thesis using assms(2) j unfolding obtained_def same_buffer_def by simp
  qed
  ultimately show ?thesis using assms unfolding obtained_def keeps_def by auto
qed

lemma BufferGet_effect:
  assumes ok: "cache_ok c" and d: "d < length (BlockDevices (block_layer c))"
  shows "\<exists>c' r. BufferGet (Some d) b c = Some (c', r) \<and> cache_ok c' \<and> same_devices (block_layer c) (block_layer c') \<and>
    device_address c' = device_address c \<and>
    (\<forall>e k. on_device (block_layer c) e k \<longrightarrow> cached_view stored c' e k = cached_view stored c e k) \<and>
    (case r of None \<Rightarrow> keeps stored c c' | Some i \<Rightarrow> obtained c c' d b i)"
proof (cases "BufferReady c \<and> block_size (BlockDevices (block_layer c) ! d) = BUFFER_BLOCK_SIZE")
  case False
  then have "BufferGet (Some d) b c = Some (c, None)" by (auto simp: BufferGet_def)
  then show ?thesis using ok by simp
next
  case ready: True
  have I: "index_ok c" and D: "data_ok stored (BufferTable c) (block_layer c)" using ok unfolding cache_ok_for_def by blast+
  consider (hit) i where "i < 64" "holds (BufferTable c ! i) d b" "BufferFind d b c = Some (Some i)"
    | (miss) "\<forall>i < 64. \<not> holds (BufferTable c ! i) d b" "BufferFind d b c = Some None"
    using find_holder [OF I D] by blast
  then show ?thesis
  proof cases
    case hit
    let ?c = "set_buffer i (\<lambda>v. v\<lparr>buffer_references := buffer_references v + 1\<rparr>) (BufferTouch i (c\<lparr>BufferHitCount := BufferHitCount c + 1\<rparr>))"
    have "BufferGet (Some d) b c = Some (?c, Some i)" using ready hit(3) by (simp add: BufferGet_def Let_def)
    then show ?thesis using get_hit [OF ok hit(1,2) refl] by auto
  next
    case miss
    let ?m = "c\<lparr>BufferMissCount := BufferMissCount c + 1\<rparr>"
    have "cache_ok ?m" using ok by (simp add: cache_ok_counts)
    from BufferClaim_effect [OF this] obtain c1 r where C: "BufferClaim ?m = Some (c1, r)" "cache_ok c1" "keeps stored ?m c1"
      "\<And>j d b. j < 64 \<Longrightarrow> holds (BufferTable c1 ! j) d b \<Longrightarrow> holds (BufferTable ?m ! j) d b"
      "\<And>i. r = Some i \<Longrightarrow> i < 64 \<and> buffer_references (BufferTable c1 ! i) = 0 \<and> \<not> buffer_valid (BufferTable c1 ! i)"
      "device_address c1 = device_address ?m" by metis
    have k: "keeps stored c c1" and a: "device_address c1 = device_address c" using C(3,6) by (simp_all add: cache_ok_counts)
    show ?thesis
    proof (cases r)
      case None
      then have "BufferGet (Some d) b c = Some (c1, None)" using ready miss(2) C(1) by (simp add: BufferGet_def)
      then show ?thesis using C(2) k a unfolding keeps_def by auto
    next
      case (Some i)
      then have i: "i < 64" "\<not> buffer_valid (BufferTable c1 ! i)" "buffer_references (BufferTable c1 ! i) = 0" using C(5) by blast+
      have same: "same_devices (block_layer c) (block_layer c1)" using k unfolding keeps_def by blast
      have d1: "d < length (BlockDevices (block_layer c1))" "block_size (BlockDevices (block_layer c1) ! d) = 512"
        using d ready same_devices_length [OF same] same_devices_at [OF same d]
        by (simp_all add: same_device_def BUFFER_BLOCK_SIZE_def BLOCK_SIZE_DEFAULT_def)
      have free: "\<not> holds (BufferTable c1 ! j) d b" if "j < 64" for j using C(4) [OF that] miss(1) that by auto
      obtain c' r' where F: "BufferFill d b i c1 = (c', r')" by (metis prod.collapse)
      have "BufferGet (Some d) b c = Some (c', r')" using ready miss(2) C(1) Some F by (simp add: BufferGet_def)
      moreover have E: "cache_ok c'" "keeps stored c1 c'" "device_address c' = device_address c" "r' = None \<or> r' = Some i \<and> obtained c1 c' d b i"
        using BufferFill_effect [OF C(2) i d1 free F] a by simp_all
      moreover have k': "keeps stored c c'" by (rule keeps_trans [OF k E(2)])
      moreover have "same_devices (block_layer c) (block_layer c')" "on_device (block_layer c) e x \<Longrightarrow> cached_view stored c' e x = cached_view stored c e x" for e x
        using k' unfolding keeps_def by blast+
      moreover have "case r' of None \<Rightarrow> keeps stored c c' | Some i \<Rightarrow> obtained c c' d b i"
        using E(4) k' obtained_keeps [OF k] by (elim disjE conjE) simp_all
      ultimately show ?thesis by blast
    qed
  qed
qed

end

end
