(* ===== verification/BufferUpkeep.thy ===== *)
theory BufferUpkeep
  imports BufferOperations
begin

text \<open>
  The rest of the operations of the buffer cache under its invariant: releasing, storing into a
  buffer and marking it dirty, flushing, synchronising and taking a device out of the cache, and
  the state a start leaves.
\<close>

subsection \<open>Changes of the table alone\<close>

lemma index_ok_buffer:
  assumes "index_ok c" "i < 64" "\<And>b. buffer_valid (f b) = buffer_valid b \<and> buffer_device (f b) = buffer_device b \<and> buffer_block (f b) = buffer_block b"
  shows "index_ok (set_buffer i f c)"
proof -
  have len: "length (BufferTable c) = 64" using assms(1) unfolding index_ok_def shape_def by blast
  show ?thesis by (rule index_ok_table [OF assms(1)]) (use len assms(2,3) in \<open>simp_all add: set_buffer_at\<close>)
qed

text \<open>Bytes stored into a valid buffer, which becomes dirty.\<close>

lemma data_ok_stored:
  assumes D: "data_ok stored T s" and i: "i < 64" "holds (T ! i) d k" and len: "length bytes = 512"
    and T': "T' = T[i := (T ! i)\<lparr>buffer_data := bytes, buffer_dirty := True\<rparr>]"
  shows "data_ok stored T' s" "view stored T' s e q = (if e = d \<and> q = k then bytes else view stored T s e q)"
proof -
  have L: "length T = 64" and U: "unique_holder T" using D unfolding data_ok_def by blast+
  have at: "T' ! j = (if j = i then (T ! i)\<lparr>buffer_data := bytes, buffer_dirty := True\<rparr> else T ! j)" if "j < 64" for j
    using that L by (simp add: T' nth_list_update)
  have h: "holds (T' ! j) e q = holds (T ! j) e q" if "j < 64" for j e q using at [OF that] by (simp add: holds_def)
  have U': "unique_holder T'" using U h unfolding unique_holder_def by blast
  have V: "\<exists>d. buffer_device (T' ! j) = Some d \<and> on_device s d (buffer_block (T' ! j)) \<and>
      (\<not> buffer_dirty (T' ! j) \<longrightarrow> buffer_data (T' ! j) = content_of stored s d (buffer_block (T' ! j)))"
    if "j < 64" "buffer_valid (T' ! j)" for j
    using that D at [OF that(1)] i unfolding data_ok_def by (cases "j = i") (auto simp: holds_def)
  have "length (buffer_data (T' ! j)) = 512" if "j < 64" for j using at [OF that] data_okD(2) [OF D that] len by simp
  moreover have "length T' = 64" using L by (simp add: T')
  ultimately show "data_ok stored T' s" using U' V unfolding data_ok_def by blast
  show "view stored T' s e q = (if e = d \<and> q = k then bytes else view stored T s e q)"
  proof (cases "e = d \<and> q = k")
    case True
    then show ?thesis using view_held [OF U' i(1)] h [OF i(1)] i(2) at [OF i(1)] by simp
  next
    case False
    have "T' ! j = T ! j" if "j < 64" "holds (T ! j) e q" for j
      using at [OF that(1)] that(2) i(2) False by (auto simp: holds_def)
    then have "view stored T' s e q = view stored T s e q" by (intro view_cong [OF U U']) (use h in auto)
    then show ?thesis using False by auto
  qed
qed

context block_driver
begin

lemma BufferRelease_effect:
  assumes ok: "cache_ok c" and i: "i < 64"
  shows "cache_ok (BufferRelease (Some i) c)" "cached_view stored (BufferRelease (Some i) c) = cached_view stored c"
    "block_layer (BufferRelease (Some i) c) = block_layer c"
proof -
  let ?f = "\<lambda>b. b\<lparr>buffer_references := buffer_references b - 1\<rparr>" and ?c = "BufferRelease (Some i) c"
  have D: "data_ok stored (BufferTable c) (block_layer c)" "index_ok c" "devices_ok (block_layer c)"
    using ok unfolding cache_ok_for_def by blast+
  have len: "length (BufferTable c) = 64" using D(1) unfolding data_ok_def by blast
  have "?c = c \<or> ?c = set_buffer i ?f c" by (simp add: BufferRelease_def)
  then consider "?c = c" | "?c = set_buffer i ?f c" by blast
  then have "cache_ok ?c \<and> cached_view stored ?c = cached_view stored c \<and> block_layer ?c = block_layer c"
  proof cases
    case 2
    have R: "data_ok stored (BufferTable (set_buffer i ?f c)) (block_layer c)"
      "view stored (BufferTable (set_buffer i ?f c)) (block_layer c) d b = view stored (BufferTable c) (block_layer c) d b" for d b
      by (rule data_ok_refs [OF D(1)]; simp add: len set_buffer_at same_buffer_def)+
    have "index_ok (set_buffer i ?f c)" by (rule index_ok_buffer [OF D(2) i]) simp
    then show ?thesis using R D(3) by (simp add: 2 cache_ok_for_def cached_view_def fun_eq_iff)
  qed (use ok in simp)
  then show "cache_ok ?c" "cached_view stored ?c = cached_view stored c" "block_layer ?c = block_layer c" by blast+
qed

text \<open>A caller stores into the bytes of a buffer it holds, and says so.\<close>

lemma BufferMarkDirty_effect:
  assumes ok: "cache_ok c" and i: "i < 64" "holds (BufferTable c ! i) d k" and len: "length bytes = 512"
    and c': "c' = BufferMarkDirty (Some i) (set_buffer i (\<lambda>b. b\<lparr>buffer_data := bytes\<rparr>) c)"
  shows "cache_ok c'" "cached_view stored c' e q = (if e = d \<and> q = k then bytes else cached_view stored c e q)"
    "block_layer c' = block_layer c"
    "BufferTable c' = (BufferTable c)[i := (BufferTable c ! i)\<lparr>buffer_data := bytes, buffer_dirty := True\<rparr>]"
proof -
  have D: "data_ok stored (BufferTable c) (block_layer c)" "index_ok c" "devices_ok (block_layer c)"
    using ok unfolding cache_ok_for_def by blast+
  have L: "length (BufferTable c) = 64" using D(1) unfolding data_ok_def by blast
  have valid: "buffer_valid (BufferTable c ! i)" using i(2) by (simp add: holds_def)
  have eq: "c' = set_buffer i (\<lambda>b. b\<lparr>buffer_data := bytes, buffer_dirty := True\<rparr>) c"
    using valid i(1) L by (simp add: c' BufferMarkDirty_def set_buffer_at set_buffer_twice)
  show T: "BufferTable c' = (BufferTable c)[i := (BufferTable c ! i)\<lparr>buffer_data := bytes, buffer_dirty := True\<rparr>]"
    by (simp add: eq set_buffer_def)
  have "index_ok c'" unfolding eq by (rule index_ok_buffer [OF D(2) i(1)]) simp
  then show "cache_ok c'" using data_ok_stored(1) [OF D(1) i len T] D(3) by (simp add: cache_ok_for_def eq)
  show "cached_view stored c' e q = (if e = d \<and> q = k then bytes else cached_view stored c e q)"
    using data_ok_stored(2) [OF D(1) i len T] by (simp add: cached_view_def eq)
  show "block_layer c' = block_layer c" by (simp add: eq)
qed

subsection \<open>Flushing\<close>

text \<open>What the device holds of a clean valid buffer's block is the view.\<close>

lemma clean_content:
  assumes "cache_ok c" "i < 64" "holds (BufferTable c ! i) d b" "\<not> buffer_dirty (BufferTable c ! i)"
  shows "content (block_layer c) d b = cached_view stored c d b"
proof -
  have D: "data_ok stored (BufferTable c) (block_layer c)" using assms(1) unfolding cache_ok_for_def by blast
  then have "unique_holder (BufferTable c)" unfolding data_ok_def by blast
  from view_held [OF this assms(2,3), of stored "block_layer c"] data_okD(4) [OF D assms(2,3,4)] show ?thesis by (simp add: cached_view_def)
qed

lemma clean_everywhere:
  assumes "cache_ok c" "\<And>i. i < 64 \<Longrightarrow> \<not> (buffer_valid (BufferTable c ! i) \<and> buffer_dirty (BufferTable c ! i))"
  shows "content (block_layer c) d b = cached_view stored c d b"
proof (cases "\<exists>i < 64. holds (BufferTable c ! i) d b")
  case True
  then show ?thesis using clean_content [OF assms(1)] assms(2) by (auto simp: holds_def)
next
  case False
  then show ?thesis by (simp add: cached_view_def view_absent)
qed

definition clean_in :: "'w buffer_state \<Rightarrow> nat set \<Rightarrow> bool" where
  "clean_in c I \<longleftrightarrow> (\<forall>i \<in> I. \<not> (buffer_valid (BufferTable c ! i) \<and> buffer_dirty (BufferTable c ! i)))"

lemma sync_fold:
  assumes "cache_ok c" "set is \<subseteq> {..<64}"
    and "fold (\<lambda>i (c, good). let (c, written) = BufferWriteBack i c in (c, good \<and> written)) is (c, g) = (c', g')"
  shows "cache_ok c' \<and> keeps stored c c' \<and> (g' \<longrightarrow> g \<and> clean_in c' (set is))"
  using assms(2,3)
proof (induction "is" arbitrary: c' g' rule: rev_induct)
  case Nil
  then show ?case using assms(1) by (simp add: clean_in_def)
next
  case (snoc i "is")
  obtain c1 g1 where 1: "fold (\<lambda>i (c, good). let (c, written) = BufferWriteBack i c in (c, good \<and> written)) is (c, g) = (c1, g1)"
    by fastforce
  obtain c2 written where 2: "BufferWriteBack i c1 = (c2, written)" by fastforce
  have eq: "c' = c2" "g' = (g1 \<and> written)" using snoc.prems(2) 1 2 by auto
  have IH: "cache_ok c1" "keeps stored c c1" "g1 \<Longrightarrow> g \<and> clean_in c1 (set is)" using snoc.IH [OF _ 1] snoc.prems(1) by auto
  have i: "i < 64" using snoc.prems(1) by simp
  note W = BufferWriteBack_effect [OF IH(1) i 2]
  obtain dirt where T: "BufferTable c2 = (BufferTable c1)[i := (BufferTable c1 ! i)\<lparr>buffer_dirty := dirt\<rparr>]" using W(3) by blast
  have "length (BufferTable c1) = 64" using IH(1) unfolding cache_ok_for_def data_ok_def by blast
  then have at: "BufferTable c2 ! j = (if i = j then (BufferTable c1 ! i)\<lparr>buffer_dirty := dirt\<rparr> else BufferTable c1 ! j)" for j
    using i by (simp add: T nth_list_update)
  have "clean_in c2 (insert i (set is))" if "clean_in c1 (set is)" written
    using that W(4) unfolding clean_in_def by (auto simp: at)
  then show ?case using IH W(1) keeps_trans [OF IH(2) W(2)] eq by auto
qed

lemma BufferSync_effect:
  assumes "cache_ok c" "BufferSync c = (c', g)"
  shows "cache_ok c'" "keeps stored c c'" "g \<Longrightarrow> content (block_layer c') d b = cached_view stored c' d b"
proof -
  have S: "cache_ok c' \<and> keeps stored c c' \<and> (g \<longrightarrow> True \<and> clean_in c' (set [0..<64]))"
    by (rule sync_fold [OF assms(1)]) (use assms(2) in \<open>auto simp: BufferSync_def BUFFER_CAPACITY_def simp del: upt_rec_numeral\<close>)
  then show ok: "cache_ok c'" "keeps stored c c'" by blast+
  assume g
  then show "content (block_layer c') d b = cached_view stored c' d b"
    using S by (intro clean_everywhere [OF ok(1)]) (auto simp: clean_in_def)
qed

subsection \<open>Taking a device out\<close>

lemma recency_cache_ok:
  assumes "cache_ok c" "recency_only c c'" "recency c' xs" "set xs = {..<64}"
  shows "cache_ok c'" "keeps stored c c'" "BufferTable c' = BufferTable c"
proof -
  note F = recency_only_fields(1,3) [OF assms(2)]
  show "cache_ok c'" using assms(1) index_ok_recency [OF _ assms(2-4)] by (simp add: cache_ok_for_def F)
  show "keeps stored c c'" "BufferTable c' = BufferTable c" by (simp_all add: keepsI F)
qed

lemma put_oldest:
  assumes ok: "cache_ok c" and i: "i < 64"
  shows "cache_ok (PutOldest i (BufferDetach i c))" "keeps stored c (PutOldest i (BufferDetach i c))"
    "BufferTable (PutOldest i (BufferDetach i c)) = BufferTable c"
proof -
  obtain xs where xs: "shape c" "recency c xs" "set xs = {..<64}" using ok unfolding cache_ok_for_def index_ok_def by blast
  have d: "distinct xs" using xs(2) by (simp add: recency_def)
  have "shape (BufferDetach i c)" using recency_only_fields(7) [OF BufferDetach_only] xs(1) by metis
  then have R: "recency (PutOldest i (BufferDetach i c)) (i # remove1 i xs)"
    by (rule PutOldest_recency [OF _ BufferDetach_removes [OF xs(1,2) i] i]) (simp add: d)
  have S: "set (i # remove1 i xs) = {..<64}" using xs(3) i d by auto
  note L = recency_only_trans [OF BufferDetach_only PutOldest_only]
  show "cache_ok (PutOldest i (BufferDetach i c))" "keeps stored c (PutOldest i (BufferDetach i c))"
    "BufferTable (PutOldest i (BufferDetach i c)) = BufferTable c" using recency_cache_ok [OF ok L R S] by blast+
qed

lemma BufferDiscard_effect:
  assumes ok: "cache_ok c" and i: "i < 64" and refs: "buffer_device (BufferTable c ! i) = Some d \<Longrightarrow> buffer_references (BufferTable c ! i) = 0"
  shows "\<exists>c' g'. BufferDiscard d i (c, g) = Some (c', g') \<and> cache_ok c' \<and> keeps stored c c' \<and>
    (\<forall>j < 64. j \<noteq> i \<longrightarrow> BufferTable c' ! j = BufferTable c ! j) \<and>
    (buffer_device (BufferTable c' ! i) = Some d \<longrightarrow> buffer_references (BufferTable c' ! i) = 0) \<and>
    (g' \<longrightarrow> g \<and> buffer_device (BufferTable c' ! i) \<noteq> Some d)"
proof (cases "buffer_device (BufferTable c ! i) = Some d")
  case False
  then have "BufferDiscard d i (c, g) = Some (c, g)" by (simp add: BufferDiscard_def)
  then show ?thesis using ok False by auto
next
  case True
  have len: "length (BufferTable c) = 64" using ok unfolding cache_ok_for_def data_ok_def by blast
  obtain c1 written where wb: "BufferWriteBack i c = (c1, written)" by fastforce
  note W = BufferWriteBack_effect [OF ok i wb]
  obtain dirt where T1: "BufferTable c1 = (BufferTable c)[i := (BufferTable c ! i)\<lparr>buffer_dirty := dirt\<rparr>]" using W(3) by blast
  have at1: "BufferTable c1 ! j = (if j = i then (BufferTable c ! i)\<lparr>buffer_dirty := dirt\<rparr> else BufferTable c ! j)" if "j < 64" for j
    using that len by (simp add: T1 nth_list_update)
  have refs1: "buffer_references (BufferTable c1 ! i) = 0" using at1 [OF i] refs True by simp
  show ?thesis
  proof (cases written)
    case False
    then have "BufferDiscard d i (c, g) = Some (c1, False)" using True wb by (simp add: BufferDiscard_def)
    then show ?thesis using W(1,2) at1 refs1 by auto
  next
    case written: True
    have clean: "buffer_valid (BufferTable c1 ! i) \<Longrightarrow> \<not> buffer_dirty (BufferTable c1 ! i)" using W(4) [OF written] by blast
    from evict [OF W(1) i refs1 clean] obtain c2 where E: "BufferUnlink i c1 = Some c2"
      "\<And>n. cache_ok (set_buffer i forget (c2\<lparr>BufferEvictionCount := n\<rparr>))"
      "\<And>n. keeps stored c1 (set_buffer i forget (c2\<lparr>BufferEvictionCount := n\<rparr>))"
      "\<And>n. BufferTable (set_buffer i forget (c2\<lparr>BufferEvictionCount := n\<rparr>)) = (BufferTable c1)[i := forget (BufferTable c1 ! i)]"
      "block_layer c2 = block_layer c1" "device_address c2 = device_address c1" by blast
    let ?c = "set_buffer i forget c2"
    have e: "set_buffer i forget (c2\<lparr>BufferEvictionCount := BufferEvictionCount c2\<rparr>) = ?c" by simp
    note E' = E(2-4) [of "BufferEvictionCount c2", unfolded e]
    note P = put_oldest [OF E'(1) i]
    have "length (BufferTable c1) = 64" by (simp add: T1 len)
    then have at: "BufferTable (PutOldest i (BufferDetach i ?c)) ! j = (if j = i then forget (BufferTable c1 ! i) else BufferTable c ! j)" if "j < 64" for j
      using that at1 [OF that] by (simp add: P(3) E'(3) nth_list_update)
    have "BufferDiscard d i (c, g) = Some (PutOldest i (BufferDetach i ?c), g)"
      using True wb written E(1) by (simp add: BufferDiscard_def)
    moreover have "keeps stored c (PutOldest i (BufferDetach i ?c))"
      by (rule keeps_trans [OF keeps_trans [OF W(2) E'(2)] P(2)])
    ultimately show ?thesis using P(1) at i by (auto simp: forget_def)
  qed
qed

lemma DiscardFrom_effect:
  assumes "cache_ok c" "set is \<subseteq> {..<64}" "distinct is"
    and "\<And>i. i \<in> set is \<Longrightarrow> buffer_device (BufferTable c ! i) = Some d \<Longrightarrow> buffer_references (BufferTable c ! i) = 0"
  shows "\<exists>c' g'. DiscardFrom d is (c, g) = Some (c', g') \<and> cache_ok c' \<and> keeps stored c c' \<and>
    (\<forall>j < 64. j \<notin> set is \<longrightarrow> BufferTable c' ! j = BufferTable c ! j) \<and>
    (g' \<longrightarrow> g \<and> (\<forall>i \<in> set is. buffer_device (BufferTable c' ! i) \<noteq> Some d))"
  using assms
proof (induction "is" arbitrary: c g)
  case (Cons i "is")
  have i: "i < 64" "i \<notin> set is" using Cons.prems(2,3) by simp_all
  from BufferDiscard_effect [OF Cons.prems(1) i(1)] Cons.prems(4) obtain c1 g1 where 1: "BufferDiscard d i (c, g) = Some (c1, g1)"
    "cache_ok c1" "keeps stored c c1" "\<And>j. j < 64 \<Longrightarrow> j \<noteq> i \<Longrightarrow> BufferTable c1 ! j = BufferTable c ! j"
    "g1 \<Longrightarrow> g \<and> buffer_device (BufferTable c1 ! i) \<noteq> Some d" by (metis list.set_intros(1))
  have "\<exists>c' g'. DiscardFrom d is (c1, g1) = Some (c', g') \<and> cache_ok c' \<and> keeps stored c1 c' \<and>
    (\<forall>j < 64. j \<notin> set is \<longrightarrow> BufferTable c' ! j = BufferTable c1 ! j) \<and>
    (g' \<longrightarrow> g1 \<and> (\<forall>i \<in> set is. buffer_device (BufferTable c' ! i) \<noteq> Some d))"
  proof (rule Cons.IH [OF 1(2)])
    show "buffer_references (BufferTable c1 ! j) = 0" if "j \<in> set is" "buffer_device (BufferTable c1 ! j) = Some d" for j
    proof -
      have "j < 64" "j \<noteq> i" using that(1) Cons.prems(2) i(2) by auto
      then show ?thesis using that 1(4) Cons.prems(4) [of j] by simp
    qed
  qed (use Cons.prems(2,3) in auto)
  then obtain c' g' where 2: "DiscardFrom d is (c1, g1) = Some (c', g')" "cache_ok c'" "keeps stored c1 c'"
    "\<And>j. j < 64 \<Longrightarrow> j \<notin> set is \<Longrightarrow> BufferTable c' ! j = BufferTable c1 ! j"
    "g' \<Longrightarrow> g1 \<and> (\<forall>i \<in> set is. buffer_device (BufferTable c' ! i) \<noteq> Some d)" by blast
  have "DiscardFrom d (i # is) (c, g) = Some (c', g')" using 1(1) 2(1) by simp
  moreover note keeps_trans [OF 1(3) 2(3)]
  ultimately show ?case using 2 1(4,5) i by auto
qed simp

lemma BufferInvalidateDevice_effect:
  assumes "cache_ok c"
  shows "\<exists>c' g. BufferInvalidateDevice (Some d) c = Some (c', g) \<and> cache_ok c' \<and> keeps stored c c' \<and>
    (g \<longrightarrow> (\<forall>i < 64. buffer_device (BufferTable c' ! i) \<noteq> Some d))"
proof (cases "\<exists>i < 64. buffer_device (BufferTable c ! i) = Some d \<and> buffer_references (BufferTable c ! i) \<noteq> 0")
  case True
  then have "BufferInvalidateDevice (Some d) c = Some (c, False)"
    by (auto simp: BufferInvalidateDevice_def list_ex_iff BUFFER_CAPACITY_def simp del: upt_rec_numeral)
  then show ?thesis using assms by auto
next
  case False
  then have "BufferInvalidateDevice (Some d) c = DiscardFrom d [0..<64] (c, True)"
    by (auto simp: BufferInvalidateDevice_def list_ex_iff BUFFER_CAPACITY_def simp del: upt_rec_numeral)
  moreover have "\<exists>c' g. DiscardFrom d [0..<64] (c, True) = Some (c', g) \<and> cache_ok c' \<and> keeps stored c c' \<and>
      (\<forall>j < 64. j \<notin> set [0..<64] \<longrightarrow> BufferTable c' ! j = BufferTable c ! j) \<and>
      (g \<longrightarrow> True \<and> (\<forall>i \<in> set [0..<64]. buffer_device (BufferTable c' ! i) \<noteq> Some d))"
    by (rule DiscardFrom_effect [OF assms]) (use False in \<open>auto simp del: upt_rec_numeral\<close>)
  ultimately show ?thesis by (metis atLeastLessThan_iff le0 set_upt)
qed

end

end
