(* ===== verification/BufferHistory.thy ===== *)
theory BufferHistory
  imports BufferUpkeep
begin

text \<open>
  The cache over time: the state a start leaves, the requests of the code above it, each a get,
  its use and its release, and the memory the cache is to them.
\<close>

subsection \<open>The start\<close>

text \<open>Before the start the tables are as the image has them, zeroed.\<close>

definition unstarted :: "'w buffer_state \<Rightarrow> bool" where
  "unstarted c \<longleftrightarrow> shape c \<and> (\<forall>i < 64. \<not> listed (BufferEntries c ! i) \<and> \<not> linked (BufferEntries c ! i))"

definition prepared :: "u8 list \<Rightarrow> nat \<Rightarrow> 'w buffer_state \<Rightarrow> 'w buffer_state \<Rightarrow> bool" where
  "prepared bytes n c0 c \<longleftrightarrow> shape c \<and> recency c [0..<n] \<and> chains c (\<lambda>_. []) \<and>
     (\<forall>i < 64. \<not> linked (BufferEntries c ! i)) \<and>
     (\<forall>i < n. BufferTable c ! i = \<lparr>buffer_device = None, buffer_block = 0, buffer_data = take 512 (drop (i * 512) bytes),
        buffer_references = 0, buffer_valid = False, buffer_dirty = False\<rparr>) \<and>
     block_layer c = block_layer c0 \<and> device_address c = device_address c0"

lemma BufferPrepare_effect:
  assumes P: "prepared bytes n c0 c" and n: "n < 64"
  shows "prepared bytes (Suc n) c0 (BufferPrepare bytes n c)"
proof -
  let ?b = "\<lparr>buffer_device = None, buffer_block = 0, buffer_data = take 512 (drop (n * 512) bytes),
     buffer_references = 0, buffer_valid = False, buffer_dirty = False\<rparr>"
  let ?e = "\<lparr>hash_next = None, older = None, newer = None, linked = False, listed = False\<rparr>"
  define d where "d = set_entry n (\<lambda>_. ?e) (set_buffer n (\<lambda>_. ?b) c)"
  have run: "BufferPrepare bytes n c = BufferTouch n d"
    by (simp add: d_def BufferPrepare_def BUFFER_BLOCK_SIZE_def BLOCK_SIZE_DEFAULT_def Let_def)
  have Q: "shape c" "recency c [0..<n]" "\<And>k. k < 128 \<Longrightarrow> BufferBuckets c ! k = None" "\<And>i. i < 64 \<Longrightarrow> \<not> linked (BufferEntries c ! i)"
    using P unfolding prepared_def chains_def by auto
  have len: "length (BufferEntries c) = 64" "length (BufferTable c) = 64" using Q(1) by (simp_all add: shape_def)
  have E: "BufferEntries d ! j = (if j = n then ?e else BufferEntries c ! j)" if "j < 64" for j
    using that len by (simp add: d_def set_entry_def nth_list_update)
  have T: "BufferTable d ! j = (if j = n then ?b else BufferTable c ! j)" if "j < 64" for j
    using that len by (simp add: d_def set_entry_def set_buffer_at)
  have shape: "shape d" using Q(1) by (simp add: d_def shape_def set_entry_def)
  have ends: "BufferOldest d = BufferOldest c" "BufferNewest d = BufferNewest c" "BufferBuckets d = BufferBuckets c"
    "block_layer d = block_layer c" "device_address d = device_address c" by (simp_all add: d_def set_entry_def)
  have "lane (BufferEntries d) None [0..<n] None"
    by (rule lane_cong [of "BufferEntries c"]) (use Q(2) E n in \<open>auto simp: recency_def\<close>)
  moreover have "listed (BufferEntries d ! i) \<longleftrightarrow> i \<in> set [0..<n]" if "i < 64" for i
    using Q(2) E [OF that] that unfolding recency_def by auto
  ultimately have "recency d [0..<n]" using Q(2) ends unfolding recency_def by simp
  from BufferTouch_recency [OF shape this n] have "recency (BufferTouch n d) [0..<Suc n]" by (simp add: remove1_idem)
  moreover have un: "\<not> linked (BufferEntries d ! i)" if "i < 64" for i using E [OF that] Q(4) [OF that] by simp
  then have "chains d (\<lambda>_. [])" using Q(3) unfolding chains_def ends by auto
  moreover note F = recency_only_fields(1-7) [OF BufferTouch_only, of n d]
  moreover have "BufferTable (BufferTouch n d) ! i = \<lparr>buffer_device = None, buffer_block = 0, buffer_data = take 512 (drop (i * 512) bytes),
        buffer_references = 0, buffer_valid = False, buffer_dirty = False\<rparr>" if "i < Suc n" for i
    using that T [of i] n P unfolding F(1) prepared_def by (cases "i = n") simp_all
  moreover have "\<not> linked (BufferEntries (BufferTouch n d) ! i)" if "i < 64" for i
    using recency_only_fields(9) [OF BufferTouch_only, of i d n] un [OF that] that shape by (simp add: shape_def)
  ultimately show ?thesis
    using P shape un recency_only_chains [OF BufferTouch_only shape] unfolding run prepared_def by (simp add: ends)
qed

lemma prepare_all:
  "n \<le> 64 \<Longrightarrow> prepared bytes 0 c0 c \<Longrightarrow> prepared bytes n c0 (fold (BufferPrepare bytes) [0..<n] c)"
  by (induction n) (auto intro: BufferPrepare_effect)

lemma BufferInitialise_effect:
  assumes "unstarted c" "length bytes = 64 * 512" "devices_ok_for ops extent sound (block_layer c)"
    and run: "BufferInitialise (Some bytes) c = (c', ok)"
  shows "ok" "cache_ok_for ops stored extent sound c'" "block_layer c' = block_layer c"
    "\<And>i. i < 64 \<Longrightarrow> buffer_references (BufferTable c' ! i) = 0 \<and> \<not> buffer_valid (BufferTable c' ! i)" "BufferReady c'"
proof -
  let ?c = "c\<lparr>BufferBuckets := replicate BUFFER_BUCKET_COUNT None, BufferNewest := None, BufferOldest := None\<rparr>"
  have "prepared bytes 0 c ?c"
    using assms(1) by (auto simp: prepared_def unstarted_def shape_def recency_def chains_def BUFFER_BUCKET_COUNT_def)
  then have P: "prepared bytes 64 c (fold (BufferPrepare bytes) [0..<64] ?c)" by (intro prepare_all) simp_all
  let ?f = "fold (BufferPrepare bytes) [0..<64] ?c"
  have c': "c' = ?f\<lparr>BufferHitCount := 0, BufferMissCount := 0, BufferEvictionCount := 0, BufferWriteBackCount := 0,
      BufferFailureCount := 0, BufferReady := True\<rparr>" and "ok"
    using run by (simp_all add: BufferInitialise_def BUFFER_CAPACITY_def Let_def del: upt_rec_numeral)
  then show ok "BufferReady c'" by simp_all
  have Q: "shape ?f" "recency ?f [0..<64]" "chains ?f (\<lambda>_. [])" "\<And>i. i < 64 \<Longrightarrow> \<not> linked (BufferEntries ?f ! i)"
    "\<And>i. i < 64 \<Longrightarrow> BufferTable ?f ! i = \<lparr>buffer_device = None, buffer_block = 0, buffer_data = take 512 (drop (i * 512) bytes),
        buffer_references = 0, buffer_valid = False, buffer_dirty = False\<rparr>" "block_layer ?f = block_layer c"
    using P unfolding prepared_def by blast+
  have same: "BufferTable c' = BufferTable ?f" "BufferEntries c' = BufferEntries ?f" "BufferBuckets c' = BufferBuckets ?f"
    "BufferNewest c' = BufferNewest ?f" "BufferOldest c' = BufferOldest ?f" "device_address c' = device_address ?f"
    "block_layer c' = block_layer c"
    unfolding c' using Q(6) by simp_all
  show "block_layer c' = block_layer c" by (rule same)
  show "buffer_references (BufferTable c' ! i) = 0 \<and> \<not> buffer_valid (BufferTable c' ! i)" if "i < 64" for i
    using Q(5) [OF that] by (simp add: same)
  have "set [0..<64] = {..<64 :: nat}" by auto
  then have "index_ok ?f" using Q(1-5) unfolding index_ok_def by (metis Buffer.select_convs(5))
  then have "index_ok c'"
    by (rule index_ok_table) (use Q(1) same in \<open>auto simp: shape_def\<close>)
  moreover have "length (take 512 (drop (i * 512) bytes)) = 512" if "i < 64" for i
  proof -
    have "i * 512 + 512 \<le> 64 * 512" using that by simp
    then show ?thesis using assms(2) by simp
  qed
  then have "data_ok stored (BufferTable c') (block_layer c')"
    using Q(1,5) unfolding same data_ok_def unique_holder_def holds_def by (simp add: shape_def)
  ultimately show "cache_ok_for ops stored extent sound c'" using assms(3) by (simp add: cache_ok_for_def same)
qed

subsection \<open>The memory the cache is\<close>

text \<open>The blocks the devices have, each with its view.\<close>

definition cached_map :: "('w \<Rightarrow> u64 \<Rightarrow> u64 \<Rightarrow> u8 list) \<Rightarrow> 'w buffer_state \<Rightarrow> nat \<times> u64 \<rightharpoonup> u8 list" where
  "cached_map stored c = (\<lambda>(d, b). if on_device (block_layer c) d b then Some (cached_view stored c d b) else None)"

lemma cached_map_same:
  assumes "same_devices (block_layer c) (block_layer c')"
    and "\<And>d b. on_device (block_layer c) d b \<Longrightarrow> cached_view stored c' d b = cached_view stored c d b"
  shows "cached_map stored c' = cached_map stored c"
  using assms on_device_same [OF assms(1)] by (auto simp: cached_map_def fun_eq_iff)

lemma cached_map_keeps: "keeps stored c c' \<Longrightarrow> cached_map stored c' = cached_map stored c"
  by (rule cached_map_same) (auto simp: keeps_def)

subsection \<open>The requests of the code above\<close>

text \<open>A block is got, read or stored into, and released.\<close>

definition use_read :: "nat \<Rightarrow> u64 \<Rightarrow> 'w buffer_state \<Rightarrow> ('w buffer_state \<times> u8 list option) option" where
  "use_read d b c =
     (case BufferGet (Some d) b c of
        None \<Rightarrow> None
      | Some (c, None) \<Rightarrow> Some (c, None)
      | Some (c, Some i) \<Rightarrow> Some (BufferRelease (Some i) c, Some (buffer_data (BufferTable c ! i))))"

definition use_write :: "nat \<Rightarrow> u64 \<Rightarrow> (u8 list \<Rightarrow> u8 list) \<Rightarrow> 'w buffer_state \<Rightarrow> ('w buffer_state \<times> bool) option" where
  "use_write d b f c =
     (case BufferGet (Some d) b c of
        None \<Rightarrow> None
      | Some (c, None) \<Rightarrow> Some (c, False)
      | Some (c, Some i) \<Rightarrow>
          Some (BufferRelease (Some i) (BufferMarkDirty (Some i) (set_buffer i (\<lambda>v. v\<lparr>buffer_data := f (buffer_data v)\<rparr>) c)), True))"

context block_driver
begin

lemma cached_map_at:
  assumes "cached_map stored c (d, b) = Some bytes" "cache_ok c"
  shows "length bytes = 512"
proof -
  have on: "on_device (block_layer c) d b" "bytes = cached_view stored c d b"
    using assms(1) by (auto simp: cached_map_def split: if_splits)
  have D: "data_ok stored (BufferTable c) (block_layer c)" "devices_ok (block_layer c)" using assms(2) unfolding cache_ok_for_def by blast+
  show ?thesis
  proof (cases "\<exists>i < 64. holds (BufferTable c ! i) d b")
    case True
    then obtain i where i: "i < 64" "holds (BufferTable c ! i) d b" by blast
    have "unique_holder (BufferTable c)" using D(1) unfolding data_ok_def by blast
    from view_held [OF this i, of stored "block_layer c"] show ?thesis using data_okD(2) [OF D(1) i(1)] by (simp add: on(2) cached_view_def)
  next
    case False
    then have "bytes = content (block_layer c) d b" by (simp add: on(2) cached_view_def view_absent)
    moreover have "unat b < extent (world (block_layer c)) (device_context (BlockDevices (block_layer c) ! d))"
      "sound (world (block_layer c))"
      using D(2) on(1) unfolding devices_ok_for_def on_device_def word_less_nat_alt by fastforce+
    ultimately show ?thesis using stored_length by (simp add: content_of_def)
  qed
qed

lemma use_read_effect:
  assumes ok: "cache_ok c" and d: "d < length (BlockDevices (block_layer c))"
  shows "\<exists>c' r. use_read d b c = Some (c', r) \<and> cache_ok c' \<and> same_devices (block_layer c) (block_layer c') \<and>
    cached_map stored c' = cached_map stored c \<and> (r \<noteq> None \<longrightarrow> r = cached_map stored c (d, b))"
proof -
  from BufferGet_effect [OF ok d, of b] obtain c1 r where G: "BufferGet (Some d) b c = Some (c1, r)" "cache_ok c1"
    "same_devices (block_layer c) (block_layer c1)"
    "\<And>e k. on_device (block_layer c) e k \<Longrightarrow> cached_view stored c1 e k = cached_view stored c e k"
    "case r of None \<Rightarrow> keeps stored c c1 | Some i \<Rightarrow> obtained c c1 d b i" by blast
  have m: "cached_map stored c1 = cached_map stored c" by (rule cached_map_same [OF G(3,4)])
  show ?thesis
  proof (cases r)
    case None
    then show ?thesis using G m by (auto simp: use_read_def)
  next
    case (Some i)
    then have O: "obtained c c1 d b i" using G(5) by simp
    then have i: "i < 64" "Some (buffer_data (BufferTable c1 ! i)) = cached_map stored c (d, b)"
      unfolding obtained_def by (simp_all add: cached_map_def)
    note R = BufferRelease_effect [OF G(2) i(1)]
    have "cached_map stored (BufferRelease (Some i) c1) = cached_map stored c"
      using m unfolding cached_map_def R(2,3) .
    then show ?thesis using G(1,3) R(1,3) i(2) Some by (auto simp: use_read_def)
  qed
qed

lemma use_write_effect:
  assumes ok: "cache_ok c" and d: "d < length (BlockDevices (block_layer c))"
    and f: "\<And>bytes. length bytes = 512 \<Longrightarrow> length (f bytes) = 512"
  shows "\<exists>c' good. use_write d b f c = Some (c', good) \<and> cache_ok c' \<and> same_devices (block_layer c) (block_layer c') \<and>
    (if good then \<exists>bytes. cached_map stored c (d, b) = Some bytes \<and> cached_map stored c' = (cached_map stored c)((d, b) \<mapsto> f bytes)
     else cached_map stored c' = cached_map stored c)"
proof -
  from BufferGet_effect [OF ok d, of b] obtain c1 r where G: "BufferGet (Some d) b c = Some (c1, r)" "cache_ok c1"
    "same_devices (block_layer c) (block_layer c1)"
    "\<And>e k. on_device (block_layer c) e k \<Longrightarrow> cached_view stored c1 e k = cached_view stored c e k"
    "case r of None \<Rightarrow> keeps stored c c1 | Some i \<Rightarrow> obtained c c1 d b i" by blast
  have m: "cached_map stored c1 = cached_map stored c" by (rule cached_map_same [OF G(3,4)])
  show ?thesis
  proof (cases r)
    case None
    then show ?thesis using G m by (auto simp: use_write_def)
  next
    case (Some i)
    then have O: "obtained c c1 d b i" using G(5) by simp
    define bytes where "bytes = buffer_data (BufferTable c1 ! i)"
    have i: "i < 64" "holds (BufferTable c1 ! i) d b" "on_device (block_layer c) d b" "cached_map stored c (d, b) = Some bytes"
      using O unfolding obtained_def by (simp_all add: cached_map_def bytes_def)
    have len: "length (f bytes) = 512" using f cached_map_at [OF i(4) ok] by simp
    have "set_buffer i (\<lambda>v. v\<lparr>buffer_data := f (buffer_data v)\<rparr>) c1 = set_buffer i (\<lambda>v. v\<lparr>buffer_data := f bytes\<rparr>) c1"
      by (simp add: set_buffer_def bytes_def)
    then have run: "use_write d b f c = Some (BufferRelease (Some i) (BufferMarkDirty (Some i) (set_buffer i (\<lambda>v. v\<lparr>buffer_data := f bytes\<rparr>) c1)), True)"
      using G(1) Some by (simp add: use_write_def)
    note M = BufferMarkDirty_effect [OF G(2) i(1,2) len refl]
    note R = BufferRelease_effect [OF M(1) i(1)]
    have "cached_map stored (BufferRelease (Some i) (BufferMarkDirty (Some i) (set_buffer i (\<lambda>v. v\<lparr>buffer_data := f bytes\<rparr>) c1))) =
        (cached_map stored c)((d, b) \<mapsto> f bytes)"
      using i(3) G(4) on_device_same [OF G(3)] by (auto simp: cached_map_def R(2,3) M(2,3) fun_eq_iff)
    then show ?thesis using run R(1,3) M(3) G(3) i(4) by auto
  qed
qed

end

end
