(* ===== verification/Ramdisk.thy ===== *)
theory Ramdisk
  imports BlockLayer ByteMemory FrameAllocator Paging
begin

text \<open>
  The ramdisk (\<open>drivers/ramdisk/ramdisk.c\<close>): a block device that is an extent of memory.  Its
  world is the memory and the extent.  A caller's buffer lies outside the extent and is the bytes
  at its address; the copy is written once, over whatever is stored into.
\<close>

definition RAMDISK_DEVICE_NAME :: "u8 list" where "RAMDISK_DEVICE_NAME = [0x72, 0x61, 0x6d, 0x30, 0]"
definition RAMDISK_MODULE_NAME :: string where "RAMDISK_MODULE_NAME = ''initrd''"

record ramdisk_state =
  memory :: memory
  RamdiskBase :: u64
  RamdiskLength :: u64

definition RamdiskCopy :: "(nat \<Rightarrow> u8 \<Rightarrow> 'd \<Rightarrow> 'd) \<Rightarrow> (nat \<Rightarrow> u8) \<Rightarrow> u64 \<Rightarrow> 'd \<Rightarrow> 'd" where
  "RamdiskCopy store source count destination =
     fold (\<lambda>index. store index (source index)) [0..<unat count] destination"

definition RamdiskRead :: "u64 \<Rightarrow> u64 \<Rightarrow> u32 \<Rightarrow> u8 list \<Rightarrow> ramdisk_state \<Rightarrow> ramdisk_state \<times> u8 list \<times> bool" where
  "RamdiskRead driver block count buffer w =
     (let source = RamdiskBase w + block * ucast BLOCK_SIZE_DEFAULT
      in (w, RamdiskCopy (\<lambda>index byte bytes. bytes[index := byte]) (\<lambda>index. memory w (source + word_of_nat index))
               (ucast count * ucast BLOCK_SIZE_DEFAULT) buffer, True))"

definition RamdiskWrite :: "u64 \<Rightarrow> u64 \<Rightarrow> u32 \<Rightarrow> u8 list \<Rightarrow> ramdisk_state \<Rightarrow> ramdisk_state \<times> bool" where
  "RamdiskWrite driver block count buffer w =
     (let destination = RamdiskBase w + block * ucast BLOCK_SIZE_DEFAULT
      in (w\<lparr>memory := RamdiskCopy (\<lambda>index byte m. m(destination + word_of_nat index := byte)) (\<lambda>index. buffer ! index)
               (ucast count * ucast BLOCK_SIZE_DEFAULT) (memory w)\<rparr>, True))"

definition RamdiskOperations :: "ramdisk_state BlockOperations" where
  "RamdiskOperations = \<lparr>operation_read = Some RamdiskRead, operation_write = Some RamdiskWrite\<rparr>"

definition BootInformationFindModule :: "BootInformation option \<Rightarrow> string option \<Rightarrow> BootModule option" where
  "BootInformationFindModule information name =
     (case (information, name) of
        (Some i, Some n) \<Rightarrow> find (\<lambda>m. module_label m = n) (modules i)
      | _ \<Rightarrow> None)"

text \<open>The registered device comes beside the state, \<open>RamdiskRegistered\<close> of the source.\<close>

definition RamdiskInitialise ::
  "(ramdisk_state BlockDevice list \<Rightarrow> ramdisk_state BlockDevice list option) \<Rightarrow> BootInformation option \<Rightarrow>
   ramdisk_state block_state \<Rightarrow> (ramdisk_state block_state \<times> nat option \<times> bool) option" where
  "RamdiskInitialise grow information s =
     (let none = (\<lambda>w. w\<lparr>RamdiskBase := 0, RamdiskLength := 0\<rparr>);
          s = s\<lparr>world := none (world s)\<rparr>
      in case BootInformationFindModule information (Some RAMDISK_MODULE_NAME) of
           None \<Rightarrow> Some (s, None, False)
         | Some m \<Rightarrow>
             let length = module_end m - module_start m
             in if length mod ucast BLOCK_SIZE_DEFAULT \<noteq> 0 then Some (s, None, False)
                else
                  let s = s\<lparr>world := (world s)\<lparr>RamdiskBase := PhysicalToDirect (module_start m), RamdiskLength := length\<rparr>\<rparr>
                  in case BlockRegister grow (Some RAMDISK_DEVICE_NAME) (Some RamdiskOperations) 0 BLOCK_SIZE_DEFAULT
                            (length div ucast BLOCK_SIZE_DEFAULT) False s of
                       None \<Rightarrow> None
                     | Some (s, None) \<Rightarrow> Some (s\<lparr>world := none (world s)\<rparr>, None, False)
                     | Some (s, Some d) \<Rightarrow> Some (s, Some d, True))"

end
