(* ===== verification/RamdiskDriver.thy ===== *)
theory RamdiskDriver
  imports Ramdisk BlockContract
begin

text \<open>
  The ramdisk keeps the contract of a driver that answers: a block is 512 bytes of the extent, and its reads
  and writes are those bytes.
\<close>

definition ramdisk_block :: "ramdisk_state \<Rightarrow> u64 \<Rightarrow> u64 \<Rightarrow> u8 list" where
  "ramdisk_block w c b = map (\<lambda>i. memory w (RamdiskBase w + b * 512 + word_of_nat i)) [0..<512]"

definition ramdisk_extent :: "ramdisk_state \<Rightarrow> u64 \<Rightarrow> nat" where
  "ramdisk_extent w c = (if c = 0 then unat (RamdiskLength w) div 512 else 0)"

definition ramdisk_sound :: "ramdisk_state \<Rightarrow> bool" where
  "ramdisk_sound w \<longleftrightarrow> unat (RamdiskBase w) + unat (RamdiskLength w) \<le> 2 ^ 64"

lemma copy_to_buffer:
  "n \<le> length buffer \<Longrightarrow> fold (\<lambda>index bytes. bytes[index := source index]) [0..<n] buffer = map source [0..<n] @ drop n buffer"
proof (induction n)
  case (Suc n)
  then have "fold (\<lambda>index bytes. bytes[index := source index]) [0..<n] buffer = map source [0..<n] @ drop n buffer" by simp
  then show ?case using Suc(2) by (simp add: list_update_append) (metis Cons_nth_drop_Suc Suc_le_lessD list_update_code(2))
qed simp

lemma copy_to_memory:
  "n \<le> 2 ^ 64 \<Longrightarrow> fold (\<lambda>index m. m((a :: u64) + word_of_nat index := source index)) [0..<n] m =
    (\<lambda>x. if unat (x - a) < n then source (unat (x - a)) else m x)"
proof (induction n)
  case (Suc n)
  then have n: "n < 2 ^ 64" by simp
  have "unat (x - a) = n \<longleftrightarrow> x = a + word_of_nat n" for x
  proof
    assume "unat (x - a) = n"
    then have "x - a = word_of_nat n" by auto
    then show "x = a + word_of_nat n" by (simp add: algebra_simps)
  next
    assume "x = a + word_of_nat n"
    then show "unat (x - a) = n" using n by (simp add: unsigned_of_nat take_bit_nat_eq_self)
  qed
  moreover have "unat (word_of_nat n :: u64) = n" using n by (simp add: unsigned_of_nat take_bit_nat_eq_self)
  ultimately show ?case using Suc by (auto simp: fun_eq_iff less_Suc_eq)
qed simp

lemma byte_count: "unat (ucast (count :: u32) * ucast BLOCK_SIZE_DEFAULT :: u64) = unat count * 512"
proof -
  have c: "unat count < 2 ^ 32" using unsigned_less [of count] by simp
  then have "unat (ucast count :: u64) = unat count" by (simp add: unsigned_ucast_eq take_bit_nat_eq_self)
  then show ?thesis using c by (simp add: BLOCK_SIZE_DEFAULT_def unat_word_ariths)
qed

text \<open>Where a byte of a block lies, and that two blocks of the extent never share an address.\<close>

lemma block_address:
  assumes "ramdisk_sound w" "unat b < unat (RamdiskLength w) div 512" "i < 512"
  shows "unat (RamdiskBase w + b * 512 + word_of_nat i) = unat (RamdiskBase w) + unat b * 512 + i"
proof -
  have lt: "unat b * 512 + i < unat (RamdiskLength w)" using assms(2,3) by linarith
  then have small: "unat (RamdiskBase w) + unat b * 512 + i < 2 ^ 64" using assms(1) by (simp add: ramdisk_sound_def)
  have 1: "unat (b * 512) = unat b * 512" using small by (simp add: unat_word_ariths)
  then have 2: "unat (RamdiskBase w + b * 512) = unat (RamdiskBase w) + unat b * 512"
    using small by (simp add: unat_word_ariths)
  have "unat (word_of_nat i :: u64) = i" using assms(3) by (simp add: unsigned_of_nat take_bit_nat_eq_self)
  then show ?thesis using small 2 by (simp add: unat_word_ariths(1) [of "RamdiskBase w + b * 512"])
qed

lemma below_wraps: "x < a \<Longrightarrow> unat (x - a :: u64) = 2 ^ 64 + unat x - unat a"
  by (simp add: unat_sub_if_size word_size word_le_nat_alt word_less_nat_alt)

lemma offset_from:
  assumes "ramdisk_sound w" "unat b < unat (RamdiskLength w) div 512" "i < 512"
    and "unat block < unat (RamdiskLength w) div 512" "n \<le> unat (RamdiskLength w) div 512 - unat block"
  shows "unat (RamdiskBase w + b * 512 + word_of_nat i - (RamdiskBase w + block * 512)) < n * 512 \<longleftrightarrow> in_blocks block n b"
    and "in_blocks block n b \<Longrightarrow>
      unat (RamdiskBase w + b * 512 + word_of_nat i - (RamdiskBase w + block * 512)) = (unat b - unat block) * 512 + i"
proof -
  let ?x = "RamdiskBase w + b * 512 + word_of_nat i" and ?a = "RamdiskBase w + block * 512"
  have x: "unat ?x = unat (RamdiskBase w) + unat b * 512 + i" by (rule block_address [OF assms(1-3)])
  have a: "unat ?a = unat (RamdiskBase w) + unat block * 512" using block_address [OF assms(1,4), of 0] by simp
  have up: "unat (?x - ?a) = (unat b - unat block) * 512 + i" if "unat block \<le> unat b"
  proof -
    have "unat block * 512 \<le> unat b * 512" using that by simp
    then have "?a \<le> ?x" using x a by (simp only: word_le_nat_alt)
    then have "unat (?x - ?a) = unat ?x - unat ?a" by (rule unat_sub)
    also have "\<dots> = (unat b - unat block) * 512 + i" using x a that by (simp only: diff_mult_distrib)
    finally show ?thesis .
  qed
  have down: "n * 512 \<le> unat (?x - ?a)" if "unat b < unat block"
  proof -
    have "unat b * 512 + 512 \<le> unat block * 512" using that by simp
    then have "unat ?x < unat ?a" using x a assms(3) by linarith
    then have "?x < ?a" by (simp only: word_less_nat_alt)
    then have "unat (?x - ?a) = 2 ^ 64 + unat ?x - unat ?a" by (rule below_wraps)
    moreover have "(n + unat block) * 512 \<le> unat (RamdiskLength w)"
    proof -
      have "n + unat block \<le> unat (RamdiskLength w) div 512" using assms(4,5) by linarith
      then have "(n + unat block) * 512 \<le> unat (RamdiskLength w) div 512 * 512" by (rule mult_le_mono1)
      then show ?thesis using div_times_less_eq_dividend [of "unat (RamdiskLength w)" 512] by (rule le_trans)
    qed
    ultimately show ?thesis using x a assms(1) by (simp add: ramdisk_sound_def algebra_simps)
  qed
  show "unat (?x - ?a) < n * 512 \<longleftrightarrow> in_blocks block n b"
    using up down assms(3) unfolding in_blocks_def by (cases "unat block \<le> unat b") auto
  show "in_blocks block n b \<Longrightarrow> unat (?x - ?a) = (unat b - unat block) * 512 + i"
    using up by (simp add: in_blocks_def)
qed

lemma map_in_blocks: "map f [0..<n * k] = concat (map (\<lambda>j. map (\<lambda>i. f (j * k + i)) [0..<k]) [0..<n])"
proof (induction n)
  case (Suc n)
  have "[0..<Suc n * k] = [0..<n * k] @ [n * k..<n * k + k]"
    using upt_add_eq_append [of 0 "n * k" k] by (simp add: add.commute)
  moreover have "[n * k..<n * k + k] = map (\<lambda>i. n * k + i) [0..<k]" by (simp add: map_add_upt [of "n * k" k, symmetric] add.commute)
  ultimately show ?case using Suc by simp
qed simp

lemma RamdiskRead_effect:
  assumes "length buffer = unat count * 512" "RamdiskRead c block count buffer w = (w', bytes, ok)"
  shows "w' = w" "bytes = blocks_at (ramdisk_block w c) block (unat count)" "length bytes = length buffer"
proof -
  have b: "bytes = map (\<lambda>i. memory w (RamdiskBase w + block * ucast BLOCK_SIZE_DEFAULT + word_of_nat i)) [0..<unat count * 512]"
    using assms by (auto simp: RamdiskRead_def RamdiskCopy_def Let_def byte_count copy_to_buffer)
  show "length bytes = length buffer" using assms(1) by (simp add: b)
  have "RamdiskBase w + block * ucast BLOCK_SIZE_DEFAULT + word_of_nat (j * 512 + i) =
      RamdiskBase w + (block + word_of_nat j) * 512 + word_of_nat i" for i j
  proof -
    have "ucast BLOCK_SIZE_DEFAULT = (512 :: u64)" by (simp add: BLOCK_SIZE_DEFAULT_def)
    then show ?thesis by (simp only: of_nat_add of_nat_mult of_nat_numeral distrib_right add.assoc)
  qed
  then show "bytes = blocks_at (ramdisk_block w c) block (unat count)"
    unfolding b map_in_blocks [of _ "unat count" 512] blocks_at_def ramdisk_block_def by (simp only:)
  show "w' = w" using assms(2) by (simp add: RamdiskRead_def Let_def)
qed

lemma RamdiskWrite_effect:
  assumes sound: "ramdisk_sound w" and fits: "unat block + unat count \<le> unat (RamdiskLength w) div 512" "0 < unat count"
    and len: "length buffer = unat count * 512" and run: "RamdiskWrite c block count buffer w = (w', ok)"
  shows "RamdiskBase w' = RamdiskBase w" "RamdiskLength w' = RamdiskLength w"
    "unat b < unat (RamdiskLength w) div 512 \<Longrightarrow> \<not> in_blocks block (unat count) b \<Longrightarrow> ramdisk_block w' c b = ramdisk_block w c b"
    "blocks_at (ramdisk_block w' c) block (unat count) = buffer"
proof -
  have "unat count < 2 ^ 32" using unsigned_less [of count] by simp
  then have n: "unat count * 512 \<le> 2 ^ 64" by simp
  have w': "w' = w\<lparr>memory := (\<lambda>x. if unat (x - (RamdiskBase w + block * 512)) < unat count * 512
      then buffer ! unat (x - (RamdiskBase w + block * 512)) else memory w x)\<rparr>"
    using run byte_count [of count] by (auto simp: RamdiskWrite_def RamdiskCopy_def Let_def copy_to_memory [OF n] BLOCK_SIZE_DEFAULT_def)
  then show "RamdiskBase w' = RamdiskBase w" "RamdiskLength w' = RamdiskLength w" by simp_all
  have fits': "unat block < unat (RamdiskLength w) div 512" "unat count \<le> unat (RamdiskLength w) div 512 - unat block"
    using fits by linarith+
  note off = offset_from [OF sound _ _ fits']
  show "ramdisk_block w' c b = ramdisk_block w c b"
    if "unat b < unat (RamdiskLength w) div 512" "\<not> in_blocks block (unat count) b" for b
    using off(1) [OF that(1)] that(2) by (simp add: ramdisk_block_def w')
  have block: "ramdisk_block w' c (block + word_of_nat j) = map (\<lambda>i. buffer ! (j * 512 + i)) [0..<512]" if j: "j < unat count" for j
  proof -
    have s: "unat block + j < unat (RamdiskLength w) div 512" using fits(1) j by linarith
    also have "\<dots> < 2 ^ 64" using unsigned_less [of "RamdiskLength w", where 'a = nat] by simp
    finally have "unat (block + word_of_nat j) = unat block + j"
      using j unsigned_less [of count, where 'a = nat] by (simp add: unat_word_ariths unsigned_of_nat take_bit_nat_eq_self)
    then have "unat (block + word_of_nat j) < unat (RamdiskLength w) div 512" "in_blocks block (unat count) (block + word_of_nat j)"
      "unat (block + word_of_nat j) - unat block = j"
      using s j by (simp_all add: in_blocks_def)
    then show ?thesis using off(1,2) [of "block + word_of_nat j"] unfolding ramdisk_block_def w' by simp
  qed
  have "blocks_at (ramdisk_block w' c) block (unat count) = concat (map (\<lambda>j. map (\<lambda>i. buffer ! (j * 512 + i)) [0..<512]) [0..<unat count])"
    unfolding blocks_at_def by (intro arg_cong [where f = concat] map_cong refl) (simp add: block)
  also have "\<dots> = map ((!) buffer) [0..<unat count * 512]" by (rule map_in_blocks [symmetric])
  also have "\<dots> = buffer" using len by (simp add: map_nth flip: len)
  finally show "blocks_at (ramdisk_block w' c) block (unat count) = buffer" .
qed

interpretation ramdisk: block_driver RamdiskOperations ramdisk_block ramdisk_extent ramdisk_sound
proof
  fix rd w count block c buffer w' bytes ok
  assume "operation_read RamdiskOperations = Some rd" "ramdisk_sound w" "length buffer = unat (count :: u32) * 512"
    "rd c block count buffer w = (w', bytes, ok)"
  then show "ramdisk_sound w' \<and> ramdisk_extent w' = ramdisk_extent w \<and>
     (\<forall>c' b. unat b < ramdisk_extent w c' \<longrightarrow> ramdisk_block w' c' b = ramdisk_block w c' b) \<and>
     length bytes = length buffer \<and> (ok \<longrightarrow> bytes = blocks_at (ramdisk_block w c) block (unat count))"
    using RamdiskRead_effect [of buffer count c block w w' bytes ok] by (auto simp: RamdiskOperations_def)
next
  fix wr w count block c buffer w' ok
  assume A: "operation_write RamdiskOperations = Some wr" "ramdisk_sound w" "0 < unat (count :: u32)"
    "unat block + unat count \<le> ramdisk_extent w c" "length buffer = unat count * 512" "wr c block count buffer w = (w', ok)"
  then have c: "c = 0" "unat block + unat count \<le> unat (RamdiskLength w) div 512" by (auto simp: ramdisk_extent_def split: if_splits)
  have run: "RamdiskWrite c block count buffer w = (w', ok)" using A by (simp add: RamdiskOperations_def)
  note W = RamdiskWrite_effect [OF A(2) c(2) A(3,5) run]
  show "ramdisk_sound w' \<and> ramdisk_extent w' = ramdisk_extent w \<and>
      (\<forall>c' b. unat b < ramdisk_extent w c' \<longrightarrow> c' \<noteq> c \<or> \<not> in_blocks block (unat count) b \<longrightarrow> ramdisk_block w' c' b = ramdisk_block w c' b) \<and>
      (ok \<longrightarrow> blocks_at (ramdisk_block w' c) block (unat count) = buffer)"
    using W A(2) c(1) by (auto simp: ramdisk_sound_def ramdisk_extent_def fun_eq_iff split: if_splits)
qed (simp add: ramdisk_block_def)

interpretation prompt_ramdisk: prompt_driver RamdiskOperations ramdisk_block ramdisk_extent ramdisk_sound
  by unfold_locales (auto simp: RamdiskOperations_def RamdiskRead_def RamdiskWrite_def Let_def)

end
