(* ===== verification/BlockProperties.thy ===== *)
theory BlockProperties
  imports RamdiskDriver
begin

text \<open>
  The properties of the block layer (\<open>kernel/block/block.c\<close>) and of the ramdisk below it
  (\<open>drivers/ramdisk/ramdisk.c\<close>), applied to a disk of four blocks in memory.
\<close>

subsection \<open>A small disk\<close>

definition specimen_disk :: "ramdisk_state block_state" where
  "specimen_disk =
     \<lparr>BlockDevices = [\<lparr>device_name = RAMDISK_DEVICE_NAME @ replicate 11 0, operations = Some RamdiskOperations, device_context = 0,
         block_size = 512, block_count = 4, read_only = False, registered = True, device_reads = 0, device_writes = 0,
         blocks_read = 0, blocks_written = 0, device_errors = 0, device_refusals = 0\<rparr>],
      BlockReads = 0, BlockWrites = 0, BlockRefusals = 0, BlockErrors = 0,
      world = \<lparr>memory = (\<lambda>_. 0), RamdiskBase = 0x200000, RamdiskLength = 2048\<rparr>\<rparr>"

lemma specimen_disk_registry: "registry_ok specimen_disk"
  by (simp add: specimen_disk_def registry_ok_def device_ok_def cstr_def RAMDISK_DEVICE_NAME_def RamdiskOperations_def)

lemma specimen_disk_ok: "devices_ok_for RamdiskOperations ramdisk_extent ramdisk_sound specimen_disk"
  by (simp add: specimen_disk_def devices_ok_for_def driven_def ramdisk_sound_def ramdisk_extent_def RamdiskOperations_def)

subsection \<open>The registry\<close>

text \<open>What the kernel does with the registry; a name given to it ends within its bytes.\<close>

inductive block_step :: "'w block_state \<Rightarrow> 'w block_state \<Rightarrow> bool" where
  registers: "BlockRegister grow name ops driver bytes_each blocks only_read s = Some (s', found) \<Longrightarrow> grows_with empty_device grow \<Longrightarrow>
    (\<And>n. name = Some n \<Longrightarrow> 0 \<in> set n) \<Longrightarrow> block_step s s'"
| unregisters: "block_step s (fst (BlockUnregister device s))"
| transfers: "BlockTransfer device block count buffer writing s = (s', buffer', ok) \<Longrightarrow> block_step s s'"

lemma block_step_registry: "block_step s s' \<Longrightarrow> registry_ok s \<Longrightarrow> registry_ok s'"
proof (induction rule: block_step.induct)
  case registers
  then show ?case using BlockRegister_effect by blast
next
  case unregisters
  then show ?case by (rule BlockUnregister_registry)
next
  case transfers
  then show ?case using BlockTransfer_same same_devices_registry by blast
qed

text \<open>C27: Whatever is registered, unregistered and transferred, every registered device is complete:
  a name of its own that ends within its field, blocks of a size and a number other than zero, a
  read operation, and a write operation exactly when it is not read-only.  So a transfer that is
  admitted always has an operation to call, the device found by a name is the one registered
  under it, and no two devices share a name.
\<close>

theorem registry_stays_complete:
  assumes "block_step\<^sup>*\<^sup>* s s'" "registry_ok s"
  shows "(\<forall>d < length (BlockDevices s'). registered (BlockDevices s' ! d) \<longrightarrow>
      cstr (device_name (BlockDevices s' ! d)) \<noteq> [] \<and> block_size (BlockDevices s' ! d) \<noteq> 0 \<and> block_count (BlockDevices s' ! d) \<noteq> 0 \<and>
      (\<exists>ops. operations (BlockDevices s' ! d) = Some ops \<and> operation_read ops \<noteq> None \<and>
         (read_only (BlockDevices s' ! d) \<longleftrightarrow> operation_write ops = None))) \<and>
    (\<forall>d n. 0 \<in> set n \<longrightarrow> (BlockFindByName (Some n) s' = Some d \<longleftrightarrow>
      d < length (BlockDevices s') \<and> registered (BlockDevices s' ! d) \<and> cstr (device_name (BlockDevices s' ! d)) = cstr n))"
proof -
  have ok: "registry_ok s'" using assms by (induction rule: rtranclp_induct) (auto intro: block_step_registry)
  then show ?thesis using BlockFindByName_iff [OF ok] by (auto simp: registry_ok_def device_ok_def)
qed

theorem registry_stays_complete_witness:
  "BlockFindByName (Some RAMDISK_DEVICE_NAME) (fst (BlockRead (Some 0) 1 1 (Some (replicate 512 0)) specimen_disk)) = Some 0"
proof -
  obtain s' buffer' ok where T: "BlockTransfer (Some 0) 1 1 (Some (replicate 512 0)) False specimen_disk = (s', buffer', ok)"
    by (metis prod.collapse)
  have steps: "block_step\<^sup>*\<^sup>* specimen_disk s'" using transfers [OF T] by blast
  have "same_devices specimen_disk s'" by (rule BlockTransfer_same [OF T])
  then have "length (BlockDevices s') = 1" "same_device (BlockDevices specimen_disk ! 0) (BlockDevices s' ! 0)"
    using same_devices_length [of specimen_disk s'] same_devices_at [of specimen_disk s' 0] by (simp_all add: specimen_disk_def)
  moreover have "BlockFindByName (Some RAMDISK_DEVICE_NAME) s' = Some 0 \<longleftrightarrow> 0 < length (BlockDevices s') \<and>
      registered (BlockDevices s' ! 0) \<and> cstr (device_name (BlockDevices s' ! 0)) = cstr RAMDISK_DEVICE_NAME"
    using registry_stays_complete [OF steps specimen_disk_registry] by (simp add: RAMDISK_DEVICE_NAME_def)
  ultimately show ?thesis using T by (simp add: BlockRead_def same_device_def specimen_disk_def cstr_def RAMDISK_DEVICE_NAME_def)
qed

subsection \<open>Transfers\<close>

text \<open>C28: A transfer of blocks reaches the driver exactly when the device is registered, may be
  written if it is a write, and the range lies within its blocks, however the sum of the first
  block and the count would wrap; the driver then sees that range unchanged, and its answer is
  the caller's.  Otherwise the transfer is refused: the world and the buffer are untouched, the
  refusal is counted, and the answer is no.
\<close>

theorem transfer_within_device:
  assumes "count \<noteq> 0" "d < length (BlockDevices s)"
  shows "(let (s', bytes', ok) = BlockTransfer (Some d) block count (Some bytes) writing s; v = BlockDevices s ! d
     in if registered v \<and> \<not> (writing \<and> read_only v) \<and> unat block + unat count \<le> unat (block_count v)
        then \<exists>after. bytes' = Some after \<and> driver_call v writing block count bytes (world s) = (world s', after, ok)
        else \<not> ok \<and> world s' = world s \<and> bytes' = Some bytes \<and> BlockRefusals s' = BlockRefusals s + 1)"
proof -
  obtain s' bytes' ok where run: "BlockTransfer (Some d) block count (Some bytes) writing s = (s', bytes', ok)" by (metis prod.collapse)
  have count: "0 < unat count" using assms(1) by (simp add: unat_gt_0)
  have refused: "BlockRefusals (BlockRefuse (Some d) s) = BlockRefusals s + 1"
    by (simp add: BlockRefuse_def set_device_def)
  from BlockTransfer_ways [OF run] show ?thesis
  proof (elim disjE exE conjE)
    assume A: "\<not> ok" "s' = BlockRefuse (Some d) s" "bytes' = Some bytes" "transfer_refused (Some d) block count (Some bytes) writing s"
    then have "\<not> transfer_admitted d block count writing s" by (simp add: transfer_refused_def)
    then show ?thesis using run A(1-3) count refused by (auto simp: transfer_admitted_def Let_def)
  next
    fix e bs after assume A: "Some d = Some e" "Some bytes = Some bs" "bytes' = Some after" "transfer_admitted e block count writing s"
      "driver_call (BlockDevices s ! e) writing block count bs (world s) = (world s', after, ok)"
    then show ?thesis using run by (auto simp: transfer_admitted_def Let_def)
  qed (use assms(1) in simp)
qed

theorem transfer_within_device_witness:
  "\<not> snd (snd (BlockTransfer (Some 0) 0xFFFFFFFFFFFFFFFF 2 (Some (replicate 1024 0)) True specimen_disk))"
proof -
  have "count \<noteq> 0 \<Longrightarrow> d < length (BlockDevices specimen_disk) \<Longrightarrow>
      (let (s', bytes', ok) = BlockTransfer (Some d) block count (Some bytes) True specimen_disk; v = BlockDevices specimen_disk ! d
       in unat (block_count v) < unat block + unat count \<longrightarrow> \<not> ok)" for count d block bytes
    using transfer_within_device [of count d specimen_disk block bytes True] by (auto simp: Let_def split: prod.splits if_splits)
  from this [of 2 0 "0xFFFFFFFFFFFFFFFF" "replicate 1024 0"] show ?thesis by (auto simp: specimen_disk_def Let_def split: prod.splits)
qed

subsection \<open>The ramdisk\<close>

text \<open>C29: On a ramdisk, blocks written and read back are the bytes written, and every other block of
  the disk reads as it did before.
\<close>

theorem ramdisk_write_then_read:
  assumes ok: "devices_ok_for RamdiskOperations ramdisk_extent ramdisk_sound s"
    and d: "d < length (BlockDevices s)" "registered (BlockDevices s ! d)" "block_size (BlockDevices s ! d) = 512"
      "\<not> read_only (BlockDevices s ! d)"
    and range: "unat block + unat count \<le> unat (block_count (BlockDevices s ! d))" "length bytes = unat count * 512"
    and buffer: "length buffer = unat count * 512"
    and run: "BlockWrite (Some d) block count (Some bytes) s = (s', good)"
  shows "good \<and> snd (BlockRead (Some d) block count (Some buffer) s') = (Some bytes, True) \<and>
    (\<forall>b. b < block_count (BlockDevices s ! d) \<longrightarrow> \<not> in_blocks block (unat count) b \<longrightarrow>
      content_of ramdisk_block s' d b = content_of ramdisk_block s d b)"
proof -
  obtain bytes' where T: "BlockTransfer (Some d) block count (Some bytes) True s = (s', bytes', good)"
    using run by (auto simp: BlockWrite_def split: prod.splits)
  note W = ramdisk.write_effect [OF ok d(1,3) T range(2)]
  have v: "driven (BlockDevices s ! d)" using d by (simp add: driven_def)
  have ops: "operations (BlockDevices s ! d) = Some RamdiskOperations" using ok d(1) v unfolding devices_ok_for_def by blast
  have good
    using BlockTransfer_ways [OF T] T d range(1) unat_gt_0 [of count] ops
    by (auto simp: transfer_refused_def transfer_admitted_def driver_call_def RamdiskOperations_def RamdiskWrite_def Let_def BlockTransfer_def [of _ _ 0])
  have same: "same_devices s s'" "devices_ok_for RamdiskOperations ramdisk_extent ramdisk_sound s'" using W by blast+
  have d': "d < length (BlockDevices s')" "registered (BlockDevices s' ! d)" "block_size (BlockDevices s' ! d) = 512"
    "unat block + unat count \<le> unat (block_count (BlockDevices s' ! d))" "operations (BlockDevices s' ! d) = Some RamdiskOperations"
    using d range(1) ops same_devices_length [OF same(1)] same_devices_at [OF same(1) d(1)] by (simp_all add: same_device_def)
  obtain s'' read fine where R: "BlockTransfer (Some d) block count (Some buffer) False s' = (s'', read, fine)" by (metis prod.collapse)
  note E = ramdisk.read_effect [OF same(2) d'(1,3) R buffer]
  have fine
    using BlockTransfer_ways [OF R] R d' unat_gt_0 [of count]
    by (auto simp: transfer_refused_def transfer_admitted_def driver_call_def RamdiskOperations_def RamdiskRead_def Let_def BlockTransfer_def [of _ _ 0])
  moreover have "on_device s d b" if "b < block_count (BlockDevices s ! d)" for b using d(1) v that by (simp add: on_device_def)
  ultimately show ?thesis using W E R \<open>good\<close> by (auto simp: BlockRead_def)
qed

theorem ramdisk_write_then_read_witness:
  "snd (BlockRead (Some 0) 2 1 (Some (replicate 512 0)) (fst (BlockWrite (Some 0) 2 1 (Some (replicate 512 7)) specimen_disk))) =
     (Some (replicate 512 7), True)"
proof -
  obtain s' good where run: "BlockWrite (Some 0) 2 1 (Some (replicate 512 7)) specimen_disk = (s', good)" by fastforce
  have "good \<and> snd (BlockRead (Some 0) 2 1 (Some (replicate 512 0)) s') = (Some (replicate 512 7), True) \<and>
    (\<forall>b. b < block_count (BlockDevices specimen_disk ! 0) \<longrightarrow> \<not> in_blocks 2 (unat (1 :: u32)) b \<longrightarrow>
      content_of ramdisk_block s' 0 b = content_of ramdisk_block specimen_disk 0 b)"
    by (rule ramdisk_write_then_read [OF specimen_disk_ok _ _ _ _ _ _ _ run]) (simp_all add: specimen_disk_def)
  then show ?thesis using run by simp
qed

end
