(* ===== verification/BufferProperties.thy ===== *)
theory BufferProperties
  imports BufferHistory BlockProperties
begin

text \<open>
  The properties of the buffer cache (\<open>kernel/block/buffer.c\<close>) above a driver that keeps its
  contract, applied to the cache just started above the small disk in memory.
\<close>

subsection \<open>A small cache\<close>

definition specimen_unstarted :: "ramdisk_state buffer_state" where
  "specimen_unstarted =
     \<lparr>BufferTable = replicate 64 \<lparr>buffer_device = None, buffer_block = 0, buffer_data = [], buffer_references = 0,
        buffer_valid = False, buffer_dirty = False\<rparr>,
      BufferEntries = replicate 64 \<lparr>hash_next = None, older = None, newer = None, linked = False, listed = False\<rparr>,
      BufferBuckets = replicate 128 None, BufferNewest = None, BufferOldest = None, BufferReady = False, BufferHitCount = 0,
      BufferMissCount = 0, BufferEvictionCount = 0, BufferWriteBackCount = 0, BufferFailureCount = 0,
      block_layer = specimen_disk, device_address = (\<lambda>_. 0xFFFFC00000001000)\<rparr>"

definition specimen_cache :: "ramdisk_state buffer_state" where
  "specimen_cache = fst (BufferInitialise (Some (replicate 32768 0)) specimen_unstarted)"

lemma specimen_unstarted: "unstarted specimen_unstarted" "block_layer specimen_unstarted = specimen_disk"
  by (simp_all add: specimen_unstarted_def unstarted_def shape_def)

abbreviation disk_cache_ok :: "ramdisk_state buffer_state \<Rightarrow> bool" where
  "disk_cache_ok \<equiv> cache_ok_for RamdiskOperations ramdisk_block ramdisk_extent ramdisk_sound"

lemma specimen_cache: "disk_cache_ok specimen_cache" "block_layer specimen_cache = specimen_disk" "BufferReady specimen_cache"
  "i < 64 \<Longrightarrow> buffer_references (BufferTable specimen_cache ! i) = 0 \<and> \<not> buffer_valid (BufferTable specimen_cache ! i)"
proof -
  obtain c' ok where run: "BufferInitialise (Some (replicate 32768 0)) specimen_unstarted = (c', ok)" by fastforce
  have len: "length (replicate 32768 0 :: u8 list) = 64 * 512" by simp
  have dev: "devices_ok_for RamdiskOperations ramdisk_extent ramdisk_sound (block_layer specimen_unstarted)"
    by (simp add: specimen_unstarted specimen_disk_ok)
  note I = BufferInitialise_effect [OF specimen_unstarted(1) len dev run]
  have c': "specimen_cache = c'" using run by (simp add: specimen_cache_def)
  show "disk_cache_ok specimen_cache" "block_layer specimen_cache = specimen_disk" "BufferReady specimen_cache"
    using I(2,3,5) by (simp_all add: c' specimen_unstarted)
  show "i < 64 \<Longrightarrow> buffer_references (BufferTable specimen_cache ! i) = 0 \<and> \<not> buffer_valid (BufferTable specimen_cache ! i)"
    using I(4) by (simp add: c')
qed

subsection \<open>The start\<close>

text \<open>
  Where the storage of the buffers can be allocated the start succeeds, holds nothing, leaves
  the devices alone, and the cache is then in order: every operation may follow.
\<close>

theorem started_cache_is_in_order:
  assumes "unstarted c" "length bytes = 64 * 512" "devices_ok_for ops extent sound (block_layer c)"
    and "BufferInitialise (Some bytes) c = (c', ok)"
  shows "ok \<and> cache_ok_for ops stored extent sound c' \<and> block_layer c' = block_layer c \<and>
    BufferCount c' = 64 \<and> BufferValidCount c' = 0 \<and> BufferDirtyCount c' = 0 \<and> BufferHeldCount c' = 0"
proof -
  note I = BufferInitialise_effect [OF assms]
  have "filter P [0..<64] = []" if "\<And>i. i < 64 \<Longrightarrow> \<not> P i" for P :: "nat \<Rightarrow> bool" using that by (auto simp: filter_empty_conv)
  then show ?thesis
    using I unfolding BufferCount_def BufferValidCount_def BufferDirtyCount_def BufferHeldCount_def BUFFER_CAPACITY_def by simp
qed

theorem started_cache_is_in_order_witness:
  "disk_cache_ok (fst (BufferInitialise (Some (replicate 32768 1)) specimen_unstarted)) \<and>
   BufferCount (fst (BufferInitialise (Some (replicate 32768 1)) specimen_unstarted)) = 64"
proof -
  obtain c' ok where run: "BufferInitialise (Some (replicate 32768 1)) specimen_unstarted = (c', ok)" by fastforce
  have "ok \<and> disk_cache_ok c' \<and> block_layer c' = block_layer specimen_unstarted \<and>
      BufferCount c' = 64 \<and> BufferValidCount c' = 0 \<and> BufferDirtyCount c' = 0 \<and> BufferHeldCount c' = 0"
    by (rule started_cache_is_in_order [OF specimen_unstarted(1) _ _ run]) (simp_all add: specimen_unstarted specimen_disk_ok)
  then show ?thesis using run by simp
qed

subsection \<open>Getting a block\<close>

text \<open>C30: A request for a block of a device always returns.  A buffer it yields holds that block,
  with the bytes last stored for it, its own or the device's; it is valid and in the table.
  Whether or not it yields one, every buffer held before stands where it was with its block and
  its bytes, and no block of any device reads otherwise than before, whatever was evicted or
  written back on the way.
\<close>

theorem get_returns_the_block:
  assumes "block_driver ops stored extent sound" "cache_ok_for ops stored extent sound c" "d < length (BlockDevices (block_layer c))"
  shows "\<exists>c' r. BufferGet (Some d) b c = Some (c', r) \<and> cache_ok_for ops stored extent sound c' \<and>
    cached_map stored c' = cached_map stored c \<and>
    (\<forall>i. r = Some i \<longrightarrow> i < 64 \<and> holds (BufferTable c' ! i) d b \<and> Some (buffer_data (BufferTable c' ! i)) = cached_map stored c (d, b)) \<and>
    (\<forall>j < 64. r \<noteq> Some j \<longrightarrow> buffer_references (BufferTable c ! j) \<noteq> 0 \<longrightarrow>
       same_buffer (BufferTable c ! j) (BufferTable c' ! j) \<and>
       buffer_references (BufferTable c' ! j) = buffer_references (BufferTable c ! j))"
proof -
  from block_driver.BufferGet_effect [OF assms, of b] obtain c' r where G: "BufferGet (Some d) b c = Some (c', r)"
    "cache_ok_for ops stored extent sound c'" "same_devices (block_layer c) (block_layer c')"
    "\<And>e k. on_device (block_layer c) e k \<Longrightarrow> cached_view stored c' e k = cached_view stored c e k"
    "case r of None \<Rightarrow> keeps stored c c' | Some i \<Rightarrow> block_driver.obtained stored c c' d b i" by blast
  note m = cached_map_same [OF G(3,4)]
  show ?thesis
  proof (cases r)
    case None
    then show ?thesis using G(1,2,5) m by (auto simp: keeps_def)
  next
    case (Some i)
    then show ?thesis using G(1,2,5) m by (auto simp: block_driver.obtained_def [OF assms(1)] cached_map_def)
  qed
qed

theorem get_returns_the_block_witness:
  "\<exists>c'. BufferGet (Some 0) 3 specimen_cache = Some c' \<and> disk_cache_ok (fst c')"
proof -
  have "0 < length (BlockDevices (block_layer specimen_cache))" by (simp add: specimen_cache specimen_disk_def)
  from get_returns_the_block [OF ramdisk.block_driver_axioms specimen_cache(1) this, of 3] show ?thesis by auto
qed

subsection \<open>Histories\<close>

datatype request = ReadBlock nat u64 | WriteBlock nat u64 "u8 list" | FlushBuffer nat | SyncAll | DropDevice nat
datatype answer = Bytes "u8 list option" | Done bool

definition serve :: "request \<Rightarrow> 'w buffer_state \<Rightarrow> ('w buffer_state \<times> answer) option" where
  "serve q c = (case q of
     ReadBlock d b \<Rightarrow> map_option (apsnd Bytes) (use_read d b c)
   | WriteBlock d b bytes \<Rightarrow> map_option (apsnd Done) (use_write d b (\<lambda>_. bytes) c)
   | FlushBuffer i \<Rightarrow> Some (apsnd Done (BufferFlush (Some i) c))
   | SyncAll \<Rightarrow> Some (apsnd Done (BufferSync c))
   | DropDevice d \<Rightarrow> map_option (apsnd Done) (BufferInvalidateDevice (Some d) c))"

fun serve_all :: "request list \<Rightarrow> 'w buffer_state \<Rightarrow> ('w buffer_state \<times> answer list) option" where
  "serve_all [] c = Some (c, [])"
| "serve_all (q # qs) c =
     (case serve q c of None \<Rightarrow> None | Some (c, a) \<Rightarrow> map_option (apsnd ((#) a)) (serve_all qs c))"

definition admissible :: "nat \<Rightarrow> request \<Rightarrow> bool" where
  "admissible n q = (case q of ReadBlock d b \<Rightarrow> d < n | WriteBlock d b bytes \<Rightarrow> d < n \<and> length bytes = 512 | _ \<Rightarrow> True)"

text \<open>A memory of blocks, what it becomes under a request, and whether an answer is its own.\<close>

definition remembers :: "(nat \<times> u64 \<rightharpoonup> u8 list) \<Rightarrow> request \<Rightarrow> answer \<Rightarrow> (nat \<times> u64 \<rightharpoonup> u8 list) option" where
  "remembers m q a = (case (q, a) of
     (ReadBlock d b, Bytes None) \<Rightarrow> Some m
   | (ReadBlock d b, Bytes (Some bytes)) \<Rightarrow> if m (d, b) = Some bytes then Some m else None
   | (WriteBlock d b bytes, Done good) \<Rightarrow> if \<not> good then Some m else if m (d, b) = None then None else Some (m((d, b) \<mapsto> bytes))
   | (_, Done _) \<Rightarrow> Some m
   | _ \<Rightarrow> None)"

fun remembers_all :: "(nat \<times> u64 \<rightharpoonup> u8 list) \<Rightarrow> request list \<Rightarrow> answer list \<Rightarrow> (nat \<times> u64 \<rightharpoonup> u8 list) option" where
  "remembers_all m [] [] = Some m"
| "remembers_all m (q # qs) (a # as) = (case remembers m q a of None \<Rightarrow> None | Some m \<Rightarrow> remembers_all m qs as)"
| "remembers_all m _ _ = None"

context block_driver
begin

lemma serve_effect:
  assumes ok: "cache_ok c" and q: "admissible (length (BlockDevices (block_layer c))) q"
  shows "\<exists>c' a. serve q c = Some (c', a) \<and> cache_ok c' \<and> length (BlockDevices (block_layer c')) = length (BlockDevices (block_layer c)) \<and>
    remembers (cached_map stored c) q a = Some (cached_map stored c')"
proof (cases q)
  case (ReadBlock d b)
  then show ?thesis using use_read_effect [OF ok, of d b] q same_devices_length
    by (fastforce simp: serve_def admissible_def remembers_def split: option.splits)
next
  case (WriteBlock d b bytes)
  then have q': "d < length (BlockDevices (block_layer c))" "length bytes = 512" using q by (simp_all add: admissible_def)
  from use_write_effect [OF ok q'(1), of "\<lambda>_. bytes" b] q'(2) obtain c' good where
    "use_write d b (\<lambda>_. bytes) c = Some (c', good)" "cache_ok c'" "same_devices (block_layer c) (block_layer c')"
    "if good then \<exists>old. cached_map stored c (d, b) = Some old \<and> cached_map stored c' = (cached_map stored c)((d, b) \<mapsto> bytes)
     else cached_map stored c' = cached_map stored c" by blast
  then show ?thesis using WriteBlock same_devices_length [of "block_layer c" "block_layer c'"]
    by (auto simp: serve_def remembers_def split: if_splits)
next
  case (FlushBuffer i)
  obtain c' g where F: "BufferFlush (Some i) c = (c', g)" by fastforce
  have S: "cache_ok c'" "keeps stored c c'"
    using F ok BufferWriteBack_effect(1,2) [OF ok, of i c' g] by (auto simp: BufferFlush_def BUFFER_CAPACITY_def split: if_splits)
  then have "length (BlockDevices (block_layer c')) = length (BlockDevices (block_layer c))"
    using same_devices_length unfolding keeps_def by blast
  then show ?thesis using FlushBuffer F S(1) cached_map_keeps [OF S(2)] by (simp add: serve_def remembers_def)
next
  case SyncAll
  obtain c' g where F: "BufferSync c = (c', g)" by fastforce
  note S = BufferSync_effect(1,2) [OF ok F]
  then have "length (BlockDevices (block_layer c')) = length (BlockDevices (block_layer c))"
    using same_devices_length unfolding keeps_def by blast
  then show ?thesis using SyncAll F S(1) cached_map_keeps [OF S(2)] by (simp add: serve_def remembers_def)
next
  case (DropDevice d)
  from BufferInvalidateDevice_effect [OF ok, of d] obtain c' g where F: "BufferInvalidateDevice (Some d) c = Some (c', g)"
    "cache_ok c'" "keeps stored c c'" by blast
  note S = this(2,3)
  then have "length (BlockDevices (block_layer c')) = length (BlockDevices (block_layer c))"
    using same_devices_length unfolding keeps_def by blast
  then show ?thesis using DropDevice F S(1) cached_map_keeps [OF S(2)] by (simp add: serve_def remembers_def)
qed

lemma serve_all_effect:
  assumes "cache_ok c" "\<forall>q \<in> set qs. admissible (length (BlockDevices (block_layer c))) q"
  shows "\<exists>c' as. serve_all qs c = Some (c', as) \<and> cache_ok c' \<and> remembers_all (cached_map stored c) qs as = Some (cached_map stored c')"
  using assms
proof (induction qs arbitrary: c)
  case (Cons q qs)
  from serve_effect [OF Cons.prems(1), of q] Cons.prems(2) obtain c1 a where 1: "serve q c = Some (c1, a)" "cache_ok c1"
    "length (BlockDevices (block_layer c1)) = length (BlockDevices (block_layer c))"
    "remembers (cached_map stored c) q a = Some (cached_map stored c1)" by auto
  from Cons.IH [OF 1(2)] Cons.prems(2) obtain c' as where "serve_all qs c1 = Some (c', as)" "cache_ok c'"
    "remembers_all (cached_map stored c1) qs as = Some (cached_map stored c')" by (auto simp: 1(3))
  then show ?case using 1 by auto
qed simp

end

text \<open>C31: The cache is the memory below it, to the code above: over any history of blocks read,
  blocks stored into, flushes, synchronisations and devices taken out, every request returns, a
  block read is the bytes last stored for that block or, before any, what its device held, and a
  request that fails changes nothing.  The invariant of the cache holds throughout.
\<close>

theorem cache_is_transparent:
  assumes "block_driver ops stored extent sound" "cache_ok_for ops stored extent sound c"
    and "\<forall>q \<in> set qs. admissible (length (BlockDevices (block_layer c))) q"
  shows "\<exists>c' as. serve_all qs c = Some (c', as) \<and> cache_ok_for ops stored extent sound c' \<and>
    remembers_all (cached_map stored c) qs as = Some (cached_map stored c')"
  using block_driver.serve_all_effect [OF assms] .

theorem cache_is_transparent_witness:
  "\<exists>c' as. serve_all [WriteBlock 0 1 (replicate 512 7), SyncAll, ReadBlock 0 1, DropDevice 0, ReadBlock 0 1] specimen_cache = Some (c', as) \<and>
     disk_cache_ok c'"
proof -
  have "\<forall>q \<in> set [WriteBlock 0 1 (replicate 512 7), SyncAll, ReadBlock 0 1, DropDevice 0, ReadBlock 0 1].
      admissible (length (BlockDevices (block_layer specimen_cache))) q"
    by (simp add: admissible_def specimen_cache(2) specimen_disk_def)
  from cache_is_transparent [OF ramdisk.block_driver_axioms specimen_cache(1) this] show ?thesis by blast
qed

subsection \<open>Durability\<close>

text \<open>C32: When a synchronisation reports success, what every device holds is what its blocks read as:
  nothing stored is left in the cache alone.  Whatever it reports, every block reads as before.
\<close>

theorem sync_is_durable:
  assumes "block_driver ops stored extent sound" "cache_ok_for ops stored extent sound c" "BufferSync c = (c', good)"
  shows "cached_map stored c' = cached_map stored c \<and>
    (good \<longrightarrow> (\<forall>d b. on_device (block_layer c) d b \<longrightarrow> cached_map stored c (d, b) = Some (content_of stored (block_layer c') d b)))"
proof -
  note S = block_driver.BufferSync_effect [OF assms]
  have m: "cached_map stored c' = cached_map stored c" by (rule cached_map_keeps [OF S(2)])
  moreover have "on_device (block_layer c') d b \<longleftrightarrow> on_device (block_layer c) d b" for d b
    using S(2) on_device_same unfolding keeps_def by blast
  ultimately show ?thesis using S(3) by (metis (mono_tags, lifting) cached_map_def case_prod_conv)
qed

theorem sync_is_durable_witness: "cached_map ramdisk_block (fst (BufferSync specimen_cache)) = cached_map ramdisk_block specimen_cache"
  using sync_is_durable [OF ramdisk.block_driver_axioms specimen_cache(1) prod.collapse [symmetric]] by blast

text \<open>
  Taking a device out of the cache always returns; where it reports success no buffer stands
  for the device any more and its medium holds what its blocks read as, and where a buffer of
  the device is held it refuses.
\<close>

theorem invalidation_empties_the_device:
  assumes "block_driver ops stored extent sound" "cache_ok_for ops stored extent sound c"
  shows "\<exists>c' good. BufferInvalidateDevice (Some d) c = Some (c', good) \<and> cached_map stored c' = cached_map stored c \<and>
    (good \<longrightarrow> (\<forall>i < 64. buffer_device (BufferTable c' ! i) \<noteq> Some d) \<and>
       (\<forall>b. on_device (block_layer c) d b \<longrightarrow> cached_map stored c (d, b) = Some (content_of stored (block_layer c') d b))) \<and>
    (\<forall>i < 64. buffer_device (BufferTable c ! i) = Some d \<longrightarrow> buffer_references (BufferTable c ! i) \<noteq> 0 \<longrightarrow> \<not> good \<and> c' = c)"
proof -
  from block_driver.BufferInvalidateDevice_effect [OF assms, of d] obtain c' good where
    run: "BufferInvalidateDevice (Some d) c = Some (c', good)" and I: "cache_ok_for ops stored extent sound c'" "keeps stored c c'"
      "good \<Longrightarrow> \<forall>i < 64. buffer_device (BufferTable c' ! i) \<noteq> Some d" by blast
  have m: "cached_map stored c' = cached_map stored c" by (rule cached_map_keeps [OF I(2)])
  have "cached_map stored c (d, b) = Some (content_of stored (block_layer c') d b)" if "on_device (block_layer c) d b" good for b
  proof -
    have on: "on_device (block_layer c') d b" using I(2) that on_device_same unfolding keeps_def by blast
    have "\<not> holds (BufferTable c' ! i) d b" if "i < 64" for i using I(3) that \<open>good\<close> by (auto simp: holds_def)
    then have "cached_view stored c' d b = content_of stored (block_layer c') d b" unfolding cached_view_def by (rule view_absent)
    then have "cached_map stored c' (d, b) = Some (content_of stored (block_layer c') d b)" using on by (simp add: cached_map_def)
    then show ?thesis using m by simp
  qed
  moreover have "\<not> good \<and> c' = c" if "i < 64" "buffer_device (BufferTable c ! i) = Some d" "buffer_references (BufferTable c ! i) \<noteq> 0" for i
    using run that by (auto simp: BufferInvalidateDevice_def list_ex_iff BUFFER_CAPACITY_def simp del: upt_rec_numeral split: if_splits)
  ultimately show ?thesis using run m I(3) by blast
qed

theorem invalidation_empties_the_device_witness:
  "\<exists>c' good. BufferInvalidateDevice (Some 0) specimen_cache = Some (c', good) \<and>
     cached_map ramdisk_block c' = cached_map ramdisk_block specimen_cache"
  using invalidation_empties_the_device [OF ramdisk.block_driver_axioms specimen_cache(1), of 0] by blast

end
