(* ===== verification/Ext2Core.thy ===== *)
theory Ext2Core
  imports BufferCache
begin

text \<open>
  The ground of the second extended filesystem (\<open>kernel/fs/ext2/core.c\<close>): refusals and their
  accounting, the stored byte order, and runs of bytes read and written through the buffer cache.
  An operation yields nothing where it never returns, else the state and its answer, \<open>None\<close> where
  the source returns false.  \<open>volume\<close> is the superblock structure the callers pass the address of.
\<close>

definition EXT2_SUPERBLOCK_OFFSET :: u32 where "EXT2_SUPERBLOCK_OFFSET = 1024"
definition EXT2_SUPERBLOCK_SIZE :: u32 where "EXT2_SUPERBLOCK_SIZE = 1024"
definition EXT2_BLOCK_POINTER_SIZE :: u32 where "EXT2_BLOCK_POINTER_SIZE = 4"

record Ext2Superblock =
  sb_inode_count :: u32
  sb_block_count :: u32
  sb_reserved_block_count :: u32
  sb_free_block_count :: u32
  sb_free_inode_count :: u32
  sb_first_data_block :: u32
  sb_block_size :: u32
  sb_fragment_size :: u32
  sb_blocks_per_group :: u32
  sb_fragments_per_group :: u32
  sb_inodes_per_group :: u32
  sb_mount_time :: u32
  sb_write_time :: u32
  sb_mount_count :: u16
  sb_maximum_mount_count :: u16
  sb_magic :: u16
  sb_state :: u16
  sb_errors :: u16
  sb_minor_revision :: u16
  sb_last_check :: u32
  sb_check_interval :: u32
  sb_creator_os :: u32
  sb_revision :: u32
  sb_default_uid :: u16
  sb_default_gid :: u16
  sb_first_inode :: u32
  sb_inode_size :: u16
  sb_block_group_number :: u16
  sb_feature_compatible :: u32
  sb_feature_incompatible :: u32
  sb_feature_read_only :: u32
  sb_uuid :: "u8 list"
  sb_volume_name :: "u8 list"
  sb_last_mounted :: "u8 list"
  sb_group_count :: u32
  sb_sectors_per_block :: u32
  sb_read_only :: bool

record 'w ext2_state =
  cache :: "'w buffer_state"
  volume :: "Ext2Superblock option"
  Ext2Error :: string
  Ext2Read :: u64
  Ext2Refused :: u64
  Ext2GroupsReadCount :: u64
  Ext2GroupsRefusedCount :: u64
  Ext2InodesReadCount :: u64
  Ext2InodesRefusedCount :: u64
  Ext2FilesReadCount :: u64
  Ext2BytesReadCount :: u64
  Ext2ReadsRefusedCount :: u64
  Ext2BlocksAllocatedCount :: u64
  Ext2BlocksFreedCount :: u64
  Ext2InodesAllocatedCount :: u64
  Ext2InodesFreedCount :: u64
  Ext2WritesRefusedCount :: u64

type_synonym ('w, 'r) ext2 = "'w ext2_state \<Rightarrow> ('w ext2_state \<times> 'r option) option"

text \<open>A call whose answer the rest needs, and the answer of the whole.\<close>

definition ext2_then :: "('w, 'a) ext2 \<Rightarrow> ('a \<Rightarrow> ('w, 'b) ext2) \<Rightarrow> ('w, 'b) ext2" where
  "ext2_then m f s = (case m s of None \<Rightarrow> None | Some (s, None) \<Rightarrow> Some (s, None) | Some (s, Some r) \<Rightarrow> f r s)"

definition ext2_done :: "'a \<Rightarrow> ('w, 'a) ext2" where
  "ext2_done r s = Some (s, Some r)"

abbreviation superblock :: "'w ext2_state \<Rightarrow> Ext2Superblock" where
  "superblock s \<equiv> the (volume s)"

subsection \<open>Refusals\<close>

definition Ext2Refuse :: "string \<Rightarrow> ('w, 'a) ext2" where
  "Ext2Refuse reason s = Some (s\<lparr>Ext2Error := reason, Ext2Refused := Ext2Refused s + 1\<rparr>, None)"

definition Ext2GroupRefuse :: "string \<Rightarrow> ('w, 'a) ext2" where
  "Ext2GroupRefuse reason s = Some (s\<lparr>Ext2Error := reason, Ext2GroupsRefusedCount := Ext2GroupsRefusedCount s + 1\<rparr>, None)"

definition Ext2InodeRefuse :: "string \<Rightarrow> ('w, 'a) ext2" where
  "Ext2InodeRefuse reason s = Some (s\<lparr>Ext2Error := reason, Ext2InodesRefusedCount := Ext2InodesRefusedCount s + 1\<rparr>, None)"

definition Ext2ReadRefuse :: "string \<Rightarrow> ('w, 'a) ext2" where
  "Ext2ReadRefuse reason s = Some (s\<lparr>Ext2Error := reason, Ext2ReadsRefusedCount := Ext2ReadsRefusedCount s + 1\<rparr>, None)"

definition Ext2WriteRefuse :: "string \<Rightarrow> ('w, 'a) ext2" where
  "Ext2WriteRefuse reason s = Some (s\<lparr>Ext2Error := reason, Ext2WritesRefusedCount := Ext2WritesRefusedCount s + 1\<rparr>, None)"

subsection \<open>The stored byte order\<close>

definition Ext2ReadHalf :: "u8 list \<Rightarrow> nat \<Rightarrow> u16" where
  "Ext2ReadHalf raw offset = ucast (raw ! offset) OR push_bit 8 (ucast (raw ! (offset + 1)))"

definition Ext2ReadWord :: "u8 list \<Rightarrow> nat \<Rightarrow> u32" where
  "Ext2ReadWord raw offset =
     ucast (raw ! offset) OR push_bit 8 (ucast (raw ! (offset + 1))) OR
     push_bit 16 (ucast (raw ! (offset + 2))) OR push_bit 24 (ucast (raw ! (offset + 3)))"

definition Ext2ReadText :: "u8 list \<Rightarrow> nat \<Rightarrow> nat \<Rightarrow> u8 list" where
  "Ext2ReadText raw offset remaining = takeWhile (\<lambda>c. c \<noteq> 0) (map (\<lambda>index. raw ! (offset + index)) [0..<remaining]) @ [0]"

definition Ext2WriteHalf :: "nat \<Rightarrow> u16 \<Rightarrow> u8 list \<Rightarrow> u8 list" where
  "Ext2WriteHalf offset value raw =
     raw[offset := ucast (value AND 0xFF), offset + 1 := ucast (drop_bit 8 value AND 0xFF)]"

definition Ext2WriteWord :: "nat \<Rightarrow> u32 \<Rightarrow> u8 list \<Rightarrow> u8 list" where
  "Ext2WriteWord offset value raw =
     raw[offset := ucast (value AND 0xFF), offset + 1 := ucast (drop_bit 8 value AND 0xFF),
         offset + 2 := ucast (drop_bit 16 value AND 0xFF), offset + 3 := ucast (drop_bit 24 value AND 0xFF)]"

definition Ext2DivideRoundingUp :: "u32 \<Rightarrow> u32 \<Rightarrow> u32" where
  "Ext2DivideRoundingUp quantity divisor = (quantity + (divisor - 1)) div divisor"

subsection \<open>Runs of bytes\<close>

partial_function (option) ReadBytesFrom :: "nat \<Rightarrow> u64 \<Rightarrow> u32 \<Rightarrow> u8 list \<Rightarrow> ('w, u8 list) ext2" where
  "ReadBytesFrom device position remaining destination s =
     (if remaining = 0 then Some (s, Some destination)
      else
        let size = block_size (BlockDevices (block_layer (cache s)) ! device);
            device_block = position div ucast size;
            within = ucast (position mod ucast size) :: u32;
            taken = (if remaining < size - within then remaining else size - within)
        in case BufferGet (Some device) device_block (cache s) of
             None \<Rightarrow> None
           | Some (c, None) \<Rightarrow> Ext2Refuse ''a block of the volume could not be read'' (s\<lparr>cache := c\<rparr>)
           | Some (c, Some buffer) \<Rightarrow>
               ReadBytesFrom device (position + ucast taken) (remaining - taken)
                 (destination @ map (\<lambda>index. buffer_data (BufferTable c ! buffer) ! (unat within + index)) [0..<unat taken])
                 (s\<lparr>cache := BufferRelease (Some buffer) c\<rparr>))"

definition Ext2ReadBytes :: "nat \<Rightarrow> u32 \<Rightarrow> u32 \<Rightarrow> u32 \<Rightarrow> ('w, u8 list) ext2" where
  "Ext2ReadBytes device block offset remaining s =
     (let sb = superblock s
      in if sb_block_count sb \<le> block then Ext2Refuse ''a read was attempted beyond the end of the volume'' s
         else if sb_block_size sb < offset \<or> sb_block_size sb - offset < remaining
         then Ext2Refuse ''a read was attempted beyond the end of a block'' s
         else ReadBytesFrom device (ucast block * ucast (sb_block_size sb) + ucast offset) remaining [] s)"

definition Ext2BlockExists :: "Ext2Superblock \<Rightarrow> u32 \<Rightarrow> bool" where
  "Ext2BlockExists sb block \<longleftrightarrow> sb_first_data_block sb \<le> block \<and> block < sb_block_count sb"

definition Ext2Writable :: "('w, unit) ext2" where
  "Ext2Writable s =
     (if sb_read_only (superblock s) then Ext2WriteRefuse ''the volume is read-only and may not be altered'' s
      else ext2_done () s)"

text \<open>The bytes put over a part of a buffer.\<close>

definition put_bytes :: "nat \<Rightarrow> nat \<Rightarrow> u8 list \<Rightarrow> u8 list \<Rightarrow> u8 list" where
  "put_bytes within put source data = fold (\<lambda>index bytes. bytes[within + index := source ! index]) [0..<put] data"

partial_function (option) WriteBytesFrom :: "nat \<Rightarrow> u64 \<Rightarrow> u32 \<Rightarrow> u8 list \<Rightarrow> ('w, unit) ext2" where
  "WriteBytesFrom device position remaining source s =
     (if remaining = 0 then Some (s, Some ())
      else
        let size = block_size (BlockDevices (block_layer (cache s)) ! device);
            device_block = position div ucast size;
            within = ucast (position mod ucast size) :: u32;
            put = (if remaining < size - within then remaining else size - within)
        in case BufferGet (Some device) device_block (cache s) of
             None \<Rightarrow> None
           | Some (c, None) \<Rightarrow> Ext2WriteRefuse ''a block of the volume could not be read to be written'' (s\<lparr>cache := c\<rparr>)
           | Some (c, Some buffer) \<Rightarrow>
               WriteBytesFrom device (position + ucast put) (remaining - put) (drop (unat put) source)
                 (s\<lparr>cache := BufferRelease (Some buffer) (BufferMarkDirty (Some buffer)
                    (set_buffer buffer (\<lambda>v. v\<lparr>buffer_data := put_bytes (unat within) (unat put) source (buffer_data v)\<rparr>) c))\<rparr>))"

definition Ext2WriteBytes :: "nat \<Rightarrow> u32 \<Rightarrow> u32 \<Rightarrow> u32 \<Rightarrow> u8 list \<Rightarrow> ('w, unit) ext2" where
  "Ext2WriteBytes device block offset remaining source s =
     (let sb = superblock s
      in if sb_block_count sb \<le> block then Ext2WriteRefuse ''a write was attempted beyond the end of the volume'' s
         else if sb_block_size sb < offset \<or> sb_block_size sb - offset < remaining
         then Ext2WriteRefuse ''a write was attempted beyond the end of a block'' s
         else WriteBytesFrom device (ucast block * ucast (sb_block_size sb) + ucast offset) remaining source s)"

definition Ext2FillZero :: "u32 \<Rightarrow> u8 list \<Rightarrow> u8 list" where
  "Ext2FillZero remaining destination = fold (\<lambda>index bytes. bytes[index := 0]) [0..<unat remaining] destination"

definition Ext2ZeroBlock :: "nat \<Rightarrow> u8 list \<Rightarrow> u32 \<Rightarrow> ('w, unit) ext2" where
  "Ext2ZeroBlock device stack block s =
     (let size = sb_block_size (superblock s)
      in Ext2WriteBytes device block 0 size (Ext2FillZero size stack) s)"

definition Ext2PointersPerBlock :: "Ext2Superblock \<Rightarrow> u32" where
  "Ext2PointersPerBlock sb = sb_block_size sb div EXT2_BLOCK_POINTER_SIZE"

definition Ext2SectorsPerBlock :: "Ext2Superblock \<Rightarrow> u32" where
  "Ext2SectorsPerBlock sb = sb_block_size sb div 512"

end
