(* ===== verification/Ext2Volume.thy ===== *)
theory Ext2Volume
  imports Ext2Core
begin

text \<open>
  The superblock and the block groups of a volume (\<open>kernel/fs/ext2/superblock.c\<close> and
  \<open>group.c\<close>): reading and checking them, and writing back the counts an allocation changes.
\<close>

definition EXT2_SUPER_MAGIC :: u16 where "EXT2_SUPER_MAGIC = 0xEF53"
definition EXT2_GOOD_OLD_REV :: u32 where "EXT2_GOOD_OLD_REV = 0"
definition EXT2_DYNAMIC_REV :: u32 where "EXT2_DYNAMIC_REV = 1"
definition EXT2_GOOD_OLD_INODE_SIZE :: u32 where "EXT2_GOOD_OLD_INODE_SIZE = 128"
definition EXT2_GOOD_OLD_FIRST_INODE :: u32 where "EXT2_GOOD_OLD_FIRST_INODE = 11"
definition EXT2_VALID_FS :: u16 where "EXT2_VALID_FS = 1"
definition EXT2_MAXIMUM_LOG_BLOCK_SIZE :: u32 where "EXT2_MAXIMUM_LOG_BLOCK_SIZE = 2"
definition EXT2_FEATURES_INCOMPAT_SUPPORTED :: u32 where "EXT2_FEATURES_INCOMPAT_SUPPORTED = 0x2"
definition EXT2_FEATURES_RO_COMPAT_SUPPORTED :: u32 where "EXT2_FEATURES_RO_COMPAT_SUPPORTED = 0x1 OR 0x2"
definition EXT2_GROUP_DESCRIPTOR_SIZE :: u32 where "EXT2_GROUP_DESCRIPTOR_SIZE = 32"

record Ext2GroupDescriptor =
  gd_group :: u32
  gd_block_bitmap :: u32
  gd_inode_bitmap :: u32
  gd_inode_table :: u32
  gd_free_block_count :: u16
  gd_free_inode_count :: u16
  gd_used_directory_count :: u16

subsection \<open>The superblock\<close>

text \<open>The bytes fill the caller's array from its start.\<close>

fun ReadSuperblockFrom :: "nat \<Rightarrow> nat list \<Rightarrow> u8 list \<Rightarrow> ('w, u8 list) ext2" where
  "ReadSuperblockFrom device [] raw s = Some (s, Some raw)"
| "ReadSuperblockFrom device (index # indices) raw s =
     (let size = block_size (BlockDevices (block_layer (cache s)) ! device);
          first = ucast (EXT2_SUPERBLOCK_OFFSET div size) :: u64
      in case BufferGet (Some device) (first + word_of_nat index) (cache s) of
           None \<Rightarrow> None
         | Some (c, None) \<Rightarrow> Some (s\<lparr>cache := c\<rparr>, None)
         | Some (c, Some buffer) \<Rightarrow>
             ReadSuperblockFrom device indices
               (raw @ map (\<lambda>position. buffer_data (BufferTable c ! buffer) ! position) [0..<unat size])
               (s\<lparr>cache := BufferRelease (Some buffer) c\<rparr>))"

definition Ext2ReadSuperblockBytes :: "nat \<Rightarrow> ('w, u8 list) ext2" where
  "Ext2ReadSuperblockBytes device s =
     (let size = block_size (BlockDevices (block_layer (cache s)) ! device)
      in ReadSuperblockFrom device [0..<unat (EXT2_SUPERBLOCK_SIZE div size)] [] s)"

text \<open>
  The superblock the bytes hold, or the reason it is refused.  \<open>device_size\<close> is the device's block and
  \<open>shifted\<close> what the processor makes of 1024 shifted by a number of places from the volume, which
  the language leaves undefined for 32 of them or more.
\<close>

definition ParsedSuperblock :: "(u32 \<Rightarrow> u32) \<Rightarrow> u32 \<Rightarrow> u8 list \<Rightarrow> Ext2Superblock" where
  "ParsedSuperblock shifted device_size raw =
     (let revision = Ext2ReadWord raw 76;
          old = (revision = EXT2_GOOD_OLD_REV);
          bytes = push_bit (unat (Ext2ReadWord raw 24)) 1024
      in \<lparr>sb_inode_count = Ext2ReadWord raw 0,
          sb_block_count = Ext2ReadWord raw 4,
          sb_reserved_block_count = Ext2ReadWord raw 8,
          sb_free_block_count = Ext2ReadWord raw 12,
          sb_free_inode_count = Ext2ReadWord raw 16,
          sb_first_data_block = Ext2ReadWord raw 20,
          sb_block_size = bytes,
          sb_fragment_size = shifted (Ext2ReadWord raw 28),
          sb_blocks_per_group = Ext2ReadWord raw 32,
          sb_fragments_per_group = Ext2ReadWord raw 36,
          sb_inodes_per_group = Ext2ReadWord raw 40,
          sb_mount_time = Ext2ReadWord raw 44,
          sb_write_time = Ext2ReadWord raw 48,
          sb_mount_count = Ext2ReadHalf raw 52,
          sb_maximum_mount_count = Ext2ReadHalf raw 54,
          sb_magic = Ext2ReadHalf raw 56,
          sb_state = Ext2ReadHalf raw 58,
          sb_errors = Ext2ReadHalf raw 60,
          sb_minor_revision = Ext2ReadHalf raw 62,
          sb_last_check = Ext2ReadWord raw 64,
          sb_check_interval = Ext2ReadWord raw 68,
          sb_creator_os = Ext2ReadWord raw 72,
          sb_revision = revision,
          sb_default_uid = Ext2ReadHalf raw 80,
          sb_default_gid = Ext2ReadHalf raw 82,
          sb_first_inode = (if old then EXT2_GOOD_OLD_FIRST_INODE else Ext2ReadWord raw 84),
          sb_inode_size = (if old then ucast EXT2_GOOD_OLD_INODE_SIZE else Ext2ReadHalf raw 88),
          sb_block_group_number = (if old then 0 else Ext2ReadHalf raw 90),
          sb_feature_compatible = (if old then 0 else Ext2ReadWord raw 92),
          sb_feature_incompatible = (if old then 0 else Ext2ReadWord raw 96),
          sb_feature_read_only = (if old then 0 else Ext2ReadWord raw 100),
          sb_uuid = (if old then replicate 16 0 else map (\<lambda>index. raw ! (104 + index)) [0..<16]),
          sb_volume_name = (if old then [0] else Ext2ReadText raw 120 16),
          sb_last_mounted = (if old then [0] else Ext2ReadText raw 136 64),
          sb_group_count = Ext2DivideRoundingUp (Ext2ReadWord raw 4 - Ext2ReadWord raw 20) (Ext2ReadWord raw 32),
          sb_sectors_per_block = bytes div device_size,
          sb_read_only = ((if old then 0 else Ext2ReadWord raw 100) AND NOT EXT2_FEATURES_RO_COMPAT_SUPPORTED \<noteq> 0 \<or>
             Ext2ReadHalf raw 58 \<noteq> EXT2_VALID_FS)\<rparr>)"

definition CheckedSuperblock :: "(u32 \<Rightarrow> u32) \<Rightarrow> u32 \<Rightarrow> u8 list \<Rightarrow> string + Ext2Superblock" where
  "CheckedSuperblock shifted device_size raw =
     (let v = ParsedSuperblock shifted device_size raw
      in if sb_magic v \<noteq> EXT2_SUPER_MAGIC then Inl ''the volume bears no EXT2 magic number''
         else if EXT2_DYNAMIC_REV < sb_revision v then Inl ''the volume is of a revision this kernel does not know''
         else if EXT2_MAXIMUM_LOG_BLOCK_SIZE < Ext2ReadWord raw 24 then Inl ''the volume's block size is beyond this kernel''
         else if sb_block_size v < device_size then Inl ''the volume's blocks are smaller than the device's''
         else if sb_first_data_block v \<noteq> (if sb_block_size v = 1024 then 1 else 0)
         then Inl ''the first data block contradicts the block size''
         else if sb_block_count v = 0 \<or> sb_inode_count v = 0 \<or> sb_blocks_per_group v = 0 \<or> sb_inodes_per_group v = 0
         then Inl ''the volume's geometry is degenerate''
         else if sb_block_count v \<le> sb_first_data_block v then Inl ''the first data block lies beyond the volume''
         else if sb_block_size v * 8 < sb_blocks_per_group v then Inl ''a group holds more blocks than its bitmap can record''
         else if sb_block_size v * 8 < sb_inodes_per_group v then Inl ''a group holds more inodes than its bitmap can record''
         else if sb_block_count v < sb_free_block_count v \<or> sb_inode_count v < sb_free_inode_count v
         then Inl ''the volume reports more free than it holds''
         else if ucast (sb_inode_size v) < EXT2_GOOD_OLD_INODE_SIZE \<or> sb_block_size v < ucast (sb_inode_size v) \<or>
            sb_inode_size v AND (sb_inode_size v - 1) \<noteq> 0
         then Inl ''the inode size is not a power of two within a block''
         else if sb_first_inode v < EXT2_GOOD_OLD_FIRST_INODE \<or> sb_inode_count v < sb_first_inode v
         then Inl ''the first usable inode is outside the volume''
         else if Ext2DivideRoundingUp (sb_block_count v - sb_first_data_block v) (sb_blocks_per_group v) \<noteq>
            Ext2DivideRoundingUp (sb_inode_count v) (sb_inodes_per_group v)
         then Inl ''the block count and the inode count imply different group counts''
         else if sb_feature_incompatible v AND NOT EXT2_FEATURES_INCOMPAT_SUPPORTED \<noteq> 0
         then Inl ''the volume requires a feature this kernel does not implement''
         else Inr v)"

definition Ext2ReadSuperblock :: "(u32 \<Rightarrow> u32) \<Rightarrow> nat option \<Rightarrow> bool \<Rightarrow> ('w, unit) ext2" where
  "Ext2ReadSuperblock shifted device told s =
     (case device of
        None \<Rightarrow> Ext2Refuse ''no device or nowhere to put the superblock'' s
      | Some d \<Rightarrow>
          let v = BlockDevices (block_layer (cache s)) ! d; device_size = block_size v
          in if \<not> told then Ext2Refuse ''no device or nowhere to put the superblock'' s
             else if device_size = 0 \<or> EXT2_SUPERBLOCK_OFFSET mod device_size \<noteq> 0 \<or> EXT2_SUPERBLOCK_SIZE mod device_size \<noteq> 0
             then Ext2Refuse ''the device's blocks do not divide the superblock'' s
             else if block_count v < ucast ((EXT2_SUPERBLOCK_OFFSET + EXT2_SUPERBLOCK_SIZE) div device_size)
             then Ext2Refuse ''the device is too short to hold a superblock'' s
             else
               case Ext2ReadSuperblockBytes d s of
                  None \<Rightarrow> None
                | Some (s, None) \<Rightarrow> Ext2Refuse ''the superblock could not be read from the device'' s
                | Some (s, Some raw) \<Rightarrow>
                    (case CheckedSuperblock shifted device_size raw of
                       Inl reason \<Rightarrow> Ext2Refuse reason s
                     | Inr sb \<Rightarrow> Some (s\<lparr>volume := Some sb, Ext2Read := Ext2Read s + 1\<rparr>, Some ())))"

definition Ext2WriteSuperblock :: "nat option \<Rightarrow> ('w, unit) ext2" where
  "Ext2WriteSuperblock device s =
     (case (device, volume s) of
        (Some d, Some sb) \<Rightarrow>
          ext2_then Ext2Writable (\<lambda>_.
          ext2_then (Ext2ReadSuperblockBytes d) (\<lambda>raw.
            let raw = Ext2WriteWord 12 (sb_free_block_count sb) raw;
                raw = Ext2WriteWord 16 (sb_free_inode_count sb) raw;
                raw = Ext2WriteHalf 58 (sb_state sb) raw;
                raw = Ext2WriteWord 48 (sb_write_time sb) raw;
                raw = Ext2WriteHalf 52 (sb_mount_count sb) raw
            in Ext2WriteBytes d (EXT2_SUPERBLOCK_OFFSET div sb_block_size sb) (EXT2_SUPERBLOCK_OFFSET mod sb_block_size sb)
                 EXT2_SUPERBLOCK_SIZE raw)) s
      | _ \<Rightarrow> Ext2WriteRefuse ''no device or no volume to write'' s)"

subsection \<open>The groups\<close>

definition Ext2GroupDescriptorBlock :: "Ext2Superblock \<Rightarrow> u32" where
  "Ext2GroupDescriptorBlock sb = sb_first_data_block sb + 1"

definition Ext2GroupDescriptorBlocks :: "Ext2Superblock \<Rightarrow> u32" where
  "Ext2GroupDescriptorBlocks sb =
     (let per_block = sb_block_size sb div EXT2_GROUP_DESCRIPTOR_SIZE in Ext2DivideRoundingUp (sb_group_count sb) per_block)"

definition Ext2InodeTableBlocks :: "Ext2Superblock \<Rightarrow> u32" where
  "Ext2InodeTableBlocks sb =
     (let per_block = sb_block_size sb div ucast (sb_inode_size sb) in Ext2DivideRoundingUp (sb_inodes_per_group sb) per_block)"

definition Ext2GroupFirstBlock :: "Ext2Superblock \<Rightarrow> u32 \<Rightarrow> u32" where
  "Ext2GroupFirstBlock sb g = sb_first_data_block sb + g * sb_blocks_per_group sb"

definition Ext2GroupBlockCount :: "Ext2Superblock \<Rightarrow> u32 \<Rightarrow> u32" where
  "Ext2GroupBlockCount sb g =
     (let first = Ext2GroupFirstBlock sb g; remaining = sb_block_count sb - first
      in if remaining < sb_blocks_per_group sb then remaining else sb_blocks_per_group sb)"

definition ParsedDescriptor :: "u32 \<Rightarrow> u8 list \<Rightarrow> Ext2GroupDescriptor" where
  "ParsedDescriptor g raw =
     \<lparr>gd_group = g, gd_block_bitmap = Ext2ReadWord raw 0, gd_inode_bitmap = Ext2ReadWord raw 4,
      gd_inode_table = Ext2ReadWord raw 8, gd_free_block_count = Ext2ReadHalf raw 12,
      gd_free_inode_count = Ext2ReadHalf raw 14, gd_used_directory_count = Ext2ReadHalf raw 16\<rparr>"

definition CheckedDescriptor :: "Ext2GroupDescriptor \<Rightarrow> ('w, Ext2GroupDescriptor) ext2" where
  "CheckedDescriptor v s =
     (let sb = superblock s
      in if \<not> Ext2BlockExists sb (gd_block_bitmap v) \<or> \<not> Ext2BlockExists sb (gd_inode_bitmap v) \<or>
            \<not> Ext2BlockExists sb (gd_inode_table v)
         then Ext2GroupRefuse ''a structure of the group lies outside the volume'' s
         else if gd_block_bitmap v = gd_inode_bitmap v \<or> gd_block_bitmap v = gd_inode_table v \<or> gd_inode_bitmap v = gd_inode_table v
         then Ext2GroupRefuse ''two structures of the group begin upon the same block'' s
         else if sb_block_count sb - gd_inode_table v < Ext2InodeTableBlocks sb
         then Ext2GroupRefuse ''the inode table runs past the end of the volume'' s
         else if Ext2GroupBlockCount sb (gd_group v) < ucast (gd_free_block_count v) \<or> sb_inodes_per_group sb < ucast (gd_free_inode_count v)
         then Ext2GroupRefuse ''the group reports more free than it holds'' s
         else if sb_inodes_per_group sb - ucast (gd_free_inode_count v) < ucast (gd_used_directory_count v)
         then Ext2GroupRefuse ''the group holds more directories than used inodes'' s
         else Some (s\<lparr>Ext2GroupsReadCount := Ext2GroupsReadCount s + 1\<rparr>, Some v))"

definition Ext2ReadGroupDescriptor :: "nat option \<Rightarrow> u32 \<Rightarrow> bool \<Rightarrow> ('w, Ext2GroupDescriptor) ext2" where
  "Ext2ReadGroupDescriptor device g told s =
     (case (device, volume s, told) of
        (Some d, Some sb, True) \<Rightarrow>
          let table = Ext2GroupDescriptorBlock sb; position = g * EXT2_GROUP_DESCRIPTOR_SIZE
          in if sb_group_count sb \<le> g then Ext2GroupRefuse ''the volume holds no such group'' s
             else if sb_block_count sb < table + Ext2GroupDescriptorBlocks sb
             then Ext2GroupRefuse ''the descriptor table does not fit within the volume'' s
             else ext2_then (Ext2ReadBytes d (table + position div sb_block_size sb) (position mod sb_block_size sb) EXT2_GROUP_DESCRIPTOR_SIZE)
                    (\<lambda>raw. CheckedDescriptor (ParsedDescriptor g raw)) s
      | _ \<Rightarrow> Ext2GroupRefuse ''no device, no volume, or nowhere to put the descriptor'' s)"

text \<open>The sums of the groups' counts, over the groups in their order.\<close>

fun SumGroups :: "nat \<Rightarrow> nat list \<Rightarrow> u64 \<Rightarrow> u64 \<Rightarrow> ('w, u64 \<times> u64) ext2" where
  "SumGroups device [] free_blocks free_inodes s = Some (s, Some (free_blocks, free_inodes))"
| "SumGroups device (g # groups) free_blocks free_inodes s =
     ext2_then (Ext2ReadGroupDescriptor (Some device) (word_of_nat g) True)
       (\<lambda>v. SumGroups device groups (free_blocks + ucast (gd_free_block_count v)) (free_inodes + ucast (gd_free_inode_count v))) s"

definition Ext2VerifyGroupDescriptors :: "nat option \<Rightarrow> ('w, unit) ext2" where
  "Ext2VerifyGroupDescriptors device s =
     (case (device, volume s) of
        (Some d, Some sb) \<Rightarrow>
          ext2_then (SumGroups d [0..<unat (sb_group_count sb)] 0 0)
            (\<lambda>(free_blocks, free_inodes).
              if sb_state sb = EXT2_VALID_FS \<and>
                 (free_blocks \<noteq> ucast (sb_free_block_count sb) \<or> free_inodes \<noteq> ucast (sb_free_inode_count sb))
              then Ext2GroupRefuse ''the groups do not account for the volume's free space''
              else ext2_done ()) s
      | _ \<Rightarrow> Ext2GroupRefuse ''no device or no volume'' s)"

definition Ext2WriteGroupDescriptor :: "nat option \<Rightarrow> Ext2GroupDescriptor option \<Rightarrow> ('w, unit) ext2" where
  "Ext2WriteGroupDescriptor device descriptor s =
     (case (device, volume s, descriptor) of
        (Some d, Some sb, Some v) \<Rightarrow>
          ext2_then Ext2Writable (\<lambda>_.
            if sb_group_count sb \<le> gd_group v then Ext2WriteRefuse ''the volume holds no group of that number''
            else
              let position = gd_group v * EXT2_GROUP_DESCRIPTOR_SIZE;
                  block = Ext2GroupDescriptorBlock sb + position div sb_block_size sb;
                  offset = position mod sb_block_size sb
              in ext2_then (Ext2ReadBytes d block offset EXT2_GROUP_DESCRIPTOR_SIZE) (\<lambda>raw.
                   let raw = Ext2WriteWord 0 (gd_block_bitmap v) raw;
                       raw = Ext2WriteWord 4 (gd_inode_bitmap v) raw;
                       raw = Ext2WriteWord 8 (gd_inode_table v) raw;
                       raw = Ext2WriteHalf 12 (gd_free_block_count v) raw;
                       raw = Ext2WriteHalf 14 (gd_free_inode_count v) raw;
                       raw = Ext2WriteHalf 16 (gd_used_directory_count v) raw
                   in Ext2WriteBytes d block offset EXT2_GROUP_DESCRIPTOR_SIZE raw)) s
      | _ \<Rightarrow> Ext2WriteRefuse ''no device, no volume, or no descriptor to write'' s)"

end
