(* ===== verification/Ext2Alloc.thy ===== *)
theory Ext2Alloc
  imports Ext2Volume
begin

text \<open>
  Allocation from the two bitmaps of a volume (\<open>kernel/fs/ext2/alloc.c\<close>).  A loop over groups
  or bits is a recursion over the list of those still to be tried.
\<close>

definition EXT2_BITS_PER_BYTE :: u32 where "EXT2_BITS_PER_BYTE = 8"

subsection \<open>The bitmaps\<close>

definition Ext2BitmapTest :: "nat \<Rightarrow> u32 \<Rightarrow> u32 \<Rightarrow> ('w, bool) ext2" where
  "Ext2BitmapTest device bitmap index =
     ext2_then (Ext2ReadBytes device bitmap (index div EXT2_BITS_PER_BYTE) 1)
       (\<lambda>byte. ext2_done (byte ! 0 AND push_bit (unat (index mod EXT2_BITS_PER_BYTE)) 1 \<noteq> 0))"

definition Ext2BitmapSet :: "nat \<Rightarrow> u32 \<Rightarrow> u32 \<Rightarrow> bool \<Rightarrow> string \<Rightarrow> ('w, unit) ext2" where
  "Ext2BitmapSet device bitmap index used what =
     (let mask = push_bit (unat (index mod EXT2_BITS_PER_BYTE)) 1 :: u8;
          offset = index div EXT2_BITS_PER_BYTE
      in ext2_then (Ext2ReadBytes device bitmap offset 1) (\<lambda>byte.
           let byte = byte ! 0
           in if (byte AND mask \<noteq> 0) = used then Ext2WriteRefuse what
              else
                let byte = (if used then byte OR mask else byte AND NOT mask)
                in Ext2WriteBytes device bitmap offset 1 [byte]))"

definition Ext2BlockPosition :: "u32 \<Rightarrow> ('w, u32 \<times> u32) ext2" where
  "Ext2BlockPosition block s =
     (let sb = superblock s
      in if \<not> Ext2BlockExists sb block then Ext2WriteRefuse ''the block lies outside the volume'' s
         else ext2_done ((block - sb_first_data_block sb) div sb_blocks_per_group sb,
                (block - sb_first_data_block sb) mod sb_blocks_per_group sb) s)"

definition Ext2BlockInUse :: "nat option \<Rightarrow> u32 \<Rightarrow> bool \<Rightarrow> ('w, bool) ext2" where
  "Ext2BlockInUse device block told s =
     (case (device, volume s, told) of
        (Some d, Some sb, True) \<Rightarrow>
          ext2_then (Ext2BlockPosition block) (\<lambda>(g, index).
          ext2_then (Ext2ReadGroupDescriptor device g True) (\<lambda>v.
            Ext2BitmapTest d (gd_block_bitmap v) index)) s
      | _ \<Rightarrow> Ext2WriteRefuse ''no device, no volume, or nowhere to put the answer'' s)"

definition Ext2InodeInUse :: "nat option \<Rightarrow> u32 \<Rightarrow> bool \<Rightarrow> ('w, bool) ext2" where
  "Ext2InodeInUse device number told s =
     (case (device, volume s, told) of
        (Some d, Some sb, True) \<Rightarrow>
          if number = 0 \<or> sb_inode_count sb < number then Ext2WriteRefuse ''the volume holds no inode of that number'' s
          else
            let g = (number - 1) div sb_inodes_per_group sb; index = (number - 1) mod sb_inodes_per_group sb
            in ext2_then (Ext2ReadGroupDescriptor device g True) (\<lambda>v. Ext2BitmapTest d (gd_inode_bitmap v) index) s
      | _ \<Rightarrow> Ext2WriteRefuse ''no device, no volume, or nowhere to put the answer'' s)"

fun FindFreeFrom :: "nat \<Rightarrow> u32 \<Rightarrow> nat list \<Rightarrow> ('w, u32 option) ext2" where
  "FindFreeFrom device bitmap [] = ext2_done None"
| "FindFreeFrom device bitmap (position # positions) =
     ext2_then (Ext2BitmapTest device bitmap (word_of_nat position))
       (\<lambda>used. if \<not> used then ext2_done (Some (word_of_nat position)) else FindFreeFrom device bitmap positions)"

definition Ext2BitmapFindFree :: "nat \<Rightarrow> u32 \<Rightarrow> u32 \<Rightarrow> ('w, u32 option) ext2" where
  "Ext2BitmapFindFree device bitmap count = FindFreeFrom device bitmap [0..<unat count]"

subsection \<open>Blocks\<close>

text \<open>The accounting after the bitmap: the descriptor, then the superblock, each written back.\<close>

definition WriteAccounts :: "nat \<Rightarrow> Ext2GroupDescriptor \<Rightarrow> (Ext2Superblock \<Rightarrow> Ext2Superblock) \<Rightarrow> ('w, unit) ext2" where
  "WriteAccounts device v change s =
     ext2_then (Ext2WriteGroupDescriptor (Some device) (Some v)) (\<lambda>_. Ext2WriteSuperblock (Some device))
       (s\<lparr>volume := Some (change (superblock s))\<rparr>)"

definition TakeBlock :: "nat \<Rightarrow> u32 \<Rightarrow> Ext2GroupDescriptor \<Rightarrow> u32 \<Rightarrow> ('w, u32) ext2" where
  "TakeBlock device g v index =
     ext2_then (Ext2BitmapSet device (gd_block_bitmap v) index True ''a block already in use was allocated'') (\<lambda>_.
     ext2_then (WriteAccounts device (v\<lparr>gd_free_block_count := gd_free_block_count v - 1\<rparr>)
                 (\<lambda>sb. sb\<lparr>sb_free_block_count := sb_free_block_count sb - 1\<rparr>)) (\<lambda>_ s.
       Some (s\<lparr>Ext2BlocksAllocatedCount := Ext2BlocksAllocatedCount s + 1\<rparr>,
         Some (Ext2GroupFirstBlock (superblock s) g + index))))"

fun AllocateBlockFrom :: "nat \<Rightarrow> u32 \<Rightarrow> nat list \<Rightarrow> ('w, u32) ext2" where
  "AllocateBlockFrom device first_group [] s = Ext2WriteRefuse ''no group of the volume holds a free block'' s"
| "AllocateBlockFrom device first_group (attempt # attempts) s =
     (let g = (first_group + word_of_nat attempt) mod sb_group_count (superblock s)
      in ext2_then (Ext2ReadGroupDescriptor (Some device) g True) (\<lambda>v.
           if gd_free_block_count v = 0 then AllocateBlockFrom device first_group attempts
           else ext2_then (Ext2BitmapFindFree device (gd_block_bitmap v) (Ext2GroupBlockCount (superblock s) g)) (\<lambda>found.
             case found of
               None \<Rightarrow> Ext2WriteRefuse ''a group's free count disagrees with its block bitmap''
             | Some index \<Rightarrow> TakeBlock device g v index)) s)"

definition Ext2AllocateBlock :: "nat option \<Rightarrow> u32 \<Rightarrow> bool \<Rightarrow> ('w, u32) ext2" where
  "Ext2AllocateBlock device near told s =
     (case (device, volume s, told) of
        (Some d, Some sb, True) \<Rightarrow>
          ext2_then Ext2Writable (\<lambda>_.
            if sb_free_block_count sb = 0 then Ext2WriteRefuse ''the volume holds no free block''
            else ext2_then (if near \<noteq> 0 \<and> Ext2BlockExists sb near then Ext2BlockPosition near else ext2_done (0, 0))
              (\<lambda>(first_group, index). AllocateBlockFrom d first_group [0..<unat (sb_group_count sb)])) s
      | _ \<Rightarrow> Ext2WriteRefuse ''no device, no volume, or nowhere to put the block'' s)"

definition Ext2FreeBlock :: "nat option \<Rightarrow> u32 \<Rightarrow> ('w, unit) ext2" where
  "Ext2FreeBlock device block s =
     (case (device, volume s) of
        (Some d, Some sb) \<Rightarrow>
          ext2_then Ext2Writable (\<lambda>_.
          ext2_then (Ext2BlockPosition block) (\<lambda>(g, index).
          ext2_then (Ext2ReadGroupDescriptor device g True) (\<lambda>v.
          ext2_then (Ext2BitmapSet d (gd_block_bitmap v) index False ''a block that was already free was freed'') (\<lambda>_.
          ext2_then (WriteAccounts d (v\<lparr>gd_free_block_count := gd_free_block_count v + 1\<rparr>)
                      (\<lambda>sb. sb\<lparr>sb_free_block_count := sb_free_block_count sb + 1\<rparr>)) (\<lambda>_ s.
            Some (s\<lparr>Ext2BlocksFreedCount := Ext2BlocksFreedCount s + 1\<rparr>, Some ())))))) s
      | _ \<Rightarrow> Ext2WriteRefuse ''no device or no volume'' s)"

subsection \<open>Inodes\<close>

definition TakeInode :: "nat \<Rightarrow> u32 \<Rightarrow> bool \<Rightarrow> Ext2GroupDescriptor \<Rightarrow> u32 \<Rightarrow> ('w, u32) ext2" where
  "TakeInode device candidate directory v index =
     ext2_then (Ext2BitmapSet device (gd_inode_bitmap v) index True ''an inode already in use was allocated'') (\<lambda>_.
       let v = v\<lparr>gd_free_inode_count := gd_free_inode_count v - 1\<rparr>;
           v = (if directory then v\<lparr>gd_used_directory_count := gd_used_directory_count v + 1\<rparr> else v)
       in ext2_then (WriteAccounts device v (\<lambda>sb. sb\<lparr>sb_free_inode_count := sb_free_inode_count sb - 1\<rparr>)) (\<lambda>_ s.
            Some (s\<lparr>Ext2InodesAllocatedCount := Ext2InodesAllocatedCount s + 1\<rparr>, Some candidate)))"

fun AllocateInodeFrom :: "nat \<Rightarrow> bool \<Rightarrow> nat list \<Rightarrow> ('w, u32) ext2" where
  "AllocateInodeFrom device directory [] s = Ext2WriteRefuse ''no group of the volume holds a free inode'' s"
| "AllocateInodeFrom device directory (g # gs) s =
     (let sb = superblock s
      in ext2_then (Ext2ReadGroupDescriptor (Some device) (word_of_nat g) True) (\<lambda>v.
           if gd_free_inode_count v = 0 then AllocateInodeFrom device directory gs
           else ext2_then (Ext2BitmapFindFree device (gd_inode_bitmap v) (sb_inodes_per_group sb)) (\<lambda>found.
             case found of
               None \<Rightarrow> Ext2WriteRefuse ''a group's free count disagrees with its inode bitmap''
             | Some index \<Rightarrow>
                 let candidate = word_of_nat g * sb_inodes_per_group sb + index + 1
                 in if candidate < sb_first_inode sb then AllocateInodeFrom device directory gs
                    else TakeInode device candidate directory v index)) s)"

definition Ext2AllocateInode :: "nat option \<Rightarrow> bool \<Rightarrow> bool \<Rightarrow> ('w, u32) ext2" where
  "Ext2AllocateInode device directory told s =
     (case (device, volume s, told) of
        (Some d, Some sb, True) \<Rightarrow>
          ext2_then Ext2Writable (\<lambda>_.
            if sb_free_inode_count sb = 0 then Ext2WriteRefuse ''the volume holds no free inode''
            else AllocateInodeFrom d directory [0..<unat (sb_group_count sb)]) s
      | _ \<Rightarrow> Ext2WriteRefuse ''no device, no volume, or nowhere to put the inode'' s)"

definition Ext2FreeInode :: "nat option \<Rightarrow> u32 \<Rightarrow> bool \<Rightarrow> ('w, unit) ext2" where
  "Ext2FreeInode device number directory s =
     (case (device, volume s) of
        (Some d, Some sb) \<Rightarrow>
          ext2_then Ext2Writable (\<lambda>_.
            if number = 0 \<or> sb_inode_count sb < number then Ext2WriteRefuse ''the volume holds no inode of that number''
            else if number < sb_first_inode sb then Ext2WriteRefuse ''an inode belonging to the filesystem was freed''
            else
              let g = (number - 1) div sb_inodes_per_group sb; index = (number - 1) mod sb_inodes_per_group sb
              in ext2_then (Ext2ReadGroupDescriptor device g True) (\<lambda>v.
                 ext2_then (Ext2BitmapSet d (gd_inode_bitmap v) index False ''an inode that was already free was freed'') (\<lambda>_.
                   let v = v\<lparr>gd_free_inode_count := gd_free_inode_count v + 1\<rparr>;
                       v = (if directory \<and> 0 < gd_used_directory_count v
                            then v\<lparr>gd_used_directory_count := gd_used_directory_count v - 1\<rparr> else v)
                   in ext2_then (WriteAccounts d v (\<lambda>sb. sb\<lparr>sb_free_inode_count := sb_free_inode_count sb + 1\<rparr>)) (\<lambda>_ s.
                        Some (s\<lparr>Ext2InodesFreedCount := Ext2InodesFreedCount s + 1\<rparr>, Some ()))))) s
      | _ \<Rightarrow> Ext2WriteRefuse ''no device or no volume'' s)"

end
