(* ===== verification/Ext2Geometry.thy ===== *)
theory Ext2Geometry
  imports Ext2Volume
begin

text \<open>
  The geometry of an accepted volume: what \<open>Ext2ReadSuperblock\<close> establishes of the structure it
  fills, and the correspondence of a volume's blocks and inodes with places in its groups.
\<close>

definition geometry :: "Ext2Superblock \<Rightarrow> bool" where
  "geometry sb \<longleftrightarrow> sb_block_size sb \<in> {1024, 2048, 4096} \<and>
     sb_first_data_block sb = (if sb_block_size sb = 1024 then 1 else 0) \<and> sb_first_data_block sb < sb_block_count sb \<and>
     0 < sb_blocks_per_group sb \<and> sb_blocks_per_group sb \<le> sb_block_size sb * 8 \<and>
     0 < sb_inodes_per_group sb \<and> sb_inodes_per_group sb \<le> sb_block_size sb * 8 \<and> 0 < sb_inode_count sb \<and>
     sb_group_count sb = Ext2DivideRoundingUp (sb_block_count sb - sb_first_data_block sb) (sb_blocks_per_group sb) \<and>
     sb_group_count sb = Ext2DivideRoundingUp (sb_inode_count sb) (sb_inodes_per_group sb)"

lemma low_three: "(v :: u32) \<le> 2 \<Longrightarrow> v = 0 \<or> v = 1 \<or> v = 2"
  by (auto simp: word_le_nat_alt word_unat_eq_iff)

lemma shifted_sizes: "v \<le> 2 \<Longrightarrow> push_bit (unat (v :: u32)) (1024 :: u32) \<in> {1024, 2048, 4096}"
  using low_three [of v] by (auto simp: push_bit_eq_mult)

lemma CheckedSuperblock_geometry:
  assumes "CheckedSuperblock shifted device_size raw = Inr sb"
  shows "geometry sb" "sb = ParsedSuperblock shifted device_size raw" "device_size \<le> sb_block_size sb"
    "128 \<le> sb_inode_size sb" "sb_first_inode sb \<le> sb_inode_count sb" "sb_free_block_count sb \<le> sb_block_count sb"
proof -
  let ?v = "ParsedSuperblock shifted device_size raw"
  have v: "sb = ?v" using assms by (simp add: CheckedSuperblock_def Let_def split: if_splits)
  show "sb = ?v" by (rule v)
  have log: "Ext2ReadWord raw 24 \<le> 2" using assms
    by (simp add: CheckedSuperblock_def Let_def EXT2_MAXIMUM_LOG_BLOCK_SIZE_def not_less split: if_splits)
  have "sb_block_size ?v = push_bit (unat (Ext2ReadWord raw 24)) 1024" by (simp add: ParsedSuperblock_def Let_def)
  then have size: "sb_block_size ?v \<in> {1024, 2048, 4096}" using shifted_sizes [OF log] by simp
  have groups: "sb_group_count ?v = Ext2DivideRoundingUp (sb_block_count ?v - sb_first_data_block ?v) (sb_blocks_per_group ?v)"
    by (simp add: ParsedSuperblock_def Let_def)
  have rest: "\<not> sb_block_size ?v < device_size"
    "sb_first_data_block ?v = (if sb_block_size ?v = 1024 then 1 else 0)"
    "sb_inode_count ?v \<noteq> 0" "sb_blocks_per_group ?v \<noteq> 0" "sb_inodes_per_group ?v \<noteq> 0"
    "\<not> sb_block_count ?v \<le> sb_first_data_block ?v" "\<not> sb_block_size ?v * 8 < sb_blocks_per_group ?v"
    "\<not> sb_block_size ?v * 8 < sb_inodes_per_group ?v" "\<not> sb_block_count ?v < sb_free_block_count ?v"
    "\<not> ucast (sb_inode_size ?v) < EXT2_GOOD_OLD_INODE_SIZE" "\<not> sb_inode_count ?v < sb_first_inode ?v"
    "Ext2DivideRoundingUp (sb_block_count ?v - sb_first_data_block ?v) (sb_blocks_per_group ?v) =
       Ext2DivideRoundingUp (sb_inode_count ?v) (sb_inodes_per_group ?v)"
    using assms by (simp_all add: CheckedSuperblock_def Let_def del: not_le not_less split: if_splits)
  show "geometry sb" unfolding v geometry_def using size groups rest by (simp add: word_neq_0_conv not_le not_less del: insert_iff)
  show "device_size \<le> sb_block_size sb" "sb_first_inode sb \<le> sb_inode_count sb" "sb_free_block_count sb \<le> sb_block_count sb"
    unfolding v using rest by simp_all
  have "(128 :: u32) \<le> ucast (sb_inode_size ?v)" using rest(10) by (simp add: EXT2_GOOD_OLD_INODE_SIZE_def not_less)
  moreover have "unat (ucast (sb_inode_size ?v) :: u32) = unat (sb_inode_size ?v)"
    using unsigned_less [of "sb_inode_size ?v", where 'a = nat] by (simp add: unsigned_ucast_eq take_bit_nat_eq_self)
  ultimately show "128 \<le> sb_inode_size sb" unfolding v by (simp add: word_le_nat_alt)
qed

subsection \<open>Groups\<close>

lemma unat_divide_up:
  assumes "0 < d" "g < Ext2DivideRoundingUp q d"
  shows "unat g * unat d < unat q"
proof -
  let ?s = "q + (d - 1)"
  have "0 < unat d" using assms(1) by (simp add: word_less_nat_alt)
  then have d: "unat (d - 1) = unat d - 1" "0 < unat d" by (simp_all add: unat_sub word_le_nat_alt)
  have s: "unat ?s \<le> unat q + (unat d - 1)"
    unfolding unat_word_ariths d by (rule mod_less_eq_dividend)
  have "unat g < unat ?s div unat d" using assms(2) by (simp add: Ext2DivideRoundingUp_def word_less_nat_alt unat_div)
  then have "(unat g + 1) * unat d \<le> unat ?s" using d(2) by (simp add: less_eq_div_iff_mult_less_eq flip: Suc_le_eq)
  then show ?thesis using s d(2) by (simp add: algebra_simps)
qed

lemma first_block_no_wrap:
  assumes "geometry sb" "g < sb_group_count sb"
  shows "unat (Ext2GroupFirstBlock sb g) = unat (sb_first_data_block sb) + unat g * unat (sb_blocks_per_group sb)"
    "unat (sb_first_data_block sb) + unat g * unat (sb_blocks_per_group sb) < unat (sb_block_count sb)"
proof -
  let ?f = "unat (sb_first_data_block sb)" and ?p = "unat (sb_blocks_per_group sb)" and ?c = "unat (sb_block_count sb)"
  have f: "?f < ?c" using assms(1) unfolding geometry_def word_less_nat_alt by blast
  have c: "?c < 2 ^ 32" using unsigned_less [of "sb_block_count sb", where 'a = nat] by simp
  have "unat g * ?p < unat (sb_block_count sb - sb_first_data_block sb)"
    by (rule unat_divide_up) (use assms in \<open>simp_all add: geometry_def\<close>)
  then show g: "?f + unat g * ?p < ?c" using f by (simp add: unat_sub word_le_nat_alt)
  then show "unat (Ext2GroupFirstBlock sb g) = ?f + unat g * ?p" using c by (simp add: Ext2GroupFirstBlock_def unat_word_ariths)
qed

text \<open>Where the sum does not wrap, a division rounding up counts enough groups for every place.\<close>

lemma rounding_up_covers:
  assumes "unat n + unat m \<le> 2 ^ 32" "m \<noteq> 0" "k < n"
  shows "k div m < Ext2DivideRoundingUp n m"
proof -
  have pos: "0 < unat m" using assms(2) by (simp add: unat_gt_0)
  have m1: "unat (m - 1) = unat m - 1" by (rule unat_minus_one [OF assms(2)])
  then have "unat (n + (m - 1)) = unat n + (unat m - 1)"
    using assms(1) pos by (simp add: unat_word_ariths)
  then have up: "unat (Ext2DivideRoundingUp n m) = (unat n + (unat m - 1)) div unat m"
    by (simp only: Ext2DivideRoundingUp_def unat_div)
  have "unat k + unat m \<le> unat n + (unat m - 1)" using assms(3) pos by (simp add: word_less_nat_alt)
  then have "(unat k + unat m) div unat m \<le> (unat n + (unat m - 1)) div unat m" by (rule div_le_mono)
  moreover have "(unat k + unat m) div unat m = unat k div unat m + 1" using pos by (simp only: div_add_self2)
  ultimately have "unat k div unat m < (unat n + (unat m - 1)) div unat m" by linarith
  then show ?thesis using up by (simp add: word_less_nat_alt unat_div)
qed

text \<open>Where a block lies among the groups.\<close>

definition block_group :: "Ext2Superblock \<Rightarrow> u32 \<Rightarrow> u32" where
  "block_group sb block = (block - sb_first_data_block sb) div sb_blocks_per_group sb"

definition block_index :: "Ext2Superblock \<Rightarrow> u32 \<Rightarrow> u32" where
  "block_index sb block = (block - sb_first_data_block sb) mod sb_blocks_per_group sb"

lemma group_blocks:
  assumes "geometry sb" "g < sb_group_count sb" "i < Ext2GroupBlockCount sb g"
  shows "Ext2BlockExists sb (Ext2GroupFirstBlock sb g + i)" "block_group sb (Ext2GroupFirstBlock sb g + i) = g"
    "block_index sb (Ext2GroupFirstBlock sb g + i) = i"
proof -
  let ?f = "unat (sb_first_data_block sb)" and ?p = "unat (sb_blocks_per_group sb)" and ?c = "unat (sb_block_count sb)"
  have c: "?c < 2 ^ 32" using unsigned_less [of "sb_block_count sb", where 'a = nat] by simp
  note first = first_block_no_wrap(1) [OF assms(1,2)] and g = first_block_no_wrap(2) [OF assms(1,2)]
  have i: "unat i < ?p" "unat i < ?c - (?f + unat g * ?p)"
    using assms(3) g first by (auto simp: Ext2GroupBlockCount_def Let_def word_less_nat_alt word_le_nat_alt unat_sub split: if_splits)
  have b: "unat (Ext2GroupFirstBlock sb g + i) = ?f + unat g * ?p + unat i"
    using i c by (simp add: unat_word_ariths first)
  show "Ext2BlockExists sb (Ext2GroupFirstBlock sb g + i)"
    using b i by (simp add: Ext2BlockExists_def word_le_nat_alt word_less_nat_alt)
  have "unat (Ext2GroupFirstBlock sb g + i - sb_first_data_block sb) = unat g * ?p + unat i"
    using b by (simp add: unat_sub word_le_nat_alt)
  then show "block_group sb (Ext2GroupFirstBlock sb g + i) = g" "block_index sb (Ext2GroupFirstBlock sb g + i) = i"
    using i(1) by (simp_all add: block_group_def block_index_def word_unat_eq_iff unat_div unat_mod)
qed

lemma block_place:
  assumes "geometry sb" "Ext2BlockExists sb block"
  shows "Ext2GroupFirstBlock sb (block_group sb block) + block_index sb block = block"
    "block_index sb block < sb_blocks_per_group sb"
    "block_group sb block < sb_group_count sb \<Longrightarrow> block_index sb block < Ext2GroupBlockCount sb (block_group sb block)"
proof -
  let ?x = "block - sb_first_data_block sb" and ?p = "sb_blocks_per_group sb"
  have p: "0 < ?p" using assms(1) by (simp add: geometry_def)
  have "?x div ?p * ?p + ?x mod ?p = ?x" by (rule word_mod_div_equality)
  then have "sb_first_data_block sb + (?x div ?p * ?p + ?x mod ?p) = block" by simp
  then show eq: "Ext2GroupFirstBlock sb (block_group sb block) + block_index sb block = block"
    by (simp only: Ext2GroupFirstBlock_def block_group_def block_index_def add.assoc)
  show ip: "block_index sb block < ?p" using p by (simp add: block_index_def word_mod_less_divisor)
  assume g: "block_group sb block < sb_group_count sb"
  let ?f = "unat (sb_first_data_block sb)" and ?c = "unat (sb_block_count sb)" and ?g = "unat (block_group sb block)"
  note first = first_block_no_wrap(1) [OF assms(1) g]
  have "unat block < ?c" "?f \<le> unat block" using assms(2) by (simp_all add: Ext2BlockExists_def word_less_nat_alt word_le_nat_alt)
  moreover have "unat ?x = ?g * unat ?p + unat (block_index sb block)"
    by (simp add: block_group_def block_index_def unat_div unat_mod)
  ultimately have "?f + ?g * unat ?p + unat (block_index sb block) < ?c"
    by (simp add: unat_sub word_le_nat_alt)
  then show "block_index sb block < Ext2GroupBlockCount sb (block_group sb block)"
    using ip first by (auto simp: Ext2GroupBlockCount_def Let_def word_less_nat_alt word_le_nat_alt unat_sub)
qed

text \<open>Where an inode lies, in a volume whose last group has all its inodes.\<close>

definition inode_group :: "Ext2Superblock \<Rightarrow> u32 \<Rightarrow> u32" where
  "inode_group sb number = (number - 1) div sb_inodes_per_group sb"

definition inode_index :: "Ext2Superblock \<Rightarrow> u32 \<Rightarrow> u32" where
  "inode_index sb number = (number - 1) mod sb_inodes_per_group sb"

lemma group_inodes:
  assumes "geometry sb" "unat (sb_inode_count sb) = unat (sb_group_count sb) * unat (sb_inodes_per_group sb)"
    and "g < sb_group_count sb" "i < sb_inodes_per_group sb"
  defines "number \<equiv> g * sb_inodes_per_group sb + i + 1"
  shows "number \<noteq> 0" "number \<le> sb_inode_count sb" "inode_group sb number = g" "inode_index sb number = i"
proof -
  let ?p = "unat (sb_inodes_per_group sb)" and ?c = "unat (sb_inode_count sb)"
  have i: "unat i < ?p" "unat g < unat (sb_group_count sb)" using assms(3,4) by (simp_all add: word_less_nat_alt)
  have c: "?c < 2 ^ 32" using unsigned_less [of "sb_inode_count sb", where 'a = nat] by simp
  have "(unat g + 1) * ?p \<le> ?c" unfolding assms(2) using i(2) by (intro mult_le_mono1) simp
  then have g: "unat g * ?p + unat i + 1 \<le> ?c" using i(1) by (simp add: algebra_simps)
  then have m: "unat (g * sb_inodes_per_group sb + i) = unat g * ?p + unat i" using c by (simp add: unat_word_ariths)
  then have n: "unat number = unat g * ?p + unat i + 1" unfolding number_def using g c by (simp add: unat_word_ariths)
  then show "number \<noteq> 0" "number \<le> sb_inode_count sb" using g by (auto simp: word_le_nat_alt)
  show "inode_group sb number = g" "inode_index sb number = i"
    using m i(1) by (simp_all add: number_def inode_group_def inode_index_def word_unat_eq_iff unat_div unat_mod)
qed

lemma inode_place:
  assumes "geometry sb" "number \<noteq> 0" "number \<le> sb_inode_count sb"
  shows "inode_group sb number * sb_inodes_per_group sb + inode_index sb number + 1 = number"
    "inode_index sb number < sb_inodes_per_group sb"
proof -
  have p: "0 < sb_inodes_per_group sb" using assms(1) by (simp add: geometry_def)
  show "inode_group sb number * sb_inodes_per_group sb + inode_index sb number + 1 = number"
    unfolding inode_group_def inode_index_def by (simp add: word_mod_div_equality)
  show "inode_index sb number < sb_inodes_per_group sb" using p by (simp add: inode_index_def word_mod_less_divisor)
qed

text \<open>The groups' sizes are within their bitmaps.\<close>

lemma within_bitmap:
  assumes "geometry sb"
  shows "i < Ext2GroupBlockCount sb g \<Longrightarrow> unat i < unat (sb_block_size sb) * 8" "i < sb_blocks_per_group sb \<Longrightarrow> unat i < unat (sb_block_size sb) * 8"
    "i < sb_inodes_per_group sb \<Longrightarrow> unat i < unat (sb_block_size sb) * 8"
proof -
  have "unat (sb_block_size sb * 8) = unat (sb_block_size sb) * 8" using assms by (auto simp: geometry_def)
  moreover have "Ext2GroupBlockCount sb g \<le> sb_blocks_per_group sb" by (auto simp: Ext2GroupBlockCount_def Let_def)
  moreover have "sb_blocks_per_group sb \<le> sb_block_size sb * 8" "sb_inodes_per_group sb \<le> sb_block_size sb * 8" using assms unfolding geometry_def by blast+
  ultimately show "i < Ext2GroupBlockCount sb g \<Longrightarrow> unat i < unat (sb_block_size sb) * 8" "i < sb_blocks_per_group sb \<Longrightarrow> unat i < unat (sb_block_size sb) * 8"
    "i < sb_inodes_per_group sb \<Longrightarrow> unat i < unat (sb_block_size sb) * 8"
    by (simp_all add: word_less_nat_alt word_le_nat_alt)
qed

end
