(* ===== verification/Ext2Bytes.thy ===== *)
theory Ext2Bytes
  imports Ext2Volume
begin

text \<open>The encoders of the volume's byte order are the inverses of its decoders.\<close>

lemma length_write [simp]: "length (Ext2WriteHalf off h raw) = length raw" "length (Ext2WriteWord off v raw) = length raw"
  by (simp_all add: Ext2WriteHalf_def Ext2WriteWord_def)

lemma low_byte: "(ucast (v AND 0xFF :: u32) :: u8) = ucast v" "(ucast (h AND 0xFF :: u16) :: u8) = ucast h"
proof -
  have a: "v AND 0xFF = take_bit 8 v" "h AND 0xFF = take_bit 8 h" by (simp_all add: take_bit_eq_mask mask_eq_exp_minus_1)
  show "(ucast (v AND 0xFF :: u32) :: u8) = ucast v" "(ucast (h AND 0xFF :: u16) :: u8) = ucast h"
    unfolding a by (rule bit_word_eqI; auto simp: bit_simps)+
qed

lemma word_bytes:
  fixes v :: u32
  shows "ucast (ucast v :: u8) OR push_bit 8 (ucast (ucast (drop_bit 8 v) :: u8)) OR
    push_bit 16 (ucast (ucast (drop_bit 16 v) :: u8)) OR push_bit 24 (ucast (ucast (drop_bit 24 v) :: u8)) = v" (is "?bytes = v")
proof (rule bit_word_eqI)
  fix n assume n: "n < LENGTH(32)"
  consider "n < 8" | "8 \<le> n \<and> n < 16" | "16 \<le> n \<and> n < 24" | "24 \<le> n" by linarith
  then show "bit ?bytes n = bit v n"
    by cases (use n in \<open>auto simp: bit_simps\<close>)
qed

lemma half_bytes:
  fixes h :: u16
  shows "ucast (ucast h :: u8) OR push_bit 8 (ucast (ucast (drop_bit 8 h) :: u8)) = h"
  by (rule bit_word_eqI) (auto simp: bit_simps)

lemma read_written [simp]:
  "off + 3 < length raw \<Longrightarrow> Ext2ReadWord (Ext2WriteWord off v raw) off = v"
  "off + 1 < length raw \<Longrightarrow> Ext2ReadHalf (Ext2WriteHalf off h raw) off = h"
  by (simp_all add: Ext2ReadWord_def Ext2WriteWord_def Ext2ReadHalf_def Ext2WriteHalf_def word_bytes half_bytes low_byte nth_list_update)

text \<open>A field written leaves every other as it was.\<close>

lemma write_other [simp]:
  "i < off \<or> off + 4 \<le> i \<Longrightarrow> Ext2WriteWord off v raw ! i = raw ! i"
  "i < off \<or> off + 2 \<le> i \<Longrightarrow> Ext2WriteHalf off h raw ! i = raw ! i"
  by (auto simp: Ext2WriteWord_def Ext2WriteHalf_def nth_list_update)

lemma read_cong:
  "(\<And>i. i < 4 \<Longrightarrow> raw ! (off + i) = raw' ! (off + i)) \<Longrightarrow> Ext2ReadWord raw off = Ext2ReadWord raw' off"
  "(\<And>i. i < 2 \<Longrightarrow> raw ! (off + i) = raw' ! (off + i)) \<Longrightarrow> Ext2ReadHalf raw off = Ext2ReadHalf raw' off"
proof -
  assume A: "\<And>i. i < 4 \<Longrightarrow> raw ! (off + i) = raw' ! (off + i)"
  show "Ext2ReadWord raw off = Ext2ReadWord raw' off"
    unfolding Ext2ReadWord_def using A [of 0] A [of 1] A [of 2] A [of 3] by simp
next
  assume A: "\<And>i. i < 2 \<Longrightarrow> raw ! (off + i) = raw' ! (off + i)"
  show "Ext2ReadHalf raw off = Ext2ReadHalf raw' off" unfolding Ext2ReadHalf_def using A [of 0] A [of 1] by simp
qed

lemma read_other [simp]:
  "off' + 4 \<le> off \<or> off + 4 \<le> off' \<Longrightarrow> Ext2ReadWord (Ext2WriteWord off v raw) off' = Ext2ReadWord raw off'"
  "off' + 2 \<le> off \<or> off + 4 \<le> off' \<Longrightarrow> Ext2ReadHalf (Ext2WriteWord off v raw) off' = Ext2ReadHalf raw off'"
  "off' + 4 \<le> off \<or> off + 2 \<le> off' \<Longrightarrow> Ext2ReadWord (Ext2WriteHalf off h raw) off' = Ext2ReadWord raw off'"
  "off' + 2 \<le> off \<or> off + 2 \<le> off' \<Longrightarrow> Ext2ReadHalf (Ext2WriteHalf off h raw) off' = Ext2ReadHalf raw off'"
  by (auto intro!: read_cong)

text \<open>Writing back what was read changes nothing.\<close>

lemma byte_of_word:
  fixes a b c d :: u8
  defines "v \<equiv> ucast a OR push_bit 8 (ucast b) OR push_bit 16 (ucast c) OR push_bit 24 (ucast d) :: u32"
  shows "ucast v = a" "ucast (drop_bit 8 v) = b" "ucast (drop_bit 16 v) = c" "ucast (drop_bit 24 v) = d"
  unfolding v_def by (rule bit_word_eqI; auto simp: bit_simps dest: bit_imp_le_length)+

lemma write_read_word [simp]:
  assumes "off + 3 < length raw"
  shows "Ext2WriteWord off (Ext2ReadWord raw off) raw = raw"
proof -
  have "Ext2WriteWord off (Ext2ReadWord raw off) raw =
      raw[off := raw ! off, off + 1 := raw ! (off + 1), off + 2 := raw ! (off + 2), off + 3 := raw ! (off + 3)]"
    unfolding Ext2WriteWord_def Ext2ReadWord_def low_byte byte_of_word by (rule refl)
  then show ?thesis by simp
qed

end
