(* ===== verification/Ext2Medium.thy ===== *)
theory Ext2Medium
  imports Ext2Core BufferHistory ByteMemory
begin

text \<open>
  Runs of bytes over the buffer cache as reads and writes of one array of bytes, the disk.  An
  operation of the filesystem is judged by what it returns and what it makes of the disk.
\<close>

subsection \<open>Judgements\<close>

definition runs :: "('w, 'r) ext2 \<Rightarrow> 'w ext2_state \<Rightarrow> ('w ext2_state \<Rightarrow> 'r option \<Rightarrow> bool) \<Rightarrow> bool" where
  "runs m s P \<longleftrightarrow> (\<exists>s' r. m s = Some (s', r) \<and> P s' r)"

lemma runs_then:
  assumes "runs m s Q" "\<And>s' r. Q s' (Some r) \<Longrightarrow> runs (f r) s' P" "\<And>s'. Q s' None \<Longrightarrow> P s' None"
  shows "runs (ext2_then m f) s P"
proof -
  obtain s' r where run: "m s = Some (s', r)" "Q s' r" using assms(1) unfolding runs_def by blast
  show ?thesis
  proof (cases r)
    case None
    then show ?thesis using run assms(3) by (simp add: runs_def ext2_then_def)
  next
    case (Some x)
    then show ?thesis using run assms(2) by (simp add: runs_def ext2_then_def)
  qed
qed

lemma runs_mono: "runs m s Q \<Longrightarrow> (\<And>s' r. Q s' r \<Longrightarrow> P s' r) \<Longrightarrow> runs m s P"
  unfolding runs_def by blast

lemma runs_done: "P s (Some r) \<Longrightarrow> runs (ext2_done r) s P"
  by (simp add: runs_def ext2_done_def)

subsection \<open>The disk\<close>

definition disk :: "(nat \<times> u64 \<rightharpoonup> u8 list) \<Rightarrow> nat \<Rightarrow> u64 \<Rightarrow> u8 option" where
  "disk m d p = map_option (\<lambda>bytes. bytes ! unat (p mod 512)) (m (d, p div 512))"

definition disk_of :: "('w \<Rightarrow> u64 \<Rightarrow> u64 \<Rightarrow> u8 list) \<Rightarrow> 'w ext2_state \<Rightarrow> nat \<Rightarrow> u64 \<Rightarrow> u8 option" where
  "disk_of stored s = disk (cached_map stored (cache s))"

lemma unat_div_512: "unat (p div 512 :: u64) = unat p div 512" "unat (p mod 512 :: u64) = unat p mod 512"
  by (simp_all add: unat_div unat_mod)

lemma same_512: "x mod 512 + i < 512 \<Longrightarrow> (x + i) div 512 = x div (512 :: nat)" "x mod 512 + i < 512 \<Longrightarrow> (x + i) mod 512 = x mod 512 + (i :: nat)"
  by (simp add: div_add1_eq [of x i], metis mod_add_left_eq mod_less)

lemma within_run:
  assumes "unat p mod 512 + i < 512" "unat p + i < 2 ^ 64"
  shows "(p + word_of_nat i) div 512 = (p :: u64) div 512" "unat ((p + word_of_nat i) mod 512) = unat p mod 512 + i"
proof -
  have u: "unat (p + word_of_nat i) = unat p + i" by (rule unat_offset [OF assms(2)])
  show "(p + word_of_nat i) div 512 = p div 512" "unat ((p + word_of_nat i) mod 512) = unat p mod 512 + i"
    by (simp_all add: word_unat_eq_iff unat_div_512 u same_512 [OF assms(1)])
qed

text \<open>The part of a run that lies in one block.\<close>

definition in_block :: "u64 \<Rightarrow> u32 \<Rightarrow> nat" where
  "in_block p n = min (512 - unat p mod 512) (unat n)"

lemma in_block_bounds: "0 < unat n \<Longrightarrow> 0 < in_block p n" "in_block p n \<le> unat n" "in_block p n \<le> 512 - unat p mod 512"
  by (auto simp: in_block_def)

lemma run_step:
  fixes n :: u32 and p :: u64
  defines "within \<equiv> (ucast (p mod 512) :: u32)"
  defines "taken \<equiv> (if n < 512 - within then n else 512 - within)"
  assumes "unat p + unat n < 2 ^ 64"
  shows "unat within = unat p mod 512" "unat taken = in_block p n" "unat (n - taken) = unat n - in_block p n"
    "unat (p + ucast taken) = unat p + in_block p n" "ucast taken = (word_of_nat (in_block p n) :: u64)"
proof -
  have w: "unat within = unat p mod 512"
    unfolding within_def by (simp add: unsigned_ucast_eq unat_div_512 take_bit_nat_eq_self_iff)
  then show "unat within = unat p mod 512" .
  have "unat within \<le> unat (512 :: u32)" using w by (simp add: less_imp_le)
  then have "unat (512 - within) = 512 - unat p mod 512" using w by (simp add: unat_sub word_le_nat_alt)
  then show t: "unat taken = in_block p n" by (auto simp: taken_def in_block_def word_less_nat_alt)
  then have "taken \<le> n" using in_block_bounds(2) by (simp add: word_le_nat_alt)
  then show "unat (n - taken) = unat n - in_block p n" using t by (simp add: unat_sub)
  show "ucast taken = (word_of_nat (in_block p n) :: u64)" by (simp flip: t)
  then show "unat (p + ucast taken) = unat p + in_block p n"
    using unat_offset [of p "in_block p n"] assms(3) in_block_bounds(2) [of p n] by simp
qed

lemma run_joined:
  assumes "\<And>i. i < k \<Longrightarrow> f (p + word_of_nat i) = Some (new ! i)" "length new = k"
    and "\<And>i. i < m \<Longrightarrow> f (p + word_of_nat k + word_of_nat i :: u64) = Some (rest ! i)" "i < k + m"
  shows "f (p + word_of_nat i) = Some ((new @ rest) ! i)"
proof (cases "i < k")
  case False
  then have eq: "p + word_of_nat i = p + word_of_nat k + word_of_nat (i - k)" by (simp add: add.assoc flip: of_nat_add)
  have "i - k < m" using False assms(4) by simp
  then have "f (p + word_of_nat i) = Some (rest ! (i - k))" unfolding eq by (rule assms(3))
  then show ?thesis using assms(2) False by (simp add: nth_append)
qed (use assms in \<open>simp add: nth_append\<close>)

subsection \<open>Overwriting\<close>

definition overwrite :: "nat \<Rightarrow> u64 \<Rightarrow> u8 list \<Rightarrow> (nat \<Rightarrow> u64 \<Rightarrow> u8 option) \<Rightarrow> nat \<Rightarrow> u64 \<Rightarrow> u8 option" where
  "overwrite d p bytes D = (\<lambda>e x. if e = d \<and> unat (x - p) < length bytes then Some (bytes ! unat (x - p)) else D e x)"

lemma overwrite_nothing [simp]: "overwrite d p [] D = D"
  by (simp add: overwrite_def)

lemma in_run: "unat p + n \<le> 2 ^ 64 \<Longrightarrow> unat (x - p) < n \<longleftrightarrow> unat p \<le> unat (x :: u64) \<and> unat x < unat p + n"
  using offset_in_range [of p n x] by (simp add: byte_range_def)

lemma unat_run: "p \<le> x \<Longrightarrow> unat (x - p :: u64) = unat x - unat p"
  by (simp add: unat_sub)

lemma overwrite_append:
  assumes "unat p + length a + length b \<le> 2 ^ 64" "unat p + length a < 2 ^ 64 \<or> b = []"
  shows "overwrite d (p + word_of_nat (length a)) b (overwrite d p a D) = overwrite d p (a @ b) D"
proof (cases "b = []")
  case False
  then have q: "unat (p + word_of_nat (length a)) = unat p + length a" using assms unat_offset [of p "length a"] by simp
  show ?thesis
  proof (intro ext)
    fix e x
    have R: "unat (x - p) < length a \<longleftrightarrow> unat p \<le> unat x \<and> unat x < unat p + length a"
      "unat (x - p) < length (a @ b) \<longleftrightarrow> unat p \<le> unat x \<and> unat x < unat p + (length a + length b)"
      "unat (x - (p + word_of_nat (length a))) < length b \<longleftrightarrow> unat p + length a \<le> unat x \<and> unat x < unat p + length a + length b"
      using assms(1) in_run [of p "length a" x] in_run [of p "length a + length b" x] in_run [of "p + word_of_nat (length a)" "length b" x] q
      by auto
    have S: "unat (x - p) = unat x - unat p" if "unat p \<le> unat x" using that by (simp add: unat_run word_le_nat_alt)
    have S': "unat (x - (p + word_of_nat (length a))) = unat x - unat p - length a" if "unat p + length a \<le> unat x"
      using that q unat_run [of "p + word_of_nat (length a)" x] by (simp add: word_le_nat_alt)
    show "overwrite d (p + word_of_nat (length a)) b (overwrite d p a D) e x = overwrite d p (a @ b) D e x"
      unfolding overwrite_def R using S S' by (auto simp: nth_append)
  qed
qed simp

text \<open>The part of a run in one block, put over what the block held.\<close>

lemma put_bytes_effect:
  assumes "within + put \<le> length data" "put \<le> length source"
  shows "put_bytes within put source data = take within data @ take put source @ drop (within + put) data"
  using assms
proof (induction put)
  case (Suc k)
  have "put_bytes within (Suc k) source data = (put_bytes within k source data)[within + k := source ! k]" by (simp add: put_bytes_def)
  also have "\<dots> = (take within data @ take k source @ drop (within + k) data)[within + k := source ! k]" using Suc by simp
  also have "\<dots> = take within data @ take (Suc k) source @ drop (within + Suc k) data"
  proof -
    have "drop (within + k) data = data ! (within + k) # drop (within + Suc k) data" using Suc.prems(1) by (simp add: Cons_nth_drop_Suc)
    then show ?thesis using Suc.prems by (simp add: list_update_append take_Suc_conv_app_nth)
  qed
  finally show ?case .
qed (simp add: put_bytes_def)

lemma disk_overwrite:
  fixes p :: u64
  assumes m: "m (d, p div 512) = Some data" "length data = 512" and k: "k \<le> 512 - unat p mod 512" "k \<le> length source" "unat p + k \<le> 2 ^ 64"
  shows "disk (m((d, p div 512) \<mapsto> put_bytes (unat p mod 512) k source data)) = overwrite d p (take k source) (disk m)"
proof (intro ext)
  fix e x
  let ?w = "unat p mod 512"
  have w: "?w + k \<le> 512" using k(1) mod_less_divisor [of 512 "unat p"] by linarith
  have P: "put_bytes ?w k source data = take ?w data @ take k source @ drop (?w + k) data"
    by (rule put_bytes_effect) (use m(2) w k(2) in simp_all)
  have at: "put_bytes ?w k source data ! j = (if ?w \<le> j \<and> j < ?w + k then source ! (j - ?w) else data ! j)" if "j < 512" for j
    using that w m(2) k(2) unfolding P by (auto simp: nth_append)
  have R: "unat (x - p) < k \<longleftrightarrow> unat p \<le> unat x \<and> unat x < unat p + k" by (rule in_run) (rule k(3))
  have same: "x div 512 = p div 512 \<longleftrightarrow> unat x div 512 = unat p div 512" by (simp add: word_unat_eq_iff unat_div_512)
  have split: "unat p = 512 * (unat p div 512) + ?w" "unat x = 512 * (unat x div 512) + unat x mod 512" by simp_all
  have inside: "unat x div 512 = unat p div 512 \<and> ?w \<le> unat x mod 512 \<and> unat x mod 512 < ?w + k \<longleftrightarrow> unat p \<le> unat x \<and> unat x < unat p + k"
  proof
    assume "unat p \<le> unat x \<and> unat x < unat p + k"
    then obtain i where i: "unat x = unat p + i" "i < k" by (metis le_Suc_ex nat_add_left_cancel_less)
    then have "?w + i < 512" using w by linarith
    from same_512 [OF this] show "unat x div 512 = unat p div 512 \<and> ?w \<le> unat x mod 512 \<and> unat x mod 512 < ?w + k" using i by simp
  next
    assume "unat x div 512 = unat p div 512 \<and> ?w \<le> unat x mod 512 \<and> unat x mod 512 < ?w + k"
    then show "unat p \<le> unat x \<and> unat x < unat p + k" using split by linarith
  qed
  have off: "unat (x - p) = unat x mod 512 - ?w" if "unat x div 512 = unat p div 512" "?w \<le> unat x mod 512"
  proof -
    have le: "unat p \<le> unat x" using that split by linarith
    then have "unat (x - p) = unat x - unat p" by (simp add: unat_run word_le_nat_alt)
    also have "\<dots> = unat x mod 512 - ?w" using that(1) split by linarith
    finally show ?thesis .
  qed
  show "disk (m((d, p div 512) \<mapsto> put_bytes ?w k source data)) e x = overwrite d p (take k source) (disk m) e x"
  proof (cases "e = d \<and> unat x div 512 = unat p div 512")
    case True
    then have "disk (m((d, p div 512) \<mapsto> put_bytes ?w k source data)) e x = Some (put_bytes ?w k source data ! (unat x mod 512))"
      using same by (simp add: disk_def unat_div_512)
    then show ?thesis using True at [of "unat x mod 512"] R inside off m(1) same k(2) by (auto simp: overwrite_def disk_def unat_div_512)
  next
    case False
    then show ?thesis using R inside same k(2) by (auto simp: overwrite_def disk_def)
  qed
qed

text \<open>The cache below a filesystem in order, and the device one of its own.\<close>

definition ext2_ok_for :: "'w BlockOperations \<Rightarrow> ('w \<Rightarrow> u64 \<Rightarrow> u64 \<Rightarrow> u8 list) \<Rightarrow> ('w \<Rightarrow> u64 \<Rightarrow> nat) \<Rightarrow> ('w \<Rightarrow> bool) \<Rightarrow> nat \<Rightarrow> 'w ext2_state \<Rightarrow> bool" where
  "ext2_ok_for ops stored extent sound d s \<longleftrightarrow> cache_ok_for ops stored extent sound (cache s) \<and>
     d < length (BlockDevices (block_layer (cache s))) \<and> block_size (BlockDevices (block_layer (cache s)) ! d) = 512"

context block_driver
begin

abbreviation ext2_ok :: "nat \<Rightarrow> 'w ext2_state \<Rightarrow> bool" where
  "ext2_ok \<equiv> ext2_ok_for ops stored extent sound"

lemma ext2_ok_after:
  assumes "ext2_ok d s" "same_devices (block_layer (cache s)) (block_layer c')" "cache_ok c'"
  shows "ext2_ok d (s\<lparr>cache := c'\<rparr>)"
  using assms same_devices_length [OF assms(2)] same_devices_at [OF assms(2)] by (simp add: ext2_ok_for_def same_device_def)

text \<open>What a read keeps.\<close>

definition still :: "nat \<Rightarrow> 'w ext2_state \<Rightarrow> 'w ext2_state \<Rightarrow> bool" where
  "still d s s' \<longleftrightarrow> volume s' = volume s \<and> ext2_ok d s' \<and> disk_of stored s' = disk_of stored s"

lemma ReadBytesFrom_runs:
  assumes "ext2_ok d s" "unat p + unat n < 2 ^ 64"
  shows "runs (ReadBytesFrom d p n acc) s (\<lambda>s' r. still d s s' \<and>
    (\<forall>bytes. r = Some bytes \<longrightarrow> (\<exists>new. bytes = acc @ new \<and> length new = unat n \<and>
      (\<forall>i < unat n. disk_of stored s d (p + word_of_nat i) = Some (new ! i)))))"
  using assms
proof (induction "unat n" arbitrary: s p n acc rule: less_induct)
  case less
  show ?case
  proof (cases "n = 0")
    case True
    then have "ReadBytesFrom d p n acc s = Some (s, Some acc)" by (simp add: ReadBytesFrom.simps)
    then show ?thesis using less.prems(1) True by (simp add: runs_def still_def)
  next
    case False
    let ?size = "block_size (BlockDevices (block_layer (cache s)) ! d)"
    let ?b = "p div ucast ?size"
    have ok: "cache_ok (cache s)" "d < length (BlockDevices (block_layer (cache s)))" using less.prems(1) by (simp_all add: ext2_ok_for_def)
    from use_read_effect [OF ok, of ?b] obtain c' r where U: "use_read d ?b (cache s) = Some (c', r)" "cache_ok c'"
      "same_devices (block_layer (cache s)) (block_layer c')" "cached_map stored c' = cached_map stored (cache s)"
      "r \<noteq> None \<Longrightarrow> r = cached_map stored (cache s) (d, ?b)" by blast
    have ok': "ext2_ok d (s\<lparr>cache := c'\<rparr>)" by (rule ext2_ok_after [OF less.prems(1) U(3,2)])
    show ?thesis
    proof (cases r)
      case None
      then have "BufferGet (Some d) ?b (cache s) = Some (c', None)"
        using U(1) by (auto simp: use_read_def split: option.splits prod.splits)
      then have "ReadBytesFrom d p n acc s = Ext2Refuse ''a block of the volume could not be read'' (s\<lparr>cache := c'\<rparr>)"
        using False by (simp add: ReadBytesFrom.simps Let_def)
      then show ?thesis using U(4) ok' by (simp add: runs_def still_def ext2_ok_for_def Ext2Refuse_def disk_of_def)
    next
      case (Some data)
      then obtain c1 i where G: "BufferGet (Some d) ?b (cache s) = Some (c1, Some i)" "c' = BufferRelease (Some i) c1"
        "data = buffer_data (BufferTable c1 ! i)"
        using U(1) by (auto simp: use_read_def split: option.splits prod.splits)
      have m: "cached_map stored (cache s) (d, ?b) = Some data" using U(5) Some by simp
      then have size: "?size = 512" by (auto simp: cached_map_def on_device_def driven_def split: if_splits)
      have len: "length data = 512" using cached_map_at [OF m ok(1)] .
      define w t where "w = (ucast (p mod 512) :: u32)" and "t = (if n < 512 - w then n else 512 - w)"
      let ?k = "in_block p n"
      note step = run_step [OF less.prems(2), folded w_def, folded t_def]
      let ?new = "map (\<lambda>index. data ! (unat w + index)) [0..<?k]"
      have run: "ReadBytesFrom d p n acc s = ReadBytesFrom d (p + ucast t) (n - t) (acc @ ?new) (s\<lparr>cache := c'\<rparr>)"
        using False G size step(2)
        by (cases "n < 512 - w") (simp_all add: ReadBytesFrom.simps [of d p n] Let_def t_def flip: w_def)
      have k: "?k \<le> unat n" "0 < ?k" "?k \<le> 512 - unat p mod 512" using in_block_bounds(2,3) [of p n] in_block_bounds(1) [where p = p and n = n] False by (simp_all add: unat_gt_0)
      have "runs (ReadBytesFrom d (p + ucast t) (n - t) (acc @ ?new)) (s\<lparr>cache := c'\<rparr>) (\<lambda>s' r. still d (s\<lparr>cache := c'\<rparr>) s' \<and>
        (\<forall>bytes. r = Some bytes \<longrightarrow> (\<exists>new. bytes = (acc @ ?new) @ new \<and> length new = unat (n - t) \<and>
          (\<forall>i < unat (n - t). disk_of stored (s\<lparr>cache := c'\<rparr>) d (p + ucast t + word_of_nat i) = Some (new ! i)))))"
        by (rule less.hyps [OF _ ok']) (use step(3,4) k less.prems(2) in simp_all)
      then obtain s' res where rest: "ReadBytesFrom d p n acc s = Some (s', res)" "still d (s\<lparr>cache := c'\<rparr>) s'"
        "\<And>bytes. res = Some bytes \<Longrightarrow> \<exists>new. bytes = (acc @ ?new) @ new \<and> length new = unat n - ?k \<and>
          (\<forall>i < unat n - ?k. disk_of stored (s\<lparr>cache := c'\<rparr>) d (p + word_of_nat ?k + word_of_nat i) = Some (new ! i))"
        using run unfolding runs_def step(3,5) by auto
      have same: "disk_of stored (s\<lparr>cache := c'\<rparr>) = disk_of stored s" using U(4) by (simp add: disk_of_def)
      have here: "disk_of stored s d (p + word_of_nat i) = Some (?new ! i)" if "i < ?k" for i
      proof -
        have "unat p mod 512 + i < 512" "unat p + i < 2 ^ 64" using that k less.prems(2) by simp_all
        from within_run [OF this] show ?thesis using m size that step(1) by (simp add: disk_of_def disk_def)
      qed
      have "still d s s'" using rest(2) same by (simp add: still_def)
      moreover have "\<exists>new. bytes = acc @ new \<and> length new = unat n \<and> (\<forall>i < unat n. disk_of stored s d (p + word_of_nat i) = Some (new ! i))"
        if res: "res = Some bytes" for bytes
      proof -
        obtain more where more: "bytes = acc @ (?new @ more)" "length more = unat n - ?k"
          "\<And>i. i < unat n - ?k \<Longrightarrow> disk_of stored s d (p + word_of_nat ?k + word_of_nat i) = Some (more ! i)"
          using rest(3) [OF res] unfolding same by auto
        have "disk_of stored s d (p + word_of_nat i) = Some ((?new @ more) ! i)" if "i < unat n" for i
          by (rule run_joined [where k = ?k and m = "unat n - ?k"]) (use here more(3) that k(1) in auto)
        moreover have "length (?new @ more) = unat n" using more(2) k(1) by simp
        ultimately show ?thesis using more(1) by blast
      qed
      ultimately show ?thesis using rest(1) unfolding runs_def by blast
    qed
  qed
qed

text \<open>A run written: all of it, or where a block could not be had a first part of it.\<close>

lemma WriteBytesFrom_runs:
  assumes "ext2_ok d s" "unat p + unat n < 2 ^ 64" "unat n \<le> length source"
  shows "runs (WriteBytesFrom d p n source) s (\<lambda>s' r. volume s' = volume s \<and> ext2_ok d s' \<and>
    (\<exists>k \<le> unat n. (r \<noteq> None \<longleftrightarrow> k = unat n) \<and> disk_of stored s' = overwrite d p (take k source) (disk_of stored s)))"
  using assms
proof (induction "unat n" arbitrary: s p n source rule: less_induct)
  case less
  show ?case
  proof (cases "n = 0")
    case True
    then have "WriteBytesFrom d p n source s = Some (s, Some ())" by (simp add: WriteBytesFrom.simps)
    then show ?thesis using less.prems(1) True by (simp add: runs_def)
  next
    case False
    let ?size = "block_size (BlockDevices (block_layer (cache s)) ! d)"
    let ?b = "p div ucast ?size"
    define w t where "w = (ucast (p mod 512) :: u32)" and "t = (if n < 512 - w then n else 512 - w)"
    let ?k = "in_block p n" and ?f = "put_bytes (unat p mod 512) (in_block p n) source"
    note step = run_step [OF less.prems(2), folded w_def, folded t_def]
    have k: "?k \<le> unat n" "0 < ?k" "?k \<le> 512 - unat p mod 512" "?k \<le> length source"
      using in_block_bounds(2,3) [of p n] in_block_bounds(1) [where p = p and n = n] False less.prems(3) by (simp_all add: unat_gt_0)
    have ok: "cache_ok (cache s)" "d < length (BlockDevices (block_layer (cache s)))" using less.prems(1) by (simp_all add: ext2_ok_for_def)
    have w: "unat p mod 512 + ?k \<le> 512" using k(3) mod_less_divisor [of 512 "unat p"] by linarith
    have f: "length (?f data) = 512" if "length data = 512" for data
      using put_bytes_effect [of "unat p mod 512" ?k data source] that w k(4) by simp
    from use_write_effect [OF ok, of ?f ?b] f obtain c' good where U: "use_write d ?b ?f (cache s) = Some (c', good)" "cache_ok c'"
      "same_devices (block_layer (cache s)) (block_layer c')"
      "if good then \<exists>data. cached_map stored (cache s) (d, ?b) = Some data \<and> cached_map stored c' = (cached_map stored (cache s))((d, ?b) \<mapsto> ?f data)
       else cached_map stored c' = cached_map stored (cache s)" by blast
    have ok': "ext2_ok d (s\<lparr>cache := c'\<rparr>)" by (rule ext2_ok_after [OF less.prems(1) U(3,2)])
    show ?thesis
    proof (cases good)
      case False
      then have "BufferGet (Some d) ?b (cache s) = Some (c', None)"
        using U(1) by (auto simp: use_write_def split: option.splits prod.splits)
      then have "WriteBytesFrom d p n source s = Ext2WriteRefuse ''a block of the volume could not be read to be written'' (s\<lparr>cache := c'\<rparr>)"
        using \<open>n \<noteq> 0\<close> by (simp add: WriteBytesFrom.simps Let_def)
      then show ?thesis using ok' U(4) False k(1,2)
        by (auto simp: runs_def ext2_ok_for_def Ext2WriteRefuse_def disk_of_def intro!: exI [of _ 0])
    next
      case True
      then obtain data where m: "cached_map stored (cache s) (d, ?b) = Some data"
        "cached_map stored c' = (cached_map stored (cache s))((d, ?b) \<mapsto> ?f data)" using U(4) by auto
      have size: "?size = 512" using m(1) by (auto simp: cached_map_def on_device_def driven_def split: if_splits)
      have len: "length data = 512" using cached_map_at [OF m(1) ok(1)] .
      obtain c1 i where G: "BufferGet (Some d) ?b (cache s) = Some (c1, Some i)"
        "c' = BufferRelease (Some i) (BufferMarkDirty (Some i) (set_buffer i (\<lambda>v. v\<lparr>buffer_data := ?f (buffer_data v)\<rparr>) c1))"
        using U(1) True by (auto simp: use_write_def split: option.splits prod.splits)
      have run: "WriteBytesFrom d p n source s = WriteBytesFrom d (p + ucast t) (n - t) (drop ?k source) (s\<lparr>cache := c'\<rparr>)"
        using \<open>n \<noteq> 0\<close> G size step(1,2)
        by (cases "n < 512 - w") (simp_all add: WriteBytesFrom.simps [of d p n] Let_def t_def flip: w_def)
      have here: "disk_of stored (s\<lparr>cache := c'\<rparr>) = overwrite d p (take ?k source) (disk_of stored s)"
        using disk_overwrite [of "cached_map stored (cache s)" d p data ?k source] m size len k less.prems(2) by (simp add: disk_of_def)
      have "runs (WriteBytesFrom d (p + ucast t) (n - t) (drop ?k source)) (s\<lparr>cache := c'\<rparr>) (\<lambda>s' r. volume s' = volume (s\<lparr>cache := c'\<rparr>) \<and> ext2_ok d s' \<and>
        (\<exists>j \<le> unat (n - t). (r \<noteq> None \<longleftrightarrow> j = unat (n - t)) \<and>
          disk_of stored s' = overwrite d (p + ucast t) (take j (drop ?k source)) (disk_of stored (s\<lparr>cache := c'\<rparr>))))"
        by (rule less.hyps [OF _ ok']) (use step(3,4) k less.prems(2,3) in simp_all)
      then show ?thesis unfolding run runs_def
      proof (elim exE conjE)
        fix s' r j assume R: "WriteBytesFrom d (p + ucast t) (n - t) (drop ?k source) (s\<lparr>cache := c'\<rparr>) = Some (s', r)"
          "volume s' = volume (s\<lparr>cache := c'\<rparr>)" "ext2_ok d s'" "j \<le> unat (n - t)" "r \<noteq> None \<longleftrightarrow> j = unat (n - t)"
          "disk_of stored s' = overwrite d (p + ucast t) (take j (drop ?k source)) (disk_of stored (s\<lparr>cache := c'\<rparr>))"
        have "disk_of stored s' = overwrite d p (take ?k source @ take j (drop ?k source)) (disk_of stored s)"
          unfolding R(6) here step(5)
          using overwrite_append [of p "take ?k source" "take j (drop ?k source)" d "disk_of stored s"] less.prems(2,3) k(1,4) R(4) step(3) by simp
        also have "take ?k source @ take j (drop ?k source) = take (?k + j) source" by (simp add: take_add)
        finally have "disk_of stored s' = overwrite d p (take (?k + j) source) (disk_of stored s)" .
        moreover have "?k + j \<le> unat n" "r \<noteq> None \<longleftrightarrow> ?k + j = unat n" using R(4,5) step(3) k(1) by auto
        ultimately show "\<exists>s' r. WriteBytesFrom d (p + ucast t) (n - t) (drop ?k source) (s\<lparr>cache := c'\<rparr>) = Some (s', r) \<and>
            volume s' = volume s \<and> ext2_ok d s' \<and>
            (\<exists>k \<le> unat n. (r \<noteq> None \<longleftrightarrow> k = unat n) \<and> disk_of stored s' = overwrite d p (take k source) (disk_of stored s))"
          using R(1-3) by auto
      qed
    qed
  qed
qed

end

subsection \<open>The blocks of a volume\<close>

text \<open>The byte \<open>i\<close> of a block, and where it lies on the device.\<close>

definition place :: "Ext2Superblock \<Rightarrow> u32 \<Rightarrow> nat \<Rightarrow> u64" where
  "place sb block i = ucast block * ucast (sb_block_size sb) + word_of_nat i"

definition byte_at :: "(nat \<Rightarrow> u64 \<Rightarrow> u8 option) \<Rightarrow> nat \<Rightarrow> Ext2Superblock \<Rightarrow> u32 \<Rightarrow> nat \<Rightarrow> u8 option" where
  "byte_at D d sb block i = D d (place sb block i)"

definition sized :: "Ext2Superblock \<Rightarrow> bool" where
  "sized sb \<longleftrightarrow> 1024 \<le> sb_block_size sb \<and> sb_block_size sb \<le> 4096"

lemma unat_up: "unat (ucast (x :: u32) :: u64) = unat x"
  using unsigned_less [of x, where 'a = nat] by (simp add: unsigned_ucast_eq take_bit_nat_eq_self)

lemma unat_place:
  assumes "sized sb" "i \<le> unat (sb_block_size sb)"
  shows "unat (place sb block i) = unat block * unat (sb_block_size sb) + i" "unat block * unat (sb_block_size sb) + i + 2 ^ 32 < 2 ^ 64"
proof -
  have s: "unat (sb_block_size sb) \<le> 4096" using assms(1) by (simp add: sized_def word_le_nat_alt)
  have b: "unat block < 2 ^ 32" using unsigned_less [of block, where 'a = nat] by simp
  then have "unat block * unat (sb_block_size sb) \<le> 2 ^ 32 * 4096" using s by (intro mult_mono) simp_all
  then show bound: "unat block * unat (sb_block_size sb) + i + 2 ^ 32 < 2 ^ 64" using assms(2) s by simp
  have "unat (ucast block * ucast (sb_block_size sb) :: u64) = unat block * unat (sb_block_size sb)"
    using bound by (simp add: unat_word_ariths unat_up)
  then show "unat (place sb block i) = unat block * unat (sb_block_size sb) + i"
    using unat_offset [of "ucast block * ucast (sb_block_size sb)" i] bound by (simp add: place_def)
qed

lemma place_plus: "place sb block (i + j) = place sb block i + word_of_nat j"
  by (simp add: place_def)

lemma place_ucast: "place sb block (unat offset) = ucast block * ucast (sb_block_size sb) + ucast (offset :: u32)"
  by (simp add: place_def)

lemma byte_overwrite:
  assumes "sized sb" "off + length bytes \<le> unat (sb_block_size sb)" "i < unat (sb_block_size sb)"
  shows "byte_at (overwrite d (place sb b off) bytes D) d sb b' i =
    (if b' = b \<and> off \<le> i \<and> i < off + length bytes then Some (bytes ! (i - off)) else byte_at D d sb b' i)"
proof -
  let ?S = "unat (sb_block_size sb)"
  have p: "unat (place sb b off) = unat b * ?S + off" "unat b * ?S + off + 2 ^ 32 < 2 ^ 64" using unat_place [OF assms(1), of off b] assms(2) by auto
  have q: "unat (place sb b' i) = unat b' * ?S + i" using unat_place(1) [OF assms(1), of i b'] assms(3) by simp
  have "length bytes \<le> 4096" using assms(1,2) by (simp add: sized_def word_le_nat_alt)
  then have R: "unat (place sb b' i - place sb b off) < length bytes \<longleftrightarrow>
      unat b * ?S + off \<le> unat b' * ?S + i \<and> unat b' * ?S + i < unat b * ?S + off + length bytes"
    using in_run [of "place sb b off" "length bytes" "place sb b' i"] p q by simp
  have eq: "unat b' = unat b" if "unat b * ?S + off \<le> unat b' * ?S + i" "unat b' * ?S + i < unat b * ?S + off + length bytes"
  proof -
    have "unat b' * ?S + i < Suc (unat b) * ?S" using that(2) assms(2) by simp
    then have "unat b' < Suc (unat b)" by (metis add_lessD1 mult_less_cancel2)
    moreover have "unat b * ?S < Suc (unat b') * ?S" using that(1) assms(3) by simp
    then have "unat b < Suc (unat b')" by (metis mult_less_cancel2)
    ultimately show ?thesis by simp
  qed
  have off: "unat (place sb b' i - place sb b off) = i - off" if "b' = b" "off \<le> i"
    using that p q by (simp add: unat_run word_le_nat_alt)
  show ?thesis
  proof (cases "b' = b")
    case True
    then show ?thesis using R off by (auto simp: byte_at_def overwrite_def)
  next
    case False
    then show ?thesis using R eq by (auto simp: byte_at_def overwrite_def word_unat_eq_iff)
  qed
qed

text \<open>Runs within one block.\<close>

definition bytes_at :: "(nat \<Rightarrow> u64 \<Rightarrow> u8 option) \<Rightarrow> nat \<Rightarrow> Ext2Superblock \<Rightarrow> u32 \<Rightarrow> nat \<Rightarrow> u8 list \<Rightarrow> bool" where
  "bytes_at D d sb block off bytes \<longleftrightarrow> (\<forall>i < length bytes. byte_at D d sb block (off + i) = Some (bytes ! i))"

lemma bytes_at_unique: "bytes_at D d sb b off xs \<Longrightarrow> bytes_at D d sb b off ys \<Longrightarrow> length xs = length ys \<Longrightarrow> xs = ys"
  unfolding bytes_at_def by (intro nth_equalityI) auto

context block_driver
begin

lemma Ext2ReadBytes_runs:
  assumes "ext2_ok d s" "volume s = Some sb" "sized sb"
  shows "runs (Ext2ReadBytes d block off n) s (\<lambda>s' r. still d s s' \<and>
    (\<forall>bytes. r = Some bytes \<longrightarrow> block < sb_block_count sb \<and> unat off + unat n \<le> unat (sb_block_size sb) \<and>
      length bytes = unat n \<and> bytes_at (disk_of stored s) d sb block (unat off) bytes))"
proof (cases "sb_block_count sb \<le> block \<or> sb_block_size sb < off \<or> sb_block_size sb - off < n")
  case True
  have "still d s (s\<lparr>Ext2Error := e, Ext2Refused := k\<rparr>)" for e k using assms(1) by (simp add: still_def ext2_ok_for_def disk_of_def)
  moreover obtain reason where "Ext2ReadBytes d block off n s = Ext2Refuse reason s"
    using True assms(2) by (cases "sb_block_count sb \<le> block") (auto simp: Ext2ReadBytes_def Let_def)
  ultimately show ?thesis by (simp add: runs_def Ext2Refuse_def)
next
  case False
  then have off: "off \<le> sb_block_size sb" "n \<le> sb_block_size sb - off" "block < sb_block_count sb" by (auto simp: not_le not_less)
  then have le: "unat off + unat n \<le> unat (sb_block_size sb)" by (simp add: word_le_nat_alt unat_sub)
  let ?p = "place sb block (unat off)"
  have p: "unat ?p + unat n < 2 ^ 64" using unat_place [OF assms(3), of "unat off" block] off(1) unsigned_less [of n, where 'a = nat]
    by (simp add: word_le_nat_alt)
  have "Ext2ReadBytes d block off n s = ReadBytesFrom d ?p n [] s"
    using False assms(2) by (auto simp: Ext2ReadBytes_def Let_def place_ucast not_le not_less)
  then show ?thesis using ReadBytesFrom_runs [OF assms(1) p, of "[]"] off(3) le
    by (auto simp: runs_def bytes_at_def byte_at_def place_plus)
qed

lemma Ext2WriteBytes_runs:
  assumes "ext2_ok d s" "volume s = Some sb" "sized sb" "unat n \<le> length source"
  shows "runs (Ext2WriteBytes d block off n source) s (\<lambda>s' r. volume s' = volume s \<and> ext2_ok d s' \<and>
    (r \<noteq> None \<longrightarrow> block < sb_block_count sb \<and> unat off + unat n \<le> unat (sb_block_size sb) \<and>
       disk_of stored s' = overwrite d (place sb block (unat off)) (take (unat n) source) (disk_of stored s)) \<and>
    (r = None \<longrightarrow> disk_of stored s' = disk_of stored s \<or> unat off + unat n \<le> unat (sb_block_size sb) \<and>
      (\<exists>k < unat n. disk_of stored s' = overwrite d (place sb block (unat off)) (take k source) (disk_of stored s))))"
proof (cases "sb_block_count sb \<le> block \<or> sb_block_size sb < off \<or> sb_block_size sb - off < n")
  case True
  obtain reason where "Ext2WriteBytes d block off n source s = Ext2WriteRefuse reason s"
    using True assms(2) by (cases "sb_block_count sb \<le> block") (auto simp: Ext2WriteBytes_def Let_def)
  then show ?thesis using assms(1) by (simp add: runs_def Ext2WriteRefuse_def ext2_ok_for_def disk_of_def)
next
  case False
  then have off: "off \<le> sb_block_size sb" "n \<le> sb_block_size sb - off" "block < sb_block_count sb" by (auto simp: not_le not_less)
  then have le: "unat off + unat n \<le> unat (sb_block_size sb)" by (simp add: word_le_nat_alt unat_sub)
  let ?p = "place sb block (unat off)"
  have p: "unat ?p + unat n < 2 ^ 64" using unat_place [OF assms(3), of "unat off" block] off(1) unsigned_less [of n, where 'a = nat]
    by (simp add: word_le_nat_alt)
  have "Ext2WriteBytes d block off n source s = WriteBytesFrom d ?p n source s"
    using False assms(2) by (auto simp: Ext2WriteBytes_def Let_def place_ucast not_le not_less)
  then show ?thesis using WriteBytesFrom_runs [OF assms(1) p assms(4)] off(3) le by (auto simp: runs_def dest: le_neq_implies_less)
qed

end

end
