(* ===== verification/Ext2View.thy ===== *)
theory Ext2View
  imports Ext2Geometry Ext2Bytes Ext2Medium
begin

text \<open>
  The groups and bitmaps of a volume as the disk holds them, and what the writes of the allocator
  (a bit of a bitmap, a descriptor, the superblock) make of them.
\<close>

subsection \<open>Descriptors and bits upon the disk\<close>

definition run_at :: "(nat \<Rightarrow> u64 \<Rightarrow> u8 option) \<Rightarrow> nat \<Rightarrow> Ext2Superblock \<Rightarrow> u32 \<Rightarrow> nat \<Rightarrow> nat \<Rightarrow> u8 list" where
  "run_at D d sb block off n = map (\<lambda>i. the (byte_at D d sb block (off + i))) [0..<n]"

lemma bytes_at_run: "bytes_at D d sb block off bytes \<Longrightarrow> length bytes = n \<Longrightarrow> bytes = run_at D d sb block off n"
  by (intro nth_equalityI) (auto simp: bytes_at_def run_at_def)

lemma run_at_length [simp]: "length (run_at D d sb block off n) = n"
  by (simp add: run_at_def)

definition descriptor_block :: "Ext2Superblock \<Rightarrow> u32 \<Rightarrow> u32" where
  "descriptor_block sb g = Ext2GroupDescriptorBlock sb + g * EXT2_GROUP_DESCRIPTOR_SIZE div sb_block_size sb"

definition descriptor_offset :: "Ext2Superblock \<Rightarrow> u32 \<Rightarrow> nat" where
  "descriptor_offset sb g = unat (g * EXT2_GROUP_DESCRIPTOR_SIZE mod sb_block_size sb)"

definition descriptor_raw :: "(nat \<Rightarrow> u64 \<Rightarrow> u8 option) \<Rightarrow> nat \<Rightarrow> Ext2Superblock \<Rightarrow> u32 \<Rightarrow> u8 list" where
  "descriptor_raw D d sb g = run_at D d sb (descriptor_block sb g) (descriptor_offset sb g) 32"

definition descriptor :: "(nat \<Rightarrow> u64 \<Rightarrow> u8 option) \<Rightarrow> nat \<Rightarrow> Ext2Superblock \<Rightarrow> u32 \<Rightarrow> Ext2GroupDescriptor" where
  "descriptor D d sb g = ParsedDescriptor g (descriptor_raw D d sb g)"

definition bit_at :: "(nat \<Rightarrow> u64 \<Rightarrow> u8 option) \<Rightarrow> nat \<Rightarrow> Ext2Superblock \<Rightarrow> u32 \<Rightarrow> nat \<Rightarrow> bool" where
  "bit_at D d sb bitmap i = bit (the (byte_at D d sb bitmap (i div 8))) (i mod 8)"

definition superblock_block :: "Ext2Superblock \<Rightarrow> u32" where
  "superblock_block sb = EXT2_SUPERBLOCK_OFFSET div sb_block_size sb"

lemma and_power: "(b AND push_bit n 1 \<noteq> (0 :: u8)) = bit b n"
  by (simp add: bit_iff_and_push_bit_not_eq_0)

lemma descriptor_group [simp]: "gd_group (descriptor D d sb g) = g"
  by (simp add: descriptor_def ParsedDescriptor_def)

subsection \<open>The volume as places in its groups\<close>

text \<open>Two bitmaps to a group, one of its blocks and one of its inodes.\<close>

definition bitmap_of :: "(nat \<Rightarrow> u64 \<Rightarrow> u8 option) \<Rightarrow> nat \<Rightarrow> Ext2Superblock \<Rightarrow> bool \<Rightarrow> u32 \<Rightarrow> u32" where
  "bitmap_of D d sb inodes g = (if inodes then gd_inode_bitmap (descriptor D d sb g) else gd_block_bitmap (descriptor D d sb g))"

definition marked :: "(nat \<Rightarrow> u64 \<Rightarrow> u8 option) \<Rightarrow> nat \<Rightarrow> Ext2Superblock \<Rightarrow> bool \<Rightarrow> u32 \<Rightarrow> nat \<Rightarrow> bool" where
  "marked D d sb inodes g i = bit_at D d sb (bitmap_of D d sb inodes g) i"

definition metadata :: "(nat \<Rightarrow> u64 \<Rightarrow> u8 option) \<Rightarrow> nat \<Rightarrow> Ext2Superblock \<Rightarrow> u32 \<Rightarrow> bool" where
  "metadata D d sb block \<longleftrightarrow> block = superblock_block sb \<or>
     (\<exists>g < sb_group_count sb. block = descriptor_block sb g \<or> block = bitmap_of D d sb False g \<or> block = bitmap_of D d sb True g)"

text \<open>A volume laid out as one made by the usual tools is: no two of its structures overlap.\<close>

definition layout :: "(nat \<Rightarrow> u64 \<Rightarrow> u8 option) \<Rightarrow> nat \<Rightarrow> Ext2Superblock \<Rightarrow> bool" where
  "layout D d sb \<longleftrightarrow> geometry sb \<and> unat (sb_inode_count sb) = unat (sb_group_count sb) * unat (sb_inodes_per_group sb) \<and>
     (\<forall>k k' g g'. g < sb_group_count sb \<longrightarrow> g' < sb_group_count sb \<longrightarrow> bitmap_of D d sb k g = bitmap_of D d sb k' g' \<longrightarrow> k = k' \<and> g = g') \<and>
     (\<forall>k. \<forall>g < sb_group_count sb. bitmap_of D d sb k g \<noteq> superblock_block sb \<and>
        (\<forall>g' < sb_group_count sb. bitmap_of D d sb k g \<noteq> descriptor_block sb g'))"

text \<open>What an operation leaves: where the bitmaps are and every byte that is a file's, and the bits but for some that become \<open>b\<close>.\<close>

definition same_groups :: "nat \<Rightarrow> Ext2Superblock \<Rightarrow> (nat \<Rightarrow> u64 \<Rightarrow> u8 option) \<Rightarrow> (nat \<Rightarrow> u64 \<Rightarrow> u8 option) \<Rightarrow> bool" where
  "same_groups d sb D D' \<longleftrightarrow> (\<forall>k. \<forall>g < sb_group_count sb. bitmap_of D' d sb k g = bitmap_of D d sb k g) \<and>
     (\<forall>block i. \<not> metadata D d sb block \<longrightarrow> i < unat (sb_block_size sb) \<longrightarrow> byte_at D' d sb block i = byte_at D d sb block i)"

definition marks_become :: "nat \<Rightarrow> Ext2Superblock \<Rightarrow> (bool \<times> u32 \<times> nat) set \<Rightarrow> bool \<Rightarrow>
    (nat \<Rightarrow> u64 \<Rightarrow> u8 option) \<Rightarrow> (nat \<Rightarrow> u64 \<Rightarrow> u8 option) \<Rightarrow> bool" where
  "marks_become d sb X b D D' \<longleftrightarrow> (\<forall>k. \<forall>g < sb_group_count sb. \<forall>i < unat (sb_block_size sb) * 8.
     marked D' d sb k g i = (if (k, g, i) \<in> X then b else marked D d sb k g i))"

lemma layout_geometry: "layout D d sb \<Longrightarrow> geometry sb"
  by (simp add: layout_def)

lemma geometry_sized: "geometry sb \<Longrightarrow> sized sb"
  by (auto simp: geometry_def sized_def)

lemma same_groups_metadata: "same_groups d sb D D' \<Longrightarrow> metadata D' d sb = metadata D d sb"
  unfolding same_groups_def metadata_def by (intro ext) (elim conjE, simp cong: conj_cong)

lemma same_groups_layout: "same_groups d sb D D' \<Longrightarrow> layout D d sb \<Longrightarrow> layout D' d sb"
  by (simp add: same_groups_def layout_def)

lemma same_groups_refl: "same_groups d sb D D"
  by (simp add: same_groups_def)

lemma same_groups_trans: "same_groups d sb D D' \<Longrightarrow> same_groups d sb D' D'' \<Longrightarrow> same_groups d sb D D''"
  using same_groups_metadata [of d sb D D'] by (auto simp: same_groups_def)

lemma marks_refl: "marks_become d sb {} b D D"
  by (simp add: marks_become_def)

lemma marks_trans: "marks_become d sb X b D D' \<Longrightarrow> marks_become d sb {} c D' D'' \<Longrightarrow> marks_become d sb X b D D''"
  by (simp add: marks_become_def)

lemma marks_after: "marks_become d sb {} c D D' \<Longrightarrow> marks_become d sb X b D' D'' \<Longrightarrow> marks_become d sb X b D D''"
  by (simp add: marks_become_def)

subsection \<open>Where the descriptors lie\<close>

lemma descriptor_place:
  assumes "geometry sb"
  shows "descriptor_offset sb g + 32 \<le> unat (sb_block_size sb)" "32 dvd descriptor_offset sb g" "descriptor_block sb g \<noteq> superblock_block sb"
proof -
  let ?x = "g * EXT2_GROUP_DESCRIPTOR_SIZE"
  have size: "unat (sb_block_size sb) \<in> {1024, 2048, 4096}" using assms by (auto simp: geometry_def)
  have x: "unat ?x = (unat g * 32) mod 2 ^ 32" by (simp add: EXT2_GROUP_DESCRIPTOR_SIZE_def unat_word_ariths)
  have "32 dvd unat ?x" unfolding x by (simp add: dvd_mod)
  then have m: "32 dvd unat ?x mod unat (sb_block_size sb)" using size by (auto simp: dvd_mod)
  show dvd: "32 dvd descriptor_offset sb g" using m by (simp add: descriptor_offset_def unat_mod)
  have "descriptor_offset sb g < unat (sb_block_size sb)" using size by (auto simp: descriptor_offset_def unat_mod)
  moreover have "32 dvd unat (sb_block_size sb)" using size by auto
  ultimately show "descriptor_offset sb g + 32 \<le> unat (sb_block_size sb)" using dvd by (auto simp: dvd_def)
  have q: "unat (?x div sb_block_size sb) = unat ?x div unat (sb_block_size sb)" by (simp add: unat_div)
  have "unat ?x < 2 ^ 32" using unsigned_less [of ?x, where 'a = nat] by simp
  then have q': "unat (?x div sb_block_size sb) < 2 ^ 32 - 2" using size by (auto simp: q)
  have first: "unat (Ext2GroupDescriptorBlock sb) = (if sb_block_size sb = 1024 then 2 else 1)"
    using assms by (auto simp: geometry_def Ext2GroupDescriptorBlock_def)
  have "unat (descriptor_block sb g) = unat (Ext2GroupDescriptorBlock sb) + unat (?x div sb_block_size sb)"
    unfolding descriptor_block_def using q' first by (simp add: unat_word_ariths split: if_splits)
  moreover have "unat (superblock_block sb) = (if sb_block_size sb = 1024 then 1 else 0)"
    using assms by (auto simp: geometry_def superblock_block_def EXT2_SUPERBLOCK_OFFSET_def)
  ultimately show "descriptor_block sb g \<noteq> superblock_block sb" using first by (auto split: if_splits)
qed

lemma aligned_overlap: "32 dvd a \<Longrightarrow> 32 dvd b \<Longrightarrow> b \<le> a + i \<Longrightarrow> a + i < b + 32 \<Longrightarrow> i < 32 \<Longrightarrow> a = (b :: nat)"
  by (auto simp: dvd_def)

subsection \<open>What the bytes decide\<close>

lemma descriptor_cong:
  assumes "\<And>i. i < 32 \<Longrightarrow> byte_at D' d sb (descriptor_block sb g) (descriptor_offset sb g + i) = byte_at D d sb (descriptor_block sb g) (descriptor_offset sb g + i)"
  shows "descriptor D' d sb g = descriptor D d sb g"
proof -
  have "descriptor_raw D' d sb g = descriptor_raw D d sb g" using assms by (simp add: descriptor_raw_def run_at_def)
  then show ?thesis by (simp add: descriptor_def)
qed

lemma pointers_cong:
  assumes "\<And>i. i < 12 \<Longrightarrow> byte_at D' d sb (descriptor_block sb g) (descriptor_offset sb g + i) = byte_at D d sb (descriptor_block sb g) (descriptor_offset sb g + i)"
  shows "bitmap_of D' d sb k g = bitmap_of D d sb k g"
proof -
  have same: "descriptor_raw D' d sb g ! i = descriptor_raw D d sb g ! i" if "i < 12" for i
    using assms [OF that] that by (simp add: descriptor_raw_def run_at_def)
  have "Ext2ReadWord (descriptor_raw D' d sb g) 0 = Ext2ReadWord (descriptor_raw D d sb g) 0"
    "Ext2ReadWord (descriptor_raw D' d sb g) 4 = Ext2ReadWord (descriptor_raw D d sb g) 4"
    by (rule read_cong(1); use same in simp)+
  then show ?thesis by (simp add: bitmap_of_def descriptor_def ParsedDescriptor_def)
qed

lemma marked_cong:
  assumes "bitmap_of D' d sb k g = bitmap_of D d sb k g"
    and "byte_at D' d sb (bitmap_of D d sb k g) (i div 8) = byte_at D d sb (bitmap_of D d sb k g) (i div 8)"
  shows "marked D' d sb k g i = marked D d sb k g i"
  using assms by (simp add: marked_def bit_at_def)

subsection \<open>Writes\<close>

lemma written_elsewhere:
  assumes "geometry sb" "off + length bytes \<le> unat (sb_block_size sb)" "i < unat (sb_block_size sb)"
    and "block' = block \<Longrightarrow> i < off \<or> off + length bytes \<le> i"
  shows "byte_at (overwrite d (place sb block off) bytes D) d sb block' i = byte_at D d sb block' i"
  using byte_overwrite [OF geometry_sized [OF assms(1)] assms(2,3), of d block D block'] assms(4) by auto

lemma same_groupsI:
  assumes "\<And>k g. g < sb_group_count sb \<Longrightarrow> bitmap_of D' d sb k g = bitmap_of D d sb k g" "metadata D d sb written"
    and "\<And>block i. block \<noteq> written \<Longrightarrow> i < unat (sb_block_size sb) \<Longrightarrow> byte_at D' d sb block i = byte_at D d sb block i"
  shows "same_groups d sb D D'"
  unfolding same_groups_def using assms by metis

text \<open>A bit of a bitmap.\<close>

lemma bitmap_write:
  assumes "layout D d sb" "g < sb_group_count sb" "i < unat (sb_block_size sb) * 8"
    and "\<And>j. j < 8 \<Longrightarrow> bit byte j = (if j = i mod 8 then b else bit (the (byte_at D d sb (bitmap_of D d sb k g) (i div 8))) j)"
  defines "D' \<equiv> overwrite d (place sb (bitmap_of D d sb k g) (i div 8)) [byte] D"
  shows "same_groups d sb D D'" "marks_become d sb {(k, g, i)} b D D'" "\<And>g'. g' < sb_group_count sb \<Longrightarrow> descriptor D' d sb g' = descriptor D d sb g'"
proof -
  let ?B = "bitmap_of D d sb k g"
  have geo: "geometry sb" using assms(1) by (rule layout_geometry)
  have off: "i div 8 + length [byte] \<le> unat (sb_block_size sb)" using assms(3) by simp
  have else_where: "byte_at D' d sb block x = byte_at D d sb block x" if "block \<noteq> ?B \<or> x \<noteq> i div 8" "x < unat (sb_block_size sb)" for block x
    unfolding D'_def by (rule written_elsewhere [OF geo off]) (use that in auto)
  show desc: "descriptor D' d sb g' = descriptor D d sb g'" if "g' < sb_group_count sb" for g'
  proof (rule descriptor_cong, rule else_where)
    have "?B \<noteq> descriptor_block sb g'" using assms(1,2) that by (simp add: layout_def)
    then show "descriptor_block sb g' \<noteq> ?B \<or> descriptor_offset sb g' + x \<noteq> i div 8" for x by simp
    show "descriptor_offset sb g' + x < unat (sb_block_size sb)" if "x < 32" for x using descriptor_place(1) [OF geo, of g'] that by simp
  qed
  have bitmaps: "bitmap_of D' d sb k' g' = bitmap_of D d sb k' g'" if "g' < sb_group_count sb" for k' g'
    using desc [OF that] by (simp add: bitmap_of_def)
  have "metadata D d sb ?B" using assms(2) by (cases k) (auto simp: metadata_def)
  then show "same_groups d sb D D'" using bitmaps else_where by (intro same_groupsI) auto
  have here: "byte_at D' d sb ?B (i div 8) = Some byte"
    using byte_overwrite [OF geometry_sized [OF geo] off, of "i div 8" d ?B D ?B] assms(3) by (simp add: D'_def)
  show "marks_become d sb {(k, g, i)} b D D'" unfolding marks_become_def
  proof (intro allI impI)
    fix k' g' j assume g': "g' < sb_group_count sb" "j < unat (sb_block_size sb) * 8"
    show "marked D' d sb k' g' j = (if (k', g', j) \<in> {(k, g, i)} then b else marked D d sb k' g' j)"
    proof (cases "k' = k \<and> g' = g \<and> j div 8 = i div 8")
      case True
      have "j = i \<longleftrightarrow> j mod 8 = i mod 8" using True by (metis div_mult_mod_eq)
      moreover have "marked D' d sb k' g' j = bit byte (j mod 8)" using True here bitmaps [OF g'(1)] by (simp add: marked_def bit_at_def)
      ultimately show ?thesis using True assms(4) [of "j mod 8"] by (simp add: marked_def bit_at_def)
    next
      case False
      have "bitmap_of D d sb k' g' \<noteq> ?B \<or> j div 8 \<noteq> i div 8" using False assms(1,2) g'(1) unfolding layout_def by blast
      then have "marked D' d sb k' g' j = marked D d sb k' g' j"
        by (intro marked_cong bitmaps else_where) (use g' in auto)
      then show ?thesis using False by auto
    qed
  qed
qed

text \<open>A descriptor, or a first part of it, whose structures are those it had.\<close>

lemma descriptor_write:
  assumes "layout D d sb" "g < sb_group_count sb" "length raw = 32" "n \<le> 32"
    and "bytes_at D d sb (descriptor_block sb g) (descriptor_offset sb g) old" "length old = 32" "\<And>i. i < 12 \<Longrightarrow> raw ! i = old ! i"
  defines "D' \<equiv> overwrite d (place sb (descriptor_block sb g) (descriptor_offset sb g)) (take n raw) D"
  shows "same_groups d sb D D'" "marks_become d sb {} b D D'"
    "n = 32 \<Longrightarrow> descriptor D' d sb g = ParsedDescriptor g raw"
    "g' < sb_group_count sb \<Longrightarrow> g' \<noteq> g \<Longrightarrow> descriptor D' d sb g' = descriptor D d sb g'"
proof -
  have geo: "geometry sb" using assms(1) by (rule layout_geometry)
  note place = descriptor_place [OF geo]
  have off: "descriptor_offset sb g + length (take n raw) \<le> unat (sb_block_size sb)" using place(1) [of g] assms(3,4) by simp
  have at: "byte_at D' d sb block x =
      (if block = descriptor_block sb g \<and> descriptor_offset sb g \<le> x \<and> x < descriptor_offset sb g + min 32 n
       then Some (take n raw ! (x - descriptor_offset sb g)) else byte_at D d sb block x)" if "x < unat (sb_block_size sb)" for block x
    using byte_overwrite [OF geometry_sized [OF geo] off that] assms(3) by (simp add: D'_def)
  have same: "descriptor_offset sb g' = descriptor_offset sb g"
    if "descriptor_offset sb g \<le> descriptor_offset sb g' + i" "descriptor_offset sb g' + i < descriptor_offset sb g + min 32 n" "i < 32" for g' i
    by (rule aligned_overlap [OF place(2) place(2) that(1)]) (use that(2,3) in simp_all)
  have bitmaps: "bitmap_of D' d sb k g' = bitmap_of D d sb k g'" for k g'
  proof (rule pointers_cong)
    fix i :: nat assume i: "i < 12"
    have x: "descriptor_offset sb g' + i < unat (sb_block_size sb)" using place(1) [of g'] i by simp
    show "byte_at D' d sb (descriptor_block sb g') (descriptor_offset sb g' + i) = byte_at D d sb (descriptor_block sb g') (descriptor_offset sb g' + i)"
      using at [OF x, of "descriptor_block sb g'"] same [of g' i] assms(5,6) assms(7) [OF i] i by (auto simp: bytes_at_def)
  qed
  have meta: "metadata D d sb (descriptor_block sb g)" using assms(2) by (auto simp: metadata_def)
  show "same_groups d sb D D'" using bitmaps meta at by (intro same_groupsI) auto
  show "marks_become d sb {} b D D'" unfolding marks_become_def
  proof (intro allI impI)
    fix k g' i assume g': "g' < sb_group_count sb" "i < unat (sb_block_size sb) * 8"
    have "bitmap_of D d sb k g' \<noteq> descriptor_block sb g" using assms(1,2) g'(1) by (simp add: layout_def)
    then have "marked D' d sb k g' i = marked D d sb k g' i" by (intro marked_cong bitmaps) (use g'(2) at in auto)
    then show "marked D' d sb k g' i = (if (k, g', i) \<in> {} then b else marked D d sb k g' i)" by simp
  qed
  show "descriptor D' d sb g = ParsedDescriptor g raw" if "n = 32"
  proof -
    have "descriptor_raw D' d sb g = raw"
      unfolding descriptor_raw_def by (rule nth_equalityI) (use that assms(3) at place(1) [of g] in \<open>auto simp: run_at_def\<close>)
    then show ?thesis by (simp add: descriptor_def)
  qed
  show "descriptor D' d sb g' = descriptor D d sb g'" if "g' < sb_group_count sb" "g' \<noteq> g"
  proof (rule descriptor_cong)
    fix i :: nat assume i: "i < 32"
    have "\<not> (descriptor_block sb g' = descriptor_block sb g \<and> descriptor_offset sb g' = descriptor_offset sb g)"
    proof
      assume "descriptor_block sb g' = descriptor_block sb g \<and> descriptor_offset sb g' = descriptor_offset sb g"
      then have "bitmap_of D d sb True g' = bitmap_of D d sb True g" by (simp add: bitmap_of_def descriptor_def descriptor_raw_def ParsedDescriptor_def)
      then show False using assms(1,2) that unfolding layout_def by blast
    qed
    moreover have "descriptor_offset sb g' + i < unat (sb_block_size sb)" using place(1) [of g'] i by simp
    ultimately show "byte_at D' d sb (descriptor_block sb g') (descriptor_offset sb g' + i) = byte_at D d sb (descriptor_block sb g') (descriptor_offset sb g' + i)"
      using at [of "descriptor_offset sb g' + i" "descriptor_block sb g'"] same [of g' i] i by auto
  qed
qed

text \<open>The superblock, and a block that is no part of the metadata.\<close>

lemma untouched_groups:
  assumes "layout D d sb" "off + length bytes \<le> unat (sb_block_size sb)"
    and "\<And>g. g < sb_group_count sb \<Longrightarrow> block \<noteq> descriptor_block sb g \<and> block \<noteq> bitmap_of D d sb False g \<and> block \<noteq> bitmap_of D d sb True g"
  defines "D' \<equiv> overwrite d (place sb block off) bytes D"
  shows "\<And>g. g < sb_group_count sb \<Longrightarrow> descriptor D' d sb g = descriptor D d sb g" "marks_become d sb {} b D D'"
    "\<And>k g. g < sb_group_count sb \<Longrightarrow> bitmap_of D' d sb k g = bitmap_of D d sb k g"
    "\<And>block' x. block' \<noteq> block \<Longrightarrow> x < unat (sb_block_size sb) \<Longrightarrow> byte_at D' d sb block' x = byte_at D d sb block' x"
proof -
  have geo: "geometry sb" using assms(1) by (rule layout_geometry)
  show other: "byte_at D' d sb block' x = byte_at D d sb block' x" if "block' \<noteq> block" "x < unat (sb_block_size sb)" for block' x
    unfolding D'_def by (rule written_elsewhere [OF geo assms(2)]) (use that in auto)
  show desc: "descriptor D' d sb g = descriptor D d sb g" if g: "g < sb_group_count sb" for g
  proof (rule descriptor_cong, rule other)
    show "descriptor_block sb g \<noteq> block" using assms(3) [OF g] by metis
    show "descriptor_offset sb g + x < unat (sb_block_size sb)" if "x < 32" for x using descriptor_place(1) [OF geo, of g] that by simp
  qed
  then show bitmaps: "bitmap_of D' d sb k g = bitmap_of D d sb k g" if "g < sb_group_count sb" for k g using that by (simp add: bitmap_of_def)
  show "marks_become d sb {} b D D'" unfolding marks_become_def
  proof (intro allI impI)
    fix k g i assume g: "g < sb_group_count sb" "i < unat (sb_block_size sb) * 8"
    have "bitmap_of D d sb k g \<noteq> block" using assms(3) [OF g(1)] by (cases k) auto
    then have "marked D' d sb k g i = marked D d sb k g i" by (intro marked_cong bitmaps other) (use g in auto)
    then show "marked D' d sb k g i = (if (k, g, i) \<in> {} then b else marked D d sb k g i)" by simp
  qed
qed

lemma superblock_write:
  assumes "layout D d sb" "unat (EXT2_SUPERBLOCK_OFFSET mod sb_block_size sb) + length bytes \<le> unat (sb_block_size sb)"
  defines "D' \<equiv> overwrite d (place sb (superblock_block sb) (unat (EXT2_SUPERBLOCK_OFFSET mod sb_block_size sb))) bytes D"
  shows "same_groups d sb D D'" "marks_become d sb {} b D D'" "g < sb_group_count sb \<Longrightarrow> descriptor D' d sb g = descriptor D d sb g"
proof -
  have free: "superblock_block sb \<noteq> descriptor_block sb g \<and> superblock_block sb \<noteq> bitmap_of D d sb False g \<and> superblock_block sb \<noteq> bitmap_of D d sb True g"
    if "g < sb_group_count sb" for g
    using assms(1) that descriptor_place(3) [OF layout_geometry [OF assms(1)], of g] by (metis layout_def)
  note U = untouched_groups [OF assms(1,2) free]
  show "g < sb_group_count sb \<Longrightarrow> descriptor D' d sb g = descriptor D d sb g" "marks_become d sb {} b D D'"
    unfolding D'_def using U(1,2) by simp_all
  have "metadata D d sb (superblock_block sb)" by (simp add: metadata_def)
  then show "same_groups d sb D D'" unfolding D'_def by (intro same_groupsI U(3,4))
qed

end
