(* ===== verification/Ext2AllocFacts.thy ===== *)
theory Ext2AllocFacts
  imports Ext2Alloc Ext2View
begin

text \<open>
  What the operations of the allocator read and change of the disk.
\<close>

context block_driver
begin

lemma still_trans: "still d s s' \<Longrightarrow> still d s' s'' \<Longrightarrow> still d s s''"
  by (simp add: still_def)

lemma still_refl: "ext2_ok d s \<Longrightarrow> still d s s"
  by (simp add: still_def)

text \<open>A refusal changes the account alone.\<close>

lemma refusals_run:
  assumes "ext2_ok d s" "\<And>s'. still d s s' \<Longrightarrow> P s' None"
  shows "runs (Ext2Refuse reason) s P" "runs (Ext2GroupRefuse reason) s P" "runs (Ext2WriteRefuse reason) s P"
    "runs (Ext2InodeRefuse reason) s P" "runs (Ext2ReadRefuse reason) s P"
  using assms by (simp_all add: runs_def Ext2Refuse_def Ext2GroupRefuse_def Ext2WriteRefuse_def Ext2InodeRefuse_def
      Ext2ReadRefuse_def still_def ext2_ok_for_def disk_of_def)

lemma unat_wide: "unat (ucast (h :: u16) :: u32) = unat h"
  using unsigned_less [of h, where 'a = nat] by (simp add: unsigned_ucast_eq take_bit_nat_eq_self)

lemma CheckedDescriptor_runs:
  assumes "ext2_ok d s" "volume s = Some sb"
  shows "runs (CheckedDescriptor v) s (\<lambda>s' r. still d s s' \<and> (\<forall>w. r = Some w \<longrightarrow> w = v \<and>
    Ext2BlockExists sb (gd_block_bitmap v) \<and> Ext2BlockExists sb (gd_inode_bitmap v) \<and>
    unat (gd_free_block_count v) \<le> unat (Ext2GroupBlockCount sb (gd_group v)) \<and> unat (gd_free_inode_count v) \<le> unat (sb_inodes_per_group sb)))"
  using assms by (auto simp: runs_def CheckedDescriptor_def Let_def Ext2GroupRefuse_def still_def ext2_ok_for_def disk_of_def
      word_less_nat_alt unat_wide)

lemma Ext2ReadGroupDescriptor_runs:
  assumes "ext2_ok d s" "volume s = Some sb" "sized sb"
  shows "runs (Ext2ReadGroupDescriptor (Some d) g True) s (\<lambda>s' r. still d s s' \<and>
    (\<forall>v. r = Some v \<longrightarrow> g < sb_group_count sb \<and> v = descriptor (disk_of stored s) d sb g \<and>
       descriptor_offset sb g + 32 \<le> unat (sb_block_size sb) \<and>
       Ext2BlockExists sb (gd_block_bitmap v) \<and> Ext2BlockExists sb (gd_inode_bitmap v) \<and>
       unat (gd_free_block_count v) \<le> unat (Ext2GroupBlockCount sb g) \<and> unat (gd_free_inode_count v) \<le> unat (sb_inodes_per_group sb)))"
    (is "runs _ s ?P")
proof (cases "sb_group_count sb \<le> g \<or> sb_block_count sb < Ext2GroupDescriptorBlock sb + Ext2GroupDescriptorBlocks sb")
  case True
  then obtain reason where "Ext2ReadGroupDescriptor (Some d) g True s = Ext2GroupRefuse reason s"
    using assms(2) by (cases "sb_group_count sb \<le> g") (auto simp: Ext2ReadGroupDescriptor_def Let_def)
  moreover have "runs (Ext2GroupRefuse reason) s ?P" by (rule refusals_run(2) [OF assms(1)]) simp
  ultimately show ?thesis by (simp add: runs_def)
next
  case False
  let ?read = "Ext2ReadBytes d (descriptor_block sb g) (g * EXT2_GROUP_DESCRIPTOR_SIZE mod sb_block_size sb) EXT2_GROUP_DESCRIPTOR_SIZE"
  have "Ext2ReadGroupDescriptor (Some d) g True s = ext2_then ?read (\<lambda>raw. CheckedDescriptor (ParsedDescriptor g raw)) s"
    using False assms(2) by (simp add: Ext2ReadGroupDescriptor_def Let_def descriptor_block_def)
  moreover have "runs (ext2_then ?read (\<lambda>raw. CheckedDescriptor (ParsedDescriptor g raw))) s ?P"
  proof (rule runs_then [OF Ext2ReadBytes_runs [OF assms]])
    fix s' raw
    assume "still d s s' \<and> (\<forall>bytes. Some raw = Some bytes \<longrightarrow> descriptor_block sb g < sb_block_count sb \<and>
        unat (g * EXT2_GROUP_DESCRIPTOR_SIZE mod sb_block_size sb) + unat EXT2_GROUP_DESCRIPTOR_SIZE \<le> unat (sb_block_size sb) \<and>
        length bytes = unat EXT2_GROUP_DESCRIPTOR_SIZE \<and>
        bytes_at (disk_of stored s) d sb (descriptor_block sb g) (unat (g * EXT2_GROUP_DESCRIPTOR_SIZE mod sb_block_size sb)) bytes)"
    then have R: "still d s s'" "descriptor_offset sb g + 32 \<le> unat (sb_block_size sb)" "raw = descriptor_raw (disk_of stored s) d sb g"
      by (auto simp: bytes_at_run EXT2_GROUP_DESCRIPTOR_SIZE_def descriptor_offset_def descriptor_raw_def)
    have v: "ParsedDescriptor g raw = descriptor (disk_of stored s) d sb g" by (simp add: R(3) descriptor_def)
    have sb': "volume s' = Some sb" "ext2_ok d s'" using R(1) assms(2) by (simp_all add: still_def)
    let ?v = "descriptor (disk_of stored s) d sb g"
    have g: "gd_group ?v = g" by (simp add: descriptor_def ParsedDescriptor_def)
    show "runs (CheckedDescriptor (ParsedDescriptor g raw)) s' ?P"
      unfolding v by (rule runs_mono [OF CheckedDescriptor_runs [OF sb'(2,1)]]) (use R(1,2) g False still_trans in auto)
  qed (simp add: still_def)
  ultimately show ?thesis by (simp add: runs_def)
qed

text \<open>A read whose bytes the rest takes.\<close>

lemma read_then_runs:
  assumes "ext2_ok d s" "volume s = Some sb" "sized sb"
    and "\<And>s' bytes. still d s s' \<Longrightarrow> block < sb_block_count sb \<Longrightarrow> unat off + unat n \<le> unat (sb_block_size sb) \<Longrightarrow> length bytes = unat n \<Longrightarrow>
      bytes_at (disk_of stored s) d sb block (unat off) bytes \<Longrightarrow> runs (f bytes) s' P"
    and "\<And>s'. still d s s' \<Longrightarrow> P s' None"
  shows "runs (ext2_then (Ext2ReadBytes d block off n) f) s P"
  by (rule runs_then [OF Ext2ReadBytes_runs [OF assms(1-3)]]) (use assms(4,5) in auto)

lemma bitmap_offset: "unat (index div EXT2_BITS_PER_BYTE) = unat index div 8" "unat (index mod EXT2_BITS_PER_BYTE) = unat index mod 8"
  by (simp_all add: EXT2_BITS_PER_BYTE_def unat_div unat_mod)

lemma Ext2BitmapTest_runs:
  assumes "ext2_ok d s" "volume s = Some sb" "sized sb"
  shows "runs (Ext2BitmapTest d bitmap index) s (\<lambda>s' r. still d s s' \<and>
    (\<forall>used. r = Some used \<longrightarrow> used = bit_at (disk_of stored s) d sb bitmap (unat index)))"
  unfolding Ext2BitmapTest_def
proof (rule read_then_runs [OF assms])
  fix s' and bytes :: "u8 list"
  assume R: "still d s s'" "length bytes = unat (1 :: u32)" "bytes_at (disk_of stored s) d sb bitmap (unat (index div EXT2_BITS_PER_BYTE)) bytes"
  have "byte_at (disk_of stored s) d sb bitmap (unat index div 8) = Some (bytes ! 0)" using R(2,3) by (simp add: bytes_at_def bitmap_offset)
  then show "runs (ext2_done (bytes ! 0 AND push_bit (unat (index mod EXT2_BITS_PER_BYTE)) 1 \<noteq> 0)) s' (\<lambda>s' r. still d s s' \<and>
      (\<forall>used. r = Some used \<longrightarrow> used = bit_at (disk_of stored s) d sb bitmap (unat index)))"
    unfolding and_power by (intro runs_done) (simp add: R(1) bit_at_def bitmap_offset)
qed simp

lemma FindFreeFrom_runs:
  assumes "ext2_ok d s" "volume s = Some sb" "sized sb" "\<forall>p \<in> set ps. p < 2 ^ 32"
  shows "runs (FindFreeFrom d bitmap ps) s (\<lambda>s' r. still d s s' \<and>
    (r = Some None \<longrightarrow> (\<forall>p \<in> set ps. bit_at (disk_of stored s) d sb bitmap p)) \<and>
    (\<forall>index. r = Some (Some index) \<longrightarrow> \<not> bit_at (disk_of stored s) d sb bitmap (unat index) \<and>
       (\<exists>before after. ps = before @ unat index # after \<and> (\<forall>p \<in> set before. bit_at (disk_of stored s) d sb bitmap p))))"
  using assms
proof (induction ps arbitrary: s)
  case Nil
  then show ?case by (simp add: runs_done still_refl)
next
  case (Cons p ps)
  let ?D = "disk_of stored s"
  let ?P = "\<lambda>s' (r :: u32 option option). still d s s' \<and> (r = Some None \<longrightarrow> (\<forall>p \<in> set (p # ps). bit_at ?D d sb bitmap p)) \<and>
    (\<forall>index. r = Some (Some index) \<longrightarrow> \<not> bit_at ?D d sb bitmap (unat index) \<and>
       (\<exists>before after. p # ps = before @ unat index # after \<and> (\<forall>p \<in> set before. bit_at ?D d sb bitmap p)))"
  have p: "unat (word_of_nat p :: u32) = p" using Cons.prems(4) by (simp add: unat_of_nat take_bit_nat_eq_self)
  show ?case unfolding FindFreeFrom.simps
  proof (rule runs_then [OF Ext2BitmapTest_runs [OF Cons.prems(1-3)]])
    fix s' used
    assume "still d s s' \<and> (\<forall>u. Some used = Some u \<longrightarrow> u = bit_at ?D d sb bitmap (unat (word_of_nat p :: u32)))"
    then have S: "still d s s'" "used = bit_at ?D d sb bitmap p" by (simp_all add: p)
    show "runs (if \<not> used then ext2_done (Some (word_of_nat p)) else FindFreeFrom d bitmap ps) s' ?P"
    proof (cases used)
      case False
      have "p # ps = [] @ p # ps" "\<forall>p \<in> set []. bit_at ?D d sb bitmap p" by simp_all
      then have "\<exists>before after. p # ps = before @ p # after \<and> (\<forall>p \<in> set before. bit_at ?D d sb bitmap p)" by blast
      then have "?P s' (Some (Some (word_of_nat p)))" using S False by (simp add: p)
      then show ?thesis using False by (simp add: runs_done)
    next
      case True
      have s': "ext2_ok d s'" "volume s' = Some sb" "disk_of stored s' = ?D" using S(1) Cons.prems(2) by (simp_all add: still_def)
      have "runs (FindFreeFrom d bitmap ps) s' ?P"
      proof (rule runs_mono [OF Cons.IH [OF s'(1,2) Cons.prems(3)]])
        fix s'' and r :: "u32 option option"
        assume R: "still d s' s'' \<and> (r = Some None \<longrightarrow> (\<forall>p \<in> set ps. bit_at (disk_of stored s') d sb bitmap p)) \<and>
          (\<forall>index. r = Some (Some index) \<longrightarrow> \<not> bit_at (disk_of stored s') d sb bitmap (unat index) \<and>
            (\<exists>before after. ps = before @ unat index # after \<and> (\<forall>p \<in> set before. bit_at (disk_of stored s') d sb bitmap p)))"
        have found: "\<exists>before after. p # ps = before @ unat index # after \<and> (\<forall>p \<in> set before. bit_at ?D d sb bitmap p)"
          if "ps = before @ unat index # after" "\<forall>p \<in> set before. bit_at ?D d sb bitmap p" for before after index
          by (rule exI [of _ "p # before"]) (use that S(2) True in auto)
        have "still d s s''" using R S(1) still_trans by blast
        moreover have "r = Some None \<longrightarrow> (\<forall>p \<in> set (p # ps). bit_at ?D d sb bitmap p)" using R S(2) True unfolding s'(3) by simp
        moreover have "\<forall>index. r = Some (Some index) \<longrightarrow> \<not> bit_at ?D d sb bitmap (unat index) \<and>
            (\<exists>before after. p # ps = before @ unat index # after \<and> (\<forall>p \<in> set before. bit_at ?D d sb bitmap p))"
          using R found unfolding s'(3) by blast
        ultimately show "?P s'' r" by blast
      qed (use Cons.prems(4) in simp)
      then show ?thesis using True by simp
    qed
  qed simp
qed

lemma upt_split: "[0..<n] = before @ i # after \<Longrightarrow> i < n \<and> set before = {..<i}"
proof -
  assume eq: "[0..<n] = before @ i # after"
  have len: "length before < n" using arg_cong [OF eq, of length] by simp
  have "[0..<n] ! length before = i" unfolding eq by simp
  then have i: "i = length before" using len by simp
  have "before = take i [0..<n]" unfolding eq i by simp
  then have "before = [0..<i]" using len i by simp
  then have "set before = set [0..<i]" by (rule arg_cong)
  then show "i < n \<and> set before = {..<i}" using len i by (simp add: lessThan_atLeast0)
qed

lemma Ext2BitmapFindFree_runs:
  assumes "ext2_ok d s" "volume s = Some sb" "sized sb"
  shows "runs (Ext2BitmapFindFree d bitmap count) s (\<lambda>s' r. still d s s' \<and>
    (r = Some None \<longrightarrow> (\<forall>i < unat count. bit_at (disk_of stored s) d sb bitmap i)) \<and>
    (\<forall>index. r = Some (Some index) \<longrightarrow> index < count \<and> \<not> bit_at (disk_of stored s) d sb bitmap (unat index) \<and>
       (\<forall>i < unat index. bit_at (disk_of stored s) d sb bitmap i)))"
proof -
  have "unat count < 2 ^ 32" using unsigned_less [of count, where 'a = nat] by simp
  then have "\<forall>p \<in> set [0..<unat count]. p < 2 ^ 32" by auto
  from FindFreeFrom_runs [OF assms this, of bitmap] show ?thesis
    unfolding Ext2BitmapFindFree_def by (rule runs_mono) (auto simp: word_less_nat_alt dest!: upt_split)
qed

end

end
