(* ===== verification/Ext2AllocWrites.thy ===== *)
theory Ext2AllocWrites
  imports Ext2AllocFacts
begin

text \<open>
  The writes of the allocator: a bit of a bitmap, a descriptor, the superblock.  Each is judged by
  the bits it changes; all leave the bitmaps where they are and every file's bytes as they were.
\<close>

subsection \<open>The counts of free blocks and inodes\<close>

text \<open>Only these two fields of the structure in memory change while a volume is in use.\<close>

definition static :: "Ext2Superblock \<Rightarrow> Ext2Superblock \<Rightarrow> bool" where
  "static sb sb' \<longleftrightarrow>
     sb' = sb\<lparr>sb_free_block_count := sb_free_block_count sb', sb_free_inode_count := sb_free_inode_count sb'\<rparr>"

lemma static_refl [simp]: "static sb sb"
  by (simp add: static_def)

lemma static_counts [simp]: "static sb (sb\<lparr>sb_free_block_count := x\<rparr>)" "static sb (sb\<lparr>sb_free_inode_count := y\<rparr>)"
  by (simp_all add: static_def)

lemma static_trans: "static sb sb' \<Longrightarrow> static sb' sb'' \<Longrightarrow> static sb sb''"
  by (cases sb; cases sb'; cases sb'') (simp add: static_def)

lemma static_fields:
  assumes "static sb sb'"
  shows "sb_block_size sb' = sb_block_size sb" "sb_block_count sb' = sb_block_count sb" "sb_first_data_block sb' = sb_first_data_block sb"
    "sb_blocks_per_group sb' = sb_blocks_per_group sb" "sb_inodes_per_group sb' = sb_inodes_per_group sb"
    "sb_group_count sb' = sb_group_count sb" "sb_inode_count sb' = sb_inode_count sb" "sb_first_inode sb' = sb_first_inode sb"
    "sb_read_only sb' = sb_read_only sb"
  by (subst assms [unfolded static_def], simp)+

lemma static_view:
  assumes "static sb sb'"
  shows "place sb' = place sb" "byte_at D d sb' = byte_at D d sb" "descriptor D d sb' = descriptor D d sb" "superblock_block sb' = superblock_block sb"
    "descriptor_block sb' = descriptor_block sb" "descriptor_offset sb' = descriptor_offset sb"
    "bit_at D d sb' = bit_at D d sb" "geometry sb' = geometry sb" "bitmap_of D d sb' = bitmap_of D d sb" "marked D d sb' = marked D d sb"
    "metadata D d sb' = metadata D d sb" "layout D d sb' = layout D d sb" "same_groups d sb' = same_groups d sb"
    "marks_become d sb' = marks_become d sb" "Ext2BlockExists sb' = Ext2BlockExists sb" "Ext2GroupFirstBlock sb' = Ext2GroupFirstBlock sb"
    "Ext2GroupBlockCount sb' = Ext2GroupBlockCount sb"
proof -
  note F = static_fields [OF assms]
  show place: "place sb' = place sb" by (simp add: place_def F fun_eq_iff)
  then have byte: "byte_at D d sb' = byte_at D d sb" for D by (simp add: byte_at_def fun_eq_iff)
  then show "byte_at D d sb' = byte_at D d sb" .
  show db: "descriptor_block sb' = descriptor_block sb" "descriptor_offset sb' = descriptor_offset sb"
    by (simp_all add: descriptor_block_def descriptor_offset_def Ext2GroupDescriptorBlock_def F fun_eq_iff)
  show sbb: "superblock_block sb' = superblock_block sb" by (simp add: superblock_block_def F)
  have desc: "descriptor D d sb' = descriptor D d sb" for D
    by (simp add: descriptor_def descriptor_raw_def run_at_def byte db fun_eq_iff)
  then show "descriptor D d sb' = descriptor D d sb" .
  have bit: "bit_at D d sb' = bit_at D d sb" for D by (simp add: bit_at_def byte fun_eq_iff)
  then show "bit_at D d sb' = bit_at D d sb" .
  show geo: "geometry sb' = geometry sb" by (simp add: geometry_def F)
  have bm: "bitmap_of D d sb' = bitmap_of D d sb" for D by (simp add: bitmap_of_def desc fun_eq_iff)
  then show "bitmap_of D d sb' = bitmap_of D d sb" .
  have mk: "marked D d sb' = marked D d sb" for D by (simp add: marked_def bit bm fun_eq_iff)
  then show "marked D d sb' = marked D d sb" .
  have meta: "metadata D d sb' = metadata D d sb" for D by (simp add: metadata_def sbb db bm F fun_eq_iff)
  then show "metadata D d sb' = metadata D d sb" .
  show "layout D d sb' = layout D d sb" by (simp add: layout_def geo bm sbb db F)
  show "same_groups d sb' = same_groups d sb" by (simp add: same_groups_def fun_eq_iff bm byte meta F)
  show "marks_become d sb' = marks_become d sb" by (simp add: marks_become_def fun_eq_iff mk F)
  show "Ext2BlockExists sb' = Ext2BlockExists sb" by (simp add: Ext2BlockExists_def F fun_eq_iff)
  show first: "Ext2GroupFirstBlock sb' = Ext2GroupFirstBlock sb" by (simp add: Ext2GroupFirstBlock_def F fun_eq_iff)
  show "Ext2GroupBlockCount sb' = Ext2GroupBlockCount sb" by (simp add: Ext2GroupBlockCount_def Let_def first F fun_eq_iff)
qed

subsection \<open>What is written\<close>

text \<open>A descriptor and the superblock over the bytes they had, and a descriptor with an inode taken or returned.\<close>

definition described :: "Ext2GroupDescriptor \<Rightarrow> u8 list \<Rightarrow> u8 list" where
  "described v raw = Ext2WriteHalf 16 (gd_used_directory_count v) (Ext2WriteHalf 14 (gd_free_inode_count v)
     (Ext2WriteHalf 12 (gd_free_block_count v) (Ext2WriteWord 8 (gd_inode_table v)
       (Ext2WriteWord 4 (gd_inode_bitmap v) (Ext2WriteWord 0 (gd_block_bitmap v) raw)))))"

lemma described_facts:
  assumes "length raw = 32"
  shows "length (described v raw) = 32" "ParsedDescriptor (gd_group v) (described v raw) = v"
    "gd_block_bitmap v = Ext2ReadWord raw 0 \<Longrightarrow> gd_inode_bitmap v = Ext2ReadWord raw 4 \<Longrightarrow> gd_inode_table v = Ext2ReadWord raw 8 \<Longrightarrow>
      i < 12 \<Longrightarrow> described v raw ! i = raw ! i"
  using assms by (simp_all add: described_def ParsedDescriptor_def)

definition superblock_raw :: "(nat \<Rightarrow> u64 \<Rightarrow> u8 option) \<Rightarrow> nat \<Rightarrow> u8 list" where
  "superblock_raw D d = map (\<lambda>i. the (D d (word_of_nat (1024 + i)))) [0..<1024]"

lemma superblock_place:
  assumes "geometry sb"
  shows "place sb (superblock_block sb) (unat (EXT2_SUPERBLOCK_OFFSET mod sb_block_size sb)) = 1024"
    "unat (EXT2_SUPERBLOCK_OFFSET mod sb_block_size sb) + 1024 \<le> unat (sb_block_size sb)"
  using assms by (auto simp: geometry_def place_def superblock_block_def EXT2_SUPERBLOCK_OFFSET_def)

definition recorded :: "Ext2Superblock \<Rightarrow> u8 list \<Rightarrow> u8 list" where
  "recorded sb raw = Ext2WriteHalf 52 (sb_mount_count sb) (Ext2WriteWord 48 (sb_write_time sb) (Ext2WriteHalf 58 (sb_state sb)
     (Ext2WriteWord 16 (sb_free_inode_count sb) (Ext2WriteWord 12 (sb_free_block_count sb) raw))))"

lemma superblock_overwritten:
  assumes "length raw = 1024"
  shows "superblock_raw (overwrite d 1024 raw D) d = raw"
proof (rule nth_equalityI)
  fix i assume "i < length (superblock_raw (overwrite d 1024 raw D) d)"
  then have i: "i < 1024" by (simp add: superblock_raw_def)
  then have "unat (word_of_nat (1024 + i) - 1024 :: u64) = i" using unat_word_of_nat [of i] by simp
  then show "superblock_raw (overwrite d 1024 raw D) d ! i = raw ! i"
    using i assms by (simp add: superblock_raw_def overwrite_def del: of_nat_add)
qed (simp add: superblock_raw_def assms)

definition inode_accounted :: "bool \<Rightarrow> Ext2GroupDescriptor \<Rightarrow> Ext2GroupDescriptor" where
  "inode_accounted directory v = (let v = v\<lparr>gd_free_inode_count := gd_free_inode_count v - 1\<rparr>
     in if directory then v\<lparr>gd_used_directory_count := gd_used_directory_count v + 1\<rparr> else v)"

definition inode_returned :: "bool \<Rightarrow> Ext2GroupDescriptor \<Rightarrow> Ext2GroupDescriptor" where
  "inode_returned directory v = (let v = v\<lparr>gd_free_inode_count := gd_free_inode_count v + 1\<rparr>
     in if directory \<and> 0 < gd_used_directory_count v then v\<lparr>gd_used_directory_count := gd_used_directory_count v - 1\<rparr> else v)"

lemma inode_counts [simp]:
  "gd_group (inode_accounted b v) = gd_group v" "gd_block_bitmap (inode_accounted b v) = gd_block_bitmap v"
  "gd_inode_bitmap (inode_accounted b v) = gd_inode_bitmap v" "gd_inode_table (inode_accounted b v) = gd_inode_table v"
  "gd_free_block_count (inode_accounted b v) = gd_free_block_count v" "gd_free_inode_count (inode_accounted b v) = gd_free_inode_count v - 1"
  "gd_group (inode_returned b v) = gd_group v" "gd_block_bitmap (inode_returned b v) = gd_block_bitmap v"
  "gd_inode_bitmap (inode_returned b v) = gd_inode_bitmap v" "gd_inode_table (inode_returned b v) = gd_inode_table v"
  "gd_free_block_count (inode_returned b v) = gd_free_block_count v" "gd_free_inode_count (inode_returned b v) = gd_free_inode_count v + 1"
  by (simp_all add: inode_accounted_def inode_returned_def Let_def)

subsection \<open>A volume in use\<close>

definition volume_ok_for :: "'w BlockOperations \<Rightarrow> ('w \<Rightarrow> u64 \<Rightarrow> u64 \<Rightarrow> u8 list) \<Rightarrow> ('w \<Rightarrow> u64 \<Rightarrow> nat) \<Rightarrow> ('w \<Rightarrow> bool) \<Rightarrow> nat \<Rightarrow> Ext2Superblock \<Rightarrow>
    'w ext2_state \<Rightarrow> bool" where
  "volume_ok_for ops stored extent sound d sb s \<longleftrightarrow>
     ext2_ok_for ops stored extent sound d s \<and> volume s = Some sb \<and> layout (disk_of stored s) d sb"

context block_driver
begin

text \<open>A volume in use, and what an operation upon it leaves.\<close>

abbreviation volume_ok :: "nat \<Rightarrow> Ext2Superblock \<Rightarrow> 'w ext2_state \<Rightarrow> bool" where
  "volume_ok \<equiv> volume_ok_for ops stored extent sound"

definition altered :: "nat \<Rightarrow> Ext2Superblock \<Rightarrow> (bool \<times> u32 \<times> nat) set \<Rightarrow> bool \<Rightarrow> 'w ext2_state \<Rightarrow> 'w ext2_state \<Rightarrow> bool" where
  "altered d sb X b s s' \<longleftrightarrow> ext2_ok d s' \<and> same_groups d sb (disk_of stored s) (disk_of stored s') \<and>
     marks_become d sb X b (disk_of stored s) (disk_of stored s')"

lemma still_altered: "still d s s' \<Longrightarrow> altered d sb {} b s s'"
  by (simp add: still_def altered_def same_groups_refl marks_refl)

lemma altered_refl: "ext2_ok d s \<Longrightarrow> altered d sb {} b s s"
  by (simp add: altered_def same_groups_refl marks_refl)

lemma altered_trans: "altered d sb X b s s' \<Longrightarrow> altered d sb {} c s' s'' \<Longrightarrow> altered d sb X b s s''"
  by (auto simp: altered_def intro: same_groups_trans marks_trans)

lemma altered_after: "altered d sb {} c s s' \<Longrightarrow> altered d sb X b s' s'' \<Longrightarrow> altered d sb X b s s''"
  by (auto simp: altered_def intro: same_groups_trans marks_after)

lemma still_then_altered: "still d s s' \<Longrightarrow> altered d sb X b s' s'' \<Longrightarrow> altered d sb X b s s''"
  by (simp add: still_def altered_def)

lemma volume_ok_sized: "volume_ok d sb s \<Longrightarrow> ext2_ok d s \<and> volume s = Some sb \<and> sized sb"
  by (auto simp: volume_ok_for_def intro: geometry_sized layout_geometry)

lemma volume_ok_still: "volume_ok d sb s \<Longrightarrow> still d s s' \<Longrightarrow> volume_ok d sb s'"
  by (simp add: volume_ok_for_def still_def)

lemma volume_ok_altered: "volume_ok d sb s \<Longrightarrow> altered d sb X b s s' \<Longrightarrow> volume s' = Some sb' \<Longrightarrow> static sb sb' \<Longrightarrow> volume_ok d sb' s'"
  by (auto simp: volume_ok_for_def altered_def static_view intro: same_groups_layout)

lemma Ext2Writable_runs:
  assumes "ext2_ok d s" "volume s = Some sb" "\<not> sb_read_only sb \<Longrightarrow> runs (f ()) s P" "\<And>s'. still d s s' \<Longrightarrow> P s' None"
  shows "runs (ext2_then Ext2Writable f) s P"
  using assms(3) refusals_run(3) [OF assms(1), of P "''the volume is read-only and may not be altered''"] assms(2,4)
  by (cases "sb_read_only sb") (auto simp: runs_def ext2_then_def Ext2Writable_def ext2_done_def Ext2WriteRefuse_def)

subsection \<open>A bit\<close>

lemma Ext2BitmapSet_runs:
  assumes "volume_ok d sb s" "g < sb_group_count sb" "unat index < unat (sb_block_size sb) * 8"
  shows "runs (Ext2BitmapSet d (bitmap_of (disk_of stored s) d sb k g) index used what) s (\<lambda>s' r. volume s' = Some sb \<and>
    (r = None \<longrightarrow> still d s s') \<and>
    (r \<noteq> None \<longrightarrow> marked (disk_of stored s) d sb k g (unat index) \<noteq> used \<and> altered d sb {(k, g, unat index)} used s s' \<and>
       (\<forall>g' < sb_group_count sb. descriptor (disk_of stored s') d sb g' = descriptor (disk_of stored s) d sb g')))"
    (is "runs _ s ?P")
proof -
  let ?D = "disk_of stored s"
  let ?B = "bitmap_of ?D d sb k g" and ?mask = "push_bit (unat (index mod EXT2_BITS_PER_BYTE)) 1 :: u8" and ?off = "index div EXT2_BITS_PER_BYTE"
  have ok: "ext2_ok d s" "volume s = Some sb" "sized sb" and lay: "layout ?D d sb"
    using volume_ok_sized [OF assms(1)] assms(1) by (auto simp: volume_ok_for_def)
  have "runs (ext2_then (Ext2ReadBytes d ?B ?off 1) (\<lambda>byte. let byte = byte ! 0
      in if (byte AND ?mask \<noteq> 0) = used then Ext2WriteRefuse what
         else let byte = (if used then byte OR ?mask else byte AND NOT ?mask) in Ext2WriteBytes d ?B ?off 1 [byte])) s ?P"
  proof (rule read_then_runs [OF ok])
    fix s' and bytes :: "u8 list"
    assume R: "still d s s'" "length bytes = unat (1 :: u32)" "bytes_at ?D d sb ?B (unat ?off) bytes"
    have s': "ext2_ok d s'" "volume s' = Some sb" "disk_of stored s' = ?D" using R(1) ok(2) by (simp_all add: still_def)
    let ?byte = "bytes ! 0"
    let ?new = "if used then ?byte OR ?mask else ?byte AND NOT ?mask"
    have at: "byte_at ?D d sb ?B (unat index div 8) = Some ?byte" using R(2,3) by (simp add: bytes_at_def bitmap_offset)
    have was: "(?byte AND ?mask \<noteq> 0) = marked ?D d sb k g (unat index)" unfolding and_power by (simp add: marked_def bit_at_def at bitmap_offset)
    show "runs (let byte = ?byte in if (byte AND ?mask \<noteq> 0) = used then Ext2WriteRefuse what
        else let byte = (if used then byte OR ?mask else byte AND NOT ?mask) in Ext2WriteBytes d ?B ?off 1 [byte]) s' ?P"
    proof (cases "marked ?D d sb k g (unat index) = used")
      case True
      have "runs (Ext2WriteRefuse what) s' ?P"
        by (rule refusals_run(3) [OF s'(1)]) (use still_trans [OF R(1)] s'(2) in \<open>auto simp: still_def\<close>)
      then show ?thesis unfolding Let_def was using True by simp
    next
      case False
      have bits: "bit ?new j = (if j = unat index mod 8 then used else bit (the (byte_at ?D d sb ?B (unat index div 8))) j)" if "j < 8" for j
        using that by (auto simp: at bitmap_offset bit_simps)
      note W = bitmap_write [OF lay assms(2,3) bits]
      have "runs (Ext2WriteBytes d ?B ?off 1 [?new]) s' ?P"
      proof (rule runs_mono [OF Ext2WriteBytes_runs [OF s'(1,2) ok(3)]])
        fix s'' and r :: "unit option"
        assume E: "volume s'' = volume s' \<and> ext2_ok d s'' \<and>
          (r \<noteq> None \<longrightarrow> ?B < sb_block_count sb \<and> unat ?off + unat (1 :: u32) \<le> unat (sb_block_size sb) \<and>
             disk_of stored s'' = overwrite d (place sb ?B (unat ?off)) (take (unat (1 :: u32)) [?new]) (disk_of stored s')) \<and>
          (r = None \<longrightarrow> disk_of stored s'' = disk_of stored s' \<or> unat ?off + unat (1 :: u32) \<le> unat (sb_block_size sb) \<and>
            (\<exists>n < unat (1 :: u32). disk_of stored s'' = overwrite d (place sb ?B (unat ?off)) (take n [?new]) (disk_of stored s')))"
        show "?P s'' r"
        proof (cases r)
          case None
          then have "disk_of stored s'' = ?D" using E s'(3) by auto
          then show ?thesis using None E s'(2) ok(2) by (simp add: still_def)
        next
          case (Some x)
          then have "disk_of stored s'' = overwrite d (place sb ?B (unat index div 8)) [?new] ?D" using E s'(3) by (simp add: bitmap_offset)
          then show ?thesis using Some E s'(2) False W by (simp add: altered_def)
        qed
      qed simp
      then show ?thesis unfolding Let_def was using False by simp
    qed
  qed (use ok(2) in \<open>simp add: still_def\<close>)
  then show ?thesis unfolding Ext2BitmapSet_def Let_def .
qed

subsection \<open>A descriptor\<close>

lemma write_runs:
  assumes "ext2_ok d s" "volume s = Some sb" "sized sb" "length source = unat n"
    and "\<And>s' m r. ext2_ok d s' \<Longrightarrow> volume s' = Some sb \<Longrightarrow> m \<le> unat n \<Longrightarrow> (r = None \<longrightarrow> m = 0 \<or> unat off + unat n \<le> unat (sb_block_size sb)) \<Longrightarrow>
      (r \<noteq> None \<longrightarrow> m = unat n \<and> block < sb_block_count sb \<and> unat off + unat n \<le> unat (sb_block_size sb)) \<Longrightarrow>
      disk_of stored s' = overwrite d (place sb block (unat off)) (take m source) (disk_of stored s) \<Longrightarrow> P s' r"
  shows "runs (Ext2WriteBytes d block off n source) s P"
proof (rule runs_mono [OF Ext2WriteBytes_runs [OF assms(1-3)]])
  show "unat n \<le> length source" using assms(4) by simp
  fix s' and r :: "unit option"
  assume E: "volume s' = volume s \<and> ext2_ok d s' \<and>
    (r \<noteq> None \<longrightarrow> block < sb_block_count sb \<and> unat off + unat n \<le> unat (sb_block_size sb) \<and>
       disk_of stored s' = overwrite d (place sb block (unat off)) (take (unat n) source) (disk_of stored s)) \<and>
    (r = None \<longrightarrow> disk_of stored s' = disk_of stored s \<or> unat off + unat n \<le> unat (sb_block_size sb) \<and>
      (\<exists>k < unat n. disk_of stored s' = overwrite d (place sb block (unat off)) (take k source) (disk_of stored s)))"
  consider x where "r = Some x" | "r = None" "disk_of stored s' = disk_of stored s"
    | k where "r = None" "unat off + unat n \<le> unat (sb_block_size sb)" "k < unat n" "disk_of stored s' = overwrite d (place sb block (unat off)) (take k source) (disk_of stored s)"
    using E by (cases r) auto
  then show "P s' r"
  proof cases
    case 1
    then show ?thesis by (intro assms(5) [of s' "unat n"]) (use E assms(2) in auto)
  next
    case 2
    then show ?thesis by (intro assms(5) [of s' 0]) (use E assms(2) in auto)
  next
    case 3
    then show ?thesis by (intro assms(5) [of s' k]) (use E assms(2) in auto)
  qed
qed

lemma Ext2WriteGroupDescriptor_runs:
  assumes "volume_ok d sb s" "gd_group v < sb_group_count sb"
  defines "D \<equiv> disk_of stored s"
  assumes "gd_block_bitmap v = gd_block_bitmap (descriptor D d sb (gd_group v))" "gd_inode_bitmap v = gd_inode_bitmap (descriptor D d sb (gd_group v))"
    "gd_inode_table v = gd_inode_table (descriptor D d sb (gd_group v))"
  shows "runs (Ext2WriteGroupDescriptor (Some d) (Some v)) s (\<lambda>s' r. volume s' = Some sb \<and> altered d sb {} b s s' \<and>
    (\<forall>g < sb_group_count sb. g \<noteq> gd_group v \<longrightarrow> descriptor (disk_of stored s') d sb g = descriptor D d sb g) \<and>
    (r \<noteq> None \<longrightarrow> descriptor (disk_of stored s') d sb (gd_group v) = v))"
    (is "runs _ s ?P")
proof -
  let ?g = "gd_group v"
  let ?block = "descriptor_block sb ?g" and ?off = "?g * EXT2_GROUP_DESCRIPTOR_SIZE mod sb_block_size sb"
  let ?n = EXT2_GROUP_DESCRIPTOR_SIZE
  have ok: "ext2_ok d s" "volume s = Some sb" "sized sb" and lay: "layout D d sb"
    using volume_ok_sized [OF assms(1)] assms(1) by (auto simp: volume_ok_for_def D_def)
  have none: "?P s' None" if "still d s s'" for s'
    using that still_altered [OF that] ok(2) by (simp add: still_def D_def)
  let ?rest = "\<lambda>_. ext2_then (Ext2ReadBytes d ?block ?off ?n) (\<lambda>raw. Ext2WriteBytes d ?block ?off ?n (described v raw))"
  have "runs (ext2_then Ext2Writable ?rest) s ?P"
  proof (rule Ext2Writable_runs [OF ok(1,2)])
    show "runs (?rest ()) s ?P"
    proof (rule read_then_runs [OF ok])
      fix s' and raw :: "u8 list"
      assume R: "still d s s'" "length raw = unat ?n" "bytes_at (disk_of stored s) d sb ?block (unat ?off) raw"
      have n: "unat ?n = 32" by (simp add: EXT2_GROUP_DESCRIPTOR_SIZE_def)
      have len: "length raw = 32" using R(2) n by simp
      have at: "bytes_at D d sb ?block (descriptor_offset sb ?g) raw" using R(3) by (simp add: D_def descriptor_offset_def)
      have s': "ext2_ok d s'" "volume s' = Some sb" "disk_of stored s' = D" using R(1) ok(2) by (simp_all add: still_def D_def)
      have raw: "raw = descriptor_raw D d sb ?g" unfolding descriptor_raw_def by (rule bytes_at_run [OF at len])
      have same: "described v raw ! i = raw ! i" if "i < 12" for i
        by (rule described_facts(3) [OF len _ _ _ that]) (use assms(4-6) in \<open>simp_all add: descriptor_def ParsedDescriptor_def raw\<close>)
      show "runs (Ext2WriteBytes d ?block ?off ?n (described v raw)) s' ?P"
      proof (rule write_runs [OF s'(1,2) ok(3)])
        show "length (described v raw) = unat ?n" using described_facts(1) [OF len] n by simp
        fix s'' m and r :: "unit option"
        assume E: "ext2_ok d s''" "volume s'' = Some sb" "m \<le> unat ?n"
          "r \<noteq> None \<longrightarrow> m = unat ?n \<and> ?block < sb_block_count sb \<and> unat ?off + unat ?n \<le> unat (sb_block_size sb)"
          "disk_of stored s'' = overwrite d (place sb ?block (unat ?off)) (take m (described v raw)) (disk_of stored s')"
        have m: "m \<le> 32" using E(3) n by simp
        note W = descriptor_write [OF lay assms(2) described_facts(1) [OF len] m at len same]
        have D'': "disk_of stored s'' = overwrite d (place sb ?block (descriptor_offset sb ?g)) (take m (described v raw)) D"
          using E(5) s'(3) by (simp add: descriptor_offset_def)
        have "altered d sb {} b s s''" unfolding altered_def D'' using E(1) W(1,2) by (simp add: D_def)
        moreover have "descriptor (disk_of stored s'') d sb ?g = v" if "r \<noteq> None"
          unfolding D'' using that E(4) n W(3) described_facts(2) [OF len] by simp
        moreover have "descriptor (disk_of stored s'') d sb g = descriptor D d sb g" if "g < sb_group_count sb" "g \<noteq> ?g" for g
          unfolding D'' by (rule W(4) [OF _ that])
        ultimately show "?P s'' r" using E(2) by simp
      qed
    qed (rule none)
  qed (rule none)
  moreover have "Ext2WriteGroupDescriptor (Some d) (Some v) s = ext2_then Ext2Writable ?rest s"
    using assms(2) ok(2) by (simp add: Ext2WriteGroupDescriptor_def Let_def descriptor_block_def described_def flip: not_less)
  ultimately show ?thesis by (simp add: runs_def)
qed

subsection \<open>The superblock\<close>

lemma ReadSuperblockFrom_runs:
  assumes "ext2_ok d s" "start + m \<le> 2"
  shows "runs (ReadSuperblockFrom d [start..<start + m] acc) s (\<lambda>s' r. still d s s' \<and>
    (\<forall>bytes. r = Some bytes \<longrightarrow> (\<exists>new. bytes = acc @ new \<and> length new = 512 * m \<and>
      (\<forall>i < 512 * m. disk_of stored s d (word_of_nat (1024 + 512 * start + i)) = Some (new ! i)))))"
  using assms
proof (induction m arbitrary: s start acc)
  case 0
  then show ?case by (simp add: runs_def still_def)
next
  case (Suc m)
  let ?D = "disk_of stored s" and ?b = "word_of_nat (2 + start) :: u64"
  have ok: "cache_ok (cache s)" "d < length (BlockDevices (block_layer (cache s)))" "block_size (BlockDevices (block_layer (cache s)) ! d) = 512"
    using Suc.prems(1) by (simp_all add: ext2_ok_for_def)
  have list: "[start..<start + Suc m] = start # [Suc start..<Suc start + m]" by (simp add: upt_conv_Cons)
  have b: "ucast (EXT2_SUPERBLOCK_OFFSET div 512) + word_of_nat start = ?b" by (simp add: EXT2_SUPERBLOCK_OFFSET_def)
  from use_read_effect [OF ok(1,2), of ?b] obtain c' r where U: "use_read d ?b (cache s) = Some (c', r)" "cache_ok c'"
    "same_devices (block_layer (cache s)) (block_layer c')" "cached_map stored c' = cached_map stored (cache s)"
    "r \<noteq> None \<Longrightarrow> r = cached_map stored (cache s) (d, ?b)" by blast
  have ok': "ext2_ok d (s\<lparr>cache := c'\<rparr>)" by (rule ext2_ok_after [OF Suc.prems(1) U(3,2)])
  have same: "disk_of stored (s\<lparr>cache := c'\<rparr>) = ?D" using U(4) by (simp add: disk_of_def)
  show ?case
  proof (cases r)
    case None
    then have "BufferGet (Some d) ?b (cache s) = Some (c', None)"
      using U(1) by (auto simp: use_read_def split: option.splits prod.splits)
    then have "ReadSuperblockFrom d [start..<start + Suc m] acc s = Some (s\<lparr>cache := c'\<rparr>, None)"
      unfolding list using ok(3) b by (simp add: Let_def)
    then show ?thesis using ok' same by (simp add: runs_def still_def)
  next
    case (Some data)
    then obtain c1 i where G: "BufferGet (Some d) ?b (cache s) = Some (c1, Some i)" "c' = BufferRelease (Some i) c1"
      "data = buffer_data (BufferTable c1 ! i)"
      using U(1) by (auto simp: use_read_def split: option.splits prod.splits)
    have m: "cached_map stored (cache s) (d, ?b) = Some data" using U(5) Some by simp
    have len: "length data = 512" using cached_map_at [OF m ok(1)] .
    have "map (\<lambda>position. buffer_data (BufferTable c1 ! i) ! position) [0..<512] = data"
      using len by (intro nth_equalityI) (simp_all add: G(3))
    then have run: "ReadSuperblockFrom d [start..<start + Suc m] acc s = ReadSuperblockFrom d [Suc start..<Suc start + m] (acc @ data) (s\<lparr>cache := c'\<rparr>)"
      unfolding list using ok(3) b G(1,2) by (simp add: Let_def)
    have here: "?D d (word_of_nat (1024 + 512 * start + i)) = Some (data ! i)" if "i < 512" for i
    proof -
      have n: "1024 + 512 * start + i = 512 * (2 + start) + i" by simp
      define p where "p = (word_of_nat (1024 + 512 * start + i) :: u64)"
      have "unat p = 512 * (2 + start) + i"
        unfolding p_def n using Suc.prems(2) that by (intro unat_word_of_nat) simp
      moreover have "unat ?b = 2 + start" using Suc.prems(2) by (intro unat_word_of_nat) simp
      moreover have "(512 * (2 + start) + i) div 512 = 2 + start" "(512 * (2 + start) + i) mod 512 = i"
        using that by (simp_all only: div_mult_self4 mod_mult_self4 div_less mod_less)
      ultimately have "p div 512 = ?b" "unat (p mod 512) = i"
        unfolding word_unat_eq_iff unat_div_512 by (simp_all only:)
      then show ?thesis unfolding p_def [symmetric] using m by (simp add: disk_of_def disk_def)
    qed
    have "runs (ReadSuperblockFrom d [Suc start..<Suc start + m] (acc @ data)) (s\<lparr>cache := c'\<rparr>) (\<lambda>s' r. still d (s\<lparr>cache := c'\<rparr>) s' \<and>
      (\<forall>bytes. r = Some bytes \<longrightarrow> (\<exists>new. bytes = (acc @ data) @ new \<and> length new = 512 * m \<and>
        (\<forall>i < 512 * m. disk_of stored (s\<lparr>cache := c'\<rparr>) d (word_of_nat (1024 + 512 * Suc start + i)) = Some (new ! i)))))"
      by (rule Suc.IH [OF ok']) (use Suc.prems(2) in simp)
    then obtain s' r' where R: "ReadSuperblockFrom d [Suc start..<Suc start + m] (acc @ data) (s\<lparr>cache := c'\<rparr>) = Some (s', r')"
      "still d (s\<lparr>cache := c'\<rparr>) s'"
      "\<forall>bytes. r' = Some bytes \<longrightarrow> (\<exists>new. bytes = (acc @ data) @ new \<and> length new = 512 * m \<and>
        (\<forall>i < 512 * m. ?D d (word_of_nat (1024 + 512 * Suc start + i)) = Some (new ! i)))"
      unfolding runs_def same by blast
    have "\<exists>new. bytes = acc @ new \<and> length new = 512 * Suc m \<and> (\<forall>i < 512 * Suc m. ?D d (word_of_nat (1024 + 512 * start + i)) = Some (new ! i))"
      if "r' = Some bytes" for bytes
    proof -
      obtain new where new: "bytes = acc @ (data @ new)" "length new = 512 * m"
        "\<And>i. i < 512 * m \<Longrightarrow> ?D d (word_of_nat (1024 + 512 * Suc start + i)) = Some (new ! i)" using R(3) \<open>r' = Some bytes\<close> by auto
      have "?D d (word_of_nat (1024 + 512 * start + i)) = Some ((data @ new) ! i)" if "i < 512 * Suc m" for i
      proof (cases "i < 512")
        case True
        then show ?thesis using here [OF True] len by (simp only: nth_append if_True)
      next
        case False
        then have "1024 + 512 * start + i = 1024 + 512 * Suc start + (i - 512)" by simp
        then show ?thesis using new(3) [of "i - 512"] that False len by (simp only: nth_append) simp
      qed
      then show ?thesis using new(1,2) len by (intro exI [of _ "data @ new"]) simp
    qed
    moreover have "still d s s'" using R(2) same by (simp add: still_def)
    ultimately show ?thesis using R(1) unfolding runs_def run by blast
  qed
qed

lemma Ext2ReadSuperblockBytes_runs:
  assumes "ext2_ok d s"
  shows "runs (Ext2ReadSuperblockBytes d) s (\<lambda>s' r. still d s s' \<and>
    (\<forall>raw. r = Some raw \<longrightarrow> raw = superblock_raw (disk_of stored s) d))"
proof -
  have "Ext2ReadSuperblockBytes d s = ReadSuperblockFrom d [0..<0 + 2] [] s"
    using assms by (simp add: Ext2ReadSuperblockBytes_def Let_def ext2_ok_for_def EXT2_SUPERBLOCK_SIZE_def upt_rec)
  moreover have "raw = superblock_raw D d" if "length raw = 1024" "\<forall>i < 1024. D d (word_of_nat (1024 + i)) = Some (raw ! i)" for raw D
    using that by (intro nth_equalityI) (simp_all add: superblock_raw_def)
  ultimately show ?thesis using ReadSuperblockFrom_runs [OF assms, of 0 2 "[]"] by (auto simp: runs_def)
qed

lemma Ext2WriteSuperblock_runs:
  assumes "volume_ok d sb s"
  shows "runs (Ext2WriteSuperblock (Some d)) s (\<lambda>s' r. volume s' = Some sb \<and> altered d sb {} b s s' \<and>
    (\<forall>g < sb_group_count sb. descriptor (disk_of stored s') d sb g = descriptor (disk_of stored s) d sb g) \<and>
    (r \<noteq> None \<longrightarrow> superblock_raw (disk_of stored s') d = recorded sb (superblock_raw (disk_of stored s) d)))"
    (is "runs _ s ?P")
proof -
  let ?D = "disk_of stored s" and ?n = EXT2_SUPERBLOCK_SIZE and ?off = "EXT2_SUPERBLOCK_OFFSET mod sb_block_size sb"
  let ?rest = "\<lambda>_. ext2_then (Ext2ReadSuperblockBytes d) (\<lambda>raw. Ext2WriteBytes d (superblock_block sb) ?off ?n (recorded sb raw))"
  have ok: "ext2_ok d s" "volume s = Some sb" "sized sb" and lay: "layout ?D d sb"
    using volume_ok_sized [OF assms] assms by (auto simp: volume_ok_for_def)
  note place = superblock_place [OF layout_geometry [OF lay]]
  have none: "?P s' None" if "still d s s'" for s'
    using that still_altered [OF that] ok(2) by (simp add: still_def)
  have "runs (ext2_then Ext2Writable ?rest) s ?P"
  proof (rule Ext2Writable_runs [OF ok(1,2)])
    show "runs (?rest ()) s ?P"
    proof (rule runs_then [OF Ext2ReadSuperblockBytes_runs [OF ok(1)]])
      fix s' raw assume "still d s s' \<and> (\<forall>bytes. Some raw = Some bytes \<longrightarrow> bytes = superblock_raw ?D d)"
      then have R: "still d s s'" "raw = superblock_raw ?D d" by simp_all
      have s': "ext2_ok d s'" "volume s' = Some sb" "disk_of stored s' = ?D" using R(1) ok(2) by (simp_all add: still_def)
      have len: "length (recorded sb raw) = 1024" using R(2) by (simp add: recorded_def superblock_raw_def)
      have n: "unat ?n = 1024" by (simp add: EXT2_SUPERBLOCK_SIZE_def)
      show "runs (Ext2WriteBytes d (superblock_block sb) ?off ?n (recorded sb raw)) s' ?P"
      proof (rule write_runs [OF s'(1,2) ok(3)])
        show "length (recorded sb raw) = unat ?n" using len n by simp
        fix s'' m and r :: "unit option"
        assume E: "ext2_ok d s''" "volume s'' = Some sb" "m \<le> unat ?n"
          "r \<noteq> None \<longrightarrow> m = unat ?n \<and> superblock_block sb < sb_block_count sb \<and> unat ?off + unat ?n \<le> unat (sb_block_size sb)"
          "disk_of stored s'' = overwrite d (place sb (superblock_block sb) (unat ?off)) (take m (recorded sb raw)) (disk_of stored s')"
        have "unat ?off + length (take m (recorded sb raw)) \<le> unat (sb_block_size sb)" using place(2) len by simp
        note W = superblock_write [OF lay this]
        have "superblock_raw (disk_of stored s'') d = recorded sb (superblock_raw ?D d)" if "r \<noteq> None"
          using that E(4,5) n len R(2) unfolding place(1) by (simp add: superblock_overwritten)
        then show "?P s'' r" using E(1,2) W unfolding altered_def E(5) s'(3) by blast
      qed
    qed (use none in blast)
  qed (rule none)
  moreover have "Ext2WriteSuperblock (Some d) s = ext2_then Ext2Writable ?rest s"
    using ok(2) by (simp add: Ext2WriteSuperblock_def Let_def superblock_block_def recorded_def)
  ultimately show ?thesis by (simp add: runs_def)
qed

subsection \<open>The accounts\<close>

lemma WriteAccounts_runs:
  assumes "volume_ok d sb s" "static sb (change sb)" "gd_group v < sb_group_count sb"
  defines "D \<equiv> disk_of stored s"
  assumes "gd_block_bitmap v = gd_block_bitmap (descriptor D d sb (gd_group v))" "gd_inode_bitmap v = gd_inode_bitmap (descriptor D d sb (gd_group v))"
    "gd_inode_table v = gd_inode_table (descriptor D d sb (gd_group v))"
  shows "runs (WriteAccounts d v change) s (\<lambda>s' r. volume s' = Some (change sb) \<and> altered d sb {} b s s' \<and>
    (\<forall>g < sb_group_count sb. g \<noteq> gd_group v \<longrightarrow> descriptor (disk_of stored s') d sb g = descriptor D d sb g) \<and>
    (r \<noteq> None \<longrightarrow> descriptor (disk_of stored s') d sb (gd_group v) = v \<and>
       Ext2ReadWord (superblock_raw (disk_of stored s') d) 12 = sb_free_block_count (change sb) \<and>
       Ext2ReadWord (superblock_raw (disk_of stored s') d) 16 = sb_free_inode_count (change sb)))"
    (is "runs _ s ?P")
proof -
  let ?s = "s\<lparr>volume := Some (change sb)\<rparr>"
  note view = static_view [OF assms(2)] and fields = static_fields [OF assms(2)]
  have D: "disk_of stored ?s = D" by (simp add: disk_of_def D_def)
  have ok: "volume_ok d (change sb) ?s" using assms(1) view unfolding volume_ok_for_def D by (simp add: ext2_ok_for_def D_def)
  have v: "gd_group v < sb_group_count (change sb)" using assms(3) fields by simp
  have "runs (ext2_then (Ext2WriteGroupDescriptor (Some d) (Some v)) (\<lambda>_. Ext2WriteSuperblock (Some d))) ?s ?P"
  proof (rule runs_then [OF Ext2WriteGroupDescriptor_runs [OF ok v, where b = b]])
    show "gd_block_bitmap v = gd_block_bitmap (descriptor (disk_of stored ?s) d (change sb) (gd_group v))"
      "gd_inode_bitmap v = gd_inode_bitmap (descriptor (disk_of stored ?s) d (change sb) (gd_group v))"
      "gd_inode_table v = gd_inode_table (descriptor (disk_of stored ?s) d (change sb) (gd_group v))"
      unfolding D view using assms(5-7) .
  next
    fix s' r
    assume E: "volume s' = Some (change sb) \<and> altered d (change sb) {} b ?s s' \<and>
      (\<forall>g < sb_group_count (change sb). g \<noteq> gd_group v \<longrightarrow> descriptor (disk_of stored s') d (change sb) g = descriptor (disk_of stored ?s) d (change sb) g) \<and>
      (Some r \<noteq> None \<longrightarrow> descriptor (disk_of stored s') d (change sb) (gd_group v) = v)"
    then have E': "volume s' = Some (change sb)" "altered d sb {} b s s'"
      "\<forall>g < sb_group_count sb. g \<noteq> gd_group v \<longrightarrow> descriptor (disk_of stored s') d sb g = descriptor D d sb g"
      "descriptor (disk_of stored s') d sb (gd_group v) = v"
      unfolding altered_def D view fields D_def by simp_all
    have ok': "volume_ok d (change sb) s'" by (rule volume_ok_altered [OF assms(1) E'(2,1) assms(2)])
    show "runs (Ext2WriteSuperblock (Some d)) s' ?P"
    proof (rule runs_mono [OF Ext2WriteSuperblock_runs [OF ok', where b = b]])
      fix s'' and r :: "unit option"
      assume F: "volume s'' = Some (change sb) \<and> altered d (change sb) {} b s' s'' \<and>
        (\<forall>g < sb_group_count (change sb). descriptor (disk_of stored s'') d (change sb) g = descriptor (disk_of stored s') d (change sb) g) \<and>
        (r \<noteq> None \<longrightarrow> superblock_raw (disk_of stored s'') d = recorded (change sb) (superblock_raw (disk_of stored s') d))"
      then have F': "volume s'' = Some (change sb)" "altered d sb {} b s' s''"
        "\<forall>g < sb_group_count sb. descriptor (disk_of stored s'') d sb g = descriptor (disk_of stored s') d sb g"
        "r \<noteq> None \<longrightarrow> superblock_raw (disk_of stored s'') d = recorded (change sb) (superblock_raw (disk_of stored s') d)"
        unfolding altered_def view fields by simp_all
      have len: "length (superblock_raw X d) = 1024" for X by (simp add: superblock_raw_def)
      have "altered d sb {} b s s''" by (rule altered_trans [OF E'(2) F'(2)])
      then show "?P s'' r" using F' E'(3,4) assms(3) len by (auto simp: recorded_def)
    qed
  next
    fix s' assume "volume s' = Some (change sb) \<and> altered d (change sb) {} b ?s s' \<and>
      (\<forall>g < sb_group_count (change sb). g \<noteq> gd_group v \<longrightarrow> descriptor (disk_of stored s') d (change sb) g = descriptor (disk_of stored ?s) d (change sb) g) \<and>
      ((None :: unit option) \<noteq> None \<longrightarrow> descriptor (disk_of stored s') d (change sb) (gd_group v) = v)"
    then show "?P s' None" unfolding altered_def D view fields D_def by simp
  qed
  moreover have "WriteAccounts d v change s = ext2_then (Ext2WriteGroupDescriptor (Some d) (Some v)) (\<lambda>_. Ext2WriteSuperblock (Some d)) ?s"
    using assms(1) by (simp add: WriteAccounts_def volume_ok_for_def)
  ultimately show ?thesis by (simp add: runs_def)
qed

end

end
