(* ===== verification/Ext2AllocOps.thy ===== *)
theory Ext2AllocOps
  imports Ext2AllocWrites
begin

text \<open>
  The allocator's operations as changes of one slot: the bit of a block or of an inode, the
  descriptor of its group and the superblock's count.
\<close>

context block_driver
begin

text \<open>
  What an operation upon one slot leaves.  Where it fails the bit may have been changed already, for
  the accounts are written after it.
\<close>

definition failed :: "nat \<Rightarrow> Ext2Superblock \<Rightarrow> 'w ext2_state \<Rightarrow> (bool \<times> u32 \<times> nat) set \<Rightarrow> bool \<Rightarrow> 'w ext2_state \<Rightarrow> bool" where
  "failed d sb s Y b s' \<longleftrightarrow> (\<exists>sb' X. volume s' = Some sb' \<and> static sb sb' \<and> X \<subseteq> Y \<and> altered d sb X b s s')"

definition changed :: "nat \<Rightarrow> Ext2Superblock \<Rightarrow> 'w ext2_state \<Rightarrow> bool \<Rightarrow> u32 \<Rightarrow> nat \<Rightarrow> bool \<Rightarrow> Ext2GroupDescriptor \<Rightarrow> Ext2Superblock \<Rightarrow>
    'w ext2_state \<Rightarrow> bool" where
  "changed d sb s k g i b v sb' s' \<longleftrightarrow> marked (disk_of stored s) d sb k g i \<noteq> b \<and> altered d sb {(k, g, i)} b s s' \<and>
     volume s' = Some sb' \<and> descriptor (disk_of stored s') d sb g = v \<and>
     (\<forall>g' < sb_group_count sb. g' \<noteq> g \<longrightarrow> descriptor (disk_of stored s') d sb g' = descriptor (disk_of stored s) d sb g') \<and>
     Ext2ReadWord (superblock_raw (disk_of stored s') d) 12 = sb_free_block_count sb' \<and>
     Ext2ReadWord (superblock_raw (disk_of stored s') d) 16 = sb_free_inode_count sb'"

lemma failed_still:
  assumes "still d s s'" "volume s = Some sb"
  shows "failed d sb s Y b s'"
proof -
  have "volume s' = Some sb" using assms by (simp add: still_def)
  moreover have "altered d sb {} b s s'" by (rule still_altered [OF assms(1)])
  ultimately show ?thesis unfolding failed_def using static_refl by blast
qed

lemma failedI: "volume s' = Some sb' \<Longrightarrow> static sb sb' \<Longrightarrow> X \<subseteq> Y \<Longrightarrow> altered d sb X b s s' \<Longrightarrow> failed d sb s Y b s'"
  unfolding failed_def by (intro exI conjI)

lemma failed_mono:
  assumes "failed d sb s X b s'" "X \<subseteq> Y"
  shows "failed d sb s Y b s'"
proof -
  obtain sb' Z where Z: "volume s' = Some sb'" "static sb sb'" "Z \<subseteq> X" "altered d sb Z b s s'"
    using assms(1) unfolding failed_def by (elim exE conjE)
  then show ?thesis by (intro failedI [OF Z(1,2) _ Z(4)]) (use Z(3) assms(2) in simp)
qed

lemma still_then_failed:
  assumes "still d s s'" "failed d sb s' Y b s''"
  shows "failed d sb s Y b s''"
  using assms(2) unfolding failed_def by (elim exE conjE) (intro exI conjI, assumption+, rule still_then_altered [OF assms(1)])

lemma still_then_changed: "still d s s' \<Longrightarrow> changed d sb s' k g i b v sb' s'' \<Longrightarrow> changed d sb s k g i b v sb' s''"
  by (simp add: changed_def still_def altered_def)

text \<open>The three writes in their order, then the operation's own account.\<close>

lemma slot_runs:
  assumes "volume_ok d sb s" "g < sb_group_count sb" "unat index < unat (sb_block_size sb) * 8" "static sb (change sb)"
  defines "D \<equiv> disk_of stored s"
  assumes "gd_group v = g" "gd_block_bitmap v = gd_block_bitmap (descriptor D d sb g)" "gd_inode_bitmap v = gd_inode_bitmap (descriptor D d sb g)"
    "gd_inode_table v = gd_inode_table (descriptor D d sb g)"
    and ending: "\<And>s'. volume s' = Some (change sb) \<Longrightarrow> \<exists>t. ending s' = Some (t, Some result) \<and> cache t = cache s' \<and> volume t = volume s'"
  shows "runs (ext2_then (Ext2BitmapSet d (bitmap_of D d sb k g) index b what) (\<lambda>_. ext2_then (WriteAccounts d v change) (\<lambda>_. ending))) s
    (\<lambda>s' r. (r = None \<longrightarrow> failed d sb s {(k, g, unat index)} b s') \<and>
      (\<forall>x. r = Some x \<longrightarrow> x = result \<and> changed d sb s k g (unat index) b v (change sb) s'))"
    (is "runs _ s ?P")
proof (rule runs_then [OF Ext2BitmapSet_runs [OF assms(1-3), of k b what, folded D_def]])
  have vol: "volume s = Some sb" using assms(1) by (simp add: volume_ok_for_def)
  fix s' r
  assume "volume s' = Some sb \<and> (Some r = None \<longrightarrow> still d s s') \<and>
    (Some r \<noteq> None \<longrightarrow> marked D d sb k g (unat index) \<noteq> b \<and> altered d sb {(k, g, unat index)} b s s' \<and>
      (\<forall>g' < sb_group_count sb. descriptor (disk_of stored s') d sb g' = descriptor D d sb g'))"
  then have B: "volume s' = Some sb" "marked D d sb k g (unat index) \<noteq> b" "altered d sb {(k, g, unat index)} b s s'"
    "\<forall>g' < sb_group_count sb. descriptor (disk_of stored s') d sb g' = descriptor D d sb g'" by simp_all
  have ok': "volume_ok d sb s'" by (rule volume_ok_altered [OF assms(1) B(3,1)]) simp
  have v: "gd_group v < sb_group_count sb" using assms(2,6) by simp
  have desc: "descriptor (disk_of stored s') d sb (gd_group v) = descriptor D d sb g" using B(4) assms(2,6) by simp
  have mk: "marked D d sb k g (unat index) \<noteq> b" by (rule B(2))
  show "runs (ext2_then (WriteAccounts d v change) (\<lambda>_. ending)) s' ?P"
  proof (rule runs_then [OF WriteAccounts_runs [OF ok' _ v, where change = change and b = b]])
    show "static sb (change sb)" by (rule assms(4))
    show "gd_block_bitmap v = gd_block_bitmap (descriptor (disk_of stored s') d sb (gd_group v))"
      "gd_inode_bitmap v = gd_inode_bitmap (descriptor (disk_of stored s') d sb (gd_group v))"
      "gd_inode_table v = gd_inode_table (descriptor (disk_of stored s') d sb (gd_group v))"
      unfolding desc using assms(7-9) .
  next
    fix s'' r
    assume A: "volume s'' = Some (change sb) \<and> altered d sb {} b s' s'' \<and>
      (\<forall>g < sb_group_count sb. g \<noteq> gd_group v \<longrightarrow> descriptor (disk_of stored s'') d sb g = descriptor (disk_of stored s') d sb g) \<and>
      (Some r \<noteq> None \<longrightarrow> descriptor (disk_of stored s'') d sb (gd_group v) = v \<and>
        Ext2ReadWord (superblock_raw (disk_of stored s'') d) 12 = sb_free_block_count (change sb) \<and>
        Ext2ReadWord (superblock_raw (disk_of stored s'') d) 16 = sb_free_inode_count (change sb))"
    then obtain t where t: "ending s'' = Some (t, Some result)" "cache t = cache s''" "volume t = volume s''" using ending by blast
    have D: "disk_of stored t = disk_of stored s''" using t(2) by (simp add: disk_of_def)
    have "altered d sb {(k, g, unat index)} b s s''" using altered_trans [OF B(3)] A by blast
    then have "altered d sb {(k, g, unat index)} b s t" using t(2) unfolding altered_def D by (simp add: ext2_ok_for_def)
    then have "changed d sb s k g (unat index) b v (change sb) t"
      unfolding changed_def D using A B(4) mk t(3) assms(6) by (simp add: D_def)
    then show "runs ending s'' ?P" using t(1) by (simp add: runs_def)
  next
    fix s''
    assume A: "volume s'' = Some (change sb) \<and> altered d sb {} b s' s'' \<and>
      (\<forall>g < sb_group_count sb. g \<noteq> gd_group v \<longrightarrow> descriptor (disk_of stored s'') d sb g = descriptor (disk_of stored s') d sb g) \<and>
      ((None :: unit option) \<noteq> None \<longrightarrow> descriptor (disk_of stored s'') d sb (gd_group v) = v \<and>
        Ext2ReadWord (superblock_raw (disk_of stored s'') d) 12 = sb_free_block_count (change sb) \<and>
        Ext2ReadWord (superblock_raw (disk_of stored s'') d) 16 = sb_free_inode_count (change sb))"
    then have "altered d sb {(k, g, unat index)} b s s''" using altered_trans [OF B(3)] by blast
    then show "?P s'' None" using A assms(4) by (auto intro: failedI)
  qed
next
  fix s'
  assume "volume s' = Some sb \<and> ((None :: unit option) = None \<longrightarrow> still d s s') \<and>
    ((None :: unit option) \<noteq> None \<longrightarrow> marked D d sb k g (unat index) \<noteq> b \<and> altered d sb {(k, g, unat index)} b s s' \<and>
      (\<forall>g' < sb_group_count sb. descriptor (disk_of stored s') d sb g' = descriptor D d sb g'))"
  then show "?P s' None" using assms(1) failed_still by (simp add: volume_ok_for_def)
qed

subsection \<open>Blocks\<close>

text \<open>A block taken: its group and place, with the group's and the volume's counts one less.\<close>

definition block_taken :: "nat \<Rightarrow> Ext2Superblock \<Rightarrow> 'w ext2_state \<Rightarrow> u32 \<Rightarrow> 'w ext2_state \<Rightarrow> bool" where
  "block_taken d sb s block s' \<longleftrightarrow> (\<exists>g < sb_group_count sb. \<exists>i < Ext2GroupBlockCount sb g. block = Ext2GroupFirstBlock sb g + i \<and>
     gd_free_block_count (descriptor (disk_of stored s) d sb g) \<noteq> 0 \<and>
     (\<forall>j < unat i. marked (disk_of stored s) d sb False g j) \<and>
     changed d sb s False g (unat i) True
       ((descriptor (disk_of stored s) d sb g)\<lparr>gd_free_block_count := gd_free_block_count (descriptor (disk_of stored s) d sb g) - 1\<rparr>)
       (sb\<lparr>sb_free_block_count := sb_free_block_count sb - 1\<rparr>) s')"

lemma TakeBlock_runs:
  assumes "volume_ok d sb s" "g < sb_group_count sb" "index < Ext2GroupBlockCount sb g"
  defines "v \<equiv> descriptor (disk_of stored s) d sb g"
  shows "runs (TakeBlock d g v index) s (\<lambda>s' r. (r = None \<longrightarrow> failed d sb s {(False, g, unat index)} True s') \<and>
    (\<forall>x. r = Some x \<longrightarrow> x = Ext2GroupFirstBlock sb g + index \<and>
       changed d sb s False g (unat index) True (v\<lparr>gd_free_block_count := gd_free_block_count v - 1\<rparr>)
         (sb\<lparr>sb_free_block_count := sb_free_block_count sb - 1\<rparr>) s'))"
proof -
  have B: "gd_block_bitmap v = bitmap_of (disk_of stored s) d sb False g" by (simp add: v_def bitmap_of_def)
  have geo: "geometry sb" using assms(1) by (auto simp: volume_ok_for_def intro: layout_geometry)
  show ?thesis unfolding TakeBlock_def B
    by (rule slot_runs [OF assms(1,2) within_bitmap(1) [OF geo assms(3)]]) (auto simp: v_def Ext2GroupFirstBlock_def)
qed

lemma AllocateBlockFrom_runs:
  assumes "volume_ok d sb s"
  shows "runs (AllocateBlockFrom d start attempts) s (\<lambda>s' r. (r = None \<longrightarrow> failed d sb s ({False} \<times> UNIV) True s') \<and>
    (\<forall>block. r = Some block \<longrightarrow> block_taken d sb s block s'))"
  using assms
proof (induction attempts arbitrary: s)
  case Nil
  have "runs (Ext2WriteRefuse ''no group of the volume holds a free block'') s (\<lambda>s' r. (r = None \<longrightarrow> failed d sb s ({False} \<times> UNIV) True s') \<and>
      (\<forall>block. r = Some block \<longrightarrow> block_taken d sb s block s'))"
    by (rule refusals_run(3)) (use Nil failed_still in \<open>auto simp: volume_ok_for_def\<close>)
  then show ?case by (simp add: runs_def)
next
  case (Cons attempt attempts)
  let ?P = "\<lambda>s' r. (r = None \<longrightarrow> failed d sb s ({False} \<times> UNIV) True s') \<and> (\<forall>block. r = Some block \<longrightarrow> block_taken d sb s block s')"
  let ?g = "(start + word_of_nat attempt) mod sb_group_count sb" and ?D = "disk_of stored s"
  let ?v = "descriptor ?D d sb ?g"
  have ok: "ext2_ok d s" "volume s = Some sb" "sized sb" using volume_ok_sized [OF Cons.prems] by simp_all
  have none: "?P s' None" if "still d s s'" for s' using failed_still [OF that ok(2)] by simp
  let ?find = "ext2_then (Ext2BitmapFindFree d (gd_block_bitmap ?v) (Ext2GroupBlockCount sb ?g)) (\<lambda>found. case found of
      None \<Rightarrow> Ext2WriteRefuse ''a group's free count disagrees with its block bitmap'' | Some index \<Rightarrow> TakeBlock d ?g ?v index)"
  have "runs (ext2_then (Ext2ReadGroupDescriptor (Some d) ?g True) (\<lambda>v. if gd_free_block_count v = 0 then AllocateBlockFrom d start attempts
      else ext2_then (Ext2BitmapFindFree d (gd_block_bitmap v) (Ext2GroupBlockCount sb ?g)) (\<lambda>found. case found of
        None \<Rightarrow> Ext2WriteRefuse ''a group's free count disagrees with its block bitmap'' | Some index \<Rightarrow> TakeBlock d ?g v index))) s ?P"
  proof (rule runs_then [OF Ext2ReadGroupDescriptor_runs [OF ok]])
    fix s' v
    assume "still d s s' \<and> (\<forall>w. Some v = Some w \<longrightarrow> ?g < sb_group_count sb \<and> w = ?v \<and>
       descriptor_offset sb ?g + 32 \<le> unat (sb_block_size sb) \<and> Ext2BlockExists sb (gd_block_bitmap w) \<and> Ext2BlockExists sb (gd_inode_bitmap w) \<and>
       unat (gd_free_block_count w) \<le> unat (Ext2GroupBlockCount sb ?g) \<and> unat (gd_free_inode_count w) \<le> unat (sb_inodes_per_group sb))"
    then have R: "still d s s'" "?g < sb_group_count sb" "v = ?v" by simp_all
    have ok': "volume_ok d sb s'" by (rule volume_ok_still [OF Cons.prems R(1)])
    have same: "disk_of stored s' = ?D" using R(1) by (simp add: still_def)
    have lift: "?P s'' r" if "(r = None \<longrightarrow> failed d sb s' ({False} \<times> UNIV) True s'') \<and> (\<forall>block. r = Some block \<longrightarrow> block_taken d sb s' block s'')" for s'' r
      using that still_then_failed [OF R(1)] still_then_changed [OF R(1)] unfolding block_taken_def same by blast
    have "runs (if gd_free_block_count ?v = 0 then AllocateBlockFrom d start attempts else ?find) s' ?P"
    proof (cases "gd_free_block_count ?v = 0")
      case True
      then show ?thesis using runs_mono [OF Cons.IH [OF ok'] lift] by simp
    next
      case False
      have s': "ext2_ok d s'" "volume s' = Some sb" "sized sb" using volume_ok_sized [OF ok'] by simp_all
      have "runs ?find s' ?P"
      proof (rule runs_then [OF Ext2BitmapFindFree_runs [OF s']])
        fix s'' found
        assume "still d s' s'' \<and> (Some found = Some None \<longrightarrow> (\<forall>i < unat (Ext2GroupBlockCount sb ?g). bit_at (disk_of stored s') d sb (gd_block_bitmap ?v) i)) \<and>
          (\<forall>index. Some found = Some (Some index) \<longrightarrow> index < Ext2GroupBlockCount sb ?g \<and> \<not> bit_at (disk_of stored s') d sb (gd_block_bitmap ?v) (unat index) \<and>
            (\<forall>i < unat index. bit_at (disk_of stored s') d sb (gd_block_bitmap ?v) i))"
        then have F: "still d s' s''" "\<And>index. found = Some index \<Longrightarrow> index < Ext2GroupBlockCount sb ?g"
          "\<And>index i. found = Some index \<Longrightarrow> i < unat index \<Longrightarrow> bit_at ?D d sb (gd_block_bitmap ?v) i" using same by auto
        have all: "still d s s''" by (rule still_trans [OF R(1) F(1)])
        have ok'': "volume_ok d sb s''" "disk_of stored s'' = ?D" using volume_ok_still [OF Cons.prems all] all by (simp_all add: still_def)
        show "runs (case found of None \<Rightarrow> Ext2WriteRefuse ''a group's free count disagrees with its block bitmap''
            | Some index \<Rightarrow> TakeBlock d ?g ?v index) s'' ?P"
        proof (cases found)
          case None
          have "runs (Ext2WriteRefuse ''a group's free count disagrees with its block bitmap'') s'' ?P"
            by (rule refusals_run(3)) (use ok''(1) none still_trans [OF all] in \<open>auto simp: volume_ok_for_def\<close>)
          then show ?thesis using None by simp
        next
          case (Some index)
          have "runs (TakeBlock d ?g ?v index) s'' ?P"
          proof (rule runs_mono [OF TakeBlock_runs [OF ok''(1) R(2) F(2) [OF Some], unfolded ok''(2)]])
            fix t and r :: "u32 option"
            assume T: "(r = None \<longrightarrow> failed d sb s'' {(False, ?g, unat index)} True t) \<and> (\<forall>x. r = Some x \<longrightarrow> x = Ext2GroupFirstBlock sb ?g + index \<and>
              changed d sb s'' False ?g (unat index) True (?v\<lparr>gd_free_block_count := gd_free_block_count ?v - 1\<rparr>)
                (sb\<lparr>sb_free_block_count := sb_free_block_count sb - 1\<rparr>) t)"
            have "failed d sb s ({False} \<times> UNIV) True t" if "r = None"
            proof -
              have "failed d sb s {(False, ?g, unat index)} True t" using T that still_then_failed [OF all] by blast
              then show ?thesis by (rule failed_mono) simp
            qed
            moreover have "marked ?D d sb False ?g j" if "j < unat index" for j
              using F(3) [OF Some that] by (simp add: marked_def bitmap_of_def)
            ultimately show "?P t r"
              using T R(2) F(2) [OF Some] False still_then_changed [OF all] unfolding block_taken_def by blast
          qed
          then show ?thesis using Some by simp
        qed
      qed (use none still_trans [OF R(1)] in blast)
      then show ?thesis using False by simp
    qed
    then show "runs (if gd_free_block_count v = 0 then AllocateBlockFrom d start attempts
        else ext2_then (Ext2BitmapFindFree d (gd_block_bitmap v) (Ext2GroupBlockCount sb ?g)) (\<lambda>found. case found of
          None \<Rightarrow> Ext2WriteRefuse ''a group's free count disagrees with its block bitmap'' | Some index \<Rightarrow> TakeBlock d ?g v index)) s' ?P"
      unfolding R(3) .
  qed (use none in blast)
  then show ?case by (simp only: runs_def AllocateBlockFrom.simps Let_def ok(2) option.sel)
qed

lemma Ext2AllocateBlock_runs:
  assumes "volume_ok d sb s"
  shows "runs (Ext2AllocateBlock (Some d) near True) s (\<lambda>s' r. (r = None \<longrightarrow> failed d sb s ({False} \<times> UNIV) True s') \<and>
    (\<forall>block. r = Some block \<longrightarrow> \<not> sb_read_only sb \<and> sb_free_block_count sb \<noteq> 0 \<and> block_taken d sb s block s'))"
    (is "runs _ s ?P")
proof -
  have ok: "ext2_ok d s" "volume s = Some sb" using volume_ok_sized [OF assms] by simp_all
  have none: "?P s' None" if "still d s s'" for s' using failed_still [OF that ok(2)] by simp
  let ?start = "if near \<noteq> 0 \<and> Ext2BlockExists sb near then Ext2BlockPosition near else ext2_done (0, 0)"
  let ?rest = "\<lambda>(start, index :: u32). AllocateBlockFrom d start [0..<unat (sb_group_count sb)]"
  have start: "\<exists>position. ?start s = Some (s, Some position)"
    using ok(2) by (simp add: Ext2BlockPosition_def Let_def ext2_done_def)
  have "runs (ext2_then Ext2Writable (\<lambda>_. if sb_free_block_count sb = 0 then Ext2WriteRefuse ''the volume holds no free block''
      else ext2_then ?start ?rest)) s ?P"
  proof (rule Ext2Writable_runs [OF ok])
    assume w: "\<not> sb_read_only sb"
    show "runs (if sb_free_block_count sb = 0 then Ext2WriteRefuse ''the volume holds no free block'' else ext2_then ?start ?rest) s ?P"
    proof (cases "sb_free_block_count sb = 0")
      case True
      have "runs (Ext2WriteRefuse ''the volume holds no free block'') s ?P" by (rule refusals_run(3) [OF ok(1)]) (rule none)
      then show ?thesis using True by simp
    next
      case False
      obtain a b where "?start s = Some (s, Some (a, b))" using start by auto
      then have "ext2_then ?start ?rest s = AllocateBlockFrom d a [0..<unat (sb_group_count sb)] s" by (simp add: ext2_then_def)
      moreover have "runs (AllocateBlockFrom d a [0..<unat (sb_group_count sb)]) s ?P"
        by (rule runs_mono [OF AllocateBlockFrom_runs [OF assms]]) (use w False in blast)
      ultimately show ?thesis using False by (simp add: runs_def)
    qed
  qed (rule none)
  then show ?thesis by (simp only: runs_def Ext2AllocateBlock_def ok(2) prod.case option.case bool.case)
qed

text \<open>The group's descriptor read, and then a slot of the group changed.\<close>

lemma descriptor_then_runs:
  assumes "volume_ok d sb s"
    and "\<And>s'. still d s s' \<Longrightarrow> volume_ok d sb s' \<Longrightarrow> disk_of stored s' = disk_of stored s \<Longrightarrow> g < sb_group_count sb \<Longrightarrow>
      runs (f (descriptor (disk_of stored s) d sb g)) s' P"
    and "\<And>s'. still d s s' \<Longrightarrow> P s' None"
  shows "runs (ext2_then (Ext2ReadGroupDescriptor (Some d) g True) f) s P"
proof (rule runs_then)
  show "runs (Ext2ReadGroupDescriptor (Some d) g True) s (\<lambda>s' r. still d s s' \<and>
      (\<forall>v. r = Some v \<longrightarrow> g < sb_group_count sb \<and> v = descriptor (disk_of stored s) d sb g))"
    using volume_ok_sized [OF assms(1)] by (intro runs_mono [OF Ext2ReadGroupDescriptor_runs [of d s sb g]]) auto
qed (use assms(2,3) volume_ok_still [OF assms(1)] in \<open>auto simp: still_def\<close>)

lemma slot_after_runs:
  assumes "still d s t" "volume_ok d sb s" "g < sb_group_count sb" "unat index < unat (sb_block_size sb) * 8" "static sb (change sb)"
  defines "D \<equiv> disk_of stored s"
  assumes "gd_group v = g" "gd_block_bitmap v = gd_block_bitmap (descriptor D d sb g)" "gd_inode_bitmap v = gd_inode_bitmap (descriptor D d sb g)"
    "gd_inode_table v = gd_inode_table (descriptor D d sb g)"
    and "\<And>s'. volume s' = Some (change sb) \<Longrightarrow> \<exists>t. ending s' = Some (t, Some result) \<and> cache t = cache s' \<and> volume t = volume s'"
  shows "runs (ext2_then (Ext2BitmapSet d (bitmap_of D d sb k g) index b what) (\<lambda>_. ext2_then (WriteAccounts d v change) (\<lambda>_. ending))) t
    (\<lambda>s' r. (r = None \<longrightarrow> failed d sb s {(k, g, unat index)} b s') \<and>
      (\<forall>x. r = Some x \<longrightarrow> x = result \<and> changed d sb s k g (unat index) b v (change sb) s'))"
proof -
  have same: "disk_of stored t = D" using assms(1) by (simp add: still_def D_def)
  have "runs (ext2_then (Ext2BitmapSet d (bitmap_of D d sb k g) index b what) (\<lambda>_. ext2_then (WriteAccounts d v change) (\<lambda>_. ending))) t
    (\<lambda>s' r. (r = None \<longrightarrow> failed d sb t {(k, g, unat index)} b s') \<and>
      (\<forall>x. r = Some x \<longrightarrow> x = result \<and> changed d sb t k g (unat index) b v (change sb) s'))"
    by (rule slot_runs [OF volume_ok_still [OF assms(2,1)] assms(3,4), where change = change, unfolded same]) (use assms(5,7-11) in auto)
  then show ?thesis
    by (rule runs_mono) (use still_then_failed [OF assms(1)] still_then_changed [OF assms(1)] in blast)
qed

text \<open>A block freed: the releases' checks passed, all that remains is the slot.\<close>

definition freed_slot :: "nat \<Rightarrow> u32 \<Rightarrow> Ext2GroupDescriptor \<Rightarrow> ('w, unit) ext2" where
  "freed_slot d i v = ext2_then (Ext2BitmapSet d (gd_block_bitmap v) i False ''a block that was already free was freed'') (\<lambda>_.
     ext2_then (WriteAccounts d (v\<lparr>gd_free_block_count := gd_free_block_count v + 1\<rparr>)
        (\<lambda>sb. sb\<lparr>sb_free_block_count := sb_free_block_count sb + 1\<rparr>)) (\<lambda>_ s.
      Some (s\<lparr>Ext2BlocksFreedCount := Ext2BlocksFreedCount s + 1\<rparr>, Some ())))"

lemma Ext2FreeBlock_slot:
  fixes block :: u32
  assumes "volume_ok d sb s"
  defines "g \<equiv> block_group sb block" and "i \<equiv> block_index sb block"
  assumes slot: "\<And>s'. \<not> sb_read_only sb \<Longrightarrow> Ext2BlockExists sb block \<Longrightarrow> g < sb_group_count sb \<Longrightarrow> unat i < unat (sb_block_size sb) * 8 \<Longrightarrow>
      still d s s' \<Longrightarrow> runs (freed_slot d i (descriptor (disk_of stored s) d sb g)) s' P"
    and none: "\<And>s'. still d s s' \<Longrightarrow> P s' None"
  shows "runs (Ext2FreeBlock (Some d) block) s P"
proof -
  have ok: "ext2_ok d s" "volume s = Some sb" and geo: "geometry sb"
    using volume_ok_sized [OF assms(1)] assms(1) by (auto simp: volume_ok_for_def intro: layout_geometry)
  let ?rest = "\<lambda>_. ext2_then (Ext2BlockPosition block) (\<lambda>(g, index).
      ext2_then (Ext2ReadGroupDescriptor (Some d) g True) (freed_slot d index))"
  have "runs (ext2_then Ext2Writable ?rest) s P"
  proof (rule Ext2Writable_runs [OF ok])
    assume w: "\<not> sb_read_only sb"
    show "runs (?rest ()) s P"
    proof (cases "Ext2BlockExists sb block")
      case False
      have "runs (Ext2WriteRefuse ''the block lies outside the volume'') s P" by (rule refusals_run(3) [OF ok(1)]) (rule none)
      then show ?thesis using False ok(2) by (auto simp: runs_def ext2_then_def Ext2BlockPosition_def Ext2WriteRefuse_def)
    next
      case True
      have "?rest () s = ext2_then (Ext2ReadGroupDescriptor (Some d) g True) (freed_slot d i) s"
        using True ok(2) by (simp add: ext2_then_def [of "Ext2BlockPosition block"] Ext2BlockPosition_def ext2_done_def
            g_def i_def block_group_def block_index_def)
      moreover have "runs (ext2_then (Ext2ReadGroupDescriptor (Some d) g True) (freed_slot d i)) s P"
      proof (rule descriptor_then_runs [OF assms(1)])
        have i: "unat i < unat (sb_block_size sb) * 8"
          unfolding i_def by (rule within_bitmap(2) [OF geo block_place(2) [OF geo True]])
        fix s' assume "still d s s'" "g < sb_group_count sb"
        then show "runs (freed_slot d i (descriptor (disk_of stored s) d sb g)) s' P" by (intro slot w True i)
      qed (rule none)
      ultimately show ?thesis by (simp only: runs_def)
    qed
  qed (rule none)
  then show ?thesis by (simp only: runs_def Ext2FreeBlock_def freed_slot_def [abs_def] ok(2) prod.case option.case)
qed

lemma Ext2FreeBlock_runs:
  fixes block :: u32
  assumes "volume_ok d sb s"
  defines "g \<equiv> block_group sb block" and "i \<equiv> block_index sb block"
  defines "v \<equiv> descriptor (disk_of stored s) d sb g"
  shows "runs (Ext2FreeBlock (Some d) block) s (\<lambda>s' r. (r = None \<longrightarrow> failed d sb s {(False, g, unat i)} False s') \<and>
    (r \<noteq> None \<longrightarrow> \<not> sb_read_only sb \<and> Ext2BlockExists sb block \<and> g < sb_group_count sb \<and> changed d sb s False g (unat i) False
       (v\<lparr>gd_free_block_count := gd_free_block_count v + 1\<rparr>) (sb\<lparr>sb_free_block_count := sb_free_block_count sb + 1\<rparr>) s'))"
    (is "runs _ s ?P")
proof (rule Ext2FreeBlock_slot [OF assms(1), where block = block, folded g_def i_def, folded v_def])
  fix s' assume A: "\<not> sb_read_only sb" "Ext2BlockExists sb block" "g < sb_group_count sb" "unat i < unat (sb_block_size sb) * 8" "still d s s'"
  have B: "gd_block_bitmap v = bitmap_of (disk_of stored s) d sb False g" by (simp add: v_def bitmap_of_def)
  have "runs (freed_slot d i v) s' (\<lambda>s' r. (r = None \<longrightarrow> failed d sb s {(False, g, unat i)} False s') \<and>
      (\<forall>x. r = Some x \<longrightarrow> x = () \<and> changed d sb s False g (unat i) False
        (v\<lparr>gd_free_block_count := gd_free_block_count v + 1\<rparr>) (sb\<lparr>sb_free_block_count := sb_free_block_count sb + 1\<rparr>) s'))"
    unfolding freed_slot_def B by (rule slot_after_runs [OF A(5) assms(1) A(3,4)]) (auto simp: v_def)
  then show "runs (freed_slot d i v) s' ?P" by (rule runs_mono) (use A(1-3) in auto)
qed (use failed_still volume_ok_sized [OF assms(1)] in auto)

text \<open>A slot already so: the operation is refused before it writes.\<close>

lemma slot_refused:
  assumes "volume_ok d sb s" "still d s t" "g < sb_group_count sb" "unat index < unat (sb_block_size sb) * 8"
    and "marked (disk_of stored s) d sb k g (unat index) = b"
  shows "runs (ext2_then (Ext2BitmapSet d (bitmap_of (disk_of stored s) d sb k g) index b what) f) t (\<lambda>s' r. r = None \<and> still d s s')"
proof -
  have same: "disk_of stored t = disk_of stored s" using assms(2) by (simp add: still_def)
  show ?thesis
    by (rule runs_then [OF Ext2BitmapSet_runs [OF volume_ok_still [OF assms(1,2)] assms(3,4), of k b what, unfolded same]])
      (use assms(5) still_trans [OF assms(2)] in auto)
qed

lemma Ext2FreeBlock_twice:
  assumes "volume_ok d sb s" "Ext2BlockExists sb block \<Longrightarrow>
    \<not> marked (disk_of stored s) d sb False (block_group sb block) (unat (block_index sb block))"
  shows "runs (Ext2FreeBlock (Some d) block) s (\<lambda>s' r. r = None \<and> still d s s')"
proof (rule Ext2FreeBlock_slot [OF assms(1)])
  let ?v = "descriptor (disk_of stored s) d sb (block_group sb block)"
  fix s' assume A: "Ext2BlockExists sb block" "block_group sb block < sb_group_count sb" "unat (block_index sb block) < unat (sb_block_size sb) * 8" "still d s s'"
  have B: "gd_block_bitmap ?v = bitmap_of (disk_of stored s) d sb False (block_group sb block)" by (simp add: bitmap_of_def)
  show "runs (freed_slot d (block_index sb block) ?v) s' (\<lambda>s' r. r = None \<and> still d s s')"
    unfolding freed_slot_def B by (rule slot_refused [OF assms(1) A(4,2,3)]) (use assms(2) A(1) in simp)
qed simp

subsection \<open>Inodes\<close>

definition inode_taken :: "nat \<Rightarrow> Ext2Superblock \<Rightarrow> 'w ext2_state \<Rightarrow> bool \<Rightarrow> u32 \<Rightarrow> 'w ext2_state \<Rightarrow> bool" where
  "inode_taken d sb s directory number s' \<longleftrightarrow> (\<exists>g < sb_group_count sb. \<exists>i < sb_inodes_per_group sb.
     number = g * sb_inodes_per_group sb + i + 1 \<and> sb_first_inode sb \<le> number \<and>
     gd_free_inode_count (descriptor (disk_of stored s) d sb g) \<noteq> 0 \<and>
     changed d sb s True g (unat i) True (inode_accounted directory (descriptor (disk_of stored s) d sb g))
       (sb\<lparr>sb_free_inode_count := sb_free_inode_count sb - 1\<rparr>) s')"

lemma inode_takenI:
  assumes "g < sb_group_count sb" "i < sb_inodes_per_group sb" "number = g * sb_inodes_per_group sb + i + 1" "sb_first_inode sb \<le> number"
    and "gd_free_inode_count (descriptor (disk_of stored s) d sb g) \<noteq> 0"
    and "changed d sb s True g (unat i) True (inode_accounted directory (descriptor (disk_of stored s) d sb g))
       (sb\<lparr>sb_free_inode_count := sb_free_inode_count sb - 1\<rparr>) s'"
  shows "inode_taken d sb s directory number s'"
  unfolding inode_taken_def using assms by (intro exI [of _ g] conjI exI [of _ i])

lemma AllocateInodeFrom_runs:
  assumes "volume_ok d sb s"
  shows "runs (AllocateInodeFrom d directory gs) s (\<lambda>s' r. (r = None \<longrightarrow> failed d sb s ({True} \<times> UNIV) True s') \<and>
    (\<forall>number. r = Some number \<longrightarrow> inode_taken d sb s directory number s'))"
  using assms
proof (induction gs arbitrary: s)
  case Nil
  have "runs (Ext2WriteRefuse ''no group of the volume holds a free inode'') s (\<lambda>s' r. (r = None \<longrightarrow> failed d sb s ({True} \<times> UNIV) True s') \<and>
      (\<forall>number. r = Some number \<longrightarrow> inode_taken d sb s directory number s'))"
    by (rule refusals_run(3)) (use Nil failed_still in \<open>auto simp: volume_ok_for_def\<close>)
  then show ?case by (simp add: runs_def)
next
  case (Cons group gs)
  let ?P = "\<lambda>s' r. (r = None \<longrightarrow> failed d sb s ({True} \<times> UNIV) True s') \<and> (\<forall>number. r = Some number \<longrightarrow> inode_taken d sb s directory number s')"
  let ?g = "word_of_nat group :: u32" and ?D = "disk_of stored s"
  have ok: "ext2_ok d s" "volume s = Some sb" and geo: "geometry sb"
    using volume_ok_sized [OF Cons.prems] Cons.prems by (auto simp: volume_ok_for_def intro: layout_geometry)
  have none: "?P s' None" if "still d s s'" for s' using failed_still [OF that ok(2)] by simp
  have again: "runs (AllocateInodeFrom d directory gs) s' ?P" if S: "still d s s'" for s'
  proof (rule runs_mono [OF Cons.IH [OF volume_ok_still [OF Cons.prems S]]])
    fix s'' r assume "(r = None \<longrightarrow> failed d sb s' ({True} \<times> UNIV) True s'') \<and> (\<forall>number. r = Some number \<longrightarrow> inode_taken d sb s' directory number s'')"
    moreover have "disk_of stored s' = ?D" using S by (simp add: still_def)
    ultimately show "?P s'' r"
      using still_then_failed [OF S] still_then_changed [OF S] unfolding inode_taken_def by metis
  qed
  let ?found = "\<lambda>v found. case found of None \<Rightarrow> Ext2WriteRefuse ''a group's free count disagrees with its inode bitmap''
      | Some index \<Rightarrow> let candidate = ?g * sb_inodes_per_group sb + index + 1
          in if candidate < sb_first_inode sb then AllocateInodeFrom d directory gs else TakeInode d candidate directory v index"
  let ?find = "\<lambda>v. if gd_free_inode_count v = 0 then AllocateInodeFrom d directory gs
      else ext2_then (Ext2BitmapFindFree d (gd_inode_bitmap v) (sb_inodes_per_group sb)) (?found v)"
  have "runs (ext2_then (Ext2ReadGroupDescriptor (Some d) ?g True) ?find) s ?P"
  proof (rule descriptor_then_runs [OF Cons.prems])
    fix s' assume R: "still d s s'" "volume_ok d sb s'" "disk_of stored s' = ?D" "?g < sb_group_count sb"
    let ?v = "descriptor ?D d sb ?g"
    have s': "ext2_ok d s'" "volume s' = Some sb" "sized sb" using volume_ok_sized [OF R(2)] by simp_all
    show "runs (?find ?v) s' ?P"
    proof (cases "gd_free_inode_count ?v = 0")
      case True
      show ?thesis unfolding if_P [OF True] by (rule again [OF R(1)])
    next
      case False
      have "runs (ext2_then (Ext2BitmapFindFree d (gd_inode_bitmap ?v) (sb_inodes_per_group sb)) (?found ?v)) s' ?P"
      proof (rule runs_then [OF Ext2BitmapFindFree_runs [OF s']])
        fix s'' found
        assume "still d s' s'' \<and> (Some found = Some None \<longrightarrow> (\<forall>i < unat (sb_inodes_per_group sb). bit_at (disk_of stored s') d sb (gd_inode_bitmap ?v) i)) \<and>
          (\<forall>index. Some found = Some (Some index) \<longrightarrow> index < sb_inodes_per_group sb \<and> \<not> bit_at (disk_of stored s') d sb (gd_inode_bitmap ?v) (unat index) \<and>
            (\<forall>i < unat index. bit_at (disk_of stored s') d sb (gd_inode_bitmap ?v) i))"
        then have F: "still d s' s''" "\<And>index. found = Some index \<Longrightarrow> index < sb_inodes_per_group sb" by auto
        have all: "still d s s''" by (rule still_trans [OF R(1) F(1)])
        show "runs (?found ?v found) s'' ?P"
        proof (cases found)
          case None
          have "runs (Ext2WriteRefuse ''a group's free count disagrees with its inode bitmap'') s'' ?P"
            by (rule refusals_run(3)) (use all none still_trans [OF all] in \<open>auto simp: still_def\<close>)
          then show ?thesis using None by simp
        next
          case (Some index)
          let ?candidate = "?g * sb_inodes_per_group sb + index + 1"
          show ?thesis
          proof (cases "?candidate < sb_first_inode sb")
            case True
            then show ?thesis using again [OF all] Some by (simp add: Let_def)
          next
            case False
            have B: "gd_inode_bitmap ?v = bitmap_of ?D d sb True ?g" by (simp add: bitmap_of_def)
            have "runs (TakeInode d ?candidate directory ?v index) s'' (\<lambda>s' r. (r = None \<longrightarrow> failed d sb s {(True, ?g, unat index)} True s') \<and>
              (\<forall>x. r = Some x \<longrightarrow> x = ?candidate \<and> changed d sb s True ?g (unat index) True (inode_accounted directory ?v)
                (sb\<lparr>sb_free_inode_count := sb_free_inode_count sb - 1\<rparr>) s'))"
              unfolding TakeInode_def Let_def B inode_accounted_def [unfolded Let_def, symmetric]
              by (rule slot_after_runs [OF all Cons.prems R(4) within_bitmap(3) [OF geo F(2) [OF Some]]]) auto
            then have "runs (TakeInode d ?candidate directory ?v index) s'' ?P"
            proof (rule runs_mono)
              fix t and r :: "u32 option"
              assume T: "(r = None \<longrightarrow> failed d sb s {(True, ?g, unat index)} True t) \<and>
                (\<forall>x. r = Some x \<longrightarrow> x = ?candidate \<and> changed d sb s True ?g (unat index) True (inode_accounted directory ?v)
                  (sb\<lparr>sb_free_inode_count := sb_free_inode_count sb - 1\<rparr>) t)"
              have "failed d sb s ({True} \<times> UNIV) True t" if "r = None" by (rule failed_mono [of d sb s "{(True, ?g, unat index)}"]) (use T that in auto)
              moreover have "inode_taken d sb s directory number t" if "r = Some number" for number
                using T that False \<open>gd_free_inode_count ?v \<noteq> 0\<close> by (intro inode_takenI [OF R(4) F(2) [OF Some]]) auto
              ultimately show "?P t r" by simp
            qed
            then show ?thesis using Some False by (simp add: Let_def)
          qed
        qed
      qed (use none still_trans [OF R(1)] in blast)
      then show ?thesis unfolding if_not_P [OF False] .
    qed
  qed (rule none)
  then show ?case by (simp only: runs_def AllocateInodeFrom.simps Let_def ok(2) option.sel)
qed

lemma Ext2AllocateInode_runs:
  assumes "volume_ok d sb s"
  shows "runs (Ext2AllocateInode (Some d) directory True) s (\<lambda>s' r. (r = None \<longrightarrow> failed d sb s ({True} \<times> UNIV) True s') \<and>
    (\<forall>number. r = Some number \<longrightarrow> \<not> sb_read_only sb \<and> sb_free_inode_count sb \<noteq> 0 \<and> inode_taken d sb s directory number s'))"
    (is "runs _ s ?P")
proof -
  have ok: "ext2_ok d s" "volume s = Some sb" using volume_ok_sized [OF assms] by simp_all
  have none: "?P s' None" if "still d s s'" for s' using failed_still [OF that ok(2)] by simp
  have "runs (ext2_then Ext2Writable (\<lambda>_. if sb_free_inode_count sb = 0 then Ext2WriteRefuse ''the volume holds no free inode''
      else AllocateInodeFrom d directory [0..<unat (sb_group_count sb)])) s ?P"
  proof (rule Ext2Writable_runs [OF ok])
    assume w: "\<not> sb_read_only sb"
    show "runs (if sb_free_inode_count sb = 0 then Ext2WriteRefuse ''the volume holds no free inode''
        else AllocateInodeFrom d directory [0..<unat (sb_group_count sb)]) s ?P"
    proof (cases "sb_free_inode_count sb = 0")
      case True
      have "runs (Ext2WriteRefuse ''the volume holds no free inode'') s ?P" by (rule refusals_run(3) [OF ok(1)]) (rule none)
      then show ?thesis using True by simp
    next
      case False
      have "runs (AllocateInodeFrom d directory [0..<unat (sb_group_count sb)]) s ?P"
        by (rule runs_mono [OF AllocateInodeFrom_runs [OF assms]]) (use w False in blast)
      then show ?thesis using False by simp
    qed
  qed (rule none)
  then show ?thesis by (simp only: runs_def Ext2AllocateInode_def ok(2) prod.case option.case bool.case)
qed

text \<open>An inode freed.\<close>

definition freed_inode :: "nat \<Rightarrow> bool \<Rightarrow> u32 \<Rightarrow> Ext2GroupDescriptor \<Rightarrow> ('w, unit) ext2" where
  "freed_inode d directory i v = ext2_then (Ext2BitmapSet d (gd_inode_bitmap v) i False ''an inode that was already free was freed'') (\<lambda>_.
     ext2_then (WriteAccounts d (inode_returned directory v) (\<lambda>sb. sb\<lparr>sb_free_inode_count := sb_free_inode_count sb + 1\<rparr>)) (\<lambda>_ s.
       Some (s\<lparr>Ext2InodesFreedCount := Ext2InodesFreedCount s + 1\<rparr>, Some ())))"

lemma Ext2FreeInode_slot:
  fixes number :: u32
  assumes "volume_ok d sb s"
  defines "g \<equiv> inode_group sb number" and "i \<equiv> inode_index sb number"
  assumes slot: "\<And>s'. \<not> sb_read_only sb \<Longrightarrow> number \<noteq> 0 \<Longrightarrow> number \<le> sb_inode_count sb \<Longrightarrow> sb_first_inode sb \<le> number \<Longrightarrow> g < sb_group_count sb \<Longrightarrow>
      unat i < unat (sb_block_size sb) * 8 \<Longrightarrow> still d s s' \<Longrightarrow> runs (freed_inode d directory i (descriptor (disk_of stored s) d sb g)) s' P"
    and none: "\<And>s'. still d s s' \<Longrightarrow> P s' None"
  shows "runs (Ext2FreeInode (Some d) number directory) s P"
proof -
  have ok: "ext2_ok d s" "volume s = Some sb" and geo: "geometry sb"
    using volume_ok_sized [OF assms(1)] assms(1) by (auto simp: volume_ok_for_def intro: layout_geometry)
  have refused: "runs (Ext2WriteRefuse reason) s P" for reason by (rule refusals_run(3) [OF ok(1)]) (rule none)
  let ?rest = "\<lambda>_. if number = 0 \<or> sb_inode_count sb < number then Ext2WriteRefuse ''the volume holds no inode of that number''
    else if number < sb_first_inode sb then Ext2WriteRefuse ''an inode belonging to the filesystem was freed''
    else ext2_then (Ext2ReadGroupDescriptor (Some d) g True) (freed_inode d directory i)"
  have "runs (ext2_then Ext2Writable ?rest) s P"
  proof (rule Ext2Writable_runs [OF ok])
    assume w: "\<not> sb_read_only sb"
    show "runs (?rest ()) s P"
    proof (cases "number = 0 \<or> sb_inode_count sb < number \<or> number < sb_first_inode sb")
      case True
      then show ?thesis using refused by (cases "number = 0 \<or> sb_inode_count sb < number") (auto simp only: if_True if_False)
    next
      case False
      then have n: "number \<noteq> 0" "number \<le> sb_inode_count sb" "sb_first_inode sb \<le> number" by auto
      have "runs (ext2_then (Ext2ReadGroupDescriptor (Some d) g True) (freed_inode d directory i)) s P"
      proof (rule descriptor_then_runs [OF assms(1)])
        have i: "unat i < unat (sb_block_size sb) * 8"
          unfolding i_def by (rule within_bitmap(3) [OF geo inode_place(2) [OF geo n(1,2)]])
        fix s' assume "still d s s'" "g < sb_group_count sb"
        then show "runs (freed_inode d directory i (descriptor (disk_of stored s) d sb g)) s' P" by (intro slot w n i)
      qed (rule none)
      then show ?thesis using n by (simp only: if_False not_less [symmetric] simp_thms)
    qed
  qed (rule none)
  then show ?thesis
    by (simp only: runs_def Ext2FreeInode_def freed_inode_def [abs_def] ok(2) prod.case option.case Let_def inode_returned_def g_def i_def inode_group_def inode_index_def)
qed

lemma Ext2FreeInode_runs:
  fixes number :: u32
  assumes "volume_ok d sb s"
  defines "g \<equiv> inode_group sb number" and "i \<equiv> inode_index sb number"
  defines "v \<equiv> descriptor (disk_of stored s) d sb g"
  shows "runs (Ext2FreeInode (Some d) number directory) s (\<lambda>s' r. (r = None \<longrightarrow> failed d sb s {(True, g, unat i)} False s') \<and>
    (r \<noteq> None \<longrightarrow> \<not> sb_read_only sb \<and> number \<noteq> 0 \<and> number \<le> sb_inode_count sb \<and> sb_first_inode sb \<le> number \<and> g < sb_group_count sb \<and>
      changed d sb s True g (unat i) False (inode_returned directory v) (sb\<lparr>sb_free_inode_count := sb_free_inode_count sb + 1\<rparr>) s'))"
    (is "runs _ s ?P")
proof (rule Ext2FreeInode_slot [OF assms(1), where number = number, folded g_def i_def, folded v_def])
  fix s' assume A: "\<not> sb_read_only sb" "number \<noteq> 0" "number \<le> sb_inode_count sb" "sb_first_inode sb \<le> number" "g < sb_group_count sb"
    "unat i < unat (sb_block_size sb) * 8" "still d s s'"
  have B: "gd_inode_bitmap v = bitmap_of (disk_of stored s) d sb True g" by (simp add: v_def bitmap_of_def)
  have "runs (freed_inode d directory i v) s' (\<lambda>s' r. (r = None \<longrightarrow> failed d sb s {(True, g, unat i)} False s') \<and>
      (\<forall>x. r = Some x \<longrightarrow> x = () \<and> changed d sb s True g (unat i) False (inode_returned directory v)
        (sb\<lparr>sb_free_inode_count := sb_free_inode_count sb + 1\<rparr>) s'))"
    unfolding freed_inode_def B by (rule slot_after_runs [OF A(7) assms(1) A(5,6)]) (auto simp: v_def)
  then show "runs (freed_inode d directory i v) s' ?P" by (rule runs_mono) (use A(1-5) in auto)
qed (use failed_still volume_ok_sized [OF assms(1)] in auto)

lemma Ext2FreeInode_twice:
  assumes "volume_ok d sb s" "number \<noteq> 0 \<Longrightarrow> number \<le> sb_inode_count sb \<Longrightarrow>
    \<not> marked (disk_of stored s) d sb True (inode_group sb number) (unat (inode_index sb number))"
  shows "runs (Ext2FreeInode (Some d) number directory) s (\<lambda>s' r. r = None \<and> still d s s')"
proof (rule Ext2FreeInode_slot [OF assms(1)])
  let ?v = "descriptor (disk_of stored s) d sb (inode_group sb number)"
  fix s' assume A: "number \<noteq> 0" "number \<le> sb_inode_count sb" "inode_group sb number < sb_group_count sb"
    "unat (inode_index sb number) < unat (sb_block_size sb) * 8" "still d s s'"
  have B: "gd_inode_bitmap ?v = bitmap_of (disk_of stored s) d sb True (inode_group sb number)" by (simp add: bitmap_of_def)
  show "runs (freed_inode d directory (inode_index sb number) ?v) s' (\<lambda>s' r. r = None \<and> still d s s')"
    unfolding freed_inode_def B by (rule slot_refused [OF assms(1) A(5,3,4)]) (use assms(2) A(1,2) in simp)
qed simp

text \<open>Nothing of the filesystem's own is freed, and nothing outside the volume.\<close>

lemma Ext2FreeInode_reserved:
  assumes "volume_ok d sb s" "number < sb_first_inode sb \<or> sb_inode_count sb < number"
  shows "runs (Ext2FreeInode (Some d) number directory) s (\<lambda>s' r. r = None \<and> still d s s')"
  by (rule Ext2FreeInode_slot [OF assms(1)]) (use assms(2) in auto)

end

end
