(* ===== verification/Ext2Accounts.thy ===== *)
theory Ext2Accounts
  imports Ext2AllocOps
begin

text \<open>
  The blocks and inodes of a volume as its clients know them: which are in use, by the bitmaps,
  and whether the counts kept of the free ones, in each descriptor and in the superblock, are
  exact.
\<close>

definition block_used :: "(nat \<Rightarrow> u64 \<Rightarrow> u8 option) \<Rightarrow> nat \<Rightarrow> Ext2Superblock \<Rightarrow> u32 \<Rightarrow> bool" where
  "block_used D d sb block = marked D d sb False (block_group sb block) (unat (block_index sb block))"

definition inode_used :: "(nat \<Rightarrow> u64 \<Rightarrow> u8 option) \<Rightarrow> nat \<Rightarrow> Ext2Superblock \<Rightarrow> u32 \<Rightarrow> bool" where
  "inode_used D d sb number = marked D d sb True (inode_group sb number) (unat (inode_index sb number))"

definition inode_exists :: "Ext2Superblock \<Rightarrow> u32 \<Rightarrow> bool" where
  "inode_exists sb number \<longleftrightarrow> number \<noteq> 0 \<and> number \<le> sb_inode_count sb"

subsection \<open>Every block and inode has its group\<close>

lemma divide_up_reaches:
  assumes "0 < d" "Ext2DivideRoundingUp q d \<noteq> 0" "x < q"
  shows "x div d < Ext2DivideRoundingUp q d"
proof -
  have d: "unat (d - 1) = unat d - 1" "0 < unat d" using assms(1) by (simp_all add: unat_sub word_le_nat_alt word_less_nat_alt)
  have q: "unat q < 2 ^ 32" "unat d < 2 ^ 32" using unsigned_less [of q, where 'a = nat] unsigned_less [of d, where 'a = nat] by simp_all
  have no_wrap: "unat q + (unat d - 1) < 2 ^ 32"
  proof (rule ccontr)
    assume w: "\<not> unat q + (unat d - 1) < 2 ^ 32"
    have "unat (q + (d - 1)) = (unat q + (unat d - 1)) mod 2 ^ 32" by (simp add: unat_word_ariths d)
    also have "\<dots> = unat q + (unat d - 1) - 2 ^ 32" using w q by (simp add: le_mod_geq)
    finally have "unat (q + (d - 1)) < unat d" using q d(2) by linarith
    then have "Ext2DivideRoundingUp q d = 0" by (simp add: Ext2DivideRoundingUp_def word_unat_eq_iff unat_div)
    then show False using assms(2) by simp
  qed
  then have s: "unat (q + (d - 1)) = unat q - 1 + unat d" using d assms(3) by (simp add: unat_word_ariths word_less_nat_alt)
  have "unat x div unat d \<le> (unat q - 1) div unat d" using assms(3) by (intro div_le_mono) (simp add: word_less_nat_alt)
  also have "\<dots> < (unat q - 1 + unat d) div unat d" using d(2) by (subst div_add_self2) simp_all
  finally show ?thesis by (simp add: Ext2DivideRoundingUp_def word_less_nat_alt unat_div s)
qed

lemma layout_groups:
  assumes "layout D d sb"
  shows "sb_group_count sb \<noteq> 0" "Ext2BlockExists sb block \<Longrightarrow> block_group sb block < sb_group_count sb"
    "inode_exists sb number \<Longrightarrow> inode_group sb number < sb_group_count sb"
proof -
  have geo: "geometry sb" and inodes: "unat (sb_inode_count sb) = unat (sb_group_count sb) * unat (sb_inodes_per_group sb)"
    using assms unfolding layout_def by blast+
  have G: "0 < sb_inode_count sb" "0 < sb_blocks_per_group sb" "0 < sb_inodes_per_group sb"
    "sb_group_count sb = Ext2DivideRoundingUp (sb_block_count sb - sb_first_data_block sb) (sb_blocks_per_group sb)"
    "sb_group_count sb = Ext2DivideRoundingUp (sb_inode_count sb) (sb_inodes_per_group sb)"
    using geo unfolding geometry_def by blast+
  show gc: "sb_group_count sb \<noteq> 0" using G(1) inodes by (auto simp: word_less_nat_alt)
  show "block_group sb block < sb_group_count sb" if "Ext2BlockExists sb block"
  proof -
    have "unat (block - sb_first_data_block sb) < unat (sb_block_count sb - sb_first_data_block sb)"
      using that by (auto simp: Ext2BlockExists_def unat_sub word_le_nat_alt word_less_nat_alt intro: diff_less_mono)
    then have "block - sb_first_data_block sb < sb_block_count sb - sb_first_data_block sb" by (simp add: word_less_nat_alt)
    from divide_up_reaches [OF G(2) _ this] gc show ?thesis unfolding block_group_def G(4) by simp
  qed
  show "inode_group sb number < sb_group_count sb" if "inode_exists sb number"
  proof -
    have "unat (number - 1) = unat number - 1" "0 < unat number" using that by (simp_all add: inode_exists_def unat_minus_one unat_gt_0)
    moreover have "unat number \<le> unat (sb_inode_count sb)" using that by (simp add: inode_exists_def word_le_nat_alt)
    ultimately have "unat (number - 1) < unat (sb_inode_count sb)" by linarith
    then have "number - 1 < sb_inode_count sb" by (simp add: word_less_nat_alt)
    from divide_up_reaches [OF G(3) _ this] gc show ?thesis unfolding inode_group_def G(5) by simp
  qed
qed

subsection \<open>One slot changed\<close>

lemma block_slot:
  assumes "layout D d sb" "Ext2BlockExists sb x" "g < sb_group_count sb" "i < Ext2GroupBlockCount sb g"
  shows "block_group sb x = g \<and> block_index sb x = i \<longleftrightarrow> x = Ext2GroupFirstBlock sb g + i"
  using group_blocks(2,3) [OF layout_geometry [OF assms(1)] assms(3,4)] block_place(1) [OF layout_geometry [OF assms(1)] assms(2)] by auto

lemma block_in_range:
  assumes "layout D d sb" "Ext2BlockExists sb x"
  shows "block_group sb x < sb_group_count sb" "unat (block_index sb x) < unat (sb_block_size sb) * 8"
  using layout_groups(2) [OF assms] within_bitmap(2) [OF layout_geometry [OF assms(1)] block_place(2) [OF layout_geometry [OF assms(1)] assms(2)]] by auto

lemma inode_in_range:
  assumes "layout D d sb" "inode_exists sb n"
  shows "inode_group sb n < sb_group_count sb" "unat (inode_index sb n) < unat (sb_block_size sb) * 8"
  using layout_groups(3) [OF assms] assms(2)
    within_bitmap(3) [OF layout_geometry [OF assms(1)] inode_place(2) [OF layout_geometry [OF assms(1)]], of n]
  by (auto simp: inode_exists_def)

lemma marks_blocks:
  assumes "layout D d sb" "marks_become d sb X b D D'" "Ext2BlockExists sb x"
  shows "block_used D' d sb x = (if (False, block_group sb x, unat (block_index sb x)) \<in> X then b else block_used D d sb x)"
  using assms(2) block_in_range [OF assms(1,3)] by (simp add: marks_become_def block_used_def)

lemma marks_inodes:
  assumes "layout D d sb" "marks_become d sb X b D D'" "inode_exists sb n"
  shows "inode_used D' d sb n = (if (True, inode_group sb n, unat (inode_index sb n)) \<in> X then b else inode_used D d sb n)"
  using assms(2) inode_in_range [OF assms(1,3)] by (simp add: marks_become_def inode_used_def)

text \<open>The slot of one block changed, and of one inode.\<close>

lemma block_changed:
  assumes "layout D d sb" "g < sb_group_count sb" "i < Ext2GroupBlockCount sb g" "marks_become d sb {(False, g, unat i)} b D D'"
  defines "block \<equiv> Ext2GroupFirstBlock sb g + i"
  shows "Ext2BlockExists sb block" "block_used D d sb block = marked D d sb False g (unat i)"
    "Ext2BlockExists sb x \<Longrightarrow> block_used D' d sb x = (if x = block then b else block_used D d sb x)"
    "inode_exists sb n \<Longrightarrow> inode_used D' d sb n = inode_used D d sb n"
proof -
  note B = group_blocks [OF layout_geometry [OF assms(1)] assms(2,3)]
  show "Ext2BlockExists sb block" "block_used D d sb block = marked D d sb False g (unat i)" using B by (simp_all add: block_def block_used_def)
  show "Ext2BlockExists sb x \<Longrightarrow> block_used D' d sb x = (if x = block then b else block_used D d sb x)"
    using marks_blocks [OF assms(1,4), of x] block_slot [OF assms(1) _ assms(2,3), of x] by (simp add: block_def flip: word_unat_eq_iff)
  show "inode_exists sb n \<Longrightarrow> inode_used D' d sb n = inode_used D d sb n" using marks_inodes [OF assms(1,4), of n] by simp
qed

lemma inode_changed:
  assumes "layout D d sb" "g < sb_group_count sb" "i < sb_inodes_per_group sb" "marks_become d sb {(True, g, unat i)} b D D'"
  defines "number \<equiv> g * sb_inodes_per_group sb + i + 1"
  shows "inode_exists sb number" "inode_used D d sb number = marked D d sb True g (unat i)"
    "inode_exists sb n \<Longrightarrow> inode_used D' d sb n = (if n = number then b else inode_used D d sb n)"
    "Ext2BlockExists sb x \<Longrightarrow> block_used D' d sb x = block_used D d sb x"
proof -
  have geo: "geometry sb" and inodes: "unat (sb_inode_count sb) = unat (sb_group_count sb) * unat (sb_inodes_per_group sb)"
    using assms(1) unfolding layout_def by blast+
  note N = group_inodes [OF geo inodes assms(2,3)]
  show "inode_exists sb number" "inode_used D d sb number = marked D d sb True g (unat i)"
    using N by (simp_all add: number_def inode_used_def inode_exists_def)
  have "inode_group sb n = g \<and> inode_index sb n = i \<longleftrightarrow> n = number" if "inode_exists sb n"
    using N(3,4) inode_place(1) [OF geo, of n] that by (auto simp: number_def inode_exists_def)
  then show "inode_exists sb n \<Longrightarrow> inode_used D' d sb n = (if n = number then b else inode_used D d sb n)"
    using marks_inodes [OF assms(1,4), of n] by (simp flip: word_unat_eq_iff)
  show "Ext2BlockExists sb x \<Longrightarrow> block_used D' d sb x = block_used D d sb x" using marks_blocks [OF assms(1,4), of x] by simp
qed

subsection \<open>Exact counts\<close>

definition free_places :: "(nat \<Rightarrow> u64 \<Rightarrow> u8 option) \<Rightarrow> nat \<Rightarrow> Ext2Superblock \<Rightarrow> bool \<Rightarrow> u32 \<Rightarrow> nat set" where
  "free_places D d sb k g = {i. i < unat (if k then sb_inodes_per_group sb else Ext2GroupBlockCount sb g) \<and> \<not> marked D d sb k g i}"

definition free_blocks :: "(nat \<Rightarrow> u64 \<Rightarrow> u8 option) \<Rightarrow> nat \<Rightarrow> Ext2Superblock \<Rightarrow> u32 set" where
  "free_blocks D d sb = {block. Ext2BlockExists sb block \<and> \<not> block_used D d sb block}"

definition free_inodes :: "(nat \<Rightarrow> u64 \<Rightarrow> u8 option) \<Rightarrow> nat \<Rightarrow> Ext2Superblock \<Rightarrow> u32 set" where
  "free_inodes D d sb = {number. inode_exists sb number \<and> \<not> inode_used D d sb number}"

definition exact_counts :: "(nat \<Rightarrow> u64 \<Rightarrow> u8 option) \<Rightarrow> nat \<Rightarrow> Ext2Superblock \<Rightarrow> bool" where
  "exact_counts D d sb \<longleftrightarrow>
     (\<forall>g < sb_group_count sb. unat (gd_free_block_count (descriptor D d sb g)) = card (free_places D d sb False g) \<and>
        unat (gd_free_inode_count (descriptor D d sb g)) = card (free_places D d sb True g)) \<and>
     unat (sb_free_block_count sb) = card (free_blocks D d sb) \<and> unat (sb_free_inode_count sb) = card (free_inodes D d sb)"

lemma exact_countsD:
  assumes "exact_counts D d sb"
  shows "g < sb_group_count sb \<Longrightarrow> unat (gd_free_block_count (descriptor D d sb g)) = card (free_places D d sb False g)"
    "g < sb_group_count sb \<Longrightarrow> unat (gd_free_inode_count (descriptor D d sb g)) = card (free_places D d sb True g)"
    "unat (sb_free_block_count sb) = card (free_blocks D d sb)" "unat (sb_free_inode_count sb) = card (free_inodes D d sb)"
  using assms by (auto simp: exact_counts_def)

lemma exact_counts_static:
  assumes "static sb sb'"
  shows "exact_counts D d sb' \<longleftrightarrow>
    (\<forall>g < sb_group_count sb. unat (gd_free_block_count (descriptor D d sb g)) = card (free_places D d sb False g) \<and>
       unat (gd_free_inode_count (descriptor D d sb g)) = card (free_places D d sb True g)) \<and>
    unat (sb_free_block_count sb') = card (free_blocks D d sb) \<and> unat (sb_free_inode_count sb') = card (free_inodes D d sb)"
  using static_view [OF assms] static_fields [OF assms]
  by (simp add: exact_counts_def free_places_def free_blocks_def free_inodes_def block_used_def inode_used_def inode_exists_def
      block_group_def block_index_def inode_group_def inode_index_def)

lemma count_taken:
  assumes "unat (c :: 'a :: len word) = card S" "x \<in> S" "finite S"
  shows "unat (c - 1) = card (S - {x})"
proof -
  have "0 < card S" using assms by (simp add: card_gt_0_iff) blast
  then have "c \<noteq> 0" using assms(1) by auto
  then show ?thesis using assms by (simp add: unat_minus_one)
qed

lemma count_returned:
  assumes "unat (c :: 'a :: len word) = card S" "x \<notin> S" "finite S" "card (insert x S) < 2 ^ LENGTH('a)"
  shows "unat (c + 1) = card (insert x S)"
  using assms by (simp add: unat_word_ariths)

text \<open>What a change of one slot makes of the free places of a group.\<close>

lemma places_changed:
  assumes "layout D d sb" "g < sb_group_count sb" "j < unat (if k then sb_inodes_per_group sb else Ext2GroupBlockCount sb g)"
    and "marks_become d sb {(k, g, j)} b D D'"
  shows "free_places D' d sb k g = (if b then free_places D d sb k g - {j} else insert j (free_places D d sb k g))"
    "g' < sb_group_count sb \<Longrightarrow> k' \<noteq> k \<or> g' \<noteq> g \<Longrightarrow> free_places D' d sb k' g' = free_places D d sb k' g'"
    "card (insert j (free_places D d sb k g)) < 2 ^ 16" "finite (free_places D d sb k g)"
proof -
  have range: "i < unat (sb_block_size sb) * 8" if "i < unat (if k then sb_inodes_per_group sb else Ext2GroupBlockCount sb g)" for i k g
  proof -
    have "Ext2GroupBlockCount sb g \<le> sb_blocks_per_group sb" by (auto simp: Ext2GroupBlockCount_def Let_def)
    moreover have "sb_blocks_per_group sb \<le> sb_block_size sb * 8" "sb_inodes_per_group sb \<le> sb_block_size sb * 8"
      using layout_geometry [OF assms(1)] unfolding geometry_def by blast+
    moreover have "unat (sb_block_size sb * 8) = unat (sb_block_size sb) * 8" using layout_geometry [OF assms(1)] by (auto simp: geometry_def)
    ultimately show ?thesis using that by (auto simp: word_le_nat_alt split: if_splits)
  qed
  have mk: "marked D' d sb k' g' i = (if (k', g', i) = (k, g, j) then b else marked D d sb k' g' i)"
    if "g' < sb_group_count sb" "i < unat (if k' then sb_inodes_per_group sb else Ext2GroupBlockCount sb g')" for k' g' i
    using assms(4) that(1) range [OF that(2)] by (simp add: marks_become_def)
  show "free_places D' d sb k g = (if b then free_places D d sb k g - {j} else insert j (free_places D d sb k g))"
  proof -
    define n where "n = unat (if k then sb_inodes_per_group sb else Ext2GroupBlockCount sb g)"
    have "marked D' d sb k g i = (if i = j then b else marked D d sb k g i)" if "i < n" for i
      using mk [OF assms(2), of i k] that by (simp add: n_def)
    moreover have "j < n" using assms(3) by (simp add: n_def)
    ultimately have "{i. i < n \<and> \<not> marked D' d sb k g i} = (if b then {i. i < n \<and> \<not> marked D d sb k g i} - {j} else insert j {i. i < n \<and> \<not> marked D d sb k g i})"
      by (cases b) (auto split: if_splits)
    then show ?thesis by (simp add: free_places_def n_def)
  qed
  show "g' < sb_group_count sb \<Longrightarrow> k' \<noteq> k \<or> g' \<noteq> g \<Longrightarrow> free_places D' d sb k' g' = free_places D d sb k' g'"
    unfolding free_places_def using mk [of g' _ k'] by (intro Collect_cong) auto
  have sub: "insert j (free_places D d sb k g) \<subseteq> {..<unat (sb_block_size sb) * 8}"
    unfolding free_places_def lessThan_def using assms(3) range [of _ k g] by blast
  then show "finite (free_places D d sb k g)" by (meson finite_lessThan finite_subset insert_subset)
  have "card (insert j (free_places D d sb k g)) \<le> unat (sb_block_size sb) * 8" using card_mono [OF _ sub] by simp
  also have "\<dots> < 2 ^ 16" using layout_geometry [OF assms(1)] by (auto simp: geometry_def)
  finally show "card (insert j (free_places D d sb k g)) < 2 ^ 16" .
qed

lemma proper_card: "(x :: u32) \<notin> S \<Longrightarrow> card S < 2 ^ 32"
proof -
  assume "x \<notin> S"
  then have "S \<subset> UNIV" by blast
  from psubset_card_mono [OF _ this] show ?thesis by (simp add: card_word)
qed

lemma exact_block:
  assumes "layout D d sb" "exact_counts D d sb" "g < sb_group_count sb" "i < Ext2GroupBlockCount sb g"
    and "marks_become d sb {(False, g, unat i)} b D D'" "marked D d sb False g (unat i) \<noteq> b"
    and "gd_free_block_count (descriptor D' d sb g) = (if b then gd_free_block_count (descriptor D d sb g) - 1 else gd_free_block_count (descriptor D d sb g) + 1)"
    and "gd_free_inode_count (descriptor D' d sb g) = gd_free_inode_count (descriptor D d sb g)"
    and "\<forall>g' < sb_group_count sb. g' \<noteq> g \<longrightarrow> descriptor D' d sb g' = descriptor D d sb g'"
    and "static sb sb'" "sb_free_block_count sb' = (if b then sb_free_block_count sb - 1 else sb_free_block_count sb + 1)" "sb_free_inode_count sb' = sb_free_inode_count sb"
  shows "exact_counts D' d sb'"
proof -
  note E = exact_countsD [OF assms(2)]
  have j: "unat i < unat (if False then sb_inodes_per_group sb else Ext2GroupBlockCount sb g)" using assms(4) by (simp add: word_less_nat_alt)
  note P = places_changed [OF assms(1,3) j assms(5)]
  let ?block = "Ext2GroupFirstBlock sb g + i"
  note C = block_changed [OF assms(1,3,4,5)]
  have blocks: "free_blocks D' d sb = (if b then free_blocks D d sb - {?block} else insert ?block (free_blocks D d sb))"
    using C(1,2) C(3) by (auto simp: free_blocks_def split: if_splits)
  have inodes: "free_inodes D' d sb = free_inodes D d sb" using C(4) by (auto simp: free_inodes_def)
  have mem: "(unat i \<in> free_places D d sb False g) = b" "(?block \<in> free_blocks D d sb) = b"
    using assms(6) j C(1,2) by (simp_all add: free_places_def free_blocks_def)
  have "\<not> Ext2BlockExists sb (sb_block_count sb)" by (simp add: Ext2BlockExists_def)
  then have "sb_block_count sb \<notin> insert ?block (free_blocks D d sb)" using C(1) by (auto simp: free_blocks_def)
  then have small: "card (insert ?block (free_blocks D d sb)) < 2 ^ 32" by (rule proper_card)
  have group: "unat (gd_free_block_count (descriptor D' d sb g)) = card (free_places D' d sb False g)"
    unfolding assms(7) P(1) using count_taken [of "gd_free_block_count (descriptor D d sb g)" _ "unat i"] count_returned [of "gd_free_block_count (descriptor D d sb g)" _ "unat i"]
      E(1) [OF assms(3)] mem(1) P(3,4) by (cases b) simp_all
  have total: "unat (sb_free_block_count sb') = card (free_blocks D' d sb)"
    unfolding assms(11) blocks using count_taken [of "sb_free_block_count sb" _ ?block] count_returned [of "sb_free_block_count sb" _ ?block]
      E(3) mem(2) small by (cases b) simp_all
  have "unat (gd_free_block_count (descriptor D' d sb g')) = card (free_places D' d sb False g') \<and>
      unat (gd_free_inode_count (descriptor D' d sb g')) = card (free_places D' d sb True g')" if "g' < sb_group_count sb" for g'
  proof (cases "g' = g")
    case True
    then show ?thesis using group assms(8) E(2) [OF assms(3)] P(2) [OF assms(3), of True] by simp
  next
    case False
    then show ?thesis using assms(9) E(1,2) [OF that] P(2) [OF that] that by simp
  qed
  then show ?thesis unfolding exact_counts_static [OF assms(10)] using total E(4) inodes assms(12) by simp
qed

lemma exact_inode:
  assumes "layout D d sb" "exact_counts D d sb" "g < sb_group_count sb" "i < sb_inodes_per_group sb"
    and "marks_become d sb {(True, g, unat i)} b D D'" "marked D d sb True g (unat i) \<noteq> b"
    and "gd_free_inode_count (descriptor D' d sb g) = (if b then gd_free_inode_count (descriptor D d sb g) - 1 else gd_free_inode_count (descriptor D d sb g) + 1)"
    and "gd_free_block_count (descriptor D' d sb g) = gd_free_block_count (descriptor D d sb g)"
    and "\<forall>g' < sb_group_count sb. g' \<noteq> g \<longrightarrow> descriptor D' d sb g' = descriptor D d sb g'"
    and "static sb sb'" "sb_free_inode_count sb' = (if b then sb_free_inode_count sb - 1 else sb_free_inode_count sb + 1)" "sb_free_block_count sb' = sb_free_block_count sb"
  shows "exact_counts D' d sb'"
proof -
  note E = exact_countsD [OF assms(2)]
  have j: "unat i < unat (if True then sb_inodes_per_group sb else Ext2GroupBlockCount sb g)" using assms(4) by (simp add: word_less_nat_alt)
  note P = places_changed [OF assms(1,3) j assms(5)]
  let ?number = "g * sb_inodes_per_group sb + i + 1"
  note C = inode_changed [OF assms(1,3,4,5)]
  have inodes: "free_inodes D' d sb = (if b then free_inodes D d sb - {?number} else insert ?number (free_inodes D d sb))"
    using C(1,2) C(3) by (auto simp: free_inodes_def split: if_splits)
  have blocks: "free_blocks D' d sb = free_blocks D d sb" using C(4) by (auto simp: free_blocks_def)
  have mem: "(unat i \<in> free_places D d sb True g) = b" "(?number \<in> free_inodes D d sb) = b"
    using assms(6) j C(1,2) by (simp_all add: free_places_def free_inodes_def)
  have "0 \<notin> insert ?number (free_inodes D d sb)" using C(1) by (auto simp: free_inodes_def inode_exists_def)
  then have small: "card (insert ?number (free_inodes D d sb)) < 2 ^ 32" by (rule proper_card)
  have group: "unat (gd_free_inode_count (descriptor D' d sb g)) = card (free_places D' d sb True g)"
    unfolding assms(7) P(1) using count_taken [of "gd_free_inode_count (descriptor D d sb g)" _ "unat i"] count_returned [of "gd_free_inode_count (descriptor D d sb g)" _ "unat i"]
      E(2) [OF assms(3)] mem(1) P(3,4) by (cases b) simp_all
  have total: "unat (sb_free_inode_count sb') = card (free_inodes D' d sb)"
    unfolding assms(11) inodes using count_taken [of "sb_free_inode_count sb" _ ?number] count_returned [of "sb_free_inode_count sb" _ ?number]
      E(4) mem(2) small by (cases b) simp_all
  have "unat (gd_free_block_count (descriptor D' d sb g')) = card (free_places D' d sb False g') \<and>
      unat (gd_free_inode_count (descriptor D' d sb g')) = card (free_places D' d sb True g')" if "g' < sb_group_count sb" for g'
  proof (cases "g' = g")
    case True
    then show ?thesis using group assms(8) E(1) [OF assms(3)] P(2) [OF assms(3), of False] by simp
  next
    case False
    then show ?thesis using assms(9) E(1,2) [OF that] P(2) [OF that] that by simp
  qed
  then show ?thesis unfolding exact_counts_static [OF assms(10)] using total E(3) blocks assms(12) by simp
qed

subsection \<open>The operations upon the counts\<close>

text \<open>The counts in order, in the volume's structure and upon its device.\<close>

definition accounted :: "'w BlockOperations \<Rightarrow> ('w \<Rightarrow> u64 \<Rightarrow> u64 \<Rightarrow> u8 list) \<Rightarrow> ('w \<Rightarrow> u64 \<Rightarrow> nat) \<Rightarrow> ('w \<Rightarrow> bool) \<Rightarrow> nat \<Rightarrow> 'w ext2_state \<Rightarrow> bool" where
  "accounted ops stored extent sound d s \<longleftrightarrow>
     (\<exists>sb. volume_ok_for ops stored extent sound d sb s \<and> exact_counts (disk_of stored s) d sb \<and>
       Ext2ReadWord (superblock_raw (disk_of stored s) d) 12 = sb_free_block_count sb \<and>
       Ext2ReadWord (superblock_raw (disk_of stored s) d) 16 = sb_free_inode_count sb)"

context block_driver
begin

lemma changed_volume_ok:
  assumes "volume_ok d sb s" "changed d sb s k g i b v sb' s'" "static sb sb'"
  shows "volume_ok d sb' s'"
  by (rule volume_ok_altered [OF assms(1) _ _ assms(3)]) (use assms(2) in \<open>auto simp: changed_def\<close>)

lemma block_counts:
  assumes "volume_ok d sb s" "exact_counts (disk_of stored s) d sb" "g < sb_group_count sb" "i < Ext2GroupBlockCount sb g"
    and C: "changed d sb s False g (unat i) b v sb' s'" and "static sb sb'"
    and "gd_free_block_count v = (if b then gd_free_block_count (descriptor (disk_of stored s) d sb g) - 1 else gd_free_block_count (descriptor (disk_of stored s) d sb g) + 1)"
    and "gd_free_inode_count v = gd_free_inode_count (descriptor (disk_of stored s) d sb g)"
    and "sb_free_block_count sb' = (if b then sb_free_block_count sb - 1 else sb_free_block_count sb + 1)" "sb_free_inode_count sb' = sb_free_inode_count sb"
  defines "block \<equiv> Ext2GroupFirstBlock sb g + i"
  shows "accounted ops stored extent sound d s'" "Ext2BlockExists sb block \<and> block_used (disk_of stored s) d sb block \<noteq> b"
    "free_blocks (disk_of stored s') d sb = (if b then free_blocks (disk_of stored s) d sb - {block} else insert block (free_blocks (disk_of stored s) d sb))"
    "free_inodes (disk_of stored s') d sb = free_inodes (disk_of stored s) d sb"
proof -
  have lay: "layout (disk_of stored s) d sb" using assms(1) by (simp add: volume_ok_for_def)
  have m: "marks_become d sb {(False, g, unat i)} b (disk_of stored s) (disk_of stored s')" "marked (disk_of stored s) d sb False g (unat i) \<noteq> b"
    using C by (simp_all add: changed_def altered_def)
  note B = block_changed [OF lay assms(3,4) m(1), folded block_def]
  have "exact_counts (disk_of stored s') d sb'"
    by (rule exact_block [OF lay assms(2-4) m _ _ _ assms(6,9,10)]) (use C assms(7,8) in \<open>simp_all add: changed_def\<close>)
  then show "accounted ops stored extent sound d s'"
    using changed_volume_ok [OF assms(1) C assms(6)] C unfolding accounted_def changed_def by blast
  show "Ext2BlockExists sb block \<and> block_used (disk_of stored s) d sb block \<noteq> b" using B(1,2) m(2) by simp
  show "free_blocks (disk_of stored s') d sb = (if b then free_blocks (disk_of stored s) d sb - {block} else insert block (free_blocks (disk_of stored s) d sb))"
    using B(1) B(3) by (auto simp: free_blocks_def split: if_splits)
  show "free_inodes (disk_of stored s') d sb = free_inodes (disk_of stored s) d sb" using B(4) by (auto simp: free_inodes_def)
qed

lemma inode_counts_kept:
  assumes "volume_ok d sb s" "exact_counts (disk_of stored s) d sb" "g < sb_group_count sb" "i < sb_inodes_per_group sb"
    and C: "changed d sb s True g (unat i) b v sb' s'" and "static sb sb'"
    and "gd_free_inode_count v = (if b then gd_free_inode_count (descriptor (disk_of stored s) d sb g) - 1 else gd_free_inode_count (descriptor (disk_of stored s) d sb g) + 1)"
    and "gd_free_block_count v = gd_free_block_count (descriptor (disk_of stored s) d sb g)"
    and "sb_free_inode_count sb' = (if b then sb_free_inode_count sb - 1 else sb_free_inode_count sb + 1)" "sb_free_block_count sb' = sb_free_block_count sb"
  defines "number \<equiv> g * sb_inodes_per_group sb + i + 1"
  shows "accounted ops stored extent sound d s'" "inode_exists sb number \<and> inode_used (disk_of stored s) d sb number \<noteq> b"
    "free_inodes (disk_of stored s') d sb = (if b then free_inodes (disk_of stored s) d sb - {number} else insert number (free_inodes (disk_of stored s) d sb))"
    "free_blocks (disk_of stored s') d sb = free_blocks (disk_of stored s) d sb"
proof -
  have lay: "layout (disk_of stored s) d sb" using assms(1) by (simp add: volume_ok_for_def)
  have m: "marks_become d sb {(True, g, unat i)} b (disk_of stored s) (disk_of stored s')" "marked (disk_of stored s) d sb True g (unat i) \<noteq> b"
    using C by (simp_all add: changed_def altered_def)
  note B = inode_changed [OF lay assms(3,4) m(1), folded number_def]
  have "exact_counts (disk_of stored s') d sb'"
    by (rule exact_inode [OF lay assms(2-4) m _ _ _ assms(6,9,10)]) (use C assms(7,8) in \<open>simp_all add: changed_def\<close>)
  then show "accounted ops stored extent sound d s'"
    using changed_volume_ok [OF assms(1) C assms(6)] C unfolding accounted_def changed_def by blast
  show "inode_exists sb number \<and> inode_used (disk_of stored s) d sb number \<noteq> b" using B(1,2) m(2) by simp
  show "free_inodes (disk_of stored s') d sb = (if b then free_inodes (disk_of stored s) d sb - {number} else insert number (free_inodes (disk_of stored s) d sb))"
    using B(1) B(3) by (auto simp: free_inodes_def split: if_splits)
  show "free_blocks (disk_of stored s') d sb = free_blocks (disk_of stored s) d sb" using B(4) by (auto simp: free_blocks_def)
qed

text \<open>The four operations, where they succeed.\<close>

lemma Ext2AllocateBlock_counts:
  assumes "volume_ok d sb s" "exact_counts (disk_of stored s) d sb"
  shows "runs (Ext2AllocateBlock (Some d) near True) s (\<lambda>s' r. \<forall>block. r = Some block \<longrightarrow> accounted ops stored extent sound d s' \<and>
    block \<in> free_blocks (disk_of stored s) d sb \<and> free_blocks (disk_of stored s') d sb = free_blocks (disk_of stored s) d sb - {block} \<and>
    free_inodes (disk_of stored s') d sb = free_inodes (disk_of stored s) d sb)"
proof (rule runs_mono [OF Ext2AllocateBlock_runs [OF assms(1)]], intro allI impI)
  fix s' r block
  assume "(r = None \<longrightarrow> failed d sb s ({False} \<times> UNIV) True s') \<and>
    (\<forall>block. r = Some block \<longrightarrow> \<not> sb_read_only sb \<and> sb_free_block_count sb \<noteq> 0 \<and> block_taken d sb s block s')" "r = Some block"
  then obtain g i where T: "g < sb_group_count sb" "i < Ext2GroupBlockCount sb g" "block = Ext2GroupFirstBlock sb g + i"
    "changed d sb s False g (unat i) True ((descriptor (disk_of stored s) d sb g)\<lparr>gd_free_block_count := gd_free_block_count (descriptor (disk_of stored s) d sb g) - 1\<rparr>)
       (sb\<lparr>sb_free_block_count := sb_free_block_count sb - 1\<rparr>) s'"
    unfolding block_taken_def by blast
  note C = block_counts [OF assms T(1,2,4) static_counts(1), folded T(3)]
  show "accounted ops stored extent sound d s' \<and> block \<in> free_blocks (disk_of stored s) d sb \<and>
    free_blocks (disk_of stored s') d sb = free_blocks (disk_of stored s) d sb - {block} \<and>
    free_inodes (disk_of stored s') d sb = free_inodes (disk_of stored s) d sb" using C by (simp add: free_blocks_def)
qed

lemma Ext2FreeBlock_counts:
  assumes "volume_ok d sb s" "exact_counts (disk_of stored s) d sb"
  shows "runs (Ext2FreeBlock (Some d) block) s (\<lambda>s' r. r \<noteq> None \<longrightarrow> accounted ops stored extent sound d s' \<and>
    Ext2BlockExists sb block \<and> block \<notin> free_blocks (disk_of stored s) d sb \<and>
    free_blocks (disk_of stored s') d sb = insert block (free_blocks (disk_of stored s) d sb) \<and>
    free_inodes (disk_of stored s') d sb = free_inodes (disk_of stored s) d sb)"
proof (rule runs_mono [OF Ext2FreeBlock_runs [OF assms(1)]], intro impI)
  let ?g = "block_group sb block" and ?i = "block_index sb block"
  fix s' and r :: "unit option"
  assume "(r = None \<longrightarrow> failed d sb s {(False, ?g, unat ?i)} False s') \<and> (r \<noteq> None \<longrightarrow> \<not> sb_read_only sb \<and> Ext2BlockExists sb block \<and>
    ?g < sb_group_count sb \<and> changed d sb s False ?g (unat ?i) False
      ((descriptor (disk_of stored s) d sb ?g)\<lparr>gd_free_block_count := gd_free_block_count (descriptor (disk_of stored s) d sb ?g) + 1\<rparr>)
      (sb\<lparr>sb_free_block_count := sb_free_block_count sb + 1\<rparr>) s')" "r \<noteq> None"
  then have T: "Ext2BlockExists sb block" "?g < sb_group_count sb" "changed d sb s False ?g (unat ?i) False
      ((descriptor (disk_of stored s) d sb ?g)\<lparr>gd_free_block_count := gd_free_block_count (descriptor (disk_of stored s) d sb ?g) + 1\<rparr>)
      (sb\<lparr>sb_free_block_count := sb_free_block_count sb + 1\<rparr>) s'" by blast+
  have geo: "geometry sb" using assms(1) by (auto simp: volume_ok_for_def intro: layout_geometry)
  note P = block_place [OF geo T(1)]
  note C = block_counts [OF assms T(2) P(3) [OF T(2)] T(3) static_counts(1), unfolded P(1)]
  show "accounted ops stored extent sound d s' \<and> Ext2BlockExists sb block \<and> block \<notin> free_blocks (disk_of stored s) d sb \<and>
    free_blocks (disk_of stored s') d sb = insert block (free_blocks (disk_of stored s) d sb) \<and>
    free_inodes (disk_of stored s') d sb = free_inodes (disk_of stored s) d sb" using C by (simp add: free_blocks_def)
qed

lemma Ext2AllocateInode_counts:
  assumes "volume_ok d sb s" "exact_counts (disk_of stored s) d sb"
  shows "runs (Ext2AllocateInode (Some d) directory True) s (\<lambda>s' r. \<forall>number. r = Some number \<longrightarrow> accounted ops stored extent sound d s' \<and>
    number \<in> free_inodes (disk_of stored s) d sb \<and> free_inodes (disk_of stored s') d sb = free_inodes (disk_of stored s) d sb - {number} \<and>
    free_blocks (disk_of stored s') d sb = free_blocks (disk_of stored s) d sb)"
proof (rule runs_mono [OF Ext2AllocateInode_runs [OF assms(1)]], intro allI impI)
  fix s' r number
  assume "(r = None \<longrightarrow> failed d sb s ({True} \<times> UNIV) True s') \<and>
    (\<forall>number. r = Some number \<longrightarrow> \<not> sb_read_only sb \<and> sb_free_inode_count sb \<noteq> 0 \<and> inode_taken d sb s directory number s')" "r = Some number"
  then obtain g i where T: "g < sb_group_count sb" "i < sb_inodes_per_group sb" "number = g * sb_inodes_per_group sb + i + 1"
    "changed d sb s True g (unat i) True (inode_accounted directory (descriptor (disk_of stored s) d sb g))
       (sb\<lparr>sb_free_inode_count := sb_free_inode_count sb - 1\<rparr>) s'"
    unfolding inode_taken_def by blast
  note C = inode_counts_kept [OF assms T(1,2,4) static_counts(2), folded T(3)]
  show "accounted ops stored extent sound d s' \<and> number \<in> free_inodes (disk_of stored s) d sb \<and>
    free_inodes (disk_of stored s') d sb = free_inodes (disk_of stored s) d sb - {number} \<and>
    free_blocks (disk_of stored s') d sb = free_blocks (disk_of stored s) d sb" using C by (simp add: free_inodes_def)
qed

lemma Ext2FreeInode_counts:
  assumes "volume_ok d sb s" "exact_counts (disk_of stored s) d sb"
  shows "runs (Ext2FreeInode (Some d) number directory) s (\<lambda>s' r. r \<noteq> None \<longrightarrow> accounted ops stored extent sound d s' \<and>
    inode_exists sb number \<and> sb_first_inode sb \<le> number \<and> number \<notin> free_inodes (disk_of stored s) d sb \<and>
    free_inodes (disk_of stored s') d sb = insert number (free_inodes (disk_of stored s) d sb) \<and>
    free_blocks (disk_of stored s') d sb = free_blocks (disk_of stored s) d sb)"
proof (rule runs_mono [OF Ext2FreeInode_runs [OF assms(1)]], intro impI)
  let ?g = "inode_group sb number" and ?i = "inode_index sb number"
  fix s' and r :: "unit option"
  assume "(r = None \<longrightarrow> failed d sb s {(True, ?g, unat ?i)} False s') \<and> (r \<noteq> None \<longrightarrow> \<not> sb_read_only sb \<and> number \<noteq> 0 \<and>
    number \<le> sb_inode_count sb \<and> sb_first_inode sb \<le> number \<and> ?g < sb_group_count sb \<and> changed d sb s True ?g (unat ?i) False
      (inode_returned directory (descriptor (disk_of stored s) d sb ?g)) (sb\<lparr>sb_free_inode_count := sb_free_inode_count sb + 1\<rparr>) s')" "r \<noteq> None"
  then have T: "number \<noteq> 0" "number \<le> sb_inode_count sb" "sb_first_inode sb \<le> number" "?g < sb_group_count sb"
    "changed d sb s True ?g (unat ?i) False (inode_returned directory (descriptor (disk_of stored s) d sb ?g))
      (sb\<lparr>sb_free_inode_count := sb_free_inode_count sb + 1\<rparr>) s'" by blast+
  have geo: "geometry sb" using assms(1) by (auto simp: volume_ok_for_def intro: layout_geometry)
  note P = inode_place [OF geo T(1,2)]
  note C = inode_counts_kept [OF assms T(4) P(2) T(5) static_counts(2), unfolded P(1)]
  show "accounted ops stored extent sound d s' \<and> inode_exists sb number \<and> sb_first_inode sb \<le> number \<and> number \<notin> free_inodes (disk_of stored s) d sb \<and>
    free_inodes (disk_of stored s') d sb = insert number (free_inodes (disk_of stored s) d sb) \<and>
    free_blocks (disk_of stored s') d sb = free_blocks (disk_of stored s) d sb" using C T(3) by (simp add: free_inodes_def)
qed

end

end
