(* ===== verification/Ext2History.thy ===== *)
theory Ext2History
  imports Ext2Accounts
begin

text \<open>
  Histories of a volume: its clients take blocks and inodes and give back what they hold, store
  into the blocks they hold and fetch from any.  What they hold is recorded beside the state, as
  the numbers handed out and not yet given back.
\<close>

datatype volume_call = TakesBlock u32 | GivesBlock u32 | TakesInode bool | GivesInode u32 bool | Stores u32 u32 u32 "u8 list" | Fetches u32 u32 u32

type_synonym 'w holding = "'w ext2_state \<times> u32 set \<times> u32 set"

inductive volume_step :: "nat \<Rightarrow> volume_call \<Rightarrow> 'w holding \<Rightarrow> 'w holding \<Rightarrow> bool" for d where
  takes_block: "Ext2AllocateBlock (Some d) near True s = Some (s', r) \<Longrightarrow>
    volume_step d (TakesBlock near) (s, B, I) (s', B \<union> set_option r, I)"
| gives_block: "Ext2FreeBlock (Some d) block s = Some (s', r) \<Longrightarrow> block \<in> B \<Longrightarrow>
    volume_step d (GivesBlock block) (s, B, I) (s', B - {block}, I)"
| takes_inode: "Ext2AllocateInode (Some d) directory True s = Some (s', r) \<Longrightarrow>
    volume_step d (TakesInode directory) (s, B, I) (s', B, I \<union> set_option r)"
| gives_inode: "Ext2FreeInode (Some d) number directory s = Some (s', r) \<Longrightarrow> number \<in> I \<Longrightarrow>
    volume_step d (GivesInode number directory) (s, B, I) (s', B, I - {number})"
| stores: "Ext2WriteBytes d block off n source s = Some (s', r) \<Longrightarrow> block \<in> B \<Longrightarrow> unat n \<le> length source \<Longrightarrow>
    volume_step d (Stores block off n source) (s, B, I) (s', B, I)"
| fetches: "Ext2ReadBytes d block off n s = Some (s', r) \<Longrightarrow>
    volume_step d (Fetches block off n) (s, B, I) (s', B, I)"

inductive_cases takes_blockE: "volume_step d (TakesBlock near) x y"

definition reaches :: "nat \<Rightarrow> 'w holding \<Rightarrow> 'w holding \<Rightarrow> bool" where
  "reaches d = (\<lambda>x y. \<exists>c. volume_step d c x y)\<^sup>*\<^sup>*"

text \<open>The structures of the volume are marked in its bitmaps, as a volume just made has them.\<close>

definition metadata_marked :: "(nat \<Rightarrow> u64 \<Rightarrow> u8 option) \<Rightarrow> nat \<Rightarrow> Ext2Superblock \<Rightarrow> bool" where
  "metadata_marked D d sb \<longleftrightarrow> (\<forall>block. metadata D d sb block \<longrightarrow> Ext2BlockExists sb block \<longrightarrow> block_used D d sb block)"

lemma static_slots:
  assumes "static sb sb'"
  shows "block_group sb' = block_group sb" "block_index sb' = block_index sb" "inode_group sb' = inode_group sb" "inode_index sb' = inode_index sb"
    "block_used D d sb' = block_used D d sb" "inode_used D d sb' = inode_used D d sb" "inode_exists sb' = inode_exists sb"
  using static_fields [OF assms] static_view [OF assms]
  by (simp_all add: block_group_def block_index_def inode_group_def inode_index_def block_used_def inode_used_def inode_exists_def fun_eq_iff)

context block_driver
begin

definition holds_well :: "nat \<Rightarrow> Ext2Superblock \<Rightarrow> (u32 \<Rightarrow> bool) \<Rightarrow> 'w holding \<Rightarrow> bool" where
  "holds_well d sb0 M = (\<lambda>(s, B, I). (\<exists>sb. static sb0 sb \<and> volume_ok d sb s) \<and>
     metadata (disk_of stored s) d sb0 = M \<and> metadata_marked (disk_of stored s) d sb0 \<and>
     (\<forall>x \<in> B. Ext2BlockExists sb0 x \<and> \<not> M x \<and> block_used (disk_of stored s) d sb0 x) \<and>
     (\<forall>n \<in> I. inode_exists sb0 n \<and> sb_first_inode sb0 \<le> n \<and> inode_used (disk_of stored s) d sb0 n))"

lemma holds_wellD:
  assumes "holds_well d sb0 M (s, B, I)"
  obtains sb where "static sb0 sb" "volume_ok d sb s" "volume s = Some sb" "layout (disk_of stored s) d sb0"
    "metadata (disk_of stored s) d sb0 = M" "metadata_marked (disk_of stored s) d sb0"
    "\<And>x. x \<in> B \<Longrightarrow> Ext2BlockExists sb0 x \<and> \<not> M x \<and> block_used (disk_of stored s) d sb0 x"
    "\<And>n. n \<in> I \<Longrightarrow> inode_exists sb0 n \<and> sb_first_inode sb0 \<le> n \<and> inode_used (disk_of stored s) d sb0 n"
proof -
  obtain sb where sb: "static sb0 sb" "volume_ok d sb s" using assms by (auto simp: holds_well_def)
  have "volume s = Some sb" "layout (disk_of stored s) d sb0" using sb static_view [OF sb(1)] by (simp_all add: volume_ok_for_def)
  then show thesis using that sb assms by (auto simp: holds_well_def)
qed

text \<open>An operation that takes the mark of no structure and of nothing still held.\<close>

lemma holds_after:
  assumes "holds_well d sb0 M (s, B, I)" "altered d sb0 X b s s'" "volume s' = Some sb'" "static sb0 sb'" "B' \<subseteq> B" "I' \<subseteq> I"
    and "\<And>x. Ext2BlockExists sb0 x \<Longrightarrow> M x \<or> x \<in> B' \<Longrightarrow> (False, block_group sb0 x, unat (block_index sb0 x)) \<in> X \<Longrightarrow> b"
    and "\<And>n. n \<in> I' \<Longrightarrow> (True, inode_group sb0 n, unat (inode_index sb0 n)) \<in> X \<Longrightarrow> b"
  shows "holds_well d sb0 M (s', B', I')" "x \<in> B \<Longrightarrow> i < unat (sb_block_size sb0) \<Longrightarrow>
    byte_at (disk_of stored s') d sb0 x i = byte_at (disk_of stored s) d sb0 x i"
proof -
  from assms(1) obtain sb where W: "static sb0 sb" "volume_ok d sb s" "volume s = Some sb" "layout (disk_of stored s) d sb0"
    "metadata (disk_of stored s) d sb0 = M" "metadata_marked (disk_of stored s) d sb0"
    "\<And>x. x \<in> B \<Longrightarrow> Ext2BlockExists sb0 x \<and> \<not> M x \<and> block_used (disk_of stored s) d sb0 x"
    "\<And>n. n \<in> I \<Longrightarrow> inode_exists sb0 n \<and> sb_first_inode sb0 \<le> n \<and> inode_used (disk_of stored s) d sb0 n" by (rule holds_wellD) blast
  have A: "ext2_ok d s'" "same_groups d sb0 (disk_of stored s) (disk_of stored s')" "marks_become d sb0 X b (disk_of stored s) (disk_of stored s')"
    using assms(2) by (simp_all add: altered_def)
  note meta = same_groups_metadata [OF A(2)]
  have used: "block_used (disk_of stored s') d sb0 x" if "Ext2BlockExists sb0 x" "M x \<or> x \<in> B'" "block_used (disk_of stored s) d sb0 x" for x
    using marks_blocks [OF W(4) A(3) that(1)] assms(7) [OF that(1,2)] that(3) by auto
  have "inode_used (disk_of stored s') d sb0 n" if "n \<in> I'" for n
    using marks_inodes [OF W(4) A(3), of n] assms(8) [OF that] W(8) [of n] assms(6) that by auto
  moreover have "volume_ok d sb' s'"
    using A(1) assms(3,4) same_groups_layout [OF A(2) W(4)] static_view [OF assms(4)] by (simp add: volume_ok_for_def)
  moreover have "metadata_marked (disk_of stored s') d sb0" using used W(5,6) unfolding metadata_marked_def meta by blast
  ultimately show "holds_well d sb0 M (s', B', I')"
    using assms(4,5,6) W(5,7,8) used meta unfolding holds_well_def by (simp add: subset_iff) blast
  show "byte_at (disk_of stored s') d sb0 x i = byte_at (disk_of stored s) d sb0 x i" if "x \<in> B" "i < unat (sb_block_size sb0)"
    using W(5) W(7) [OF that(1)] A(2) that(2) by (simp add: same_groups_def)
qed

lemma altered_static: "static sb sb' \<Longrightarrow> altered d sb' = altered d sb"
  by (simp add: altered_def static_view fun_eq_iff)

lemma failed_holds:
  assumes "holds_well d sb0 M (s, B, I)" "volume s = Some sb" "static sb0 sb" "failed d sb s Y b s'" "B' \<subseteq> B" "I' \<subseteq> I"
    and "\<And>x. Ext2BlockExists sb0 x \<Longrightarrow> M x \<or> x \<in> B' \<Longrightarrow> (False, block_group sb0 x, unat (block_index sb0 x)) \<in> Y \<Longrightarrow> b"
    and "\<And>n. n \<in> I' \<Longrightarrow> (True, inode_group sb0 n, unat (inode_index sb0 n)) \<in> Y \<Longrightarrow> b"
  shows "holds_well d sb0 M (s', B', I')" "x \<in> B \<Longrightarrow> i < unat (sb_block_size sb0) \<Longrightarrow>
    byte_at (disk_of stored s') d sb0 x i = byte_at (disk_of stored s) d sb0 x i"
proof -
  obtain sb' X where F: "volume s' = Some sb'" "static sb sb'" "X \<subseteq> Y" "altered d sb0 X b s s'"
    using assms(4) unfolding failed_def altered_static [OF assms(3)] by (elim exE conjE)
  have side: "\<And>x. Ext2BlockExists sb0 x \<Longrightarrow> M x \<or> x \<in> B' \<Longrightarrow> (False, block_group sb0 x, unat (block_index sb0 x)) \<in> X \<Longrightarrow> b"
    "\<And>n. n \<in> I' \<Longrightarrow> (True, inode_group sb0 n, unat (inode_index sb0 n)) \<in> X \<Longrightarrow> b"
    using assms(7,8) F(3) by blast+
  note H = holds_after [OF assms(1) F(4,1) static_trans [OF assms(3) F(2)] assms(5,6) side]
  show "holds_well d sb0 M (s', B', I')" by (rule H(1))
  show "x \<in> B \<Longrightarrow> i < unat (sb_block_size sb0) \<Longrightarrow>
    byte_at (disk_of stored s') d sb0 x i = byte_at (disk_of stored s) d sb0 x i" by (rule H(2))
qed

lemma changed_failed: "changed d sb s k g i b v sb' s' \<Longrightarrow> static sb sb' \<Longrightarrow> failed d sb s {(k, g, i)} b s'"
  unfolding changed_def by (elim conjE) (rule failedI [OF _ _ order_refl])

lemma changed_holds:
  assumes "holds_well d sb0 M (s, B, I)" "volume s = Some sb" "static sb0 sb" "static sb sb'" "changed d sb s k g j b v sb' s'" "B' \<subseteq> B" "I' \<subseteq> I"
    and "\<And>x. Ext2BlockExists sb0 x \<Longrightarrow> M x \<or> x \<in> B' \<Longrightarrow> (False, block_group sb0 x, unat (block_index sb0 x)) = (k, g, j) \<Longrightarrow> b"
    and "\<And>n. n \<in> I' \<Longrightarrow> (True, inode_group sb0 n, unat (inode_index sb0 n)) = (k, g, j) \<Longrightarrow> b"
  shows "holds_well d sb0 M (s', B', I')" "x \<in> B \<Longrightarrow> i < unat (sb_block_size sb0) \<Longrightarrow>
    byte_at (disk_of stored s') d sb0 x i = byte_at (disk_of stored s) d sb0 x i"
proof -
  from failed_holds [OF assms(1-3) changed_failed [OF assms(5,4)] assms(6,7)] assms(8,9)
  show "holds_well d sb0 M (s', B', I')" "x \<in> B \<Longrightarrow> i < unat (sb_block_size sb0) \<Longrightarrow>
    byte_at (disk_of stored s') d sb0 x i = byte_at (disk_of stored s) d sb0 x i" by blast+
qed

text \<open>Blocks taken and given back.\<close>

lemma takes_block_effect:
  assumes "holds_well d sb0 M (s, B, I)" "Ext2AllocateBlock (Some d) near True s = Some (s', r)"
  shows "holds_well d sb0 M (s', B \<union> set_option r, I)"
    "r = Some block \<Longrightarrow> Ext2BlockExists sb0 block \<and> block \<notin> B \<and> \<not> M block"
    "x \<in> B \<Longrightarrow> i < unat (sb_block_size sb0) \<Longrightarrow> byte_at (disk_of stored s') d sb0 x i = byte_at (disk_of stored s) d sb0 x i"
proof -
  let ?D = "disk_of stored s"
  from assms(1) obtain sb where W: "static sb0 sb" "volume_ok d sb s" "volume s = Some sb" "layout ?D d sb0" "metadata ?D d sb0 = M"
    "metadata_marked ?D d sb0" "\<And>x. x \<in> B \<Longrightarrow> Ext2BlockExists sb0 x \<and> \<not> M x \<and> block_used ?D d sb0 x" by (rule holds_wellD) blast
  note view = static_view [OF W(1)] and fields = static_fields [OF W(1)]
  have R: "r = None \<Longrightarrow> failed d sb s ({False} \<times> UNIV) True s'" "\<And>block. r = Some block \<Longrightarrow> block_taken d sb s block s'"
    using Ext2AllocateBlock_runs [OF W(2), of near] assms(2) by (auto simp: runs_def)
  have "holds_well d sb0 M (s', B \<union> set_option r, I) \<and> (\<forall>block. r = Some block \<longrightarrow> Ext2BlockExists sb0 block \<and> block \<notin> B \<and> \<not> M block) \<and>
    (\<forall>x i. x \<in> B \<longrightarrow> i < unat (sb_block_size sb0) \<longrightarrow> byte_at (disk_of stored s') d sb0 x i = byte_at ?D d sb0 x i)"
  proof (cases r)
    case None
    from failed_holds [OF assms(1) W(3,1) R(1) [OF None] order_refl order_refl] None show ?thesis by auto
  next
    case (Some block)
    from R(2) [OF Some] obtain g j where T: "g < sb_group_count sb0" "j < Ext2GroupBlockCount sb0 g" "block = Ext2GroupFirstBlock sb0 g + j"
      "changed d sb s False g (unat j) True ((descriptor ?D d sb0 g)\<lparr>gd_free_block_count := gd_free_block_count (descriptor ?D d sb0 g) - 1\<rparr>)
         (sb\<lparr>sb_free_block_count := sb_free_block_count sb - 1\<rparr>) s'"
      unfolding block_taken_def view fields by blast
    note H = changed_holds [OF assms(1) W(3,1) static_counts(1) T(4) order_refl order_refl]
    have K: "holds_well d sb0 M (s', B, I)" by (rule H(1)) auto
    have m: "marks_become d sb0 {(False, g, unat j)} True ?D (disk_of stored s')" "\<not> marked ?D d sb0 False g (unat j)"
      using T(4) view by (simp_all add: changed_def altered_def)
    note C = block_changed [OF W(4) T(1,2) m(1), folded T(3)]
    have unused: "\<not> block_used ?D d sb0 block" using C(2) m(2) by simp
    have "\<not> M block" using unused C(1) W(5,6) by (auto simp: metadata_marked_def)
    moreover have "block \<notin> B" using unused W(7) by blast
    moreover have "block_used (disk_of stored s') d sb0 block" using C(3) [OF C(1)] by simp
    ultimately show ?thesis using K H(2) C(1) Some by (auto simp: holds_well_def)
  qed
  then show "holds_well d sb0 M (s', B \<union> set_option r, I)"
    "r = Some block \<Longrightarrow> Ext2BlockExists sb0 block \<and> block \<notin> B \<and> \<not> M block"
    "x \<in> B \<Longrightarrow> i < unat (sb_block_size sb0) \<Longrightarrow> byte_at (disk_of stored s') d sb0 x i = byte_at (disk_of stored s) d sb0 x i" by blast+
qed

lemma gives_block_effect:
  assumes "holds_well d sb0 M (s, B, I)" "Ext2FreeBlock (Some d) block s = Some (s', r)" "block \<in> B"
  shows "holds_well d sb0 M (s', B - {block}, I)"
    "x \<in> B \<Longrightarrow> i < unat (sb_block_size sb0) \<Longrightarrow> byte_at (disk_of stored s') d sb0 x i = byte_at (disk_of stored s) d sb0 x i"
proof -
  let ?D = "disk_of stored s"
  from assms(1) obtain sb where W: "static sb0 sb" "volume_ok d sb s" "volume s = Some sb" "layout ?D d sb0" "metadata ?D d sb0 = M"
    "\<And>x. x \<in> B \<Longrightarrow> Ext2BlockExists sb0 x \<and> \<not> M x" by (rule holds_wellD) blast
  note geo = layout_geometry [OF W(4)]
  have F: "failed d sb s {(False, block_group sb0 block, unat (block_index sb0 block))} False s'"
  proof (cases r)
    case None
    then show ?thesis using Ext2FreeBlock_runs [OF W(2), of block] assms(2) unfolding runs_def static_slots [OF W(1)] by auto
  next
    case (Some u)
    then show ?thesis using Ext2FreeBlock_runs [OF W(2), of block] assms(2) unfolding runs_def static_slots [OF W(1)]
      by (intro changed_failed [OF _ static_counts(1)]) auto
  qed
  have same: "y = block" if "Ext2BlockExists sb0 y" "block_group sb0 y = block_group sb0 block" "block_index sb0 y = block_index sb0 block" for y
  proof -
    have "Ext2BlockExists sb0 block" using W(6) [OF assms(3)] by simp
    from block_place(1) [OF geo that(1), unfolded that(2,3)] block_place(1) [OF geo this] show ?thesis by (rule trans [OF sym])
  qed
  have side: "False" if "Ext2BlockExists sb0 y" "M y \<or> y \<in> B - {block}"
      "(False, block_group sb0 y, unat (block_index sb0 y)) \<in> {(False, block_group sb0 block, unat (block_index sb0 block))}" for y
  proof -
    have "block_group sb0 y = block_group sb0 block" "block_index sb0 y = block_index sb0 block" using that(3) by (simp_all add: word_unat_eq_iff)
    then have "y = block" by (rule same [OF that(1)])
    then show False using that(2) W(6) [OF assms(3)] by simp
  qed
  note H = failed_holds [OF assms(1) W(3,1) F Diff_subset order_refl side]
  show "holds_well d sb0 M (s', B - {block}, I)" by (rule H(1)) auto
  show "x \<in> B \<Longrightarrow> i < unat (sb_block_size sb0) \<Longrightarrow> byte_at (disk_of stored s') d sb0 x i = byte_at ?D d sb0 x i" by (rule H(2)) auto
qed

text \<open>Inodes.\<close>

lemma takes_inode_effect:
  assumes "holds_well d sb0 M (s, B, I)" "Ext2AllocateInode (Some d) directory True s = Some (s', r)"
  shows "holds_well d sb0 M (s', B, I \<union> set_option r)"
    "r = Some number \<Longrightarrow> inode_exists sb0 number \<and> sb_first_inode sb0 \<le> number \<and> number \<notin> I"
    "x \<in> B \<Longrightarrow> i < unat (sb_block_size sb0) \<Longrightarrow> byte_at (disk_of stored s') d sb0 x i = byte_at (disk_of stored s) d sb0 x i"
proof -
  let ?D = "disk_of stored s"
  from assms(1) obtain sb where W: "static sb0 sb" "volume_ok d sb s" "volume s = Some sb" "layout ?D d sb0"
    "\<And>n. n \<in> I \<Longrightarrow> inode_exists sb0 n \<and> sb_first_inode sb0 \<le> n \<and> inode_used ?D d sb0 n" by (rule holds_wellD) blast
  note view = static_view [OF W(1)] and fields = static_fields [OF W(1)]
  have R: "r = None \<Longrightarrow> failed d sb s ({True} \<times> UNIV) True s'" "\<And>number. r = Some number \<Longrightarrow> inode_taken d sb s directory number s'"
    using Ext2AllocateInode_runs [OF W(2), of directory] assms(2) by (auto simp: runs_def)
  have "holds_well d sb0 M (s', B, I \<union> set_option r) \<and>
    (\<forall>number. r = Some number \<longrightarrow> inode_exists sb0 number \<and> sb_first_inode sb0 \<le> number \<and> number \<notin> I) \<and>
    (\<forall>x i. x \<in> B \<longrightarrow> i < unat (sb_block_size sb0) \<longrightarrow> byte_at (disk_of stored s') d sb0 x i = byte_at ?D d sb0 x i)"
  proof (cases r)
    case None
    from failed_holds [OF assms(1) W(3,1) R(1) [OF None] order_refl order_refl] None show ?thesis by auto
  next
    case (Some number)
    from R(2) [OF Some] obtain g j where T: "g < sb_group_count sb0" "j < sb_inodes_per_group sb0" "number = g * sb_inodes_per_group sb0 + j + 1"
      "sb_first_inode sb0 \<le> number"
      "changed d sb s True g (unat j) True (inode_accounted directory (descriptor ?D d sb0 g)) (sb\<lparr>sb_free_inode_count := sb_free_inode_count sb - 1\<rparr>) s'"
      unfolding inode_taken_def view fields by blast
    note H = changed_holds [OF assms(1) W(3,1) static_counts(2) T(5) order_refl order_refl]
    have K: "holds_well d sb0 M (s', B, I)" by (rule H(1)) auto
    have m: "marks_become d sb0 {(True, g, unat j)} True ?D (disk_of stored s')" "\<not> marked ?D d sb0 True g (unat j)"
      using T(5) view by (simp_all add: changed_def altered_def)
    note C = inode_changed [OF W(4) T(1,2) m(1), folded T(3)]
    have "number \<notin> I" using C(2) m(2) W(5) by blast
    moreover have "inode_used (disk_of stored s') d sb0 number" using C(3) [OF C(1)] by simp
    ultimately show ?thesis using K H(2) C(1) T(4) Some by (auto simp: holds_well_def)
  qed
  then show "holds_well d sb0 M (s', B, I \<union> set_option r)"
    "r = Some number \<Longrightarrow> inode_exists sb0 number \<and> sb_first_inode sb0 \<le> number \<and> number \<notin> I"
    "x \<in> B \<Longrightarrow> i < unat (sb_block_size sb0) \<Longrightarrow> byte_at (disk_of stored s') d sb0 x i = byte_at (disk_of stored s) d sb0 x i" by blast+
qed

lemma gives_inode_effect:
  assumes "holds_well d sb0 M (s, B, I)" "Ext2FreeInode (Some d) number directory s = Some (s', r)" "number \<in> I"
  shows "holds_well d sb0 M (s', B, I - {number})"
    "x \<in> B \<Longrightarrow> i < unat (sb_block_size sb0) \<Longrightarrow> byte_at (disk_of stored s') d sb0 x i = byte_at (disk_of stored s) d sb0 x i"
proof -
  let ?D = "disk_of stored s"
  from assms(1) obtain sb where W: "static sb0 sb" "volume_ok d sb s" "volume s = Some sb" "layout ?D d sb0"
    "\<And>n. n \<in> I \<Longrightarrow> inode_exists sb0 n" by (rule holds_wellD) blast
  note geo = layout_geometry [OF W(4)]
  have F: "failed d sb s {(True, inode_group sb0 number, unat (inode_index sb0 number))} False s'"
  proof (cases r)
    case None
    then show ?thesis using Ext2FreeInode_runs [OF W(2), of number directory] assms(2) unfolding runs_def static_slots [OF W(1)] by auto
  next
    case (Some u)
    then show ?thesis using Ext2FreeInode_runs [OF W(2), of number directory] assms(2) unfolding runs_def static_slots [OF W(1)]
      by (intro changed_failed [OF _ static_counts(2)]) auto
  qed
  have place: "inode_group sb0 n * sb_inodes_per_group sb0 + inode_index sb0 n + 1 = n" if "n \<in> I" for n
    using inode_place(1) [OF geo] W(5) [OF that] by (simp add: inode_exists_def)
  have side: "False" if "n \<in> I - {number}"
      "(True, inode_group sb0 n, unat (inode_index sb0 n)) \<in> {(True, inode_group sb0 number, unat (inode_index sb0 number))}" for n
  proof -
    have "inode_group sb0 n = inode_group sb0 number" "inode_index sb0 n = inode_index sb0 number" using that(2) by (simp_all add: word_unat_eq_iff)
    then have "n = number" using place [of n] place [OF assms(3)] that(1) by simp
    then show False using that(1) by simp
  qed
  note H = failed_holds [OF assms(1) W(3,1) F order_refl Diff_subset _ side]
  show "holds_well d sb0 M (s', B, I - {number})" by (rule H(1)) auto
  show "x \<in> B \<Longrightarrow> i < unat (sb_block_size sb0) \<Longrightarrow> byte_at (disk_of stored s') d sb0 x i = byte_at ?D d sb0 x i" by (rule H(2)) auto
qed

text \<open>Bytes stored into a block held, and fetched from any.\<close>

lemma stores_effect:
  assumes "holds_well d sb0 M (s, B, I)" "Ext2WriteBytes d block off n source s = Some (s', r)" "block \<in> B" "unat n \<le> length source"
  shows "holds_well d sb0 M (s', B, I)"
    "x \<noteq> block \<Longrightarrow> i < unat (sb_block_size sb0) \<Longrightarrow> byte_at (disk_of stored s') d sb0 x i = byte_at (disk_of stored s) d sb0 x i"
    "r \<noteq> None \<Longrightarrow> i < unat (sb_block_size sb0) \<Longrightarrow> byte_at (disk_of stored s') d sb0 block i =
      (if unat off \<le> i \<and> i < unat off + unat n then Some (source ! (i - unat off)) else byte_at (disk_of stored s) d sb0 block i)"
proof -
  let ?D = "disk_of stored s"
  from assms(1) obtain sb where W: "static sb0 sb" "volume_ok d sb s" "volume s = Some sb" "layout ?D d sb0" "metadata ?D d sb0 = M"
    "\<And>x. x \<in> B \<Longrightarrow> Ext2BlockExists sb0 x \<and> \<not> M x" by (rule holds_wellD) blast
  note view = static_view [OF W(1)] and fields = static_fields [OF W(1)]
  have ok: "ext2_ok d s" "sized sb" using volume_ok_sized [OF W(2)] by simp_all
  note E = Ext2WriteBytes_runs [OF ok(1) W(3) ok(2) assms(4), of block off]
  have vol: "volume s' = Some sb" "ext2_ok d s'" using E assms(2) W(3) by (auto simp: runs_def)
  have whole: "unat off + unat n \<le> unat (sb_block_size sb0)" "disk_of stored s' = overwrite d (place sb0 block (unat off)) (take (unat n) source) ?D"
    if "r \<noteq> None" using E assms(2) that unfolding runs_def view fields by auto
  have "\<exists>m \<le> unat n. (m = 0 \<or> unat off + unat n \<le> unat (sb_block_size sb0)) \<and>
    disk_of stored s' = overwrite d (place sb0 block (unat off)) (take m source) ?D"
  proof (cases r)
    case None
    then consider "disk_of stored s' = ?D" | k where "unat off + unat n \<le> unat (sb_block_size sb0)" "k < unat n"
        "disk_of stored s' = overwrite d (place sb0 block (unat off)) (take k source) ?D"
      using E assms(2) unfolding runs_def view fields by auto
    then show ?thesis
    proof cases
      case 1
      then show ?thesis by (intro exI [of _ 0]) simp
    next
      case 2
      then show ?thesis by (intro exI [of _ k]) simp
    qed
  next
    case (Some u)
    then show ?thesis using whole by (intro exI [of _ "unat n"]) simp
  qed
  then obtain m where m: "m = 0 \<or> unat off + unat n \<le> unat (sb_block_size sb0)" "m \<le> unat n"
    "disk_of stored s' = overwrite d (place sb0 block (unat off)) (take m source) ?D" by blast
  have free: "block \<noteq> descriptor_block sb0 g \<and> block \<noteq> bitmap_of ?D d sb0 False g \<and> block \<noteq> bitmap_of ?D d sb0 True g" if "g < sb_group_count sb0" for g
    using W(5) W(6) [OF assms(3)] that by (auto simp: metadata_def)
  let ?off = "if m = 0 then 0 else unat off"
  have D': "disk_of stored s' = overwrite d (place sb0 block ?off) (take m source) ?D" using m(3) by simp
  have fits: "?off + length (take m source) \<le> unat (sb_block_size sb0)" using m(1,2) by auto
  note U = untouched_groups [OF W(4) fits free, folded D']
  have layout': "layout (disk_of stored s') d sb0" using W(4) U(3) by (simp add: layout_def)
  have meta: "metadata (disk_of stored s') d sb0 = M" unfolding W(5) [symmetric] metadata_def using U(3) by (intro ext) (simp cong: conj_cong)
  have blocks: "block_used (disk_of stored s') d sb0 x = block_used ?D d sb0 x" if "Ext2BlockExists sb0 x" for x
    using marks_blocks [OF W(4) U(2) that] by simp
  have inodes: "inode_used (disk_of stored s') d sb0 x = inode_used ?D d sb0 x" if "inode_exists sb0 x" for x
    using marks_inodes [OF W(4) U(2) that] by simp
  have "volume_ok d sb s'" using vol layout' view by (simp add: volume_ok_for_def)
  moreover have "metadata_marked (disk_of stored s') d sb0"
    using assms(1) blocks meta by (auto simp: holds_well_def metadata_marked_def)
  ultimately show "holds_well d sb0 M (s', B, I)" using assms(1) W(1) meta blocks inodes by (auto simp: holds_well_def)
  show "x \<noteq> block \<Longrightarrow> i < unat (sb_block_size sb0) \<Longrightarrow> byte_at (disk_of stored s') d sb0 x i = byte_at ?D d sb0 x i" by (rule U(4))
  show "byte_at (disk_of stored s') d sb0 block i =
      (if unat off \<le> i \<and> i < unat off + unat n then Some (source ! (i - unat off)) else byte_at ?D d sb0 block i)"
    if "r \<noteq> None" "i < unat (sb_block_size sb0)"
  proof -
    have "take (unat n) source ! (i - unat off) = source ! (i - unat off)" if "unat off \<le> i \<and> i < unat off + unat n" using that by (intro nth_take) linarith
    then show ?thesis using byte_overwrite [of sb0 "unat off" "take (unat n) source" i d block ?D block] whole [OF that(1)] that(2) assms(4)
      geometry_sized [OF layout_geometry [OF W(4)]] by simp
  qed
qed

lemma fetches_effect:
  assumes "holds_well d sb0 M (s, B, I)" "Ext2ReadBytes d block off n s = Some (s', r)"
  shows "holds_well d sb0 M (s', B, I)" "disk_of stored s' = disk_of stored s"
    "r = Some bytes \<Longrightarrow> length bytes = unat n \<and> bytes_at (disk_of stored s) d sb0 block (unat off) bytes"
proof -
  from assms(1) obtain sb where W: "static sb0 sb" "volume_ok d sb s" "volume s = Some sb" by (rule holds_wellD) blast
  have ok: "ext2_ok d s" "sized sb" using volume_ok_sized [OF W(2)] by simp_all
  have E: "still d s s'" "\<And>bytes. r = Some bytes \<Longrightarrow> length bytes = unat n \<and> bytes_at (disk_of stored s) d sb block (unat off) bytes"
    using Ext2ReadBytes_runs [OF ok(1) W(3) ok(2), of block off n] assms(2) by (auto simp: runs_def)
  show "disk_of stored s' = disk_of stored s" using E(1) by (simp add: still_def)
  then show "holds_well d sb0 M (s', B, I)" using assms(1) W(1) volume_ok_still [OF W(2) E(1)] by (auto simp: holds_well_def)
  show "r = Some bytes \<Longrightarrow> length bytes = unat n \<and> bytes_at (disk_of stored s) d sb0 block (unat off) bytes"
    using E(2) static_view [OF W(1)] by (simp add: bytes_at_def)
qed

text \<open>Every step keeps the invariant, and the bytes of every block held but one stored into.\<close>

lemma volume_step_effect:
  assumes "volume_step d c (s, B, I) (s', B', I')" "holds_well d sb0 M (s, B, I)"
  shows "holds_well d sb0 M (s', B', I')" "x \<in> B \<Longrightarrow> (\<And>off n source. c \<noteq> Stores x off n source) \<Longrightarrow> i < unat (sb_block_size sb0) \<Longrightarrow>
    byte_at (disk_of stored s') d sb0 x i = byte_at (disk_of stored s) d sb0 x i"
proof -
  have "holds_well d sb0 M (s', B', I') \<and> (\<forall>x i. x \<in> B \<longrightarrow> (\<forall>off n source. c \<noteq> Stores x off n source) \<longrightarrow> i < unat (sb_block_size sb0) \<longrightarrow>
    byte_at (disk_of stored s') d sb0 x i = byte_at (disk_of stored s) d sb0 x i)"
    using assms(1)
  proof cases
    case takes_block
    then show ?thesis using takes_block_effect(1,3) [OF assms(2)] by blast
  next
    case gives_block
    then show ?thesis using gives_block_effect [OF assms(2)] by blast
  next
    case takes_inode
    then show ?thesis using takes_inode_effect(1,3) [OF assms(2)] by blast
  next
    case gives_inode
    then show ?thesis using gives_inode_effect [OF assms(2)] by blast
  next
    case (stores block off n source r)
    note E = stores_effect(1,2) [OF assms(2) stores(4-6)]
    show ?thesis using E stores(1-3) by auto
  next
    case fetches
    then show ?thesis using fetches_effect(1,2) [OF assms(2)] by simp
  qed
  then show "holds_well d sb0 M (s', B', I')" "x \<in> B \<Longrightarrow> (\<And>off n source. c \<noteq> Stores x off n source) \<Longrightarrow> i < unat (sb_block_size sb0) \<Longrightarrow>
    byte_at (disk_of stored s') d sb0 x i = byte_at (disk_of stored s) d sb0 x i" by blast+
qed

lemma reaches_holds:
  assumes "reaches d x y" "holds_well d sb0 M x"
  shows "holds_well d sb0 M y"
  using assms(1) unfolding reaches_def
proof (induction rule: rtranclp_induct)
  case (step y z)
  obtain s B I s' B' I' where "y = (s, B, I)" "z = (s', B', I')" by (cases y; cases z)
  then show ?case using step volume_step_effect(1) by blast
qed (rule assms(2))

lemma holds_nothing:
  assumes "volume_ok d sb s" "metadata_marked (disk_of stored s) d sb"
  shows "holds_well d sb (metadata (disk_of stored s) d sb) (s, {}, {})"
  using assms static_refl [of sb] unfolding holds_well_def by blast

end

end
