(* ===== verification/BufferPrompt.thy ===== *)
theory BufferPrompt
  imports BufferHistory
begin

text \<open>
  Drivers that answer.  The contract of a driver lets it fail; one that does not, below a cache no
  buffer of which is held, makes every request for a block of a device succeed, so that the
  operations above the cache can be shown to do their work and not only to do no harm.
\<close>

subsection \<open>References\<close>

definition references :: "'w buffer_state \<Rightarrow> u32 list" where
  "references c = map buffer_references (BufferTable c)"

text \<open>Nothing held, and no device of the cache's that may only be read.\<close>

definition idle :: "'w buffer_state \<Rightarrow> bool" where
  "idle c \<longleftrightarrow> BufferReady c \<and> references c = replicate 64 0 \<and>
     (\<forall>d < length (BlockDevices (block_layer c)). driven (BlockDevices (block_layer c) ! d) \<longrightarrow> \<not> read_only (BlockDevices (block_layer c) ! d))"

lemma references_set_buffer:
  "references (set_buffer i f c) = (references c)[i := buffer_references (f (BufferTable c ! i))]"
  by (simp add: references_def set_buffer_def map_update)

lemma references_kept [simp]:
  assumes "\<And>b. buffer_references (f b) = buffer_references b"
  shows "references (set_buffer i f c) = references c"
  by (simp add: references_def set_buffer_def map_update assms flip: map_update [of buffer_references _ i "BufferTable c ! i"])

lemma references_others [simp]:
  "references (set_entry i g c) = references c" "references (c\<lparr>block_layer := s\<rparr>) = references c"
  "references (c\<lparr>BufferBuckets := bs\<rparr>) = references c" "references (c\<lparr>BufferHitCount := n\<rparr>) = references c"
  "references (c\<lparr>BufferMissCount := n\<rparr>) = references c" "references (c\<lparr>BufferEvictionCount := n\<rparr>) = references c"
  "references (c\<lparr>BufferWriteBackCount := n\<rparr>) = references c" "references (c\<lparr>BufferFailureCount := n\<rparr>) = references c"
  by (simp_all add: references_def set_entry_def)

lemma ready_kept [simp]:
  "BufferReady (set_buffer i f c) = BufferReady c" "BufferReady (set_entry i g c) = BufferReady c"
  by (simp_all add: set_buffer_def set_entry_def)

lemma BufferTouch_references [simp]: "references (BufferTouch i c) = references c" "BufferReady (BufferTouch i c) = BufferReady c"
  using recency_only_fields(1,5) [OF BufferTouch_only, of i c] by (simp_all add: references_def)

lemma BufferLink_references [simp]: "references (BufferLink i c) = references c" "BufferReady (BufferLink i c) = BufferReady c"
  by (simp_all add: BufferLink_def Let_def)

lemma BufferUnlink_references: "BufferUnlink i c = Some c' \<Longrightarrow> references c' = references c \<and> BufferReady c' = BufferReady c"
  by (auto simp: BufferUnlink_def Let_def split: if_splits option.splits)

lemma BufferWriteBack_references: "BufferWriteBack i c = (c', w) \<Longrightarrow> references c' = references c \<and> BufferReady c' = BufferReady c"
  by (auto simp: BufferWriteBack_def Let_def split: if_splits prod.splits)

lemma forget_references [simp]: "buffer_references (forget b) = buffer_references b"
  by (simp add: forget_def)

lemma BufferClaim_references:
  assumes "BufferClaim c = Some (c', r)"
  shows "references c' = references c \<and> BufferReady c' = BufferReady c"
  using assms unfolding BufferClaim_def
  by (auto simp: Let_def split: if_splits option.splits prod.splits dest!: BufferWriteBack_references BufferUnlink_references)

lemma BufferFill_references:
  assumes "BufferFill d b i c = (c', r)"
  shows "BufferReady c' = BufferReady c \<and> references c' = (if r = None then references c else (references c)[i := 1]) \<and> (r = None \<or> r = Some i)"
proof -
  have one: "references (set_buffer i (\<lambda>b. b\<lparr>buffer_valid := True, buffer_dirty := False, buffer_references := 1\<rparr>) c) = (references c)[i := 1]"
    for c :: "'a buffer_state" by (simp add: references_set_buffer)
  show ?thesis using assms unfolding BufferFill_def by (auto simp: one Let_def split: if_splits prod.splits)
qed

text \<open>One buffer is held after a get where none was, and none again when it is released.\<close>

lemma BufferGet_references:
  assumes get: "BufferGet (Some d) b c = Some (c', r)" and none: "references c = replicate 64 0"
    and i: "\<And>i. r = Some i \<Longrightarrow> i < 64"
  shows "BufferReady c' = BufferReady c" "references c' = (case r of None \<Rightarrow> replicate 64 0 | Some i \<Rightarrow> (replicate 64 0)[i := 1])"
proof -
  have "BufferReady c' = BufferReady c \<and> references c' = (case r of None \<Rightarrow> replicate 64 0 | Some i \<Rightarrow> (replicate 64 0)[i := 1])"
  proof (cases "BufferFind d b c")
    case None
    then show ?thesis using get none by (auto simp: BufferGet_def split: if_splits)
  next
    case (Some found)
    show ?thesis
    proof (cases found)
      case (Some e)
      let ?t = "BufferTouch e (c\<lparr>BufferHitCount := BufferHitCount c + 1\<rparr>)"
      have "buffer_references (BufferTable ?t ! e) = 0" if "e < 64"
      proof -
        have "references ?t = replicate 64 0" using none by simp
        then have "length (references ?t) = 64" "references ?t ! e = 0" using that by simp_all
        then show ?thesis using that by (simp add: references_def)
      qed
      then show ?thesis using get none Some \<open>BufferFind d b c = Some found\<close> i
        by (auto simp: BufferGet_def references_set_buffer Let_def split: if_splits)
    next
      case None
      then show ?thesis using get none \<open>BufferFind d b c = Some found\<close>
        by (auto simp: BufferGet_def Let_def split: if_splits option.splits dest!: BufferClaim_references BufferFill_references)
    qed
  qed
  then show "BufferReady c' = BufferReady c" "references c' = (case r of None \<Rightarrow> replicate 64 0 | Some i \<Rightarrow> (replicate 64 0)[i := 1])" by blast+
qed

lemma BufferRelease_references:
  assumes "references c = (replicate 64 0)[i := 1]" "i < 64"
  shows "BufferReady (BufferRelease (Some i) c) = BufferReady c" "references (BufferRelease (Some i) c) = replicate 64 0"
proof -
  have "length (references c) = 64" "references c ! i = 1" using assms by simp_all
  then have "buffer_references (BufferTable c ! i) = 1" using assms(2) by (simp add: references_def)
  then show "BufferReady (BufferRelease (Some i) c) = BufferReady c" "references (BufferRelease (Some i) c) = replicate 64 0"
    using assms list_update_id [of "replicate 64 (0 :: u32)" i] by (simp_all add: BufferRelease_def references_set_buffer)
qed

lemma BufferMarkDirty_references [simp]:
  "references (BufferMarkDirty b c) = references c" "BufferReady (BufferMarkDirty b c) = BufferReady c"
  by (simp_all add: BufferMarkDirty_def split: option.split)

subsection \<open>Answers\<close>

context prompt_driver
begin

lemma idle_writes_back:
  assumes "cache_ok c" "idle c" "i < 64"
  shows "snd (BufferWriteBack i c)"
proof (cases "buffer_valid (BufferTable c ! i) \<and> buffer_dirty (BufferTable c ! i)")
  case True
  have D: "data_ok stored (BufferTable c) (block_layer c)" and V: "devices_ok (block_layer c)"
    using assms(1) unfolding cache_ok_for_def by blast+
  obtain d where d: "buffer_device (BufferTable c ! i) = Some d" using True D assms(3) unfolding data_ok_def by blast
  then have on: "on_device (block_layer c) d (buffer_block (BufferTable c ! i))"
    using True data_okD(3) [OF D assms(3), of d] by (simp add: holds_def)
  then have writable: "\<not> read_only (BlockDevices (block_layer c) ! d)" using assms(2) by (simp add: idle_def on_device_def)
  obtain s' bytes good where T: "BlockTransfer (Some d) (buffer_block (BufferTable c ! i)) 1 (Some (buffer_data (BufferTable c ! i))) True (block_layer c) = (s', bytes, good)"
    using prod_cases3 by blast
  have good by (rule transfer_answers [OF V on writable data_okD(2) [OF D assms(3)] T])
  then show ?thesis using T d True by (simp add: BufferWriteBack_def BlockWrite_def)
qed (auto simp: BufferWriteBack_def)

text \<open>A block of the device is always to be had, and nothing is held once it is released.\<close>

lemma idle_gets:
  assumes ok: "cache_ok c" and idle: "idle c" and on: "on_device (block_layer c) d b"
  shows "\<exists>c' i. BufferGet (Some d) b c = Some (c', Some i) \<and> i < 64 \<and> references c' = (replicate 64 0)[i := 1] \<and> BufferReady c'"
proof -
  have I: "index_ok c" and D: "data_ok stored (BufferTable c) (block_layer c)" using ok unfolding cache_ok_for_def by blast+
  have d: "d < length (BlockDevices (block_layer c))" using on by (simp add: on_device_def)
  have ready: "BufferReady c \<and> block_size (BlockDevices (block_layer c) ! d) = BUFFER_BLOCK_SIZE"
    using idle on by (simp add: idle_def on_device_def driven_def BUFFER_BLOCK_SIZE_def BLOCK_SIZE_DEFAULT_def)
  have none: "references c = replicate 64 0" "BufferReady c" using idle by (simp_all add: idle_def)
  have "\<exists>c' i. BufferGet (Some d) b c = Some (c', Some i)"
  proof -
    consider (hit) i where "BufferFind d b c = Some (Some i)" | (miss) "\<forall>i < 64. \<not> holds (BufferTable c ! i) d b" "BufferFind d b c = Some None"
      using find_holder [OF I D] by blast
    then show ?thesis
    proof cases
      case hit
      then show ?thesis using ready by (simp add: BufferGet_def Let_def)
    next
      case miss
      let ?m = "c\<lparr>BufferMissCount := BufferMissCount c + 1\<rparr>"
      have okm: "cache_ok ?m" using ok by (simp add: cache_ok_counts)
      have idlem: "idle ?m" using idle by (simp add: idle_def)
      obtain c1 r where C: "BufferClaim ?m = Some (c1, r)" "cache_ok c1" "keeps stored ?m c1"
        "\<And>j d b. j < 64 \<Longrightarrow> holds (BufferTable c1 ! j) d b \<Longrightarrow> holds (BufferTable ?m ! j) d b"
        "\<And>i. r = Some i \<Longrightarrow> i < 64 \<and> buffer_references (BufferTable c1 ! i) = 0 \<and> \<not> buffer_valid (BufferTable c1 ! i)"
        "r = None \<Longrightarrow> (\<forall>i < 64. buffer_references (BufferTable ?m ! i) \<noteq> 0) \<or>
           (\<exists>i < 64. buffer_references (BufferTable ?m ! i) = 0 \<and> \<not> snd (BufferWriteBack i ?m))"
        by (rule BufferClaim_effect [OF okm]) (rule that)
      have refs: "buffer_references (BufferTable c ! i) = 0" if "i < 64" for i
      proof -
        have "length (references c) = 64" "references c ! i = 0" using none(1) that by simp_all
        then show ?thesis using that by (simp add: references_def)
      qed
      obtain i where i: "r = Some i"
        using C(6) refs [of 0] idle_writes_back [OF okm idlem] by (cases r) auto
      have same: "same_devices (block_layer c) (block_layer c1)" using C(3) unfolding keeps_def by simp
      have on1: "on_device (block_layer c1) d b" using on on_device_same [OF same] by blast
      have V1: "devices_ok (block_layer c1)" and D1: "data_ok stored (BufferTable c1) (block_layer c1)"
        using C(2) unfolding cache_ok_for_def by blast+
      have len: "length (BufferTable c1) = 64" using D1 unfolding data_ok_def by blast
      obtain s' bytes good where T: "BlockTransfer (Some d) b 1 (Some (buffer_data (BufferTable c1 ! i))) False (block_layer c1) = (s', bytes, good)"
        using prod_cases3 by blast
      have good by (rule transfer_answers [OF V1 on1 _ data_okD(2) [OF D1] T]) (use C(5) [OF i] in simp_all)
      then have "snd (BufferFill d b i c1) = Some i" using T C(5) [OF i] len by (simp add: BufferFill_def BlockRead_def set_buffer_def)
      then show ?thesis using ready miss(2) C(1) i by (cases "BufferFill d b i c1") (simp add: BufferGet_def)
    qed
  qed
  then obtain c' i where G: "BufferGet (Some d) b c = Some (c', Some i)" by blast
  have i: "i < 64" using BufferGet_effect [OF ok d, of b] G by (auto simp: obtained_def)
  show ?thesis using BufferGet_references [OF G none(1)] i G none(2) by auto
qed

end

end
