(* ===== verification/Ext2Prompt.thy ===== *)
theory Ext2Prompt
  imports Ext2Accounts BufferPrompt
begin

text \<open>
  The filesystem above a driver that answers and a cache at rest: a run of bytes of the volume is
  always read and written, so that an operation is refused only for its own reasons.
\<close>

definition present :: "(nat \<Rightarrow> u64 \<Rightarrow> u8 option) \<Rightarrow> nat \<Rightarrow> Ext2Superblock \<Rightarrow> bool" where
  "present D d sb \<longleftrightarrow> (\<forall>block < sb_block_count sb. \<forall>i < unat (sb_block_size sb). byte_at D d sb block i \<noteq> None)"

lemma overwrite_present: "present D d sb \<Longrightarrow> present (overwrite e p bytes D) d sb"
  by (auto simp: present_def byte_at_def overwrite_def)

lemma present_static: "static sb sb' \<Longrightarrow> present D d sb' = present D d sb"
  by (simp add: present_def static_fields static_view)

context prompt_driver
begin

definition serving :: "nat \<Rightarrow> 'w ext2_state \<Rightarrow> bool" where
  "serving d s \<longleftrightarrow> ext2_ok d s \<and> idle (cache s) \<and> (\<exists>sb. volume s = Some sb \<and> sized sb \<and> present (disk_of stored s) d sb)"

definition answers :: "('w, 'r) ext2 \<Rightarrow> nat \<Rightarrow> 'w ext2_state \<Rightarrow> bool" where
  "answers m d s \<longleftrightarrow> (\<exists>s' x. m s = Some (s', Some x) \<and> serving d s')"

lemma answers_then:
  assumes "answers m d s" "runs m s Q" "\<And>s' x. serving d s' \<Longrightarrow> Q s' (Some x) \<Longrightarrow> answers (f x) d s'"
  shows "answers (ext2_then m f) d s"
  using assms unfolding answers_def runs_def ext2_then_def by fastforce

lemma answers_done: "serving d s \<Longrightarrow> answers (ext2_done x) d s"
  by (simp add: answers_def ext2_done_def)

lemma answers_runs: "answers m d s \<Longrightarrow> runs m s P \<Longrightarrow> runs m s (\<lambda>s' r. r \<noteq> None \<and> serving d s' \<and> P s' r)"
  unfolding answers_def runs_def by fastforce

subsection \<open>Runs of bytes\<close>

text \<open>A block of the device got, used and released.\<close>

lemma idle_uses:
  assumes ok: "cache_ok c" and idle: "idle c" and on: "on_device (block_layer c) d b"
  shows "\<exists>c' r. use_read d b c = Some (c', Some r) \<and> idle c'" "\<exists>c'. use_write d b f c = Some (c', True) \<and> idle c'"
proof -
  from idle_gets [OF assms] obtain c1 i where G: "BufferGet (Some d) b c = Some (c1, Some i)" "i < 64"
    "references c1 = (replicate 64 0)[i := 1]" "BufferReady c1" by blast
  have d: "d < length (BlockDevices (block_layer c))" using on by (simp add: on_device_def)
  have same: "same_devices (block_layer c) (block_layer c1)" using BufferGet_effect [OF ok d, of b] G(1) by auto
  have writable: "\<not> read_only (BlockDevices (block_layer c1) ! e)"
    if "e < length (BlockDevices (block_layer c1))" "driven (BlockDevices (block_layer c1) ! e)" for e
    using that idle same_devices_at [OF same, of e] same_devices_length [OF same] by (auto simp: idle_def driven_def same_device_def)
  have rest: "idle (BufferRelease (Some i) c')" if "references c' = references c1" "BufferReady c' = BufferReady c1" "block_layer c' = block_layer c1" for c' :: "'w buffer_state"
  proof -
    have R: "references c' = (replicate 64 0)[i := 1]" using that(1) G(3) by simp
    have "block_layer (BufferRelease (Some i) c') = block_layer c1" using that(3) by (simp add: BufferRelease_def set_buffer_def)
    then show ?thesis using BufferRelease_references [OF R G(2)] that(2) G(4) writable by (simp add: idle_def)
  qed
  show "\<exists>c' r. use_read d b c = Some (c', Some r) \<and> idle c'" using G(1) rest [of c1] by (simp add: use_read_def)
  let ?c = "BufferMarkDirty (Some i) (set_buffer i (\<lambda>v. v\<lparr>buffer_data := f (buffer_data v)\<rparr>) c1)"
  have "block_layer ?c = block_layer c1" by (simp add: BufferMarkDirty_def set_buffer_def)
  moreover have "references ?c = references c1" "BufferReady ?c = BufferReady c1" by simp_all
  ultimately show "\<exists>c'. use_write d b f c = Some (c', True) \<and> idle c'" using rest [of ?c] G(1) by (simp add: use_write_def)
qed

lemma disk_on_device: "disk_of stored s d p \<noteq> None \<Longrightarrow> on_device (block_layer (cache s)) d (p div 512)"
  by (auto simp: disk_of_def disk_def cached_map_def split: if_splits)

lemma ReadBytesFrom_idle:
  assumes "ext2_ok d s" "idle (cache s)" "unat p + unat n < 2 ^ 64" "\<And>i. i < unat n \<Longrightarrow> disk_of stored s d (p + word_of_nat i) \<noteq> None"
  shows "\<exists>s' bytes. ReadBytesFrom d p n acc s = Some (s', Some bytes) \<and> idle (cache s')"
  using assms
proof (induction "unat n" arbitrary: s p n acc rule: less_induct)
  case less
  show ?case
  proof (cases "n = 0")
    case True
    then show ?thesis using less.prems(2) by (simp add: ReadBytesFrom.simps)
  next
    case False
    let ?b = "p div 512"
    have ok: "cache_ok (cache s)" "d < length (BlockDevices (block_layer (cache s)))" "block_size (BlockDevices (block_layer (cache s)) ! d) = 512"
      using less.prems(1) by (simp_all add: ext2_ok_for_def)
    have on: "on_device (block_layer (cache s)) d ?b" using disk_on_device less.prems(4) [of 0] False by (simp add: unat_gt_0)
    obtain c' data where U: "use_read d ?b (cache s) = Some (c', Some data)" "idle c'" using idle_uses(1) [OF ok(1) less.prems(2) on] by blast
    from use_read_effect [OF ok(1,2), of ?b] U(1) have E: "cache_ok c'" "same_devices (block_layer (cache s)) (block_layer c')"
      "cached_map stored c' = cached_map stored (cache s)" by auto
    obtain c1 i where G: "BufferGet (Some d) ?b (cache s) = Some (c1, Some i)" "c' = BufferRelease (Some i) c1"
      using U(1) by (auto simp: use_read_def split: option.splits prod.splits)
    define w t where "w = (ucast (p mod 512) :: u32)" and "t = (if n < 512 - w then n else 512 - w)"
    let ?k = "in_block p n"
    note step = run_step [OF less.prems(3), folded w_def, folded t_def]
    have k: "?k \<le> unat n" "0 < ?k" using in_block_bounds(2) in_block_bounds(1) [where p = p and n = n] False by (simp_all add: unat_gt_0)
    obtain new where run: "ReadBytesFrom d p n acc s = ReadBytesFrom d (p + ucast t) (n - t) (acc @ new) (s\<lparr>cache := c'\<rparr>)"
      using False G ok(3) by (cases "n < 512 - w") (simp_all add: ReadBytesFrom.simps [of d p n] Let_def t_def flip: w_def)
    have same: "disk_of stored (s\<lparr>cache := c'\<rparr>) = disk_of stored s" using E(3) by (simp add: disk_of_def)
    have "\<exists>s' bytes. ReadBytesFrom d (p + ucast t) (n - t) (acc @ new) (s\<lparr>cache := c'\<rparr>) = Some (s', Some bytes) \<and> idle (cache s')"
    proof (rule less.hyps [OF _ ext2_ok_after [OF less.prems(1) E(2,1)]])
      fix i assume "i < unat (n - t)"
      then have "?k + i < unat n" using step(3) by simp
      then have "disk_of stored s d (p + word_of_nat (?k + i)) \<noteq> None" by (rule less.prems(4))
      then show "disk_of stored (s\<lparr>cache := c'\<rparr>) d (p + ucast t + word_of_nat i) \<noteq> None" unfolding same step(5) by (simp add: add.assoc)
    qed (use step(3,4) k less.prems(3) U(2) in simp_all)
    then show ?thesis unfolding run .
  qed
qed

lemma WriteBytesFrom_idle:
  assumes "ext2_ok d s" "idle (cache s)" "unat p + unat n < 2 ^ 64" "unat n \<le> length source"
    and "\<And>i. i < unat n \<Longrightarrow> disk_of stored s d (p + word_of_nat i) \<noteq> None"
  shows "\<exists>s'. WriteBytesFrom d p n source s = Some (s', Some ()) \<and> idle (cache s')"
  using assms
proof (induction "unat n" arbitrary: s p n source rule: less_induct)
  case less
  show ?case
  proof (cases "n = 0")
    case True
    then show ?thesis using less.prems(2) by (simp add: WriteBytesFrom.simps)
  next
    case False
    let ?b = "p div 512" and ?k = "in_block p n" and ?f = "put_bytes (unat p mod 512) (in_block p n) source"
    have ok: "cache_ok (cache s)" "d < length (BlockDevices (block_layer (cache s)))" "block_size (BlockDevices (block_layer (cache s)) ! d) = 512"
      using less.prems(1) by (simp_all add: ext2_ok_for_def)
    have on: "on_device (block_layer (cache s)) d ?b" using disk_on_device less.prems(5) [of 0] False by (simp add: unat_gt_0)
    define w t where "w = (ucast (p mod 512) :: u32)" and "t = (if n < 512 - w then n else 512 - w)"
    note step = run_step [OF less.prems(3), folded w_def, folded t_def]
    have k: "?k \<le> unat n" "0 < ?k" "?k \<le> 512 - unat p mod 512" "?k \<le> length source"
      using in_block_bounds(2,3) [of p n] in_block_bounds(1) [where p = p and n = n] False less.prems(4) by (simp_all add: unat_gt_0)
    have within: "unat p mod 512 + ?k \<le> 512" using k(3) mod_less_divisor [of 512 "unat p"] by linarith
    have f: "length (?f data) = 512" if "length data = 512" for data
      using put_bytes_effect [of "unat p mod 512" ?k data source] that within k(4) by simp
    obtain c' where U: "use_write d ?b ?f (cache s) = Some (c', True)" "idle c'" using idle_uses(2) [OF ok(1) less.prems(2) on] by blast
    from use_write_effect [OF ok(1,2), of ?f ?b] f U(1) obtain data where E: "cache_ok c'" "same_devices (block_layer (cache s)) (block_layer c')"
      "cached_map stored (cache s) (d, ?b) = Some data" "cached_map stored c' = (cached_map stored (cache s))((d, ?b) \<mapsto> ?f data)" by auto
    obtain c1 i where G: "BufferGet (Some d) ?b (cache s) = Some (c1, Some i)"
      "c' = BufferRelease (Some i) (BufferMarkDirty (Some i) (set_buffer i (\<lambda>v. v\<lparr>buffer_data := ?f (buffer_data v)\<rparr>) c1))"
      using U(1) by (auto simp: use_write_def split: option.splits prod.splits)
    have run: "WriteBytesFrom d p n source s = WriteBytesFrom d (p + ucast t) (n - t) (drop ?k source) (s\<lparr>cache := c'\<rparr>)"
      using False G ok(3) step(1,2)
      by (cases "n < 512 - w") (simp_all add: WriteBytesFrom.simps [of d p n] Let_def t_def flip: w_def)
    have grows: "disk_of stored (s\<lparr>cache := c'\<rparr>) e x \<noteq> None" if "disk_of stored s e x \<noteq> None" for e x
      using that by (auto simp: disk_of_def disk_def E(4))
    have "\<exists>s'. WriteBytesFrom d (p + ucast t) (n - t) (drop ?k source) (s\<lparr>cache := c'\<rparr>) = Some (s', Some ()) \<and> idle (cache s')"
    proof (rule less.hyps [OF _ ext2_ok_after [OF less.prems(1) E(2,1)]])
      fix i assume "i < unat (n - t)"
      then have "?k + i < unat n" using step(3) by simp
      then have "disk_of stored s d (p + word_of_nat (?k + i)) \<noteq> None" by (rule less.prems(5))
      then show "disk_of stored (s\<lparr>cache := c'\<rparr>) d (p + ucast t + word_of_nat i) \<noteq> None" unfolding step(5) by (intro grows) (simp add: add.assoc)
    qed (use step(3,4) k less.prems(3,4) U(2) in simp_all)
    then show ?thesis unfolding run .
  qed
qed

lemma ReadSuperblockFrom_idle:
  assumes "ext2_ok d s" "idle (cache s)" "start + m \<le> 2" "\<And>i. i < 1024 \<Longrightarrow> disk_of stored s d (word_of_nat (1024 + i)) \<noteq> None"
  shows "\<exists>s' bytes. ReadSuperblockFrom d [start..<start + m] acc s = Some (s', Some bytes) \<and> idle (cache s')"
  using assms
proof (induction m arbitrary: s start acc)
  case 0
  then show ?case by simp
next
  case (Suc m)
  let ?b = "word_of_nat (2 + start) :: u64"
  have ok: "cache_ok (cache s)" "d < length (BlockDevices (block_layer (cache s)))" "block_size (BlockDevices (block_layer (cache s)) ! d) = 512"
    using Suc.prems(1) by (simp_all add: ext2_ok_for_def)
  have list: "[start..<start + Suc m] = start # [Suc start..<Suc start + m]" by (simp add: upt_conv_Cons)
  have b: "ucast (EXT2_SUPERBLOCK_OFFSET div 512) + word_of_nat start = ?b" by (simp add: EXT2_SUPERBLOCK_OFFSET_def)
  have "start = 0 \<or> start = 1" using Suc.prems(3) by auto
  then have "word_of_nat (1024 + 512 * start) div 512 = ?b" by (elim disjE) simp_all
  then have on: "on_device (block_layer (cache s)) d ?b"
    using disk_on_device [where s = s and d = d and p = "word_of_nat (1024 + 512 * start)"] Suc.prems(3) Suc.prems(4) [of "512 * start"] by simp
  obtain c' data where U: "use_read d ?b (cache s) = Some (c', Some data)" "idle c'" using idle_uses(1) [OF ok(1) Suc.prems(2) on] by blast
  from use_read_effect [OF ok(1,2), of ?b] U(1) have E: "cache_ok c'" "same_devices (block_layer (cache s)) (block_layer c')"
    "cached_map stored c' = cached_map stored (cache s)" by auto
  obtain c1 i where G: "BufferGet (Some d) ?b (cache s) = Some (c1, Some i)" "c' = BufferRelease (Some i) c1"
    using U(1) by (auto simp: use_read_def split: option.splits prod.splits)
  obtain more where run: "ReadSuperblockFrom d [start..<start + Suc m] acc s = ReadSuperblockFrom d [Suc start..<Suc start + m] (acc @ more) (s\<lparr>cache := c'\<rparr>)"
    unfolding list using ok(3) b G by (simp add: Let_def)
  have same: "disk_of stored (s\<lparr>cache := c'\<rparr>) = disk_of stored s" using E(3) by (simp add: disk_of_def)
  show ?case unfolding run
    by (rule Suc.IH [OF ext2_ok_after [OF Suc.prems(1) E(2,1)]]) (use Suc.prems(3,4) U(2) same in simp_all)
qed

text \<open>So a run within a block of the volume is read and written.\<close>

lemma serving_still: "serving d s \<Longrightarrow> still d s s' \<Longrightarrow> idle (cache s') \<Longrightarrow> serving d s'"
  by (auto simp: serving_def still_def)

lemma Ext2ReadBytes_answers:
  assumes "serving d s" "volume s = Some sb" "block < sb_block_count sb" "unat off + unat n \<le> unat (sb_block_size sb)"
  shows "answers (Ext2ReadBytes d block off n) d s"
proof -
  have S: "ext2_ok d s" "idle (cache s)" "sized sb" "present (disk_of stored s) d sb" using assms(1,2) by (auto simp: serving_def)
  let ?p = "place sb block (unat off)"
  have p: "unat ?p + unat n < 2 ^ 64" using unat_place [OF S(3), of "unat off" block] assms(4) unsigned_less [of n, where 'a = nat] by simp
  have off: "off \<le> sb_block_size sb" "n \<le> sb_block_size sb - off" using assms(4) by (auto simp: word_le_nat_alt unat_sub)
  have "Ext2ReadBytes d block off n s = ReadBytesFrom d ?p n [] s"
    using off assms(2,3) by (auto simp: Ext2ReadBytes_def Let_def place_ucast not_le not_less)
  moreover have "disk_of stored s d (?p + word_of_nat i) \<noteq> None" if "i < unat n" for i
  proof -
    have "unat off + i < unat (sb_block_size sb)" using that assms(4) by linarith
    then have "byte_at (disk_of stored s) d sb block (unat off + i) \<noteq> None" using S(4) assms(3) unfolding present_def by blast
    then show ?thesis by (simp add: byte_at_def place_plus)
  qed
  ultimately obtain s' bytes where "Ext2ReadBytes d block off n s = Some (s', Some bytes)" "idle (cache s')"
    using ReadBytesFrom_idle [OF S(1,2) p, of "[]"] by auto
  moreover from this have "still d s s'" using Ext2ReadBytes_runs [OF S(1) assms(2) S(3), of block off n] by (simp add: runs_def)
  ultimately show ?thesis using serving_still [OF assms(1)] by (auto simp: answers_def)
qed

lemma Ext2WriteBytes_answers:
  assumes "serving d s" "volume s = Some sb" "block < sb_block_count sb" "unat off + unat n \<le> unat (sb_block_size sb)" "unat n \<le> length source"
  shows "answers (Ext2WriteBytes d block off n source) d s"
proof -
  have S: "ext2_ok d s" "idle (cache s)" "sized sb" "present (disk_of stored s) d sb" using assms(1,2) by (auto simp: serving_def)
  let ?p = "place sb block (unat off)"
  have p: "unat ?p + unat n < 2 ^ 64" using unat_place [OF S(3), of "unat off" block] assms(4) unsigned_less [of n, where 'a = nat] by simp
  have off: "off \<le> sb_block_size sb" "n \<le> sb_block_size sb - off" using assms(4) by (auto simp: word_le_nat_alt unat_sub)
  have "Ext2WriteBytes d block off n source s = WriteBytesFrom d ?p n source s"
    using off assms(2,3) by (auto simp: Ext2WriteBytes_def Let_def place_ucast not_le not_less)
  moreover have "disk_of stored s d (?p + word_of_nat i) \<noteq> None" if "i < unat n" for i
  proof -
    have "unat off + i < unat (sb_block_size sb)" using that assms(4) by linarith
    then have "byte_at (disk_of stored s) d sb block (unat off + i) \<noteq> None" using S(4) assms(3) unfolding present_def by blast
    then show ?thesis by (simp add: byte_at_def place_plus)
  qed
  ultimately obtain s' where R: "Ext2WriteBytes d block off n source s = Some (s', Some ())" "idle (cache s')"
    using WriteBytesFrom_idle [OF S(1,2) p assms(5)] by auto
  then have "volume s' = Some sb" "ext2_ok d s'" "disk_of stored s' = overwrite d ?p (take (unat n) source) (disk_of stored s)"
    using Ext2WriteBytes_runs [OF S(1) assms(2) S(3) assms(5), of block off] assms(2) by (simp_all add: runs_def)
  then have "serving d s'" using R(2) S(3) overwrite_present [OF S(4)] by (simp add: serving_def)
  then show ?thesis using R(1) by (simp add: answers_def)
qed

end

end
