(* ===== verification/Ext2Answers.thy ===== *)
theory Ext2Answers
  imports Ext2Prompt
begin

text \<open>
  The allocator above a driver that answers: each of its steps succeeds on a volume whose
  descriptors pass their checks, so that a free block or inode is found where there is one.
\<close>

subsection \<open>A volume in health\<close>

text \<open>What \<open>Ext2ReadGroupDescriptor\<close> asks of a descriptor.\<close>

definition descriptor_passes :: "Ext2Superblock \<Rightarrow> Ext2GroupDescriptor \<Rightarrow> bool" where
  "descriptor_passes sb v \<longleftrightarrow>
     Ext2BlockExists sb (gd_block_bitmap v) \<and> Ext2BlockExists sb (gd_inode_bitmap v) \<and> Ext2BlockExists sb (gd_inode_table v) \<and>
     gd_block_bitmap v \<noteq> gd_inode_bitmap v \<and> gd_block_bitmap v \<noteq> gd_inode_table v \<and> gd_inode_bitmap v \<noteq> gd_inode_table v \<and>
     Ext2InodeTableBlocks sb \<le> sb_block_count sb - gd_inode_table v \<and>
     unat (gd_free_block_count v) \<le> unat (Ext2GroupBlockCount sb (gd_group v)) \<and>
     unat (gd_free_inode_count v) + unat (gd_used_directory_count v) \<le> unat (sb_inodes_per_group sb)"

definition healthy :: "(nat \<Rightarrow> u64 \<Rightarrow> u8 option) \<Rightarrow> nat \<Rightarrow> Ext2Superblock \<Rightarrow> bool" where
  "healthy D d sb \<longleftrightarrow> \<not> sb_read_only sb \<and> Ext2GroupDescriptorBlock sb + Ext2GroupDescriptorBlocks sb \<le> sb_block_count sb \<and>
     (\<forall>g < sb_group_count sb. descriptor_block sb g < sb_block_count sb \<and> descriptor_passes sb (descriptor D d sb g))"

lemma healthyD:
  assumes "healthy D d sb" "g < sb_group_count sb"
  shows "descriptor_block sb g < sb_block_count sb" "descriptor_passes sb (descriptor D d sb g)" "bitmap_of D d sb k g < sb_block_count sb"
  using assms by (auto simp: healthy_def descriptor_passes_def bitmap_of_def Ext2BlockExists_def)

lemma descriptor_passes_static:
  assumes "static sb sb'"
  shows "descriptor_passes sb' v = descriptor_passes sb v"
proof -
  have "Ext2InodeTableBlocks sb' = Ext2InodeTableBlocks sb"
    by (subst assms [unfolded static_def]) (simp add: Ext2InodeTableBlocks_def)
  then show ?thesis using static_fields [OF assms] static_view [OF assms] by (simp add: descriptor_passes_def)
qed

lemma healthy_static:
  assumes "static sb sb'"
  shows "healthy D d sb' = healthy D d sb"
proof -
  have "Ext2GroupDescriptorBlock sb' = Ext2GroupDescriptorBlock sb" "Ext2GroupDescriptorBlocks sb' = Ext2GroupDescriptorBlocks sb"
    by (subst assms [unfolded static_def], simp add: Ext2GroupDescriptorBlock_def Ext2GroupDescriptorBlocks_def)+
  then show ?thesis using static_fields [OF assms] static_view [OF assms] descriptor_passes_static [OF assms] by (simp add: healthy_def)
qed

context prompt_driver
begin

lemma serving_after: "serving d s \<Longrightarrow> cache s' = cache s \<Longrightarrow> volume s' = volume s \<Longrightarrow> serving d s'"
  by (simp add: serving_def ext2_ok_for_def disk_of_def)

subsection \<open>Descriptors\<close>

lemma CheckedDescriptor_answers:
  assumes "serving d s" "volume s = Some sb" "descriptor_passes sb v"
  shows "answers (CheckedDescriptor v) d s"
proof -
  have dirs: "\<not> sb_inodes_per_group sb - ucast (gd_free_inode_count v) < (ucast (gd_used_directory_count v) :: u32)"
    "\<not> sb_inodes_per_group sb < (ucast (gd_free_inode_count v) :: u32)"
    "\<not> Ext2GroupBlockCount sb (gd_group v) < (ucast (gd_free_block_count v) :: u32)"
    "\<not> sb_block_count sb - gd_inode_table v < Ext2InodeTableBlocks sb"
    using assms(3) unfolding descriptor_passes_def by (auto simp: word_less_nat_alt word_le_nat_alt unat_wide unat_sub)
  have "CheckedDescriptor v s = Some (s\<lparr>Ext2GroupsReadCount := Ext2GroupsReadCount s + 1\<rparr>, Some v)"
    using assms(2,3) dirs by (simp add: CheckedDescriptor_def Let_def descriptor_passes_def)
  then show ?thesis using serving_after [OF assms(1)] by (simp add: answers_def)
qed

lemma Ext2ReadGroupDescriptor_answers:
  assumes "serving d s" "volume_ok d sb s" "healthy (disk_of stored s) d sb" "g < sb_group_count sb"
  shows "answers (Ext2ReadGroupDescriptor (Some d) g True) d s"
proof -
  have ok: "ext2_ok d s" "volume s = Some sb" "sized sb" using volume_ok_sized [OF assms(2)] by simp_all
  have geo: "geometry sb" using assms(2) by (auto simp: volume_ok_for_def intro: layout_geometry)
  let ?off = "g * EXT2_GROUP_DESCRIPTOR_SIZE mod sb_block_size sb"
  note H = healthyD [OF assms(3,4)]
  have n: "unat EXT2_GROUP_DESCRIPTOR_SIZE = 32" by (simp add: EXT2_GROUP_DESCRIPTOR_SIZE_def)
  have off: "unat ?off + unat EXT2_GROUP_DESCRIPTOR_SIZE \<le> unat (sb_block_size sb)"
    using descriptor_place(1) [OF geo, of g] n by (simp add: descriptor_offset_def)
  have "answers (ext2_then (Ext2ReadBytes d (descriptor_block sb g) ?off EXT2_GROUP_DESCRIPTOR_SIZE) (\<lambda>raw. CheckedDescriptor (ParsedDescriptor g raw))) d s"
  proof (rule answers_then [OF Ext2ReadBytes_answers [OF assms(1) ok(2) H(1) off] Ext2ReadBytes_runs [OF ok]])
    fix s' raw
    assume S: "serving d s'" and R: "still d s s' \<and> (\<forall>bytes. Some raw = Some bytes \<longrightarrow> descriptor_block sb g < sb_block_count sb \<and>
        unat ?off + unat EXT2_GROUP_DESCRIPTOR_SIZE \<le> unat (sb_block_size sb) \<and> length bytes = unat EXT2_GROUP_DESCRIPTOR_SIZE \<and>
        bytes_at (disk_of stored s) d sb (descriptor_block sb g) (unat ?off) bytes)"
    then have "raw = descriptor_raw (disk_of stored s) d sb g"
      using n by (auto simp: bytes_at_run descriptor_offset_def descriptor_raw_def)
    then have "ParsedDescriptor g raw = descriptor (disk_of stored s) d sb g" by (simp add: descriptor_def)
    moreover have "volume s' = Some sb" using R ok(2) by (simp add: still_def)
    ultimately show "answers (CheckedDescriptor (ParsedDescriptor g raw)) d s'" using CheckedDescriptor_answers [OF S] H(2) by simp
  qed
  moreover have "Ext2ReadGroupDescriptor (Some d) g True s = ext2_then (Ext2ReadBytes d (descriptor_block sb g) ?off EXT2_GROUP_DESCRIPTOR_SIZE)
      (\<lambda>raw. CheckedDescriptor (ParsedDescriptor g raw)) s"
    using assms(3,4) ok(2) by (simp add: Ext2ReadGroupDescriptor_def Let_def descriptor_block_def healthy_def flip: not_less)
  ultimately show ?thesis by (simp add: answers_def)
qed

subsection \<open>Bits\<close>

lemma bit_within: "unat index < unat (sb_block_size sb) * 8 \<Longrightarrow> unat (index div EXT2_BITS_PER_BYTE) + unat (1 :: u32) \<le> unat (sb_block_size sb)"
  by (simp add: bitmap_offset)

lemma Ext2BitmapTest_answers:
  assumes "serving d s" "volume s = Some sb" "bitmap < sb_block_count sb" "unat index < unat (sb_block_size sb) * 8"
  shows "answers (Ext2BitmapTest d bitmap index) d s"
  unfolding Ext2BitmapTest_def
  by (rule answers_then [OF Ext2ReadBytes_answers [OF assms(1-3) bit_within [OF assms(4)]], of "\<lambda>_ _. True"])
    (use Ext2ReadBytes_answers [OF assms(1-3) bit_within [OF assms(4)]] in \<open>auto simp: answers_def runs_def ext2_done_def\<close>)

lemma FindFreeFrom_answers:
  assumes "serving d s" "volume s = Some sb" "bitmap < sb_block_count sb" "\<forall>p \<in> set ps. p < unat (sb_block_size sb) * 8"
  shows "answers (FindFreeFrom d bitmap ps) d s"
  using assms
proof (induction ps arbitrary: s)
  case Nil
  then show ?case by (simp add: answers_done)
next
  case (Cons p ps)
  have ok: "ext2_ok d s" "sized sb" using Cons.prems(1,2) by (auto simp: serving_def)
  have "unat (sb_block_size sb) \<le> 4096" using ok(2) by (simp add: sized_def word_le_nat_alt)
  then have "p < 2 ^ 32" using Cons.prems(4) by auto
  then have p: "unat (word_of_nat p :: u32) = p" by (simp add: unat_of_nat take_bit_nat_eq_self)
  show ?case unfolding FindFreeFrom.simps
  proof (rule answers_then [OF Ext2BitmapTest_answers [OF Cons.prems(1-3)] Ext2BitmapTest_runs [OF ok(1) Cons.prems(2) ok(2)]])
    fix s' used assume "serving d s'"
      "still d s s' \<and> (\<forall>u. Some used = Some u \<longrightarrow> u = bit_at (disk_of stored s) d sb bitmap (unat (word_of_nat p :: u32)))"
    then show "answers (if \<not> used then ext2_done (Some (word_of_nat p)) else FindFreeFrom d bitmap ps) d s'"
      using Cons.IH Cons.prems by (simp add: answers_done still_def)
  qed (use Cons.prems(4) p in simp)
qed

lemma Ext2BitmapFindFree_answers:
  assumes "serving d s" "volume s = Some sb" "bitmap < sb_block_count sb" "unat count \<le> unat (sb_block_size sb) * 8"
  shows "answers (Ext2BitmapFindFree d bitmap count) d s"
  unfolding Ext2BitmapFindFree_def by (rule FindFreeFrom_answers [OF assms(1-3)]) (use assms(4) in auto)

lemma Ext2BitmapSet_answers:
  assumes "serving d s" "volume_ok d sb s" "healthy (disk_of stored s) d sb" "g < sb_group_count sb" "unat index < unat (sb_block_size sb) * 8"
    and "marked (disk_of stored s) d sb k g (unat index) \<noteq> used"
  shows "answers (Ext2BitmapSet d (bitmap_of (disk_of stored s) d sb k g) index used what) d s"
proof -
  let ?B = "bitmap_of (disk_of stored s) d sb k g" and ?mask = "push_bit (unat (index mod EXT2_BITS_PER_BYTE)) 1 :: u8" and ?off = "index div EXT2_BITS_PER_BYTE"
  have ok: "ext2_ok d s" "volume s = Some sb" "sized sb" using volume_ok_sized [OF assms(2)] by simp_all
  note H = healthyD(3) [OF assms(3,4)]
  have "answers (ext2_then (Ext2ReadBytes d ?B ?off 1) (\<lambda>byte. let byte = byte ! 0
      in if (byte AND ?mask \<noteq> 0) = used then Ext2WriteRefuse what
         else let byte = (if used then byte OR ?mask else byte AND NOT ?mask) in Ext2WriteBytes d ?B ?off 1 [byte])) d s"
  proof (rule answers_then [OF Ext2ReadBytes_answers [OF assms(1) ok(2) H bit_within [OF assms(5)]] Ext2ReadBytes_runs [OF ok]])
    fix s' and bytes :: "u8 list"
    assume S: "serving d s'" and R: "still d s s' \<and> (\<forall>b. Some bytes = Some b \<longrightarrow> ?B < sb_block_count sb \<and>
      unat ?off + unat (1 :: u32) \<le> unat (sb_block_size sb) \<and> length b = unat (1 :: u32) \<and> bytes_at (disk_of stored s) d sb ?B (unat ?off) b)"
    have v: "volume s' = Some sb" using R ok(2) by (simp add: still_def)
    have "byte_at (disk_of stored s) d sb ?B (unat index div 8) = Some (bytes ! 0)" using R by (auto simp: bytes_at_def bitmap_offset)
    then have "(bytes ! 0 AND ?mask \<noteq> 0) \<noteq> used" using assms(6) unfolding and_power by (simp add: marked_def bit_at_def bitmap_offset)
    then show "answers (let byte = bytes ! 0 in if (byte AND ?mask \<noteq> 0) = used then Ext2WriteRefuse what
        else let byte = (if used then byte OR ?mask else byte AND NOT ?mask) in Ext2WriteBytes d ?B ?off 1 [byte]) d s'"
      unfolding Let_def using Ext2WriteBytes_answers [OF S v H bit_within [OF assms(5)], of "[_]"] by simp
  qed
  then show ?thesis unfolding Ext2BitmapSet_def Let_def .
qed

subsection \<open>The accounts\<close>

lemma Ext2Writable_answers:
  assumes "volume s = Some sb" "\<not> sb_read_only sb" "answers (f ()) d s"
  shows "answers (ext2_then Ext2Writable f) d s"
  using assms by (simp add: answers_def ext2_then_def Ext2Writable_def ext2_done_def)

lemma Ext2WriteGroupDescriptor_answers:
  assumes "serving d s" "volume_ok d sb s" "\<not> sb_read_only sb" "gd_group v < sb_group_count sb" "descriptor_block sb (gd_group v) < sb_block_count sb"
  shows "answers (Ext2WriteGroupDescriptor (Some d) (Some v)) d s"
proof -
  have ok: "ext2_ok d s" "volume s = Some sb" "sized sb" using volume_ok_sized [OF assms(2)] by simp_all
  have geo: "geometry sb" using assms(2) by (auto simp: volume_ok_for_def intro: layout_geometry)
  let ?g = "gd_group v"
  let ?off = "?g * EXT2_GROUP_DESCRIPTOR_SIZE mod sb_block_size sb" and ?n = EXT2_GROUP_DESCRIPTOR_SIZE
  let ?rest = "\<lambda>_. ext2_then (Ext2ReadBytes d (descriptor_block sb ?g) ?off ?n) (\<lambda>raw. Ext2WriteBytes d (descriptor_block sb ?g) ?off ?n (described v raw))"
  have n: "unat ?n = 32" by (simp add: EXT2_GROUP_DESCRIPTOR_SIZE_def)
  have off: "unat ?off + unat ?n \<le> unat (sb_block_size sb)" using descriptor_place(1) [OF geo, of ?g] n by (simp add: descriptor_offset_def)
  have "answers (ext2_then Ext2Writable ?rest) d s"
  proof (rule Ext2Writable_answers [OF ok(2) assms(3)])
    show "answers (?rest ()) d s"
    proof (rule answers_then [OF Ext2ReadBytes_answers [OF assms(1) ok(2) assms(5) off] Ext2ReadBytes_runs [OF ok]])
      fix s' raw
      assume S: "serving d s'" and R: "still d s s' \<and> (\<forall>bytes. Some raw = Some bytes \<longrightarrow> descriptor_block sb ?g < sb_block_count sb \<and>
        unat ?off + unat ?n \<le> unat (sb_block_size sb) \<and> length bytes = unat ?n \<and> bytes_at (disk_of stored s) d sb (descriptor_block sb ?g) (unat ?off) bytes)"
      have "volume s' = Some sb" "length raw = 32" using R ok(2) n by (simp_all add: still_def)
      then show "answers (Ext2WriteBytes d (descriptor_block sb ?g) ?off ?n (described v raw)) d s'"
        using Ext2WriteBytes_answers [OF S _ assms(5) off] described_facts(1) n by simp
    qed
  qed
  moreover have "Ext2WriteGroupDescriptor (Some d) (Some v) s = ext2_then Ext2Writable ?rest s"
    using assms(4) ok(2) by (simp add: Ext2WriteGroupDescriptor_def Let_def descriptor_block_def described_def flip: not_less)
  ultimately show ?thesis by (simp add: answers_def)
qed

lemma superblock_exists:
  assumes "geometry sb"
  shows "superblock_block sb < sb_block_count sb"
  using assms by (auto simp: geometry_def superblock_block_def EXT2_SUPERBLOCK_OFFSET_def)

lemma Ext2ReadSuperblockBytes_answers:
  assumes "serving d s" "volume s = Some sb" "geometry sb"
  shows "answers (Ext2ReadSuperblockBytes d) d s"
proof -
  have S: "ext2_ok d s" "idle (cache s)" "present (disk_of stored s) d sb" using assms(1,2) by (auto simp: serving_def)
  note P = superblock_place [OF assms(3)]
  have there: "disk_of stored s d (word_of_nat (1024 + i)) \<noteq> None" if "i < 1024" for i
  proof -
    let ?off = "unat (EXT2_SUPERBLOCK_OFFSET mod sb_block_size sb)"
    have "?off + i < unat (sb_block_size sb)" using P(2) that by linarith
    then have "byte_at (disk_of stored s) d sb (superblock_block sb) (?off + i) \<noteq> None"
      using S(3) superblock_exists [OF assms(3)] unfolding present_def by blast
    then show ?thesis by (simp add: byte_at_def place_plus P(1))
  qed
  have "Ext2ReadSuperblockBytes d s = ReadSuperblockFrom d [0..<0 + 2] [] s"
    using S(1) by (simp add: Ext2ReadSuperblockBytes_def Let_def ext2_ok_for_def EXT2_SUPERBLOCK_SIZE_def upt_rec)
  then obtain s' bytes where "Ext2ReadSuperblockBytes d s = Some (s', Some bytes)" "idle (cache s')"
    using ReadSuperblockFrom_idle [OF S(1,2), of 0 2 "[]"] there by auto
  moreover from this have "still d s s'" using Ext2ReadSuperblockBytes_runs [OF S(1)] by (simp add: runs_def)
  ultimately show ?thesis using serving_still [OF assms(1)] by (auto simp: answers_def)
qed

lemma Ext2WriteSuperblock_answers:
  assumes "serving d s" "volume_ok d sb s" "\<not> sb_read_only sb"
  shows "answers (Ext2WriteSuperblock (Some d)) d s"
proof -
  have ok: "ext2_ok d s" "volume s = Some sb" "sized sb" using volume_ok_sized [OF assms(2)] by simp_all
  have geo: "geometry sb" using assms(2) by (auto simp: volume_ok_for_def intro: layout_geometry)
  let ?n = EXT2_SUPERBLOCK_SIZE and ?off = "EXT2_SUPERBLOCK_OFFSET mod sb_block_size sb"
  let ?rest = "\<lambda>_. ext2_then (Ext2ReadSuperblockBytes d) (\<lambda>raw. Ext2WriteBytes d (superblock_block sb) ?off ?n (recorded sb raw))"
  have n: "unat ?n = 1024" by (simp add: EXT2_SUPERBLOCK_SIZE_def)
  have off: "unat ?off + unat ?n \<le> unat (sb_block_size sb)" using superblock_place(2) [OF geo] n by simp
  have "answers (ext2_then Ext2Writable ?rest) d s"
  proof (rule Ext2Writable_answers [OF ok(2) assms(3)])
    show "answers (?rest ()) d s"
    proof (rule answers_then [OF Ext2ReadSuperblockBytes_answers [OF assms(1) ok(2) geo] Ext2ReadSuperblockBytes_runs [OF ok(1)]])
      fix s' raw assume S: "serving d s'" and R: "still d s s' \<and> (\<forall>bytes. Some raw = Some bytes \<longrightarrow> bytes = superblock_raw (disk_of stored s) d)"
      have "volume s' = Some sb" "length (recorded sb raw) = 1024" using R ok(2) by (simp_all add: still_def recorded_def superblock_raw_def)
      then show "answers (Ext2WriteBytes d (superblock_block sb) ?off ?n (recorded sb raw)) d s'"
        using Ext2WriteBytes_answers [OF S _ superblock_exists [OF geo] off] n by simp
    qed
  qed
  moreover have "Ext2WriteSuperblock (Some d) s = ext2_then Ext2Writable ?rest s"
    using ok(2) by (simp add: Ext2WriteSuperblock_def Let_def superblock_block_def recorded_def)
  ultimately show ?thesis by (simp add: answers_def)
qed

lemma WriteAccounts_answers:
  assumes "serving d s" "volume_ok d sb s" "healthy (disk_of stored s) d sb" "static sb (change sb)" "gd_group v < sb_group_count sb"
  defines "D \<equiv> disk_of stored s"
  assumes "gd_block_bitmap v = gd_block_bitmap (descriptor D d sb (gd_group v))" "gd_inode_bitmap v = gd_inode_bitmap (descriptor D d sb (gd_group v))"
    "gd_inode_table v = gd_inode_table (descriptor D d sb (gd_group v))"
  shows "answers (WriteAccounts d v change) d s"
proof -
  let ?s = "s\<lparr>volume := Some (change sb)\<rparr>"
  note view = static_view [OF assms(4)] and fields = static_fields [OF assms(4)]
  have D: "disk_of stored ?s = D" by (simp add: disk_of_def D_def)
  have ok: "volume_ok d (change sb) ?s" using assms(2) view unfolding volume_ok_for_def D by (simp add: ext2_ok_for_def D_def)
  have vol: "volume s = Some sb" using assms(2) by (simp add: volume_ok_for_def)
  have "sized sb" "present D d sb" "idle (cache s)" "ext2_ok d s" using assms(1) vol by (auto simp: serving_def D_def)
  then have S: "serving d ?s" unfolding serving_def D using assms(4) fields(1) by (simp add: present_static ext2_ok_for_def sized_def)
  have ro: "\<not> sb_read_only (change sb)" using assms(3) fields by (simp add: healthy_def)
  have v: "gd_group v < sb_group_count (change sb)" "descriptor_block (change sb) (gd_group v) < sb_block_count (change sb)"
    using assms(5) healthyD(1) [OF assms(3,5)] fields view by simp_all
  have "answers (ext2_then (Ext2WriteGroupDescriptor (Some d) (Some v)) (\<lambda>_. Ext2WriteSuperblock (Some d))) d ?s"
  proof (rule answers_then [OF Ext2WriteGroupDescriptor_answers [OF S ok ro v] Ext2WriteGroupDescriptor_runs [OF ok v(1), where b = False]])
    fix s' and x :: unit
    assume S': "serving d s'" and E: "volume s' = Some (change sb) \<and> altered d (change sb) {} False ?s s' \<and>
      (\<forall>g < sb_group_count (change sb). g \<noteq> gd_group v \<longrightarrow> descriptor (disk_of stored s') d (change sb) g = descriptor (disk_of stored ?s) d (change sb) g) \<and>
      (Some x \<noteq> None \<longrightarrow> descriptor (disk_of stored s') d (change sb) (gd_group v) = v)"
    have "volume_ok d (change sb) s'" by (rule volume_ok_altered [OF ok, of "{}" False s']) (use E in simp_all)
    then show "answers (Ext2WriteSuperblock (Some d)) d s'" by (rule Ext2WriteSuperblock_answers [OF S' _ ro])
  qed (use assms(7-9) in \<open>simp_all only: D view\<close>)
  moreover have "WriteAccounts d v change s = ext2_then (Ext2WriteGroupDescriptor (Some d) (Some v)) (\<lambda>_. Ext2WriteSuperblock (Some d)) ?s"
    using vol by (simp add: WriteAccounts_def)
  ultimately show ?thesis by (simp add: answers_def)
qed

text \<open>A slot changed: the bit, then the accounts.\<close>

lemma slot_answers:
  assumes "serving d s" "volume_ok d sb s" "healthy (disk_of stored s) d sb" "g < sb_group_count sb" "unat index < unat (sb_block_size sb) * 8"
    and "marked (disk_of stored s) d sb k g (unat index) \<noteq> used" "static sb (change sb)"
  defines "D \<equiv> disk_of stored s"
  assumes "gd_group v = g" "gd_block_bitmap v = gd_block_bitmap (descriptor D d sb g)" "gd_inode_bitmap v = gd_inode_bitmap (descriptor D d sb g)"
    "gd_inode_table v = gd_inode_table (descriptor D d sb g)"
    and "\<And>s'. \<exists>t r. ending s' = Some (t, Some r) \<and> cache t = cache s' \<and> volume t = volume s'"
  shows "answers (ext2_then (Ext2BitmapSet d (bitmap_of D d sb k g) index used what) (\<lambda>_. ext2_then (WriteAccounts d v change) (\<lambda>_. ending))) d s"
  unfolding D_def
proof (rule answers_then [OF Ext2BitmapSet_answers [OF assms(1-6)] Ext2BitmapSet_runs [OF assms(2,4,5)]])
  fix s' and x :: unit
  let ?D = "disk_of stored s" and ?D' = "disk_of stored s'"
  assume S: "serving d s'" and "volume s' = Some sb \<and> (Some x = None \<longrightarrow> still d s s') \<and> (Some x \<noteq> None \<longrightarrow> marked ?D d sb k g (unat index) \<noteq> used \<and>
      altered d sb {(k, g, unat index)} used s s' \<and> (\<forall>g' < sb_group_count sb. descriptor ?D' d sb g' = descriptor ?D d sb g'))"
  then have E: "volume s' = Some sb" "altered d sb {(k, g, unat index)} used s s'"
    "\<And>g'. g' < sb_group_count sb \<Longrightarrow> descriptor ?D' d sb g' = descriptor ?D d sb g'" by simp_all
  have ok': "volume_ok d sb s'" by (rule volume_ok_altered [OF assms(2) E(2,1) static_refl])
  have "healthy ?D' d sb" using assms(3) E(3) by (simp add: healthy_def)
  then have "answers (WriteAccounts d v change) d s'"
    by (rule WriteAccounts_answers [OF S ok']) (use assms(4,7,9-12) E(3) in \<open>simp_all add: D_def\<close>)
  then show "answers (ext2_then (WriteAccounts d v change) (\<lambda>_. ending)) d s'"
  proof (rule answers_then [where Q = "\<lambda>_ _. True"])
    show "runs (WriteAccounts d v change) s' (\<lambda>_ _. True)" using \<open>answers (WriteAccounts d v change) d s'\<close> by (auto simp: answers_def runs_def)
    fix t and r :: unit assume T: "serving d t"
    obtain u q where "ending t = Some (u, Some q)" "cache u = cache t" "volume u = volume t" using assms(13) by blast
    then show "answers ending d t" using serving_after [OF T] by (simp add: answers_def)
  qed
qed

end

end
