(* ===== verification/Ext2Service.thy ===== *)
theory Ext2Service
  imports Ext2Answers
begin

text \<open>
  The operations of the allocator above a driver that answers, on a healthy volume whose counts are
  exact: what can be taken is taken and what can be released is released, and the volume is left so.
\<close>

subsection \<open>Every group is tried\<close>

text \<open>The bitmaps of a volume are as many blocks, so that there are no more than 2^31 groups.\<close>

lemma layout_few_groups:
  assumes "layout D d sb"
  shows "unat (sb_group_count sb) \<le> 2 ^ 31"
proof -
  let ?S = "UNIV \<times> {g. g < sb_group_count sb} :: (bool \<times> u32) set"
  have "inj_on (\<lambda>(k, g). bitmap_of D d sb k g) ?S" using assms unfolding layout_def by (auto intro!: inj_onI)
  then have "card ?S \<le> card (UNIV :: u32 set)" by (rule card_inj_on_le) simp_all
  moreover have "card {g. g < sb_group_count sb} = unat (sb_group_count sb)"
  proof -
    have "unat ` {g. g < sb_group_count sb} = {..<unat (sb_group_count sb)}"
    proof (intro set_eqI iffI)
      fix n assume n: "n \<in> {..<unat (sb_group_count sb)}"
      then have "n < 2 ^ 32" using unsigned_less [of "sb_group_count sb", where 'a = nat] by simp
      then have "unat (word_of_nat n :: u32) = n" by (simp add: unat_of_nat take_bit_nat_eq_self)
      then show "n \<in> unat ` {g. g < sb_group_count sb}" using n by (intro image_eqI [of _ _ "word_of_nat n"]) (simp_all add: word_less_nat_alt)
    qed (auto simp: word_less_nat_alt)
    moreover have "inj_on unat {g. g < sb_group_count sb}" by (rule inj_onI) (simp add: word_unat_eq_iff)
    ultimately show ?thesis using card_image by fastforce
  qed
  ultimately show ?thesis by (simp add: card_cartesian_product card_word)
qed

lemma attempts_reach:
  assumes "unat (count :: u32) \<le> 2 ^ 31" "start < count" "g < count"
  shows "\<exists>a \<in> set [0..<unat count]. (start + word_of_nat a) mod count = g"
proof -
  define a where "a = (if unat start \<le> unat g then unat g - unat start else unat g + unat count - unat start)"
  have lt: "unat start < unat count" "unat g < unat count" using assms(2,3) by (simp_all add: word_less_nat_alt)
  then have a: "a < unat count" by (auto simp: a_def)
  then have "unat start + a < 2 ^ 32" using lt assms(1) by simp
  then have "unat (start + word_of_nat a) = unat start + a" by (simp add: unat_word_ariths unat_of_nat take_bit_nat_eq_self)
  then have "unat ((start + word_of_nat a) mod count) = (unat start + a) mod unat count" by (simp only: unat_mod)
  also have "\<dots> = unat g" using lt by (auto simp: a_def)
  finally have "(start + word_of_nat a) mod count = g" by (simp only: word_unat_eq_iff)
  then show ?thesis using a by (intro bexI [of _ a]) simp_all
qed

subsection \<open>A volume that can be served\<close>

definition serviceable_for :: "'w BlockOperations \<Rightarrow> ('w \<Rightarrow> u64 \<Rightarrow> u64 \<Rightarrow> u8 list) \<Rightarrow> ('w \<Rightarrow> u64 \<Rightarrow> nat) \<Rightarrow> ('w \<Rightarrow> bool) \<Rightarrow> nat \<Rightarrow> 'w ext2_state \<Rightarrow> bool" where
  "serviceable_for ops stored extent sound d s \<longleftrightarrow> idle (cache s) \<and> (\<exists>sb. volume_ok_for ops stored extent sound d sb s \<and>
     exact_counts (disk_of stored s) d sb \<and> present (disk_of stored s) d sb \<and> healthy (disk_of stored s) d sb)"

definition told_truly :: "Ext2Superblock \<Rightarrow> Ext2GroupDescriptor \<Rightarrow> bool \<Rightarrow> bool" where
  "told_truly sb v directory \<longleftrightarrow> (if directory then gd_used_directory_count v \<noteq> 0
     else unat (gd_free_inode_count v) + unat (gd_used_directory_count v) < unat (sb_inodes_per_group sb))"

lemma healthy_changed:
  assumes "healthy D d sb" "static sb sb'" "exact_counts D' d sb'" "g < sb_group_count sb" "descriptor D' d sb g = v"
    and "\<And>g'. g' < sb_group_count sb \<Longrightarrow> g' \<noteq> g \<Longrightarrow> descriptor D' d sb g' = descriptor D d sb g'"
    and "gd_block_bitmap v = gd_block_bitmap (descriptor D d sb g)" "gd_inode_bitmap v = gd_inode_bitmap (descriptor D d sb g)"
      "gd_inode_table v = gd_inode_table (descriptor D d sb g)"
    and "unat (gd_free_inode_count v) + unat (gd_used_directory_count v) \<le> unat (sb_inodes_per_group sb)"
  shows "healthy D' d sb'"
proof -
  have "descriptor_passes sb (descriptor D' d sb h)" if h: "h < sb_group_count sb" for h
  proof (cases "h = g")
    case False
    then show ?thesis using assms(6) h healthyD(2) [OF assms(1) h] by simp
  next
    case True
    have "unat (gd_free_block_count v) = card (free_places D' d sb False g)"
      using assms(3) [unfolded exact_counts_static [OF assms(2)]] assms(4) unfolding assms(5) [symmetric] by blast
    also have "\<dots> \<le> card {..<unat (Ext2GroupBlockCount sb g)}" by (rule card_mono) (auto simp: free_places_def)
    finally show ?thesis
      using True healthyD(2) [OF assms(1,4)] assms(5,7-10) unfolding descriptor_passes_def by (metis card_lessThan descriptor_group)
  qed
  then show ?thesis unfolding healthy_static [OF assms(2)] using assms(1) by (simp add: healthy_def)
qed

context prompt_driver
begin

lemma healthy_still: "healthy (disk_of stored s) d sb \<Longrightarrow> still d s s' \<Longrightarrow> healthy (disk_of stored s') d sb"
  by (simp add: still_def)

subsection \<open>Searching a group\<close>

lemma descriptor_then_answers:
  assumes "serving d s" "volume_ok d sb s" "healthy (disk_of stored s) d sb" "g < sb_group_count sb"
    and "\<And>s'. serving d s' \<Longrightarrow> still d s s' \<Longrightarrow> answers (f (descriptor (disk_of stored s) d sb g)) d s'"
  shows "answers (ext2_then (Ext2ReadGroupDescriptor (Some d) g True) f) d s"
proof (rule answers_then [OF Ext2ReadGroupDescriptor_answers [OF assms(1-4)]])
  show "runs (Ext2ReadGroupDescriptor (Some d) g True) s (\<lambda>s' r. still d s s' \<and> (\<forall>v. r = Some v \<longrightarrow> v = descriptor (disk_of stored s) d sb g))"
    using volume_ok_sized [OF assms(2)] by (intro runs_mono [OF Ext2ReadGroupDescriptor_runs [of d s sb g]]) auto
qed (use assms(5) in auto)

lemma find_then_answers:
  fixes k :: bool
  assumes "serving d s" "volume_ok d sb s" "healthy (disk_of stored s) d sb" "g < sb_group_count sb"
  defines "D \<equiv> disk_of stored s" and "count \<equiv> (if k then sb_inodes_per_group sb else Ext2GroupBlockCount sb g)"
  assumes "free_places D d sb k g \<noteq> {}"
    and f: "\<And>s' index. serving d s' \<Longrightarrow> still d s s' \<Longrightarrow> index < count \<Longrightarrow> \<not> marked D d sb k g (unat index) \<Longrightarrow> answers (f index) d s'"
  shows "answers (ext2_then (Ext2BitmapFindFree d (bitmap_of D d sb k g) count) (\<lambda>found. case found of
    None \<Rightarrow> Ext2WriteRefuse why | Some index \<Rightarrow> f index)) d s"
proof -
  have ok: "ext2_ok d s" "volume s = Some sb" "sized sb" using volume_ok_sized [OF assms(2)] by simp_all
  have geo: "geometry sb" using assms(2) by (auto simp: volume_ok_for_def intro: layout_geometry)
  have "unat count \<le> unat (sb_block_size sb) * 8"
  proof (rule ccontr)
    assume "\<not> unat count \<le> unat (sb_block_size sb) * 8"
    moreover have "unat (sb_block_size sb * 8) = unat (sb_block_size sb) * 8" using geo by (auto simp: geometry_def)
    ultimately have "sb_block_size sb * 8 < count" by (simp add: word_less_nat_alt)
    then show False using within_bitmap(1,3) [OF geo, of "sb_block_size sb * 8"] \<open>unat (sb_block_size sb * 8) = _\<close>
      unfolding count_def by (cases k) simp_all
  qed
  note A = Ext2BitmapFindFree_answers [OF assms(1) ok(2) healthyD(3) [OF assms(3,4), of k] this]
  show ?thesis unfolding D_def
  proof (rule answers_then [OF A Ext2BitmapFindFree_runs [OF ok]])
    fix s' found
    assume S: "serving d s'" and R: "still d s s' \<and>
      (Some found = Some None \<longrightarrow> (\<forall>i < unat count. bit_at (disk_of stored s) d sb (bitmap_of (disk_of stored s) d sb k g) i)) \<and>
      (\<forall>index. Some found = Some (Some index) \<longrightarrow> index < count \<and> \<not> bit_at (disk_of stored s) d sb (bitmap_of (disk_of stored s) d sb k g) (unat index) \<and>
        (\<forall>i < unat index. bit_at (disk_of stored s) d sb (bitmap_of (disk_of stored s) d sb k g) i))"
    obtain index where i: "found = Some index"
      using R assms(7) by (cases found) (auto simp: free_places_def marked_def D_def count_def)
    then show "answers (case found of None \<Rightarrow> Ext2WriteRefuse why | Some index \<Rightarrow> f index) d s'"
      using f [OF S] R by (simp add: D_def marked_def)
  qed
qed

subsection \<open>Blocks\<close>

lemma TakeBlock_answers:
  assumes "serving d s" "volume_ok d sb s" "healthy (disk_of stored s) d sb" "g < sb_group_count sb" "index < Ext2GroupBlockCount sb g"
    and "\<not> marked (disk_of stored s) d sb False g (unat index)"
  shows "answers (TakeBlock d g (descriptor (disk_of stored s) d sb g) index) d s"
proof -
  have B: "gd_block_bitmap (descriptor (disk_of stored s) d sb g) = bitmap_of (disk_of stored s) d sb False g" by (simp add: bitmap_of_def)
  have geo: "geometry sb" using assms(2) by (auto simp: volume_ok_for_def intro: layout_geometry)
  show ?thesis unfolding TakeBlock_def B
    by (rule slot_answers [OF assms(1-4) within_bitmap(1) [OF geo assms(5)]]) (use assms(6) in auto)
qed

lemma AllocateBlockFrom_answers:
  assumes "serving d s" "volume_ok d sb s" "healthy (disk_of stored s) d sb" "sb_group_count sb \<noteq> 0"
    and "\<And>g. g < sb_group_count sb \<Longrightarrow> gd_free_block_count (descriptor (disk_of stored s) d sb g) \<noteq> 0 \<Longrightarrow> free_places (disk_of stored s) d sb False g \<noteq> {}"
    and "a \<in> set attempts" "gd_free_block_count (descriptor (disk_of stored s) d sb ((start + word_of_nat a) mod sb_group_count sb)) \<noteq> 0"
  shows "answers (AllocateBlockFrom d start attempts) d s"
  using assms
proof (induction attempts arbitrary: s)
  case Nil
  then show ?case by simp
next
  case (Cons attempt attempts)
  let ?g = "(start + word_of_nat attempt) mod sb_group_count sb" and ?D = "disk_of stored s"
  let ?v = "descriptor ?D d sb ?g"
  have vol: "volume s = Some sb" using Cons.prems(2) by (simp add: volume_ok_for_def)
  have g: "?g < sb_group_count sb" using Cons.prems(4) by (simp add: word_less_nat_alt unat_mod unat_gt_0)
  let ?find = "\<lambda>v. if gd_free_block_count v = 0 then AllocateBlockFrom d start attempts
      else ext2_then (Ext2BitmapFindFree d (gd_block_bitmap v) (Ext2GroupBlockCount sb ?g)) (\<lambda>found. case found of
        None \<Rightarrow> Ext2WriteRefuse ''a group's free count disagrees with its block bitmap'' | Some index \<Rightarrow> TakeBlock d ?g v index)"
  have "answers (ext2_then (Ext2ReadGroupDescriptor (Some d) ?g True) ?find) d s"
  proof (rule descriptor_then_answers [OF Cons.prems(1-3) g])
    fix s' assume S: "serving d s'" "still d s s'"
    have same: "disk_of stored s' = ?D" using S(2) by (simp add: still_def)
    note ok' = volume_ok_still [OF Cons.prems(2) S(2)] and H = healthy_still [OF Cons.prems(3) S(2)]
    show "answers (?find ?v) d s'"
    proof (cases "gd_free_block_count ?v = 0")
      case True
      then have "a \<in> set attempts" using Cons.prems(6,7) by auto
      then have "answers (AllocateBlockFrom d start attempts) d s'" using Cons.IH [OF S(1) ok' H Cons.prems(4)] Cons.prems(5,7) unfolding same by blast
      then show ?thesis using True by simp
    next
      case False
      have B: "gd_block_bitmap ?v = bitmap_of (disk_of stored s') d sb False ?g" by (simp add: bitmap_of_def same)
      have "answers (ext2_then (Ext2BitmapFindFree d (bitmap_of (disk_of stored s') d sb False ?g) (if False then sb_inodes_per_group sb else Ext2GroupBlockCount sb ?g))
        (\<lambda>found. case found of None \<Rightarrow> Ext2WriteRefuse ''a group's free count disagrees with its block bitmap'' | Some index \<Rightarrow> TakeBlock d ?g ?v index)) d s'"
      proof (rule find_then_answers [OF S(1) ok' H g])
        fix t index assume T: "serving d t" "still d s' t" "index < (if False then sb_inodes_per_group sb else Ext2GroupBlockCount sb ?g)"
          "\<not> marked (disk_of stored s') d sb False ?g (unat index)"
        have "disk_of stored t = ?D" using T(2) same by (simp add: still_def)
        then show "answers (TakeBlock d ?g ?v index) d t"
          using TakeBlock_answers [OF T(1) volume_ok_still [OF ok' T(2)] healthy_still [OF H T(2)] g, of index] T(3,4) same by simp
      qed (use Cons.prems(5) [OF g False] same in simp)
      then show ?thesis using False by (simp add: B)
    qed
  qed
  then show ?case by (simp only: answers_def AllocateBlockFrom.simps Let_def vol option.sel)
qed

lemma exact_free_places:
  assumes "exact_counts D d sb" "g < sb_group_count sb"
  shows "gd_free_block_count (descriptor D d sb g) \<noteq> 0 \<longleftrightarrow> free_places D d sb False g \<noteq> {}"
    "gd_free_inode_count (descriptor D d sb g) \<noteq> 0 \<longleftrightarrow> free_places D d sb True g \<noteq> {}"
proof -
  have fin: "finite (free_places D d sb k g)" for k by (simp add: free_places_def)
  show "gd_free_block_count (descriptor D d sb g) \<noteq> 0 \<longleftrightarrow> free_places D d sb False g \<noteq> {}"
    "gd_free_inode_count (descriptor D d sb g) \<noteq> 0 \<longleftrightarrow> free_places D d sb True g \<noteq> {}"
    using exact_countsD(1,2) [OF assms] fin [of False] fin [of True] by (auto simp: word_unat_eq_iff)
qed

lemma Ext2AllocateBlock_answers:
  assumes "serving d s" "volume_ok d sb s" "healthy (disk_of stored s) d sb" "exact_counts (disk_of stored s) d sb"
    and "free_blocks (disk_of stored s) d sb \<noteq> {}"
  shows "answers (Ext2AllocateBlock (Some d) near True) d s"
proof -
  let ?D = "disk_of stored s"
  have vol: "volume s = Some sb" and lay: "layout ?D d sb" and ro: "\<not> sb_read_only sb"
    using assms(2,3) by (simp_all add: volume_ok_for_def healthy_def)
  note geo = layout_geometry [OF lay]
  have "finite (free_blocks ?D d sb)" by simp
  then have count: "sb_free_block_count sb \<noteq> 0" using exact_countsD(3) [OF assms(4)] assms(5) by (auto simp: word_unat_eq_iff)
  obtain x where x: "Ext2BlockExists sb x" "\<not> block_used ?D d sb x" using assms(5) by (auto simp: free_blocks_def)
  note P = block_place [OF geo x(1)]
  have g: "block_group sb x < sb_group_count sb" by (rule layout_groups(2) [OF lay x(1)])
  have "unat (block_index sb x) \<in> free_places ?D d sb False (block_group sb x)"
    using x(2) P(3) [OF g] by (simp add: free_places_def block_used_def word_less_nat_alt)
  then have free: "gd_free_block_count (descriptor ?D d sb (block_group sb x)) \<noteq> 0" using exact_free_places(1) [OF assms(4) g] by blast
  let ?start = "if near \<noteq> 0 \<and> Ext2BlockExists sb near then Ext2BlockPosition near else ext2_done (0, 0)"
  let ?rest = "\<lambda>(start, index :: u32). AllocateBlockFrom d start [0..<unat (sb_group_count sb)]"
  obtain first index where start: "?start s = Some (s, Some (first, index))" "first < sb_group_count sb"
  proof (cases "near \<noteq> 0 \<and> Ext2BlockExists sb near")
    case True
    then show ?thesis using that [of "block_group sb near" "block_index sb near"] vol layout_groups(2) [OF lay, of near]
      by (simp add: Ext2BlockPosition_def Let_def ext2_done_def block_group_def block_index_def)
  next
    case False
    then show ?thesis using that [of 0 0] layout_groups(1) [OF lay] by (auto simp: ext2_done_def word_neq_0_conv)
  qed
  obtain a where a: "a \<in> set [0..<unat (sb_group_count sb)]" "(first + word_of_nat a) mod sb_group_count sb = block_group sb x"
    using attempts_reach [OF layout_few_groups [OF lay] start(2) g] by blast
  have "answers (AllocateBlockFrom d first [0..<unat (sb_group_count sb)]) d s"
    by (rule AllocateBlockFrom_answers [OF assms(1-3) layout_groups(1) [OF lay] _ a(1)]) (use exact_free_places(1) [OF assms(4)] free a(2) in auto)
  moreover have "ext2_then ?start ?rest s = AllocateBlockFrom d first [0..<unat (sb_group_count sb)] s" using start(1) by (simp add: ext2_then_def)
  moreover have "Ext2AllocateBlock (Some d) near True s = ext2_then ?start ?rest s"
    using vol ro count by (simp add: Ext2AllocateBlock_def ext2_then_def Ext2Writable_def ext2_done_def)
  ultimately show ?thesis by (simp add: answers_def)
qed

lemma Ext2FreeBlock_answers:
  assumes "serving d s" "volume_ok d sb s" "healthy (disk_of stored s) d sb" "Ext2BlockExists sb block" "block_used (disk_of stored s) d sb block"
  shows "answers (Ext2FreeBlock (Some d) block) d s"
proof -
  let ?D = "disk_of stored s" and ?g = "block_group sb block" and ?i = "block_index sb block"
  have vol: "volume s = Some sb" and lay: "layout ?D d sb" and ro: "\<not> sb_read_only sb"
    using assms(2,3) by (simp_all add: volume_ok_for_def healthy_def)
  note R = block_in_range [OF lay assms(4)]
  have "answers (ext2_then (Ext2ReadGroupDescriptor (Some d) ?g True) (freed_slot d ?i)) d s"
  proof (rule descriptor_then_answers [OF assms(1-3) R(1)])
    fix s' assume S: "serving d s'" "still d s s'"
    have same: "disk_of stored s' = ?D" using S(2) by (simp add: still_def)
    let ?v = "descriptor ?D d sb ?g"
    have B: "gd_block_bitmap ?v = bitmap_of (disk_of stored s') d sb False ?g" by (simp add: bitmap_of_def same)
    show "answers (freed_slot d ?i ?v) d s'" unfolding freed_slot_def B
      by (rule slot_answers [OF S(1) volume_ok_still [OF assms(2) S(2)] healthy_still [OF assms(3) S(2)] R])
        (use assms(5) in \<open>auto simp: same block_used_def\<close>)
  qed
  moreover have "Ext2FreeBlock (Some d) block s = ext2_then (Ext2ReadGroupDescriptor (Some d) ?g True) (freed_slot d ?i) s"
    using vol ro assms(4)
    by (simp add: Ext2FreeBlock_def ext2_then_def [of Ext2Writable] ext2_then_def [of "Ext2BlockPosition block"] Ext2Writable_def ext2_done_def
        Ext2BlockPosition_def Let_def block_group_def block_index_def freed_slot_def [abs_def])
  ultimately show ?thesis by (simp add: answers_def)
qed

subsection \<open>Inodes\<close>

text \<open>The inodes of the filesystem's own marked, as the tools that make a volume leave them.\<close>

lemma unreserved:
  assumes "layout D d sb" "g < sb_group_count sb" "i < sb_inodes_per_group sb" "\<not> marked D d sb True g (unat i)"
    and "\<And>n. inode_exists sb n \<Longrightarrow> n < sb_first_inode sb \<Longrightarrow> inode_used D d sb n"
  shows "\<not> g * sb_inodes_per_group sb + i + 1 < sb_first_inode sb"
proof -
  have geo: "geometry sb" and inodes: "unat (sb_inode_count sb) = unat (sb_group_count sb) * unat (sb_inodes_per_group sb)"
    using assms(1) unfolding layout_def by blast+
  note N = group_inodes [OF geo inodes assms(2,3)]
  show ?thesis using N assms(4) assms(5) [of "g * sb_inodes_per_group sb + i + 1"] by (auto simp: inode_used_def inode_exists_def)
qed

lemma AllocateInodeFrom_answers:
  assumes "serving d s" "volume_ok d sb s" "healthy (disk_of stored s) d sb"
    and "\<And>g. g < sb_group_count sb \<Longrightarrow> gd_free_inode_count (descriptor (disk_of stored s) d sb g) \<noteq> 0 \<Longrightarrow> free_places (disk_of stored s) d sb True g \<noteq> {}"
    and "\<And>n. inode_exists sb n \<Longrightarrow> n < sb_first_inode sb \<Longrightarrow> inode_used (disk_of stored s) d sb n"
    and "\<And>g. g \<in> set gs \<Longrightarrow> word_of_nat g < sb_group_count sb"
    and "a \<in> set gs" "gd_free_inode_count (descriptor (disk_of stored s) d sb (word_of_nat a)) \<noteq> 0"
  shows "answers (AllocateInodeFrom d directory gs) d s"
  using assms
proof (induction gs arbitrary: s)
  case Nil
  then show ?case by simp
next
  case (Cons group gs)
  let ?g = "word_of_nat group :: u32" and ?D = "disk_of stored s"
  let ?v = "descriptor ?D d sb ?g"
  have vol: "volume s = Some sb" and lay: "layout ?D d sb" using Cons.prems(2) by (simp_all add: volume_ok_for_def)
  have geo: "geometry sb" by (rule layout_geometry [OF lay])
  have g: "?g < sb_group_count sb" using Cons.prems(6) by simp
  let ?found = "\<lambda>v index. let candidate = ?g * sb_inodes_per_group sb + index + 1
          in if candidate < sb_first_inode sb then AllocateInodeFrom d directory gs else TakeInode d candidate directory v index"
  let ?find = "\<lambda>v. if gd_free_inode_count v = 0 then AllocateInodeFrom d directory gs
      else ext2_then (Ext2BitmapFindFree d (gd_inode_bitmap v) (sb_inodes_per_group sb)) (\<lambda>found. case found of
        None \<Rightarrow> Ext2WriteRefuse ''a group's free count disagrees with its inode bitmap'' | Some index \<Rightarrow> ?found v index)"
  have "answers (ext2_then (Ext2ReadGroupDescriptor (Some d) ?g True) ?find) d s"
  proof (rule descriptor_then_answers [OF Cons.prems(1-3) g])
    fix s' assume S: "serving d s'" "still d s s'"
    have same: "disk_of stored s' = ?D" using S(2) by (simp add: still_def)
    note ok' = volume_ok_still [OF Cons.prems(2) S(2)] and H = healthy_still [OF Cons.prems(3) S(2)]
    show "answers (?find ?v) d s'"
    proof (cases "gd_free_inode_count ?v = 0")
      case True
      then have "a \<in> set gs" using Cons.prems(7,8) by auto
      then have "answers (AllocateInodeFrom d directory gs) d s'"
        by (intro Cons.IH [OF S(1) ok' H]) (use Cons.prems(4-6,8) in \<open>simp_all add: same\<close>)
      then show ?thesis unfolding if_P [OF True] .
    next
      case False
      have B: "gd_inode_bitmap ?v = bitmap_of (disk_of stored s') d sb True ?g" by (simp add: bitmap_of_def same)
      have "answers (ext2_then (Ext2BitmapFindFree d (bitmap_of (disk_of stored s') d sb True ?g) (if True then sb_inodes_per_group sb else Ext2GroupBlockCount sb ?g))
        (\<lambda>found. case found of None \<Rightarrow> Ext2WriteRefuse ''a group's free count disagrees with its inode bitmap'' | Some index \<Rightarrow> ?found ?v index)) d s'"
      proof (rule find_then_answers [OF S(1) ok' H g])
        fix t index assume T: "serving d t" "still d s' t" "index < (if True then sb_inodes_per_group sb else Ext2GroupBlockCount sb ?g)"
          "\<not> marked (disk_of stored s') d sb True ?g (unat index)"
        have D: "disk_of stored t = ?D" using T(2) same by (simp add: still_def)
        have i: "index < sb_inodes_per_group sb" "\<not> marked ?D d sb True ?g (unat index)" using T(3,4) same by simp_all
        let ?candidate = "?g * sb_inodes_per_group sb + index + 1"
        have "\<not> ?candidate < sb_first_inode sb" by (rule unreserved [OF lay g i Cons.prems(5)])
        moreover have "answers (TakeInode d ?candidate directory ?v index) d t"
        proof -
          have B': "gd_inode_bitmap ?v = bitmap_of (disk_of stored t) d sb True ?g" by (simp add: bitmap_of_def D)
          show ?thesis unfolding TakeInode_def Let_def B' inode_accounted_def [unfolded Let_def, symmetric]
            by (rule slot_answers [OF T(1) volume_ok_still [OF ok' T(2)] healthy_still [OF H T(2)] g within_bitmap(3) [OF geo i(1)]])
              (use i(2) in \<open>auto simp: D\<close>)
        qed
        ultimately show "answers (?found ?v index) d t" by (simp add: Let_def)
      qed (use Cons.prems(4) [OF g False] same in simp)
      then show ?thesis unfolding if_not_P [OF False] B by simp
    qed
  qed
  then show ?case by (simp only: answers_def AllocateInodeFrom.simps Let_def vol option.sel)
qed

lemma Ext2AllocateInode_answers:
  assumes "serving d s" "volume_ok d sb s" "healthy (disk_of stored s) d sb" "exact_counts (disk_of stored s) d sb"
    and "free_inodes (disk_of stored s) d sb \<noteq> {}"
    and "\<And>n. inode_exists sb n \<Longrightarrow> n < sb_first_inode sb \<Longrightarrow> inode_used (disk_of stored s) d sb n"
  shows "answers (Ext2AllocateInode (Some d) directory True) d s"
proof -
  let ?D = "disk_of stored s"
  have vol: "volume s = Some sb" and lay: "layout ?D d sb" and ro: "\<not> sb_read_only sb"
    using assms(2,3) by (simp_all add: volume_ok_for_def healthy_def)
  note geo = layout_geometry [OF lay]
  have count: "sb_free_inode_count sb \<noteq> 0" using exact_countsD(4) [OF assms(4)] assms(5) by (auto simp: word_unat_eq_iff)
  obtain n where n: "inode_exists sb n" "\<not> inode_used ?D d sb n" using assms(5) by (auto simp: free_inodes_def)
  have g: "inode_group sb n < sb_group_count sb" by (rule layout_groups(3) [OF lay n(1)])
  have "inode_index sb n < sb_inodes_per_group sb" using inode_place(2) [OF geo, of n] n(1) by (simp add: inode_exists_def)
  then have "unat (inode_index sb n) \<in> free_places ?D d sb True (inode_group sb n)"
    using n(2) by (simp add: free_places_def inode_used_def word_less_nat_alt)
  then have free: "gd_free_inode_count (descriptor ?D d sb (inode_group sb n)) \<noteq> 0" using exact_free_places(2) [OF assms(4) g] by blast
  have small: "word_of_nat a < sb_group_count sb" if "a < unat (sb_group_count sb)" for a
  proof -
    have "a < 2 ^ 32" using that unsigned_less [of "sb_group_count sb", where 'a = nat] by simp
    then show ?thesis using that by (simp add: word_less_nat_alt unat_of_nat take_bit_nat_eq_self)
  qed
  have "answers (AllocateInodeFrom d directory [0..<unat (sb_group_count sb)]) d s"
    by (rule AllocateInodeFrom_answers [OF assms(1-3) _ assms(6), where a = "unat (inode_group sb n)"])
      (use exact_free_places(2) [OF assms(4)] free g small in \<open>auto simp: word_less_nat_alt\<close>)
  moreover have "Ext2AllocateInode (Some d) directory True s = AllocateInodeFrom d directory [0..<unat (sb_group_count sb)] s"
    using vol ro count by (simp add: Ext2AllocateInode_def ext2_then_def Ext2Writable_def ext2_done_def)
  ultimately show ?thesis by (simp add: answers_def)
qed

lemma Ext2FreeInode_answers:
  assumes "serving d s" "volume_ok d sb s" "healthy (disk_of stored s) d sb" "inode_exists sb number" "inode_used (disk_of stored s) d sb number"
    and "sb_first_inode sb \<le> number"
  shows "answers (Ext2FreeInode (Some d) number directory) d s"
proof -
  let ?D = "disk_of stored s" and ?g = "inode_group sb number" and ?i = "inode_index sb number"
  have vol: "volume s = Some sb" and lay: "layout ?D d sb" and ro: "\<not> sb_read_only sb"
    using assms(2,3) by (simp_all add: volume_ok_for_def healthy_def)
  note R = inode_in_range [OF lay assms(4)]
  have "answers (ext2_then (Ext2ReadGroupDescriptor (Some d) ?g True) (freed_inode d directory ?i)) d s"
  proof (rule descriptor_then_answers [OF assms(1-3) R(1)])
    fix s' assume S: "serving d s'" "still d s s'"
    have same: "disk_of stored s' = ?D" using S(2) by (simp add: still_def)
    let ?v = "descriptor ?D d sb ?g"
    have B: "gd_inode_bitmap ?v = bitmap_of (disk_of stored s') d sb True ?g" by (simp add: bitmap_of_def same)
    show "answers (freed_inode d directory ?i ?v) d s'" unfolding freed_inode_def B
      by (rule slot_answers [OF S(1) volume_ok_still [OF assms(2) S(2)] healthy_still [OF assms(3) S(2)] R])
        (use assms(5) in \<open>auto simp: same inode_used_def\<close>)
  qed
  moreover have "Ext2FreeInode (Some d) number directory s = ext2_then (Ext2ReadGroupDescriptor (Some d) ?g True) (freed_inode d directory ?i) s"
    using vol ro assms(4,6)
    by (simp add: Ext2FreeInode_def ext2_then_def [of Ext2Writable] Ext2Writable_def ext2_done_def
        Let_def inode_group_def inode_index_def freed_inode_def [abs_def] inode_returned_def inode_exists_def flip: not_le)
  ultimately show ?thesis by (simp add: answers_def)
qed

subsection \<open>Every request served\<close>

lemma runsD: "runs m s P \<Longrightarrow> m s = Some (s', r) \<Longrightarrow> P s' r"
  by (simp add: runs_def)

abbreviation serviceable :: "nat \<Rightarrow> 'w ext2_state \<Rightarrow> bool" where
  "serviceable \<equiv> serviceable_for ops stored extent sound"

lemma serviceableE:
  assumes "serviceable d s" "volume s = Some sb"
  shows "volume_ok d sb s" "exact_counts (disk_of stored s) d sb" "healthy (disk_of stored s) d sb" "serving d s"
proof -
  obtain sb' where E: "idle (cache s)" "volume_ok d sb' s" "exact_counts (disk_of stored s) d sb'" "present (disk_of stored s) d sb'" "healthy (disk_of stored s) d sb'"
    using assms(1) unfolding serviceable_for_def by (elim exE conjE)
  have "sb' = sb" using E(2) assms(2) by (simp add: volume_ok_for_def)
  then show "volume_ok d sb s" "exact_counts (disk_of stored s) d sb" "healthy (disk_of stored s) d sb" "serving d s"
    using E volume_ok_sized [OF E(2)] by (simp_all add: serving_def)
qed

lemma serviceable_changed:
  assumes "volume_ok d sb s" "healthy (disk_of stored s) d sb" "changed d sb s k g i b v sb' s'" "static sb sb'" "accounted ops stored extent sound d s'" "serving d s'"
  defines "w \<equiv> descriptor (disk_of stored s) d sb g"
  assumes "g < sb_group_count sb" "gd_block_bitmap v = gd_block_bitmap w" "gd_inode_bitmap v = gd_inode_bitmap w" "gd_inode_table v = gd_inode_table w"
    and "unat (gd_free_inode_count v) + unat (gd_used_directory_count v) \<le> unat (sb_inodes_per_group sb)"
  shows "serviceable d s'"
proof -
  have vol: "volume s' = Some sb'" and v: "descriptor (disk_of stored s') d sb g = v"
    "\<And>h. h < sb_group_count sb \<Longrightarrow> h \<noteq> g \<Longrightarrow> descriptor (disk_of stored s') d sb h = descriptor (disk_of stored s) d sb h"
    using assms(3) by (simp_all add: changed_def)
  obtain sb2 where "volume_ok d sb2 s'" "exact_counts (disk_of stored s') d sb2" using assms(5) unfolding accounted_def by (elim exE conjE)
  then have E: "volume_ok d sb' s'" "exact_counts (disk_of stored s') d sb'" using vol by (simp_all add: volume_ok_for_def)
  have "healthy (disk_of stored s') d sb'"
    by (rule healthy_changed [OF assms(2,4) E(2) assms(8) v(1)]) (use v(2) assms(9-12) in \<open>simp_all add: w_def\<close>)
  moreover have "idle (cache s')" "present (disk_of stored s') d sb'" using assms(6) vol by (auto simp: serving_def)
  ultimately show ?thesis using E unfolding serviceable_for_def by blast
qed

lemma allocates_block:
  assumes "serviceable d s" "volume s = Some sb" "free_blocks (disk_of stored s) d sb \<noteq> {}"
  shows "\<exists>s' block. Ext2AllocateBlock (Some d) near True s = Some (s', Some block) \<and> block \<in> free_blocks (disk_of stored s) d sb \<and> serviceable d s'"
proof -
  note S = serviceableE [OF assms(1,2)]
  obtain s' block where run: "Ext2AllocateBlock (Some d) near True s = Some (s', Some block)" "serving d s'"
    using Ext2AllocateBlock_answers [OF S(4,1,3,2) assms(3), of near] unfolding answers_def by blast
  note C = runsD [OF Ext2AllocateBlock_counts [OF S(1,2)] run(1)]
  have taken: "block_taken d sb s block s'" using runsD [OF Ext2AllocateBlock_runs [OF S(1)] run(1)] by simp
  obtain g n where T: "g < sb_group_count sb"
    "changed d sb s False g n True ((descriptor (disk_of stored s) d sb g)\<lparr>gd_free_block_count := gd_free_block_count (descriptor (disk_of stored s) d sb g) - 1\<rparr>)
       (sb\<lparr>sb_free_block_count := sb_free_block_count sb - 1\<rparr>) s'"
    using taken unfolding block_taken_def by (elim exE conjE) (rule that)
  have "serviceable d s'"
    by (rule serviceable_changed [OF S(1,3) T(2) static_counts(1) _ run(2) T(1)])
      (use C healthyD(2) [OF S(3) T(1)] in \<open>simp_all add: descriptor_passes_def\<close>)
  then show ?thesis using run(1) C by blast
qed

lemma frees_block:
  assumes "serviceable d s" "volume s = Some sb" "Ext2BlockExists sb block" "block \<notin> free_blocks (disk_of stored s) d sb"
  shows "\<exists>s'. Ext2FreeBlock (Some d) block s = Some (s', Some ()) \<and> serviceable d s'"
proof -
  note S = serviceableE [OF assms(1,2)]
  let ?g = "block_group sb block" and ?i = "block_index sb block"
  have used: "block_used (disk_of stored s) d sb block" using assms(3,4) by (simp add: free_blocks_def)
  obtain s' x where run: "Ext2FreeBlock (Some d) block s = Some (s', Some x)" "serving d s'"
    using Ext2FreeBlock_answers [OF S(4,1,3) assms(3) used] unfolding answers_def by blast
  note C = runsD [OF Ext2FreeBlock_counts [OF S(1,2)] run(1)]
  have T: "?g < sb_group_count sb" "changed d sb s False ?g (unat ?i) False
      ((descriptor (disk_of stored s) d sb ?g)\<lparr>gd_free_block_count := gd_free_block_count (descriptor (disk_of stored s) d sb ?g) + 1\<rparr>)
      (sb\<lparr>sb_free_block_count := sb_free_block_count sb + 1\<rparr>) s'"
    using runsD [OF Ext2FreeBlock_runs [OF S(1)] run(1)] by simp_all
  have "serviceable d s'"
    by (rule serviceable_changed [OF S(1,3) T(2) static_counts(1) _ run(2) T(1)])
      (use C healthyD(2) [OF S(3) T(1)] in \<open>simp_all add: descriptor_passes_def\<close>)
  then show ?thesis using run(1) by simp
qed

lemma allocates_inode:
  assumes "serviceable d s" "volume s = Some sb" "free_inodes (disk_of stored s) d sb \<noteq> {}"
    and "\<And>n. inode_exists sb n \<Longrightarrow> n < sb_first_inode sb \<Longrightarrow> inode_used (disk_of stored s) d sb n"
  shows "\<exists>s' number. Ext2AllocateInode (Some d) directory True s = Some (s', Some number) \<and> number \<in> free_inodes (disk_of stored s) d sb \<and> serviceable d s'"
proof -
  note S = serviceableE [OF assms(1,2)]
  obtain s' number where run: "Ext2AllocateInode (Some d) directory True s = Some (s', Some number)" "serving d s'"
    using Ext2AllocateInode_answers [OF S(4,1,3,2) assms(3,4), of directory] unfolding answers_def by blast
  note C = runsD [OF Ext2AllocateInode_counts [OF S(1,2)] run(1)]
  let ?v = "\<lambda>g. descriptor (disk_of stored s) d sb g"
  have taken: "inode_taken d sb s directory number s'" using runsD [OF Ext2AllocateInode_runs [OF S(1)] run(1)] by simp
  obtain g n where T: "g < sb_group_count sb" "gd_free_inode_count (?v g) \<noteq> 0"
    "changed d sb s True g n True (inode_accounted directory (?v g)) (sb\<lparr>sb_free_inode_count := sb_free_inode_count sb - 1\<rparr>) s'"
    using taken unfolding inode_taken_def by (elim exE conjE) (rule that)
  have fit: "unat (gd_free_inode_count (?v g)) + unat (gd_used_directory_count (?v g)) \<le> unat (sb_inodes_per_group sb)"
    using healthyD(2) [OF S(3) T(1)] by (simp add: descriptor_passes_def)
  have one: "unat (gd_free_inode_count (?v g) - 1) = unat (gd_free_inode_count (?v g)) - 1" "0 < unat (gd_free_inode_count (?v g))"
    using T(2) by (simp_all add: unat_minus_one unat_gt_0)
  have "unat (gd_used_directory_count (?v g) + 1) \<le> unat (gd_used_directory_count (?v g)) + 1" by (simp add: unat_word_ariths)
  then have "unat (gd_free_inode_count (inode_accounted directory (?v g))) + unat (gd_used_directory_count (inode_accounted directory (?v g))) \<le> unat (sb_inodes_per_group sb)"
    using fit one by (cases directory) (simp_all add: inode_accounted_def Let_def)
  then have "serviceable d s'"
    by (intro serviceable_changed [OF S(1,3) T(3) static_counts(2) _ run(2) T(1)]) (use C in simp_all)
  then show ?thesis using run(1) C by blast
qed

text \<open>
  An inode is released by a caller that says whether it was a directory.  The word is kept where
  it agrees with the count of directories of the group: some are counted, or not every inode in
  use is.
\<close>

lemma frees_inode:
  assumes "serviceable d s" "volume s = Some sb" "inode_exists sb number" "sb_first_inode sb \<le> number" "number \<notin> free_inodes (disk_of stored s) d sb"
  shows "\<exists>s'. Ext2FreeInode (Some d) number directory s = Some (s', Some ()) \<and>
    (told_truly sb (descriptor (disk_of stored s) d sb (inode_group sb number)) directory \<longrightarrow> serviceable d s')"
proof -
  note S = serviceableE [OF assms(1,2)]
  let ?g = "inode_group sb number" and ?i = "inode_index sb number"
  let ?v = "descriptor (disk_of stored s) d sb ?g"
  have used: "inode_used (disk_of stored s) d sb number" using assms(3,5) by (simp add: free_inodes_def)
  obtain s' x where run: "Ext2FreeInode (Some d) number directory s = Some (s', Some x)" "serving d s'"
    using Ext2FreeInode_answers [OF S(4,1,3) assms(3) used assms(4), of directory] unfolding answers_def by blast
  note C = runsD [OF Ext2FreeInode_counts [OF S(1,2)] run(1)]
  have T: "?g < sb_group_count sb" "changed d sb s True ?g (unat ?i) False (inode_returned directory ?v)
      (sb\<lparr>sb_free_inode_count := sb_free_inode_count sb + 1\<rparr>) s'"
    using runsD [OF Ext2FreeInode_runs [OF S(1)] run(1)] by simp_all
  have "serviceable d s'" if told: "told_truly sb ?v directory"
  proof -
    have fit: "unat (gd_free_inode_count ?v) + unat (gd_used_directory_count ?v) \<le> unat (sb_inodes_per_group sb)"
      using healthyD(2) [OF S(3) T(1)] by (simp add: descriptor_passes_def)
    have one: "unat (gd_free_inode_count ?v + 1) \<le> unat (gd_free_inode_count ?v) + 1" by (simp add: unat_word_ariths)
    have "unat (gd_used_directory_count ?v - 1) + 1 = unat (gd_used_directory_count ?v)" if "gd_used_directory_count ?v \<noteq> 0"
      using that by (simp add: unat_minus_one unat_gt_0 Suc_leI)
    then have "unat (gd_free_inode_count (inode_returned directory ?v)) + unat (gd_used_directory_count (inode_returned directory ?v)) \<le> unat (sb_inodes_per_group sb)"
      using fit one told by (auto simp: inode_returned_def told_truly_def Let_def word_neq_0_conv split: if_splits)
    moreover have "gd_block_bitmap (inode_returned directory ?v) = gd_block_bitmap ?v" "gd_inode_bitmap (inode_returned directory ?v) = gd_inode_bitmap ?v"
      "gd_inode_table (inode_returned directory ?v) = gd_inode_table ?v"
      by (simp_all add: inode_returned_def Let_def)
    ultimately show ?thesis
      by (intro serviceable_changed [OF S(1,3) T(2) static_counts(2) _ run(2) T(1)]) (use C in simp_all)
  qed
  then show ?thesis using run(1) by simp
qed

end

end
