(* ===== verification/Ext2Properties.thy ===== *)
theory Ext2Properties
  imports Ext2History Ext2Service BufferProperties
begin

text \<open>
  The properties of the second extended filesystem's allocator (\<open>kernel/fs/ext2\<close>), upon the buffer
  cache and any driver that keeps its contract, applied to a volume of twelve blocks in memory.
\<close>

subsection \<open>A small volume\<close>

text \<open>Block 1 holds the superblock, 2 the one descriptor, 3 and 4 the bitmaps, 5 and 6 the inodes.\<close>

definition specimen_bytes :: "u64 \<Rightarrow> u8" where
  "specimen_bytes = (\<lambda>_. 0)(0x200800 := 3, 0x200804 := 4, 0x200808 := 5, 0x20080C := 5, 0x20080E := 6, 0x200810 := 1,
     0x200C00 := 0x3F, 0x201000 := 0xFF, 0x201001 := 0x03)"

definition specimen_volume_disk :: "ramdisk_state block_state" where
  "specimen_volume_disk = specimen_disk
     \<lparr>BlockDevices := [(BlockDevices specimen_disk ! 0)\<lparr>block_count := 24\<rparr>],
      world := \<lparr>memory = specimen_bytes, RamdiskBase = 0x200000, RamdiskLength = 12288\<rparr>\<rparr>"

definition specimen_superblock :: Ext2Superblock where
  "specimen_superblock =
     \<lparr>sb_inode_count = 16, sb_block_count = 12, sb_reserved_block_count = 0, sb_free_block_count = 5, sb_free_inode_count = 6,
      sb_first_data_block = 1, sb_block_size = 1024, sb_fragment_size = 1024, sb_blocks_per_group = 8192, sb_fragments_per_group = 8192,
      sb_inodes_per_group = 16, sb_mount_time = 0, sb_write_time = 0, sb_mount_count = 0, sb_maximum_mount_count = 20,
      sb_magic = 0xEF53, sb_state = 1, sb_errors = 1, sb_minor_revision = 0, sb_last_check = 0, sb_check_interval = 0,
      sb_creator_os = 0, sb_revision = 0, sb_default_uid = 0, sb_default_gid = 0, sb_first_inode = 11, sb_inode_size = 128,
      sb_block_group_number = 0, sb_feature_compatible = 0, sb_feature_incompatible = 0, sb_feature_read_only = 0,
      sb_uuid = replicate 16 0, sb_volume_name = [0], sb_last_mounted = [0], sb_group_count = 1, sb_sectors_per_block = 2,
      sb_read_only = False\<rparr>"

definition specimen_volume :: "ramdisk_state ext2_state" where
  "specimen_volume =
     \<lparr>cache = fst (BufferInitialise (Some (replicate 32768 0)) (specimen_unstarted\<lparr>block_layer := specimen_volume_disk\<rparr>)),
      volume = Some specimen_superblock, Ext2Error = [], Ext2Read = 0, Ext2Refused = 0, Ext2GroupsReadCount = 0,
      Ext2GroupsRefusedCount = 0, Ext2InodesReadCount = 0, Ext2InodesRefusedCount = 0, Ext2FilesReadCount = 0,
      Ext2BytesReadCount = 0, Ext2ReadsRefusedCount = 0, Ext2BlocksAllocatedCount = 0, Ext2BlocksFreedCount = 0,
      Ext2InodesAllocatedCount = 0, Ext2InodesFreedCount = 0, Ext2WritesRefusedCount = 0\<rparr>"

abbreviation ramdisk_volume_ok :: "nat \<Rightarrow> Ext2Superblock \<Rightarrow> ramdisk_state ext2_state \<Rightarrow> bool" where
  "ramdisk_volume_ok \<equiv> volume_ok_for RamdiskOperations ramdisk_block ramdisk_extent ramdisk_sound"

lemma specimen_volume_cache:
  "disk_cache_ok (cache specimen_volume)" "block_layer (cache specimen_volume) = specimen_volume_disk"
  "i < 64 \<Longrightarrow> \<not> buffer_valid (BufferTable (cache specimen_volume) ! i)" "idle (cache specimen_volume)"
proof -
  let ?c = "specimen_unstarted\<lparr>block_layer := specimen_volume_disk\<rparr>"
  obtain c' ok where run: "BufferInitialise (Some (replicate 32768 0)) ?c = (c', ok)" by fastforce
  have un: "unstarted ?c" using specimen_unstarted(1) by (simp add: unstarted_def shape_def)
  have dev: "devices_ok_for RamdiskOperations ramdisk_extent ramdisk_sound (block_layer ?c)"
    by (simp add: specimen_volume_disk_def specimen_disk_def devices_ok_for_def driven_def ramdisk_sound_def ramdisk_extent_def RamdiskOperations_def)
  note I = BufferInitialise_effect [OF un _ dev run]
  have c': "cache specimen_volume = c'" using run by (simp add: specimen_volume_def)
  show "disk_cache_ok (cache specimen_volume)" "block_layer (cache specimen_volume) = specimen_volume_disk"
    unfolding c' using I(2,3) by simp_all
  show "i < 64 \<Longrightarrow> \<not> buffer_valid (BufferTable (cache specimen_volume) ! i)" unfolding c' using I(4) by simp
  have "disk_cache_ok c'" using I(2) by simp
  then have "length (BufferTable c') = 64" unfolding cache_ok_for_def data_ok_def by blast
  then have "references c' = replicate 64 0" using I(4) by (intro nth_equalityI) (simp_all add: references_def)
  then show "idle (cache specimen_volume)" unfolding c' idle_def using I(3,5)
    by (simp add: specimen_volume_disk_def specimen_disk_def)
qed

abbreviation "specimen_content \<equiv> disk_of ramdisk_block specimen_volume"

lemma specimen_content:
  assumes "p < 12288"
  shows "specimen_content 0 p = Some (specimen_bytes (0x200000 + p))"
proof -
  let ?c = "cache specimen_volume" and ?b = "p div 512"
  have b: "unat ?b < 24" using assms by (simp add: unat_div_512 word_less_nat_alt) 
  then have on: "on_device (block_layer ?c) 0 ?b"
    by (simp add: on_device_def driven_def specimen_volume_cache specimen_volume_disk_def specimen_disk_def word_less_nat_alt)
  have "\<not> holds (BufferTable ?c ! i) 0 ?b" if "i < 64" for i using specimen_volume_cache(3) [OF that] by (simp add: holds_def)
  then have "cached_view ramdisk_block ?c 0 ?b = content_of ramdisk_block (block_layer ?c) 0 ?b" unfolding cached_view_def by (rule view_absent)
  then have "cached_view ramdisk_block ?c 0 ?b = map (\<lambda>i. specimen_bytes (0x200000 + ?b * 512 + word_of_nat i)) [0..<512]"
    by (simp add: content_of_def specimen_volume_cache specimen_volume_disk_def specimen_disk_def ramdisk_block_def)
  moreover have "?b * 512 + word_of_nat (unat (p mod 512)) = p" by (simp add: word_mod_div_equality)
  moreover have "unat (p mod 512) < 512" by (simp add: unat_div_512)
  ultimately show ?thesis using on by (simp add: disk_of_def disk_def cached_map_def add.assoc)
qed

lemma specimen_byte:
  assumes "block < 12" "i < 1024"
  shows "byte_at specimen_content 0 specimen_superblock block i = Some (specimen_bytes (0x200000 + ucast block * 1024 + word_of_nat i))"
proof -
  have size: "sb_block_size specimen_superblock = 1024" by (simp add: specimen_superblock_def)
  have s: "sized specimen_superblock" by (simp add: sized_def size)
  have "unat (place specimen_superblock block i) = unat block * 1024 + i" using unat_place(1) [OF s, of i block] assms(2) by (simp add: size)
  moreover have "unat block < 12" using assms(1) by (simp add: word_less_nat_alt)
  ultimately have "place specimen_superblock block i < 12288" using assms(2) by (simp add: word_less_nat_alt)
  then show ?thesis by (simp add: byte_at_def specimen_content) (simp add: place_def size add.assoc)
qed

lemma specimen_descriptor:
  "descriptor specimen_content 0 specimen_superblock 0 =
     \<lparr>gd_group = 0, gd_block_bitmap = 3, gd_inode_bitmap = 4, gd_inode_table = 5, gd_free_block_count = 5, gd_free_inode_count = 6, gd_used_directory_count = 1\<rparr>"
proof -
  have block: "descriptor_block specimen_superblock 0 = 2" "descriptor_offset specimen_superblock 0 = 0"
    by (simp_all add: descriptor_block_def descriptor_offset_def Ext2GroupDescriptorBlock_def specimen_superblock_def)
  have at: "descriptor_raw specimen_content 0 specimen_superblock 0 ! i = specimen_bytes (0x200800 + word_of_nat i)" if "i < 32" for i
    using that specimen_byte [of 2 i] by (simp add: descriptor_raw_def run_at_def block)
  have "descriptor_raw specimen_content 0 specimen_superblock 0 ! i = (if i = 0 then 3 else if i = 4 then 4 else if i = 8 then 5 else
      if i = 12 then 5 else if i = 14 then 6 else if i = 16 then 1 else 0)" if "i < 18" for i
  proof -
    have "i \<in> {0, 1, 2, 3, 4, 5, 6, 7, 8, 9, 10, 11, 12, 13, 14, 15, 16, 17}" using that by (simp only: insert_iff empty_iff) presburger
    then show ?thesis using at [of i] by (elim insertE) (simp_all add: specimen_bytes_def)
  qed
  then show ?thesis by (simp add: descriptor_def ParsedDescriptor_def Ext2ReadWord_def Ext2ReadHalf_def)
qed

lemma specimen_bitmaps: "bitmap_of specimen_content 0 specimen_superblock k 0 = (if k then 4 else 3)"
  by (simp add: bitmap_of_def specimen_descriptor)

lemma specimen_groups: "g < sb_group_count specimen_superblock \<longleftrightarrow> g = 0"
  by (simp add: specimen_superblock_def)

lemma specimen_layout: "layout specimen_content 0 specimen_superblock"
proof -
  have geo: "geometry specimen_superblock" by (simp add: geometry_def specimen_superblock_def Ext2DivideRoundingUp_def)
  have "descriptor_block specimen_superblock 0 = 2" "superblock_block specimen_superblock = 1"
    by (simp_all add: descriptor_block_def Ext2GroupDescriptorBlock_def superblock_block_def EXT2_SUPERBLOCK_OFFSET_def specimen_superblock_def)
  moreover have "unat (sb_inode_count specimen_superblock) = unat (sb_group_count specimen_superblock) * unat (sb_inodes_per_group specimen_superblock)"
    by (simp add: specimen_superblock_def)
  ultimately show ?thesis unfolding layout_def specimen_groups using geo by (auto simp: specimen_bitmaps split: if_splits)
qed

lemma specimen_volume: "ramdisk_volume_ok 0 specimen_superblock specimen_volume"
  using specimen_volume_cache specimen_layout
  by (simp add: volume_ok_for_def ext2_ok_for_def specimen_volume_disk_def specimen_disk_def) (simp add: specimen_volume_def)

text \<open>The bits of its bitmaps.\<close>

lemma specimen_marked:
  assumes "i < 16"
  shows "marked specimen_content 0 specimen_superblock k 0 i \<longleftrightarrow> (if k then i < 10 else i < 6)"
proof -
  have byte: "byte_at specimen_content 0 specimen_superblock (if k then 4 else 3) (i div 8) =
      Some (if k then if i div 8 = 0 then 0xFF else 3 else if i div 8 = 0 then 0x3F else 0)"
  proof -
    have "i div 8 = 0 \<or> i div 8 = 1" using assms by linarith
    then show ?thesis using specimen_byte [of "if k then 4 else 3" "i div 8"] by (cases k) (auto simp: specimen_bytes_def)
  qed
  have "i \<in> {0, 1, 2, 3, 4, 5, 6, 7, 8, 9, 10, 11, 12, 13, 14, 15}" using assms by (simp only: insert_iff empty_iff) presburger
  then show ?thesis using byte unfolding marked_def bit_at_def specimen_bitmaps
    by (cases k; elim insertE) (simp_all add: bit_numeral_rec)
qed

lemma specimen_block_used:
  assumes "Ext2BlockExists specimen_superblock block"
  shows "1 \<le> unat block \<and> unat block < 12" "block_used specimen_content 0 specimen_superblock block \<longleftrightarrow> unat block \<le> 6"
proof -
  show b: "1 \<le> unat block \<and> unat block < 12"
    using assms by (simp add: Ext2BlockExists_def specimen_superblock_def word_le_nat_alt word_less_nat_alt)
  have small: "unat block - Suc 0 < 8192" using b by linarith
  have "unat (block - 1) = unat block - 1" using b by (intro unat_minus_one) auto
  then have "block_group specimen_superblock block = 0" "unat (block_index specimen_superblock block) = unat block - 1"
    using small div_less [OF small] mod_less [OF small]
    by (simp_all add: block_group_def block_index_def specimen_superblock_def word_unat_eq_iff unat_div unat_mod)
  then show "block_used specimen_content 0 specimen_superblock block \<longleftrightarrow> unat block \<le> 6"
    using b specimen_marked [of "unat block - 1" False] by (simp add: block_used_def) linarith
qed

lemma specimen_inode_used:
  assumes "inode_exists specimen_superblock number"
  shows "1 \<le> unat number \<and> unat number \<le> 16" "inode_used specimen_content 0 specimen_superblock number \<longleftrightarrow> unat number \<le> 10"
proof -
  have "0 < unat number" using assms by (simp add: inode_exists_def unat_gt_0)
  then show n: "1 \<le> unat number \<and> unat number \<le> 16" using assms by (simp add: inode_exists_def specimen_superblock_def word_le_nat_alt)
  have small: "unat number - Suc 0 < 16" using n by linarith
  have "unat (number - 1) = unat number - 1" using n by (intro unat_minus_one) auto
  then have "inode_group specimen_superblock number = 0" "unat (inode_index specimen_superblock number) = unat number - 1"
    using small div_less [OF small] mod_less [OF small]
    by (simp_all add: inode_group_def inode_index_def specimen_superblock_def word_unat_eq_iff unat_div unat_mod)
  then show "inode_used specimen_content 0 specimen_superblock number \<longleftrightarrow> unat number \<le> 10"
    using n specimen_marked [of "unat number - 1" True] by (simp add: inode_used_def) linarith
qed

lemma specimen_metadata:
  "metadata specimen_content 0 specimen_superblock block \<longleftrightarrow> block \<in> {1, 2, 3, 4}"
proof -
  have "descriptor_block specimen_superblock 0 = 2" "superblock_block specimen_superblock = 1"
    by (simp_all add: descriptor_block_def Ext2GroupDescriptorBlock_def superblock_block_def EXT2_SUPERBLOCK_OFFSET_def specimen_superblock_def)
  then show ?thesis by (auto simp: metadata_def specimen_groups specimen_bitmaps)
qed

lemma specimen_metadata_marked: "metadata_marked specimen_content 0 specimen_superblock"
  unfolding metadata_marked_def specimen_metadata using specimen_block_used(2) by auto

lemma specimen_exact: "exact_counts specimen_content 0 specimen_superblock"
proof -
  have sizes: "unat (Ext2GroupBlockCount specimen_superblock 0) = 11" "unat (sb_inodes_per_group specimen_superblock) = 16"
    by (simp_all add: Ext2GroupBlockCount_def Ext2GroupFirstBlock_def specimen_superblock_def)
  have "free_places specimen_content 0 specimen_superblock k 0 = (if k then {10..<16} else {6..<11})" for k
    unfolding free_places_def using sizes specimen_marked by (cases k) auto
  moreover have "free_blocks specimen_content 0 specimen_superblock = word_of_nat ` {7..<12}"
  proof (intro set_eqI iffI)
    fix x assume "x \<in> free_blocks specimen_content 0 specimen_superblock"
    then have "unat x \<in> {7..<12}" using specimen_block_used [of x] by (auto simp: free_blocks_def)
    then show "x \<in> word_of_nat ` {7..<12}" by (intro image_eqI [of _ _ "unat x"]) simp_all
  next
    fix x :: u32 assume "x \<in> word_of_nat ` {7..<12}"
    then have x: "7 \<le> unat x" "unat x < 12" by (auto simp: unat_of_nat take_bit_nat_eq_self)
    then have "Ext2BlockExists specimen_superblock x" by (simp add: Ext2BlockExists_def specimen_superblock_def word_le_nat_alt word_less_nat_alt)
    then show "x \<in> free_blocks specimen_content 0 specimen_superblock" using specimen_block_used(2) [of x] x by (simp add: free_blocks_def)
  qed
  moreover have "free_inodes specimen_content 0 specimen_superblock = word_of_nat ` {11..<17}"
  proof (intro set_eqI iffI)
    fix x assume "x \<in> free_inodes specimen_content 0 specimen_superblock"
    then have "unat x \<in> {11..<17}" using specimen_inode_used [of x] by (auto simp: free_inodes_def)
    then show "x \<in> word_of_nat ` {11..<17}" by (intro image_eqI [of _ _ "unat x"]) simp_all
  next
    fix x :: u32 assume "x \<in> word_of_nat ` {11..<17}"
    then have x: "11 \<le> unat x" "unat x < 17" by (auto simp: unat_of_nat take_bit_nat_eq_self)
    then have "inode_exists specimen_superblock x" by (auto simp: inode_exists_def specimen_superblock_def word_le_nat_alt)
    then show "x \<in> free_inodes specimen_content 0 specimen_superblock" using specimen_inode_used(2) [of x] x by (simp add: free_inodes_def)
  qed
  moreover have "card (word_of_nat ` {a..<b} :: u32 set) = b - a" if "b < 2 ^ 32" for a b
  proof -
    have "inj_on (word_of_nat :: nat \<Rightarrow> u32) {a..<b}" using that by (intro inj_onI) (auto simp: word_of_nat_eq_iff take_bit_nat_eq_self)
    then show ?thesis by (simp add: card_image)
  qed
  ultimately show ?thesis
    by (simp add: exact_counts_def specimen_groups specimen_descriptor) (simp add: specimen_superblock_def)
qed

lemma specimen_present: "present specimen_content 0 specimen_superblock"
  unfolding present_def using specimen_byte by (auto simp: specimen_superblock_def)

lemma specimen_healthy: "healthy specimen_content 0 specimen_superblock"
proof -
  have "descriptor_passes specimen_superblock (descriptor specimen_content 0 specimen_superblock 0)"
    unfolding specimen_descriptor
    by (simp add: descriptor_passes_def Ext2GroupBlockCount_def Ext2GroupFirstBlock_def Ext2InodeTableBlocks_def Ext2BlockExists_def
        Ext2DivideRoundingUp_def specimen_superblock_def)
  moreover have "descriptor_block specimen_superblock 0 < sb_block_count specimen_superblock" "\<not> sb_read_only specimen_superblock"
    "Ext2GroupDescriptorBlock specimen_superblock + Ext2GroupDescriptorBlocks specimen_superblock \<le> sb_block_count specimen_superblock"
    by (simp_all add: descriptor_block_def Ext2GroupDescriptorBlock_def Ext2GroupDescriptorBlocks_def Ext2DivideRoundingUp_def
        EXT2_GROUP_DESCRIPTOR_SIZE_def specimen_superblock_def)
  ultimately show ?thesis by (simp add: healthy_def specimen_groups)
qed

abbreviation ramdisk_serviceable :: "nat \<Rightarrow> ramdisk_state ext2_state \<Rightarrow> bool" where
  "ramdisk_serviceable \<equiv> serviceable_for RamdiskOperations ramdisk_block ramdisk_extent ramdisk_sound"

lemma specimen_serviceable: "ramdisk_serviceable 0 specimen_volume"
  unfolding serviceable_for_def using specimen_volume specimen_exact specimen_present specimen_healthy specimen_volume_cache(4) by blast

lemma specimen_volume_superblock: "volume specimen_volume = Some specimen_superblock"
  by (simp add: specimen_volume_def)

lemma specimen_free: "free_blocks specimen_content 0 specimen_superblock \<noteq> {}" "free_inodes specimen_content 0 specimen_superblock \<noteq> {}"
proof -
  have "9 \<in> free_blocks specimen_content 0 specimen_superblock"
    using specimen_block_used(2) [of 9] by (simp add: free_blocks_def Ext2BlockExists_def) (simp add: specimen_superblock_def)
  moreover have "12 \<in> free_inodes specimen_content 0 specimen_superblock"
    using specimen_inode_used(2) [of 12] by (simp add: free_inodes_def inode_exists_def) (simp add: specimen_superblock_def)
  ultimately show "free_blocks specimen_content 0 specimen_superblock \<noteq> {}" "free_inodes specimen_content 0 specimen_superblock \<noteq> {}" by blast+
qed

text \<open>A block taken from the small volume, and a second one.\<close>

lemma specimen_takes:
  "\<exists>s block. Ext2AllocateBlock (Some 0) near True specimen_volume = Some (s, Some block) \<and> ramdisk_serviceable 0 s \<and>
     block \<in> free_blocks specimen_content 0 specimen_superblock \<and> reaches 0 (specimen_volume, {}, {}) (s, {block}, {})"
proof -
  obtain s block where A: "Ext2AllocateBlock (Some 0) near True specimen_volume = Some (s, Some block)"
    "block \<in> free_blocks specimen_content 0 specimen_superblock" "ramdisk_serviceable 0 s"
    using prompt_driver.allocates_block [OF prompt_ramdisk.prompt_driver_axioms specimen_serviceable specimen_volume_superblock specimen_free(1), of near] by blast
  have "volume_step 0 (TakesBlock near) (specimen_volume, {}, {}) (s, {} \<union> set_option (Some block), {})" by (rule takes_block [OF A(1)])
  then have "reaches 0 (specimen_volume, {}, {}) (s, {block}, {})" unfolding reaches_def by auto
  then show ?thesis using A by blast
qed

lemma specimen_reserved:
  "inode_exists specimen_superblock n \<Longrightarrow> n < sb_first_inode specimen_superblock \<Longrightarrow> inode_used specimen_content 0 specimen_superblock n"
  using specimen_inode_used(2) [of n] by (simp add: specimen_superblock_def word_less_nat_alt)

lemma specimen_after:
  assumes "Ext2AllocateBlock (Some 0) near True specimen_volume = Some (s, Some block)" "volume s = Some sb"
  shows "static specimen_superblock sb"
proof -
  have "block_driver.block_taken RamdiskOperations ramdisk_block ramdisk_extent ramdisk_sound 0 specimen_superblock specimen_volume block s"
    using block_driver.Ext2AllocateBlock_runs [OF ramdisk.block_driver_axioms specimen_volume, of near] assms(1) by (simp add: runs_def)
  then have "volume s = Some (specimen_superblock\<lparr>sb_free_block_count := sb_free_block_count specimen_superblock - 1\<rparr>)"
    by (auto simp: block_driver.block_taken_def [OF ramdisk.block_driver_axioms] block_driver.changed_def [OF ramdisk.block_driver_axioms])
  then show ?thesis using assms(2) by simp
qed

lemma specimen_second:
  assumes "Ext2AllocateBlock (Some 0) near True specimen_volume = Some (s, Some block)" "volume s = Some sb"
  shows "free_blocks (disk_of ramdisk_block s) 0 sb \<noteq> {}"
proof -
  have free: "free_blocks (disk_of ramdisk_block s) 0 specimen_superblock = free_blocks specimen_content 0 specimen_superblock - {block}"
    using block_driver.Ext2AllocateBlock_counts [OF ramdisk.block_driver_axioms specimen_volume specimen_exact, of near] assms(1) by (simp add: runs_def)
  have "x \<in> free_blocks specimen_content 0 specimen_superblock" if "x \<in> {8, 9}" for x
    using that specimen_block_used(2) [of x] by (auto simp: free_blocks_def Ext2BlockExists_def) (auto simp: specimen_superblock_def)
  then have "8 \<in> free_blocks specimen_content 0 specimen_superblock" "9 \<in> free_blocks specimen_content 0 specimen_superblock" by simp_all
  moreover have "(8 :: u32) \<noteq> 9" by simp
  ultimately have "free_blocks (disk_of ramdisk_block s) 0 specimen_superblock \<noteq> {}" unfolding free by blast
  then show ?thesis using static_view [OF specimen_after [OF assms]] static_fields [OF specimen_after [OF assms]]
    by (simp add: free_blocks_def block_used_def block_group_def block_index_def)
qed

subsection \<open>What is held\<close>

text \<open>C33: No block and no inode is handed out twice.  Over any history of blocks and inodes taken and
  given back, of bytes stored into the blocks held and fetched from any, with allocations and
  releases that fail half way included, a block the allocator yields is one of the volume's, is
  held by nobody, and is no part of the superblock, the descriptors or the bitmaps; an inode it
  yields exists, is not one of the filesystem's own, and is held by nobody.
\<close>

theorem no_block_issued_twice:
  assumes "block_driver ops stored extent sound" "volume_ok_for ops stored extent sound d sb s" "metadata_marked (disk_of stored s) d sb"
    and "reaches d (s, {}, {}) (s', B, I)"
  shows "(Ext2AllocateBlock (Some d) near True s' = Some (t, Some block) \<longrightarrow>
      Ext2BlockExists sb block \<and> block \<notin> B \<and> \<not> metadata (disk_of stored s) d sb block) \<and>
    (Ext2AllocateInode (Some d) directory True s' = Some (u, Some number) \<longrightarrow>
      inode_exists sb number \<and> sb_first_inode sb \<le> number \<and> number \<notin> I)"
proof -
  note H = block_driver.reaches_holds [OF assms(1,4) block_driver.holds_nothing [OF assms(1-3)]]
  show ?thesis
    using block_driver.takes_block_effect(2) [OF assms(1) H, of near t "Some block" block]
      block_driver.takes_inode_effect(2) [OF assms(1) H, of directory u "Some number" number] by auto
qed

theorem no_block_issued_twice_witness:
  "\<exists>s block t second. Ext2AllocateBlock (Some 0) 0 True specimen_volume = Some (s, Some block) \<and>
     Ext2AllocateBlock (Some 0) 0 True s = Some (t, Some second) \<and> second \<noteq> block \<and> second \<notin> {1, 2, 3, 4}"
proof -
  obtain s block where A: "Ext2AllocateBlock (Some 0) 0 True specimen_volume = Some (s, Some block)" "ramdisk_serviceable 0 s"
    "reaches 0 (specimen_volume, {}, {}) (s, {block}, {})" using specimen_takes [of 0] by blast
  obtain sb where vol: "volume s = Some sb" using A(2) by (auto simp: serviceable_for_def volume_ok_for_def)
  obtain t second where B: "Ext2AllocateBlock (Some 0) 0 True s = Some (t, Some second)"
    using prompt_driver.allocates_block [OF prompt_ramdisk.prompt_driver_axioms A(2) vol] specimen_second [OF A(1) vol] by blast
  show ?thesis
    using A(1) B no_block_issued_twice [OF ramdisk.block_driver_axioms specimen_volume specimen_metadata_marked A(3), of 0 t second] specimen_metadata by auto
qed

text \<open>C34: What a client stores in a block it holds stays there.  Whatever is done with the volume, by
  this client or another, every byte of a block held reads as before, unless it is stored into;
  a store that succeeds puts its bytes in their place and leaves the rest of the block.
\<close>

theorem held_blocks_keep_their_bytes:
  assumes "block_driver ops stored extent sound" "volume_ok_for ops stored extent sound d sb s" "metadata_marked (disk_of stored s) d sb"
    and "reaches d (s, {}, {}) (s1, B, I)" "x \<in> B" "i < unat (sb_block_size sb)"
  shows "(volume_step d c (s1, B, I) (s2, B', I') \<longrightarrow> (\<forall>off n source. c \<noteq> Stores x off n source) \<longrightarrow>
      byte_at (disk_of stored s2) d sb x i = byte_at (disk_of stored s1) d sb x i) \<and>
    (Ext2WriteBytes d x off n source s1 = Some (s2, Some ()) \<longrightarrow> unat n \<le> length source \<longrightarrow>
      byte_at (disk_of stored s2) d sb x i =
        (if unat off \<le> i \<and> i < unat off + unat n then Some (source ! (i - unat off)) else byte_at (disk_of stored s1) d sb x i))"
proof -
  note H = block_driver.reaches_holds [OF assms(1,4) block_driver.holds_nothing [OF assms(1-3)]]
  show ?thesis
    using block_driver.volume_step_effect(2) [OF assms(1) _ H assms(5) _ assms(6), of c s2 B' I']
      block_driver.stores_effect(3) [OF assms(1) H _ assms(5) _ _ assms(6), of off n source s2 "Some ()"] by blast
qed

theorem held_blocks_keep_their_bytes_witness:
  "\<exists>s block t. Ext2AllocateBlock (Some 0) 0 True specimen_volume = Some (s, Some block) \<and>
     Ext2WriteBytes 0 block 4 3 [7, 8, 9] s = Some (t, Some ()) \<and>
     byte_at (disk_of ramdisk_block t) 0 specimen_superblock block 5 = Some 8"
proof -
  obtain s block where A: "Ext2AllocateBlock (Some 0) 0 True specimen_volume = Some (s, Some block)" "ramdisk_serviceable 0 s"
    "reaches 0 (specimen_volume, {}, {}) (s, {block}, {})" "block \<in> free_blocks specimen_content 0 specimen_superblock" using specimen_takes [of 0] by blast
  obtain sb where vol: "volume s = Some sb" using A(2) by (auto simp: serviceable_for_def volume_ok_for_def)
  have in_volume: "block < sb_block_count sb" "sb_block_size sb = 1024"
    using specimen_after [OF A(1) vol] A(4) by (auto simp: free_blocks_def Ext2BlockExists_def static_fields specimen_superblock_def)
  note S = prompt_driver.serviceableE(4) [OF prompt_ramdisk.prompt_driver_axioms A(2) vol]
  obtain t x where W: "Ext2WriteBytes 0 block 4 3 [7, 8, 9] s = Some (t, Some x)"
    using prompt_driver.Ext2WriteBytes_answers [OF prompt_ramdisk.prompt_driver_axioms S vol in_volume(1), of 4 3 "[7, 8, 9]"] in_volume(2)
    by (auto simp: prompt_driver.answers_def [OF prompt_ramdisk.prompt_driver_axioms])
  then have "byte_at (disk_of ramdisk_block t) 0 specimen_superblock block 5 = Some 8"
    using held_blocks_keep_their_bytes [OF ramdisk.block_driver_axioms specimen_volume specimen_metadata_marked A(3), of block 5]
    by (auto simp: specimen_superblock_def)
  then show ?thesis using A(1) W by auto
qed

subsection \<open>The accounts\<close>

text \<open>C35: Where the counts kept of the free blocks are exact, an allocation and a release keep them
  so, in the group's descriptor, in the superblock structure and in the superblock upon the device,
  which reads the count back.  An allocation takes exactly one block from those the bitmaps have
  as free, a release puts exactly the one named back among them, and neither touches an inode.
  Both always return.
\<close>

theorem blocks_are_accounted_for:
  assumes "block_driver ops stored extent sound" "volume_ok_for ops stored extent sound d sb s" "exact_counts (disk_of stored s) d sb"
  shows "(\<exists>s' r. Ext2AllocateBlock (Some d) near True s = Some (s', r) \<and> (\<forall>taken. r = Some taken \<longrightarrow>
      accounted ops stored extent sound d s' \<and> taken \<in> free_blocks (disk_of stored s) d sb \<and>
      free_blocks (disk_of stored s') d sb = free_blocks (disk_of stored s) d sb - {taken} \<and>
      free_inodes (disk_of stored s') d sb = free_inodes (disk_of stored s) d sb)) \<and>
    (\<exists>s' r. Ext2FreeBlock (Some d) block s = Some (s', r) \<and> (r \<noteq> None \<longrightarrow>
      accounted ops stored extent sound d s' \<and> Ext2BlockExists sb block \<and> block \<notin> free_blocks (disk_of stored s) d sb \<and>
      free_blocks (disk_of stored s') d sb = insert block (free_blocks (disk_of stored s) d sb) \<and>
      free_inodes (disk_of stored s') d sb = free_inodes (disk_of stored s) d sb))"
  using block_driver.Ext2AllocateBlock_counts [OF assms, of near] block_driver.Ext2FreeBlock_counts [OF assms, of block]
  unfolding runs_def by blast

theorem blocks_are_accounted_for_witness:
  "\<exists>s taken. Ext2AllocateBlock (Some 0) 9 True specimen_volume = Some (s, Some taken) \<and>
     taken \<in> free_blocks specimen_content 0 specimen_superblock \<and>
     accounted RamdiskOperations ramdisk_block ramdisk_extent ramdisk_sound 0 s"
  using specimen_takes [of 9] blocks_are_accounted_for [OF ramdisk.block_driver_axioms specimen_volume specimen_exact, of 9] by fastforce

text \<open>C36: The same of the inodes, with the directory count changed on the side: one inode is taken
  from the free ones or put back among them, the counts of the group and of the volume stay exact
  and are read back from the device, and no block is touched.  An inode that belongs to the
  filesystem is never freed.
\<close>

theorem inodes_are_accounted_for:
  assumes "block_driver ops stored extent sound" "volume_ok_for ops stored extent sound d sb s" "exact_counts (disk_of stored s) d sb"
  shows "(\<exists>s' r. Ext2AllocateInode (Some d) directory True s = Some (s', r) \<and> (\<forall>taken. r = Some taken \<longrightarrow>
      accounted ops stored extent sound d s' \<and> taken \<in> free_inodes (disk_of stored s) d sb \<and>
      free_inodes (disk_of stored s') d sb = free_inodes (disk_of stored s) d sb - {taken} \<and>
      free_blocks (disk_of stored s') d sb = free_blocks (disk_of stored s) d sb)) \<and>
    (\<exists>s' r. Ext2FreeInode (Some d) number directory s = Some (s', r) \<and> (r \<noteq> None \<longrightarrow>
      accounted ops stored extent sound d s' \<and> inode_exists sb number \<and> sb_first_inode sb \<le> number \<and>
      number \<notin> free_inodes (disk_of stored s) d sb \<and>
      free_inodes (disk_of stored s') d sb = insert number (free_inodes (disk_of stored s) d sb) \<and>
      free_blocks (disk_of stored s') d sb = free_blocks (disk_of stored s) d sb))"
  using block_driver.Ext2AllocateInode_counts [OF assms, of directory] block_driver.Ext2FreeInode_counts [OF assms, of number directory]
  unfolding runs_def by blast

theorem inodes_are_accounted_for_witness:
  "\<exists>s taken. Ext2AllocateInode (Some 0) False True specimen_volume = Some (s, Some taken) \<and>
     taken \<in> free_inodes specimen_content 0 specimen_superblock \<and>
     accounted RamdiskOperations ramdisk_block ramdisk_extent ramdisk_sound 0 s"
proof -
  obtain s taken where "Ext2AllocateInode (Some 0) False True specimen_volume = Some (s, Some taken)"
    using prompt_driver.allocates_inode [OF prompt_ramdisk.prompt_driver_axioms specimen_serviceable specimen_volume_superblock specimen_free(2) specimen_reserved] by blast
  then show ?thesis using inodes_are_accounted_for [OF ramdisk.block_driver_axioms specimen_volume specimen_exact, of False] by auto
qed

text \<open>C37: A block or an inode that is already free is not freed again: the release is refused and the
  device, the superblock structure and so every count stay as they were.  The same of a block or an
  inode outside the volume, and of the inodes that belong to the filesystem.
\<close>

theorem freed_twice_is_refused:
  assumes "block_driver ops stored extent sound" "volume_ok_for ops stored extent sound d sb s"
  shows "(\<not> Ext2BlockExists sb block \<or> block \<in> free_blocks (disk_of stored s) d sb \<longrightarrow>
      (\<exists>s'. Ext2FreeBlock (Some d) block s = Some (s', None) \<and> disk_of stored s' = disk_of stored s \<and> volume s' = Some sb)) \<and>
    (\<not> inode_exists sb number \<or> number < sb_first_inode sb \<or> number \<in> free_inodes (disk_of stored s) d sb \<longrightarrow>
      (\<exists>s'. Ext2FreeInode (Some d) number directory s = Some (s', None) \<and> disk_of stored s' = disk_of stored s \<and> volume s' = Some sb))"
proof -
  have vol: "volume s = Some sb" using assms(2) by (simp add: volume_ok_for_def)
  have "runs (Ext2FreeBlock (Some d) block) s (\<lambda>s' r. r = None \<and> block_driver.still ops stored extent sound d s s')"
    if "\<not> Ext2BlockExists sb block \<or> block \<in> free_blocks (disk_of stored s) d sb"
    by (rule block_driver.Ext2FreeBlock_twice [OF assms]) (use that in \<open>auto simp: free_blocks_def block_used_def\<close>)
  moreover have "runs (Ext2FreeInode (Some d) number directory) s (\<lambda>s' r. r = None \<and> block_driver.still ops stored extent sound d s s')"
    if "\<not> inode_exists sb number \<or> number < sb_first_inode sb \<or> number \<in> free_inodes (disk_of stored s) d sb"
  proof (cases "number < sb_first_inode sb \<or> sb_inode_count sb < number")
    case True
    then show ?thesis by (rule block_driver.Ext2FreeInode_reserved [OF assms])
  next
    case False
    then show ?thesis
      by (intro block_driver.Ext2FreeInode_twice [OF assms]) (use that in \<open>auto simp: free_inodes_def inode_used_def inode_exists_def\<close>)
  qed
  ultimately show ?thesis unfolding runs_def block_driver.still_def [OF assms(1)] using vol by auto
qed

theorem freed_twice_is_refused_witness:
  "\<exists>s'. Ext2FreeBlock (Some 0) 9 specimen_volume = Some (s', None) \<and> disk_of ramdisk_block s' = specimen_content"
proof -
  have "9 \<in> free_blocks specimen_content 0 specimen_superblock"
    using specimen_block_used(2) [of 9] by (simp add: free_blocks_def Ext2BlockExists_def) (simp add: specimen_superblock_def)
  then show ?thesis using freed_twice_is_refused [OF ramdisk.block_driver_axioms specimen_volume, of 9] by blast
qed

subsection \<open>Requests are served\<close>

text \<open>C39: What is free can be had, and what is held can be given back.  Above a driver that answers
  and a cache of which no buffer is held, on a writable volume whose descriptors pass their checks
  and whose counts are exact, an allocation of a block yields one whenever a block of the volume is
  free, whichever group it lies in, and a release of a block in use succeeds; either leaves the
  volume so, and the next request is served likewise.  An allocation of an inode yields one whenever
  one is free, where the inodes that belong to the filesystem are all marked in the bitmaps, and
  leaves the volume so; where one of them is clear it may refuse.  A release of an inode in use that
  is not the filesystem's succeeds, and leaves the volume so where what its caller says of it, that
  it was a directory or was not, agrees with the group's count of directories.
\<close>

theorem free_space_is_found:
  assumes "prompt_driver ops stored extent sound" "serviceable_for ops stored extent sound d s" "volume s = Some sb"
  shows "(free_blocks (disk_of stored s) d sb \<noteq> {} \<longrightarrow> (\<exists>s' block. Ext2AllocateBlock (Some d) near True s = Some (s', Some block) \<and>
      block \<in> free_blocks (disk_of stored s) d sb \<and> serviceable_for ops stored extent sound d s')) \<and>
    (Ext2BlockExists sb held \<and> held \<notin> free_blocks (disk_of stored s) d sb \<longrightarrow>
      (\<exists>s'. Ext2FreeBlock (Some d) held s = Some (s', Some ()) \<and> serviceable_for ops stored extent sound d s')) \<and>
    (free_inodes (disk_of stored s) d sb \<noteq> {} \<and> (\<forall>n. inode_exists sb n \<and> n < sb_first_inode sb \<longrightarrow> n \<notin> free_inodes (disk_of stored s) d sb) \<longrightarrow>
      (\<exists>s' number. Ext2AllocateInode (Some d) directory True s = Some (s', Some number) \<and>
        number \<in> free_inodes (disk_of stored s) d sb \<and> serviceable_for ops stored extent sound d s')) \<and>
    (inode_exists sb number \<and> sb_first_inode sb \<le> number \<and> number \<notin> free_inodes (disk_of stored s) d sb \<longrightarrow>
      (\<exists>s'. Ext2FreeInode (Some d) number directory s = Some (s', Some ()) \<and>
        (told_truly sb (descriptor (disk_of stored s) d sb (inode_group sb number)) directory \<longrightarrow>
          serviceable_for ops stored extent sound d s')))"
proof (intro conjI impI; (elim conjE)?)
  show "\<exists>s' block. Ext2AllocateBlock (Some d) near True s = Some (s', Some block) \<and>
      block \<in> free_blocks (disk_of stored s) d sb \<and> serviceable_for ops stored extent sound d s'" if "free_blocks (disk_of stored s) d sb \<noteq> {}"
    by (rule prompt_driver.allocates_block [OF assms that])
  show "\<exists>s'. Ext2FreeBlock (Some d) held s = Some (s', Some ()) \<and> serviceable_for ops stored extent sound d s'"
    if "Ext2BlockExists sb held" "held \<notin> free_blocks (disk_of stored s) d sb"
    by (rule prompt_driver.frees_block [OF assms that])
  show "\<exists>s' number. Ext2AllocateInode (Some d) directory True s = Some (s', Some number) \<and>
        number \<in> free_inodes (disk_of stored s) d sb \<and> serviceable_for ops stored extent sound d s'"
    if "free_inodes (disk_of stored s) d sb \<noteq> {}" "\<forall>n. inode_exists sb n \<and> n < sb_first_inode sb \<longrightarrow> n \<notin> free_inodes (disk_of stored s) d sb"
    by (rule prompt_driver.allocates_inode [OF assms that(1)]) (use that(2) in \<open>auto simp: free_inodes_def\<close>)
  show "\<exists>s'. Ext2FreeInode (Some d) number directory s = Some (s', Some ()) \<and>
      (told_truly sb (descriptor (disk_of stored s) d sb (inode_group sb number)) directory \<longrightarrow> serviceable_for ops stored extent sound d s')"
    if "inode_exists sb number" "sb_first_inode sb \<le> number" "number \<notin> free_inodes (disk_of stored s) d sb"
    by (rule prompt_driver.frees_inode [OF assms that])
qed

theorem free_space_is_found_witness:
  "\<exists>s block t u number. Ext2AllocateBlock (Some 0) 3 True specimen_volume = Some (s, Some block) \<and>
     Ext2FreeBlock (Some 0) 6 specimen_volume = Some (t, Some ()) \<and>
     Ext2AllocateInode (Some 0) True True specimen_volume = Some (u, Some number) \<and>
     ramdisk_serviceable 0 s \<and> ramdisk_serviceable 0 t \<and> ramdisk_serviceable 0 u"
proof -
  have "Ext2BlockExists specimen_superblock 6" by (simp add: Ext2BlockExists_def specimen_superblock_def)
  then have held: "Ext2BlockExists specimen_superblock 6 \<and> 6 \<notin> free_blocks specimen_content 0 specimen_superblock"
    using specimen_block_used(2) [of 6] by (simp add: free_blocks_def)
  have own: "\<forall>n. inode_exists specimen_superblock n \<and> n < sb_first_inode specimen_superblock \<longrightarrow> n \<notin> free_inodes specimen_content 0 specimen_superblock"
  proof (intro allI impI)
    fix n assume n: "inode_exists specimen_superblock n \<and> n < sb_first_inode specimen_superblock"
    then have "n < 11" by (simp add: specimen_superblock_def)
    then have "unat n \<le> 10" by (simp add: word_less_nat_alt)
    then show "n \<notin> free_inodes specimen_content 0 specimen_superblock"
      using n specimen_inode_used(2) [of n] by (simp add: free_inodes_def)
  qed
  note F = free_space_is_found [OF prompt_ramdisk.prompt_driver_axioms specimen_serviceable specimen_volume_superblock, of 3 6 True]
  show ?thesis using F specimen_free held own unfolding specimen_volume_disk_def by blast
qed

subsection \<open>The superblock and runs of bytes\<close>

lemma accepted_blocks_counted:
  assumes geo: "geometry sb" and fits: "unat (sb_block_count sb) + unat (sb_blocks_per_group sb) \<le> 2 ^ 32"
    and block: "Ext2BlockExists sb block"
  shows "block_group sb block < sb_group_count sb"
proof -
  let ?n = "sb_block_count sb - sb_first_data_block sb"
  have first: "sb_first_data_block sb \<le> block" "block < sb_block_count sb" using block by (simp_all add: Ext2BlockExists_def)
  then have "unat ?n \<le> unat (sb_block_count sb)" by (simp add: unat_sub)
  then have "unat ?n + unat (sb_blocks_per_group sb) \<le> 2 ^ 32" using fits by simp
  moreover have "sb_blocks_per_group sb \<noteq> 0" using geo by (auto simp: geometry_def)
  moreover have "block - sb_first_data_block sb < ?n" using first by (simp add: word_less_nat_alt unat_sub word_le_nat_alt)
  ultimately have "(block - sb_first_data_block sb) div sb_blocks_per_group sb < Ext2DivideRoundingUp ?n (sb_blocks_per_group sb)"
    by (rule rounding_up_covers)
  then show ?thesis using geo by (simp add: block_group_def geometry_def)
qed

lemma accepted_inodes_counted:
  assumes geo: "geometry sb" and fits: "unat (sb_inode_count sb) + unat (sb_inodes_per_group sb) \<le> 2 ^ 32"
    and number: "inode_exists sb number"
  shows "inode_group sb number < sb_group_count sb"
proof -
  have "sb_inodes_per_group sb \<noteq> 0" using geo by (auto simp: geometry_def)
  moreover have "unat (number - 1) = unat number - 1" "0 < unat number"
    using number by (auto simp: inode_exists_def unat_minus_one unat_gt_0)
  then have "number - 1 < sb_inode_count sb" using number by (simp add: inode_exists_def word_less_nat_alt word_le_nat_alt) linarith
  ultimately have "(number - 1) div sb_inodes_per_group sb < Ext2DivideRoundingUp (sb_inode_count sb) (sb_inodes_per_group sb)"
    by (intro rounding_up_covers fits)
  moreover have "sb_group_count sb = Ext2DivideRoundingUp (sb_inode_count sb) (sb_inodes_per_group sb)"
    using geo unfolding geometry_def by blast
  ultimately show ?thesis by (simp add: inode_group_def)
qed

text \<open>C38: A superblock that is accepted describes groups the rest can work upon.  Its block size is
  one of three and no less than the device's, the first block of every group it counts is computed
  without wrapping, and every place of every group is a block of the volume, at that place and no
  other, whose bit lies within one block of bitmap; and so are the inodes' bits.  The sum by which
  the groups are counted may wrap, and the volume then counts too few; where neither it nor that of
  the inodes does, every block and every inode of the volume lies in a group that is counted.
\<close>

theorem accepted_superblock_is_workable:
  assumes "CheckedSuperblock shifted device_size raw = Inr sb"
  shows "sb_block_size sb \<in> {1024, 2048, 4096} \<and> device_size \<le> sb_block_size sb \<and>
    (\<forall>g < sb_group_count sb. unat (Ext2GroupFirstBlock sb g) = unat (sb_first_data_block sb) + unat g * unat (sb_blocks_per_group sb) \<and>
      (\<forall>i < Ext2GroupBlockCount sb g. Ext2BlockExists sb (Ext2GroupFirstBlock sb g + i) \<and> block_group sb (Ext2GroupFirstBlock sb g + i) = g \<and>
         block_index sb (Ext2GroupFirstBlock sb g + i) = i \<and> unat i < unat (sb_block_size sb) * 8)) \<and>
    (\<forall>block. Ext2BlockExists sb block \<longrightarrow> Ext2GroupFirstBlock sb (block_group sb block) + block_index sb block = block) \<and>
    (\<forall>number. inode_exists sb number \<longrightarrow> unat (inode_index sb number) < unat (sb_block_size sb) * 8 \<and>
       inode_group sb number * sb_inodes_per_group sb + inode_index sb number + 1 = number) \<and>
    (unat (sb_block_count sb) + unat (sb_blocks_per_group sb) \<le> 2 ^ 32 \<longrightarrow>
      (\<forall>block. Ext2BlockExists sb block \<longrightarrow> block_group sb block < sb_group_count sb)) \<and>
    (unat (sb_inode_count sb) + unat (sb_inodes_per_group sb) \<le> 2 ^ 32 \<longrightarrow>
      (\<forall>number. inode_exists sb number \<longrightarrow> inode_group sb number < sb_group_count sb))"
proof -
  note C = CheckedSuperblock_geometry [OF assms]
  have "sb_block_size sb \<in> {1024, 2048, 4096}" using C(1) unfolding geometry_def by blast
  moreover have "unat (Ext2GroupFirstBlock sb g) = unat (sb_first_data_block sb) + unat g * unat (sb_blocks_per_group sb)" if "g < sb_group_count sb" for g
    by (rule first_block_no_wrap [OF C(1) that])
  moreover have "unat (inode_index sb number) < unat (sb_block_size sb) * 8 \<and>
      inode_group sb number * sb_inodes_per_group sb + inode_index sb number + 1 = number" if "inode_exists sb number" for number
    using inode_place [OF C(1), of number] within_bitmap(3) [OF C(1)] that by (simp add: inode_exists_def)
  moreover have "block_group sb block < sb_group_count sb"
    if "unat (sb_block_count sb) + unat (sb_blocks_per_group sb) \<le> 2 ^ 32" "Ext2BlockExists sb block" for block
    by (rule accepted_blocks_counted [OF C(1) that])
  moreover have "inode_group sb number < sb_group_count sb"
    if "unat (sb_inode_count sb) + unat (sb_inodes_per_group sb) \<le> 2 ^ 32" "inode_exists sb number" for number
    by (rule accepted_inodes_counted [OF C(1) that])
  ultimately show ?thesis
    using C(3) group_blocks [OF C(1)] block_place(1) [OF C(1)] within_bitmap(1) [OF C(1)] by (auto simp del: insert_iff)
qed

text \<open>The superblock of the small volume as the device holds it.\<close>

definition specimen_raw :: "u8 list" where
  "specimen_raw = (replicate 1024 0)[0 := 16, 4 := 12, 12 := 5, 16 := 6, 20 := 1, 33 := 0x20, 37 := 0x20, 40 := 16, 54 := 20,
     56 := 0x53, 57 := 0xEF, 58 := 1, 60 := 1]"

lemma specimen_parsed: "ParsedSuperblock (\<lambda>places. push_bit (unat places) 1024) 512 specimen_raw = specimen_superblock"
  by (simp add: ParsedSuperblock_def specimen_raw_def specimen_superblock_def Ext2ReadWord_def Ext2ReadHalf_def Let_def nth_list_update
      Ext2DivideRoundingUp_def EXT2_GOOD_OLD_REV_def EXT2_GOOD_OLD_FIRST_INODE_def EXT2_GOOD_OLD_INODE_SIZE_def EXT2_VALID_FS_def)

lemma specimen_checked: "CheckedSuperblock (\<lambda>places. push_bit (unat places) 1024) 512 specimen_raw = Inr specimen_superblock"
  unfolding CheckedSuperblock_def Let_def specimen_parsed
  by (simp add: specimen_superblock_def specimen_raw_def Ext2ReadWord_def nth_list_update EXT2_SUPER_MAGIC_def EXT2_DYNAMIC_REV_def
      EXT2_MAXIMUM_LOG_BLOCK_SIZE_def EXT2_GOOD_OLD_INODE_SIZE_def EXT2_GOOD_OLD_FIRST_INODE_def Ext2DivideRoundingUp_def
      word_le_nat_alt word_less_nat_alt)

theorem accepted_superblock_is_workable_witness:
  "Ext2BlockExists specimen_superblock (Ext2GroupFirstBlock specimen_superblock 0 + 10) \<and>
   block_index specimen_superblock (Ext2GroupFirstBlock specimen_superblock 0 + 10) = 10"
proof -
  have "(10 :: u32) < Ext2GroupBlockCount specimen_superblock 0" "(0 :: u32) < sb_group_count specimen_superblock"
    by (simp_all add: Ext2GroupBlockCount_def Ext2GroupFirstBlock_def specimen_superblock_def)
  then show ?thesis using accepted_superblock_is_workable [OF specimen_checked] by blast
qed

text \<open>
  The sum does wrap for the greatest counts: a volume that says it holds 2^32 - 1 blocks and as many
  inodes, 8192 to a group, is accepted with no group at all, and yet holds block 5.
\<close>

definition wrapping_raw :: "u8 list" where
  "wrapping_raw = specimen_raw[0 := 255, 1 := 255, 2 := 255, 3 := 255, 4 := 255, 5 := 255, 6 := 255, 7 := 255, 40 := 0, 41 := 0x20]"

lemma wrapped_counts_are_accepted:
  "\<exists>sb. CheckedSuperblock (\<lambda>places. push_bit (unat places) 1024) 512 wrapping_raw = Inr sb \<and> sb_group_count sb = 0 \<and> Ext2BlockExists sb 5"
proof -
  define sb where "sb = specimen_superblock\<lparr>sb_inode_count := 0xFFFFFFFF, sb_block_count := 0xFFFFFFFF, sb_inodes_per_group := 0x2000,
    sb_group_count := 0\<rparr>"
  have parsed: "ParsedSuperblock (\<lambda>places. push_bit (unat places) 1024) 512 wrapping_raw = sb"
    by (simp add: ParsedSuperblock_def wrapping_raw_def specimen_raw_def sb_def specimen_superblock_def Ext2ReadWord_def Ext2ReadHalf_def
        Let_def nth_list_update Ext2DivideRoundingUp_def EXT2_GOOD_OLD_REV_def EXT2_GOOD_OLD_FIRST_INODE_def EXT2_GOOD_OLD_INODE_SIZE_def
        EXT2_VALID_FS_def)
  have "CheckedSuperblock (\<lambda>places. push_bit (unat places) 1024) 512 wrapping_raw = Inr sb"
    unfolding CheckedSuperblock_def Let_def parsed
    by (simp add: sb_def specimen_superblock_def wrapping_raw_def specimen_raw_def Ext2ReadWord_def nth_list_update EXT2_SUPER_MAGIC_def
        EXT2_DYNAMIC_REV_def EXT2_MAXIMUM_LOG_BLOCK_SIZE_def EXT2_GOOD_OLD_INODE_SIZE_def EXT2_GOOD_OLD_FIRST_INODE_def
        Ext2DivideRoundingUp_def word_le_nat_alt word_less_nat_alt)
  then show ?thesis by (auto simp: sb_def specimen_superblock_def Ext2BlockExists_def word_le_nat_alt word_less_nat_alt)
qed

text \<open>C40: A run of bytes written over a block, whichever buffers of the cache it spans, is the run read
  back: where the write succeeds a read of the same run either cannot be met or yields exactly the
  bytes written.  Above a driver that answers and a cache of which no buffer is held both succeed for
  every run within a block of the volume.
\<close>

theorem stored_bytes_are_fetched:
  assumes "block_driver ops stored extent sound" "ext2_ok_for ops stored extent sound d s" "volume s = Some sb" "sized sb" "length source = unat n"
  shows "(\<forall>s'. Ext2WriteBytes d block off n source s = Some (s', Some ()) \<longrightarrow>
      (\<exists>s'' r. Ext2ReadBytes d block off n s' = Some (s'', r) \<and> (r = None \<or> r = Some source))) \<and>
    (prompt_driver ops stored extent sound \<and> idle (cache s) \<and> present (disk_of stored s) d sb \<and> block < sb_block_count sb \<and>
       unat off + unat n \<le> unat (sb_block_size sb) \<longrightarrow>
      (\<exists>s' s''. Ext2WriteBytes d block off n source s = Some (s', Some ()) \<and> Ext2ReadBytes d block off n s' = Some (s'', Some source)))"
proof (intro conjI allI impI)
  have fetched: "\<exists>s'' r. Ext2ReadBytes d block off n s' = Some (s'', r) \<and> (r = None \<or> r = Some source)"
    if W: "Ext2WriteBytes d block off n source s = Some (s', Some ())" for s'
  proof -
    have E: "volume s' = Some sb" "ext2_ok_for ops stored extent sound d s'" "unat off + unat n \<le> unat (sb_block_size sb)"
      "disk_of stored s' = overwrite d (place sb block (unat off)) source (disk_of stored s)"
      using block_driver.Ext2WriteBytes_runs [OF assms(1-4), of n source block off] assms(3,5) W by (auto simp: runs_def)
    have "bytes_at (disk_of stored s') d sb block (unat off) source"
      unfolding bytes_at_def E(4) using E(3) assms(5) by (simp add: byte_overwrite [OF assms(4)])
    then show ?thesis
      using block_driver.Ext2ReadBytes_runs [OF assms(1) E(2,1) assms(4), of block off n] assms(5) bytes_at_unique
      unfolding runs_def by (metis option.exhaust)
  qed
  then show "\<exists>s'' r. Ext2ReadBytes d block off n s' = Some (s'', r) \<and> (r = None \<or> r = Some source)"
    if "Ext2WriteBytes d block off n source s = Some (s', Some ())" for s' using that by blast
  assume P: "prompt_driver ops stored extent sound \<and> idle (cache s) \<and> present (disk_of stored s) d sb \<and> block < sb_block_count sb \<and>
    unat off + unat n \<le> unat (sb_block_size sb)"
  then have d: "prompt_driver ops stored extent sound" "block < sb_block_count sb" "unat off + unat n \<le> unat (sb_block_size sb)" by simp_all
  note A = prompt_driver.answers_def [OF d(1)]
  have S: "prompt_driver.serving ops stored extent sound d s" using P assms(2-4) by (auto simp: prompt_driver.serving_def [OF d(1)])
  obtain s' where W: "Ext2WriteBytes d block off n source s = Some (s', Some ())" "prompt_driver.serving ops stored extent sound d s'"
    using prompt_driver.Ext2WriteBytes_answers [OF d(1) S assms(3) d(2,3), of source] assms(5) by (auto simp: A)
  have "volume s' = Some sb" using block_driver.Ext2WriteBytes_runs [OF assms(1-4), of n source block off] assms(3,5) W(1) by (simp add: runs_def)
  then obtain s'' r where "Ext2ReadBytes d block off n s' = Some (s'', Some r)"
    using prompt_driver.Ext2ReadBytes_answers [OF d(1) W(2) _ d(2,3)] by (auto simp: A)
  then show "\<exists>s' s''. Ext2WriteBytes d block off n source s = Some (s', Some ()) \<and> Ext2ReadBytes d block off n s' = Some (s'', Some source)"
    using W(1) fetched by fastforce
qed

theorem stored_bytes_are_fetched_witness:
  "\<exists>s t. Ext2WriteBytes 0 9 510 4 [1, 2, 3, 4] specimen_volume = Some (s, Some ()) \<and> Ext2ReadBytes 0 9 510 4 s = Some (t, Some [1, 2, 3, 4])"
proof -
  have V: "ext2_ok_for RamdiskOperations ramdisk_block ramdisk_extent ramdisk_sound 0 specimen_volume"
    using specimen_volume by (simp add: volume_ok_for_def)
  have s: "sized specimen_superblock" by (simp add: sized_def specimen_superblock_def)
  have len: "length [1, 2, 3, 4 :: u8] = unat (4 :: u32)" by simp
  have "(9 :: u32) < sb_block_count specimen_superblock" "unat (510 :: u32) + unat (4 :: u32) \<le> unat (sb_block_size specimen_superblock)"
    by (simp_all add: specimen_superblock_def)
  then show ?thesis
    using stored_bytes_are_fetched [OF ramdisk.block_driver_axioms V specimen_volume_superblock s len, of 9 510]
      prompt_ramdisk.prompt_driver_axioms specimen_volume_cache(4) specimen_present by blast
qed

end
