(* ===== verification/Spec2Isabelle.thy ===== *)
theory Spec2Isabelle
  imports FrameProperties PagingProperties ArenaProperties HeapProperties SchedulerProperties SignalProperties DeliveryProperties PipeProperties ElfProperties BufferProperties Ext2Properties
begin

text \<open>
  A verification library for the Oxys-OS kernel.  It models C sources under \<open>src/kernel\<close> and
  \<open>src/drivers\<close> as HOL definitions, operation by operation, and proves what makes each component
  correct.  Definitions carry the names of the functions and fields they model; a name of their own
  marks the body of a loop or the shared part of several functions.

  \<^bold>\<open>The program's parts and how they meet.\<close>  Frames of physical memory are handed out by
  \<open>mm/pmm.c\<close>; \<open>arch/x86_64/mm/paging.c\<close> takes from it the page tables and the frames of
  copy-on-write pages; \<open>mm/vmm.c\<close> reserves kernel addresses and backs them through both;
  \<open>mm/heap.c\<close> cuts blocks out of the pages so obtained, and the growing tables of
  \<open>mm/table.c\<close>, in which the other parts keep their objects, grow out of the heap.  The address
  spaces of \<open>arch/x86_64/mm/addrspace.c\<close> are trees of the same tables, into which the loader of
  \<open>exec/elf.c\<close> places a program.  Above them
  stand the scheduler (\<open>proc/sched.c\<close>) and the signals (\<open>proc/signal.c\<close>), which wake threads
  through it and reach a process through the frames of
  \<open>arch/x86_64/syscall/sigframe.c\<close>, read and written past the checks of user memory in
  \<open>syscall.c\<close>.  Pipes (\<open>fs/vfs/pipe.c\<close>) sleep and wake through the scheduler.  On the storage side
  drivers register with \<open>block/block.c\<close>, the cache of \<open>block/buffer.c\<close> is its client, and the ext2
  volume of \<open>fs/ext2\<close> is a client of the cache.

  \<^bold>\<open>How code is modelled.\<close>  Integers are words of the width the code gives them, and all
  arithmetic wraps as there.  A structure is a record with the code's fields; a table of objects is
  a list, and a pointer into it an index or \<open>None\<close> for \<open>NULL\<close>.  The static variables of
  a file are fields of one state record, passed in and returned updated.  An operation that may reach
  \<open>KernelPanic\<close> yields \<open>Inl\<close> of what was reported; a refusal is the value
  the code returns.  Page tables are frames of an explicit store, and the heap's headers and links are bytes of
  memory.

  \<^bold>\<open>Steps.\<close>  Of the sources modelled only \<open>proc/sched.c\<close> takes a lock, that of a run queue, around
  the three functions that change one; each of those is one step.  A reschedule, a sleep and a wake
  hold no lock throughout: \<open>Scheduler\<close> has their parts as definitions, \<open>SchedulerInterleaving\<close> the
  steps of several processors between one another's parts, and the operations made of them are the
  runs in which no other processor comes between.  All else is confined to the bootstrap processor
  (\<open>docs/design/CONCURRENCY.md\<close>), where nothing inside the kernel is preempted and the sections that
  an interrupt could reach mask it: there an operation is one step, and one that sleeps is several,
  divided where it sleeps.

  \<^bold>\<open>Theories.\<close>  Sources are relative to \<open>src/kernel\<close>.

  \<^item> \<open>OxysPrelude\<close>, the words, the outcome of an operation that may panic, the page geometry of
    \<open>include/oxys/mm/memory.h\<close>, and the shared lemmas; \<open>ByteMemory\<close>, memory as bytes;
    \<open>SlotSearch\<close>, the search of a growing table for a slot; \<open>Fifo\<close>, the contract of queues;
    \<open>Specimen\<close>, a machine of 320 frames at which the witnesses of the memory components are evaluated.

  \<^item> \<open>FrameAllocator\<close> models \<open>mm/pmm.c\<close>: the bitmap, the reference counts and the reading of the memory map.
    \<open>FrameBoot\<close> shows what initialisation establishes, \<open>FramePool\<close> that allocation and release respect
    every holder (the locale \<open>counted_pool\<close>), \<open>FrameRoom\<close> that enough free frames are enough.

  \<^item> \<open>Paging\<close> models \<open>arch/x86_64/mm/paging.c\<close>.  \<open>PagingTree\<close> describes a hierarchy as a tree of
    tables, \<open>PagingMap\<close> shows the mapping operations and \<open>PagingCow\<close> cloning and the copy-on-write
    fault.

  \<^item> \<open>AddressSpaces\<close> models \<open>arch/x86_64/mm/addrspace.c\<close> and \<open>ElfLoader\<close> \<open>exec/elf.c\<close>.
    \<open>ElfJudgement\<close> shows that an image is accepted exactly when it is well formed, \<open>ElfPages\<close>
    what the frame of a page holds and what its mapping leaves as it was, \<open>ElfSegments\<close>
    the invariant carried from page to page and segment to segment, and \<open>ElfService\<close> that loading
    returns, and succeeds where frames suffice.

  \<^item> \<open>KernelArena\<close> models \<open>mm/vmm.c\<close>: the sorted, coalesced free list, the bump pointer, and the
    backing of pages with its unwinding.  \<open>ArenaRegions\<close> is its address space as a source of regions,
    \<open>ArenaBacking\<close> its pages, \<open>PageSource\<close> the contract \<open>block_source\<close> it offers its clients.

  \<^item> \<open>KernelHeap\<close> models \<open>mm/heap.c\<close>; \<open>HeapSlabs\<close>, \<open>HeapShape\<close>, \<open>HeapBlocks\<close> and
    \<open>HeapContract\<close> show the shape of its memory, its invariant, and that it provides the same contract.
    \<open>KernelTables\<close> models \<open>mm/table.c\<close>, zeroed blocks, and the frame reference table.

  \<^item> \<open>Scheduler\<close> models \<open>proc/sched.c\<close>; \<open>RunQueues\<close> shows its links as lists and as an instance of
    \<open>Fifo\<close>, \<open>SchedulerSteps\<close> the invariant its operations keep, and \<open>SchedulerInterleaving\<close> the
    invariant over the interleaved steps of several processors.

  \<^item> \<open>Signals\<close> and \<open>SignalFacts\<close> model \<open>proc/signal.c\<close> above the scheduler; \<open>UserMemory\<close> the checks of
    user memory in \<open>arch/x86_64/syscall/syscall.c\<close>; \<open>SignalFrames\<close> the delivery of
    \<open>arch/x86_64/syscall/sigframe.c\<close>.

  \<^item> \<open>Pipes\<close> models \<open>fs/vfs/pipe.c\<close>; \<open>PipeRing\<close> shows its buffer as a queue.

  \<^item> \<open>BlockLayer\<close> models \<open>block/block.c\<close>; a driver is a record of its operations on a world of its own.
    \<open>BlockRegistry\<close> is the invariant of the registry; \<open>BlockContract\<close> the contract of a driver, in two
    strengths: \<open>block_driver\<close>, what a transfer that succeeds has done, and \<open>prompt_driver\<close>, that
    transfers within a device succeed.  \<open>Ramdisk\<close> models \<open>src/drivers/ramdisk/ramdisk.c\<close>, and
    \<open>RamdiskDriver\<close> interprets both contracts upon it.

  \<^item> \<open>BufferCache\<close> models \<open>block/buffer.c\<close>.  \<open>BufferLists\<close> and \<open>BufferChains\<close> show the recency list and
    the hash chains as lists, \<open>BufferCoherence\<close> defines the view of a block through the cache, and
    \<open>BufferOperations\<close>, \<open>BufferUpkeep\<close> and \<open>BufferHistory\<close> show that no operation changes it unasked.
    \<open>BufferPrompt\<close> shows that a cache of which no buffer is held serves every request.

  \<^item> \<open>Ext2Core\<close>, \<open>Ext2Volume\<close> and \<open>Ext2Alloc\<close> model \<open>fs/ext2/core.c\<close>, \<open>superblock.c\<close> and \<open>group.c\<close>,
    and \<open>alloc.c\<close>.  \<open>Ext2Medium\<close> and \<open>Ext2Bytes\<close> reduce runs of bytes through the cache to one array
    of bytes; \<open>Ext2Geometry\<close> is the arithmetic of groups; \<open>Ext2View\<close> reads bitmaps and descriptors from
    that array.  \<open>Ext2AllocFacts\<close>, \<open>Ext2AllocWrites\<close> and \<open>Ext2AllocOps\<close> show each operation of the
    allocator, failures half way included; \<open>Ext2Accounts\<close> that the counts stay exact, \<open>Ext2History\<close> what its clients may
    rely upon; \<open>Ext2Prompt\<close>, \<open>Ext2Answers\<close> and \<open>Ext2Service\<close> that it succeeds where it can.

  \<^item> The theories ending in \<open>Properties\<close> hold the properties of each group and their
    witnesses.

  \<^bold>\<open>Bounds and termination.\<close>  No fuel is used.  A loop the code bounds is recursion on what bounds it,
  or has a measure.  A walk along links that a corrupt structure could make endless (run queues, hash chains, the
  recency list), a search that may go on and the loop over the pages of a segment are \<open>partial_function (option)\<close>, whose value
  \<open>None\<close> is not returning; under the invariants each is shown to return.  The sizes are those
  of the code: 64 buffers and 128 chains, a free list of 128 ranges, 8 size classes.  The witnesses run on the small machine of
  \<open>Specimen\<close> and on a ramdisk that holds a volume of twelve blocks.

  \<^bold>\<open>What is assumed.\<close>  Hypotheses about what is outside a component are named definitions: that the boot information
  stays below the architectural limit of a physical address; the contract of a driver; for the
  volume its layout, that the blocks of the filesystem are marked in its bitmaps (\<open>metadata_marked\<close>),
  and, where a property needs it, that its counts are exact; for the interleavings of the scheduler,
  that a thread sleeps only upon the one processor its affinity names and that no two processors
  wake the same thread at the same moment; for the loader, that no large page lies below the user
  limit.  Each is discharged at a concrete state by a witness.

  \<^bold>\<open>Not modelled.\<close>  The reading of a program's file through the virtual filesystem, the inodes, files and directories of ext2, the virtual filesystem, processes and the
  dispatch of system calls are layers above the parts modelled.  The switch of
  registers, interrupt entry, controllers, the starting of processors and all drivers but
  the ramdisk are exchanges with hardware whose behaviour the sources do not hold.  The reports print
  what the state holds.  Graphics, the C library and the programs stand apart from the kernel, and fonts,
  images and tools are data.
\<close>

end
